(* ===== verification/Gx_Prelude.thy ===== *)
theory Gx_Prelude
  imports Main "HOL-Library.Word"
begin

unbundle bit_operations_syntax

text \<open>
  What the components of the kernel model share: the C integer conversions, the error
  numbers and flag constants of \<open>kernel/include/glidix\<close>, the value of a run that may
  end in \<open>panic()\<close>, and lemmas on words, lists and pointer-keyed stores.

  Conventions. A pointer is a \<open>nat option\<close> (\<open>None\<close> is \<open>NULL\<close>); the objects that
  pointers of one type reach are a function from addresses to records (a store). An
  \<open>int\<close> of the C code is an \<open>int\<close> here, with the reduction to 32 bits (\<open>c_int\<close>) written
  wherever a value may leave the range; a \<open>uint64_t\<close> is a \<open>64 word\<close> where it may wrap.
\<close>

section \<open>Machine integers\<close>

type_synonym u8 = "8 word"
type_synonym u16 = "16 word"
type_synonym u32 = "32 word"
type_synonym u64 = "64 word"

text \<open>The value an \<open>int\<close> holds after an assignment: two's complement on 32 bits.\<close>

definition c_int :: "int \<Rightarrow> int" where
  "c_int x = signed_take_bit 31 x"

text \<open>The cast \<open>(int) size\<close> of a 64-bit unsigned value.\<close>

definition c_int_of_u64 :: "u64 \<Rightarrow> int" where
  "c_int_of_u64 w = c_int (uint w)"

text \<open>A flag test \<open>x & m\<close> of the C code, as a condition.\<close>

definition has :: "'a::len word \<Rightarrow> 'a word \<Rightarrow> bool" where
  "has x m \<longleftrightarrow> x AND m \<noteq> 0"

lemma c_int_id: "- (2 ^ 31) \<le> x \<Longrightarrow> x < 2 ^ 31 \<Longrightarrow> c_int x = x"
  by (simp add: c_int_def signed_take_bit_int_eq_self)

lemma c_int_range: "- (2 ^ 31) \<le> c_int x" "c_int x < 2 ^ 31"
  unfolding c_int_def
  using signed_take_bit_int_greater_eq_minus_exp [of 31 x] signed_take_bit_int_less_exp [of 31 x]
  by simp_all

lemma c_int_add: "c_int (c_int x + y) = c_int (x + y)"
  using signed_take_bit_add [of 31 "signed_take_bit 31 x" y] signed_take_bit_add [of 31 x y]
  by (simp add: c_int_def)

lemma c_int_diff: "c_int (c_int x - y) = c_int (x - y)"
  using c_int_add [of x "- y"] by simp

lemma c_int_mod: "c_int x = (if x mod 2 ^ 32 < 2 ^ 31 then x mod 2 ^ 32 else x mod 2 ^ 32 - 2 ^ 32)"
proof -
  have "c_int x = (x + 2 ^ 31) mod 2 ^ 32 - 2 ^ 31"
    by (simp add: c_int_def signed_take_bit_eq_take_bit_shift take_bit_eq_mod)
  also have "(x + 2 ^ 31) mod 2 ^ 32 = (x mod 2 ^ 32 + 2 ^ 31) mod 2 ^ 32"
    by (simp only: mod_add_left_eq)
  finally have e: "c_int x = (x mod 2 ^ 32 + 2 ^ 31) mod 2 ^ 32 - 2 ^ 31" .
  have r: "0 \<le> x mod 2 ^ 32" "x mod 2 ^ 32 < 2 ^ 32" by simp_all
  show ?thesis
  proof (cases "x mod 2 ^ 32 < 2 ^ 31")
    case True
    with r e show ?thesis by (simp add: mod_pos_pos_trivial)
  next
    case False
    have "(x mod 2 ^ 32 + 2 ^ 31) mod 2 ^ 32 = (x mod 2 ^ 32 + 2 ^ 31 - 2 ^ 32) mod 2 ^ 32"
      using minus_mod_self2 [of "x mod 2 ^ 32 + 2 ^ 31" "2 ^ 32"] by (rule sym)
    also have "\<dots> = x mod 2 ^ 32 + 2 ^ 31 - 2 ^ 32" using False r by (intro mod_pos_pos_trivial) simp_all
    finally show ?thesis using e False by simp
  qed
qed

lemma c_int_of_u64_id: "uint w < 2 ^ 31 \<Longrightarrow> c_int_of_u64 w = uint w"
  using uint_ge_0 [of w] unfolding c_int_of_u64_def by (intro c_int_id) linarith+

lemma c_int_of_u64_of_nat: "n < 2 ^ 31 \<Longrightarrow> c_int_of_u64 (of_nat n) = int n"
  by (simp add: c_int_of_u64_def c_int_id unsigned_of_nat take_bit_nat_eq_self)

section \<open>Results\<close>

text \<open>
  \<open>panic()\<close> stops the machine; an operation that may reach one returns a \<open>kres\<close>.
\<close>

datatype 'a kres = Ok (kval: 'a) | Panic

fun kbind :: "'a kres \<Rightarrow> ('a \<Rightarrow> 'b kres) \<Rightarrow> 'b kres" where
  "kbind (Ok x) f = f x"
| "kbind Panic f = Panic"

lemma kbind_Ok_iff: "kbind m f = Ok y \<longleftrightarrow> (\<exists>x. m = Ok x \<and> f x = Ok y)"
  by (cases m) auto

section \<open>Error numbers and flags\<close>

text \<open>\<open>kernel/include/glidix/util/errno.h\<close>\<close>

abbreviation EAFNOSUPPORT :: int where "EAFNOSUPPORT \<equiv> 5"
abbreviation EAGAIN :: int where "EAGAIN \<equiv> 6"
abbreviation EBADF :: int where "EBADF \<equiv> 8"
abbreviation EBUSY :: int where "EBUSY \<equiv> 10"
abbreviation EDEADLK :: int where "EDEADLK \<equiv> 16"
abbreviation EINTR :: int where "EINTR \<equiv> 27"
abbreviation EINVAL :: int where "EINVAL \<equiv> 28"
abbreviation ENOTTY :: int where "ENOTTY \<equiv> 64"
abbreviation ENXIO :: int where "ENXIO \<equiv> 65"
abbreviation EOVERFLOW :: int where "EOVERFLOW \<equiv> 67"
abbreviation EPERM :: int where "EPERM \<equiv> 68"
abbreviation EPIPE :: int where "EPIPE \<equiv> 69"
abbreviation ETIMEDOUT :: int where "ETIMEDOUT \<equiv> 80"

text \<open>Open flags (\<open>kernel/include/glidix/fs/vfs.h\<close>)\<close>

abbreviation O_WRONLY :: u32 where "O_WRONLY \<equiv> 1"
abbreviation O_RDONLY :: u32 where "O_RDONLY \<equiv> 2"
abbreviation O_RDWR :: u32 where "O_RDWR \<equiv> 3"
abbreviation O_NOCTTY :: u32 where "O_NOCTTY \<equiv> 32"
abbreviation O_NONBLOCK :: u32 where "O_NONBLOCK \<equiv> 256"
abbreviation O_CLOEXEC :: u32 where "O_CLOEXEC \<equiv> 2048"

section \<open>Stores and lists\<close>

named_theorems store_simps \<open>how a field of a store of records reads after an update\<close>

lemma fun_upd_field [store_simps]: "(\<lambda>q. f ((h(p := r)) q)) = (\<lambda>q. f (h q))(p := f r)"
  by (auto simp: fun_eq_iff)

lemma distinct_append_Cons:
  "distinct (xs @ a # ys) \<longleftrightarrow> distinct (xs @ ys) \<and> a \<notin> set xs \<and> a \<notin> set ys"
  by auto

end
