(* ===== verification/Gx_Links.thy ===== *)
theory Gx_Links
  imports Gx_Prelude
begin

text \<open>
  The doubly linked lists of the kernel. Wait queues, timed events, locked ranges and
  fragment lists are all structs with \<open>prev\<close> and \<open>next\<close> pointers; the components model
  them with their pointers, and this theory relates such a structure to the list of the
  addresses on it. \<open>dll nx pv f l xs\<close> says that from \<open>f\<close> the \<open>next\<close> pointers run
  through \<open>xs\<close> to \<open>NULL\<close> and from \<open>l\<close> the \<open>prev\<close> pointers run back through it.
\<close>

section \<open>Paths\<close>

fun lpath :: "('p \<Rightarrow> 'p option) \<Rightarrow> 'p option \<Rightarrow> 'p list \<Rightarrow> 'p option \<Rightarrow> bool" where
  "lpath nx p [] q \<longleftrightarrow> p = q"
| "lpath nx p (x # xs) q \<longleftrightarrow> p = Some x \<and> lpath nx (nx x) xs q"

lemma lpath_append [simp]:
  "lpath nx p (xs @ ys) q \<longleftrightarrow> (\<exists>r. lpath nx p xs r \<and> lpath nx r ys q)"
  by (induction xs arbitrary: p) auto

lemma lpath_None [simp]: "lpath nx None xs q \<longleftrightarrow> xs = [] \<and> q = None"
  by (cases xs) auto

lemma lpath_upd [simp]: "a \<notin> set xs \<Longrightarrow> lpath (nx(a := v)) p xs q \<longleftrightarrow> lpath nx p xs q"
  by (induction xs arbitrary: p) auto

lemma lpath_Some: "lpath nx (Some a) xs None \<Longrightarrow> \<exists>ys. xs = a # ys \<and> lpath nx (nx a) ys None"
  by (cases xs) auto

lemma lpath_unique: "lpath nx p xs None \<Longrightarrow> lpath nx p ys None \<Longrightarrow> xs = ys"
proof (induction xs arbitrary: p ys)
  case Nil
  then show ?case by (cases ys) auto
next
  case (Cons x xs)
  then show ?case by (cases ys) auto
qed

text \<open>Taking \<open>a\<close> out of a path, as the \<open>next\<close> half of an unlink does.\<close>

lemma lpath_unlink:
  assumes "lpath nx f (xs @ a # ys) None" and "distinct (xs @ a # ys)"
    and "lpath pv (pv a) (rev xs) None"
  shows "lpath (case pv a of None \<Rightarrow> nx | Some p \<Rightarrow> nx(p := nx a))
           (if f = Some a then nx a else f) (xs @ ys) None"
proof (cases xs rule: rev_cases)
  case Nil
  with assms show ?thesis by simp
next
  case (snoc zs z)
  with assms have z: "pv a = Some z" and "z \<noteq> a" and "f \<noteq> Some a"
    by (cases zs; auto)+
  with assms snoc show ?thesis by auto
qed

section \<open>Doubly linked lists\<close>

definition dll :: "('p \<Rightarrow> 'p option) \<Rightarrow> ('p \<Rightarrow> 'p option) \<Rightarrow> 'p option \<Rightarrow> 'p option \<Rightarrow> 'p list \<Rightarrow> bool" where
  "dll nx pv f l xs \<longleftrightarrow> distinct xs \<and> lpath nx f xs None \<and> lpath pv l (rev xs) None"

lemma dll_rev: "dll nx pv f l xs \<longleftrightarrow> dll pv nx l f (rev xs)"
  by (auto simp: dll_def)

lemma dll_distinct: "dll nx pv f l xs \<Longrightarrow> distinct xs"
  by (simp add: dll_def)

lemma dll_Nil [simp]: "dll nx pv f l [] \<longleftrightarrow> f = None \<and> l = None"
  by (auto simp: dll_def)

lemma dll_None [simp]: "dll nx pv None l xs \<longleftrightarrow> xs = [] \<and> l = None"
  by (auto simp: dll_def)

lemma dll_Cons: "dll nx pv f l (x # xs) \<Longrightarrow> f = Some x"
  by (simp add: dll_def)

lemma dll_snoc_last: "dll nx pv f l (xs @ [z]) \<Longrightarrow> l = Some z"
  by (simp add: dll_def)

lemma dll_head: "dll nx pv (Some a) l xs \<Longrightarrow> \<exists>ys. xs = a # ys"
  by (auto simp: dll_def dest: lpath_Some)

lemma dll_last_None: "dll nx pv f None xs \<Longrightarrow> xs = []"
  by (auto simp: dll_def)

lemma dll_unique: "dll nx pv f l xs \<Longrightarrow> dll nx pv f l' ys \<Longrightarrow> xs = ys"
  by (auto simp: dll_def intro: lpath_unique)

lemma dll_next: "dll nx pv f l (xs @ a # b # ys) \<Longrightarrow> nx a = Some b"
  by (auto simp: dll_def)

lemma dll_next_end: "dll nx pv f l (xs @ [a]) \<Longrightarrow> nx a = None"
  by (auto simp: dll_def)

lemma dll_prev: "dll nx pv f l (xs @ a # b # ys) \<Longrightarrow> pv b = Some a"
  by (auto simp: dll_def)

lemma dll_prev_begin: "dll nx pv f l (a # xs) \<Longrightarrow> pv a = None"
  by (auto simp: dll_def)

lemma dll_next_hd: "dll nx pv f l (xs @ a # ys) \<Longrightarrow> nx a = (case ys of [] \<Rightarrow> None | b # _ \<Rightarrow> Some b)"
  by (cases ys) (auto simp: dll_def)

text \<open>Fields of objects that are not on the list do not matter.\<close>

lemma dll_upd_next [simp]: "a \<notin> set xs \<Longrightarrow> dll (nx(a := v)) pv f l xs \<longleftrightarrow> dll nx pv f l xs"
  by (simp add: dll_def)

lemma dll_upd_prev [simp]: "a \<notin> set xs \<Longrightarrow> dll nx (pv(a := v)) f l xs \<longleftrightarrow> dll nx pv f l xs"
  by (simp add: dll_def)

lemma lpath_cong: "lpath nx p xs q \<Longrightarrow> \<forall>e \<in> set xs. nx' e = nx e \<Longrightarrow> lpath nx' p xs q"
  by (induction xs arbitrary: p) auto

lemma dll_cong:
  assumes "dll nx pv f l xs" and "\<forall>e \<in> set xs. nx' e = nx e" and "\<forall>e \<in> set xs. pv' e = pv e"
  shows "dll nx' pv' f l xs"
  using assms lpath_cong [of nx f xs None nx'] lpath_cong [of pv l "rev xs" None pv']
  by (simp add: dll_def)

text \<open>The first element alone; appending, prepending and inserting; unlinking.\<close>

lemma dll_single: "nx a = None \<Longrightarrow> pv a = None \<Longrightarrow> dll nx pv (Some a) (Some a) [a]"
  by (simp add: dll_def)

lemma dll_append:
  assumes "dll nx pv f (Some z) xs" and "a \<notin> set xs"
  shows "dll (nx(z := Some a, a := None)) (pv(a := Some z)) f (Some a) (xs @ [a])"
proof (cases xs rule: rev_cases)
  case Nil
  with assms show ?thesis by (simp add: dll_def)
next
  case (snoc zs y)
  with assms show ?thesis by (auto simp: dll_def)
qed

lemma dll_prepend:
  assumes "dll nx pv (Some z) l xs" and "a \<notin> set xs"
  shows "dll (nx(a := Some z)) (pv(z := Some a, a := None)) (Some a) l (a # xs)"
  using dll_append [of pv nx l z "rev xs" a] assms dll_rev [of nx pv "Some z" l xs]
  by (simp add: dll_rev [of _ _ "Some a" l "a # xs"])

lemma dll_insert:
  assumes "dll nx pv f l (xs @ p # n # ys)" and "a \<notin> set (xs @ p # n # ys)"
  shows "dll (nx(a := Some n, p := Some a)) (pv(a := Some p, n := Some a)) f l (xs @ p # a # n # ys)"
  using assms by (auto simp: dll_def)

lemma dll_unlink:
  assumes "dll nx pv f l (xs @ a # ys)"
  shows "dll (case pv a of None \<Rightarrow> nx | Some p \<Rightarrow> nx(p := nx a))
             (case nx a of None \<Rightarrow> pv | Some n \<Rightarrow> pv(n := pv a))
             (if f = Some a then nx a else f) (if l = Some a then pv a else l) (xs @ ys)"
proof -
  from assms have d: "distinct (xs @ a # ys)" and n: "lpath nx f (xs @ a # ys) None"
    and p: "lpath pv l (rev ys @ a # rev xs) None"
    by (simp_all add: dll_def)
  from n p have na: "lpath nx (nx a) ys None" and pa: "lpath pv (pv a) (rev xs) None"
    by auto
  have "lpath (case nx a of None \<Rightarrow> pv | Some n \<Rightarrow> pv(n := pv a))
          (if l = Some a then pv a else l) (rev ys @ rev xs) None"
    by (rule lpath_unlink [OF p]) (use d na in auto)
  with lpath_unlink [OF n d pa] d show ?thesis
    by (simp add: dll_def)
qed

text \<open>Taking the first element off, when its \<open>next\<close> and \<open>prev\<close> are left as they are.\<close>

lemma dll_pop:
  assumes "dll nx pv f l (x # xs)"
  shows "dll nx (case xs of [] \<Rightarrow> pv | n # _ \<Rightarrow> pv(n := None)) (nx x)
           (if xs = [] then None else l) xs"
proof (cases xs)
  case Nil
  with assms show ?thesis by (simp add: dll_def)
next
  case (Cons n ys)
  then show ?thesis using assms dll_unlink [of nx pv f l "[]" x xs]
    by (cases "rev ys") (auto simp: dll_def)
qed

end
