(* ===== verification/Gx_Timer.thy ===== *)
theory Gx_Timer
  imports Gx_Links
begin

text \<open>
  \<open>kernel/src/util/time.c\<close>: the conversion of calendar dates to Unix time, the decoding of
  the RTC registers, and the list of timed events that wakes sleeping threads. The event
  list is modelled with its \<open>prev\<close> and \<open>next\<close> pointers and shown to implement a sorted
  list; the scan and the tick loop are options, \<open>None\<close> for a loop that does not return.
\<close>

section \<open>Calendar time\<close>

text \<open>Division of the C language: truncation towards zero.\<close>

definition c_div :: "int \<Rightarrow> int \<Rightarrow> int" where
  "c_div a b = sgn a * sgn b * (\<bar>a\<bar> div \<bar>b\<bar>)"

definition c_mod :: "int \<Rightarrow> int \<Rightarrow> int" where
  "c_mod a b = a - c_div a b * b"

lemma c_div_nonneg: "0 \<le> a \<Longrightarrow> 0 < b \<Longrightarrow> c_div a b = a div b"
  by (cases "a = 0") (auto simp: c_div_def)

lemma c_mod_nonneg: "0 \<le> a \<Longrightarrow> 0 < b \<Longrightarrow> c_mod a b = a mod b"
  by (simp add: c_mod_def c_div_nonneg minus_div_mult_eq_mod)

definition monthOffsets :: "int list" where
  "monthOffsets = [
     0,
     31,
     31 + 28,
     31 + 28 + 31,
     31 + 28 + 31 + 30,
     31 + 28 + 31 + 30 + 31,
     31 + 28 + 31 + 30 + 31 + 30,
     31 + 28 + 31 + 30 + 31 + 30 + 31,
     31 + 28 + 31 + 30 + 31 + 30 + 31 + 31,
     31 + 28 + 31 + 30 + 31 + 30 + 31 + 31 + 30,
     31 + 28 + 31 + 30 + 31 + 30 + 31 + 31 + 30 + 31,
     31 + 28 + 31 + 30 + 31 + 30 + 31 + 31 + 30 + 31 + 30]"

text \<open>\<open>None\<close> is the read of \<open>monthOffsets\<close> out of bounds.\<close>

definition makeUnixTime :: "int \<Rightarrow> int \<Rightarrow> int \<Rightarrow> int \<Rightarrow> int \<Rightarrow> int \<Rightarrow> int option" where
  "makeUnixTime year month day hour minute second =
     (if month < 1 \<or> 12 < month then None else
      let secondsToday = hour * 3600 + minute * 60 + second;
          dayOfYear = monthOffsets ! nat (month - 1) + (day - 1);
          dayOfYear = (if c_mod year 4 = 0 \<and> 3 \<le> month then dayOfYear + 1 else dayOfYear);
          secondsThisYear = dayOfYear * 86400 + secondsToday;
          relativeYear = year - 1970;
          secondsBeforeThisYear = relativeYear * 31536000 + c_div (relativeYear + 2) 4 * 86400
      in Some (secondsBeforeThisYear + secondsThisYear))"

text \<open>The calendar, for reference: the days of each month and year are counted out.\<close>

definition leap :: "nat \<Rightarrow> bool" where
  "leap y \<longleftrightarrow> (y mod 4 = 0 \<and> y mod 100 \<noteq> 0) \<or> y mod 400 = 0"

fun month_days :: "nat \<Rightarrow> nat \<Rightarrow> nat" where
  "month_days y m = (if m = 2 then (if leap y then 29 else 28)
     else if m \<in> {4, 6, 9, 11} then 30 else 31)"

fun days_before_month :: "nat \<Rightarrow> nat \<Rightarrow> nat" where
  "days_before_month y 0 = 0"
| "days_before_month y (Suc 0) = 0"
| "days_before_month y (Suc (Suc m)) = days_before_month y (Suc m) + month_days y (Suc m)"

fun days_since_1970 :: "nat \<Rightarrow> nat" where
  "days_since_1970 0 = 0"
| "days_since_1970 (Suc k) = days_since_1970 k + (if leap (1970 + k) then 366 else 365)"

definition unix_seconds :: "nat \<Rightarrow> nat \<Rightarrow> nat \<Rightarrow> nat \<Rightarrow> nat \<Rightarrow> nat \<Rightarrow> nat" where
  "unix_seconds y m d h mi s =
     (days_since_1970 (y - 1970) + days_before_month y m + (d - 1)) * 86400 + h * 3600 + mi * 60 + s"

lemma leap_4:
  assumes "1970 \<le> y" "y < 2100"
  shows "leap y \<longleftrightarrow> y mod 4 = 0"
proof (cases "y mod 100 = 0")
  case True
  then have "y = 100 * (y div 100)" by auto
  with assms have "y div 100 = 20" by linarith
  with \<open>y = 100 * (y div 100)\<close> have "y = 2000" by simp
  then show ?thesis by (simp add: leap_def)
next
  case False
  moreover have "y mod 400 = 0 \<Longrightarrow> y mod 100 = 0"
    using mod_mod_cancel [of 100 400 y] by simp
  ultimately show ?thesis by (auto simp: leap_def)
qed

lemma days_since_1970_eq: "k \<le> 130 \<Longrightarrow> days_since_1970 k = 365 * k + (k + 1) div 4"
proof (induction k)
  case 0
  show ?case by simp
next
  case (Suc k)
  have "(Suc k + 1) div 4 = (k + 1) div 4 + (if (1970 + k) mod 4 = 0 then 1 else 0)"
    by presburger
  with Suc show ?case by (simp add: leap_4)
qed

lemma days_before_month_Suc:
  "1 \<le> m \<Longrightarrow> days_before_month y (m + 1) = days_before_month y m + month_days y m"
  by (cases m) auto

lemma days_before_month_Feb: "days_before_month y 2 = 31"
  by (simp add: numeral_2_eq_2)

lemma days_before_month_table:
  "days_before_month y 1 = 0" "days_before_month y 2 = 31"
  "days_before_month y 3 = 59 + (if leap y then 1 else 0)"
  "days_before_month y 4 = 90 + (if leap y then 1 else 0)"
  "days_before_month y 5 = 120 + (if leap y then 1 else 0)"
  "days_before_month y 6 = 151 + (if leap y then 1 else 0)"
  "days_before_month y 7 = 181 + (if leap y then 1 else 0)"
  "days_before_month y 8 = 212 + (if leap y then 1 else 0)"
  "days_before_month y 9 = 243 + (if leap y then 1 else 0)"
  "days_before_month y 10 = 273 + (if leap y then 1 else 0)"
  "days_before_month y 11 = 304 + (if leap y then 1 else 0)"
  "days_before_month y 12 = 334 + (if leap y then 1 else 0)"
  using days_before_month_Feb [of y] days_before_month_Suc [of 2 y]
    days_before_month_Suc [of 3 y] days_before_month_Suc [of 4 y] days_before_month_Suc [of 5 y]
    days_before_month_Suc [of 6 y] days_before_month_Suc [of 7 y] days_before_month_Suc [of 8 y]
    days_before_month_Suc [of 9 y] days_before_month_Suc [of 10 y] days_before_month_Suc [of 11 y]
  by simp_all

lemma month_cases:
  assumes "1 \<le> m" "m \<le> (12 :: nat)"
  obtains "m = 1" | "m = 2" | "m = 3" | "m = 4" | "m = 5" | "m = 6" | "m = 7" | "m = 8"
    | "m = 9" | "m = 10" | "m = 11" | "m = 12"
proof -
  have "m = 1 \<or> m = 2 \<or> m = 3 \<or> m = 4 \<or> m = 5 \<or> m = 6 \<or> m = 7 \<or> m = 8 \<or> m = 9 \<or> m = 10 \<or>
      m = 11 \<or> m = 12"
    using assms by presburger
  with that show thesis by blast
qed

lemma days_before_month_eq:
  assumes "1 \<le> m" "m \<le> 12"
  shows "int (days_before_month y m) =
     monthOffsets ! nat (int m - 1) + (if leap y \<and> 3 \<le> m then 1 else 0)"
  using assms by (cases rule: month_cases) (simp_all add: days_before_month_table monthOffsets_def)

section \<open>The RTC registers\<close>

record rtc =
  rtc_second :: u8
  rtc_minute :: u8
  rtc_hour :: u8
  rtc_day :: u8
  rtc_month :: u8
  rtc_year :: u8

text \<open>
  The second half of \<open>rtcThread\<close>'s loop: the registers as read, made binary and 24-hour
  according to status register B. A \<open>uint8_t\<close> expression is computed as an \<open>int\<close> and
  stored back on 8 bits.
\<close>

definition from_bcd :: "u8 \<Rightarrow> u8" where
  "from_bcd x = (x AND 0xF) + (x div 16) * 10"

definition rtc_decode :: "u8 \<Rightarrow> rtc \<Rightarrow> rtc" where
  "rtc_decode registerB r =
     (let r = (if \<not> has registerB 0x04 then
                 r\<lparr>rtc_second := from_bcd (rtc_second r), rtc_minute := from_bcd (rtc_minute r),
                   rtc_hour := ((rtc_hour r AND 0x0F) + ((rtc_hour r AND 0x70) div 16) * 10)
                     OR (rtc_hour r AND 0x80),
                   rtc_day := from_bcd (rtc_day r), rtc_month := from_bcd (rtc_month r),
                   rtc_year := from_bcd (rtc_year r)\<rparr>
               else r)
      in if \<not> has registerB 0x02 \<and> has (rtc_hour r) 0x80 then
           r\<lparr>rtc_hour := ((rtc_hour r AND 0x7F) + 12) mod 24\<rparr>
         else r)"

definition rtc_time :: "rtc \<Rightarrow> int option" where
  "rtc_time r = makeUnixTime (2000 + uint (rtc_year r)) (uint (rtc_month r)) (uint (rtc_day r))
     (uint (rtc_hour r)) (uint (rtc_minute r)) (uint (rtc_second r))"

definition to_bcd :: "nat \<Rightarrow> u8" where
  "to_bcd n = of_nat (16 * (n div 10) + n mod 10)"

lemma all_less_100: "(\<forall>n<100. P n) \<longleftrightarrow> list_all P [0..<100]"
  by (auto simp: list_all_iff)

lemma from_bcd_to_bcd: "n < 100 \<Longrightarrow> from_bcd (to_bcd n) = of_nat n"
proof -
  have "\<forall>n<100. from_bcd (to_bcd n) = of_nat n"
    unfolding all_less_100 from_bcd_def to_bcd_def by code_simp
  then show "n < 100 \<Longrightarrow> ?thesis" by blast
qed

section \<open>Timed events\<close>

record TimedEvent =
  te_nanotime :: u64
  te_thread :: nat
  te_prev :: "nat option"
  te_next :: "nat option"

text \<open>The event structs, on the stacks of the waiting threads, and the list head.\<close>

record timers =
  tm_ev :: "nat \<Rightarrow> TimedEvent"
  tm_first :: "nat option"

definition set_te_prev :: "nat \<Rightarrow> nat option \<Rightarrow> (nat \<Rightarrow> TimedEvent) \<Rightarrow> nat \<Rightarrow> TimedEvent" where
  "set_te_prev p v h = h(p := (h p)\<lparr>te_prev := v\<rparr>)"

definition set_te_next :: "nat \<Rightarrow> nat option \<Rightarrow> (nat \<Rightarrow> TimedEvent) \<Rightarrow> nat \<Rightarrow> TimedEvent" where
  "set_te_next p v h = h(p := (h p)\<lparr>te_next := v\<rparr>)"

text \<open>The loop of \<open>timedPost\<close>: the event after which the new one goes.\<close>

partial_function (option) timedScan :: "(nat \<Rightarrow> TimedEvent) \<Rightarrow> u64 \<Rightarrow> nat \<Rightarrow> nat option" where
  "timedScan h nanotime scan =
     (case te_next (h scan) of
        None \<Rightarrow> Some scan
      | Some n \<Rightarrow>
          if te_nanotime (h scan) \<le> nanotime \<and> te_nanotime (h n) \<ge> nanotime then Some scan
          else timedScan h nanotime n)"

text \<open>The part of \<open>timedPost\<close> that links the event in: the store and the head after it.\<close>

definition timedLink ::
    "nat \<Rightarrow> u64 \<Rightarrow> (nat \<Rightarrow> TimedEvent) \<Rightarrow> nat option \<Rightarrow> ((nat \<Rightarrow> TimedEvent) \<times> nat option) option" where
  "timedLink ev nanotime h first =
     (case first of
        None \<Rightarrow> Some (set_te_prev ev None (set_te_next ev None h), Some ev)
      | Some f \<Rightarrow>
          if nanotime \<le> te_nanotime (h f) then
            Some (set_te_next ev (Some f) (set_te_prev ev None (set_te_prev f (Some ev) h)), Some ev)
          else case timedScan h nanotime f of
            None \<Rightarrow> None
          | Some scan \<Rightarrow>
              (case te_next (h scan) of
                 None \<Rightarrow> Some (set_te_next scan (Some ev) (set_te_next ev None
                           (set_te_prev ev (Some scan) h)), first)
               | Some n \<Rightarrow> Some (set_te_next scan (Some ev) (set_te_prev n (Some ev)
                           (set_te_prev ev (Some scan) (set_te_next ev (Some n) h))), first)))"

definition timedPost :: "nat \<Rightarrow> u64 \<Rightarrow> nat \<Rightarrow> timers \<Rightarrow> timers option" where
  "timedPost ev nanotime thread ts =
     (let h = (tm_ev ts)(ev := (tm_ev ts ev)\<lparr>te_nanotime := nanotime, te_thread := thread\<rparr>) in
      if nanotime = 0 then Some (ts\<lparr>tm_ev := set_te_prev ev None (set_te_next ev None h)\<rparr>)
      else case timedLink ev nanotime h (tm_first ts) of
        None \<Rightarrow> None
      | Some (h', first') \<Rightarrow> Some (ts\<lparr>tm_ev := h', tm_first := first'\<rparr>))"

definition timedCancel :: "nat \<Rightarrow> timers \<Rightarrow> timers" where
  "timedCancel ev ts =
     (let h = tm_ev ts;
          first = (if tm_first ts = Some ev then te_next (h ev) else tm_first ts);
          h = (case te_prev (h ev) of None \<Rightarrow> h | Some p \<Rightarrow> set_te_next p (te_next (h ev)) h);
          h = (case te_next (h ev) of None \<Rightarrow> h | Some n \<Rightarrow> set_te_prev n (te_prev (h ev)) h)
      in ts\<lparr>tm_ev := h, tm_first := first\<rparr>)"

text \<open>
  \<open>onTick\<close>, with the time of the tick: the state and the threads given to
  \<open>signalThread\<close>, in order; \<open>resched\<close> is what \<open>signalThread\<close> returns for a thread.
  \<open>doResched || signalThread(thread)\<close> does not signal once \<open>doResched\<close> holds. The
  scheduler lock and the yield are left out.
\<close>

partial_function (option) onTick_loop ::
    "u64 \<Rightarrow> (nat \<Rightarrow> bool) \<Rightarrow> bool \<Rightarrow> timers \<Rightarrow> nat list \<Rightarrow> (timers \<times> nat list) option" where
  "onTick_loop now resched doResched ts woken =
     (case tm_first ts of
        None \<Rightarrow> Some (ts, woken)
      | Some ev \<Rightarrow>
          if now \<le> te_nanotime (tm_ev ts ev) then Some (ts, woken)
          else
            let thread = te_thread (tm_ev ts ev);
                first = te_next (tm_ev ts ev);
                h = (case first of None \<Rightarrow> tm_ev ts | Some f \<Rightarrow> set_te_prev f None (tm_ev ts));
                h = set_te_prev ev None (set_te_next ev None h);
                ts' = ts\<lparr>tm_ev := h, tm_first := first\<rparr>
            in if doResched then onTick_loop now resched True ts' woken
               else onTick_loop now resched (resched thread) ts' (woken @ [thread]))"

definition onTick :: "u64 \<Rightarrow> (nat \<Rightarrow> bool) \<Rightarrow> timers \<Rightarrow> (timers \<times> nat list) option" where
  "onTick now resched ts = onTick_loop now resched False ts []"

section \<open>The event list is a sorted list\<close>

named_theorems te_simps \<open>fields of the event store after an update\<close>

lemma te_set_prev [te_simps]:
  "(\<lambda>e. te_prev (set_te_prev p v h e)) = (\<lambda>e. te_prev (h e))(p := v)"
  "(\<lambda>e. te_next (set_te_prev p v h e)) = (\<lambda>e. te_next (h e))"
  "te_nanotime (set_te_prev p v h e) = te_nanotime (h e)"
  "te_thread (set_te_prev p v h e) = te_thread (h e)"
  by (auto simp: set_te_prev_def fun_eq_iff)

lemma te_set_next [te_simps]:
  "(\<lambda>e. te_next (set_te_next p v h e)) = (\<lambda>e. te_next (h e))(p := v)"
  "(\<lambda>e. te_prev (set_te_next p v h e)) = (\<lambda>e. te_prev (h e))"
  "te_nanotime (set_te_next p v h e) = te_nanotime (h e)"
  "te_thread (set_te_next p v h e) = te_thread (h e)"
  by (auto simp: set_te_next_def fun_eq_iff)

lemma te_other [te_simps]:
  "e \<noteq> p \<Longrightarrow> te_next (set_te_next p v h e) = te_next (h e)"
  "e \<noteq> p \<Longrightarrow> te_prev (set_te_prev p v h e) = te_prev (h e)"
  by (simp_all add: set_te_prev_def set_te_next_def)

lemma te_same [te_simps]:
  "te_next (set_te_next p v h p) = v" "te_prev (set_te_prev p v h p) = v"
  "te_next (set_te_prev p v h e) = te_next (h e)" "te_prev (set_te_next p v h e) = te_prev (h e)"
  by (simp_all add: set_te_prev_def set_te_next_def)

definition te_links :: "(nat \<Rightarrow> TimedEvent) \<Rightarrow> nat option \<Rightarrow> nat list \<Rightarrow> bool" where
  "te_links h f evs \<longleftrightarrow> (\<exists>l. dll (\<lambda>e. te_next (h e)) (\<lambda>e. te_prev (h e)) f l evs)"

definition tm_inv :: "timers \<Rightarrow> nat list \<Rightarrow> bool" where
  "tm_inv ts evs \<longleftrightarrow> te_links (tm_ev ts) (tm_first ts) evs \<and> sorted (map (\<lambda>e. te_nanotime (tm_ev ts e)) evs) \<and>
     (\<forall>e \<in> set evs. te_nanotime (tm_ev ts e) \<noteq> 0)"

lemma timedScan_spec:
  assumes "lpath (\<lambda>e. te_next (h e)) (te_next (h scan)) ys None"
    and "sorted (map (\<lambda>e. te_nanotime (h e)) ys)" and "te_nanotime (h scan) < n"
  shows "timedScan h n scan = Some (last (scan # takeWhile (\<lambda>e. te_nanotime (h e) < n) ys))"
  using assms
proof (induction ys arbitrary: scan)
  case Nil
  then show ?case by (simp add: timedScan.simps)
next
  case (Cons y ys)
  show ?case
  proof (cases "te_nanotime (h y) < n")
    case True
    with Cons have "timedScan h n y = Some (last (y # takeWhile (\<lambda>e. te_nanotime (h e) < n) ys))"
      by simp
    moreover from True have "\<not> n \<le> te_nanotime (h y)" by simp
    ultimately show ?thesis using Cons.prems True by (subst timedScan.simps) simp
  next
    case False
    with Cons.prems show ?thesis by (subst timedScan.simps) auto
  qed
qed

definition timed_insert :: "(nat \<Rightarrow> u64) \<Rightarrow> nat \<Rightarrow> u64 \<Rightarrow> nat list \<Rightarrow> nat list" where
  "timed_insert t ev n evs = takeWhile (\<lambda>e. t e < n) evs @ ev # dropWhile (\<lambda>e. t e < n) evs"

lemma set_timed_insert [simp]: "set (timed_insert t ev n evs) = insert ev (set evs)"
proof -
  have "set evs = set (takeWhile (\<lambda>e. t e < n) evs) \<union> set (dropWhile (\<lambda>e. t e < n) evs)"
    by (metis set_append takeWhile_dropWhile_id)
  then show ?thesis by (auto simp: timed_insert_def)
qed

lemma sorted_timed_insert:
  assumes "sorted (map t evs)" and "ev \<notin> set evs"
  shows "sorted (map (t(ev := n)) (timed_insert t ev n evs))"
  using assms
proof (induction evs)
  case Nil
  then show ?case by (simp add: timed_insert_def)
next
  case (Cons e evs)
  show ?case
  proof (cases "t e < n")
    case True
    have IH: "sorted (map (t(ev := n)) (timed_insert t ev n evs))"
      using Cons.prems by (intro Cons.IH) auto
    have le: "\<forall>x \<in> set (timed_insert t ev n evs). (t(ev := n)) e \<le> (t(ev := n)) x"
      using True Cons.prems by auto
    have eq: "timed_insert t ev n (e # evs) = e # timed_insert t ev n evs"
      using True by (simp add: timed_insert_def)
    show ?thesis unfolding eq using IH le by (simp del: fun_upd_apply)
  next
    case False
    have m: "map (t(ev := n)) (ev # e # evs) = n # map t (e # evs)"
      using Cons.prems(2) by auto
    have "timed_insert t ev n (e # evs) = ev # e # evs"
      using False by (simp add: timed_insert_def)
    with False Cons.prems(1) show ?thesis unfolding m [symmetric]
      by (metis m list.simps(9) linorder_not_less order.trans sorted2)
  qed
qed

lemma te_linksI: "dll (\<lambda>e. te_next (h e)) (\<lambda>e. te_prev (h e)) f l evs \<Longrightarrow> te_links h f evs"
  by (auto simp: te_links_def)

text \<open>Where the scan stops, in the list of the addresses.\<close>

lemma timedScan_stop:
  assumes l: "dll (\<lambda>e. te_next (h e)) (\<lambda>e. te_prev (h e)) (Some f) l evs"
    and "sorted (map (\<lambda>e. te_nanotime (h e)) evs)" and "te_nanotime (h f) < n"
  obtains xs p where "timedScan h n f = Some p"
    and "takeWhile (\<lambda>e. te_nanotime (h e) < n) evs = xs @ [p]"
    and "evs = xs @ p # dropWhile (\<lambda>e. te_nanotime (h e) < n) evs"
proof -
  from dll_head [OF l] obtain ys where evs: "evs = f # ys" by blast
  with l have "lpath (\<lambda>e. te_next (h e)) (te_next (h f)) ys None" by (simp add: dll_def)
  with assms evs have scan: "timedScan h n f = Some (last (takeWhile (\<lambda>e. te_nanotime (h e) < n) evs))"
    by (subst timedScan_spec) auto
  from evs assms(3) have ne: "takeWhile (\<lambda>e. te_nanotime (h e) < n) evs \<noteq> []" by simp
  show thesis
    by (rule that [OF scan append_butlast_last_id [OF ne, symmetric]])
      (metis append.assoc append_Cons append_Nil append_butlast_last_id ne takeWhile_dropWhile_id)
qed

lemma timedLink_links:
  assumes l: "te_links h first evs" and sorted: "sorted (map (\<lambda>e. te_nanotime (h e)) evs)"
    and ev: "ev \<notin> set evs"
  shows "\<exists>h' f'. timedLink ev n h first = Some (h', f') \<and>
    te_links h' f' (timed_insert (\<lambda>e. te_nanotime (h e)) ev n evs) \<and>
    (\<forall>e. te_nanotime (h' e) = te_nanotime (h e)) \<and> (\<forall>e. te_thread (h' e) = te_thread (h e))"
proof (cases first)
  case None
  with l show ?thesis
    by (auto simp: timedLink_def te_simps te_links_def timed_insert_def intro!: exI dll_single)
next
  case (Some f)
  with l obtain l where l': "dll (\<lambda>e. te_next (h e)) (\<lambda>e. te_prev (h e)) (Some f) l evs"
    by (auto simp: te_links_def)
  then obtain ys where Cons: "evs = f # ys" by (blast dest: dll_head)
  show ?thesis
  proof (cases "n \<le> te_nanotime (h f)")
    case True
    with Cons have "timed_insert (\<lambda>e. te_nanotime (h e)) ev n evs = ev # evs"
      by (simp add: timed_insert_def linorder_not_less [symmetric])
    with True Some show ?thesis
      by (simp add: timedLink_def te_simps)
        (rule te_linksI, unfold te_simps, rule dll_prepend [OF l' ev])
  next
    case False
    let ?dr = "dropWhile (\<lambda>e. te_nanotime (h e) < n) evs"
    from False have "te_nanotime (h f) < n" by simp
    then obtain xs p where scan: "timedScan h n f = Some p"
      and tk: "takeWhile (\<lambda>e. te_nanotime (h e) < n) evs = xs @ [p]" and evs: "evs = xs @ p # ?dr"
      by (rule timedScan_stop [OF l' sorted])
    have ins: "timed_insert (\<lambda>e. te_nanotime (h e)) ev n evs = xs @ p # ev # ?dr"
      by (simp add: timed_insert_def tk)
    from evs ev have pev: "p \<noteq> ev" by (metis in_set_conv_decomp)
    show ?thesis
    proof (cases ?dr)
      case Nil
      with l' evs have lp: "l = Some p" and np: "te_next (h p) = None"
        by (metis dll_snoc_last, metis dll_next_end)
      from l' ev lp have *: "dll ((\<lambda>e. te_next (h e))(ev := None, p := Some ev))
          ((\<lambda>e. te_prev (h e))(ev := Some p)) (Some f) (Some ev) (evs @ [ev])"
        using dll_append [of "\<lambda>e. te_next (h e)" "\<lambda>e. te_prev (h e)" "Some f" p evs ev] pev
        by (simp add: fun_upd_twist)
      have "xs @ p # ev # ?dr = evs @ [ev]" using evs Nil by simp
      with Some False scan np show ?thesis unfolding ins
        by (simp add: timedLink_def te_simps) (rule te_linksI, unfold te_simps, rule *)
    next
      case (Cons m ys)
      with l' evs have np: "te_next (h p) = Some m" by (metis dll_next)
      from l' Cons evs ev have *: "dll ((\<lambda>e. te_next (h e))(ev := Some m, p := Some ev))
          ((\<lambda>e. te_prev (h e))(ev := Some p, m := Some ev)) (Some f) l (xs @ p # ev # m # ys)"
        by (intro dll_insert) auto
      from Some False scan np show ?thesis unfolding ins Cons
        by (simp add: timedLink_def te_simps) (rule te_linksI, unfold te_simps, rule *)
    qed
  qed
qed

lemma tm_invI:
  assumes "te_links (tm_ev ts) (tm_first ts) evs"
    and "sorted (map (\<lambda>e. te_nanotime (tm_ev ts e)) evs)"
    and "\<And>e. e \<in> set evs \<Longrightarrow> te_nanotime (tm_ev ts e) \<noteq> 0"
  shows "tm_inv ts evs"
  using assms by (auto simp: tm_inv_def)

lemma te_links_cong:
  assumes "te_links h f evs" and "\<And>e. e \<in> set evs \<Longrightarrow> te_next (h' e) = te_next (h e)"
    and "\<And>e. e \<in> set evs \<Longrightarrow> te_prev (h' e) = te_prev (h e)"
  shows "te_links h' f evs"
  using assms dll_cong [of _ _ f _ evs "\<lambda>e. te_next (h' e)" "\<lambda>e. te_prev (h' e)"]
  unfolding te_links_def by meson

lemma timedPost_inv:
  assumes inv: "tm_inv ts evs" and ev: "ev \<notin> set evs" and n: "n \<noteq> 0"
  shows "\<exists>ts'. timedPost ev n th ts = Some ts' \<and>
    tm_inv ts' (timed_insert (\<lambda>e. te_nanotime (tm_ev ts e)) ev n evs) \<and>
    (\<forall>e. te_nanotime (tm_ev ts' e) = ((\<lambda>e. te_nanotime (tm_ev ts e))(ev := n)) e) \<and>
    (\<forall>e. te_thread (tm_ev ts' e) = ((\<lambda>e. te_thread (tm_ev ts e))(ev := th)) e)"
proof -
  let ?h = "(tm_ev ts)(ev := (tm_ev ts ev)\<lparr>te_nanotime := n, te_thread := th\<rparr>)"
  let ?t = "\<lambda>e. te_nanotime (tm_ev ts e)"
  have t: "(\<lambda>e. te_nanotime (?h e)) = ?t(ev := n)" by (auto simp: fun_eq_iff)
  have m: "map (\<lambda>e. te_nanotime (?h e)) evs = map ?t evs" using ev by auto
  have ins: "timed_insert (\<lambda>e. te_nanotime (?h e)) ev n evs = timed_insert ?t ev n evs"
    unfolding timed_insert_def using ev
    by (metis (mono_tags, lifting) dropWhile_cong fun_upd_other takeWhile_cong)
  have "te_links ?h (tm_first ts) evs"
    by (rule te_links_cong [of "tm_ev ts"]) (use inv ev in \<open>auto simp: tm_inv_def\<close>)
  moreover have "sorted (map (\<lambda>e. te_nanotime (?h e)) evs)"
    unfolding m using inv by (simp add: tm_inv_def)
  ultimately obtain h' f' where link: "timedLink ev n ?h (tm_first ts) = Some (h', f')"
    and links: "te_links h' f' (timed_insert ?t ev n evs)"
    and times: "\<forall>e. te_nanotime (h' e) = te_nanotime (?h e)"
    and thr: "\<forall>e. te_thread (h' e) = te_thread (?h e)"
    using timedLink_links [of ?h "tm_first ts" evs ev n] ev unfolding ins by blast
  have "sorted (map (\<lambda>e. te_nanotime (h' e)) (timed_insert ?t ev n evs))"
    using sorted_timed_insert [of ?t evs ev n] inv ev times t by (simp add: tm_inv_def fun_upd_def)
  with link links times thr inv n show ?thesis
    by (auto simp: timedPost_def tm_inv_def Let_def)
qed

lemma timedPost_zero:
  assumes "tm_inv ts evs" and "ev \<notin> set evs"
  shows "\<exists>ts'. timedPost ev 0 th ts = Some ts' \<and> tm_inv ts' evs \<and>
    te_prev (tm_ev ts' ev) = None \<and> te_next (tm_ev ts' ev) = None \<and> tm_first ts' = tm_first ts"
proof -
  define h where "h = set_te_prev ev None (set_te_next ev None
    ((tm_ev ts)(ev := (tm_ev ts ev)\<lparr>te_nanotime := 0, te_thread := th\<rparr>)))"
  have other: "te_nanotime (h e) = te_nanotime (tm_ev ts e)" "te_next (h e) = te_next (tm_ev ts e)"
    "te_prev (h e) = te_prev (tm_ev ts e)" if "e \<noteq> ev" for e
    using that by (simp_all add: h_def te_simps)
  have m: "map (\<lambda>e. te_nanotime (h e)) evs = map (\<lambda>e. te_nanotime (tm_ev ts e)) evs"
    using assms(2) other(1) by (intro map_cong refl) metis
  have "te_links h (tm_first ts) evs"
  proof (rule te_links_cong [of "tm_ev ts"])
    show "te_links (tm_ev ts) (tm_first ts) evs" using assms by (simp add: tm_inv_def)
  qed (use assms(2) other in metis)+
  moreover have "sorted (map (\<lambda>e. te_nanotime (h e)) evs)"
    unfolding m using assms(1) by (simp add: tm_inv_def)
  moreover have "te_nanotime (h e) \<noteq> 0" if "e \<in> set evs" for e
    using that assms other(1) by (metis tm_inv_def)
  ultimately have "tm_inv (ts\<lparr>tm_ev := h\<rparr>) evs"
    by (intro tm_invI) simp_all
  moreover have "timedPost ev 0 th ts = Some (ts\<lparr>tm_ev := h\<rparr>)"
    by (simp add: timedPost_def h_def)
  moreover have "te_prev (h ev) = None" "te_next (h ev) = None"
    by (simp_all add: h_def te_simps)
  ultimately show ?thesis by simp
qed

lemma timedCancel_times [simp]: "te_nanotime (tm_ev (timedCancel ev ts) e) = te_nanotime (tm_ev ts e)"
  by (simp add: timedCancel_def Let_def te_simps split: option.split)

lemma timedCancel_thread [simp]: "te_thread (tm_ev (timedCancel ev ts) e) = te_thread (tm_ev ts e)"
  by (simp add: timedCancel_def Let_def te_simps split: option.split)

lemma timedCancel_links:
  assumes "te_links (tm_ev ts) (tm_first ts) (xs @ ev # ys)"
  shows "te_links (tm_ev (timedCancel ev ts)) (tm_first (timedCancel ev ts)) (xs @ ys)"
proof -
  from assms obtain l where "dll (\<lambda>e. te_next (tm_ev ts e)) (\<lambda>e. te_prev (tm_ev ts e))
      (tm_first ts) l (xs @ ev # ys)"
    by (auto simp: te_links_def)
  note u = dll_unlink [OF this]
  have d: "p \<noteq> ev" if "te_prev (tm_ev ts ev) = Some p" for p
    using assms that unfolding te_links_def
    by (cases xs rule: rev_cases) (auto simp: dll_def)
  show ?thesis
    by (rule te_linksI [where l = "if l = Some ev then te_prev (tm_ev ts ev) else l"])
      (use u d in \<open>auto simp: timedCancel_def Let_def te_simps split: option.splits if_splits\<close>)
qed

lemma timedCancel_inv:
  assumes inv: "tm_inv ts evs" and ev: "ev \<in> set evs"
  shows "tm_inv (timedCancel ev ts) (remove1 ev evs)"
proof -
  from ev obtain xs ys where evs: "evs = xs @ ev # ys" "ev \<notin> set xs"
    by (metis split_list_first)
  then have "remove1 ev evs = xs @ ys" by (simp add: remove1_append)
  with inv evs timedCancel_links [of ts xs ev ys] show ?thesis
    by (auto simp: tm_inv_def sorted_append)
qed

lemma timedCancel_unlinked:
  assumes "te_prev (tm_ev ts ev) = None" and "te_next (tm_ev ts ev) = None" and "tm_first ts \<noteq> Some ev"
  shows "timedCancel ev ts = ts"
  using assms by (simp add: timedCancel_def)

section \<open>The tick\<close>

text \<open>
  Of the expired events, those whose threads are signalled: up to the first for which
  \<open>signalThread\<close> asks for a reschedule, since \<open>||\<close> does not evaluate its right side then.
\<close>

fun signalled_part :: "('a \<Rightarrow> bool) \<Rightarrow> 'a list \<Rightarrow> 'a list" where
  "signalled_part r [] = []"
| "signalled_part r (x # xs) = x # (if r x then [] else signalled_part r xs)"

lemma signalled_part_all: "\<forall>x \<in> set xs. \<not> r x \<Longrightarrow> signalled_part r xs = xs"
  by (induction xs) auto

lemma signalled_part_prefix: "\<exists>ys. xs = signalled_part r xs @ ys"
  by (induction xs) auto

lemma tm_inv_pop:
  assumes inv: "tm_inv ts (ev # evs)"
  defines "first \<equiv> te_next (tm_ev ts ev)"
  defines "h \<equiv> set_te_prev ev None (set_te_next ev None
     (case first of None \<Rightarrow> tm_ev ts | Some f \<Rightarrow> set_te_prev f None (tm_ev ts)))"
  shows "tm_inv (ts\<lparr>tm_ev := h, tm_first := first\<rparr>) evs"
proof -
  from inv obtain l where l: "dll (\<lambda>e. te_next (tm_ev ts e)) (\<lambda>e. te_prev (tm_ev ts e))
      (tm_first ts) l (ev # evs)"
    by (auto simp: tm_inv_def te_links_def)
  from l have first: "first = (case evs of [] \<Rightarrow> None | f # _ \<Rightarrow> Some f)" and "ev \<notin> set evs"
    using dll_next_hd [of "\<lambda>e. te_next (tm_ev ts e)" "\<lambda>e. te_prev (tm_ev ts e)" "tm_first ts" l "[]" ev evs]
      dll_distinct [OF l]
    by (auto simp: first_def)
  with dll_pop [OF l] have "te_links h first evs"
    by (cases evs) (auto simp: h_def te_links_def te_simps first_def)
  moreover have "te_nanotime (h e) = te_nanotime (tm_ev ts e)" for e
    by (simp add: h_def te_simps split: option.split)
  ultimately show ?thesis using inv by (auto simp: tm_inv_def)
qed

lemma onTick_loop_spec:
  assumes "tm_inv ts evs"
  shows "\<exists>ts'. onTick_loop now resched d ts w = Some (ts',
      w @ (if d then [] else map (\<lambda>e. te_thread (tm_ev ts e))
        (signalled_part (\<lambda>e. resched (te_thread (tm_ev ts e)))
          (takeWhile (\<lambda>e. te_nanotime (tm_ev ts e) < now) evs)))) \<and>
    tm_inv ts' (dropWhile (\<lambda>e. te_nanotime (tm_ev ts e) < now) evs)"
  using assms
proof (induction evs arbitrary: ts d w)
  case Nil
  then show ?case by (auto simp: tm_inv_def te_links_def onTick_loop.simps)
next
  case (Cons ev evs)
  then have first: "tm_first ts = Some ev" by (auto simp: tm_inv_def te_links_def dll_def)
  show ?case
  proof (cases "now \<le> te_nanotime (tm_ev ts ev)")
    case True
    then have "\<not> te_nanotime (tm_ev ts ev) < now" by simp
    with first True Cons.prems show ?thesis by (subst onTick_loop.simps) simp
  next
    case False
    define first where "first = te_next (tm_ev ts ev)"
    define h where "h = set_te_prev ev None (set_te_next ev None
       (case first of None \<Rightarrow> tm_ev ts | Some f \<Rightarrow> set_te_prev f None (tm_ev ts)))"
    define ts' where "ts' = ts\<lparr>tm_ev := h, tm_first := first\<rparr>"
    have "tm_inv ts' evs"
      using tm_inv_pop [OF Cons.prems] by (simp add: ts'_def h_def first_def)
    note IH = Cons.IH [OF this]
    have eq: "te_nanotime (tm_ev ts' e) = te_nanotime (tm_ev ts e)"
      "te_thread (tm_ev ts' e) = te_thread (tm_ev ts e)" for e
      by (simp_all add: ts'_def h_def te_simps split: option.split)
    have step: "onTick_loop now resched d ts w = (let thread = te_thread (tm_ev ts ev) in
        if d then onTick_loop now resched True ts' w
        else onTick_loop now resched (resched thread) ts' (w @ [thread]))"
      using \<open>tm_first ts = Some ev\<close> False
      by (subst onTick_loop.simps) (simp add: ts'_def h_def first_def Let_def)
    from False have "te_nanotime (tm_ev ts ev) < now" by simp
    with IH [of True w] IH [of "resched (te_thread (tm_ev ts ev))" "w @ [te_thread (tm_ev ts ev)]"]
    show ?thesis unfolding step eq Let_def by auto
  qed
qed

section \<open>What the operations leave alone\<close>

text \<open>An event that is on no list has both links clear.\<close>

definition unlinked :: "timers \<Rightarrow> nat \<Rightarrow> bool" where
  "unlinked ts w \<longleftrightarrow> te_prev (tm_ev ts w) = None \<and> te_next (tm_ev ts w) = None"

lemma timedPost_unlinked:
  assumes inv: "tm_inv ts evs" and ev: "ev \<notin> set evs" and v: "v \<notin> set evs" "v \<noteq> ev"
    and post: "timedPost ev n th ts = Some ts'" and u: "unlinked ts v"
  shows "unlinked ts' v"
proof (cases "n = 0")
  case True
  with post u v show ?thesis
    by (auto simp: timedPost_def unlinked_def te_simps)
next
  case False
  define h where "h = (tm_ev ts)(ev := (tm_ev ts ev)\<lparr>te_nanotime := n, te_thread := th\<rparr>)"
  from v have hv: "te_prev (h v) = te_prev (tm_ev ts v)" "te_next (h v) = te_next (tm_ev ts v)"
    by (simp_all add: h_def)
  from post False obtain h' f' where link: "timedLink ev n h (tm_first ts) = Some (h', f')"
    and ts': "ts' = ts\<lparr>tm_ev := h', tm_first := f'\<rparr>"
    by (auto simp: timedPost_def h_def Let_def split: option.splits)
  have "te_links h (tm_first ts) evs"
    by (rule te_links_cong [of "tm_ev ts"]) (use inv ev in \<open>auto simp: tm_inv_def h_def\<close>)
  then obtain l where l: "dll (\<lambda>e. te_next (h e)) (\<lambda>e. te_prev (h e)) (tm_first ts) l evs"
    by (auto simp: te_links_def)
  have nxt: "m \<in> set evs" if "p \<in> set evs" "te_next (h p) = Some m" for p m
  proof -
    from that(1) obtain xs ys where "evs = xs @ p # ys" by (meson split_list)
    with l that(2) show ?thesis using dll_next_hd [of _ _ _ _ xs p ys] by (fastforce split: list.splits)
  qed
  have sorted: "sorted (map (\<lambda>e. te_nanotime (h e)) evs)"
  proof -
    have m: "map (\<lambda>e. te_nanotime (h e)) evs = map (\<lambda>e. te_nanotime (tm_ev ts e)) evs"
      using ev by (auto simp: h_def)
    show ?thesis unfolding m using inv by (simp add: tm_inv_def)
  qed
  have "te_prev (h' v) = te_prev (h v) \<and> te_next (h' v) = te_next (h v)"
  proof (cases "tm_first ts")
    case None
    with link v show ?thesis by (auto simp: timedLink_def te_simps)
  next
    case (Some f)
    with l have f: "f \<in> set evs" by (auto dest!: dll_head)
    with v have vf: "v \<noteq> f" by blast
    show ?thesis
    proof (cases "n \<le> te_nanotime (h f)")
      case True
      with link Some v vf show ?thesis by (auto simp: timedLink_def te_simps)
    next
      case False
      then have "te_nanotime (h f) < n" by simp
      then obtain xs p where p: "timedScan h n f = Some p" "evs = xs @ p # dropWhile (\<lambda>e. te_nanotime (h e) < n) evs"
        by (rule timedScan_stop [OF l [unfolded Some] sorted])
      then have "p \<in> set evs" by (metis in_set_conv_decomp)
      with v nxt [of p] have "v \<noteq> p" "\<And>m. te_next (h p) = Some m \<Longrightarrow> v \<noteq> m" by blast+
      with p(1) link Some False v show ?thesis
        by (cases "te_next (h p)") (auto simp: timedLink_def te_simps)
    qed
  qed
  with u hv show ?thesis by (simp add: unlinked_def ts')
qed

lemma onTick_loop_unlinked:
  assumes "tm_inv ts evs" and "onTick_loop now resched d ts w = Some (ts', w')"
    and "v \<notin> set evs \<and> unlinked ts v \<or>
      v \<in> set (takeWhile (\<lambda>e. te_nanotime (tm_ev ts e) < now) evs)"
  shows "unlinked ts' v"
  using assms
proof (induction evs arbitrary: ts d w)
  case Nil
  then show ?case by (auto simp: tm_inv_def te_links_def onTick_loop.simps)
next
  case (Cons ev evs)
  then have hd: "tm_first ts = Some ev" by (auto simp: tm_inv_def te_links_def dll_def)
  show ?case
  proof (cases "now \<le> te_nanotime (tm_ev ts ev)")
    case True
    with hd Cons.prems(2) have "ts' = ts" by (subst (asm) onTick_loop.simps) simp
    moreover from True have "\<not> te_nanotime (tm_ev ts ev) < now" by simp
    ultimately show ?thesis using Cons.prems(3) by auto
  next
    case False
    define first where "first = te_next (tm_ev ts ev)"
    define h where "h = set_te_prev ev None (set_te_next ev None
       (case first of None \<Rightarrow> tm_ev ts | Some f \<Rightarrow> set_te_prev f None (tm_ev ts)))"
    define t' where "t' = ts\<lparr>tm_ev := h, tm_first := first\<rparr>"
    have inv: "tm_inv t' evs"
      using tm_inv_pop [OF Cons.prems(1)] by (simp add: t'_def h_def first_def)
    have eq: "te_nanotime (tm_ev t' e) = te_nanotime (tm_ev ts e)" for e
      by (simp add: t'_def h_def te_simps split: option.split)
    obtain d' w'' where run: "onTick_loop now resched d' t' w'' = Some (ts', w')"
      using hd False Cons.prems(2)
      by (subst (asm) onTick_loop.simps) (auto simp: t'_def h_def first_def Let_def split: if_splits)
    have first': "f \<in> set evs" if "first = Some f" for f
      using inv that by (auto simp: t'_def tm_inv_def te_links_def dest!: dll_head)
    have dist: "ev \<notin> set evs"
      using Cons.prems(1) by (auto simp: tm_inv_def te_links_def dll_def)
    have "v \<notin> set evs \<Longrightarrow> v = ev \<or> unlinked ts v \<Longrightarrow> unlinked t' v"
      using first' by (auto simp: t'_def h_def unlinked_def set_te_prev_def set_te_next_def
          split: option.splits)
    with Cons.prems(3) dist show ?thesis
      by (intro Cons.IH [OF inv run]) (auto simp: eq split: if_splits)
  qed
qed

section \<open>Properties\<close>

definition timers0 :: timers where
  "timers0 = \<lparr>tm_ev = (\<lambda>_. \<lparr>te_nanotime = 0, te_thread = 0, te_prev = None, te_next = None\<rparr>),
     tm_first = None\<rparr>"

lemma timers0_inv [simp]: "tm_inv timers0 []"
  by (simp add: timers0_def tm_inv_def te_links_def)

text \<open>Two events on the list, at 5 and 7, of threads 11 and 22.\<close>

definition timers2 :: timers where
  "timers2 = \<lparr>tm_ev = (tm_ev timers0)(
       1 := \<lparr>te_nanotime = 5, te_thread = 11, te_prev = None, te_next = Some 2\<rparr>,
       2 := \<lparr>te_nanotime = 7, te_thread = 22, te_prev = Some 1, te_next = None\<rparr>),
     tm_first = Some 1\<rparr>"

lemma timers2_inv: "tm_inv timers2 [1, 2]"
  by (rule tm_invI) (auto simp: timers2_def te_links_def dll_def)

text \<open>C6: for the years of the RTC, \<open>makeUnixTime\<close> is the count of the seconds since 1970
  by the calendar, but in a leap year it is one day ahead.\<close>
theorem makeUnixTime_calendar:
  assumes "1970 \<le> y" "y < 2100" "1 \<le> m" "m \<le> 12" "1 \<le> d"
  shows "makeUnixTime (int y) (int m) (int d) (int h) (int mi) (int s) =
    Some (int (unix_seconds y m d h mi s) + (if leap y then 86400 else 0))"
proof -
  define k where "k = y - 1970"
  with assms have k: "y = 1970 + k" "k \<le> 130" by auto
  have leap: "leap y \<longleftrightarrow> (k + 2) mod 4 = 0"
  proof -
    have "(1970 + k) mod 4 = 0 \<longleftrightarrow> (k + 2) mod 4 = 0" by presburger
    with leap_4 [OF assms(1,2)] k(1) show ?thesis by simp
  qed
  have div: "(int k + 2) div 4 = (int k + 1) div 4 + (if leap y then 1 else 0)"
    unfolding leap by presburger
  have mod: "c_mod (int y) 4 = 0 \<longleftrightarrow> leap y"
  proof -
    have "int y mod 4 = int (y mod 4)" by (simp add: zmod_int)
    then show ?thesis using leap_4 [OF assms(1,2)] by (simp add: c_mod_nonneg)
  qed
  have days: "int (days_since_1970 k) = 365 * int k + (int k + 1) div 4"
    using days_since_1970_eq [OF k(2)] by simp
  have rel: "int y - 1970 = int k" using k by simp
  have diff: "int (d - 1) = int d - 1" using assms(5) by auto
  define mo where "mo = monthOffsets ! nat (int m - 1)"
  have dbm: "int (days_before_month y m) = mo + (if leap y \<and> 3 \<le> m then 1 else 0)"
    using days_before_month_eq [OF assms(3,4), of y] by (simp add: mo_def)
  have us: "int (unix_seconds y m d h mi s) =
      (365 * int k + (int k + 1) div 4 + int (days_before_month y m) + (int d - 1)) * 86400
      + int h * 3600 + int mi * 60 + int s"
    using days diff unfolding unix_seconds_def k_def [symmetric] by simp
  have "makeUnixTime (int y) (int m) (int d) (int h) (int mi) (int s) =
      Some (int k * 31536000 + ((int k + 2) div 4) * 86400 +
        ((mo + (int d - 1) + (if leap y \<and> 3 \<le> m then 1 else 0)) * 86400 +
         (int h * 3600 + int mi * 60 + int s)))"
    using assms(3,4) by (simp add: makeUnixTime_def Let_def mod rel c_div_nonneg mo_def [symmetric])
  then show ?thesis unfolding us div dbm by (simp add: algebra_simps)
qed

theorem makeUnixTime_calendar_witness:
  "makeUnixTime 2024 3 1 12 0 0 = Some (int (unix_seconds 2024 3 1 12 0 0) + 86400)"
  using makeUnixTime_calendar [of 2024 3 1 12 0 0] by (simp add: leap_def)

text \<open>C5: \<open>timedPost\<close> on a well-formed event list returns, and links the event into the
  list in the order of the times, before those of the same time.\<close>
theorem timedPost_sorted:
  assumes "tm_inv ts evs" and "ev \<notin> set evs" and "n \<noteq> 0"
  shows "\<exists>ts'. timedPost ev n th ts = Some ts' \<and>
    tm_inv ts' (takeWhile (\<lambda>e. te_nanotime (tm_ev ts e) < n) evs @ ev #
                dropWhile (\<lambda>e. te_nanotime (tm_ev ts e) < n) evs) \<and>
    te_nanotime (tm_ev ts' ev) = n \<and> te_thread (tm_ev ts' ev) = th"
  using timedPost_inv [OF assms, of th] by (auto simp: timed_insert_def)

theorem timedPost_sorted_witness:
  "\<exists>ts'. timedPost 3 6 33 timers2 = Some ts' \<and> tm_inv ts' [1, 3, 2]"
  using timedPost_sorted [OF timers2_inv, of 3 6 33] by (auto simp: timers2_def)

text \<open>A tick returns; it takes the expired events off the list and keeps the others, and
  it signals the threads of the expired events up to the first whose priority asks for a
  reschedule: the threads of the rest are not woken, and their events are gone.\<close>
theorem onTick_signals:
  assumes "tm_inv ts evs"
  shows "\<exists>ts'. onTick now resched ts = Some (ts',
      map (\<lambda>e. te_thread (tm_ev ts e)) (signalled_part (\<lambda>e. resched (te_thread (tm_ev ts e)))
        (takeWhile (\<lambda>e. te_nanotime (tm_ev ts e) < now) evs))) \<and>
    tm_inv ts' (dropWhile (\<lambda>e. te_nanotime (tm_ev ts e) < now) evs)"
  using onTick_loop_spec [OF assms, of now resched False "[]"] by (simp add: onTick_def)

theorem onTick_signals_witness:
  "\<exists>ts'. onTick 9 (\<lambda>th. th = 11) timers2 = Some (ts', [11]) \<and> tm_inv ts' []"
  using onTick_signals [OF timers2_inv, of 9 "\<lambda>th. th = 11"] by (auto simp: timers2_def)

end
