(* ===== verification/Gx_Semaphore.thy ===== *)
theory Gx_Semaphore
  imports Gx_Timer
begin

text \<open>
  \<open>kernel/src/thread/semaphore.c\<close>: counting semaphores with a queue of waiting threads,
  non-blocking, interruptible and timed waits, termination, and \<open>semPoll\<close>.

  The waiters are structs on the stacks of the waiting threads, linked with \<open>prev\<close> and
  \<open>next\<close>; a waiter and the timed event posted beside it have one address. A function that
  may sleep is cut where it gives up the spinlock: \<open>semWaitGen\<close> and \<open>semPoll\<close> run up to the
  first sleep, and \<open>semWait_resume\<close> and \<open>semPoll_resume\<close> from a wake-up to the next one.
  What runs between is atomic in the code: interrupts are off and the spinlock is held.
  \<open>k_woken\<close> lists the threads given to \<open>signalThread\<close>; the yields that may follow are left out,
  and so is the debug output of \<open>SEM_DEBUG\<close>.
\<close>

section \<open>Data\<close>

abbreviation SEM_W_INTR :: u32 where "SEM_W_INTR \<equiv> 1"
abbreviation SEM_W_NONBLOCK :: u32 where "SEM_W_NONBLOCK \<equiv> 256"
abbreviation SEM_TERMINATED :: u32 where "SEM_TERMINATED \<equiv> 1"

definition SEM_W_FILE :: "u32 \<Rightarrow> u32" where
  "SEM_W_FILE oflag = (oflag AND SEM_W_NONBLOCK) OR SEM_W_INTR"

record SemWaitThread =
  sw_thread :: nat
  sw_give :: bool
  sw_prev :: "nat option"
  sw_next :: "nat option"

record Semaphore =
  sem_count :: int
  sem_flags :: u32
  sem_first :: "nat option"
  sem_last :: "nat option"

record kern =
  k_sems :: "nat \<Rightarrow> Semaphore"
  k_wait :: "nat \<Rightarrow> SemWaitThread"
  k_timers :: timers
  k_woken :: "nat list"

definition set_sem :: "nat \<Rightarrow> Semaphore \<Rightarrow> kern \<Rightarrow> kern" where
  "set_sem s v k = k\<lparr>k_sems := (k_sems k)(s := v)\<rparr>"

definition set_count :: "nat \<Rightarrow> int \<Rightarrow> kern \<Rightarrow> kern" where
  "set_count s n k = set_sem s ((k_sems k s)\<lparr>sem_count := n\<rparr>) k"

definition set_wait :: "nat \<Rightarrow> SemWaitThread \<Rightarrow> kern \<Rightarrow> kern" where
  "set_wait w v k = k\<lparr>k_wait := (k_wait k)(w := v)\<rparr>"

definition set_sw_prev :: "nat \<Rightarrow> nat option \<Rightarrow> kern \<Rightarrow> kern" where
  "set_sw_prev w v k = set_wait w ((k_wait k w)\<lparr>sw_prev := v\<rparr>) k"

definition set_sw_next :: "nat \<Rightarrow> nat option \<Rightarrow> kern \<Rightarrow> kern" where
  "set_sw_next w v k = set_wait w ((k_wait k w)\<lparr>sw_next := v\<rparr>) k"

abbreviation count :: "kern \<Rightarrow> nat \<Rightarrow> int" where "count k s \<equiv> sem_count (k_sems k s)"
abbreviation terminated :: "kern \<Rightarrow> nat \<Rightarrow> bool" where
  "terminated k s \<equiv> has (sem_flags (k_sems k s)) SEM_TERMINATED"

section \<open>Queue operations\<close>

definition semInit2 :: "nat \<Rightarrow> int \<Rightarrow> kern \<Rightarrow> kern" where
  "semInit2 s n k = set_sem s \<lparr>sem_count = n, sem_flags = 0, sem_first = None, sem_last = None\<rparr> k"

definition semInit :: "nat \<Rightarrow> kern \<Rightarrow> kern" where
  "semInit s k = semInit2 s 1 k"

definition sem_enqueue :: "nat \<Rightarrow> nat \<Rightarrow> kern \<Rightarrow> kern" where
  "sem_enqueue s w k =
     (case sem_first (k_sems k s) of
        None \<Rightarrow> set_sem s ((k_sems k s)\<lparr>sem_first := Some w, sem_last := Some w\<rparr>) k
      | Some _ \<Rightarrow>
          (let last = sem_last (k_sems k s);
               k = set_sw_prev w last k;
               k = (case last of None \<Rightarrow> k | Some l \<Rightarrow> set_sw_next l (Some w) k)
           in set_sem s ((k_sems k s)\<lparr>sem_last := Some w\<rparr>) k))"

text \<open>The first waiter is given the semaphore, taken off the queue and signalled.\<close>

definition sem_notify :: "nat \<Rightarrow> kern \<Rightarrow> kern" where
  "sem_notify s k =
     (case sem_first (k_sems k s) of
        None \<Rightarrow> k
      | Some w \<Rightarrow>
          (let thread = sw_thread (k_wait k w);
               last = (if sem_first (k_sems k s) = sem_last (k_sems k s) then None
                       else sem_last (k_sems k s));
               k = set_wait w ((k_wait k w)\<lparr>sw_give := True\<rparr>) k;
               first = sw_next (k_wait k w);
               k = set_sem s ((k_sems k s)\<lparr>sem_first := first, sem_last := last\<rparr>) k;
               k = (case first of None \<Rightarrow> k | Some f \<Rightarrow> set_sw_prev f None k)
           in k\<lparr>k_woken := k_woken k @ [thread]\<rparr>))"

text \<open>A waiter gives up.\<close>

definition sem_unlink :: "nat \<Rightarrow> nat \<Rightarrow> kern \<Rightarrow> kern" where
  "sem_unlink s w k =
     (let k = (case sw_prev (k_wait k w) of None \<Rightarrow> k
               | Some p \<Rightarrow> set_sw_next p (sw_next (k_wait k w)) k);
          k = (case sw_next (k_wait k w) of None \<Rightarrow> k
               | Some n \<Rightarrow> set_sw_prev n (sw_prev (k_wait k w)) k);
          k = (if sem_first (k_sems k s) = Some w
               then set_sem s ((k_sems k s)\<lparr>sem_first := sw_next (k_wait k w)\<rparr>) k else k)
      in if sem_last (k_sems k s) = Some w
         then set_sem s ((k_sems k s)\<lparr>sem_last := sw_prev (k_wait k w)\<rparr>) k else k)"

section \<open>Waiting\<close>

text \<open>The local variables of a call that sleeps, and the ways a run of a call ends.\<close>

record semcall =
  sc_sem :: nat
  sc_count :: int
  sc_flags :: u32
  sc_deadline :: u64
  sc_waiter :: nat
  sc_thread :: nat

datatype sem_out =
    SemRet int kern      \<comment> \<open>the call returned\<close>
  | SemSleep semcall kern \<comment> \<open>the thread waits, the spinlock is released\<close>
  | SemHang              \<comment> \<open>the run does not end\<close>

text \<open>The body of \<open>while (!waiter.give)\<close>, up to the sleep.\<close>

definition semWait_notgiven :: "semcall \<Rightarrow> u64 \<Rightarrow> bool \<Rightarrow> kern \<Rightarrow> sem_out" where
  "semWait_notgiven c now sigs k =
     (if now \<ge> sc_deadline c \<and> sc_deadline c \<noteq> 0 then
        SemRet (- ETIMEDOUT) (sem_unlink (sc_sem c) (sc_waiter c)
          (k\<lparr>k_timers := timedCancel (sc_waiter c) (k_timers k)\<rparr>))
      else if has (sc_flags c) SEM_W_INTR \<and> sigs then
        SemRet (- EINTR) (sem_unlink (sc_sem c) (sc_waiter c)
          (k\<lparr>k_timers := timedCancel (sc_waiter c) (k_timers k)\<rparr>))
      else SemSleep c k)"

text \<open>What follows the outer loop: resources are taken, and the next waiter is notified.\<close>

definition semWait_take :: "semcall \<Rightarrow> kern \<Rightarrow> int \<times> kern" where
  "semWait_take c k =
     (let s = sc_sem c;
          (result, k) =
            (if count k s = -1 then (0, k)
             else if count k s \<ge> sc_count c
               then (sc_count c, set_count s (c_int (count k s - sc_count c)) k)
             else (count k s, set_count s 0 k));
          k = (if count k s \<noteq> 0 then sem_notify s k
               else if terminated k s then set_count s (-1) k else k)
      in (result, k))"

text \<open>\<open>while (sem->count == 0)\<close>\<close>

definition semWait_outer :: "semcall \<Rightarrow> u64 \<Rightarrow> bool \<Rightarrow> kern \<Rightarrow> sem_out" where
  "semWait_outer c now sigs k =
     (let s = sc_sem c; w = sc_waiter c in
      if count k s = 0 then
        (let k = set_wait w ((k_wait k w)\<lparr>sw_give := False, sw_prev := None, sw_next := None\<rparr>) k in
         if has (sc_flags c) SEM_W_NONBLOCK then SemRet (- EAGAIN) k
         else
           (let k = sem_enqueue s w k in
            case timedPost w (sc_deadline c) (sc_thread c) (k_timers k) of
              None \<Rightarrow> SemHang
            | Some ts \<Rightarrow> semWait_notgiven c now sigs (k\<lparr>k_timers := ts\<rparr>)))
      else (case semWait_take c k of (result, k) \<Rightarrow> SemRet result k))"

definition sem_deadline :: "u64 \<Rightarrow> u64 \<Rightarrow> u64" where
  "sem_deadline now nanotimeout = (if nanotimeout = 0 then 0 else now + nanotimeout)"

text \<open>
  \<open>semWaitGen\<close> by thread \<open>th\<close>, whose waiter is at \<open>w\<close>: \<open>now0\<close> is the time when the deadline
  is computed and \<open>now\<close> the time of the first check, \<open>sigs\<close> the value of \<open>haveReadySigs\<close>.
\<close>

definition semWaitGen ::
    "nat \<Rightarrow> int \<Rightarrow> u32 \<Rightarrow> u64 \<Rightarrow> nat \<Rightarrow> nat \<Rightarrow> u64 \<Rightarrow> u64 \<Rightarrow> bool \<Rightarrow> kern \<Rightarrow> sem_out" where
  "semWaitGen s n flags nanotimeout th w now0 now sigs k =
     (if n = 0 then SemRet (- EAGAIN) k
      else let deadline = sem_deadline now0 nanotimeout in
      if n = -1 \<and> count k s = 0 then SemRet (- EAGAIN) k
      else let n = (if n = -1 then count k s else n);
               k = set_wait w \<lparr>sw_thread = th, sw_give = False, sw_prev = None, sw_next = None\<rparr> k
           in semWait_outer \<lparr>sc_sem = s, sc_count = n, sc_flags = flags, sc_deadline = deadline,
                             sc_waiter = w, sc_thread = th\<rparr> now sigs k)"

text \<open>From a wake-up (\<open>kyield\<close> returned and the spinlock is taken again).\<close>

definition semWait_resume :: "semcall \<Rightarrow> u64 \<Rightarrow> bool \<Rightarrow> kern \<Rightarrow> sem_out" where
  "semWait_resume c now sigs k =
     (if sw_give (k_wait k (sc_waiter c)) then
        semWait_outer c now sigs (k\<lparr>k_timers := timedCancel (sc_waiter c) (k_timers k)\<rparr>)
      else semWait_notgiven c now sigs k)"

section \<open>Signalling and terminating\<close>

definition semSignal2 :: "nat \<Rightarrow> int \<Rightarrow> kern \<Rightarrow> kern kres" where
  "semSignal2 s n k =
     (if n < 0 then Panic
      else if n = 0 then Ok k
      else if terminated k s then Ok k
      else Ok (sem_notify s (set_count s (c_int (count k s + n)) k)))"

text \<open>\<open>cur\<close> is \<open>getCurrentThread()\<close>, \<open>NULL\<close> before multitasking starts.\<close>

definition semSignal :: "nat option \<Rightarrow> nat \<Rightarrow> kern \<Rightarrow> kern kres" where
  "semSignal cur s k = (if cur = None then Ok k else semSignal2 s 1 k)"

definition semTerminate :: "nat \<Rightarrow> kern \<Rightarrow> kern kres" where
  "semTerminate s k =
     (if terminated k s then Panic
      else let k = set_sem s ((k_sems k s)\<lparr>sem_flags := sem_flags (k_sems k s) OR SEM_TERMINATED\<rparr>) k in
      if count k s = 0 then Ok (sem_notify s (set_count s (-1) k)) else Ok k)"

text \<open>\<open>semWait\<close>: a wait for one resource that must return 1.\<close>

definition semWait :: "nat option \<Rightarrow> nat \<Rightarrow> nat \<Rightarrow> u64 \<Rightarrow> bool \<Rightarrow> kern \<Rightarrow> sem_out kres" where
  "semWait cur s w now sigs k =
     (case cur of None \<Rightarrow> Ok (SemRet 1 k)
      | Some th \<Rightarrow>
          (case semWaitGen s 1 0 0 th w now now sigs k of
             SemRet r k' \<Rightarrow> if r \<noteq> 1 then Panic else Ok (SemRet 1 k')
           | out \<Rightarrow> Ok out))"

section \<open>Fields after an update\<close>

named_theorems k_simps \<open>fields of the kernel state after an update\<close>

definition wnx :: "kern \<Rightarrow> nat \<Rightarrow> nat option" where "wnx k w = sw_next (k_wait k w)"
definition wpv :: "kern \<Rightarrow> nat \<Rightarrow> nat option" where "wpv k w = sw_prev (k_wait k w)"
definition wgv :: "kern \<Rightarrow> nat \<Rightarrow> bool" where "wgv k w = sw_give (k_wait k w)"
definition wth :: "kern \<Rightarrow> nat \<Rightarrow> nat" where "wth k w = sw_thread (k_wait k w)"

lemma w_fold [k_simps]:
  "sw_next (k_wait k w) = wnx k w" "sw_prev (k_wait k w) = wpv k w"
  "sw_give (k_wait k w) = wgv k w" "sw_thread (k_wait k w) = wth k w"
  by (simp_all add: wnx_def wpv_def wgv_def wth_def)

lemma w_wait [k_simps]:
  "wnx (set_wait w v k) = (wnx k)(w := sw_next v)" "wpv (set_wait w v k) = (wpv k)(w := sw_prev v)"
  "wgv (set_wait w v k) = (wgv k)(w := sw_give v)" "wth (set_wait w v k) = (wth k)(w := sw_thread v)"
  by (auto simp: set_wait_def wnx_def wpv_def wgv_def wth_def fun_eq_iff)

lemma w_prev [k_simps]:
  "wnx (set_sw_prev w v k) = wnx k" "wpv (set_sw_prev w v k) = (wpv k)(w := v)"
  "wgv (set_sw_prev w v k) = wgv k" "wth (set_sw_prev w v k) = wth k"
  by (auto simp: set_sw_prev_def set_wait_def wnx_def wpv_def wgv_def wth_def fun_eq_iff)

lemma w_next [k_simps]:
  "wnx (set_sw_next w v k) = (wnx k)(w := v)" "wpv (set_sw_next w v k) = wpv k"
  "wgv (set_sw_next w v k) = wgv k" "wth (set_sw_next w v k) = wth k"
  by (auto simp: set_sw_next_def set_wait_def wnx_def wpv_def wgv_def wth_def fun_eq_iff)

lemma w_other [k_simps]:
  "wnx (set_sem s v k) = wnx k" "wpv (set_sem s v k) = wpv k"
  "wgv (set_sem s v k) = wgv k" "wth (set_sem s v k) = wth k"
  "wnx (k\<lparr>k_timers := ts\<rparr>) = wnx k" "wpv (k\<lparr>k_timers := ts\<rparr>) = wpv k"
  "wgv (k\<lparr>k_timers := ts\<rparr>) = wgv k" "wth (k\<lparr>k_timers := ts\<rparr>) = wth k"
  "wnx (k\<lparr>k_woken := l\<rparr>) = wnx k" "wpv (k\<lparr>k_woken := l\<rparr>) = wpv k"
  "wgv (k\<lparr>k_woken := l\<rparr>) = wgv k" "wth (k\<lparr>k_woken := l\<rparr>) = wth k"
  by (auto simp: set_sem_def wnx_def wpv_def wgv_def wth_def fun_eq_iff)

lemma k_sems_upd [k_simps]:
  "k_sems (set_sem s v k) = (k_sems k)(s := v)" "k_sems (set_wait w x k) = k_sems k"
  "k_sems (set_sw_prev w p k) = k_sems k" "k_sems (set_sw_next w p k) = k_sems k"
  by (simp_all add: set_sem_def set_wait_def set_sw_prev_def set_sw_next_def)

lemma k_timers_upd [k_simps]:
  "k_timers (set_sem s v k) = k_timers k" "k_timers (set_wait w x k) = k_timers k"
  "k_timers (set_sw_prev w p k) = k_timers k" "k_timers (set_sw_next w p k) = k_timers k"
  by (simp_all add: set_sem_def set_wait_def set_sw_prev_def set_sw_next_def)

lemma k_woken_upd [k_simps]:
  "k_woken (set_sem s v k) = k_woken k" "k_woken (set_wait w x k) = k_woken k"
  "k_woken (set_sw_prev w p k) = k_woken k" "k_woken (set_sw_next w p k) = k_woken k"
  by (simp_all add: set_sem_def set_wait_def set_sw_prev_def set_sw_next_def)

section \<open>The queue is a FIFO list\<close>

definition sem_queue :: "kern \<Rightarrow> nat \<Rightarrow> nat list \<Rightarrow> bool" where
  "sem_queue k s ws \<longleftrightarrow> dll (wnx k) (wpv k) (sem_first (k_sems k s)) (sem_last (k_sems k s)) ws"

lemma sem_queue_first: "sem_queue k s ws \<Longrightarrow> sem_first (k_sems k s) = (case ws of [] \<Rightarrow> None | w # _ \<Rightarrow> Some w)"
  by (cases ws) (auto simp: sem_queue_def dll_def)

lemma sem_queue_distinct: "sem_queue k s ws \<Longrightarrow> distinct ws"
  by (simp add: sem_queue_def dll_distinct)

lemma sem_queue_init: "sem_queue (semInit2 s n k) s []"
  by (simp add: sem_queue_def semInit2_def k_simps)

lemma sem_enqueue_queue:
  assumes q: "sem_queue k s ws" and w: "w \<notin> set ws" and n: "wnx k w = None" and p: "wpv k w = None"
  shows "sem_queue (sem_enqueue s w k) s (ws @ [w])"
proof (cases "sem_first (k_sems k s)")
  case None
  with q n p show ?thesis by (simp add: sem_queue_def sem_enqueue_def k_simps dll_single)
next
  case (Some f)
  with q have ne: "ws \<noteq> []" by (auto simp: sem_queue_def)
  then obtain zs z where ws: "ws = zs @ [z]" by (metis rev_exhaust)
  with q have l: "sem_last (k_sems k s) = Some z" by (metis dll_snoc_last sem_queue_def)
  from ws w have "z \<noteq> w" by auto
  with dll_append [OF q [unfolded sem_queue_def l] w] Some l n show ?thesis
    by (simp add: sem_queue_def sem_enqueue_def k_simps Let_def fun_upd_twist)
       (metis fun_upd_triv fun_upd_twist)
qed

lemma sem_notify_queue:
  assumes "sem_queue k s (w # ws)"
  shows "sem_queue (sem_notify s k) s ws"
    and "wgv (sem_notify s k) = (wgv k)(w := True)"
    and "k_woken (sem_notify s k) = k_woken k @ [wth k w]"
proof -
  from assms have d: "dll (wnx k) (wpv k) (sem_first (k_sems k s)) (sem_last (k_sems k s)) (w # ws)"
    by (simp add: sem_queue_def)
  from dll_Cons [OF d] have f: "sem_first (k_sems k s) = Some w" .
  have n: "wnx k w = (case ws of [] \<Rightarrow> None | v # _ \<Rightarrow> Some v)"
    using dll_next_hd [of "wnx k" "wpv k" _ _ "[]" w ws] d by simp
  have l: "sem_last (k_sems k s) = Some w \<longleftrightarrow> ws = []"
  proof (cases ws rule: rev_cases)
    case Nil
    with d show ?thesis by (simp add: dll_def)
  next
    case (snoc vs v)
    with d have "dll (wnx k) (wpv k) (sem_first (k_sems k s)) (sem_last (k_sems k s)) ((w # vs) @ [v])"
      by simp
    from dll_snoc_last [OF this] dll_distinct [OF d] snoc show ?thesis by auto
  qed
  note pop = dll_pop [OF d]
  show "sem_queue (sem_notify s k) s ws" "wgv (sem_notify s k) = (wgv k)(w := True)"
    "k_woken (sem_notify s k) = k_woken k @ [wth k w]"
    using pop f n l
    by (auto simp: sem_queue_def sem_notify_def k_simps Let_def fun_upd_idem split: list.splits)
qed

lemma sem_notify_empty: "sem_queue k s [] \<Longrightarrow> sem_notify s k = k"
  by (simp add: sem_queue_def sem_notify_def)

lemma sem_unlink_queue:
  assumes "sem_queue k s (xs @ w # ys)"
  shows "sem_queue (sem_unlink s w k) s (xs @ ys)"
proof -
  from assms have d: "dll (wnx k) (wpv k) (sem_first (k_sems k s)) (sem_last (k_sems k s)) (xs @ w # ys)"
    by (simp add: sem_queue_def)
  have p: "p \<noteq> w" if "wpv k w = Some p" for p
    using d that by (cases xs rule: rev_cases) (auto simp: dll_def)
  have n: "n \<noteq> w" if "wnx k w = Some n" for n
    using d that by (cases ys) (auto simp: dll_def)
  show ?thesis using dll_unlink [OF d] p n
    by (auto simp: sem_queue_def sem_unlink_def k_simps Let_def split: option.splits if_splits)
qed

text \<open>The queue operations touch nothing but links, \<open>give\<close>, queue ends and the log.\<close>

lemma sem_notify_frame [simp]:
  "sem_count (k_sems (sem_notify s k) t) = count k t"
  "sem_flags (k_sems (sem_notify s k) t) = sem_flags (k_sems k t)"
  "k_timers (sem_notify s k) = k_timers k" "wth (sem_notify s k) = wth k"
  by (auto simp: sem_notify_def k_simps Let_def fun_upd_idem split: option.splits)

lemma sem_enqueue_frame [simp]:
  "sem_count (k_sems (sem_enqueue s w k) t) = count k t"
  "sem_flags (k_sems (sem_enqueue s w k) t) = sem_flags (k_sems k t)"
  "k_timers (sem_enqueue s w k) = k_timers k" "wth (sem_enqueue s w k) = wth k"
  "wgv (sem_enqueue s w k) = wgv k" "k_woken (sem_enqueue s w k) = k_woken k"
  by (auto simp: sem_enqueue_def k_simps Let_def split: option.splits)

lemma sem_unlink_frame [simp]:
  "sem_count (k_sems (sem_unlink s w k) t) = count k t"
  "sem_flags (k_sems (sem_unlink s w k) t) = sem_flags (k_sems k t)"
  "k_timers (sem_unlink s w k) = k_timers k" "wth (sem_unlink s w k) = wth k"
  "wgv (sem_unlink s w k) = wgv k" "k_woken (sem_unlink s w k) = k_woken k"
  by (auto simp: sem_unlink_def k_simps Let_def split: option.splits)

lemma set_count_frame [simp]:
  "sem_count (k_sems (set_count s n k) t) = (if t = s then n else count k t)"
  "sem_flags (k_sems (set_count s n k) t) = sem_flags (k_sems k t)"
  "k_timers (set_count s n k) = k_timers k" "wth (set_count s n k) = wth k"
  "wgv (set_count s n k) = wgv k" "k_woken (set_count s n k) = k_woken k"
  "wnx (set_count s n k) = wnx k" "wpv (set_count s n k) = wpv k"
  by (auto simp: set_count_def k_simps)

lemma sem_queue_set_count [simp]: "sem_queue (set_count s n k) s ws = sem_queue k s ws"
  by (simp add: sem_queue_def) (simp add: set_count_def k_simps)

lemma sem_queue_timers [simp]: "sem_queue (k\<lparr>k_timers := ts\<rparr>) s ws = sem_queue k s ws"
  by (simp add: sem_queue_def k_simps)

lemma sem_queue_woken [simp]: "sem_queue (k\<lparr>k_woken := l\<rparr>) s ws = sem_queue k s ws"
  by (simp add: sem_queue_def k_simps)

lemma sem_queue_set_wait: "w \<notin> set ws \<Longrightarrow> sem_queue (set_wait w v k) s ws = sem_queue k s ws"
  by (simp add: sem_queue_def k_simps)

section \<open>Queue and timers agree with the sleeping calls\<close>

text \<open>
  \<open>D\<close> holds the waiters of the calls that sleep. Those that are not given the semaphore
  are exactly the ones queued; a sleeper's event is on the event list or unlinked.
\<close>

definition events_inv :: "timers \<Rightarrow> nat set \<Rightarrow> bool" where
  "events_inv ts D \<longleftrightarrow> (\<exists>evs. tm_inv ts evs \<and> set evs \<subseteq> D \<and> (\<forall>w \<in> D - set evs. unlinked ts w))"

definition wait_inv :: "nat \<Rightarrow> kern \<Rightarrow> nat set \<Rightarrow> bool" where
  "wait_inv s k D \<longleftrightarrow> events_inv (k_timers k) D \<and>
     (\<exists>ws. sem_queue k s ws \<and> set ws = {w \<in> D. \<not> wgv k w})"

lemma tm_first_in: "tm_inv ts evs \<Longrightarrow> tm_first ts = Some w \<Longrightarrow> w \<in> set evs"
  by (auto simp: tm_inv_def te_links_def dest!: dll_head)

lemma events_inv_cancel:
  assumes "events_inv ts D" and w: "w \<in> D"
  shows "events_inv (timedCancel w ts) (D - {w})"
proof -
  from assms obtain evs where e: "tm_inv ts evs" "set evs \<subseteq> D" "\<forall>v \<in> D - set evs. unlinked ts v"
    by (auto simp: events_inv_def)
  then have dist: "distinct evs" by (auto simp: tm_inv_def te_links_def dll_def)
  show ?thesis
  proof (cases "w \<in> set evs")
    case True
    have "unlinked (timedCancel w ts) v" if "v \<in> D - set evs" "v \<noteq> w" for v
    proof -
      have adj: "te_prev (tm_ev ts w) \<noteq> Some v" "te_next (tm_ev ts w) \<noteq> Some v"
      proof -
        from True obtain xs ys where evs: "evs = xs @ w # ys" by (meson split_list)
        from e(1) obtain l where d: "dll (\<lambda>e. te_next (tm_ev ts e)) (\<lambda>e. te_prev (tm_ev ts e))
            (tm_first ts) l (xs @ w # ys)"
          unfolding evs by (auto simp: tm_inv_def te_links_def)
        show "te_prev (tm_ev ts w) \<noteq> Some v"
          using d that evs by (cases xs rule: rev_cases) (auto simp: dll_def)
        show "te_next (tm_ev ts w) \<noteq> Some v"
          using d that evs by (cases ys) (auto simp: dll_def)
      qed
      from that e(3) have "unlinked ts v" by blast
      with adj that(2) show ?thesis
        by (auto simp: timedCancel_def Let_def unlinked_def set_te_next_def set_te_prev_def split: option.splits)
    qed
    with timedCancel_inv [OF e(1) True] e(2) dist show ?thesis
      unfolding events_inv_def by (intro exI [of _ "remove1 w evs"]) auto
  next
    case False
    with e w have "unlinked ts w" by blast
    with False e tm_first_in [OF e(1)] have "timedCancel w ts = ts"
      by (intro timedCancel_unlinked) (auto simp: unlinked_def)
    with e False show ?thesis by (auto simp: events_inv_def)
  qed
qed

lemma events_inv_post:
  assumes e: "events_inv ts D" and w: "w \<notin> D"
  shows "\<exists>ts'. timedPost w n th ts = Some ts' \<and> events_inv ts' (insert w D)"
proof -
  from e obtain evs where evs: "tm_inv ts evs" "set evs \<subseteq> D" "\<forall>v \<in> D - set evs. unlinked ts v"
    by (auto simp: events_inv_def)
  with w have nw: "w \<notin> set evs" by auto
  show ?thesis
  proof (cases "n = 0")
    case True
    with timedPost_zero [OF evs(1) nw, of th] obtain ts' where ts': "timedPost w n th ts = Some ts'"
      "tm_inv ts' evs" "unlinked ts' w"
      by (auto simp: unlinked_def)
    moreover have "unlinked ts' v" if "v \<in> D - set evs" "v \<noteq> w" for v
      using timedPost_unlinked [OF evs(1) nw _ that(2) ts'(1)] that evs(3) by blast
    ultimately show ?thesis using evs unfolding events_inv_def by (intro exI [of _ ts'] conjI) auto
  next
    case False
    with timedPost_inv [OF evs(1) nw, of n th] obtain ts' where ts': "timedPost w n th ts = Some ts'"
      "tm_inv ts' (timed_insert (\<lambda>e. te_nanotime (tm_ev ts e)) w n evs)"
      by blast
    moreover have "unlinked ts' v" if "v \<in> D - set evs" "v \<noteq> w" for v
      using timedPost_unlinked [OF evs(1) nw _ that(2) ts'(1)] that evs(3) by blast
    ultimately show ?thesis using evs unfolding events_inv_def
      by (intro exI [of _ ts'] conjI exI [of _ "timed_insert (\<lambda>e. te_nanotime (tm_ev ts e)) w n evs"]) auto
  qed
qed

lemma events_inv_tick:
  assumes "events_inv ts D" and run: "onTick now resched ts = Some (ts', woken)"
  shows "events_inv ts' D"
proof -
  from assms obtain evs where evs: "tm_inv ts evs" "set evs \<subseteq> D" "\<forall>v \<in> D - set evs. unlinked ts v"
    by (auto simp: events_inv_def)
  let ?dr = "dropWhile (\<lambda>e. te_nanotime (tm_ev ts e) < now) evs"
  let ?tk = "takeWhile (\<lambda>e. te_nanotime (tm_ev ts e) < now) evs"
  from onTick_loop_spec [OF evs(1), of now resched False "[]"] run
  have "tm_inv ts' ?dr" by (auto simp: onTick_def)
  moreover have "set evs = set ?tk \<union> set ?dr" by (metis set_append takeWhile_dropWhile_id)
  moreover have "unlinked ts' v" if "v \<in> D - set evs \<or> v \<in> set ?tk" for v
    using onTick_loop_unlinked [OF evs(1) run [unfolded onTick_def], of v] that evs(3) by blast
  ultimately show ?thesis using evs(2) unfolding events_inv_def by (intro exI [of _ ?dr] conjI) auto
qed

text \<open>No wake-up is owed: resources and a sleeper that was not given them imply a sleeper that was.\<close>

definition wake_inv :: "nat \<Rightarrow> kern \<Rightarrow> nat set \<Rightarrow> bool" where
  "wake_inv s k D \<longleftrightarrow> (\<not> terminated k s \<longrightarrow> 0 < count k s \<longrightarrow>
     (\<exists>w \<in> D. \<not> wgv k w) \<longrightarrow> (\<exists>w \<in> D. wgv k w))"

lemma wait_inv_count [simp]: "wait_inv s (set_count s n k) D = wait_inv s k D"
  by (simp add: wait_inv_def)

lemma wait_inv_notify:
  assumes "wait_inv s k D"
  shows "wait_inv s (sem_notify s k) D" and "wake_inv s (sem_notify s k) D"
proof -
  from assms obtain ws where ws: "sem_queue k s ws" "set ws = {w \<in> D. \<not> wgv k w}"
    and e: "events_inv (k_timers k) D"
    by (auto simp: wait_inv_def)
  have "wait_inv s (sem_notify s k) D \<and> wake_inv s (sem_notify s k) D"
  proof (cases ws)
    case Nil
    with ws have "sem_notify s k = k" by (simp add: sem_notify_empty)
    with assms ws Nil show ?thesis by (auto simp: wake_inv_def)
  next
    case (Cons w rest)
    note n = sem_notify_queue [OF ws(1) [unfolded Cons]]
    from sem_queue_distinct [OF ws(1)] Cons have "w \<notin> set rest" by simp
    with ws Cons n e have "wait_inv s (sem_notify s k) D"
      unfolding wait_inv_def by (intro conjI exI [of _ rest]) auto
    moreover have "wgv (sem_notify s k) w" "w \<in> D" using n ws Cons by auto
    ultimately show ?thesis by (auto simp: wake_inv_def)
  qed
  then show "wait_inv s (sem_notify s k) D" "wake_inv s (sem_notify s k) D" by simp_all
qed

lemma wait_inv_giveup:
  assumes inv: "wait_inv s k D" and w: "w \<in> D" "\<not> wgv k w"
  defines "k' \<equiv> sem_unlink s w (k\<lparr>k_timers := timedCancel w (k_timers k)\<rparr>)"
  shows "wait_inv s k' (D - {w})"
proof -
  from inv obtain ws where ws: "sem_queue k s ws" "set ws = {w \<in> D. \<not> wgv k w}"
    and e: "events_inv (k_timers k) D"
    by (auto simp: wait_inv_def)
  from w ws(2) have "w \<in> set ws" by simp
  then obtain xs ys where xs: "ws = xs @ w # ys" by (meson split_list)
  have "sem_queue k' s (xs @ ys)"
    unfolding k'_def by (rule sem_unlink_queue) (use ws(1) xs in simp)
  moreover have "set (xs @ ys) = {v \<in> D - {w}. \<not> wgv k v}"
    using sem_queue_distinct [OF ws(1)] ws(2) xs by auto
  moreover have "wgv k' = wgv k" by (simp add: k'_def k_simps)
  ultimately show ?thesis
    using events_inv_cancel [OF e w(1)] unfolding wait_inv_def by (auto simp: k'_def)
qed

lemma wait_inv_given:
  assumes inv: "wait_inv s k D" and w: "w \<in> D" "wgv k w"
  shows "wait_inv s (k\<lparr>k_timers := timedCancel w (k_timers k)\<rparr>) (D - {w})"
proof -
  from inv obtain ws where "sem_queue k s ws" "set ws = {w \<in> D. \<not> wgv k w}"
    "events_inv (k_timers k) D"
    by (auto simp: wait_inv_def)
  with w show ?thesis unfolding wait_inv_def
    by (intro conjI exI [of _ ws]) (auto simp: events_inv_cancel k_simps)
qed

lemma wait_inv_set_wait:
  assumes "wait_inv s k D" and "w \<notin> D"
  shows "wait_inv s (set_wait w v k) D"
proof -
  from assms obtain ws where ws: "sem_queue k s ws" "set ws = {w \<in> D. \<not> wgv k w}"
    "events_inv (k_timers k) D"
    by (auto simp: wait_inv_def)
  with assms(2) have "w \<notin> set ws" by auto
  with ws assms(2) show ?thesis unfolding wait_inv_def
    by (intro conjI exI [of _ ws]) (auto simp: k_simps sem_queue_set_wait)
qed

lemma wait_inv_enqueue:
  assumes inv: "wait_inv s k D" and w: "w \<notin> D" "\<not> wgv k w" "wnx k w = None" "wpv k w = None"
  shows "\<exists>ts. timedPost w dl th (k_timers (sem_enqueue s w k)) = Some ts \<and>
    wait_inv s ((sem_enqueue s w k)\<lparr>k_timers := ts\<rparr>) (insert w D)"
proof -
  from inv obtain ws where ws: "sem_queue k s ws" "set ws = {w \<in> D. \<not> wgv k w}"
    and e: "events_inv (k_timers k) D"
    by (auto simp: wait_inv_def)
  with w have "w \<notin> set ws" by auto
  with sem_enqueue_queue [OF ws(1)] w have "sem_queue (sem_enqueue s w k) s (ws @ [w])" by blast
  moreover from ws(2) w have "set (ws @ [w]) = {v \<in> insert w D. \<not> wgv k v}" by auto
  ultimately show ?thesis using events_inv_post [OF e w(1), of dl th]
    unfolding wait_inv_def by (auto simp: k_simps intro!: exI [of _ "ws @ [w]"])
qed

section \<open>A run of a wait keeps the invariants\<close>

definition cnt_inv :: "nat \<Rightarrow> kern \<Rightarrow> bool" where
  "cnt_inv s k \<longleftrightarrow> -1 \<le> count k s \<and> count k s < 2 ^ 31 \<and> (count k s = -1 \<longrightarrow> terminated k s) \<and>
     (terminated k s \<longrightarrow> count k s \<noteq> 0)"

text \<open>
  What a run that started in \<open>k\<close> with the sleepers \<open>D\<close> (the caller not among them) may give:
  a call that returns \<open>r > 0\<close> took \<open>r\<close> resources, any other took none.
\<close>

fun out_ok :: "nat \<Rightarrow> nat set \<Rightarrow> kern \<Rightarrow> sem_out \<Rightarrow> bool" where
  "out_ok s D k (SemRet r k') \<longleftrightarrow> wait_inv s k' D \<and> wake_inv s k' D \<and> cnt_inv s k' \<and>
     terminated k' s = terminated k s \<and> max 0 (count k' s) = max 0 (count k s) - max 0 r"
| "out_ok s D k (SemSleep c k') \<longleftrightarrow> wait_inv s k' (insert (sc_waiter c) D) \<and>
     wake_inv s k' (insert (sc_waiter c) D) \<and> cnt_inv s k' \<and>
     terminated k' s = terminated k s \<and> count k' s = count k s"
| "out_ok s D k SemHang \<longleftrightarrow> False"

lemma wake_inv_zero: "count k s \<le> 0 \<Longrightarrow> wake_inv s k D"
  by (simp add: wake_inv_def)

lemma semWait_take_ok:
  assumes inv: "wait_inv s k D" and cnt: "cnt_inv s k" and c: "sc_sem c = s"
    and ne: "count k s \<noteq> 0" and n: "1 \<le> sc_count c \<or> count k s = -1"
    and take: "semWait_take c k = (r, k')"
  shows "out_ok s D k (SemRet r k')"
    and "0 < count k s \<Longrightarrow> r = min (sc_count c) (count k s)"
    and "count k s = -1 \<Longrightarrow> r = 0"
proof -
  define k1 where "k1 = (if count k s = -1 then k
    else if count k s \<ge> sc_count c then set_count s (c_int (count k s - sc_count c)) k else set_count s 0 k)"
  define r1 where "r1 = (if count k s = -1 then 0 else min (sc_count c) (count k s))"
  have r: "r = r1" and k': "k' = (if count k1 s \<noteq> 0 then sem_notify s k1
      else if terminated k1 s then set_count s (-1) k1 else k1)"
    using take c ne by (auto simp: semWait_take_def Let_def k1_def r1_def split: if_splits)
  have cnt1: "count k1 s = (if count k s = -1 then -1 else count k s - r1)"
    using cnt n ne by (auto simp: k1_def r1_def cnt_inv_def c_int_id)
  have fl: "sem_flags (k_sems k1 s) = sem_flags (k_sems k s)" and inv1: "wait_inv s k1 D"
    using inv by (auto simp: k1_def)
  have r1: "count k s \<noteq> -1 \<Longrightarrow> 0 < r1 \<and> r1 \<le> count k s"
    using cnt n ne by (auto simp: r1_def cnt_inv_def)
  show "out_ok s D k (SemRet r k')"
    using wait_inv_notify [OF inv1] inv1 cnt cnt1 fl r1 r k' ne
    by (auto simp: cnt_inv_def wake_inv_zero r1_def split: if_splits)
  show "0 < count k s \<Longrightarrow> r = min (sc_count c) (count k s)" "count k s = -1 \<Longrightarrow> r = 0"
    by (auto simp: r r1_def)
qed

lemma semWait_notgiven_ok:
  assumes inv: "wait_inv s k D" and wake: "wake_inv s k D" and cnt: "cnt_inv s k"
    and c: "sc_sem c = s" "sc_waiter c \<in> D" "\<not> wgv k (sc_waiter c)"
  shows "out_ok s (D - {sc_waiter c}) k (semWait_notgiven c now sigs k)"
proof -
  note g = wait_inv_giveup [OF inv c(2,3)]
  have "wake_inv s (sem_unlink s (sc_waiter c)
      (k\<lparr>k_timers := timedCancel (sc_waiter c) (k_timers k)\<rparr>)) (D - {sc_waiter c})"
    using wake c by (auto simp: wake_inv_def k_simps)
  with g inv wake cnt c show ?thesis
    by (auto simp: semWait_notgiven_def cnt_inv_def insert_absorb)
qed

lemma out_ok_base:
  "out_ok s D k out \<Longrightarrow> count k s = count k0 s \<Longrightarrow> terminated k s = terminated k0 s \<Longrightarrow> out_ok s D k0 out"
  by (cases out) auto

lemma semWait_outer_ok:
  assumes inv: "wait_inv s k D" and cnt: "cnt_inv s k"
    and c: "sc_sem c = s" "sc_waiter c \<notin> D" and n: "1 \<le> sc_count c \<or> count k s = -1"
  shows "out_ok s D k (semWait_outer c now sigs k)"
proof (cases "count k s = 0")
  case False
  then show ?thesis
    using semWait_take_ok(1) [OF inv cnt c(1) False n] c
    by (auto simp: semWait_outer_def Let_def split: prod.split)
next
  case True
  define w where "w = sc_waiter c"
  define k1 where "k1 = set_wait w ((k_wait k w)\<lparr>sw_give := False, sw_prev := None, sw_next := None\<rparr>) k"
  have k1: "wait_inv s k1 D" "\<not> wgv k1 w" "wnx k1 w = None" "wpv k1 w = None"
    "count k1 s = 0" "sem_flags (k_sems k1 s) = sem_flags (k_sems k s)"
    using wait_inv_set_wait [OF inv c(2)] True by (auto simp: k1_def w_def k_simps)
  from c(2) have wD: "w \<notin> D" by (simp add: w_def)
  show ?thesis
  proof (cases "has (sc_flags c) SEM_W_NONBLOCK")
    case nonblock: True
    with True k1 cnt c show ?thesis
      by (auto simp: semWait_outer_def Let_def cnt_inv_def wake_inv_zero simp flip: w_def k1_def)
  next
    case False
    define k2 where "k2 = sem_enqueue s w k1"
    from wait_inv_enqueue [OF k1(1) wD k1(2-4), of "sc_deadline c" "sc_thread c"] obtain ts where
      ts: "timedPost w (sc_deadline c) (sc_thread c) (k_timers k2) = Some ts"
      and inv2: "wait_inv s (k2\<lparr>k_timers := ts\<rparr>) (insert w D)"
      by (auto simp: k2_def)
    let ?k3 = "k2\<lparr>k_timers := ts\<rparr>"
    have "out_ok s (insert w D - {w}) ?k3 (semWait_notgiven c now sigs ?k3)"
      unfolding w_def
    proof (rule semWait_notgiven_ok)
      show "wait_inv s ?k3 (insert (sc_waiter c) D)" using inv2 by (simp add: w_def)
      show "wake_inv s ?k3 (insert (sc_waiter c) D)" using k1 by (intro wake_inv_zero) (simp add: k2_def)
      show "cnt_inv s ?k3" using cnt k1 True by (simp add: cnt_inv_def k2_def)
      show "\<not> wgv ?k3 (sc_waiter c)" using k1 by (simp add: k2_def w_def k_simps)
    qed (use c in simp_all)
    moreover have "insert w D - {w} = D" using wD by blast
    ultimately have "out_ok s D ?k3 (semWait_notgiven c now sigs ?k3)" by simp
    then have "out_ok s D k (semWait_notgiven c now sigs ?k3)"
      by (rule out_ok_base) (use k1 True in \<open>simp_all add: k2_def\<close>)
    moreover have "semWait_outer c now sigs k = semWait_notgiven c now sigs ?k3"
      using True False ts c(1) unfolding semWait_outer_def Let_def w_def [symmetric]
      by (simp add: k1_def [symmetric] k2_def [symmetric])
    ultimately show ?thesis by simp
  qed
qed

lemma semWaitGen_ok:
  assumes inv: "wait_inv s k D" and wake: "wake_inv s k D" and cnt: "cnt_inv s k"
    and w: "w \<notin> D" and n: "-1 \<le> n"
  shows "out_ok s D k (semWaitGen s n flags nt th w now0 now sigs k)"
proof (cases "n = 0 \<or> (n = -1 \<and> count k s = 0)")
  case True
  with inv wake cnt show ?thesis by (auto simp: semWaitGen_def Let_def)
next
  case False
  define k1 where "k1 = set_wait w \<lparr>sw_thread = th, sw_give = False, sw_prev = None, sw_next = None\<rparr> k"
  define m where "m = (if n = -1 then count k s else n)"
  have k1: "wait_inv s k1 D" "count k1 s = count k s" "sem_flags (k_sems k1 s) = sem_flags (k_sems k s)"
    using wait_inv_set_wait [OF inv w] by (auto simp: k1_def k_simps)
  then have "cnt_inv s k1" using cnt by (simp add: cnt_inv_def)
  moreover have "1 \<le> m \<or> count k1 s = -1"
    using False n cnt k1 by (auto simp: m_def cnt_inv_def)
  ultimately have "out_ok s D k1 (semWait_outer \<lparr>sc_sem = s, sc_count = m, sc_flags = flags,
      sc_deadline = sem_deadline now0 nt, sc_waiter = w, sc_thread = th\<rparr> now sigs k1)"
    using w k1 by (intro semWait_outer_ok) auto
  moreover have "semWaitGen s n flags nt th w now0 now sigs k =
      semWait_outer \<lparr>sc_sem = s, sc_count = m, sc_flags = flags,
        sc_deadline = sem_deadline now0 nt, sc_waiter = w, sc_thread = th\<rparr> now sigs k1"
    using False by (auto simp: semWaitGen_def Let_def m_def k1_def)
  ultimately show ?thesis using k1(2,3) by (metis out_ok_base)
qed

lemma semWait_resume_ok:
  assumes inv: "wait_inv s k D" and wake: "wake_inv s k D" and cnt: "cnt_inv s k"
    and c: "sc_sem c = s" "sc_waiter c \<in> D" "1 \<le> sc_count c"
  shows "out_ok s (D - {sc_waiter c}) k (semWait_resume c now sigs k)"
proof (cases "wgv k (sc_waiter c)")
  case True
  let ?k = "k\<lparr>k_timers := timedCancel (sc_waiter c) (k_timers k)\<rparr>"
  have "out_ok s (D - {sc_waiter c}) ?k (semWait_outer c now sigs ?k)"
    by (rule semWait_outer_ok [OF wait_inv_given [OF inv c(2) True]])
      (use c cnt in \<open>auto simp: cnt_inv_def\<close>)
  then have "out_ok s (D - {sc_waiter c}) k (semWait_outer c now sigs ?k)"
    by (rule out_ok_base) simp_all
  with True show ?thesis by (simp add: semWait_resume_def wgv_def)
next
  case False
  with semWait_notgiven_ok [OF inv wake cnt c(1,2)] show ?thesis
    by (simp add: semWait_resume_def wgv_def)
qed

section \<open>Polling\<close>

text \<open>
  \<open>semPoll\<close> over an array of semaphores, some of which may be \<open>NULL\<close>. \<open>waiters[i]\<close> is at
  \<open>wbase + i\<close> and the event at \<open>wbase\<close>; the bitmap is a function from byte indices.
  \<open>resched\<close> gives the values of \<open>signalThread\<close>, whose calls \<open>||\<close> may skip.
\<close>

type_synonym bitmap = "nat \<Rightarrow> u8"

record pollcall =
  pc_sems :: "nat option list"
  pc_wbase :: nat
  pc_deadline :: u64

datatype poll_out =
    PollRet int bitmap kern
  | PollSleep pollcall bitmap kern
  | PollHang

definition poll_mark :: "nat \<Rightarrow> bitmap \<Rightarrow> bitmap" where
  "poll_mark i bm = bm(i div 8 := bm (i div 8) OR push_bit (i mod 8) 1)"

text \<open>The loops that mark the semaphores with property \<open>p\<close> and count them.\<close>

fun poll_scan :: "(nat \<Rightarrow> nat \<Rightarrow> bool) \<Rightarrow> nat \<Rightarrow> nat option list \<Rightarrow> bitmap \<times> int \<Rightarrow> bitmap \<times> int" where
  "poll_scan p i [] acc = acc"
| "poll_scan p i (None # xs) acc = poll_scan p (Suc i) xs acc"
| "poll_scan p i (Some s # xs) (bm, n) =
     poll_scan p (Suc i) xs (if p i s then (poll_mark i bm, n + 1) else (bm, n))"

fun poll_init :: "nat \<Rightarrow> nat \<Rightarrow> nat \<Rightarrow> kern \<Rightarrow> kern" where
  "poll_init th w 0 k = k"
| "poll_init th w (Suc n) k = poll_init th (Suc w) n
     (set_wait w \<lparr>sw_thread = th, sw_give = False, sw_prev = None, sw_next = None\<rparr> k)"

fun poll_enqueue :: "nat \<Rightarrow> nat option list \<Rightarrow> kern \<Rightarrow> kern" where
  "poll_enqueue w [] k = k"
| "poll_enqueue w (None # xs) k = poll_enqueue (Suc w) xs k"
| "poll_enqueue w (Some s # xs) k = poll_enqueue (Suc w) xs (sem_enqueue s w k)"

text \<open>The last loop: off all queues, waking the next waiter where this one was given.\<close>

fun poll_leave :: "(nat \<Rightarrow> bool) \<Rightarrow> nat \<Rightarrow> nat option list \<Rightarrow> bool \<Rightarrow> kern \<Rightarrow> kern" where
  "poll_leave resched w [] doResched k = k"
| "poll_leave resched w (None # xs) doResched k = poll_leave resched (Suc w) xs doResched k"
| "poll_leave resched w (Some s # xs) doResched k =
     (if sw_give (k_wait k w) then
        (case sem_first (k_sems k s) of
           None \<Rightarrow> poll_leave resched (Suc w) xs doResched k
         | Some f \<Rightarrow>
             poll_leave resched (Suc w) xs (doResched \<or> resched (sw_thread (k_wait k f)))
               (if doResched then (sem_notify s k)\<lparr>k_woken := k_woken k\<rparr> else sem_notify s k))
      else poll_leave resched (Suc w) xs doResched (sem_unlink s w k))"

text \<open>The head of \<open>while (1)\<close>.\<close>

definition poll_loop ::
    "(nat \<Rightarrow> bool) \<Rightarrow> pollcall \<Rightarrow> bitmap \<Rightarrow> int \<Rightarrow> u64 \<Rightarrow> bool \<Rightarrow> kern \<Rightarrow> poll_out" where
  "poll_loop resched c bm numFree now sigs k =
     (let finish = (\<lambda>r. PollRet r bm (poll_leave resched (pc_wbase c) (pc_sems c) False
            (k\<lparr>k_timers := timedCancel (pc_wbase c) (k_timers k)\<rparr>)))
      in if numFree > 0 then finish numFree
         else if sigs then finish (- EINTR)
         else if now \<ge> pc_deadline c \<and> pc_deadline c \<noteq> 0 then finish numFree
         else PollSleep c bm k)"

definition semPoll ::
    "nat option list \<Rightarrow> bitmap \<Rightarrow> u32 \<Rightarrow> u64 \<Rightarrow> nat \<Rightarrow> nat \<Rightarrow> (nat \<Rightarrow> bool) \<Rightarrow> u64 \<Rightarrow> u64 \<Rightarrow> bool \<Rightarrow> kern \<Rightarrow> poll_out" where
  "semPoll sems bm flags nanotimeout th wbase resched now0 now sigs k =
     (let k = poll_init th wbase (length sems) k;
          (bm, numFree) = poll_scan (\<lambda>i s. count k s \<noteq> 0) 0 sems (bm, 0)
      in if numFree \<noteq> 0 \<or> has flags SEM_W_NONBLOCK then PollRet numFree bm k
         else
           let deadline = sem_deadline now0 nanotimeout in
           case timedPost wbase deadline th (k_timers k) of
             None \<Rightarrow> PollHang
           | Some ts \<Rightarrow>
               poll_loop resched \<lparr>pc_sems = sems, pc_wbase = wbase, pc_deadline = deadline\<rparr>
                 bm numFree now sigs (poll_enqueue wbase sems (k\<lparr>k_timers := ts\<rparr>)))"

definition semPoll_resume ::
    "(nat \<Rightarrow> bool) \<Rightarrow> pollcall \<Rightarrow> bitmap \<Rightarrow> u64 \<Rightarrow> bool \<Rightarrow> kern \<Rightarrow> poll_out" where
  "semPoll_resume resched c bm now sigs k =
     (case poll_scan (\<lambda>i s. sw_give (k_wait k (pc_wbase c + i))) 0 (pc_sems c) (bm, 0) of
        (bm, numFree) \<Rightarrow> poll_loop resched c bm numFree now sigs k)"

lemma bit_poll_mark:
  "bit (poll_mark i bm (j div 8)) (j mod 8) \<longleftrightarrow> j = i \<or> bit (bm (j div 8)) (j mod 8)"
proof -
  have "j = i" if "i div 8 = j div 8" "i mod 8 = j mod 8"
    using that by (metis div_mod_decomp)
  then show ?thesis
    by (auto simp: poll_mark_def bit_or_iff bit_exp_iff possible_bit_word)
qed

lemma poll_scan_bit:
  "bit (fst (poll_scan p i xs (bm, n)) (j div 8)) (j mod 8) \<longleftrightarrow>
     bit (bm (j div 8)) (j mod 8) \<or> (i \<le> j \<and> j - i < length xs \<and> (\<exists>s. xs ! (j - i) = Some s \<and> p j s))"
proof (induction p i xs "(bm, n)" arbitrary: bm n rule: poll_scan.induct)
  case (1 p i)
  then show ?case by simp
next
  case (2 p i xs)
  then show ?case by (cases "i = j") (auto simp: Suc_le_eq nth_Cons' less_diff_conv2)
next
  case (3 p i s xs bm n)
  have "(Suc i \<le> j \<and> j - Suc i < length xs \<and> (\<exists>s. xs ! (j - Suc i) = Some s \<and> p j s)) \<or> (j = i \<and> p i s) \<longleftrightarrow>
      (i \<le> j \<and> j - i < length (Some s # xs) \<and> (\<exists>t. (Some s # xs) ! (j - i) = Some t \<and> p j t))"
    by (cases "i = j") (auto simp: nth_Cons' Suc_le_eq)
  with 3 show ?case by (auto simp: bit_poll_mark)
qed

definition poll_free :: "(nat \<Rightarrow> nat \<Rightarrow> bool) \<Rightarrow> nat option list \<Rightarrow> nat \<Rightarrow> nat" where
  "poll_free p xs i = length (filter (\<lambda>j. \<exists>s. xs ! j = Some s \<and> p (i + j) s) [0..<length xs])"

lemma poll_free_Cons:
  "poll_free p (x # xs) i = (if \<exists>s. x = Some s \<and> p i s then 1 else 0) + poll_free p xs (Suc i)"
  unfolding poll_free_def by (simp add: upt_conv_Cons map_Suc_upt [symmetric] filter_map comp_def del: upt_Suc)

lemma poll_scan_count: "snd (poll_scan p i xs (bm, n)) = n + int (poll_free p xs i)"
proof (induction p i xs "(bm, n)" arbitrary: bm n rule: poll_scan.induct)
  case (1 p i)
  then show ?case by (simp add: poll_free_def)
next
  case (2 p i xs)
  then show ?case by (simp add: poll_free_Cons)
next
  case (3 p i s xs bm n)
  then show ?case by (simp add: poll_free_Cons)
qed

lemma poll_init_frame [simp]:
  "k_sems (poll_init th w n k) = k_sems k" "k_timers (poll_init th w n k) = k_timers k"
  "k_woken (poll_init th w n k) = k_woken k"
  by (induction n arbitrary: w k) (auto simp: k_simps)

section \<open>A run of a poll of one semaphore keeps the invariants\<close>

lemma poll_leave_one:
  "poll_leave resched w [Some s] False k = (if wgv k w then sem_notify s k else sem_unlink s w k)"
  by (simp add: wgv_def sem_notify_def split: option.splits)

text \<open>In a poll of several semaphores, once a thread to be run was signalled, the next waiters
  of the other semaphores are given them and taken off their queues, but not signalled.\<close>

lemma semPoll_skips_signal:
  fixes resched :: "nat \<Rightarrow> bool"
  assumes "sem_queue k s (v # vs)" and "sw_give (k_wait k w)"
  defines "k' \<equiv> poll_leave resched w [Some s] True k"
  shows "sw_give (k_wait k' v) \<and> sem_queue k' s vs \<and> k_woken k' = k_woken k"
proof -
  from sem_queue_first [OF assms(1)] assms(2) have "k' = (sem_notify s k)\<lparr>k_woken := k_woken k\<rparr>"
    by (simp add: k'_def)
  with sem_notify_queue [OF assms(1)] show ?thesis by (simp flip: wgv_def add: k_simps)
qed

fun poll_ok :: "nat \<Rightarrow> nat set \<Rightarrow> nat \<Rightarrow> kern \<Rightarrow> poll_out \<Rightarrow> bool" where
  "poll_ok s D w k (PollRet r bm k') \<longleftrightarrow> wait_inv s k' D \<and> wake_inv s k' D \<and> cnt_inv s k' \<and>
     terminated k' s = terminated k s \<and> count k' s = count k s"
| "poll_ok s D w k (PollSleep c bm k') \<longleftrightarrow> wait_inv s k' (insert w D) \<and>
     wake_inv s k' (insert w D) \<and> cnt_inv s k' \<and>
     terminated k' s = terminated k s \<and> count k' s = count k s"
| "poll_ok s D w k PollHang \<longleftrightarrow> False"

definition poll_of :: "nat \<Rightarrow> nat \<Rightarrow> pollcall \<Rightarrow> bool" where
  "poll_of s w c \<longleftrightarrow> pc_sems c = [Some s] \<and> pc_wbase c = w"

lemma cnt_inv_cong: "count k' s = count k s \<Longrightarrow> terminated k' s = terminated k s \<Longrightarrow> cnt_inv s k \<Longrightarrow> cnt_inv s k'"
  by (simp add: cnt_inv_def)

lemma poll_leave_ok:
  fixes resched :: "nat \<Rightarrow> bool"
  assumes inv: "wait_inv s k D" and wake: "wake_inv s k D" and cnt: "cnt_inv s k" and w: "w \<in> D"
  defines "k' \<equiv> poll_leave resched w [Some s] False (k\<lparr>k_timers := timedCancel w (k_timers k)\<rparr>)"
  shows "poll_ok s (D - {w}) w k (PollRet r bm k')"
proof (cases "wgv k w")
  case True
  let ?k = "k\<lparr>k_timers := timedCancel w (k_timers k)\<rparr>"
  have k': "k' = sem_notify s ?k" using True unfolding k'_def poll_leave_one by (simp add: k_simps)
  note n = wait_inv_notify [OF wait_inv_given [OF inv w True]]
  from n cnt show ?thesis by (simp add: k' cnt_inv_def)
next
  case False
  have k': "k' = sem_unlink s w (k\<lparr>k_timers := timedCancel w (k_timers k)\<rparr>)"
    using False unfolding k'_def poll_leave_one by (simp add: k_simps)
  note g = wait_inv_giveup [OF inv w False]
  have "wake_inv s k' (D - {w})" using wake False by (auto simp: k' wake_inv_def k_simps)
  with g cnt show ?thesis by (simp add: k' cnt_inv_def)
qed

lemma poll_loop_ok:
  assumes "wait_inv s k D" "wake_inv s k D" "cnt_inv s k" "w \<in> D" and c: "poll_of s w c"
  shows "poll_ok s (D - {w}) w k (poll_loop resched c bm n now sigs k)"
proof -
  from c have "pc_sems c = [Some s]" "pc_wbase c = w" by (simp_all add: poll_of_def)
  with poll_leave_ok [OF assms(1-4), of _ bm resched] assms(1-4) show ?thesis
    unfolding poll_loop_def Let_def by (simp add: insert_absorb del: poll_leave.simps)
qed

lemma sem_enqueue_timers: "sem_enqueue s w (k\<lparr>k_timers := ts\<rparr>) = (sem_enqueue s w k)\<lparr>k_timers := ts\<rparr>"
  by (simp add: sem_enqueue_def set_sw_prev_def set_sw_next_def set_wait_def set_sem_def Let_def
      split: option.splits)

lemma poll_ok_base:
  "poll_ok s D w k out \<Longrightarrow> count k s = count k0 s \<Longrightarrow> terminated k s = terminated k0 s \<Longrightarrow> poll_ok s D w k0 out"
  by (cases out) auto

lemma wake_inv_set_wait: "wake_inv s k D \<Longrightarrow> w \<notin> D \<Longrightarrow> wake_inv s (set_wait w v k) D"
  by (simp add: wake_inv_def k_simps) (metis)

lemma semPoll_ok:
  assumes inv: "wait_inv s k D" and wake: "wake_inv s k D" and cnt: "cnt_inv s k" and w: "w \<notin> D"
  shows "poll_ok s D w k (semPoll [Some s] bm flags nt th w resched now0 now sigs k)"
proof -
  define k1 where "k1 = set_wait w \<lparr>sw_thread = th, sw_give = False, sw_prev = None, sw_next = None\<rparr> k"
  have i: "poll_init th w (length [Some s]) k = k1" by (simp add: k1_def)
  have k1: "wait_inv s k1 D" "wake_inv s k1 D" "cnt_inv s k1" "count k1 s = count k s"
    "terminated k1 s = terminated k s" "\<not> wgv k1 w" "wnx k1 w = None" "wpv k1 w = None"
    using wait_inv_set_wait [OF inv w] wake_inv_set_wait [OF wake w] cnt
    by (simp_all add: k1_def k_simps cnt_inv_def)
  show ?thesis
  proof (cases "count k s \<noteq> 0 \<or> has flags SEM_W_NONBLOCK")
    case True
    with k1 show ?thesis unfolding semPoll_def i by (auto simp: Let_def)
  next
    case False
    from wait_inv_enqueue [OF k1(1) w k1(6-8), of "sem_deadline now0 nt" th] obtain ts where
      ts: "timedPost w (sem_deadline now0 nt) th (k_timers k1) = Some ts"
      and inv2: "wait_inv s (sem_enqueue s w (k1\<lparr>k_timers := ts\<rparr>)) (insert w D)"
      by (auto simp: sem_enqueue_timers)
    let ?k2 = "sem_enqueue s w (k1\<lparr>k_timers := ts\<rparr>)"
    let ?c = "\<lparr>pc_sems = [Some s], pc_wbase = w, pc_deadline = sem_deadline now0 nt\<rparr>"
    have k2: "count ?k2 s = count k s" "terminated ?k2 s = terminated k s" using k1 by simp_all
    have "wake_inv s ?k2 (insert w D)" using False k2 by (intro wake_inv_zero) simp
    moreover have "cnt_inv s ?k2" by (rule cnt_inv_cong [OF k2 cnt])
    ultimately have "poll_ok s (insert w D - {w}) w ?k2 (poll_loop resched ?c bm 0 now sigs ?k2)"
      using inv2 by (intro poll_loop_ok) (simp_all add: poll_of_def)
    then have "poll_ok s D w k (poll_loop resched ?c bm 0 now sigs ?k2)"
      using w by (auto intro: poll_ok_base [OF _ k2])
    moreover have "semPoll [Some s] bm flags nt th w resched now0 now sigs k =
        poll_loop resched ?c bm 0 now sigs ?k2"
      using False k1(4) unfolding semPoll_def i by (simp add: Let_def ts)
    ultimately show ?thesis by simp
  qed
qed

lemma semPoll_resume_ok:
  assumes "wait_inv s k D" "wake_inv s k D" "cnt_inv s k" "w \<in> D" and c: "poll_of s w c"
  shows "poll_ok s (D - {w}) w k (semPoll_resume resched c bm now sigs k)"
  unfolding semPoll_resume_def using poll_loop_ok [OF assms]
  by (simp split: prod.split)

lemma poll_loop_call: "poll_loop resched c bm n now sigs k = PollSleep c' bm' k' \<Longrightarrow> c' = c \<and> k' = k \<and> n \<le> 0"
  by (auto simp: poll_loop_def Let_def split: if_splits)

lemma semPoll_call:
  assumes "semPoll [Some s] bm flags nt th w resched now0 now sigs k = PollSleep c bm' k'"
  shows "poll_of s w c"
  using assms by (auto simp: semPoll_def Let_def poll_of_def dest!: poll_loop_call split: if_splits option.splits)

lemma semPoll_resume_call: "semPoll_resume resched c bm now sigs k = PollSleep c' bm' k' \<Longrightarrow> c' = c"
  by (auto simp: semPoll_resume_def dest!: poll_loop_call split: prod.splits)

section \<open>Who is given the semaphore is signalled\<close>

text \<open>What a run by the owner of waiter \<open>w\<close> does to the other waiters: it adds to the log of
  \<open>signalThread\<close>, changes no \<open>thread\<close> field, and gives nobody the semaphore whose thread it
  does not signal.\<close>

definition wakes :: "nat set \<Rightarrow> kern \<Rightarrow> kern \<Rightarrow> bool" where
  "wakes W k k' \<longleftrightarrow> (\<exists>l. k_woken k' = k_woken k @ l \<and>
     (\<forall>v. v \<notin> W \<longrightarrow> wth k' v = wth k v \<and> (wgv k' v \<longrightarrow> wgv k v \<or> wth k v \<in> set l)))"

lemma wakes_frame: "k_woken k' = k_woken k \<Longrightarrow> (\<And>v. v \<notin> W \<Longrightarrow> wth k' v = wth k v \<and> wgv k' v = wgv k v) \<Longrightarrow> wakes W k k'"
  by (simp add: wakes_def)

lemma wakes_trans: "wakes W k k1 \<Longrightarrow> wakes W k1 k2 \<Longrightarrow> wakes W k k2"
  unfolding wakes_def by (elim exE conjE, rule exI, rule conjI, simp) fastforce

lemma wakes_notify: "wakes W k (sem_notify s k)"
proof (cases "sem_first (k_sems k s)")
  case None
  then show ?thesis by (simp add: wakes_def sem_notify_def)
next
  case (Some w)
  then have "wgv (sem_notify s k) = (wgv k)(w := True)" "k_woken (sem_notify s k) = k_woken k @ [wth k w]"
    by (auto simp: sem_notify_def k_simps Let_def fun_upd_idem split: option.splits)
  then show ?thesis by (auto simp: wakes_def)
qed

lemma wakes_upd:
  "wakes W k (sem_unlink s w k)" "wakes W k (sem_enqueue s w k)" "wakes W k (set_count s n k)"
  "wakes W k (k\<lparr>k_timers := ts\<rparr>)" "wakes W k k" "w \<in> W \<Longrightarrow> wakes W k (set_wait w v k)"
  by (auto intro!: wakes_frame simp: k_simps split: if_splits)

lemma semWait_notgiven_wakes:
  "semWait_notgiven c now sigs k = SemRet r k' \<Longrightarrow> wakes W k k'"
  "semWait_notgiven c now sigs k = SemSleep c' k' \<Longrightarrow> k' = k"
  by (auto simp: semWait_notgiven_def split: if_splits intro: wakes_trans [OF wakes_upd(4) wakes_upd(1)])

lemma semWait_take_wakes: "semWait_take c k = (r, k') \<Longrightarrow> wakes W k k'"
  by (auto simp: semWait_take_def Let_def split: if_splits
      intro: wakes_notify wakes_upd wakes_trans [OF wakes_upd(3) wakes_notify] wakes_trans [OF wakes_upd(3) wakes_upd(3)])

lemma semWait_outer_wakes:
  assumes "sc_waiter c \<in> W"
  shows "semWait_outer c now sigs k = SemRet r k' \<Longrightarrow> wakes W k k'"
    and "semWait_outer c now sigs k = SemSleep c' k' \<Longrightarrow> wakes W k k' \<and>
      \<not> wgv k' (sc_waiter c) \<and> wth k' (sc_waiter c) = wth k (sc_waiter c)"
proof -
  let ?k1 = "set_wait (sc_waiter c) ((k_wait k (sc_waiter c))\<lparr>sw_give := False, sw_prev := None, sw_next := None\<rparr>) k"
  let ?k2 = "sem_enqueue (sc_sem c) (sc_waiter c) ?k1"
  have w: "wakes W k ?k1" "wakes W k ?k2" "wakes W k (?k2\<lparr>k_timers := ts\<rparr>)" for ts
    using assms by (blast intro: wakes_upd wakes_trans)+
  show "semWait_outer c now sigs k = SemRet r k' \<Longrightarrow> wakes W k k'"
    using w by (auto simp: semWait_outer_def Let_def split: if_splits option.splits prod.splits
        intro: semWait_take_wakes dest!: semWait_notgiven_wakes(1) intro: wakes_trans)
  show "wakes W k k' \<and> \<not> wgv k' (sc_waiter c) \<and> wth k' (sc_waiter c) = wth k (sc_waiter c)"
    if "semWait_outer c now sigs k = SemSleep c' k'"
    using that w by (auto simp: semWait_outer_def Let_def k_simps split: if_splits option.splits prod.splits
        dest!: semWait_notgiven_wakes(2))
qed

lemma wakes_resume_timers: "wakes W (k\<lparr>k_timers := ts\<rparr>) k' \<Longrightarrow> wakes W k k'"
  by (rule wakes_trans [OF wakes_upd(4)])

lemma semWaitGen_wakes:
  assumes "w \<in> W"
  shows "semWaitGen s n flags nt th w now0 now sigs k = SemRet r k' \<Longrightarrow> wakes W k k'"
    and "semWaitGen s n flags nt th w now0 now sigs k = SemSleep c k' \<Longrightarrow>
      wakes W k k' \<and> \<not> wgv k' w \<and> wth k' w = th"
proof -
  let ?k1 = "set_wait w \<lparr>sw_thread = th, sw_give = False, sw_prev = None, sw_next = None\<rparr> k"
  let ?c = "\<lparr>sc_sem = s, sc_count = if n = -1 then count k s else n, sc_flags = flags,
      sc_deadline = sem_deadline now0 nt, sc_waiter = w, sc_thread = th\<rparr>"
  have w: "wakes W k ?k1" "wth ?k1 w = th" using assms by (auto intro: wakes_upd simp: k_simps)
  note o = semWait_outer_wakes [of ?c W now sigs ?k1, simplified, OF assms]
  show "wakes W k k'" if "semWaitGen s n flags nt th w now0 now sigs k = SemRet r k'"
    using that w(1) o(1) by (auto simp: semWaitGen_def Let_def wakes_upd split: if_splits intro: wakes_trans)
  show "wakes W k k' \<and> \<not> wgv k' w \<and> wth k' w = th"
    if "semWaitGen s n flags nt th w now0 now sigs k = SemSleep c k'"
    using that w o(2) by (auto simp: semWaitGen_def Let_def split: if_splits intro: wakes_trans)
qed

lemma semWait_resume_wakes:
  assumes "sc_waiter c \<in> W"
  shows "semWait_resume c now sigs k = SemRet r k' \<Longrightarrow> wakes W k k'"
    and "semWait_resume c now sigs k = SemSleep c' k' \<Longrightarrow>
      wakes W k k' \<and> \<not> wgv k' (sc_waiter c) \<and> wth k' (sc_waiter c) = wth k (sc_waiter c)"
proof -
  let ?k1 = "k\<lparr>k_timers := timedCancel (sc_waiter c) (k_timers k)\<rparr>"
  note o = semWait_outer_wakes [OF assms, of now sigs ?k1]
  show "wakes W k k'" if "semWait_resume c now sigs k = SemRet r k'"
    using that o(1) by (auto simp: semWait_resume_def split: if_splits
        intro: wakes_resume_timers dest: semWait_notgiven_wakes(1))
  show "wakes W k k' \<and> \<not> wgv k' (sc_waiter c) \<and> wth k' (sc_waiter c) = wth k (sc_waiter c)"
    if "semWait_resume c now sigs k = SemSleep c' k'"
  proof (cases "wgv k (sc_waiter c)")
    case True
    with that have "semWait_outer c now sigs ?k1 = SemSleep c' k'" by (simp add: semWait_resume_def wgv_def)
    from o(2) [OF this] show ?thesis by (auto simp: k_simps intro: wakes_resume_timers)
  next
    case False
    with that have "k' = k" by (auto simp: semWait_resume_def wgv_def dest: semWait_notgiven_wakes(2))
    with False show ?thesis by (simp add: wakes_upd)
  qed
qed

lemma poll_loop_wakes:
  assumes "poll_of s w c"
  shows "poll_loop resched c bm n now sigs k = PollRet r bm' k' \<Longrightarrow> wakes W k k'"
proof -
  from assms have "pc_sems c = [Some s]" "pc_wbase c = w" by (simp_all add: poll_of_def)
  moreover have "wakes W k (poll_leave resched w [Some s] False (k\<lparr>k_timers := ts\<rparr>))" for ts
    unfolding poll_leave_one by (auto intro: wakes_trans [OF wakes_upd(4)] wakes_notify wakes_upd)
  ultimately show "poll_loop resched c bm n now sigs k = PollRet r bm' k' \<Longrightarrow> wakes W k k'"
    by (auto simp: poll_loop_def Let_def simp del: poll_leave.simps split: if_splits)
qed

lemma semPoll_wakes:
  assumes "w \<in> W"
  shows "semPoll [Some s] bm flags nt th w resched now0 now sigs k = PollRet r bm' k' \<Longrightarrow> wakes W k k'"
    and "semPoll [Some s] bm flags nt th w resched now0 now sigs k = PollSleep c bm' k' \<Longrightarrow>
      wakes W k k' \<and> \<not> wgv k' w \<and> wth k' w = th"
proof -
  define k1 where "k1 = set_wait w \<lparr>sw_thread = th, sw_give = False, sw_prev = None, sw_next = None\<rparr> k"
  have i: "poll_init th w (length [Some s]) k = k1" by (simp add: k1_def)
  define k2 where "k2 ts = sem_enqueue s w (k1\<lparr>k_timers := ts\<rparr>)" for ts
  let ?c = "\<lparr>pc_sems = [Some s], pc_wbase = w, pc_deadline = sem_deadline now0 nt\<rparr>"
  have w: "wakes W k k1" "wakes W k (k2 ts)" for ts
    using assms unfolding k2_def k1_def by (blast intro: wakes_upd wakes_trans)+
  have f: "\<not> wgv (k2 ts) w" "wth (k2 ts) w = th" for ts by (simp_all add: k2_def k1_def k_simps)
  have run: "(\<exists>n bm'. semPoll [Some s] bm flags nt th w resched now0 now sigs k = PollRet n bm' k1) \<or>
      semPoll [Some s] bm flags nt th w resched now0 now sigs k = PollHang \<or>
      (\<exists>ts n bm'. semPoll [Some s] bm flags nt th w resched now0 now sigs k =
        poll_loop resched ?c bm' n now sigs (k2 ts))"
    unfolding semPoll_def i by (simp add: Let_def k2_def split: option.split) blast
  show "wakes W k k'" if "semPoll [Some s] bm flags nt th w resched now0 now sigs k = PollRet r bm' k'"
  proof -
    have c: "poll_of s w ?c" by (simp add: poll_of_def)
    have "k' = k1 \<or> (\<exists>ts n bm1. poll_loop resched ?c bm1 n now sigs (k2 ts) = PollRet r bm' k')"
      using run unfolding that by (metis poll_out.distinct(3) poll_out.inject(1))
    then show ?thesis using w(1) wakes_trans [OF w(2) poll_loop_wakes [OF c]] by blast
  qed
  show "wakes W k k' \<and> \<not> wgv k' w \<and> wth k' w = th"
    if "semPoll [Some s] bm flags nt th w resched now0 now sigs k = PollSleep c bm' k'"
  proof -
    have "\<exists>ts n bm1. poll_loop resched ?c bm1 n now sigs (k2 ts) = PollSleep c bm' k'"
      using run unfolding that by (metis poll_out.distinct(1,5))
    then obtain ts where "k' = k2 ts" using poll_loop_call by blast
    with w(2) f show ?thesis by simp
  qed
qed

lemma semPoll_resume_wakes:
  assumes "poll_of s w c"
  shows "semPoll_resume resched c bm now sigs k = PollRet r bm' k' \<Longrightarrow> wakes W k k'"
    and "semPoll_resume resched c bm now sigs k = PollSleep c' bm' k' \<Longrightarrow> k' = k \<and> \<not> wgv k w"
proof -
  show "semPoll_resume resched c bm now sigs k = PollRet r bm' k' \<Longrightarrow> wakes W k k'"
    using poll_loop_wakes [OF assms] by (auto simp: semPoll_resume_def split: prod.splits)
  from assms have c: "pc_sems c = [Some s]" "pc_wbase c = w" by (simp_all add: poll_of_def)
  show "k' = k \<and> \<not> wgv k w" if "semPoll_resume resched c bm now sigs k = PollSleep c' bm' k'"
    using that c by (auto simp: semPoll_resume_def wgv_def dest!: poll_loop_call split: if_splits prod.splits)
qed

lemma semSignal2_wakes: "semSignal2 s n k = Ok k' \<Longrightarrow> wakes W k k'"
  by (auto simp: semSignal2_def split: if_splits intro: wakes_upd wakes_trans [OF wakes_upd(3) wakes_notify])

lemma semTerminate_wakes: "semTerminate s k = Ok k' \<Longrightarrow> wakes W k k'"
proof -
  let ?k1 = "set_sem s ((k_sems k s)\<lparr>sem_flags := sem_flags (k_sems k s) OR SEM_TERMINATED\<rparr>) k"
  have "wakes W k ?k1" by (rule wakes_frame) (auto simp: k_simps)
  moreover assume "semTerminate s k = Ok k'"
  ultimately show ?thesis
    by (auto simp: semTerminate_def Let_def split: if_splits
        intro: wakes_trans [OF _ wakes_trans [OF wakes_upd(3) wakes_notify]])
qed

section \<open>Threads sharing a semaphore\<close>

text \<open>
  The state of the threads that use semaphore \<open>s\<close>: the sleeping calls of \<open>semWaitGen\<close> and of
  \<open>semPoll\<close> by the address of their waiter. For the specification only, \<open>ss_thread\<close> has the
  thread of a sleeper, \<open>ss_at\<close> the length of the log of \<open>signalThread\<close> when it last went to
  sleep, and \<open>ss_in\<close> and \<open>ss_out\<close> count the resources put in and taken out.
  A step is one atomic run: a call of \<open>semWaitGen\<close> or \<open>semPoll\<close> up to its return or its sleep,
  a wake-up of a sleeper (the scheduler may wake any), a signal, a termination or a timer tick.

  What is no step: a signal whose sum overflows an \<open>int\<close>, which is undefined behaviour; a wait
  for a number below -1, which creates resources (\<open>semWaitGen_negative\<close>); and a poll of
  several semaphores at once, which may not signal a thread it should (\<open>semPoll_skips_signal\<close>).
\<close>

record semsys =
  ss_k :: kern
  ss_calls :: "nat \<Rightarrow> semcall option"
  ss_polls :: "nat \<Rightarrow> (pollcall \<times> bitmap) option"
  ss_thread :: "nat \<Rightarrow> nat"
  ss_at :: "nat \<Rightarrow> nat"
  ss_in :: int
  ss_out :: int

definition sleepers :: "semsys \<Rightarrow> nat set" where
  "sleepers \<sigma> = dom (ss_calls \<sigma>) \<union> dom (ss_polls \<sigma>)"

text \<open>The thread \<open>th\<close> went to sleep at waiter \<open>w\<close> in the state \<open>k\<close>.\<close>

definition asleep :: "nat \<Rightarrow> nat \<Rightarrow> kern \<Rightarrow> semsys \<Rightarrow> semsys" where
  "asleep w th k \<sigma> = \<sigma>\<lparr>ss_k := k, ss_thread := (ss_thread \<sigma>)(w := th),
     ss_at := (ss_at \<sigma>)(w := length (k_woken k))\<rparr>"

inductive sem_step :: "nat \<Rightarrow> semsys \<Rightarrow> semsys \<Rightarrow> bool" for s :: nat where
  call_ret: "w \<notin> sleepers \<sigma> \<Longrightarrow> -1 \<le> n \<Longrightarrow>
     semWaitGen s n flags nt th w now0 now sigs (ss_k \<sigma>) = SemRet r k' \<Longrightarrow>
     sem_step s \<sigma> (\<sigma>\<lparr>ss_k := k', ss_out := ss_out \<sigma> + max 0 r\<rparr>)"
| call_sleep: "w \<notin> sleepers \<sigma> \<Longrightarrow> -1 \<le> n \<Longrightarrow>
     semWaitGen s n flags nt th w now0 now sigs (ss_k \<sigma>) = SemSleep c k' \<Longrightarrow>
     sem_step s \<sigma> (asleep w th k' (\<sigma>\<lparr>ss_calls := (ss_calls \<sigma>)(w := Some c)\<rparr>))"
| resume_ret: "ss_calls \<sigma> w = Some c \<Longrightarrow>
     semWait_resume c now sigs (ss_k \<sigma>) = SemRet r k' \<Longrightarrow>
     sem_step s \<sigma> (\<sigma>\<lparr>ss_k := k', ss_calls := (ss_calls \<sigma>)(w := None), ss_out := ss_out \<sigma> + max 0 r\<rparr>)"
| resume_sleep: "ss_calls \<sigma> w = Some c \<Longrightarrow>
     semWait_resume c now sigs (ss_k \<sigma>) = SemSleep c' k' \<Longrightarrow>
     sem_step s \<sigma> (asleep w (ss_thread \<sigma> w) k' (\<sigma>\<lparr>ss_calls := (ss_calls \<sigma>)(w := Some c')\<rparr>))"
| poll_ret: "w \<notin> sleepers \<sigma> \<Longrightarrow>
     semPoll [Some s] bm flags nt th w resched now0 now sigs (ss_k \<sigma>) = PollRet r bm' k' \<Longrightarrow>
     sem_step s \<sigma> (\<sigma>\<lparr>ss_k := k'\<rparr>)"
| poll_sleep: "w \<notin> sleepers \<sigma> \<Longrightarrow>
     semPoll [Some s] bm flags nt th w resched now0 now sigs (ss_k \<sigma>) = PollSleep c bm' k' \<Longrightarrow>
     sem_step s \<sigma> (asleep w th k' (\<sigma>\<lparr>ss_polls := (ss_polls \<sigma>)(w := Some (c, bm'))\<rparr>))"
| repoll_ret: "ss_polls \<sigma> w = Some (c, bm) \<Longrightarrow>
     semPoll_resume resched c bm now sigs (ss_k \<sigma>) = PollRet r bm' k' \<Longrightarrow>
     sem_step s \<sigma> (\<sigma>\<lparr>ss_k := k', ss_polls := (ss_polls \<sigma>)(w := None)\<rparr>)"
| repoll_sleep: "ss_polls \<sigma> w = Some (c, bm) \<Longrightarrow>
     semPoll_resume resched c bm now sigs (ss_k \<sigma>) = PollSleep c' bm' k' \<Longrightarrow>
     sem_step s \<sigma> (asleep w (ss_thread \<sigma> w) k' (\<sigma>\<lparr>ss_polls := (ss_polls \<sigma>)(w := Some (c', bm'))\<rparr>))"
| signal: "semSignal2 s n (ss_k \<sigma>) = Ok k' \<Longrightarrow> count (ss_k \<sigma>) s + n < 2 ^ 31 \<Longrightarrow>
     sem_step s \<sigma> (\<sigma>\<lparr>ss_k := k', ss_in := ss_in \<sigma> + (if terminated (ss_k \<sigma>) s then 0 else n)\<rparr>)"
| terminate: "semTerminate s (ss_k \<sigma>) = Ok k' \<Longrightarrow> sem_step s \<sigma> (\<sigma>\<lparr>ss_k := k'\<rparr>)"
| tick: "onTick now resched (k_timers (ss_k \<sigma>)) = Some (ts, woken) \<Longrightarrow>
     sem_step s \<sigma> (\<sigma>\<lparr>ss_k := (ss_k \<sigma>)\<lparr>k_timers := ts, k_woken := k_woken (ss_k \<sigma>) @ woken\<rparr>\<rparr>)"

text \<open>After \<open>semInit2(sem, n)\<close>, with no timers and no sleepers.\<close>

definition sem_start :: "nat \<Rightarrow> int \<Rightarrow> semsys" where
  "sem_start s n = \<lparr>ss_k = semInit2 s n \<lparr>k_sems = (\<lambda>_. \<lparr>sem_count = 0, sem_flags = 0,
        sem_first = None, sem_last = None\<rparr>),
      k_wait = (\<lambda>_. \<lparr>sw_thread = 0, sw_give = False, sw_prev = None, sw_next = None\<rparr>),
      k_timers = timers0, k_woken = []\<rparr>,
    ss_calls = (\<lambda>_. None), ss_polls = (\<lambda>_. None), ss_thread = (\<lambda>_. 0), ss_at = (\<lambda>_. 0),
    ss_in = n, ss_out = 0\<rparr>"

inductive sem_reach :: "nat \<Rightarrow> int \<Rightarrow> semsys \<Rightarrow> bool" for s :: nat and n :: int where
  start: "sem_reach s n (sem_start s n)"
| step: "sem_reach s n \<sigma> \<Longrightarrow> sem_step s \<sigma> \<sigma>' \<Longrightarrow> sem_reach s n \<sigma>'"

text \<open>Every sleeper that was given the semaphore was signalled since it went to sleep.\<close>

definition woken_inv :: "semsys \<Rightarrow> bool" where
  "woken_inv \<sigma> \<longleftrightarrow> (\<forall>w \<in> sleepers \<sigma>. wth (ss_k \<sigma>) w = ss_thread \<sigma> w \<and>
     ss_at \<sigma> w \<le> length (k_woken (ss_k \<sigma>)) \<and>
     (wgv (ss_k \<sigma>) w \<longrightarrow> ss_thread \<sigma> w \<in> set (drop (ss_at \<sigma> w) (k_woken (ss_k \<sigma>)))))"

definition calls_inv :: "nat \<Rightarrow> semsys \<Rightarrow> bool" where
  "calls_inv s \<sigma> \<longleftrightarrow> dom (ss_calls \<sigma>) \<inter> dom (ss_polls \<sigma>) = {} \<and>
     (\<forall>w c. ss_calls \<sigma> w = Some c \<longrightarrow> sc_sem c = s \<and> sc_waiter c = w \<and> 1 \<le> sc_count c) \<and>
     (\<forall>w c bm. ss_polls \<sigma> w = Some (c, bm) \<longrightarrow> poll_of s w c)"

definition queue_inv :: "nat \<Rightarrow> semsys \<Rightarrow> bool" where
  "queue_inv s \<sigma> \<longleftrightarrow> wait_inv s (ss_k \<sigma>) (sleepers \<sigma>) \<and> wake_inv s (ss_k \<sigma>) (sleepers \<sigma>) \<and>
     cnt_inv s (ss_k \<sigma>) \<and> max 0 (count (ss_k \<sigma>) s) = ss_in \<sigma> - ss_out \<sigma>"

lemma semWait_notgiven_call: "semWait_notgiven c now sigs k = SemSleep c' k' \<Longrightarrow> c' = c"
  by (auto simp: semWait_notgiven_def split: if_splits)

lemma semWait_outer_call:
  "semWait_outer c now sigs k = SemSleep c' k' \<Longrightarrow> c' = c \<and> count k (sc_sem c) = 0"
  by (auto simp: semWait_outer_def Let_def dest: semWait_notgiven_call
      split: if_splits prod.splits option.splits)

lemma semWait_resume_call: "semWait_resume c now sigs k = SemSleep c' k' \<Longrightarrow> c' = c"
  by (auto simp: semWait_resume_def dest: semWait_notgiven_call semWait_outer_call split: if_splits)

lemma semWaitGen_call:
  assumes "semWaitGen s n flags nt th w now0 now sigs k = SemSleep c k'"
  shows "sc_sem c = s" "sc_waiter c = w" "sc_count c = n" "n \<noteq> 0" "n \<noteq> -1"
proof -
  let ?m = "if n = -1 then count k s else n"
  let ?c = "\<lparr>sc_sem = s, sc_count = ?m, sc_flags = flags, sc_deadline = sem_deadline now0 nt,
      sc_waiter = w, sc_thread = th\<rparr>"
  let ?k1 = "set_wait w \<lparr>sw_thread = th, sw_give = False, sw_prev = None, sw_next = None\<rparr> k"
  from assms have n: "n \<noteq> 0" "\<not> (n = -1 \<and> count k s = 0)"
    and o: "semWait_outer ?c now sigs ?k1 = SemSleep c k'"
    by (auto simp: semWaitGen_def Let_def split: if_splits)
  from semWait_outer_call [OF o] have "c = ?c" "count k s = 0" by (auto simp: k_simps)
  with n show "sc_sem c = s" "sc_waiter c = w" "sc_count c = n" "n \<noteq> 0" "n \<noteq> -1" by auto
qed

lemma wait_inv_cong_k:
  "wait_inv s (k\<lparr>k_timers := ts, k_woken := l\<rparr>) D \<longleftrightarrow> events_inv ts D \<and>
     (\<exists>ws. sem_queue k s ws \<and> set ws = {w \<in> D. \<not> wgv k w})"
  by (simp add: wait_inv_def sem_queue_def wgv_def wnx_def wpv_def cong: conj_cong)
    (simp add: wnx_def [abs_def] wpv_def [abs_def])

lemma has_OR_same: "m \<noteq> 0 \<Longrightarrow> has (x OR m) m"
  by (simp add: has_def)

lemma sleepers_upd [simp]:
  "sleepers (\<sigma>\<lparr>ss_k := k\<rparr>) = sleepers \<sigma>" "sleepers (\<sigma>\<lparr>ss_in := i\<rparr>) = sleepers \<sigma>"
  "sleepers (\<sigma>\<lparr>ss_out := i\<rparr>) = sleepers \<sigma>" "sleepers (asleep w th k \<sigma>) = sleepers \<sigma>"
  by (simp_all add: sleepers_def asleep_def)

lemma sleepers_new [simp]:
  "sleepers (\<sigma>\<lparr>ss_calls := (ss_calls \<sigma>)(w := Some c)\<rparr>) = insert w (sleepers \<sigma>)"
  "sleepers (\<sigma>\<lparr>ss_polls := (ss_polls \<sigma>)(w := Some p)\<rparr>) = insert w (sleepers \<sigma>)"
  by (auto simp: sleepers_def)

lemma asleep_sel [simp]:
  "ss_k (asleep w th k \<sigma>) = k" "ss_calls (asleep w th k \<sigma>) = ss_calls \<sigma>"
  "ss_polls (asleep w th k \<sigma>) = ss_polls \<sigma>" "ss_in (asleep w th k \<sigma>) = ss_in \<sigma>"
  "ss_out (asleep w th k \<sigma>) = ss_out \<sigma>" "ss_thread (asleep w th k \<sigma>) = (ss_thread \<sigma>)(w := th)"
  "ss_at (asleep w th k \<sigma>) = (ss_at \<sigma>)(w := length (k_woken k))"
  by (simp_all add: asleep_def)

lemma sleepers_gone:
  assumes "calls_inv s \<sigma>"
  shows "ss_calls \<sigma> w = Some c \<Longrightarrow> sleepers (\<sigma>\<lparr>ss_calls := (ss_calls \<sigma>)(w := None)\<rparr>) = sleepers \<sigma> - {w}"
    and "ss_polls \<sigma> w = Some p \<Longrightarrow> sleepers (\<sigma>\<lparr>ss_polls := (ss_polls \<sigma>)(w := None)\<rparr>) = sleepers \<sigma> - {w}"
  using assms unfolding calls_inv_def sleepers_def by auto

text \<open>The log of \<open>signalThread\<close>: a run that ends, and one that puts its thread to sleep.\<close>

lemma woken_inv_run:
  assumes inv: "woken_inv \<sigma>" and run: "wakes W (ss_k \<sigma>) (ss_k \<sigma>')"
    and D: "sleepers \<sigma>' \<subseteq> sleepers \<sigma>" "sleepers \<sigma>' \<inter> W = {}"
    and s: "ss_thread \<sigma>' = ss_thread \<sigma>" "ss_at \<sigma>' = ss_at \<sigma>"
  shows "woken_inv \<sigma>'"
proof -
  from run obtain l where l: "k_woken (ss_k \<sigma>') = k_woken (ss_k \<sigma>) @ l"
    "\<And>v. v \<notin> W \<Longrightarrow> wth (ss_k \<sigma>') v = wth (ss_k \<sigma>) v"
    "\<And>v. v \<notin> W \<Longrightarrow> wgv (ss_k \<sigma>') v \<Longrightarrow> wgv (ss_k \<sigma>) v \<or> wth (ss_k \<sigma>) v \<in> set l"
    by (auto simp: wakes_def)
  from D have "v \<in> sleepers \<sigma> \<and> v \<notin> W" if "v \<in> sleepers \<sigma>'" for v using that by blast
  with inv l s show ?thesis unfolding woken_inv_def by fastforce
qed

lemma woken_inv_sleep:
  assumes inv: "woken_inv \<sigma>" and run: "wakes {w} (ss_k \<sigma>) k'" "\<not> wgv k' w" "wth k' w = th"
    and D: "sleepers \<sigma>' = insert w (sleepers \<sigma>)"
    and s: "ss_k \<sigma>' = k'" "ss_thread \<sigma>' = (ss_thread \<sigma>)(w := th)"
      "ss_at \<sigma>' = (ss_at \<sigma>)(w := length (k_woken k'))"
  shows "woken_inv \<sigma>'"
proof -
  from run obtain l where l: "k_woken k' = k_woken (ss_k \<sigma>) @ l"
    "\<And>v. v \<noteq> w \<Longrightarrow> wth k' v = wth (ss_k \<sigma>) v"
    "\<And>v. v \<noteq> w \<Longrightarrow> wgv k' v \<Longrightarrow> wgv (ss_k \<sigma>) v \<or> wth (ss_k \<sigma>) v \<in> set l"
    by (auto simp: wakes_def)
  have "v \<in> sleepers \<sigma>" if "v \<in> sleepers \<sigma>'" "v \<noteq> w" for v using that D by blast
  with inv l s run show ?thesis unfolding woken_inv_def by fastforce
qed

lemma sem_step_woken:
  assumes "sem_step s \<sigma> \<sigma>'" and inv: "woken_inv \<sigma>" "calls_inv s \<sigma>"
  shows "woken_inv \<sigma>'"
  using assms(1)
proof cases
  case (call_ret w n flags nt th now0 now sigs r k')
  show ?thesis
    by (rule woken_inv_run [OF inv(1), of "{w}"])
      (use call_ret semWaitGen_wakes(1) [of w "{w}"] in auto)
next
  case (call_sleep w n flags nt th now0 now sigs c k')
  show ?thesis
    by (rule woken_inv_sleep [OF inv(1), of w k' th])
      (use call_sleep semWaitGen_wakes(2) [of w "{w}" s n flags nt th now0 now sigs "ss_k \<sigma>" c k'] in auto)
next
  case (resume_ret w c now sigs r k')
  then have "sc_waiter c = w" using inv by (auto simp: calls_inv_def)
  with semWait_resume_wakes(1) [of c "{w}" now sigs "ss_k \<sigma>" r k'] resume_ret
  have "wakes {w} (ss_k \<sigma>) k'" by simp
  then show ?thesis
    by (intro woken_inv_run [OF inv(1), of "{w}"])
      (use resume_ret sleepers_gone(1) [OF inv(2) resume_ret(2)] in \<open>auto simp: sleepers_def\<close>)
next
  case (resume_sleep w c now sigs c' k')
  then have "sc_waiter c = w" "w \<in> sleepers \<sigma>" using inv by (auto simp: calls_inv_def sleepers_def)
  with semWait_resume_wakes(2) [of c "{w}" now sigs "ss_k \<sigma>" c' k'] resume_sleep inv(1)
  have "wakes {w} (ss_k \<sigma>) k'" "\<not> wgv k' w" "wth k' w = ss_thread \<sigma> w" by (auto simp: woken_inv_def)
  then show ?thesis
    by (intro woken_inv_sleep [OF inv(1), of w k' "ss_thread \<sigma> w"]) (use resume_sleep in auto)
next
  case (poll_ret w bm flags nt th resched now0 now sigs r bm' k')
  show ?thesis
    by (rule woken_inv_run [OF inv(1), of "{w}"])
      (use poll_ret semPoll_wakes(1) [of w "{w}"] in auto)
next
  case (poll_sleep w bm flags nt th resched now0 now sigs c bm' k')
  show ?thesis
    by (rule woken_inv_sleep [OF inv(1), of w k' th])
      (use poll_sleep semPoll_wakes(2) [OF _ poll_sleep(3), of "{w}"] in auto)
next
  case (repoll_ret w c bm resched now sigs r bm' k')
  then have "poll_of s w c" using inv by (auto simp: calls_inv_def)
  from semPoll_resume_wakes(1) [OF this repoll_ret(3)]
  show ?thesis
    by (intro woken_inv_run [OF inv(1), of "{w}"])
      (use repoll_ret sleepers_gone(2) [OF inv(2) repoll_ret(2)] in \<open>auto simp: sleepers_def\<close>)
next
  case (repoll_sleep w c bm resched now sigs c' bm' k')
  then have "poll_of s w c" "w \<in> sleepers \<sigma>" using inv by (auto simp: calls_inv_def sleepers_def)
  with semPoll_resume_wakes(2) [OF _ repoll_sleep(3)] inv(1)
  have "k' = ss_k \<sigma>" "\<not> wgv k' w" "wth k' w = ss_thread \<sigma> w" by (auto simp: woken_inv_def)
  then show ?thesis
    by (intro woken_inv_sleep [OF inv(1), of w k' "ss_thread \<sigma> w"]) (use repoll_sleep wakes_upd(5) in auto)
next
  case (signal n k')
  then show ?thesis
    by (intro woken_inv_run [OF inv(1), of "{}"]) (auto intro: semSignal2_wakes)
next
  case (terminate k')
  then show ?thesis
    by (intro woken_inv_run [OF inv(1), of "{}"]) (auto intro: semTerminate_wakes)
next
  case (tick now resched ts woken)
  then show ?thesis
    by (intro woken_inv_run [OF inv(1), of "{}"]) (auto simp: wakes_def k_simps)
qed

lemma sem_step_calls:
  assumes "sem_step s \<sigma> \<sigma>'" and inv: "calls_inv s \<sigma>"
  shows "calls_inv s \<sigma>'"
  using assms(1)
proof cases
  case (call_sleep w n flags nt th now0 now sigs c k')
  with inv semWaitGen_call [OF call_sleep(4)] show ?thesis
    by (auto simp: calls_inv_def sleepers_def)
next
  case (resume_sleep w c now sigs c' k')
  with inv semWait_resume_call [OF resume_sleep(3)] show ?thesis by (auto simp: calls_inv_def)
next
  case (poll_sleep w bm flags nt th resched now0 now sigs c bm' k')
  with inv semPoll_call [OF poll_sleep(3)] show ?thesis by (auto simp: calls_inv_def sleepers_def)
next
  case (repoll_sleep w c bm resched now sigs c' bm' k')
  with inv semPoll_resume_call [OF repoll_sleep(3)] show ?thesis by (auto simp: calls_inv_def)
qed (use inv in \<open>auto simp: calls_inv_def\<close>)

lemma queue_inv_out:
  assumes "queue_inv s \<sigma>" and "out_ok s D (ss_k \<sigma>) (SemRet r k')"
    and "ss_k \<sigma>' = k'" "sleepers \<sigma>' = D" "ss_in \<sigma>' = ss_in \<sigma>" "ss_out \<sigma>' = ss_out \<sigma> + max 0 r"
  shows "queue_inv s \<sigma>'"
  using assms by (simp add: queue_inv_def)

lemma queue_inv_sleep:
  assumes "queue_inv s \<sigma>" and "out_ok s D (ss_k \<sigma>) (SemSleep c k')"
    and "ss_k \<sigma>' = k'" "sleepers \<sigma>' = insert (sc_waiter c) D" "ss_in \<sigma>' = ss_in \<sigma>" "ss_out \<sigma>' = ss_out \<sigma>"
  shows "queue_inv s \<sigma>'"
  using assms by (simp add: queue_inv_def)

lemma queue_inv_poll_ret:
  assumes "queue_inv s \<sigma>" and "poll_ok s D w (ss_k \<sigma>) (PollRet r bm k')"
    and "ss_k \<sigma>' = k'" "sleepers \<sigma>' = D" "ss_in \<sigma>' = ss_in \<sigma>" "ss_out \<sigma>' = ss_out \<sigma>"
  shows "queue_inv s \<sigma>'"
  using assms by (simp add: queue_inv_def)

lemma queue_inv_poll_sleep:
  assumes "queue_inv s \<sigma>" and "poll_ok s D w (ss_k \<sigma>) (PollSleep c bm k')"
    and "ss_k \<sigma>' = k'" "sleepers \<sigma>' = insert w D" "ss_in \<sigma>' = ss_in \<sigma>" "ss_out \<sigma>' = ss_out \<sigma>"
  shows "queue_inv s \<sigma>'"
  using assms by (simp add: queue_inv_def)

lemma sem_step_queue:
  assumes "sem_step s \<sigma> \<sigma>'" and inv: "queue_inv s \<sigma>" "calls_inv s \<sigma>"
  shows "queue_inv s \<sigma>'"
proof -
  let ?k = "ss_k \<sigma>" and ?D = "sleepers \<sigma>"
  from inv(1) have q: "wait_inv s ?k ?D" "wake_inv s ?k ?D" "cnt_inv s ?k" by (simp_all add: queue_inv_def)
  from assms(1) show ?thesis
  proof cases
    case (call_ret w n flags nt th now0 now sigs r k')
    with semWaitGen_ok [OF q call_ret(2,3), of flags nt th now0 now sigs] show ?thesis
      by (intro queue_inv_out [OF inv(1), of ?D r k']) auto
  next
    case (call_sleep w n flags nt th now0 now sigs c k')
    with semWaitGen_ok [OF q call_sleep(2,3), of flags nt th now0 now sigs] semWaitGen_call(2) [OF call_sleep(4)]
    show ?thesis by (intro queue_inv_sleep [OF inv(1), of ?D c k']) auto
  next
    case (resume_ret w c now sigs r k')
    then have c: "sc_sem c = s" "sc_waiter c = w" "1 \<le> sc_count c" "w \<in> ?D"
      using inv(2) by (auto simp: calls_inv_def sleepers_def)
    with semWait_resume_ok [OF q, of c now sigs] resume_ret sleepers_gone(1) [OF inv(2) resume_ret(2)]
    show ?thesis by (intro queue_inv_out [OF inv(1), of "?D - {w}" r k']) (auto simp: sleepers_def)
  next
    case (resume_sleep w c now sigs c' k')
    then have c: "sc_sem c = s" "sc_waiter c = w" "1 \<le> sc_count c" "w \<in> ?D" "c' = c"
      using inv(2) semWait_resume_call by (auto simp: calls_inv_def sleepers_def)
    with semWait_resume_ok [OF q, of c now sigs] resume_sleep
    show ?thesis by (intro queue_inv_sleep [OF inv(1), of "?D - {w}" c k']) auto
  next
    case (poll_ret w bm flags nt th resched now0 now sigs r bm' k')
    with semPoll_ok [OF q poll_ret(2), of bm flags nt th resched now0 now sigs] show ?thesis
      by (intro queue_inv_poll_ret [OF inv(1), of ?D w r bm' k']) auto
  next
    case (poll_sleep w bm flags nt th resched now0 now sigs c bm' k')
    with semPoll_ok [OF q poll_sleep(2), of bm flags nt th resched now0 now sigs] show ?thesis
      by (intro queue_inv_poll_sleep [OF inv(1), of ?D w c bm' k']) auto
  next
    case (repoll_ret w c bm resched now sigs r bm' k')
    then have c: "poll_of s w c" "w \<in> ?D" using inv(2) by (auto simp: calls_inv_def sleepers_def)
    with semPoll_resume_ok [OF q c(2,1), of resched bm now sigs] repoll_ret sleepers_gone(2) [OF inv(2) repoll_ret(2)]
    show ?thesis by (intro queue_inv_poll_ret [OF inv(1), of "?D - {w}" w r bm' k']) (auto simp: sleepers_def)
  next
    case (repoll_sleep w c bm resched now sigs c' bm' k')
    then have c: "poll_of s w c" "w \<in> ?D" using inv(2) by (auto simp: calls_inv_def sleepers_def)
    with semPoll_resume_ok [OF q c(2,1), of resched bm now sigs] repoll_sleep
    show ?thesis by (intro queue_inv_poll_sleep [OF inv(1), of "?D - {w}" w c' bm' k']) auto
  next
    case (signal n k')
    let ?k1 = "set_count s (c_int (count ?k s + n)) ?k"
    from q have w: "wait_inv s ?k1 ?D" by simp
    show ?thesis
    proof (cases "n = 0 \<or> terminated ?k s")
      case True
      with signal inv show ?thesis by (auto simp: semSignal2_def queue_inv_def split: if_splits)
    next
      case False
      with signal have n: "0 < n" and k': "k' = sem_notify s ?k1"
        by (auto simp: semSignal2_def split: if_splits)
      from q False have "0 \<le> count ?k s" by (auto simp: cnt_inv_def)
      with n signal have "c_int (count ?k s + n) = count ?k s + n"
        by (intro c_int_id) auto
      with wait_inv_notify [OF w] inv False signal n k' \<open>0 \<le> count ?k s\<close> show ?thesis
        by (auto simp: queue_inv_def cnt_inv_def)
    qed
  next
    case (terminate k')
    let ?k1 = "set_sem s ((k_sems ?k s)\<lparr>sem_flags := sem_flags (k_sems ?k s) OR SEM_TERMINATED\<rparr>) ?k"
    have t: "terminated ?k1 s" by (simp add: k_simps has_OR_same)
    from q have w: "wait_inv s ?k1 ?D" by (simp add: wait_inv_def sem_queue_def k_simps)
    from terminate have k': "k' = (if count ?k1 s = 0 then sem_notify s (set_count s (-1) ?k1) else ?k1)"
      by (auto simp: semTerminate_def Let_def k_simps split: if_splits)
    have "wait_inv s (set_count s (-1) ?k1) ?D" using w by simp
    note n = wait_inv_notify [OF this]
    from w n t inv k' show ?thesis unfolding terminate
      by (auto simp: queue_inv_def cnt_inv_def wake_inv_def k_simps)
  next
    case (tick now resched ts woken)
    from q have "events_inv ts ?D"
      using events_inv_tick tick(2) by (auto simp: wait_inv_def)
    moreover have "wgv (?k\<lparr>k_timers := ts, k_woken := l\<rparr>) = wgv ?k" for l
      by (simp add: wgv_def fun_eq_iff)
    ultimately show ?thesis using inv(1) unfolding tick
      by (simp add: queue_inv_def wait_inv_cong_k wake_inv_def cnt_inv_def)
        (auto simp: wait_inv_def)
  qed
qed

definition sem_sys_inv :: "nat \<Rightarrow> semsys \<Rightarrow> bool" where
  "sem_sys_inv s \<sigma> \<longleftrightarrow> calls_inv s \<sigma> \<and> queue_inv s \<sigma> \<and> woken_inv \<sigma>"

lemma sem_step_inv: "sem_step s \<sigma> \<sigma>' \<Longrightarrow> sem_sys_inv s \<sigma> \<Longrightarrow> sem_sys_inv s \<sigma>'"
  by (simp add: sem_sys_inv_def sem_step_calls sem_step_queue sem_step_woken)

lemma sem_start_inv: "0 \<le> n \<Longrightarrow> n < 2 ^ 31 \<Longrightarrow> sem_sys_inv s (sem_start s n)"
  by (auto simp: sem_sys_inv_def calls_inv_def queue_inv_def woken_inv_def sleepers_def sem_start_def
      wait_inv_def wake_inv_def cnt_inv_def sem_queue_init
      events_inv_def semInit2_def k_simps has_def sem_queue_def intro!: exI [of _ "[]"])

lemma sem_reach_inv: "sem_reach s n \<sigma> \<Longrightarrow> 0 \<le> n \<Longrightarrow> n < 2 ^ 31 \<Longrightarrow> sem_sys_inv s \<sigma>"
  by (induction rule: sem_reach.induct) (auto intro: sem_start_inv sem_step_inv)

section \<open>Properties\<close>

text \<open>A wait on a semaphore with resources returns at once with as many of them as asked for,
  or as there are, and takes exactly those; a terminated semaphore that runs empty reads -1.\<close>
theorem semWaitGen_takes:
  assumes "0 < count k s" and "count k s < 2 ^ 31" and "1 \<le> n"
  shows "\<exists>k'. semWaitGen s n flags nt th w now0 now sigs k = SemRet (min n (count k s)) k' \<and>
    count k' s = (if terminated k s \<and> count k s \<le> n then -1 else count k s - min n (count k s))"
proof -
  have "c_int (count k s - n) = count k s - n" if "n \<le> count k s"
    using assms that by (intro c_int_id) auto
  with assms show ?thesis
    by (auto simp: semWaitGen_def Let_def semWait_outer_def semWait_take_def k_simps)
qed

theorem semWaitGen_takes_witness:
  "\<exists>k'. semWaitGen 0 3 0 0 11 1 0 0 False (ss_k (sem_start 0 5)) = SemRet 3 k' \<and> count k' 0 = 2"
  using semWaitGen_takes [of "ss_k (sem_start 0 5)" 0 3 0 0 11 1 0 0 False]
  by (simp add: sem_start_def semInit2_def k_simps has_def)

text \<open>C1: a signal on a live semaphore adds the resources and serves the queue in order: the
  thread that waits longest is given the semaphore, leaves the queue and is woken.\<close>
theorem semSignal2_fifo:
  assumes "sem_queue k s (w # ws)" and "0 < n" and "\<not> terminated k s"
    and "0 \<le> count k s" and "count k s + n < 2 ^ 31"
  shows "\<exists>k'. semSignal2 s n k = Ok k' \<and> count k' s = count k s + n \<and> sem_queue k' s ws \<and>
    wgv k' = (wgv k)(w := True) \<and> k_woken k' = k_woken k @ [wth k w]"
proof -
  let ?k = "set_count s (count k s + n) k"
  from assms have "c_int (count k s + n) = count k s + n" by (intro c_int_id) auto
  with assms have "semSignal2 s n k = Ok (sem_notify s ?k)" by (simp add: semSignal2_def)
  moreover have "sem_queue ?k s (w # ws)" using assms(1) by simp
  note sem_notify_queue [OF this]
  ultimately show ?thesis by simp
qed

definition out_k :: "sem_out \<Rightarrow> kern" where
  "out_k out = (case out of SemRet r k \<Rightarrow> k | SemSleep c k \<Rightarrow> k | SemHang \<Rightarrow> undefined)"

definition out_c :: "sem_out \<Rightarrow> semcall" where
  "out_c out = (case out of SemSleep c k \<Rightarrow> c | _ \<Rightarrow> undefined)"

text \<open>A run with two readers: both sleep, one signal, termination, and the first one resumes.\<close>

definition demo_a :: sem_out where
  "demo_a = semWaitGen 0 1 0 0 11 1 0 0 False (ss_k (sem_start 0 0))"

definition demo_b :: sem_out where
  "demo_b = semWaitGen 0 1 0 0 22 2 0 0 False (out_k demo_a)"

definition demo_signalled :: "kern kres" where
  "demo_signalled = semSignal2 0 1 (out_k demo_b)"

definition demo_terminated :: "kern kres" where
  "demo_terminated = semTerminate 0 (kval demo_signalled)"

definition demo_resumed :: sem_out where
  "demo_resumed = semWait_resume (out_c demo_a) 0 False (kval demo_terminated)"

lemmas demo_defs = demo_a_def demo_b_def demo_signalled_def demo_terminated_def demo_resumed_def

lemma demo_queue:
  "sem_queue (out_k demo_b) 0 [1, 2]" "\<not> terminated (out_k demo_b) 0" "count (out_k demo_b) 0 = 0"
  "wth (out_k demo_b) 1 = 11"
  by (simp_all add: demo_defs out_k_def sem_start_def semInit2_def semWaitGen_def semWait_outer_def Let_def
      semWait_notgiven_def sem_deadline_def timedPost_def sem_enqueue_def sem_queue_def dll_def k_simps has_def)

theorem semSignal2_fifo_witness:
  "\<exists>k'. semSignal2 0 1 (out_k demo_b) = Ok k' \<and> sem_queue k' 0 [2] \<and> k_woken k' = k_woken (out_k demo_b) @ [11]"
  using semSignal2_fifo [OF demo_queue(1), of 1] demo_queue by auto

lemma demo_run:
  "\<exists>c k. demo_a = SemSleep c k" "\<exists>c k. demo_b = SemSleep c k" "\<exists>k. demo_signalled = Ok k"
  "\<exists>k. demo_terminated = Ok k" "\<exists>k. demo_resumed = SemRet 1 k"
  "count (out_k demo_b) 0 = 0" "terminated (out_k demo_resumed) 0" "count (out_k demo_resumed) 0 = -1"
  "\<not> wgv (out_k demo_resumed) 2" "k_woken (out_k demo_resumed) = [11]"
  by (simp_all add: demo_defs out_k_def out_c_def sem_start_def semInit2_def semWaitGen_def
      semWait_outer_def Let_def semWait_notgiven_def sem_deadline_def timedPost_def sem_enqueue_def
      k_simps has_def semSignal2_def sem_notify_def semTerminate_def semWait_resume_def
      semWait_take_def set_count_def timedCancel_def c_int_def unlinked_def)

lemma out_sleep: "\<exists>c k. out = SemSleep c k \<Longrightarrow> out = SemSleep (out_c out) (out_k out)"
  by (auto simp: out_c_def out_k_def)

lemma out_ret: "\<exists>k. out = SemRet r k \<Longrightarrow> out = SemRet r (out_k out)"
  by (auto simp: out_k_def)

lemma Ok_kval: "\<exists>k. m = Ok k \<Longrightarrow> m = Ok (kval m)"
  by auto

lemma demo_eqs:
  "semWaitGen 0 1 0 0 11 1 0 0 False (ss_k (sem_start 0 0)) = SemSleep (out_c demo_a) (out_k demo_a)"
  "semWaitGen 0 1 0 0 22 2 0 0 False (out_k demo_a) = SemSleep (out_c demo_b) (out_k demo_b)"
  "semSignal2 0 1 (out_k demo_b) = Ok (kval demo_signalled)"
  "semTerminate 0 (kval demo_signalled) = Ok (kval demo_terminated)"
  "semWait_resume (out_c demo_a) 0 False (kval demo_terminated) = SemRet 1 (out_k demo_resumed)"
  unfolding demo_a_def [symmetric] demo_b_def [symmetric] demo_signalled_def [symmetric]
    demo_terminated_def [symmetric] demo_resumed_def [symmetric]
  by (rule out_sleep [OF demo_run(1)] out_sleep [OF demo_run(2)] Ok_kval [OF demo_run(3)]
      Ok_kval [OF demo_run(4)] out_ret [OF demo_run(5)])+

definition demo_sys1 :: semsys where
  "demo_sys1 = asleep 1 11 (out_k demo_a) ((sem_start 0 0)\<lparr>ss_calls := [1 \<mapsto> out_c demo_a]\<rparr>)"

definition demo_sys2 :: semsys where
  "demo_sys2 = asleep 2 22 (out_k demo_b) (demo_sys1\<lparr>ss_calls := [1 \<mapsto> out_c demo_a, 2 \<mapsto> out_c demo_b]\<rparr>)"

definition demo_sys3 :: semsys where
  "demo_sys3 = demo_sys2\<lparr>ss_k := kval demo_signalled, ss_in := 1\<rparr>"

definition demo_sys5 :: semsys where
  "demo_sys5 = demo_sys3\<lparr>ss_k := out_k demo_resumed, ss_calls := [2 \<mapsto> out_c demo_b], ss_out := 1\<rparr>"

lemmas demo_sys_defs = demo_sys1_def demo_sys2_def demo_sys3_def demo_sys5_def

lemma demo_sys_sel:
  "ss_k demo_sys1 = out_k demo_a" "ss_k demo_sys2 = out_k demo_b" "ss_k demo_sys3 = kval demo_signalled"
  "ss_calls demo_sys2 = [1 \<mapsto> out_c demo_a, 2 \<mapsto> out_c demo_b]" "ss_calls demo_sys3 = ss_calls demo_sys2"
  "ss_in demo_sys2 = 0" "ss_out demo_sys2 = 0" "ss_out demo_sys3 = 0" "ss_in demo_sys3 = 1"
  by (simp_all add: demo_sys_defs) (simp_all add: sem_start_def)

lemma demo_reach2: "sem_reach 0 0 demo_sys2"
proof -
  have "sem_step 0 (sem_start 0 0) demo_sys1"
    using sem_step.call_sleep [OF _ _ demo_eqs(1)]
    by (simp add: demo_sys1_def) (simp add: sem_start_def sleepers_def)
  then have "sem_reach 0 0 demo_sys1" using sem_reach.start sem_reach.step by blast
  moreover have "sem_step 0 demo_sys1 demo_sys2"
    using sem_step.call_sleep [of 2 demo_sys1 1 0 0 0 22 0 0 False "out_c demo_b" "out_k demo_b"] demo_eqs(2)
    by (simp add: demo_sys2_def demo_sys_sel) (simp add: demo_sys1_def sleepers_def sem_start_def)
  ultimately show ?thesis by (rule sem_reach.step)
qed

lemma demo_sem_reach3: "sem_reach 0 0 demo_sys3"
proof -
  have "sem_step 0 demo_sys2 demo_sys3"
    using sem_step.signal [of 0 1 demo_sys2 "kval demo_signalled"] demo_eqs(3) demo_queue
    by (simp add: demo_sys3_def demo_sys_sel)
  with demo_reach2 show ?thesis by (rule sem_reach.step)
qed

lemma demo_reach5: "sem_reach 0 0 demo_sys5"
proof -
  let ?s4 = "demo_sys3\<lparr>ss_k := kval demo_terminated\<rparr>"
  have "sem_step 0 demo_sys3 ?s4"
    by (rule sem_step.terminate) (simp add: demo_eqs demo_sys_sel)
  with demo_sem_reach3 have r: "sem_reach 0 0 ?s4" by (rule sem_reach.step)
  have "[1::nat \<mapsto> out_c demo_a, 2 \<mapsto> out_c demo_b](1 := None) = [2 \<mapsto> out_c demo_b]"
    by (auto simp: fun_eq_iff)
  then have "sem_step 0 ?s4 demo_sys5"
    using sem_step.resume_ret [of ?s4 1 "out_c demo_a" 0 False 1 "out_k demo_resumed" 0] demo_eqs(5)
    by (simp add: demo_sys_sel demo_sys5_def)
  with r show ?thesis by (rule sem_reach.step)
qed

text \<open>A wait for a number below -1 on a semaphore with resources \<open>returns\<close> that number and puts
  its absolute value in: the reason why the histories exclude it.\<close>

lemma semWaitGen_negative:
  assumes "0 < count k s" and "n < -1" and "count k s - n < 2 ^ 31"
  shows "\<exists>k'. semWaitGen s n flags nt th w now0 now sigs k = SemRet n k' \<and> count k' s = count k s - n"
proof -
  have "c_int (count k s - n) = count k s - n" using assms by (intro c_int_id) auto
  with assms show ?thesis
    by (auto simp: semWaitGen_def Let_def semWait_outer_def semWait_take_def k_simps)
qed

text \<open>C2: resources are conserved: in every reachable state of the threads that wait for, poll,
  signal and terminate a semaphore, also after its termination, the count is what was put in
  less what the calls took, and never more was taken than put in; the count is -1 exactly when the
  semaphore was terminated and everything was taken. A termination destroys nothing, and a
  signal after it adds nothing. The steps exclude a wait for a number below -1, which creates
  resources (\<open>semWaitGen_negative\<close>), a signal that overflows the count, and a poll of several
  semaphores at once.\<close>
theorem sem_conservation:
  assumes "sem_reach s n \<sigma>" and "0 \<le> n" and "n < 2 ^ 31"
  shows "ss_out \<sigma> \<le> ss_in \<sigma> \<and> count (ss_k \<sigma>) s =
    (if terminated (ss_k \<sigma>) s \<and> ss_out \<sigma> = ss_in \<sigma> then -1 else ss_in \<sigma> - ss_out \<sigma>)"
proof -
  from sem_reach_inv [OF assms] have "cnt_inv s (ss_k \<sigma>)"
    "max 0 (count (ss_k \<sigma>) s) = ss_in \<sigma> - ss_out \<sigma>"
    by (simp_all add: sem_sys_inv_def queue_inv_def)
  then show ?thesis unfolding cnt_inv_def by auto
qed

text \<open>A live state with two sleepers, and the state after termination with everything taken.\<close>

theorem sem_conservation_witness:
  "count (ss_k demo_sys3) 0 = 1 \<and> terminated (ss_k demo_sys5) 0 \<and>
     ss_out demo_sys5 = ss_in demo_sys5 \<and> count (ss_k demo_sys5) 0 = -1"
proof -
  have "\<not> terminated (ss_k demo_sys3) 0" using demo_queue
    by (simp add: demo_sys_sel demo_signalled_def semSignal2_def)
  moreover have "terminated (ss_k demo_sys5) 0" "ss_out demo_sys5 = ss_in demo_sys5"
    using demo_run(7) by (simp_all add: demo_sys5_def demo_sys3_def)
  ultimately show ?thesis
    using sem_conservation [OF demo_sem_reach3] sem_conservation [OF demo_reach5] by (simp add: demo_sys_sel)
qed

text \<open>The thread that sleeps at waiter \<open>v\<close> was given to \<open>signalThread\<close> since it went to sleep.\<close>

definition signalled :: "semsys \<Rightarrow> nat \<Rightarrow> bool" where
  "signalled \<sigma> v \<longleftrightarrow> ss_thread \<sigma> v \<in> set (drop (ss_at \<sigma> v) (k_woken (ss_k \<sigma>)))"

text \<open>C3: no wake-up is lost on a live semaphore: whenever resources are left and a thread sleeps
  in a wait or a poll, some sleeping thread has been given the semaphore; and every sleeper that
  was given it has been signalled since it went to sleep, so that it is about to run. The
  histories interleave waits, polls of this semaphore alone, signals, terminations and ticks; a
  poll of several semaphores is excluded, because it may give a waiter the semaphore and skip its
  \<open>signalThread\<close> (\<open>semPoll_skips_signal\<close>), and after termination a wake-up can be lost
  (\<open>sem_terminated_sleeper\<close>).\<close>
theorem sem_no_lost_wakeup:
  assumes "sem_reach s n \<sigma>" and "0 \<le> n" and "n < 2 ^ 31"
    and "\<not> terminated (ss_k \<sigma>) s" and "0 < count (ss_k \<sigma>) s" and "w \<in> sleepers \<sigma>"
  shows "(\<exists>v \<in> sleepers \<sigma>. sw_give (k_wait (ss_k \<sigma>) v)) \<and>
    (\<forall>v \<in> sleepers \<sigma>. sw_give (k_wait (ss_k \<sigma>) v) \<longrightarrow> signalled \<sigma> v)"
proof -
  from sem_reach_inv [OF assms(1-3)] have "wake_inv s (ss_k \<sigma>) (sleepers \<sigma>)" "woken_inv \<sigma>"
    by (simp_all add: sem_sys_inv_def queue_inv_def)
  with assms(4-6) show ?thesis
    unfolding wake_inv_def woken_inv_def signalled_def wgv_def by blast
qed

text \<open>The state after the signal of the run above.\<close>

theorem sem_no_lost_wakeup_witness:
  "\<exists>v \<in> sleepers demo_sys3. sw_give (k_wait (ss_k demo_sys3) v) \<and> signalled demo_sys3 v"
proof -
  have "count (ss_k demo_sys3) 0 = 1" "\<not> terminated (ss_k demo_sys3) 0"
    using demo_queue by (auto simp: demo_sys_sel demo_signalled_def semSignal2_def c_int_def)
  moreover have "1 \<in> sleepers demo_sys3" by (simp add: sleepers_def demo_sys_sel)
  ultimately show ?thesis using sem_no_lost_wakeup [OF demo_sem_reach3, of 1] by auto
qed

text \<open>On a terminated semaphore a wake-up can be lost: after a run of calls, a thread sleeps in
  the queue of a terminated, empty semaphore and no sleeper has been given it, so it does not
  see the end of file that \<open>semTerminate\<close> is to report.\<close>
theorem sem_terminated_sleeper:
  "\<exists>\<sigma>. sem_reach 0 0 \<sigma> \<and> terminated (ss_k \<sigma>) 0 \<and> count (ss_k \<sigma>) 0 = -1 \<and>
     2 \<in> sleepers \<sigma> \<and> {v \<in> sleepers \<sigma>. sw_give (k_wait (ss_k \<sigma>) v)} = {}"
  by (rule exI [of _ demo_sys5])
    (use demo_reach5 demo_run in \<open>simp add: sleepers_def demo_sys_defs sem_start_def wgv_def asleep_def\<close>)

text \<open>\<open>semPoll\<close> with a free semaphore in its array returns at once with the number of free
  ones; it sets the bits of exactly those, clears none, and leaves every semaphore as it is.\<close>
theorem semPoll_ready:
  fixes sems :: "nat option list"
  defines "free k \<equiv> \<lambda>j. j < length sems \<and> (\<exists>s. sems ! j = Some s \<and> sem_count (k_sems k s) \<noteq> 0)"
  assumes "\<exists>j. free k j"
  shows "\<exists>bm' k'. semPoll sems bm flags nt th wb resched now0 now sigs k =
      PollRet (int (card {j. free k j})) bm' k' \<and> k_sems k' = k_sems k \<and>
    (\<forall>j. bit (bm' (j div 8)) (j mod 8) \<longleftrightarrow> bit (bm (j div 8)) (j mod 8) \<or> free k j)"
proof -
  let ?p = "\<lambda>i s. count k s \<noteq> 0"
  have "{j. free k j} = set (filter (\<lambda>j. \<exists>s. sems ! j = Some s \<and> ?p (0 + j) s) [0..<length sems])"
    by (auto simp: free_def)
  then have card: "card {j. free k j} = poll_free ?p sems 0"
    by (simp only: poll_free_def distinct_card [OF distinct_filter [OF distinct_upt]])
  have "finite {j. free k j}" by (simp add: free_def)
  with assms(2) have pos: "0 < poll_free ?p sems 0" by (metis card card_gt_0_iff empty_Collect_eq)
  obtain bm' m where scan: "poll_scan ?p 0 sems (bm, 0) = (bm', m)" by fastforce
  with poll_scan_count [of ?p 0 sems bm 0] have m: "m = int (card {j. free k j})" by (simp add: card)
  have "bit (bm' (j div 8)) (j mod 8) \<longleftrightarrow> bit (bm (j div 8)) (j mod 8) \<or> free k j" for j
    using poll_scan_bit [of ?p 0 sems bm 0 j] scan by (simp add: free_def)
  with scan m pos card show ?thesis by (simp add: semPoll_def Let_def)
qed

theorem semPoll_ready_witness:
  "\<exists>bm' k'. semPoll [None, Some 0] (\<lambda>_. 0) 0 0 11 1 (\<lambda>_. False) 0 0 False (ss_k (sem_start 0 5)) =
     PollRet 1 bm' k'"
proof -
  let ?k = "ss_k (sem_start 0 5)"
  have k: "count ?k 0 = 5" by (simp add: sem_start_def semInit2_def k_simps)
  have "{j. j < length [None, Some 0] \<and> (\<exists>s. [None, Some 0] ! j = Some s \<and> count ?k s \<noteq> 0)} = {1}"
    using k by (auto simp: less_Suc_eq nth_Cons')
  moreover have "\<exists>j<length [None, Some 0]. \<exists>s. [None, Some 0] ! j = Some s \<and> count ?k s \<noteq> 0"
    using k by (intro exI [of _ 1]) simp
  ultimately show ?thesis
    using semPoll_ready [of "[None, Some 0]" ?k "\<lambda>_. 0" 0 0 11 1 "\<lambda>_. False" 0 0 False] by auto
qed

end
