(* ===== verification/Gx_Mutex.thy ===== *)
theory Gx_Mutex
  imports Gx_Links
begin

text \<open>
  \<open>kernel/src/thread/mutex.c\<close>: recursive mutexes that are handed over to the thread that
  waits longest. The waiters are structs on the stacks of the waiting threads, linked
  through \<open>next\<close>; \<open>mutex->last\<close> is left dangling when the queue runs empty, as in the code.
  \<open>mutexLock\<close> is cut where the thread sleeps: \<open>mutexLock\<close> runs up to the sleep and
  \<open>mutexLock_resume\<close> from a wake-up. \<open>dead\<close> is \<open>kernelDead\<close> and \<open>cur\<close> is
  \<open>getCurrentThread()\<close>, \<open>NULL\<close> before multitasking starts.
\<close>

section \<open>Data and operations\<close>

record MutexWaiter =
  mw_thread :: nat
  mw_next :: "nat option"
  mw_awaken :: bool

record mutex =
  mx_owner :: "nat option"
  mx_numLocks :: int
  mx_first :: "nat option"
  mx_last :: "nat option"
  mx_waiters :: "nat \<Rightarrow> MutexWaiter"
  mx_signalled :: "nat list" \<comment> \<open>threads given to \<open>signalThread\<close>\<close>

datatype mx_out = MxDone mutex | MxSleep mutex

definition mutexInit :: "mutex \<Rightarrow> mutex" where
  "mutexInit m = m\<lparr>mx_owner := None, mx_numLocks := 0, mx_first := None, mx_last := None\<rparr>"

definition mutexLock :: "bool \<Rightarrow> nat option \<Rightarrow> nat \<Rightarrow> mutex \<Rightarrow> mx_out" where
  "mutexLock dead cur w m =
     (if dead then MxDone m
      else case cur of None \<Rightarrow> MxDone m
      | Some t \<Rightarrow>
          if mx_owner m = Some t then MxDone (m\<lparr>mx_numLocks := c_int (mx_numLocks m + 1)\<rparr>)
          else if mx_owner m = None then MxDone (m\<lparr>mx_owner := Some t, mx_numLocks := 1\<rparr>)
          else
            let ws = (mx_waiters m)(w := \<lparr>mw_thread = t, mw_next = None, mw_awaken = False\<rparr>)
            in if mx_first m = None then
                 MxSleep (m\<lparr>mx_waiters := ws, mx_first := Some w, mx_last := Some w\<rparr>)
               else
                 let ws = (case mx_last m of None \<Rightarrow> ws | Some l \<Rightarrow> ws(l := (ws l)\<lparr>mw_next := Some w\<rparr>))
                 in MxSleep (m\<lparr>mx_waiters := ws, mx_last := Some w\<rparr>))"

definition mutexLock_resume :: "nat \<Rightarrow> mutex \<Rightarrow> mx_out" where
  "mutexLock_resume w m =
     (if mw_awaken (mx_waiters m w) then MxDone (m\<lparr>mx_numLocks := 1\<rparr>) else MxSleep m)"

definition mutexTryLock :: "bool \<Rightarrow> nat option \<Rightarrow> mutex \<Rightarrow> int \<times> mutex" where
  "mutexTryLock dead cur m =
     (if dead then (0, m)
      else if mx_owner m = cur then (0, m\<lparr>mx_numLocks := c_int (mx_numLocks m + 1)\<rparr>)
      else if mx_owner m = None then (0, m\<lparr>mx_owner := cur, mx_numLocks := 1\<rparr>)
      else (-1, m))"

definition mutexUnlock :: "bool \<Rightarrow> nat option \<Rightarrow> mutex \<Rightarrow> mutex kres" where
  "mutexUnlock dead cur m =
     (if dead then Ok m
      else case cur of None \<Rightarrow> Ok m
      | Some t \<Rightarrow>
          if mx_owner m \<noteq> Some t then Panic
          else
            let m = m\<lparr>mx_numLocks := c_int (mx_numLocks m - 1)\<rparr> in
            if mx_numLocks m \<noteq> 0 then Ok m
            else (case mx_first m of
                None \<Rightarrow> Ok (m\<lparr>mx_owner := None\<rparr>)
              | Some f \<Rightarrow>
                  let thread = mw_thread (mx_waiters m f)
                  in Ok (m\<lparr>mx_waiters := (mx_waiters m)(f := (mx_waiters m f)\<lparr>mw_awaken := True\<rparr>),
                           mx_signalled := mx_signalled m @ [thread],
                           mx_owner := Some thread,
                           mx_first := mw_next (mx_waiters m f)\<rparr>)))"

section \<open>The queue\<close>

definition mx_queue :: "mutex \<Rightarrow> nat list \<Rightarrow> bool" where
  "mx_queue m ws \<longleftrightarrow> distinct ws \<and> lpath (\<lambda>w. mw_next (mx_waiters m w)) (mx_first m) ws None \<and>
     (ws \<noteq> [] \<longrightarrow> mx_last m = Some (last ws))"

lemma mx_queue_enqueue:
  assumes q: "mx_queue m ws" and w: "w \<notin> set ws" and o: "mx_owner m \<noteq> None" "mx_owner m \<noteq> Some t"
  obtains m' where "mutexLock False (Some t) w m = MxSleep m'" and "mx_queue m' (ws @ [w])"
    and "mx_owner m' = mx_owner m" and "mx_numLocks m' = mx_numLocks m"
    and "\<And>v. mw_thread (mx_waiters m' v) = (if v = w then t else mw_thread (mx_waiters m v))"
    and "\<And>v. mw_awaken (mx_waiters m' v) = (if v = w then False else mw_awaken (mx_waiters m v))"
proof (cases ws rule: rev_cases)
  case Nil
  with q have "mx_first m = None" by (simp add: mx_queue_def)
  with o Nil show thesis
    by (intro that [of "m\<lparr>mx_waiters := (mx_waiters m)(w := \<lparr>mw_thread = t, mw_next = None, mw_awaken = False\<rparr>),
        mx_first := Some w, mx_last := Some w\<rparr>"]) (auto simp: mutexLock_def mx_queue_def)
next
  case (snoc vs l)
  with q w have l: "mx_last m = Some l" "l \<noteq> w" "l \<notin> set vs" "w \<notin> set vs"
    by (auto simp: mx_queue_def)
  from q snoc obtain f' where f: "mx_first m = Some f'" by (cases vs) (auto simp: mx_queue_def)
  from o obtain o' where o': "mx_owner m = Some o'" "o' \<noteq> t" by auto
  let ?ws = "(mx_waiters m)(w := \<lparr>mw_thread = t, mw_next = None, mw_awaken = False\<rparr>)"
  let ?m = "m\<lparr>mx_waiters := ?ws(l := (?ws l)\<lparr>mw_next := Some w\<rparr>), mx_last := Some w\<rparr>"
  have nx: "(\<lambda>v. mw_next (mx_waiters ?m v)) = (\<lambda>v. mw_next (mx_waiters m v))(w := None, l := Some w)"
    using l by (auto simp: fun_eq_iff)
  from q snoc l have "mx_queue ?m (ws @ [w])"
    unfolding mx_queue_def nx by auto
  moreover have "mutexLock False (Some t) w m = MxSleep ?m"
    using o' f l by (simp add: mutexLock_def Let_def)
  ultimately show thesis using l by (intro that [of ?m]) auto
qed

lemma mx_queue_handover:
  assumes q: "mx_queue m (w # ws)" and o: "mx_owner m = Some t" and n: "mx_numLocks m = 1"
  obtains m' where "mutexUnlock False (Some t) m = Ok m'" and "mx_queue m' ws"
    and "mx_owner m' = Some (mw_thread (mx_waiters m w))" and "mx_numLocks m' = 0"
    and "\<And>v. mw_thread (mx_waiters m' v) = mw_thread (mx_waiters m v)"
    and "\<And>v. mw_awaken (mx_waiters m' v) = (v = w \<or> mw_awaken (mx_waiters m v))"
    and "mx_signalled m' = mx_signalled m @ [mw_thread (mx_waiters m w)]"
proof -
  from q have f: "mx_first m = Some w" by (simp add: mx_queue_def)
  let ?m = "m\<lparr>mx_numLocks := 0, mx_waiters := (mx_waiters m)(w := (mx_waiters m w)\<lparr>mw_awaken := True\<rparr>),
     mx_signalled := mx_signalled m @ [mw_thread (mx_waiters m w)],
     mx_owner := Some (mw_thread (mx_waiters m w)), mx_first := mw_next (mx_waiters m w)\<rparr>"
  have nx: "(\<lambda>v. mw_next (mx_waiters ?m v)) = (\<lambda>v. mw_next (mx_waiters m v))" by (auto simp: fun_eq_iff)
  have "mx_queue ?m ws" using q unfolding mx_queue_def nx by (auto split: if_splits)
  moreover have "mutexUnlock False (Some t) m = Ok ?m"
    using o n f by (simp add: mutexUnlock_def Let_def c_int_def)
  ultimately show thesis by (intro that [of ?m]) auto
qed

section \<open>Threads sharing a mutex\<close>

text \<open>
  \<open>ms_calls\<close> holds the sleeping calls of \<open>mutexLock\<close>, the thread by the address of its
  waiter; \<open>ms_holds\<close> counts, for the specification, the locks of each thread that returned
  and were not unlocked yet. A thread that sleeps takes no step but its wake-up. A lock
  count that overflows an \<open>int\<close> is undefined behaviour and no step.
\<close>

record mxsys =
  ms_m :: mutex
  ms_calls :: "nat \<Rightarrow> nat option"
  ms_holds :: "nat \<Rightarrow> int"

inductive mx_step :: "mxsys \<Rightarrow> mxsys \<Rightarrow> bool" where
  lock: "t \<notin> ran (ms_calls \<sigma>) \<Longrightarrow> mx_numLocks (ms_m \<sigma>) < 2 ^ 31 - 1 \<Longrightarrow>
     mutexLock False (Some t) w (ms_m \<sigma>) = MxDone m' \<Longrightarrow>
     mx_step \<sigma> (\<sigma>\<lparr>ms_m := m', ms_holds := (ms_holds \<sigma>)(t := ms_holds \<sigma> t + 1)\<rparr>)"
| sleep: "t \<notin> ran (ms_calls \<sigma>) \<Longrightarrow> ms_calls \<sigma> w = None \<Longrightarrow>
     mutexLock False (Some t) w (ms_m \<sigma>) = MxSleep m' \<Longrightarrow>
     mx_step \<sigma> (\<sigma>\<lparr>ms_m := m', ms_calls := (ms_calls \<sigma>)(w := Some t)\<rparr>)"
| resume: "ms_calls \<sigma> w = Some t \<Longrightarrow> mutexLock_resume w (ms_m \<sigma>) = MxDone m' \<Longrightarrow>
     mx_step \<sigma> (\<sigma>\<lparr>ms_m := m', ms_calls := (ms_calls \<sigma>)(w := None),
                   ms_holds := (ms_holds \<sigma>)(t := ms_holds \<sigma> t + 1)\<rparr>)"
| again: "ms_calls \<sigma> w = Some t \<Longrightarrow> mutexLock_resume w (ms_m \<sigma>) = MxSleep m' \<Longrightarrow>
     mx_step \<sigma> (\<sigma>\<lparr>ms_m := m'\<rparr>)"
| trylock: "t \<notin> ran (ms_calls \<sigma>) \<Longrightarrow> mx_numLocks (ms_m \<sigma>) < 2 ^ 31 - 1 \<Longrightarrow>
     mutexTryLock False (Some t) (ms_m \<sigma>) = (r, m') \<Longrightarrow>
     mx_step \<sigma> (\<sigma>\<lparr>ms_m := m', ms_holds := (ms_holds \<sigma>)(t := ms_holds \<sigma> t + (if r = 0 then 1 else 0))\<rparr>)"
| unlock: "t \<notin> ran (ms_calls \<sigma>) \<Longrightarrow> mutexUnlock False (Some t) (ms_m \<sigma>) = Ok m' \<Longrightarrow>
     mx_step \<sigma> (\<sigma>\<lparr>ms_m := m', ms_holds := (ms_holds \<sigma>)(t := ms_holds \<sigma> t - 1)\<rparr>)"

definition mx_start :: mxsys where
  "mx_start = \<lparr>ms_m = mutexInit \<lparr>mx_owner = None, mx_numLocks = 0, mx_first = None, mx_last = None,
      mx_waiters = (\<lambda>_. \<lparr>mw_thread = 0, mw_next = None, mw_awaken = False\<rparr>), mx_signalled = []\<rparr>,
    ms_calls = (\<lambda>_. None), ms_holds = (\<lambda>_. 0)\<rparr>"

inductive mx_reach :: "mxsys \<Rightarrow> bool" where
  start: "mx_reach mx_start"
| step: "mx_reach \<sigma> \<Longrightarrow> mx_step \<sigma> \<sigma>' \<Longrightarrow> mx_reach \<sigma>'"

text \<open>
  The invariant. The owner either runs with all the locks, or was handed the mutex and has
  not resumed; the queue holds the sleepers that were not handed it.
\<close>

definition awaken :: "mxsys \<Rightarrow> nat \<Rightarrow> bool" where
  "awaken \<sigma> w \<longleftrightarrow> mw_awaken (mx_waiters (ms_m \<sigma>) w)"

definition mx_owned :: "mxsys \<Rightarrow> bool" where
  "mx_owned \<sigma> \<longleftrightarrow> (case mx_owner (ms_m \<sigma>) of
     None \<Rightarrow> ms_calls \<sigma> = (\<lambda>_. None) \<and> ms_holds \<sigma> = (\<lambda>_. 0)
   | Some t \<Rightarrow> (\<forall>t'. t' \<noteq> t \<longrightarrow> ms_holds \<sigma> t' = 0) \<and>
       (if t \<in> ran (ms_calls \<sigma>)
        then ms_holds \<sigma> t = 0 \<and> (\<exists>w. ms_calls \<sigma> w = Some t \<and> awaken \<sigma> w \<and>
               (\<forall>v. ms_calls \<sigma> v \<noteq> None \<longrightarrow> awaken \<sigma> v \<longrightarrow> v = w))
        else 1 \<le> mx_numLocks (ms_m \<sigma>) \<and> mx_numLocks (ms_m \<sigma>) < 2 ^ 31 \<and>
               ms_holds \<sigma> t = mx_numLocks (ms_m \<sigma>) \<and>
               (\<forall>v. ms_calls \<sigma> v \<noteq> None \<longrightarrow> \<not> awaken \<sigma> v)))"

definition mx_inv :: "mxsys \<Rightarrow> bool" where
  "mx_inv \<sigma> \<longleftrightarrow> mx_owned \<sigma> \<and>
     (\<exists>ws. mx_queue (ms_m \<sigma>) ws \<and> set ws = {w. ms_calls \<sigma> w \<noteq> None \<and> \<not> awaken \<sigma> w}) \<and>
     (\<forall>w t. ms_calls \<sigma> w = Some t \<longrightarrow> mw_thread (mx_waiters (ms_m \<sigma>) w) = t) \<and>
     inj_on (ms_calls \<sigma>) (dom (ms_calls \<sigma>))"

lemma mx_invI:
  assumes "mx_owned \<sigma>" and "mx_queue (ms_m \<sigma>) ws"
    and "set ws = {w. ms_calls \<sigma> w \<noteq> None \<and> \<not> awaken \<sigma> w}"
    and "\<forall>w t. ms_calls \<sigma> w = Some t \<longrightarrow> mw_thread (mx_waiters (ms_m \<sigma>) w) = t"
    and "inj_on (ms_calls \<sigma>) (dom (ms_calls \<sigma>))"
  shows "mx_inv \<sigma>"
  unfolding mx_inv_def using assms(1,4,5) by (intro conjI exI [of _ ws] assms(2,3)) assumption+

lemma mx_queue_cong:
  "mx_first m' = mx_first m \<Longrightarrow> mx_last m' = mx_last m \<Longrightarrow> mx_waiters m' = mx_waiters m \<Longrightarrow>
   mx_queue m' ws = mx_queue m ws"
  by (simp add: mx_queue_def)

lemma mx_start_inv: "mx_inv mx_start"
  by (auto simp: mx_inv_def mx_owned_def mx_start_def mutexInit_def mx_queue_def intro!: exI [of _ "[]"])

text \<open>Taking the mutex while it is free or already held by the caller.\<close>

definition mx_taken :: "nat \<Rightarrow> mutex \<Rightarrow> mutex" where
  "mx_taken t m = (if mx_owner m = Some t then m\<lparr>mx_numLocks := c_int (mx_numLocks m + 1)\<rparr>
     else m\<lparr>mx_owner := Some t, mx_numLocks := 1\<rparr>)"

lemma mutexLock_done:
  "mutexLock False (Some t) w m = MxDone m' \<Longrightarrow>
     m' = mx_taken t m \<and> (mx_owner m = None \<or> mx_owner m = Some t)"
  by (auto simp: mutexLock_def mx_taken_def Let_def split: if_splits)

lemma mutexLock_sleep:
  "mutexLock False (Some t) w m = MxSleep m' \<Longrightarrow> mx_owner m \<noteq> None \<and> mx_owner m \<noteq> Some t"
  by (auto simp: mutexLock_def Let_def split: if_splits)

lemma mutexTryLock_cases:
  "mutexTryLock False (Some t) m = (r, m') \<Longrightarrow>
     (r = 0 \<and> m' = mx_taken t m \<and> (mx_owner m = None \<or> mx_owner m = Some t)) \<or> (r = -1 \<and> m' = m)"
  by (auto simp: mutexTryLock_def mx_taken_def split: if_splits)

lemma mx_taken_inv:
  assumes inv: "mx_inv \<sigma>" and t: "t \<notin> ran (ms_calls \<sigma>)" and n: "mx_numLocks (ms_m \<sigma>) < 2 ^ 31 - 1"
    and o: "mx_owner (ms_m \<sigma>) = None \<or> mx_owner (ms_m \<sigma>) = Some t"
  shows "mx_inv (\<sigma>\<lparr>ms_m := mx_taken t (ms_m \<sigma>), ms_holds := (ms_holds \<sigma>)(t := ms_holds \<sigma> t + 1)\<rparr>)"
proof -
  have q: "mx_queue (mx_taken t (ms_m \<sigma>)) ws = mx_queue (ms_m \<sigma>) ws" for ws
    by (rule mx_queue_cong) (simp_all add: mx_taken_def)
  have w: "mx_waiters (mx_taken t (ms_m \<sigma>)) = mx_waiters (ms_m \<sigma>)" by (simp add: mx_taken_def)
  have c: "c_int (mx_numLocks (ms_m \<sigma>) + 1) = mx_numLocks (ms_m \<sigma>) + 1" if "1 \<le> mx_numLocks (ms_m \<sigma>)"
    using that n by (intro c_int_id) auto
  have "mx_owned (\<sigma>\<lparr>ms_m := mx_taken t (ms_m \<sigma>), ms_holds := (ms_holds \<sigma>)(t := ms_holds \<sigma> t + 1)\<rparr>)"
    using inv t n o c by (auto simp: mx_inv_def mx_owned_def mx_taken_def awaken_def split: option.splits)
  with inv q w show ?thesis by (simp add: mx_inv_def awaken_def)
qed

lemma mx_sleep_inv:
  assumes inv: "mx_inv \<sigma>" and t: "t \<notin> ran (ms_calls \<sigma>)" and w: "ms_calls \<sigma> w = None"
    and run: "mutexLock False (Some t) w (ms_m \<sigma>) = MxSleep m'"
  shows "mx_inv (\<sigma>\<lparr>ms_m := m', ms_calls := (ms_calls \<sigma>)(w := Some t)\<rparr>)"
proof -
  let ?s = "\<sigma>\<lparr>ms_m := m', ms_calls := (ms_calls \<sigma>)(w := Some t)\<rparr>"
  from inv obtain ws where ws: "mx_queue (ms_m \<sigma>) ws"
    "set ws = {w. ms_calls \<sigma> w \<noteq> None \<and> \<not> awaken \<sigma> w}"
    by (auto simp: mx_inv_def)
  with w have "w \<notin> set ws" by simp
  from mutexLock_sleep [OF run] obtain o' where o: "mx_owner (ms_m \<sigma>) = Some o'" "o' \<noteq> t" by auto
  have "mx_owner (ms_m \<sigma>) \<noteq> None" "mx_owner (ms_m \<sigma>) \<noteq> Some t" using o by auto
  from mx_queue_enqueue [OF ws(1) \<open>w \<notin> set ws\<close> this] obtain m'' where
    eq: "mutexLock False (Some t) w (ms_m \<sigma>) = MxSleep m''" and
    m'': "mx_queue m'' (ws @ [w])" "mx_owner m'' = mx_owner (ms_m \<sigma>)"
    "mx_numLocks m'' = mx_numLocks (ms_m \<sigma>)"
    "\<And>v. mw_thread (mx_waiters m'' v) = (if v = w then t else mw_thread (mx_waiters (ms_m \<sigma>) v))"
    "\<And>v. mw_awaken (mx_waiters m'' v) = (if v = w then False else mw_awaken (mx_waiters (ms_m \<sigma>) v))"
    by blast
  from eq run have "m'' = m'" by simp
  note m' = m'' [unfolded this o(1)]
  from m'(5) have aw: "\<And>v. awaken ?s v = (if v = w then False else awaken \<sigma> v)"
    by (simp add: awaken_def)
  have ran: "ran ((ms_calls \<sigma>)(w := Some t)) = insert t (ran (ms_calls \<sigma>))"
    using w by (simp add: ran_map_upd)
  have "mx_owned ?s"
  proof (cases "o' \<in> ran (ms_calls \<sigma>)")
    case True
    with inv o obtain v where v: "ms_calls \<sigma> v = Some o'" "awaken \<sigma> v" "ms_holds \<sigma> o' = 0"
      "\<forall>u. ms_calls \<sigma> u \<noteq> None \<longrightarrow> awaken \<sigma> u \<longrightarrow> u = v" "\<forall>t'. t' \<noteq> o' \<longrightarrow> ms_holds \<sigma> t' = 0"
      by (auto simp: mx_inv_def mx_owned_def)
    with w have "v \<noteq> w" by auto
    with v m' aw True ran show ?thesis
      by (auto simp: mx_owned_def intro!: exI [of _ v])
  next
    case False
    with inv o m' aw ran show ?thesis by (auto simp: mx_inv_def mx_owned_def)
  qed
  moreover have "set (ws @ [w]) = {v. ms_calls ?s v \<noteq> None \<and> \<not> awaken ?s v}"
    using ws(2) aw by auto
  moreover have "\<forall>v u. ms_calls ?s v = Some u \<longrightarrow> mw_thread (mx_waiters m' v) = u"
    using inv m' by (auto simp: mx_inv_def)
  moreover have "inj_on (ms_calls ?s) (dom (ms_calls ?s))"
  proof -
    have "inj_on (ms_calls \<sigma>) (dom (ms_calls \<sigma>))" using inv by (simp add: mx_inv_def)
    moreover have "\<And>v. ms_calls \<sigma> v \<noteq> Some t" using t by (auto simp: ran_def)
    ultimately show ?thesis by (auto simp: inj_on_def dom_def)
  qed
  ultimately show ?thesis using m'(1) by (intro mx_invI [of ?s "ws @ [w]"]) simp_all
qed

lemma mx_resume_inv:
  assumes inv: "mx_inv \<sigma>" and w: "ms_calls \<sigma> w = Some t"
    and run: "mutexLock_resume w (ms_m \<sigma>) = MxDone m'"
  shows "mx_inv (\<sigma>\<lparr>ms_m := m', ms_calls := (ms_calls \<sigma>)(w := None),
           ms_holds := (ms_holds \<sigma>)(t := ms_holds \<sigma> t + 1)\<rparr>)"
proof -
  let ?s = "\<sigma>\<lparr>ms_m := m', ms_calls := (ms_calls \<sigma>)(w := None), ms_holds := (ms_holds \<sigma>)(t := ms_holds \<sigma> t + 1)\<rparr>"
  from run have a: "awaken \<sigma> w" and m': "m' = (ms_m \<sigma>)\<lparr>mx_numLocks := 1\<rparr>"
    by (auto simp: mutexLock_resume_def awaken_def split: if_splits)
  have aw: "awaken ?s = awaken \<sigma>" by (simp add: awaken_def m' fun_eq_iff)
  from inv w obtain o' where o: "mx_owner (ms_m \<sigma>) = Some o'"
    by (auto simp: mx_inv_def mx_owned_def split: option.splits)
  with inv w a obtain v where v: "o' \<in> ran (ms_calls \<sigma>)" "ms_calls \<sigma> v = Some o'" "ms_holds \<sigma> o' = 0"
    "\<forall>u. ms_calls \<sigma> u \<noteq> None \<longrightarrow> awaken \<sigma> u \<longrightarrow> u = v" "\<forall>t'. t' \<noteq> o' \<longrightarrow> ms_holds \<sigma> t' = 0"
    by (auto simp: mx_inv_def mx_owned_def split: if_splits)
  with w a have "v = w" "o' = t" by auto
  moreover have "t \<notin> ran ((ms_calls \<sigma>)(w := None))"
    using inv w by (auto simp: mx_inv_def ran_def dest: inj_onD [of _ _ _ w])
  ultimately have "mx_owned ?s" using v o aw m' by (auto simp: mx_owned_def)
  moreover have "mx_queue m' ws = mx_queue (ms_m \<sigma>) ws" for ws
    by (rule mx_queue_cong) (simp_all add: m')
  moreover have "{v. ms_calls ?s v \<noteq> None \<and> \<not> awaken ?s v} = {v. ms_calls \<sigma> v \<noteq> None \<and> \<not> awaken \<sigma> v}"
    using a aw by auto
  moreover have "inj_on (ms_calls ?s) (dom (ms_calls ?s))"
    using inv by (auto simp: mx_inv_def inj_on_def)
  ultimately show ?thesis using inv unfolding mx_inv_def by (auto simp: m')
qed

lemma mx_unlock_inv:
  assumes inv: "mx_inv \<sigma>" and t: "t \<notin> ran (ms_calls \<sigma>)"
    and run: "mutexUnlock False (Some t) (ms_m \<sigma>) = Ok m'"
  shows "mx_inv (\<sigma>\<lparr>ms_m := m', ms_holds := (ms_holds \<sigma>)(t := ms_holds \<sigma> t - 1)\<rparr>)"
proof -
  let ?s = "\<sigma>\<lparr>ms_m := m', ms_holds := (ms_holds \<sigma>)(t := ms_holds \<sigma> t - 1)\<rparr>"
  let ?n = "mx_numLocks (ms_m \<sigma>)"
  from run have o: "mx_owner (ms_m \<sigma>) = Some t" by (auto simp: mutexUnlock_def split: if_splits)
  with inv t have n: "1 \<le> ?n" "?n < 2 ^ 31" "ms_holds \<sigma> t = ?n" "\<forall>t'. t' \<noteq> t \<longrightarrow> ms_holds \<sigma> t' = 0"
    "\<forall>v. ms_calls \<sigma> v \<noteq> None \<longrightarrow> \<not> awaken \<sigma> v"
    by (auto simp: mx_inv_def mx_owned_def)
  then have c: "c_int (?n - 1) = ?n - 1" by (intro c_int_id) auto
  from inv obtain ws where ws: "mx_queue (ms_m \<sigma>) ws"
    "set ws = {w. ms_calls \<sigma> w \<noteq> None \<and> \<not> awaken \<sigma> w}"
    by (auto simp: mx_inv_def)
  show ?thesis
  proof (cases "?n = 1")
    case False
    with run o c have m': "m' = (ms_m \<sigma>)\<lparr>mx_numLocks := ?n - 1\<rparr>" by (simp add: mutexUnlock_def Let_def)
    have "mx_queue m' ws' = mx_queue (ms_m \<sigma>) ws'" for ws' by (rule mx_queue_cong) (simp_all add: m')
    moreover have aw: "awaken ?s = awaken \<sigma>" by (simp add: awaken_def m' fun_eq_iff)
    moreover have "mx_owned ?s" using n o t False by (simp add: mx_owned_def awaken_def m')
    ultimately show ?thesis using inv ws by (intro mx_invI [of ?s ws]) (simp_all add: m' mx_inv_def)
  next
    case True
    show ?thesis
    proof (cases ws)
      case Nil
      with ws have f: "mx_first (ms_m \<sigma>) = None" by (simp add: mx_queue_def)
      have "ms_calls \<sigma> v = None" for v using ws(2) n(5) Nil by auto
      then have "ms_calls \<sigma> = (\<lambda>_. None)" by (simp add: fun_eq_iff)
      with run o True c f have "m' = (ms_m \<sigma>)\<lparr>mx_numLocks := 0, mx_owner := None\<rparr>"
        by (simp add: mutexUnlock_def Let_def)
      then have "mx_owned ?s" "mx_queue m' []"
        using n True f \<open>ms_calls \<sigma> = (\<lambda>_. None)\<close> by (auto simp: mx_owned_def mx_queue_def fun_eq_iff)
      then show ?thesis using \<open>ms_calls \<sigma> = (\<lambda>_. None)\<close> by (intro mx_invI [of ?s "[]"]) simp_all
    next
      case (Cons w vs)
      from mx_queue_handover [OF ws(1) [unfolded Cons] o True] obtain m'' where
        eq: "mutexUnlock False (Some t) (ms_m \<sigma>) = Ok m''" and
        m'': "mx_queue m'' vs" "mx_owner m'' = Some (mw_thread (mx_waiters (ms_m \<sigma>) w))"
        "mx_numLocks m'' = 0"
        "\<And>v. mw_thread (mx_waiters m'' v) = mw_thread (mx_waiters (ms_m \<sigma>) v)"
        "\<And>v. mw_awaken (mx_waiters m'' v) = (v = w \<or> mw_awaken (mx_waiters (ms_m \<sigma>) v))"
        "mx_signalled m'' = mx_signalled (ms_m \<sigma>) @ [mw_thread (mx_waiters (ms_m \<sigma>) w)]"
        by (rule mx_queue_handover [OF ws(1) [unfolded Cons] o True]) (rule that)
      from eq run have "m'' = m'" by simp
      note m0 = m'' [unfolded this]
      from m0(5) have "\<And>v. awaken ?s v = (v = w \<or> awaken \<sigma> v)" by (simp add: awaken_def)
      note m = m0(1,2,4) this
      from ws(2) Cons have "ms_calls \<sigma> w \<noteq> None" by auto
      then obtain u where u: "ms_calls \<sigma> w = Some u" by auto
      with inv m(2) have ou: "mx_owner m' = Some u" by (auto simp: mx_inv_def)
      from u have "u \<in> ran (ms_calls \<sigma>)" by (auto simp: ran_def)
      have "\<forall>t'. ms_holds ?s t' = 0" using n(3,4) True by simp
      moreover have "\<forall>v. ms_calls \<sigma> v \<noteq> None \<longrightarrow> awaken ?s v \<longrightarrow> v = w" using m(4) n(5) by auto
      ultimately have "mx_owned ?s" using ou u \<open>u \<in> ran (ms_calls \<sigma>)\<close> m(4)
        by (auto simp: mx_owned_def intro!: exI [of _ w])
      moreover have "set vs = {v. ms_calls ?s v \<noteq> None \<and> \<not> awaken ?s v}"
        using ws Cons m(4) by (auto simp: mx_queue_def)
      ultimately show ?thesis using inv m(1,3) by (intro mx_invI [of ?s vs]) (simp_all add: mx_inv_def)
    qed
  qed
qed

lemma mx_step_inv: "mx_step \<sigma> \<sigma>' \<Longrightarrow> mx_inv \<sigma> \<Longrightarrow> mx_inv \<sigma>'"
proof (induction rule: mx_step.induct)
  case (lock t \<sigma> w m')
  with mutexLock_done [OF lock(3)] mx_taken_inv [of \<sigma> t] show ?case by simp
next
  case (sleep t \<sigma> w m')
  then show ?case by (intro mx_sleep_inv)
next
  case (resume \<sigma> w t m')
  then show ?case by (intro mx_resume_inv)
next
  case (again \<sigma> w t m')
  then show ?case by (auto simp: mutexLock_resume_def split: if_splits)
next
  case (trylock t \<sigma> r m')
  with mutexTryLock_cases [OF trylock(3)] mx_taken_inv [of \<sigma> t] show ?case by auto
next
  case (unlock t \<sigma> m')
  then show ?case by (intro mx_unlock_inv)
qed

lemma mx_reach_inv: "mx_reach \<sigma> \<Longrightarrow> mx_inv \<sigma>"
  by (induction rule: mx_reach.induct) (auto intro: mx_start_inv mx_step_inv)

section \<open>Properties\<close>

text \<open>C4: mutual exclusion: two threads that both hold the mutex are one thread, the owner; an
  unlock by a holder does not panic; and a free mutex has no sleepers.\<close>
theorem mutex_exclusion:
  assumes "mx_reach \<sigma>" and "0 < ms_holds \<sigma> t"
  shows "(\<forall>u. 0 < ms_holds \<sigma> u \<longrightarrow> u = t) \<and> mx_owner (ms_m \<sigma>) = Some t \<and>
    mutexUnlock False (Some t) (ms_m \<sigma>) \<noteq> Panic"
proof -
  from mx_reach_inv [OF assms(1)] have "mx_owned \<sigma>" by (simp add: mx_inv_def)
  with assms(2) obtain t' where t': "mx_owner (ms_m \<sigma>) = Some t'" "\<forall>u. u \<noteq> t' \<longrightarrow> ms_holds \<sigma> u = 0"
    by (auto simp: mx_owned_def split: option.splits)
  with assms(2) have "t' = t" by (metis less_irrefl)
  with t' have "mx_owner (ms_m \<sigma>) = Some t" "\<forall>u. u \<noteq> t \<longrightarrow> ms_holds \<sigma> u = 0" by simp_all
  then show ?thesis by (auto simp: mutexUnlock_def Let_def split: option.splits)
qed

lemma mx_demo:
  "mx_reach (mx_start\<lparr>ms_m := mx_taken 7 (ms_m mx_start), ms_holds := (ms_holds mx_start)(7 := 1)\<rparr>)"
proof -
  have "mutexLock False (Some 7) 1 (ms_m mx_start) = MxDone (mx_taken 7 (ms_m mx_start))"
    by (simp add: mx_start_def mutexInit_def mutexLock_def mx_taken_def)
  from mx_step.lock [OF _ _ this] show ?thesis
    by (intro mx_reach.step [OF mx_reach.start]) (simp add: mx_start_def mutexInit_def)
qed

theorem mutex_exclusion_witness:
  "mx_owner (mx_taken 7 (ms_m mx_start)) = Some 7"
  using mutex_exclusion [OF mx_demo, of 7] by simp

text \<open>The mutex is handed over in the order of the queue: the last unlock of the owner makes
  the longest waiting thread the owner, marks its waiter and wakes it.\<close>
theorem mutex_handover:
  assumes "mx_queue m (w # ws)" and "mx_owner m = Some t" and "mx_numLocks m = 1"
  shows "\<exists>m'. mutexUnlock False (Some t) m = Ok m' \<and> mx_queue m' ws \<and>
    mx_owner m' = Some (mw_thread (mx_waiters m w)) \<and> mw_awaken (mx_waiters m' w) \<and>
    mx_signalled m' = mx_signalled m @ [mw_thread (mx_waiters m w)]"
  by (rule mx_queue_handover [OF assms]) auto

theorem mutex_handover_witness:
  "\<exists>m'. mutexUnlock False (Some 7) \<lparr>mx_owner = Some 7, mx_numLocks = 1, mx_first = Some 1,
      mx_last = Some 1, mx_waiters = (\<lambda>_. \<lparr>mw_thread = 8, mw_next = None, mw_awaken = False\<rparr>),
      mx_signalled = []\<rparr> = Ok m' \<and> mx_owner m' = Some 8"
  using mutex_handover [of "\<lparr>mx_owner = Some 7, mx_numLocks = 1, mx_first = Some 1, mx_last = Some 1,
      mx_waiters = (\<lambda>_. \<lparr>mw_thread = 8, mw_next = None, mw_awaken = False\<rparr>), mx_signalled = []\<rparr>" 1 "[]" 7]
  by (auto simp: mx_queue_def)

end
