(* ===== verification/Gx_FileTable.thy ===== *)
theory Gx_FileTable
  imports Gx_Prelude
begin

text \<open>
  \<open>kernel/src/thread/ftab.c\<close>: the table of file descriptors of a process, and
  \<open>vfsDup\<close>/\<open>vfsClose\<close> of \<open>kernel/src/fs/vfs.c\<close>, the reference counting of the open files
  it points to. Every operation on a table runs under the semaphore \<open>ftab->lock\<close>, so it is
  one step; \<open>vfsClose\<close> is called after the lock is released but touches no table. The
  callbacks that the last \<open>vfsClose\<close> makes are recorded in order.
\<close>

section \<open>Open files\<close>

datatype vfs_call =
    ReleaseProcessLocks nat \<comment> \<open>\<open>ftReleaseProcessLocks(inode->ft)\<close>\<close>
  | CloseFile nat nat       \<comment> \<open>\<open>inode->close(inode, filedata)\<close>\<close>
  | TreeDown nat            \<comment> \<open>\<open>ftDown(inode->ft)\<close>\<close>
  | UnrefInode nat
  | FreeFile nat

record File =
  f_refcount :: int
  f_inode :: nat

record Inode =
  i_ft :: bool \<comment> \<open>\<open>ft != NULL\<close>\<close>
  i_close :: bool \<comment> \<open>\<open>close != NULL\<close>\<close>
  i_numOpens :: int

record vfs =
  v_file :: "nat \<Rightarrow> File"
  v_inode :: "nat \<Rightarrow> Inode"
  v_calls :: "vfs_call list"

definition vfsDup :: "nat \<Rightarrow> vfs \<Rightarrow> vfs" where
  "vfsDup f v = v\<lparr>v_file := (v_file v)(f := (v_file v f)\<lparr>f_refcount := c_int (f_refcount (v_file v f) + 1)\<rparr>)\<rparr>"

definition vfsClose :: "nat \<Rightarrow> vfs \<Rightarrow> vfs" where
  "vfsClose f v =
     (let v = v\<lparr>v_file := (v_file v)(f := (v_file v f)\<lparr>f_refcount := c_int (f_refcount (v_file v f) - 1)\<rparr>)\<rparr>
      in if f_refcount (v_file v f) = 0 then
           let i = f_inode (v_file v f); inode = v_inode v i
           in v\<lparr>v_inode := (v_inode v)(i := inode\<lparr>i_numOpens := c_int (i_numOpens inode - 1)\<rparr>),
                v_calls := v_calls v
                  @ (if i_ft inode then [ReleaseProcessLocks i] else [])
                  @ (if i_close inode then [CloseFile i f] else [])
                  @ (if i_ft inode then [TreeDown i] else [])
                  @ [UnrefInode i, FreeFile f]\<rparr>
         else v)"

section \<open>The table\<close>

abbreviation MAX_OPEN_FILES :: nat where "MAX_OPEN_FILES \<equiv> 256"

text \<open>A \<open>File*\<close> in a table: \<open>NULL\<close>, \<open>FILE_RESERVE\<close>, or a file.\<close>

datatype slot = FNull | FReserve | FPtr nat

record fdent =
  fd_fp :: slot
  fd_flags :: int

record FileTable =
  ft_refcount :: int
  ft_list :: "fdent list"

text \<open>A count that is touched through \<open>NULL\<close> or \<open>FILE_RESERVE\<close> is a page fault of the kernel.\<close>

definition slot_dup :: "slot \<Rightarrow> vfs \<Rightarrow> vfs kres" where
  "slot_dup p v = (case p of FPtr f \<Rightarrow> Ok (vfsDup f v) | _ \<Rightarrow> Panic)"

definition slot_close :: "slot \<Rightarrow> vfs \<Rightarrow> vfs kres" where
  "slot_close p v = (case p of FPtr f \<Rightarrow> Ok (vfsClose f v) | _ \<Rightarrow> Panic)"

definition ftabCreate :: FileTable where
  "ftabCreate = \<lparr>ft_refcount = 1, ft_list = replicate MAX_OPEN_FILES \<lparr>fd_fp = FNull, fd_flags = 0\<rparr>\<rparr>"

definition ftabUpref :: "FileTable \<Rightarrow> FileTable" where
  "ftabUpref ft = ft\<lparr>ft_refcount := c_int (ft_refcount ft + 1)\<rparr>"

fun closeAll :: "fdent list \<Rightarrow> vfs \<Rightarrow> vfs kres" where
  "closeAll [] v = Ok v"
| "closeAll (e # es) v =
     (if fd_fp e \<noteq> FNull then kbind (slot_close (fd_fp e) v) (closeAll es) else closeAll es v)"

text \<open>\<open>None\<close> is a table that was freed.\<close>

definition ftabDownref :: "FileTable \<Rightarrow> vfs \<Rightarrow> (FileTable option \<times> vfs) kres" where
  "ftabDownref ft v =
     (let ft = ft\<lparr>ft_refcount := c_int (ft_refcount ft - 1)\<rparr> in
      if ft_refcount ft = 0 then kbind (closeAll (ft_list ft) v) (\<lambda>v. Ok (None, v))
      else Ok (Some ft, v))"

text \<open>The loop of \<open>ftabDup\<close>: the entries of the new table.\<close>

fun dupAll :: "fdent list \<Rightarrow> vfs \<Rightarrow> (fdent list \<times> vfs) kres" where
  "dupAll [] v = Ok ([], v)"
| "dupAll (e # es) v =
     (if fd_fp e \<noteq> FNull then
        kbind (slot_dup (fd_fp e) v) (\<lambda>v. kbind (dupAll es v) (\<lambda>(es', v). Ok (e # es', v)))
      else kbind (dupAll es v) (\<lambda>(es', v). Ok (\<lparr>fd_fp = FNull, fd_flags = 0\<rparr> # es', v)))"

definition ftabDup :: "FileTable \<Rightarrow> vfs \<Rightarrow> (FileTable \<times> vfs) kres" where
  "ftabDup old v = kbind (dupAll (ft_list old) v) (\<lambda>(es, v). Ok (ftabCreate\<lparr>ft_list := es\<rparr>, v))"

definition bad_fd :: "int \<Rightarrow> bool" where
  "bad_fd fd \<longleftrightarrow> fd < 0 \<or> fd \<ge> int MAX_OPEN_FILES"

definition ftabGet :: "FileTable \<Rightarrow> int \<Rightarrow> vfs \<Rightarrow> nat option \<times> vfs" where
  "ftabGet ft fd v =
     (if bad_fd fd then (None, v)
      else case fd_fp (ft_list ft ! nat fd) of
        FPtr f \<Rightarrow> (Some f, vfsDup f v)
      | _ \<Rightarrow> (None, v))"

fun firstFree :: "fdent list \<Rightarrow> nat option" where
  "firstFree [] = None"
| "firstFree (e # es) = (if fd_fp e = FNull then Some 0 else map_option Suc (firstFree es))"

definition ftabAlloc :: "FileTable \<Rightarrow> int \<times> FileTable" where
  "ftabAlloc ft =
     (case firstFree (ft_list ft) of
        Some i \<Rightarrow> (int i, ft\<lparr>ft_list := (ft_list ft)[i := (ft_list ft ! i)\<lparr>fd_fp := FReserve\<rparr>]\<rparr>)
      | None \<Rightarrow> (-1, ft))"

definition ftabSet :: "FileTable \<Rightarrow> nat \<Rightarrow> slot \<Rightarrow> int \<Rightarrow> FileTable kres" where
  "ftabSet ft fd fp flags =
     (if fd_fp (ft_list ft ! fd) \<noteq> FReserve then Panic
      else Ok (ft\<lparr>ft_list := (ft_list ft)[fd := \<lparr>fd_fp = fp, fd_flags = flags\<rparr>]\<rparr>))"

definition ftabClose :: "FileTable \<Rightarrow> int \<Rightarrow> vfs \<Rightarrow> int \<times> FileTable \<times> vfs" where
  "ftabClose ft fd v =
     (if bad_fd fd then (EBADF, ft, v)
      else let e = ft_list ft ! nat fd in
        if fd_fp e = FReserve then (EBADF, ft, v)
        else let ft = ft\<lparr>ft_list := (ft_list ft)[nat fd := e\<lparr>fd_fp := FNull\<rparr>]\<rparr>
          in case fd_fp e of
               FPtr f \<Rightarrow> (0, ft, vfsClose f v)
             | _ \<Rightarrow> (EBADF, ft, v))"

definition ftabPut :: "FileTable \<Rightarrow> int \<Rightarrow> slot \<Rightarrow> int \<Rightarrow> vfs \<Rightarrow> int \<times> FileTable \<times> vfs" where
  "ftabPut ft fd fp flags v =
     (if bad_fd fd then (EBADF, ft, v)
      else let old = fd_fp (ft_list ft ! nat fd) in
        if old = FReserve then (EBUSY, ft, v)
        else let ft = ft\<lparr>ft_list := (ft_list ft)[nat fd := \<lparr>fd_fp = fp, fd_flags = flags\<rparr>]\<rparr>
          in case old of
               FPtr f \<Rightarrow> (0, ft, vfsClose f v)
             | _ \<Rightarrow> (0, ft, v))"

definition FD_CLOEXEC :: int where "FD_CLOEXEC = 2048"

fun closeOnExec :: "fdent list \<Rightarrow> vfs \<Rightarrow> (fdent list \<times> vfs) kres" where
  "closeOnExec [] v = Ok ([], v)"
| "closeOnExec (e # es) v =
     (if fd_fp e \<noteq> FNull \<and> fd_flags e AND FD_CLOEXEC \<noteq> 0 then
        kbind (slot_close (fd_fp e) v)
          (\<lambda>v. kbind (closeOnExec es v) (\<lambda>(es', v). Ok (e\<lparr>fd_fp := FNull\<rparr> # es', v)))
      else kbind (closeOnExec es v) (\<lambda>(es', v). Ok (e # es', v)))"

definition ftabCloseOnExec :: "FileTable \<Rightarrow> vfs \<Rightarrow> (FileTable \<times> vfs) kres" where
  "ftabCloseOnExec ft v = kbind (closeOnExec (ft_list ft) v) (\<lambda>(es, v). Ok (ft\<lparr>ft_list := es\<rparr>, v))"

definition ftabGetFlags :: "FileTable \<Rightarrow> int \<Rightarrow> int" where
  "ftabGetFlags ft fd = (if bad_fd fd then -1 else fd_flags (ft_list ft ! nat fd))"

definition ftabSetFlags :: "FileTable \<Rightarrow> int \<Rightarrow> int \<Rightarrow> int \<times> FileTable" where
  "ftabSetFlags ft fd flags =
     (if bad_fd fd then (EBADF, ft)
      else (0, ft\<lparr>ft_list := (ft_list ft)[nat fd := (ft_list ft ! nat fd)\<lparr>fd_flags := flags\<rparr>]\<rparr>))"

section \<open>The contract of a reference count\<close>

text \<open>
  What the table relies on: \<open>dup\<close> and \<open>cls\<close> change the count of their file by one, on the
  32 bits of an \<open>int\<close>, and no other count. \<open>n\<close> below is the number of references there are.
\<close>

locale file_refs =
  fixes ref :: "'v \<Rightarrow> nat \<Rightarrow> int" and dup :: "nat \<Rightarrow> 'v \<Rightarrow> 'v" and cls :: "nat \<Rightarrow> 'v \<Rightarrow> 'v"
  assumes ref_dup: "ref (dup f v) g = (if g = f then c_int (ref v g + 1) else ref v g)"
    and ref_cls: "ref (cls f v) g = (if g = f then c_int (ref v g - 1) else ref v g)"
begin

lemma counted_dup:
  "(\<And>g. ref v g = c_int (n g)) \<Longrightarrow> ref (dup f v) g = c_int (n g + (if g = f then 1 else 0))"
  by (simp add: ref_dup c_int_add)

lemma counted_cls:
  "(\<And>g. ref v g = c_int (n g)) \<Longrightarrow> ref (cls f v) g = c_int (n g - (if g = f then 1 else 0))"
  by (simp add: ref_cls c_int_diff)

lemma counted_fold_dup:
  "(\<And>g. ref v g = c_int (n g)) \<Longrightarrow> ref (fold dup fs v) g = c_int (n g + int (count_list fs g))"
proof (induction fs arbitrary: v n)
  case (Cons f fs)
  from Cons.IH [of "dup f v" "\<lambda>g. n g + (if g = f then 1 else 0)"] counted_dup [OF Cons.prems]
  show ?case by (simp add: algebra_simps)
qed simp

lemma counted_fold_cls:
  "(\<And>g. ref v g = c_int (n g)) \<Longrightarrow> ref (fold cls fs v) g = c_int (n g - int (count_list fs g))"
proof (induction fs arbitrary: v n)
  case (Cons f fs)
  from Cons.IH [of "cls f v" "\<lambda>g. n g - (if g = f then 1 else 0)"] counted_cls [OF Cons.prems]
  show ?case by (simp add: algebra_simps)
qed simp

end

definition refs :: "vfs \<Rightarrow> nat \<Rightarrow> int" where
  "refs v f = f_refcount (v_file v f)"

interpretation vr: file_refs refs vfsDup vfsClose
  by unfold_locales (auto simp: refs_def vfsDup_def vfsClose_def Let_def)

section \<open>References held by the tables\<close>

definition slot_refs :: "slot \<Rightarrow> nat \<Rightarrow> int" where
  "slot_refs p f = (if p = FPtr f then 1 else 0)"

definition held :: "fdent list \<Rightarrow> nat \<Rightarrow> int" where
  "held es f = sum_list (map (\<lambda>e. slot_refs (fd_fp e) f) es)"

fun ptrs :: "fdent list \<Rightarrow> nat list" where
  "ptrs [] = []"
| "ptrs (e # es) = (case fd_fp e of FPtr f \<Rightarrow> f # ptrs es | _ \<Rightarrow> ptrs es)"

named_theorems held_simps \<open>references held by parts of a table\<close>

lemma held_Nil [held_simps]: "held [] f = 0"
  and held_Cons [held_simps]: "held (e # es) f = slot_refs (fd_fp e) f + held es f"
  by (simp_all add: held_def)

lemma slot_refs_simps [held_simps]:
  "slot_refs FNull f = 0" "slot_refs FReserve f = 0" "slot_refs (FPtr g) f = (if f = g then 1 else 0)"
  by (auto simp: slot_refs_def)

lemma held_ptrs: "int (count_list (ptrs es) f) = held es f"
  by (induction es) (auto simp: held_simps split: slot.splits)

lemma held_nonneg: "0 \<le> held es f"
  by (induction es) (auto simp: held_def slot_refs_def)

lemma held_upd:
  "i < length es \<Longrightarrow> held (es[i := e]) f = held es f - slot_refs (fd_fp (es ! i)) f + slot_refs (fd_fp e) f"
  by (induction es arbitrary: i) (auto simp: held_simps split: nat.split)

lemma held_slot: "i < length es \<Longrightarrow> slot_refs (fd_fp (es ! i)) f \<le> held es f"
proof (induction es arbitrary: i)
  case (Cons e es)
  show ?case
  proof (cases i)
    case (Suc j)
    with Cons have "slot_refs (fd_fp (es ! j)) f \<le> held es f" by simp
    moreover have "0 \<le> slot_refs (fd_fp e) f" by (simp add: slot_refs_def)
    ultimately show ?thesis using Suc by (simp add: held_simps)
  qed (use held_nonneg [of es f] in \<open>simp add: held_simps\<close>)
qed simp

lemma held_replicate_null [held_simps]: "held (replicate n \<lparr>fd_fp = FNull, fd_flags = x\<rparr>) f = 0"
  by (induction n) (simp_all add: held_simps)

lemma closeAll_Ok: "closeAll es v = Ok v' \<Longrightarrow> v' = fold vfsClose (ptrs es) v"
  by (induction es arbitrary: v) (auto simp: slot_close_def kbind_Ok_iff split: slot.splits if_splits)

lemma dupAll_Ok:
  "dupAll es v = Ok (es', v') \<Longrightarrow>
     v' = fold vfsDup (ptrs es) v \<and> length es' = length es \<and> (\<forall>f. held es' f = held es f)"
proof (induction es arbitrary: v es' v')
  case (Cons e es)
  then show ?case
    by (cases "fd_fp e") (auto simp: slot_dup_def kbind_Ok_iff held_simps)
qed simp

lemma closeOnExec_Ok:
  "closeOnExec es v = Ok (es', v') \<Longrightarrow>
     \<exists>fs. v' = fold vfsClose fs v \<and> length es' = length es \<and>
       (\<forall>f. held es' f = held es f - int (count_list fs f))"
proof (induction es arbitrary: v es' v')
  case (Cons e es)
  show ?case
  proof (cases "fd_fp e \<noteq> FNull \<and> fd_flags e AND FD_CLOEXEC \<noteq> 0")
    case True
    with Cons.prems obtain g es1 where e: "fd_fp e = FPtr g"
      and r: "closeOnExec es (vfsClose g v) = Ok (es1, v')" "es' = e\<lparr>fd_fp := FNull\<rparr> # es1"
      by (auto simp: slot_close_def kbind_Ok_iff split: slot.splits)
    from Cons.IH [OF r(1)] obtain fs where "v' = fold vfsClose fs (vfsClose g v)"
      "length es1 = length es" "\<forall>f. held es1 f = held es f - int (count_list fs f)" by blast
    with e r(2) show ?thesis by (intro exI [of _ "g # fs"]) (auto simp: held_simps)
  next
    case False
    with Cons.prems obtain es1 where r: "closeOnExec es v = Ok (es1, v')" "es' = e # es1"
      by (auto simp: kbind_Ok_iff split: if_splits)
    from Cons.IH [OF r(1)] r(2) show ?thesis by (auto simp: held_simps)
  qed
qed (auto intro: exI [of _ "[]"])

section \<open>Processes sharing files\<close>

text \<open>
  \<open>fy_tabs\<close> are the tables of the processes (\<open>None\<close> once freed) and \<open>fy_ext\<close> counts the
  references held outside the tables: the \<open>File*\<close> values that system calls work on.
\<close>

record fsys =
  fy_tabs :: "FileTable option list"
  fy_v :: vfs
  fy_ext :: "nat \<Rightarrow> int"

abbreviation tab :: "fsys \<Rightarrow> nat \<Rightarrow> FileTable \<Rightarrow> bool" where
  "tab \<sigma> i ft \<equiv> i < length (fy_tabs \<sigma>) \<and> fy_tabs \<sigma> ! i = Some ft"

definition set_tab :: "nat \<Rightarrow> FileTable option \<Rightarrow> fsys \<Rightarrow> fsys" where
  "set_tab i t \<sigma> = \<sigma>\<lparr>fy_tabs := (fy_tabs \<sigma>)[i := t]\<rparr>"

definition set_v :: "vfs \<Rightarrow> fsys \<Rightarrow> fsys" where "set_v v \<sigma> = \<sigma>\<lparr>fy_v := v\<rparr>"

definition add_ext :: "slot \<Rightarrow> int \<Rightarrow> fsys \<Rightarrow> fsys" where
  "add_ext p d \<sigma> = \<sigma>\<lparr>fy_ext := (\<lambda>f. fy_ext \<sigma> f + d * slot_refs p f)\<rparr>"

definition tab_refs :: "FileTable option \<Rightarrow> nat \<Rightarrow> int" where
  "tab_refs t f = (case t of None \<Rightarrow> 0 | Some ft \<Rightarrow> held (ft_list ft) f)"

definition total_refs :: "fsys \<Rightarrow> nat \<Rightarrow> int" where
  "total_refs \<sigma> f = fy_ext \<sigma> f + sum_list (map (\<lambda>t. tab_refs t f) (fy_tabs \<sigma>))"

abbreviation owns :: "fsys \<Rightarrow> slot \<Rightarrow> bool" where
  "owns \<sigma> p \<equiv> (case p of FPtr f \<Rightarrow> 0 < fy_ext \<sigma> f | FNull \<Rightarrow> True | FReserve \<Rightarrow> False)"

inductive ft_step :: "fsys \<Rightarrow> fsys \<Rightarrow> bool" where
  create: "ft_step \<sigma> (\<sigma>\<lparr>fy_tabs := fy_tabs \<sigma> @ [Some ftabCreate]\<rparr>)"
| dup: "tab \<sigma> i ft \<Longrightarrow> ftabDup ft (fy_v \<sigma>) = Ok (new, v) \<Longrightarrow>
     ft_step \<sigma> (set_v v (\<sigma>\<lparr>fy_tabs := fy_tabs \<sigma> @ [Some new]\<rparr>))"
| upref: "tab \<sigma> i ft \<Longrightarrow> ft_step \<sigma> (set_tab i (Some (ftabUpref ft)) \<sigma>)"
| downref: "tab \<sigma> i ft \<Longrightarrow> ftabDownref ft (fy_v \<sigma>) = Ok (t, v) \<Longrightarrow> ft_step \<sigma> (set_v v (set_tab i t \<sigma>))"
| get: "tab \<sigma> i ft \<Longrightarrow> ftabGet ft fd (fy_v \<sigma>) = (p, v) \<Longrightarrow>
     ft_step \<sigma> (set_v v (add_ext (case p of None \<Rightarrow> FNull | Some f \<Rightarrow> FPtr f) 1 \<sigma>))"
| alloc: "tab \<sigma> i ft \<Longrightarrow> ftabAlloc ft = (fd, ft') \<Longrightarrow> ft_step \<sigma> (set_tab i (Some ft') \<sigma>)"
| set: "tab \<sigma> i ft \<Longrightarrow> fd < MAX_OPEN_FILES \<Longrightarrow> owns \<sigma> p \<Longrightarrow> ftabSet ft fd p flags = Ok ft' \<Longrightarrow>
     ft_step \<sigma> (set_tab i (Some ft') (add_ext p (-1) \<sigma>))"
| close: "tab \<sigma> i ft \<Longrightarrow> ftabClose ft fd (fy_v \<sigma>) = (err, ft', v) \<Longrightarrow>
     ft_step \<sigma> (set_v v (set_tab i (Some ft') \<sigma>))"
| put: "tab \<sigma> i ft \<Longrightarrow> owns \<sigma> p \<Longrightarrow> ftabPut ft fd p flags (fy_v \<sigma>) = (err, ft', v) \<Longrightarrow>
     ft_step \<sigma> (set_v v (set_tab i (Some ft') (if err = 0 then add_ext p (-1) \<sigma> else \<sigma>)))"
| cloexec: "tab \<sigma> i ft \<Longrightarrow> ftabCloseOnExec ft (fy_v \<sigma>) = Ok (ft', v) \<Longrightarrow>
     ft_step \<sigma> (set_v v (set_tab i (Some ft') \<sigma>))"
| setflags: "tab \<sigma> i ft \<Longrightarrow> ftabSetFlags ft fd flags = (err, ft') \<Longrightarrow> ft_step \<sigma> (set_tab i (Some ft') \<sigma>)"
| vopen: "total_refs \<sigma> f = 0 \<Longrightarrow>
     ft_step \<sigma> (set_v ((fy_v \<sigma>)\<lparr>v_file := (v_file (fy_v \<sigma>))(f := \<lparr>f_refcount = 1, f_inode = inode\<rparr>)\<rparr>)
       (add_ext (FPtr f) 1 \<sigma>))"
| vdup: "0 < fy_ext \<sigma> f \<Longrightarrow> ft_step \<sigma> (set_v (vfsDup f (fy_v \<sigma>)) (add_ext (FPtr f) 1 \<sigma>))"
| vclose: "0 < fy_ext \<sigma> f \<Longrightarrow> ft_step \<sigma> (set_v (vfsClose f (fy_v \<sigma>)) (add_ext (FPtr f) (-1) \<sigma>))"

definition ft_start :: fsys where
  "ft_start = \<lparr>fy_tabs = [], fy_v = \<lparr>v_file = (\<lambda>_. \<lparr>f_refcount = 0, f_inode = 0\<rparr>),
     v_inode = (\<lambda>_. \<lparr>i_ft = True, i_close = True, i_numOpens = 1\<rparr>), v_calls = []\<rparr>, fy_ext = (\<lambda>_. 0)\<rparr>"

inductive ft_reach :: "fsys \<Rightarrow> bool" where
  start: "ft_reach ft_start"
| step: "ft_reach \<sigma> \<Longrightarrow> ft_step \<sigma> \<sigma>' \<Longrightarrow> ft_reach \<sigma>'"

definition counted :: "fsys \<Rightarrow> bool" where
  "counted \<sigma> \<longleftrightarrow> (\<forall>f. refs (fy_v \<sigma>) f = c_int (total_refs \<sigma> f))"

definition sized :: "fsys \<Rightarrow> bool" where
  "sized \<sigma> \<longleftrightarrow> (\<forall>ft. Some ft \<in> set (fy_tabs \<sigma>) \<longrightarrow> length (ft_list ft) = MAX_OPEN_FILES)"

lemma sum_list_upd_int:
  "i < length xs \<Longrightarrow> sum_list ((xs :: int list)[i := x]) = sum_list xs - xs ! i + x"
  by (induction xs arbitrary: i) (auto split: nat.split)

lemma total_set_tab:
  "tab \<sigma> i ft \<Longrightarrow> total_refs (set_tab i t \<sigma>) f = total_refs \<sigma> f - held (ft_list ft) f + tab_refs t f"
  by (simp add: total_refs_def set_tab_def map_update sum_list_upd_int tab_refs_def)

lemma total_set_v [simp]: "total_refs (set_v v \<sigma>) = total_refs \<sigma>"
  by (simp add: total_refs_def set_v_def fun_eq_iff)

lemma total_add_ext: "total_refs (add_ext p d \<sigma>) f = total_refs \<sigma> f + d * slot_refs p f"
  by (simp add: total_refs_def add_ext_def)

lemma fsys_fields [simp]:
  "fy_v (set_v v \<sigma>) = v" "fy_v (set_tab i t \<sigma>) = fy_v \<sigma>" "fy_v (add_ext p d \<sigma>) = fy_v \<sigma>"
  "fy_tabs (set_v v \<sigma>) = fy_tabs \<sigma>" "fy_tabs (add_ext p d \<sigma>) = fy_tabs \<sigma>"
  "fy_tabs (set_tab i t \<sigma>) = (fy_tabs \<sigma>)[i := t]"
  by (simp_all add: set_v_def set_tab_def add_ext_def)

text \<open>\<open>moves v v' d\<close>: from \<open>v\<close> to \<open>v'\<close> the counts change by \<open>d\<close>.\<close>

definition moves :: "vfs \<Rightarrow> vfs \<Rightarrow> (nat \<Rightarrow> int) \<Rightarrow> bool" where
  "moves v v' d \<longleftrightarrow> (\<forall>n. (\<forall>g. refs v g = c_int (n g)) \<longrightarrow> (\<forall>g. refs v' g = c_int (n g + d g)))"

lemma moves_refl: "moves v v (\<lambda>_. 0)" by (simp add: moves_def)
lemma moves_null: "moves v v (slot_refs FNull)" by (simp add: moves_def held_simps)
lemma moves_dup: "moves v (vfsDup f v) (slot_refs (FPtr f))"
  using vr.counted_dup [of v _ f] by (auto simp: moves_def slot_refs_def)
lemma moves_close: "moves v (vfsClose f v) (\<lambda>g. - slot_refs (FPtr f) g)"
  using vr.counted_cls [of v _ f] by (auto simp: moves_def slot_refs_def)
lemma moves_fold_dup: "moves v (fold vfsDup fs v) (\<lambda>g. int (count_list fs g))"
  using vr.counted_fold_dup [of v _ fs] by (auto simp: moves_def)
lemma moves_fold_close: "moves v (fold vfsClose fs v) (\<lambda>g. - int (count_list fs g))"
  using vr.counted_fold_cls [of v _ fs] by (auto simp: moves_def)

lemma moves_table:
  "moves v (fold vfsDup (ptrs es) v) (held es)"
  "moves v (fold vfsClose (ptrs es) v) (\<lambda>f. - held es f)"
  using moves_fold_dup [of v "ptrs es"] moves_fold_close [of v "ptrs es"] by (simp_all add: held_ptrs)

lemma counted_moves:
  assumes "counted \<sigma>" and "moves (fy_v \<sigma>) (fy_v \<sigma>') d" and "\<And>f. total_refs \<sigma>' f = total_refs \<sigma> f + d f"
  shows "counted \<sigma>'"
  using assms unfolding counted_def moves_def by auto

lemma sized_tab: "sized \<sigma> \<Longrightarrow> tab \<sigma> i ft \<Longrightarrow> length (ft_list ft) = MAX_OPEN_FILES"
  unfolding sized_def by (metis nth_mem)

lemma sized_set:
  "sized \<sigma> \<Longrightarrow> fy_tabs \<sigma>' = (fy_tabs \<sigma>)[i := t] \<Longrightarrow>
     (\<And>ft. t = Some ft \<Longrightarrow> length (ft_list ft) = MAX_OPEN_FILES) \<Longrightarrow> sized \<sigma>'"
  using set_update_subset_insert [of "fy_tabs \<sigma>" i t] unfolding sized_def by auto

lemma sized_snoc:
  "sized \<sigma> \<Longrightarrow> fy_tabs \<sigma>' = fy_tabs \<sigma> @ [Some ft] \<Longrightarrow> length (ft_list ft) = MAX_OPEN_FILES \<Longrightarrow> sized \<sigma>'"
  unfolding sized_def by auto

lemma firstFree_Some:
  "firstFree es = Some i \<Longrightarrow> i < length es \<and> fd_fp (es ! i) = FNull \<and> (\<forall>j<i. fd_fp (es ! j) \<noteq> FNull)"
  by (induction es arbitrary: i) (auto simp: nth_Cons' less_Suc_eq_0_disj split: if_splits)

lemma firstFree_None: "firstFree es = None \<Longrightarrow> i < length es \<Longrightarrow> fd_fp (es ! i) \<noteq> FNull"
  by (induction es arbitrary: i) (auto simp: nth_Cons' less_Suc_eq_0_disj split: if_splits)

text \<open>How each operation changes the references of its table and the counts.\<close>

definition op_ok :: "FileTable \<Rightarrow> vfs \<Rightarrow> FileTable \<Rightarrow> vfs \<Rightarrow> (nat \<Rightarrow> int) \<Rightarrow> bool" where
  "op_ok ft v ft' v' d \<longleftrightarrow> length (ft_list ft') = length (ft_list ft) \<and>
     moves v v' (\<lambda>f. held (ft_list ft') f - held (ft_list ft) f + d f)"

lemma op_okI:
  "length (ft_list ft') = length (ft_list ft) \<Longrightarrow> moves v v' e \<Longrightarrow>
   (\<And>f. e f = held (ft_list ft') f - held (ft_list ft) f + d f) \<Longrightarrow> op_ok ft v ft' v' d"
  unfolding op_ok_def using ext [of e "\<lambda>f. held (ft_list ft') f - held (ft_list ft) f + d f"] by auto

lemma ftabAlloc_op: "ftabAlloc ft = (fd, ft') \<Longrightarrow> op_ok ft v ft' v (\<lambda>_. 0)"
  by (rule op_okI [OF _ moves_refl])
    (auto simp: ftabAlloc_def held_upd held_simps dest!: firstFree_Some split: option.splits)

lemma ftabSet_op:
  assumes "ftabSet ft fd p flags = Ok ft'" and "fd < length (ft_list ft)"
  shows "op_ok ft v ft' v (\<lambda>f. - slot_refs p f)"
  by (rule op_okI [OF _ moves_refl])
    (use assms in \<open>auto simp: ftabSet_def held_upd held_simps split: if_splits\<close>)

lemma bad_fd_length: "\<not> bad_fd fd \<Longrightarrow> length es = MAX_OPEN_FILES \<Longrightarrow> nat fd < length es"
  by (auto simp: bad_fd_def)

lemma ftabClose_op:
  assumes "ftabClose ft fd v = (err, ft', v')" and "length (ft_list ft) = MAX_OPEN_FILES"
  shows "op_ok ft v ft' v' (\<lambda>_. 0)"
proof (cases "bad_fd fd \<or> (\<forall>f. fd_fp (ft_list ft ! nat fd) \<noteq> FPtr f)")
  case True
  with assms bad_fd_length [of fd "ft_list ft"] show ?thesis
    by (intro op_okI [of _ _ _ _ "\<lambda>_. 0"])
      (auto simp: ftabClose_def held_upd held_simps moves_refl Let_def split: if_splits slot.splits)
next
  case False
  then obtain f where f: "\<not> bad_fd fd" "fd_fp (ft_list ft ! nat fd) = FPtr f" by blast
  with assms bad_fd_length [of fd "ft_list ft"] show ?thesis
    by (intro op_okI [OF _ moves_close [of _ f, THEN back_subst [of "\<lambda>w. moves v w _"]]])
      (auto simp: ftabClose_def held_upd held_simps Let_def)
qed

lemma ftabPut_op:
  assumes "ftabPut ft fd p flags v = (err, ft', v')" and "length (ft_list ft) = MAX_OPEN_FILES"
  shows "op_ok ft v ft' v' (\<lambda>f. if err = 0 then - slot_refs p f else 0)"
proof (cases "bad_fd fd \<or> (\<forall>f. fd_fp (ft_list ft ! nat fd) \<noteq> FPtr f)")
  case True
  with assms bad_fd_length [of fd "ft_list ft"] show ?thesis
    by (intro op_okI [of _ _ _ _ "\<lambda>_. 0"])
      (auto simp: ftabPut_def held_upd held_simps moves_refl Let_def split: if_splits slot.splits)
next
  case False
  then obtain f where f: "\<not> bad_fd fd" "fd_fp (ft_list ft ! nat fd) = FPtr f" by blast
  with assms bad_fd_length [of fd "ft_list ft"] show ?thesis
    by (intro op_okI [OF _ moves_close [of _ f, THEN back_subst [of "\<lambda>w. moves v w _"]]])
      (auto simp: ftabPut_def held_upd held_simps Let_def)
qed

lemma ftabSetFlags_op:
  assumes "ftabSetFlags ft fd flags = (err, ft')" and "length (ft_list ft) = MAX_OPEN_FILES"
  shows "op_ok ft v ft' v (\<lambda>_. 0)"
  by (rule op_okI [OF _ moves_refl])
    (use assms bad_fd_length [of fd "ft_list ft"] in
      \<open>auto simp: ftabSetFlags_def held_upd held_simps split: if_splits\<close>)

lemma ftabCloseOnExec_op: "ftabCloseOnExec ft v = Ok (ft', v') \<Longrightarrow> op_ok ft v ft' v' (\<lambda>_. 0)"
  by (auto simp: ftabCloseOnExec_def kbind_Ok_iff dest!: closeOnExec_Ok
      intro!: op_okI [OF _ moves_fold_close])

lemma ftabGet_moves:
  "ftabGet ft fd v = (p, v') \<Longrightarrow> moves v v' (slot_refs (case p of None \<Rightarrow> FNull | Some f \<Rightarrow> FPtr f))"
  using moves_dup [of v] moves_null [of v]
  by (auto simp: ftabGet_def split: slot.splits if_splits)

text \<open>The invariant of the steps.\<close>

lemma op_step:
  assumes inv: "counted \<sigma>" "sized \<sigma>" and t: "tab \<sigma> i ft" and op: "op_ok ft (fy_v \<sigma>) ft' (fy_v \<sigma>') d"
    and tabs: "fy_tabs \<sigma>' = (fy_tabs \<sigma>)[i := Some ft']" and ext: "\<And>f. fy_ext \<sigma>' f = fy_ext \<sigma> f + d f"
  shows "counted \<sigma>' \<and> sized \<sigma>'"
proof
  have "total_refs \<sigma>' f = total_refs \<sigma> f + (held (ft_list ft') f - held (ft_list ft) f + d f)" for f
    using total_set_tab [OF t, of "Some ft'" f] ext [of f]
    by (simp add: total_refs_def set_tab_def tabs tab_refs_def)
  with inv(1) op show "counted \<sigma>'" unfolding op_ok_def by (blast intro: counted_moves)
  show "sized \<sigma>'"
    using inv(2) tabs op sized_tab [OF inv(2) t] by (auto simp: op_ok_def intro: sized_set)
qed

lemma dup_step:
  assumes inv: "counted \<sigma>" "sized \<sigma>" and t: "tab \<sigma> i ft" and r: "ftabDup ft (fy_v \<sigma>) = Ok (new, v)"
  shows "counted (set_v v (\<sigma>\<lparr>fy_tabs := fy_tabs \<sigma> @ [Some new]\<rparr>)) \<and>
    sized (set_v v (\<sigma>\<lparr>fy_tabs := fy_tabs \<sigma> @ [Some new]\<rparr>))"
proof
  from r obtain es where d: "dupAll (ft_list ft) (fy_v \<sigma>) = Ok (es, v)" "new = ftabCreate\<lparr>ft_list := es\<rparr>"
    by (auto simp: ftabDup_def kbind_Ok_iff)
  note e = dupAll_Ok [OF d(1)]
  show "counted (set_v v (\<sigma>\<lparr>fy_tabs := fy_tabs \<sigma> @ [Some new]\<rparr>))"
    by (rule counted_moves [OF inv(1), of _ "held (ft_list ft)"])
      (use e d(2) in \<open>simp_all add: moves_table total_refs_def tab_refs_def\<close>)
  show "sized (set_v v (\<sigma>\<lparr>fy_tabs := fy_tabs \<sigma> @ [Some new]\<rparr>))"
    using e d(2) sized_tab [OF inv(2) t] by (auto intro!: sized_snoc [OF inv(2)])
qed

lemma downref_step:
  assumes inv: "counted \<sigma>" "sized \<sigma>" and t: "tab \<sigma> i ft" and r: "ftabDownref ft (fy_v \<sigma>) = Ok (t', v)"
  shows "counted (set_v v (set_tab i t' \<sigma>)) \<and> sized (set_v v (set_tab i t' \<sigma>))"
proof -
  let ?n = "c_int (ft_refcount ft - 1)"
  show ?thesis
  proof (cases "?n = 0")
    case True
    with r have v: "t' = None" "v = fold vfsClose (ptrs (ft_list ft)) (fy_v \<sigma>)"
      by (auto simp: ftabDownref_def kbind_Ok_iff dest: closeAll_Ok)
    have "counted (set_v v (set_tab i t' \<sigma>))"
      by (rule counted_moves [OF inv(1), of _ "\<lambda>f. - held (ft_list ft) f"])
        (simp_all add: v moves_table total_set_tab [OF t] tab_refs_def)
    moreover have "sized (set_v v (set_tab i t' \<sigma>))"
      by (rule sized_set [OF inv(2), of _ i t']) (simp_all add: v)
    ultimately show ?thesis ..
  next
    case False
    with r have v: "t' = Some (ft\<lparr>ft_refcount := ?n\<rparr>)" "v = fy_v \<sigma>" by (auto simp: ftabDownref_def)
    have op: "op_ok ft (fy_v \<sigma>) (ft\<lparr>ft_refcount := ?n\<rparr>) (fy_v \<sigma>) (\<lambda>_. 0)"
      by (rule op_okI [OF _ moves_refl]) simp_all
    from op_step [OF inv t, of "ft\<lparr>ft_refcount := ?n\<rparr>" "set_v v (set_tab i t' \<sigma>)"] op show ?thesis
      by (simp add: v set_v_def set_tab_def)
  qed
qed

lemma vfs_step:
  assumes inv: "counted \<sigma>" "sized \<sigma>" and mv: "moves (fy_v \<sigma>) v (\<lambda>f. d * slot_refs p f)"
  shows "counted (set_v v (add_ext p d \<sigma>)) \<and> sized (set_v v (add_ext p d \<sigma>))"
  using counted_moves [OF inv(1), of "set_v v (add_ext p d \<sigma>)"] mv inv(2)
  by (simp add: total_add_ext sized_def)

lemma ext_fields [simp]:
  "fy_ext (set_v v \<sigma>) = fy_ext \<sigma>" "fy_ext (set_tab i t \<sigma>) = fy_ext \<sigma>"
  "fy_ext (add_ext p d \<sigma>) f = fy_ext \<sigma> f + d * slot_refs p f"
  by (simp_all add: set_v_def set_tab_def add_ext_def)

lemma ft_step_inv: "ft_step \<sigma> \<sigma>' \<Longrightarrow> counted \<sigma> \<Longrightarrow> sized \<sigma> \<Longrightarrow> counted \<sigma>' \<and> sized \<sigma>'"
proof (induction rule: ft_step.induct)
  case (create \<sigma>)
  have "total_refs (\<sigma>\<lparr>fy_tabs := fy_tabs \<sigma> @ [Some ftabCreate]\<rparr>) = total_refs \<sigma>"
    by (simp add: total_refs_def tab_refs_def ftabCreate_def held_simps fun_eq_iff)
  with create show ?case by (auto simp: counted_def sized_def ftabCreate_def)
next
  case (dup \<sigma> i ft new v)
  then show ?case by (intro dup_step)
next
  case (upref \<sigma> i ft)
  have "op_ok ft (fy_v \<sigma>) (ftabUpref ft) (fy_v \<sigma>) (\<lambda>_. 0)"
    by (rule op_okI [OF _ moves_refl]) (simp_all add: ftabUpref_def)
  with op_step [OF upref(2,3,1), of "ftabUpref ft" "set_tab i (Some (ftabUpref ft)) \<sigma>" "\<lambda>_. 0"]
  show ?case by simp
next
  case (downref \<sigma> i ft t v)
  then show ?case by (intro downref_step)
next
  case (get \<sigma> i ft fd p v)
  then show ?case by (intro vfs_step) (simp_all add: ftabGet_moves)
next
  case (alloc \<sigma> i ft fd ft')
  from op_step [OF alloc(3,4,1), of ft' "set_tab i (Some ft') \<sigma>" "\<lambda>_. 0"] ftabAlloc_op [OF alloc(2)]
  show ?case by simp
next
  case (set \<sigma> i ft fd p flags ft')
  then have "fd < length (ft_list ft)" by (simp add: sized_tab)
  from op_step [OF set(5,6,1), of ft' "set_tab i (Some ft') (add_ext p (-1) \<sigma>)"]
    ftabSet_op [OF set(4) this, of "fy_v \<sigma>"] show ?case by simp
next
  case (close \<sigma> i ft fd err ft' v)
  from op_step [OF close(3,4,1), of ft' "set_v v (set_tab i (Some ft') \<sigma>)"]
    ftabClose_op [OF close(2) sized_tab [OF close(4,1)]] show ?case by simp
next
  case (put \<sigma> i ft p fd flags err ft' v)
  from ftabPut_op [OF put(3) sized_tab [OF put(5,1)]]
    op_step [OF put(4,5,1), of ft' "set_v v (set_tab i (Some ft') (if err = 0 then add_ext p (-1) \<sigma> else \<sigma>))"]
  show ?case by (simp split: if_splits)
next
  case (cloexec \<sigma> i ft ft' v)
  from op_step [OF cloexec(3,4,1), of ft' "set_v v (set_tab i (Some ft') \<sigma>)"] ftabCloseOnExec_op [OF cloexec(2)]
  show ?case by simp
next
  case (setflags \<sigma> i ft fd flags err ft')
  from op_step [OF setflags(3,4,1), of ft' "set_tab i (Some ft') \<sigma>" "\<lambda>_. 0"]
    ftabSetFlags_op [OF setflags(2) sized_tab [OF setflags(4,1)]] show ?case by simp
next
  case (vopen \<sigma> f inode)
  then show ?case
    by (auto simp: counted_def sized_def total_add_ext refs_def slot_refs_def c_int_def)
next
  case (vdup \<sigma> f)
  with vfs_step [OF vdup(2,3), of _ 1 "FPtr f"] show ?case by (simp add: moves_dup)
next
  case (vclose \<sigma> f)
  with vfs_step [OF vclose(2,3), of _ "-1" "FPtr f"] show ?case by (simp add: moves_close)
qed

lemma ft_reach_inv: "ft_reach \<sigma> \<Longrightarrow> counted \<sigma> \<and> sized \<sigma>"
proof (induction rule: ft_reach.induct)
  case start
  then show ?case
    by (simp add: counted_def sized_def ft_start_def total_refs_def refs_def c_int_def)
qed (auto dest: ft_step_inv)

text \<open>References outside the tables are never negative.\<close>

lemma ft_step_ext: "ft_step \<sigma> \<sigma>' \<Longrightarrow> 0 \<le> fy_ext \<sigma> f \<Longrightarrow> 0 \<le> fy_ext \<sigma>' f"
  by (induction rule: ft_step.induct)
    (auto simp: slot_refs_def split: option.splits slot.splits)

lemma ft_reach_ext: "ft_reach \<sigma> \<Longrightarrow> 0 \<le> fy_ext \<sigma> f"
  by (induction rule: ft_reach.induct) (auto simp: ft_start_def dest: ft_step_ext)

lemma tab_refs_le:
  assumes "tab \<sigma> i ft"
  shows "fy_ext \<sigma> f + held (ft_list ft) f \<le> total_refs \<sigma> f"
proof -
  have "held (ft_list ft) f \<le> sum_list (map (\<lambda>t. tab_refs t f) (fy_tabs \<sigma>))"
    if "Some ft \<in> set (fy_tabs \<sigma>)"
    using member_le_sum_list [of "tab_refs (Some ft) f" "map (\<lambda>t. tab_refs t f) (fy_tabs \<sigma>)"] that
    by (force simp: tab_refs_def held_nonneg split: option.splits)
  with assms show ?thesis by (simp add: total_refs_def) (metis nth_mem)
qed

section \<open>Properties\<close>

text \<open>C8: no file is freed under a table: over every interleaving of the operations of any number
  of processes, the reference count of a file is, on 32 bits, the number of slots and system
  calls that refer to it; so the file in a slot has a positive count and the operation that
  brings the count to zero is the last reference.\<close>
theorem ftab_counts:
  assumes "ft_reach \<sigma>" and "total_refs \<sigma> f < 2 ^ 31"
  shows "f_refcount (v_file (fy_v \<sigma>) f) = total_refs \<sigma> f \<and>
    (tab \<sigma> i ft \<longrightarrow> fd < MAX_OPEN_FILES \<longrightarrow> fd_fp (ft_list ft ! fd) = FPtr f \<longrightarrow> 0 < f_refcount (v_file (fy_v \<sigma>) f))"
proof -
  from ft_reach_inv [OF assms(1)] have inv: "counted \<sigma>" "sized \<sigma>" by simp_all
  have "0 \<le> sum_list (map (\<lambda>t. tab_refs t f) (fy_tabs \<sigma>))"
    by (rule sum_list_nonneg) (auto simp: tab_refs_def held_nonneg split: option.splits)
  with ft_reach_ext [OF assms(1), of f] have "0 \<le> total_refs \<sigma> f" by (simp add: total_refs_def)
  with inv(1) assms(2) have eq: "f_refcount (v_file (fy_v \<sigma>) f) = total_refs \<sigma> f"
    by (simp add: counted_def refs_def c_int_id)
  moreover have "0 < total_refs \<sigma> f"
    if "tab \<sigma> i ft" "fd < MAX_OPEN_FILES" "fd_fp (ft_list ft ! fd) = FPtr f"
    using held_slot [of fd "ft_list ft" f] sized_tab [OF inv(2) that(1)] that(2,3)
      tab_refs_le [OF that(1), of f] ft_reach_ext [OF assms(1), of f] by (simp add: slot_refs_def)
  ultimately show ?thesis by simp
qed

text \<open>A process opens file 5 at descriptor 0.\<close>

definition demo_tab :: FileTable where
  "demo_tab = ftabCreate\<lparr>ft_list := (ft_list ftabCreate)[0 := \<lparr>fd_fp = FPtr 5, fd_flags = 0\<rparr>]\<rparr>"

definition demo_reserved :: FileTable where
  "demo_reserved = ftabCreate\<lparr>ft_list := (ft_list ftabCreate)[0 := \<lparr>fd_fp = FReserve, fd_flags = 0\<rparr>]\<rparr>"

definition demo_sys :: "FileTable \<Rightarrow> int \<Rightarrow> fsys" where
  "demo_sys ft n = \<lparr>fy_tabs = [Some ft],
     fy_v = (fy_v ft_start)\<lparr>v_file := (v_file (fy_v ft_start))(5 := \<lparr>f_refcount = 1, f_inode = 0\<rparr>)\<rparr>,
     fy_ext = (\<lambda>f. n * slot_refs (FPtr 5) f)\<rparr>"

lemma create_list: "ft_list ftabCreate = \<lparr>fd_fp = FNull, fd_flags = 0\<rparr> # replicate 255 \<lparr>fd_fp = FNull, fd_flags = 0\<rparr>"
  by (simp add: ftabCreate_def numeral_eq_Suc)

lemma demo_alloc: "ftabAlloc ftabCreate = (0, demo_reserved)"
  by (simp add: ftabAlloc_def create_list demo_reserved_def)

lemma demo_open_reach: "ft_reach (demo_sys ftabCreate 1)"
proof -
  let ?c = "ft_start\<lparr>fy_tabs := [Some ftabCreate]\<rparr>"
  have "ft_step ft_start ?c" using ft_step.create [of ft_start] by (simp add: ft_start_def)
  moreover have "total_refs ?c 5 = 0"
    by (simp add: total_refs_def tab_refs_def create_list held_simps ft_start_def)
  from ft_step.vopen [OF this, of 0] have "ft_step ?c (demo_sys ftabCreate 1)"
    by (simp add: set_v_def add_ext_def demo_sys_def ft_start_def)
  ultimately show ?thesis by (blast intro: ft_reach.intros)
qed

lemma demo_reach: "ft_reach (demo_sys demo_tab 0)"
proof -
  have "ft_step (demo_sys ftabCreate 1) (demo_sys demo_reserved 1)"
    using ft_step.alloc [of 0 "demo_sys ftabCreate 1" ftabCreate, OF _ demo_alloc]
    by (simp add: demo_sys_def set_tab_def)
  moreover have "ftabSet demo_reserved 0 (FPtr 5) 0 = Ok demo_tab"
    by (simp add: ftabSet_def demo_reserved_def demo_tab_def create_list)
  then have "ft_step (demo_sys demo_reserved 1) (demo_sys demo_tab 0)"
    using ft_step.set [of 0 "demo_sys demo_reserved 1" demo_reserved 0 "FPtr 5" 0 demo_tab]
    by (simp add: demo_sys_def set_tab_def add_ext_def slot_refs_def)
  ultimately show ?thesis using demo_open_reach by (blast intro: ft_reach.step)
qed

theorem ftab_counts_witness:
  "f_refcount (v_file (fy_v (demo_sys demo_tab 0)) 5) = 1 \<and>
   0 < f_refcount (v_file (fy_v (demo_sys demo_tab 0)) 5)"
proof -
  have "total_refs (demo_sys demo_tab 0) 5 = 1"
    by (simp add: total_refs_def tab_refs_def demo_sys_def demo_tab_def create_list held_simps)
  with ftab_counts [OF demo_reach, of 5 0 demo_tab 0] show ?thesis
    by (simp add: demo_sys_def demo_tab_def create_list)
qed

text \<open>\<open>ftabAlloc\<close> reserves the lowest free descriptor and returns it, and returns -1 with the
  table unchanged exactly if there is none; a reserved descriptor is set once: \<open>ftabSet\<close> puts
  the file there, so that \<open>ftabGet\<close> returns it with one more reference, and \<open>panic\<close>s when the
  descriptor is not reserved.\<close>
theorem ftabAlloc_set_get:
  assumes "length (ft_list ft) = MAX_OPEN_FILES" and "ftabAlloc ft = (fd, ft')"
  shows "(fd = -1 \<and> ft' = ft \<and> (\<nexists>i. i < MAX_OPEN_FILES \<and> fd_fp (ft_list ft ! i) = FNull)) \<or>
    (\<exists>i ft''. fd = int i \<and> i < MAX_OPEN_FILES \<and> fd_fp (ft_list ft ! i) = FNull \<and>
       (\<nexists>j. j < i \<and> fd_fp (ft_list ft ! j) = FNull) \<and>
       ftabSet ft i p flags = Panic \<and> ftabGet ft' fd v = (None, v) \<and>
       ftabSet ft' i (FPtr f) flags = Ok ft'' \<and> ftabGet ft'' fd v = (Some f, vfsDup f v) \<and>
       ftabGetFlags ft'' fd = flags)"
proof (cases "firstFree (ft_list ft)")
  case None
  with firstFree_None [OF None] assms show ?thesis by (auto simp: ftabAlloc_def)
next
  case (Some i)
  from firstFree_Some [OF Some] assms(1) have i: "i < 256" "fd_fp (ft_list ft ! i) = FNull"
    "\<nexists>j. j < i \<and> fd_fp (ft_list ft ! j) = FNull" by auto
  with Some assms show ?thesis
    by (intro disjI2 exI [of _ i])
      (auto simp: ftabAlloc_def ftabSet_def ftabGet_def ftabGetFlags_def bad_fd_def)
qed

theorem ftabAlloc_set_get_witness:
  "\<exists>ft. ftabSet demo_reserved 0 (FPtr 5) 7 = Ok ft \<and> fst (ftabGet ft 0 (fy_v ft_start)) = Some 5"
  using ftabAlloc_set_get [OF _ demo_alloc, of FNull 7 "fy_v ft_start" 5]
  by (auto simp: create_list)

text \<open>Duplicating a table while one of its descriptors is reserved, that is while another thread
  of the process is between \<open>ftabAlloc\<close> and \<open>ftabSet\<close>, touches the reference count of
  \<open>FILE_RESERVE\<close>: the kernel faults.\<close>
theorem ftabDup_reserved:
  assumes "FReserve \<in> fd_fp ` set (ft_list ft)"
  shows "ftabDup ft v = Panic"
proof -
  have "FReserve \<in> fd_fp ` set es \<Longrightarrow> dupAll es v = Panic" for es
  proof (induction es arbitrary: v)
    case (Cons e es)
    then show ?case by (cases "fd_fp e") (auto simp: slot_dup_def)
  qed simp
  with assms show ?thesis by (simp add: ftabDup_def)
qed

theorem ftabDup_reserved_witness: "ftabDup demo_reserved (fy_v ft_start) = Panic"
  by (rule ftabDup_reserved) (simp add: demo_reserved_def create_list)

end
