(* ===== verification/Gx_Events.thy ===== *)
theory Gx_Events
  imports Gx_Timer
begin

text \<open>
  The two one-way wait primitives: condition variables (\<open>kernel/src/thread/condvar.c\<close>) and
  wait counters (\<open>kernel/src/thread/waitcnt.c\<close>). Functions that sleep are cut at the sleep.
\<close>

section \<open>Condition variables\<close>

record CondVarWaiter =
  cw_thread :: nat
  cw_next :: "nat option"

record CondVar =
  cv_value :: bool
  cv_waiters :: "nat option"
  cv_heap :: "nat \<Rightarrow> CondVarWaiter"
  cv_timers :: timers
  cv_signalled :: "nat list" \<comment> \<open>threads given to \<open>signalThread\<close>\<close>

record cvcall =
  cc_deadline :: u64
  cc_ev :: nat
  cc_thread :: nat

datatype cv_out = CvRet int CondVar | CvSleep cvcall CondVar | CvHang

definition cvInit :: "CondVar \<Rightarrow> CondVar" where
  "cvInit cv = cv\<lparr>cv_value := False, cv_waiters := None\<rparr>"

text \<open>\<open>while (last->next != NULL)\<close>\<close>

partial_function (option) cv_last :: "(nat \<Rightarrow> CondVarWaiter) \<Rightarrow> nat \<Rightarrow> nat option" where
  "cv_last h l = (case cw_next (h l) of None \<Rightarrow> Some l | Some n \<Rightarrow> cv_last h n)"

text \<open>
  \<open>cvWait\<close> by thread \<open>th\<close>, with the waiter allocated at \<open>w\<close> and the timed event at \<open>ev\<close>,
  up to the sleep; \<open>now0\<close> is the time when the deadline is computed.
\<close>

definition cvWait :: "nat \<Rightarrow> nat \<Rightarrow> nat \<Rightarrow> u64 \<Rightarrow> u64 \<Rightarrow> CondVar \<Rightarrow> cv_out" where
  "cvWait th w ev now0 nanotimeout cv =
     (let deadline = (if nanotimeout = 0 then 0 else now0 + nanotimeout) in
      if cv_value cv then CvRet 0 cv
      else
        let h = (cv_heap cv)(w := \<lparr>cw_thread = th, cw_next = None\<rparr>);
            queued = (case cv_waiters cv of
                None \<Rightarrow> Some (cv\<lparr>cv_heap := h, cv_waiters := Some w\<rparr>)
              | Some f \<Rightarrow> map_option (\<lambda>l. cv\<lparr>cv_heap := h(l := (h l)\<lparr>cw_next := Some w\<rparr>)\<rparr>)
                            (cv_last h f))
        in case queued of
             None \<Rightarrow> CvHang
           | Some cv \<Rightarrow>
               (case timedPost ev deadline th (cv_timers cv) of
                  None \<Rightarrow> CvHang
                | Some ts \<Rightarrow> CvSleep \<lparr>cc_deadline = deadline, cc_ev = ev, cc_thread = th\<rparr>
                    (cv\<lparr>cv_timers := ts\<rparr>)))"

definition cvWait_resume :: "cvcall \<Rightarrow> u64 \<Rightarrow> CondVar \<Rightarrow> cv_out" where
  "cvWait_resume c now cv =
     (let leave = cv\<lparr>cv_timers := timedCancel (cc_ev c) (cv_timers cv)\<rparr> in
      if now \<ge> cc_deadline c \<and> cc_deadline c > 0 then CvRet (-1) leave
      else if cv_value cv then CvRet 0 leave
      else CvSleep c cv)"

text \<open>The loop of \<open>cvSignal\<close>: the waiters are freed as it goes, their \<open>next\<close> is read before.\<close>

partial_function (option) cv_wake ::
    "(nat \<Rightarrow> CondVarWaiter) \<Rightarrow> (nat \<Rightarrow> bool) \<Rightarrow> bool \<Rightarrow> nat option \<Rightarrow> nat list \<Rightarrow> nat list option" where
  "cv_wake h resched doResched waiter log =
     (case waiter of
        None \<Rightarrow> Some log
      | Some w \<Rightarrow>
          if doResched then cv_wake h resched True (cw_next (h w)) log
          else cv_wake h resched (resched (cw_thread (h w))) (cw_next (h w)) (log @ [cw_thread (h w)]))"

definition cvSignal :: "(nat \<Rightarrow> bool) \<Rightarrow> CondVar \<Rightarrow> CondVar option" where
  "cvSignal resched cv =
     (if cv_value cv then Some cv
      else map_option (\<lambda>log. cv\<lparr>cv_value := True, cv_signalled := log\<rparr>)
        (cv_wake (cv_heap cv) resched False (cv_waiters cv) (cv_signalled cv)))"

definition cv_queue :: "CondVar \<Rightarrow> nat list \<Rightarrow> bool" where
  "cv_queue cv ws \<longleftrightarrow> distinct ws \<and> lpath (\<lambda>w. cw_next (cv_heap cv w)) (cv_waiters cv) ws None"

lemma cv_last_path:
  "lpath (\<lambda>w. cw_next (h w)) (Some f) ws None \<Longrightarrow> cv_last h f = Some (last ws)"
proof (induction ws arbitrary: f)
  case (Cons w ws)
  then show ?case by (cases ws) (auto simp: cv_last.simps)
qed simp

lemma cv_wake_path:
  "lpath (\<lambda>w. cw_next (h w)) p ws None \<Longrightarrow>
     cv_wake h r d p log = Some (log @ (if d then [] else signalled_part r (map (\<lambda>w. cw_thread (h w)) ws)))"
  by (induction ws arbitrary: p d log) (auto simp: cv_wake.simps)

lemma cvSignal_queue:
  assumes "cv_queue cv ws" and "\<not> cv_value cv"
  shows "cvSignal r cv = Some (cv\<lparr>cv_value := True,
    cv_signalled := cv_signalled cv @ signalled_part r (map (\<lambda>w. cw_thread (cv_heap cv w)) ws)\<rparr>)"
  using assms cv_wake_path [of "cv_heap cv" "cv_waiters cv" ws r False] by (simp add: cvSignal_def cv_queue_def)

text \<open>The list after a waiter was appended.\<close>

lemma cv_enqueue:
  assumes q: "cv_queue cv ws" and w: "w \<notin> set ws"
    and h: "h = (cv_heap cv)(w := \<lparr>cw_thread = th, cw_next = None\<rparr>)"
  shows "(cv_waiters cv = None \<longrightarrow> ws = [] \<and> cv_queue (cv\<lparr>cv_heap := h, cv_waiters := Some w\<rparr>) [w]) \<and>
    (\<forall>f. cv_waiters cv = Some f \<longrightarrow> cv_last h f = Some (last ws) \<and> last ws \<in> set ws \<and>
       cv_queue (cv\<lparr>cv_heap := h(last ws := (h (last ws))\<lparr>cw_next := Some w\<rparr>)\<rparr>) (ws @ [w]))"
proof (intro conjI impI allI)
  assume "cv_waiters cv = None"
  with q show "ws = []" "cv_queue (cv\<lparr>cv_heap := h, cv_waiters := Some w\<rparr>) [w]"
    by (simp_all add: cv_queue_def h)
next
  fix f assume f: "cv_waiters cv = Some f"
  with q obtain vs l where ws: "ws = vs @ [l]" by (cases ws rule: rev_cases) (auto simp: cv_queue_def)
  have nx: "(\<lambda>v. cw_next (h v)) = (\<lambda>v. cw_next (cv_heap cv v))(w := None)" by (auto simp: h fun_eq_iff)
  have "lpath (\<lambda>v. cw_next (h v)) (Some f) ws None"
    using q w f unfolding nx cv_queue_def by simp
  then show "cv_last h f = Some (last ws)" by (rule cv_last_path)
  show "last ws \<in> set ws" using ws by simp
  have "(\<lambda>v. cw_next ((h(l := (h l)\<lparr>cw_next := Some w\<rparr>)) v)) =
      (\<lambda>v. cw_next (cv_heap cv v))(w := None, l := Some w)"
    using w ws by (auto simp: h fun_eq_iff)
  with q w ws f show "cv_queue (cv\<lparr>cv_heap := h(last ws := (h (last ws))\<lparr>cw_next := Some w\<rparr>)\<rparr>) (ws @ [w])"
    by (auto simp: cv_queue_def)
qed

lemma cvWait_queues:
  assumes q: "cv_queue cv ws" and w: "w \<notin> set ws" and v: "\<not> cv_value cv"
    and run: "cvWait th w ev now0 timeout cv = CvSleep c cv'"
  shows "cv_queue cv' (ws @ [w]) \<and> \<not> cv_value cv' \<and> cv_signalled cv' = cv_signalled cv \<and> cc_thread c = th \<and>
    (\<forall>u. cw_thread (cv_heap cv' u) = (if u = w then th else cw_thread (cv_heap cv u)))"
proof -
  let ?h = "(cv_heap cv)(w := \<lparr>cw_thread = th, cw_next = None\<rparr>)"
  note e = cv_enqueue [OF q w, of ?h th, OF refl]
  show ?thesis
  proof (cases "cv_waiters cv")
    case None
    with e run v show ?thesis
      by (auto simp: cvWait_def cv_queue_def Let_def split: option.splits)
  next
    case (Some f)
    with e have l: "cv_last ?h f = Some (last ws)" "last ws \<in> set ws"
      and q': "cv_queue (cv\<lparr>cv_heap := ?h(last ws := (?h (last ws))\<lparr>cw_next := Some w\<rparr>)\<rparr>) (ws @ [w])" by auto
    from l w have "last ws \<noteq> w" by auto
    with Some l q' run v show ?thesis
      by (auto simp: cvWait_def cv_queue_def Let_def split: option.splits)
  qed
qed

subsection \<open>Threads on a condition variable\<close>

record cvsys =
  vs_cv :: CondVar
  vs_calls :: "nat \<Rightarrow> cvcall option" \<comment> \<open>sleeping calls by the address of their waiter\<close>
  vs_used :: "nat set"               \<comment> \<open>waiters that are allocated\<close>

inductive cv_step :: "cvsys \<Rightarrow> cvsys \<Rightarrow> bool" where
  wait: "w \<notin> vs_used \<sigma> \<Longrightarrow> cvWait th w ev now0 timeout (vs_cv \<sigma>) = CvSleep c cv' \<Longrightarrow>
     cv_step \<sigma> (\<sigma>\<lparr>vs_cv := cv', vs_calls := (vs_calls \<sigma>)(w := Some c), vs_used := insert w (vs_used \<sigma>)\<rparr>)"
| wait_ret: "cvWait th w ev now0 timeout (vs_cv \<sigma>) = CvRet r cv' \<Longrightarrow> cv_step \<sigma> (\<sigma>\<lparr>vs_cv := cv'\<rparr>)"
| resume_ret: "vs_calls \<sigma> w = Some c \<Longrightarrow> cvWait_resume c now (vs_cv \<sigma>) = CvRet r cv' \<Longrightarrow>
     cv_step \<sigma> (\<sigma>\<lparr>vs_cv := cv', vs_calls := (vs_calls \<sigma>)(w := None)\<rparr>)"
| resume_sleep: "vs_calls \<sigma> w = Some c \<Longrightarrow> cvWait_resume c now (vs_cv \<sigma>) = CvSleep c' cv' \<Longrightarrow>
     cv_step \<sigma> (\<sigma>\<lparr>vs_cv := cv', vs_calls := (vs_calls \<sigma>)(w := Some c')\<rparr>)"
| signal: "cvSignal r (vs_cv \<sigma>) = Some cv' \<Longrightarrow> cv_step \<sigma> (\<sigma>\<lparr>vs_cv := cv'\<rparr>)"

definition cv_start :: cvsys where
  "cv_start = \<lparr>vs_cv = cvInit \<lparr>cv_value = True, cv_waiters = None,
      cv_heap = (\<lambda>_. \<lparr>cw_thread = 0, cw_next = None\<rparr>), cv_timers = timers0, cv_signalled = []\<rparr>,
    vs_calls = (\<lambda>_. None), vs_used = {}\<rparr>"

inductive cv_reach :: "cvsys \<Rightarrow> bool" where
  start: "cv_reach cv_start"
| step: "cv_reach \<sigma> \<Longrightarrow> cv_step \<sigma> \<sigma>' \<Longrightarrow> cv_reach \<sigma>'"

definition cv_inv :: "cvsys \<Rightarrow> bool" where
  "cv_inv \<sigma> \<longleftrightarrow> cv_value (vs_cv \<sigma>) \<or>
     (\<exists>ws. cv_queue (vs_cv \<sigma>) ws \<and> set ws = vs_used \<sigma> \<and>
       (\<forall>w c. vs_calls \<sigma> w = Some c \<longrightarrow> w \<in> set ws \<and> cw_thread (cv_heap (vs_cv \<sigma>) w) = cc_thread c))"

lemma cvWait_resume_frame:
  "cvWait_resume c now cv = CvRet r cv' \<Longrightarrow>
     cv_queue cv' ws = cv_queue cv ws \<and> cv_heap cv' = cv_heap cv \<and> cv_value cv' = cv_value cv \<and>
     cv_signalled cv' = cv_signalled cv"
  "cvWait_resume c now cv = CvSleep c' cv' \<Longrightarrow> cv' = cv \<and> c' = c \<and> \<not> cv_value cv"
  by (auto simp: cvWait_resume_def cv_queue_def Let_def split: if_splits)

lemma cv_step_inv: "cv_step \<sigma> \<sigma>' \<Longrightarrow> cv_inv \<sigma> \<Longrightarrow> cv_inv \<sigma>'"
proof (induction rule: cv_step.induct)
  case (wait w \<sigma> th ev now0 timeout c cv')
  then have v: "\<not> cv_value (vs_cv \<sigma>)"
    by (auto simp: cvWait_def)
  with wait(3) obtain ws where ws: "cv_queue (vs_cv \<sigma>) ws" "set ws = vs_used \<sigma>"
    "\<forall>w c. vs_calls \<sigma> w = Some c \<longrightarrow> w \<in> set ws \<and> cw_thread (cv_heap (vs_cv \<sigma>) w) = cc_thread c"
    by (auto simp: cv_inv_def)
  with wait(1) have "w \<notin> set ws" by simp
  from cvWait_queues [OF ws(1) this v wait(2)] ws(2,3) wait(1) show ?case
    by (auto simp: cv_inv_def intro!: exI [of _ "ws @ [w]"])
next
  case (wait_ret th w ev now0 timeout \<sigma> r cv')
  then have "cv' = vs_cv \<sigma>" by (auto simp: cvWait_def Let_def split: if_splits option.splits)
  with wait_ret show ?case by simp
next
  case (resume_ret \<sigma> w c now r cv')
  from cvWait_resume_frame(1) [OF resume_ret(2)] resume_ret(3) show ?case
    unfolding cv_inv_def by auto
next
  case (resume_sleep \<sigma> w c now c' cv')
  from cvWait_resume_frame(2) [OF resume_sleep(2)] resume_sleep(1,3) show ?case
    unfolding cv_inv_def by auto
next
  case (signal r \<sigma> cv')
  then show ?case by (auto simp: cv_inv_def cvSignal_def split: if_splits)
qed

lemma cv_reach_inv: "cv_reach \<sigma> \<Longrightarrow> cv_inv \<sigma>"
proof (induction rule: cv_reach.induct)
  case start
  then show ?case by (auto simp: cv_inv_def cv_start_def cvInit_def cv_queue_def)
qed (rule cv_step_inv)

section \<open>Wait counters\<close>

record WaitCounter =
  wc_server :: "nat option"
  wc_count :: int
  wc_signalled :: "nat list"

datatype wc_out = WcDone WaitCounter | WcSleep WaitCounter

definition wcInit :: "WaitCounter \<Rightarrow> WaitCounter" where
  "wcInit wc = wc\<lparr>wc_server := None, wc_count := 0\<rparr>"

definition wcUp :: "WaitCounter \<Rightarrow> WaitCounter" where
  "wcUp wc =
     (let wc = wc\<lparr>wc_count := c_int (wc_count wc + 1)\<rparr>
      in case wc_server wc of None \<Rightarrow> wc | Some t \<Rightarrow> wc\<lparr>wc_signalled := wc_signalled wc @ [t]\<rparr>)"

text \<open>\<open>while (wc->count == 0)\<close> and what follows\<close>

definition wcDown_resume :: "WaitCounter \<Rightarrow> wc_out" where
  "wcDown_resume wc = (if wc_count wc = 0 then WcSleep wc else WcDone (wc\<lparr>wc_count := c_int (wc_count wc - 1)\<rparr>))"

definition wcDown :: "nat \<Rightarrow> WaitCounter \<Rightarrow> wc_out" where
  "wcDown t wc = wcDown_resume (wc\<lparr>wc_server := Some t\<rparr>)"

text \<open>
  One server thread \<open>t\<close> and any number of clients. \<open>wy_asleep\<close>: the server sleeps in
  \<open>wcDown\<close>; \<open>wy_woken\<close>: it was signalled since it fell asleep.
\<close>

record wcsys =
  wy_wc :: WaitCounter
  wy_asleep :: bool
  wy_woken :: bool
  wy_ups :: int
  wy_downs :: int

inductive wc_step :: "nat \<Rightarrow> wcsys \<Rightarrow> wcsys \<Rightarrow> bool" for t :: nat where
  up: "wc_count (wy_wc \<sigma>) < 2 ^ 31 - 1 \<Longrightarrow> wcUp (wy_wc \<sigma>) = wc' \<Longrightarrow>
     wc_step t \<sigma> (\<sigma>\<lparr>wy_wc := wc', wy_ups := wy_ups \<sigma> + 1,
       wy_woken := wy_woken \<sigma> \<or> wc_signalled wc' = wc_signalled (wy_wc \<sigma>) @ [t]\<rparr>)"
| down_done: "\<not> wy_asleep \<sigma> \<Longrightarrow> wcDown t (wy_wc \<sigma>) = WcDone wc' \<Longrightarrow>
     wc_step t \<sigma> (\<sigma>\<lparr>wy_wc := wc', wy_downs := wy_downs \<sigma> + 1\<rparr>)"
| down_sleep: "\<not> wy_asleep \<sigma> \<Longrightarrow> wcDown t (wy_wc \<sigma>) = WcSleep wc' \<Longrightarrow>
     wc_step t \<sigma> (\<sigma>\<lparr>wy_wc := wc', wy_asleep := True, wy_woken := False\<rparr>)"
| resume_done: "wy_asleep \<sigma> \<Longrightarrow> wcDown_resume (wy_wc \<sigma>) = WcDone wc' \<Longrightarrow>
     wc_step t \<sigma> (\<sigma>\<lparr>wy_wc := wc', wy_asleep := False, wy_downs := wy_downs \<sigma> + 1\<rparr>)"
| resume_sleep: "wy_asleep \<sigma> \<Longrightarrow> wcDown_resume (wy_wc \<sigma>) = WcSleep wc' \<Longrightarrow>
     wc_step t \<sigma> (\<sigma>\<lparr>wy_wc := wc', wy_woken := False\<rparr>)"

definition wc_start :: wcsys where
  "wc_start = \<lparr>wy_wc = wcInit \<lparr>wc_server = Some 0, wc_count = 7, wc_signalled = []\<rparr>,
     wy_asleep = False, wy_woken = False, wy_ups = 0, wy_downs = 0\<rparr>"

inductive wc_reach :: "nat \<Rightarrow> wcsys \<Rightarrow> bool" for t :: nat where
  start: "wc_reach t wc_start"
| step: "wc_reach t \<sigma> \<Longrightarrow> wc_step t \<sigma> \<sigma>' \<Longrightarrow> wc_reach t \<sigma>'"

definition wc_inv :: "nat \<Rightarrow> wcsys \<Rightarrow> bool" where
  "wc_inv t \<sigma> \<longleftrightarrow> 0 \<le> wc_count (wy_wc \<sigma>) \<and> wc_count (wy_wc \<sigma>) < 2 ^ 31 \<and>
     wc_count (wy_wc \<sigma>) = wy_ups \<sigma> - wy_downs \<sigma> \<and>
     (wy_asleep \<sigma> \<longrightarrow> wc_server (wy_wc \<sigma>) = Some t \<and> (0 < wc_count (wy_wc \<sigma>) \<longrightarrow> wy_woken \<sigma>))"

lemma wcDown_resume_done:
  "wcDown_resume wc = WcDone wc' \<Longrightarrow> 0 \<le> wc_count wc \<Longrightarrow> wc_count wc < 2 ^ 31 \<Longrightarrow>
     0 < wc_count wc \<and> wc' = wc\<lparr>wc_count := wc_count wc - 1\<rparr>"
  by (auto simp: wcDown_resume_def c_int_id split: if_splits)

lemma wcDown_resume_sleep: "wcDown_resume wc = WcSleep wc' \<Longrightarrow> wc' = wc \<and> wc_count wc = 0"
  by (auto simp: wcDown_resume_def split: if_splits)

lemma wc_step_inv: "wc_step t \<sigma> \<sigma>' \<Longrightarrow> wc_inv t \<sigma> \<Longrightarrow> wc_inv t \<sigma>'"
proof (induction rule: wc_step.induct)
  case (up \<sigma> wc')
  then have "c_int (wc_count (wy_wc \<sigma>) + 1) = wc_count (wy_wc \<sigma>) + 1"
    by (intro c_int_id) (auto simp: wc_inv_def)
  with up show ?case by (auto simp: wc_inv_def wcUp_def Let_def split: option.splits)
next
  case (down_done \<sigma> wc')
  then have "0 < wc_count (wy_wc \<sigma>) \<and> wc' = (wy_wc \<sigma>)\<lparr>wc_server := Some t, wc_count := wc_count (wy_wc \<sigma>) - 1\<rparr>"
    using wcDown_resume_done [of "(wy_wc \<sigma>)\<lparr>wc_server := Some t\<rparr>" wc'] by (auto simp: wcDown_def wc_inv_def)
  with down_done show ?case by (simp add: wc_inv_def)
next
  case (resume_done \<sigma> wc')
  with wcDown_resume_done [of "wy_wc \<sigma>" wc'] show ?case by (auto simp: wc_inv_def)
qed (auto simp: wc_inv_def wcDown_def dest!: wcDown_resume_sleep)

lemma wc_reach_inv: "wc_reach t \<sigma> \<Longrightarrow> wc_inv t \<sigma>"
proof (induction rule: wc_reach.induct)
  case start
  then show ?case by (simp add: wc_inv_def wc_start_def wcInit_def)
qed (rule wc_step_inv)

section \<open>Properties\<close>

text \<open>A signal on a condition variable returns and makes it true; it wakes, in the order in
  which they came, the threads on its list up to the first whose priority asks for a reschedule,
  and every thread that sleeps on the condition variable is on that list: with no such thread
  every sleeper is woken.\<close>
theorem cvSignal_wakes:
  assumes "cv_reach \<sigma>" and "\<not> cv_value (vs_cv \<sigma>)" and "vs_calls \<sigma> w = Some c"
  shows "\<exists>ts cv'. cvSignal r (vs_cv \<sigma>) = Some cv' \<and> cv_value cv' \<and> cc_thread c \<in> set ts \<and>
    cv_signalled cv' = cv_signalled (vs_cv \<sigma>) @ signalled_part r ts \<and>
    ((\<forall>t \<in> set ts. \<not> r t) \<longrightarrow> signalled_part r ts = ts)"
proof -
  from cv_reach_inv [OF assms(1)] assms(2,3) obtain ws where ws: "cv_queue (vs_cv \<sigma>) ws" "w \<in> set ws"
    "cw_thread (cv_heap (vs_cv \<sigma>) w) = cc_thread c"
    unfolding cv_inv_def by blast
  from cvSignal_queue [OF ws(1) assms(2), of r] ws(2,3) show ?thesis
    by (intro exI [of _ "map (\<lambda>w. cw_thread (cv_heap (vs_cv \<sigma>) w)) ws"] exI conjI)
      (assumption | force intro!: signalled_part_all)+
qed

definition cv_demo :: cvsys where
  "cv_demo = (case cvWait 7 2 2 0 0 (vs_cv cv_start) of
     CvSleep c cv \<Rightarrow> cv_start\<lparr>vs_cv := cv, vs_calls := (vs_calls cv_start)(2 := Some c), vs_used := {2}\<rparr>
   | _ \<Rightarrow> cv_start)"

lemma cv_demo_facts:
  "cv_reach cv_demo" "\<not> cv_value (vs_cv cv_demo)"
  "vs_calls cv_demo 2 = Some \<lparr>cc_deadline = 0, cc_ev = 2, cc_thread = 7\<rparr>"
proof -
  have run: "\<exists>cv. cvWait 7 2 2 0 0 (vs_cv cv_start) = CvSleep \<lparr>cc_deadline = 0, cc_ev = 2, cc_thread = 7\<rparr> cv \<and>
      \<not> cv_value cv"
    by (simp add: cvWait_def cv_start_def cvInit_def timedPost_def)
  then obtain cv where cv: "cvWait 7 2 2 0 0 (vs_cv cv_start) = CvSleep \<lparr>cc_deadline = 0, cc_ev = 2, cc_thread = 7\<rparr> cv"
    "\<not> cv_value cv" by blast
  from cv_step.wait [OF _ cv(1)] have "cv_step cv_start cv_demo"
    unfolding cv_demo_def cv(1) by (simp add: cv_start_def)
  then show "cv_reach cv_demo" by (blast intro: cv_reach.intros)
  show "\<not> cv_value (vs_cv cv_demo)"
    "vs_calls cv_demo 2 = Some \<lparr>cc_deadline = 0, cc_ev = 2, cc_thread = 7\<rparr>"
    using cv by (simp_all add: cv_demo_def)
qed

theorem cvSignal_wakes_witness:
  "\<exists>ts cv'. cvSignal (\<lambda>_. False) (vs_cv cv_demo) = Some cv' \<and> cv_value cv' \<and> 7 \<in> set ts \<and>
    cv_signalled cv' = cv_signalled (vs_cv cv_demo) @ ts"
  using cvSignal_wakes [OF cv_demo_facts, of "\<lambda>_. False"] by auto

text \<open>A wait that times out leaves its waiter on the list of the condition variable: after it
  returned, a signal still passes its thread to \<open>signalThread\<close>, whether or not that thread
  still exists.\<close>
theorem cvWait_timeout_stale:
  assumes "cv_reach \<sigma>" and "\<not> cv_value (vs_cv \<sigma>)" and "vs_calls \<sigma> w = Some c"
    and "cvWait_resume c now (vs_cv \<sigma>) = CvRet (-1) cv'"
  shows "\<exists>ts cv''. cvSignal (\<lambda>_. False) cv' = Some cv'' \<and> cc_thread c \<in> set ts \<and>
    cv_signalled cv'' = cv_signalled (vs_cv \<sigma>) @ ts"
proof -
  from cv_reach_inv [OF assms(1)] assms(2,3) obtain ws where ws: "cv_queue (vs_cv \<sigma>) ws" "w \<in> set ws"
    "cw_thread (cv_heap (vs_cv \<sigma>) w) = cc_thread c"
    unfolding cv_inv_def by blast
  from cvWait_resume_frame(1) [OF assms(4), of ws] ws assms(2) have q: "cv_queue cv' ws" "\<not> cv_value cv'"
    "cw_thread (cv_heap cv' w) = cc_thread c" "cv_signalled cv' = cv_signalled (vs_cv \<sigma>)" by simp_all
  from q(3) ws(2) have "cc_thread c \<in> set (map (\<lambda>w. cw_thread (cv_heap cv' w)) ws)" by force
  with cvSignal_queue [OF q(1,2), of "\<lambda>_. False"] q(4) show ?thesis
    by (auto simp: signalled_part_all)
qed

definition cv_demo2 :: cvsys where
  "cv_demo2 = (case cvWait 7 2 2 0 5 (vs_cv cv_start) of
     CvSleep c cv \<Rightarrow> cv_start\<lparr>vs_cv := cv, vs_calls := (vs_calls cv_start)(2 := Some c), vs_used := {2}\<rparr>
   | _ \<Rightarrow> cv_start)"

theorem cvWait_timeout_stale_witness:
  "\<exists>cv' ts cv''. cvWait_resume \<lparr>cc_deadline = 5, cc_ev = 2, cc_thread = 7\<rparr> 9 (vs_cv cv_demo2) = CvRet (-1) cv' \<and>
    cvSignal (\<lambda>_. False) cv' = Some cv'' \<and> 7 \<in> set ts \<and> cv_signalled cv'' = cv_signalled (vs_cv cv_demo2) @ ts"
proof -
  let ?c = "\<lparr>cc_deadline = 5, cc_ev = 2, cc_thread = 7\<rparr>"
  have "\<exists>cv. cvWait 7 2 2 0 5 (vs_cv cv_start) = CvSleep ?c cv \<and> \<not> cv_value cv"
    by (simp add: cvWait_def cv_start_def cvInit_def timedPost_def timedLink_def timers0_def)
  then obtain cv where cv: "cvWait 7 2 2 0 5 (vs_cv cv_start) = CvSleep ?c cv" "\<not> cv_value cv" by blast
  from cv_step.wait [OF _ cv(1)] have "cv_step cv_start cv_demo2"
    unfolding cv_demo2_def cv(1) by (simp add: cv_start_def)
  then have r: "cv_reach cv_demo2" by (blast intro: cv_reach.intros)
  have d: "\<not> cv_value (vs_cv cv_demo2)" "vs_calls cv_demo2 2 = Some ?c"
    using cv by (simp_all add: cv_demo2_def)
  obtain cv' where t: "cvWait_resume ?c 9 (vs_cv cv_demo2) = CvRet (-1) cv'"
    by (simp add: cvWait_resume_def)
  from cvWait_timeout_stale [OF r d t] t show ?thesis by auto
qed

text \<open>A wait counter loses no wake-up and no count: over every interleaving of the clients
  and one server, the count is the number of \<open>wcUp\<close>s less the number of \<open>wcDown\<close>s that
  returned, and a server that sleeps while the count is positive has been signalled.\<close>
theorem wc_no_lost_wakeup:
  assumes "wc_reach t \<sigma>"
  shows "wc_count (wy_wc \<sigma>) = wy_ups \<sigma> - wy_downs \<sigma> \<and> wy_downs \<sigma> \<le> wy_ups \<sigma> \<and>
    (wy_asleep \<sigma> \<longrightarrow> wy_downs \<sigma> < wy_ups \<sigma> \<longrightarrow> wy_woken \<sigma>)"
  using wc_reach_inv [OF assms] by (auto simp: wc_inv_def)

definition wc_demo :: wcsys where
  "wc_demo = \<lparr>wy_wc = \<lparr>wc_server = Some 3, wc_count = 1, wc_signalled = [3]\<rparr>,
     wy_asleep = True, wy_woken = True, wy_ups = 1, wy_downs = 0\<rparr>"

theorem wc_no_lost_wakeup_witness: "wc_reach 3 wc_demo \<and> wy_woken wc_demo"
proof -
  let ?s = "wc_start\<lparr>wy_wc := (wy_wc wc_start)\<lparr>wc_server := Some 3\<rparr>, wy_asleep := True, wy_woken := False\<rparr>"
  have "wc_step 3 wc_start ?s"
    by (rule wc_step.down_sleep) (simp_all add: wc_start_def wcDown_def wcDown_resume_def wcInit_def)
  moreover have "wc_step 3 ?s wc_demo"
    using wc_step.up [of ?s "wcUp (wy_wc ?s)" 3]
    by (simp add: wc_start_def wcUp_def wcInit_def wc_demo_def c_int_def)
  ultimately have "wc_reach 3 wc_demo" by (blast intro: wc_reach.intros)
  with wc_no_lost_wakeup [OF this] show ?thesis by (simp add: wc_demo_def)
qed

end
