(* ===== verification/Gx_SemSpec.thy ===== *)
theory Gx_SemSpec
  imports Gx_Semaphore
begin

text \<open>
  What the clients of semaphores rely on: \<open>sem_val k s\<close> resources can be taken; a wait that
  returns a positive number took that many, and a signal adds at most what it says. The
  locale states this contract and the accounting that a bounded buffer does with it; it is
  interpreted on the model of \<open>semaphore.c\<close>.
\<close>

definition sem_val :: "kern \<Rightarrow> nat \<Rightarrow> int" where
  "sem_val k s = max 0 (count k s)"

text \<open>A count never falls below -1, which stands for terminated and empty.\<close>

definition sem_ok :: "kern \<Rightarrow> nat \<Rightarrow> bool" where
  "sem_ok k s \<longleftrightarrow> -1 \<le> count k s"

text \<open>A run of \<open>semWaitGen\<close> for \<open>n\<close> resources, from the call or from a wake-up, that returns \<open>r\<close>.\<close>

definition sem_waited :: "nat \<Rightarrow> int \<Rightarrow> kern \<Rightarrow> int \<Rightarrow> kern \<Rightarrow> bool" where
  "sem_waited s n k r k' \<longleftrightarrow>
     (\<exists>flags nt th w now0 now sigs. semWaitGen s n flags nt th w now0 now sigs k = SemRet r k') \<or>
     (\<exists>c now sigs. sc_sem c = s \<and> sc_count c = n \<and> semWait_resume c now sigs k = SemRet r k')"

text \<open>A run that ends in a sleep.\<close>

definition sem_slept :: "kern \<Rightarrow> kern \<Rightarrow> bool" where
  "sem_slept k k' \<longleftrightarrow>
     (\<exists>s n flags nt th w now0 now sigs c. semWaitGen s n flags nt th w now0 now sigs k = SemSleep c k') \<or>
     (\<exists>c now sigs c'. semWait_resume c now sigs k = SemSleep c' k')"

locale counting_sem =
  fixes val :: "'k \<Rightarrow> nat \<Rightarrow> int"
    and ok :: "'k \<Rightarrow> nat \<Rightarrow> bool"
    and waited :: "nat \<Rightarrow> int \<Rightarrow> 'k \<Rightarrow> int \<Rightarrow> 'k \<Rightarrow> bool"
    and slept :: "'k \<Rightarrow> 'k \<Rightarrow> bool"
    and signal :: "nat \<Rightarrow> int \<Rightarrow> 'k \<Rightarrow> 'k kres"
    and terminate :: "nat \<Rightarrow> 'k \<Rightarrow> 'k kres"
  assumes val_nonneg: "0 \<le> val k s"
    and wait_taken: "waited s n k r k' \<Longrightarrow> 0 < n \<Longrightarrow> val k s < 2 ^ 31 \<Longrightarrow> 0 < r \<Longrightarrow>
      r \<le> n \<and> val k' s = val k s - r"
    and wait_failed: "waited s n k r k' \<Longrightarrow> 0 < n \<Longrightarrow> val k s < 2 ^ 31 \<Longrightarrow> r \<le> 0 \<Longrightarrow> val k' s = val k s"
    and wait_other: "waited s n k r k' \<Longrightarrow> s' \<noteq> s \<Longrightarrow> val k' s' = val k s'"
    and slept_val: "slept k k' \<Longrightarrow> val k' s = val k s"
    and signal_val: "signal s n k = Ok k' \<Longrightarrow> ok k s \<Longrightarrow> 0 \<le> n \<Longrightarrow> val k s + n < 2 ^ 31 \<Longrightarrow>
      val k' s \<le> val k s + n"
    and signal_other: "signal s n k = Ok k' \<Longrightarrow> s' \<noteq> s \<Longrightarrow> val k' s' = val k s'"
    and terminate_val: "terminate s k = Ok k' \<Longrightarrow> val k' s' = val k s'"
    and wait_ok: "waited s n k r k' \<Longrightarrow> 0 < n \<Longrightarrow> ok k s' \<Longrightarrow> val k s < 2 ^ 31 \<Longrightarrow> ok k' s'"
    and slept_ok: "slept k k' \<Longrightarrow> ok k s \<Longrightarrow> ok k' s"
    and signal_ok: "signal s n k = Ok k' \<Longrightarrow> ok k s' \<Longrightarrow> 0 \<le> n \<Longrightarrow> val k s + n < 2 ^ 31 \<Longrightarrow> ok k' s'"
    and terminate_ok: "terminate s k = Ok k' \<Longrightarrow> ok k s' \<Longrightarrow> ok k' s'"
begin

text \<open>
  Of \<open>N\<close> tokens, \<open>val k s\<close> lie in the semaphore and \<open>P\<close> were taken and not used yet.
\<close>

lemma budget_wait:
  assumes "waited s n k r k'" and "0 < n" and "0 \<le> P" and "val k s + P \<le> N" and "N < 2 ^ 31"
  shows "val k' s + (P + max 0 r) \<le> N"
proof -
  have v: "val k s < 2 ^ 31" using assms(3-5) by linarith
  show ?thesis
    using wait_taken [OF assms(1,2) v] wait_failed [OF assms(1,2) v] assms(4) by (cases "0 < r") auto
qed

lemma budget_signal:
  assumes "signal s n k = Ok k'" and "ok k s" and "0 \<le> n" and "0 \<le> P" and "val k s + P + n \<le> N" and "N < 2 ^ 31"
  shows "val k' s + P \<le> N"
  using signal_val [OF assms(1-3)] assms(4-6) by linarith

lemma budget_other:
  "waited s n k r k' \<Longrightarrow> s' \<noteq> s \<Longrightarrow> val k s' + P \<le> N \<Longrightarrow> val k' s' + P \<le> N"
  "signal s n k = Ok k' \<Longrightarrow> s' \<noteq> s \<Longrightarrow> val k s' + P \<le> N \<Longrightarrow> val k' s' + P \<le> N"
  "slept k k' \<Longrightarrow> val k s' + P \<le> N \<Longrightarrow> val k' s' + P \<le> N"
  "terminate s k = Ok k' \<Longrightarrow> val k s' + P \<le> N \<Longrightarrow> val k' s' + P \<le> N"
  by (simp_all add: wait_other signal_other slept_val terminate_val)

end

text \<open>The laws for the model.\<close>

lemma notgiven_count:
  "semWait_notgiven c now sigs k = SemRet r k' \<Longrightarrow> r < 0 \<and> (\<forall>s. count k' s = count k s)"
  "semWait_notgiven c now sigs k = SemSleep c' k' \<Longrightarrow> \<forall>s. count k' s = count k s"
  by (auto simp: semWait_notgiven_def k_simps split: if_splits)

text \<open>What a run of the waiting code does to the counts: of its own semaphore, and of the others.\<close>

definition wait_effect :: "nat \<Rightarrow> int \<Rightarrow> kern \<Rightarrow> int \<Rightarrow> kern \<Rightarrow> bool" where
  "wait_effect s n k r k' \<longleftrightarrow> (\<forall>s'. s' \<noteq> s \<longrightarrow> count k' s' = count k s') \<and>
     (0 < n \<longrightarrow> count k s < 2 ^ 31 \<longrightarrow>
        sem_val k' s = sem_val k s - max 0 r \<and> r \<le> n \<and> (sem_ok k s \<longrightarrow> sem_ok k' s))"

lemma wait_effect_none: "r < 0 \<Longrightarrow> \<forall>s. count k' s = count k s \<Longrightarrow> wait_effect s n k r k'"
  by (auto simp: wait_effect_def sem_val_def sem_ok_def)

lemma take_effect:
  assumes "semWait_take c k = (r, k')"
  shows "wait_effect (sc_sem c) (sc_count c) k r k'"
proof -
  have "c_int (count k (sc_sem c) - sc_count c) = count k (sc_sem c) - sc_count c"
    if "0 < sc_count c" "count k (sc_sem c) < 2 ^ 31" "sc_count c \<le> count k (sc_sem c)"
    using that by (intro c_int_id) auto
  with assms show ?thesis
    by (auto simp: semWait_take_def Let_def sem_val_def sem_ok_def wait_effect_def k_simps split: if_splits)
qed

lemma outer_effect:
  assumes "semWait_outer c now sigs k = SemRet r k'"
  shows "wait_effect (sc_sem c) (sc_count c) k r k'"
proof -
  have "(r < 0 \<and> (\<forall>s. count k' s = count k s)) \<or> semWait_take c k = (r, k')"
    using assms
    by (auto simp: semWait_outer_def Let_def k_simps dest!: notgiven_count(1) split: if_splits option.splits prod.splits)
  then show ?thesis using take_effect wait_effect_none by blast
qed

lemma wait_effect_cong:
  "wait_effect s n k r k' \<Longrightarrow> (\<And>s. count k s = count k0 s) \<Longrightarrow> wait_effect s n k0 r k'"
  by (simp add: wait_effect_def sem_val_def sem_ok_def)

lemma outer_slept: "semWait_outer c now sigs k = SemSleep c' k' \<Longrightarrow> count k' s = count k s"
  by (auto simp: semWait_outer_def Let_def k_simps dest!: notgiven_count(2) split: if_splits option.splits prod.splits)

lemma waited_effect:
  assumes "sem_waited s n k r k'"
  shows "0 < n \<Longrightarrow> wait_effect s n k r k'" and "s' \<noteq> s \<Longrightarrow> count k' s' = count k s'"
proof -
  have resume: "wait_effect s n k r k'"
    if "sc_sem c = s" "sc_count c = n" "semWait_resume c now sigs k = SemRet r k'" for c now sigs
  proof (cases "sw_give (k_wait k (sc_waiter c))")
    case True
    with that have "semWait_outer c now sigs (k\<lparr>k_timers := timedCancel (sc_waiter c) (k_timers k)\<rparr>) = SemRet r k'"
      by (simp add: semWait_resume_def)
    from outer_effect [OF this] that(1,2) show ?thesis by (auto intro: wait_effect_cong)
  next
    case False
    with that have "semWait_notgiven c now sigs k = SemRet r k'" by (simp add: semWait_resume_def)
    from notgiven_count(1) [OF this] show ?thesis by (auto intro: wait_effect_none)
  qed
  have call: "(\<forall>s'. s' \<noteq> s \<longrightarrow> count k' s' = count k s') \<and> (0 < n \<longrightarrow> wait_effect s n k r k')"
    if "semWaitGen s n flags nt th w now0 now sigs k = SemRet r k'" for flags nt th w now0 now sigs
  proof (cases "n = 0 \<or> (n = -1 \<and> count k s = 0)")
    case True
    with that show ?thesis by (auto simp: semWaitGen_def Let_def wait_effect_def split: if_splits)
  next
    case False
    let ?c = "\<lparr>sc_sem = s, sc_count = (if n = -1 then count k s else n), sc_flags = flags,
      sc_deadline = sem_deadline now0 nt, sc_waiter = w, sc_thread = th\<rparr>"
    let ?k = "set_wait w \<lparr>sw_thread = th, sw_give = False, sw_prev = None, sw_next = None\<rparr> k"
    from False that have "semWait_outer ?c now sigs ?k = SemRet r k'"
      by (simp add: semWaitGen_def Let_def split: if_splits)
    from outer_effect [OF this] have "wait_effect s (if n = -1 then count k s else n) ?k r k'" by simp
    from wait_effect_cong [OF this, of k]
    have "wait_effect s (if n = -1 then count k s else n) k r k'" by (simp add: k_simps)
    then show ?thesis by (auto simp: wait_effect_def)
  qed
  have "(\<forall>s'. s' \<noteq> s \<longrightarrow> count k' s' = count k s') \<and> (0 < n \<longrightarrow> wait_effect s n k r k')"
    using assms resume call unfolding sem_waited_def wait_effect_def by blast
  then show "0 < n \<Longrightarrow> wait_effect s n k r k'" and "s' \<noteq> s \<Longrightarrow> count k' s' = count k s'" by auto
qed

lemma slept_count: "sem_slept k k' \<Longrightarrow> count k' s = count k s"
proof -
  have "count k' s = count k s" if "semWaitGen s' n flags nt th w now0 now sigs k = SemSleep c k'"
    for s' n flags nt th w now0 now sigs c
    using that by (auto simp: semWaitGen_def Let_def k_simps dest!: outer_slept [where s = s] split: if_splits)
  moreover have "count k' s = count k s" if "semWait_resume c now sigs k = SemSleep c' k'" for c now sigs c'
    using that by (auto simp: semWait_resume_def dest!: outer_slept [where s = s] notgiven_count(2) split: if_splits)
  ultimately show "sem_slept k k' \<Longrightarrow> count k' s = count k s" unfolding sem_slept_def by blast
qed

lemma signal_count:
  assumes "semSignal2 s n k = Ok k'"
  shows "s' \<noteq> s \<Longrightarrow> count k' s' = count k s'"
    and "sem_ok k s \<Longrightarrow> 0 \<le> n \<Longrightarrow> sem_val k s + n < 2 ^ 31 \<Longrightarrow> sem_val k' s \<le> sem_val k s + n \<and> sem_ok k' s"
proof -
  show "s' \<noteq> s \<Longrightarrow> count k' s' = count k s'"
    using assms by (auto simp: semSignal2_def split: if_splits)
  assume n: "sem_ok k s" "0 \<le> n" "sem_val k s + n < 2 ^ 31"
  then have "c_int (count k s + n) = count k s + n" by (intro c_int_id) (auto simp: sem_val_def sem_ok_def)
  with assms n show "sem_val k' s \<le> sem_val k s + n \<and> sem_ok k' s"
    by (auto simp: semSignal2_def sem_val_def sem_ok_def split: if_splits)
qed

lemma terminate_count: "semTerminate s k = Ok k' \<Longrightarrow> sem_val k' s' = sem_val k s' \<and> (sem_ok k s' \<longrightarrow> sem_ok k' s')"
  by (auto simp: semTerminate_def Let_def sem_val_def sem_ok_def k_simps split: if_splits)

interpretation ks: counting_sem sem_val sem_ok sem_waited sem_slept semSignal2 semTerminate
proof
  fix s n k r k' assume w: "sem_waited s n k r k'" "0 < n" "sem_val k s < 2 ^ 31"
  from waited_effect(1) [OF w(1,2)] w(2,3)
  have v: "sem_val k' s = sem_val k s - max 0 r \<and> r \<le> n \<and> (sem_ok k s \<longrightarrow> sem_ok k' s)"
    by (simp add: sem_val_def wait_effect_def)
  then show "0 < r \<Longrightarrow> r \<le> n \<and> sem_val k' s = sem_val k s - r"
    and "r \<le> 0 \<Longrightarrow> sem_val k' s = sem_val k s" by auto
next
  show "sem_waited s n k r k' \<Longrightarrow> s' \<noteq> s \<Longrightarrow> sem_val k' s' = sem_val k s'" for s n k r k' s'
    using waited_effect(2) by (simp add: sem_val_def)
  show "sem_slept k k' \<Longrightarrow> sem_val k' s = sem_val k s" for k k' s
    using slept_count by (simp add: sem_val_def)
  show "semSignal2 s n k = Ok k' \<Longrightarrow> s' \<noteq> s \<Longrightarrow> sem_val k' s' = sem_val k s'" for s n k k' s'
    using signal_count(1) by (simp add: sem_val_def)
  show "sem_waited s n k r k' \<Longrightarrow> 0 < n \<Longrightarrow> sem_ok k s' \<Longrightarrow> sem_val k s < 2 ^ 31 \<Longrightarrow> sem_ok k' s'" for s n k r k' s'
    using waited_effect [of s n k r k'] by (cases "s' = s") (auto simp: wait_effect_def sem_val_def sem_ok_def)
  show "semSignal2 s n k = Ok k' \<Longrightarrow> sem_ok k s' \<Longrightarrow> 0 \<le> n \<Longrightarrow> sem_val k s + n < 2 ^ 31 \<Longrightarrow> sem_ok k' s'" for s n k k' s'
    using signal_count [of s n k k'] by (cases "s' = s") (auto simp: sem_ok_def)
  show "sem_slept k k' \<Longrightarrow> sem_ok k s \<Longrightarrow> sem_ok k' s" for k k' s
    using slept_count by (simp add: sem_ok_def)
  show "semSignal2 s n k = Ok k' \<Longrightarrow> sem_ok k s \<Longrightarrow> 0 \<le> n \<Longrightarrow> sem_val k s + n < 2 ^ 31 \<Longrightarrow> sem_val k' s \<le> sem_val k s + n" for s n k k'
    using signal_count(2) by blast
  show "0 \<le> sem_val k s" for k s by (simp add: sem_val_def)
qed (simp_all add: terminate_count)

end
