(* ===== verification/Gx_Ring.thy ===== *)
theory Gx_Ring
  imports Gx_Prelude
begin

text \<open>
  Ring buffers. Pipes and pseudo-terminals move bytes one at a time through an array of
  \<open>N\<close> bytes with a put and a fetch offset that wrap at \<open>N\<close>. \<open>ring_put\<close> and \<open>ring_get\<close> are
  those loops; neither looks at how full the buffer is. \<open>ring N buf r w data\<close> says that
  the bytes between the offsets are \<open>data\<close>, oldest first.
\<close>

fun ring_put :: "nat \<Rightarrow> 'a list \<Rightarrow> 'a list \<times> nat \<Rightarrow> 'a list \<times> nat" where
  "ring_put N [] (buf, w) = (buf, w)"
| "ring_put N (b # bs) (buf, w) = ring_put N bs (buf[w := b], (w + 1) mod N)"

fun ring_get :: "nat \<Rightarrow> nat \<Rightarrow> 'a list \<Rightarrow> nat \<Rightarrow> 'a list \<times> nat" where
  "ring_get N 0 buf r = ([], r)"
| "ring_get N (Suc n) buf r = (case ring_get N n buf ((r + 1) mod N) of (bs, r') \<Rightarrow> (buf ! r # bs, r'))"

definition ring :: "nat \<Rightarrow> 'a list \<Rightarrow> nat \<Rightarrow> nat \<Rightarrow> 'a list \<Rightarrow> bool" where
  "ring N buf r w data \<longleftrightarrow> length buf = N \<and> r < N \<and> length data \<le> N \<and> w = (r + length data) mod N \<and>
     (\<forall>i < length data. buf ! ((r + i) mod N) = data ! i)"

lemma ring_offset_inj:
  assumes "(r + i) mod N = (r + j) mod N" and "i < N" and "j < N" and "r < (N :: nat)"
  shows "i = j"
proof -
  have e: "(r + k) mod N = (if r + k < N then r + k else r + k - N)" if "k < N" for k
    using that assms(4) by (simp add: mod_if [of "r + k"])
  show ?thesis using assms by (simp add: e split: if_splits)
qed

lemma ring_empty: "length buf = N \<Longrightarrow> r < N \<Longrightarrow> ring N buf r r []"
  by (simp add: ring_def)

lemma ring_length: "ring N buf r w data \<Longrightarrow> length buf = N \<and> r < N \<and> w < N \<and> length data \<le> N"
  by (auto simp: ring_def)

lemma ring_put1:
  assumes "ring N buf r w data" and "length data < N"
  shows "ring N (buf[w := b]) r ((w + 1) mod N) (data @ [b])"
proof -
  from assms have l: "length buf = N" "r < N" "w = (r + length data) mod N"
    and d: "\<forall>i < length data. buf ! ((r + i) mod N) = data ! i" by (auto simp: ring_def)
  have "buf[w := b] ! ((r + i) mod N) = (data @ [b]) ! i" if "i < length (data @ [b])" for i
  proof (cases "i = length data")
    case True
    with l show ?thesis by simp
  next
    case False
    with that have i: "i < length data" by simp
    with assms(2) l(2) have "(r + i) mod N \<noteq> w"
      unfolding l(3) using ring_offset_inj [of r i N "length data"] by force
    with i d show ?thesis by (simp add: nth_append)
  qed
  moreover have "(w + 1) mod N = (r + length (data @ [b])) mod N"
    by (simp add: l(3) mod_Suc_eq)
  ultimately show ?thesis using l assms(2) unfolding ring_def by simp
qed

text \<open>Within the capacity, the bytes put are the newest ones.\<close>

lemma ring_put_ring:
  assumes "ring N buf r w data" and "length data + length bs \<le> N" and "ring_put N bs (buf, w) = (buf', w')"
  shows "ring N buf' r w' (data @ bs)"
  using assms
proof (induction bs arbitrary: buf w data)
  case (Cons b bs)
  then have "ring N (buf[w := b]) r ((w + 1) mod N) (data @ [b])" by (intro ring_put1) simp_all
  from Cons.IH [OF this] Cons.prems(2,3) show ?case by simp
qed simp

text \<open>The bytes fetched are the oldest ones, in order.\<close>

lemma ring_get_ring:
  assumes "ring N buf r w data" and "n \<le> length data"
  obtains r' where "ring_get N n buf r = (take n data, r')" and "ring N buf r' w (drop n data)"
proof -
  have "\<exists>r'. ring_get N n buf r = (take n data, r') \<and> ring N buf r' w (drop n data)"
    using assms
  proof (induction n arbitrary: r data)
    case (Suc n)
    then obtain b bs where data: "data = b # bs" by (cases data) auto
    from Suc.prems data have b: "buf ! r = b" and r: "r < N" "length buf = N" by (auto simp: ring_def)
    have "ring N buf ((r + 1) mod N) w bs"
    proof -
      have "((r + 1) mod N + i) mod N = (r + Suc i) mod N" for i
        by (metis add.assoc add.commute mod_add_left_eq plus_1_eq_Suc)
      with Suc.prems(1) data show ?thesis by (auto simp: ring_def)
    qed
    from Suc.IH [OF this] Suc.prems(2) data b show ?case by auto
  qed simp
  then show thesis using that by blast
qed

lemma ring_put_length: "length (fst (ring_put N bs (buf, w))) = length buf"
  by (induction bs arbitrary: buf w) auto

lemma ring_put_append: "ring_put N (as @ bs) p = ring_put N bs (ring_put N as p)"
  by (induction as arbitrary: p) (auto simp: split_paired_all)

end
