(* ===== verification/Gx_Pipe.thy ===== *)
theory Gx_Pipe
  imports Gx_SemSpec Gx_Ring Gx_FileTable
begin

text \<open>
  \<open>kernel/src/int/pipe.c\<close>: pipes and FIFOs, a ring of 1024 bytes between two counting
  semaphores. A call is cut where it waits on a semaphore: the wait is a run of
  \<open>semWaitGen\<close> or \<open>semPoll\<close> of the semaphore model, and the part that follows it is a
  function of the \<open>count\<close> the wait returned (\<open>cnt\<close> below). What runs under \<open>pipe->lock\<close> is one step.
\<close>

section \<open>Data and operations\<close>

abbreviation PIPE_BUFFER_SIZE :: nat where "PIPE_BUFFER_SIZE \<equiv> 1024"

datatype pipe_end = PIPE_READ | PIPE_WRITE

text \<open>The semaphores by their addresses.\<close>

record Pipe =
  semReadOpen :: nat
  semWriteOpen :: nat
  semBufferRead :: nat
  semBufferFree :: nat
  semHangup :: nat
  pp_buffer :: "u8 list"
  offRead :: nat
  offWrite :: nat
  cntRead :: int
  cntWrite :: int

datatype open_out =
    OpenErr int Pipe kern        \<comment> \<open>\<open>NULL\<close>, with \<open>ERRNO\<close>\<close>
  | OpenOk pipe_end Pipe kern
  | OpenSleep pollcall bitmap Pipe kern
  | OpenPanic
  | OpenHang

text \<open>What \<open>pipe_open\<close> does with the result of its poll.\<close>

definition pipe_polled :: "pipe_end \<Rightarrow> Pipe \<Rightarrow> poll_out \<Rightarrow> open_out" where
  "pipe_polled e p out =
     (case out of
        PollHang \<Rightarrow> OpenHang
      | PollSleep c bm k \<Rightarrow> OpenSleep c bm p k
      | PollRet error bm k \<Rightarrow>
          (case e of
             PIPE_READ \<Rightarrow>
               if error < 0 then OpenErr error p k
               else OpenOk PIPE_READ (p\<lparr>cntRead := c_int (cntRead p + 1)\<rparr>) k
           | PIPE_WRITE \<Rightarrow>
               if error < 0 then OpenErr (- error) p k
               else if error = 0 then OpenErr ENXIO p k
               else OpenOk PIPE_WRITE (p\<lparr>cntWrite := c_int (cntWrite p + 1)\<rparr>) k))"

text \<open>
  \<open>pipe_open\<close> by thread \<open>th\<close>; \<open>w\<close> is where its \<open>semPoll\<close> has the wait structure, \<open>now\<close>
  and \<open>sigs\<close> are the time and the pending signals that \<open>semPoll\<close> sees.
\<close>

definition pipe_open ::
    "u32 \<Rightarrow> nat \<Rightarrow> nat \<Rightarrow> (nat \<Rightarrow> bool) \<Rightarrow> u64 \<Rightarrow> bool \<Rightarrow> Pipe \<Rightarrow> kern \<Rightarrow> open_out" where
  "pipe_open oflags th w resched now sigs p k =
     (if oflags AND O_RDWR = O_RDWR then OpenErr EINVAL p k
      else if has oflags O_RDONLY then
        (case semSignal (Some th) (semReadOpen p) k of
           Panic \<Rightarrow> OpenPanic
         | Ok k \<Rightarrow>
             if has oflags O_NONBLOCK then OpenOk PIPE_READ p k
             else pipe_polled PIPE_READ p
               (semPoll [Some (semWriteOpen p)] (\<lambda>_. 0) SEM_W_INTR 0 th w resched now now sigs k))
      else
        (case semSignal (Some th) (semWriteOpen p) k of
           Panic \<Rightarrow> OpenPanic
         | Ok k \<Rightarrow> pipe_polled PIPE_WRITE p
             (semPoll [Some (semReadOpen p)] (\<lambda>_. 0) (SEM_W_FILE oflags) 0 th w resched now now sigs k)))"

definition pipe_open_resume ::
    "pipe_end \<Rightarrow> (nat \<Rightarrow> bool) \<Rightarrow> pollcall \<Rightarrow> bitmap \<Rightarrow> u64 \<Rightarrow> bool \<Rightarrow> Pipe \<Rightarrow> kern \<Rightarrow> open_out" where
  "pipe_open_resume e resched c bm now sigs p k = pipe_polled e p (semPoll_resume resched c bm now sigs k)"

definition pipe_close :: "nat option \<Rightarrow> pipe_end \<Rightarrow> Pipe \<Rightarrow> kern \<Rightarrow> (Pipe \<times> kern) kres" where
  "pipe_close cur e p k =
     (case e of
        PIPE_READ \<Rightarrow>
          let p = p\<lparr>cntRead := c_int (cntRead p - 1)\<rparr> in
          if cntRead p = 0 then kbind (semTerminate (semBufferFree p) k) (\<lambda>k. Ok (p, k)) else Ok (p, k)
      | PIPE_WRITE \<Rightarrow>
          let p = p\<lparr>cntWrite := c_int (cntWrite p - 1)\<rparr> in
          if cntWrite p = 0 then
            kbind (semTerminate (semBufferRead p) k) (\<lambda>k.
            kbind (semSignal cur (semHangup p) k) (\<lambda>k. Ok (p, k)))
          else Ok (p, k))"

text \<open>\<open>pipe_read\<close>: the wait, and what follows it.\<close>

definition pipe_read_wait :: "Pipe \<Rightarrow> u64 \<Rightarrow> u32 \<Rightarrow> nat \<Rightarrow> nat \<Rightarrow> u64 \<Rightarrow> bool \<Rightarrow> kern \<Rightarrow> sem_out" where
  "pipe_read_wait p sz oflags th w now sigs k =
     semWaitGen (semBufferRead p) (c_int_of_u64 sz) (SEM_W_FILE oflags) 0 th w now now sigs k"

datatype read_out = ReadErr int | ReadOk "u8 list"

definition pipe_read :: "int \<Rightarrow> Pipe \<Rightarrow> kern \<Rightarrow> (read_out \<times> Pipe \<times> kern) kres" where
  "pipe_read cnt p k =
     (if cnt < 0 then Ok (ReadErr (- cnt), p, k)
      else kbind (semSignal2 (semBufferFree p) cnt k) (\<lambda>k.
        case ring_get PIPE_BUFFER_SIZE (nat cnt) (pp_buffer p) (offRead p) of
          (bs, r) \<Rightarrow> Ok (ReadOk bs, p\<lparr>offRead := r\<rparr>, k)))"

text \<open>
  \<open>pipe_write\<close>: \<open>rest\<close> are the bytes at \<open>scan\<close> that are left, \<open>out\<close> counts those written.
  \<open>WriteMore\<close> goes back to \<open>while (size > 0)\<close>.
\<close>

datatype write_out =
    WriteRet nat            \<comment> \<open>the loop ended\<close>
  | WriteErr int            \<comment> \<open>-1, with \<open>ERRNO\<close>\<close>
  | WritePartial nat int    \<comment> \<open>\<open>out\<close>, with \<open>ERRNO\<close> set\<close>
  | WriteBroken             \<comment> \<open>-1, \<open>EPIPE\<close>, and \<open>SIGPIPE\<close> sent to the caller\<close>
  | WriteMore "u8 list" nat

definition pipe_write_wait :: "Pipe \<Rightarrow> u8 list \<Rightarrow> u32 \<Rightarrow> nat \<Rightarrow> nat \<Rightarrow> u64 \<Rightarrow> bool \<Rightarrow> kern \<Rightarrow> sem_out" where
  "pipe_write_wait p rest oflags th w now sigs k =
     semWaitGen (semBufferFree p) (c_int_of_u64 (of_nat (length rest))) (SEM_W_FILE oflags) 0 th w now now sigs k"

definition pipe_write :: "int \<Rightarrow> u8 list \<Rightarrow> nat \<Rightarrow> Pipe \<Rightarrow> kern \<Rightarrow> (write_out \<times> Pipe \<times> kern) kres" where
  "pipe_write cnt rest out p k =
     (if cnt < 0 then Ok (if out = 0 then WriteErr (- cnt) else WritePartial out (- cnt), p, k)
      else if cntRead p = 0 \<or> cnt = 0 then Ok (WriteBroken, p, k)
      else kbind (semSignal2 (semBufferRead p) cnt k) (\<lambda>k.
        case ring_put PIPE_BUFFER_SIZE (take (nat cnt) rest) (pp_buffer p, offWrite p) of
          (buf, w) \<Rightarrow>
            let rest = drop (nat cnt) rest; out = out + nat cnt
            in Ok (if rest = [] then WriteRet out else WriteMore rest out,
                   p\<lparr>pp_buffer := buf, offWrite := w\<rparr>, k)))"

definition pipe_pollinfo :: "Pipe \<Rightarrow> nat list" where
  "pipe_pollinfo p = [semBufferRead p, semBufferFree p, semHangup p]"

text \<open>\<open>pipeCreate\<close>, where \<open>NEW(Pipe)\<close> has its semaphores at \<open>a, \<dots>, a + 4\<close> and the buffer as found.\<close>

definition pipeCreate :: "nat \<Rightarrow> u8 list \<Rightarrow> kern \<Rightarrow> Pipe \<times> kern" where
  "pipeCreate a mem k =
     (let p = \<lparr>semReadOpen = a, semWriteOpen = a + 1, semBufferRead = a + 2, semBufferFree = a + 3,
               semHangup = a + 4, pp_buffer = mem, offRead = 0, offWrite = 0, cntRead = 0, cntWrite = 0\<rparr>;
          k = semInit2 (semReadOpen p) 0 k;
          k = semInit2 (semWriteOpen p) 0 k;
          k = semInit2 (semBufferRead p) 0 k;
          k = semInit2 (semBufferFree p) (int PIPE_BUFFER_SIZE) k;
          k = semInit2 (semHangup p) 0 k
      in (p, k))"

section \<open>The system call\<close>

text \<open>
  \<open>vfsOpenInode\<close> for a pipe, which has no file tree: the new \<open>File\<close> is at \<open>fp\<close>. \<open>None\<close>
  for a \<open>NULL\<close> result, with the error.
\<close>

definition vfsOpenPipe :: "nat \<Rightarrow> nat \<Rightarrow> open_out \<Rightarrow> vfs \<Rightarrow> vfs option" where
  "vfsOpenPipe inode fp opened v =
     (let v = v\<lparr>v_inode := (v_inode v)(inode := (v_inode v inode)
                 \<lparr>i_numOpens := c_int (i_numOpens (v_inode v inode) + 1)\<rparr>)\<rparr>
      in case opened of
           OpenOk e p k \<Rightarrow> Some (v\<lparr>v_file := (v_file v)(fp := \<lparr>f_refcount = 1, f_inode = inode\<rparr>)\<rparr>)
         | _ \<Rightarrow> None)"

datatype pipe2_out =
    Pipe2Ret int int FileTable     \<comment> \<open>the return value, \<open>ERRNO\<close> (0 when not set), the table\<close>
      "(int \<times> int) option" Pipe kern vfs \<comment> \<open>the two descriptors as stored in user memory\<close>
  | Pipe2Panic
  | Pipe2Sleep

text \<open>The part that opens both ends; a failure is an \<open>assert\<close>.\<close>

datatype pipe2_files = FilesOk Pipe kern vfs | FilesPanic | FilesSleep

definition pipe2_open ::
    "u32 \<Rightarrow> nat \<Rightarrow> nat \<Rightarrow> nat \<Rightarrow> nat \<Rightarrow> nat \<Rightarrow> (nat \<Rightarrow> bool) \<Rightarrow> u64 \<Rightarrow> bool \<Rightarrow> Pipe \<Rightarrow> kern \<Rightarrow> vfs \<Rightarrow> pipe2_files" where
  "pipe2_open flags th inode rfile wfile w resched now sigs p k v =
     (case kbind (semSignal (Some th) (semReadOpen p) k) (semSignal (Some th) (semWriteOpen p)) of
        Panic \<Rightarrow> FilesPanic
      | Ok k \<Rightarrow>
          let ro = pipe_open (O_RDONLY OR flags) th w resched now sigs p k in
          (case ro of
             OpenSleep c bm p k \<Rightarrow> FilesSleep
           | OpenOk e p k \<Rightarrow>
               let wo = pipe_open (O_WRONLY OR flags) th w resched now sigs p k in
               (case wo of
                  OpenSleep c bm p k \<Rightarrow> FilesSleep
                | OpenOk e p k \<Rightarrow> FilesOk p k (the (vfsOpenPipe inode wfile wo (the (vfsOpenPipe inode rfile ro v))))
                | _ \<Rightarrow> FilesPanic)
           | _ \<Rightarrow> FilesPanic))"

abbreviation EMFILE :: int where "EMFILE \<equiv> 33"
abbreviation EFAULT :: int where "EFAULT \<equiv> 21"

text \<open>
  \<open>sys_pipe2\<close> by thread \<open>th\<close>; the new inode, files and pipe are at \<open>inode\<close>, \<open>rfile\<close>, \<open>wfile\<close>
  and \<open>a\<close>; \<open>copied\<close> tells whether \<open>memcpy_k2u\<close> succeeds.
\<close>

definition sys_pipe2 ::
    "u32 \<Rightarrow> nat \<Rightarrow> nat \<Rightarrow> nat \<Rightarrow> nat \<Rightarrow> nat \<Rightarrow> u8 list \<Rightarrow> (nat \<Rightarrow> bool) \<Rightarrow> bool \<Rightarrow> u64 \<Rightarrow> bool \<Rightarrow>
     FileTable \<Rightarrow> kern \<Rightarrow> vfs \<Rightarrow> Pipe \<Rightarrow> pipe2_out" where
  "sys_pipe2 flags th inode rfile wfile a mem resched copied now sigs ft k v junk =
     (if flags AND NOT (O_CLOEXEC OR O_NONBLOCK) \<noteq> 0 then Pipe2Ret (-1) EINVAL ft None junk k v
      else case ftabAlloc ft of (rfd, ft) \<Rightarrow>
      if rfd = -1 then Pipe2Ret (-1) EMFILE ft None junk k v
      else case ftabAlloc ft of (wfd, ft) \<Rightarrow>
      if wfd = -1 then
        (case ftabSet ft (nat rfd) FNull 0 of
           Panic \<Rightarrow> Pipe2Panic
         | Ok ft \<Rightarrow> Pipe2Ret (-1) EMFILE ft None junk k v)
      else case pipeCreate a mem k of (p, k) \<Rightarrow>
      case pipe2_open flags th inode rfile wfile (a + 5) resched now sigs p k v of
        FilesPanic \<Rightarrow> Pipe2Panic
      | FilesSleep \<Rightarrow> Pipe2Sleep
      | FilesOk p k v \<Rightarrow>
          let cloexec = uint (flags AND O_CLOEXEC) in
          (case kbind (ftabSet ft (nat rfd) (FPtr rfile) cloexec)
                  (\<lambda>ft. ftabSet ft (nat wfd) (FPtr wfile) cloexec) of
             Panic \<Rightarrow> Pipe2Panic
           | Ok ft \<Rightarrow>
               if copied then Pipe2Ret 0 0 ft (Some (rfd, wfd)) p k v
               else Pipe2Ret (-1) EFAULT ft None p k v))"

definition sys_pipe ::
    "nat \<Rightarrow> nat \<Rightarrow> nat \<Rightarrow> nat \<Rightarrow> nat \<Rightarrow> u8 list \<Rightarrow> (nat \<Rightarrow> bool) \<Rightarrow> bool \<Rightarrow> u64 \<Rightarrow> bool \<Rightarrow>
     FileTable \<Rightarrow> kern \<Rightarrow> vfs \<Rightarrow> Pipe \<Rightarrow> pipe2_out" where
  "sys_pipe = sys_pipe2 0"

section \<open>Readers and writers on a pipe\<close>

text \<open>
  \<open>py_rd\<close> and \<open>py_wr\<close> hold the waits that were granted and not used yet: the count, and
  for a writer the bytes it is at. \<open>py_in\<close> and \<open>py_out\<close> are all bytes ever written to and
  read from the pipe. A request whose size does not fit an \<open>int\<close> is no step: see
  \<open>pipe_read_huge\<close>. \<open>other\<close> is code that works on other semaphores or on the open counts.
\<close>

record pipesys =
  py_k :: kern
  py_p :: Pipe
  py_rd :: "int list"
  py_wr :: "(int \<times> u8 list) list"
  py_in :: "u8 list"
  py_out :: "u8 list"

definition same_pipe :: "Pipe \<Rightarrow> Pipe \<Rightarrow> bool" where
  "same_pipe p p' \<longleftrightarrow> semBufferRead p' = semBufferRead p \<and> semBufferFree p' = semBufferFree p \<and>
     pp_buffer p' = pp_buffer p \<and> offRead p' = offRead p \<and> offWrite p' = offWrite p"

definition same_sem :: "nat \<Rightarrow> kern \<Rightarrow> kern \<Rightarrow> bool" where
  "same_sem s k k' \<longleftrightarrow> sem_val k' s = sem_val k s \<and> (sem_ok k s \<longrightarrow> sem_ok k' s)"

inductive pipe_step :: "pipesys \<Rightarrow> pipesys \<Rightarrow> bool" where
  read_wait: "0 < n \<Longrightarrow> sem_waited (semBufferRead (py_p \<sigma>)) n (py_k \<sigma>) r k' \<Longrightarrow>
     pipe_step \<sigma> (\<sigma>\<lparr>py_k := k', py_rd := (if 0 < r then r # py_rd \<sigma> else py_rd \<sigma>)\<rparr>)"
| get: "r \<in> set (py_rd \<sigma>) \<Longrightarrow> pipe_read r (py_p \<sigma>) (py_k \<sigma>) = Ok (ReadOk bs, p', k') \<Longrightarrow>
     pipe_step \<sigma> (\<sigma>\<lparr>py_k := k', py_p := p', py_rd := remove1 r (py_rd \<sigma>), py_out := py_out \<sigma> @ bs\<rparr>)"
| write_wait: "0 < n \<Longrightarrow> n \<le> int (length rest) \<Longrightarrow> sem_waited (semBufferFree (py_p \<sigma>)) n (py_k \<sigma>) r k' \<Longrightarrow>
     pipe_step \<sigma> (\<sigma>\<lparr>py_k := k', py_wr := (if 0 < r then (r, rest) # py_wr \<sigma> else py_wr \<sigma>)\<rparr>)"
| put: "(r, rest) \<in> set (py_wr \<sigma>) \<Longrightarrow> pipe_write r rest out (py_p \<sigma>) (py_k \<sigma>) = Ok (res, p', k') \<Longrightarrow>
     pipe_step \<sigma> (\<sigma>\<lparr>py_k := k', py_p := p', py_wr := remove1 (r, rest) (py_wr \<sigma>),
       py_in := py_in \<sigma> @ (if res = WriteBroken then [] else take (nat r) rest)\<rparr>)"
| sleep: "sem_slept (py_k \<sigma>) k' \<Longrightarrow> pipe_step \<sigma> (\<sigma>\<lparr>py_k := k'\<rparr>)"
| close: "pipe_close cur e (py_p \<sigma>) (py_k \<sigma>) = Ok (p', k') \<Longrightarrow>
     semHangup (py_p \<sigma>) \<notin> {semBufferRead (py_p \<sigma>), semBufferFree (py_p \<sigma>)} \<Longrightarrow>
     pipe_step \<sigma> (\<sigma>\<lparr>py_k := k', py_p := p'\<rparr>)"
| other: "same_pipe (py_p \<sigma>) p' \<Longrightarrow> same_sem (semBufferRead (py_p \<sigma>)) (py_k \<sigma>) k' \<Longrightarrow>
     same_sem (semBufferFree (py_p \<sigma>)) (py_k \<sigma>) k' \<Longrightarrow> pipe_step \<sigma> (\<sigma>\<lparr>py_k := k', py_p := p'\<rparr>)"

definition pipe_start :: "nat \<Rightarrow> u8 list \<Rightarrow> kern \<Rightarrow> pipesys" where
  "pipe_start a mem k = (case pipeCreate a mem k of (p, k) \<Rightarrow>
     \<lparr>py_k = k, py_p = p, py_rd = [], py_wr = [], py_in = [], py_out = []\<rparr>)"

inductive pipe_reach :: "pipesys \<Rightarrow> bool" where
  start: "length mem = PIPE_BUFFER_SIZE \<Longrightarrow> pipe_reach (pipe_start a mem k)"
| step: "pipe_reach \<sigma> \<Longrightarrow> pipe_step \<sigma> \<sigma>' \<Longrightarrow> pipe_reach \<sigma>'"

definition pipe_data :: "pipesys \<Rightarrow> u8 list \<Rightarrow> bool" where
  "pipe_data \<sigma> data \<longleftrightarrow> py_in \<sigma> = py_out \<sigma> @ data \<and>
     ring PIPE_BUFFER_SIZE (pp_buffer (py_p \<sigma>)) (offRead (py_p \<sigma>)) (offWrite (py_p \<sigma>)) data"

definition tokens :: "pipesys \<Rightarrow> nat \<Rightarrow> bool" where
  "tokens \<sigma> len \<longleftrightarrow>
     sem_val (py_k \<sigma>) (semBufferRead (py_p \<sigma>)) + sum_list (py_rd \<sigma>) \<le> int len \<and>
     sem_val (py_k \<sigma>) (semBufferFree (py_p \<sigma>)) + sum_list (map fst (py_wr \<sigma>)) \<le> int PIPE_BUFFER_SIZE - int len"

definition pipe_inv :: "pipesys \<Rightarrow> bool" where
  "pipe_inv \<sigma> \<longleftrightarrow> (\<exists>data. pipe_data \<sigma> data \<and> tokens \<sigma> (length data)) \<and>
     semBufferRead (py_p \<sigma>) \<noteq> semBufferFree (py_p \<sigma>) \<and>
     sem_ok (py_k \<sigma>) (semBufferRead (py_p \<sigma>)) \<and> sem_ok (py_k \<sigma>) (semBufferFree (py_p \<sigma>)) \<and>
     (\<forall>r \<in> set (py_rd \<sigma>). 0 < r) \<and> (\<forall>(r, rest) \<in> set (py_wr \<sigma>). 0 < r \<and> r \<le> int (length rest))"

lemma sum_list_pos: "\<forall>r \<in> set rs. 0 < r \<Longrightarrow> 0 \<le> sum_list (rs :: int list)"
  by (induction rs) auto

lemma sum_list_member: "\<forall>r \<in> set rs. 0 < r \<Longrightarrow> r \<in> set rs \<Longrightarrow> r \<le> sum_list (rs :: int list)"
  using sum_list_pos by (induction rs) (auto simp: add_increasing2 less_imp_le)

lemma sum_list_remove1: "r \<in> set rs \<Longrightarrow> sum_list (remove1 r rs) = sum_list rs - (r :: int)"
  by (induction rs) auto

lemma sum_fst_remove1: "x \<in> set xs \<Longrightarrow> sum_list (map fst (remove1 x xs)) = sum_list (map fst xs) - (fst x :: int)"
  by (induction xs) auto

lemma set_remove1_sub: "\<forall>x \<in> set xs. P x \<Longrightarrow> \<forall>x \<in> set (remove1 y xs). P x"
  by (meson notin_set_remove1)

lemma pipe_startI: "length mem = PIPE_BUFFER_SIZE \<Longrightarrow> pipe_inv (pipe_start a mem k)"
  by (auto simp: pipe_inv_def pipe_data_def tokens_def pipe_start_def pipeCreate_def sem_val_def sem_ok_def
      semInit2_def k_simps intro!: exI [of _ "[]"] ring_empty)

lemma pipe_read_inv:
  assumes inv: "pipe_inv \<sigma>" and r: "r \<in> set (py_rd \<sigma>)"
    and run: "pipe_read r (py_p \<sigma>) (py_k \<sigma>) = Ok (ReadOk bs, p', k')"
  shows "pipe_inv (\<sigma>\<lparr>py_k := k', py_p := p', py_rd := remove1 r (py_rd \<sigma>), py_out := py_out \<sigma> @ bs\<rparr>)"
proof -
  let ?R = "semBufferRead (py_p \<sigma>)" and ?F = "semBufferFree (py_p \<sigma>)"
  from inv obtain data where d: "pipe_data \<sigma> data" and t: "tokens \<sigma> (length data)" by (auto simp: pipe_inv_def)
  from inv r have pos: "0 < r" "r \<le> sum_list (py_rd \<sigma>)" by (auto simp: pipe_inv_def intro: sum_list_member)
  have nonneg: "0 \<le> sem_val (py_k \<sigma>) ?R" "0 \<le> sem_val (py_k \<sigma>) ?F" by (rule ks.val_nonneg)+
  from t pos(2) nonneg(1) have len: "nat r \<le> length data" by (auto simp: tokens_def)
  have rg: "ring PIPE_BUFFER_SIZE (pp_buffer (py_p \<sigma>)) (offRead (py_p \<sigma>)) (offWrite (py_p \<sigma>)) data"
    using d by (simp add: pipe_data_def)
  obtain o' where get: "ring_get PIPE_BUFFER_SIZE (nat r) (pp_buffer (py_p \<sigma>)) (offRead (py_p \<sigma>)) = (take (nat r) data, o')"
    and rg': "ring PIPE_BUFFER_SIZE (pp_buffer (py_p \<sigma>)) o' (offWrite (py_p \<sigma>)) (drop (nat r) data)"
    by (rule ring_get_ring [OF rg len])
  from run get pos(1) have sig: "semSignal2 ?F r (py_k \<sigma>) = Ok k'"
    and p': "bs = take (nat r) data" "p' = (py_p \<sigma>)\<lparr>offRead := o'\<rparr>"
    by (auto simp: pipe_read_def kbind_Ok_iff)
  have wr: "0 \<le> sum_list (map fst (py_wr \<sigma>))"
    using inv by (intro sum_list_pos) (auto simp: pipe_inv_def)
  have "sem_val k' ?F + sum_list (map fst (py_wr \<sigma>)) \<le> int PIPE_BUFFER_SIZE - int (length (drop (nat r) data))"
    using t pos(1) len wr inv by (intro ks.budget_signal [OF sig]) (auto simp: tokens_def pipe_inv_def)
  moreover have "sem_val k' ?R = sem_val (py_k \<sigma>) ?R" "sem_ok k' ?R"
    using ks.signal_other [OF sig, of ?R] ks.signal_ok [OF sig, of ?R] inv t pos(1) wr len
    by (auto simp: pipe_inv_def tokens_def)
  moreover have "sem_ok k' ?F"
    using ks.signal_ok [OF sig, of ?F] inv t pos(1) wr len by (auto simp: pipe_inv_def tokens_def)
  moreover have "pipe_data (\<sigma>\<lparr>py_k := k', py_p := p', py_rd := remove1 r (py_rd \<sigma>), py_out := py_out \<sigma> @ bs\<rparr>)
      (drop (nat r) data)"
    using d rg' p' by (simp add: pipe_data_def)
  ultimately show ?thesis using inv t r len pos(1) p'(2)
    by (auto simp: pipe_inv_def tokens_def sum_list_remove1 intro!: exI [of _ "drop (nat r) data"]
        dest: notin_set_remove1)
qed

lemma pipe_write_inv:
  assumes inv: "pipe_inv \<sigma>" and r: "(r, rest) \<in> set (py_wr \<sigma>)"
    and run: "pipe_write r rest out (py_p \<sigma>) (py_k \<sigma>) = Ok (res, p', k')"
  shows "pipe_inv (\<sigma>\<lparr>py_k := k', py_p := p', py_wr := remove1 (r, rest) (py_wr \<sigma>),
       py_in := py_in \<sigma> @ (if res = WriteBroken then [] else take (nat r) rest)\<rparr>)" (is "pipe_inv ?s")
proof -
  let ?R = "semBufferRead (py_p \<sigma>)" and ?F = "semBufferFree (py_p \<sigma>)"
  from inv obtain data where d: "pipe_data \<sigma> data" and t: "tokens \<sigma> (length data)" by (auto simp: pipe_inv_def)
  from inv r have pos: "0 < r" "r \<le> int (length rest)" by (auto simp: pipe_inv_def)
  have sum: "r \<le> sum_list (map fst (py_wr \<sigma>))"
    using inv r by (intro sum_list_member) (force simp: pipe_inv_def)+
  have nonneg: "0 \<le> sem_val (py_k \<sigma>) ?R" "0 \<le> sem_val (py_k \<sigma>) ?F" by (rule ks.val_nonneg)+
  have rest: "\<forall>x \<in> set (remove1 (r, rest) (py_wr \<sigma>)). 0 < fst x \<and> fst x \<le> int (length (snd x))"
    using inv by (intro set_remove1_sub) (auto simp: pipe_inv_def)
  show ?thesis
  proof (cases "cntRead (py_p \<sigma>) = 0")
    case True
    with run pos have "p' = py_p \<sigma>" "k' = py_k \<sigma>" "res = WriteBroken" by (auto simp: pipe_write_def)
    with inv d t pos rest r show ?thesis
      by (auto simp: pipe_inv_def pipe_data_def tokens_def sum_fst_remove1 intro!: exI [of _ data])
  next
    case False
    obtain buf w where put: "ring_put PIPE_BUFFER_SIZE (take (nat r) rest) (pp_buffer (py_p \<sigma>), offWrite (py_p \<sigma>)) = (buf, w)"
      by (cases "ring_put PIPE_BUFFER_SIZE (take (nat r) rest) (pp_buffer (py_p \<sigma>), offWrite (py_p \<sigma>))")
    from run put pos False have sig: "semSignal2 ?R r (py_k \<sigma>) = Ok k'" and res: "res \<noteq> WriteBroken"
      and p': "p' = (py_p \<sigma>)\<lparr>pp_buffer := buf, offWrite := w\<rparr>"
      by (auto simp: pipe_write_def kbind_Ok_iff Let_def split: if_splits)
    let ?data = "data @ take (nat r) rest"
    have len: "length (take (nat r) rest) = nat r" using pos by simp
    have room: "length ?data \<le> PIPE_BUFFER_SIZE" using t sum nonneg(2) len pos(1) by (auto simp: tokens_def)
    have "ring PIPE_BUFFER_SIZE buf (offRead (py_p \<sigma>)) w ?data"
      by (rule ring_put_ring [OF _ _ put]) (use d room in \<open>simp_all add: pipe_data_def\<close>)
    with d res p' have data: "pipe_data ?s ?data" by (simp add: pipe_data_def)
    have rd: "0 \<le> sum_list (py_rd \<sigma>)" using inv by (intro sum_list_pos) (auto simp: pipe_inv_def)
    have ok: "sem_ok (py_k \<sigma>) ?R" "sem_ok (py_k \<sigma>) ?F" "?R \<noteq> ?F" using inv by (auto simp: pipe_inv_def)
    have small: "sem_val (py_k \<sigma>) ?R + r < 2 ^ 31" using t rd room len pos by (auto simp: tokens_def)
    have "sem_val k' ?R + sum_list (py_rd \<sigma>) \<le> int (length ?data)"
      by (rule ks.budget_signal [OF sig ok(1)]) (use t rd room len pos in \<open>auto simp: tokens_def\<close>)
    moreover have "sem_val k' ?F = sem_val (py_k \<sigma>) ?F" using ok(3) by (intro ks.signal_other [OF sig]) simp
    ultimately have tok: "tokens ?s (length ?data)"
      using t r len pos res p' by (simp add: tokens_def sum_fst_remove1)
    have "sem_ok k' ?R" "sem_ok k' ?F" using ks.signal_ok [OF sig _ _ small] ok pos by simp_all
    with data tok inv rest p' show ?thesis unfolding pipe_inv_def by (auto split: prod.splits)
  qed
qed

lemma pipe_same_inv:
  assumes inv: "pipe_inv \<sigma>" and p: "same_pipe (py_p \<sigma>) p'"
    and k: "same_sem (semBufferRead (py_p \<sigma>)) (py_k \<sigma>) k'" "same_sem (semBufferFree (py_p \<sigma>)) (py_k \<sigma>) k'"
  shows "pipe_inv (\<sigma>\<lparr>py_k := k', py_p := p'\<rparr>)"
  using assms by (auto simp: pipe_inv_def pipe_data_def tokens_def same_pipe_def same_sem_def)

lemma pipe_close_same:
  assumes "pipe_close cur e p k = Ok (p', k')" and "semHangup p \<notin> {semBufferRead p, semBufferFree p}"
  shows "same_pipe p p' \<and> same_sem (semBufferRead p) k k' \<and> same_sem (semBufferFree p) k k'"
proof -
  have tmn: "same_sem s k k'" if "semTerminate t k = Ok k'" for s t k k'
    using that ks.terminate_val ks.terminate_ok by (simp add: same_sem_def)
  have sig: "same_sem s k k'" if "semSignal cur t k = Ok k'" "t \<noteq> s" for s t k k'
    using that ks.signal_other [of t 1 k k' s] signal_count(1) [of t 1 k k' s]
    by (auto simp: semSignal_def same_sem_def sem_ok_def split: if_splits)
  have trans: "same_sem s k k'' \<Longrightarrow> same_sem s k'' k' \<Longrightarrow> same_sem s k k'" for s k k'' k'
    by (auto simp: same_sem_def)
  show ?thesis
  proof (cases e)
    case PIPE_READ
    with assms(1) tmn show ?thesis
      by (auto simp: pipe_close_def kbind_Ok_iff Let_def same_pipe_def same_sem_def split: if_splits)
  next
    case PIPE_WRITE
    show ?thesis
    proof (cases "c_int (cntWrite p - 1) = 0")
      case True
      with assms(1) PIPE_WRITE obtain k1 where "semTerminate (semBufferRead p) k = Ok k1"
        "semSignal cur (semHangup p) k1 = Ok k'" "p' = p\<lparr>cntWrite := 0\<rparr>"
        by (auto simp: pipe_close_def kbind_Ok_iff Let_def)
      with assms(2) show ?thesis
        by (auto simp: same_pipe_def intro: trans [OF tmn sig])
    next
      case False
      with assms(1) PIPE_WRITE show ?thesis
        by (auto simp: pipe_close_def Let_def same_pipe_def same_sem_def)
    qed
  qed
qed

lemma pipe_step_inv: "pipe_step \<sigma> \<sigma>' \<Longrightarrow> pipe_inv \<sigma> \<Longrightarrow> pipe_inv \<sigma>'"
proof (induction rule: pipe_step.induct)
  case (read_wait n \<sigma> r k')
  let ?R = "semBufferRead (py_p \<sigma>)" and ?F = "semBufferFree (py_p \<sigma>)"
  from read_wait(3) obtain data where d: "pipe_data \<sigma> data" and t: "tokens \<sigma> (length data)"
    by (auto simp: pipe_inv_def)
  from d have len: "length data \<le> PIPE_BUFFER_SIZE" by (simp add: pipe_data_def ring_def)
  have rd: "0 \<le> sum_list (py_rd \<sigma>)" using read_wait(3) by (intro sum_list_pos) (auto simp: pipe_inv_def)
  have small: "sem_val (py_k \<sigma>) ?R < 2 ^ 31" using t rd len by (simp add: tokens_def)
  have "sem_val k' ?R + (sum_list (py_rd \<sigma>) + max 0 r) \<le> int (length data)"
    by (rule ks.budget_wait [OF read_wait(2,1) rd]) (use t len in \<open>simp_all add: tokens_def\<close>)
  moreover have "sem_val k' ?F = sem_val (py_k \<sigma>) ?F"
    using read_wait(3) by (intro ks.wait_other [OF read_wait(2)]) (simp add: pipe_inv_def)
  moreover have "sem_ok k' ?R" "sem_ok k' ?F"
    using ks.wait_ok [OF read_wait(2,1) _ small] read_wait(3) by (simp_all add: pipe_inv_def)
  ultimately show ?case using d t read_wait(3)
    by (auto simp: pipe_inv_def pipe_data_def tokens_def intro!: exI [of _ data])
next
  case (get r \<sigma> bs p' k')
  then show ?case by (intro pipe_read_inv)
next
  case (write_wait n rest \<sigma> r k')
  let ?R = "semBufferRead (py_p \<sigma>)" and ?F = "semBufferFree (py_p \<sigma>)"
  from write_wait(4) obtain data where d: "pipe_data \<sigma> data" and t: "tokens \<sigma> (length data)"
    by (auto simp: pipe_inv_def)
  have wr: "0 \<le> sum_list (map fst (py_wr \<sigma>))"
    using write_wait(4) by (intro sum_list_pos) (auto simp: pipe_inv_def)
  have small: "sem_val (py_k \<sigma>) ?F < 2 ^ 31" using t wr by (simp add: tokens_def)
  have "sem_val k' ?F + (sum_list (map fst (py_wr \<sigma>)) + max 0 r) \<le> int PIPE_BUFFER_SIZE - int (length data)"
    by (rule ks.budget_wait [OF write_wait(3,1) wr]) (use t in \<open>simp_all add: tokens_def\<close>)
  moreover have "sem_val k' ?R = sem_val (py_k \<sigma>) ?R"
    using write_wait(4) by (intro ks.wait_other [OF write_wait(3)]) (simp add: pipe_inv_def)
  moreover have "sem_ok k' ?R" "sem_ok k' ?F"
    using ks.wait_ok [OF write_wait(3,1) _ small] write_wait(4) by (simp_all add: pipe_inv_def)
  moreover have "r \<le> int (length rest)" if "0 < r"
    using ks.wait_taken [OF write_wait(3,1) small that] write_wait(2) by simp
  ultimately show ?case using d t write_wait(4)
    by (auto simp: pipe_inv_def pipe_data_def tokens_def intro!: exI [of _ data])
next
  case (put r rest \<sigma> out res p' k')
  then show ?case by (intro pipe_write_inv)
next
  case (sleep \<sigma> k')
  then have "same_sem s (py_k \<sigma>) k'" for s by (simp add: same_sem_def ks.slept_val ks.slept_ok)
  with pipe_same_inv [OF sleep(2), of "py_p \<sigma>" k'] show ?case by (simp add: same_pipe_def)
next
  case (close cur e \<sigma> p' k')
  with pipe_close_same [OF close(1,2)] show ?case by (intro pipe_same_inv) simp_all
next
  case (other \<sigma> p' k')
  then show ?case by (intro pipe_same_inv)
qed

lemma pipe_reach_inv: "pipe_reach \<sigma> \<Longrightarrow> pipe_inv \<sigma>"
  by (induction rule: pipe_reach.induct) (auto intro: pipe_startI pipe_step_inv)

section \<open>What \<open>sys_pipe2\<close> opens\<close>

lemma pipe2_flags:
  assumes "(flags :: u32) AND NOT (O_CLOEXEC OR O_NONBLOCK) = 0"
  shows "flags \<in> {0, 256, 2048, 2304}"
proof -
  have b: "n = 8 \<or> n = 11" if n: "bit flags n" for n
  proof -
    from n have "n \<in> set [0..<32]" by (auto dest: bit_imp_le_length)
    moreover have "bit (flags AND NOT 2304) n = False" using assms by simp
    with n have "bit (2304 :: u32) n"
      using bit_imp_le_length [OF n] unfolding bit_and_iff bit_not_iff by (auto simp: possible_bit_word)
    moreover have "\<forall>n \<in> set [0..<32]. bit (2304 :: u32) n \<longrightarrow> n = 8 \<or> n = 11" by code_simp
    ultimately show ?thesis by blast
  qed
  have c: "\<forall>n \<in> set [0..<32]. bit (256 :: u32) n = (n = 8) \<and> bit (2048 :: u32) n = (n = 11)" by code_simp
  have "flags = (if bit flags 8 then 256 else 0) OR (if bit flags 11 then 2048 else 0)"
  proof (rule bit_word_eqI)
    fix n assume "n < LENGTH(32)"
    with c have "bit (256 :: u32) n = (n = 8)" "bit (2048 :: u32) n = (n = 11)" by simp_all
    with b [of n] show "bit flags n = bit ((if bit flags 8 then 256 else 0 :: u32) OR (if bit flags 11 then 2048 else 0)) n"
      by (auto simp: bit_or_iff)
  qed
  then show ?thesis by (cases "bit flags 8"; cases "bit flags 11") simp_all
qed

lemma pipe_open_read_cnt:
  "pipe_open oflags th w resched now sigs p k = OpenOk e p' k' \<Longrightarrow> has oflags O_RDONLY \<Longrightarrow>
     p' = (if has oflags O_NONBLOCK then p else p\<lparr>cntRead := c_int (cntRead p + 1)\<rparr>)"
  by (auto simp: pipe_open_def pipe_polled_def split: if_splits kres.splits poll_out.splits)

lemma pipe_open_write_cnt:
  "pipe_open oflags th w resched now sigs p k = OpenOk e p' k' \<Longrightarrow> \<not> has oflags O_RDONLY \<Longrightarrow>
     p' = p\<lparr>cntWrite := c_int (cntWrite p + 1)\<rparr>"
  by (auto simp: pipe_open_def pipe_polled_def split: if_splits kres.splits poll_out.splits)

lemma ftabAlloc_slot:
  "ftabAlloc ft = (fd, ft') \<Longrightarrow> fd \<noteq> -1 \<Longrightarrow> nat fd < length (ft_list ft) \<and> 0 \<le> fd \<and>
     fd_fp (ft_list ft ! nat fd) = FNull \<and> ft_list ft' = (ft_list ft)[nat fd := (ft_list ft ! nat fd)\<lparr>fd_fp := FReserve\<rparr>]"
  by (auto simp: ftabAlloc_def split: option.splits dest: firstFree_Some)

section \<open>Properties\<close>

text \<open>C7: a pipe is a first-in first-out channel: over every interleaving of readers and writers,
  of closes and of waits that sleep, time out or are interrupted, the bytes read are exactly
  the first of the bytes written, in order, and at most 1024 bytes lie in between; each granted
  read returns the number of bytes granted.\<close>
theorem pipe_fifo:
  assumes "pipe_reach \<sigma>"
  shows "\<exists>data. py_in \<sigma> = py_out \<sigma> @ data \<and> length data \<le> PIPE_BUFFER_SIZE \<and>
    (\<forall>r \<in> set (py_rd \<sigma>). \<forall>bs p' k'. pipe_read r (py_p \<sigma>) (py_k \<sigma>) = Ok (ReadOk bs, p', k') \<longrightarrow>
       bs = take (nat r) data \<and> length bs = nat r)"
proof -
  from pipe_reach_inv [OF assms] obtain data where d: "pipe_data \<sigma> data" "tokens \<sigma> (length data)"
    and rd: "\<forall>r \<in> set (py_rd \<sigma>). 0 < r" by (auto simp: pipe_inv_def)
  have "bs = take (nat r) data \<and> length bs = nat r"
    if r: "r \<in> set (py_rd \<sigma>)" "pipe_read r (py_p \<sigma>) (py_k \<sigma>) = Ok (ReadOk bs, p', k')" for r bs p' k'
  proof -
    from rd r(1) have "0 < r" "r \<le> sum_list (py_rd \<sigma>)" by (auto intro: sum_list_member)
    with d(2) ks.val_nonneg [of "py_k \<sigma>" "semBufferRead (py_p \<sigma>)"] have "nat r \<le> length data"
      by (auto simp: tokens_def)
    moreover from d(1) this obtain r' where
      "ring_get PIPE_BUFFER_SIZE (nat r) (pp_buffer (py_p \<sigma>)) (offRead (py_p \<sigma>)) = (take (nat r) data, r')"
      by (auto simp: pipe_data_def elim: ring_get_ring)
    ultimately show ?thesis using r(2) \<open>0 < r\<close> by (auto simp: pipe_read_def kbind_Ok_iff)
  qed
  with d(1) show ?thesis by (intro exI [of _ data]) (auto simp: pipe_data_def ring_def)
qed

definition demo_mem :: "u8 list" where "demo_mem = replicate 1024 0"

definition demo_kern :: kern where
  "demo_kern = ss_k (sem_start 0 0)"

lemma waited_now:
  assumes "0 < n" and "0 < count k s" and "count k s < 2 ^ 31"
  shows "semWaitGen s n 0 0 th w 0 0 False k =
      SemRet (min n (count k s)) (out_k (semWaitGen s n 0 0 th w 0 0 False k)) \<and>
    (\<forall>s'. count (out_k (semWaitGen s n 0 0 th w 0 0 False k)) s' =
       (if s' = s then (if terminated k s \<and> count k s \<le> n then -1 else count k s - min n (count k s)) else count k s')) \<and>
    (\<forall>s'. terminated (out_k (semWaitGen s n 0 0 th w 0 0 False k)) s' = terminated k s')"
proof -
  have "c_int (count k s - n) = count k s - n" if "n \<le> count k s"
    using assms that by (intro c_int_id) auto
  with assms show ?thesis
    by (auto simp: semWaitGen_def Let_def semWait_outer_def semWait_take_def k_simps out_k_def)
qed

lemma start_counts:
  "count (py_k (pipe_start 10 m k)) s = (if s = 13 then 1024 else if s \<in> {10, 11, 12, 14} then 0 else count k s)"
  "terminated (py_k (pipe_start 10 m k)) s = (s \<notin> {10, 11, 12, 13, 14} \<and> terminated k s)"
  "semBufferRead (py_p (pipe_start 10 m k)) = 12" "semBufferFree (py_p (pipe_start 10 m k)) = 13"
  by (auto simp: pipe_start_def pipeCreate_def semInit2_def k_simps has_def)

lemma pipe_demo:
  obtains \<sigma> p' k' bs where "pipe_reach \<sigma>" and "py_in \<sigma> = [1, 2, 3, 4, 5]" and "py_out \<sigma> = []"
    and "py_rd \<sigma> = [2]" and "pipe_read 2 (py_p \<sigma>) (py_k \<sigma>) = Ok (ReadOk bs, p', k')"
proof -
  let ?s0 = "pipe_start 10 demo_mem demo_kern"
  let ?p = "(py_p ?s0)\<lparr>cntRead := 1\<rparr>"
  let ?s1 = "?s0\<lparr>py_k := py_k ?s0, py_p := ?p\<rparr>"
  have r0: "pipe_reach ?s0" by (rule pipe_reach.start) (simp add: demo_mem_def)
  have r1: "pipe_reach ?s1"
    by (rule pipe_reach.step [OF r0 pipe_step.other]) (simp_all add: same_pipe_def same_sem_def)
  define k1 where "k1 = out_k (semWaitGen 13 5 0 0 7 20 0 0 False (py_k ?s0))"
  have w1: "semWaitGen 13 5 0 0 7 20 0 0 False (py_k ?s0) = SemRet 5 k1"
    and c1: "\<And>s. count k1 s = (if s = 13 then 1019 else count (py_k ?s0) s)" "\<And>s. terminated k1 s = terminated (py_k ?s0) s"
    using waited_now [of 5 "py_k ?s0" 13 7 20] by (simp_all add: start_counts k1_def)
  let ?s2 = "?s1\<lparr>py_k := k1, py_wr := [(5, [1, 2, 3, 4, 5])]\<rparr>"
  have "sem_waited 13 5 (py_k ?s1) 5 k1" using w1 unfolding sem_waited_def by auto
  then have "pipe_step ?s1 (?s1\<lparr>py_k := k1, py_wr := (if 0 < (5 :: int) then (5, [1, 2, 3, 4, 5]) # py_wr ?s1 else py_wr ?s1)\<rparr>)"
    by (intro pipe_step.write_wait [where n = 5]) (simp_all add: start_counts)
  then have r2: "pipe_reach ?s2" using r1 by (auto intro: pipe_reach.step simp: pipe_start_def pipeCreate_def)
  define k2 where "k2 = sem_notify 12 (set_count 12 5 k1)"
  have sg: "semSignal2 12 5 k1 = Ok k2"
    using c1 by (simp add: semSignal2_def start_counts k2_def c_int_def)
  have c2: "\<And>s. count k2 s = (if s = 12 then 5 else count k1 s)" "\<And>s. terminated k2 s = terminated k1 s"
    by (simp_all add: k2_def)
  obtain p2 where wr: "pipe_write 5 [1, 2, 3, 4, 5] 0 ?p k1 = Ok (WriteRet 5, p2, k2)"
    and p2: "semBufferRead p2 = 12" "semBufferFree p2 = 13"
    using sg by (auto simp: pipe_write_def start_counts)
  let ?s3 = "?s2\<lparr>py_k := k2, py_p := p2, py_wr := [], py_in := [1, 2, 3, 4, 5]\<rparr>"
  have "pipe_step ?s2 (?s2\<lparr>py_k := k2, py_p := p2, py_wr := remove1 (5, [1, 2, 3, 4, 5]) (py_wr ?s2),
      py_in := py_in ?s2 @ (if WriteRet 5 = WriteBroken then [] else take (nat 5) [1, 2, 3, 4, 5])\<rparr>)"
    by (rule pipe_step.put [where out = 0]) (use wr in simp_all)
  then have r3: "pipe_reach ?s3"
    using r2 by (auto intro: pipe_reach.step simp: pipe_start_def pipeCreate_def)
  define k3 where "k3 = out_k (semWaitGen 12 2 0 0 8 21 0 0 False k2)"
  have w3: "semWaitGen 12 2 0 0 8 21 0 0 False k2 = SemRet 2 k3"
    and c3: "count k3 13 = 1019" "terminated k3 13 = False"
    using waited_now [of 2 k2 12 8 21] c1 c2 by (simp_all add: start_counts k3_def)
  let ?s4 = "?s3\<lparr>py_k := k3, py_rd := [2]\<rparr>"
  have "sem_waited 12 2 (py_k ?s3) 2 k3" using w3 unfolding sem_waited_def by auto
  then have "pipe_step ?s3 (?s3\<lparr>py_k := k3, py_rd := (if 0 < (2 :: int) then 2 # py_rd ?s3 else py_rd ?s3)\<rparr>)"
    by (intro pipe_step.read_wait [where n = 2]) (simp_all add: p2)
  then have r4: "pipe_reach ?s4" using r3 by (auto intro: pipe_reach.step simp: pipe_start_def pipeCreate_def)
  have "semSignal2 13 2 k3 = Ok (sem_notify 13 (set_count 13 1021 k3))"
    using c3 by (simp add: semSignal2_def c_int_def)
  moreover obtain bs o' where "ring_get PIPE_BUFFER_SIZE 2 (pp_buffer p2) (offRead p2) = (bs, o')"
    by (cases "ring_get PIPE_BUFFER_SIZE 2 (pp_buffer p2) (offRead p2)")
  ultimately obtain bs p' k' where "pipe_read 2 p2 k3 = Ok (ReadOk bs, p', k')"
    by (simp add: pipe_read_def p2)
  then show thesis using r4 by (intro that [of ?s4 bs p' k']) (simp_all add: pipe_start_def pipeCreate_def)
qed

theorem pipe_fifo_witness:
  "\<exists>\<sigma> p' k'. pipe_reach \<sigma> \<and> py_in \<sigma> = [1, 2, 3, 4, 5] \<and> py_out \<sigma> = [] \<and>
     pipe_read 2 (py_p \<sigma>) (py_k \<sigma>) = Ok (ReadOk [1, 2], p', k')"
proof -
  obtain \<sigma> p' k' bs where s: "pipe_reach \<sigma>" "py_in \<sigma> = [1, 2, 3, 4, 5]" "py_out \<sigma> = []" "py_rd \<sigma> = [2]"
    "pipe_read 2 (py_p \<sigma>) (py_k \<sigma>) = Ok (ReadOk bs, p', k')" by (rule pipe_demo)
  from pipe_fifo [OF s(1)] s(2-5) have "bs = take (nat 2) [1, 2, 3, 4, 5]" by auto
  with s show ?thesis by auto
qed

text \<open>A read whose size, cut to an \<open>int\<close>, is below -1 corrupts the pipe: on a pipe with data
  the wait adds bytes that do not exist to the count of readable bytes, and \<open>read\<close> fails with
  the size as its error number.\<close>
theorem pipe_read_huge:
  assumes "2 \<le> m" and "0 < count k (semBufferRead p)" and "count k (semBufferRead p) + m < 2 ^ 31"
  shows "\<exists>k'. pipe_read_wait p (of_int (2 ^ 32 - m)) oflags th w now sigs k = SemRet (- m) k' \<and>
    count k' (semBufferRead p) = count k (semBufferRead p) + m \<and> pipe_read (- m) p k' = Ok (ReadErr m, p, k')"
proof -
  let ?R = "semBufferRead p"
  have m: "m < 2 ^ 31" using assms(2,3) by linarith
  then have u: "uint (of_int (2 ^ 32 - m) :: u64) = 2 ^ 32 - m"
    using assms(1) by (simp add: unsigned_of_int take_bit_int_eq_self del: of_int_diff)
  have "signed_take_bit 31 (2 ^ 32 - m) = signed_take_bit 31 (- m)"
    unfolding signed_take_bit_eq_iff_take_bit_eq take_bit_eq_mod by simp
  then have n: "c_int_of_u64 (of_int (2 ^ 32 - m)) = - m"
    using u m assms(1) c_int_id [of "- m"] by (simp add: c_int_of_u64_def c_int_def)
  have c: "c_int (count k ?R - - m) = count k ?R + m" using assms by (simp add: c_int_id)
  show ?thesis
    unfolding pipe_read_wait_def n using assms m c
    by (auto simp: semWaitGen_def Let_def semWait_outer_def semWait_take_def k_simps pipe_read_def)
qed

theorem pipe_read_huge_witness:
  "\<exists>k'. pipe_read_wait (py_p (pipe_start 10 demo_mem demo_kern)) 4294967294 0 7 20 0 False
      (set_count 12 1 (py_k (pipe_start 10 demo_mem demo_kern))) = SemRet (- 2) k' \<and> count k' 12 = 3"
  using pipe_read_huge [of 2 "set_count 12 1 (py_k (pipe_start 10 demo_mem demo_kern))"
      "py_p (pipe_start 10 demo_mem demo_kern)" 0 7 20 0 False]
  by (auto simp: start_counts)

text \<open>A successful \<open>pipe2\<close> stores two new descriptors, for the read and the write end, with the
  close-on-exec flag as asked; without \<open>O_NONBLOCK\<close> each end is counted as open once. With
  \<open>O_NONBLOCK\<close> the read end is not counted: every write that gets room then fails with \<open>EPIPE\<close>
  and \<open>SIGPIPE\<close> although the read end is open.\<close>
theorem sys_pipe2_opens:
  assumes "sys_pipe2 flags th inode rfile wfile a mem resched copied now sigs ft k v junk =
      Pipe2Ret 0 err ft' (Some (rfd, wfd)) p k' v'"
  shows "rfd \<noteq> wfd \<and> ft_list ft' ! nat rfd = \<lparr>fd_fp = FPtr rfile, fd_flags = uint (flags AND O_CLOEXEC)\<rparr> \<and>
    ft_list ft' ! nat wfd = \<lparr>fd_fp = FPtr wfile, fd_flags = uint (flags AND O_CLOEXEC)\<rparr> \<and>
    fd_fp (ft_list ft ! nat rfd) = FNull \<and> fd_fp (ft_list ft ! nat wfd) = FNull \<and> cntWrite p = 1 \<and>
    (if has flags O_NONBLOCK
     then cntRead p = 0 \<and> (\<forall>n rest out. 0 \<le> n \<longrightarrow> pipe_write n rest out p k' = Ok (WriteBroken, p, k'))
     else cntRead p = 1)"
proof -
  obtain fd1 ft1 where a1: "ftabAlloc ft = (fd1, ft1)" by (cases "ftabAlloc ft")
  obtain fd2 ft2 where a2: "ftabAlloc ft1 = (fd2, ft2)" by (cases "ftabAlloc ft1")
  obtain p0 k0 where c: "pipeCreate a mem k = (p0, k0)" by (cases "pipeCreate a mem k")
  from c have p0: "cntRead p0 = 0" "cntWrite p0 = 0" by (auto simp: pipeCreate_def Let_def)
  from assms a1 a2 c have ok: "flags AND NOT (O_CLOEXEC OR O_NONBLOCK) = 0" "fd1 \<noteq> -1" "fd2 \<noteq> -1"
    by (auto simp: sys_pipe2_def split: if_splits kres.splits)
  from pipe2_flags [OF ok(1)] have rd: "has (O_RDONLY OR flags) O_RDONLY" "\<not> has (O_WRONLY OR flags) O_RDONLY"
    "has (O_RDONLY OR flags) O_NONBLOCK = has flags O_NONBLOCK" by (auto simp: has_def)
  note E = assms [unfolded sys_pipe2_def a1 prod.case a2 c if_not_P [OF ok(2)] if_not_P [OF ok(3)]]
  from E ok(1) obtain p3 k3 v3 where
    o3: "pipe2_open flags th inode rfile wfile (a + 5) resched now sigs p0 k0 v = FilesOk p3 k3 v3"
    by (cases "pipe2_open flags th inode rfile wfile (a + 5) resched now sigs p0 k0 v") simp_all
  from E ok(1) obtain ft4 where
    s4: "kbind (ftabSet ft2 (nat fd1) (FPtr rfile) (uint (flags AND O_CLOEXEC)))
           (\<lambda>ft. ftabSet ft (nat fd2) (FPtr wfile) (uint (flags AND O_CLOEXEC))) = Ok ft4"
    by (cases "kbind (ftabSet ft2 (nat fd1) (FPtr rfile) (uint (flags AND O_CLOEXEC)))
           (\<lambda>ft. ftabSet ft (nat fd2) (FPtr wfile) (uint (flags AND O_CLOEXEC)))") (simp_all add: o3 Let_def)
  from E ok(1) have out: "rfd = fd1" "wfd = fd2" and o4: "ft4 = ft'" "p3 = p" "k3 = k'"
    by (simp_all add: o3 s4 Let_def split: if_splits)
  from o3 o4 have o: "pipe2_open flags th inode rfile wfile (a + 5) resched now sigs p0 k0 v = FilesOk p k3 v3" by simp
  from s4 o4 obtain ft3 where
    s: "ftabSet ft2 (nat fd1) (FPtr rfile) (uint (flags AND O_CLOEXEC)) = Ok ft3"
       "ftabSet ft3 (nat fd2) (FPtr wfile) (uint (flags AND O_CLOEXEC)) = Ok ft'"
    by (auto simp: kbind_Ok_iff)
  from o obtain e1 p1 k1 e2 k2 where
    r: "pipe_open (O_RDONLY OR flags) th (a + 5) resched now sigs p0 k2 = OpenOk e1 p1 k1" and
    w: "pipe_open (O_WRONLY OR flags) th (a + 5) resched now sigs p1 k1 = OpenOk e2 p k3"
    by (auto simp: pipe2_open_def Let_def split: kres.splits open_out.splits)
  have p1: "p1 = (if has flags O_NONBLOCK then p0 else p0\<lparr>cntRead := c_int (cntRead p0 + 1)\<rparr>)"
    using pipe_open_read_cnt [OF r rd(1)] rd(3) by simp
  have p: "p = p1\<lparr>cntWrite := c_int (cntWrite p1 + 1)\<rparr>" using pipe_open_write_cnt [OF w rd(2)] .
  note l1 = ftabAlloc_slot [OF a1 ok(2)] and l2 = ftabAlloc_slot [OF a2 ok(3)]
  have ne: "nat fd1 \<noteq> nat fd2"
  proof
    assume "nat fd1 = nat fd2"
    with l1 have "fd_fp (ft_list ft1 ! nat fd2) = FReserve" by simp
    with l2 show False by simp
  qed
  from s l1 l2 ne out have "rfd \<noteq> wfd \<and> ft_list ft' ! nat rfd = \<lparr>fd_fp = FPtr rfile, fd_flags = uint (flags AND O_CLOEXEC)\<rparr> \<and>
    ft_list ft' ! nat wfd = \<lparr>fd_fp = FPtr wfile, fd_flags = uint (flags AND O_CLOEXEC)\<rparr> \<and>
    fd_fp (ft_list ft ! nat rfd) = FNull \<and> fd_fp (ft_list ft ! nat wfd) = FNull"
    by (auto simp: ftabSet_def split: if_splits)
  moreover have "cntWrite p = 1" "cntRead p = (if has flags O_NONBLOCK then 0 else 1)"
    using p p1 p0 by (simp_all add: c_int_def)
  ultimately show ?thesis by (auto simp: pipe_write_def)
qed

lemma create_alloc2:
  "ftabAlloc demo_reserved = (1, demo_reserved\<lparr>ft_list := (ft_list demo_reserved)[1 := \<lparr>fd_fp = FReserve, fd_flags = 0\<rparr>]\<rparr>)"
  by (simp add: ftabAlloc_def demo_reserved_def ftabCreate_def numeral_eq_Suc)

theorem sys_pipe2_opens_witness:
  "\<exists>ft' p k' v'. sys_pipe2 O_NONBLOCK 7 4 5 6 10 demo_mem (\<lambda>_. False) True 0 False ftabCreate demo_kern
      (fy_v ft_start) (py_p (pipe_start 10 demo_mem demo_kern)) = Pipe2Ret 0 0 ft' (Some (0, 1)) p k' v' \<and>
    ftabGet ft' 0 v' = (Some 5, vfsDup 5 v') \<and> cntRead p = 0 \<and> pipe_write 1 [65] 0 p k' = Ok (WriteBroken, p, k')"
proof -
  have "\<exists>ft' p k' v'. sys_pipe2 O_NONBLOCK 7 4 5 6 10 demo_mem (\<lambda>_. False) True 0 False ftabCreate demo_kern
      (fy_v ft_start) (py_p (pipe_start 10 demo_mem demo_kern)) = Pipe2Ret 0 0 ft' (Some (0, 1)) p k' v'"
    unfolding sys_pipe2_def demo_alloc prod.case create_alloc2
    by (simp add: pipe2_open_def pipeCreate_def Let_def semSignal_def semSignal2_def
        semInit2_def k_simps has_def pipe_open_def pipe_polled_def semPoll_def ftabSet_def
        demo_reserved_def create_list vfsOpenPipe_def c_int_def)
  then obtain ft' p k' v' where run: "sys_pipe2 O_NONBLOCK 7 4 5 6 10 demo_mem (\<lambda>_. False) True 0 False ftabCreate demo_kern
      (fy_v ft_start) (py_p (pipe_start 10 demo_mem demo_kern)) = Pipe2Ret 0 0 ft' (Some (0, 1)) p k' v'" by blast
  from sys_pipe2_opens [OF run] run show ?thesis
    by (auto simp: ftabGet_def bad_fd_def has_def)
qed

end
