(* ===== verification/Gx_Ptty.thy ===== *)
theory Gx_Ptty
  imports Gx_SemSpec Gx_Ring
begin

text \<open>
  \<open>kernel/src/term/ptty.c\<close>: pseudo-terminals, two rings of 4096 bytes between a master and a
  slave with a line discipline on what the master writes. What runs under \<open>ptty->sem\<close> is one
  step; the reads are cut after their wait, and \<open>cnt\<close> is what \<open>semWaitGen\<close> returned. Calls
  that leave the terminal (signals to process groups, devfs, inodes, \<open>kfree\<close>) are recorded.
\<close>

section \<open>Data\<close>

abbreviation TERM_BUFFER_SIZE :: nat where "TERM_BUFFER_SIZE \<equiv> 4096"
abbreviation PTTY_MASTER :: u32 where "PTTY_MASTER \<equiv> 1"
abbreviation PTTY_SLAVE :: u32 where "PTTY_SLAVE \<equiv> 2"
abbreviation ICRNL :: u16 where "ICRNL \<equiv> 2"
abbreviation ECHO :: u16 where "ECHO \<equiv> 1"
abbreviation ECHOE :: u16 where "ECHOE \<equiv> 2"
abbreviation ECHOK :: u16 where "ECHOK \<equiv> 4"
abbreviation ECHONL :: u16 where "ECHONL \<equiv> 8"
abbreviation ICANON :: u16 where "ICANON \<equiv> 16"
abbreviation ISIG :: u16 where "ISIG \<equiv> 64"
abbreviation CC_VINTR :: u8 where "CC_VINTR \<equiv> 0x83"
abbreviation CC_VKILL :: u8 where "CC_VKILL \<equiv> 0x84"
abbreviation NCCS :: nat where "NCCS \<equiv> 11"
abbreviation SIGHUP :: int where "SIGHUP \<equiv> 1"
abbreviation SIGINT :: int where "SIGINT \<equiv> 2"
abbreviation SIGKILL :: int where "SIGKILL \<equiv> 9"

record termios =
  c_iflag :: u16
  c_oflag :: u16
  c_cflag :: u16
  c_lflag :: u16
  c_cc :: "u8 list"

datatype tty_call =
    SignalPid int int      \<comment> \<open>\<open>signalPid\<close>/\<open>signalPidEx\<close>: process or group, and signal\<close>
  | DevfsRemove
  | DownrefSlave
  | FreeTty

record PseudoTerm =
  masterCounter :: nat
  slaveCounter :: nat
  tstate :: termios
  masterBuffer :: "u8 list"
  masterPut :: nat
  masterFetch :: nat
  slaveBuffer :: "u8 list"
  slavePut :: nat
  slaveFetch :: nat
  lineBuffer :: "u8 list"
  lineSize :: nat
  sid :: int
  pgid :: int
  sides :: u32
  tcalls :: "tty_call list"

section \<open>The slave side\<close>

datatype tty_res = TtyErr int | TtyRet int | TtyBytes "u8 list"

definition put_master :: "u8 list \<Rightarrow> PseudoTerm \<Rightarrow> PseudoTerm" where
  "put_master bs p = (case ring_put TERM_BUFFER_SIZE bs (masterBuffer p, masterPut p) of
     (buf, w) \<Rightarrow> p\<lparr>masterBuffer := buf, masterPut := w\<rparr>)"

definition put_slave :: "u8 list \<Rightarrow> PseudoTerm \<Rightarrow> PseudoTerm" where
  "put_slave bs p = (case ring_put TERM_BUFFER_SIZE bs (slaveBuffer p, slavePut p) of
     (buf, w) \<Rightarrow> p\<lparr>slaveBuffer := buf, slavePut := w\<rparr>)"

definition pts_write :: "u8 list \<Rightarrow> PseudoTerm \<Rightarrow> kern \<Rightarrow> (tty_res \<times> PseudoTerm \<times> kern) kres" where
  "pts_write bs p k =
     kbind (semSignal2 (masterCounter p) (c_int (int (length bs))) k)
       (\<lambda>k. Ok (TtyRet (int (length bs)), put_master bs p, k))"

definition pts_read :: "int \<Rightarrow> PseudoTerm \<Rightarrow> tty_res \<times> PseudoTerm" where
  "pts_read cnt p =
     (if cnt < 0 then (TtyErr (- cnt), p)
      else if cnt = 0 then (TtyRet 0, p)
      else case ring_get TERM_BUFFER_SIZE (nat cnt) (slaveBuffer p) (slaveFetch p) of
        (bs, r) \<Rightarrow> (TtyBytes bs, p\<lparr>slaveFetch := r\<rparr>))"

definition pts_open :: "u32 \<Rightarrow> int \<Rightarrow> int \<Rightarrow> PseudoTerm \<Rightarrow> tty_res \<times> PseudoTerm" where
  "pts_open oflags my_sid my_pgid p =
     (if \<not> has oflags O_NOCTTY then
        if sid p \<noteq> 0 \<and> sid p \<noteq> my_sid then (TtyErr EBUSY, p)
        else (TtyRet 1, p\<lparr>sid := my_sid, pgid := my_pgid\<rparr>)
      else (TtyRet 1, p))"

definition pts_close :: "PseudoTerm \<Rightarrow> kern \<Rightarrow> kern kres" where
  "pts_close p k = semTerminate (masterCounter p) k"

definition pts_free :: "PseudoTerm \<Rightarrow> PseudoTerm" where
  "pts_free p =
     (let p = p\<lparr>sides := sides p AND NOT PTTY_SLAVE\<rparr>
      in if sides p = 0 then p\<lparr>tcalls := tcalls p @ [FreeTty]\<rparr> else p)"

text \<open>
  \<open>pts_ioctl\<close>, with the argument that is read or written at \<open>argp\<close>. \<open>threads\<close> are the
  credentials (\<open>pgid\<close> and \<open>sid\<close>; \<open>None\<close> for a kernel thread) round the ring of threads, the
  caller first; the caller is a process.
\<close>

datatype tty_cmd = GetAttr | SetAttr termios | GetPgid | SetPgid int | IsATty | OtherCmd

datatype ioctl_res = IoAttr termios | IoInt int | IoOk | IoErr int

fun find_group :: "int \<Rightarrow> (int \<times> int) option list \<Rightarrow> (int \<times> int) option" where
  "find_group g [] = None"
| "find_group g (None # ts) = find_group g ts"
| "find_group g (Some (pg, s) # ts) = (if pg = g then Some (pg, s) else find_group g ts)"

definition pts_ioctl :: "tty_cmd \<Rightarrow> int \<Rightarrow> (int \<times> int) option list \<Rightarrow> PseudoTerm \<Rightarrow> ioctl_res \<times> PseudoTerm" where
  "pts_ioctl cmd my_sid threads p =
     (case cmd of
        GetAttr \<Rightarrow> (IoAttr (tstate p), p)
      | SetAttr tc \<Rightarrow> (IoOk, p\<lparr>tstate := (tstate p)\<lparr>c_iflag := c_iflag tc, c_oflag := c_oflag tc,
          c_cflag := c_cflag tc, c_lflag := c_lflag tc\<rparr>\<rparr>)
      | GetPgid \<Rightarrow> (IoInt (pgid p), p)
      | SetPgid g \<Rightarrow>
          if my_sid \<noteq> sid p then (IoErr ENOTTY, p)
          else (case find_group g threads of
              None \<Rightarrow> (IoErr EPERM, p)
            | Some (_, s) \<Rightarrow> if s \<noteq> sid p then (IoErr EPERM, p) else (IoOk, p\<lparr>pgid := g\<rparr>))
      | IsATty \<Rightarrow> (IoOk, p)
      | OtherCmd \<Rightarrow> (IoErr EINVAL, p))"

section \<open>The master side\<close>

text \<open>
  One turn of the loop of \<open>ptm_write\<close>: the terminal, \<open>numPutMaster\<close> and \<open>numPutSlave\<close>.
\<close>

definition ptm_signal :: "u8 \<Rightarrow> u8 \<Rightarrow> int \<Rightarrow> PseudoTerm \<times> int \<times> int \<Rightarrow> PseudoTerm \<times> int \<times> int" where
  "ptm_signal c sigChar signo st =
     (case st of (p, m, s) \<Rightarrow>
        let p = p\<lparr>lineSize := 0, tcalls := tcalls p @ [SignalPid (- pgid p) signo]\<rparr>
        in if has (c_lflag (tstate p)) ECHO then (put_master [94, sigChar] p, m + 2, s) else (p, m, s))"

definition ptm_canon :: "u8 \<Rightarrow> PseudoTerm \<times> int \<times> int \<Rightarrow> PseudoTerm \<times> int \<times> int" where
  "ptm_canon c st =
     (case st of (p, m, s) \<Rightarrow>
        if c = 8 then
          if lineSize p \<noteq> 0 then
            let p = p\<lparr>lineSize := lineSize p - 1\<rparr>
            in if has (c_lflag (tstate p)) ECHO then (put_master [8] p, m + 1, s) else (p, m, s)
          else (p, m, s)
        else if c = 10 \<or> c = 13 then
          let p = p\<lparr>lineBuffer := (lineBuffer p)[lineSize p := 10], lineSize := lineSize p + 1\<rparr>;
              s = s + int (lineSize p);
              p = put_slave (take (lineSize p) (lineBuffer p)) p;
              p = p\<lparr>lineSize := 0\<rparr>
          in if has (c_lflag (tstate p)) ECHONL then (put_master [10] p, m + 1, s) else (p, m, s)
        else
          let p = (if lineSize p < TERM_BUFFER_SIZE - 1
                   then p\<lparr>lineBuffer := (lineBuffer p)[lineSize p := c], lineSize := lineSize p + 1\<rparr>
                   else p)
          in if has (c_lflag (tstate p)) ECHO then (put_master [c] p, m + 1, s) else (p, m, s))"

definition ptm_raw :: "u8 \<Rightarrow> PseudoTerm \<times> int \<times> int \<Rightarrow> PseudoTerm \<times> int \<times> int" where
  "ptm_raw c st =
     (case st of (p, m, s) \<Rightarrow>
        let p = put_slave [c] p; s = s + 1
        in if c = 10 then
             if has (c_lflag (tstate p)) ECHONL then (put_master [c] p, m + 1, s) else (p, m, s)
           else if has (c_lflag (tstate p)) ECHO then (put_master [c] p, m + 1, s) else (p, m, s))"

definition ptm_char :: "u8 \<Rightarrow> PseudoTerm \<times> int \<times> int \<Rightarrow> PseudoTerm \<times> int \<times> int" where
  "ptm_char c st =
     (let lflag = c_lflag (tstate (fst st)) in
      if has lflag ISIG \<and> c = CC_VINTR then ptm_signal c 67 SIGINT st
      else if has lflag ISIG \<and> c = CC_VKILL then ptm_signal c 75 SIGKILL st
      else if has lflag ICANON then ptm_canon c st
      else ptm_raw c st)"

definition ptm_write :: "u8 list \<Rightarrow> PseudoTerm \<Rightarrow> kern \<Rightarrow> (tty_res \<times> PseudoTerm \<times> kern) kres" where
  "ptm_write bs p k =
     (if sid p = 0 then Ok (TtyErr EAGAIN, p, k)
      else case fold ptm_char bs (p, 0, 0) of
        (p, m, s) \<Rightarrow>
          kbind (semSignal2 (masterCounter p) (c_int m) k) (\<lambda>k.
          kbind (semSignal2 (slaveCounter p) (c_int s) k) (\<lambda>k.
          Ok (TtyRet (int (length bs)), p, k))))"

definition ptm_read :: "int \<Rightarrow> PseudoTerm \<Rightarrow> tty_res \<times> PseudoTerm" where
  "ptm_read cnt p =
     (if cnt < 0 then (TtyErr (- cnt), p)
      else if cnt = 0 then (TtyRet 0, p)
      else case ring_get TERM_BUFFER_SIZE (nat cnt) (masterBuffer p) (masterFetch p) of
        (bs, r) \<Rightarrow> (TtyBytes bs, p\<lparr>masterFetch := r\<rparr>))"

definition ptm_close :: "PseudoTerm \<Rightarrow> PseudoTerm" where
  "ptm_close p =
     (let p = p\<lparr>tcalls := tcalls p @ [SignalPid (- pgid p) SIGHUP, DevfsRemove, DownrefSlave],
               sides := sides p AND NOT PTTY_MASTER\<rparr>
      in if sides p = 0 then p\<lparr>tcalls := tcalls p @ [FreeTty]\<rparr> else p)"

text \<open>
  \<open>ptmx_open\<close>: the semaphores of the new terminal are at \<open>a\<close> and \<open>a + 1\<close>, and \<open>mem\<close> is what
  its three buffers hold; \<open>added\<close> tells whether \<open>devfsAdd\<close> succeeds.
\<close>

definition ptmx_open :: "nat \<Rightarrow> u8 list \<Rightarrow> bool \<Rightarrow> kern \<Rightarrow> (PseudoTerm \<times> kern) kres" where
  "ptmx_open a mem added k =
     (let k = semInit2 (a + 1) 0 (semInit2 a 0 k);
          p = \<lparr>masterCounter = a, slaveCounter = a + 1,
               tstate = \<lparr>c_iflag = ICRNL, c_oflag = 0, c_cflag = 0,
                 c_lflag = ECHO OR ECHOE OR ECHOK OR ECHONL OR ICANON OR ISIG,
                 c_cc = map (\<lambda>i. of_nat (i + 0x80)) [0..<NCCS]\<rparr>,
               masterBuffer = mem, masterPut = 0, masterFetch = 0,
               slaveBuffer = mem, slavePut = 0, slaveFetch = 0,
               lineBuffer = mem, lineSize = 0, sid = 0, pgid = 0,
               sides = PTTY_MASTER OR PTTY_SLAVE, tcalls = []\<rparr>
      in if added then Ok (p, k) else Panic)"

section \<open>The line discipline\<close>

text \<open>
  What canonical mode does to the characters written: the line being edited and the bytes
  delivered. Backspace removes the last character; a line has at most 4095 characters before
  its newline, more are dropped; a carriage return ends a line as a newline.
\<close>

fun canon :: "u8 list \<Rightarrow> u8 list \<Rightarrow> u8 list \<times> u8 list" where
  "canon line [] = (line, [])"
| "canon line (c # cs) =
     (if c = 8 then canon (butlast line) cs
      else if c = 10 \<or> c = 13 then (case canon [] cs of (l, d) \<Rightarrow> (l, line @ 10 # d))
      else canon (if length line < 4095 then line @ [c] else line) cs)"

definition tty_wf :: "PseudoTerm \<Rightarrow> bool" where
  "tty_wf p \<longleftrightarrow> length (masterBuffer p) = TERM_BUFFER_SIZE \<and> masterPut p < TERM_BUFFER_SIZE \<and>
     masterFetch p < TERM_BUFFER_SIZE \<and>
     length (slaveBuffer p) = TERM_BUFFER_SIZE \<and> slavePut p < TERM_BUFFER_SIZE \<and>
     slaveFetch p < TERM_BUFFER_SIZE \<and>
     length (lineBuffer p) = TERM_BUFFER_SIZE \<and> lineSize p < TERM_BUFFER_SIZE"

definition line_of :: "PseudoTerm \<Rightarrow> u8 list" where
  "line_of p = take (lineSize p) (lineBuffer p)"

lemma ring_put_bounds:
  "length buf = N \<Longrightarrow> w < N \<Longrightarrow> ring_put N bs (buf, w) = (buf', w') \<Longrightarrow> length buf' = N \<and> w' < N"
proof (induction bs arbitrary: buf w)
  case (Cons b bs)
  have "(w + 1) mod N < N" using Cons.prems(2) by (intro mod_less_divisor) simp
  with Cons.IH [of "buf[w := b]" "(w + 1) mod N"] Cons.prems show ?case by simp
qed simp

lemma put_master_fields [simp]:
  "masterCounter (put_master bs p) = masterCounter p" "slaveCounter (put_master bs p) = slaveCounter p"
  "tstate (put_master bs p) = tstate p" "slaveBuffer (put_master bs p) = slaveBuffer p"
  "slavePut (put_master bs p) = slavePut p" "slaveFetch (put_master bs p) = slaveFetch p"
  "lineBuffer (put_master bs p) = lineBuffer p" "lineSize (put_master bs p) = lineSize p"
  "sid (put_master bs p) = sid p" "pgid (put_master bs p) = pgid p" "sides (put_master bs p) = sides p"
  "tcalls (put_master bs p) = tcalls p" "masterFetch (put_master bs p) = masterFetch p"
  by (simp_all add: put_master_def split: prod.splits)

lemma put_slave_fields [simp]:
  "masterCounter (put_slave bs p) = masterCounter p" "slaveCounter (put_slave bs p) = slaveCounter p"
  "tstate (put_slave bs p) = tstate p" "masterBuffer (put_slave bs p) = masterBuffer p"
  "masterPut (put_slave bs p) = masterPut p" "masterFetch (put_slave bs p) = masterFetch p"
  "lineBuffer (put_slave bs p) = lineBuffer p" "lineSize (put_slave bs p) = lineSize p"
  "sid (put_slave bs p) = sid p" "pgid (put_slave bs p) = pgid p" "sides (put_slave bs p) = sides p"
  "tcalls (put_slave bs p) = tcalls p" "slaveFetch (put_slave bs p) = slaveFetch p"
  by (simp_all add: put_slave_def split: prod.splits)

lemma put_wf: "tty_wf p \<Longrightarrow> tty_wf (put_master bs p)" "tty_wf p \<Longrightarrow> tty_wf (put_slave bs p)"
proof -
  assume wf: "tty_wf p"
  obtain b w where m: "ring_put TERM_BUFFER_SIZE bs (masterBuffer p, masterPut p) = (b, w)" by fastforce
  from ring_put_bounds [OF _ _ m] wf show "tty_wf (put_master bs p)"
    by (simp add: put_master_def m tty_wf_def)
  obtain b w where s: "ring_put TERM_BUFFER_SIZE bs (slaveBuffer p, slavePut p) = (b, w)" by fastforce
  from ring_put_bounds [OF _ _ s] wf show "tty_wf (put_slave bs p)"
    by (simp add: put_slave_def s tty_wf_def)
qed

lemma line_wf:
  "tty_wf p \<Longrightarrow> n < TERM_BUFFER_SIZE \<Longrightarrow> length b = TERM_BUFFER_SIZE \<Longrightarrow> tty_wf (p\<lparr>lineSize := n\<rparr>) \<and>
     tty_wf (p\<lparr>lineBuffer := b, lineSize := n\<rparr>) \<and> tty_wf (p\<lparr>tcalls := l\<rparr>) \<and> tty_wf (p\<lparr>lineSize := n, tcalls := l\<rparr>)"
  by (simp add: tty_wf_def)

text \<open>No character makes the terminal write outside its buffers.\<close>

lemma ptm_signal_wf: "tty_wf p \<Longrightarrow> tty_wf (fst (ptm_signal c b n (p, m, s)))"
proof -
  assume "tty_wf p"
  then have "tty_wf (p\<lparr>lineSize := 0, tcalls := l\<rparr>)" for l by (simp add: tty_wf_def)
  then show ?thesis by (simp add: ptm_signal_def Let_def put_wf)
qed

lemma ptm_canon_wf: "tty_wf p \<Longrightarrow> tty_wf (fst (ptm_canon c (p, m, s)))"
proof -
  assume wf: "tty_wf p"
  have del: "tty_wf (p\<lparr>lineSize := lineSize p - 1\<rparr>)" using wf by (auto simp: tty_wf_def)
  have app: "tty_wf (p\<lparr>lineBuffer := (lineBuffer p)[lineSize p := c], lineSize := lineSize p + 1\<rparr>)"
    if "lineSize p < TERM_BUFFER_SIZE - 1" using wf that by (simp add: tty_wf_def)
  have nl: "tty_wf (put_slave x (p\<lparr>lineBuffer := (lineBuffer p)[lineSize p := 10], lineSize := lineSize p + 1\<rparr>)\<lparr>lineSize := 0\<rparr>)"
    for x
  proof -
    have "tty_wf (put_slave x (p\<lparr>lineBuffer := (lineBuffer p)[lineSize p := 10], lineSize := 0\<rparr>))"
      using wf by (intro put_wf) (simp add: tty_wf_def)
    moreover have "put_slave x (p\<lparr>lineBuffer := b, lineSize := n\<rparr>)\<lparr>lineSize := 0\<rparr> =
        put_slave x (p\<lparr>lineBuffer := b, lineSize := 0\<rparr>)" for b n
      by (simp add: put_slave_def split: prod.splits)
    ultimately show ?thesis by simp
  qed
  show ?thesis
    using wf del app nl by (simp add: ptm_canon_def Let_def put_wf)
qed

lemma ptm_raw_wf: "tty_wf p \<Longrightarrow> tty_wf (fst (ptm_raw c (p, m, s)))"
  by (simp add: ptm_raw_def Let_def put_wf)

lemma ptm_char_wf: "tty_wf (fst st) \<Longrightarrow> tty_wf (fst (ptm_char c st))"
  by (cases st) (simp add: ptm_char_def Let_def ptm_signal_wf ptm_canon_wf ptm_raw_wf)

lemma fold_char_wf: "tty_wf (fst st) \<Longrightarrow> tty_wf (fst (fold ptm_char bs st))"
  by (induction bs arbitrary: st) (simp_all add: ptm_char_wf)

lemma ptm_char_counts:
  assumes "0 \<le> fst (snd st)" and "0 \<le> snd (snd st)"
  shows "0 \<le> fst (snd (ptm_char c st))" and "0 \<le> snd (snd (ptm_char c st))"
  using assms by (cases st; simp add: ptm_char_def ptm_signal_def ptm_canon_def ptm_raw_def Let_def)+

text \<open>Canonical mode follows \<open>canon\<close>.\<close>

abbreviation slave_ring :: "PseudoTerm \<Rightarrow> u8 list \<Rightarrow> bool" where
  "slave_ring p data \<equiv> ring TERM_BUFFER_SIZE (slaveBuffer p) (slaveFetch p) (slavePut p) data"

abbreviation master_ring :: "PseudoTerm \<Rightarrow> u8 list \<Rightarrow> bool" where
  "master_ring p data \<equiv> ring TERM_BUFFER_SIZE (masterBuffer p) (masterFetch p) (masterPut p) data"

lemma put_slave_ring:
  assumes "slave_ring p data" and "length data + length bs \<le> TERM_BUFFER_SIZE"
  shows "slave_ring (put_slave bs p) (data @ bs)"
proof -
  obtain b w where r: "ring_put TERM_BUFFER_SIZE bs (slaveBuffer p, slavePut p) = (b, w)" by fastforce
  from ring_put_ring [OF assms r] r show ?thesis by (simp add: put_slave_def)
qed

lemma line_of_length: "tty_wf p \<Longrightarrow> length (line_of p) = lineSize p"
  by (simp add: line_of_def tty_wf_def)

definition canonical :: "PseudoTerm \<Rightarrow> u8 list \<Rightarrow> bool" where
  "canonical p bs \<longleftrightarrow> has (c_lflag (tstate p)) ICANON \<and>
     (has (c_lflag (tstate p)) ISIG \<longrightarrow> CC_VINTR \<notin> set bs \<and> CC_VKILL \<notin> set bs)"

text \<open>One character: \<open>out\<close> are the bytes that it delivers.\<close>

lemma ptm_char_canon:
  assumes wf: "tty_wf p" and can: "canonical p [c]" and run: "ptm_char c (p, m, s) = (p', m', s')"
    and line: "canon (line_of p) [c] = (line', out)"
    and ring: "slave_ring p data" "length data + length out \<le> TERM_BUFFER_SIZE"
  shows "line_of p' = line' \<and> slave_ring p' (data @ out) \<and> s' = s + int (length out) \<and>
    tstate p' = tstate p \<and> masterCounter p' = masterCounter p \<and> slaveCounter p' = slaveCounter p"
proof -
  from run can have run: "ptm_canon c (p, m, s) = (p', m', s')"
    by (auto simp: ptm_char_def canonical_def Let_def split: if_splits)
  have n: "lineSize p < length (lineBuffer p)" using wf by (simp add: tty_wf_def)
  have l: "length (line_of p) = lineSize p" using wf by (rule line_of_length)
  consider (bs) "c = 8" | (nl) "c = 10 \<or> c = 13" "c \<noteq> 8" | (ch) "c \<noteq> 8" "c \<noteq> 10" "c \<noteq> 13" by blast
  then show ?thesis
  proof cases
    case bs
    with line have o: "out = []" "line' = butlast (line_of p)" by auto
    show ?thesis
    proof (cases "lineSize p = 0")
      case True
      with run bs o l ring show ?thesis by (simp add: ptm_canon_def)
    next
      case False
      have "take (lineSize p - 1) (lineBuffer p) = butlast (line_of p)"
        using n by (simp add: line_of_def butlast_take)
      with False run bs o ring show ?thesis
        by (auto simp: ptm_canon_def Let_def line_of_def split: if_splits)
    qed
  next
    case nl
    with line have o: "out = line_of p @ [10]" "line' = []" by auto
    let ?p = "p\<lparr>lineBuffer := (lineBuffer p)[lineSize p := 10], lineSize := lineSize p + 1\<rparr>"
    have t: "take (lineSize p + 1) ((lineBuffer p)[lineSize p := 10]) = out"
      using n by (simp add: o line_of_def take_Suc_conv_app_nth)
    then have t': "take (Suc (lineSize p)) ((lineBuffer p)[lineSize p := 10]) = out" by simp
    have r: "slave_ring (put_slave out ?p) (data @ out)"
      using ring by (intro put_slave_ring) simp_all
    have len: "int (length out) = int (lineSize p) + 1" using l by (simp add: o)
    from run nl have "p' = put_slave out ?p\<lparr>lineSize := 0\<rparr> \<or> p' = put_master [10] (put_slave out ?p\<lparr>lineSize := 0\<rparr>)"
      and "s' = s + int (length out)"
      by (auto simp: ptm_canon_def Let_def t' len split: if_splits)
    with r o show ?thesis by (auto simp: line_of_def)
  next
    case ch
    with line l have o: "out = []" "line' = (if lineSize p < 4095 then line_of p @ [c] else line_of p)" by auto
    have "take (Suc (lineSize p)) ((lineBuffer p)[lineSize p := c]) = line_of p @ [c]"
      using n by (simp add: line_of_def take_Suc_conv_app_nth)
    with run ch o ring show ?thesis
      by (auto simp: ptm_canon_def Let_def line_of_def split: if_splits)
  qed
qed

lemma canon_Cons:
  "canon line (c # cs) = (case canon line [c] of (l, d) \<Rightarrow> case canon l cs of (l', d') \<Rightarrow> (l', d @ d'))"
  by (auto split: prod.splits)

lemma ptm_fold_canon:
  assumes "tty_wf p" and "canonical p bs" and "fold ptm_char bs (p, m, s) = (p', m', s')"
    and "canon (line_of p) bs = (line', out)"
    and "slave_ring p data" "length data + length out \<le> TERM_BUFFER_SIZE"
  shows "tty_wf p' \<and> line_of p' = line' \<and> slave_ring p' (data @ out) \<and> s' = s + int (length out) \<and>
    masterCounter p' = masterCounter p \<and> slaveCounter p' = slaveCounter p"
  using assms
proof (induction bs arbitrary: p m s data out)
  case (Cons c bs)
  obtain p1 m1 s1 where c: "ptm_char c (p, m, s) = (p1, m1, s1)" by (cases "ptm_char c (p, m, s)") auto
  obtain l1 o1 where l1: "canon (line_of p) [c] = (l1, o1)" by fastforce
  obtain o2 where l2: "canon l1 bs = (line', o2)" "out = o1 @ o2"
    using Cons.prems(4) l1 unfolding canon_Cons [of _ c bs] by (auto split: prod.splits)
  have "canonical p [c]" using Cons.prems(2) by (auto simp: canonical_def)
  from ptm_char_canon [OF Cons.prems(1) this c l1 Cons.prems(5)] Cons.prems(6) l2
  have s1: "line_of p1 = l1" "slave_ring p1 (data @ o1)" "s1 = s + int (length o1)" "tstate p1 = tstate p"
    "masterCounter p1 = masterCounter p" "slaveCounter p1 = slaveCounter p" by auto
  have "tty_wf p1" using ptm_char_wf [of "(p, m, s)" c] Cons.prems(1) c by simp
  moreover have "canonical p1 bs" using Cons.prems(2) s1(4) by (auto simp: canonical_def)
  moreover have "fold ptm_char bs (p1, m1, s1) = (p', m', s')" using Cons.prems(3) c by simp
  moreover have "canon (line_of p1) bs = (line', o2)" using l2 s1 by simp
  moreover have "length (data @ o1) + length o2 \<le> TERM_BUFFER_SIZE" using Cons.prems(6) l2 by simp
  ultimately show ?case using Cons.IH [of p1 m1 s1 o2 "data @ o1"] s1 l2 by simp
qed simp

lemma ptm_char_echo: "fst (snd (ptm_char c st)) \<le> fst (snd st) + 2"
  by (cases st) (simp add: ptm_char_def ptm_signal_def ptm_canon_def ptm_raw_def Let_def)

lemma fold_char_echo: "fst (snd (fold ptm_char bs st)) \<le> fst (snd st) + 2 * int (length bs)"
proof (induction bs arbitrary: st)
  case (Cons c bs)
  from Cons.IH [of "ptm_char c st"] ptm_char_echo [of c st] show ?case by simp
qed simp

lemma fold_char_nonneg:
  "0 \<le> fst (snd st) \<Longrightarrow> 0 \<le> snd (snd st) \<Longrightarrow>
     0 \<le> fst (snd (fold ptm_char bs st)) \<and> 0 \<le> snd (snd (fold ptm_char bs st))"
  by (induction bs arbitrary: st) (simp_all add: ptm_char_counts)

section \<open>A terminal in use\<close>

text \<open>
  \<open>tty_reach p\<close>: \<open>p\<close> is a state of a terminal after some sequence of the operations of both
  sides, with any results of the waits and any callers.
\<close>

inductive tty_reach :: "PseudoTerm \<Rightarrow> bool" where
  open_master: "length mem = TERM_BUFFER_SIZE \<Longrightarrow> ptmx_open a mem added k = Ok (p, k') \<Longrightarrow> tty_reach p"
| write_master: "tty_reach p \<Longrightarrow> ptm_write bs p k = Ok (r, p', k') \<Longrightarrow> tty_reach p'"
| read_master: "tty_reach p \<Longrightarrow> ptm_read cnt p = (r, p') \<Longrightarrow> tty_reach p'"
| close_master: "tty_reach p \<Longrightarrow> tty_reach (ptm_close p)"
| write_slave: "tty_reach p \<Longrightarrow> pts_write bs p k = Ok (r, p', k') \<Longrightarrow> tty_reach p'"
| read_slave: "tty_reach p \<Longrightarrow> pts_read cnt p = (r, p') \<Longrightarrow> tty_reach p'"
| open_slave: "tty_reach p \<Longrightarrow> pts_open oflags s g p = (r, p') \<Longrightarrow> tty_reach p'"
| ioctl_slave: "tty_reach p \<Longrightarrow> pts_ioctl cmd s threads p = (r', p') \<Longrightarrow> tty_reach p'"
| free_slave: "tty_reach p \<Longrightarrow> tty_reach (pts_free p)"

inductive_cases tty_reachE: "tty_reach p"

lemma ring_get_bound: "0 < N \<Longrightarrow> r < N \<Longrightarrow> ring_get N n buf r = (bs, r') \<Longrightarrow> r' < N"
proof (induction n arbitrary: r bs)
  case (Suc n)
  have "(r + 1) mod N < N" using Suc.prems(1) by (rule mod_less_divisor)
  with Suc.IH [of "(r + 1) mod N"] Suc.prems show ?case by (auto split: prod.splits)
qed simp

lemma tty_reach_wf: "tty_reach p \<Longrightarrow> tty_wf p"
proof (induction rule: tty_reach.induct)
  case (open_master mem a added k p k')
  then show ?case by (auto simp: ptmx_open_def Let_def tty_wf_def split: if_splits)
next
  case (write_master p bs k r p' k')
  then have "p' = p \<or> p' = fst (fold ptm_char bs (p, 0, 0))"
    by (auto simp: ptm_write_def kbind_Ok_iff split: if_splits prod.splits)
  with write_master(3) fold_char_wf [of "(p, 0, 0)" bs] show ?case by auto
next
  case (read_master p cnt r p')
  then show ?case
    by (auto simp: ptm_read_def tty_wf_def split: if_splits prod.splits dest: ring_get_bound [rotated 2])
next
  case (write_slave p bs k r p' k')
  then show ?case by (auto simp: pts_write_def kbind_Ok_iff put_wf)
next
  case (read_slave p cnt r p')
  then show ?case
    by (auto simp: pts_read_def tty_wf_def split: if_splits prod.splits dest: ring_get_bound [rotated 2])
next
  case (open_slave p oflags s g r p')
  then show ?case by (auto simp: pts_open_def tty_wf_def split: if_splits)
next
  case (ioctl_slave p cmd s threads r' p')
  then show ?case
    by (auto simp: pts_ioctl_def tty_wf_def split: tty_cmd.splits if_splits option.splits)
qed (simp_all add: ptm_close_def pts_free_def tty_wf_def Let_def)

section \<open>Properties\<close>

text \<open>C9: canonical mode: what the master writes is edited as the reference \<open>canon\<close> says; the
  completed lines, and only they, are appended to what the slave can read, and its semaphore
  grows by their length, as long as the slave's buffer has room for them.\<close>
theorem ptm_write_canonical:
  assumes "tty_wf p" and "canonical p bs" and "sid p \<noteq> 0" and "length bs < 2 ^ 29"
    and "canon (line_of p) bs = (line', out)" and "slave_ring p data"
    and "length data + length out \<le> TERM_BUFFER_SIZE"
    and "masterCounter p \<noteq> slaveCounter p" and "\<not> terminated k (slaveCounter p)"
    and "0 \<le> count k (slaveCounter p)" and "count k (slaveCounter p) \<le> int TERM_BUFFER_SIZE"
  shows "\<exists>p' k'. ptm_write bs p k = Ok (TtyRet (int (length bs)), p', k') \<and> line_of p' = line' \<and>
    slave_ring p' (data @ out) \<and> count k' (slaveCounter p) = count k (slaveCounter p) + int (length out)"
proof -
  obtain p' m s where f: "fold ptm_char bs (p, 0, 0) = (p', m, s)" by (cases "fold ptm_char bs (p, 0, 0)") auto
  note q = ptm_fold_canon [OF assms(1,2) f assms(5,6,7)]
  from fold_char_echo [of bs "(p, 0, 0)"] fold_char_nonneg [of "(p, 0, 0)" bs] f
  have m: "0 \<le> m" "m \<le> 2 * int (length bs)" by auto
  with assms(4) have m': "c_int m = m" by (intro c_int_id) auto
  from assms(7) q have "c_int s = int (length out)" by (simp add: c_int_id)
  moreover obtain k1 where k1: "semSignal2 (masterCounter p) m k = Ok k1"
    "count k1 (slaveCounter p) = count k (slaveCounter p)" "\<not> terminated k1 (slaveCounter p)"
    using m(1) assms(8,9)
    by (cases "m = 0"; cases "terminated k (masterCounter p)") (simp_all add: semSignal2_def)
  moreover have "c_int (count k (slaveCounter p) + int (length out)) = count k (slaveCounter p) + int (length out)"
    using assms(7,10,11) by (intro c_int_id) auto
  with k1 have "\<exists>k2. semSignal2 (slaveCounter p) (int (length out)) k1 = Ok k2 \<and>
      count k2 (slaveCounter p) = count k (slaveCounter p) + int (length out)"
    by (auto simp: semSignal2_def)
  ultimately show ?thesis using f q m' assms(3) by (auto simp: ptm_write_def)
qed

definition tty_demo :: PseudoTerm where
  "tty_demo = \<lparr>masterCounter = 2, slaveCounter = 3,
     tstate = \<lparr>c_iflag = 0, c_oflag = 0, c_cflag = 0, c_lflag = ICANON OR ECHO, c_cc = []\<rparr>,
     masterBuffer = replicate TERM_BUFFER_SIZE 0, masterPut = 0, masterFetch = 0,
     slaveBuffer = replicate TERM_BUFFER_SIZE 0, slavePut = 0, slaveFetch = 0,
     lineBuffer = replicate TERM_BUFFER_SIZE 0, lineSize = 0, sid = 1, pgid = 1, sides = 3, tcalls = []\<rparr>"

lemma tty_demo_facts: "tty_wf tty_demo" "slave_ring tty_demo []" "master_ring tty_demo []" "line_of tty_demo = []"
  by (simp_all add: tty_wf_def tty_demo_def ring_empty line_of_def)

theorem ptm_write_canonical_witness:
  "\<exists>p' k'. ptm_write [104, 105, 106, 8, 13, 111] tty_demo (ss_k (sem_start 3 0)) = Ok (TtyRet 6, p', k') \<and>
    line_of p' = [111] \<and> slave_ring p' [104, 105, 10] \<and> count k' 3 = 3"
  using ptm_write_canonical [of tty_demo "[104, 105, 106, 8, 13, 111]" "[111]" "[104, 105, 10]" "[]" "ss_k (sem_start 3 0)"]
    tty_demo_facts
  by (auto simp: tty_demo_def canonical_def has_def sem_start_def semInit2_def k_simps)

text \<open>The buffers of a terminal are never accessed out of bounds: in every state that the
  operations of the two sides can reach, all offsets lie in their buffers and the line being
  edited leaves room for its newline.\<close>
theorem tty_bounds:
  assumes "tty_reach p"
  shows "length (masterBuffer p) = TERM_BUFFER_SIZE \<and> masterPut p < TERM_BUFFER_SIZE \<and>
    masterFetch p < TERM_BUFFER_SIZE \<and> length (slaveBuffer p) = TERM_BUFFER_SIZE \<and>
    slavePut p < TERM_BUFFER_SIZE \<and> slaveFetch p < TERM_BUFFER_SIZE \<and>
    length (lineBuffer p) = TERM_BUFFER_SIZE \<and> lineSize p < TERM_BUFFER_SIZE"
  using tty_reach_wf [OF assms] by (simp add: tty_wf_def)

theorem tty_bounds_witness:
  "\<exists>p k. ptmx_open 2 (replicate TERM_BUFFER_SIZE 0) True (ss_k (sem_start 3 0)) = Ok (p, k) \<and>
    lineSize (ptm_close p) < TERM_BUFFER_SIZE"
proof -
  obtain p k where o: "ptmx_open 2 (replicate TERM_BUFFER_SIZE 0) True (ss_k (sem_start 3 0)) = Ok (p, k)"
    by (auto simp: ptmx_open_def Let_def)
  then have "tty_reach (ptm_close p)" by (intro tty_reach.close_master tty_reach.open_master [OF _ o]) simp
  from tty_bounds [OF this] o show ?thesis by auto
qed

text \<open>The slave can overrun the master's buffer: writing \<open>4096 + n\<close> bytes makes that many bytes
  readable, but the first \<open>n\<close> bytes that the master then reads are the last \<open>n\<close> written: the
  first ones are lost.\<close>
theorem pts_write_overrun:
  assumes "tty_wf p" and "masterFetch p = masterPut p" and "length bs = TERM_BUFFER_SIZE + n"
    and "1 \<le> n" and "n \<le> TERM_BUFFER_SIZE" and "\<not> terminated k (masterCounter p)" and "count k (masterCounter p) = 0"
  shows "\<exists>p' k'. pts_write bs p k = Ok (TtyRet (int (length bs)), p', k') \<and>
    count k' (masterCounter p) = int (length bs) \<and> fst (ptm_read (int n) p') = TtyBytes (drop TERM_BUFFER_SIZE bs)"
proof -
  let ?N = TERM_BUFFER_SIZE
  obtain b w where f1: "ring_put ?N (take ?N bs) (masterBuffer p, masterPut p) = (b, w)" by fastforce
  obtain b' w' where f2: "ring_put ?N (drop ?N bs) (b, w) = (b', w')" by fastforce
  have r0: "ring ?N (masterBuffer p) (masterPut p) (masterPut p) []"
    using assms(1) by (intro ring_empty) (simp_all add: tty_wf_def)
  have "ring ?N b (masterPut p) w (take ?N bs)"
    using ring_put_ring [OF r0 _ f1] assms(3) by simp
  then have w: "w = masterPut p" "length b = ?N" "masterPut p < ?N" using assms(3) by (auto simp: ring_def)
  have "ring ?N b' w w' (drop ?N bs)"
    using ring_put_ring [OF ring_empty [OF w(2), of w] _ f2] w assms(3,5) by simp
  from ring_get_ring [OF this, of n] obtain r' where get: "ring_get ?N n b' w = (drop ?N bs, r')"
    using assms(3) by (metis diff_add_inverse length_drop order_refl take_all)
  have "ring_put ?N bs (masterBuffer p, masterPut p) = (b', w')"
    using ring_put_append [of ?N "take ?N bs" "drop ?N bs"] f1 f2 by simp
  then have "put_master bs p = p\<lparr>masterBuffer := b', masterPut := w'\<rparr>" by (simp add: put_master_def)
  moreover have c: "c_int (int (length bs)) = int (length bs)" using assms(3,5) by (simp add: c_int_id)
  ultimately show ?thesis using assms(2-7) get w(1)
    by (auto simp: pts_write_def semSignal2_def ptm_read_def)
qed

theorem pts_write_overrun_witness:
  "\<exists>p' k'. pts_write (replicate TERM_BUFFER_SIZE 65 @ [66]) tty_demo (ss_k (sem_start 2 0)) = Ok (TtyRet 4097, p', k') \<and>
    fst (ptm_read 1 p') = TtyBytes [66]"
  using pts_write_overrun [of tty_demo "replicate TERM_BUFFER_SIZE 65 @ [66]" 1 "ss_k (sem_start 2 0)"] tty_demo_facts
  by (auto simp: tty_demo_def sem_start_def semInit2_def k_simps has_def)

text \<open>The foreground group of a terminal changes only to a group of the terminal's own session,
  on the request of a member of that session; every other request leaves it as it is.\<close>
theorem pts_ioctl_pgid:
  "pgid (snd (pts_ioctl cmd my_sid threads p)) \<noteq> pgid p \<Longrightarrow>
   \<exists>g. cmd = SetPgid g \<and> pgid (snd (pts_ioctl cmd my_sid threads p)) = g \<and> my_sid = sid p \<and>
     Some (g, sid p) \<in> set threads \<and> fst (pts_ioctl cmd my_sid threads p) = IoOk"
proof -
  have f: "find_group g ts = Some (h, s) \<Longrightarrow> h = g \<and> Some (g, s) \<in> set ts" for g h s ts
    by (induction g ts rule: find_group.induct) (auto split: if_splits)
  assume "pgid (snd (pts_ioctl cmd my_sid threads p)) \<noteq> pgid p"
  then show ?thesis
    by (auto simp: pts_ioctl_def split: tty_cmd.splits if_splits option.splits dest: f)
qed

theorem pts_ioctl_pgid_witness:
  "pts_ioctl (SetPgid 5) 1 [Some (1, 1), None, Some (5, 1)] tty_demo = (IoOk, tty_demo\<lparr>pgid := 5\<rparr>) \<and>
   Some (5, 1) \<in> set [Some (1, 1), None, Some (5, 1 :: int)]"
  using pts_ioctl_pgid [of "SetPgid 5" 1 "[Some (1, 1), None, Some (5, 1)]" tty_demo]
  by (simp add: pts_ioctl_def tty_demo_def)

end
