(* ===== verification/Gx_RangeLock.thy ===== *)
theory Gx_RangeLock
  imports Gx_Semaphore
begin

text \<open>
  \<open>kernel/src/thread/rlock.c\<close>: locks on ranges of an ordered set of units, used for file
  locks. The locked ranges are structs on a doubly linked list, modelled with their
  pointers; the pending requests are the list of the addresses of their semaphores. What
  runs under \<open>rl->lock\<close> is one step, and \<open>rlSet\<close> is cut where it waits for its request.
\<close>

section \<open>Data\<close>

abbreviation RL_UNLOCK :: nat where "RL_UNLOCK \<equiv> 0"
abbreviation RL_READ :: nat where "RL_READ \<equiv> 1"
abbreviation RL_WRITE :: nat where "RL_WRITE \<equiv> 2"

record LockedRange =
  lr_prev :: "nat option"
  lr_next :: "nat option"
  lr_type :: nat
  lr_key :: u64
  lr_start :: u64
  lr_size :: u64

record RangeLock =
  rl_heap :: "nat \<Rightarrow> LockedRange"
  rl_ranges :: "nat option"
  rl_requests :: "nat list"
  rl_new :: nat \<comment> \<open>the address that the next \<open>NEW(LockedRange)\<close> returns\<close>

definition rlInit :: "RangeLock \<Rightarrow> RangeLock" where
  "rlInit rl = rl\<lparr>rl_ranges := None, rl_requests := []\<rparr>"

definition set_lr :: "nat \<Rightarrow> (LockedRange \<Rightarrow> LockedRange) \<Rightarrow> (nat \<Rightarrow> LockedRange) \<Rightarrow> nat \<Rightarrow> LockedRange" where
  "set_lr p f h = h(p := f (h p))"

section \<open>Unlocking\<close>

text \<open>Case 1 of the loop: the range leaves the list.\<close>

definition lr_unlink :: "nat \<Rightarrow> (nat \<Rightarrow> LockedRange) \<Rightarrow> nat option \<Rightarrow> (nat \<Rightarrow> LockedRange) \<times> nat option" where
  "lr_unlink r h first =
     (let h = (case lr_prev (h r) of None \<Rightarrow> h | Some p \<Rightarrow> set_lr p (\<lambda>x. x\<lparr>lr_next := lr_next (h r)\<rparr>) h);
          h = (case lr_next (h r) of None \<Rightarrow> h | Some n \<Rightarrow> set_lr n (\<lambda>x. x\<lparr>lr_prev := lr_prev (h r)\<rparr>) h)
      in (h, if first = Some r then lr_next (h r) else first))"

text \<open>Case 4: the upper part becomes a range of its own, at \<open>a\<close>.\<close>

definition lr_split :: "nat \<Rightarrow> nat \<Rightarrow> u64 \<Rightarrow> u64 \<Rightarrow> u64 \<Rightarrow> (nat \<Rightarrow> LockedRange) \<Rightarrow> nat \<Rightarrow> LockedRange" where
  "lr_split a r key start sz h =
     (let rightSize = (lr_start (h r) + lr_size (h r)) - (start + sz);
          h = set_lr r (\<lambda>x. x\<lparr>lr_size := start - lr_start x\<rparr>) h;
          h = set_lr a (\<lambda>x. x\<lparr>lr_next := lr_next (h r), lr_prev := Some r\<rparr>) h;
          h = set_lr r (\<lambda>x. x\<lparr>lr_next := Some a\<rparr>) h
      in set_lr a (\<lambda>x. x\<lparr>lr_type := lr_type (h r), lr_key := key, lr_start := start + sz, lr_size := rightSize\<rparr>) h)"

partial_function (option) unlock_loop ::
    "u64 \<Rightarrow> u64 \<Rightarrow> u64 \<Rightarrow> nat option \<Rightarrow> RangeLock \<Rightarrow> RangeLock option" where
  "unlock_loop key start sz cur rl =
     (case cur of
        None \<Rightarrow> Some rl
      | Some r \<Rightarrow>
          let x = rl_heap rl r in
          if lr_key x \<noteq> key then unlock_loop key start sz (lr_next x) rl
          else if lr_start x \<ge> start \<and> lr_start x + lr_size x \<le> start + sz then
            (case lr_unlink r (rl_heap rl) (rl_ranges rl) of
               (h, first) \<Rightarrow> unlock_loop key start sz (lr_next (h r)) (rl\<lparr>rl_heap := h, rl_ranges := first\<rparr>))
          else if lr_start x \<ge> start \<and> lr_start x + lr_size x \<ge> start + sz then
            let delta = start + sz - lr_start x
            in unlock_loop key start sz (lr_next x)
                 (rl\<lparr>rl_heap := set_lr r (\<lambda>x. x\<lparr>lr_start := lr_start x + delta, lr_size := lr_size x - delta\<rparr>) (rl_heap rl)\<rparr>)
          else if lr_start x \<le> start \<and> lr_start x + lr_size x \<le> start + sz then
            let delta = lr_start x + lr_size x - start
            in unlock_loop key start sz (lr_next x)
                 (rl\<lparr>rl_heap := set_lr r (\<lambda>x. x\<lparr>lr_size := lr_size x - delta\<rparr>) (rl_heap rl)\<rparr>)
          else if lr_start x < start \<and> lr_start x + lr_size x > start + sz then
            unlock_loop key start sz (lr_next x)
              (rl\<lparr>rl_heap := lr_split (rl_new rl) r key start sz (rl_heap rl), rl_new := rl_new rl + 1\<rparr>)
          else unlock_loop key start sz (lr_next x) rl)"

text \<open>Every pending request is taken off the queue and its semaphore signalled.\<close>

fun notify_requests :: "nat option \<Rightarrow> nat list \<Rightarrow> kern \<Rightarrow> kern kres" where
  "notify_requests cur [] k = Ok k"
| "notify_requests cur (rq # rqs) k = kbind (semSignal cur rq k) (notify_requests cur rqs)"

datatype rl_out =
    RlRet int RangeLock kern
  | RlWait nat RangeLock kern \<comment> \<open>waits on the semaphore of its request\<close>
  | RlPanic
  | RlHang

definition rlUnlock :: "nat option \<Rightarrow> u64 \<Rightarrow> u64 \<Rightarrow> u64 \<Rightarrow> RangeLock \<Rightarrow> kern \<Rightarrow> rl_out" where
  "rlUnlock cur key start sz rl k =
     (case unlock_loop key start sz (rl_ranges rl) rl of
        None \<Rightarrow> RlHang
      | Some rl \<Rightarrow>
          (case notify_requests cur (rl_requests rl) k of
             Panic \<Rightarrow> RlPanic
           | Ok k \<Rightarrow> RlRet 0 (rl\<lparr>rl_requests := []\<rparr>) k))"

definition rlReleaseKey :: "nat option \<Rightarrow> u64 \<Rightarrow> RangeLock \<Rightarrow> kern \<Rightarrow> rl_out" where
  "rlReleaseKey cur key rl k = rlUnlock cur key 0 0xFFFFFFFFFFFFFFFF rl k"

section \<open>Locking\<close>

datatype scan_out = ScanDead | ScanFound | ScanFree "nat option"

definition overlaps :: "LockedRange \<Rightarrow> u64 \<Rightarrow> u64 \<Rightarrow> bool" where
  "overlaps x start sz \<longleftrightarrow> lr_start x + lr_size x > start \<and> lr_start x < start + sz"

partial_function (option) scan_loop ::
    "nat \<Rightarrow> u64 \<Rightarrow> u64 \<Rightarrow> u64 \<Rightarrow> (nat \<Rightarrow> LockedRange) \<Rightarrow> nat option \<Rightarrow> nat option \<Rightarrow> scan_out option" where
  "scan_loop type key start sz h cur placeAfter =
     (case cur of
        None \<Rightarrow> Some (ScanFree placeAfter)
      | Some r \<Rightarrow>
          let x = h r; placeAfter = (if lr_start x < start then Some r else placeAfter) in
          if overlaps x start sz \<and> lr_key x = key then Some ScanDead
          else if overlaps x start sz \<and> (lr_type x = RL_WRITE \<or> type = RL_WRITE) then Some ScanFound
          else scan_loop type key start sz h (lr_next x) placeAfter)"

text \<open>The new range, at \<open>a\<close>, is put on the list.\<close>

definition lr_place :: "nat \<Rightarrow> LockedRange \<Rightarrow> nat option \<Rightarrow> (nat \<Rightarrow> LockedRange) \<Rightarrow> nat option \<Rightarrow>
    (nat \<Rightarrow> LockedRange) \<times> nat option" where
  "lr_place a x placeAfter h first =
     (case placeAfter of
        None \<Rightarrow>
          (let h = h(a := x\<lparr>lr_prev := None, lr_next := first\<rparr>);
               h = (case first of None \<Rightarrow> h | Some f \<Rightarrow> set_lr f (\<lambda>y. y\<lparr>lr_prev := Some a\<rparr>) h)
           in (h, Some a))
      | Some p \<Rightarrow>
          (let h = h(a := x\<lparr>lr_prev := Some p, lr_next := lr_next (h p)\<rparr>);
               h = set_lr p (\<lambda>y. y\<lparr>lr_next := Some a\<rparr>) h;
               h = (case lr_next (h a) of None \<Rightarrow> h | Some n \<Rightarrow> set_lr n (\<lambda>y. y\<lparr>lr_prev := Some a\<rparr>) h)
           in (h, first)))"

text \<open>One turn of \<open>while (1)\<close>; \<open>rq\<close> is where \<open>NEW(PendingRangeRequest)\<close> has its semaphore.\<close>

definition rlSet_turn :: "nat \<Rightarrow> u64 \<Rightarrow> u64 \<Rightarrow> u64 \<Rightarrow> bool \<Rightarrow> nat \<Rightarrow> RangeLock \<Rightarrow> kern \<Rightarrow> rl_out" where
  "rlSet_turn type key start sz block rq rl k =
     (case scan_loop type key start sz (rl_heap rl) (rl_ranges rl) None of
        None \<Rightarrow> RlHang
      | Some ScanDead \<Rightarrow> RlRet EDEADLK rl k
      | Some (ScanFree placeAfter) \<Rightarrow>
          (case lr_place (rl_new rl) \<lparr>lr_prev = None, lr_next = None, lr_type = type, lr_key = key,
                                      lr_start = start, lr_size = sz\<rparr>
                  placeAfter (rl_heap rl) (rl_ranges rl) of
             (h, first) \<Rightarrow> RlRet 0 (rl\<lparr>rl_heap := h, rl_ranges := first, rl_new := rl_new rl + 1\<rparr>) k)
      | Some ScanFound \<Rightarrow>
          if \<not> block then RlRet EAGAIN rl k
          else RlWait rq (rl\<lparr>rl_requests := rl_requests rl @ [rq]\<rparr>) (semInit2 rq 0 k))"

definition rlSet :: "nat option \<Rightarrow> nat \<Rightarrow> u64 \<Rightarrow> u64 \<Rightarrow> u64 \<Rightarrow> bool \<Rightarrow> nat \<Rightarrow> RangeLock \<Rightarrow> kern \<Rightarrow> rl_out" where
  "rlSet cur type key start sz block rq rl k =
     (if sz > NOT start then RlRet EOVERFLOW rl k
      else if type = RL_UNLOCK then rlUnlock cur key start sz rl k
      else rlSet_turn type key start sz block rq rl k)"

text \<open>After the wait for the request \<open>rq\<close> returned \<open>result\<close>; \<open>rq'\<close> is for a further request.\<close>

definition rlSet_resume :: "int \<Rightarrow> nat \<Rightarrow> u64 \<Rightarrow> u64 \<Rightarrow> u64 \<Rightarrow> bool \<Rightarrow> nat \<Rightarrow> nat \<Rightarrow> RangeLock \<Rightarrow> kern \<Rightarrow> rl_out" where
  "rlSet_resume result type key start sz block rq rq' rl k =
     (if result = 1 then rlSet_turn type key start sz block rq' rl k
      else RlRet EINTR (rl\<lparr>rl_requests := removeAll rq (rl_requests rl)\<rparr>) k)"

text \<open>\<open>rlGet\<close>: the values that \<open>type\<close>, \<open>key\<close>, \<open>start\<close> and \<open>size\<close> point to.\<close>

partial_function (option) get_loop ::
    "(nat \<Rightarrow> LockedRange) \<Rightarrow> nat option \<Rightarrow> nat \<times> u64 \<times> u64 \<times> u64 \<Rightarrow> (nat \<times> u64 \<times> u64 \<times> u64) option" where
  "get_loop h cur st =
     (case cur of
        None \<Rightarrow> Some st
      | Some r \<Rightarrow>
          (case st of (type, key, start, sz) \<Rightarrow>
             let x = h r in
             if lr_start x \<ge> start \<and> lr_start x + lr_size x < start \<and> (lr_type x = RL_WRITE \<or> type = RL_WRITE)
             then Some (lr_type x, lr_key x, lr_start x, lr_size x)
             else get_loop h (lr_next x) st))"

definition rlGet :: "nat \<times> u64 \<times> u64 \<times> u64 \<Rightarrow> RangeLock \<Rightarrow> (nat \<times> u64 \<times> u64 \<times> u64) option" where
  "rlGet st rl = (case st of (type, key, start, sz) \<Rightarrow> get_loop (rl_heap rl) (rl_ranges rl) (RL_UNLOCK, key, start, sz))"

section \<open>The list of ranges\<close>

named_theorems lr_simps \<open>links of the range store after an update\<close>

lemma lr_links [lr_simps]:
  "(\<lambda>q. lr_next (set_lr p (\<lambda>x. x\<lparr>lr_next := v\<rparr>) h q)) = (\<lambda>q. lr_next (h q))(p := v)"
  "(\<lambda>q. lr_prev (set_lr p (\<lambda>x. x\<lparr>lr_next := v\<rparr>) h q)) = (\<lambda>q. lr_prev (h q))"
  "(\<lambda>q. lr_next (set_lr p (\<lambda>x. x\<lparr>lr_prev := v\<rparr>) h q)) = (\<lambda>q. lr_next (h q))"
  "(\<lambda>q. lr_prev (set_lr p (\<lambda>x. x\<lparr>lr_prev := v\<rparr>) h q)) = (\<lambda>q. lr_prev (h q))(p := v)"
  by (auto simp: set_lr_def fun_eq_iff)

text \<open>What a range locks: its type, key and extent.\<close>

definition claim_of :: "LockedRange \<Rightarrow> nat \<times> u64 \<times> u64 \<times> u64" where
  "claim_of x = (lr_type x, lr_key x, lr_start x, lr_size x)"

definition lr_list :: "RangeLock \<Rightarrow> nat list \<Rightarrow> bool" where
  "lr_list rl rs \<longleftrightarrow> (\<exists>l. dll (\<lambda>r. lr_next (rl_heap rl r)) (\<lambda>r. lr_prev (rl_heap rl r)) (rl_ranges rl) l rs) \<and>
     (\<forall>r \<in> set rs. r < rl_new rl)"

fun scan_list :: "nat \<Rightarrow> u64 \<Rightarrow> u64 \<Rightarrow> u64 \<Rightarrow> (nat \<Rightarrow> LockedRange) \<Rightarrow> nat list \<Rightarrow> nat option \<Rightarrow> scan_out" where
  "scan_list type key start sz h [] pa = ScanFree pa"
| "scan_list type key start sz h (r # rs) pa =
     (if overlaps (h r) start sz \<and> lr_key (h r) = key then ScanDead
      else if overlaps (h r) start sz \<and> (lr_type (h r) = RL_WRITE \<or> type = RL_WRITE) then ScanFound
      else scan_list type key start sz h rs (if lr_start (h r) < start then Some r else pa))"

lemma scan_loop_list:
  "lpath (\<lambda>r. lr_next (h r)) p rs None \<Longrightarrow>
     scan_loop type key start sz h p pa = Some (scan_list type key start sz h rs pa)"
proof (induction rs arbitrary: p pa)
  case Nil
  then show ?case by (simp add: scan_loop.simps)
next
  case (Cons r rs)
  then show ?case by (subst scan_loop.simps) (auto simp: Let_def)
qed

definition no_wrap :: "LockedRange \<Rightarrow> bool" where
  "no_wrap x \<longleftrightarrow> lr_size x \<le> NOT (lr_start x)"

lemma no_wrap_end:
  assumes "no_wrap x"
  shows "uint (lr_start x + lr_size x) = uint (lr_start x) + uint (lr_size x)"
proof -
  have "uint (NOT (lr_start x)) = 2 ^ 64 - 1 - uint (lr_start x)"
    using uint_lt2p [of "lr_start x"]
    by (simp add: unsigned_not_eq take_bit_not_eq_mask_diff mask_eq_exp_minus_1 take_bit_int_eq_self)
  moreover from assms have "uint (lr_size x) \<le> uint (NOT (lr_start x))"
    by (simp only: no_wrap_def word_le_def)
  ultimately have "uint (lr_start x) + uint (lr_size x) < 2 ^ 64" by simp
  then show ?thesis by (simp add: uint_word_ariths)
qed

text \<open>
  The units that a range locks, and when two ranges meet: they have a unit in common, or one
  of them is empty and lies inside the other. The specification does not use the test of the code.
\<close>

definition units :: "u64 \<Rightarrow> u64 \<Rightarrow> nat set" where
  "units start sz = {u. unat start \<le> u \<and> u < unat start + unat sz}"

definition inside :: "u64 \<Rightarrow> u64 \<Rightarrow> u64 \<Rightarrow> bool" where
  "inside p start sz \<longleftrightarrow> p \<noteq> start \<and> unat p \<in> units start sz"

definition meet :: "u64 \<Rightarrow> u64 \<Rightarrow> u64 \<Rightarrow> u64 \<Rightarrow> bool" where
  "meet s1 z1 s2 z2 \<longleftrightarrow> units s1 z1 \<inter> units s2 z2 \<noteq> {} \<or>
     (z1 = 0 \<and> inside s1 s2 z2) \<or> (z2 = 0 \<and> inside s2 s1 z1)"

definition conflict :: "nat \<Rightarrow> u64 \<Rightarrow> u64 \<Rightarrow> u64 \<Rightarrow> LockedRange \<Rightarrow> bool" where
  "conflict type key start sz x \<longleftrightarrow>
     meet (lr_start x) (lr_size x) start sz \<and> (lr_key x = key \<or> lr_type x = RL_WRITE \<or> type = RL_WRITE)"

lemma meet_iff: "meet s1 z1 s2 z2 \<longleftrightarrow> unat s2 < unat s1 + unat z1 \<and> unat s1 < unat s2 + unat z2"
proof -
  have "units s1 z1 \<inter> units s2 z2 \<noteq> {} \<longleftrightarrow>
      unat s2 < unat s1 + unat z1 \<and> unat s1 < unat s2 + unat z2 \<and> 0 < unat z1 \<and> 0 < unat z2"
    (is "?l \<longleftrightarrow> ?r")
  proof
    assume ?r
    then have "max (unat s1) (unat s2) \<in> units s1 z1 \<inter> units s2 z2" by (auto simp: units_def)
    then show ?l by blast
  qed (auto simp: units_def)
  moreover have "inside p s z \<longleftrightarrow> unat s < unat p \<and> unat p < unat s + unat z" for p s z
    unfolding inside_def units_def word_unat_eq_iff by auto
  moreover have "z = 0 \<longleftrightarrow> unat z = 0" for z :: u64 by (simp add: unat_eq_0)
  ultimately show ?thesis unfolding meet_def by (simp only:) linarith
qed

text \<open>The test of the code decides it for ranges that end within the 64 bits.\<close>

lemma overlaps_meet:
  assumes "no_wrap x" and "sz \<le> NOT start"
  shows "overlaps x start sz \<longleftrightarrow> meet (lr_start x) (lr_size x) start sz"
proof -
  have e: "unat (lr_start y + lr_size y) = unat (lr_start y) + unat (lr_size y)" if "no_wrap y" for y
    using no_wrap_end [OF that] by (simp only: flip: of_nat_eq_iff [where 'a = int]) simp
  have "no_wrap (x\<lparr>lr_start := start, lr_size := sz\<rparr>)" using assms(2) by (simp add: no_wrap_def)
  from e [OF assms(1)] e [OF this] show ?thesis
    by (simp add: overlaps_def meet_iff word_less_nat_alt)
qed

lemma scan_list_free:
  assumes "\<forall>r \<in> set rs. no_wrap (h r)" and "sz \<le> NOT start" and "scan_list type key start sz h rs pa = ScanFree pa'"
  shows "(\<forall>r \<in> set rs. \<not> conflict type key start sz (h r)) \<and> (pa' = pa \<or> (\<exists>r \<in> set rs. pa' = Some r))"
  using assms
  by (induction rs arbitrary: pa) (auto simp: conflict_def overlaps_meet split: if_splits)

lemma scan_list_conflict:
  assumes "\<forall>r \<in> set rs. no_wrap (h r)" and "sz \<le> NOT start" and "scan_list type key start sz h rs pa \<in> {ScanDead, ScanFound}"
  shows "\<exists>r \<in> set rs. conflict type key start sz (h r)"
  using assms
  by (induction rs arbitrary: pa) (auto simp: conflict_def overlaps_meet split: if_splits)

lemma lr_place_list:
  assumes l: "lr_list rl rs" and a: "a = rl_new rl" and p: "pa = None \<or> (\<exists>r \<in> set rs. pa = Some r)"
    and run: "lr_place a x pa (rl_heap rl) (rl_ranges rl) = (h, first)"
  shows "\<exists>rs'. lr_list (rl\<lparr>rl_heap := h, rl_ranges := first, rl_new := a + 1\<rparr>) rs' \<and>
    set rs' = insert a (set rs) \<and> a \<notin> set rs \<and> claim_of (h a) = claim_of x \<and>
    (\<forall>r. r \<noteq> a \<longrightarrow> claim_of (h r) = claim_of (rl_heap rl r))"
proof -
  let ?h = "rl_heap rl"
  from l obtain e where d: "dll (\<lambda>r. lr_next (?h r)) (\<lambda>r. lr_prev (?h r)) (rl_ranges rl) e rs"
    and new: "\<forall>r \<in> set rs. r < rl_new rl" by (auto simp: lr_list_def)
  from new a have a': "a \<notin> set rs" by auto
  have claims: "claim_of (h a) = claim_of x \<and> (\<forall>r. r \<noteq> a \<longrightarrow> claim_of (h r) = claim_of (?h r))"
    using run by (auto simp: lr_place_def Let_def set_lr_def claim_of_def split: option.splits if_splits)
  obtain rs' e' where d': "dll (\<lambda>r. lr_next (h r)) (\<lambda>r. lr_prev (h r)) first e' rs'" "set rs' = insert a (set rs)"
  proof (cases pa)
    case None
    show ?thesis
    proof (cases "rl_ranges rl")
      case f: None
      with d have "rs = []" by simp
      with None f run that [of "Some a" "[a]"] show ?thesis by (auto simp: lr_place_def dll_def)
    next
      case (Some f)
      have fa: "f \<noteq> a" using d a' Some by (cases rs) (auto simp: dll_def)
      have "dll ((\<lambda>r. lr_next (?h r))(a := Some f)) ((\<lambda>r. lr_prev (?h r))(f := Some a, a := None)) (Some a) e (a # rs)"
        by (rule dll_prepend [OF d [unfolded Some] a'])
      moreover have "(\<lambda>r. lr_next (h r)) = (\<lambda>r. lr_next (?h r))(a := Some f)"
        "(\<lambda>r. lr_prev (h r)) = (\<lambda>r. lr_prev (?h r))(f := Some a, a := None)" "first = Some a"
        using run None Some fa by (auto simp: lr_place_def set_lr_def Let_def)
      ultimately show ?thesis by (intro that [of e "a # rs"]) simp_all
    qed
  next
    case (Some q)
    with p have "q \<in> set rs" by auto
    then obtain us vs where rs: "rs = us @ q # vs" by (meson split_list)
    with a' have qa: "q \<noteq> a" by auto
    have nq: "lr_next (?h q) = (case vs of [] \<Rightarrow> None | n # _ \<Rightarrow> Some n)"
      using dll_next_hd [OF d [unfolded rs]] .
    show ?thesis
    proof (cases vs)
      case Nil
      with d rs have "e = Some q" by (auto dest: dll_snoc_last)
      then have "dll ((\<lambda>r. lr_next (?h r))(q := Some a, a := None)) ((\<lambda>r. lr_prev (?h r))(a := Some q)) (rl_ranges rl) (Some a) (rs @ [a])"
        using dll_append [of _ _ _ q rs a] d a' by simp
      moreover have "(\<lambda>r. lr_next (h r)) = (\<lambda>r. lr_next (?h r))(q := Some a, a := None)"
        "(\<lambda>r. lr_prev (h r)) = (\<lambda>r. lr_prev (?h r))(a := Some q)" "first = rl_ranges rl"
        using run Some Nil nq qa by (auto simp: lr_place_def set_lr_def Let_def)
      ultimately show ?thesis by (intro that [of "Some a" "rs @ [a]"]) simp_all
    next
      case (Cons n ws)
      with a' rs have na: "n \<noteq> a" by auto
      have "dll ((\<lambda>r. lr_next (?h r))(a := Some n, q := Some a)) ((\<lambda>r. lr_prev (?h r))(a := Some q, n := Some a))
          (rl_ranges rl) e (us @ q # a # n # ws)"
        by (rule dll_insert) (use d a' rs Cons in auto)
      moreover have "(\<lambda>r. lr_next (h r)) = (\<lambda>r. lr_next (?h r))(a := Some n, q := Some a)"
        "(\<lambda>r. lr_prev (h r)) = (\<lambda>r. lr_prev (?h r))(a := Some q, n := Some a)" "first = rl_ranges rl"
        using run Some Cons nq qa na by (auto simp: lr_place_def set_lr_def Let_def)
      ultimately show ?thesis using rs Cons by (intro that [of e "us @ q # a # n # ws"]) auto
    qed
  qed
  then show ?thesis using claims a' new a
    by (intro exI [of _ rs']) (auto simp: lr_list_def)
qed

lemma lr_unlink_list:
  assumes l: "lr_list rl (us @ r # vs)" and run: "lr_unlink r (rl_heap rl) (rl_ranges rl) = (h, first)"
  shows "lr_list (rl\<lparr>rl_heap := h, rl_ranges := first\<rparr>) (us @ vs) \<and>
    lr_next (h r) = (case vs of [] \<Rightarrow> None | n # _ \<Rightarrow> Some n) \<and> (\<forall>q. claim_of (h q) = claim_of (rl_heap rl q))"
proof -
  let ?h = "rl_heap rl"
  from l obtain e where d: "dll (\<lambda>r. lr_next (?h r)) (\<lambda>r. lr_prev (?h r)) (rl_ranges rl) e (us @ r # vs)"
    and new: "\<forall>q \<in> set (us @ r # vs). q < rl_new rl" by (auto simp: lr_list_def)
  have nr: "lr_next (?h r) = (case vs of [] \<Rightarrow> None | n # _ \<Rightarrow> Some n)" using dll_next_hd [OF d] .
  have pr: "p \<noteq> r" if "lr_prev (?h r) = Some p" for p
    using d that by (cases us rule: rev_cases) (auto simp: dll_def)
  let ?h1 = "case lr_prev (?h r) of None \<Rightarrow> ?h | Some p \<Rightarrow> set_lr p (\<lambda>x. x\<lparr>lr_next := lr_next (?h r)\<rparr>) ?h"
  have h1: "?h1 r = ?h r" using pr by (simp add: set_lr_def split: option.split)
  have h: "h = (case lr_next (?h r) of None \<Rightarrow> ?h1 | Some n \<Rightarrow> set_lr n (\<lambda>x. x\<lparr>lr_prev := lr_prev (?h r)\<rparr>) ?h1)"
    and first: "first = (if rl_ranges rl = Some r then lr_next (?h r) else rl_ranges rl)"
    using run h1 by (auto simp: lr_unlink_def Let_def set_lr_def split: option.splits if_splits)
  have hr: "lr_next (h r) = lr_next (?h r)"
    using h1 unfolding h by (simp add: set_lr_def split: option.split)
  have n1: "(\<lambda>q. lr_next (h q)) = (case lr_prev (?h r) of None \<Rightarrow> (\<lambda>q. lr_next (?h q)) | Some p \<Rightarrow> (\<lambda>q. lr_next (?h q))(p := lr_next (?h r)))"
    and p1: "(\<lambda>q. lr_prev (h q)) = (case lr_next (?h r) of None \<Rightarrow> (\<lambda>q. lr_prev (?h q)) | Some n \<Rightarrow> (\<lambda>q. lr_prev (?h q))(n := lr_prev (?h r)))"
    unfolding h by (simp_all add: lr_simps split: option.split)
  have "\<exists>e. dll (\<lambda>q. lr_next (h q)) (\<lambda>q. lr_prev (h q)) first e (us @ vs)"
    unfolding n1 p1 first by (rule exI, rule dll_unlink [OF d])
  moreover have "claim_of (h q) = claim_of (?h q)" for q
    unfolding h by (simp add: claim_of_def set_lr_def split: option.split)
  ultimately show ?thesis using new hr nr by (auto simp: lr_list_def)
qed

lemma claim_ofD:
  "claim_of x = claim_of y \<Longrightarrow> lr_key x = lr_key y \<and> lr_type x = lr_type y \<and> lr_start x = lr_start y \<and> lr_size x = lr_size y"
  by (simp add: claim_of_def)

text \<open>Releasing a key: every range of the key is engulfed and leaves the list.\<close>

lemma release_loop:
  assumes "lr_list rl (us @ vs)" and "\<forall>r \<in> set vs. no_wrap (rl_heap rl r)"
    and "cur = (case vs of [] \<Rightarrow> None | v # _ \<Rightarrow> Some v)"
  shows "\<exists>rl'. unlock_loop key 0 0xFFFFFFFFFFFFFFFF cur rl = Some rl' \<and>
    lr_list rl' (us @ filter (\<lambda>r. lr_key (rl_heap rl r) \<noteq> key) vs) \<and>
    (\<forall>q. claim_of (rl_heap rl' q) = claim_of (rl_heap rl q)) \<and> rl_requests rl' = rl_requests rl"
  using assms
proof (induction vs arbitrary: us rl cur)
  case Nil
  then show ?case by (subst unlock_loop.simps) simp
next
  case (Cons v vs)
  let ?x = "rl_heap rl v"
  from Cons.prems(1) obtain e where "dll (\<lambda>r. lr_next (rl_heap rl r)) (\<lambda>r. lr_prev (rl_heap rl r)) (rl_ranges rl) e (us @ v # vs)"
    by (auto simp: lr_list_def)
  from dll_next_hd [OF this] have nx: "lr_next ?x = (case vs of [] \<Rightarrow> None | n # _ \<Rightarrow> Some n)" .
  show ?case
  proof (cases "lr_key ?x = key")
    case False
    have "lr_list rl ((us @ [v]) @ vs)" using Cons.prems(1) by simp
    from Cons.IH [OF this _ nx] Cons.prems(2,3) False show ?thesis by (subst unlock_loop.simps) (simp add: Let_def)
  next
    case True
    obtain h first where u: "lr_unlink v (rl_heap rl) (rl_ranges rl) = (h, first)"
      by (cases "lr_unlink v (rl_heap rl) (rl_ranges rl)")
    note l = lr_unlink_list [OF Cons.prems(1) u]
    let ?rl = "rl\<lparr>rl_heap := h, rl_ranges := first\<rparr>"
    have "lr_start ?x + lr_size ?x \<le> 0xFFFFFFFFFFFFFFFF"
      using uint_lt2p [of "lr_start ?x + lr_size ?x"] by (simp add: word_le_def)
    then have step: "unlock_loop key 0 0xFFFFFFFFFFFFFFFF cur rl = unlock_loop key 0 0xFFFFFFFFFFFFFFFF (lr_next (h v)) ?rl"
      using True Cons.prems(3) by (subst unlock_loop.simps) (simp add: Let_def u)
    have c: "claim_of (h r) = claim_of (rl_heap rl r)" for r using l by blast
    have "\<forall>r \<in> set vs. no_wrap (rl_heap ?rl r)"
      using Cons.prems(2) claim_ofD [OF c] by (simp add: no_wrap_def)
    from Cons.IH [of ?rl us "lr_next (h v)", OF _ this] l obtain rl' where
      "unlock_loop key 0 0xFFFFFFFFFFFFFFFF (lr_next (h v)) ?rl = Some rl'"
      "lr_list rl' (us @ filter (\<lambda>r. lr_key (h r) \<noteq> key) vs)"
      "\<forall>q. claim_of (rl_heap rl' q) = claim_of (h q)" "rl_requests rl' = rl_requests rl" by auto
    moreover have "lr_key (h r) = lr_key (rl_heap rl r)" for r using l claim_ofD by blast
    ultimately show ?thesis using True l step by auto
  qed
qed

section \<open>Mutual exclusion\<close>

definition clash :: "LockedRange \<Rightarrow> LockedRange \<Rightarrow> bool" where
  "clash x y \<longleftrightarrow> meet (lr_start x) (lr_size x) (lr_start y) (lr_size y) \<and>
     (lr_key x = lr_key y \<or> lr_type x = RL_WRITE \<or> lr_type y = RL_WRITE)"

definition exclusive :: "(nat \<Rightarrow> LockedRange) \<Rightarrow> nat set \<Rightarrow> bool" where
  "exclusive h R \<longleftrightarrow> (\<forall>r \<in> R. \<forall>q \<in> R. r \<noteq> q \<longrightarrow> \<not> clash (h r) (h q))"

lemma clash_sym: "clash x y = clash y x"
  by (auto simp: clash_def meet_iff)

lemma clash_claim: "claim_of x = claim_of x' \<Longrightarrow> claim_of y = claim_of y' \<Longrightarrow> clash x y = clash x' y'"
  by (auto simp: clash_def dest!: claim_ofD)

lemma exclusive_insert:
  assumes "exclusive h R" and "\<forall>r \<in> R. \<not> conflict t k s z (h r)" and "claim_of (h' a) = (t, k, s, z)"
    and "\<forall>r. r \<noteq> a \<longrightarrow> claim_of (h' r) = claim_of (h r)" and "a \<notin> R"
  shows "exclusive h' (insert a R)"
proof -
  from assms(3) have a: "lr_type (h' a) = t" "lr_key (h' a) = k" "lr_start (h' a) = s" "lr_size (h' a) = z"
    by (auto simp: claim_of_def)
  have new: "\<not> clash (h' r) (h' a)" if "r \<in> R" for r
  proof -
    from that assms(4,5) have "claim_of (h' r) = claim_of (h r)" by auto
    from claim_ofD [OF this] assms(2) that show ?thesis by (auto simp: clash_def conflict_def a)
  qed
  moreover have "\<not> clash (h' r) (h' q)" if "r \<in> R" "q \<in> R" "r \<noteq> q" for r q
  proof -
    have "claim_of (h' r) = claim_of (h r)" "claim_of (h' q) = claim_of (h q)" using that assms(4,5) by auto
    from clash_claim [OF this] assms(1) that show ?thesis by (auto simp: exclusive_def)
  qed
  ultimately show ?thesis using clash_sym by (auto simp: exclusive_def)
qed

section \<open>Properties\<close>

text \<open>C10: a lock is granted exactly when no range of the list conflicts with it, that is has a unit
  in common with it (or is empty and inside it, or the other way round) and the same key, or one
  of the two is a write lock. The new range is then on the list beside the old ones and, if no two of
  those clashed, none does now. Otherwise nothing is locked: the call fails with \<open>EDEADLK\<close> or
  \<open>EAGAIN\<close> or, if it may block, queues a request and waits. The ranges of the list end within 64
  bits, and so does the new one, which the call checks.\<close>
theorem rlSet_exclusion:
  assumes "lr_list rl rs" and "exclusive (rl_heap rl) (set rs)" and "type \<noteq> RL_UNLOCK" and "sz \<le> NOT start"
    and "\<forall>r \<in> set rs. no_wrap (rl_heap rl r)"
  shows "if \<exists>r \<in> set rs. conflict type key start sz (rl_heap rl r)
    then rlSet cur type key start sz block rq rl k \<in> {RlRet EDEADLK rl k,
      if block then RlWait rq (rl\<lparr>rl_requests := rl_requests rl @ [rq]\<rparr>) (semInit2 rq 0 k) else RlRet EAGAIN rl k}
    else \<exists>rl' rs' a. rlSet cur type key start sz block rq rl k = RlRet 0 rl' k \<and> lr_list rl' rs' \<and>
      a \<notin> set rs \<and> set rs' = insert a (set rs) \<and> claim_of (rl_heap rl' a) = (type, key, start, sz) \<and>
      (\<forall>r \<in> set rs. claim_of (rl_heap rl' r) = claim_of (rl_heap rl r)) \<and> exclusive (rl_heap rl') (set rs') \<and>
      (\<forall>r \<in> set rs'. no_wrap (rl_heap rl' r))"
proof -
  let ?h = "rl_heap rl"
  from assms(1) have "lpath (\<lambda>r. lr_next (?h r)) (rl_ranges rl) rs None" by (auto simp: lr_list_def dll_def)
  note scan = scan_loop_list [OF this, of type key start sz None]
  have set: "rlSet cur type key start sz block rq rl k = rlSet_turn type key start sz block rq rl k"
    using assms(3,4) by (auto simp: rlSet_def dest: leD)
  show ?thesis
  proof (cases "scan_list type key start sz ?h rs None")
    case (ScanFree pa)
    note f = scan_list_free [OF assms(5,4) ScanFree]
    let ?x = "\<lparr>lr_prev = None, lr_next = None, lr_type = type, lr_key = key, lr_start = start, lr_size = sz\<rparr>"
    obtain h first where p: "lr_place (rl_new rl) ?x pa ?h (rl_ranges rl) = (h, first)"
      by (cases "lr_place (rl_new rl) ?x pa ?h (rl_ranges rl)")
    from lr_place_list [OF assms(1) refl _ p] f obtain rs' where
      rs': "lr_list (rl\<lparr>rl_heap := h, rl_ranges := first, rl_new := rl_new rl + 1\<rparr>) rs'"
      "set rs' = insert (rl_new rl) (set rs)" "rl_new rl \<notin> set rs" "claim_of (h (rl_new rl)) = (type, key, start, sz)"
      "\<forall>r. r \<noteq> rl_new rl \<longrightarrow> claim_of (h r) = claim_of (?h r)"
      by (auto simp: claim_of_def)
    have "exclusive h (set rs')"
      unfolding rs'(2) using f by (intro exclusive_insert [OF assms(2) _ rs'(4,5,3)]) simp
    moreover have c: "\<forall>r \<in> set rs. claim_of (h r) = claim_of (?h r)" using rs'(3,5) by metis
    moreover have "\<forall>r \<in> set rs'. no_wrap (h r)"
      using assms(4,5) c rs'(2,4) by (auto simp: no_wrap_def claim_of_def)
    moreover have "rlSet cur type key start sz block rq rl k =
        RlRet 0 (rl\<lparr>rl_heap := h, rl_ranges := first, rl_new := rl_new rl + 1\<rparr>) k"
      unfolding set rlSet_turn_def scan ScanFree by (simp add: p)
    ultimately show ?thesis using f rs' by (subst if_not_P) (auto intro!: exI [of _ rs'] exI [of _ "rl_new rl"])
  qed (use scan_list_conflict [OF assms(5,4), of type key None] set in \<open>simp_all add: rlSet_turn_def scan\<close>)
qed

definition rl_demo :: RangeLock where
  "rl_demo = \<lparr>rl_heap = (\<lambda>_. \<lparr>lr_prev = None, lr_next = None, lr_type = RL_WRITE, lr_key = 2,
     lr_start = 5, lr_size = 3\<rparr>), rl_ranges = Some 2, rl_requests = [], rl_new = 3\<rparr>"

lemma rl_demo_list: "lr_list rl_demo [2]"
  by (auto simp: lr_list_def rl_demo_def dll_def)

theorem rlSet_exclusion_witness:
  "rlSet (Some 7) RL_READ 1 6 1 False 20 rl_demo (ss_k (sem_start 0 0)) \<in>
     {RlRet EDEADLK rl_demo (ss_k (sem_start 0 0)), RlRet EAGAIN rl_demo (ss_k (sem_start 0 0))} \<and>
   (\<exists>rl'. rlSet (Some 7) RL_WRITE 1 8 4 False 20 rl_demo (ss_k (sem_start 0 0)) = RlRet 0 rl' (ss_k (sem_start 0 0)))"
proof -
  let ?k = "ss_k (sem_start 0 0)"
  have e: "exclusive (rl_heap rl_demo) (set [2])" by (simp add: exclusive_def)
  have c1: "\<exists>r \<in> set [2]. conflict RL_READ 1 6 1 (rl_heap rl_demo r)"
    and c2: "\<not> (\<exists>r \<in> set [2]. conflict RL_WRITE 1 8 4 (rl_heap rl_demo r))"
    by (simp_all add: conflict_def meet_iff rl_demo_def)
  have t12: "RL_READ \<noteq> RL_UNLOCK" "RL_WRITE \<noteq> RL_UNLOCK" by simp_all
  have t3: "(1 :: u64) \<le> NOT 6" by code_simp
  have t4: "(4 :: u64) \<le> NOT 8" by code_simp
  note t = t12 t3 t4
  have w: "\<forall>r \<in> set [2]. no_wrap (rl_heap rl_demo r)" by (simp add: no_wrap_def rl_demo_def)
  from rlSet_exclusion [OF rl_demo_list e t(1,3) w, of 1 "Some 7" False 20 ?k] c1
    rlSet_exclusion [OF rl_demo_list e t(2,4) w, of 1 "Some 7" False 20 ?k] c2
  show ?thesis by (metis (no_types, lifting))
qed

text \<open>Releasing a key removes exactly the ranges of that key from the list, leaves the others
  untouched, and returns after waking every pending request.\<close>
theorem rlReleaseKey_releases:
  assumes "lr_list rl rs" and "\<forall>r \<in> set rs. no_wrap (rl_heap rl r)"
    and "notify_requests cur (rl_requests rl) k = Ok k'"
  shows "\<exists>rl'. rlReleaseKey cur key rl k = RlRet 0 rl' k' \<and> rl_requests rl' = [] \<and>
    lr_list rl' (filter (\<lambda>r. lr_key (rl_heap rl r) \<noteq> key) rs) \<and>
    (\<forall>r. claim_of (rl_heap rl' r) = claim_of (rl_heap rl r))"
proof -
  from assms(1) have "rl_ranges rl = (case rs of [] \<Rightarrow> None | r # _ \<Rightarrow> Some r)"
    by (cases rs) (auto simp: lr_list_def dll_def)
  from release_loop [of rl "[]" rs, OF _ assms(2) this, of key] assms(1) obtain rl' where
    "unlock_loop key 0 0xFFFFFFFFFFFFFFFF (rl_ranges rl) rl = Some rl'"
    "lr_list rl' (filter (\<lambda>r. lr_key (rl_heap rl r) \<noteq> key) rs)"
    "\<forall>q. claim_of (rl_heap rl' q) = claim_of (rl_heap rl q)" "rl_requests rl' = rl_requests rl" by auto
  with assms(3) show ?thesis
    by (auto simp: rlReleaseKey_def rlUnlock_def lr_list_def)
qed

theorem rlReleaseKey_releases_witness:
  "\<exists>rl'. rlReleaseKey (Some 7) 2 rl_demo (ss_k (sem_start 0 0)) = RlRet 0 rl' (ss_k (sem_start 0 0)) \<and> lr_list rl' []"
  using rlReleaseKey_releases [OF rl_demo_list, of "Some 7" "ss_k (sem_start 0 0)" "ss_k (sem_start 0 0)" 2]
  by (auto simp: rl_demo_def no_wrap_def)

text \<open>A partial unlock can break mutual exclusion: key 2 holds a write lock on the units 5 to 7
  and key 1 one on 10 to 19; when key 1 unlocks the units 0 and 1, which it does not hold, its
  range grows down to unit 2, over the units of key 2.\<close>
theorem rlUnlock_widens:
  "\<exists>rl1 rl2 rl3 k. let rl0 = rlInit rl_demo in
     rlSet (Some 7) RL_WRITE 2 5 3 False 20 rl0 k = RlRet 0 rl1 k \<and>
     rlSet (Some 8) RL_WRITE 1 10 10 False 20 rl1 k = RlRet 0 rl2 k \<and>
     rlSet (Some 8) RL_UNLOCK 1 0 2 False 20 rl2 k = RlRet 0 rl3 k \<and>
     lr_list rl3 [3, 4] \<and> lr_key (rl_heap rl3 3) = 2 \<and> lr_key (rl_heap rl3 4) = 1 \<and>
     clash (rl_heap rl3 3) (rl_heap rl3 4)"
proof -
  define rl0 where "rl0 = rlInit rl_demo"
  define rl1 where "rl1 = rl0\<lparr>rl_heap := (rl_heap rl0)(3 := \<lparr>lr_prev = None, lr_next = None, lr_type = RL_WRITE,
     lr_key = 2, lr_start = 5, lr_size = 3\<rparr>), rl_ranges := Some 3, rl_new := 4\<rparr>"
  define rl2 where "rl2 = rl1\<lparr>rl_heap := (rl_heap rl1)
     (3 := \<lparr>lr_prev = None, lr_next = Some 4, lr_type = RL_WRITE, lr_key = 2, lr_start = 5, lr_size = 3\<rparr>,
      4 := \<lparr>lr_prev = Some 3, lr_next = None, lr_type = RL_WRITE, lr_key = 1, lr_start = 10, lr_size = 10\<rparr>), rl_new := 5\<rparr>"
  define rl3 where "rl3 = rl2\<lparr>rl_heap := (rl_heap rl2)
     (4 := \<lparr>lr_prev = Some 3, lr_next = None, lr_type = RL_WRITE, lr_key = 1, lr_start = 2, lr_size = 18\<rparr>)\<rparr>"
  let ?k = "ss_k (sem_start 0 0)"
  have s1: "scan_loop RL_WRITE 2 5 3 (rl_heap rl0) (rl_ranges rl0) None = Some (ScanFree None)"
    by (subst scan_loop.simps) (simp add: rl0_def rlInit_def)
  have "rlSet (Some 7) RL_WRITE 2 5 3 False 20 rl0 ?k = RlRet 0 rl1 ?k"
    unfolding rlSet_def rlSet_turn_def s1 by (simp add: lr_place_def rl1_def rl0_def rlInit_def rl_demo_def)
  moreover
  have s2: "scan_loop RL_WRITE 1 10 10 (rl_heap rl1) (rl_ranges rl1) None = Some (ScanFree (Some 3))"
    by (subst scan_loop.simps, simp add: rl1_def overlaps_def, subst scan_loop.simps, simp)
  have "rlSet (Some 8) RL_WRITE 1 10 10 False 20 rl1 ?k = RlRet 0 rl2 ?k"
    unfolding rlSet_def rlSet_turn_def s2
    by (auto simp: lr_place_def set_lr_def rl2_def rl1_def rl0_def rlInit_def rl_demo_def fun_eq_iff)
  moreover
  have s3: "unlock_loop 1 0 2 (rl_ranges rl2) rl2 = Some rl3"
    by (subst unlock_loop.simps, simp add: rl2_def rl1_def, subst unlock_loop.simps, simp add: set_lr_def,
        subst unlock_loop.simps, simp add: rl3_def rl2_def rl1_def fun_eq_iff)
  have "rlSet (Some 8) RL_UNLOCK 1 0 2 False 20 rl2 ?k = RlRet 0 rl3 ?k"
    unfolding rlSet_def rlUnlock_def s3 by (simp add: rl3_def rl2_def rl1_def rl0_def rlInit_def)
  moreover have "lr_list rl3 [3, 4]"
    by (auto simp: lr_list_def dll_def rl3_def rl2_def rl1_def)
  moreover have "clash (rl_heap rl3 3) (rl_heap rl3 4)" "lr_key (rl_heap rl3 3) = 2" "lr_key (rl_heap rl3 4) = 1"
    by (simp_all add: clash_def meet_iff rl3_def rl2_def)
  ultimately show ?thesis unfolding Let_def rl0_def by blast
qed

text \<open>\<open>rlGet\<close> never reports a lock: with ranges as \<open>rlSet\<close> makes them it returns
  \<open>RL_UNLOCK\<close>, whatever is locked.\<close>
theorem rlGet_blind:
  assumes "lr_list rl rs" and "\<forall>r \<in> set rs. no_wrap (rl_heap rl r)"
  shows "rlGet (type, key, start, sz) rl = Some (RL_UNLOCK, key, start, sz)"
proof -
  have "get_loop (rl_heap rl) p (RL_UNLOCK, key, start, sz) = Some (RL_UNLOCK, key, start, sz)"
    if "lpath (\<lambda>r. lr_next (rl_heap rl r)) p qs None" "set qs \<subseteq> set rs" for p qs
    using that
  proof (induction qs arbitrary: p)
    case (Cons q qs)
    let ?x = "rl_heap rl q"
    from Cons.prems assms(2) have "no_wrap ?x" by simp
    from no_wrap_end [OF this] have "\<not> (lr_start ?x \<ge> start \<and> lr_start ?x + lr_size ?x < start)"
      using uint_ge_0 [of "lr_size ?x"] unfolding word_le_def word_less_def by linarith
    with Cons show ?case by (subst get_loop.simps) (auto simp: Let_def)
  qed (simp add: get_loop.simps)
  moreover have "lpath (\<lambda>r. lr_next (rl_heap rl r)) (rl_ranges rl) rs None"
    using assms(1) by (auto simp: lr_list_def dll_def)
  ultimately show ?thesis by (simp add: rlGet_def)
qed

theorem rlGet_blind_witness: "rlGet (RL_WRITE, 1, 6, 1) rl_demo = Some (RL_UNLOCK, 1, 6, 1)"
  by (rule rlGet_blind [OF rl_demo_list]) (simp add: rl_demo_def no_wrap_def)

end
