(* ===== verification/Gx_CapSock.thy ===== *)
theory Gx_CapSock
  imports Gx_SemSpec
begin

text \<open>
  \<open>kernel/src/net/capsock.c\<close>: capture sockets, which queue the packets that pass an
  interface. The queue is the list of the packets from \<open>first\<close> to \<open>last\<close>; the semaphore
  \<open>queueLock\<close> is the flag \<open>cs_locked\<close>, so that a call that waits for it after it was leaked
  is \<open>CapBlocked\<close>. \<open>capsock_recvfrom\<close> is cut after its wait, which returned \<open>status\<close>.
\<close>

section \<open>Data and operations\<close>

abbreviation AF_UNSPEC :: nat where "AF_UNSPEC \<equiv> 0"
abbreviation AF_CAPTURE :: nat where "AF_CAPTURE \<equiv> 4"
abbreviation SOCK_DGRAM :: int where "SOCK_DGRAM \<equiv> 2"
abbreviation SOCK_RAW :: int where "SOCK_RAW \<equiv> 3"
abbreviation SHUT_RD :: u32 where "SHUT_RD \<equiv> 1"
abbreviation MSG_PEEK :: u32 where "MSG_PEEK \<equiv> 4"
abbreviation IPPROTO_IP :: int where "IPPROTO_IP \<equiv> 0"
abbreviation sizeof_sockaddr_cap :: u64 where "sizeof_sockaddr_cap \<equiv> 28"

record sockaddr =
  sa_family :: nat
  scap_ifname :: string

record CapInbound =
  ci_srcaddr :: sockaddr
  ci_socklen :: u64
  ci_payload :: "u8 list" \<comment> \<open>\<open>size\<close> is its length\<close>

record CapSocket =
  cs_type :: int
  cs_proto :: int
  cs_sockname :: sockaddr
  cs_shutflags :: u32
  cs_locked :: bool
  cs_counter :: nat
  cs_queue :: "CapInbound list"

datatype cap_out =
    CapErr int CapSocket kern
  | CapDone CapSocket kern
  | CapBlocked \<comment> \<open>waits for \<open>queueLock\<close>\<close>
  | CapPanic
  | CapData "u8 list" u64 "u64 option" CapSocket kern
      \<comment> \<open>the bytes read, how much of the source address is copied, and \<open>*addrlen\<close>\<close>

definition capsock_bind :: "sockaddr \<Rightarrow> u64 \<Rightarrow> CapSocket \<Rightarrow> kern \<Rightarrow> cap_out" where
  "capsock_bind addr addrlen s k =
     (if addrlen < sizeof_sockaddr_cap then CapErr EAFNOSUPPORT s k
      else if sa_family addr \<noteq> AF_CAPTURE then CapErr EAFNOSUPPORT s k
      else if sa_family (cs_sockname s) \<noteq> AF_UNSPEC then CapErr EINVAL s k
      else CapDone (s\<lparr>cs_sockname := addr\<rparr>) k)"

definition capsock_shutdown :: "u32 \<Rightarrow> CapSocket \<Rightarrow> kern \<Rightarrow> cap_out" where
  "capsock_shutdown how s k =
     (if has how SHUT_RD \<and> cs_locked s then CapBlocked
      else CapDone (s\<lparr>cs_queue := (if has how SHUT_RD then [] else cs_queue s),
                     cs_shutflags := cs_shutflags s OR how\<rparr>) k)"

definition capsock_recvfrom ::
    "int \<Rightarrow> u64 \<Rightarrow> u32 \<Rightarrow> bool \<Rightarrow> u64 option \<Rightarrow> CapSocket \<Rightarrow> kern \<Rightarrow> cap_out" where
  "capsock_recvfrom status len flags addr addrlen s k =
     (if status < 0 then CapErr (- status) s k
      else if cs_locked s then CapBlocked
      else case cs_queue s of
        [] \<Rightarrow> CapErr EPIPE (s\<lparr>cs_locked := True\<rparr>) k
      | inbound # rest \<Rightarrow>
          let s = (if \<not> has flags MSG_PEEK then s\<lparr>cs_queue := rest\<rparr> else s);
              len = (if len > of_nat (length (ci_payload inbound)) then of_nat (length (ci_payload inbound)) else len);
              (realAddrLen, addrlen) = (case addrlen of
                  Some n \<Rightarrow> if n < ci_socklen inbound then (n, Some n) else (ci_socklen inbound, Some (ci_socklen inbound))
                | None \<Rightarrow> (0, None));
              data = take (unat len) (ci_payload inbound);
              copied = (if addr then realAddrLen else 0)
          in if \<not> has flags MSG_PEEK then CapData data copied addrlen s k
             else (case semSignal2 (cs_counter s) 1 k of
                     Panic \<Rightarrow> CapPanic
                   | Ok k \<Rightarrow> CapData data copied addrlen s k))"

text \<open>
  \<open>capsock_packet\<close> by \<open>cur\<close>; it always returns \<open>SOCK_CONT\<close>. \<open>junk\<close> is what the allocated
  memory holds at \<open>socklen\<close>, which the code does not set.
\<close>

definition capsock_packet ::
    "nat option \<Rightarrow> sockaddr \<Rightarrow> u8 list \<Rightarrow> int \<Rightarrow> u64 \<Rightarrow> CapSocket \<Rightarrow> kern \<Rightarrow> cap_out" where
  "capsock_packet cur src packet proto junk s k =
     (if cs_shutflags s \<noteq> 0 then CapDone s k
      else if sa_family src \<noteq> AF_CAPTURE then CapDone s k
      else if sa_family (cs_sockname s) = AF_UNSPEC then CapDone s k
      else if scap_ifname src = scap_ifname (cs_sockname s) then
        if cs_type s = SOCK_DGRAM \<and> proto \<noteq> IPPROTO_IP then CapDone s k
        else if cs_type s \<noteq> SOCK_DGRAM \<and> proto \<noteq> cs_proto s then CapDone s k
        else if cs_locked s then CapBlocked
        else
          let s = s\<lparr>cs_queue := cs_queue s @ [\<lparr>ci_srcaddr = src, ci_socklen = junk, ci_payload = packet\<rparr>]\<rparr>
          in (case semSignal cur (cs_counter s) k of Panic \<Rightarrow> CapPanic | Ok k \<Rightarrow> CapDone s k)
      else CapDone s k)"

text \<open>\<open>CreateCaptureSocket\<close>, the counter at \<open>c\<close>; \<open>socket.c\<close> sets the type and the protocol.\<close>

definition CreateCaptureSocket :: "int \<Rightarrow> int \<Rightarrow> nat \<Rightarrow> kern \<Rightarrow> (CapSocket \<times> kern) option" where
  "CreateCaptureSocket type proto c k =
     (if type = SOCK_DGRAM \<and> proto \<noteq> 0 then None
      else if type = SOCK_RAW \<and> proto \<notin> {0, 1, 2} then None
      else if type \<noteq> SOCK_DGRAM \<and> type \<noteq> SOCK_RAW then None
      else Some (\<lparr>cs_type = type, cs_proto = proto, cs_sockname = \<lparr>sa_family = AF_UNSPEC, scap_ifname = []\<rparr>,
                  cs_shutflags = 0, cs_locked = False, cs_counter = c, cs_queue = []\<rparr>, semInit2 c 0 k))"

section \<open>A socket in use\<close>

text \<open>
  \<open>cy_pend\<close> counts the waits of readers that were granted a packet and not used yet;
  \<open>cy_in\<close> and \<open>cy_out\<close> are the packets queued and taken so far.
\<close>

record capsys =
  cy_s :: CapSocket
  cy_k :: kern
  cy_pend :: nat
  cy_in :: "u8 list list"
  cy_out :: "u8 list list"

inductive cap_step :: "capsys \<Rightarrow> capsys \<Rightarrow> bool" where
  bind: "capsock_bind addr addrlen (cy_s \<sigma>) (cy_k \<sigma>) = CapDone s' k' \<Longrightarrow> cap_step \<sigma> (\<sigma>\<lparr>cy_s := s', cy_k := k'\<rparr>)"
| packet: "capsock_packet (Some th) src packet proto junk (cy_s \<sigma>) (cy_k \<sigma>) = CapDone s' k' \<Longrightarrow>
     length (cs_queue (cy_s \<sigma>)) < 2 ^ 30 \<Longrightarrow>
     cap_step \<sigma> (\<sigma>\<lparr>cy_s := s', cy_k := k',
       cy_in := cy_in \<sigma> @ (if cs_queue s' = cs_queue (cy_s \<sigma>) then [] else [packet])\<rparr>)"
| wait: "sem_waited (cs_counter (cy_s \<sigma>)) 1 (cy_k \<sigma>) r k' \<Longrightarrow>
     cap_step \<sigma> (\<sigma>\<lparr>cy_k := k', cy_pend := cy_pend \<sigma> + (if 0 < r then 1 else 0)\<rparr>)"
| sleep: "sem_slept (cy_k \<sigma>) k' \<Longrightarrow> cap_step \<sigma> (\<sigma>\<lparr>cy_k := k'\<rparr>)"
| recv: "0 < cy_pend \<sigma> \<Longrightarrow> \<not> has flags MSG_PEEK \<Longrightarrow>
     capsock_recvfrom 1 len flags addr addrlen (cy_s \<sigma>) (cy_k \<sigma>) = CapData data n m s' k' \<Longrightarrow>
     cap_step \<sigma> (\<sigma>\<lparr>cy_s := s', cy_k := k', cy_pend := cy_pend \<sigma> - 1,
       cy_out := cy_out \<sigma> @ [ci_payload (hd (cs_queue (cy_s \<sigma>)))]\<rparr>)"
| peek: "0 < cy_pend \<sigma> \<Longrightarrow> has flags MSG_PEEK \<Longrightarrow>
     capsock_recvfrom 1 len flags addr addrlen (cy_s \<sigma>) (cy_k \<sigma>) = CapData data n m s' k' \<Longrightarrow>
     cap_step \<sigma> (\<sigma>\<lparr>cy_s := s', cy_k := k', cy_pend := cy_pend \<sigma> - 1\<rparr>)"

inductive cap_reach :: "capsys \<Rightarrow> bool" where
  start: "CreateCaptureSocket type proto c k = Some (s, k') \<Longrightarrow>
     cap_reach \<lparr>cy_s = s, cy_k = k', cy_pend = 0, cy_in = [], cy_out = []\<rparr>"
| step: "cap_reach \<sigma> \<Longrightarrow> cap_step \<sigma> \<sigma>' \<Longrightarrow> cap_reach \<sigma>'"

definition cap_inv :: "capsys \<Rightarrow> bool" where
  "cap_inv \<sigma> \<longleftrightarrow> cy_in \<sigma> = cy_out \<sigma> @ map ci_payload (cs_queue (cy_s \<sigma>)) \<and> \<not> cs_locked (cy_s \<sigma>) \<and>
     sem_ok (cy_k \<sigma>) (cs_counter (cy_s \<sigma>)) \<and> length (cs_queue (cy_s \<sigma>)) \<le> 2 ^ 30 \<and>
     sem_val (cy_k \<sigma>) (cs_counter (cy_s \<sigma>)) + int (cy_pend \<sigma>) \<le> int (length (cs_queue (cy_s \<sigma>)))"

text \<open>A granted receive returns the first packet and, unless it peeks, takes it.\<close>

lemma recv_cases:
  assumes "cap_inv \<sigma>" and "0 < cy_pend \<sigma>"
  obtains inbound rest where "cs_queue (cy_s \<sigma>) = inbound # rest"
proof (cases "cs_queue (cy_s \<sigma>)")
  case Nil
  with assms ks.val_nonneg [of "cy_k \<sigma>" "cs_counter (cy_s \<sigma>)"] show thesis by (simp add: cap_inv_def)
qed

lemma cap_signal:
  assumes "cap_inv \<sigma>" and "semSignal2 (cs_counter (cy_s \<sigma>)) 1 (cy_k \<sigma>) = Ok k'"
    and "int P + 1 \<le> int (length Q) - sem_val (cy_k \<sigma>) (cs_counter (cy_s \<sigma>))" and "length Q \<le> 2 ^ 30"
  shows "sem_ok k' (cs_counter (cy_s \<sigma>)) \<and> sem_val k' (cs_counter (cy_s \<sigma>)) + int P \<le> int (length Q)"
proof -
  from assms(1) have ok: "sem_ok (cy_k \<sigma>) (cs_counter (cy_s \<sigma>))" by (simp add: cap_inv_def)
  have v: "sem_val (cy_k \<sigma>) (cs_counter (cy_s \<sigma>)) + 1 < 2 ^ 31" using assms(3,4) by simp
  show ?thesis
    using ks.signal_val [OF assms(2) ok _ v] ks.signal_ok [OF assms(2) ok _ v] assms(3) by simp
qed

lemma cap_step_inv: "cap_step \<sigma> \<sigma>' \<Longrightarrow> cap_inv \<sigma> \<Longrightarrow> cap_inv \<sigma>'"
proof (induction rule: cap_step.induct)
  case (bind addr addrlen \<sigma> s' k')
  then show ?case by (auto simp: capsock_bind_def cap_inv_def split: if_splits)
next
  case (packet th src packet proto junk \<sigma> s' k')
  let ?Q = "cs_queue (cy_s \<sigma>) @ [\<lparr>ci_srcaddr = src, ci_socklen = junk, ci_payload = packet\<rparr>]"
  consider (no) "s' = cy_s \<sigma>" "k' = cy_k \<sigma>"
    | (yes) "s' = (cy_s \<sigma>)\<lparr>cs_queue := ?Q\<rparr>" "semSignal2 (cs_counter (cy_s \<sigma>)) 1 (cy_k \<sigma>) = Ok k'"
    using packet(1) by (auto simp: capsock_packet_def Let_def semSignal_def split: if_splits kres.splits)
  then show ?case
  proof cases
    case no
    with packet show ?thesis by (simp add: cap_inv_def)
  next
    case yes
    from cap_signal [OF packet(3) yes(2), of "cy_pend \<sigma>" ?Q] packet(2,3) yes(1) show ?thesis
      by (simp add: cap_inv_def)
  qed
next
  case (wait \<sigma> r k')
  let ?c = "cs_counter (cy_s \<sigma>)"
  from wait(2) have v: "sem_val (cy_k \<sigma>) ?c < 2 ^ 31" by (simp add: cap_inv_def)
  have "sem_val k' ?c + int (cy_pend \<sigma> + (if 0 < r then 1 else 0)) \<le> int (length (cs_queue (cy_s \<sigma>)))"
    using wait(2) ks.wait_taken [OF wait(1) _ v] ks.wait_failed [OF wait(1) _ v] by (auto simp: cap_inv_def)
  with wait(2) ks.wait_ok [OF wait(1) _ _ v] show ?case by (simp add: cap_inv_def)
next
  case (sleep \<sigma> k')
  then show ?case by (simp add: cap_inv_def ks.slept_val ks.slept_ok)
next
  case (recv \<sigma> flags len addr addrlen data n m s' k')
  obtain i rest where q: "cs_queue (cy_s \<sigma>) = i # rest" by (rule recv_cases [OF recv(4,1)])
  with recv have "s' = (cy_s \<sigma>)\<lparr>cs_queue := rest\<rparr>" "k' = cy_k \<sigma>"
    by (auto simp: capsock_recvfrom_def Let_def cap_inv_def split: prod.splits)
  with recv(1,4) q show ?case by (auto simp: cap_inv_def of_nat_diff)
next
  case (peek \<sigma> flags len addr addrlen data n m s' k')
  obtain i rest where q: "cs_queue (cy_s \<sigma>) = i # rest" by (rule recv_cases [OF peek(4,1)])
  with peek have s: "s' = cy_s \<sigma>" "semSignal2 (cs_counter (cy_s \<sigma>)) 1 (cy_k \<sigma>) = Ok k'"
    by (auto simp: capsock_recvfrom_def Let_def cap_inv_def split: prod.splits kres.splits)
  from cap_signal [OF peek(4) s(2), of "cy_pend \<sigma> - 1" "cs_queue (cy_s \<sigma>)"] peek(1,4) s(1) show ?case
    by (simp add: cap_inv_def of_nat_diff)
qed

lemma cap_reach_inv: "cap_reach \<sigma> \<Longrightarrow> cap_inv \<sigma>"
proof (induction rule: cap_reach.induct)
  case (start type proto c k s k')
  then show ?case
    by (auto simp: CreateCaptureSocket_def cap_inv_def semInit2_def sem_ok_def sem_val_def k_simps split: if_splits)
qed (rule cap_step_inv)

section \<open>Properties\<close>

text \<open>As long as it is not shut down a capture socket delivers the packets it queued, in order
  and each once, and a reader whose wait was granted finds a packet: it gets the first one, cut
  to the length it asked for.\<close>
theorem capsock_fifo:
  assumes "cap_reach \<sigma>"
  shows "cy_in \<sigma> = cy_out \<sigma> @ map ci_payload (cs_queue (cy_s \<sigma>)) \<and>
    (0 < cy_pend \<sigma> \<longrightarrow> \<not> has flags MSG_PEEK \<longrightarrow> len \<le> of_nat (length (ci_payload (hd (cs_queue (cy_s \<sigma>))))) \<longrightarrow>
      (\<exists>n m. capsock_recvfrom 1 len flags addr addrlen (cy_s \<sigma>) (cy_k \<sigma>) =
         CapData (take (unat len) (ci_payload (hd (cs_queue (cy_s \<sigma>))))) n m
           ((cy_s \<sigma>)\<lparr>cs_queue := tl (cs_queue (cy_s \<sigma>))\<rparr>) (cy_k \<sigma>)))"
proof -
  from cap_reach_inv [OF assms] have inv: "cap_inv \<sigma>" .
  have "\<exists>n m. capsock_recvfrom 1 len flags addr addrlen (cy_s \<sigma>) (cy_k \<sigma>) =
         CapData (take (unat len) (ci_payload (hd (cs_queue (cy_s \<sigma>))))) n m
           ((cy_s \<sigma>)\<lparr>cs_queue := tl (cs_queue (cy_s \<sigma>))\<rparr>) (cy_k \<sigma>)"
    if "0 < cy_pend \<sigma>" "\<not> has flags MSG_PEEK" "len \<le> of_nat (length (ci_payload (hd (cs_queue (cy_s \<sigma>)))))"
  proof -
    note p = that
    obtain i rest where "cs_queue (cy_s \<sigma>) = i # rest" by (rule recv_cases [OF inv p(1)])
    with inv p(2,3) show ?thesis
      by (auto simp: capsock_recvfrom_def Let_def cap_inv_def not_less split: prod.splits)
  qed
  with inv show ?thesis by (simp add: cap_inv_def)
qed

definition cap_demo :: CapSocket where
  "cap_demo = \<lparr>cs_type = SOCK_DGRAM, cs_proto = 0, cs_sockname = \<lparr>sa_family = AF_CAPTURE, scap_ifname = ''eth0''\<rparr>,
     cs_shutflags = 0, cs_locked = False, cs_counter = 5, cs_queue = []\<rparr>"

lemma cap_demo_reach:
  "cap_reach \<lparr>cy_s = cap_demo, cy_k = semInit2 5 0 (ss_k (sem_start 0 0)), cy_pend = 0, cy_in = [], cy_out = []\<rparr>"
proof -
  let ?s = "cap_demo\<lparr>cs_sockname := \<lparr>sa_family = AF_UNSPEC, scap_ifname = []\<rparr>\<rparr>"
  let ?k = "semInit2 5 0 (ss_k (sem_start 0 0))"
  let ?y = "\<lparr>cy_s = ?s, cy_k = ?k, cy_pend = 0, cy_in = [], cy_out = []\<rparr>"
  have "cap_reach ?y"
    by (rule cap_reach.start [of SOCK_DGRAM 0 5 "ss_k (sem_start 0 0)"]) (simp add: CreateCaptureSocket_def cap_demo_def)
  moreover have "cap_step ?y (?y\<lparr>cy_s := cap_demo, cy_k := ?k\<rparr>)"
    by (rule cap_step.bind [of "\<lparr>sa_family = AF_CAPTURE, scap_ifname = ''eth0''\<rparr>" 28])
      (simp add: capsock_bind_def cap_demo_def)
  ultimately show ?thesis by (auto dest: cap_reach.step)
qed

theorem capsock_fifo_witness:
  "\<exists>s k. capsock_packet (Some 7) (cs_sockname cap_demo) [1, 2, 3] 0 0 cap_demo (semInit2 5 0 (ss_k (sem_start 0 0))) = CapDone s k \<and>
    [[1, 2, 3]] = [] @ map ci_payload (cs_queue s)"
proof -
  let ?k = "semInit2 5 0 (ss_k (sem_start 0 0))"
  let ?y = "\<lparr>cy_s = cap_demo, cy_k = ?k, cy_pend = 0, cy_in = [], cy_out = []\<rparr>"
  obtain s k where p: "capsock_packet (Some 7) (cs_sockname cap_demo) [1, 2, 3] 0 0 cap_demo ?k = CapDone s k"
    and q: "cs_queue s \<noteq> []"
    by (simp add: capsock_packet_def cap_demo_def semSignal_def semSignal2_def semInit2_def k_simps has_def)
  have "cap_step ?y (?y\<lparr>cy_s := s, cy_k := k, cy_in := [[1, 2, 3]]\<rparr>)"
    using cap_step.packet [of 7 "cs_sockname cap_demo" "[1, 2, 3]" 0 0 ?y s k] p q by (simp add: cap_demo_def)
  with cap_demo_reach have "cap_reach (?y\<lparr>cy_s := s, cy_k := k, cy_in := [[1, 2, 3]]\<rparr>)" by (rule cap_reach.step)
  from capsock_fifo [OF this, of 0 0] p show ?thesis by auto
qed

text \<open>Shutting down the receiving side of a socket with a queued packet wrecks it: the count of
  packets is not reset, so the next reader is let in, finds no packet, fails with \<open>EPIPE\<close> and
  keeps \<open>queueLock\<close>; every later receive or shutdown blocks for good.\<close>
theorem capsock_shutdown_deadlock:
  assumes "\<not> cs_locked s" and "0 < count k (cs_counter s)" and "count k (cs_counter s) < 2 ^ 31"
  shows "\<exists>s' k' s''. capsock_shutdown SHUT_RD s k = CapDone s' k \<and>
    semWaitGen (cs_counter s') 1 fl 0 th w now now sigs k = SemRet 1 k' \<and>
    capsock_recvfrom 1 len flags addr addrlen s' k' = CapErr EPIPE s'' k' \<and>
    capsock_recvfrom 1 len flags addr addrlen s'' k' = CapBlocked \<and> capsock_shutdown SHUT_RD s'' k' = CapBlocked"
proof -
  let ?c = "cs_counter s"
  have "c_int (count k ?c - 1) = count k ?c - 1" using assms by (intro c_int_id) auto
  with assms have "\<exists>k'. semWaitGen ?c 1 fl 0 th w now now sigs k = SemRet 1 k'"
    by (simp add: semWaitGen_def Let_def semWait_outer_def semWait_take_def k_simps split: prod.split)
  then show ?thesis using assms(1)
    by (auto simp: capsock_shutdown_def capsock_recvfrom_def has_def)
qed

theorem capsock_shutdown_deadlock_witness:
  "\<exists>s' k' s''. capsock_shutdown SHUT_RD cap_demo (semInit2 5 1 (ss_k (sem_start 0 0))) = CapDone s' (semInit2 5 1 (ss_k (sem_start 0 0))) \<and>
    capsock_recvfrom 1 4 0 False None s' k' = CapErr EPIPE s'' k' \<and> capsock_shutdown SHUT_RD s'' k' = CapBlocked"
  using capsock_shutdown_deadlock [of cap_demo "semInit2 5 1 (ss_k (sem_start 0 0))" 0 7 1 0 False 4 0 False None]
  by (auto simp: cap_demo_def semInit2_def k_simps)

end
