(* ===== verification/Gx_IpReasm.thy ===== *)
theory Gx_IpReasm
  imports Gx_Prelude
begin

text \<open>
  \<open>kernel/src/net/ipreasm.c\<close>: the reassembly of fragmented IP packets. The doubly linked
  lists from \<open>firstFragList\<close> and from each \<open>fragList\<close> are HOL lists here: every insertion
  and removal of the code keeps both directions of the links. A call runs under
  \<open>reasmLock\<close> and is one step; so is one round of \<open>ipreasmThread\<close>, from the lock to the
  sleep. \<open>getTicks()\<close> is an argument, and where it is called in a loop a function of the
  iteration.
\<close>

section \<open>Data\<close>

abbreviation AF_INET :: int where "AF_INET \<equiv> 2"
abbreviation AF_INET6 :: int where "AF_INET6 \<equiv> 3"

record IPFragment =
  lastFragment :: bool
  fragOffset :: u32
  fragSize :: u32
  frag_data :: "u8 list"

record IPFragmentList =
  fl_family :: int
  fl_deadline :: int \<comment> \<open>\<open>deadlineTicks\<close>\<close>
  fl_src :: "u8 list" \<comment> \<open>16 bytes\<close>
  fl_dst :: "u8 list"
  fl_id :: u32
  fl_proto :: int
  fl_frags :: "IPFragment list"

section \<open>Accepting a fragment\<close>

definition isMatchingFragmentList :: "IPFragmentList \<Rightarrow> int \<Rightarrow> u8 list \<Rightarrow> u8 list \<Rightarrow> u32 \<Rightarrow> bool" where
  "isMatchingFragmentList l fam src dst ident \<longleftrightarrow>
     fl_src l = src \<and> fl_dst l = dst \<and> fl_id l = ident \<and> fl_family l = fam"

definition mk_frag :: "u32 \<Rightarrow> u8 list \<Rightarrow> bool \<Rightarrow> IPFragment" where
  "mk_frag off data moreFrags =
     \<lparr>lastFragment = (\<not> moreFrags), fragOffset = off, fragSize = of_nat (length data), frag_data = data\<rparr>"

text \<open>
  The search for the place of a fragment that does not come first; \<open>None\<close> is a rejection.
  \<open>scan->fragOffset+scan->fragSize\<close> is a sum of 32 bits, \<open>fragOff+fragSize\<close> one of 64.
\<close>

fun place_scan :: "IPFragment \<Rightarrow> u64 \<Rightarrow> IPFragment list \<Rightarrow> IPFragment list option" where
  "place_scan f sz [] = Some []"
| "place_scan f sz [s] =
     (if fragOffset s = fragOffset f then None
      else if fragOffset f > fragOffset s then
        if fragOffset s + fragSize s > fragOffset f then None else Some [s, f]
      else Some [s])"
| "place_scan f sz (s # t # rest) =
     (if fragOffset s = fragOffset f then None
      else if fragOffset s < fragOffset f \<and> fragOffset t > fragOffset f then
        if fragOffset s + fragSize s > fragOffset f then None
        else if ucast (fragOffset f) + sz > ucast (fragOffset t) then None
        else Some (s # f # t # rest)
      else map_option ((#) s) (place_scan f sz (t # rest)))"

datatype placed = Rejected | Faulted | Placed "IPFragment list"

definition pass_frags :: "IPFragment \<Rightarrow> u64 \<Rightarrow> IPFragment list \<Rightarrow> placed" where
  "pass_frags f sz frags =
     (case frags of
        [] \<Rightarrow> Faulted
      | s # rest \<Rightarrow>
          if fragOffset s > fragOffset f then
            if ucast (fragOffset f) + sz > ucast (fragOffset s) then Rejected
            else Placed (f # s # rest)
          else (case place_scan f sz (s # rest) of None \<Rightarrow> Rejected | Some frags \<Rightarrow> Placed frags))"

datatype passed = PassReject | PassFault | PassDone bool

fun pass_loop :: "int \<Rightarrow> u8 list \<Rightarrow> u8 list \<Rightarrow> int \<Rightarrow> u32 \<Rightarrow> IPFragment \<Rightarrow> u64 \<Rightarrow> IPFragmentList list \<Rightarrow>
    IPFragmentList list \<times> passed" where
  "pass_loop fam src dst proto ident f sz [] = ([], PassDone False)"
| "pass_loop fam src dst proto ident f sz (l # ls) =
     (if isMatchingFragmentList l fam src dst ident then
        if fl_proto l \<noteq> proto then (l # ls, PassReject)
        else (case pass_frags f sz (fl_frags l) of
                Rejected \<Rightarrow> (l # ls, PassReject)
              | Faulted \<Rightarrow> (l # ls, PassFault)
              | Placed frags \<Rightarrow>
                  (case pass_loop fam src dst proto ident f sz ls of
                     (ls', out) \<Rightarrow> (l\<lparr>fl_frags := frags\<rparr> # ls', case out of PassDone _ \<Rightarrow> PassDone True | _ \<Rightarrow> out)))
      else (case pass_loop fam src dst proto ident f sz ls of (ls', out) \<Rightarrow> (l # ls', out)))"

text \<open>
  The result is the lists and whether the reassembler is signalled, \<open>None\<close> a fault.
  \<open>deadlineTicks\<close> is an \<open>int\<close> and \<open>getTicks()\<close> a \<open>uint64_t\<close>.
\<close>

definition ipreasmPass :: "u64 \<Rightarrow> int \<Rightarrow> u8 list \<Rightarrow> u8 list \<Rightarrow> int \<Rightarrow> u32 \<Rightarrow> u32 \<Rightarrow> u8 list \<Rightarrow> bool \<Rightarrow>
    IPFragmentList list \<Rightarrow> (IPFragmentList list \<times> bool) option" where
  "ipreasmPass ticks fam src dst proto ident fragOff data moreFrags ls0 =
     (let f = mk_frag fragOff data moreFrags in
      case pass_loop fam src dst proto ident f (of_nat (length data)) ls0 of
        (ls0', PassReject) \<Rightarrow> Some (ls0', False)
      | (ls0', PassFault) \<Rightarrow> None
      | (ls0', PassDone True) \<Rightarrow> Some (ls0', True)
      | (ls0', PassDone False) \<Rightarrow>
          Some (ls0' @ [\<lparr>fl_family = fam, fl_deadline = c_int_of_u64 (ticks + 60000), fl_src = src, fl_dst = dst,
                           fl_id = ident, fl_proto = proto, fl_frags = [f]\<rparr>], True))"

section \<open>The reassembler\<close>

text \<open>The result of the scan, and whether the list is found to be invalid.\<close>

fun complete_scan :: "u32 \<Rightarrow> IPFragment list \<Rightarrow> bool \<times> bool" where
  "complete_scan nextOffset [] = (False, False)"
| "complete_scan nextOffset (f # fs) =
     (if fragOffset f \<noteq> nextOffset then (False, False)
      else if lastFragment f then (if fs \<noteq> [] then (False, True) else (True, False))
      else complete_scan (nextOffset + fragSize f) fs)"

definition isFragmentListComplete :: "IPFragmentList \<Rightarrow> bool \<times> IPFragmentList" where
  "isFragmentListComplete l =
     (case complete_scan 0 (fl_frags l) of (r, invalid) \<Rightarrow> (r, if invalid then l\<lparr>fl_deadline := 1\<rparr> else l))"

fun calculatePacketSize :: "IPFragment list \<Rightarrow> u64" where
  "calculatePacketSize [] = 0"
| "calculatePacketSize (f # fs) = ucast (fragSize f) + calculatePacketSize fs"

text \<open>\<open>memcpy\<close> of the fragments into the buffer; \<open>None\<close> when one does not fit.\<close>

fun copy_frags :: "IPFragment list \<Rightarrow> u8 list \<Rightarrow> u8 list option" where
  "copy_frags [] buffer = Some buffer"
| "copy_frags (f # fs) buffer =
     (let off = unat (fragOffset f); n = unat (fragSize f) in
      if off + n \<le> length buffer
      then copy_frags fs (take off buffer @ take n (frag_data f) @ drop (off + n) buffer)
      else None)"

text \<open>A call of \<open>onTransportPacket\<close>: source, destination, protocol, data.\<close>

datatype transport =
    Packet4 "u8 list" "u8 list" int "u8 list"
  | Packet6 "u8 list" "u8 list" int "u8 list"

definition deliver :: "IPFragmentList \<Rightarrow> u8 list \<Rightarrow> transport" where
  "deliver l buffer =
     (if fl_family l = AF_INET then Packet4 (take 4 (fl_src l)) (take 4 (fl_dst l)) (fl_proto l) buffer
      else Packet6 (take 16 (fl_src l)) (take 16 (fl_dst l)) (fl_proto l) buffer)"

text \<open>
  The loop over the lists: \<open>now i\<close> is what the \<open>i\<close>-th call of \<open>getTicks()\<close> returns, \<open>junk\<close>
  what \<open>kmalloc\<close> returns. The result is the packets delivered, the lists kept and
  \<open>earliestDeadline\<close>. The comparison with \<open>getTicks()\<close> is one of \<open>uint64_t\<close>.
\<close>

fun reasm_scan :: "(nat \<Rightarrow> u64) \<Rightarrow> (nat \<Rightarrow> u8) \<Rightarrow> nat \<Rightarrow> int \<Rightarrow> IPFragmentList list \<Rightarrow>
    (transport list \<times> IPFragmentList list \<times> int) option" where
  "reasm_scan now junk i earliest [] = Some ([], [], earliest)"
| "reasm_scan now junk i earliest (l # ls) =
     (if now i \<ge> word_of_int (fl_deadline l) then reasm_scan now junk (i + 1) earliest ls
      else (case isFragmentListComplete l of (complete, l) \<Rightarrow>
        if complete then
          (case copy_frags (fl_frags l) (map junk [0..<unat (calculatePacketSize (fl_frags l))]) of
             None \<Rightarrow> None
           | Some buffer \<Rightarrow> map_option (\<lambda>(ps, r). (deliver l buffer # ps, r)) (reasm_scan now junk (i + 1) earliest ls))
        else
          map_option (\<lambda>(ps, ls, e). (ps, l # ls, e))
            (reasm_scan now junk (i + 1) (if fl_deadline l < earliest then fl_deadline l else earliest) ls)))"

text \<open>
  One round: \<open>None\<close> in the last component when the list is empty and the thread waits to be
  signalled, else the \<open>nanoThen\<close> it sleeps until.
\<close>

definition ipreasmThread :: "(nat \<Rightarrow> u64) \<Rightarrow> (nat \<Rightarrow> u8) \<Rightarrow> IPFragmentList list \<Rightarrow>
    (transport list \<times> IPFragmentList list \<times> u64 option) option" where
  "ipreasmThread now junk ls0 =
     (case ls0 of
        [] \<Rightarrow> Some ([], [], None)
      | l # _ \<Rightarrow> map_option (\<lambda>(ps, ls, e). (ps, ls, Some (word_of_int e * 1000000)))
                  (reasm_scan now junk 0 (fl_deadline l) ls0))"

section \<open>Sorted and disjoint fragments\<close>

definition fr_end :: "IPFragment \<Rightarrow> nat" where
  "fr_end f = unat (fragOffset f) + unat (fragSize f)"

definition chain :: "IPFragment list \<Rightarrow> bool" where
  "chain fs \<longleftrightarrow> sorted_wrt (\<lambda>f g. fragOffset f < fragOffset g \<and> fr_end f \<le> unat (fragOffset g)) fs \<and>
     (\<forall>f \<in> set fs. fr_end f < 2 ^ 32 \<and> length (frag_data f) = unat (fragSize f))"

lemma chain_Cons:
  "chain (f # fs) \<longleftrightarrow> chain fs \<and> fr_end f < 2 ^ 32 \<and> length (frag_data f) = unat (fragSize f) \<and>
     (\<forall>g \<in> set fs. fragOffset f < fragOffset g \<and> fr_end f \<le> unat (fragOffset g))"
  by (auto simp: chain_def)

lemma chain_append:
  "chain (fs @ gs) \<longleftrightarrow> chain fs \<and> chain gs \<and>
     (\<forall>f \<in> set fs. \<forall>g \<in> set gs. fragOffset f < fragOffset g \<and> fr_end f \<le> unat (fragOffset g))"
  by (auto simp: chain_def sorted_wrt_append)

lemma chain_filter: "chain fs \<Longrightarrow> chain (filter P fs)"
  by (auto simp: chain_def sorted_wrt_filter)

lemma u32_end: "fr_end f < 2 ^ 32 \<Longrightarrow> unat (fragOffset f + fragSize f) = fr_end f"
  by (simp add: fr_end_def unat_add_lem [symmetric])

lemma unat_of_len: "n < 2 ^ 32 \<Longrightarrow> unat (of_nat n :: u32) = n"
  by (simp add: unsigned_of_nat take_bit_nat_eq_self)

lemma ucast_u32: "unat (ucast (x :: u32) :: u64) = unat x"
proof -
  have "unat x < 2 ^ LENGTH(32)" by (rule unsigned_less)
  then show ?thesis by (simp add: unsigned_ucast_eq take_bit_nat_eq_self)
qed

lemma u64_end:
  fixes x :: u32
  assumes "unat x + n < 2 ^ 32"
  shows "unat (ucast x + of_nat n :: u64) = unat x + n"
proof -
  have "unat (ucast x :: u64) = unat x" by (rule ucast_u32)
  moreover have "unat (of_nat n :: u64) = n" using assms by (simp add: unsigned_of_nat take_bit_nat_eq_self)
  ultimately show ?thesis using assms by (subst unat_add_lem [THEN iffD1]) simp_all
qed

text \<open>A fragment that fits between the others is placed there; one that is there is rejected.\<close>

lemma place_scan_fits:
  assumes "chain (as @ f # bs)" and "as \<noteq> []" and "sz = of_nat (length (frag_data f))"
  shows "place_scan f sz (as @ bs) = Some (as @ f # bs)"
  using assms
proof (induction as rule: induct_list012)
  case 1
  then show ?case by simp
next
  case (2 s)
  then have s: "fragOffset s < fragOffset f" "fr_end s < 2 ^ 32" "fr_end s \<le> unat (fragOffset f)"
    and f: "fr_end f < 2 ^ 32" "length (frag_data f) = unat (fragSize f)"
    by (auto simp: chain_Cons)
  have no: "\<not> fragOffset s + fragSize s > fragOffset f"
    using s u32_end [of s] by (simp add: word_less_nat_alt)
  show ?case
  proof (cases bs)
    case Nil
    with s no show ?thesis by auto
  next
    case (Cons t rest)
    with 2 have t: "fragOffset f < fragOffset t" "fr_end f \<le> unat (fragOffset t)" by (auto simp: chain_Cons)
    have "\<not> ucast (fragOffset f) + sz > (ucast (fragOffset t) :: u64)"
      using f t 2(3) u64_end [of "fragOffset f" "unat (fragSize f)"]
      by (simp add: word_less_nat_alt ucast_u32 fr_end_def)
    with Cons s no t show ?thesis by auto
  qed
next
  case (3 s t as)
  from 3(3) have "fragOffset s < fragOffset f" "fragOffset t < fragOffset f" by (auto simp: chain_Cons)
  with 3 show ?case by (auto simp: chain_Cons)
qed

lemma pass_frags_fits:
  assumes "chain (as @ f # bs)" and "as @ bs \<noteq> []" and "sz = of_nat (length (frag_data f))"
  shows "pass_frags f sz (as @ bs) = Placed (as @ f # bs)"
proof (cases as)
  case Nil
  with assms(2) obtain t rest where bs: "bs = t # rest" by (cases bs) auto
  with assms(1) Nil have f: "fr_end f < 2 ^ 32" "length (frag_data f) = unat (fragSize f)"
    and t: "fragOffset f < fragOffset t" "fr_end f \<le> unat (fragOffset t)" by (auto simp: chain_Cons)
  have "\<not> ucast (fragOffset f) + sz > (ucast (fragOffset t) :: u64)"
    using f t assms(3) u64_end [of "fragOffset f" "unat (fragSize f)"]
    by (simp add: word_less_nat_alt ucast_u32 fr_end_def)
  with Nil bs t show ?thesis by (simp add: pass_frags_def)
next
  case (Cons s rest)
  with assms(1) have "fragOffset s < fragOffset f" by (auto simp: chain_Cons)
  with Cons place_scan_fits [OF assms(1) _ assms(3)] show ?thesis by (auto simp: pass_frags_def)
qed

lemma place_scan_dup:
  "chain fs \<Longrightarrow> g \<in> set fs \<Longrightarrow> fragOffset g = fragOffset f \<Longrightarrow> place_scan f sz fs = None"
proof (induction f sz fs rule: place_scan.induct)
  case (3 f sz s t rest)
  then show ?case by (fastforce simp: chain_Cons)
qed auto

lemma pass_frags_dup:
  assumes "chain fs" and "g \<in> set fs" and "fragOffset g = fragOffset f"
  shows "pass_frags f sz fs = Rejected"
proof (cases fs)
  case (Cons s rest)
  with assms have "\<not> fragOffset s > fragOffset f" by (auto simp: chain_Cons)
  with Cons place_scan_dup [OF assms] show ?thesis by (simp add: pass_frags_def)
qed (use assms in simp)

section \<open>The fragments of a datagram\<close>

text \<open>A datagram cut into \<open>parts\<close>, from offset \<open>off\<close> on.\<close>

fun slices :: "nat \<Rightarrow> u8 list list \<Rightarrow> IPFragment list" where
  "slices off [] = []"
| "slices off (p # ps) = mk_frag (of_nat off) p (ps \<noteq> []) # slices (off + length p) ps"

lemma slices_Nil [simp]: "slices off ps = [] \<longleftrightarrow> ps = []"
  by (cases ps) simp_all

lemma mk_frag_sel [simp]:
  "fragOffset (mk_frag off data b) = off" "frag_data (mk_frag off data b) = data"
  "fragSize (mk_frag off data b) = of_nat (length data)" "lastFragment (mk_frag off data b) = (\<not> b)"
  by (simp_all add: mk_frag_def)

lemma slices_chain:
  "off + length (concat ps) < 2 ^ 32 \<Longrightarrow> \<forall>p \<in> set ps. p \<noteq> [] \<Longrightarrow>
     chain (slices off ps) \<and> (\<forall>f \<in> set (slices off ps). off \<le> unat (fragOffset f))"
proof (induction off ps rule: slices.induct)
  case (2 off p ps)
  then have IH: "chain (slices (off + length p) ps)"
    "\<forall>f \<in> set (slices (off + length p) ps). off + length p \<le> unat (fragOffset f)" by simp_all
  have e: "unat (of_nat off :: u32) = off" "unat (of_nat (length p) :: u32) = length p"
    using 2(2) by (simp_all add: unat_of_len)
  have "0 < length p" using 2(3) by simp
  have o: "off + length p \<le> unat (fragOffset f)" if "f \<in> set (slices (off + length p) ps)" for f
    using IH(2) that by (rule bspec)
  have "(of_nat off :: u32) < fragOffset f" if "f \<in> set (slices (off + length p) ps)" for f
  proof -
    from o [OF that] \<open>0 < length p\<close> have "off < unat (fragOffset f)" by linarith
    with e show ?thesis by (simp add: word_less_nat_alt)
  qed
  moreover have "off \<le> unat (fragOffset f)" if "f \<in> set (slices (off + length p) ps)" for f
    using o [OF that] by linarith
  ultimately show ?case using IH e 2(2) by (simp add: chain_Cons fr_end_def)
qed (simp add: chain_def)

lemma slices_bound:
  "chain (slices off ps) \<Longrightarrow> off < 2 ^ 32 \<Longrightarrow> off + length (concat ps) < 2 ^ 32"
proof (induction off ps rule: slices.induct)
  case (2 off p ps)
  then have "off + length p < 2 ^ 32" by (simp add: chain_Cons fr_end_def unat_of_len)
  with 2 show ?case by (simp add: chain_Cons)
qed simp

lemma slices_size: "calculatePacketSize (slices off ps) = of_nat (length (concat ps))"
  if "chain (slices off ps)"
  using that
proof (induction off ps rule: slices.induct)
  case (2 off p ps)
  then have "length p < 2 ^ 32" by (simp add: chain_Cons fr_end_def)
  then have "ucast (of_nat (length p) :: u32) = (of_nat (length p) :: u64)"
    by (simp add: word_unat_eq_iff ucast_u32 unsigned_of_nat take_bit_nat_eq_self)
  with 2 show ?case by (simp add: chain_Cons)
qed simp

lemma slices_copy:
  "chain (slices off ps) \<Longrightarrow> length buf = off + length (concat ps) \<Longrightarrow> off < 2 ^ 32 \<Longrightarrow>
     copy_frags (slices off ps) buf = Some (take off buf @ concat ps)"
proof (induction off ps arbitrary: buf rule: slices.induct)
  case (2 off p ps)
  then have b: "off + length p < 2 ^ 32" by (simp add: chain_Cons fr_end_def unat_of_len)
  then have e: "unat (of_nat off :: u32) = off" "unat (of_nat (length p) :: u32) = length p"
    by (simp_all add: unat_of_len)
  let ?buf = "take off buf @ p @ drop (off + length p) buf"
  have "length ?buf = (off + length p) + length (concat ps)" using 2(3) by simp
  moreover have "take (off + length p) ?buf = take off buf @ p" using 2(3) by simp
  ultimately show ?case using 2(1) [of ?buf] 2(2,3) b e by (simp add: chain_Cons)
qed simp

lemma slices_complete: "ps \<noteq> [] \<Longrightarrow> complete_scan (of_nat off) (slices off ps) = (True, False)"
  by (induction off ps rule: slices.induct) auto

lemma complete_slices:
  "complete_scan (of_nat off) fs = (True, b) \<Longrightarrow> \<forall>f \<in> set fs. length (frag_data f) = unat (fragSize f) \<Longrightarrow>
     fs = slices off (map frag_data fs) \<and> \<not> b"
proof (induction fs arbitrary: off)
  case (Cons f fs)
  from Cons.prems have o: "fragOffset f = of_nat off" and l: "length (frag_data f) = unat (fragSize f)"
    by (simp_all split: if_splits)
  from l have sz: "fragSize f = of_nat (length (frag_data f))" by simp
  show ?case
  proof (cases "lastFragment f")
    case True
    with Cons.prems(1) o sz show ?thesis by (simp add: mk_frag_def split: if_splits)
  next
    case False
    with Cons.prems(1) o sz have "complete_scan (of_nat (off + length (frag_data f))) fs = (True, b)" by simp
    from Cons.IH [OF this] Cons.prems have IH: "fs = slices (off + length (frag_data f)) (map frag_data fs)" "\<not> b"
      by simp_all
    moreover from False Cons.prems(1) o have "fs \<noteq> []" by auto
    ultimately show ?thesis using False o sz by (simp add: mk_frag_def)
  qed
qed simp

text \<open>A complete list is copied without leaving the buffer.\<close>

lemma complete_copy:
  assumes "chain fs" and "complete_scan 0 fs = (True, b)"
  shows "copy_frags fs (map junk [0..<unat (calculatePacketSize fs)]) = Some (concat (map frag_data fs)) \<and>
    fs = slices 0 (map frag_data fs)"
proof -
  have s: "fs = slices 0 (map frag_data fs)"
    using complete_slices [of 0 fs b] assms by (simp add: chain_def)
  then have c: "chain (slices 0 (map frag_data fs))" using assms(1) by simp
  have "length (concat (map frag_data fs)) < 2 ^ 32" using slices_bound [OF c] by simp
  then have "unat (calculatePacketSize fs) = length (concat (map frag_data fs))"
    using slices_size [OF c] s [symmetric] by (simp add: unsigned_of_nat take_bit_nat_eq_self)
  with slices_copy [OF c, of "map junk [0..<unat (calculatePacketSize fs)]"] s show ?thesis by simp
qed

section \<open>Passing the fragments of a datagram\<close>

lemma chain_distinct: "chain (as @ f # bs) \<Longrightarrow> f \<notin> set as \<and> f \<notin> set bs"
  by (auto simp: chain_append chain_Cons)

lemma pass_loop_nomatch:
  "\<forall>l \<in> set ls. \<not> isMatchingFragmentList l fam src dst ident \<Longrightarrow>
     pass_loop fam src dst proto ident f sz (ls @ ms) =
       (case pass_loop fam src dst proto ident f sz ms of (ms', out) \<Rightarrow> (ls @ ms', out))"
  by (induction ls) (auto split: prod.splits)

text \<open>The list of the fragments of \<open>full\<close> that are in \<open>S\<close>, after one of \<open>full\<close> was passed.\<close>

lemma pass_frags_filter:
  assumes "chain full" and "f \<in> set full" and "S \<inter> set full \<noteq> {}"
    and "sz = of_nat (length (frag_data f))"
  shows "pass_frags f sz (filter (\<lambda>g. g \<in> S) full) =
    (if f \<in> S then Rejected else Placed (filter (\<lambda>g. g \<in> insert f S) full))"
proof (cases "f \<in> S")
  case True
  with assms(2) pass_frags_dup [OF chain_filter [OF assms(1)], of f "\<lambda>g. g \<in> S" f] show ?thesis by simp
next
  case False
  from assms(2) obtain as bs where full: "full = as @ f # bs" by (meson split_list)
  with assms(1) chain_distinct have d: "f \<notin> set as" "f \<notin> set bs" by auto
  let ?F = "filter (\<lambda>g. g \<in> S)" and ?G = "filter (\<lambda>g. g \<in> insert f S)"
  have eq: "?G as = ?F as" "?G bs = ?F bs" using d by (auto intro!: filter_cong)
  have c: "chain (?F as @ f # ?F bs)"
    using chain_filter [OF assms(1), of "\<lambda>g. g \<in> insert f S"] full eq by simp
  have "?F as @ ?F bs \<noteq> []" using assms(3) full False by (auto simp: filter_empty_conv)
  with pass_frags_fits [OF c _ assms(4)] full False eq show ?thesis by simp
qed

fun pass_all :: "int \<Rightarrow> u8 list \<Rightarrow> u8 list \<Rightarrow> int \<Rightarrow> u32 \<Rightarrow> (u64 \<times> IPFragment) list \<Rightarrow> IPFragmentList list \<Rightarrow>
    IPFragmentList list option" where
  "pass_all fam src dst proto ident [] ls = Some ls"
| "pass_all fam src dst proto ident ((ticks, f) # fs) ls =
     (case ipreasmPass ticks fam src dst proto ident (fragOffset f) (frag_data f) (\<not> lastFragment f) ls of
        None \<Rightarrow> None
      | Some (ls', _) \<Rightarrow> pass_all fam src dst proto ident fs ls')"

lemma slices_mk: "f \<in> set (slices off ps) \<Longrightarrow> mk_frag (fragOffset f) (frag_data f) (\<not> lastFragment f) = f"
  by (induction off ps rule: slices.induct) (auto simp: mk_frag_def)

lemma pass_all_slices:
  assumes "chain (slices 0 ps)" and "\<forall>l \<in> set ls. \<not> isMatchingFragmentList l fam src dst ident"
    and "snd ` set fs \<subseteq> set (slices 0 ps)" and "S \<subseteq> set (slices 0 ps)" and "S \<noteq> {}"
    and "isMatchingFragmentList L fam src dst ident" and "fl_proto L = proto"
  shows "pass_all fam src dst proto ident fs (ls @ [L\<lparr>fl_frags := filter (\<lambda>g. g \<in> S) (slices 0 ps)\<rparr>]) =
    Some (ls @ [L\<lparr>fl_frags := filter (\<lambda>g. g \<in> S \<union> snd ` set fs) (slices 0 ps)\<rparr>])"
  using assms(3-5)
proof (induction fs arbitrary: S)
  case (Cons e fs)
  obtain ticks f where e: "e = (ticks, f)" by (cases e)
  with Cons.prems have f: "f \<in> set (slices 0 ps)" by simp
  let ?L = "\<lambda>S. L\<lparr>fl_frags := filter (\<lambda>g. g \<in> S) (slices 0 ps)\<rparr>"
  have p: "pass_frags f (of_nat (length (frag_data f))) (filter (\<lambda>g. g \<in> S) (slices 0 ps)) =
    (if f \<in> S then Rejected else Placed (filter (\<lambda>g. g \<in> insert f S) (slices 0 ps)))"
    using pass_frags_filter [OF assms(1) f _ refl] Cons.prems(2,3) by blast
  have m: "isMatchingFragmentList (L\<lparr>fl_frags := x\<rparr>) fam src dst ident" for x
    using assms(6) by (simp add: isMatchingFragmentList_def)
  have "ipreasmPass ticks fam src dst proto ident (fragOffset f) (frag_data f) (\<not> lastFragment f) (ls @ [?L S]) =
    Some (ls @ [?L (insert f S)], f \<notin> S)"
    using p slices_mk [OF f] assms(7) m
    by (cases "f \<in> S")
      (simp_all add: ipreasmPass_def Let_def pass_loop_nomatch [OF assms(2)] insert_absorb del: insert_iff)
  moreover have "pass_all fam src dst proto ident fs (ls @ [?L (insert f S)]) =
    Some (ls @ [?L (insert f S \<union> snd ` set fs)])"
    using Cons.prems f e by (intro Cons.IH) auto
  ultimately show ?case using e by simp
qed simp

lemma reasm_scan_snoc:
  "reasm_scan now junk i e (ls @ [L]) =
     (case reasm_scan now junk i e ls of
        None \<Rightarrow> None
      | Some (ps, ls', e') \<Rightarrow> map_option (\<lambda>(ps', ls'', e''). (ps @ ps', ls' @ ls'', e''))
          (reasm_scan now junk (i + length ls) e' [L]))"
proof (induction ls arbitrary: i e)
  case (Cons l ls)
  show ?case
    by (auto simp: Cons.IH split: option.splits prod.splits if_splits)
qed (auto simp: option.map_id split: option.splits prod.splits)

section \<open>Arbitrary fragments\<close>

text \<open>
  The lists under any sequence of calls; \<open>rs_seen\<close> are the fragments passed so far with
  their addresses, protocol and identification, \<open>rs_out\<close> the packets delivered.
\<close>

type_synonym frag_key = "int \<times> u8 list \<times> u8 list \<times> int \<times> u32"

definition list_key :: "IPFragmentList \<Rightarrow> frag_key" where
  "list_key l = (fl_family l, fl_src l, fl_dst l, fl_proto l, fl_id l)"

record reasm =
  rs_lists :: "IPFragmentList list"
  rs_seen :: "(frag_key \<times> IPFragment) set"
  rs_out :: "transport list"

inductive reasm_step :: "reasm \<Rightarrow> reasm \<Rightarrow> bool" where
  pass: "ipreasmPass ticks fam src dst proto ident off data moreFrags (rs_lists \<sigma>) = Some (ls, b) \<Longrightarrow>
    unat off + length data < 2 ^ 32 \<Longrightarrow>
    reasm_step \<sigma> (\<sigma>\<lparr>rs_lists := ls,
      rs_seen := insert ((fam, src, dst, proto, ident), mk_frag off data moreFrags) (rs_seen \<sigma>)\<rparr>)"
| round: "ipreasmThread now junk (rs_lists \<sigma>) = Some (ps, ls, w) \<Longrightarrow>
    reasm_step \<sigma> (\<sigma>\<lparr>rs_lists := ls, rs_out := rs_out \<sigma> @ ps\<rparr>)"

inductive reasm_reach :: "reasm \<Rightarrow> bool" where
  start: "reasm_reach \<lparr>rs_lists = [], rs_seen = {}, rs_out = []\<rparr>"
| step: "reasm_reach \<sigma> \<Longrightarrow> reasm_step \<sigma> \<sigma>' \<Longrightarrow> reasm_reach \<sigma>'"

definition list_ok :: "(frag_key \<times> IPFragment) set \<Rightarrow> IPFragmentList \<Rightarrow> bool" where
  "list_ok S l \<longleftrightarrow> fl_frags l \<noteq> [] \<and> chain (fl_frags l) \<and> (\<forall>f \<in> set (fl_frags l). (list_key l, f) \<in> S)"

text \<open>A packet is genuine when it is a datagram all of whose fragments were received.\<close>

definition genuine :: "(frag_key \<times> IPFragment) set \<Rightarrow> transport \<Rightarrow> bool" where
  "genuine S p \<longleftrightarrow> (\<exists>l parts. p = deliver l (concat parts) \<and> parts \<noteq> [] \<and>
     (\<forall>f \<in> set (slices 0 parts). (list_key l, f) \<in> S))"

lemma genuine_mono: "genuine S p \<Longrightarrow> S \<subseteq> T \<Longrightarrow> genuine T p"
  unfolding genuine_def by blast

lemma list_ok_mono: "list_ok S l \<Longrightarrow> S \<subseteq> T \<Longrightarrow> list_ok T l"
  by (auto simp: list_ok_def)

lemma place_scan_chain:
  assumes "place_scan f sz fs = Some fs'" and "chain fs" and "fs \<noteq> []" and "fragOffset (hd fs) \<le> fragOffset f"
    and "fr_end f < 2 ^ 32" and "length (frag_data f) = unat (fragSize f)" and "sz = of_nat (length (frag_data f))"
  shows "chain fs' \<and> set fs' \<subseteq> insert f (set fs) \<and> fs' \<noteq> []"
  using assms
proof (induction f sz fs arbitrary: fs' rule: place_scan.induct)
  case (2 f sz s)
  have "unat (fragOffset s + fragSize s) = fr_end s" using 2(2) by (intro u32_end) (simp add: chain_Cons)
  with 2 show ?case by (auto simp: chain_Cons chain_def word_less_nat_alt split: if_splits)
next
  case (3 f sz s t rest)
  have e: "unat (fragOffset s + fragSize s) = fr_end s" using 3(3) by (intro u32_end) (simp add: chain_Cons)
  have s: "fragOffset s < fragOffset f" using 3(2,5) by (auto split: if_splits)
  show ?case
  proof (cases "fragOffset t > fragOffset f")
    case True
    with 3(2) s have c: "\<not> fragOffset s + fragSize s > fragOffset f" "fs' = s # f # t # rest"
      "\<not> ucast (fragOffset f) + sz > (ucast (fragOffset t) :: u64)" by (auto split: if_splits)
    have "fr_end f \<le> unat (fragOffset t)"
      using c(3) 3(6,7,8) u64_end [of "fragOffset f" "unat (fragSize f)"]
      by (simp add: word_less_nat_alt ucast_u32 fr_end_def)
    with c 3(3,6,7) s e True show ?thesis by (fastforce simp: chain_Cons word_less_nat_alt)
  next
    case False
    with 3(2) s obtain fs2 where p: "place_scan f sz (t # rest) = Some fs2" "fs' = s # fs2"
      by (auto split: if_splits)
    from 3(3) have c: "chain (t # rest)" by (simp add: chain_Cons)
    have ih: "chain fs2 \<and> set fs2 \<subseteq> insert f (set (t # rest)) \<and> fs2 \<noteq> []"
      using 3(1) [OF _ _ p(1) c] 3(6-8) s False by auto
    have f: "fr_end s \<le> unat (fragOffset f)"
      using 3(3) False by (auto simp: chain_Cons word_less_nat_alt)
    have "fragOffset s < fragOffset g \<and> fr_end s \<le> unat (fragOffset g)" if "g \<in> set fs2" for g
      using ih that 3(3) f s by (auto simp: chain_Cons)
    with ih p 3(3) show ?thesis by (auto simp: chain_Cons)
  qed
qed simp

lemma pass_frags_chain:
  assumes "chain fs" and "fs \<noteq> []" and "unat off + length data < 2 ^ 32" and "f = mk_frag off data b"
  shows "pass_frags f (of_nat (length data)) fs \<noteq> Faulted" and
    "pass_frags f (of_nat (length data)) fs = Placed fs' \<Longrightarrow> chain fs' \<and> set fs' \<subseteq> insert f (set fs) \<and> fs' \<noteq> []"
proof -
  from assms(2) obtain s rest where fs: "fs = s # rest" by (cases fs) auto
  have f: "fr_end f < 2 ^ 32" "length (frag_data f) = unat (fragSize f)" "fragOffset f = off" "frag_data f = data"
    using assms(3,4) by (simp_all add: fr_end_def unat_of_len)
  show "pass_frags f (of_nat (length data)) fs \<noteq> Faulted"
    using fs by (auto simp: pass_frags_def split: option.splits)
  assume p: "pass_frags f (of_nat (length data)) fs = Placed fs'"
  show "chain fs' \<and> set fs' \<subseteq> insert f (set fs) \<and> fs' \<noteq> []"
  proof (cases "fragOffset s > fragOffset f")
    case True
    with p fs have "fs' = f # fs" "\<not> ucast (fragOffset f) + of_nat (length data) > (ucast (fragOffset s) :: u64)"
      by (auto simp: pass_frags_def split: if_splits)
    moreover from this(2) have e: "fr_end f \<le> unat (fragOffset s)"
      using f u64_end [of "fragOffset f" "length data"] assms(3)
      by (simp add: word_less_nat_alt ucast_u32 fr_end_def)
    moreover have "fragOffset f < fragOffset g \<and> fr_end f \<le> unat (fragOffset g)" if "g \<in> set fs" for g
      using that e True assms(1) fs by (auto simp: chain_Cons word_less_nat_alt)
    ultimately show ?thesis using assms(1) f by (auto simp: chain_Cons)
  next
    case False
    with p fs have "place_scan f (of_nat (length data)) fs = Some fs'"
      by (auto simp: pass_frags_def split: option.splits)
    from place_scan_chain [OF this assms(1,2)] False fs f show ?thesis by simp
  qed
qed

lemma pass_loop_ok:
  assumes "\<forall>l \<in> set ls. list_ok S l" and "unat off + length data < 2 ^ 32" and "f = mk_frag off data b"
    and "pass_loop fam src dst proto ident f (of_nat (length data)) ls = (ls', out)"
  shows "out \<noteq> PassFault \<and> (\<forall>l \<in> set ls'. list_ok (insert ((fam, src, dst, proto, ident), f) S) l)"
  using assms(1,4)
proof (induction ls arbitrary: ls' out)
  case (Cons l ls)
  let ?S = "insert ((fam, src, dst, proto, ident), f) S"
  obtain ls2 out2 where r: "pass_loop fam src dst proto ident f (of_nat (length data)) ls = (ls2, out2)" by fastforce
  from Cons r have IH: "out2 \<noteq> PassFault" "\<forall>l \<in> set ls2. list_ok ?S l" by auto
  have ok: "\<forall>l \<in> set (l # ls). list_ok ?S l"
    using Cons.prems(1) by (auto intro: list_ok_mono [OF _ subset_insertI])
  from Cons.prems(1) have l: "chain (fl_frags l)" "fl_frags l \<noteq> []" "list_ok S l" by (simp_all add: list_ok_def)
  note pf = pass_frags_chain [OF l(1,2) assms(2,3)]
  show ?case
  proof (cases "isMatchingFragmentList l fam src dst ident \<and> fl_proto l = proto")
    case True
    then have k: "list_key l = (fam, src, dst, proto, ident)"
      by (simp add: isMatchingFragmentList_def list_key_def)
    show ?thesis
    proof (cases "pass_frags f (of_nat (length data)) (fl_frags l)")
      case (Placed fs')
      from pf(2) [OF Placed] l(3) k have "list_ok ?S (l\<lparr>fl_frags := fs'\<rparr>)"
        by (auto simp: list_ok_def list_key_def)
      with Placed True Cons.prems(2) r IH show ?thesis by (auto split: passed.splits)
    qed (use True Cons.prems(2) ok pf(1) in auto)
  next
    case False
    with Cons.prems(2) r IH ok show ?thesis by (auto split: if_splits)
  qed
qed simp

lemma ipreasmPass_ok:
  assumes "\<forall>l \<in> set ls. list_ok S l" and "unat off + length data < 2 ^ 32"
  shows "\<exists>ls' b. ipreasmPass ticks fam src dst proto ident off data m ls = Some (ls', b) \<and>
    (\<forall>l \<in> set ls'. list_ok (insert ((fam, src, dst, proto, ident), mk_frag off data m) S) l)"
proof -
  obtain ls2 out where r: "pass_loop fam src dst proto ident (mk_frag off data m) (of_nat (length data)) ls = (ls2, out)"
    by fastforce
  from pass_loop_ok [OF assms refl r]
  have ok: "out \<noteq> PassFault" "\<forall>l \<in> set ls2. list_ok (insert ((fam, src, dst, proto, ident), mk_frag off data m) S) l"
    by blast+
  have "chain [mk_frag off data m]" using assms(2) by (simp add: chain_def fr_end_def unat_of_len)
  with r ok show ?thesis
    by (cases out rule: passed.exhaust) (auto simp: ipreasmPass_def Let_def list_ok_def list_key_def split: bool.splits)
qed

lemma reasm_scan_ok:
  "\<forall>l \<in> set ls. list_ok S l \<Longrightarrow> \<exists>ps ls' e'. reasm_scan now junk i e ls = Some (ps, ls', e') \<and>
     (\<forall>l \<in> set ls'. list_ok S l) \<and> (\<forall>p \<in> set ps. genuine S p)"
proof (induction ls arbitrary: i e)
  case (Cons l ls)
  from Cons have IH: "\<exists>ps ls' e'. reasm_scan now junk (i + 1) e1 ls = Some (ps, ls', e') \<and>
     (\<forall>l \<in> set ls'. list_ok S l) \<and> (\<forall>p \<in> set ps. genuine S p)" for e1 by simp
  from Cons.prems have l: "list_ok S l" by simp
  show ?case
  proof (cases "now i \<ge> word_of_int (fl_deadline l)")
    case True
    with IH show ?thesis by simp
  next
    case False
    obtain c inv where s: "complete_scan 0 (fl_frags l) = (c, inv)" by fastforce
    have k: "list_ok S (l\<lparr>fl_deadline := 1\<rparr>)" using l by (simp add: list_ok_def list_key_def)
    show ?thesis
    proof (cases c)
      case True
      from l s True have fs: "copy_frags (fl_frags l) (map junk [0..<unat (calculatePacketSize (fl_frags l))]) =
          Some (concat (map frag_data (fl_frags l)))" "fl_frags l = slices 0 (map frag_data (fl_frags l))"
        using complete_copy [of "fl_frags l" inv junk] by (auto simp: list_ok_def)
      have "\<not> inv" using complete_slices [of 0 "fl_frags l" inv] l s True by (simp add: list_ok_def chain_def)
      moreover have "genuine S (deliver l (concat (map frag_data (fl_frags l))))"
        unfolding genuine_def using l fs(2) by (metis list_ok_def map_is_Nil_conv)
      ultimately show ?thesis using IH [of e] False s True fs(1) by (fastforce simp: isFragmentListComplete_def)
    next
      case inc: False
      define l2 where "l2 = (if inv then l\<lparr>fl_deadline := 1\<rparr> else l)"
      have "list_ok S l2" using l k by (simp add: l2_def)
      with IH [of "if fl_deadline l2 < e then fl_deadline l2 else e"] False inc s show ?thesis
        by (auto simp: isFragmentListComplete_def l2_def [symmetric])
    qed
  qed
qed simp

lemma ipreasmThread_ok:
  assumes "\<forall>l \<in> set ls. list_ok S l"
  shows "\<exists>ps ls' w. ipreasmThread now junk ls = Some (ps, ls', w) \<and>
     (\<forall>l \<in> set ls'. list_ok S l) \<and> (\<forall>p \<in> set ps. genuine S p)"
proof (cases ls)
  case (Cons l ls2)
  from reasm_scan_ok [OF assms, of now junk 0 "fl_deadline l"] Cons show ?thesis
    unfolding ipreasmThread_def by fastforce
qed (simp add: ipreasmThread_def)

lemma reasm_reach_ok:
  "reasm_reach \<sigma> \<Longrightarrow> (\<forall>l \<in> set (rs_lists \<sigma>). list_ok (rs_seen \<sigma>) l) \<and> (\<forall>p \<in> set (rs_out \<sigma>). genuine (rs_seen \<sigma>) p)"
proof (induction rule: reasm_reach.induct)
  case (step \<sigma> \<sigma>')
  from step.hyps(2) step.IH show ?case
  proof (induction rule: reasm_step.induct)
    case (pass ticks fam src dst proto ident off data m \<sigma> ls b)
    with ipreasmPass_ok [of "rs_lists \<sigma>" "rs_seen \<sigma>" off data ticks fam src dst proto ident m]
    show ?case by (auto intro: genuine_mono)
  next
    case (round now junk \<sigma> ps ls w)
    with ipreasmThread_ok [of "rs_lists \<sigma>" "rs_seen \<sigma>" now junk] show ?case by auto
  qed
qed simp

section \<open>Properties\<close>

text \<open>C11: reassembly: whatever the order in which the fragments of a datagram arrive and however often
  each is repeated, once all have arrived the reassembler, in a round before the deadline of 60
  seconds, passes on exactly the datagram, besides what it does with the other lists.\<close>
theorem ipreasm_reassembles:
  assumes "parts \<noteq> []" and "\<forall>p \<in> set parts. p \<noteq> []" and "length (concat parts) < 2 ^ 32"
    and "\<forall>l \<in> set ls. \<not> isMatchingFragmentList l fam src dst ident"
    and "snd ` set ((t, f) # fs) = set (slices 0 parts)"
    and "uint t + 60000 < 2 ^ 31" and "\<forall>i. uint (now i) < uint t + 60000"
  shows "\<exists>L. pass_all fam src dst proto ident ((t, f) # fs) ls = Some (ls @ [L]) \<and>
    reasm_scan now junk 0 e (ls @ [L]) =
      map_option (\<lambda>(ps, ls', e'). (ps @ [if fam = AF_INET then Packet4 (take 4 src) (take 4 dst) proto (concat parts)
                                       else Packet6 (take 16 src) (take 16 dst) proto (concat parts)], ls', e'))
        (reasm_scan now junk 0 e ls)"
proof -
  let ?full = "slices 0 parts"
  from slices_chain [of 0 parts] assms(2,3) have c: "chain ?full" by simp
  from assms(5) have f: "f \<in> set ?full" by auto
  define L where "L = \<lparr>fl_family = fam, fl_deadline = uint t + 60000, fl_src = src, fl_dst = dst,
    fl_id = ident, fl_proto = proto, fl_frags = ?full\<rparr>"
  have one: "filter (\<lambda>g. g \<in> {f}) ?full = [f]"
  proof -
    from f obtain as bs where full: "?full = as @ f # bs" by (meson split_list)
    with c chain_distinct have "f \<notin> set as" "f \<notin> set bs" by auto
    then have "filter (\<lambda>g. g = f) as = []" "filter (\<lambda>g. g = f) bs = []" by (auto simp: filter_empty_conv)
    with full show ?thesis by simp
  qed
  have t: "uint (t + 60000) = uint t + 60000" using assms(6) uint_ge_0 [of t] by (simp add: uint_word_ariths)
  with assms(6) have tick: "c_int_of_u64 (t + 60000) = uint t + 60000" by (simp add: c_int_of_u64_id)
  have "ipreasmPass t fam src dst proto ident (fragOffset f) (frag_data f) (\<not> lastFragment f) ls =
    Some (ls @ [L\<lparr>fl_frags := [f]\<rparr>], True)"
    using pass_loop_nomatch [OF assms(4), of proto _ _ "[]"] slices_mk [OF f] tick
    by (simp add: ipreasmPass_def Let_def L_def)
  moreover have "pass_all fam src dst proto ident fs (ls @ [L\<lparr>fl_frags := filter (\<lambda>g. g \<in> {f}) ?full\<rparr>]) =
    Some (ls @ [L\<lparr>fl_frags := filter (\<lambda>g. g \<in> {f} \<union> snd ` set fs) ?full\<rparr>])"
    using assms(5) f by (intro pass_all_slices [OF c assms(4)]) (auto simp: L_def isMatchingFragmentList_def)
  moreover have "filter (\<lambda>g. g \<in> {f} \<union> snd ` set fs) ?full = ?full"
    using assms(5) by (auto intro: filter_True)
  ultimately have all: "pass_all fam src dst proto ident ((t, f) # fs) ls = Some (ls @ [L])"
    using one by (simp add: L_def)
  have L: "reasm_scan now junk j e' [L] =
    Some ([if fam = AF_INET then Packet4 (take 4 src) (take 4 dst) proto (concat parts)
           else Packet6 (take 16 src) (take 16 dst) proto (concat parts)], [], e')" for j e'
  proof -
    have "\<not> word_of_int (uint t + 60000) \<le> now j"
      using assms(7) t by (simp add: word_le_def not_le)
    moreover have "complete_scan 0 ?full = (True, False)" using slices_complete [OF assms(1), of 0] by simp
    moreover have "copy_frags ?full (map junk [0..<unat (calculatePacketSize ?full)]) = Some (concat parts)"
      using slices_copy [OF c] slices_size [OF c] assms(3) by (simp add: unsigned_of_nat take_bit_nat_eq_self)
    ultimately show ?thesis by (simp add: L_def isFragmentListComplete_def deliver_def)
  qed
  have "reasm_scan now junk 0 e (ls @ [L]) =
      map_option (\<lambda>(ps, ls', e'). (ps @ [if fam = AF_INET then Packet4 (take 4 src) (take 4 dst) proto (concat parts)
                                       else Packet6 (take 16 src) (take 16 dst) proto (concat parts)], ls', e'))
        (reasm_scan now junk 0 e ls)"
    by (subst reasm_scan_snoc, cases "reasm_scan now junk 0 e ls" rule: option.exhaust; (elim prod_cases3)?)
      (simp_all only: L option.case option.map prod.case append_Nil2, auto)
  with all show ?thesis by blast
qed

theorem ipreasm_reassembles_witness:
  "\<exists>L. pass_all AF_INET (replicate 16 9) (replicate 16 8) 17 5
      [(100, mk_frag 2 [3, 4] True), (200, mk_frag 4 [5] False), (201, mk_frag 2 [3, 4] True), (300, mk_frag 0 [1, 2] True)] [] =
      Some [L] \<and>
    reasm_scan (\<lambda>i. 301) (\<lambda>i. 0) 0 0 [L] = Some ([Packet4 (replicate 4 9) (replicate 4 8) 17 [1, 2, 3, 4, 5]], [], 0)"
proof -
  have "snd ` set ((100, mk_frag 2 [3, 4] True) # [(200, mk_frag 4 [5] False), (201, mk_frag 2 [3, 4] True),
    (300, mk_frag 0 [1, 2] True)]) = set (slices 0 [[1, 2], [3, 4], [5]])" by auto
  then show ?thesis
    using ipreasm_reassembles [of "[[1, 2], [3, 4], [5]]" "[]" AF_INET "replicate 16 9" "replicate 16 8" 5 100
      "mk_frag 2 [3, 4] True" _ "\<lambda>i. 301" 17 "\<lambda>i. 0" 0]
    by (simp del: pass_all.simps reasm_scan.simps(2))
qed


text \<open>C12: whatever fragments arrive, overlapping, repeated or contradicting each other, the lists stay
  sorted and disjoint, no call runs off the end of a list or of the packet's buffer, and a packet
  is passed on only if it is a datagram all of whose fragments were received with the same
  addresses, protocol and identification.\<close>
theorem ipreasm_genuine:
  assumes "reasm_reach \<sigma>" and "unat off + length data < 2 ^ 32"
  shows "(\<forall>p \<in> set (rs_out \<sigma>). genuine (rs_seen \<sigma>) p) \<and> (\<forall>l \<in> set (rs_lists \<sigma>). chain (fl_frags l)) \<and>
    ipreasmPass ticks fam src dst proto ident off data m (rs_lists \<sigma>) \<noteq> None \<and>
    ipreasmThread now junk (rs_lists \<sigma>) \<noteq> None"
proof -
  from reasm_reach_ok [OF assms(1)] have ok: "\<forall>l \<in> set (rs_lists \<sigma>). list_ok (rs_seen \<sigma>) l"
    "\<forall>p \<in> set (rs_out \<sigma>). genuine (rs_seen \<sigma>) p" by blast+
  from ipreasmPass_ok [OF ok(1) assms(2)] ipreasmThread_ok [OF ok(1)] ok show ?thesis
    by (fastforce simp: list_ok_def)
qed

theorem ipreasm_genuine_witness:
  "\<exists>ls. ipreasmPass 0 AF_INET [] [] 17 5 0 [1, 2] True [] = Some (ls, True) \<and>
    ipreasmPass 0 AF_INET [] [] 17 5 1 [9] False ls \<noteq> None"
proof -
  obtain ls where p: "ipreasmPass 0 AF_INET [] [] 17 5 0 [1, 2] True [] = Some (ls, True)"
    by (simp add: ipreasmPass_def Let_def)
  have "reasm_reach \<lparr>rs_lists = ls, rs_seen = {((AF_INET, [], [], 17, 5), mk_frag 0 [1, 2] True)}, rs_out = []\<rparr>"
    using reasm_reach.step [OF reasm_reach.start reasm_step.pass] p by fastforce
  from ipreasm_genuine [OF this, of 1 "[9]" 0 AF_INET "[]" "[]" 17 5 False] p show ?thesis by auto
qed

text \<open>The deadline is kept in an \<open>int\<close>: once the machine has run for 25 days fragments are either
  dropped in the next round, so that nothing is reassembled, or never expire, as at tick 0.\<close>
theorem ipreasm_deadline_wrap:
  assumes "2 ^ 31 \<le> uint t" and "uint t + 60000 < 2 ^ 63"
    and "\<forall>i. uint t \<le> uint (now i) \<and> uint (now i) < 2 ^ 63"
  shows "\<exists>L. ipreasmPass t fam src dst proto ident off data m [] = Some ([L], True) \<and>
    reasm_scan now junk 0 e [L\<lparr>fl_frags := fs\<rparr>] =
      (if (uint t + 60000) mod 2 ^ 32 < 2 ^ 31 then Some ([], [], e)
       else reasm_scan (\<lambda>_. 0) junk 0 e [L\<lparr>fl_frags := fs\<rparr>])"
proof -
  define d where "d = c_int_of_u64 (t + 60000)"
  have t: "uint (t + 60000) = uint t + 60000" using assms(2) uint_ge_0 [of t] by (simp add: uint_word_ariths)
  have d: "d = (if (uint t + 60000) mod 2 ^ 32 < 2 ^ 31 then (uint t + 60000) mod 2 ^ 32
    else (uint t + 60000) mod 2 ^ 32 - 2 ^ 32)"
    unfolding d_def c_int_of_u64_def t by (rule c_int_mod)
  let ?L = "\<lparr>fl_family = fam, fl_deadline = d, fl_src = src, fl_dst = dst, fl_id = ident, fl_proto = proto,
    fl_frags = [mk_frag off data m]\<rparr>"
  have p: "ipreasmPass t fam src dst proto ident off data m [] = Some ([?L], True)"
    by (simp add: ipreasmPass_def Let_def d_def)
  show ?thesis
  proof (cases "(uint t + 60000) mod 2 ^ 32 < 2 ^ 31")
    case True
    then have "0 \<le> d" "d < 2 ^ 31" using d by (auto intro: pos_mod_sign)
    then have "uint (word_of_int d :: u64) = d" by (simp add: uint_word_of_int)
    then have "word_of_int d \<le> now 0" using \<open>d < 2 ^ 31\<close> assms(1) assms(3) [rule_format, of 0] by (simp add: word_le_def)
    with p True show ?thesis by (intro exI [of _ ?L]) simp
  next
    case False
    then have "- (2 ^ 31) \<le> d" "d < 0" using d pos_mod_bound [of "2 ^ 32" "uint t + 60000"] by auto
    then have "uint (word_of_int d :: u64) = d + 2 ^ 64"
      by (simp add: uint_word_of_int mod_pos_pos_trivial [of "d + 2 ^ 64" "2 ^ 64", simplified, symmetric])
    then have "\<not> word_of_int d \<le> now 0" "\<not> word_of_int d \<le> (0 :: u64)"
      using \<open>- (2 ^ 31) \<le> d\<close> assms(3) [rule_format, of 0] by (simp_all add: word_le_def)
    with p False show ?thesis by (intro exI [of _ ?L]) (simp split: prod.split option.split)
  qed
qed

theorem ipreasm_deadline_wrap_witness:
  "\<exists>L. ipreasmPass (4294967296) AF_INET [] [] 17 5 0 [1, 2] True [] = Some ([L], True) \<and>
    reasm_scan (\<lambda>_. 4294967296) (\<lambda>_. 0) 0 0 [L\<lparr>fl_frags := slices 0 [[1, 2], [3]]\<rparr>] = Some ([], [], 0)"
proof -
  have w: "(2 :: int) ^ 31 \<le> uint (4294967296 :: u64)" "uint (4294967296 :: u64) + 60000 < 2 ^ 63"
    "\<forall>i :: nat. uint (4294967296 :: u64) \<le> uint (4294967296 :: u64) \<and> uint (4294967296 :: u64) < 2 ^ 63"
    "(uint (4294967296 :: u64) + 60000) mod 2 ^ 32 < 2 ^ 31" by simp_all
  from ipreasm_deadline_wrap [OF w(1-3), of AF_INET "[]" "[]" 17 5 0 "[1, 2]" True "\<lambda>_. 0" 0
    "slices 0 [[1, 2], [3]]"] show ?thesis unfolding if_P [OF w(4)] .
qed

end
