(* ===== verification/Gx_PhysMem.thy ===== *)
theory Gx_PhysMem
  imports Gx_Prelude
begin

text \<open>
  \<open>kernel/src/hw/physmem.c\<close>: the allocator of physical frames, and the end of \<open>sdTryFree\<close>
  of \<open>kernel/src/storage/storage.c\<close> that gives it frames back. The bitmap is a list of
  bytes; a 16, 32 or 64 bit access of the code is one to that many of its bytes, since the
  machine is little-endian. The multiboot memory map is the list of its entries. An atomic
  instruction and the code around it is run by one processor here.

  What the caches would give up is part of the state: \<open>pm_pages\<close> are the frames that the
  next calls of \<open>ftGetFreePage\<close> return, \<open>pm_tracks\<close> the frames of the tracks that the next
  calls of \<open>sdFreeMemory\<close> drop. \<open>Panic\<close> is \<open>panic()\<close>, of \<open>nomem\<close> among others, or a fault on
  the bitmap.
\<close>

section \<open>State\<close>

record MultibootMemoryMap =
  mb_baseAddr :: u64
  mb_len :: u64
  mb_type :: u32

record physmem =
  pm_placement :: u64
  pm_map :: "MultibootMemoryMap list" \<comment> \<open>\<open>memoryMap\<close>: the entries from it on\<close>
  pm_mapStart :: "MultibootMemoryMap list"
  pm_num :: nat \<comment> \<open>\<open>numSystemFrames\<close>\<close>
  pm_bitmap :: "u8 list option"
  pm_lowest :: nat
  pm_total :: u64
  pm_used :: u64
  pm_pages :: "nat list"
  pm_tracks :: "nat list list"

definition isUseableMemory :: "MultibootMemoryMap \<Rightarrow> bool" where
  "isUseableMemory m \<longleftrightarrow> (if mb_type m \<noteq> 1 then False else if has (mb_baseAddr m) 0xFFF then False else True)"

definition isFrameInArea :: "MultibootMemoryMap \<Rightarrow> u64 \<Rightarrow> bool" where
  "isFrameInArea m frame =
     (let mmapStartFrame = mb_baseAddr m div 0x1000;
          mmapNumFrames = mb_len m div 0x1000;
          mmapEndFrame = mmapStartFrame + mmapNumFrames
      in frame \<ge> mmapStartFrame \<or> frame < mmapEndFrame)"

text \<open>The loop of \<open>initPhysMem\<close>: whether it ends before the end of the map.\<close>

fun area_scan :: "u64 \<Rightarrow> MultibootMemoryMap list \<Rightarrow> bool" where
  "area_scan frame [] = False"
| "area_scan frame (m # ms) = (if isUseableMemory m \<and> isFrameInArea m frame then True else area_scan frame ms)"

definition initPhysMem :: "nat \<Rightarrow> MultibootMemoryMap list \<Rightarrow> u64 \<Rightarrow> physmem \<Rightarrow> physmem kres" where
  "initPhysMem numPages mmap endAddr st =
     (let st = st\<lparr>pm_placement := drop_bit 12 endAddr, pm_num := numPages, pm_map := mmap, pm_mapStart := mmap\<rparr>
      in if area_scan (pm_placement st) mmap then Ok st else Panic)"

section \<open>Single frames\<close>

definition clear_bit :: "nat \<Rightarrow> u8 list \<Rightarrow> u8 list" where
  "clear_bit frame bm = bm[frame div 8 := bm ! (frame div 8) AND NOT (push_bit (frame mod 8) 1)]"

definition phmClearFrame :: "nat \<Rightarrow> physmem \<Rightarrow> physmem kres" where
  "phmClearFrame frame st =
     (case pm_bitmap st of
        None \<Rightarrow> Panic
      | Some bm \<Rightarrow> if frame div 8 < length bm then Ok (st\<lparr>pm_bitmap := Some (clear_bit frame bm)\<rparr>) else Panic)"

text \<open>The bit before, and the bitmap with the bit set.\<close>

definition phmTryFrame :: "nat \<Rightarrow> u8 list \<Rightarrow> bool \<times> u8 list" where
  "phmTryFrame frame bm =
     (let b = bm ! (frame div 8)
      in (bit b (frame mod 8), bm[frame div 8 := b OR push_bit (frame mod 8) 1]))"

definition phmFreeFrame :: "nat \<Rightarrow> physmem \<Rightarrow> physmem kres" where
  "phmFreeFrame frame st =
     (if frame = 0 then Panic else phmClearFrame frame (st\<lparr>pm_used := pm_used st - 1\<rparr>))"

fun free_list :: "nat list \<Rightarrow> physmem \<Rightarrow> physmem kres" where
  "free_list [] st = Ok st"
| "free_list (f # fs) st = kbind (phmFreeFrame f st) (free_list fs)"

definition phmFreeFrameEx :: "nat \<Rightarrow> nat \<Rightarrow> physmem \<Rightarrow> physmem kres" where
  "phmFreeFrameEx start n st = free_list [start..<start + n] st"

section \<open>Taking frames from the caches\<close>

definition ftGetFreePage :: "physmem \<Rightarrow> nat \<times> physmem" where
  "ftGetFreePage st = (case pm_pages st of [] \<Rightarrow> (0, st) | f # fs \<Rightarrow> (f, st\<lparr>pm_pages := fs\<rparr>))"

text \<open>\<open>sdTryFree\<close> returns the first frame of the track it drops and frees the seven others.\<close>

definition sdFreeMemory :: "physmem \<Rightarrow> (nat \<times> physmem) kres" where
  "sdFreeMemory st =
     (case pm_tracks st of
        [] \<Rightarrow> Ok (0, st)
      | track # tracks \<Rightarrow> kbind (free_list (tl track) (st\<lparr>pm_tracks := tracks\<rparr>)) (\<lambda>st. Ok (hd track, st)))"

definition frameFromCache :: "physmem \<Rightarrow> (nat \<times> physmem) kres" where
  "frameFromCache st =
     (case ftGetFreePage st of (frame, st) \<Rightarrow> if frame = 0 then sdFreeMemory st else Ok (frame, st))"

text \<open>\<open>True\<close> is 0 and \<open>False\<close> is -1.\<close>

definition tryFreeMemory :: "physmem \<Rightarrow> (bool \<times> physmem) kres" where
  "tryFreeMemory st =
     (case ftGetFreePage st of
        (frame, st) \<Rightarrow>
          if frame = 0 then
            kbind (sdFreeMemory st) (\<lambda>(frame, st).
              if frame = 0 then Ok (False, st) else kbind (phmFreeFrame frame st) (\<lambda>st. Ok (True, st)))
          else kbind (phmFreeFrame frame st) (\<lambda>st. Ok (True, st)))"

section \<open>Allocation\<close>

definition group :: "nat \<Rightarrow> nat \<Rightarrow> u8 list \<Rightarrow> u8 list" where
  "group w i bm = take w (drop (w * i) bm)"

text \<open>The first group of 64 frames that is not all used: \<open>startAt\<close>, 0 if there is none.\<close>

definition find_start :: "nat \<Rightarrow> nat \<Rightarrow> u8 list \<Rightarrow> nat" where
  "find_start lowest limit bm =
     (case find (\<lambda>i. group 8 i bm \<noteq> replicate 8 0xFF) [lowest div 64..<limit div 64] of
        None \<Rightarrow> 0
      | Some i \<Rightarrow> i * 64)"

fun try_scan :: "nat list \<Rightarrow> u8 list \<Rightarrow> (nat \<times> u8 list) option" where
  "try_scan [] bm = None"
| "try_scan (i # is) bm = (case phmTryFrame i bm of (busy, bm') \<Rightarrow> if \<not> busy then Some (i, bm') else try_scan is bm')"

definition from_cache :: "physmem \<Rightarrow> (nat \<times> physmem) kres" where
  "from_cache st = kbind (frameFromCache st) (\<lambda>(result, st). if result = 0 then Panic else Ok (result, st))"

definition phmAllocSingle :: "physmem \<Rightarrow> (nat \<times> physmem) kres" where
  "phmAllocSingle st =
     (case pm_bitmap st of
        None \<Rightarrow> Panic
      | Some bm \<Rightarrow>
          let startAt = find_start (pm_lowest st) (pm_num st) bm in
          if startAt = 0 then from_cache st
          else (case try_scan [startAt..<pm_num st] bm of
                  Some (i, bm) \<Rightarrow> Ok (i, st\<lparr>pm_bitmap := Some bm, pm_used := pm_used st + 1\<rparr>)
                | None \<Rightarrow> from_cache st))"

text \<open>\<open>atomic_compare_and_swap\<close> of a group of \<open>w\<close> bytes from all free to all used.\<close>

definition cas_group :: "nat \<Rightarrow> nat \<Rightarrow> u8 list \<Rightarrow> bool \<times> u8 list" where
  "cas_group w i bm =
     (if group w i bm = replicate w 0
      then (True, take (w * i) bm @ replicate w 0xFF @ drop (w * i + w) bm) else (False, bm))"

fun cas_scan :: "nat \<Rightarrow> nat list \<Rightarrow> u8 list \<Rightarrow> (nat \<times> u8 list) option" where
  "cas_scan w [] bm = None"
| "cas_scan w (i # is) bm = (case cas_group w i bm of (done, bm') \<Rightarrow> if done then Some (i, bm') else cas_scan w is bm')"

text \<open>Each turn of the loops below that frees memory takes something out of the caches.\<close>

definition cache_size :: "physmem \<Rightarrow> nat" where
  "cache_size st = length (pm_pages st) + length (pm_tracks st)"

lemma free_list_caches:
  "free_list fs st = Ok st' \<Longrightarrow> pm_pages st' = pm_pages st \<and> pm_tracks st' = pm_tracks st"
  by (induction fs arbitrary: st)
    (auto simp: kbind_Ok_iff phmFreeFrame_def phmClearFrame_def split: option.splits if_splits)

lemma phmFreeFrame_caches:
  "phmFreeFrame f st = Ok st' \<Longrightarrow> pm_pages st' = pm_pages st \<and> pm_tracks st' = pm_tracks st"
  using free_list_caches [of "[f]" st st'] by simp

lemma sdFreeMemory_caches:
  "sdFreeMemory st = Ok (f, st') \<Longrightarrow> pm_pages st' = pm_pages st \<and> pm_tracks st' = tl (pm_tracks st)"
  by (auto simp: sdFreeMemory_def kbind_Ok_iff dest: free_list_caches split: list.splits)

lemma tryFreeMemory_less: "tryFreeMemory st = Ok (True, st') \<Longrightarrow> cache_size st' < cache_size st"
  by (auto simp: tryFreeMemory_def ftGetFreePage_def sdFreeMemory_def cache_size_def kbind_Ok_iff
      dest!: free_list_caches phmFreeFrame_caches split: list.splits if_splits)

lemma sdFreeMemory_le: "sdFreeMemory st = Ok (f, st') \<Longrightarrow> cache_size st' \<le> cache_size st"
  by (auto simp: cache_size_def dest!: sdFreeMemory_caches)

text \<open>\<open>phmAlloc16\<close>, \<open>phmAlloc32\<close> and \<open>phmAlloc64\<close> are one loop, over groups of \<open>w\<close> bytes.\<close>

function alloc_groups :: "nat \<Rightarrow> physmem \<Rightarrow> (nat \<times> physmem) kres" where
  "alloc_groups w st =
     (case pm_bitmap st of
        None \<Rightarrow> Panic
      | Some bm \<Rightarrow>
          (case cas_scan w [pm_lowest st div (8 * w)..<pm_num st div (8 * w)] bm of
             Some (i, bm) \<Rightarrow> Ok (i * (8 * w), st\<lparr>pm_bitmap := Some bm, pm_used := pm_used st + of_nat (8 * w)\<rparr>)
           | None \<Rightarrow>
               (case tryFreeMemory st of
                  Ok (True, st') \<Rightarrow> alloc_groups w st'
                | _ \<Rightarrow> Panic)))"
  by pat_completeness auto

termination by (relation "measure (\<lambda>(w, st). cache_size st)") (auto dest: tryFreeMemory_less)

definition phmAlloc16 :: "physmem \<Rightarrow> (nat \<times> physmem) kres" where
  "phmAlloc16 st = alloc_groups 2 st"

definition phmAlloc32 :: "physmem \<Rightarrow> (nat \<times> physmem) kres" where
  "phmAlloc32 st = alloc_groups 4 st"

definition phmAlloc64 :: "physmem \<Rightarrow> (nat \<times> physmem) kres" where
  "phmAlloc64 st = alloc_groups 8 st"

function phmAlloc8 :: "physmem \<Rightarrow> (nat \<times> physmem) kres" where
  "phmAlloc8 st =
     (case pm_bitmap st of
        None \<Rightarrow> Panic
      | Some bm \<Rightarrow>
          let startAt = find_start (pm_lowest st) (pm_num st) bm in
          (case (if startAt = 0 then None else cas_scan 1 [startAt div 8..<pm_num st div 8] bm) of
             Some (i, bm) \<Rightarrow> Ok (i * 8, st\<lparr>pm_bitmap := Some bm, pm_used := pm_used st + 8\<rparr>)
           | None \<Rightarrow>
               (case sdFreeMemory st of
                  Panic \<Rightarrow> Panic
                | Ok (result, st') \<Rightarrow>
                    if result = 0 then
                      (case tryFreeMemory st' of
                         Ok (True, st'') \<Rightarrow> phmAlloc8 st''
                       | _ \<Rightarrow> Panic)
                    else Ok (result, st'))))"
  by pat_completeness auto

termination
  by (relation "measure cache_size") (auto dest!: tryFreeMemory_less sdFreeMemory_le)

declare alloc_groups.simps [simp del] phmAlloc8.simps [simp del]

section \<open>The operations\<close>

text \<open>The region loop of \<open>initPhysMem2\<close>.\<close>

fun clear_region :: "nat list \<Rightarrow> physmem \<Rightarrow> physmem kres" where
  "clear_region [] st = Ok st"
| "clear_region (i # is) st =
     (if i \<ge> unat (pm_placement st)
      then kbind (phmClearFrame i st) (\<lambda>st. clear_region is (st\<lparr>pm_total := pm_total st + 1\<rparr>))
      else clear_region is st)"

fun clear_regions :: "MultibootMemoryMap list \<Rightarrow> physmem \<Rightarrow> physmem kres" where
  "clear_regions [] st = Ok st"
| "clear_regions (m # ms) st =
     (if isUseableMemory m then
        let startFrame = mb_baseAddr m div 0x1000; endFrame = (mb_baseAddr m + mb_len m) div 0x1000 + 1
        in kbind (clear_region [unat startFrame..<unat endFrame] st) (clear_regions ms)
      else clear_regions ms st)"

definition initPhysMem2 :: "physmem \<Rightarrow> physmem kres" where
  "initPhysMem2 st =
     kbind (clear_regions (pm_mapStart st)
              (st\<lparr>pm_bitmap := Some (replicate (pm_num st div 8 + 1) 0xFF), pm_total := 0\<rparr>))
       (\<lambda>st. case pm_bitmap st of
               None \<Rightarrow> Panic
             | Some bm \<Rightarrow>
                 let st = (case find (\<lambda>i. bm ! i \<noteq> 0xFF) [0..<pm_num st div 8] of
                             Some i \<Rightarrow> st\<lparr>pm_lowest := i * 8\<rparr>
                           | None \<Rightarrow> st)
                 in Ok (st\<lparr>pm_used := 0\<rparr>))"

fun load_next :: "MultibootMemoryMap list \<Rightarrow> physmem \<Rightarrow> physmem kres" where
  "load_next [] st = Panic"
| "load_next (m # ms) st =
     (if isUseableMemory m then Ok (st\<lparr>pm_map := m # ms, pm_placement := mb_baseAddr m div 0x1000\<rparr>)
      else load_next ms st)"

definition loadNextMemory :: "physmem \<Rightarrow> physmem kres" where
  "loadNextMemory st = load_next (tl (pm_map st)) st"

definition phmAllocFrame :: "physmem \<Rightarrow> (nat \<times> physmem) kres" where
  "phmAllocFrame st =
     (if pm_bitmap st = None then
        case pm_map st of
          [] \<Rightarrow> Panic
        | m # _ \<Rightarrow>
            let mmapStartFrame = mb_baseAddr m div 0x1000;
                mmapNumFrames = mb_len m div 0x1000;
                mmapEndFrame = mmapStartFrame + mmapNumFrames
            in kbind (if mmapEndFrame = pm_placement st then loadNextMemory st else Ok st)
                 (\<lambda>st. Ok (unat (pm_placement st), st\<lparr>pm_placement := pm_placement st + 1\<rparr>))
      else phmAllocSingle st)"

definition phmAllocFrameEx :: "nat \<Rightarrow> physmem \<Rightarrow> (nat \<times> physmem) kres" where
  "phmAllocFrameEx n st =
     (if n = 0 then Ok (0, st)
      else if n = 1 then phmAllocSingle st
      else if n > 64 then Panic
      else
        let (actuallyAllocated, r) =
              (if n > 32 then (64, phmAlloc64 st) else if n > 16 then (32, phmAlloc32 st)
               else if n > 8 then (16, phmAlloc16 st) else (8, phmAlloc8 st))
        in kbind r (\<lambda>(base, st).
             kbind (phmFreeFrameEx (base + n) (actuallyAllocated - n) st) (\<lambda>st. Ok (base, st))))"

section \<open>Frames of the bitmap\<close>

definition used :: "u8 list \<Rightarrow> nat \<Rightarrow> bool" where
  "used bm f \<longleftrightarrow> f div 8 < length bm \<and> bit (bm ! (f div 8)) (f mod 8)"

lemma frame_eq: "f div 8 = g div 8 \<Longrightarrow> f mod 8 = g mod 8 \<longleftrightarrow> f = (g :: nat)"
  by (metis mult_div_mod_eq)

lemma bit_push1: "bit ((2 :: u8) ^ n) k \<longleftrightarrow> k = n \<and> n < 8"
  by (auto simp: bit_exp_iff)

lemma used_clear: "used (clear_bit g bm) f \<longleftrightarrow> used bm f \<and> f \<noteq> g" if "g div 8 < length bm"
  using that frame_eq [of f g]
  by (auto simp: used_def clear_bit_def nth_list_update bit_and_iff bit_not_iff bit_push1)

lemma length_clear [simp]: "length (clear_bit g bm) = length bm"
  by (simp add: clear_bit_def)

lemma used_try:
  assumes "g div 8 < length bm"
  shows "fst (phmTryFrame g bm) = used bm g" and "used (snd (phmTryFrame g bm)) f \<longleftrightarrow> used bm f \<or> f = g"
    and "length (snd (phmTryFrame g bm)) = length bm"
  using assms frame_eq [of f g]
  by (auto simp: used_def phmTryFrame_def Let_def nth_list_update bit_or_iff bit_push1)

lemma group_nth: "w * i + w \<le> length bm \<Longrightarrow> j < w \<Longrightarrow> group w i bm ! j = bm ! (w * i + j)"
  by (simp add: group_def)

lemma length_group: "w * i + w \<le> length bm \<Longrightarrow> length (group w i bm) = w"
  by (simp add: group_def)

lemma cas_group_used:
  assumes "w * i + w \<le> length bm" and "cas_group w i bm = (True, bm')"
  shows "used bm' f \<longleftrightarrow> used bm f \<or> f \<in> {i * (8 * w)..<i * (8 * w) + 8 * w}"
    and "f \<in> {i * (8 * w)..<i * (8 * w) + 8 * w} \<Longrightarrow> \<not> used bm f" and "length bm' = length bm"
proof -
  from assms(2) have z: "group w i bm = replicate w 0"
    and bm': "bm' = take (w * i) bm @ replicate w 0xFF @ drop (w * i + w) bm"
    by (auto simp: cas_group_def split: if_splits)
  show l: "length bm' = length bm" using assms(1) bm' by simp
  have in_group: "w * i \<le> f div 8 \<and> f div 8 < w * i + w \<longleftrightarrow> f \<in> {i * (8 * w)..<i * (8 * w) + 8 * w}"
  proof -
    have "w * i \<le> f div 8 \<longleftrightarrow> i * (8 * w) \<le> f" by (simp add: less_eq_div_iff_mult_less_eq ac_simps)
    moreover have "f div 8 < w * i + w \<longleftrightarrow> f < i * (8 * w) + 8 * w"
      by (simp add: div_less_iff_less_mult algebra_simps)
    ultimately show ?thesis by auto
  qed
  show "\<not> used bm f" if "f \<in> {i * (8 * w)..<i * (8 * w) + 8 * w}"
  proof -
    from that in_group have "w * i \<le> f div 8 \<and> f div 8 < w * i + w" by blast
    then have j: "f div 8 - w * i < w" "w * i \<le> f div 8" by auto
    with group_nth [OF assms(1) j(1)] z have "bm ! (f div 8) = 0" by simp
    then show ?thesis by (simp add: used_def)
  qed
  have nth: "bm' ! k = (if w * i \<le> k \<and> k < w * i + w then 0xFF else bm ! k)" if "k < length bm" for k
    using that assms(1) bm' by (auto simp: nth_append min_def add.commute)
  have ff: "bit (0xFF :: u8) k" if "k < 8" for k
    using that bit_mask_iff [of 8 k, where 'a=u8] by (simp add: mask_eq_exp_minus_1)
  have "f div 8 < w * i + w \<and> w * i \<le> f div 8 \<Longrightarrow> f div 8 < length bm" using assms(1) by simp
  with nth [of "f div 8"] in_group show "used bm' f \<longleftrightarrow> used bm f \<or> f \<in> {i * (8 * w)..<i * (8 * w) + 8 * w}"
    using l ff [of "f mod 8"] by (cases "w * i \<le> f div 8 \<and> f div 8 < w * i + w") (auto simp: used_def)
qed

lemma cas_scan_used:
  assumes "cas_scan w is bm = Some (i, bm')" and "\<forall>i \<in> set is. w * i + w \<le> length bm"
  shows "i \<in> set is \<and> (\<forall>f. used bm' f \<longleftrightarrow> used bm f \<or> f \<in> {i * (8 * w)..<i * (8 * w) + 8 * w}) \<and>
    (\<forall>f \<in> {i * (8 * w)..<i * (8 * w) + 8 * w}. \<not> used bm f) \<and> length bm' = length bm"
  using assms
proof (induction "is")
  case (Cons j js)
  obtain d bm2 where c: "cas_group w j bm = (d, bm2)" by fastforce
  show ?case
  proof (cases d)
    case True
    with Cons.prems c have "i = j" "bm' = bm2" "w * j + w \<le> length bm" by auto
    with cas_group_used [of w j bm bm2] c True show ?thesis by auto
  next
    case False
    with c have "bm2 = bm" by (auto simp: cas_group_def split: if_splits)
    with Cons c False show ?thesis by auto
  qed
qed simp

lemma try_scan_used:
  assumes "try_scan is bm = Some (i, bm')" and "\<forall>i \<in> set is. i div 8 < length bm"
  shows "i \<in> set is \<and> \<not> used bm i \<and> (\<forall>f. used bm' f \<longleftrightarrow> used bm f \<or> f = i) \<and> length bm' = length bm"
  using assms
proof (induction "is" arbitrary: bm)
  case (Cons j js)
  obtain b bm2 where t: "phmTryFrame j bm = (b, bm2)" by fastforce
  from Cons.prems have j: "j div 8 < length bm" by simp
  from used_try [OF j] t have u: "b = used bm j" "\<And>f. used bm2 f \<longleftrightarrow> used bm f \<or> f = j" "length bm2 = length bm"
    by simp_all
  show ?case
  proof (cases b)
    case True
    with Cons.prems t have "try_scan js bm2 = Some (i, bm')" "\<forall>i \<in> set js. i div 8 < length bm2"
      using u(3) by auto
    from Cons.IH [OF this] u True show ?thesis by auto
  next
    case False
    with Cons.prems t u show ?thesis by auto
  qed
qed simp

section \<open>Who owns a frame\<close>

text \<open>
  A frame is owned when it is used and not in a cache: it was handed out and not given back.
  \<open>phm_client\<close> is the number of frames in use less those of the caches.
\<close>

definition phm_used :: "physmem \<Rightarrow> nat \<Rightarrow> bool" where
  "phm_used st f \<longleftrightarrow> (case pm_bitmap st of None \<Rightarrow> False | Some bm \<Rightarrow> used bm f)"

definition cached :: "physmem \<Rightarrow> nat list" where
  "cached st = pm_pages st @ concat (pm_tracks st)"

definition owned :: "physmem \<Rightarrow> nat set" where
  "owned st = {f. phm_used st f \<and> f \<notin> set (cached st)}"

definition phm_client :: "physmem \<Rightarrow> u64" where
  "phm_client st = pm_used st - of_nat (length (cached st))"

definition phm_ok :: "physmem \<Rightarrow> bool" where
  "phm_ok st \<longleftrightarrow> (\<exists>bm. pm_bitmap st = Some bm \<and> length bm = pm_num st div 8 + 1 \<and> used bm 0) \<and>
     distinct (cached st) \<and> 0 \<notin> set (cached st) \<and> (\<forall>f \<in> set (cached st). phm_used st f) \<and>
     (\<forall>t \<in> set (pm_tracks st). length t = 8)"

definition gain :: "physmem \<Rightarrow> nat set \<Rightarrow> physmem \<Rightarrow> bool" where
  "gain st fs st' \<longleftrightarrow> phm_ok st' \<and> fs \<inter> owned st = {} \<and> owned st' = owned st \<union> fs \<and>
     phm_client st' = phm_client st + of_nat (card fs)"

lemma phm_okE:
  assumes "phm_ok st"
  obtains bm where "pm_bitmap st = Some bm" "length bm = pm_num st div 8 + 1" "used bm 0"
  using assms by (auto simp: phm_ok_def)

lemma cached_not_owned: "f \<in> set (cached st) \<Longrightarrow> f \<notin> owned st"
  by (simp add: owned_def)

lemma phmFreeFrame_owned:
  assumes "phm_ok st" and "f \<in> owned st" and "f \<noteq> 0"
  shows "\<exists>st'. phmFreeFrame f st = Ok st' \<and> phm_ok st' \<and> owned st' = owned st - {f} \<and>
    phm_client st' = phm_client st - 1 \<and> pm_pages st' = pm_pages st \<and> pm_tracks st' = pm_tracks st"
proof -
  from assms(1) obtain bm where bm: "pm_bitmap st = Some bm" "length bm = pm_num st div 8 + 1" "used bm 0"
    by (rule phm_okE)
  from assms(2) bm(1) have f: "f div 8 < length bm" "f \<notin> set (cached st)"
    by (auto simp: owned_def phm_used_def used_def)
  let ?st' = "st\<lparr>pm_used := pm_used st - 1, pm_bitmap := Some (clear_bit f bm)\<rparr>"
  have "phmFreeFrame f st = Ok ?st'" using f bm(1) assms(3) by (simp add: phmFreeFrame_def phmClearFrame_def)
  moreover have "phm_ok ?st'" "owned ?st' = owned st - {f}" "phm_client ?st' = phm_client st - 1"
    using assms f bm by (auto simp: phm_ok_def owned_def phm_used_def cached_def used_clear phm_client_def)
  ultimately show ?thesis by simp
qed

lemma free_list_owned:
  "phm_ok st \<Longrightarrow> distinct fs \<Longrightarrow> set fs \<subseteq> owned st - {0} \<Longrightarrow>
     \<exists>st'. free_list fs st = Ok st' \<and> phm_ok st' \<and> owned st' = owned st - set fs \<and>
       phm_client st' = phm_client st - of_nat (length fs) \<and> pm_pages st' = pm_pages st \<and> pm_tracks st' = pm_tracks st"
proof (induction fs arbitrary: st)
  case (Cons f fs)
  then obtain st1 where 1: "phmFreeFrame f st = Ok st1" "phm_ok st1" "owned st1 = owned st - {f}"
    "phm_client st1 = phm_client st - 1" "pm_pages st1 = pm_pages st" "pm_tracks st1 = pm_tracks st"
    using phmFreeFrame_owned [of st f] by auto
  from Cons.prems 1(3) have "distinct fs" "set fs \<subseteq> owned st1 - {0}" by auto
  from Cons.IH [OF 1(2) this] obtain st' where "free_list fs st1 = Ok st'" "phm_ok st'"
    "owned st' = owned st1 - set fs" "phm_client st' = phm_client st1 - of_nat (length fs)"
    "pm_pages st' = pm_pages st1" "pm_tracks st' = pm_tracks st1" by blast
  with 1 show ?case by (intro exI [of _ st']) (auto simp: algebra_simps)
qed simp

text \<open>A frame, or a track of frames, that leaves the caches is owned from then on.\<close>

lemma ftGetFreePage_gain:
  assumes "phm_ok st" and "ftGetFreePage st = (f, st')"
  shows "if pm_pages st = [] then f = 0 \<and> st' = st else f \<noteq> 0 \<and> gain st {f} st' \<and> pm_tracks st' = pm_tracks st"
proof (cases "pm_pages st")
  case (Cons g gs)
  with assms(2) have e: "f = g" "st' = st\<lparr>pm_pages := gs\<rparr>" by (simp_all add: ftGetFreePage_def)
  from assms(1) Cons have c: "cached st = g # cached (st\<lparr>pm_pages := gs\<rparr>)" by (simp add: cached_def)
  from assms(1) Cons e c show ?thesis
    by (auto simp: gain_def phm_ok_def owned_def phm_used_def phm_client_def)
qed (use assms in \<open>simp add: ftGetFreePage_def\<close>)

lemma sdFreeMemory_gain:
  assumes "phm_ok st"
  shows "\<exists>f st'. sdFreeMemory st = Ok (f, st') \<and>
    (if pm_tracks st = [] then f = 0 \<and> st' = st else f \<noteq> 0 \<and> gain st {f} st')"
proof (cases "pm_tracks st")
  case (Cons t ts)
  let ?st = "st\<lparr>pm_tracks := ts\<rparr>"
  from assms Cons have d: "distinct (cached st)" "0 \<notin> set (cached st)" "length t = 8" by (auto simp: phm_ok_def)
  obtain x xs where t: "t = x # xs" "length xs = 7" using d(3) by (cases t) auto
  have sub: "set (cached ?st) \<union> set t = set (cached st)" "set (cached ?st) \<inter> set t = {}" "distinct t"
    using Cons d(1) by (auto simp: cached_def)
  have ok: "phm_ok ?st" using assms Cons by (auto simp: phm_ok_def cached_def phm_used_def)
  have own: "owned ?st = owned st \<union> set t"
    using assms sub(1,2) by (auto simp: owned_def phm_ok_def phm_used_def)
  have cl: "phm_client ?st = phm_client st + 8" using Cons d(3) by (simp add: phm_client_def cached_def)
  have "set (tl t) \<subseteq> owned ?st - {0}" using own t d(2) sub(1) by auto
  with free_list_owned [OF ok, of "tl t"] sub(3) t obtain st' where
    st': "free_list (tl t) ?st = Ok st'" "phm_ok st'" "owned st' = owned ?st - set (tl t)"
      "phm_client st' = phm_client ?st - 7" by auto
  have "x \<notin> owned st" "x \<noteq> 0" "set xs \<inter> owned st = {}" "x \<notin> set xs"
    using t sub(1,3) d(2) cached_not_owned [of _ st] by auto
  with st' own cl t Cons show ?thesis by (auto simp: sdFreeMemory_def gain_def)
qed (simp add: sdFreeMemory_def)

lemma gain_trans_free:
  assumes "gain st {f} st1" and "f \<noteq> 0"
  shows "\<exists>st'. phmFreeFrame f st1 = Ok st' \<and> phm_ok st' \<and> owned st' = owned st \<and> phm_client st' = phm_client st \<and>
    pm_pages st' = pm_pages st1 \<and> pm_tracks st' = pm_tracks st1"
  using phmFreeFrame_owned [of st1 f] assms by (auto simp: gain_def)

lemma frameFromCache_gain:
  assumes "phm_ok st"
  shows "\<exists>f st'. frameFromCache st = Ok (f, st') \<and>
    (if pm_pages st = [] \<and> pm_tracks st = [] then f = 0 else f \<noteq> 0 \<and> gain st {f} st')"
proof -
  obtain f st1 where p: "ftGetFreePage st = (f, st1)" by fastforce
  from ftGetFreePage_gain [OF assms p] sdFreeMemory_gain [OF assms] p show ?thesis
    by (auto simp: frameFromCache_def split: if_splits)
qed

lemma tryFreeMemory_same:
  assumes "phm_ok st"
  shows "\<exists>b st'. tryFreeMemory st = Ok (b, st') \<and> b = (pm_pages st \<noteq> [] \<or> pm_tracks st \<noteq> []) \<and>
    (b \<longrightarrow> phm_ok st' \<and> owned st' = owned st \<and> phm_client st' = phm_client st \<and>
      (pm_tracks st = [] \<longrightarrow> pm_tracks st' = []))"
proof -
  obtain f st1 where p: "ftGetFreePage st = (f, st1)" by fastforce
  show ?thesis
  proof (cases "pm_pages st = []")
    case True
    with ftGetFreePage_gain [OF assms p] have e: "f = 0" "st1 = st" by simp_all
    from sdFreeMemory_gain [OF assms] obtain g st2 where s: "sdFreeMemory st = Ok (g, st2)"
      "if pm_tracks st = [] then g = 0 \<and> st2 = st else g \<noteq> 0 \<and> gain st {g} st2" by blast
    with gain_trans_free [of st g st2] p e True show ?thesis
      by (cases "pm_tracks st = []") (auto simp: tryFreeMemory_def)
  next
    case False
    with ftGetFreePage_gain [OF assms p] have "f \<noteq> 0" "gain st {f} st1" "pm_tracks st1 = pm_tracks st" by simp_all
    with gain_trans_free [of st f st1] p False show ?thesis by (auto simp: tryFreeMemory_def)
  qed
qed

section \<open>Allocation\<close>

lemma byte_full: "(x :: u8) = 0xFF \<longleftrightarrow> (\<forall>k < 8. bit x k)"
proof -
  have "bit (0xFF :: u8) k" if "k < 8" for k
    using that bit_mask_iff [of 8 k, where 'a=u8] by (simp add: mask_eq_exp_minus_1)
  then show ?thesis by (auto simp: bit_eq_iff)
qed

lemma group_full:
  assumes "8 * i + 8 \<le> length bm"
  shows "group 8 i bm = replicate 8 0xFF \<longleftrightarrow> (\<forall>f \<in> {i * 64..<i * 64 + 64}. used bm f)"
proof -
  have "group 8 i bm = replicate 8 0xFF \<longleftrightarrow> (\<forall>j < 8. bm ! (8 * i + j) = 0xFF)"
    using length_group [OF assms] group_nth [OF assms] by (auto simp: list_eq_iff_nth_eq)
  also have "\<dots> \<longleftrightarrow> (\<forall>j < 8. \<forall>k < 8. used bm (i * 64 + j * 8 + k))"
  proof -
    have "used bm (i * 64 + j * 8 + k) \<longleftrightarrow> bit (bm ! (8 * i + j)) k" if "j < 8" "k < 8" for j k
    proof -
      have "i * 64 + j * 8 + k = (8 * i + j) * 8 + k" by simp
      then have "(i * 64 + j * 8 + k) div 8 = 8 * i + j" "(i * 64 + j * 8 + k) mod 8 = k"
        using that(2) by (simp_all only: div_mult_self3 mod_mult_self3) simp_all
      with assms that show ?thesis by (simp add: used_def)
    qed
    then show ?thesis by (simp add: byte_full)
  qed
  also have "\<dots> \<longleftrightarrow> (\<forall>f \<in> {i * 64..<i * 64 + 64}. used bm f)"
  proof safe
    fix f
    assume a: "\<forall>j < 8. \<forall>k < 8. used bm (i * 64 + j * 8 + k)" and f: "f \<in> {i * 64..<i * 64 + 64}"
    have "f = i * 64 + (f - i * 64) div 8 * 8 + (f - i * 64) mod 8" using f by simp
    moreover have "(f - i * 64) div 8 < 8" "(f - i * 64) mod 8 < 8" using f by auto
    ultimately show "used bm f" using a by metis
  qed auto
  finally show ?thesis .
qed

lemma group_range: "i < n div 64 \<Longrightarrow> length bm = n div 8 + 1 \<Longrightarrow> 8 * i + 8 \<le> length bm"
proof -
  assume "i < n div 64" and l: "length bm = n div 8 + 1"
  then have "64 * i + 64 \<le> n" by (simp add: less_eq_div_iff_mult_less_eq Suc_le_eq [symmetric])
  then show ?thesis using l div_le_mono [of "64 * i + 64" n 8] by simp
qed

lemma find_start_cases:
  assumes "length bm = n div 8 + 1"
  shows "find_start lowest n bm = 0 \<and> (64 \<le> lowest \<longrightarrow> (\<forall>f \<in> {lowest div 64 * 64..<n div 64 * 64}. used bm f)) \<or>
    64 \<le> find_start lowest n bm \<and> (\<exists>f \<in> {find_start lowest n bm..<n}. \<not> used bm f)"
proof (cases "find (\<lambda>i. group 8 i bm \<noteq> replicate 8 0xFF) [lowest div 64..<n div 64]")
  case None
  then have full: "\<forall>i \<in> {lowest div 64..<n div 64}. group 8 i bm = replicate 8 0xFF"
    by (auto simp: find_None_iff)
  have "used bm f" if "f \<in> {lowest div 64 * 64..<n div 64 * 64}" for f
  proof -
    have "f div 64 \<in> {lowest div 64..<n div 64}"
      using that by (auto simp: div_less_iff_less_mult less_eq_div_iff_mult_less_eq)
    with full group_full [OF group_range [OF _ assms]] have "\<forall>g \<in> {f div 64 * 64..<f div 64 * 64 + 64}. used bm g"
      by auto
    moreover have "f \<in> {f div 64 * 64..<f div 64 * 64 + 64}" using div_mult_mod_eq [of f 64] mod_less_divisor [of 64 f] by auto
    ultimately show ?thesis by blast
  qed
  with None show ?thesis by (simp add: find_start_def)
next
  case (Some i)
  then have i: "i \<in> {lowest div 64..<n div 64}" "group 8 i bm \<noteq> replicate 8 0xFF"
    by (auto simp: find_Some_iff nth_append)
  from group_full [OF group_range [OF _ assms]] i obtain f where f: "f \<in> {i * 64..<i * 64 + 64}" "\<not> used bm f" by auto
  have "i * 64 + 64 \<le> n" using i(1) by (auto simp: less_eq_div_iff_mult_less_eq Suc_le_eq [symmetric])
  show ?thesis
  proof (cases "i = 0")
    case True
    with i(1) Some show ?thesis by (auto simp: find_start_def)
  next
    case False
    with f \<open>i * 64 + 64 \<le> n\<close> Some show ?thesis by (auto simp: find_start_def)
  qed
qed

lemma try_scan_None:
  "try_scan is bm = None \<Longrightarrow> \<forall>i \<in> set is. i div 8 < length bm \<Longrightarrow> \<forall>i \<in> set is. used bm i"
proof (induction "is" arbitrary: bm)
  case (Cons j js)
  obtain b bm2 where t: "phmTryFrame j bm = (b, bm2)" by fastforce
  with Cons.prems have b: b "try_scan js bm2 = None" by (auto split: if_splits)
  from used_try [of j bm] Cons.prems t b have u: "used bm j" "\<And>f. used bm2 f \<longleftrightarrow> used bm f \<or> f = j"
    "length bm2 = length bm" by auto
  with Cons.IH [OF b(2)] Cons.prems show ?case by auto
qed simp

lemma new_frames_gain:
  assumes "phm_ok st" and "pm_bitmap st = Some bm" and "length bm' = length bm" and "finite fs"
    and "\<forall>f. used bm' f \<longleftrightarrow> used bm f \<or> f \<in> fs" and "\<forall>f \<in> fs. \<not> used bm f"
  shows "gain st fs (st\<lparr>pm_bitmap := Some bm', pm_used := pm_used st + of_nat (card fs)\<rparr>)"
  using assms by (auto simp: gain_def phm_ok_def owned_def phm_used_def phm_client_def cached_def)

lemma from_cache_gain:
  assumes "phm_ok st"
  shows "if pm_pages st = [] \<and> pm_tracks st = [] then from_cache st = Panic
    else \<exists>f st'. from_cache st = Ok (f, st') \<and> f \<noteq> 0 \<and> gain st {f} st'"
  using frameFromCache_gain [OF assms] by (auto simp: from_cache_def split: if_splits)

lemma phmAllocSingle_cases:
  assumes "phm_ok st"
  shows "(\<exists>f st'. phmAllocSingle st = Ok (f, st') \<and> f \<noteq> 0 \<and> gain st {f} st') \<or>
    phmAllocSingle st = Panic \<and> pm_pages st = [] \<and> pm_tracks st = [] \<and>
      (64 \<le> pm_lowest st \<longrightarrow> (\<forall>f \<in> {pm_lowest st div 64 * 64..<pm_num st div 64 * 64}. phm_used st f))"
proof -
  from assms obtain bm where bm: "pm_bitmap st = Some bm" "length bm = pm_num st div 8 + 1" "used bm 0"
    by (rule phm_okE)
  let ?s = "find_start (pm_lowest st) (pm_num st) bm"
  note c = find_start_cases [OF bm(2), of "pm_lowest st"]
  show ?thesis
  proof (cases "?s = 0")
    case True
    with c from_cache_gain [OF assms] bm show ?thesis
      by (auto simp: phmAllocSingle_def phm_used_def split: if_splits)
  next
    case False
    with c obtain f where f: "f \<in> {?s..<pm_num st}" "\<not> used bm f" by auto
    have r: "\<forall>i \<in> set [?s..<pm_num st]. i div 8 < length bm"
      using bm(2) by (auto intro: le_imp_less_Suc div_le_mono)
    from f try_scan_None [OF _ r] obtain i bm' where t: "try_scan [?s..<pm_num st] bm = Some (i, bm')"
      by (cases "try_scan [?s..<pm_num st] bm") auto
    from try_scan_used [OF t r] have u: "i \<in> {?s..<pm_num st}" "\<not> used bm i" "\<forall>f. used bm' f \<longleftrightarrow> used bm f \<or> f \<in> {i}"
      "length bm' = length bm" by auto
    have "gain st {i} (st\<lparr>pm_bitmap := Some bm', pm_used := pm_used st + 1\<rparr>)"
      using new_frames_gain [OF assms bm(1) u(4) _ u(3)] u(2) by simp
    moreover have "i \<noteq> 0" using u(1) False by auto
    ultimately show ?thesis using False bm(1) t by (simp add: phmAllocSingle_def)
  qed
qed

lemma cas_scan_gain:
  assumes "phm_ok st" and "pm_bitmap st = Some bm" and "cas_scan w is bm = Some (i, bm')" and "0 < w"
    and "\<forall>i \<in> set is. w * i + w \<le> length bm"
  shows "i * (8 * w) \<noteq> 0 \<and> gain st {i * (8 * w)..<i * (8 * w) + 8 * w}
    (st\<lparr>pm_bitmap := Some bm', pm_used := pm_used st + of_nat (8 * w)\<rparr>)"
proof -
  let ?fs = "{i * (8 * w)..<i * (8 * w) + 8 * w}"
  note u = cas_scan_used [OF assms(3,5)]
  have "used bm 0" using assms(1,2) by (auto elim: phm_okE)
  with u assms(4) have "i * (8 * w) \<noteq> 0" by fastforce
  moreover have "gain st ?fs (st\<lparr>pm_bitmap := Some bm', pm_used := pm_used st + of_nat (card ?fs)\<rparr>)"
    using u by (intro new_frames_gain [OF assms(1,2)]) simp_all
  ultimately show ?thesis by simp
qed

lemma groups_range:
  assumes "length bm = n div 8 + 1" and "0 < w"
  shows "\<forall>i \<in> set [m..<n div (8 * w)]. w * i + w \<le> length bm"
proof
  fix i assume "i \<in> set [m..<n div (8 * w)]"
  then have "8 * w * i + 8 * w \<le> n" using assms(2) by (simp add: less_eq_div_iff_mult_less_eq Suc_le_eq [symmetric] algebra_simps)
  then have "(8 * (w * i + w)) div 8 \<le> n div 8" by (intro div_le_mono) (simp add: algebra_simps)
  with assms(1) show "w * i + w \<le> length bm" by simp
qed

lemma gain_cong:
  assumes "gain st1 fs st'" and "owned st1 = owned st" and "phm_client st1 = phm_client st"
  shows "gain st fs st'"
  using assms by (simp add: gain_def)

lemma alloc_groups_gain:
  "phm_ok st \<Longrightarrow> 0 < w \<Longrightarrow> alloc_groups w st = Ok (b, st') \<Longrightarrow> b \<noteq> 0 \<and> gain st {b..<b + 8 * w} st'"
proof (induction w st arbitrary: b st' rule: alloc_groups.induct)
  case (1 w st)
  from 1(2) obtain bm where bm: "pm_bitmap st = Some bm" "length bm = pm_num st div 8 + 1" by (rule phm_okE)
  let ?is = "[pm_lowest st div (8 * w)..<pm_num st div (8 * w)]"
  note eq = alloc_groups.simps [of w st]
  show ?case
  proof (cases "cas_scan w ?is bm")
    case None
    from tryFreeMemory_same [OF 1(2)] obtain c st1 where t: "tryFreeMemory st = Ok (c, st1)"
      "c \<longrightarrow> phm_ok st1 \<and> owned st1 = owned st \<and> phm_client st1 = phm_client st" by blast
    from 1(4) eq bm(1) None t(1) have c: c "alloc_groups w st1 = Ok (b, st')" by (auto split: bool.splits)
    from 1(1) [OF bm(1) None t(1) _ _ _ 1(3) c(2)] t(2) c(1) have "b \<noteq> 0 \<and> gain st1 {b..<b + 8 * w} st'" by auto
    with gain_cong [of st1 _ st' st] t(2) c(1) show ?thesis by blast
  next
    case (Some r)
    obtain i bm' where r: "r = (i, bm')" by (cases r)
    from cas_scan_gain [OF 1(2) bm(1) _ 1(3) groups_range [OF bm(2) 1(3)], of "pm_lowest st div (8 * w)" i bm']
    have "i * (8 * w) \<noteq> 0 \<and> gain st {i * (8 * w)..<i * (8 * w) + 8 * w}
      (st\<lparr>pm_bitmap := Some bm', pm_used := pm_used st + of_nat (8 * w)\<rparr>)" using Some r by simp
    with 1(4) eq bm(1) Some r show ?thesis by auto
  qed
qed

lemma phmAlloc8_gain:
  "phm_ok st \<Longrightarrow> pm_tracks st = [] \<Longrightarrow> phmAlloc8 st = Ok (b, st') \<Longrightarrow> b \<noteq> 0 \<and> gain st {b..<b + 8} st'"
proof (induction st arbitrary: b st' rule: phmAlloc8.induct)
  case (1 st)
  from 1(2) obtain bm where bm: "pm_bitmap st = Some bm" "length bm = pm_num st div 8 + 1" by (rule phm_okE)
  let ?s = "find_start (pm_lowest st) (pm_num st) bm"
  let ?c = "if ?s = 0 then None else cas_scan 1 [?s div 8..<pm_num st div 8] bm"
  note eq = phmAlloc8.simps [of st]
  have sd: "sdFreeMemory st = Ok (0, st)" using 1(3) by (simp add: sdFreeMemory_def)
  show ?case
  proof (cases ?c)
    case None
    from tryFreeMemory_same [OF 1(2)] obtain c st1 where t: "tryFreeMemory st = Ok (c, st1)"
      "c \<longrightarrow> phm_ok st1 \<and> owned st1 = owned st \<and> phm_client st1 = phm_client st \<and> pm_tracks st1 = []"
      using 1(3) by blast
    from 1(4) eq bm(1) None t(1) sd have c: c "phmAlloc8 st1 = Ok (b, st')"
      by (auto simp: Let_def split: bool.splits)
    from 1(1) [OF bm(1) refl None sd refl refl t(1) refl _ _ _ c(2)] t(2) c(1) show ?thesis using gain_cong by auto
  next
    case (Some r)
    obtain i bm' where r: "r = (i, bm')" by (cases r)
    from cas_scan_gain [OF 1(2) bm(1) _ _ groups_range [OF bm(2)], of 1 "?s div 8" i bm'] Some r
    have "i * 8 \<noteq> 0 \<and> gain st {i * 8..<i * 8 + 8} (st\<lparr>pm_bitmap := Some bm', pm_used := pm_used st + 8\<rparr>)"
      by (simp split: if_splits)
    with 1(4) eq bm(1) Some r show ?thesis by (auto simp: Let_def)
  qed
qed

text \<open>With a cached track, a turn that finds no 8 free frames takes the one frame of the track.\<close>

lemma phmAlloc8_cases:
  assumes "phm_ok st" and "phmAlloc8 st = Ok (b, st')"
  shows "b \<noteq> 0 \<and> (gain st {b..<b + 8} st' \<or> pm_tracks st \<noteq> [] \<and> gain st {b} st')"
proof (cases "pm_tracks st = []")
  case True
  with phmAlloc8_gain [OF assms(1) _ assms(2)] show ?thesis by blast
next
  case False
  from assms(1) obtain bm where bm: "pm_bitmap st = Some bm" "length bm = pm_num st div 8 + 1" by (rule phm_okE)
  let ?s = "find_start (pm_lowest st) (pm_num st) bm"
  let ?c = "if ?s = 0 then None else cas_scan 1 [?s div 8..<pm_num st div 8] bm"
  note eq = phmAlloc8.simps [of st]
  show ?thesis
  proof (cases ?c)
    case None
    from sdFreeMemory_gain [OF assms(1)] False obtain f st1 where
      "sdFreeMemory st = Ok (f, st1)" "f \<noteq> 0" "gain st {f} st1" by (cases "pm_tracks st") auto
    with assms(2) eq bm(1) None False show ?thesis by (auto simp: Let_def)
  next
    case (Some r)
    obtain i bm' where r: "r = (i, bm')" by (cases r)
    from cas_scan_gain [OF assms(1) bm(1) _ _ groups_range [OF bm(2)], of 1 "?s div 8" i bm'] Some r
    have "i * 8 \<noteq> 0 \<and> gain st {i * 8..<i * 8 + 8} (st\<lparr>pm_bitmap := Some bm', pm_used := pm_used st + 8\<rparr>)"
      by (simp split: if_splits)
    with assms(2) eq bm(1) Some r show ?thesis by (auto simp: Let_def)
  qed
qed

text \<open>Giving back the frames that were not asked for.\<close>

lemma gain_free_rest:
  assumes "gain st {b..<b + k} st1" and "b \<noteq> 0" and "n \<le> k"
  shows "\<exists>st'. phmFreeFrameEx (b + n) (k - n) st1 = Ok st' \<and> gain st {b..<b + n} st'"
proof -
  from assms(1) have g: "phm_ok st1" "{b..<b + k} \<inter> owned st = {}" "owned st1 = owned st \<union> {b..<b + k}"
    "phm_client st1 = phm_client st + of_nat k" by (simp_all add: gain_def)
  have s: "set [b + n..<b + k] \<subseteq> owned st1 - {0}" using g(3) assms(2) by auto
  from free_list_owned [OF g(1) _ s] obtain st' where st': "free_list [b + n..<b + k] st1 = Ok st'" "phm_ok st'"
    "owned st' = owned st1 - {b + n..<b + k}" "phm_client st' = phm_client st1 - of_nat (b + k - (b + n))"
    by auto
  moreover have "owned st1 - {b + n..<b + k} = owned st \<union> {b..<b + n}"
  proof -
    have "x \<notin> {b + n..<b + k}" if "x \<in> owned st" for x using that g(2) by (auto simp: disjoint_iff)
    moreover have "{b..<b + k} - {b + n..<b + k} = {b..<b + n}" using assms(3) by auto
    ultimately show ?thesis using g(3) by blast
  qed
  moreover have "b + n + (k - n) = b + k" using assms(3) by simp
  ultimately show ?thesis using g(2,4) assms(3)
    by (auto simp: phmFreeFrameEx_def gain_def of_nat_diff disjoint_iff)
qed

lemma phmAllocFrameEx_gain:
  assumes "phm_ok st" and "0 < n" and "n \<le> 8 \<Longrightarrow> 1 < n \<Longrightarrow> pm_tracks st = []" and "phmAllocFrameEx n st = Ok (b, st')"
  shows "b \<noteq> 0 \<and> gain st {b..<b + n} st'"
proof (cases "n = 1")
  case True
  with phmAllocSingle_cases [OF assms(1)] assms(4) show ?thesis by (auto simp: phmAllocFrameEx_def)
next
  case False
  from assms(2,4) False have n: "n \<le> 64" by (auto simp: phmAllocFrameEx_def split: if_splits)
  have fin: ?thesis if "r = Ok (b', st1)" "b' \<noteq> 0 \<and> gain st {b'..<b' + a} st1" "n \<le> a"
    "kbind r (\<lambda>(base, st). kbind (phmFreeFrameEx (base + n) (a - n) st) (\<lambda>st. Ok (base, st))) = Ok (b, st')"
    for r b' a st1
    using that gain_free_rest [of st b' a st1 n] by (auto simp: kbind_Ok_iff)
  note ex = assms(4) [unfolded phmAllocFrameEx_def]
  consider "n > 32" | "n \<le> 32" "n > 16" | "n \<le> 16" "n > 8" | "n \<le> 8" by linarith
  then show ?thesis
  proof cases
    case 1
    with ex n obtain b' st1 where "phmAlloc64 st = Ok (b', st1)" by (auto simp: kbind_Ok_iff)
    with 1 ex n alloc_groups_gain [OF assms(1), of 8 b' st1] show ?thesis
      by (intro fin [of "phmAlloc64 st" b' st1 64]) (simp_all add: phmAlloc64_def)
  next
    case 2
    with ex obtain b' st1 where "phmAlloc32 st = Ok (b', st1)" by (auto simp: kbind_Ok_iff)
    with 2 ex alloc_groups_gain [OF assms(1), of 4 b' st1] show ?thesis
      by (intro fin [of "phmAlloc32 st" b' st1 32]) (simp_all add: phmAlloc32_def)
  next
    case 3
    with ex obtain b' st1 where "phmAlloc16 st = Ok (b', st1)" by (auto simp: kbind_Ok_iff)
    with 3 ex alloc_groups_gain [OF assms(1), of 2 b' st1] show ?thesis
      by (intro fin [of "phmAlloc16 st" b' st1 16]) (simp_all add: phmAlloc16_def)
  next
    case 4
    with ex False assms(2) obtain b' st1 where "phmAlloc8 st = Ok (b', st1)" by (auto simp: kbind_Ok_iff)
    with 4 ex False assms(2,3) phmAlloc8_gain [OF assms(1), of b' st1] show ?thesis
      by (intro fin [of "phmAlloc8 st" b' st1 8]) simp_all
  qed
qed

lemma phmAllocFrameEx_short:
  assumes "phm_ok st" and "1 < n" and "n \<le> 8" and "phmAllocFrameEx n st = Ok (b, st')"
  shows "b \<noteq> 0 \<and> (gain st {b..<b + n} st' \<or>
    pm_tracks st \<noteq> [] \<and> (\<exists>st1. gain st {b} st1 \<and> phmFreeFrameEx (b + n) (8 - n) st1 = Ok st'))"
proof -
  from assms(2-4) obtain st1 where 1: "phmAlloc8 st = Ok (b, st1)" "phmFreeFrameEx (b + n) (8 - n) st1 = Ok st'"
    by (auto simp: phmAllocFrameEx_def kbind_Ok_iff)
  from phmAlloc8_cases [OF assms(1) 1(1)] show ?thesis
    using gain_free_rest [of st b 8 st1 n] assms(3) 1(2) by auto
qed

section \<open>What the clients of the allocator rely on\<close>

text \<open>
  The interface to single frames: a frame handed out was not owned, is owned from then on and
  is not frame 0; an owned frame can be given back, and nothing else changes hands.
\<close>

locale frame_pool =
  fixes ok :: "'s \<Rightarrow> bool" and owns :: "'s \<Rightarrow> nat set"
    and alloc :: "'s \<Rightarrow> (nat \<times> 's) kres" and free :: "nat \<Rightarrow> 's \<Rightarrow> 's kres"
  assumes alloc_law: "ok s \<Longrightarrow> alloc s = Ok (f, s') \<Longrightarrow> f \<noteq> 0 \<and> f \<notin> owns s \<and> ok s' \<and> owns s' = insert f (owns s)"
    and free_law: "ok s \<Longrightarrow> f \<in> owns s \<Longrightarrow> f \<noteq> 0 \<Longrightarrow> \<exists>s'. free f s = Ok s' \<and> ok s' \<and> owns s' = owns s - {f}"
begin

lemma alloc_keeps: "ok s \<Longrightarrow> alloc s = Ok (f, s') \<Longrightarrow> S \<subseteq> owns s \<Longrightarrow> insert f S \<subseteq> owns s' \<and> f \<notin> S"
  using alloc_law by blast

lemma free_keeps: "ok s \<Longrightarrow> free f s = Ok s' \<Longrightarrow> f \<in> owns s \<Longrightarrow> f \<noteq> 0 \<Longrightarrow> S \<subseteq> owns s \<Longrightarrow> ok s' \<and> S - {f} \<subseteq> owns s'"
  using free_law by fastforce

lemma alloc_free: "ok s \<Longrightarrow> alloc s = Ok (f, s') \<Longrightarrow> \<exists>s''. free f s' = Ok s'' \<and> ok s'' \<and> owns s'' = owns s"
  using alloc_law free_law [of s' f] by fastforce

end

interpretation fp: frame_pool phm_ok owned phmAllocSingle phmFreeFrame
proof (unfold_locales, goal_cases)
  case (1 s f s')
  with phmAllocSingle_cases [of s] show ?case by (auto simp: gain_def)
next
  case (2 s f)
  with phmFreeFrame_owned [of s f] show ?case by auto
qed

section \<open>Start-up\<close>

lemma clear_region_used:
  "clear_region is st = Ok st' \<Longrightarrow> pm_bitmap st = Some bm \<Longrightarrow>
     \<exists>bm'. pm_bitmap st' = Some bm' \<and> length bm' = length bm \<and> pm_placement st' = pm_placement st \<and> pm_num st' = pm_num st \<and>
       (\<forall>f. used bm' f \<longleftrightarrow> used bm f \<and> \<not> (f \<in> set is \<and> unat (pm_placement st) \<le> f))"
proof (induction "is" arbitrary: st bm)
  case (Cons i js)
  show ?case
  proof (cases "i \<ge> unat (pm_placement st)")
    case True
    with Cons.prems have i: "i div 8 < length bm"
      and r: "clear_region js (st\<lparr>pm_bitmap := Some (clear_bit i bm), pm_total := pm_total st + 1\<rparr>) = Ok st'"
      by (auto simp: kbind_Ok_iff phmClearFrame_def split: if_splits)
    from Cons.IH [OF r, of "clear_bit i bm"] True show ?thesis by (auto simp: used_clear [OF i])
  next
    case False
    with Cons.prems Cons.IH [of st bm] show ?thesis by auto
  qed
qed simp

text \<open>The results of the first \<open>k\<close> calls of \<open>phmAllocFrame\<close>.\<close>

fun boot_allocs :: "nat \<Rightarrow> physmem \<Rightarrow> nat list kres" where
  "boot_allocs 0 st = Ok []"
| "boot_allocs (Suc k) st = kbind (phmAllocFrame st) (\<lambda>(f, st). kbind (boot_allocs k st) (\<lambda>fs. Ok (f # fs)))"

lemma boot_allocs_run:
  "pm_bitmap st = None \<Longrightarrow> pm_map st = m # ms \<Longrightarrow>
     mb_baseAddr m div 0x1000 + mb_len m div 0x1000 < pm_placement st \<Longrightarrow> unat (pm_placement st) + k < 2 ^ 64 \<Longrightarrow>
     boot_allocs k st = Ok [unat (pm_placement st)..<unat (pm_placement st) + k]"
proof (induction k arbitrary: st)
  case (Suc k)
  let ?st = "st\<lparr>pm_placement := pm_placement st + 1\<rparr>"
  have n: "unat (pm_placement st + 1) = unat (pm_placement st) + 1"
    using Suc.prems(4) by (subst unat_add_lem [THEN iffD1]) simp_all
  have "phmAllocFrame st = Ok (unat (pm_placement st), ?st)"
    using Suc.prems(1,2) less_imp_neq [OF Suc.prems(3)] by (simp add: phmAllocFrame_def Let_def)
  moreover have "boot_allocs k ?st = Ok [unat (pm_placement st) + 1..<unat (pm_placement st) + 1 + k]"
    using Suc.prems n Suc.IH [of ?st] by (simp add: word_less_nat_alt)
  ultimately show ?case by (simp add: upt_conv_Cons)
qed simp

definition freed_by :: "u64 \<Rightarrow> MultibootMemoryMap \<Rightarrow> nat \<Rightarrow> bool" where
  "freed_by placement m f \<longleftrightarrow> isUseableMemory m \<and> unat placement \<le> f \<and> unat (mb_baseAddr m div 0x1000) \<le> f \<and>
     f \<le> unat ((mb_baseAddr m + mb_len m) div 0x1000)"

lemma clear_regions_used:
  "clear_regions ms st = Ok st' \<Longrightarrow> pm_bitmap st = Some bm \<Longrightarrow>
     \<exists>bm'. pm_bitmap st' = Some bm' \<and> length bm' = length bm \<and> pm_num st' = pm_num st \<and>
       (\<forall>f. used bm' f \<longleftrightarrow> used bm f \<and> \<not> (\<exists>m \<in> set ms. freed_by (pm_placement st) m f))"
proof (induction ms arbitrary: st bm)
  case (Cons m ms)
  let ?e = "(mb_baseAddr m + mb_len m) div 0x1000"
  have "unat ?e = unat (mb_baseAddr m + mb_len m) div 0x1000" by (simp add: unat_div)
  also have "\<dots> < 2 ^ 52"
  proof -
    have "unat (mb_baseAddr m + mb_len m) < 2 ^ LENGTH(64)" by (rule unsigned_less)
    then show ?thesis by (simp add: div_less_iff_less_mult)
  qed
  finally have e: "unat (?e + 1) = unat ?e + 1" by (subst unat_add_lem [THEN iffD1]) simp_all
  show ?case
  proof (cases "isUseableMemory m")
    case True
    with Cons.prems obtain st1 where 1: "clear_region [unat (mb_baseAddr m div 0x1000)..<unat (?e + 1)] st = Ok st1"
      "clear_regions ms st1 = Ok st'" by (auto simp: kbind_Ok_iff Let_def)
    from clear_region_used [OF 1(1) Cons.prems(2)] obtain bm1 where b: "pm_bitmap st1 = Some bm1" "length bm1 = length bm"
      "pm_placement st1 = pm_placement st" "pm_num st1 = pm_num st"
      "\<forall>f. used bm1 f \<longleftrightarrow> used bm f \<and> \<not> (f \<in> set [unat (mb_baseAddr m div 0x1000)..<unat (?e + 1)] \<and> unat (pm_placement st) \<le> f)"
      by blast
    have eq: "f \<in> set [unat (mb_baseAddr m div 0x1000)..<unat (?e + 1)] \<and> unat (pm_placement st) \<le> f \<longleftrightarrow> freed_by (pm_placement st) m f" for f
      using True e by (auto simp: freed_by_def)
    have "\<forall>f. used bm1 f \<longleftrightarrow> used bm f \<and> \<not> freed_by (pm_placement st) m f" using b(5) unfolding eq .
    with Cons.IH [OF 1(2) b(1)] b show ?thesis by auto
  next
    case False
    with Cons.prems Cons.IH [of st bm] show ?thesis by (auto simp: freed_by_def)
  qed
qed simp

section \<open>Properties\<close>

text \<open>C13: what \<open>phmAllocFrameEx\<close> hands out, for every number of frames and every state of the
  caches. Frame 0 is never returned, and in all cases but one the frames belong to nobody before
  and to the caller after, so that no two owners ever share a frame, all other frames keep their
  owners, whatever the caches gave up on the way, and the count of used frames grows by the number
  asked for. The exception is a request for 2 to 8 frames while a track is cached: \<open>phmAlloc8\<close> may
  return the one frame that \<open>sdFreeMemory\<close> took from the track. Then the caller owns that
  frame only, and the frames after the \<open>n\<close>th, up to the eighth, are freed whoever owns them
  (\<open>phmAlloc8_short\<close> has a case where this happens).\<close>
theorem phmAllocFrameEx_owned:
  assumes "phm_ok st" and "0 < n" and "phmAllocFrameEx n st = Ok (b, st')"
  shows "b \<noteq> 0 \<and>
    ({b..<b + n} \<inter> owned st = {} \<and> owned st' = owned st \<union> {b..<b + n} \<and> phm_ok st' \<and>
       phm_client st' = phm_client st + of_nat n \<or>
     1 < n \<and> n \<le> 8 \<and> pm_tracks st \<noteq> [] \<and> b \<notin> owned st \<and>
       (\<exists>st1. owned st1 = insert b (owned st) \<and> phm_ok st1 \<and> phmFreeFrameEx (b + n) (8 - n) st1 = Ok st'))"
proof (cases "1 < n \<and> n \<le> 8")
  case True
  with phmAllocFrameEx_short [OF assms(1) _ _ assms(3)] show ?thesis by (auto simp: gain_def)
next
  case False
  then have "n \<le> 8 \<Longrightarrow> 1 < n \<Longrightarrow> pm_tracks st = []" by blast
  from phmAllocFrameEx_gain [OF assms(1,2) this assms(3)] show ?thesis by (simp add: gain_def)
qed

definition phm_demo :: "nat list \<Rightarrow> nat list list \<Rightarrow> u8 list \<Rightarrow> physmem" where
  "phm_demo pages tracks bm = \<lparr>pm_placement = 64, pm_map = [], pm_mapStart = [], pm_num = 128, pm_bitmap = Some bm,
     pm_lowest = 64, pm_total = 64, pm_used = of_nat (length pages + length (concat tracks)),
     pm_pages = pages, pm_tracks = tracks\<rparr>"

theorem phmAllocFrameEx_owned_witness:
  "\<exists>st'. phmAllocFrameEx 3 (phm_demo [] [] (replicate 9 0xFF @ replicate 8 0)) = Ok (72, st') \<and> 74 \<in> owned st'"
proof -
  let ?st = "phm_demo [] [] (replicate 9 0xFF @ replicate 8 0)"
  have ok: "phm_ok ?st"
    by (simp add: phm_ok_def phm_demo_def cached_def used_def nth_append)
  have "case phmAllocFrameEx 3 ?st of Ok (b, _) \<Rightarrow> b = 72 | Panic \<Rightarrow> False" by code_simp
  then obtain st' where a: "phmAllocFrameEx 3 ?st = Ok (72, st')" by (auto split: kres.splits)
  from phmAllocFrameEx_owned [OF ok _ a] have "owned st' = owned ?st \<union> {72..<72 + 3}"
    by (simp add: phm_demo_def)
  with a show ?thesis by auto
qed

text \<open>When no 8 free frames are left and \<open>sdFreeMemory\<close> drops a track, a request for 2 to 8 frames
  gets the one frame that \<open>sdFreeMemory\<close> returned: the caller uses the frames after it as well,
  but they are free or owned by others.\<close>
theorem phmAlloc8_short:
  assumes "phm_ok st" and "pm_tracks st = t # ts" and "\<forall>f < 8 * (pm_num st div 8). phm_used st f"
  shows "\<exists>st'. phmAllocFrameEx 8 st = Ok (hd t, st') \<and> owned st' = insert (hd t) (owned st)"
proof -
  from assms(1) obtain bm where bm: "pm_bitmap st = Some bm" "length bm = pm_num st div 8 + 1" by (rule phm_okE)
  have none: "cas_scan 1 [m..<pm_num st div 8] bm = None" for m
  proof (rule ccontr)
    assume "cas_scan 1 [m..<pm_num st div 8] bm \<noteq> None"
    then obtain i bm' where c: "cas_scan 1 [m..<pm_num st div 8] bm = Some (i, bm')" by auto
    have r: "\<forall>i \<in> set [m..<pm_num st div 8]. 1 * i + 1 \<le> length bm" using groups_range [OF bm(2), of 1 m] by simp
    from cas_scan_used [OF c r] have "i \<in> {m..<pm_num st div 8}" "\<not> used bm (i * 8)" by auto
    with assms(3) bm(1) show False by (auto simp: phm_used_def)
  qed
  from sdFreeMemory_gain [OF assms(1)] assms(2) obtain f st' where
    s: "sdFreeMemory st = Ok (f, st')" "f \<noteq> 0" "gain st {f} st'" by auto
  from s(1) assms(2) have f: "f = hd t" by (auto simp: sdFreeMemory_def kbind_Ok_iff)
  have "phmAlloc8 st = Ok (f, st')"
    using bm(1) none [of "find_start (pm_lowest st) (pm_num st) bm div 8"] s(1,2)
    by (subst phmAlloc8.simps) (simp add: Let_def)
  then have "phmAllocFrameEx 8 st = Ok (f, st')" by (simp add: phmAllocFrameEx_def phmFreeFrameEx_def)
  with f s(3) show ?thesis by (simp add: gain_def)
qed

theorem phmAlloc8_short_witness:
  "\<exists>st1 st2. phmAllocFrameEx 8 (phm_demo [] [[100, 101, 102, 103, 104, 105, 106, 107]] (replicate 17 0xFF)) = Ok (100, st1) \<and>
    phmAllocSingle st1 = Ok (101, st2)"
proof -
  let ?st = "phm_demo [] [[100, 101, 102, 103, 104, 105, 106, 107]] (replicate 17 0xFF)"
  have u: "phm_used ?st f" if "f < 136" for f
    using that byte_full [of "0xFF"] by (auto simp: phm_used_def phm_demo_def used_def)
  have "phm_ok ?st"
    using u by (simp add: phm_ok_def cached_def) (simp add: phm_demo_def used_def)
  from phmAlloc8_short [OF this, of "[100, 101, 102, 103, 104, 105, 106, 107]" "[]"] u
  obtain st1 where 1: "phmAllocFrameEx 8 ?st = Ok (100, st1)" by (auto simp: phm_demo_def)
  have "(case phmAllocFrameEx 8 ?st of Ok (_, st1) \<Rightarrow> (case phmAllocSingle st1 of Ok (f, _) \<Rightarrow> f = 101 | _ \<Rightarrow> False) | _ \<Rightarrow> False)"
    by code_simp
  with 1 show ?thesis by (auto split: kres.splits)
qed

text \<open>\<open>initPhysMem2\<close> marks free exactly the frames, from the end of the kernel on, of the usable
  regions of the memory map and the frame after each of them, where a region that ends on a page
  boundary has no memory.\<close>
theorem initPhysMem2_frames:
  assumes "initPhysMem2 st = Ok st'" and "f < 8 * (pm_num st div 8 + 1)"
  shows "phm_used st' f \<longleftrightarrow> \<not> (\<exists>m \<in> set (pm_mapStart st). isUseableMemory m \<and> unat (pm_placement st) \<le> f \<and>
    unat (mb_baseAddr m div 0x1000) \<le> f \<and> f \<le> unat ((mb_baseAddr m + mb_len m) div 0x1000))"
proof -
  let ?bm = "replicate (pm_num st div 8 + 1) 0xFF"
  let ?st = "st\<lparr>pm_bitmap := Some ?bm, pm_total := 0\<rparr>"
  obtain st1 where 1: "clear_regions (pm_mapStart st) ?st = Ok st1" and r: "pm_bitmap st' = pm_bitmap st1"
  proof (cases "clear_regions (pm_mapStart st) ?st")
    case (Ok st1)
    with assms(1) have "pm_bitmap st' = pm_bitmap st1"
      by (auto simp: initPhysMem2_def Let_def simp del: replicate_Suc split: option.splits)
    with Ok that show thesis by blast
  qed (use assms(1) in \<open>simp add: initPhysMem2_def\<close>)
  from clear_regions_used [OF 1, of ?bm] obtain bm1 where b: "pm_bitmap st1 = Some bm1"
    "\<forall>f. used bm1 f \<longleftrightarrow> used ?bm f \<and> \<not> (\<exists>m \<in> set (pm_mapStart st). freed_by (pm_placement st) m f)" by auto
  have "f div 8 < pm_num st div 8 + 1" using assms(2) by (simp add: div_less_iff_less_mult mult.commute)
  then have "used ?bm f" using byte_full [of "0xFF"] by (simp add: used_def del: replicate_Suc)
  with b r show ?thesis by (simp add: phm_used_def freed_by_def)
qed

definition boot_demo :: "MultibootMemoryMap list \<Rightarrow> physmem" where
  "boot_demo ms = (phm_demo [] [] [])\<lparr>pm_bitmap := None, pm_mapStart := ms, pm_map := ms\<rparr>"

theorem initPhysMem2_frames_witness:
  "\<exists>st'. initPhysMem2 (boot_demo [\<lparr>mb_baseAddr = 0x40000, mb_len = 0x4000, mb_type = 1\<rparr>]) = Ok st' \<and> \<not> phm_used st' 68"
proof -
  let ?st = "boot_demo [\<lparr>mb_baseAddr = 0x40000, mb_len = 0x4000, mb_type = 1\<rparr>]"
  have "case initPhysMem2 ?st of Ok st' \<Rightarrow> True | Panic \<Rightarrow> False" by code_simp
  then obtain st' where i: "initPhysMem2 ?st = Ok st'" by (auto split: kres.splits)
  from initPhysMem2_frames [OF this, of 68] i show ?thesis
    by (simp add: boot_demo_def phm_demo_def isUseableMemory_def has_def)
qed

text \<open>Before the bitmap exists, when the kernel lies above the first entry of the memory map,
  \<open>phmAllocFrame\<close> hands out one frame after the other from the end of the kernel on and never looks
  at the map again: \<open>isFrameInArea\<close> accepts every entry and \<open>memoryMap\<close> stays at the first one.\<close>
theorem phm_boot_blind:
  assumes "isUseableMemory m" and "mb_baseAddr m div 0x1000 + mb_len m div 0x1000 < drop_bit 12 endAddr"
    and "unat (drop_bit 12 endAddr) + k < 2 ^ 64" and "pm_bitmap st = None"
  shows "\<exists>st'. initPhysMem n (m # ms) endAddr st = Ok st' \<and>
    boot_allocs k st' = Ok [unat (drop_bit 12 endAddr)..<unat (drop_bit 12 endAddr) + k]"
proof -
  let ?st = "st\<lparr>pm_placement := drop_bit 12 endAddr, pm_num := n, pm_map := m # ms, pm_mapStart := m # ms\<rparr>"
  have "mb_baseAddr m div 0x1000 \<le> mb_baseAddr m div 0x1000 + mb_len m div 0x1000"
  proof -
    have b: "unat (x div 0x1000 :: u64) < 2 ^ 52" for x
    proof -
      have "unat x < 2 ^ LENGTH(64)" by (rule unsigned_less)
      then show ?thesis by (simp add: unat_div div_less_iff_less_mult)
    qed
    have "unat (mb_baseAddr m div 0x1000) + unat (mb_len m div 0x1000) < 2 ^ LENGTH(64)"
      using b [of "mb_baseAddr m"] b [of "mb_len m"] by simp
    then show ?thesis by (simp add: word_le_nat_alt unat_add_lem [THEN iffD1])
  qed
  with assms(2) have "isFrameInArea m (drop_bit 12 endAddr)" by (auto simp: isFrameInArea_def Let_def)
  with assms(1) have "initPhysMem n (m # ms) endAddr st = Ok ?st" by (simp add: initPhysMem_def Let_def)
  moreover have "boot_allocs k ?st = Ok [unat (pm_placement ?st)..<unat (pm_placement ?st) + k]"
    using assms by (intro boot_allocs_run) simp_all
  ultimately show ?thesis by simp
qed

theorem phm_boot_blind_witness:
  "\<exists>st'. initPhysMem 4096 [\<lparr>mb_baseAddr = 0, mb_len = 0x9F000, mb_type = 1\<rparr>, \<lparr>mb_baseAddr = 0x100000, mb_len = 0x200000, mb_type = 1\<rparr>]
      0x2FF000 (boot_demo []) = Ok st' \<and> boot_allocs 3 st' = Ok [767, 768, 769]"
  using phm_boot_blind [of "\<lparr>mb_baseAddr = 0, mb_len = 0x9F000, mb_type = 1\<rparr>" "0x2FF000" 3 "boot_demo []" 4096
      "[\<lparr>mb_baseAddr = 0x100000, mb_len = 0x200000, mb_type = 1\<rparr>]"]
  by (simp add: isUseableMemory_def has_def boot_demo_def drop_bit_eq_div upt_conv_Cons)

end
