(* ===== verification/Gx_SlabHeap.thy ===== *)
theory Gx_SlabHeap
  imports Gx_PhysMem
begin

text \<open>
  \<open>kernel/src/util/heap-slab.c\<close>: the kernel heap. Addresses are offsets from
  \<open>HEAP_BASE_ADDR\<close>. The chain of free slabs of a bucket, linked through the slabs, is a list of
  their addresses; the headers of the used slabs are \<open>sh_hdr\<close>, by the address of the slab, and
  the bytes of the blocks \<open>sh_mem\<close>. The page tables are maps from the numbers of their
  entries, level by level, to frames, which come from the allocator of \<open>Gx_PhysMem\<close>. The
  functions run under \<open>heapLock\<close>.
\<close>

section \<open>State\<close>

abbreviation NUM_BUCKETS :: nat where "NUM_BUCKETS \<equiv> 26"

record pagetab =
  pt4 :: "nat \<Rightarrow> nat option"
  pt3 :: "nat \<Rightarrow> nat option"
  pt2 :: "nat \<Rightarrow> nat option"
  pt1 :: "nat \<Rightarrow> nat option"

record UsedSlab =
  us_bucket :: nat
  us_realSize :: u64

record slabheap =
  sh_buckets :: "nat \<Rightarrow> nat list"
  sh_hdr :: "nat \<Rightarrow> UsedSlab"
  sh_mem :: "nat \<Rightarrow> u8"
  sh_pt :: pagetab
  sh_phm :: physmem

definition slabSize :: "nat \<Rightarrow> nat" where
  "slabSize b = 2 ^ (b + 5)"

section \<open>Mapping\<close>

text \<open>One level: an entry that is not present gets a frame.\<close>

definition ensure_entry :: "(nat \<Rightarrow> nat option) \<Rightarrow> nat \<Rightarrow> physmem \<Rightarrow> ((nat \<Rightarrow> nat option) \<times> physmem) kres" where
  "ensure_entry t i phm =
     (case t i of
        Some _ \<Rightarrow> Ok (t, phm)
      | None \<Rightarrow> kbind (phmAllocFrame phm) (\<lambda>(f, phm). Ok (t(i \<mapsto> f), phm)))"

definition map_page :: "nat \<Rightarrow> pagetab \<times> physmem \<Rightarrow> (pagetab \<times> physmem) kres" where
  "map_page addr = (\<lambda>(pt, phm).
     kbind (ensure_entry (pt4 pt) (addr div 2 ^ 39) phm) (\<lambda>(t4, phm).
     kbind (ensure_entry (pt3 pt) (addr div 2 ^ 30) phm) (\<lambda>(t3, phm).
     kbind (ensure_entry (pt2 pt) (addr div 2 ^ 21) phm) (\<lambda>(t2, phm).
     kbind (ensure_entry (pt1 pt) (addr div 2 ^ 12) phm) (\<lambda>(t1, phm).
       Ok (\<lparr>pt4 = t4, pt3 = t3, pt2 = t2, pt1 = t1\<rparr>, phm))))))"

fun map_list :: "nat list \<Rightarrow> pagetab \<times> physmem \<Rightarrow> (pagetab \<times> physmem) kres" where
  "map_list [] s = Ok s"
| "map_list (a # as) s = kbind (map_page a s) (map_list as)"

text \<open>The addresses \<open>ptr\<close>, \<open>ptr + 0x1000\<close>, ... below \<open>ptr + size\<close>.\<close>

definition mapPages :: "nat \<Rightarrow> nat \<Rightarrow> slabheap \<Rightarrow> slabheap kres" where
  "mapPages ptr n h =
     kbind (map_list (map (\<lambda>i. ptr + i * 0x1000) [0..<(n + 0xFFF) div 0x1000]) (sh_pt h, sh_phm h))
       (\<lambda>(pt, phm). Ok (h\<lparr>sh_pt := pt, sh_phm := phm\<rparr>))"

section \<open>The heap\<close>

text \<open>\<open>slabAlloc\<close>: the address of a slab of the bucket, if there is one.\<close>

function slabAlloc :: "nat \<Rightarrow> slabheap \<Rightarrow> (nat option \<times> slabheap) kres" where
  "slabAlloc bucket h =
     (if bucket \<ge> NUM_BUCKETS then Ok (None, h)
      else case sh_buckets h bucket of
        front # rest \<Rightarrow> Ok (Some front, h\<lparr>sh_buckets := (sh_buckets h)(bucket := rest)\<rparr>)
      | [] \<Rightarrow>
          kbind (slabAlloc (bucket + 1) h) (\<lambda>(higher, h).
            case higher of
              None \<Rightarrow> Ok (None, h)
            | Some higher \<Rightarrow>
                let other = higher + slabSize bucket
                in kbind (mapPages other 1 h) (\<lambda>h.
                     Ok (Some higher, h\<lparr>sh_buckets := (sh_buckets h)(bucket := [other])\<rparr>))))"
  by pat_completeness auto

termination by (relation "measure (\<lambda>(b, h). NUM_BUCKETS - b)") auto

declare slabAlloc.simps [simp del]

definition initMemoryPhase2 :: "slabheap \<Rightarrow> slabheap kres" where
  "initMemoryPhase2 h =
     kbind (mapPages 0 1 h) (\<lambda>h. Ok (h\<lparr>sh_buckets := (sh_buckets h)(NUM_BUCKETS - 1 := [0])\<rparr>))"

text \<open>The result is the address of \<open>data\<close>, 16 bytes after the slab; \<open>None\<close> is \<open>NULL\<close>.\<close>

definition kxmallocDynamic :: "u64 \<Rightarrow> slabheap \<Rightarrow> (nat option \<times> slabheap) kres" where
  "kxmallocDynamic n h =
     (if n = 0 then Ok (None, h)
      else
        let n = n + 16 in
        (case find (\<lambda>b. slabSize b \<ge> unat n) [0..<NUM_BUCKETS] of
           None \<Rightarrow> Ok (None, h)
         | Some bucket \<Rightarrow>
             kbind (slabAlloc bucket h) (\<lambda>(fslab, h).
               case fslab of
                 None \<Rightarrow> Ok (None, h)
               | Some s \<Rightarrow>
                   kbind (mapPages s (unat n) h) (\<lambda>h.
                     Ok (Some (s + 16),
                         h\<lparr>sh_hdr := (sh_hdr h)(s := \<lparr>us_bucket = bucket, us_realSize = n - 16\<rparr>)\<rparr>)))))"

definition kfree :: "nat option \<Rightarrow> slabheap \<Rightarrow> slabheap" where
  "kfree block h =
     (case block of
        None \<Rightarrow> h
      | Some p \<Rightarrow>
          let s = p - 16; bucket = us_bucket (sh_hdr h s)
          in h\<lparr>sh_buckets := (sh_buckets h)(bucket := s # sh_buckets h bucket)\<rparr>)"

definition memcpy :: "nat \<Rightarrow> nat \<Rightarrow> nat \<Rightarrow> (nat \<Rightarrow> u8) \<Rightarrow> nat \<Rightarrow> u8" where
  "memcpy dst src n mem = (\<lambda>a. if dst \<le> a \<and> a < dst + n then mem (a - dst + src) else mem a)"

definition krealloc :: "nat option \<Rightarrow> u64 \<Rightarrow> slabheap \<Rightarrow> (nat option \<times> slabheap) kres" where
  "krealloc block n h =
     (if n = 0 then Ok (None, kfree block h)
      else case block of
        None \<Rightarrow> kxmallocDynamic n h
      | Some p \<Rightarrow>
          let n = n + 16; s = p - 16; hd = sh_hdr h s; currentSize = slabSize (us_bucket hd) in
          if us_bucket hd \<noteq> 0 \<and> unat n < currentSize div 2 then
            let b = us_bucket hd - 1;
                h = h\<lparr>sh_hdr := (sh_hdr h)(s := \<lparr>us_bucket = b, us_realSize = n - 16\<rparr>)\<rparr>;
                second = s + slabSize b
            in kbind (mapPages second 1 h) (\<lambda>h.
                 Ok (Some p, h\<lparr>sh_buckets := (sh_buckets h)(b := second # sh_buckets h b)\<rparr>))
          else if unat n \<le> currentSize then
            kbind (mapPages s (unat n) (h\<lparr>sh_hdr := (sh_hdr h)(s := hd\<lparr>us_realSize := n - 16\<rparr>)\<rparr>))
              (\<lambda>h. Ok (Some p, h))
          else
            kbind (kxmallocDynamic (n - 16) h) (\<lambda>(newblock, h).
              case newblock of
                None \<Rightarrow> Ok (None, h)
              | Some q \<Rightarrow>
                  let toCopy = us_realSize (sh_hdr h s);
                      toCopy = (if toCopy > n - 16 then n - 16 else toCopy)
                  in Ok (Some q, kfree (Some p) (h\<lparr>sh_mem := memcpy q p (unat toCopy) (sh_mem h)\<rparr>))))"

section \<open>Page tables\<close>

definition pt_entry :: "pagetab \<Rightarrow> nat \<times> nat \<Rightarrow> nat option" where
  "pt_entry pt = (\<lambda>(l, i). if l = 4 then pt4 pt i else if l = 3 then pt3 pt i else if l = 2 then pt2 pt i
     else if l = 1 then pt1 pt i else None)"

text \<open>Every entry has a frame of its own, which the allocator counts as handed out.\<close>

definition pt_ok :: "pagetab \<times> physmem \<Rightarrow> bool" where
  "pt_ok s \<longleftrightarrow> phm_ok (snd s) \<and> inj_on (pt_entry (fst s)) (dom (pt_entry (fst s))) \<and>
     ran (pt_entry (fst s)) \<subseteq> owned (snd s)"

lemma phmAllocFrame_single: "phm_ok phm \<Longrightarrow> phmAllocFrame phm = phmAllocSingle phm"
  by (auto simp: phmAllocFrame_def phm_ok_def)

lemma ensure_entry_ok:
  assumes "ensure_entry t i phm = Ok (t', phm')" and "phm_ok phm" and "inj_on e (dom e)" and "ran e \<subseteq> owned phm"
    and "\<And>j. e (l, j) = t j"
  shows "phm_ok phm' \<and> t \<subseteq>\<^sub>m t' \<and> t' i \<noteq> None \<and>
    (let e' = e((l, i) := t' i) in inj_on e' (dom e') \<and> ran e' \<subseteq> owned phm' \<and> e \<subseteq>\<^sub>m e' \<and> (\<forall>j. e' (l, j) = t' j))"
proof (cases "t i")
  case (Some f)
  with assms have "t' = t" "phm' = phm" "e((l, i) := t i) = e" by (auto simp: ensure_entry_def fun_eq_iff)
  with Some assms show ?thesis by (auto simp: Let_def)
next
  case None
  with assms(1,2) obtain f where f: "phmAllocSingle phm = Ok (f, phm')" "t' = t(i \<mapsto> f)"
    by (auto simp: ensure_entry_def kbind_Ok_iff phmAllocFrame_single)
  from fp.alloc_law [OF assms(2) f(1)] have o: "f \<notin> owned phm" "phm_ok phm'" "owned phm' = insert f (owned phm)"
    by blast+
  from None assms(5) have e: "e (l, i) = None" by simp
  have "Some f \<notin> e ` dom e" 
  proof
    assume "Some f \<in> e ` dom e"
    then obtain x where "e x = Some f" by auto
    with assms(4) o(1) show False by (auto intro: ranI)
  qed
  then have "inj_on (e((l, i) \<mapsto> f)) (dom (e((l, i) \<mapsto> f)))"
    using inj_on_fun_updI [OF assms(3), of "Some f" "(l, i)"] image_mono [of "dom e - {(l, i)}" "dom e" e]
    by (auto simp: inj_on_insert fun_upd_image)
  moreover have "ran (e((l, i) \<mapsto> f)) = insert f (ran e)" using e by simp
  ultimately show ?thesis using f o assms(4,5) e None by (auto simp: Let_def map_le_def)
qed

lemma ensure_level:
  assumes "ensure_entry t i phm = Ok (t', phm')" and "pt_ok (pt, phm)"
    and "\<And>j. pt_entry pt (l, j) = t j" and "\<And>k j. pt_entry pt' (k, j) = (if k = l then t' j else pt_entry pt (k, j))"
  shows "pt_ok (pt', phm') \<and> pt_entry pt \<subseteq>\<^sub>m pt_entry pt' \<and> t' i \<noteq> None"
proof -
  let ?e = "pt_entry pt"
  from assms(2) have "phm_ok phm" "inj_on ?e (dom ?e)" "ran ?e \<subseteq> owned phm" by (simp_all add: pt_ok_def)
  from ensure_entry_ok [OF assms(1) this assms(3)] have r: "phm_ok phm'" "t' i \<noteq> None"
    "inj_on (?e((l, i) := t' i)) (dom (?e((l, i) := t' i)))" "ran (?e((l, i) := t' i)) \<subseteq> owned phm'"
    "?e \<subseteq>\<^sub>m ?e((l, i) := t' i)" "\<And>j. (?e((l, i) := t' i)) (l, j) = t' j"
    by (simp_all add: Let_def)
  have "?e((l, i) := t' i) = pt_entry pt'"
  proof (rule ext)
    fix x :: "nat \<times> nat"
    obtain k j where x: "x = (k, j)" by (cases x)
    show "(?e((l, i) := t' i)) x = pt_entry pt' x"
      using r(6) [of j] assms(4) [of k j] x by (cases "k = l") auto
  qed
  with r show ?thesis by (simp add: pt_ok_def)
qed

lemma map_page_ok:
  assumes "map_page addr s = Ok s'" and "pt_ok s"
  shows "pt_ok s' \<and> pt_entry (fst s) \<subseteq>\<^sub>m pt_entry (fst s') \<and> pt1 (fst s') (addr div 2 ^ 12) \<noteq> None"
proof -
  obtain pt phm where s: "s = (pt, phm)" by (cases s)
  from assms(1) s obtain t4 t3 t2 t1 p4 p3 p2 p1 where
    e4: "ensure_entry (pt4 pt) (addr div 2 ^ 39) phm = Ok (t4, p4)" and
    e3: "ensure_entry (pt3 pt) (addr div 2 ^ 30) p4 = Ok (t3, p3)" and
    e2: "ensure_entry (pt2 pt) (addr div 2 ^ 21) p3 = Ok (t2, p2)" and
    e1: "ensure_entry (pt1 pt) (addr div 2 ^ 12) p2 = Ok (t1, p1)" and
    s': "s' = (\<lparr>pt4 = t4, pt3 = t3, pt2 = t2, pt1 = t1\<rparr>, p1)"
    by (auto simp: map_page_def kbind_Ok_iff)
  let ?q4 = "pt\<lparr>pt4 := t4\<rparr>" let ?q3 = "?q4\<lparr>pt3 := t3\<rparr>" let ?q2 = "?q3\<lparr>pt2 := t2\<rparr>" let ?q1 = "?q2\<lparr>pt1 := t1\<rparr>"
  have l4: "pt_ok (?q4, p4) \<and> pt_entry pt \<subseteq>\<^sub>m pt_entry ?q4 \<and> t4 (addr div 2 ^ 39) \<noteq> None"
    using assms(2) s by (intro ensure_level [OF e4, of _ 4]) (simp_all add: pt_entry_def)
  have l3: "pt_ok (?q3, p3) \<and> pt_entry ?q4 \<subseteq>\<^sub>m pt_entry ?q3 \<and> t3 (addr div 2 ^ 30) \<noteq> None"
    using l4 by (intro ensure_level [OF e3, of _ 3]) (simp_all add: pt_entry_def)
  have l2: "pt_ok (?q2, p2) \<and> pt_entry ?q3 \<subseteq>\<^sub>m pt_entry ?q2 \<and> t2 (addr div 2 ^ 21) \<noteq> None"
    using l3 by (intro ensure_level [OF e2, of _ 2]) (simp_all add: pt_entry_def)
  have l1: "pt_ok (?q1, p1) \<and> pt_entry ?q2 \<subseteq>\<^sub>m pt_entry ?q1 \<and> t1 (addr div 2 ^ 12) \<noteq> None"
    using l2 by (intro ensure_level [OF e1, of _ 1]) (simp_all add: pt_entry_def)
  have "pt_entry pt \<subseteq>\<^sub>m pt_entry ?q1" using l4 l3 l2 l1 map_le_trans by blast
  moreover have q: "?q1 = \<lparr>pt4 = t4, pt3 = t3, pt2 = t2, pt1 = t1\<rparr>" by simp
  ultimately show ?thesis using l1 [unfolded q] s s' by simp
qed

lemma pt1_mono: "pt_entry pt \<subseteq>\<^sub>m pt_entry pt' \<Longrightarrow> pt1 pt i \<noteq> None \<Longrightarrow> pt1 pt' i \<noteq> None"
proof -
  assume m: "pt_entry pt \<subseteq>\<^sub>m pt_entry pt'" and "pt1 pt i \<noteq> None"
  have e: "pt_entry q (1, i) = pt1 q i" for q by (simp add: pt_entry_def)
  then have "(1, i) \<in> dom (pt_entry pt)" using \<open>pt1 pt i \<noteq> None\<close> by auto
  with m have "pt_entry pt (1, i) = pt_entry pt' (1, i)" by (simp add: map_le_def)
  with e \<open>pt1 pt i \<noteq> None\<close> show ?thesis by simp
qed

lemma map_list_ok:
  "map_list as s = Ok s' \<Longrightarrow> pt_ok s \<Longrightarrow>
     pt_ok s' \<and> pt_entry (fst s) \<subseteq>\<^sub>m pt_entry (fst s') \<and> (\<forall>a \<in> set as. pt1 (fst s') (a div 2 ^ 12) \<noteq> None)"
proof (induction as arbitrary: s)
  case (Cons a as)
  then obtain s1 where 1: "map_page a s = Ok s1" "map_list as s1 = Ok s'" by (auto simp: kbind_Ok_iff)
  from map_page_ok [OF 1(1) Cons.prems(2)] have p: "pt_ok s1" "pt_entry (fst s) \<subseteq>\<^sub>m pt_entry (fst s1)"
    "pt1 (fst s1) (a div 2 ^ 12) \<noteq> None" by blast+
  from Cons.IH [OF 1(2) p(1)] p map_le_trans pt1_mono show ?case by (metis set_ConsD)
qed simp

definition mapped :: "slabheap \<Rightarrow> nat \<Rightarrow> nat \<Rightarrow> bool" where
  "mapped h a n \<longleftrightarrow> (\<forall>x \<in> {a..<a + n}. pt1 (sh_pt h) (x div 0x1000) \<noteq> None)"

lemma mapPages_ok:
  assumes "mapPages a n h = Ok h'" and "pt_ok (sh_pt h, sh_phm h)" and "slabSize b dvd a" and "n \<le> slabSize b"
  shows "pt_ok (sh_pt h', sh_phm h') \<and> pt_entry (sh_pt h) \<subseteq>\<^sub>m pt_entry (sh_pt h') \<and> mapped h' a n \<and>
    sh_buckets h' = sh_buckets h \<and> sh_hdr h' = sh_hdr h \<and> sh_mem h' = sh_mem h"
proof -
  let ?as = "map (\<lambda>i. a + i * 0x1000) [0..<(n + 0xFFF) div 0x1000]"
  from assms(1) obtain pt phm where m: "map_list ?as (sh_pt h, sh_phm h) = Ok (pt, phm)"
    and h': "h' = h\<lparr>sh_pt := pt, sh_phm := phm\<rparr>" by (auto simp: mapPages_def kbind_Ok_iff)
  from map_list_ok [OF m assms(2)] have r: "pt_ok (pt, phm)" "pt_entry (sh_pt h) \<subseteq>\<^sub>m pt_entry pt"
    "\<forall>y \<in> set ?as. pt1 pt (y div 0x1000) \<noteq> None" by simp_all
  have "pt1 pt (x div 0x1000) \<noteq> None" if x: "x \<in> {a..<a + n}" for x
  proof -
    let ?i = "(x - a) div 0x1000"
    have "?i < (n + 0xFFF) div 0x1000" using x by (auto simp: less_eq_div_iff_mult_less_eq Suc_le_eq [symmetric])
    then have "a + ?i * 0x1000 \<in> set ?as" by auto
    moreover have "(a + ?i * 0x1000) div 0x1000 = x div 0x1000"
    proof (cases "b < 7")
      case True
      then have "slabSize b dvd 0x1000"
        using le_imp_power_dvd [of "b + 5" 12 "2 :: nat"] by (simp add: slabSize_def)
      then obtain k where k: "0x1000 = slabSize b * k" by (elim dvdE)
      from assms(3) obtain c where c: "a = slabSize b * c" by (elim dvdE)
      have "x div slabSize b = c"
        using x c assms(4) by (intro div_nat_eqI) (auto simp: algebra_simps)
      moreover have "a div slabSize b = c" using c by (simp add: slabSize_def)
      ultimately have "x div 0x1000 = a div 0x1000" unfolding k by (simp only: div_mult2_eq)
      moreover have "?i = 0"
      proof -
        have "slabSize b \<le> 2 ^ 12" using True power_increasing [of "b + 5" 12 "2 :: nat"] by (simp add: slabSize_def)
        with x assms(4) show ?thesis by auto
      qed
      ultimately show ?thesis by simp
    next
      case False
      then have "2 ^ 12 dvd slabSize b" using le_imp_power_dvd [of 12 "b + 5" "2 :: nat"] by (simp add: slabSize_def)
      with assms(3) have "(0x1000 :: nat) dvd a" using dvd_trans by fastforce
      then obtain c where c: "a = 0x1000 * c" by (elim dvdE)
      have "x div 0x1000 = c + ?i"
      proof -
        have "x = (x - a) + 0x1000 * c" using x c by simp
        then have "x div 0x1000 = ((x - a) + 0x1000 * c) div 0x1000" by simp
        then show ?thesis by simp
      qed
      with c show ?thesis by simp
    qed
    ultimately show ?thesis using r(3) by metis
  qed
  with r h' show ?thesis by (simp add: mapped_def)
qed

lemma mapped_mono: "mapped h a n \<Longrightarrow> pt_entry (sh_pt h) \<subseteq>\<^sub>m pt_entry (sh_pt h') \<Longrightarrow> mapped h' a n"
  using pt1_mono by (auto simp: mapped_def)

section \<open>Slabs\<close>

text \<open>A slab is an address and a bucket. The heap is tiled by its slabs.\<close>

definition tiling :: "(nat \<times> nat) set \<Rightarrow> bool" where
  "tiling S \<longleftrightarrow> (\<forall>s \<in> S. snd s < NUM_BUCKETS \<and> slabSize (snd s) dvd fst s \<and> fst s + slabSize (snd s) \<le> 2 ^ 30) \<and>
     (\<forall>s \<in> S. \<forall>t \<in> S. s \<noteq> t \<longrightarrow> fst s + slabSize (snd s) \<le> fst t \<or> fst t + slabSize (snd t) \<le> fst s) \<and>
     (\<forall>x < 2 ^ 30. \<exists>s \<in> S. fst s \<le> x \<and> x < fst s + slabSize (snd s))"

definition free_slabs :: "slabheap \<Rightarrow> (nat \<times> nat) set" where
  "free_slabs h = {(a, b). b < NUM_BUCKETS \<and> a \<in> set (sh_buckets h b)}"

definition buckets_ok :: "slabheap \<Rightarrow> (nat \<times> nat) set \<Rightarrow> bool" where
  "buckets_ok h L \<longleftrightarrow> tiling (free_slabs h \<union> L) \<and> free_slabs h \<inter> L = {} \<and> (\<forall>b < NUM_BUCKETS. distinct (sh_buckets h b))"

lemma slabSize_Suc [simp]: "slabSize (Suc b) = 2 * slabSize b"
  by (simp only: slabSize_def add_Suc power_Suc)

lemma slabSize_pos [simp]: "0 < slabSize b"
  by (simp add: slabSize_def)

lemma tiling_disjoint:
  "tiling S \<Longrightarrow> s \<in> S \<Longrightarrow> t \<in> S \<Longrightarrow> s \<noteq> t \<Longrightarrow>
     fst s + slabSize (snd s) \<le> fst t \<or> fst t + slabSize (snd t) \<le> fst s"
  unfolding tiling_def by blast

lemma tiling_slab:
  "tiling S \<Longrightarrow> (a, b) \<in> S \<Longrightarrow> b < NUM_BUCKETS \<and> slabSize b dvd a \<and> a + slabSize b \<le> 2 ^ 30"
  unfolding tiling_def by fastforce

lemma tiling_addr: "tiling S \<Longrightarrow> (a, b) \<in> S \<Longrightarrow> (a, c) \<in> S \<Longrightarrow> b = c"
proof (rule ccontr)
  assume "tiling S" "(a, b) \<in> S" "(a, c) \<in> S" "b \<noteq> c"
  with tiling_disjoint [of S "(a, b)" "(a, c)"] slabSize_pos [of b] slabSize_pos [of c] show False by simp
qed

text \<open>A slab of bucket \<open>b + 1\<close> is split into two of bucket \<open>b\<close>.\<close>

lemma tiling_split:
  assumes "tiling (insert (a, Suc b) T)" and "(a, Suc b) \<notin> T"
  shows "tiling (insert (a, b) (insert (a + slabSize b, b) T))" and "(a, b) \<notin> T" and "(a + slabSize b, b) \<notin> T"
proof -
  let ?S = "insert (a, Suc b) T"
  have d: "t \<in> T \<Longrightarrow> a + 2 * slabSize b \<le> fst t \<or> fst t + slabSize (snd t) \<le> a" for t
    using tiling_disjoint [OF assms(1), of "(a, Suc b)" t] assms(2) by auto
  show n1: "(a, b) \<notin> T" using d [of "(a, b)"] slabSize_pos [of b] by auto
  show n2: "(a + slabSize b, b) \<notin> T" using d [of "(a + slabSize b, b)"] slabSize_pos [of b] by auto
  have ab: "Suc b < NUM_BUCKETS" "2 * slabSize b dvd a" "a + 2 * slabSize b \<le> 2 ^ 30"
    using assms(1) by (auto simp: tiling_def)
  have dv: "slabSize b dvd a" using ab(2) dvd_mult_right by blast
  show "tiling (insert (a, b) (insert (a + slabSize b, b) T))"
    unfolding tiling_def
  proof (intro conjI ballI allI impI)
    fix s assume s: "s \<in> insert (a, b) (insert (a + slabSize b, b) T)"
    show "snd s < NUM_BUCKETS" "slabSize (snd s) dvd fst s" "fst s + slabSize (snd s) \<le> 2 ^ 30"
      using s ab dv assms(1) by (auto simp: tiling_def)
    fix t assume t: "t \<in> insert (a, b) (insert (a + slabSize b, b) T)" and "s \<noteq> t"
    show "fst s + slabSize (snd s) \<le> fst t \<or> fst t + slabSize (snd t) \<le> fst s"
    proof (cases "s \<in> T \<and> t \<in> T")
      case True
      with tiling_disjoint [OF assms(1), of s t] \<open>s \<noteq> t\<close> show ?thesis by blast
    next
      case False
      with s t \<open>s \<noteq> t\<close> d [of s] d [of t] show ?thesis by auto
    qed
  next
    fix x :: nat assume "x < 2 ^ 30"
    with assms(1) obtain s where s: "s \<in> ?S" "fst s \<le> x" "x < fst s + slabSize (snd s)"
      unfolding tiling_def by blast
    show "\<exists>s \<in> insert (a, b) (insert (a + slabSize b, b) T). fst s \<le> x \<and> x < fst s + slabSize (snd s)"
    proof (cases "s \<in> T")
      case False
      with s have x: "a \<le> x" "x < a + 2 * slabSize b" by auto
      show ?thesis
      proof (cases "x < a + slabSize b")
        case True
        with x show ?thesis by (intro bexI [of _ "(a, b)"]) auto
      next
        case False
        with x show ?thesis by (intro bexI [of _ "(a + slabSize b, b)"]) auto
      qed
    qed (use s in auto)
  qed
qed

lemma buckets_pop:
  assumes "buckets_ok h L" and "b < NUM_BUCKETS" and "sh_buckets h b = a # rest"
    and "h' = h\<lparr>sh_buckets := (sh_buckets h)(b := rest)\<rparr>"
  shows "buckets_ok h' (insert (a, b) L) \<and> (a, b) \<notin> L"
proof -
  from assms(1,2) have "distinct (sh_buckets h b)" by (simp add: buckets_ok_def)
  with assms(3,4) have f: "free_slabs h = insert (a, b) (free_slabs h')" "(a, b) \<notin> free_slabs h'"
    using assms(2) by (auto simp: free_slabs_def split: if_splits)
  have e: "free_slabs h' \<union> insert (a, b) L = free_slabs h \<union> L" and l: "(a, b) \<notin> L"
    and dj: "free_slabs h' \<inter> insert (a, b) L = {}"
    using f assms(1) by (auto simp: buckets_ok_def)
  have "\<forall>b < NUM_BUCKETS. distinct (sh_buckets h' b)"
    using assms(1,3,4) \<open>distinct (sh_buckets h b)\<close> by (auto simp: buckets_ok_def)
  with e l dj assms(1) show ?thesis by (simp add: buckets_ok_def)
qed

lemma buckets_push:
  assumes "buckets_ok h (insert (a, b) L)" and "(a, b) \<notin> L" and "b < NUM_BUCKETS"
    and "h' = h\<lparr>sh_buckets := (sh_buckets h)(b := a # sh_buckets h b)\<rparr>"
  shows "buckets_ok h' L"
proof -
  from assms(1,3) have n: "(a, b) \<notin> free_slabs h" by (auto simp: buckets_ok_def)
  have f: "free_slabs h' = insert (a, b) (free_slabs h)" using assms(3,4) by (auto simp: free_slabs_def)
  have "a \<notin> set (sh_buckets h b)" using n assms(3) by (simp add: free_slabs_def)
  with f assms show ?thesis by (auto simp: buckets_ok_def)
qed

lemma slabAlloc_ok:
  "slabAlloc b h = Ok (r, h') \<Longrightarrow> buckets_ok h L \<Longrightarrow> pt_ok (sh_pt h, sh_phm h) \<Longrightarrow>
     pt_ok (sh_pt h', sh_phm h') \<and> pt_entry (sh_pt h) \<subseteq>\<^sub>m pt_entry (sh_pt h') \<and> sh_hdr h' = sh_hdr h \<and> sh_mem h' = sh_mem h \<and>
     (\<forall>c < b. sh_buckets h' c = sh_buckets h c) \<and>
     (case r of None \<Rightarrow> buckets_ok h' L | Some a \<Rightarrow> b < NUM_BUCKETS \<and> buckets_ok h' (insert (a, b) L) \<and> (a, b) \<notin> L)"
proof (induction b h arbitrary: r h' rule: slabAlloc.induct)
  case (1 b h)
  note eq = slabAlloc.simps [of b h]
  show ?case
  proof (cases "b \<ge> NUM_BUCKETS")
    case True
    with 1 eq show ?thesis by auto
  next
    case False
    show ?thesis
    proof (cases "sh_buckets h b")
      case (Cons a rest)
      with 1(2) eq False have "r = Some a" "h' = h\<lparr>sh_buckets := (sh_buckets h)(b := rest)\<rparr>" by auto
      with buckets_pop [OF 1(3) _ Cons] False 1(4) show ?thesis by simp
    next
      case Nil
      with 1(2) eq False obtain q h1 where q: "slabAlloc (b + 1) h = Ok (q, h1)" by (auto simp: kbind_Ok_iff)
      from 1(1) [OF False Nil q 1(3,4)] have IH: "pt_ok (sh_pt h1, sh_phm h1)" "pt_entry (sh_pt h) \<subseteq>\<^sub>m pt_entry (sh_pt h1)"
        "sh_hdr h1 = sh_hdr h" "sh_mem h1 = sh_mem h" "\<forall>c < b + 1. sh_buckets h1 c = sh_buckets h c"
        "case q of None \<Rightarrow> buckets_ok h1 L | Some a \<Rightarrow> b + 1 < NUM_BUCKETS \<and> buckets_ok h1 (insert (a, b + 1) L) \<and> (a, b + 1) \<notin> L"
        by blast+
      show ?thesis
      proof (cases q)
        case None
        with 1(2) eq False Nil q have "r = None" "h' = h1" by auto
        with IH None show ?thesis by simp
      next
        case (Some a)
        with IH(6) have a: "b + 1 < NUM_BUCKETS" "buckets_ok h1 (insert (a, b + 1) L)" "(a, b + 1) \<notin> L" by auto
        with 1(2) eq False Nil q Some obtain h2 where h2: "mapPages (a + slabSize b) 1 h1 = Ok h2" "r = Some a"
          "h' = h2\<lparr>sh_buckets := (sh_buckets h2)(b := [a + slabSize b])\<rparr>" by (auto simp: kbind_Ok_iff Let_def)
        let ?T = "free_slabs h1 \<union> L"
        have t: "tiling (insert (a, Suc b) ?T)" "(a, Suc b) \<notin> ?T" using a(2,3) by (auto simp: buckets_ok_def)
        note sp = tiling_split [OF t]
        have "slabSize b dvd a + slabSize b"
          using sp(1) by (simp add: tiling_def)
        from mapPages_ok [OF h2(1) IH(1) this] slabSize_pos [of b] have m: "pt_ok (sh_pt h2, sh_phm h2)"
          "pt_entry (sh_pt h1) \<subseteq>\<^sub>m pt_entry (sh_pt h2)" "sh_buckets h2 = sh_buckets h1" "sh_hdr h2 = sh_hdr h1"
          "sh_mem h2 = sh_mem h1" by (simp_all add: Suc_le_eq)
        have nil: "sh_buckets h1 b = []" using IH(5) Nil by simp
        have f: "free_slabs h' = insert (a + slabSize b, b) (free_slabs h1)"
          using h2(3) m(3) nil False by (auto simp: free_slabs_def split: if_splits)
        have e: "insert (a + slabSize b, b) (free_slabs h1) \<union> insert (a, b) L = insert (a, b) (insert (a + slabSize b, b) ?T)"
          by auto
        have dj: "insert (a + slabSize b, b) (free_slabs h1) \<inter> insert (a, b) L = {}"
          using sp(2,3) a(2) slabSize_pos [of b] by (auto simp: buckets_ok_def)
        have "buckets_ok h' (insert (a, b) L)"
          using a(2) sp(1) dj f e h2(3) m(3) by (simp add: buckets_ok_def)
        with sp(2) h2 m IH False show ?thesis by (auto dest: map_le_trans)
      qed
    qed
  qed
qed

section \<open>Blocks in use\<close>

text \<open>\<open>live\<close> are the addresses of the slabs of the blocks in use.\<close>

definition live_slabs :: "slabheap \<Rightarrow> nat set \<Rightarrow> (nat \<times> nat) set" where
  "live_slabs h live = (\<lambda>a. (a, us_bucket (sh_hdr h a))) ` live"

definition block_size :: "slabheap \<Rightarrow> nat \<Rightarrow> nat" where
  "block_size h a = unat (us_realSize (sh_hdr h a))"

text \<open>
  A block fits into its slab and its bytes are mapped, and so is the first half of the slab:
  that is why \<open>krealloc\<close> need not map anything when it gives the second half back.
\<close>

definition block_ok :: "slabheap \<Rightarrow> nat \<Rightarrow> bool" where
  "block_ok h a \<longleftrightarrow> block_size h a + 16 \<le> slabSize (us_bucket (sh_hdr h a)) \<and> mapped h a (block_size h a + 16) \<and>
     mapped h a (slabSize (us_bucket (sh_hdr h a)) div 2)"

lemma block_ok_mono:
  "block_ok h a \<Longrightarrow> sh_hdr h' a = sh_hdr h a \<Longrightarrow> pt_entry (sh_pt h) \<subseteq>\<^sub>m pt_entry (sh_pt h') \<Longrightarrow> block_ok h' a"
  by (auto simp: block_ok_def block_size_def dest: mapped_mono)

lemma mapped_le: "mapped h a n \<Longrightarrow> m \<le> n \<Longrightarrow> mapped h a m"
  by (auto simp: mapped_def)

definition heap_ok :: "slabheap \<Rightarrow> nat set \<Rightarrow> bool" where
  "heap_ok h live \<longleftrightarrow> buckets_ok h (live_slabs h live) \<and> pt_ok (sh_pt h, sh_phm h) \<and>
     (\<forall>a \<in> live. block_ok h a)"

lemma heap_okD:
  assumes "heap_ok h live" and "a \<in> live"
  shows "us_bucket (sh_hdr h a) < NUM_BUCKETS" and "slabSize (us_bucket (sh_hdr h a)) dvd a"
    and "a + slabSize (us_bucket (sh_hdr h a)) \<le> 2 ^ 30" and "(a, us_bucket (sh_hdr h a)) \<notin> live_slabs h (live - {a})"
proof -
  have "(a, us_bucket (sh_hdr h a)) \<in> free_slabs h \<union> live_slabs h live" using assms(2) by (auto simp: live_slabs_def)
  moreover have "tiling (free_slabs h \<union> live_slabs h live)" using assms(1) by (simp add: heap_ok_def buckets_ok_def)
  ultimately show "us_bucket (sh_hdr h a) < NUM_BUCKETS" "slabSize (us_bucket (sh_hdr h a)) dvd a"
    "a + slabSize (us_bucket (sh_hdr h a)) \<le> 2 ^ 30"
    using tiling_slab by blast+
  show "(a, us_bucket (sh_hdr h a)) \<notin> live_slabs h (live - {a})" by (auto simp: live_slabs_def)
qed

text \<open>A new slab has an address of its own.\<close>

lemma new_slab_addr:
  assumes "buckets_ok h (insert (a, b) (live_slabs h live))" and "(a, b) \<notin> live_slabs h live"
  shows "a \<notin> live"
proof
  assume "a \<in> live"
  then have "(a, us_bucket (sh_hdr h a)) \<in> live_slabs h live" by (auto simp: live_slabs_def)
  moreover from this assms(1) tiling_addr [of "free_slabs h \<union> insert (a, b) (live_slabs h live)" a b "us_bucket (sh_hdr h a)"]
  have "b = us_bucket (sh_hdr h a)" by (auto simp: buckets_ok_def)
  ultimately show False using assms(2) by simp
qed

lemma live_slabs_upd:
  "a \<notin> live \<Longrightarrow> sh_hdr h' = (sh_hdr h)(a := u) \<Longrightarrow> live_slabs h' live = live_slabs h live"
  by (auto simp: live_slabs_def)

lemma live_slabs_insert: "live_slabs h (insert a live) = insert (a, us_bucket (sh_hdr h a)) (live_slabs h live)"
  by (simp add: live_slabs_def)

lemma buckets_ok_cong:
  "sh_buckets h' = sh_buckets h \<Longrightarrow> buckets_ok h' L = buckets_ok h L"
  by (simp add: buckets_ok_def free_slabs_def)

definition kept :: "slabheap \<Rightarrow> slabheap \<Rightarrow> nat set \<Rightarrow> bool" where
  "kept h h' live \<longleftrightarrow> (\<forall>a \<in> live. sh_hdr h' a = sh_hdr h a)"

lemma kxmallocDynamic_ok:
  assumes "heap_ok h live" and "unat n + 16 < 2 ^ 64" and "kxmallocDynamic n h = Ok (r, h')"
  shows "case r of
      None \<Rightarrow> heap_ok h' live \<and> sh_hdr h' = sh_hdr h \<and> sh_mem h' = sh_mem h
    | Some p \<Rightarrow> 16 \<le> p \<and> p - 16 \<notin> live \<and> heap_ok h' (insert (p - 16) live) \<and> us_realSize (sh_hdr h' (p - 16)) = n \<and>
        sh_hdr h' = (sh_hdr h)(p - 16 := sh_hdr h' (p - 16)) \<and> sh_mem h' = sh_mem h"
proof (cases "n = 0")
  case True
  with assms show ?thesis by (simp add: kxmallocDynamic_def)
next
  case False
  let ?L = "live_slabs h live"
  from assms(1) have ok: "buckets_ok h ?L" "pt_ok (sh_pt h, sh_phm h)"
    and bl: "\<forall>a \<in> live. block_ok h a"
    by (auto simp: heap_ok_def)
  have n: "unat (n + 16) = unat n + 16" using assms(2) by (subst unat_add_lem [THEN iffD1]) simp_all
  show ?thesis
  proof (cases "find (\<lambda>b. slabSize b \<ge> unat (n + 16)) [0..<NUM_BUCKETS]")
    case None
    with False assms show ?thesis by (simp add: kxmallocDynamic_def)
  next
    case (Some b)
    then have b: "unat n + 16 \<le> slabSize b" "\<forall>c < b. slabSize c < unat n + 16"
      using n by (auto simp: find_Some_iff nth_append)
    have half: "slabSize b div 2 \<le> unat n + 16"
    proof (cases b)
      case 0
      then show ?thesis by (simp add: slabSize_def)
    next
      case (Suc c)
      with b(2) have "slabSize c < unat n + 16" by blast
      with Suc show ?thesis by simp
    qed
    from Some False assms(3) obtain q h1 where q: "slabAlloc b h = Ok (q, h1)"
      by (auto simp: kxmallocDynamic_def kbind_Ok_iff Let_def)
    from slabAlloc_ok [OF q ok] have s: "pt_ok (sh_pt h1, sh_phm h1)" "pt_entry (sh_pt h) \<subseteq>\<^sub>m pt_entry (sh_pt h1)"
      "sh_hdr h1 = sh_hdr h" "sh_mem h1 = sh_mem h"
      "case q of None \<Rightarrow> buckets_ok h1 ?L | Some a \<Rightarrow> b < NUM_BUCKETS \<and> buckets_ok h1 (insert (a, b) ?L) \<and> (a, b) \<notin> ?L"
      by blast+
    show ?thesis
    proof (cases q)
      case None
      with Some False assms(3) q have "r = None" "h' = h1" by (auto simp: kxmallocDynamic_def Let_def)
      with s None bl show ?thesis by (auto simp: heap_ok_def live_slabs_def intro: block_ok_mono)
    next
      case q: (Some a)
      with s(5) have a: "b < NUM_BUCKETS" "buckets_ok h1 (insert (a, b) ?L)" "(a, b) \<notin> ?L" by auto
      from Some False assms(3) q \<open>slabAlloc b h = Ok (q, h1)\<close> obtain h2 where h2: "mapPages a (unat (n + 16)) h1 = Ok h2"
        "r = Some (a + 16)" "h' = h2\<lparr>sh_hdr := (sh_hdr h2)(a := \<lparr>us_bucket = b, us_realSize = n\<rparr>)\<rparr>"
        by (auto simp: kxmallocDynamic_def kbind_Ok_iff Let_def)
      have dv: "slabSize b dvd a" using a(2) by (auto simp: buckets_ok_def tiling_def)
      from mapPages_ok [OF h2(1) s(1) dv] b(1) n have m: "pt_ok (sh_pt h2, sh_phm h2)" "pt_entry (sh_pt h1) \<subseteq>\<^sub>m pt_entry (sh_pt h2)"
        "mapped h2 a (unat n + 16)" "sh_buckets h2 = sh_buckets h1" "sh_hdr h2 = sh_hdr h1" "sh_mem h2 = sh_mem h1" by simp_all
      have new: "a \<notin> live" using new_slab_addr [of h1 a b live] a s(3) by (simp add: live_slabs_def)
      have L: "live_slabs h' (insert a live) = insert (a, b) ?L"
        using new h2(3) m(5) s(3) by (auto simp: live_slabs_def)
      have "buckets_ok h' (live_slabs h' (insert a live))"
        unfolding L using a(2) h2(3) m(4) buckets_ok_cong [of h' h1] by simp
      moreover have "block_ok h' c" if "c \<in> live" for c
      proof -
        have "pt_entry (sh_pt h) \<subseteq>\<^sub>m pt_entry (sh_pt h')" using map_le_trans [OF s(2) m(2)] h2(3) by simp
        moreover have "sh_hdr h' c = sh_hdr h c" using that new h2(3) m(5) s(3) by auto
        ultimately show ?thesis using bl that block_ok_mono by blast
      qed
      moreover have "block_ok h' a"
        using m(3) b(1) mapped_le [OF m(3) half] h2(3) by (simp add: block_ok_def block_size_def mapped_def)
      ultimately have "heap_ok h' (insert a live)"
        using m(1) h2(3) by (simp add: heap_ok_def)
      with new h2 m s show ?thesis by (auto simp: fun_eq_iff)
    qed
  qed
qed

lemma kfree_ok:
  assumes "heap_ok h live" and "a \<in> live"
  shows "heap_ok (kfree (Some (a + 16)) h) (live - {a})" and "sh_hdr (kfree (Some (a + 16)) h) = sh_hdr h"
    and "sh_mem (kfree (Some (a + 16)) h) = sh_mem h"
proof -
  let ?b = "us_bucket (sh_hdr h a)" and ?h = "kfree (Some (a + 16)) h"
  note d = heap_okD [OF assms]
  have L: "live_slabs h live = insert (a, ?b) (live_slabs h (live - {a}))"
    using live_slabs_insert [of h a "live - {a}"] assms(2) by (simp add: insert_absorb)
  have h: "?h = h\<lparr>sh_buckets := (sh_buckets h)(?b := a # sh_buckets h ?b)\<rparr>" by (simp add: kfree_def Let_def)
  from assms(1) have "buckets_ok h (insert (a, ?b) (live_slabs h (live - {a})))" using L by (simp add: heap_ok_def)
  from buckets_push [OF this d(4,1) h] have "buckets_ok ?h (live_slabs h (live - {a}))" .
  with assms(1) h show "heap_ok ?h (live - {a})"
    by (auto simp: heap_ok_def live_slabs_def intro: block_ok_mono)
  show "sh_hdr ?h = sh_hdr h" "sh_mem ?h = sh_mem h" by (simp_all add: kfree_def Let_def)
qed


lemma live_blocks_disjoint:
  assumes "heap_ok h live" and "a \<in> live" and "c \<in> live" and "a \<noteq> c"
  shows "a + slabSize (us_bucket (sh_hdr h a)) \<le> c \<or> c + slabSize (us_bucket (sh_hdr h c)) \<le> a"
  using assms tiling_disjoint [of "free_slabs h \<union> live_slabs h live" "(a, us_bucket (sh_hdr h a))" "(c, us_bucket (sh_hdr h c))"]
  by (auto simp: heap_ok_def buckets_ok_def live_slabs_def)

text \<open>The second half of a slab in use goes back to the bucket below.\<close>

lemma shrink_ok:
  assumes "heap_ok h live" and "a \<in> live" and "us_bucket (sh_hdr h a) = Suc b" and "unat n + 16 < slabSize b"
    and "mapPages (a + slabSize b) 1 (h\<lparr>sh_hdr := (sh_hdr h)(a := \<lparr>us_bucket = b, us_realSize = n\<rparr>)\<rparr>) = Ok h2"
    and "h' = h2\<lparr>sh_buckets := (sh_buckets h2)(b := (a + slabSize b) # sh_buckets h2 b)\<rparr>"
  shows "heap_ok h' live \<and> sh_hdr h' = (sh_hdr h)(a := \<lparr>us_bucket = b, us_realSize = n\<rparr>) \<and> sh_mem h' = sh_mem h"
proof -
  let ?h1 = "h\<lparr>sh_hdr := (sh_hdr h)(a := \<lparr>us_bucket = b, us_realSize = n\<rparr>)\<rparr>"
  let ?L = "live_slabs h (live - {a})" and ?T = "free_slabs h \<union> live_slabs h (live - {a})"
  note d = heap_okD [OF assms(1,2)]
  have L: "live_slabs h live = insert (a, Suc b) ?L"
    using live_slabs_insert [of h a "live - {a}"] assms(2,3) by (simp add: insert_absorb)
  from assms(1) L have ok: "buckets_ok h (insert (a, Suc b) ?L)" "pt_ok (sh_pt h, sh_phm h)" "\<forall>c \<in> live. block_ok h c"
    by (simp_all add: heap_ok_def)
  then have t: "tiling (insert (a, Suc b) ?T)" "(a, Suc b) \<notin> ?T" using d(4) assms(3) by (auto simp: buckets_ok_def)
  note sp = tiling_split [OF t]
  have dv: "slabSize b dvd a + slabSize b" and bn: "b < NUM_BUCKETS"
    using tiling_slab [OF sp(1), of "a + slabSize b" b] by simp_all
  have "1 \<le> slabSize b" using slabSize_pos [of b] by (simp only: Suc_le_eq One_nat_def)
  from mapPages_ok [OF assms(5) _ dv this] ok(2) have m: "pt_ok (sh_pt h2, sh_phm h2)" "pt_entry (sh_pt h) \<subseteq>\<^sub>m pt_entry (sh_pt h2)"
    "sh_buckets h2 = sh_buckets h" "sh_hdr h2 = sh_hdr ?h1" "sh_mem h2 = sh_mem h" by simp_all
  have f2: "free_slabs h2 = free_slabs h" using m(3) by (simp add: free_slabs_def)
  have two: "(a + slabSize b, b) \<noteq> (a, b)" using slabSize_pos [of b] by simp
  have "buckets_ok h2 (insert (a + slabSize b, b) (insert (a, b) ?L))"
    using sp ok(1) f2 m(3) by (auto simp: buckets_ok_def insert_commute)
  moreover have "(a + slabSize b, b) \<notin> insert (a, b) ?L" using sp(3) two by blast
  ultimately have bk: "buckets_ok h' (insert (a, b) ?L)" using buckets_push assms(6) bn by blast
  have L': "live_slabs h' live = insert (a, b) ?L"
    using assms(2,6) m(4) by (auto simp: live_slabs_def)
  have "block_ok h' c" if "c \<in> live" for c
  proof (cases "c = a")
    case True
    have mp: "mapped h' a (slabSize b)"
      using ok(3) assms(2,3,6) m(2) mapped_mono [of h a "slabSize b" h'] by (auto simp: block_ok_def)
    from mapped_le [OF mp, of "unat n + 16"] mapped_le [OF mp, of "slabSize b div 2"] assms(4,6) m(4) True
    show ?thesis by (simp add: block_ok_def block_size_def)
  next
    case False
    with ok(3) that assms(6) m(2,4) show ?thesis by (auto intro: block_ok_mono)
  qed
  with bk L' m assms(6) show ?thesis by (simp add: heap_ok_def)
qed

lemma krealloc_ok:
  assumes "heap_ok h live" and "a \<in> live" and "n \<noteq> 0" and "unat n + 16 < 2 ^ 64"
    and "krealloc (Some (a + 16)) n h = Ok (r, h')"
  shows "case r of
      None \<Rightarrow> heap_ok h' live \<and> sh_hdr h' = sh_hdr h \<and> sh_mem h' = sh_mem h
    | Some p \<Rightarrow> 16 \<le> p \<and> p - 16 \<notin> live - {a} \<and> heap_ok h' (insert (p - 16) (live - {a})) \<and> block_size h' (p - 16) = unat n \<and>
        (\<forall>c \<in> live - {a}. sh_hdr h' c = sh_hdr h c \<and>
           (\<forall>i < block_size h c. sh_mem h' (c + 16 + i) = sh_mem h (c + 16 + i))) \<and>
        (\<forall>i < min (block_size h a) (unat n). sh_mem h' (p + i) = sh_mem h (a + 16 + i))"
proof -
  have n: "unat (n + 16) = unat n + 16" using assms(4) by (subst unat_add_lem [THEN iffD1]) simp_all
  let ?b = "us_bucket (sh_hdr h a)"
  note d = heap_okD [OF assms(1,2)]
  consider (shrink) b where "?b = Suc b" "unat n + 16 < slabSize b"
    | (same) "\<not> (?b \<noteq> 0 \<and> unat n + 16 < slabSize ?b div 2)" "unat n + 16 \<le> slabSize ?b"
    | (copy) "\<not> (?b \<noteq> 0 \<and> unat n + 16 < slabSize ?b div 2)" "\<not> unat n + 16 \<le> slabSize ?b"
    by (cases ?b) auto
  then show ?thesis
  proof cases
    case (shrink b)
    with assms(3,5) n obtain h2 where
      "mapPages (a + slabSize b) 1 (h\<lparr>sh_hdr := (sh_hdr h)(a := \<lparr>us_bucket = b, us_realSize = n\<rparr>)\<rparr>) = Ok h2"
      "r = Some (a + 16)" "h' = h2\<lparr>sh_buckets := (sh_buckets h2)(b := (a + slabSize b) # sh_buckets h2 b)\<rparr>"
      by (auto simp: krealloc_def Let_def kbind_Ok_iff)
    with shrink_ok [OF assms(1,2) shrink this(1,3)] assms(2) show ?thesis
      by (simp add: insert_absorb block_size_def)
  next
    case same
    let ?h1 = "h\<lparr>sh_hdr := (sh_hdr h)(a := (sh_hdr h a)\<lparr>us_realSize := n\<rparr>)\<rparr>"
    from same assms(3,5) n have m0: "mapPages a (unat n + 16) ?h1 = Ok h'" "r = Some (a + 16)"
      by (auto simp: krealloc_def Let_def kbind_Ok_iff)
    from assms(1) have ok: "buckets_ok h (live_slabs h live)" "pt_ok (sh_pt h, sh_phm h)" "\<forall>c \<in> live. block_ok h c"
      by (simp_all add: heap_ok_def)
    from mapPages_ok [OF m0(1) _ d(2) same(2)] ok(2) have m: "pt_ok (sh_pt h', sh_phm h')"
      "pt_entry (sh_pt h) \<subseteq>\<^sub>m pt_entry (sh_pt h')" "mapped h' a (unat n + 16)"
      "sh_buckets h' = sh_buckets h" "sh_hdr h' = sh_hdr ?h1" "sh_mem h' = sh_mem h" by simp_all
    have L: "live_slabs h' live = live_slabs h live" using m(5) by (auto simp: live_slabs_def)
    have "block_ok h' c" if "c \<in> live" for c
    proof (cases "c = a")
      case True
      have "mapped h' a (slabSize ?b div 2)" using ok(3) assms(2) m(2) mapped_mono by (auto simp: block_ok_def)
      with m True same(2) show ?thesis by (simp add: block_ok_def block_size_def)
    next
      case False
      with ok(3) that m(2,5) show ?thesis by (auto intro: block_ok_mono)
    qed
    with ok(1) L m(1) buckets_ok_cong [OF m(4)] have "heap_ok h' live" by (simp add: heap_ok_def)
    with m m0(2) assms(2) show ?thesis by (simp add: insert_absorb block_size_def)
  next
    case copy
    from copy assms(3,5) n obtain q h1 where k: "kxmallocDynamic n h = Ok (q, h1)"
      by (auto simp: krealloc_def Let_def kbind_Ok_iff)
    note ka = kxmallocDynamic_ok [OF assms(1,4) k]
    show ?thesis
    proof (cases q)
      case None
      with k copy assms(3,5) n have "r = None" "h' = h1" by (auto simp: krealloc_def Let_def)
      with ka None show ?thesis by simp
    next
      case (Some p)
      let ?s = "p - 16"
      define t where "t = (if us_realSize (sh_hdr h1 a) > n then n else us_realSize (sh_hdr h1 a))"
      let ?h2 = "h1\<lparr>sh_mem := memcpy p (a + 16) (unat t) (sh_mem h1)\<rparr>"
      from Some k copy assms(3,5) n have r: "r = Some p" "h' = kfree (Some (a + 16)) ?h2"
        by (auto simp: krealloc_def Let_def t_def)
      from ka Some have a: "16 \<le> p" "?s \<notin> live" "heap_ok h1 (insert ?s live)" "us_realSize (sh_hdr h1 ?s) = n"
        "sh_hdr h1 = (sh_hdr h)(?s := sh_hdr h1 ?s)" "sh_mem h1 = sh_mem h" by simp_all
      have hd: "sh_hdr h1 c = sh_hdr h c" if "c \<in> live" for c
      proof -
        have "c \<noteq> ?s" using that a(2) by blast
        then show ?thesis using a(5) by (metis fun_upd_other)
      qed
      have "heap_ok ?h2 (insert ?s live)"
        using a(3) by (simp add: heap_ok_def buckets_ok_def free_slabs_def live_slabs_def block_ok_def block_size_def mapped_def)
      from kfree_ok [OF this, of a] assms(2) r(2) have f: "heap_ok h' (insert ?s live - {a})" "sh_hdr h' = sh_hdr h1"
        "sh_mem h' = memcpy p (a + 16) (unat t) (sh_mem h)" using a(6) by simp_all
      have sa: "insert ?s live - {a} = insert ?s (live - {a})" using a(2) assms(2) by auto
      have t: "unat t \<le> unat n" "min (block_size h a) (unat n) \<le> unat t"
        using hd [OF assms(2)] by (auto simp: t_def block_size_def word_less_nat_alt)
      have dis: "?s + slabSize (us_bucket (sh_hdr h1 ?s)) \<le> c \<or> c + slabSize (us_bucket (sh_hdr h1 c)) \<le> ?s" if "c \<in> live" for c
        using live_blocks_disjoint [OF a(3), of ?s c] that a(2) by auto
      have fit: "block_size h1 c + 16 \<le> slabSize (us_bucket (sh_hdr h1 c))" if "c \<in> insert ?s live" for c
        using a(3) that by (auto simp: heap_ok_def block_ok_def)
      have sz: "block_size h1 ?s = unat n" using a(4) by (simp add: block_size_def)
      have apart: "p + unat n \<le> c + 16 \<or> c + 16 + block_size h c \<le> p" if "c \<in> live" for c
        using dis [OF that] fit [of c] fit [of ?s] that sz hd [OF that] a(1) by (auto simp: block_size_def)
      have other: "sh_mem h' (c + 16 + i) = sh_mem h (c + 16 + i)" if "c \<in> live" "i < block_size h c" for c i
        using apart [OF that(1)] that(2) t(1) f(3) by (auto simp: memcpy_def)
      have same: "sh_mem h' (p + i) = sh_mem h (a + 16 + i)" if "i < min (block_size h a) (unat n)" for i
      proof -
        have "i < unat t" using that t(2) by linarith
        then show ?thesis using f(3) by (simp add: memcpy_def ac_simps)
      qed
      have "\<forall>c \<in> live - {a}. sh_hdr h' c = sh_hdr h c" using hd f(2) by simp
      with r(1) a f(1,2) sa sz same other show ?thesis by (simp add: block_size_def)
    qed
  qed
qed

section \<open>The heap in use\<close>

text \<open>
  A state is the heap and the blocks in use. Besides the calls, a client may write to its
  blocks, and others take frames from the allocator and give theirs back.

  Two kinds of calls are no step, because the heap is not safe after them. One is a call for so
  many bytes that \<open>size += 16\<close> wraps around (\<open>kxmallocDynamic_wraps\<close>). The other is a call during
  which the frame allocator drops a track of a block cache: then \<open>sdTryFree\<close> may call \<open>kfree\<close>
  for a node of the block tree in the middle of the call, since \<open>heapLock\<close> is recursive, and the
  slab that \<open>kfree\<close> put into a bucket is lost when \<open>slabAlloc\<close> goes on to overwrite the bucket with
  \<open>other\<close>. The tracks that are cached are \<open>pm_tracks\<close>; the steps leave them alone. A track that is dropped by
  others, outside of a call, is a step \<open>frames\<close>, with the calls of \<open>kfree\<close> as steps of their own.
\<close>

text \<open>A call that wraps around gives a block that claims more bytes than there are in its slab.\<close>

lemma kxmallocDynamic_wraps:
  assumes "2 ^ 64 \<le> unat n + 16" and "kxmallocDynamic n h = Ok (Some p, h')"
  shows "sh_hdr h' (p - 16) = \<lparr>us_bucket = 0, us_realSize = n\<rparr> \<and> slabSize 0 < unat n"
proof -
  have l: "unat n < 2 ^ 64" using unsigned_less [of n] by simp
  have "unat (n + 16) = (unat n + 16) mod 2 ^ 64" by (simp add: unat_word_ariths)
  also have "\<dots> = unat n + 16 - 2 ^ 64"
    using assms(1) l by (simp add: le_mod_geq)
  finally have "unat (n + 16) \<le> slabSize 0" using l by (simp add: slabSize_def)
  then have "find (\<lambda>b. slabSize b \<ge> unat (n + 16)) [0..<NUM_BUCKETS] = Some 0" by (simp add: upt_rec)
  with assms(2) have "sh_hdr h' (p - 16) = \<lparr>us_bucket = 0, us_realSize = n\<rparr>"
    by (auto simp: kxmallocDynamic_def Let_def kbind_Ok_iff split: if_splits option.splits)
  with assms(1) show ?thesis by (simp add: slabSize_def)
qed

inductive heap_step :: "slabheap \<times> nat set \<Rightarrow> slabheap \<times> nat set \<Rightarrow> bool" where
  alloc: "kxmallocDynamic n h = Ok (r, h') \<Longrightarrow> unat n + 16 < 2 ^ 64 \<Longrightarrow>
    pm_tracks (sh_phm h') = pm_tracks (sh_phm h) \<Longrightarrow>
    heap_step (h, live) (h', case r of None \<Rightarrow> live | Some p \<Rightarrow> insert (p - 16) live)"
| free: "a \<in> live \<Longrightarrow> heap_step (h, live) (kfree (Some (a + 16)) h, live - {a})"
| realloc: "krealloc (Some (a + 16)) n h = Ok (r, h') \<Longrightarrow> a \<in> live \<Longrightarrow> n \<noteq> 0 \<Longrightarrow> unat n + 16 < 2 ^ 64 \<Longrightarrow>
    pm_tracks (sh_phm h') = pm_tracks (sh_phm h) \<Longrightarrow>
    heap_step (h, live) (h', case r of None \<Rightarrow> live | Some p \<Rightarrow> insert (p - 16) (live - {a}))"
| store: "a \<in> live \<Longrightarrow> i < block_size h a \<Longrightarrow>
    heap_step (h, live) (h\<lparr>sh_mem := (sh_mem h)(a + 16 + i := v)\<rparr>, live)"
| frames: "phm_ok phm \<Longrightarrow> ran (pt_entry (sh_pt h)) \<subseteq> owned phm \<Longrightarrow> heap_step (h, live) (h\<lparr>sh_phm := phm\<rparr>, live)"

inductive heap_reach :: "slabheap \<times> nat set \<Rightarrow> bool" where
  start: "initMemoryPhase2 h = Ok h' \<Longrightarrow> sh_buckets h = (\<lambda>_. []) \<Longrightarrow> pt_ok (sh_pt h, sh_phm h) \<Longrightarrow>
    pm_tracks (sh_phm h') = pm_tracks (sh_phm h) \<Longrightarrow> heap_reach (h', {})"
| step: "heap_reach \<sigma> \<Longrightarrow> heap_step \<sigma> \<sigma>' \<Longrightarrow> heap_reach \<sigma>'"

lemma heap_step_ok: "heap_step \<sigma> \<sigma>' \<Longrightarrow> heap_ok (fst \<sigma>) (snd \<sigma>) \<Longrightarrow> heap_ok (fst \<sigma>') (snd \<sigma>')"
proof (induction rule: heap_step.induct)
  case (alloc n h r h' live)
  with kxmallocDynamic_ok [of h live n r h'] show ?case by (auto split: option.splits)
next
  case (realloc a n h r h' live)
  with krealloc_ok [of h live a n r h'] show ?case by (auto split: option.splits)
next
  case (free a live h)
  with kfree_ok(1) show ?case by simp
qed (auto simp: heap_ok_def buckets_ok_def free_slabs_def live_slabs_def block_ok_def block_size_def mapped_def pt_ok_def)

lemma heap_reach_ok: "heap_reach \<sigma> \<Longrightarrow> heap_ok (fst \<sigma>) (snd \<sigma>)"
proof (induction rule: heap_reach.induct)
  case (start h h')
  then obtain h1 where h1: "mapPages 0 1 h = Ok h1" "h' = h1\<lparr>sh_buckets := (sh_buckets h1)(25 := [0])\<rparr>"
    by (auto simp: initMemoryPhase2_def kbind_Ok_iff)
  have "slabSize 0 dvd 0" "(1 :: nat) \<le> slabSize 0" by (simp_all add: slabSize_def)
  from mapPages_ok [OF h1(1) start(3) this] have m: "pt_ok (sh_pt h1, sh_phm h1)" "sh_buckets h1 = (\<lambda>_. [])"
    using start(2) by simp_all
  have "free_slabs h' = {(0, 25)}" using h1(2) m(2) by (auto simp: free_slabs_def split: if_splits)
  with m h1(2) show ?case by (simp add: heap_ok_def buckets_ok_def tiling_def live_slabs_def slabSize_def)
qed (rule heap_step_ok)

section \<open>Properties\<close>

text \<open>C14: in every state of the heap the blocks in use, with their headers, are disjoint from each
  other and from the free slabs, all their bytes are mapped, every page-table entry has a frame of
  its own that the frame allocator counts as handed out, and the free slabs and those in use cover
  the whole gigabyte, so that no memory is lost. Two conditions hold for every call of the history:
  the size plus the 16 bytes of the header does not wrap around 64 bits, and the frame allocator
  does not drop a cached track during the call, because \<open>sdTryFree\<close> would then call \<open>kfree\<close> under
  \<open>heapLock\<close>, and \<open>slabAlloc\<close> may lose the slab that it frees.\<close>
theorem slab_heap_safe:
  assumes "heap_reach (h, live)"
  shows "(\<forall>a \<in> live. \<forall>c \<in> live. a = c \<or> {a..<a + 16 + block_size h a} \<inter> {c..<c + 16 + block_size h c} = {}) \<and>
    (\<forall>a \<in> live. \<forall>(c, b) \<in> free_slabs h. {a..<a + 16 + block_size h a} \<inter> {c..<c + slabSize b} = {}) \<and>
    (\<forall>a \<in> live. mapped h a (16 + block_size h a)) \<and>
    inj_on (pt_entry (sh_pt h)) (dom (pt_entry (sh_pt h))) \<and> ran (pt_entry (sh_pt h)) \<subseteq> owned (sh_phm h) \<and>
    (\<forall>x < 2 ^ 30. \<exists>(a, b) \<in> free_slabs h \<union> live_slabs h live. a \<le> x \<and> x < a + slabSize b)"
proof -
  from heap_reach_ok [OF assms] have ok: "heap_ok h live" by simp
  then have t: "tiling (free_slabs h \<union> live_slabs h live)" "free_slabs h \<inter> live_slabs h live = {}"
    "\<forall>a \<in> live. block_ok h a" "pt_ok (sh_pt h, sh_phm h)" by (auto simp: heap_ok_def buckets_ok_def)
  have fit: "16 + block_size h a \<le> slabSize (us_bucket (sh_hdr h a))" "mapped h a (16 + block_size h a)" if "a \<in> live" for a
    using t(3) that by (auto simp: block_ok_def add.commute)
  have "{a..<a + 16 + block_size h a} \<inter> {c..<c + 16 + block_size h c} = {}" if "a \<in> live" "c \<in> live" "a \<noteq> c" for a c
    using live_blocks_disjoint [OF ok that] fit(1) [OF that(1)] fit(1) [OF that(2)] by (auto simp: disjoint_iff)
  moreover have "{a..<a + 16 + block_size h a} \<inter> {c..<c + slabSize b} = {}" if "a \<in> live" "(c, b) \<in> free_slabs h" for a b c
  proof -
    have l: "(a, us_bucket (sh_hdr h a)) \<in> live_slabs h live" using that(1) by (auto simp: live_slabs_def)
    with that(2) t(2) have "(a, us_bucket (sh_hdr h a)) \<noteq> (c, b)" by auto
    with tiling_disjoint [OF t(1), of "(a, us_bucket (sh_hdr h a))" "(c, b)"] l that(2) fit(1) [OF that(1)]
    show ?thesis by (auto simp: disjoint_iff)
  qed
  moreover have "\<exists>(a, b) \<in> free_slabs h \<union> live_slabs h live. a \<le> x \<and> x < a + slabSize b" if "x < 2 ^ 30" for x
    using t(1) that unfolding tiling_def by fastforce
  ultimately show ?thesis using fit(2) t(4) unfolding pt_ok_def by auto
qed

text \<open>A machine on which the whole heap is mapped already, frame \<open>1000 + i\<close> at page \<open>i\<close>.\<close>

definition demo_pt :: pagetab where
  "demo_pt = \<lparr>pt4 = \<lambda>i. if i = 0 then Some 100 else None, pt3 = \<lambda>i. if i = 0 then Some 101 else None,
     pt2 = \<lambda>i. if i < 2 ^ 9 then Some (200 + i) else None, pt1 = \<lambda>i. if i < 2 ^ 18 then Some (1000 + i) else None\<rparr>"

definition heap_demo :: slabheap where
  "heap_demo = \<lparr>sh_buckets = \<lambda>_. [], sh_hdr = \<lambda>_. \<lparr>us_bucket = 0, us_realSize = 0\<rparr>, sh_mem = \<lambda>_. 0, sh_pt = demo_pt,
     sh_phm = (phm_demo [] [] (replicate 65537 0xFF))\<lparr>pm_num := 2 ^ 19\<rparr>\<rparr>"

lemma demo_pt_page: "addr < 2 ^ 30 \<Longrightarrow> map_page addr (demo_pt, phm) = Ok (demo_pt, phm)"
  by (simp add: map_page_def ensure_entry_def demo_pt_def div_less_iff_less_mult)

lemma demo_pt_list: "\<forall>a \<in> set as. a < 2 ^ 30 \<Longrightarrow> map_list as (demo_pt, phm) = Ok (demo_pt, phm)"
  by (induction as) (simp_all add: demo_pt_page)

lemma demo_map: "sh_pt h = demo_pt \<Longrightarrow> a + n \<le> 2 ^ 30 \<Longrightarrow> mapPages a n h = Ok h"
proof -
  assume h: "sh_pt h = demo_pt" and n: "a + n \<le> 2 ^ 30"
  have "a + i * 0x1000 < 2 ^ 30" if "i < (n + 0xFFF) div 0x1000" for i
  proof -
    have "i * 0x1000 + 0x1000 \<le> n + 0xFFF" using that by (simp add: less_eq_div_iff_mult_less_eq Suc_le_eq [symmetric])
    with n show ?thesis by simp
  qed
  then have "map_list (map (\<lambda>i. a + i * 0x1000) [0..<(n + 0xFFF) div 0x1000]) (demo_pt, sh_phm h) = Ok (demo_pt, sh_phm h)"
    by (intro demo_pt_list) auto
  with h show ?thesis by (simp add: mapPages_def)
qed

lemma heap_demo_ok: "pt_ok (sh_pt heap_demo, sh_phm heap_demo)"
proof -
  let ?phm = "sh_phm heap_demo"
  have u: "phm_used ?phm f" if "f < 524288" for f
  proof -
    have "f div 8 < 65537" using that by simp
    then show ?thesis
      using byte_full [of "0xFF"] by (simp add: phm_used_def heap_demo_def phm_demo_def used_def)
  qed
  have c: "cached ?phm = []" by (simp add: cached_def heap_demo_def phm_demo_def)
  have "phm_ok ?phm"
    using u [of 0] c by (simp add: phm_ok_def heap_demo_def phm_demo_def phm_used_def)
  moreover have "inj_on (pt_entry demo_pt) (dom (pt_entry demo_pt))"
    by (auto simp: inj_on_def pt_entry_def demo_pt_def split: if_splits)
  moreover have "ran (pt_entry demo_pt) \<subseteq> owned ?phm"
    using u c by (auto simp: ran_def owned_def pt_entry_def demo_pt_def split: if_splits)
  ultimately show ?thesis by (simp add: pt_ok_def heap_demo_def)
qed

lemma heap_demo_run:
  obtains h1 h2 where "initMemoryPhase2 heap_demo = Ok h1" and "kxmallocDynamic (2 ^ 29 - 16) h1 = Ok (Some 16, h2)"
    and "heap_reach (h2, {0})" and "sh_pt h2 = demo_pt" and "sh_buckets h2 24 = [2 ^ 29]"
    and "sh_hdr h2 0 = \<lparr>us_bucket = 24, us_realSize = 2 ^ 29 - 16\<rparr>"
proof -
  define h1 where "h1 = heap_demo\<lparr>sh_buckets := (\<lambda>_. [])(25 := [0])\<rparr>"
  define h3 where "h3 = h1\<lparr>sh_buckets := (\<lambda>_. [])(24 := [2 ^ 29])\<rparr>"
  define h2 where "h2 = h3\<lparr>sh_hdr := (sh_hdr h1)(0 := \<lparr>us_bucket = 24, us_realSize = 2 ^ 29 - 16\<rparr>)\<rparr>"
  have pt: "sh_pt heap_demo = demo_pt" "sh_pt h1 = demo_pt" "sh_pt h3 = demo_pt"
    by (simp_all add: heap_demo_def h1_def h3_def)
  have 1: "initMemoryPhase2 heap_demo = Ok h1"
    using demo_map [OF pt(1), of 0 1] by (simp add: initMemoryPhase2_def h1_def) (simp add: heap_demo_def)
  have "slabAlloc 25 h1 = Ok (Some 0, h1\<lparr>sh_buckets := \<lambda>_. []\<rparr>)"
    by (subst slabAlloc.simps) (simp add: h1_def heap_demo_def fun_eq_iff)
  then have a: "slabAlloc 24 h1 = Ok (Some 0, h3)"
    using demo_map [of "h1\<lparr>sh_buckets := \<lambda>_. []\<rparr>" "2 ^ 29" 1] pt(2)
    by (subst slabAlloc.simps) (simp add: h3_def, simp add: h1_def slabSize_def Let_def)
  have "find (\<lambda>b. slabSize b \<ge> 2 ^ 29) [0..<26] = Some 24" by (simp add: slabSize_def upt_rec)
  then have 2: "kxmallocDynamic (2 ^ 29 - 16) h1 = Ok (Some 16, h2)"
    using a demo_map [OF pt(3), of 0 "2 ^ 29"] by (simp add: kxmallocDynamic_def h2_def) (simp add: h3_def)
  have "heap_reach (h1, {})"
    by (rule heap_reach.start [OF 1 _ heap_demo_ok]) (simp_all add: heap_demo_def h1_def)
  moreover have "heap_step (h1, {}) (h2, {0})"
    using heap_step.alloc [OF 2, of "{}"] by (simp add: h2_def h3_def)
  ultimately show thesis using that [OF 1 2] heap_reach.step pt(3) by (simp add: h2_def h3_def)
qed

theorem slab_heap_safe_witness:
  "\<exists>h1 h2. initMemoryPhase2 heap_demo = Ok h1 \<and> kxmallocDynamic (2 ^ 29 - 16) h1 = Ok (Some 16, h2) \<and>
    (\<forall>a \<in> {0}. mapped h2 a (16 + block_size h2 a))"
proof -
  obtain h1 h2 where r: "initMemoryPhase2 heap_demo = Ok h1" "kxmallocDynamic (2 ^ 29 - 16) h1 = Ok (Some 16, h2)"
    "heap_reach (h2, {0})" "sh_pt h2 = demo_pt" "sh_buckets h2 24 = [2 ^ 29]"
    "sh_hdr h2 0 = \<lparr>us_bucket = 24, us_realSize = 2 ^ 29 - 16\<rparr>" by (rule heap_demo_run)
  from slab_heap_safe [OF r(3)] have "\<forall>a \<in> {0}. mapped h2 a (16 + block_size h2 a)" by blast
  with r(1,2) show ?thesis by blast
qed

text \<open>After the same histories \<open>krealloc\<close> leaves a block of the new size with the bytes of the old one as far as both
  reach, and does not touch the other blocks; when it fails everything is as before.\<close>
theorem krealloc_keeps:
  assumes "heap_reach (h, live)" and "a \<in> live" and "n \<noteq> 0" and "unat n + 16 < 2 ^ 64"
    and "krealloc (Some (a + 16)) n h = Ok (r, h')"
  shows "case r of
      None \<Rightarrow> sh_hdr h' = sh_hdr h \<and> sh_mem h' = sh_mem h
    | Some p \<Rightarrow> p - 16 \<notin> live - {a} \<and> block_size h' (p - 16) = unat n \<and>
        (\<forall>i < min (block_size h a) (unat n). sh_mem h' (p + i) = sh_mem h (a + 16 + i)) \<and>
        (\<forall>c \<in> live - {a}. block_size h' c = block_size h c \<and>
           (\<forall>i < block_size h c. sh_mem h' (c + 16 + i) = sh_mem h (c + 16 + i)))"
  using krealloc_ok [OF _ assms(2-5)] heap_reach_ok [OF assms(1)] by (auto simp: block_size_def split: option.splits)


theorem krealloc_keeps_witness:
  "\<exists>h1 h2 p h3. initMemoryPhase2 heap_demo = Ok h1 \<and> kxmallocDynamic (2 ^ 29 - 16) h1 = Ok (Some 16, h2) \<and>
    krealloc (Some 16) 100 h2 = Ok (Some p, h3) \<and> block_size h3 (p - 16) = 100"
proof -
  obtain h1 h2 where r: "initMemoryPhase2 heap_demo = Ok h1" "kxmallocDynamic (2 ^ 29 - 16) h1 = Ok (Some 16, h2)"
    "heap_reach (h2, {0})" "sh_pt h2 = demo_pt" "sh_buckets h2 24 = [2 ^ 29]"
    "sh_hdr h2 0 = \<lparr>us_bucket = 24, us_realSize = 2 ^ 29 - 16\<rparr>" by (rule heap_demo_run)
  let ?h2 = "h2\<lparr>sh_hdr := (sh_hdr h2)(0 := \<lparr>us_bucket = 23, us_realSize = 100\<rparr>)\<rparr>"
  have "mapPages (2 ^ 28) 1 ?h2 = Ok ?h2" using r(4) by (intro demo_map) simp_all
  then obtain p h3 where k: "krealloc (Some (0 + 16)) 100 h2 = Ok (Some p, h3)"
    using r(6) by (simp add: krealloc_def Let_def slabSize_def)
  from krealloc_keeps [OF r(3) _ _ _ k] have "block_size h3 (p - 16) = 100" by simp
  with r k show ?thesis by auto
qed

end
