(* ===== verification/Gx_PageInfo.thy ===== *)
theory Gx_PageInfo
  imports Gx_PhysMem
begin

text \<open>
  \<open>kernel/src/thread/pageinfo.c\<close>: the use counts and flags of the physical frames, in a tree
  of four levels of 512 entries. An entry of the three upper levels is \<open>NULL\<close> or a node, one
  of the lowest level a word of 64 bits. \<open>Panic\<close> is a panic of the frame allocator or the
  access through a \<open>NULL\<close> branch.
\<close>

section \<open>State\<close>

abbreviation PI_CACHE :: u64 where "PI_CACHE \<equiv> 0x100000000"
abbreviation PI_DIRTY :: u64 where "PI_DIRTY \<equiv> 0x200000000"
abbreviation PI_ACCESSED :: u64 where "PI_ACCESSED \<equiv> 0x400000000"

type_synonym pi_leaf = "nat \<Rightarrow> u64"
type_synonym pi_node2 = "nat \<Rightarrow> pi_leaf option"
type_synonym pi_node1 = "nat \<Rightarrow> pi_node2 option"
type_synonym pi_node0 = "nat \<Rightarrow> pi_node1 option"

record pageinfo =
  pi_root :: pi_node0
  pi_cachedFrames :: u64 \<comment> \<open>\<open>phmCachedFrames\<close>\<close>
  pi_phm :: physmem

definition piInit :: "pageinfo \<Rightarrow> pageinfo" where
  "piInit st = st\<lparr>pi_root := \<lambda>_. None\<rparr>"

definition pi_index :: "nat \<Rightarrow> nat \<Rightarrow> nat" where
  "pi_index level frame = (frame div 2 ^ (9 * (3 - level))) mod 512"

text \<open>The descent of \<open>piNew\<close> and \<open>piStaticFrame\<close>: a missing node is made, all zeroes.\<close>

definition node_or :: "'a \<Rightarrow> 'a option \<Rightarrow> 'a" where
  "node_or z n = (case n of None \<Rightarrow> z | Some x \<Rightarrow> x)"

definition pi_set :: "nat \<Rightarrow> u64 \<Rightarrow> pi_node0 \<Rightarrow> pi_node0" where
  "pi_set frame v root =
     (let n1 = node_or (\<lambda>_. None) (root (pi_index 0 frame));
          n2 = node_or (\<lambda>_. None) (n1 (pi_index 1 frame));
          leaf = node_or (\<lambda>_. 0) (n2 (pi_index 2 frame));
          leaf = leaf(pi_index 3 frame := v);
          n2 = n2(pi_index 2 frame \<mapsto> leaf);
          n1 = n1(pi_index 1 frame \<mapsto> n2)
      in root(pi_index 0 frame \<mapsto> n1))"

text \<open>\<open>piRoot.branches[..]->branches[..]->branches[..]->entries[..]\<close>\<close>

definition pi_get :: "nat \<Rightarrow> pi_node0 \<Rightarrow> u64 option" where
  "pi_get frame root =
     (case root (pi_index 0 frame) of None \<Rightarrow> None
      | Some n1 \<Rightarrow> (case n1 (pi_index 1 frame) of None \<Rightarrow> None
      | Some n2 \<Rightarrow> (case n2 (pi_index 2 frame) of None \<Rightarrow> None
      | Some leaf \<Rightarrow> Some (leaf (pi_index 3 frame)))))"

text \<open>An atomic read-modify-write of the entry of a frame: the old value and the new state.\<close>

definition pi_rmw :: "nat \<Rightarrow> (u64 \<Rightarrow> u64) \<Rightarrow> pageinfo \<Rightarrow> (u64 \<times> pageinfo) kres" where
  "pi_rmw frame f st =
     (case pi_get frame (pi_root st) of
        None \<Rightarrow> Panic
      | Some v \<Rightarrow> Ok (v, st\<lparr>pi_root := pi_set frame (f v) (pi_root st)\<rparr>))"

section \<open>Operations\<close>

definition piNew :: "u64 \<Rightarrow> pageinfo \<Rightarrow> (nat \<times> pageinfo) kres" where
  "piNew flags st =
     kbind (phmAllocFrame (pi_phm st)) (\<lambda>(frame, phm).
       if frame = 0 then Ok (0, st\<lparr>pi_phm := phm\<rparr>)
       else Ok (frame, st\<lparr>pi_phm := phm, pi_root := pi_set frame (1 OR flags) (pi_root st)\<rparr>))"

definition piIncref :: "nat \<Rightarrow> pageinfo \<Rightarrow> pageinfo kres" where
  "piIncref frame st =
     kbind (pi_rmw frame (\<lambda>v. v + 1) st) (\<lambda>(v, st).
       if (v + 1) AND 0xFFFFFFFF = 1 then Ok (st\<lparr>pi_cachedFrames := pi_cachedFrames st - 1\<rparr>) else Ok st)"

definition piDecref :: "nat \<Rightarrow> pageinfo \<Rightarrow> pageinfo kres" where
  "piDecref frame st =
     kbind (pi_rmw frame (\<lambda>v. v - 1) st) (\<lambda>(v, st).
       if (v - 1) AND 0xFFFFFFFF = 0 then
         if (v - 1) AND PI_CACHE = 0
         then kbind (phmFreeFrame frame (pi_phm st)) (\<lambda>phm. Ok (st\<lparr>pi_phm := phm\<rparr>))
         else Ok (st\<lparr>pi_cachedFrames := pi_cachedFrames st + 1\<rparr>)
       else Ok st)"

definition piMarkDirty :: "nat \<Rightarrow> pageinfo \<Rightarrow> pageinfo kres" where
  "piMarkDirty frame st = kbind (pi_rmw frame (\<lambda>v. v OR PI_DIRTY) st) (\<lambda>(v, st). Ok st)"

definition piMarkAccessed :: "nat \<Rightarrow> pageinfo \<Rightarrow> pageinfo kres" where
  "piMarkAccessed frame st = kbind (pi_rmw frame (\<lambda>v. v OR PI_ACCESSED) st) (\<lambda>(v, st). Ok st)"

definition piGetInfo :: "nat \<Rightarrow> pageinfo \<Rightarrow> u64 kres" where
  "piGetInfo frame st = (case pi_get frame (pi_root st) of None \<Rightarrow> Panic | Some v \<Rightarrow> Ok v)"

definition piNeedsCopyOnWrite :: "nat \<Rightarrow> pageinfo \<Rightarrow> bool kres" where
  "piNeedsCopyOnWrite frame st =
     kbind (piGetInfo frame st) (\<lambda>val.
       Ok (if val AND 0xFFFFFFFF = 1 then (if val AND PI_CACHE = 0 then False else True) else True))"

definition piUncache :: "nat \<Rightarrow> pageinfo \<Rightarrow> pageinfo kres" where
  "piUncache frame st =
     kbind (pi_rmw frame (\<lambda>v. v AND NOT PI_CACHE) st) (\<lambda>(v, st).
       if (v AND NOT PI_CACHE) AND 0xFFFFFFFF = 0
       then kbind (phmFreeFrame frame (pi_phm st))
              (\<lambda>phm. Ok (st\<lparr>pi_cachedFrames := pi_cachedFrames st - 1, pi_phm := phm\<rparr>))
       else Ok st)"

definition piCheckFlush :: "nat \<Rightarrow> pageinfo \<Rightarrow> (bool \<times> pageinfo) kres" where
  "piCheckFlush frame st =
     kbind (pi_rmw frame (\<lambda>v. v AND NOT PI_DIRTY) st) (\<lambda>(v, st). Ok (v AND PI_DIRTY \<noteq> 0, st))"

definition piStaticFrame :: "nat \<Rightarrow> pageinfo \<Rightarrow> pageinfo" where
  "piStaticFrame frame st = st\<lparr>pi_root := pi_set frame (0xFFFFFF OR PI_CACHE) (pi_root st)\<rparr>"

section \<open>The tree is a map\<close>

definition pi_read :: "pi_node0 \<Rightarrow> nat \<Rightarrow> u64" where
  "pi_read root frame = node_or 0 (pi_get frame root)"

lemma pi_index_eq:
  assumes "f < 2 ^ 36" and "g < 2 ^ 36" and "\<And>l. l < 4 \<Longrightarrow> pi_index l f = pi_index l g"
  shows "f = g"
proof -
  have s: "x = 2 ^ 27 * pi_index 0 x + 2 ^ 18 * pi_index 1 x + 2 ^ 9 * pi_index 2 x + pi_index 3 x" if "x < 2 ^ 36" for x
  proof -
    have "x div 2 ^ 27 < 512" using that by (simp add: div_less_iff_less_mult)
    then have "x = 2 ^ 27 * pi_index 0 x + x mod 2 ^ 27" by (simp add: pi_index_def)
    moreover have "x mod 2 ^ 27 = 2 ^ 18 * pi_index 1 x + x mod 2 ^ 18"
      using mod_mult2_eq [of x "2 ^ 18" 512] by (simp add: pi_index_def)
    moreover have "x mod 2 ^ 18 = 2 ^ 9 * pi_index 2 x + x mod 2 ^ 9"
      using mod_mult2_eq [of x "2 ^ 9" 512] by (simp add: pi_index_def)
    ultimately show ?thesis by (simp add: pi_index_def)
  qed
  from s [OF assms(1)] s [OF assms(2)] assms(3) show ?thesis by simp
qed

lemma pi_get_set:
  assumes "f < 2 ^ 36" and "g < 2 ^ 36"
  shows "pi_get g (pi_set f v r) = (if g = f then Some v else if pi_get g r = None then pi_get g (pi_set f v r) else pi_get g r)"
    and "pi_read (pi_set f v r) g = (if g = f then v else pi_read r g)"
proof -
  have "g \<noteq> f \<Longrightarrow> \<exists>l < 4. pi_index l g \<noteq> pi_index l f" using pi_index_eq [OF assms(2,1)] by blast
  then have ne: "g \<noteq> f \<Longrightarrow> pi_index 0 g \<noteq> pi_index 0 f \<or> pi_index 1 g \<noteq> pi_index 1 f \<or> pi_index 2 g \<noteq> pi_index 2 f \<or>
      pi_index 3 g \<noteq> pi_index 3 f"
    by (auto simp: numeral_eq_Suc less_Suc_eq)
  show "pi_get g (pi_set f v r) = (if g = f then Some v else if pi_get g r = None then pi_get g (pi_set f v r) else pi_get g r)"
    using ne by (auto simp: pi_get_def pi_set_def Let_def node_or_def split: option.splits)
  show "pi_read (pi_set f v r) g = (if g = f then v else pi_read r g)"
    using ne by (auto simp: pi_read_def pi_get_def pi_set_def Let_def node_or_def split: option.splits)
qed

section \<open>Entries\<close>

text \<open>An entry with use count \<open>n\<close>, cached or not: the count plus flags above bit 31.\<close>

definition entry_ok :: "u64 \<Rightarrow> nat \<Rightarrow> bool \<Rightarrow> bool" where
  "entry_ok v n c \<longleftrightarrow> n < 2 ^ 32 \<and> (\<exists>fl. v = of_nat n + fl \<and> fl AND 0xFFFFFFFF = 0 \<and> (fl AND PI_CACHE \<noteq> 0 \<longleftrightarrow> c))"

lemma low_mask: "(0xFFFFFFFF :: u64) = mask 32"
  by (simp add: mask_eq_exp_minus_1)

lemma bit_small: "n < 2 ^ 32 \<Longrightarrow> bit (of_nat n :: u64) k \<Longrightarrow> k < 32"
proof -
  assume n: "n < 2 ^ 32" and "bit (of_nat n :: u64) k"
  then have "bit n k" by (simp add: bit_of_nat_iff)
  moreover have "take_bit 32 n = n" using n by (simp add: take_bit_nat_eq_self)
  ultimately show "k < 32" by (metis bit_take_bit_iff)
qed

lemma of_nat_low:
  assumes "n < 2 ^ 32"
  shows "of_nat n AND (0xFFFFFFFF :: u64) = of_nat n" and "of_nat n AND (0x100000000 :: u64) = 0"
    and "of_nat n AND (0x200000000 :: u64) = 0" and "of_nat n AND (0x400000000 :: u64) = 0"
proof -
  show "of_nat n AND (0xFFFFFFFF :: u64) = of_nat n"
    unfolding low_mask by (rule bit_eqI) (auto simp: bit_and_iff bit_mask_iff dest: bit_small [OF assms])
  have "of_nat n AND (2 ^ k :: u64) = 0" if "32 \<le> k" for k
    by (rule bit_eqI) (use that in \<open>auto simp: bit_and_iff bit_exp_iff dest: bit_small [OF assms]\<close>)
  from this [of 32] this [of 33] this [of 34]
  show "of_nat n AND (0x100000000 :: u64) = 0" "of_nat n AND (0x200000000 :: u64) = 0" "of_nat n AND (0x400000000 :: u64) = 0"
    by simp_all
qed

lemma sum_is_or:
  assumes "n < 2 ^ 32" and "fl AND 0xFFFFFFFF = (0 :: u64)"
  shows "of_nat n + fl = of_nat n OR fl"
proof -
  have "of_nat n AND fl = (of_nat n AND 0xFFFFFFFF) AND fl" using of_nat_low(1) [OF assms(1)] by simp
  also have "\<dots> = of_nat n AND (fl AND 0xFFFFFFFF)" by (simp only: ac_simps)
  finally show ?thesis using assms(2) by (simp add: disjunctive_add_eq_or)
qed

lemma entry_read:
  assumes "entry_ok v n c"
  shows "v AND 0xFFFFFFFF = of_nat n" and "v AND PI_CACHE \<noteq> 0 \<longleftrightarrow> c" and "n < 2 ^ 32"
proof -
  from assms obtain fl where fl: "n < 2 ^ 32" "v = of_nat n + fl" "fl AND 0xFFFFFFFF = 0" "fl AND PI_CACHE \<noteq> 0 \<longleftrightarrow> c"
    by (auto simp: entry_ok_def)
  from fl(2) sum_is_or [OF fl(1,3)] have v: "v = of_nat n OR fl" by simp
  show "v AND 0xFFFFFFFF = of_nat n" using fl(3) of_nat_low(1) [OF fl(1)] by (simp add: v bit.conj_disj_distrib2)
  show "v AND PI_CACHE \<noteq> 0 \<longleftrightarrow> c" using fl(4) of_nat_low(2) [OF fl(1)] by (simp add: v bit.conj_disj_distrib2)
  show "n < 2 ^ 32" by (rule fl(1))
qed

lemma entry_count: "entry_ok v n c \<Longrightarrow> v AND 0xFFFFFFFF = of_nat m \<Longrightarrow> m < 2 ^ 32 \<Longrightarrow> n = m"
proof -
  assume e: "entry_ok v n c" and m: "v AND 0xFFFFFFFF = of_nat m" "m < 2 ^ 32"
  have "(of_nat n :: u64) = of_nat m" using entry_read(1) [OF e] m(1) by simp
  then show "n = m" using entry_read(3) [OF e] m(2) by (simp add: of_nat_inverse word_of_nat_eq_iff take_bit_nat_eq_self)
qed

lemma entry_inc: "entry_ok v n c \<Longrightarrow> n + 1 < 2 ^ 32 \<Longrightarrow> entry_ok (v + 1) (n + 1) c"
  by (auto simp: entry_ok_def algebra_simps)

lemma entry_dec: "entry_ok v n c \<Longrightarrow> 0 < n \<Longrightarrow> entry_ok (v - 1) (n - 1) c"
  by (auto simp: entry_ok_def of_nat_diff algebra_simps)

lemma entry_flag:
  assumes "entry_ok v n c" and "d \<in> {PI_DIRTY, PI_ACCESSED}"
  shows "entry_ok (v OR d) n c" and "entry_ok (v AND NOT d) n c"
proof -
  from assms obtain fl where fl: "n < 2 ^ 32" "v = of_nat n + fl" "fl AND 0xFFFFFFFF = 0" "fl AND PI_CACHE \<noteq> 0 \<longleftrightarrow> c"
    by (auto simp: entry_ok_def)
  have d: "d AND 0xFFFFFFFF = 0" "d AND PI_CACHE = 0" "of_nat n AND d = (0 :: u64)"
    using assms(2) of_nat_low [OF fl(1)] by auto
  have v: "v = of_nat n OR fl" using fl(2) sum_is_or [OF fl(1,3)] by simp
  have o: "(fl OR d) AND 0xFFFFFFFF = 0" "(fl OR d) AND PI_CACHE = fl AND PI_CACHE"
    using fl(3) d by (simp_all add: bit.conj_disj_distrib2)
  have "v OR d = of_nat n + (fl OR d)" using sum_is_or [OF fl(1) o(1)] by (simp add: v ac_simps)
  with fl o show "entry_ok (v OR d) n c" by (auto simp: entry_ok_def intro!: exI [of _ "fl OR d"])
  have nd: "NOT d AND 0xFFFFFFFF = 0xFFFFFFFF" "NOT d AND PI_CACHE = PI_CACHE" "of_nat n AND NOT d = (of_nat n :: u64)"
  proof -
    show "NOT d AND 0xFFFFFFFF = 0xFFFFFFFF" "NOT d AND PI_CACHE = PI_CACHE" using assms(2) by auto
    have "of_nat n = (of_nat n AND NOT d) OR (of_nat n AND d)" by (simp flip: bit.conj_disj_distrib)
    with d(3) show "of_nat n AND NOT d = (of_nat n :: u64)" by simp
  qed
  have a: "(fl AND NOT d) AND 0xFFFFFFFF = 0" "(fl AND NOT d) AND PI_CACHE = fl AND PI_CACHE"
    using fl(3) nd(1,2) by (simp_all add: and.assoc)
  have "v AND NOT d = of_nat n + (fl AND NOT d)" using sum_is_or [OF fl(1) a(1)] nd(3) by (simp add: v bit.conj_disj_distrib2)
  with fl a show "entry_ok (v AND NOT d) n c" by (auto simp: entry_ok_def intro!: exI [of _ "fl AND NOT d"])
qed

lemma entry_uncache:
  assumes "entry_ok v n c"
  shows "entry_ok (v AND NOT PI_CACHE) n False"
proof -
  from assms obtain fl where fl: "n < 2 ^ 32" "v = of_nat n + fl" "fl AND 0xFFFFFFFF = 0"
    by (auto simp: entry_ok_def)
  have v: "v = of_nat n OR fl" using fl(2) sum_is_or [OF fl(1,3)] by simp
  have nd: "NOT PI_CACHE AND 0xFFFFFFFF = 0xFFFFFFFF" "NOT PI_CACHE AND PI_CACHE = 0" by simp_all
  have k: "of_nat n AND NOT PI_CACHE = (of_nat n :: u64)"
  proof -
    have "of_nat n = (of_nat n AND NOT PI_CACHE) OR (of_nat n AND PI_CACHE)" by (simp flip: bit.conj_disj_distrib)
    with of_nat_low(2) [OF fl(1)] show ?thesis by simp
  qed
  have a: "(fl AND NOT PI_CACHE) AND 0xFFFFFFFF = 0" "(fl AND NOT PI_CACHE) AND PI_CACHE = 0"
    using fl(3) nd by (simp_all add: and.assoc)
  have "v AND NOT PI_CACHE = of_nat n + (fl AND NOT PI_CACHE)"
    using sum_is_or [OF fl(1) a(1)] k by (simp add: v bit.conj_disj_distrib2)
  with fl a show ?thesis by (auto simp: entry_ok_def intro!: exI [of _ "fl AND NOT PI_CACHE"])
qed

lemma entry_new: "fl \<in> {0, PI_CACHE} \<Longrightarrow> entry_ok (1 OR fl) 1 (fl = PI_CACHE)"
  using sum_is_or [of 1 fl] by (auto simp: entry_ok_def intro!: exI [of _ fl])

section \<open>References\<close>

text \<open>
  A system of holders: \<open>ps_refs f\<close> is the number of references to frame \<open>f\<close> that somebody holds
  and \<open>ps_cache\<close> the set of the frames that a page cache keeps.
\<close>

record pi_sys =
  ps_pi :: pageinfo
  ps_refs :: "nat \<Rightarrow> nat"
  ps_cache :: "nat set"

definition pi_live :: "pi_sys \<Rightarrow> nat set" where
  "pi_live \<sigma> = {f. 0 < ps_refs \<sigma> f} \<union> ps_cache \<sigma>"

definition pi_ok :: "pi_sys \<Rightarrow> bool" where
  "pi_ok \<sigma> \<longleftrightarrow> phm_ok (pi_phm (ps_pi \<sigma>)) \<and> finite (ps_cache \<sigma>) \<and>
     (\<forall>f \<in> pi_live \<sigma>. 0 < f \<and> f < 2 ^ 36 \<and> f \<in> owned (pi_phm (ps_pi \<sigma>)) \<and>
        (\<exists>v. pi_get f (pi_root (ps_pi \<sigma>)) = Some v \<and> entry_ok v (ps_refs \<sigma> f) (f \<in> ps_cache \<sigma>))) \<and>
     pi_cachedFrames (ps_pi \<sigma>) = of_nat (card {f \<in> ps_cache \<sigma>. ps_refs \<sigma> f = 0})"

text \<open>
  A holder duplicates a reference it has or takes one to a cached page; \<open>evict\<close> is what
  \<open>tryFreeFrame\<close> of \<open>ftree.c\<close> does with a cached page that nobody uses; \<open>frames\<close> is what the
  other clients of the frame allocator do.
\<close>

inductive pi_step :: "pi_sys \<Rightarrow> pi_sys \<Rightarrow> bool" where
  new: "piNew fl (ps_pi \<sigma>) = Ok (f, st') \<Longrightarrow> fl \<in> {0, PI_CACHE} \<Longrightarrow> f < 2 ^ 36 \<Longrightarrow>
    pi_step \<sigma> \<lparr>ps_pi = st', ps_refs = (ps_refs \<sigma>)(f := 1),
              ps_cache = (if fl = PI_CACHE then insert f (ps_cache \<sigma>) else ps_cache \<sigma>)\<rparr>"
| incref: "piIncref f (ps_pi \<sigma>) = Ok st' \<Longrightarrow> f \<in> pi_live \<sigma> \<Longrightarrow> ps_refs \<sigma> f + 1 < 2 ^ 32 \<Longrightarrow>
    pi_step \<sigma> (\<sigma>\<lparr>ps_pi := st', ps_refs := (ps_refs \<sigma>)(f := ps_refs \<sigma> f + 1)\<rparr>)"
| decref: "piDecref f (ps_pi \<sigma>) = Ok st' \<Longrightarrow> 0 < ps_refs \<sigma> f \<Longrightarrow>
    pi_step \<sigma> (\<sigma>\<lparr>ps_pi := st', ps_refs := (ps_refs \<sigma>)(f := ps_refs \<sigma> f - 1)\<rparr>)"
| dirty: "piMarkDirty f (ps_pi \<sigma>) = Ok st' \<Longrightarrow> f \<in> pi_live \<sigma> \<Longrightarrow> pi_step \<sigma> (\<sigma>\<lparr>ps_pi := st'\<rparr>)"
| accessed: "piMarkAccessed f (ps_pi \<sigma>) = Ok st' \<Longrightarrow> f \<in> pi_live \<sigma> \<Longrightarrow> pi_step \<sigma> (\<sigma>\<lparr>ps_pi := st'\<rparr>)"
| flush: "piCheckFlush f (ps_pi \<sigma>) = Ok (b, st') \<Longrightarrow> f \<in> pi_live \<sigma> \<Longrightarrow> pi_step \<sigma> (\<sigma>\<lparr>ps_pi := st'\<rparr>)"
| uncache: "piUncache f (ps_pi \<sigma>) = Ok st' \<Longrightarrow> f \<in> ps_cache \<sigma> \<Longrightarrow>
    pi_step \<sigma> (\<sigma>\<lparr>ps_pi := st', ps_cache := ps_cache \<sigma> - {f}\<rparr>)"
| evict: "f \<in> ps_cache \<sigma> \<Longrightarrow> piGetInfo f (ps_pi \<sigma>) = Ok v \<Longrightarrow> v AND 0xFFFFFFFF = 0 \<Longrightarrow>
    pi_step \<sigma> (\<sigma>\<lparr>ps_pi := (ps_pi \<sigma>)\<lparr>pi_cachedFrames := pi_cachedFrames (ps_pi \<sigma>) - 1\<rparr>, ps_cache := ps_cache \<sigma> - {f}\<rparr>)"
| frames: "phm_ok phm \<Longrightarrow> pi_live \<sigma> \<subseteq> owned phm \<Longrightarrow> pi_step \<sigma> (\<sigma>\<lparr>ps_pi := (ps_pi \<sigma>)\<lparr>pi_phm := phm\<rparr>\<rparr>)"

inductive pi_reach :: "pi_sys \<Rightarrow> bool" where
  start: "phm_ok (pi_phm st) \<Longrightarrow> pi_cachedFrames st = 0 \<Longrightarrow>
    pi_reach \<lparr>ps_pi = piInit st, ps_refs = \<lambda>_. 0, ps_cache = {}\<rparr>"
| step: "pi_reach \<sigma> \<Longrightarrow> pi_step \<sigma> \<sigma>' \<Longrightarrow> pi_reach \<sigma>'"

lemma pi_ok_entry:
  assumes "pi_ok \<sigma>" and "f \<in> pi_live \<sigma>"
  obtains v where "pi_get f (pi_root (ps_pi \<sigma>)) = Some v" and "entry_ok v (ps_refs \<sigma> f) (f \<in> ps_cache \<sigma>)"
    and "0 < f" and "f < 2 ^ 36" and "f \<in> owned (pi_phm (ps_pi \<sigma>))"
  using assms unfolding pi_ok_def by blast

text \<open>One entry is rewritten; the frames stay with their owners or one that is no longer live leaves.\<close>

lemma pi_ok_upd:
  assumes ok: "pi_ok \<sigma>" and f: "f < 2 ^ 36"
    and root: "pi_root st' = pi_set f v (pi_root (ps_pi \<sigma>))"
    and oth: "\<forall>g. g \<noteq> f \<longrightarrow> r' g = ps_refs \<sigma> g \<and> (g \<in> c' \<longleftrightarrow> g \<in> ps_cache \<sigma>)"
    and fin: "finite c'" and new: "0 < r' f \<or> f \<in> c' \<Longrightarrow> 0 < f \<and> f \<in> owned (pi_phm st') \<and> entry_ok v (r' f) (f \<in> c')"
    and phm: "phm_ok (pi_phm st')" "owned (pi_phm (ps_pi \<sigma>)) - {f} \<subseteq> owned (pi_phm st')"
    and cnt: "pi_cachedFrames st' = of_nat (card {g \<in> c'. r' g = 0})"
  shows "pi_ok \<lparr>ps_pi = st', ps_refs = r', ps_cache = c'\<rparr>"
proof -
  let ?s = "\<lparr>ps_pi = st', ps_refs = r', ps_cache = c'\<rparr>"
  have "0 < g \<and> g < 2 ^ 36 \<and> g \<in> owned (pi_phm st') \<and>
      (\<exists>w. pi_get g (pi_root st') = Some w \<and> entry_ok w (r' g) (g \<in> c'))" if "g \<in> pi_live ?s" for g
  proof (cases "g = f")
    case True
    with that new f root pi_get_set(1) [OF f f, of v] show ?thesis by (auto simp: pi_live_def)
  next
    case False
    with that oth have "g \<in> pi_live \<sigma>" by (auto simp: pi_live_def)
    with ok obtain w where w: "pi_get g (pi_root (ps_pi \<sigma>)) = Some w" "entry_ok w (ps_refs \<sigma> g) (g \<in> ps_cache \<sigma>)"
      "0 < g" "g < 2 ^ 36" "g \<in> owned (pi_phm (ps_pi \<sigma>))" by (rule pi_ok_entry)
    with False oth phm(2) root pi_get_set(1) [OF f w(4), of v "pi_root (ps_pi \<sigma>)"] show ?thesis by auto
  qed
  with fin phm(1) cnt show ?thesis by (simp add: pi_ok_def)
qed

text \<open>How the set of the unused cached pages changes.\<close>

lemma card_unused:
  assumes "finite c" and "f \<in> c" and "r f = 0" and "{g \<in> c'. r' g = 0} = {g \<in> c. r g = 0} - {f}"
  shows "(of_nat (card {g \<in> c'. r' g = 0}) :: u64) = of_nat (card {g \<in> c. r g = 0}) - 1"
proof -
  have "0 < card {g \<in> c. r g = 0}" using assms(1-3) by (auto simp: card_gt_0_iff)
  then show ?thesis using assms by (simp add: of_nat_diff Suc_le_eq)
qed

lemma sys_eq: "\<lparr>ps_pi = a, ps_refs = ps_refs \<sigma>, ps_cache = ps_cache \<sigma>\<rparr> = \<sigma>\<lparr>ps_pi := a\<rparr>"
  by simp

lemma rmw_Ok: "pi_rmw f g st = Ok (v, st') \<longleftrightarrow>
    pi_get f (pi_root st) = Some v \<and> st' = st\<lparr>pi_root := pi_set f (g v) (pi_root st)\<rparr>"
  by (auto simp: pi_rmw_def split: option.splits)

lemma pi_new_ok:
  assumes "pi_ok \<sigma>" and "piNew fl (ps_pi \<sigma>) = Ok (f, st')" and "fl \<in> {0, PI_CACHE}" and "f < 2 ^ 36"
  shows "f \<notin> pi_live \<sigma> \<and> pi_ok \<lparr>ps_pi = st', ps_refs = (ps_refs \<sigma>)(f := 1),
    ps_cache = (if fl = PI_CACHE then insert f (ps_cache \<sigma>) else ps_cache \<sigma>)\<rparr>"
proof -
  from assms(1) have phm: "phm_ok (pi_phm (ps_pi \<sigma>))" by (simp add: pi_ok_def)
  then have eq: "phmAllocFrame (pi_phm (ps_pi \<sigma>)) = phmAllocSingle (pi_phm (ps_pi \<sigma>))"
    by (auto simp: phmAllocFrame_def phm_ok_def)
  from assms(2) obtain phm' where a: "phmAllocSingle (pi_phm (ps_pi \<sigma>)) = Ok (f, phm')"
    by (auto simp: piNew_def kbind_Ok_iff eq split: if_splits)
  from fp.alloc_law [OF phm a] have al: "f \<noteq> 0" "f \<notin> owned (pi_phm (ps_pi \<sigma>))" "phm_ok phm'"
    "owned phm' = insert f (owned (pi_phm (ps_pi \<sigma>)))" by blast+
  with a assms(2) have st': "st' = (ps_pi \<sigma>)\<lparr>pi_phm := phm', pi_root := pi_set f (1 OR fl) (pi_root (ps_pi \<sigma>))\<rparr>"
    by (auto simp: piNew_def kbind_Ok_iff eq split: if_splits)
  have nl: "f \<notin> pi_live \<sigma>" using al(2) assms(1) by (auto simp: pi_ok_def)
  then have un: "f \<notin> ps_cache \<sigma>" "ps_refs \<sigma> f = 0" by (auto simp: pi_live_def)
  let ?c = "if fl = PI_CACHE then insert f (ps_cache \<sigma>) else ps_cache \<sigma>"
  have cnt: "{g \<in> ?c. ((ps_refs \<sigma>)(f := 1)) g = 0} = {g \<in> ps_cache \<sigma>. ps_refs \<sigma> g = 0}" using un by auto
  from assms(1) have ok: "finite (ps_cache \<sigma>)" "pi_cachedFrames (ps_pi \<sigma>) = of_nat (card {g \<in> ps_cache \<sigma>. ps_refs \<sigma> g = 0})"
    by (simp_all add: pi_ok_def)
  have "f \<in> ?c \<longleftrightarrow> fl = PI_CACHE" using un(1) by simp
  then have "pi_ok \<lparr>ps_pi = st', ps_refs = (ps_refs \<sigma>)(f := 1), ps_cache = ?c\<rparr>"
    using al entry_new [OF assms(3)] ok st'
    by (intro pi_ok_upd [OF assms(1,4), of _ "1 OR fl"]) (simp_all only: cnt, auto)
  with nl show ?thesis by simp
qed

lemma pi_okD:
  assumes "pi_ok \<sigma>"
  shows "finite (ps_cache \<sigma>)" and "phm_ok (pi_phm (ps_pi \<sigma>))"
    and "pi_cachedFrames (ps_pi \<sigma>) = of_nat (card {g \<in> ps_cache \<sigma>. ps_refs \<sigma> g = 0})"
  using assms by (simp_all add: pi_ok_def)

lemma pi_incref_ok:
  assumes "pi_ok \<sigma>" and "f \<in> pi_live \<sigma>" and "ps_refs \<sigma> f + 1 < 2 ^ 32" and "piIncref f (ps_pi \<sigma>) = Ok st'"
  shows "pi_ok (\<sigma>\<lparr>ps_pi := st', ps_refs := (ps_refs \<sigma>)(f := ps_refs \<sigma> f + 1)\<rparr>)"
proof -
  let ?r = "(ps_refs \<sigma>)(f := ps_refs \<sigma> f + 1)" and ?u = "{g \<in> ps_cache \<sigma>. ps_refs \<sigma> g = 0}"
  note d = pi_okD [OF assms(1)]
  from assms(1,2) obtain v where v: "pi_get f (pi_root (ps_pi \<sigma>)) = Some v" "entry_ok v (ps_refs \<sigma> f) (f \<in> ps_cache \<sigma>)"
    "0 < f" "f < 2 ^ 36" "f \<in> owned (pi_phm (ps_pi \<sigma>))" by (rule pi_ok_entry)
  note e = entry_inc [OF v(2) assms(3)]
  define c where "c = (if ps_refs \<sigma> f = 0 then pi_cachedFrames (ps_pi \<sigma>) - 1 else pi_cachedFrames (ps_pi \<sigma>))"
  have "(v + 1) AND 0xFFFFFFFF = 1 \<longleftrightarrow> ps_refs \<sigma> f = 0"
    using entry_count [OF e, of 1] entry_read(1) [OF e] by auto
  with assms(4) v(1) have st': "st' = (ps_pi \<sigma>)\<lparr>pi_root := pi_set f (v + 1) (pi_root (ps_pi \<sigma>)), pi_cachedFrames := c\<rparr>"
    by (auto simp: piIncref_def kbind_Ok_iff rmw_Ok c_def split: if_splits)
  have "c = of_nat (card {g \<in> ps_cache \<sigma>. ?r g = 0})"
  proof (cases "ps_refs \<sigma> f = 0")
    case True
    with assms(2) have "f \<in> ps_cache \<sigma>" by (simp add: pi_live_def)
    have s: "{g \<in> ps_cache \<sigma>. ?r g = 0} = ?u - {f}" by auto
    from card_unused [of "ps_cache \<sigma>" f "ps_refs \<sigma>" "ps_cache \<sigma>" ?r, OF d(1) \<open>f \<in> ps_cache \<sigma>\<close> True s]
    show ?thesis unfolding c_def d(3) using True by simp
  next
    case False
    then have "{g \<in> ps_cache \<sigma>. ?r g = 0} = ?u" by auto
    with False d(3) show ?thesis by (simp add: c_def)
  qed
  with v e d st' have "pi_ok \<lparr>ps_pi = st', ps_refs = ?r, ps_cache = ps_cache \<sigma>\<rparr>"
    by (intro pi_ok_upd [OF assms(1) v(4), of _ "v + 1"]) simp_all
  then show ?thesis by (cases \<sigma>) simp
qed

lemma pi_decref_ok:
  assumes "pi_ok \<sigma>" and "0 < ps_refs \<sigma> f" and "piDecref f (ps_pi \<sigma>) = Ok st'"
  shows "pi_ok (\<sigma>\<lparr>ps_pi := st', ps_refs := (ps_refs \<sigma>)(f := ps_refs \<sigma> f - 1)\<rparr>) \<and>
    owned (pi_phm st') = (if ps_refs \<sigma> f = 1 \<and> f \<notin> ps_cache \<sigma> then owned (pi_phm (ps_pi \<sigma>)) - {f} else owned (pi_phm (ps_pi \<sigma>)))"
proof -
  let ?r = "(ps_refs \<sigma>)(f := ps_refs \<sigma> f - 1)" and ?u = "{g \<in> ps_cache \<sigma>. ps_refs \<sigma> g = 0}"
  let ?root = "\<lambda>v. (ps_pi \<sigma>)\<lparr>pi_root := pi_set f (v - 1) (pi_root (ps_pi \<sigma>))\<rparr>"
  note d = pi_okD [OF assms(1)]
  have l: "f \<in> pi_live \<sigma>" using assms(2) by (simp add: pi_live_def)
  with assms(1) obtain v where v: "pi_get f (pi_root (ps_pi \<sigma>)) = Some v" "entry_ok v (ps_refs \<sigma> f) (f \<in> ps_cache \<sigma>)"
    "0 < f" "f < 2 ^ 36" "f \<in> owned (pi_phm (ps_pi \<sigma>))" by (rule pi_ok_entry)
  note e = entry_dec [OF v(2) assms(2)]
  have z: "(v - 1) AND 0xFFFFFFFF = 0 \<longleftrightarrow> ps_refs \<sigma> f = 1"
    using entry_count [OF e, of 0] entry_read(1) [OF e] assms(2) by auto
  have c: "(v - 1) AND PI_CACHE = 0 \<longleftrightarrow> f \<notin> ps_cache \<sigma>" using entry_read(2) [OF e] by blast
  consider (gone) "ps_refs \<sigma> f = 1" "f \<notin> ps_cache \<sigma>" | (kept) "ps_refs \<sigma> f = 1" "f \<in> ps_cache \<sigma>" | (used) "ps_refs \<sigma> f \<noteq> 1"
    by blast
  then have "pi_ok \<lparr>ps_pi = st', ps_refs = ?r, ps_cache = ps_cache \<sigma>\<rparr> \<and>
    owned (pi_phm st') = (if ps_refs \<sigma> f = 1 \<and> f \<notin> ps_cache \<sigma> then owned (pi_phm (ps_pi \<sigma>)) - {f} else owned (pi_phm (ps_pi \<sigma>)))"
  proof cases
    case gone
    from fp.free_law [OF d(2) v(5)] v(3) obtain phm where p: "phmFreeFrame f (pi_phm (ps_pi \<sigma>)) = Ok phm" "phm_ok phm"
      "owned phm = owned (pi_phm (ps_pi \<sigma>)) - {f}" by auto
    with assms(3) v(1) z c gone have st': "st' = (?root v)\<lparr>pi_phm := phm\<rparr>"
      by (auto simp: piDecref_def kbind_Ok_iff rmw_Ok split: if_splits)
    have u: "{g \<in> ps_cache \<sigma>. ?r g = 0} = ?u" using gone by auto
    have "pi_ok \<lparr>ps_pi = st', ps_refs = ?r, ps_cache = ps_cache \<sigma>\<rparr>"
    proof (rule pi_ok_upd [OF assms(1) v(4), of _ "v - 1"])
      show "pi_cachedFrames st' = of_nat (card {g \<in> ps_cache \<sigma>. ?r g = 0})" unfolding u using st' d(3) by simp
    qed (use st' p d(1) gone in simp_all)
    with st' p(3) gone show ?thesis by simp
  next
    case kept
    with assms(3) v(1) z c have st': "st' = (?root v)\<lparr>pi_cachedFrames := pi_cachedFrames (ps_pi \<sigma>) + 1\<rparr>"
      by (auto simp: piDecref_def kbind_Ok_iff rmw_Ok split: if_splits)
    have u: "{g \<in> ps_cache \<sigma>. ?r g = 0} = insert f ?u" "f \<notin> ?u" using kept by auto
    have n: "of_nat (card (insert f ?u)) = (of_nat (card ?u) + 1 :: u64)" using u(2) d(1) by simp
    have "pi_ok \<lparr>ps_pi = st', ps_refs = ?r, ps_cache = ps_cache \<sigma>\<rparr>"
      using st' v(3,5) e d n by (intro pi_ok_upd [OF assms(1) v(4), of _ "v - 1"]) (simp_all only: u(1), auto)
    with st' kept show ?thesis by simp
  next
    case used
    with assms(3) v(1) z have st': "st' = ?root v"
      by (auto simp: piDecref_def kbind_Ok_iff rmw_Ok split: if_splits)
    have u: "{g \<in> ps_cache \<sigma>. ?r g = 0} = ?u" using used assms(2) by auto
    have "pi_ok \<lparr>ps_pi = st', ps_refs = ?r, ps_cache = ps_cache \<sigma>\<rparr>"
      using st' v(3,5) e d by (intro pi_ok_upd [OF assms(1) v(4), of _ "v - 1"]) (simp_all only: u, auto)
    with st' used show ?thesis by simp
  qed
  then show ?thesis by (cases \<sigma>) simp
qed

lemma pi_flag_ok:
  assumes "pi_ok \<sigma>" and "f \<in> pi_live \<sigma>" and "pi_rmw f g (ps_pi \<sigma>) = Ok (v, st')"
    and "\<And>v n c. entry_ok v n c \<Longrightarrow> entry_ok (g v) n c"
  shows "pi_ok (\<sigma>\<lparr>ps_pi := st'\<rparr>)"
proof -
  note d = pi_okD [OF assms(1)]
  from assms(1,2) obtain w where w: "pi_get f (pi_root (ps_pi \<sigma>)) = Some w" "entry_ok w (ps_refs \<sigma> f) (f \<in> ps_cache \<sigma>)"
    "0 < f" "f < 2 ^ 36" "f \<in> owned (pi_phm (ps_pi \<sigma>))" by (rule pi_ok_entry)
  from assms(3) w(1) have st': "st' = (ps_pi \<sigma>)\<lparr>pi_root := pi_set f (g w) (pi_root (ps_pi \<sigma>))\<rparr>"
    by (simp add: rmw_Ok)
  with w d assms(4) [OF w(2)] have "pi_ok \<lparr>ps_pi = st', ps_refs = ps_refs \<sigma>, ps_cache = ps_cache \<sigma>\<rparr>"
    by (intro pi_ok_upd [OF assms(1) w(4), of _ "g w"]) simp_all
  then show ?thesis by (cases \<sigma>) simp
qed

lemma pi_uncache_ok:
  assumes "pi_ok \<sigma>" and "f \<in> ps_cache \<sigma>" and "piUncache f (ps_pi \<sigma>) = Ok st'"
  shows "pi_ok (\<sigma>\<lparr>ps_pi := st', ps_cache := ps_cache \<sigma> - {f}\<rparr>)"
proof -
  let ?u = "{g \<in> ps_cache \<sigma>. ps_refs \<sigma> g = 0}"
  note d = pi_okD [OF assms(1)]
  have l: "f \<in> pi_live \<sigma>" using assms(2) by (simp add: pi_live_def)
  with assms(1) obtain v where v: "pi_get f (pi_root (ps_pi \<sigma>)) = Some v" "entry_ok v (ps_refs \<sigma> f) (f \<in> ps_cache \<sigma>)"
    "0 < f" "f < 2 ^ 36" "f \<in> owned (pi_phm (ps_pi \<sigma>))" by (rule pi_ok_entry)
  let ?v = "v AND NOT PI_CACHE"
  let ?root = "(ps_pi \<sigma>)\<lparr>pi_root := pi_set f ?v (pi_root (ps_pi \<sigma>))\<rparr>"
  note e = entry_uncache [OF v(2)]
  have z: "?v AND 0xFFFFFFFF = 0 \<longleftrightarrow> ps_refs \<sigma> f = 0"
    using entry_count [OF e, of 0] entry_read(1) [OF e] by auto
  have "pi_ok \<lparr>ps_pi = st', ps_refs = ps_refs \<sigma>, ps_cache = ps_cache \<sigma> - {f}\<rparr>"
  proof (cases "ps_refs \<sigma> f = 0")
    case True
    from fp.free_law [OF d(2) v(5)] v(3) obtain phm where p: "phmFreeFrame f (pi_phm (ps_pi \<sigma>)) = Ok phm" "phm_ok phm"
      "owned phm = owned (pi_phm (ps_pi \<sigma>)) - {f}" by auto
    with assms(3) v(1) z True have st': "st' = ?root\<lparr>pi_cachedFrames := pi_cachedFrames (ps_pi \<sigma>) - 1, pi_phm := phm\<rparr>"
      by (auto simp: piUncache_def kbind_Ok_iff rmw_Ok split: if_splits)
    have "(of_nat (card {g \<in> ps_cache \<sigma> - {f}. ps_refs \<sigma> g = 0}) :: u64) = of_nat (card ?u) - 1"
      by (rule card_unused [of "ps_cache \<sigma>" f "ps_refs \<sigma>" "ps_cache \<sigma> - {f}" "ps_refs \<sigma>", OF d(1) assms(2) True]) auto
    with st' p e d True show ?thesis by (intro pi_ok_upd [OF assms(1) v(4), of _ ?v]) auto
  next
    case False
    with assms(3) v(1) z have st': "st' = ?root"
      by (auto simp: piUncache_def kbind_Ok_iff rmw_Ok split: if_splits)
    have "{g \<in> ps_cache \<sigma> - {f}. ps_refs \<sigma> g = 0} = ?u" using False by auto
    with st' v e d show ?thesis by (intro pi_ok_upd [OF assms(1) v(4), of _ ?v]) auto
  qed
  then show ?thesis by (cases \<sigma>) simp
qed

lemma pi_step_ok: "pi_step \<sigma> \<sigma>' \<Longrightarrow> pi_ok \<sigma> \<Longrightarrow> pi_ok \<sigma>'"
proof (induction rule: pi_step.induct)
  case (new fl \<sigma> f st')
  with pi_new_ok [of \<sigma> fl f st'] show ?case by blast
next
  case (incref f \<sigma> st')
  with pi_incref_ok [of \<sigma> f st'] show ?case by blast
next
  case (decref f \<sigma> st')
  with pi_decref_ok [of \<sigma> f st'] show ?case by blast
next
  case (dirty f \<sigma> st')
  then obtain v where r: "pi_rmw f (\<lambda>v. v OR PI_DIRTY) (ps_pi \<sigma>) = Ok (v, st')" by (auto simp: piMarkDirty_def kbind_Ok_iff)
  show ?case by (rule pi_flag_ok [OF dirty(3,2) r]) (simp add: entry_flag)
next
  case (accessed f \<sigma> st')
  then obtain v where r: "pi_rmw f (\<lambda>v. v OR PI_ACCESSED) (ps_pi \<sigma>) = Ok (v, st')" by (auto simp: piMarkAccessed_def kbind_Ok_iff)
  show ?case by (rule pi_flag_ok [OF accessed(3,2) r]) (simp add: entry_flag)
next
  case (flush f \<sigma> b st')
  then obtain v where r: "pi_rmw f (\<lambda>v. v AND NOT PI_DIRTY) (ps_pi \<sigma>) = Ok (v, st')" by (auto simp: piCheckFlush_def kbind_Ok_iff)
  show ?case by (rule pi_flag_ok [OF flush(3,2) r]) (rule entry_flag(2), assumption, simp)
next
  case (uncache f \<sigma> st')
  with pi_uncache_ok [of \<sigma> f st'] show ?case by blast
next
  case (evict f \<sigma> v)
  have l: "f \<in> pi_live \<sigma>" using evict(1) by (simp add: pi_live_def)
  with evict(4) obtain w where w: "pi_get f (pi_root (ps_pi \<sigma>)) = Some w" "entry_ok w (ps_refs \<sigma> f) (f \<in> ps_cache \<sigma>)"
    by (rule pi_ok_entry)
  with evict(2,3) have z: "ps_refs \<sigma> f = 0" using entry_count [OF w(2), of 0] by (simp add: piGetInfo_def)
  have "{g \<in> ps_cache \<sigma> - {f}. ps_refs \<sigma> g = 0} = {g \<in> ps_cache \<sigma>. ps_refs \<sigma> g = 0} - {f}" by auto
  from card_unused [of "ps_cache \<sigma>" f "ps_refs \<sigma>" "ps_cache \<sigma> - {f}" "ps_refs \<sigma>", OF pi_okD(1) [OF evict(4)] evict(1) z this]
  have c: "of_nat (card {g \<in> ps_cache \<sigma> - {f}. ps_refs \<sigma> g = 0}) = (pi_cachedFrames (ps_pi \<sigma>) - 1 :: u64)"
    using pi_okD(3) [OF evict(4)] by simp
  let ?s = "\<sigma>\<lparr>ps_pi := (ps_pi \<sigma>)\<lparr>pi_cachedFrames := pi_cachedFrames (ps_pi \<sigma>) - 1\<rparr>, ps_cache := ps_cache \<sigma> - {f}\<rparr>"
  have "0 < g \<and> g < 2 ^ 36 \<and> g \<in> owned (pi_phm (ps_pi \<sigma>)) \<and>
      (\<exists>v. pi_get g (pi_root (ps_pi \<sigma>)) = Some v \<and> entry_ok v (ps_refs \<sigma> g) (g \<in> ps_cache \<sigma> - {f}))" if "g \<in> pi_live ?s" for g
  proof -
    from that z have g: "g \<in> pi_live \<sigma>" "g \<noteq> f" by (auto simp: pi_live_def)
    from g(2) have e: "(g \<in> ps_cache \<sigma> - {f}) = (g \<in> ps_cache \<sigma>)" by simp
    from evict(4) g(1) obtain v where v: "pi_get g (pi_root (ps_pi \<sigma>)) = Some v" "entry_ok v (ps_refs \<sigma> g) (g \<in> ps_cache \<sigma>)"
      "0 < g" "g < 2 ^ 36" "g \<in> owned (pi_phm (ps_pi \<sigma>))" by (rule pi_ok_entry)
    show ?thesis unfolding e by (intro conjI exI) (rule v)+
  qed
  note live = this
  have live': "\<forall>g \<in> pi_live ?s. 0 < g \<and> g < 2 ^ 36 \<and> g \<in> owned (pi_phm (ps_pi ?s)) \<and>
      (\<exists>v. pi_get g (pi_root (ps_pi ?s)) = Some v \<and> entry_ok v (ps_refs ?s g) (g \<in> ps_cache ?s))"
    (is "\<forall>g \<in> _. ?Q g")
  proof
    fix g assume "g \<in> pi_live ?s"
    have p: "pi_phm (ps_pi ?s) = pi_phm (ps_pi \<sigma>)" "pi_root (ps_pi ?s) = pi_root (ps_pi \<sigma>)"
      "ps_refs ?s = ps_refs \<sigma>" "ps_cache ?s = ps_cache \<sigma> - {f}" by simp_all
    show "?Q g" unfolding p by (rule live) fact
  qed
  show ?case unfolding pi_ok_def
  proof (intro conjI)
    show "phm_ok (pi_phm (ps_pi ?s))" "finite (ps_cache ?s)" using pi_okD(1,2) [OF evict(4)] by simp_all
    show "pi_cachedFrames (ps_pi ?s) = of_nat (card {g \<in> ps_cache ?s. ps_refs ?s g = 0})" using c by simp
  qed (rule live')
next
  case (frames phm \<sigma>)
  let ?s = "\<sigma>\<lparr>ps_pi := (ps_pi \<sigma>)\<lparr>pi_phm := phm\<rparr>\<rparr>"
  have p: "pi_phm (ps_pi ?s) = phm" "pi_root (ps_pi ?s) = pi_root (ps_pi \<sigma>)" "ps_refs ?s = ps_refs \<sigma>"
    "ps_cache ?s = ps_cache \<sigma>" "pi_live ?s = pi_live \<sigma>" "pi_cachedFrames (ps_pi ?s) = pi_cachedFrames (ps_pi \<sigma>)"
    by (simp_all add: pi_live_def)
  from frames show ?case unfolding pi_ok_def p by blast
qed

lemma pi_reach_ok: "pi_reach \<sigma> \<Longrightarrow> pi_ok \<sigma>"
proof (induction rule: pi_reach.induct)
  case (start st)
  then show ?case by (simp add: pi_ok_def pi_live_def piInit_def)
qed (rule pi_step_ok)

section \<open>Properties\<close>

text \<open>C15: in every state a frame to which somebody holds a reference, or that a cache keeps, is owned
  and not given back to the allocator; its entry counts exactly the references and tells whether
  it is cached, and \<open>phmCachedFrames\<close> is the number of cached frames without references.\<close>
theorem pi_refcount:
  assumes "pi_reach \<sigma>" and "0 < ps_refs \<sigma> f \<or> f \<in> ps_cache \<sigma>"
  shows "f \<in> owned (pi_phm (ps_pi \<sigma>)) \<and>
    (\<exists>v. piGetInfo f (ps_pi \<sigma>) = Ok v \<and> v AND 0xFFFFFFFF = of_nat (ps_refs \<sigma> f) \<and> (v AND PI_CACHE \<noteq> 0 \<longleftrightarrow> f \<in> ps_cache \<sigma>)) \<and>
    pi_cachedFrames (ps_pi \<sigma>) = of_nat (card {g \<in> ps_cache \<sigma>. ps_refs \<sigma> g = 0})"
proof -
  from pi_reach_ok [OF assms(1)] have ok: "pi_ok \<sigma>" .
  have "f \<in> pi_live \<sigma>" using assms(2) by (simp add: pi_live_def)
  with ok obtain v where v: "pi_get f (pi_root (ps_pi \<sigma>)) = Some v" "entry_ok v (ps_refs \<sigma> f) (f \<in> ps_cache \<sigma>)"
    "f \<in> owned (pi_phm (ps_pi \<sigma>))" by (rule pi_ok_entry)
  with entry_read [OF v(2)] pi_okD(3) [OF ok] show ?thesis by (simp add: piGetInfo_def)
qed

lemma pi_demo_run:
  obtains st1 where "piNew 0 (piInit \<lparr>pi_root = \<lambda>_. None, pi_cachedFrames = 0,
      pi_phm = phm_demo [] [] (replicate 8 0xFF @ replicate 9 0)\<rparr>) = Ok (64, st1)"
    and "pi_reach \<lparr>ps_pi = st1, ps_refs = (\<lambda>_. 0)(64 := 1), ps_cache = {}\<rparr>"
proof -
  let ?phm = "phm_demo [] [] (replicate 8 0xFF @ replicate 9 0)"
  let ?st = "\<lparr>pi_root = \<lambda>_. None, pi_cachedFrames = 0, pi_phm = ?phm\<rparr>"
  have ok: "phm_ok ?phm" by (simp add: phm_ok_def phm_demo_def cached_def used_def nth_append)
  have "case phmAllocFrame ?phm of Ok (f, _) \<Rightarrow> f = 64 | Panic \<Rightarrow> False" by code_simp
  then obtain phm' where "phmAllocFrame ?phm = Ok (64, phm')" by (auto split: kres.splits)
  then obtain st1 where n: "piNew 0 (piInit ?st) = Ok (64, st1)" by (simp add: piNew_def piInit_def)
  have "pi_reach \<lparr>ps_pi = piInit ?st, ps_refs = \<lambda>_. 0, ps_cache = {}\<rparr>"
    using ok by (intro pi_reach.start) simp_all
  moreover have "pi_step \<lparr>ps_pi = piInit ?st, ps_refs = \<lambda>_. 0, ps_cache = {}\<rparr> \<lparr>ps_pi = st1, ps_refs = (\<lambda>_. 0)(64 := 1), ps_cache = {}\<rparr>"
    using pi_step.new [of 0 "\<lparr>ps_pi = piInit ?st, ps_refs = \<lambda>_. 0, ps_cache = {}\<rparr>" 64 st1] n by simp
  ultimately show thesis using that n pi_reach.step by blast
qed

theorem pi_refcount_witness:
  "\<exists>st1 v. piNew 0 (piInit \<lparr>pi_root = \<lambda>_. None, pi_cachedFrames = 0,
      pi_phm = phm_demo [] [] (replicate 8 0xFF @ replicate 9 0)\<rparr>) = Ok (64, st1) \<and> 64 \<in> owned (pi_phm st1) \<and>
    piGetInfo 64 st1 = Ok v \<and> v AND 0xFFFFFFFF = 1"
proof -
  obtain st1 where n: "piNew 0 (piInit \<lparr>pi_root = \<lambda>_. None, pi_cachedFrames = 0,
      pi_phm = phm_demo [] [] (replicate 8 0xFF @ replicate 9 0)\<rparr>) = Ok (64, st1)"
    "pi_reach \<lparr>ps_pi = st1, ps_refs = (\<lambda>_. 0)(64 := 1), ps_cache = {}\<rparr>" by (rule pi_demo_run)
  from pi_refcount [OF n(2), of 64] n(1) show ?thesis by auto
qed

text \<open>Dropping a reference never fails; the frame goes back to the allocator exactly when it was the
  last reference to a page that is not cached, and a page needs no copy before a write exactly
  when the writer has that last reference.\<close>
theorem pi_last_reference:
  assumes "pi_reach \<sigma>" and "0 < ps_refs \<sigma> f"
  shows "\<exists>st'. piDecref f (ps_pi \<sigma>) = Ok st' \<and>
    owned (pi_phm st') = (if ps_refs \<sigma> f = 1 \<and> f \<notin> ps_cache \<sigma> then owned (pi_phm (ps_pi \<sigma>)) - {f} else owned (pi_phm (ps_pi \<sigma>))) \<and>
    piNeedsCopyOnWrite f (ps_pi \<sigma>) = Ok (\<not> (ps_refs \<sigma> f = 1 \<and> f \<notin> ps_cache \<sigma>))"
proof -
  from pi_reach_ok [OF assms(1)] have ok: "pi_ok \<sigma>" .
  have "f \<in> pi_live \<sigma>" using assms(2) by (simp add: pi_live_def)
  with ok obtain v where v: "pi_get f (pi_root (ps_pi \<sigma>)) = Some v" "entry_ok v (ps_refs \<sigma> f) (f \<in> ps_cache \<sigma>)"
    "0 < f" "f \<in> owned (pi_phm (ps_pi \<sigma>))" by (rule pi_ok_entry)
  from fp.free_law [OF pi_okD(2) [OF ok] v(4)] v(3) obtain phm where "phmFreeFrame f (pi_phm (ps_pi \<sigma>)) = Ok phm" by auto
  with v(1) have "\<exists>st'. piDecref f (ps_pi \<sigma>) = Ok st'" by (simp add: piDecref_def pi_rmw_def)
  then obtain st' where d: "piDecref f (ps_pi \<sigma>) = Ok st'" by blast
  have "v AND 0xFFFFFFFF = 1 \<longleftrightarrow> ps_refs \<sigma> f = 1" using entry_count [OF v(2), of 1] entry_read(1) [OF v(2)] by auto
  moreover have "v AND PI_CACHE = 0 \<longleftrightarrow> f \<notin> ps_cache \<sigma>" using entry_read(2) [OF v(2)] by blast
  ultimately have "piNeedsCopyOnWrite f (ps_pi \<sigma>) = Ok (\<not> (ps_refs \<sigma> f = 1 \<and> f \<notin> ps_cache \<sigma>))"
    using v(1) by (simp add: piNeedsCopyOnWrite_def piGetInfo_def)
  with d pi_decref_ok [OF ok assms(2) d] show ?thesis by blast
qed

theorem pi_last_reference_witness:
  "\<exists>st1 st2. piNew 0 (piInit \<lparr>pi_root = \<lambda>_. None, pi_cachedFrames = 0,
      pi_phm = phm_demo [] [] (replicate 8 0xFF @ replicate 9 0)\<rparr>) = Ok (64, st1) \<and>
    piDecref 64 st1 = Ok st2 \<and> 64 \<notin> owned (pi_phm st2)"
proof -
  obtain st1 where n: "piNew 0 (piInit \<lparr>pi_root = \<lambda>_. None, pi_cachedFrames = 0,
      pi_phm = phm_demo [] [] (replicate 8 0xFF @ replicate 9 0)\<rparr>) = Ok (64, st1)"
    "pi_reach \<lparr>ps_pi = st1, ps_refs = (\<lambda>_. 0)(64 := 1), ps_cache = {}\<rparr>" by (rule pi_demo_run)
  from pi_last_reference [OF n(2), of 64] n(1) show ?thesis by auto
qed

end
