(* ===== verification/Gx_FileTree.thy ===== *)
theory Gx_FileTree
  imports Gx_PageInfo Gx_RangeLock
begin

text \<open>
  \<open>kernel/src/fs/ftree.c\<close>: the cached pages of a file, in a tree of thirteen levels of sixteen
  entries indexed by the nibbles of the file offset, and reading, writing, truncating and evicting
  through it.

  A node is the union of the source, read by its level: twelve levels of nodes and one of frame
  numbers. The functions a file system sets (\<open>load\<close>, \<open>flush\<close>, \<open>update\<close>, \<open>getpage\<close>) are fields of the
  tree as in the source, over the state \<open>ft_data\<close> behind them; \<open>None\<close> is \<open>NULL\<close>, a load that fails gives
  no page, and a flush gives its status, which the code ignores. The frames are those
  of \<open>Gx_PageInfo\<close>, with their contents; \<open>mapTempFrame\<close>, \<open>frameRead\<close> and \<open>frameWrite\<close> read and write
  these. A semaphore or mutex held for the whole of a call is the atomicity of the call, and
  \<open>NEW\<close> always returns a node. The list from \<open>ftFirst\<close> to \<open>ftLast\<close> is a list of trees.
\<close>

section \<open>State\<close>

abbreviation FT_ANON :: u32 where "FT_ANON \<equiv> 1"
abbreviation FT_READONLY :: u32 where "FT_READONLY \<equiv> 2"
abbreviation FT_FIXED_SIZE :: u32 where "FT_FIXED_SIZE \<equiv> 4"

type_synonym page = "u8 list"

abbreviation zero_page :: page where "zero_page \<equiv> replicate 4096 0"

datatype FileNode = Nodes "nat \<Rightarrow> FileNode option" | Entries "nat \<Rightarrow> nat"

record 'd FileTree =
  ft_refcount :: int
  ft_flags :: u32
  ft_data :: 'd
  ft_load :: "(u64 \<Rightarrow> 'd \<Rightarrow> page option) option"
  ft_flush :: "(u64 \<Rightarrow> page \<Rightarrow> 'd \<Rightarrow> int \<times> 'd) option"
  ft_update :: "(u64 \<Rightarrow> 'd \<Rightarrow> 'd) option"
  ft_getpage :: "(u64 \<Rightarrow> nat) option"
  ft_top :: FileNode
  ft_size :: u64
  ft_rlock :: RangeLock

record frames =
  fs_pi :: pageinfo
  fs_mem :: "nat \<Rightarrow> page"

definition ftCreate :: "u32 \<Rightarrow> 'd \<Rightarrow> RangeLock \<Rightarrow> 'd FileTree" where
  "ftCreate flags d rl = \<lparr>ft_refcount = 1, ft_flags = flags, ft_data = d, ft_load = None, ft_flush = None,
     ft_update = None, ft_getpage = None, ft_top = Nodes (\<lambda>_. None), ft_size = 0, ft_rlock = rlInit rl\<rparr>"

text \<open>\<open>ftCreate\<close> with the list: an anonymous tree is not on it.\<close>

definition ftCreate_listed :: "u32 \<Rightarrow> 'd \<Rightarrow> RangeLock \<Rightarrow> 'd FileTree list \<Rightarrow> 'd FileTree \<times> 'd FileTree list" where
  "ftCreate_listed flags d rl fts =
     (let ft = ftCreate flags d rl in (ft, if has flags FT_ANON then fts else fts @ [ft]))"

definition ftUp :: "'d FileTree \<Rightarrow> 'd FileTree" where
  "ftUp ft = ft\<lparr>ft_refcount := c_int (ft_refcount ft + 1)\<rparr>"

section \<open>The tree\<close>

text \<open>The index at \<open>n\<close> levels above the lowest one, of the descent of \<open>getPageUnlocked\<close> at \<open>i = 12 - n\<close>.\<close>

definition nib :: "nat \<Rightarrow> u64 \<Rightarrow> nat" where
  "nib n pos = unat (drop_bit (12 + 4 * n) pos AND 0xF)"

definition zero_node :: "nat \<Rightarrow> FileNode" where
  "zero_node n = (case n of 0 \<Rightarrow> Entries (\<lambda>_. 0) | Suc _ \<Rightarrow> Nodes (\<lambda>_. None))"

text \<open>The descent of \<open>ftTruncate\<close>, which stops at a missing node, and that of \<open>getPageUnlocked\<close>,
  which makes it; \<open>f\<close> is what is done to the entries at its end.\<close>

fun find_node :: "nat \<Rightarrow> u64 \<Rightarrow> FileNode \<Rightarrow> (nat \<Rightarrow> nat) option" where
  "find_node 0 pos (Entries e) = Some e"
| "find_node (Suc n) pos (Nodes b) =
     (case b (nib (Suc n) pos) of None \<Rightarrow> None | Some c \<Rightarrow> find_node n pos c)"
| "find_node _ pos _ = None"

fun with_leaf :: "nat \<Rightarrow> u64 \<Rightarrow> ((nat \<Rightarrow> nat) \<Rightarrow> nat \<Rightarrow> nat) \<Rightarrow> FileNode \<Rightarrow> FileNode" where
  "with_leaf 0 pos f (Entries e) = Entries (f e)"
| "with_leaf (Suc n) pos f (Nodes b) =
     Nodes (b(nib (Suc n) pos \<mapsto> with_leaf n pos f (node_or (zero_node n) (b (nib (Suc n) pos)))))"
| "with_leaf _ pos f node = node"

definition ent_of :: "FileNode \<Rightarrow> u64 \<Rightarrow> nat" where
  "ent_of root pos = (case find_node 12 pos root of None \<Rightarrow> 0 | Some e \<Rightarrow> e (nib 0 pos))"

definition set_ent :: "u64 \<Rightarrow> nat \<Rightarrow> FileNode \<Rightarrow> FileNode" where
  "set_ent pos f = with_leaf 12 pos (\<lambda>e. e(nib 0 pos := f))"

section \<open>Getting a page\<close>

definition page_mask :: u64 where "page_mask = NOT 0xFFF"

text \<open>The contents of a page that is not in memory.\<close>

definition load_page :: "'d FileTree \<Rightarrow> u64 \<Rightarrow> page option" where
  "load_page ft pos =
     (if \<not> has (ft_flags ft) FT_ANON then
        (case ft_load ft of None \<Rightarrow> None | Some load \<Rightarrow> load pos (ft_data ft))
      else Some zero_page)"

definition getPageUnlocked :: "'d FileTree \<Rightarrow> u64 \<Rightarrow> frames \<Rightarrow> (nat \<times> 'd FileTree \<times> frames) kres" where
  "getPageUnlocked ft pos st =
     (case ft_getpage ft of
        Some g \<Rightarrow> let frame = g (pos AND page_mask) in Ok (frame, ft, st\<lparr>fs_pi := piStaticFrame frame (fs_pi st)\<rparr>)
      | None \<Rightarrow>
          let ft = ft\<lparr>ft_top := with_leaf 12 pos (\<lambda>e. e) (ft_top ft)\<rparr> in
          if ent_of (ft_top ft) pos = 0 then
            (case load_page ft pos of
               None \<Rightarrow> Ok (0, ft, st)
             | Some pagebuf \<Rightarrow>
                 kbind (piNew PI_CACHE (fs_pi st)) (\<lambda>(frame, pi).
                   if frame = 0 then Ok (0, ft, st\<lparr>fs_pi := pi\<rparr>)
                   else Ok (frame, ft\<lparr>ft_top := set_ent pos frame (ft_top ft)\<rparr>,
                            \<lparr>fs_pi = pi, fs_mem = (fs_mem st)(frame := pagebuf)\<rparr>)))
          else
            let frame = ent_of (ft_top ft) pos
            in kbind (piIncref frame (fs_pi st)) (\<lambda>pi. Ok (frame, ft, st\<lparr>fs_pi := pi\<rparr>)))"

definition ftGetPage :: "'d FileTree \<Rightarrow> u64 \<Rightarrow> frames \<Rightarrow> (nat \<times> 'd FileTree \<times> frames) kres" where
  "ftGetPage ft pos st = getPageUnlocked ft pos st"

section \<open>Reading and writing\<close>

text \<open>The number of bytes a turn of the loops moves, and the offset in the page.\<close>

definition chunk :: "u64 \<Rightarrow> u64 \<Rightarrow> u64" where
  "chunk sz pos = (let maxReadable = 0x1000 - (pos AND 0xFFF) in if sz > maxReadable then maxReadable else sz)"

definition page_off :: "u64 \<Rightarrow> nat" where
  "page_off pos = unat (pos AND 0xFFF)"

definition page_put :: "nat \<Rightarrow> u8 list \<Rightarrow> page \<Rightarrow> page" where
  "page_put off bs p = take off p @ bs @ drop (off + length bs) p"

text \<open>What follows the \<open>memcpy\<close>: the page is marked and the reference dropped.\<close>

definition done_read :: "nat \<Rightarrow> pageinfo \<Rightarrow> pageinfo kres" where
  "done_read frame pi = kbind (piMarkAccessed frame pi) (piDecref frame)"

definition done_write :: "nat \<Rightarrow> pageinfo \<Rightarrow> pageinfo kres" where
  "done_write frame pi = kbind (piMarkAccessed frame pi) (\<lambda>pi. kbind (piMarkDirty frame pi) (piDecref frame))"

lemma chunk_pos: "sz \<noteq> 0 \<Longrightarrow> chunk sz pos \<noteq> 0 \<and> chunk sz pos \<le> sz"
proof -
  assume "sz \<noteq> 0"
  have "pos AND 0xFFF \<le> 0xFFF" by (rule word_and_le1)
  then have "0x1000 - (pos AND 0xFFF) \<noteq> 0" by auto
  with \<open>sz \<noteq> 0\<close> show ?thesis by (auto simp: chunk_def Let_def)
qed

lemma chunk_less: "sz \<noteq> 0 \<Longrightarrow> unat (sz - chunk sz pos) < unat sz"
  using chunk_pos [of sz pos] by (simp add: unat_sub word_le_nat_alt) (simp add: unat_eq_zero word_less_nat_alt unat_gt_0)

function read_loop :: "u64 \<Rightarrow> u64 \<Rightarrow> 'd FileTree \<Rightarrow> frames \<Rightarrow> (u8 list \<times> 'd FileTree \<times> frames) kres" where
  "read_loop sz pos ft st =
     (if sz = 0 then Ok ([], ft, st)
      else
        let sizeToRead = chunk sz pos
        in kbind (getPageUnlocked ft (pos AND page_mask) st) (\<lambda>(frame, ft, st).
             if frame = 0 then Ok ([], ft, st)
             else
               let bytes = take (unat sizeToRead) (drop (page_off pos) (fs_mem st frame))
               in kbind (done_read frame (fs_pi st)) (\<lambda>pi.
                    kbind (read_loop (sz - sizeToRead) (pos + sizeToRead) ft (st\<lparr>fs_pi := pi\<rparr>)) (\<lambda>(bs, ft, st).
                      Ok (bytes @ bs, ft, st)))))"
  by pat_completeness auto
termination by (relation "measure (\<lambda>(sz, _). unat sz)") (auto simp: chunk_less)

declare read_loop.simps [simp del]

definition ftRead :: "'d FileTree \<Rightarrow> u64 \<Rightarrow> u64 \<Rightarrow> frames \<Rightarrow> (u8 list \<times> 'd FileTree \<times> frames) kres" where
  "ftRead ft sz pos st =
     (if pos \<ge> ft_size ft then Ok ([], ft, st)
      else
        let sz = (if pos + sz \<ge> ft_size ft then ft_size ft - pos else sz)
        in read_loop sz pos ft st)"

text \<open>The loop of \<open>ftWrite\<close> returns the number of bytes written.\<close>

function write_loop :: "u8 list \<Rightarrow> u64 \<Rightarrow> u64 \<Rightarrow> 'd FileTree \<Rightarrow> frames \<Rightarrow> (u64 \<times> 'd FileTree \<times> frames) kres" where
  "write_loop scan sz pos ft st =
     (if sz = 0 then Ok (0, ft, st)
      else
        let sizeToWrite = chunk sz pos
        in kbind (getPageUnlocked ft (pos AND page_mask) st) (\<lambda>(frame, ft, st).
             if frame = 0 then Ok (0, ft, st)
             else
               let mem = (fs_mem st)(frame := page_put (page_off pos) (take (unat sizeToWrite) scan) (fs_mem st frame))
               in kbind (done_write frame (fs_pi st)) (\<lambda>pi.
                    kbind (write_loop (drop (unat sizeToWrite) scan) (sz - sizeToWrite) (pos + sizeToWrite) ft
                             \<lparr>fs_pi = pi, fs_mem = mem\<rparr>) (\<lambda>(n, ft, st).
                      Ok (sizeToWrite + n, ft, st)))))"
  by pat_completeness auto
termination by (relation "measure (\<lambda>(_, sz, _). unat sz)") (auto simp: chunk_less)

declare write_loop.simps [simp del]

definition ftWrite :: "'d FileTree \<Rightarrow> u8 list \<Rightarrow> u64 \<Rightarrow> u64 \<Rightarrow> frames \<Rightarrow> (u64 \<times> 'd FileTree \<times> frames) kres" where
  "ftWrite ft buffer sz pos st =
     (if pos + sz \<ge> ft_size ft then
        if \<not> has (ft_flags ft) FT_FIXED_SIZE then
          let ft = ft\<lparr>ft_size := pos + sz\<rparr>;
              ft = (case ft_update ft of None \<Rightarrow> ft | Some u \<Rightarrow> ft\<lparr>ft_data := u (ft_size ft) (ft_data ft)\<rparr>)
          in write_loop buffer sz pos ft st
        else if pos \<ge> ft_size ft then Ok (0, ft, st)
        else write_loop buffer (ft_size ft - pos) pos ft st
      else write_loop buffer sz pos ft st)"

section \<open>Truncating\<close>

text \<open>The loop of \<open>ftTruncate\<close>: \<open>None\<close> is a loop that does not end, as when \<open>pos\<close> wraps.\<close>

partial_function (option) trunc_loop :: "u64 \<Rightarrow> u64 \<Rightarrow> FileNode \<Rightarrow> pageinfo \<Rightarrow> (FileNode \<times> pageinfo) kres option" where
  "trunc_loop pos stop root pi =
     (if pos < stop then
        if ent_of root pos \<noteq> 0 then
          (case piUncache (ent_of root pos) pi of
             Panic \<Rightarrow> Some Panic
           | Ok pi \<Rightarrow> trunc_loop (pos + 0x1000) stop (set_ent pos 0 root) pi)
        else trunc_loop (pos + 0x1000) stop root pi
      else Some (Ok (root, pi)))"

definition trunc_zero :: "u64 \<Rightarrow> 'd FileTree \<Rightarrow> frames \<Rightarrow> ('d FileTree \<times> frames) kres" where
  "trunc_zero sz ft st =
     (if sz AND 0xFFF \<noteq> 0 then
        kbind (getPageUnlocked ft (sz AND page_mask) st) (\<lambda>(frame, ft, st).
          if frame \<noteq> 0 then
            let mem = (fs_mem st)(frame := page_put (page_off sz) (replicate (4096 - page_off sz) 0) (fs_mem st frame))
            in kbind (done_write frame (fs_pi st)) (\<lambda>pi. Ok (ft, \<lparr>fs_pi = pi, fs_mem = mem\<rparr>))
          else Ok (ft, st))
      else Ok (ft, st))"

definition ftTruncate :: "'d FileTree \<Rightarrow> u64 \<Rightarrow> frames \<Rightarrow> (int \<times> 'd FileTree \<times> frames) kres option" where
  "ftTruncate ft sz st =
     (if has (ft_flags ft) FT_FIXED_SIZE then Some (Ok (-1, ft, st))
      else if has (ft_flags ft) FT_READONLY then Some (Ok (-1, ft, st))
      else
        case (if sz < ft_size ft then trunc_loop ((sz + 0xFFF) AND page_mask) (ft_size ft) (ft_top ft) (fs_pi st)
              else Some (Ok (ft_top ft, fs_pi st))) of
          None \<Rightarrow> None
        | Some Panic \<Rightarrow> Some Panic
        | Some (Ok (root, pi)) \<Rightarrow>
            Some (kbind (trunc_zero sz (ft\<lparr>ft_top := root\<rparr>) (st\<lparr>fs_pi := pi\<rparr>)) (\<lambda>(ft, st).
              Ok (0, ft\<lparr>ft_size := sz\<rparr>, st))))"

section \<open>Flushing, releasing and evicting\<close>

text \<open>The status that \<open>flush\<close> returns is ignored, here and in \<open>tryFreeFrame\<close>.
  A \<open>for\<close> over the entries of a node that changes a state, and one that stops at the first find.\<close>

primrec for_each :: "(nat \<Rightarrow> 's \<Rightarrow> 's kres) \<Rightarrow> nat list \<Rightarrow> 's \<Rightarrow> 's kres" where
  "for_each f [] s = Ok s"
| "for_each f (i # is) s = kbind (f i s) (for_each f is)"

primrec first_found :: "(nat \<Rightarrow> 'r option kres) \<Rightarrow> nat list \<Rightarrow> 'r option kres" where
  "first_found f [] = Ok None"
| "first_found f (i # is) = kbind (f i) (\<lambda>r. case r of None \<Rightarrow> first_found f is | Some x \<Rightarrow> Ok (Some x))"

abbreviation sub_pos :: "u64 \<Rightarrow> nat \<Rightarrow> u64" where
  "sub_pos base i \<equiv> push_bit 4 base OR of_nat i"

definition flush_page :: "(u64 \<Rightarrow> page \<Rightarrow> 'd \<Rightarrow> int \<times> 'd) option \<Rightarrow> (nat \<Rightarrow> page) \<Rightarrow> u64 \<Rightarrow> nat \<Rightarrow> pageinfo \<times> 'd \<Rightarrow> (pageinfo \<times> 'd) kres" where
  "flush_page flush mem pos frame s =
     (case flush of
        None \<Rightarrow> Ok s
      | Some fl \<Rightarrow>
          if frame \<noteq> 0 then
            kbind (piCheckFlush frame (fst s)) (\<lambda>(dirty, pi).
              Ok (pi, if dirty then snd (fl (push_bit 12 pos) (mem frame) (snd s)) else snd s))
          else Ok s)"

fun flushTree :: "(u64 \<Rightarrow> page \<Rightarrow> 'd \<Rightarrow> int \<times> 'd) option \<Rightarrow> (nat \<Rightarrow> page) \<Rightarrow> nat \<Rightarrow> FileNode \<Rightarrow> u64 \<Rightarrow> pageinfo \<times> 'd \<Rightarrow> (pageinfo \<times> 'd) kres" where
  "flushTree flush mem 0 (Entries e) base s = for_each (\<lambda>i. flush_page flush mem (sub_pos base i) (e i)) [0..<16] s"
| "flushTree flush mem (Suc n) (Nodes b) base s =
     for_each (\<lambda>i s. case b i of None \<Rightarrow> Ok s | Some c \<Rightarrow> flushTree flush mem n c (sub_pos base i) s) [0..<16] s"
| "flushTree flush mem _ _ base s = Ok s"

definition ftFlush :: "'d FileTree \<Rightarrow> frames \<Rightarrow> ('d FileTree \<times> frames) kres" where
  "ftFlush ft st =
     kbind (flushTree (ft_flush ft) (fs_mem st) 12 (ft_top ft) 0 (fs_pi st, ft_data ft)) (\<lambda>(pi, d).
       Ok (ft\<lparr>ft_data := d\<rparr>, st\<lparr>fs_pi := pi\<rparr>))"

fun deleteTree :: "nat \<Rightarrow> FileNode \<Rightarrow> pageinfo \<Rightarrow> pageinfo kres" where
  "deleteTree 0 (Entries e) pi = for_each (\<lambda>i pi. if e i \<noteq> 0 then piUncache (e i) pi else Ok pi) [0..<16] pi"
| "deleteTree (Suc n) (Nodes b) pi =
     for_each (\<lambda>i pi. case b i of None \<Rightarrow> Ok pi | Some c \<Rightarrow> deleteTree n c pi) [0..<16] pi"
| "deleteTree _ _ pi = Ok pi"

text \<open>\<open>None\<close>: the tree was freed.\<close>

definition ftDown :: "'d FileTree \<Rightarrow> frames \<Rightarrow> ('d FileTree option \<times> frames) kres" where
  "ftDown ft st =
     (let ft = ft\<lparr>ft_refcount := c_int (ft_refcount ft - 1)\<rparr>
      in if ft_refcount ft = 0 then
           if has (ft_flags ft) FT_ANON then
             (if ft_getpage ft = None
              then kbind (deleteTree 12 (ft_top ft) (fs_pi st)) (\<lambda>pi. Ok (None, st\<lparr>fs_pi := pi\<rparr>))
              else Ok (None, st))
           else kbind (ftFlush ft st) (\<lambda>(ft, st). Ok (Some ft, st))
         else Ok (Some ft, st))"

definition ftUncache :: "'d FileTree \<Rightarrow> 'd FileTree" where
  "ftUncache ft = ft\<lparr>ft_load := None, ft_flush := None, ft_update := None, ft_flags := ft_flags ft OR FT_ANON\<rparr>"

text \<open>One page of a tree that nobody has a reference to: its frame, the node without it and the
  state of the file system after the flush.\<close>

definition try_entry :: "(u64 \<Rightarrow> page \<Rightarrow> 'd \<Rightarrow> int \<times> 'd) option \<Rightarrow> frames \<Rightarrow> 'd \<Rightarrow> u64 \<Rightarrow> nat \<Rightarrow> 'd option kres" where
  "try_entry flush st d pos frame =
     (if frame \<noteq> 0 then
        kbind (piGetInfo frame (fs_pi st)) (\<lambda>flags.
          if flags AND 0xFFFFFFFF = 0 then
            Ok (Some (if has flags PI_DIRTY then
                        (case flush of None \<Rightarrow> d | Some fl \<Rightarrow> snd (fl (push_bit 12 pos) (fs_mem st frame) d))
                      else d))
          else Ok None)
      else Ok None)"

fun try_node :: "(u64 \<Rightarrow> page \<Rightarrow> 'd \<Rightarrow> int \<times> 'd) option \<Rightarrow> frames \<Rightarrow> 'd \<Rightarrow> nat \<Rightarrow> FileNode \<Rightarrow> u64 \<Rightarrow> (nat \<times> FileNode \<times> 'd) option kres" where
  "try_node flush st d 0 (Entries e) base =
     first_found (\<lambda>i. kbind (try_entry flush st d (sub_pos base i) (e i)) (\<lambda>r.
       Ok (map_option (\<lambda>d. (e i, Entries (e(i := 0)), d)) r))) [0..<16]"
| "try_node flush st d (Suc n) (Nodes b) base =
     first_found (\<lambda>i. case b i of None \<Rightarrow> Ok None
       | Some c \<Rightarrow> kbind (try_node flush st d n c (sub_pos base i)) (\<lambda>r.
           Ok (map_option (\<lambda>(frame, c, d). (frame, Nodes (b(i \<mapsto> c)), d)) r))) [0..<16]"
| "try_node flush st d _ _ base = Ok None"

definition tryFreeFrame :: "'d FileTree \<Rightarrow> frames \<Rightarrow> (nat \<times> 'd FileTree \<times> frames) kres" where
  "tryFreeFrame ft st =
     kbind (try_node (ft_flush ft) st (ft_data ft) 12 (ft_top ft) 0) (\<lambda>r.
       case r of
         None \<Rightarrow> Ok (0, ft, st)
       | Some (frame, root, d) \<Rightarrow>
           Ok (frame, ft\<lparr>ft_top := root, ft_data := d\<rparr>,
               st\<lparr>fs_pi := (fs_pi st)\<lparr>pi_cachedFrames := pi_cachedFrames (fs_pi st) - 1\<rparr>\<rparr>))"

text \<open>\<open>ftGetFreePage\<close>: the tree that gave a page goes to the end of the list; \<open>missNow\<close> is
  \<open>sdMissNow\<close> of the thread, \<open>busy\<close> the flag \<open>currentlyInFreePage\<close>.\<close>

fun free_page_scan :: "'d FileTree list \<Rightarrow> frames \<Rightarrow> (nat \<times> 'd FileTree list \<times> frames) kres" where
  "free_page_scan [] st = Ok (0, [], st)"
| "free_page_scan (ft # fts) st =
     kbind (if ft_getpage ft = None then tryFreeFrame ft st else Ok (0, ft, st)) (\<lambda>(frame, ft, st).
       if frame \<noteq> 0 then Ok (frame, fts @ [ft], st)
       else kbind (free_page_scan fts st) (\<lambda>(frame, fts, st). Ok (frame, ft # fts, st)))"

definition ftGetFreePage_trees :: "bool \<Rightarrow> bool \<Rightarrow> 'd FileTree list \<Rightarrow> frames \<Rightarrow> (nat \<times> 'd FileTree list \<times> frames) kres" where
  "ftGetFreePage_trees missNow busy fts st =
     (if missNow then Ok (0, fts, st) else if busy then Ok (0, fts, st) else free_page_scan fts st)"

section \<open>Record locks\<close>

definition ftReleaseProcessLocks :: "nat option \<Rightarrow> u64 \<Rightarrow> 'd FileTree \<Rightarrow> kern \<Rightarrow> rl_out" where
  "ftReleaseProcessLocks cur closingPid ft k = rlReleaseKey cur closingPid (ft_rlock ft) k"

definition ftSetLock :: "nat option \<Rightarrow> u64 \<Rightarrow> nat \<Rightarrow> u64 \<Rightarrow> u64 \<Rightarrow> bool \<Rightarrow> nat \<Rightarrow> 'd FileTree \<Rightarrow> kern \<Rightarrow> rl_out" where
  "ftSetLock cur pid type start sz block rq ft k = rlSet cur type pid start sz block rq (ft_rlock ft) k"

definition ftGetLock :: "u64 \<Rightarrow> nat \<times> u64 \<times> u64 \<Rightarrow> 'd FileTree \<Rightarrow> (nat \<times> int \<times> u64 \<times> u64) option" where
  "ftGetLock pid q ft =
     (case q of (type, start, sz) \<Rightarrow>
        map_option (\<lambda>(type, key, start, sz). (type, c_int_of_u64 key, start, sz)) (rlGet (type, pid, start, sz) (ft_rlock ft)))"

section \<open>The tree is a map from pages to frames\<close>

definition same_page :: "u64 \<Rightarrow> u64 \<Rightarrow> bool" where
  "same_page p q \<longleftrightarrow> drop_bit 12 p = drop_bit 12 q"

lemma nib_eq_iff: "nib n p = nib n q \<longleftrightarrow> (\<forall>j < 4. bit p (12 + 4 * n + j) = bit q (12 + 4 * n + j))"
proof -
  have m: "(0xF :: u64) = mask 4" by (simp add: mask_eq_exp_minus_1)
  have "nib n p = nib n q \<longleftrightarrow> drop_bit (12 + 4 * n) p AND 0xF = drop_bit (12 + 4 * n) q AND 0xF"
    unfolding nib_def by (rule word_unat_eq_iff [symmetric])
  also have "\<dots> \<longleftrightarrow> (\<forall>j < 4. bit p (12 + 4 * n + j) = bit q (12 + 4 * n + j))" (is "?l \<longleftrightarrow> ?r")
  proof
    assume e: ?l
    show ?r
    proof (intro allI impI)
      fix j :: nat assume j: "j < 4"
      from e have "bit (drop_bit (12 + 4 * n) p AND 0xF) j = bit (drop_bit (12 + 4 * n) q AND 0xF) j" by simp
      with j show "bit p (12 + 4 * n + j) = bit q (12 + 4 * n + j)"
        unfolding m by (simp add: bit_and_iff bit_mask_iff bit_drop_bit_eq)
    qed
  next
    assume ?r
    then show ?l unfolding m by (intro bit_eqI) (auto simp: bit_and_iff bit_mask_iff bit_drop_bit_eq)
  qed
  finally show ?thesis .
qed

lemma same_page_bits: "same_page p q \<longleftrightarrow> (\<forall>k. bit p (12 + k) = bit q (12 + k))"
proof
  assume "same_page p q"
  then have "bit (drop_bit 12 p) k = bit (drop_bit 12 q) k" for k by (simp add: same_page_def)
  then show "\<forall>k. bit p (12 + k) = bit q (12 + k)" by (simp add: bit_drop_bit_eq)
next
  assume "\<forall>k. bit p (12 + k) = bit q (12 + k)"
  then show "same_page p q" unfolding same_page_def by (intro bit_eqI) (simp add: bit_drop_bit_eq)
qed

lemma same_page_nib: "same_page p q \<longleftrightarrow> (\<forall>n \<le> 12. nib n p = nib n q)"
proof
  assume "same_page p q"
  then have "bit p (12 + (4 * n + j)) = bit q (12 + (4 * n + j))" for n j unfolding same_page_bits by blast
  then show "\<forall>n \<le> 12. nib n p = nib n q" unfolding nib_eq_iff by (simp add: add.assoc)
next
  assume n: "\<forall>n \<le> 12. nib n p = nib n q"
  have "bit p (12 + k) = bit q (12 + k)" for k
  proof (cases "12 + k < 64")
    case True
    then have "k div 4 \<le> 12" by simp
    with n have "\<forall>j < 4. bit p (12 + 4 * (k div 4) + j) = bit q (12 + 4 * (k div 4) + j)" using nib_eq_iff by blast
    from this [rule_format, of "k mod 4"] show ?thesis by (simp add: add.assoc)
  next
    case False
    then have "\<not> bit x (12 + k)" for x :: u64 by (auto dest: bit_imp_le_length)
    then show ?thesis by simp
  qed
  then show "same_page p q" unfolding same_page_bits by blast
qed

lemma nib_less: "nib n p < 16"
proof -
  have "drop_bit (12 + 4 * n) p AND 0xF \<le> 0xF" by (rule word_and_le1)
  then show ?thesis by (simp add: nib_def word_le_nat_alt)
qed

fun shaped :: "nat \<Rightarrow> FileNode \<Rightarrow> bool" where
  "shaped 0 (Entries e) = True"
| "shaped (Suc n) (Nodes b) = (\<forall>i c. b i = Some c \<longrightarrow> shaped n c)"
| "shaped _ _ = False"

lemma shaped_zero [simp]: "shaped n (zero_node n)"
  by (cases n) (simp_all add: zero_node_def)

lemma shaped_node_or: "shaped (Suc n) (Nodes b) \<Longrightarrow> shaped n (node_or (zero_node n) (b i))"
  by (auto simp: node_or_def split: option.splits)

lemma shaped_with_leaf: "shaped n nd \<Longrightarrow> shaped n (with_leaf n p f nd)"
proof (induction n p f nd rule: with_leaf.induct)
  case (2 n pos f b)
  from 2(1) [OF shaped_node_or [OF 2(2)]] 2(2) show ?case by simp
qed simp_all

definition leaf_of :: "nat \<Rightarrow> u64 \<Rightarrow> FileNode \<Rightarrow> nat \<Rightarrow> nat" where
  "leaf_of n p nd = (case find_node n p nd of None \<Rightarrow> \<lambda>_. 0 | Some e \<Rightarrow> e)"

lemma leaf_of_simps [simp]:
  "leaf_of 0 p (Entries e) = e"
  "leaf_of (Suc n) p (Nodes b) = leaf_of n p (node_or (zero_node n) (b (nib (Suc n) p)))"
proof -
  have z: "leaf_of n p (zero_node n) = (\<lambda>_. 0)" by (cases n) (simp_all add: leaf_of_def zero_node_def)
  show "leaf_of (Suc n) p (Nodes b) = leaf_of n p (node_or (zero_node n) (b (nib (Suc n) p)))"
    using z by (auto simp: leaf_of_def node_or_def split: option.splits)
qed (simp add: leaf_of_def)

lemma leaf_with_leaf:
  "shaped n nd \<Longrightarrow> leaf_of n q (with_leaf n p f nd) =
     (if \<forall>i \<in> {1..n}. nib i q = nib i p then f (leaf_of n p nd) else leaf_of n q nd)"
proof (induction n p f nd rule: with_leaf.induct)
  case (2 n pos f b)
  have s: "{1..Suc n} = insert (Suc n) {1..n}" by auto
  from 2(1) [OF shaped_node_or [OF 2(2)]] show ?case unfolding s by (auto simp: node_or_def)
qed simp_all

lemma ent_of_leaf: "ent_of nd p = leaf_of 12 p nd (nib 0 p)"
  by (simp add: ent_of_def leaf_of_def split: option.splits)

lemma upto12: "(\<forall>n \<le> 12. P n) \<longleftrightarrow> P 0 \<and> (\<forall>i \<in> {1..12 :: nat}. P i)"
  by (metis One_nat_def atLeastAtMost_iff le0 not_less_eq_eq not0_implies_Suc Suc_le_mono le_SucI)

lemma find_node_path: "\<forall>i \<in> {1..n}. nib i q = nib i p \<Longrightarrow> find_node n q nd = find_node n p nd"
proof (induction n p nd rule: find_node.induct)
  case (2 n pos b)
  then have "nib (Suc n) q = nib (Suc n) pos" by simp
  with 2 show ?case by (auto split: option.splits)
qed simp_all

lemma leaf_of_path: "\<forall>i \<in> {1..n}. nib i q = nib i p \<Longrightarrow> leaf_of n q nd = leaf_of n p nd"
  unfolding leaf_of_def by (simp only: find_node_path)

lemma ent_set:
  assumes "shaped 12 nd"
  shows "ent_of (set_ent p f nd) q = (if same_page q p then f else ent_of nd q)"
proof (cases "\<forall>i \<in> {1..12}. nib i q = nib i p")
  case True
  then have "leaf_of 12 q nd = leaf_of 12 p nd" by (intro leaf_of_path) simp
  with True show ?thesis
    unfolding ent_of_leaf set_ent_def same_page_nib upto12 leaf_with_leaf [OF assms] by auto
next
  case False
  then show ?thesis unfolding ent_of_leaf set_ent_def same_page_nib upto12 leaf_with_leaf [OF assms] by auto
qed

lemma ent_make:
  assumes "shaped 12 nd"
  shows "ent_of (with_leaf 12 p (\<lambda>e. e) nd) q = ent_of nd q"
  unfolding ent_of_leaf leaf_with_leaf [OF assms] using leaf_of_path [of 12 q p nd] by auto

lemma ent_page: "same_page p q \<Longrightarrow> ent_of nd p = ent_of nd q"
  unfolding same_page_nib upto12 ent_of_leaf using leaf_of_path [of 12 p q nd] by simp

lemma shaped_set_ent: "shaped 12 nd \<Longrightarrow> shaped 12 (set_ent p f nd)"
  unfolding set_ent_def by (rule shaped_with_leaf)

section \<open>Frames and their marks\<close>

definition small_phm :: "physmem \<Rightarrow> bool" where
  "small_phm phm \<longleftrightarrow> pm_num phm + 8 < 2 ^ 36"

lemma free_list_num: "free_list fs st = Ok st' \<Longrightarrow> pm_num st' = pm_num st"
  by (induction fs arbitrary: st)
    (auto simp: kbind_Ok_iff phmFreeFrame_def phmClearFrame_def split: option.splits if_splits)

lemma phmFreeFrame_num: "phmFreeFrame f st = Ok st' \<Longrightarrow> pm_num st' = pm_num st"
  using free_list_num [of "[f]" st st'] by simp

lemma phmAllocSingle_num: "phmAllocSingle st = Ok (f, st') \<Longrightarrow> pm_num st' = pm_num st"
  by (auto simp: phmAllocSingle_def from_cache_def frameFromCache_def ftGetFreePage_def sdFreeMemory_def Let_def kbind_Ok_iff
      dest!: free_list_num split: option.splits if_splits list.splits)

lemma owned_small: "phm_ok phm \<Longrightarrow> small_phm phm \<Longrightarrow> f \<in> owned phm \<Longrightarrow> f < 2 ^ 36"
proof -
  assume ok: "phm_ok phm" and s: "small_phm phm" and f: "f \<in> owned phm"
  from ok obtain bm where bm: "pm_bitmap phm = Some bm" "length bm = pm_num phm div 8 + 1" by (rule phm_okE)
  with f have "f div 8 < pm_num phm div 8 + 1" by (simp add: owned_def phm_used_def used_def)
  then have "f < 8 * (pm_num phm div 8 + 1)" by (simp add: div_less_iff_less_mult mult.commute)
  also have "\<dots> \<le> pm_num phm + 8" by simp
  finally show "f < 2 ^ 36" using s by (simp add: small_phm_def)
qed

definition is_dirty :: "pageinfo \<Rightarrow> nat \<Rightarrow> bool" where
  "is_dirty pi f \<longleftrightarrow> (\<exists>v. pi_get f (pi_root pi) = Some v \<and> v AND PI_DIRTY \<noteq> 0)"

lemma entry_split:
  assumes "entry_ok v n c"
  obtains fl where "v = of_nat n OR fl" and "v = of_nat n + fl" and "fl AND 0xFFFFFFFF = 0" and "v AND PI_DIRTY = fl AND PI_DIRTY" and "n < 2 ^ 32"
proof -
  from assms obtain fl where fl: "n < 2 ^ 32" "v = of_nat n + fl" "fl AND 0xFFFFFFFF = 0"
    by (auto simp: entry_ok_def)
  have v: "v = of_nat n OR fl" using fl(2) sum_is_or [OF fl(1,3)] by simp
  have "v AND PI_DIRTY = fl AND PI_DIRTY" using of_nat_low(3) [OF fl(1)] by (simp add: v bit.conj_disj_distrib2)
  with v fl that show thesis by blast
qed

lemma entry_dirty_count:
  assumes "n < 2 ^ 32" and "m < 2 ^ 32" and "fl AND 0xFFFFFFFF = (0 :: u64)"
  shows "(of_nat n + fl) AND PI_DIRTY = (of_nat m + fl) AND PI_DIRTY"
  unfolding sum_is_or [OF assms(1,3)] sum_is_or [OF assms(2,3)]
  using of_nat_low(3) [OF assms(1)] of_nat_low(3) [OF assms(2)] by (simp add: bit.conj_disj_distrib2)

lemma entry_inc_dirty: "entry_ok v n c \<Longrightarrow> n + 1 < 2 ^ 32 \<Longrightarrow> (v + 1) AND PI_DIRTY = v AND PI_DIRTY"
  using entry_dirty_count [of n "n + 1"] by (auto simp: entry_ok_def algebra_simps)

lemma entry_dec_dirty: "entry_ok v n c \<Longrightarrow> 0 < n \<Longrightarrow> (v - 1) AND PI_DIRTY = v AND PI_DIRTY"
  using entry_dirty_count [of n "n - 1"] by (auto simp: entry_ok_def of_nat_diff algebra_simps)

lemma is_dirty_set:
  assumes "pi_root pi' = pi_set f v (pi_root pi)" and "f < 2 ^ 36" and "g < 2 ^ 36"
    and "g = f \<or> pi_get g (pi_root pi) \<noteq> None"
  shows "is_dirty pi' g \<longleftrightarrow> (if g = f then v AND PI_DIRTY \<noteq> 0 else is_dirty pi g)"
  using pi_get_set(1) [OF assms(2,3), of v "pi_root pi"] assms(1,4) by (auto simp: is_dirty_def)

text \<open>The system of holders between two calls, with the frames that fit the table of the pages.\<close>

definition sys_ok :: "pi_sys \<Rightarrow> bool" where
  "sys_ok \<sigma> \<longleftrightarrow> pi_ok \<sigma> \<and> small_phm (pi_phm (ps_pi \<sigma>))"

lemma sys_live_small: "sys_ok \<sigma> \<Longrightarrow> f \<in> pi_live \<sigma> \<Longrightarrow> f < 2 ^ 36 \<and> 0 < f \<and> pi_get f (pi_root (ps_pi \<sigma>)) \<noteq> None"
  unfolding sys_ok_def by (metis option.distinct(1) pi_ok_entry)

lemma sys_new:
  assumes "sys_ok \<sigma>" and "piNew PI_CACHE (ps_pi \<sigma>) = Ok (f, pi)"
  shows "f \<notin> pi_live \<sigma> \<and> f \<noteq> 0 \<and> \<not> is_dirty pi f \<and> (\<exists>\<sigma>'. ps_pi \<sigma>' = pi \<and> sys_ok \<sigma>' \<and>
    ps_refs \<sigma>' = (ps_refs \<sigma>)(f := 1) \<and> ps_cache \<sigma>' = insert f (ps_cache \<sigma>) \<and>
    (\<forall>g \<in> ps_cache \<sigma>. is_dirty pi g = is_dirty (ps_pi \<sigma>) g))"
proof -
  from assms(1) have ok: "pi_ok \<sigma>" and small: "small_phm (pi_phm (ps_pi \<sigma>))" by (simp_all add: sys_ok_def)
  note phm = pi_okD(2) [OF ok]
  have eq: "phmAllocFrame (pi_phm (ps_pi \<sigma>)) = phmAllocSingle (pi_phm (ps_pi \<sigma>))"
    using phm by (auto simp: phmAllocFrame_def phm_ok_def)
  from assms(2) obtain phm' where a: "phmAllocSingle (pi_phm (ps_pi \<sigma>)) = Ok (f, phm')"
    by (auto simp: piNew_def kbind_Ok_iff eq split: if_splits)
  from fp.alloc_law [OF phm a] have al: "f \<noteq> 0" "phm_ok phm'" "f \<in> owned phm'" by auto
  have small': "small_phm phm'" using small phmAllocSingle_num [OF a] by (simp add: small_phm_def)
  have f: "f < 2 ^ 36" by (rule owned_small [OF al(2) small' al(3)])
  have pi: "pi_phm pi = phm'" "pi_root pi = pi_set f (1 OR PI_CACHE) (pi_root (ps_pi \<sigma>))"
    using assms(2) a al(1) by (auto simp: piNew_def kbind_Ok_iff eq split: if_splits)
  let ?s = "\<lparr>ps_pi = pi, ps_refs = (ps_refs \<sigma>)(f := 1), ps_cache = insert f (ps_cache \<sigma>)\<rparr>"
  from pi_new_ok [OF ok assms(2) _ f] have n: "f \<notin> pi_live \<sigma>" "pi_ok ?s" by simp_all
  have d: "is_dirty pi g \<longleftrightarrow> (if g = f then False else is_dirty (ps_pi \<sigma>) g)" if "g = f \<or> g \<in> ps_cache \<sigma>" for g
  proof -
    have g: "g < 2 ^ 36" "g = f \<or> pi_get g (pi_root (ps_pi \<sigma>)) \<noteq> None"
      using that f sys_live_small [OF assms(1), of g] by (auto simp: pi_live_def)
    from is_dirty_set [OF pi(2) f g] show ?thesis by simp
  qed
  have "is_dirty pi g = is_dirty (ps_pi \<sigma>) g" if "g \<in> ps_cache \<sigma>" for g
    using d [of g] n(1) that by (auto simp: pi_live_def)
  moreover have "sys_ok ?s" using n small' pi(1) by (simp add: sys_ok_def)
  ultimately show ?thesis using n(1) al(1) d [of f] by (intro conjI exI [of _ ?s]) simp_all
qed

lemma flag_dirty:
  "(v OR PI_ACCESSED) AND PI_DIRTY = v AND PI_DIRTY" "(v OR PI_DIRTY) AND PI_DIRTY \<noteq> 0"
  by (simp_all add: bit.conj_disj_distrib2)

text \<open>What a step on the entry of the cached frame \<open>f\<close> does to the marks of the cached frames.\<close>

lemma dirty_step:
  assumes "sys_ok \<sigma>" and "f \<in> pi_live \<sigma>" and "pi_get f (pi_root (ps_pi \<sigma>)) = Some v"
    and "pi_root pi = pi_set f w (pi_root (ps_pi \<sigma>))" and "g \<in> pi_live \<sigma>"
  shows "is_dirty pi g \<longleftrightarrow> (if g = f then w AND PI_DIRTY \<noteq> 0 else is_dirty (ps_pi \<sigma>) g)"
  using sys_live_small [OF assms(1,2)] sys_live_small [OF assms(1,5)] by (intro is_dirty_set [OF assms(4)]) simp_all

definition sys_next :: "pi_sys \<Rightarrow> pageinfo \<Rightarrow> (nat \<Rightarrow> nat) \<Rightarrow> (nat \<Rightarrow> bool) \<Rightarrow> pi_sys \<Rightarrow> bool" where
  "sys_next \<sigma> pi r dirty \<sigma>' \<longleftrightarrow> ps_pi \<sigma>' = pi \<and> sys_ok \<sigma>' \<and> ps_refs \<sigma>' = r \<and> ps_cache \<sigma>' = ps_cache \<sigma> \<and>
     (\<forall>g \<in> ps_cache \<sigma>. is_dirty pi g = dirty g)"

lemma sys_nextI:
  assumes "sys_ok \<lparr>ps_pi = pi, ps_refs = r, ps_cache = ps_cache \<sigma>\<rparr>" and "\<And>g. g \<in> ps_cache \<sigma> \<Longrightarrow> is_dirty pi g = dirty g"
  shows "\<exists>\<sigma>'. sys_next \<sigma> pi r dirty \<sigma>'"
  using assms by (intro exI [of _ "\<lparr>ps_pi = pi, ps_refs = r, ps_cache = ps_cache \<sigma>\<rparr>"]) (simp add: sys_next_def)

lemma sys_incref:
  assumes "sys_ok \<sigma>" and "f \<in> ps_cache \<sigma>" and "ps_refs \<sigma> f + 1 < 2 ^ 32" and "piIncref f (ps_pi \<sigma>) = Ok pi"
  shows "\<exists>\<sigma>'. sys_next \<sigma> pi ((ps_refs \<sigma>)(f := ps_refs \<sigma> f + 1)) (is_dirty (ps_pi \<sigma>)) \<sigma>'"
proof -
  have l: "f \<in> pi_live \<sigma>" using assms(2) by (simp add: pi_live_def)
  have ok: "pi_ok \<sigma>" using assms(1) by (simp add: sys_ok_def)
  from ok l obtain v where v: "pi_get f (pi_root (ps_pi \<sigma>)) = Some v" "entry_ok v (ps_refs \<sigma> f) (f \<in> ps_cache \<sigma>)"
    by (rule pi_ok_entry)
  have pi: "pi_root pi = pi_set f (v + 1) (pi_root (ps_pi \<sigma>))" "pi_phm pi = pi_phm (ps_pi \<sigma>)"
    using assms(4) v(1) by (auto simp: piIncref_def kbind_Ok_iff rmw_Ok split: if_splits)
  show ?thesis
  proof (rule sys_nextI)
    show "is_dirty pi g = is_dirty (ps_pi \<sigma>) g" if "g \<in> ps_cache \<sigma>" for g
      using dirty_step [OF assms(1) l v(1) pi(1), of g] entry_inc_dirty [OF v(2) assms(3)] v(1) that
      by (auto simp: pi_live_def is_dirty_def)
    show "sys_ok \<lparr>ps_pi = pi, ps_refs = (ps_refs \<sigma>)(f := ps_refs \<sigma> f + 1), ps_cache = ps_cache \<sigma>\<rparr>"
      using pi_incref_ok [OF ok l assms(3,4)] assms(1) pi(2) by (cases \<sigma>) (simp add: sys_ok_def)
  qed
qed

lemma sys_flag:
  assumes "sys_ok \<sigma>" and "f \<in> ps_cache \<sigma>" and "pi_rmw f h (ps_pi \<sigma>) = Ok (v, pi)" and "\<And>v n c. entry_ok v n c \<Longrightarrow> entry_ok (h v) n c"
  shows "\<exists>\<sigma>'. sys_next \<sigma> pi (ps_refs \<sigma>) (\<lambda>g. if g = f then h v AND PI_DIRTY \<noteq> 0 else is_dirty (ps_pi \<sigma>) g) \<sigma>'"
    and "is_dirty (ps_pi \<sigma>) f \<longleftrightarrow> v AND PI_DIRTY \<noteq> 0"
proof -
  have l: "f \<in> pi_live \<sigma>" using assms(2) by (simp add: pi_live_def)
  have ok: "pi_ok \<sigma>" using assms(1) by (simp add: sys_ok_def)
  from assms(3) have v: "pi_get f (pi_root (ps_pi \<sigma>)) = Some v" "pi_root pi = pi_set f (h v) (pi_root (ps_pi \<sigma>))"
    "pi_phm pi = pi_phm (ps_pi \<sigma>)" by (auto simp: rmw_Ok)
  show "is_dirty (ps_pi \<sigma>) f \<longleftrightarrow> v AND PI_DIRTY \<noteq> 0" using v(1) by (simp add: is_dirty_def)
  show "\<exists>\<sigma>'. sys_next \<sigma> pi (ps_refs \<sigma>) (\<lambda>g. if g = f then h v AND PI_DIRTY \<noteq> 0 else is_dirty (ps_pi \<sigma>) g) \<sigma>'"
  proof (rule sys_nextI)
    show "sys_ok \<lparr>ps_pi = pi, ps_refs = ps_refs \<sigma>, ps_cache = ps_cache \<sigma>\<rparr>"
      using pi_flag_ok [OF ok l assms(3,4)] assms(1) v(3) by (cases \<sigma>) (simp add: sys_ok_def)
    show "is_dirty pi g = (if g = f then h v AND PI_DIRTY \<noteq> 0 else is_dirty (ps_pi \<sigma>) g)" if "g \<in> ps_cache \<sigma>" for g
      using dirty_step [OF assms(1) l v(1,2), of g] that by (simp add: pi_live_def)
  qed
qed

lemma sys_decref:
  assumes "sys_ok \<sigma>" and "f \<in> ps_cache \<sigma>" and "0 < ps_refs \<sigma> f" and "piDecref f (ps_pi \<sigma>) = Ok pi"
  shows "\<exists>\<sigma>'. sys_next \<sigma> pi ((ps_refs \<sigma>)(f := ps_refs \<sigma> f - 1)) (is_dirty (ps_pi \<sigma>)) \<sigma>'"
proof -
  have l: "f \<in> pi_live \<sigma>" using assms(2) by (simp add: pi_live_def)
  have ok: "pi_ok \<sigma>" using assms(1) by (simp add: sys_ok_def)
  from ok l obtain v where v: "pi_get f (pi_root (ps_pi \<sigma>)) = Some v" "entry_ok v (ps_refs \<sigma> f) (f \<in> ps_cache \<sigma>)"
    by (rule pi_ok_entry)
  have c: "(v - 1) AND PI_CACHE \<noteq> 0" using entry_read(2) [OF entry_dec [OF v(2) assms(3)]] assms(2) by blast
  have pi: "pi_root pi = pi_set f (v - 1) (pi_root (ps_pi \<sigma>))" "pi_phm pi = pi_phm (ps_pi \<sigma>)"
    using assms(4) v(1) c by (auto simp: piDecref_def kbind_Ok_iff rmw_Ok split: if_splits)
  show ?thesis
  proof (rule sys_nextI)
    show "is_dirty pi g = is_dirty (ps_pi \<sigma>) g" if "g \<in> ps_cache \<sigma>" for g
      using dirty_step [OF assms(1) l v(1) pi(1), of g] entry_dec_dirty [OF v(2) assms(3)] v(1) that
      by (auto simp: pi_live_def is_dirty_def)
    show "sys_ok \<lparr>ps_pi = pi, ps_refs = (ps_refs \<sigma>)(f := ps_refs \<sigma> f - 1), ps_cache = ps_cache \<sigma>\<rparr>"
      using pi_decref_ok [OF ok assms(3,4)] assms(1) pi(2) by (cases \<sigma>) (simp add: sys_ok_def)
  qed
qed

lemma sys_nextD:
  assumes "sys_next \<sigma> pi r dirty \<sigma>'"
  shows "ps_pi \<sigma>' = pi" and "sys_ok \<sigma>'" and "ps_refs \<sigma>' = r" and "ps_cache \<sigma>' = ps_cache \<sigma>"
    and "g \<in> ps_cache \<sigma> \<Longrightarrow> is_dirty pi g = dirty g"
  using assms by (simp_all add: sys_next_def)

lemma sys_next_trans:
  assumes "sys_next \<sigma> pi1 r1 d1 \<sigma>1" and "sys_next \<sigma>1 pi2 r2 d2 \<sigma>2" and "\<And>g. g \<in> ps_cache \<sigma> \<Longrightarrow> d2 g = d3 g"
  shows "sys_next \<sigma> pi2 r2 d3 \<sigma>2"
  using assms by (simp add: sys_next_def)

lemma sys_next_refs: "sys_next \<sigma> pi r d \<sigma>' \<Longrightarrow> r = r' \<Longrightarrow> sys_next \<sigma> pi r' d \<sigma>'"
  by simp

lemma entry_accessed: "entry_ok v n c \<Longrightarrow> entry_ok (v OR PI_ACCESSED) n c"
  and entry_dirty: "entry_ok v n c \<Longrightarrow> entry_ok (v OR PI_DIRTY) n c"
  and entry_clean: "entry_ok v n c \<Longrightarrow> entry_ok (v AND NOT PI_DIRTY) n c"
  by (rule entry_flag, assumption, simp)+

lemma sys_accessed:
  assumes "sys_ok \<sigma>" and "f \<in> ps_cache \<sigma>" and "piMarkAccessed f (ps_pi \<sigma>) = Ok pi"
  shows "\<exists>\<sigma>'. sys_next \<sigma> pi (ps_refs \<sigma>) (is_dirty (ps_pi \<sigma>)) \<sigma>'"
proof -
  from assms(3) obtain v where s: "pi_rmw f (\<lambda>v. v OR PI_ACCESSED) (ps_pi \<sigma>) = Ok (v, pi)"
    by (auto simp: piMarkAccessed_def kbind_Ok_iff)
  note f = sys_flag [OF assms(1,2) s entry_accessed]
  from f(1) obtain \<sigma>' where "sys_next \<sigma> pi (ps_refs \<sigma>) (\<lambda>g. if g = f then (v OR PI_ACCESSED) AND PI_DIRTY \<noteq> 0
    else is_dirty (ps_pi \<sigma>) g) \<sigma>'" by blast
  moreover have "(\<lambda>g. if g = f then (v OR PI_ACCESSED) AND PI_DIRTY \<noteq> 0 else is_dirty (ps_pi \<sigma>) g) = is_dirty (ps_pi \<sigma>)"
    using f(2) flag_dirty(1) [of v] by auto
  ultimately show ?thesis by auto
qed

lemma sys_dirty:
  assumes "sys_ok \<sigma>" and "f \<in> ps_cache \<sigma>" and "piMarkDirty f (ps_pi \<sigma>) = Ok pi"
  shows "\<exists>\<sigma>'. sys_next \<sigma> pi (ps_refs \<sigma>) (\<lambda>g. g = f \<or> is_dirty (ps_pi \<sigma>) g) \<sigma>'"
proof -
  from assms(3) obtain v where s: "pi_rmw f (\<lambda>v. v OR PI_DIRTY) (ps_pi \<sigma>) = Ok (v, pi)"
    by (auto simp: piMarkDirty_def kbind_Ok_iff)
  from sys_flag(1) [OF assms(1,2) s entry_dirty]
  obtain \<sigma>' where "sys_next \<sigma> pi (ps_refs \<sigma>) (\<lambda>g. if g = f then (v OR PI_DIRTY) AND PI_DIRTY \<noteq> 0
    else is_dirty (ps_pi \<sigma>) g) \<sigma>'" by blast
  moreover have "(\<lambda>g. if g = f then (v OR PI_DIRTY) AND PI_DIRTY \<noteq> 0 else is_dirty (ps_pi \<sigma>) g) = (\<lambda>g. g = f \<or> is_dirty (ps_pi \<sigma>) g)"
    using flag_dirty(2) [of v] by auto
  ultimately show ?thesis by auto
qed

lemma sys_done_read:
  assumes "sys_ok \<sigma>" and "f \<in> ps_cache \<sigma>" and "0 < ps_refs \<sigma> f" and "done_read f (ps_pi \<sigma>) = Ok pi"
  shows "\<exists>\<sigma>'. sys_next \<sigma> pi ((ps_refs \<sigma>)(f := ps_refs \<sigma> f - 1)) (is_dirty (ps_pi \<sigma>)) \<sigma>'"
proof -
  from assms(4) obtain pi1 where s: "piMarkAccessed f (ps_pi \<sigma>) = Ok pi1" "piDecref f pi1 = Ok pi"
    by (auto simp: done_read_def kbind_Ok_iff)
  from sys_accessed [OF assms(1,2) s(1)] obtain \<sigma>1 where 1: "sys_next \<sigma> pi1 (ps_refs \<sigma>) (is_dirty (ps_pi \<sigma>)) \<sigma>1" by blast
  note n = sys_nextD [OF 1]
  from sys_decref [OF n(2), of f pi] obtain \<sigma>2 where
    2: "sys_next \<sigma>1 pi ((ps_refs \<sigma>)(f := ps_refs \<sigma> f - 1)) (is_dirty (ps_pi \<sigma>1)) \<sigma>2"
    using n(1,3,4) assms s(2) by auto
  have "sys_next \<sigma> pi ((ps_refs \<sigma>)(f := ps_refs \<sigma> f - 1)) (is_dirty (ps_pi \<sigma>)) \<sigma>2"
    by (rule sys_next_trans [OF 1 2]) (simp add: n(1,5))
  then show ?thesis by blast
qed

lemma sys_done_write:
  assumes "sys_ok \<sigma>" and "f \<in> ps_cache \<sigma>" and "0 < ps_refs \<sigma> f" and "done_write f (ps_pi \<sigma>) = Ok pi"
  shows "\<exists>\<sigma>'. sys_next \<sigma> pi ((ps_refs \<sigma>)(f := ps_refs \<sigma> f - 1)) (\<lambda>g. g = f \<or> is_dirty (ps_pi \<sigma>) g) \<sigma>'"
proof -
  from assms(4) obtain pi1 pi2 where s: "piMarkAccessed f (ps_pi \<sigma>) = Ok pi1" "piMarkDirty f pi1 = Ok pi2" "piDecref f pi2 = Ok pi"
    by (auto simp: done_write_def kbind_Ok_iff)
  from sys_accessed [OF assms(1,2) s(1)] obtain \<sigma>1 where 1: "sys_next \<sigma> pi1 (ps_refs \<sigma>) (is_dirty (ps_pi \<sigma>)) \<sigma>1" by blast
  note n = sys_nextD [OF 1]
  from sys_dirty [OF n(2), of f pi2] obtain \<sigma>2 where
    2: "sys_next \<sigma>1 pi2 (ps_refs \<sigma>) (\<lambda>g. g = f \<or> is_dirty (ps_pi \<sigma>1) g) \<sigma>2"
    using n(1,3,4) assms s(2) by auto
  have 3: "sys_next \<sigma> pi2 (ps_refs \<sigma>) (\<lambda>g. g = f \<or> is_dirty (ps_pi \<sigma>) g) \<sigma>2"
    by (rule sys_next_trans [OF 1 2]) (simp add: n(1,5))
  note n = sys_nextD [OF 3]
  from sys_decref [OF n(2), of f pi] obtain \<sigma>3 where
    4: "sys_next \<sigma>2 pi ((ps_refs \<sigma>)(f := ps_refs \<sigma> f - 1)) (is_dirty (ps_pi \<sigma>2)) \<sigma>3"
    using n(1,3,4) assms s(3) by auto
  have "sys_next \<sigma> pi ((ps_refs \<sigma>)(f := ps_refs \<sigma> f - 1)) (\<lambda>g. g = f \<or> is_dirty (ps_pi \<sigma>) g) \<sigma>3"
    by (rule sys_next_trans [OF 3 4]) (simp add: n(1,5))
  then show ?thesis by blast
qed

section \<open>Pages\<close>

abbreviation align :: "u64 \<Rightarrow> u64" where
  "align p \<equiv> p AND page_mask"

lemma page_off_mod: "page_off p = unat p mod 4096"
proof -
  have "p AND 0xFFF = take_bit 12 p" by (simp add: take_bit_eq_mask mask_eq_exp_minus_1)
  then show ?thesis by (simp add: page_off_def take_bit_eq_mod unat_mod)
qed

lemma unat_align: "unat (align p) = unat p - unat p mod 4096"
proof -
  have "(p AND m) + (p AND NOT m) = p" for m
  proof -
    have "(p AND m) AND (p AND NOT m) = 0" by (rule bit_eqI) (auto simp: bit_and_iff bit_not_iff)
    then have "(p AND m) + (p AND NOT m) = (p AND m) OR (p AND NOT m)" by (rule disjunctive_add_eq_or)
    then show ?thesis by (simp flip: bit.conj_disj_distrib)
  qed
  from this [of "0xFFF"] have "(p AND 0xFFF) + align p = p" by (simp only: page_mask_def)
  then have "align p = p - (p AND 0xFFF)" by (metis add_diff_cancel_left')
  moreover have "p AND 0xFFF \<le> p" by (rule word_and_le2)
  ultimately show ?thesis using page_off_mod [of p] by (simp add: unat_sub page_off_def)
qed

lemma align_add: "unat (align p) + page_off p = unat p"
  by (simp add: unat_align page_off_mod)

lemma page_mask_bit: "bit page_mask n \<longleftrightarrow> 12 \<le> n \<and> n < 64"
proof -
  have m: "(0xFFF :: u64) = mask 12" by (simp add: mask_eq_exp_minus_1)
  show ?thesis unfolding page_mask_def m by (auto simp: bit_not_iff bit_mask_iff)
qed

lemma align_same: "same_page (align p) q = same_page p q" "same_page q (align p) = same_page q p"
proof -
  have "bit (align p) (12 + k) = bit p (12 + k)" for k
    by (auto simp: bit_and_iff page_mask_bit dest: bit_imp_le_length)
  then show "same_page (align p) q = same_page p q" "same_page q (align p) = same_page q p"
    by (auto simp: same_page_bits)
qed

lemma same_page_sym: "same_page p q = same_page q p"
  by (auto simp: same_page_def)

lemma same_page_align: "same_page p q \<longleftrightarrow> align p = align q"
proof
  assume s: "same_page p q"
  show "align p = align q"
  proof (rule bit_eqI)
    fix n :: nat
    show "bit (align p) n = bit (align q) n"
    proof (cases "n < 12")
      case False
      then have "bit p n = bit q n" using s [unfolded same_page_bits, rule_format, of "n - 12"] by simp
      then show ?thesis by (simp add: bit_and_iff)
    qed (simp add: bit_and_iff page_mask_bit)
  qed
next
  assume "align p = align q"
  then show "same_page p q" using align_same(1) [of p q] align_same(1) [of q q] by (simp add: same_page_def)
qed

lemma align_align [simp]: "align (align p) = align p"
  by (simp add: and.assoc)

abbreviation ent :: "'d FileTree \<Rightarrow> u64 \<Rightarrow> nat" where
  "ent ft p \<equiv> ent_of (ft_top ft) p"

lemma ent_align [simp]: "ent_of nd (align p) = ent_of nd p"
  by (rule ent_page) (simp only: align_same, simp add: same_page_def)

definition ft_page :: "'d FileTree \<Rightarrow> (nat \<Rightarrow> page) \<Rightarrow> u64 \<Rightarrow> page option" where
  "ft_page ft mem p = (if ent ft p \<noteq> 0 then Some (mem (ent ft p)) else load_page ft (align p))"

text \<open>
  What the functions of a file system do according to \<open>ftree.h\<close>: pages have the size of a page,
  what was flushed with status 0 is what is loaded, and a resize leaves the pages alone. A tree that is
  not anonymous has the functions to load and to flush pages. That no flush fails is a condition of its
  own: a page whose flush failed is marked clean (\<open>flush_fails\<close>), and an eviction then loses it.
\<close>

definition driver_doc :: "'d FileTree \<Rightarrow> bool" where
  "driver_doc ft \<longleftrightarrow>
     (has (ft_flags ft) FT_ANON \<or> ft_load ft \<noteq> None \<and> ft_flush ft \<noteq> None) \<and>
     (\<forall>load p d b. ft_load ft = Some load \<longrightarrow> load p d = Some b \<longrightarrow> length b = 4096) \<and>
     (\<forall>load flush p q d b. ft_load ft = Some load \<longrightarrow> ft_flush ft = Some flush \<longrightarrow> length b = 4096 \<longrightarrow>
        fst (flush p b d) = 0 \<longrightarrow> load q (snd (flush p b d)) = (if q = p then Some b else load q d)) \<and>
     (\<forall>load update p d sz. ft_load ft = Some load \<longrightarrow> ft_update ft = Some update \<longrightarrow> load p (update sz d) = load p d)"

definition flush_sure :: "'d FileTree \<Rightarrow> bool" where
  "flush_sure ft \<longleftrightarrow> (\<forall>flush p b d. ft_flush ft = Some flush \<longrightarrow> fst (flush p b d) = 0)"

definition driver_ok :: "'d FileTree \<Rightarrow> bool" where
  "driver_ok ft \<longleftrightarrow> driver_doc ft \<and> flush_sure ft"

lemmas driver_defs = driver_ok_def driver_doc_def flush_sure_def

definition ft_inv :: "'d FileTree \<Rightarrow> pi_sys \<Rightarrow> (nat \<Rightarrow> page) \<Rightarrow> bool" where
  "ft_inv ft \<sigma> mem \<longleftrightarrow> sys_ok \<sigma> \<and> ft_getpage ft = None \<and> shaped 12 (ft_top ft) \<and> driver_ok ft \<and>
     (\<forall>p. ent ft p \<noteq> 0 \<longrightarrow> ent ft p \<in> ps_cache \<sigma> \<and> length (mem (ent ft p)) = 4096 \<and>
        (has (ft_flags ft) FT_ANON \<or> is_dirty (ps_pi \<sigma>) (ent ft p) \<or> load_page ft (align p) = Some (mem (ent ft p)))) \<and>
     (\<forall>p q. ent ft p \<noteq> 0 \<longrightarrow> ent ft p = ent ft q \<longrightarrow> same_page p q)"

text \<open>What the operations on pages leave as it is.\<close>

definition same_meta :: "'d FileTree \<Rightarrow> 'd FileTree \<Rightarrow> bool" where
  "same_meta ft ft' \<longleftrightarrow> ft' = ft\<lparr>ft_top := ft_top ft'\<rparr>"

lemma same_meta_refl [simp]: "same_meta ft ft"
  by (simp add: same_meta_def)

lemma same_meta_trans [trans]: "same_meta a b \<Longrightarrow> same_meta b c \<Longrightarrow> same_meta a c"
proof -
  assume 1: "same_meta a b" and 2: "same_meta b c"
  have "b\<lparr>ft_top := x\<rparr> = a\<lparr>ft_top := x\<rparr>" for x by (subst 1 [unfolded same_meta_def]) simp
  with 2 show "same_meta a c" by (simp add: same_meta_def)
qed

lemma same_meta_top [simp]: "same_meta ft (ft\<lparr>ft_top := r\<rparr>)"
  by (simp add: same_meta_def)

lemma load_page_top [simp]: "load_page (ft\<lparr>ft_top := r\<rparr>) p = load_page ft p" "driver_ok (ft\<lparr>ft_top := r\<rparr>) = driver_ok ft"
  by (simp_all add: load_page_def driver_defs split: option.split)

lemma load_page_len: "driver_ok ft \<Longrightarrow> load_page ft p = Some b \<Longrightarrow> length b = 4096"
  by (auto simp: driver_defs load_page_def split: if_splits option.splits)

lemma ft_inv_page_len: "ft_inv ft \<sigma> mem \<Longrightarrow> ft_page ft mem p = Some b \<Longrightarrow> length b = 4096"
  using load_page_len by (auto simp: ft_inv_def ft_page_def split: if_splits)

lemma ft_inv_next:
  assumes "ft_inv ft \<sigma> mem" and "sys_next \<sigma> pi r d \<sigma>'" and "\<And>g. g \<in> ps_cache \<sigma> \<Longrightarrow> is_dirty (ps_pi \<sigma>) g \<Longrightarrow> d g"
  shows "ft_inv ft \<sigma>' mem"
  using assms unfolding ft_inv_def sys_next_def by metis

lemma getPageUnlocked_spec:
  assumes inv: "ft_inv ft \<sigma> mem" and refs: "\<forall>f. ps_refs \<sigma> f < 2 ^ 31" and al: "align pos = pos"
    and run: "getPageUnlocked ft pos \<lparr>fs_pi = ps_pi \<sigma>, fs_mem = mem\<rparr> = Ok (frame, ft', st')"
  shows "\<exists>\<sigma>'. fs_pi st' = ps_pi \<sigma>' \<and> ft_inv ft' \<sigma>' (fs_mem st') \<and> same_meta ft ft' \<and>
    (\<forall>p. ft_page ft' (fs_mem st') p = ft_page ft mem p) \<and>
    (if frame = 0 then ft_page ft mem pos = None \<and> ps_refs \<sigma>' = ps_refs \<sigma>
     else ent ft' pos = frame \<and> frame \<in> ps_cache \<sigma>' \<and> ps_refs \<sigma>' = (ps_refs \<sigma>)(frame := ps_refs \<sigma> frame + 1))"
proof -
  let ?ft = "ft\<lparr>ft_top := with_leaf 12 pos (\<lambda>e. e) (ft_top ft)\<rparr>"
  from inv have sh: "shaped 12 (ft_top ft)" and g: "ft_getpage ft = None" and ok: "sys_ok \<sigma>" by (simp_all add: ft_inv_def)
  note e = ent_make [OF sh, of pos]
  have sh1: "shaped 12 (ft_top ?ft)" using shaped_with_leaf [OF sh] by simp
  have inv1: "ft_inv ?ft \<sigma> mem" using inv shaped_with_leaf [OF sh, of pos "\<lambda>e. e"] by (simp add: ft_inv_def e)
  have pg: "ft_page ?ft mem p = ft_page ft mem p" for p by (simp add: ft_page_def e)
  show ?thesis
  proof (cases "ent ft pos = 0")
    case False
    with run g obtain pi where r: "piIncref (ent ft pos) (ps_pi \<sigma>) = Ok pi" "frame = ent ft pos" "ft' = ?ft"
      "st' = \<lparr>fs_pi = pi, fs_mem = mem\<rparr>"
      by (auto simp: getPageUnlocked_def Let_def e kbind_Ok_iff)
    have c: "ent ft pos \<in> ps_cache \<sigma>" using False inv by (simp add: ft_inv_def)
    from sys_incref [OF ok c _ r(1)] refs [rule_format, of "ent ft pos"] obtain \<sigma>' where
      n: "sys_next \<sigma> pi ((ps_refs \<sigma>)(ent ft pos := ps_refs \<sigma> (ent ft pos) + 1)) (is_dirty (ps_pi \<sigma>)) \<sigma>'" by auto
    from ft_inv_next [OF inv1 n] sys_nextD [OF n] False c r pg e show ?thesis by (intro exI [of _ \<sigma>']) simp
  next
    case True
    show ?thesis
    proof (cases "load_page ft pos")
      case None
      with True run g have r: "frame = 0" "ft' = ?ft" "st' = \<lparr>fs_pi = ps_pi \<sigma>, fs_mem = mem\<rparr>"
        by (simp_all add: getPageUnlocked_def Let_def e)
      from inv1 pg True None al r show ?thesis by (intro exI [of _ \<sigma>]) (simp add: ft_page_def)
    next
      case (Some b)
      with True run g obtain f pi where r: "piNew PI_CACHE (ps_pi \<sigma>) = Ok (f, pi)"
        by (auto simp: getPageUnlocked_def Let_def e kbind_Ok_iff)
      from sys_new [OF ok r] obtain \<sigma>' where n: "ps_pi \<sigma>' = pi" "sys_ok \<sigma>'" "f \<notin> pi_live \<sigma>" "f \<noteq> 0"
        "ps_refs \<sigma>' = (ps_refs \<sigma>)(f := 1)" "ps_cache \<sigma>' = insert f (ps_cache \<sigma>)"
        "\<forall>g \<in> ps_cache \<sigma>. is_dirty pi g = is_dirty (ps_pi \<sigma>) g" "\<not> is_dirty pi f" by blast
      with True Some run g r have r': "frame = f" "ft' = ?ft\<lparr>ft_top := set_ent pos f (ft_top ?ft)\<rparr>"
        "st' = \<lparr>fs_pi = pi, fs_mem = mem(f := b)\<rparr>"
        by (auto simp: getPageUnlocked_def Let_def e kbind_Ok_iff)
      have nf: "ps_refs \<sigma> f = 0" "f \<notin> ps_cache \<sigma>" using n(3) by (auto simp: pi_live_def)
      have t: "ent ft' q = (if same_page q pos then f else ent ft q)" for q
        using ent_set [OF sh1, of pos f q] e r'(2) by simp
      have old: "ent ft q \<noteq> f" for q using inv n(4) nf(2) by (auto simp: ft_inv_def)
      have l: "load_page ft (align q) = Some b" if "same_page q pos" for q
        using Some al that by (simp add: same_page_align)
      have p0: "ent ft q = 0" if "same_page q pos" for q using ent_page [OF that] True by simp
      have len: "length b = 4096" using inv Some load_page_len by (auto simp: ft_inv_def)
      have "ft_page ft' (mem(f := b)) q = ft_page ft mem q" for q
        using t [of q] n(4) l [of q] p0 [of q] old [of q] r'(2) by (auto simp: ft_page_def)
      moreover have "ft_inv ft' \<sigma>' (mem(f := b))"
        unfolding ft_inv_def
      proof (intro conjI allI impI)
        show "shaped 12 (ft_top ft')" using shaped_set_ent [OF sh1] r'(2) by simp
        show "driver_ok ft'" using inv r'(2) by (simp add: ft_inv_def)
        show "ft_getpage ft' = None" using g r'(2) by simp
        fix q assume q: "ent ft' q \<noteq> 0"
        show "ent ft' q \<in> ps_cache \<sigma>'" using q t [of q] inv n(6) by (auto simp: ft_inv_def)
        show "length ((mem(f := b)) (ent ft' q)) = 4096" using q t [of q] inv len old [of q] by (auto simp: ft_inv_def)
        show "has (ft_flags ft') FT_ANON \<or> is_dirty (ps_pi \<sigma>') (ent ft' q) \<or> load_page ft' (align q) = Some ((mem(f := b)) (ent ft' q))"
        proof (cases "same_page q pos")
          case False
          with q t [of q] have "ent ft q \<noteq> 0" "ent ft' q = ent ft q" by simp_all
          moreover from this inv have "ent ft q \<in> ps_cache \<sigma>"
            "has (ft_flags ft) FT_ANON \<or> is_dirty (ps_pi \<sigma>) (ent ft q) \<or> load_page ft (align q) = Some (mem (ent ft q))"
            by (simp_all add: ft_inv_def)
          ultimately show ?thesis using old [of q] r'(2) n(1,7) by auto
        qed (use t [of q] l [of q] r'(2) in simp)
      next
        fix q q' assume q: "ent ft' q \<noteq> 0" "ent ft' q = ent ft' q'"
        have i: "ent ft q \<noteq> 0 \<Longrightarrow> ent ft q = ent ft q' \<Longrightarrow> same_page q q'" using inv unfolding ft_inv_def by blast
        from q t [of q] t [of q'] old [of q] old [of q'] have "same_page q pos = same_page q' pos" by (auto split: if_splits)
        with q t [of q] t [of q'] i show "same_page q q'" by (cases "same_page q pos") (simp_all add: same_page_def)
      qed (rule n(2))
      moreover have "same_meta ft ft'" using r'(2) by (simp add: same_meta_def)
      ultimately show ?thesis using r' n t [of pos] nf
        by (intro exI [of _ \<sigma>']) (simp add: same_page_def)
    qed
  qed
qed

section \<open>Bytes\<close>

text \<open>The bytes that the pages of a tree hold, by their position in the file.\<close>

definition ft_shows :: "'d FileTree \<Rightarrow> (nat \<Rightarrow> page) \<Rightarrow> (nat \<Rightarrow> u8) \<Rightarrow> bool" where
  "ft_shows ft mem F \<longleftrightarrow> (\<forall>p b. ft_page ft mem p = Some b \<longrightarrow> (\<forall>j < 4096. b ! j = F (unat (align p) + j)))"

definition ft_next :: "'d FileTree \<Rightarrow> pi_sys \<Rightarrow> 'd FileTree \<Rightarrow> frames \<Rightarrow> pi_sys \<Rightarrow> bool" where
  "ft_next ft \<sigma> ft' st' \<sigma>' \<longleftrightarrow> fs_pi st' = ps_pi \<sigma>' \<and> ft_inv ft' \<sigma>' (fs_mem st') \<and> ps_refs \<sigma>' = ps_refs \<sigma> \<and> same_meta ft ft'"

lemma ft_next_trans: "ft_next a \<sigma> b st \<sigma>1 \<Longrightarrow> ft_next b \<sigma>1 c st' \<sigma>2 \<Longrightarrow> ft_next a \<sigma> c st' \<sigma>2"
  by (auto simp: ft_next_def dest: same_meta_trans)

lemma write_page:
  assumes "ft_inv ft \<sigma> mem" and "ent ft p = f" and "f \<noteq> 0" and "0 < ps_refs \<sigma> f"
    and "done_write f (ps_pi \<sigma>) = Ok pi" and "length b = 4096"
  shows "\<exists>\<sigma>'. ps_pi \<sigma>' = pi \<and> ft_inv ft \<sigma>' (mem(f := b)) \<and> ps_refs \<sigma>' = (ps_refs \<sigma>)(f := ps_refs \<sigma> f - 1) \<and>
    (\<forall>q. ft_page ft (mem(f := b)) q = (if same_page q p then Some b else ft_page ft mem q))"
proof -
  from assms(1-3) have ok: "sys_ok \<sigma>" "f \<in> ps_cache \<sigma>" by (auto simp: ft_inv_def)
  from sys_done_write [OF ok assms(4,5)] obtain \<sigma>' where
    n: "sys_next \<sigma> pi ((ps_refs \<sigma>)(f := ps_refs \<sigma> f - 1)) (\<lambda>g. g = f \<or> is_dirty (ps_pi \<sigma>) g) \<sigma>'" by blast
  have "ft_inv ft \<sigma>' mem" by (rule ft_inv_next [OF assms(1) n]) simp
  then have inv: "ft_inv ft \<sigma>' (mem(f := b))"
    using sys_nextD(5) [OF n ok(2)] sys_nextD(1) [OF n] assms(6) by (auto simp: ft_inv_def)
  have "same_page q p \<longleftrightarrow> ent ft q = f" for q
    using assms(1-3) ent_page [of q p "ft_top ft"] unfolding ft_inv_def by metis
  with assms(3) have "ft_page ft (mem(f := b)) q = (if same_page q p then Some b else ft_page ft mem q)" for q
    by (simp add: ft_page_def)
  with inv sys_nextD [OF n] show ?thesis by blast
qed

text \<open>Arithmetic of a turn of the loops.\<close>

lemma chunk_unat: "unat (chunk sz pos) = min (unat sz) (4096 - page_off pos)"
proof -
  have "unat (0x1000 - (pos AND 0xFFF)) = 4096 - page_off pos"
  proof -
    have "pos AND 0xFFF \<le> 0xFFF" by (rule word_and_le1)
    then have "pos AND 0xFFF \<le> 0x1000" by (rule order_trans) simp
    then show ?thesis by (simp add: unat_sub page_off_def)
  qed
  then show ?thesis by (auto simp: chunk_def Let_def word_less_nat_alt min_def)
qed

lemma page_off_less: "page_off p < 4096"
  by (simp add: page_off_mod)

lemma chunk_step:
  assumes "sz \<noteq> 0" and "unat pos + unat sz < 2 ^ 64"
  defines "c \<equiv> chunk sz pos"
  shows "unat (pos + c) = unat pos + unat c" and "unat (sz - c) = unat sz - unat c" and "0 < unat c" and "unat c \<le> unat sz"
    and "unat c \<le> 4096 - page_off pos" and "unat (pos + c) + unat (sz - c) < 2 ^ 64" and "unat (sz - c) < unat sz"
proof -
  show c: "unat c \<le> unat sz" "unat c \<le> 4096 - page_off pos" by (simp_all add: c_def chunk_unat)
  show p: "unat (pos + c) = unat pos + unat c"
    using c(1) assms(2) by (subst unat_add_lem [THEN iffD1]) simp_all
  show m: "unat (sz - c) = unat sz - unat c" using c(1) by (simp add: unat_sub word_le_nat_alt)
  show "0 < unat c" using chunk_pos [OF assms(1), of pos] by (simp add: c_def unat_gt_0)
  then show "unat (sz - c) < unat sz" using m c(1) by simp
  show "unat (pos + c) + unat (sz - c) < 2 ^ 64" using p m c(1) assms(2) by simp
qed

lemma ft_shows_cong: "\<forall>p. ft_page ft' mem' p = ft_page ft mem p \<Longrightarrow> ft_shows ft mem F \<Longrightarrow> ft_shows ft' mem' F"
  by (simp add: ft_shows_def)

lemma page_bytes:
  assumes "ft_shows ft mem F" and "ft_page ft mem (align pos) = Some b" and "length b = 4096" and "k \<le> 4096 - page_off pos"
  shows "take k (drop (page_off pos) b) = map F [unat pos..<unat pos + k]"
proof (rule nth_equalityI)
  show "length (take k (drop (page_off pos) b)) = length (map F [unat pos..<unat pos + k])"
    using assms(3,4) page_off_less [of pos] by simp
  fix i assume "i < length (take k (drop (page_off pos) b))"
  then have i: "i < k" "page_off pos + i < 4096" using assms(3,4) by auto
  then have "b ! (page_off pos + i) = F (unat (align (align pos)) + (page_off pos + i))"
    using assms(1,2) unfolding ft_shows_def by blast
  then show "take k (drop (page_off pos) b) ! i = map F [unat pos..<unat pos + k] ! i"
    using i assms(3) align_add [of pos] by (simp add: add.assoc [symmetric])
qed

lemma kbind3:
  "kbind m (\<lambda>(a, b, c). g a b c) = Ok y \<Longrightarrow> (\<And>a b c. m = Ok (a, b, c) \<Longrightarrow> g a b c = Ok y \<Longrightarrow> P) \<Longrightarrow> P"
  by (cases m) auto

lemma read_turn:
  "sz \<noteq> 0 \<Longrightarrow> read_loop sz pos ft st = kbind (getPageUnlocked ft (align pos) st) (\<lambda>(f, ft, st).
     if f = 0 then Ok ([], ft, st)
     else kbind (done_read f (fs_pi st)) (\<lambda>pi. kbind (read_loop (sz - chunk sz pos) (pos + chunk sz pos) ft (st\<lparr>fs_pi := pi\<rparr>))
            (\<lambda>(bs, ft, st'). Ok (take (unat (chunk sz pos)) (drop (page_off pos) (fs_mem st f)) @ bs, ft, st'))))"
  by (subst read_loop.simps, unfold Let_def) simp

lemma write_turn:
  "sz \<noteq> 0 \<Longrightarrow> write_loop scan sz pos ft st = kbind (getPageUnlocked ft (align pos) st) (\<lambda>(f, ft, st).
     if f = 0 then Ok (0, ft, st)
     else kbind (done_write f (fs_pi st)) (\<lambda>pi. kbind (write_loop (drop (unat (chunk sz pos)) scan) (sz - chunk sz pos) (pos + chunk sz pos) ft
              \<lparr>fs_pi = pi, fs_mem = (fs_mem st)(f := page_put (page_off pos) (take (unat (chunk sz pos)) scan) (fs_mem st f))\<rparr>)
            (\<lambda>(n, ft, st). Ok (chunk sz pos + n, ft, st))))"
  by (subst write_loop.simps, unfold Let_def) simp

lemma read_loop_spec:
  "ft_inv ft \<sigma> mem \<Longrightarrow> \<forall>f. ps_refs \<sigma> f < 2 ^ 31 \<Longrightarrow> ft_shows ft mem F \<Longrightarrow> unat pos + unat sz < 2 ^ 64 \<Longrightarrow>
   read_loop sz pos ft \<lparr>fs_pi = ps_pi \<sigma>, fs_mem = mem\<rparr> = Ok (bs, ft', st') \<Longrightarrow>
   \<exists>\<sigma>' k. ft_next ft \<sigma> ft' st' \<sigma>' \<and> (\<forall>p. ft_page ft' (fs_mem st') p = ft_page ft mem p) \<and> k \<le> unat sz \<and>
     bs = map F [unat pos..<unat pos + k] \<and> (k = unat sz \<or> ft_page ft mem (of_nat (unat pos + k)) = None)"
proof (induction "unat sz" arbitrary: sz pos ft \<sigma> mem bs ft' st' rule: less_induct)
  case less
  let ?st = "\<lparr>fs_pi = ps_pi \<sigma>, fs_mem = mem\<rparr>"
  show ?case
  proof (cases "sz = 0")
    case True
    with less.prems show ?thesis
      by (intro exI [of _ \<sigma>] exI [of _ 0]) (auto simp: read_loop.simps [of 0] ft_next_def)
  next
    case False
    note c = chunk_step [OF False less.prems(4)]
    let ?c = "chunk sz pos"
    from less.prems(5) obtain f ft1 st1 where g: "getPageUnlocked ft (align pos) ?st = Ok (f, ft1, st1)"
      and rest: "(if f = 0 then Ok ([], ft1, st1) else
        kbind (done_read f (fs_pi st1)) (\<lambda>pi. kbind (read_loop (sz - ?c) (pos + ?c) ft1 (st1\<lparr>fs_pi := pi\<rparr>)) (\<lambda>(bs, ft, st).
          Ok (take (unat ?c) (drop (page_off pos) (fs_mem st1 f)) @ bs, ft, st)))) = Ok (bs, ft', st')"
      unfolding read_turn [OF False] by (rule kbind3)
    from getPageUnlocked_spec [OF less.prems(1,2) align_align g] obtain \<sigma>1 where
      1: "fs_pi st1 = ps_pi \<sigma>1" "ft_inv ft1 \<sigma>1 (fs_mem st1)" "same_meta ft ft1" "\<forall>p. ft_page ft1 (fs_mem st1) p = ft_page ft mem p"
        "if f = 0 then ft_page ft mem (align pos) = None \<and> ps_refs \<sigma>1 = ps_refs \<sigma>
         else ent ft1 (align pos) = f \<and> f \<in> ps_cache \<sigma>1 \<and> ps_refs \<sigma>1 = (ps_refs \<sigma>)(f := ps_refs \<sigma> f + 1)" by blast
    show ?thesis
    proof (cases "f = 0")
      case True
      have "ft_page ft mem pos = ft_page ft mem (align pos)" by (simp add: ft_page_def)
      with True rest 1 show ?thesis
        by (intro exI [of _ \<sigma>1] exI [of _ 0]) (auto simp: ft_next_def)
    next
      case f: False
      with rest obtain pi bs2 where r: "done_read f (ps_pi \<sigma>1) = Ok pi"
        "read_loop (sz - ?c) (pos + ?c) ft1 \<lparr>fs_pi = pi, fs_mem = fs_mem st1\<rparr> = Ok (bs2, ft', st')"
        "bs = take (unat ?c) (drop (page_off pos) (fs_mem st1 f)) @ bs2"
        using 1(1) by (cases st1) (auto simp: kbind_Ok_iff)
      from 1(5) f have e: "ent ft1 (align pos) = f" "f \<in> ps_cache \<sigma>1" "ps_refs \<sigma>1 = (ps_refs \<sigma>)(f := ps_refs \<sigma> f + 1)" by simp_all
      have "sys_ok \<sigma>1" using 1(2) by (simp add: ft_inv_def)
      from sys_done_read [OF this e(2) _ r(1)] e(3) obtain \<sigma>2 where
        n: "sys_next \<sigma>1 pi (ps_refs \<sigma>) (is_dirty (ps_pi \<sigma>1)) \<sigma>2" by auto
      note nd = sys_nextD [OF n]
      have inv2: "ft_inv ft1 \<sigma>2 (fs_mem st1)" by (rule ft_inv_next [OF 1(2) n])
      have sh: "ft_shows ft1 (fs_mem st1) F" by (rule ft_shows_cong [OF 1(4) less.prems(3)])
      have pg: "ft_page ft1 (fs_mem st1) (align pos) = Some (fs_mem st1 f)" using e(1) f by (simp add: ft_page_def)
      have bytes: "take (unat ?c) (drop (page_off pos) (fs_mem st1 f)) = map F [unat pos..<unat pos + unat ?c]"
        by (rule page_bytes [OF sh pg ft_inv_page_len [OF 1(2) pg] c(5)])
      from less.hyps [OF c(7) inv2 _ sh c(6)] r(2) nd(1,3) less.prems(2) obtain \<sigma>3 k where
        3: "ft_next ft1 \<sigma>2 ft' st' \<sigma>3" "\<forall>p. ft_page ft' (fs_mem st') p = ft_page ft1 (fs_mem st1) p" "k \<le> unat (sz - ?c)"
          "bs2 = map F [unat (pos + ?c)..<unat (pos + ?c) + k]"
          "k = unat (sz - ?c) \<or> ft_page ft1 (fs_mem st1) (of_nat (unat (pos + ?c) + k)) = None"
        by metis
      have up: "[unat pos..<unat pos + unat ?c] @ [unat pos + unat ?c..<unat pos + unat ?c + k] = [unat pos..<unat pos + (unat ?c + k)]"
        by (metis add.assoc le_add1 upt_add_eq_append)
      have "bs = map F [unat pos..<unat pos + (unat ?c + k)]"
        unfolding r(3) bytes 3(4) c(1) up [symmetric] by simp
      moreover have "ft_next ft \<sigma> ft' st' \<sigma>3"
        using 3(1) 1(3) nd(3) same_meta_trans by (auto simp: ft_next_def)
      moreover have "unat ?c + k = unat sz \<or> ft_page ft mem (of_nat (unat pos + (unat ?c + k))) = None"
        using 3(5) 1(4) c(1,2,4) by (auto simp: add.assoc)
      moreover have "unat ?c + k \<le> unat sz" using 3(3) c(2,4) by simp
      ultimately show ?thesis using 3(2) 1(4) by (intro exI [of _ \<sigma>3] exI [of _ "unat ?c + k"]) simp
    qed
  qed
qed

text \<open>The contents of a file after a write.\<close>

definition fwrite :: "nat \<Rightarrow> u8 list \<Rightarrow> (nat \<Rightarrow> u8) \<Rightarrow> nat \<Rightarrow> u8" where
  "fwrite pos bs F = (\<lambda>i. if pos \<le> i \<and> i < pos + length bs then bs ! (i - pos) else F i)"

lemma fwrite_Nil [simp]: "fwrite pos [] F = F"
  by (rule ext) (simp add: fwrite_def, linarith)

lemma fwrite_append: "fwrite (pos + length a) b (fwrite pos a F) = fwrite pos (a @ b) F"
  by (auto simp: fwrite_def nth_append fun_eq_iff)

lemma page_put_nth:
  "off + length bs \<le> length b \<Longrightarrow> j < length b \<Longrightarrow>
     page_put off bs b ! j = (if off \<le> j \<and> j < off + length bs then bs ! (j - off) else b ! j)"
  by (auto simp: page_put_def nth_append min_def)

lemma page_put_len: "off + length bs \<le> length b \<Longrightarrow> length (page_put off bs b) = length b"
  by (simp add: page_put_def)

lemma write_shows:
  assumes "ft_shows ft mem F" and "ft_page ft mem (align pos) = Some b" and "length b = 4096"
    and "length bs \<le> 4096 - page_off pos"
    and "\<forall>q. ft_page ft' mem' q = (if same_page q pos then Some (page_put (page_off pos) bs b) else ft_page ft mem q)"
  shows "ft_shows ft' mem' (fwrite (unat pos) bs F)"
  unfolding ft_shows_def
proof (intro allI impI)
  fix q c and j :: nat
  assume q: "ft_page ft' mem' q = Some c" and j: "j < 4096"
  have off: "page_off pos + length bs \<le> 4096" using assms(4) page_off_less [of pos] by linarith
  show "c ! j = fwrite (unat pos) bs F (unat (align q) + j)"
  proof (cases "same_page q pos")
    case True
    with q assms(5) have c: "c = page_put (page_off pos) bs b" by simp
    from True have a: "align q = align pos" by (simp add: same_page_align)
    have "b ! j = F (unat (align (align pos)) + j)" using assms(1,2) j unfolding ft_shows_def by blast
    moreover have "unat (align pos) + j - unat pos = j - page_off pos" "unat pos \<le> unat (align pos) + j \<longleftrightarrow> page_off pos \<le> j"
      "unat (align pos) + j < unat pos + length bs \<longleftrightarrow> j < page_off pos + length bs" using align_add [of pos] by linarith+
    ultimately show ?thesis using c a off j assms(3) page_put_nth [of "page_off pos" bs b j]
      by (simp add: fwrite_def)
  next
    case False
    with q assms(5) have "c ! j = F (unat (align q) + j)" using assms(1) j unfolding ft_shows_def by simp
    moreover have "\<not> (unat pos \<le> unat (align q) + j \<and> unat (align q) + j < unat pos + length bs)"
    proof
      assume h: "unat pos \<le> unat (align q) + j \<and> unat (align q) + j < unat pos + length bs"
      have d: "unat (align x) = 4096 * (unat x div 4096)" for x by (simp add: unat_align minus_mod_eq_mult_div)
      have "unat (align pos) \<le> unat (align q) + j" "unat (align q) + j < unat (align pos) + 4096"
        using h align_add [of pos] off by linarith+
      then have "4096 * (unat pos div 4096) \<le> 4096 * (unat q div 4096) + j" "4096 * (unat q div 4096) + j < 4096 * (unat pos div 4096) + 4096"
        unfolding d by blast+
      then have "unat pos div 4096 = unat q div 4096" using j by linarith
      then have "unat (align pos) = unat (align q)" unfolding d by (rule arg_cong)
      then have "align pos = align q" by (simp add: word_unat_eq_iff)
      with False show False by (simp add: same_page_align)
    qed
    ultimately show ?thesis by (auto simp: fwrite_def)
  qed
qed

lemma write_loop_spec:
  "ft_inv ft \<sigma> mem \<Longrightarrow> \<forall>f. ps_refs \<sigma> f < 2 ^ 31 \<Longrightarrow> ft_shows ft mem F \<Longrightarrow> unat pos + unat sz < 2 ^ 64 \<Longrightarrow>
   unat sz \<le> length scan \<Longrightarrow> write_loop scan sz pos ft \<lparr>fs_pi = ps_pi \<sigma>, fs_mem = mem\<rparr> = Ok (n, ft', st') \<Longrightarrow>
   \<exists>\<sigma>'. ft_next ft \<sigma> ft' st' \<sigma>' \<and> unat n \<le> unat sz \<and> ft_shows ft' (fs_mem st') (fwrite (unat pos) (take (unat n) scan) F) \<and>
     (n = sz \<or> ft_page ft mem (of_nat (unat pos + unat n)) = None) \<and>
     (\<forall>p. ft_page ft' (fs_mem st') p = None \<longleftrightarrow> ft_page ft mem p = None)"
proof (induction "unat sz" arbitrary: sz pos ft \<sigma> mem scan F n ft' st' rule: less_induct)
  case less
  let ?st = "\<lparr>fs_pi = ps_pi \<sigma>, fs_mem = mem\<rparr>"
  show ?case
  proof (cases "sz = 0")
    case True
    with less.prems show ?thesis by (intro exI [of _ \<sigma>]) (auto simp: write_loop.simps [of _ 0] ft_next_def)
  next
    case False
    note c = chunk_step [OF False less.prems(4)]
    let ?c = "chunk sz pos"
    let ?bs = "take (unat ?c) scan"
    have lbs: "length ?bs = unat ?c" using c(4) less.prems(5) by simp
    from less.prems(6) obtain f ft1 st1 where g: "getPageUnlocked ft (align pos) ?st = Ok (f, ft1, st1)"
      and rest: "(if f = 0 then Ok (0, ft1, st1) else
        kbind (done_write f (fs_pi st1)) (\<lambda>pi. kbind (write_loop (drop (unat ?c) scan) (sz - ?c) (pos + ?c) ft1
          \<lparr>fs_pi = pi, fs_mem = (fs_mem st1)(f := page_put (page_off pos) ?bs (fs_mem st1 f))\<rparr>) (\<lambda>(n, ft, st).
          Ok (?c + n, ft, st)))) = Ok (n, ft', st')"
      unfolding write_turn [OF False] by (rule kbind3)
    from getPageUnlocked_spec [OF less.prems(1,2) align_align g] obtain \<sigma>1 where
      1: "fs_pi st1 = ps_pi \<sigma>1" "ft_inv ft1 \<sigma>1 (fs_mem st1)" "same_meta ft ft1" "\<forall>p. ft_page ft1 (fs_mem st1) p = ft_page ft mem p"
        "if f = 0 then ft_page ft mem (align pos) = None \<and> ps_refs \<sigma>1 = ps_refs \<sigma>
         else ent ft1 (align pos) = f \<and> f \<in> ps_cache \<sigma>1 \<and> ps_refs \<sigma>1 = (ps_refs \<sigma>)(f := ps_refs \<sigma> f + 1)" by blast
    show ?thesis
    proof (cases "f = 0")
      case True
      have "ft_page ft mem pos = ft_page ft mem (align pos)" by (simp add: ft_page_def)
      with True rest 1 less.prems(3) show ?thesis
        by (intro exI [of _ \<sigma>1]) (auto simp: ft_next_def intro: ft_shows_cong)
    next
      case f: False
      let ?mem = "(fs_mem st1)(f := page_put (page_off pos) ?bs (fs_mem st1 f))"
      from f rest 1(1) obtain pi n2 where r: "done_write f (ps_pi \<sigma>1) = Ok pi"
        "write_loop (drop (unat ?c) scan) (sz - ?c) (pos + ?c) ft1 \<lparr>fs_pi = pi, fs_mem = ?mem\<rparr> = Ok (n2, ft', st')"
        "n = ?c + n2" by (auto simp: kbind_Ok_iff)
      from 1(5) f have e: "ent ft1 (align pos) = f" "ps_refs \<sigma>1 = (ps_refs \<sigma>)(f := ps_refs \<sigma> f + 1)" by simp_all
      have sh: "ft_shows ft1 (fs_mem st1) F" by (rule ft_shows_cong [OF 1(4) less.prems(3)])
      have pg: "ft_page ft1 (fs_mem st1) (align pos) = Some (fs_mem st1 f)" using e(1) f by (simp add: ft_page_def)
      have len: "length (fs_mem st1 f) = 4096" by (rule ft_inv_page_len [OF 1(2) pg])
      have off: "page_off pos + length ?bs \<le> 4096" using lbs c(5) page_off_less [of pos] by linarith
      have "length (page_put (page_off pos) ?bs (fs_mem st1 f)) = 4096" using page_put_len [of "page_off pos" ?bs] off len by simp
      from write_page [OF 1(2) e(1) f _ r(1) this] e(2) obtain \<sigma>2 where
        2: "ps_pi \<sigma>2 = pi" "ft_inv ft1 \<sigma>2 ?mem" "ps_refs \<sigma>2 = ps_refs \<sigma>"
          "\<forall>q. ft_page ft1 ?mem q = (if same_page q (align pos) then Some (page_put (page_off pos) ?bs (fs_mem st1 f)) else ft_page ft1 (fs_mem st1) q)"
        by auto
      have sh2: "ft_shows ft1 ?mem (fwrite (unat pos) ?bs F)"
        by (rule write_shows [OF sh pg len]) (use lbs c(5) 2(4) in \<open>simp_all add: align_same\<close>)
      have ln: "unat (sz - ?c) \<le> length (drop (unat ?c) scan)" using c(2) less.prems(5) by simp
      from less.hyps [OF c(7) 2(2) _ sh2 c(6) ln, of n2 ft' st'] r(2) 2(1,3) less.prems(2) obtain \<sigma>3 where
        3: "ft_next ft1 \<sigma>2 ft' st' \<sigma>3" "unat n2 \<le> unat (sz - ?c)"
          "ft_shows ft' (fs_mem st') (fwrite (unat (pos + ?c)) (take (unat n2) (drop (unat ?c) scan)) (fwrite (unat pos) ?bs F))"
          "n2 = sz - ?c \<or> ft_page ft1 ?mem (of_nat (unat (pos + ?c) + unat n2)) = None"
          "\<forall>p. ft_page ft' (fs_mem st') p = None \<longleftrightarrow> ft_page ft1 ?mem p = None"
        by auto
      have sz64: "unat sz < 2 ^ 64" using less.prems(4) by linarith
      have un: "unat n = unat ?c + unat n2"
        unfolding r(3) using 3(2) c(2,4) sz64 by (subst unat_add_lem [THEN iffD1]) simp_all
      have none: "ft_page ft1 ?mem p = None \<longleftrightarrow> ft_page ft mem p = None" for p
      proof (cases "same_page p (align pos)")
        case True
        then have "ent ft1 p \<noteq> 0" using ent_page [OF True] e(1) f by simp
        then have "ft_page ft1 (fs_mem st1) p \<noteq> None" by (simp add: ft_page_def)
        with 1(4) 2(4) True show ?thesis by simp
      qed (use 1(4) 2(4) in simp)
      have "fwrite (unat (pos + ?c)) (take (unat n2) (drop (unat ?c) scan)) (fwrite (unat pos) ?bs F) = fwrite (unat pos) (take (unat n) scan) F"
        unfolding c(1) un take_add using fwrite_append [of "unat pos" ?bs] lbs by simp
      with 3(3) have "ft_shows ft' (fs_mem st') (fwrite (unat pos) (take (unat n) scan) F)" by simp
      moreover have "ft_next ft \<sigma> ft' st' \<sigma>3"
        using 3(1) 1(3) 2(3) same_meta_trans by (auto simp: ft_next_def)
      moreover have "n = sz \<or> ft_page ft mem (of_nat (unat pos + unat n)) = None"
        using 3(4) none c(1) un r(3) by (auto simp: add.assoc)
      moreover have "unat n \<le> unat sz" using un 3(2) c(2,4) by simp
      ultimately show ?thesis using 3(5) none by (intro exI [of _ \<sigma>3]) simp
    qed
  qed
qed

section \<open>Reading and writing files\<close>

definition ft_ok :: "'d FileTree \<Rightarrow> frames \<Rightarrow> bool" where
  "ft_ok ft st \<longleftrightarrow> (\<exists>\<sigma>. fs_pi st = ps_pi \<sigma> \<and> ft_inv ft \<sigma> (fs_mem st) \<and> (\<forall>f. ps_refs \<sigma> f < 2 ^ 31))"

lemma ft_okI: "ft_next ft \<sigma> ft' st' \<sigma>' \<Longrightarrow> \<forall>f. ps_refs \<sigma> f < 2 ^ 31 \<Longrightarrow> ft_ok ft' st'"
  by (auto simp: ft_next_def ft_ok_def)

lemma frames_eta: "fs_pi st = pi \<Longrightarrow> st = \<lparr>fs_pi = pi, fs_mem = fs_mem st\<rparr>"
  by simp

lemma frames_eta2: "\<lparr>fs_pi = fs_pi st, fs_mem = fs_mem st\<rparr> = (st :: frames)"
  by simp

text \<open>How many bytes a read of \<open>sz\<close> bytes at \<open>pos\<close> gets from a file of \<open>len\<close> bytes.\<close>

definition readable :: "nat \<Rightarrow> nat \<Rightarrow> nat \<Rightarrow> nat" where
  "readable len pos sz = min sz (len - pos)"

lemma ftRead_spec:
  assumes "ft_ok ft st" and "ft_shows ft (fs_mem st) F" and "unat pos + unat sz < 2 ^ 64" and "ftRead ft sz pos st = Ok (bs, ft', st')"
  shows "ft_ok ft' st' \<and> same_meta ft ft' \<and> (\<forall>p. ft_page ft' (fs_mem st') p = ft_page ft (fs_mem st) p) \<and>
    (\<exists>k \<le> readable (unat (ft_size ft)) (unat pos) (unat sz). bs = map F [unat pos..<unat pos + k] \<and>
       (k = readable (unat (ft_size ft)) (unat pos) (unat sz) \<or> ft_page ft (fs_mem st) (of_nat (unat pos + k)) = None))"
proof (cases "pos \<ge> ft_size ft")
  case True
  with assms show ?thesis by (auto simp: ftRead_def readable_def word_le_nat_alt)
next
  case False
  let ?sz = "if pos + sz \<ge> ft_size ft then ft_size ft - pos else sz"
  from assms(1) obtain \<sigma> where \<sigma>: "fs_pi st = ps_pi \<sigma>" "ft_inv ft \<sigma> (fs_mem st)" "\<forall>f. ps_refs \<sigma> f < 2 ^ 31"
    by (auto simp: ft_ok_def)
  have lt: "unat pos < unat (ft_size ft)" using False by (simp add: word_le_nat_alt)
  have add: "unat (pos + sz) = unat pos + unat sz" using assms(3) by (subst unat_add_lem [THEN iffD1]) simp_all
  have n: "unat ?sz = readable (unat (ft_size ft)) (unat pos) (unat sz)"
    using lt add by (auto simp: readable_def word_le_nat_alt unat_sub)
  have r: "read_loop ?sz pos ft \<lparr>fs_pi = ps_pi \<sigma>, fs_mem = fs_mem st\<rparr> = Ok (bs, ft', st')"
    using assms(4) False unfolding ftRead_def Let_def by (subst (asm) frames_eta [OF \<sigma>(1)]) simp
  have b: "unat pos + unat ?sz < 2 ^ 64" unfolding n using assms(3) by (simp add: readable_def min_def)
  from read_loop_spec [OF \<sigma>(2,3) assms(2) b r] obtain \<sigma>' k where
    k: "ft_next ft \<sigma> ft' st' \<sigma>'" "\<forall>p. ft_page ft' (fs_mem st') p = ft_page ft (fs_mem st) p" "k \<le> unat ?sz"
      "bs = map F [unat pos..<unat pos + k]" "k = unat ?sz \<or> ft_page ft (fs_mem st) (of_nat (unat pos + k)) = None" by blast
  from k(1) have "same_meta ft ft'" by (simp add: ft_next_def)
  with ft_okI [OF k(1) \<sigma>(3)] k(2-5) show ?thesis unfolding n by blast
qed

text \<open>The functions of the file system and the flags stay as they are.\<close>

definition same_driver :: "'d FileTree \<Rightarrow> 'd FileTree \<Rightarrow> bool" where
  "same_driver ft ft' \<longleftrightarrow> ft_flags ft' = ft_flags ft \<and> ft_load ft' = ft_load ft \<and> ft_flush ft' = ft_flush ft \<and>
     ft_update ft' = ft_update ft \<and> ft_getpage ft' = ft_getpage ft"

lemma same_driver_refl [simp]: "same_driver ft ft"
  by (simp add: same_driver_def)

lemma same_meta_fields:
  assumes "same_meta ft ft'"
  shows "same_driver ft ft'" and "ft_size ft' = ft_size ft" and "ft_data ft' = ft_data ft"
proof -
  from assms obtain r where "ft' = ft\<lparr>ft_top := r\<rparr>" by (auto simp: same_meta_def)
  then show "same_driver ft ft'" "ft_size ft' = ft_size ft" "ft_data ft' = ft_data ft" by (simp_all add: same_driver_def)
qed

text \<open>The resize at the beginning of a write.\<close>

definition resized :: "u64 \<Rightarrow> 'd FileTree \<Rightarrow> 'd FileTree" where
  "resized sz ft =
     (let ft = ft\<lparr>ft_size := sz\<rparr>
      in case ft_update ft of None \<Rightarrow> ft | Some u \<Rightarrow> ft\<lparr>ft_data := u (ft_size ft) (ft_data ft)\<rparr>)"

lemma resized_fields [simp]:
  "ft_top (resized sz ft) = ft_top ft" "ft_size (resized sz ft) = sz" "ft_flags (resized sz ft) = ft_flags ft"
  "ft_load (resized sz ft) = ft_load ft" "ft_flush (resized sz ft) = ft_flush ft" "ft_getpage (resized sz ft) = ft_getpage ft"
  "ft_update (resized sz ft) = ft_update ft"
  by (auto simp: resized_def Let_def split: option.split)

lemma resized_page:
  assumes "driver_ok ft"
  shows "load_page (resized sz ft) p = load_page ft p" and "ft_page (resized sz ft) mem p = ft_page ft mem p"
proof -
  show l: "load_page (resized sz ft) p = load_page ft p" for p
    using assms by (auto simp: load_page_def resized_def Let_def driver_defs split: option.split)
  show "ft_page (resized sz ft) mem p = ft_page ft mem p" by (simp add: ft_page_def l)
qed

lemma resized_inv: "ft_inv ft \<sigma> mem \<Longrightarrow> ft_inv (resized sz ft) \<sigma> mem"
  by (simp add: ft_inv_def resized_page) (simp add: driver_defs)

lemma ftWrite_spec:
  assumes "ft_ok ft st" and "ft_shows ft (fs_mem st) F" and "unat pos + length buf < 2 ^ 64" and "\<not> has (ft_flags ft) FT_FIXED_SIZE"
    and "ftWrite ft buf (of_nat (length buf)) pos st = Ok (n, ft', st')"
  shows "ft_ok ft' st' \<and> same_driver ft ft' \<and> unat (ft_size ft') = max (unat (ft_size ft)) (unat pos + length buf) \<and>
    unat n \<le> length buf \<and> ft_shows ft' (fs_mem st') (fwrite (unat pos) (take (unat n) buf) F) \<and>
    (unat n = length buf \<or> ft_page ft (fs_mem st) (of_nat (unat pos + unat n)) = None) \<and>
    (\<forall>p. ft_page ft' (fs_mem st') p = None \<longleftrightarrow> ft_page ft (fs_mem st) p = None)"
proof -
  let ?sz = "of_nat (length buf) :: u64"
  have sz: "unat ?sz = length buf" using assms(3) by (simp add: unsigned_of_nat take_bit_nat_eq_self)
  have add: "unat (pos + ?sz) = unat pos + length buf" using assms(3) sz by (subst unat_add_lem [THEN iffD1]) simp_all
  define ft1 where "ft1 = (if pos + ?sz \<ge> ft_size ft then resized (pos + ?sz) ft else ft)"
  from assms(1) obtain \<sigma> where \<sigma>: "fs_pi st = ps_pi \<sigma>" "ft_inv ft \<sigma> (fs_mem st)" "\<forall>f. ps_refs \<sigma> f < 2 ^ 31"
    by (auto simp: ft_ok_def)
  have drv: "driver_ok ft" using \<sigma>(2) by (simp add: ft_inv_def)
  have i1: "ft_inv ft1 \<sigma> (fs_mem st)" using \<sigma>(2) resized_inv [OF \<sigma>(2)] by (simp add: ft1_def)
  have p1: "ft_page ft1 (fs_mem st) p = ft_page ft (fs_mem st) p" for p using resized_page(2) [OF drv] by (simp add: ft1_def)
  have r: "write_loop buf ?sz pos ft1 \<lparr>fs_pi = ps_pi \<sigma>, fs_mem = fs_mem st\<rparr> = Ok (n, ft', st')"
    using assms(4,5) by (simp add: ftWrite_def ft1_def resized_def Let_def \<sigma>(1) [symmetric] frames_eta2 split: if_splits)
  have s1: "ft_shows ft1 (fs_mem st) F" using assms(2) p1 by (simp add: ft_shows_def)
  from write_loop_spec [OF i1 \<sigma>(3) s1 _ _ r] sz assms(3) obtain \<sigma>' where
    w: "ft_next ft1 \<sigma> ft' st' \<sigma>'" "unat n \<le> length buf" "ft_shows ft' (fs_mem st') (fwrite (unat pos) (take (unat n) buf) F)"
      "n = ?sz \<or> ft_page ft1 (fs_mem st) (of_nat (unat pos + unat n)) = None"
      "\<forall>p. ft_page ft' (fs_mem st') p = None \<longleftrightarrow> ft_page ft1 (fs_mem st) p = None" by auto
  from w(1) have m: "same_meta ft1 ft'" by (simp add: ft_next_def)
  have "same_driver ft ft'" using same_meta_fields(1) [OF m] by (simp add: ft1_def same_driver_def split: if_splits)
  moreover have "unat (ft_size ft') = max (unat (ft_size ft)) (unat pos + length buf)"
    unfolding same_meta_fields(2) [OF m] using add by (auto simp: ft1_def word_le_nat_alt)
  ultimately show ?thesis using ft_okI [OF w(1) \<sigma>(3)] w(2-5) p1 sz by auto
qed

section \<open>Flushing and evicting\<close>

lemma sub_pos_bits:
  assumes "i < 16" and "\<forall>k \<ge> m. \<not> bit base k" and "m \<le> 60"
  shows "drop_bit 4 (sub_pos base i) = base" and "unat (sub_pos base i AND 0xF) = i" and "\<forall>k \<ge> m + 4. \<not> bit (sub_pos base i) k"
proof -
  have i: "bit (of_nat i :: u64) k \<Longrightarrow> k < 4" for k
  proof -
    assume "bit (of_nat i :: u64) k"
    then have "bit i k" by (simp add: bit_of_nat_iff)
    moreover have "take_bit 4 i = i" using assms(1) by (simp add: take_bit_nat_eq_self)
    ultimately show "k < 4" by (metis bit_take_bit_iff)
  qed
  have b: "bit (sub_pos base i) k \<longleftrightarrow> (if k < 4 then bit (of_nat i :: u64) k else k < 64 \<and> bit base (k - 4))" for k
    using i [of k] by (auto simp: bit_or_iff bit_push_bit_iff)
  have bl: "bit base k \<Longrightarrow> k + 4 < 64" for k
  proof -
    assume "bit base k"
    then have "k < m" using assms(2) by (meson not_le)
    with assms(3) show "k + 4 < 64" by simp
  qed
  show "drop_bit 4 (sub_pos base i) = base"
  proof (rule bit_eqI)
    fix n :: nat
    show "bit (drop_bit 4 (sub_pos base i)) n = bit base n"
      unfolding bit_drop_bit_eq comp_apply b using bl [of n] by auto
  qed
  show "\<forall>k \<ge> m + 4. \<not> bit (sub_pos base i) k" using b assms(2) by auto
  have m: "(0xF :: u64) = mask 4" by (simp add: mask_eq_exp_minus_1)
  have "sub_pos base i AND 0xF = of_nat i" unfolding m by (rule bit_eqI) (use b i in \<open>auto simp: bit_and_iff bit_mask_iff\<close>)
  then show "unat (sub_pos base i AND 0xF) = i" using assms(1) by (simp add: unsigned_of_nat take_bit_nat_eq_self)
qed

lemma page_pos:
  fixes x :: u64
  assumes "\<forall>k \<ge> 52. \<not> bit x k"
  shows "drop_bit 12 (push_bit 12 x) = x" and "align (push_bit 12 x) = push_bit 12 x"
proof -
  have b: "bit x k \<Longrightarrow> k < 52" for k using assms by (meson not_le)
  show "drop_bit 12 (push_bit 12 x) = x" by (rule bit_eqI) (auto simp: bit_drop_bit_eq bit_push_bit_iff dest: b)
  show "align (push_bit 12 x) = push_bit 12 x"
    by (rule bit_eqI) (auto simp: bit_and_iff page_mask_bit bit_push_bit_iff)
qed

lemma aligned_pos:
  assumes "align q = q"
  shows "push_bit 12 (drop_bit 12 q) = q"
proof (rule bit_eqI)
  fix k :: nat
  have "bit q k \<Longrightarrow> bit (align q) k" using assms by simp
  then have "bit q k \<Longrightarrow> 12 \<le> k" by (simp add: bit_and_iff page_mask_bit)
  then show "bit (push_bit 12 (drop_bit 12 q)) k = bit q k"
    by (auto simp: bit_push_bit_iff bit_drop_bit_eq dest: bit_imp_le_length)
qed

lemma first_found_Some: "first_found g is = Ok (Some r) \<Longrightarrow> \<exists>i \<in> set is. g i = Ok (Some r)"
  by (induction "is") (auto simp: kbind_Ok_iff split: option.splits)

text \<open>The page at an entry of a node: its position \<open>q\<close> in the file.\<close>

lemma leaf_pos:
  assumes "i < 16" and "\<forall>k \<ge> 48. \<not> bit base k"
  defines "q \<equiv> push_bit 12 (sub_pos base i)"
  shows "align q = q" and "drop_bit 16 q = base" and "nib 0 q = i" and "drop_bit 12 q = sub_pos base i"
proof -
  have h: "\<forall>k \<ge> 52. \<not> bit (sub_pos base i) k" using sub_pos_bits(3) [OF assms(1,2)] by simp
  note p = page_pos [OF h, folded q_def]
  show "align q = q" "drop_bit 12 q = sub_pos base i" by (fact p)+
  have "drop_bit 16 q = drop_bit 4 (drop_bit 12 q)" by (simp add: drop_bit_drop_bit)
  then show "drop_bit 16 q = base" using p(1) sub_pos_bits(1) [OF assms(1,2)] by simp
  show "nib 0 q = i" using p(1) sub_pos_bits(2) [OF assms(1,2)] by (simp add: nib_def)
qed

lemma inner_pos:
  assumes "i < 16" and "\<forall>k \<ge> m. \<not> bit base k" and "m \<le> 60" and "drop_bit (16 + 4 * n) q = sub_pos base i"
  shows "drop_bit (16 + 4 * Suc n) q = base" and "nib (Suc n) q = i"
proof -
  have "drop_bit (16 + 4 * Suc n) q = drop_bit 4 (drop_bit (16 + 4 * n) q)" by (simp add: drop_bit_drop_bit)
  then show "drop_bit (16 + 4 * Suc n) q = base" using assms(4) sub_pos_bits(1) [OF assms(1-3)] by simp
  show "nib (Suc n) q = i" using assms(4) sub_pos_bits(2) [OF assms(1-3)] by (simp add: nib_def)
qed

lemma try_node_spec:
  "shaped n nd \<Longrightarrow> n \<le> 12 \<Longrightarrow> \<forall>k \<ge> 4 * (12 - n). \<not> bit base k \<Longrightarrow> try_node fl st d n nd base = Ok (Some (f, nd', d')) \<Longrightarrow>
   \<exists>q. align q = q \<and> drop_bit (16 + 4 * n) q = base \<and> f = leaf_of n q nd (nib 0 q) \<and> nd' = with_leaf n q (\<lambda>e. e(nib 0 q := 0)) nd \<and>
     try_entry fl st d (drop_bit 12 q) f = Ok (Some d')"
proof (induction fl st d n nd base arbitrary: f nd' d' rule: try_node.induct)
  case (1 fl st d e base)
  from 1(4) obtain i where i: "i < 16" "f = e i" "nd' = Entries (e(i := 0))" "try_entry fl st d (sub_pos base i) (e i) = Ok (Some d')"
    by (auto simp: kbind_Ok_iff dest!: first_found_Some)
  have "\<forall>k \<ge> 48. \<not> bit base k" using 1(3) by simp
  from leaf_pos [OF i(1) this] i show ?case
    by (intro exI [of _ "push_bit 12 (sub_pos base i)"]) (simp only: leaf_of_simps with_leaf.simps simp_thms mult_0_right add_0_right)
next
  case (2 fl st d n b base)
  from 2(5) obtain i c c' where i: "i < 16" "b i = Some c" "try_node fl st d n c (sub_pos base i) = Ok (Some (f, c', d'))"
    "nd' = Nodes (b(i \<mapsto> c'))"
    by (auto simp: kbind_Ok_iff dest!: first_found_Some split: option.splits)
  have m: "4 * (12 - Suc n) + 4 = 4 * (12 - n)" "4 * (12 - Suc n) \<le> 60" using 2(3) by auto
  from sub_pos_bits(3) [OF i(1) 2(4) m(2)] have h: "\<forall>k \<ge> 4 * (12 - n). \<not> bit (sub_pos base i) k" unfolding m(1) .
  have sc: "shaped n c" "n \<le> 12" using 2(2,3) i(2) by auto
  from 2(1) [OF i(2) sc h i(3)] obtain q where
    q: "align q = q" "drop_bit (16 + 4 * n) q = sub_pos base i" "f = leaf_of n q c (nib 0 q)"
      "c' = with_leaf n q (\<lambda>e. e(nib 0 q := 0)) c" "try_entry fl st d (drop_bit 12 q) f = Ok (Some d')" by blast
  note p = inner_pos [OF i(1) 2(4) m(2) q(2)]
  have "f = leaf_of (Suc n) q (Nodes b) (nib 0 q)" "nd' = with_leaf (Suc n) q (\<lambda>e. e(nib 0 q := 0)) (Nodes b)"
    unfolding leaf_of_simps with_leaf.simps p(2) i(2,4) node_or_def option.case using q(3,4) by blast+
  with q(1,5) p(1) show ?case by blast
qed simp_all

lemma for_each_inv:
  "for_each g is s = Ok s' \<Longrightarrow> P s \<Longrightarrow> (\<And>i s s'. i \<in> set is \<Longrightarrow> P s \<Longrightarrow> g i s = Ok s' \<Longrightarrow> P s') \<Longrightarrow> P s'"
proof (induction "is" arbitrary: s)
  case (Cons i "is")
  from Cons.prems(1) obtain s1 where s: "g i s = Ok s1" "for_each g is s1 = Ok s'" by (auto simp: kbind_Ok_iff)
  show ?case
    by (rule Cons.IH [OF s(2)]) (use Cons.prems s(1) in auto)
qed simp

lemma flushTree_inv:
  "shaped n nd \<Longrightarrow> n \<le> 12 \<Longrightarrow> \<forall>k \<ge> 4 * (12 - n). \<not> bit base k \<Longrightarrow> flushTree fl mem n nd base s = Ok s' \<Longrightarrow> P s \<Longrightarrow>
   (\<And>q s s'. align q = q \<Longrightarrow> drop_bit (16 + 4 * n) q = base \<Longrightarrow> P s \<Longrightarrow>
      flush_page fl mem (drop_bit 12 q) (leaf_of n q nd (nib 0 q)) s = Ok s' \<Longrightarrow> P s') \<Longrightarrow> P s'"
proof (induction fl mem n nd base s arbitrary: s' rule: flushTree.induct)
  case (1 fl mem e base s)
  have h: "\<forall>k \<ge> 48. \<not> bit base k" using 1(3) by simp
  show ?case
  proof (rule for_each_inv [where P = P])
    show "for_each (\<lambda>i. flush_page fl mem (sub_pos base i) (e i)) [0..<16] s = Ok s'" using 1(4) by simp
    fix i s s' assume "i \<in> set [0..<16]" and s: "P s" "flush_page fl mem (sub_pos base i) (e i) s = Ok s'"
    then have "i < 16" by simp
    note q = leaf_pos [OF this h]
    show "P s'" by (rule 1(6) [OF q(1) _ s(1)]) (use q s(2) in simp_all)
  qed (rule 1(5))
next
  case (2 fl mem n b base s)
  have m: "4 * (12 - Suc n) + 4 = 4 * (12 - n)" "4 * (12 - Suc n) \<le> 60" using 2(3) by auto
  show ?case
  proof (rule for_each_inv [where P = P])
    show "for_each (\<lambda>i s. case b i of None \<Rightarrow> Ok s | Some c \<Rightarrow> flushTree fl mem n c (sub_pos base i) s) [0..<16] s = Ok s'"
      using 2(5) by simp
    fix i s s' assume i: "i \<in> set [0..<16]" and s: "P s"
      "(case b i of None \<Rightarrow> Ok s | Some c \<Rightarrow> flushTree fl mem n c (sub_pos base i) s) = Ok s'"
    have i16: "i < 16" using i by simp
    show "P s'"
    proof (cases "b i")
      case None
      with s show ?thesis by simp
    next
      case (Some c)
      have sh: "shaped n c" using 2(2) Some by simp
      from sub_pos_bits(3) [OF i16 2(4) m(2)] have h: "\<forall>k \<ge> 4 * (12 - n). \<not> bit (sub_pos base i) k" unfolding m(1) .
      have r: "flushTree fl mem n c (sub_pos base i) s = Ok s'" using s(2) Some by simp
      show ?thesis
      proof (rule 2(1) [OF Some sh _ h r s(1)])
        show "n \<le> 12" using 2(3) by simp
        fix q t t' assume q: "align q = q" "drop_bit (16 + 4 * n) q = sub_pos base i" "P t"
          "flush_page fl mem (drop_bit 12 q) (leaf_of n q c (nib 0 q)) t = Ok t'"
        note p = inner_pos [OF i16 2(4) m(2) q(2)]
        show "P t'" by (rule 2(7) [OF q(1) p(1) q(3)]) (use q(4) p(2) Some in \<open>simp add: node_or_def\<close>)
      qed
    qed
  qed (rule 2(6))
qed simp_all

lemma load_flush:
  assumes "driver_ok ft" and "ft_flush ft = Some fl" and "length b = 4096"
  shows "p \<noteq> q \<Longrightarrow> load_page (ft\<lparr>ft_data := snd (fl q b (ft_data ft))\<rparr>) p = load_page ft p"
    and "\<not> has (ft_flags ft) FT_ANON \<Longrightarrow> load_page (ft\<lparr>ft_data := snd (fl q b (ft_data ft))\<rparr>) q = Some b"
  using assms by (auto simp: load_page_def driver_defs split: option.splits)

lemma flush_data:
  assumes "ft_inv ft \<sigma> mem" and "ft_flush ft = Some fl" and "ent ft q \<noteq> 0" and "align q = q"
  defines "ft' \<equiv> ft\<lparr>ft_data := snd (fl q (mem (ent ft q)) (ft_data ft))\<rparr>"
  shows "ft_inv ft' \<sigma> mem" and "ft_page ft' mem p = ft_page ft mem p"
    and "\<not> has (ft_flags ft) FT_ANON \<Longrightarrow> load_page ft' q = Some (mem (ent ft q))"
proof -
  have drv: "driver_ok ft" and len: "length (mem (ent ft q)) = 4096" using assms(1,3) by (simp_all add: ft_inv_def)
  note l = load_flush(1) [OF drv assms(2) len, of _ q, folded ft'_def] load_flush(2) [OF drv assms(2) len, of q, folded ft'_def]
  have top: "ft_top ft' = ft_top ft" "ft_flags ft' = ft_flags ft" "ft_getpage ft' = ft_getpage ft" by (simp_all add: ft'_def)
  show "\<not> has (ft_flags ft) FT_ANON \<Longrightarrow> load_page ft' q = Some (mem (ent ft q))" by (rule l(2))
  have q: "align p = q \<longleftrightarrow> same_page p q" for p using assms(4) by (simp add: same_page_align)
  show "ft_page ft' mem p = ft_page ft mem p"
  proof (cases "align p = q")
    case True
    then have "ent ft p \<noteq> 0" using ent_page [of p q "ft_top ft"] q assms(3) by simp
    then show ?thesis by (simp add: ft_page_def top)
  qed (simp add: ft_page_def top l(1))
  show "ft_inv ft' \<sigma> mem"
    unfolding ft_inv_def top
  proof (intro conjI allI impI)
    fix p assume p: "ent ft p \<noteq> 0"
    show "has (ft_flags ft) FT_ANON \<or> is_dirty (ps_pi \<sigma>) (ent ft p) \<or> load_page ft' (align p) = Some (mem (ent ft p))"
    proof (cases "align p = q")
      case True
      then have "ent ft p = ent ft q" using ent_page [of p q "ft_top ft"] q by simp
      with True l(2) show ?thesis by auto
    next
      case False
      with p assms(1) l(1) show ?thesis by (simp add: ft_inv_def)
    qed
  next
    show "driver_ok ft'" using drv by (simp add: driver_defs ft'_def)
  qed (use assms(1) in \<open>simp_all add: ft_inv_def\<close>)
qed

lemma remove_entry:
  assumes "ft_inv ft \<sigma> mem" and "ent ft q \<noteq> 0" and "sys_ok \<sigma>'" and "ps_cache \<sigma>' = ps_cache \<sigma> - {ent ft q}"
    and "\<forall>g \<in> ps_cache \<sigma>'. is_dirty (ps_pi \<sigma>') g = is_dirty (ps_pi \<sigma>) g"
  shows "ft_inv (ft\<lparr>ft_top := set_ent q 0 (ft_top ft)\<rparr>) \<sigma>' mem"
    and "ft_page (ft\<lparr>ft_top := set_ent q 0 (ft_top ft)\<rparr>) mem p = (if same_page p q then load_page ft (align p) else ft_page ft mem p)"
proof -
  have sh: "shaped 12 (ft_top ft)" using assms(1) by (simp add: ft_inv_def)
  note e = ent_set [OF sh, of q 0]
  show "ft_page (ft\<lparr>ft_top := set_ent q 0 (ft_top ft)\<rparr>) mem p = (if same_page p q then load_page ft (align p) else ft_page ft mem p)"
    by (simp add: ft_page_def e)
  have o: "ent ft p \<noteq> ent ft q" if "ent ft p \<noteq> 0" "\<not> same_page p q" for p
    using assms(1) that unfolding ft_inv_def by blast
  show "ft_inv (ft\<lparr>ft_top := set_ent q 0 (ft_top ft)\<rparr>) \<sigma>' mem"
    unfolding ft_inv_def
  proof (intro conjI allI impI)
    fix p assume "ent (ft\<lparr>ft_top := set_ent q 0 (ft_top ft)\<rparr>) p \<noteq> 0"
    then have p: "\<not> same_page p q" "ent ft p \<noteq> 0" "ent (ft\<lparr>ft_top := set_ent q 0 (ft_top ft)\<rparr>) p = ent ft p"
      by (simp_all add: e split: if_splits)
    have i: "ent ft p \<in> ps_cache \<sigma>" "length (mem (ent ft p)) = 4096"
      "has (ft_flags ft) FT_ANON \<or> is_dirty (ps_pi \<sigma>) (ent ft p) \<or> load_page ft (align p) = Some (mem (ent ft p))"
      using assms(1) p(2) by (simp_all add: ft_inv_def)
    have c: "ent ft p \<in> ps_cache \<sigma>'" using i(1) o [OF p(2,1)] assms(4) by simp
    show "ent (ft\<lparr>ft_top := set_ent q 0 (ft_top ft)\<rparr>) p \<in> ps_cache \<sigma>'"
      "length (mem (ent (ft\<lparr>ft_top := set_ent q 0 (ft_top ft)\<rparr>) p)) = 4096" unfolding p(3) by (fact c i(2))+
    show "has (ft_flags (ft\<lparr>ft_top := set_ent q 0 (ft_top ft)\<rparr>)) FT_ANON \<or>
      is_dirty (ps_pi \<sigma>') (ent (ft\<lparr>ft_top := set_ent q 0 (ft_top ft)\<rparr>) p) \<or>
      load_page (ft\<lparr>ft_top := set_ent q 0 (ft_top ft)\<rparr>) (align p) = Some (mem (ent (ft\<lparr>ft_top := set_ent q 0 (ft_top ft)\<rparr>) p))"
      unfolding p(3) using i(3) c assms(5) by simp
  next
    fix p p' assume a: "ent (ft\<lparr>ft_top := set_ent q 0 (ft_top ft)\<rparr>) p \<noteq> 0"
      "ent (ft\<lparr>ft_top := set_ent q 0 (ft_top ft)\<rparr>) p = ent (ft\<lparr>ft_top := set_ent q 0 (ft_top ft)\<rparr>) p'"
    then have "ent ft p \<noteq> 0 \<and> ent ft p = ent ft p'" by (auto simp: e split: if_splits)
    then show "same_page p p'" using assms(1) unfolding ft_inv_def by blast
  next
    show "shaped 12 (ft_top (ft\<lparr>ft_top := set_ent q 0 (ft_top ft)\<rparr>))" using shaped_set_ent [OF sh] by simp
  qed (use assms(1,3) in \<open>simp_all add: ft_inv_def\<close>)
qed

lemma tryFreeFrame_spec:
  assumes "ft_ok ft st" and "\<not> has (ft_flags ft) FT_ANON" and "tryFreeFrame ft st = Ok (f, ft', st')"
  shows "ft_ok ft' st' \<and> same_driver ft ft' \<and> ft_size ft' = ft_size ft \<and> (\<forall>p. ft_page ft' (fs_mem st') p = ft_page ft (fs_mem st) p)"
proof -
  from assms(1) obtain \<sigma> where \<sigma>: "fs_pi st = ps_pi \<sigma>" "ft_inv ft \<sigma> (fs_mem st)" "\<forall>f. ps_refs \<sigma> f < 2 ^ 31"
    by (auto simp: ft_ok_def)
  from assms(3) obtain r where r: "try_node (ft_flush ft) st (ft_data ft) 12 (ft_top ft) 0 = Ok r"
    by (auto simp: tryFreeFrame_def kbind_Ok_iff)
  show ?thesis
  proof (cases r)
    case None
    with assms(1,3) r show ?thesis by (simp add: tryFreeFrame_def)
  next
    case (Some x)
    obtain g nd d where x: "x = (g, nd, d)" by (cases x)
    let ?st' = "st\<lparr>fs_pi := (fs_pi st)\<lparr>pi_cachedFrames := pi_cachedFrames (fs_pi st) - 1\<rparr>\<rparr>"
    from assms(3) r Some x have res: "ft' = ft\<lparr>ft_top := nd, ft_data := d\<rparr>" "st' = ?st'"
      by (simp_all add: tryFreeFrame_def)
    have sh: "shaped 12 (ft_top ft)" using \<sigma>(2) by (simp add: ft_inv_def)
    from try_node_spec [OF sh _ _ r [unfolded Some x]] obtain q where q: "align q = q" "g = ent ft q" "nd = set_ent q 0 (ft_top ft)"
      "try_entry (ft_flush ft) st (ft_data ft) (drop_bit 12 q) g = Ok (Some d)" by (auto simp: ent_of_leaf set_ent_def)
    from q(1) have pq: "push_bit 12 (drop_bit 12 q) = q" by (rule aligned_pos)
    from q(4) obtain flags where fl: "ent ft q \<noteq> 0" "piGetInfo (ent ft q) (ps_pi \<sigma>) = Ok flags" "flags AND 0xFFFFFFFF = 0"
      "d = (if has flags PI_DIRTY then (case ft_flush ft of None \<Rightarrow> ft_data ft | Some fl \<Rightarrow> snd (fl q (fs_mem st (ent ft q)) (ft_data ft))) else ft_data ft)"
      unfolding try_entry_def pq q(2) \<sigma>(1) by (auto simp: kbind_Ok_iff split: if_splits)
    let ?ft = "ft\<lparr>ft_data := d\<rparr>"
    have "driver_ok ft" using \<sigma>(2) by (simp add: ft_inv_def)
    with assms(2) obtain fn where fn: "ft_flush ft = Some fn" by (auto simp: driver_defs)
    have dirty: "has flags PI_DIRTY = is_dirty (ps_pi \<sigma>) (ent ft q)"
      using fl(2) by (auto simp: has_def is_dirty_def piGetInfo_def split: option.splits)
    have 1: "ft_inv ?ft \<sigma> (fs_mem st) \<and> (\<forall>p. ft_page ?ft (fs_mem st) p = ft_page ft (fs_mem st) p) \<and> load_page ?ft q = Some (fs_mem st (ent ft q))"
    proof (cases "has flags PI_DIRTY")
      case True
      with fl(4) fn have "d = snd (fn q (fs_mem st (ent ft q)) (ft_data ft))" by simp
      with flush_data [OF \<sigma>(2) fn fl(1) q(1)] assms(2) show ?thesis by blast
    next
      case False
      then have "d = ft_data ft" "\<not> is_dirty (ps_pi \<sigma>) (ent ft q)" using fl(4) dirty by simp_all
      moreover from this(2) have "load_page ft (align q) = Some (fs_mem st (ent ft q))"
        using \<sigma>(2) fl(1) assms(2) unfolding ft_inv_def by blast
      ultimately show ?thesis using \<sigma>(2) q(1) by simp
    qed
    define \<sigma>' where "\<sigma>' = \<sigma>\<lparr>ps_pi := (ps_pi \<sigma>)\<lparr>pi_cachedFrames := pi_cachedFrames (ps_pi \<sigma>) - 1\<rparr>, ps_cache := ps_cache \<sigma> - {ent ft q}\<rparr>"
    have c: "ent ft q \<in> ps_cache \<sigma>" using \<sigma>(2) fl(1) by (simp add: ft_inv_def)
    have s: "pi_ok \<sigma>" "small_phm (pi_phm (ps_pi \<sigma>))" using \<sigma>(2) by (simp_all add: ft_inv_def sys_ok_def)
    have "sys_ok \<sigma>'" using pi_step_ok [OF pi_step.evict [OF c fl(2,3)] s(1)] s(2) unfolding sys_ok_def \<sigma>'_def by simp
    moreover have "\<forall>g \<in> ps_cache \<sigma>'. is_dirty (ps_pi \<sigma>') g = is_dirty (ps_pi \<sigma>) g" by (simp add: \<sigma>'_def is_dirty_def)
    ultimately have "ft_inv (?ft\<lparr>ft_top := set_ent q 0 (ft_top ?ft)\<rparr>) \<sigma>' (fs_mem st)"
      "ft_page (?ft\<lparr>ft_top := set_ent q 0 (ft_top ?ft)\<rparr>) (fs_mem st) p = (if same_page p q then load_page ?ft (align p) else ft_page ?ft (fs_mem st) p)" for p
      using remove_entry [of ?ft \<sigma> "fs_mem st" q \<sigma>'] 1 fl(1) by (simp_all add: \<sigma>'_def)
    moreover have "?ft\<lparr>ft_top := set_ent q 0 (ft_top ?ft)\<rparr> = ft'" using res(1) q(3) by simp
    ultimately have i: "ft_inv ft' \<sigma>' (fs_mem st)"
      "ft_page ft' (fs_mem st) p = (if same_page p q then load_page ?ft (align p) else ft_page ?ft (fs_mem st) p)" for p by simp_all
    have "ft_page ft' (fs_mem st) p = ft_page ft (fs_mem st) p" for p
    proof (cases "same_page p q")
      case True
      then have "align p = q" "ent ft p = ent ft q" using q(1) ent_page [OF True] by (simp_all add: same_page_align)
      with True i(2) [of p] 1 fl(1) show ?thesis by (simp add: ft_page_def)
    qed (use i(2) [of p] 1 in simp)
    moreover have "fs_pi st' = ps_pi \<sigma>'" "fs_mem st' = fs_mem st" "ps_refs \<sigma>' = ps_refs \<sigma>" using res(2) \<sigma>(1) by (simp_all add: \<sigma>'_def)
    ultimately show ?thesis using i(1) \<sigma>(3) res(1) by (auto simp: ft_ok_def same_driver_def)
  qed
qed

lemma clean_dirty: "(v AND NOT PI_DIRTY) AND PI_DIRTY = 0"
  by (simp add: and.assoc)

text \<open>One page of \<open>flushTree\<close>: the pages read as before.\<close>

lemma flush_page_inv:
  assumes "ft_inv (ft\<lparr>ft_data := d\<rparr>) \<sigma> mem" and "align q = q"
    and "flush_page (ft_flush ft) mem (drop_bit 12 q) (ent ft q) (ps_pi \<sigma>, d) = Ok (pi, d')"
  shows "\<exists>\<sigma>'. ps_pi \<sigma>' = pi \<and> ps_refs \<sigma>' = ps_refs \<sigma> \<and> ft_inv (ft\<lparr>ft_data := d'\<rparr>) \<sigma>' mem \<and>
    (\<forall>p. ft_page (ft\<lparr>ft_data := d'\<rparr>) mem p = ft_page (ft\<lparr>ft_data := d\<rparr>) mem p)"
proof (cases "ft_flush ft = None \<or> ent ft q = 0")
  case True
  with assms show ?thesis by (intro exI [of _ \<sigma>]) (auto simp: flush_page_def split: option.splits)
next
  case False
  then obtain fl where fl: "ft_flush ft = Some fl" "ent ft q \<noteq> 0" by auto
  let ?ft = "ft\<lparr>ft_data := d\<rparr>" and ?f = "ent ft q"
  have ok: "sys_ok \<sigma>" "?f \<in> ps_cache \<sigma>" using assms(1) fl(2) by (simp_all add: ft_inv_def)
  from assms(3) fl obtain v where v: "pi_rmw ?f (\<lambda>v. v AND NOT PI_DIRTY) (ps_pi \<sigma>) = Ok (v, pi)"
    "d' = (if v AND PI_DIRTY \<noteq> 0 then snd (fl q (mem ?f) d) else d)"
    unfolding flush_page_def aligned_pos [OF assms(2)] by (auto simp: piCheckFlush_def kbind_Ok_iff)
  from sys_flag [OF ok v(1) entry_clean] obtain \<sigma>' where
    n: "sys_next \<sigma> pi (ps_refs \<sigma>) (\<lambda>g. if g = ?f then (v AND NOT PI_DIRTY) AND PI_DIRTY \<noteq> 0 else is_dirty (ps_pi \<sigma>) g) \<sigma>'"
    and dv: "is_dirty (ps_pi \<sigma>) ?f \<longleftrightarrow> v AND PI_DIRTY \<noteq> 0" by blast
  note nd = sys_nextD [OF n]
  have 1: "ft_inv (ft\<lparr>ft_data := d'\<rparr>) \<sigma> mem \<and> (\<forall>p. ft_page (ft\<lparr>ft_data := d'\<rparr>) mem p = ft_page ?ft mem p) \<and>
    (\<not> has (ft_flags ft) FT_ANON \<longrightarrow> load_page (ft\<lparr>ft_data := d'\<rparr>) q = Some (mem ?f))"
  proof (cases "v AND PI_DIRTY \<noteq> 0")
    case True
    with flush_data [OF assms(1), of fl q] fl assms(2) v(2) show ?thesis by simp
  next
    case False
    with dv have "\<not> is_dirty (ps_pi \<sigma>) ?f" by simp
    then have "has (ft_flags ft) FT_ANON \<or> load_page ?ft (align q) = Some (mem ?f)" using assms(1) fl(2) unfolding ft_inv_def by auto
    with False v(2) assms(1,2) show ?thesis by auto
  qed
  have "ft_inv (ft\<lparr>ft_data := d'\<rparr>) \<sigma>' mem"
    unfolding ft_inv_def
  proof (intro conjI allI impI)
    fix p assume p: "ent (ft\<lparr>ft_data := d'\<rparr>) p \<noteq> 0"
    then have i: "ent ft p \<in> ps_cache \<sigma>" "length (mem (ent ft p)) = 4096"
      "has (ft_flags ft) FT_ANON \<or> is_dirty (ps_pi \<sigma>) (ent ft p) \<or> load_page (ft\<lparr>ft_data := d'\<rparr>) (align p) = Some (mem (ent ft p))"
      using 1 by (simp_all add: ft_inv_def)
    show "ent (ft\<lparr>ft_data := d'\<rparr>) p \<in> ps_cache \<sigma>'" "length (mem (ent (ft\<lparr>ft_data := d'\<rparr>) p)) = 4096"
      using i nd(4) by simp_all
    show "has (ft_flags (ft\<lparr>ft_data := d'\<rparr>)) FT_ANON \<or> is_dirty (ps_pi \<sigma>') (ent (ft\<lparr>ft_data := d'\<rparr>) p) \<or>
      load_page (ft\<lparr>ft_data := d'\<rparr>) (align p) = Some (mem (ent (ft\<lparr>ft_data := d'\<rparr>) p))"
    proof (cases "ent ft p = ?f")
      case True
      with assms(1) p have "same_page p q" by (auto simp: ft_inv_def)
      with 1 True assms(2) show ?thesis by (auto simp: same_page_align)
    next
      case False
      with i(1,3) nd(5) [OF i(1)] nd(1) show ?thesis by simp
    qed
  next
    fix p p' assume "ent (ft\<lparr>ft_data := d'\<rparr>) p \<noteq> 0" "ent (ft\<lparr>ft_data := d'\<rparr>) p = ent (ft\<lparr>ft_data := d'\<rparr>) p'"
    then show "same_page p p'" using 1 unfolding ft_inv_def by blast
  qed (use 1 nd(2) in \<open>simp_all add: ft_inv_def\<close>)
  with 1 nd(1,3) show ?thesis by blast
qed

lemma ftFlush_spec:
  assumes "ft_ok ft st" and "ftFlush ft st = Ok (ft', st')"
  shows "ft_ok ft' st' \<and> same_driver ft ft' \<and> ft_size ft' = ft_size ft \<and> (\<forall>p. ft_page ft' (fs_mem st') p = ft_page ft (fs_mem st) p)"
proof -
  from assms(1) obtain \<sigma> where \<sigma>: "fs_pi st = ps_pi \<sigma>" "ft_inv ft \<sigma> (fs_mem st)" "\<forall>f. ps_refs \<sigma> f < 2 ^ 31"
    by (auto simp: ft_ok_def)
  from assms(2) obtain pi d where r: "flushTree (ft_flush ft) (fs_mem st) 12 (ft_top ft) 0 (ps_pi \<sigma>, ft_data ft) = Ok (pi, d)"
    "ft' = ft\<lparr>ft_data := d\<rparr>" "st' = st\<lparr>fs_pi := pi\<rparr>" using \<sigma>(1) by (auto simp: ftFlush_def kbind_Ok_iff)
  define P where "P = (\<lambda>s. \<exists>\<sigma>'. ps_pi \<sigma>' = fst s \<and> ps_refs \<sigma>' = ps_refs \<sigma> \<and> ft_inv (ft\<lparr>ft_data := snd s\<rparr>) \<sigma>' (fs_mem st) \<and>
    (\<forall>p. ft_page (ft\<lparr>ft_data := snd s\<rparr>) (fs_mem st) p = ft_page ft (fs_mem st) p))"
  have "P (pi, d)"
  proof (rule flushTree_inv [OF _ _ _ r(1)])
    show "shaped 12 (ft_top ft)" using \<sigma>(2) by (simp add: ft_inv_def)
    show "P (ps_pi \<sigma>, ft_data ft)" unfolding P_def using \<sigma> by auto
    fix q s s' assume q: "align q = q" "P s" "flush_page (ft_flush ft) (fs_mem st) (drop_bit 12 q) (leaf_of 12 q (ft_top ft) (nib 0 q)) s = Ok s'"
    from q(2) obtain \<sigma>1 where 1: "ps_pi \<sigma>1 = fst s" "ps_refs \<sigma>1 = ps_refs \<sigma>" "ft_inv (ft\<lparr>ft_data := snd s\<rparr>) \<sigma>1 (fs_mem st)"
      "\<forall>p. ft_page (ft\<lparr>ft_data := snd s\<rparr>) (fs_mem st) p = ft_page ft (fs_mem st) p" by (auto simp: P_def)
    from q(3) 1(1) have "flush_page (ft_flush ft) (fs_mem st) (drop_bit 12 q) (ent ft q) (ps_pi \<sigma>1, snd s) = Ok (fst s', snd s')"
      by (simp add: ent_of_leaf)
    from flush_page_inv [OF 1(3) q(1) this] 1(2,4) show "P s'" unfolding P_def by auto
  qed simp_all
  then show ?thesis using \<sigma>(3) r(2,3) by (auto simp: P_def ft_ok_def same_driver_def)
qed

section \<open>Truncating\<close>

lemma sys_uncache:
  assumes "sys_ok \<sigma>" and "f \<in> ps_cache \<sigma>"
  shows "\<exists>pi \<sigma>'. piUncache f (ps_pi \<sigma>) = Ok pi \<and> ps_pi \<sigma>' = pi \<and> sys_ok \<sigma>' \<and> ps_refs \<sigma>' = ps_refs \<sigma> \<and>
    ps_cache \<sigma>' = ps_cache \<sigma> - {f} \<and> (\<forall>g \<in> ps_cache \<sigma>'. is_dirty pi g = is_dirty (ps_pi \<sigma>) g)"
proof -
  have l: "f \<in> pi_live \<sigma>" using assms(2) by (simp add: pi_live_def)
  have ok: "pi_ok \<sigma>" using assms(1) by (simp add: sys_ok_def)
  from ok l obtain v where v: "pi_get f (pi_root (ps_pi \<sigma>)) = Some v" "0 < f" "f \<in> owned (pi_phm (ps_pi \<sigma>))"
    by (rule pi_ok_entry)
  from fp.free_law [OF pi_okD(2) [OF ok] v(3)] v(2) obtain phm where phm: "phmFreeFrame f (pi_phm (ps_pi \<sigma>)) = Ok phm" by auto
  with v(1) have "\<exists>pi. piUncache f (ps_pi \<sigma>) = Ok pi" by (simp add: piUncache_def pi_rmw_def)
  then obtain pi where pi: "piUncache f (ps_pi \<sigma>) = Ok pi" by blast
  have r: "pi_root pi = pi_set f (v AND NOT PI_CACHE) (pi_root (ps_pi \<sigma>))" "pm_num (pi_phm pi) = pm_num (pi_phm (ps_pi \<sigma>))"
    using pi v(1) phm phmFreeFrame_num [OF phm] by (auto simp: piUncache_def kbind_Ok_iff rmw_Ok split: if_splits)
  let ?s = "\<sigma>\<lparr>ps_pi := pi, ps_cache := ps_cache \<sigma> - {f}\<rparr>"
  have "sys_ok ?s" using pi_uncache_ok [OF ok assms(2) pi] assms(1) r(2) by (simp add: sys_ok_def small_phm_def)
  moreover have "is_dirty pi g = is_dirty (ps_pi \<sigma>) g" if "g \<in> ps_cache \<sigma> - {f}" for g
    using dirty_step [OF assms(1) l v(1) r(1), of g] that by (simp add: pi_live_def)
  ultimately show ?thesis using pi by (intro exI [of _ pi] exI [of _ ?s]) simp
qed

definition in_span :: "u64 \<Rightarrow> nat \<Rightarrow> nat \<Rightarrow> bool" where
  "in_span q lo hi \<longleftrightarrow> lo \<le> unat (align q) \<and> unat (align q) < hi"

lemma align_4096: "align p = p \<Longrightarrow> unat p mod 4096 = 0"
proof -
  assume "align p = p"
  then have "unat p = unat p - unat p mod 4096" using unat_align [of p] by simp
  then have "unat p = 4096 * (unat p div 4096)" by (simp add: minus_mod_eq_mult_div)
  then show ?thesis by (metis mod_mult_self1_is_0)
qed

lemma page_gap: "a mod 4096 = 0 \<Longrightarrow> b mod 4096 = 0 \<Longrightarrow> b \<le> a \<longleftrightarrow> a = b \<or> b + 4096 \<le> (a :: nat)"
proof -
  assume "a mod 4096 = 0" "b mod 4096 = 0"
  then obtain x y where xy: "a = 4096 * x" "b = 4096 * y" by (auto simp: mod_eq_0_iff_dvd elim!: dvdE)
  have "y \<le> x \<longleftrightarrow> x = y \<or> y + 1 \<le> x" by linarith
  then show ?thesis unfolding xy by linarith
qed

lemma align_step:
  assumes "align p = p" and "unat p + 4096 < 2 ^ 64"
  shows "unat (p + 0x1000) = unat p + 4096" and "align (p + 0x1000) = p + 0x1000"
proof -
  show u: "unat (p + 0x1000) = unat p + 4096" using assms(2) by (subst unat_add_lem [THEN iffD1]) simp_all
  have "unat (align (p + 0x1000)) = unat (p + 0x1000)" using unat_align [of "p + 0x1000"] align_4096 [OF assms(1)] u by simp
  then show "align (p + 0x1000) = p + 0x1000" by (simp add: word_unat_eq_iff)
qed

text \<open>Up to 4096 bytes below the end of the address space the loop of \<open>ftTruncate\<close> ends, without a panic.\<close>

lemma trunc_loop_spec:
  "ft_inv ft \<sigma> mem \<Longrightarrow> align pos = pos \<Longrightarrow> unat stop \<le> 2 ^ 64 - 4096 \<Longrightarrow>
   \<exists>root pi \<sigma>'. trunc_loop pos stop (ft_top ft) (ps_pi \<sigma>) = Some (Ok (root, pi)) \<and> ps_pi \<sigma>' = pi \<and> ps_refs \<sigma>' = ps_refs \<sigma> \<and>
     ft_inv (ft\<lparr>ft_top := root\<rparr>) \<sigma>' mem \<and>
     (\<forall>p. ft_page (ft\<lparr>ft_top := root\<rparr>) mem p = (if in_span p (unat pos) (unat stop) then load_page ft (align p) else ft_page ft mem p))"
proof (induction "unat stop - unat pos" arbitrary: pos ft \<sigma> rule: less_induct)
  case less
  show ?case
  proof (cases "pos < stop")
    case False
    then have "\<not> in_span p (unat pos) (unat stop)" for p by (auto simp: in_span_def word_less_nat_alt)
    with False less.prems(1) show ?thesis
      by (subst trunc_loop.simps) (auto intro!: exI [of _ \<sigma>])
  next
    case True
    have lt: "unat pos < unat stop" using True by (simp add: word_less_nat_alt)
    have "unat pos + 4096 < 2 ^ 64" using lt less.prems(3) by simp
    note st = align_step [OF less.prems(2) this]
    have dec: "unat stop - unat (pos + 0x1000) < unat stop - unat pos" using lt st(1) by simp
    have span: "in_span p (unat pos) (unat stop) \<longleftrightarrow> same_page p pos \<or> in_span p (unat (pos + 0x1000)) (unat stop)" for p
    proof -
      have d: "unat (align p) mod 4096 = 0" by (rule align_4096) simp
      have e: "unat pos mod 4096 = 0" by (rule align_4096 [OF less.prems(2)])
      have "unat (align p) = unat pos \<longleftrightarrow> same_page p pos"
        using less.prems(2) by (simp add: same_page_align word_unat_eq_iff)
      moreover have "unat pos \<le> unat (align p) \<longleftrightarrow> unat (align p) = unat pos \<or> unat pos + 4096 \<le> unat (align p)"
        by (rule page_gap [OF d e])
      ultimately show ?thesis using lt st(1) by (auto simp: in_span_def)
    qed
    show ?thesis
    proof (cases "ent ft pos = 0")
      case e: True
      from less.hyps [OF dec less.prems(1) st(2) less.prems(3)] obtain root pi \<sigma>' where
        h: "trunc_loop (pos + 0x1000) stop (ft_top ft) (ps_pi \<sigma>) = Some (Ok (root, pi))" "ps_pi \<sigma>' = pi" "ps_refs \<sigma>' = ps_refs \<sigma>"
          "ft_inv (ft\<lparr>ft_top := root\<rparr>) \<sigma>' mem"
          "\<forall>p. ft_page (ft\<lparr>ft_top := root\<rparr>) mem p = (if in_span p (unat (pos + 0x1000)) (unat stop) then load_page ft (align p) else ft_page ft mem p)"
        by blast
      have "ft_page ft mem p = load_page ft (align p)" if "same_page p pos" for p
        using ent_page [OF that, of "ft_top ft"] e by (simp add: ft_page_def)
      with h(5) have "\<forall>p. ft_page (ft\<lparr>ft_top := root\<rparr>) mem p = (if in_span p (unat pos) (unat stop) then load_page ft (align p) else ft_page ft mem p)"
        by (simp add: span)
      moreover have "trunc_loop pos stop (ft_top ft) (ps_pi \<sigma>) = Some (Ok (root, pi))"
        using True e h(1) by (subst trunc_loop.simps) simp
      ultimately show ?thesis using h(2-4) by blast
    next
      case e: False
      have ok: "sys_ok \<sigma>" "ent ft pos \<in> ps_cache \<sigma>" using less.prems(1) e by (simp_all add: ft_inv_def)
      from sys_uncache [OF ok] obtain pi1 \<sigma>1 where u: "piUncache (ent ft pos) (ps_pi \<sigma>) = Ok pi1" "ps_pi \<sigma>1 = pi1" "sys_ok \<sigma>1"
        "ps_refs \<sigma>1 = ps_refs \<sigma>" "ps_cache \<sigma>1 = ps_cache \<sigma> - {ent ft pos}" "\<forall>g \<in> ps_cache \<sigma>1. is_dirty (ps_pi \<sigma>1) g = is_dirty (ps_pi \<sigma>) g"
        by auto
      let ?ft = "ft\<lparr>ft_top := set_ent pos 0 (ft_top ft)\<rparr>"
      note rm = remove_entry [OF less.prems(1) e u(3,5,6)]
      from less.hyps [OF dec rm(1) st(2) less.prems(3)] obtain root pi \<sigma>' where
        h: "trunc_loop (pos + 0x1000) stop (ft_top ?ft) (ps_pi \<sigma>1) = Some (Ok (root, pi))" "ps_pi \<sigma>' = pi" "ps_refs \<sigma>' = ps_refs \<sigma>1"
          "ft_inv (?ft\<lparr>ft_top := root\<rparr>) \<sigma>' mem"
          "\<forall>p. ft_page (?ft\<lparr>ft_top := root\<rparr>) mem p = (if in_span p (unat (pos + 0x1000)) (unat stop) then load_page ?ft (align p) else ft_page ?ft mem p)"
        by blast
      have "\<forall>p. ft_page (ft\<lparr>ft_top := root\<rparr>) mem p = (if in_span p (unat pos) (unat stop) then load_page ft (align p) else ft_page ft mem p)"
        using h(5) by (simp add: span rm(2))
      moreover have "trunc_loop pos stop (ft_top ft) (ps_pi \<sigma>) = Some (Ok (root, pi))"
        using True e h(1) u(1,2) by (subst trunc_loop.simps) simp
      ultimately show ?thesis using h(2-4) u(4) by auto
    qed
  qed
qed

text \<open>
  A page of the file that is not in memory shows what the driver loads for it, \<open>load_byte\<close>; after the
  pages from \<open>lo\<close> to \<open>hi\<close> were dropped, the file shows \<open>dropped\<close>.
\<close>

definition load_byte :: "'d FileTree \<Rightarrow> nat \<Rightarrow> u8" where
  "load_byte ft i = (case load_page ft (of_nat (4096 * (i div 4096))) of Some b \<Rightarrow> b ! (i mod 4096) | None \<Rightarrow> 0)"

definition dropped :: "nat \<Rightarrow> nat \<Rightarrow> (nat \<Rightarrow> u8) \<Rightarrow> (nat \<Rightarrow> u8) \<Rightarrow> nat \<Rightarrow> u8" where
  "dropped lo hi L F = (\<lambda>i. if lo \<le> 4096 * (i div 4096) \<and> 4096 * (i div 4096) < hi then L i else F i)"

text \<open>
  What a file shows after \<open>ftTruncate\<close> to \<open>sz\<close> bytes: the bytes before \<open>sz\<close> stay, the rest of the last page is
  zero, and the pages after it, up to the old size, are those of the driver: zero in an anonymous
  tree, but what is stored on the disk otherwise, since nobody tells the driver.
\<close>

definition truncated :: "'d FileTree \<Rightarrow> nat \<Rightarrow> (nat \<Rightarrow> u8) \<Rightarrow> nat \<Rightarrow> u8" where
  "truncated ft sz F = (\<lambda>i. if i < sz then F i else if i < 4096 * ((sz + 4095) div 4096) then 0
     else if 4096 * (i div 4096) < unat (ft_size ft) then load_byte ft i else F i)"

lemma truncated_anon:
  assumes "has (ft_flags ft) FT_ANON" and "\<forall>i \<ge> unat (ft_size ft). F i = 0"
  shows "truncated ft sz F = (\<lambda>i. if i < sz then F i else 0)"
proof -
  have l: "load_byte ft i = 0" for i using assms(1) by (simp add: load_byte_def load_page_def)
  have "F i = 0" if "\<not> 4096 * (i div 4096) < unat (ft_size ft)" for i
  proof -
    have "4096 * (i div 4096) \<le> i" by simp
    then have "unat (ft_size ft) \<le> i" using that by linarith
    then show ?thesis using assms(2) by blast
  qed
  then show ?thesis by (auto simp: truncated_def l fun_eq_iff)
qed

lemma page_start: "j < 4096 \<Longrightarrow> 4096 * ((unat (align p) + j) div 4096) = unat (align p)"
proof -
  assume j: "j < 4096"
  have "unat (align p) mod 4096 = 0" by (rule align_4096) simp
  then obtain x where x: "unat (align p) = 4096 * x" by (auto simp: mod_eq_0_iff_dvd elim!: dvdE)
  show ?thesis unfolding x using j by simp
qed

text \<open>Bytes of a page that cannot be had do not show.\<close>

lemma fwrite_no_page:
  assumes "ft_shows ft mem F" and "ft_page ft mem (align sz) = None"
  shows "ft_shows ft mem (fwrite (unat sz) (replicate (4096 - page_off sz) 0) F)"
  unfolding ft_shows_def
proof (intro allI impI)
  fix p b and j :: nat assume b: "ft_page ft mem p = Some b" and j: "j < 4096"
  have "align p \<noteq> align sz"
  proof
    assume "align p = align sz"
    moreover have "ft_page ft mem (align q) = ft_page ft mem q" for q by (simp add: ft_page_def)
    ultimately show False using b assms(2) by (metis option.distinct(1))
  qed
  then have ne: "unat (align p) \<noteq> unat (align sz)" by (simp add: word_unat_eq_iff)
  have m: "unat (align p) mod 4096 = 0" "unat (align sz) mod 4096 = 0" by (simp_all add: align_4096)
  have a: "unat sz = unat (align sz) + page_off sz" "page_off sz < 4096"
    using unat_align [of sz] page_off_less [of sz] by (simp_all add: page_off_mod)
  have "unat (align p) + 4096 \<le> unat (align sz) \<or> unat (align sz) + 4096 \<le> unat (align p)"
    using ne page_gap [OF m] page_gap [OF m(2,1)] by linarith
  with a j have "unat (align p) + j < unat sz \<or> unat sz + (4096 - page_off sz) \<le> unat (align p) + j" by linarith
  then have "fwrite (unat sz) (replicate (4096 - page_off sz) 0) F (unat (align p) + j) = F (unat (align p) + j)"
    by (auto simp: fwrite_def)
  with assms(1) b j show "b ! j = fwrite (unat sz) (replicate (4096 - page_off sz) 0) F (unat (align p) + j)"
    unfolding ft_shows_def by metis
qed

lemma trunc_zero_spec:
  assumes inv: "ft_inv ft \<sigma> mem" and refs: "\<forall>f. ps_refs \<sigma> f < 2 ^ 31" and sh: "ft_shows ft mem F"
    and run: "trunc_zero sz ft \<lparr>fs_pi = ps_pi \<sigma>, fs_mem = mem\<rparr> = Ok (ft', st')"
  shows "\<exists>\<sigma>'. ft_next ft \<sigma> ft' st' \<sigma>' \<and>
    ft_shows ft' (fs_mem st') (if page_off sz = 0 then F else fwrite (unat sz) (replicate (4096 - page_off sz) 0) F)"
proof (cases "page_off sz = 0")
  case True
  then have "sz AND 0xFFF = 0" by (simp add: page_off_def unat_eq_zero)
  with run True inv sh show ?thesis by (intro exI [of _ \<sigma>]) (auto simp: trunc_zero_def ft_next_def)
next
  case False
  then have "sz AND 0xFFF \<noteq> 0" by (simp add: page_off_def unat_eq_zero)
  with run have "kbind (getPageUnlocked ft (align sz) \<lparr>fs_pi = ps_pi \<sigma>, fs_mem = mem\<rparr>) (\<lambda>(frame, ft, st).
      if frame \<noteq> 0 then
        let mem = (fs_mem st)(frame := page_put (page_off sz) (replicate (4096 - page_off sz) 0) (fs_mem st frame))
        in kbind (done_write frame (fs_pi st)) (\<lambda>pi. Ok (ft, \<lparr>fs_pi = pi, fs_mem = mem\<rparr>))
      else Ok (ft, st)) = Ok (ft', st')" by (simp add: trunc_zero_def)
  then obtain f ft1 st1 where g: "getPageUnlocked ft (align sz) \<lparr>fs_pi = ps_pi \<sigma>, fs_mem = mem\<rparr> = Ok (f, ft1, st1)"
    and rest: "(if f \<noteq> 0 then
        let mem = (fs_mem st1)(f := page_put (page_off sz) (replicate (4096 - page_off sz) 0) (fs_mem st1 f))
        in kbind (done_write f (fs_pi st1)) (\<lambda>pi. Ok (ft1, \<lparr>fs_pi = pi, fs_mem = mem\<rparr>))
      else Ok (ft1, st1)) = Ok (ft', st')" by (rule kbind3)
  from getPageUnlocked_spec [OF inv refs align_align g] obtain \<sigma>1 where
    1: "fs_pi st1 = ps_pi \<sigma>1" "ft_inv ft1 \<sigma>1 (fs_mem st1)" "same_meta ft ft1" "\<forall>p. ft_page ft1 (fs_mem st1) p = ft_page ft mem p"
      "if f = 0 then ft_page ft mem (align sz) = None \<and> ps_refs \<sigma>1 = ps_refs \<sigma>
       else ent ft1 (align sz) = f \<and> f \<in> ps_cache \<sigma>1 \<and> ps_refs \<sigma>1 = (ps_refs \<sigma>)(f := ps_refs \<sigma> f + 1)" by blast
  have sh1: "ft_shows ft1 (fs_mem st1) F" by (rule ft_shows_cong [OF 1(4) sh])
  show ?thesis
  proof (cases "f = 0")
    case True
    with 1(4,5) have "ft_page ft1 (fs_mem st1) (align sz) = None" by simp
    from fwrite_no_page [OF sh1 this] False True 1 rest show ?thesis
      by (intro exI [of _ \<sigma>1]) (auto simp: ft_next_def)
  next
  case f: False
  let ?z = "replicate (4096 - page_off sz) (0 :: u8)"
  let ?mem = "(fs_mem st1)(f := page_put (page_off sz) ?z (fs_mem st1 f))"
  from f rest 1(1) obtain pi where r: "done_write f (ps_pi \<sigma>1) = Ok pi" "ft' = ft1" "st' = \<lparr>fs_pi = pi, fs_mem = ?mem\<rparr>"
    by (auto simp: kbind_Ok_iff Let_def)
  from 1(5) f have e: "ent ft1 (align sz) = f" "ps_refs \<sigma>1 = (ps_refs \<sigma>)(f := ps_refs \<sigma> f + 1)" by simp_all
  have pg: "ft_page ft1 (fs_mem st1) (align sz) = Some (fs_mem st1 f)" using e(1) f by (simp add: ft_page_def)
  have len: "length (fs_mem st1 f) = 4096" by (rule ft_inv_page_len [OF 1(2) pg])
  have "length (page_put (page_off sz) ?z (fs_mem st1 f)) = 4096"
    using page_put_len [of "page_off sz" ?z] page_off_less [of sz] len by simp
  from write_page [OF 1(2) e(1) f _ r(1) this] e(2) obtain \<sigma>2 where
    2: "ps_pi \<sigma>2 = pi" "ft_inv ft1 \<sigma>2 ?mem" "ps_refs \<sigma>2 = ps_refs \<sigma>"
      "\<forall>q. ft_page ft1 ?mem q = (if same_page q (align sz) then Some (page_put (page_off sz) ?z (fs_mem st1 f)) else ft_page ft1 (fs_mem st1) q)"
    by auto
  have "ft_shows ft1 ?mem (fwrite (unat sz) ?z F)"
    by (rule write_shows [OF sh1 pg len]) (use 2(4) in \<open>simp_all add: align_same\<close>)
  with False 2 r 1(3) show ?thesis by (intro exI [of _ \<sigma>2]) (simp add: ft_next_def)
  qed
qed

lemma truncated_byte:
  fixes F :: "nat \<Rightarrow> u8"
  assumes "lo = 4096 * ((sz + 4095) div 4096)" and "off = sz mod 4096"
    and "F1 = (if sz < len then dropped lo len L F else F)"
  shows "(if off = 0 then F1 else fwrite sz (replicate (4096 - off) 0) F1) i =
    (if i < sz then F i else if i < lo then 0 else if 4096 * (i div 4096) < len then L i else F i)"
proof -
  have d: "i = 4096 * (i div 4096) + i mod 4096" "i mod 4096 < 4096" "sz = 4096 * (sz div 4096) + sz mod 4096" by simp_all
  have lo: "lo = (if off = 0 then sz else sz - off + 4096)"
  proof (cases "off = 0")
    case True
    then have "sz = 4096 * (sz div 4096)" using d(3) assms(2) by simp
    then obtain x where x: "sz = 4096 * x" by blast
    have "(4096 * x + 4095) div 4096 = x" by simp
    with True x show ?thesis unfolding assms(1) by simp
  next
    case False
    obtain x where x: "sz = 4096 * x + off" using d(3) assms(2) by blast
    have "off < 4096" using assms(2) by simp
    have "(sz + 4095) div 4096 = x + 1" unfolding x using False \<open>off < 4096\<close> by (simp add: div_nat_eqI)
    with False x show ?thesis unfolding assms(1) by simp
  qed
  have off: "off \<le> sz" "off < 4096" using assms(2) by simp_all
  then have fin: "sz \<le> lo" "off \<noteq> 0 \<Longrightarrow> sz + (4096 - off) = lo" using lo by auto
  have page: "4096 * (i div 4096) < lo \<longleftrightarrow> i < lo"
  proof -
    obtain x where x: "lo = 4096 * x" using assms(1) by blast
    have "i div 4096 < x \<longleftrightarrow> i < 4096 * x" by (simp add: div_less_iff_less_mult mult.commute)
    then show ?thesis unfolding x by simp
  qed
  consider "i < sz" | "sz \<le> i" "i < lo" | "lo \<le> i" using fin(1) by linarith
  then show ?thesis
  proof cases
    case 1
    then have "4096 * (i div 4096) < lo" using fin(1) page by linarith
    with 1 show ?thesis by (simp add: assms(3) dropped_def fwrite_def)
  next
    case 2
    then have "off \<noteq> 0" using lo by (cases "off = 0") simp_all
    with 2 fin(2) show ?thesis by (simp add: fwrite_def)
  next
    case 3
    then have l: "lo \<le> 4096 * (i div 4096)" "\<not> i < sz" "\<not> i < lo" using page fin(1) by auto
    have "(if off = 0 then F1 else fwrite sz (replicate (4096 - off) 0) F1) i = F1 i"
      using 3 fin by (auto simp: fwrite_def)
    also have "\<dots> = (if 4096 * (i div 4096) < len then L i else F i)"
    proof (cases "sz < len")
      case False
      then have "\<not> 4096 * (i div 4096) < len" using l(1) fin(1) by linarith
      with False show ?thesis by (simp add: assms(3))
    qed (use l(1) in \<open>simp add: assms(3) dropped_def\<close>)
    finally show ?thesis using l by simp
  qed
qed

lemma resized_none:
  "ft_inv (ft\<lparr>ft_size := sz\<rparr>) \<sigma> mem = ft_inv ft \<sigma> mem" "ft_page (ft\<lparr>ft_size := sz\<rparr>) mem p = ft_page ft mem p"
proof -
  have l: "load_page (ft\<lparr>ft_size := sz\<rparr>) p = load_page ft p" for p by (simp add: load_page_def split: option.split)
  show "ft_inv (ft\<lparr>ft_size := sz\<rparr>) \<sigma> mem = ft_inv ft \<sigma> mem" by (simp add: ft_inv_def l driver_defs)
  show "ft_page (ft\<lparr>ft_size := sz\<rparr>) mem p = ft_page ft mem p" by (simp add: ft_page_def l)
qed

lemma ftTruncate_spec:
  assumes ok: "ft_ok ft st" and sh: "ft_shows ft (fs_mem st) F"
    and fl: "\<not> has (ft_flags ft) FT_FIXED_SIZE" "\<not> has (ft_flags ft) FT_READONLY"
    and sz: "unat (ft_size ft) < 2 ^ 63" "unat sz < 2 ^ 63"
    and run: "ftTruncate ft sz st = Some (Ok (r, ft', st'))"
  shows "r = 0 \<and> ft_ok ft' st' \<and> same_driver ft ft' \<and> ft_size ft' = sz \<and> ft_shows ft' (fs_mem st') (truncated ft (unat sz) F)"
proof -
  from ok obtain \<sigma> where \<sigma>: "fs_pi st = ps_pi \<sigma>" "ft_inv ft \<sigma> (fs_mem st)" "\<forall>f. ps_refs \<sigma> f < 2 ^ 31"
    by (auto simp: ft_ok_def)
  let ?lo = "(sz + 0xFFF) AND page_mask"
  have "unat (sz + 0xFFF) = unat sz + 4095" using sz(2) by (subst unat_add_lem [THEN iffD1]) simp_all
  then have lo: "unat ?lo = 4096 * ((unat sz + 4095) div 4096)" by (simp add: unat_align minus_mod_eq_mult_div)
  define F1 where "F1 = (if sz < ft_size ft then dropped (unat ?lo) (unat (ft_size ft)) (load_byte ft) F else F)"
  have "\<exists>root pi \<sigma>'. (if sz < ft_size ft then trunc_loop ?lo (ft_size ft) (ft_top ft) (fs_pi st) else Some (Ok (ft_top ft, fs_pi st))) =
      Some (Ok (root, pi)) \<and> ps_pi \<sigma>' = pi \<and> ps_refs \<sigma>' = ps_refs \<sigma> \<and> ft_inv (ft\<lparr>ft_top := root\<rparr>) \<sigma>' (fs_mem st) \<and>
      ft_shows (ft\<lparr>ft_top := root\<rparr>) (fs_mem st) F1"
  proof (cases "sz < ft_size ft")
    case True
    have st: "unat (ft_size ft) \<le> 2 ^ 64 - 4096" using sz(1) by simp
    from trunc_loop_spec [OF \<sigma>(2) align_align st, of "sz + 0xFFF"] obtain root pi \<sigma>' where
      t: "trunc_loop ?lo (ft_size ft) (ft_top ft) (ps_pi \<sigma>) = Some (Ok (root, pi))" "ps_pi \<sigma>' = pi" "ps_refs \<sigma>' = ps_refs \<sigma>"
        "ft_inv (ft\<lparr>ft_top := root\<rparr>) \<sigma>' (fs_mem st)"
        "\<forall>p. ft_page (ft\<lparr>ft_top := root\<rparr>) (fs_mem st) p = (if in_span p (unat ?lo) (unat (ft_size ft)) then load_page ft (align p) else ft_page ft (fs_mem st) p)"
      by blast
    have "ft_shows (ft\<lparr>ft_top := root\<rparr>) (fs_mem st) F1"
      unfolding ft_shows_def
    proof (intro allI impI)
      fix p b and j :: nat assume b: "ft_page (ft\<lparr>ft_top := root\<rparr>) (fs_mem st) p = Some b" and j: "j < 4096"
      show "b ! j = F1 (unat (align p) + j)"
      proof (cases "in_span p (unat ?lo) (unat (ft_size ft))")
        case True
        with t(5) b have "load_page ft (align p) = Some b" by simp
        moreover have "(unat (align p) + j) mod 4096 = j"
          using j align_4096 [of "align p"] by (metis add_0 align_align mod_add_left_eq mod_less)
        ultimately have "load_byte ft (unat (align p) + j) = b ! j"
          using page_start [OF j, of p] by (simp add: load_byte_def)
        with True \<open>sz < ft_size ft\<close> page_start [OF j, of p] show ?thesis by (simp add: F1_def dropped_def in_span_def)
      next
        case False
        with t(5) b have "ft_page ft (fs_mem st) p = Some b" by simp
        with sh j have "b ! j = F (unat (align p) + j)" unfolding ft_shows_def by blast
        with False \<open>sz < ft_size ft\<close> page_start [OF j, of p] show ?thesis by (auto simp: F1_def dropped_def in_span_def)
      qed
    qed
    with True t \<sigma>(1) show ?thesis by auto
  next
    case False
    with \<sigma> sh show ?thesis by (auto simp: F1_def intro!: exI [of _ \<sigma>])
  qed
  then obtain root pi \<sigma>' where t: "(if sz < ft_size ft then trunc_loop ?lo (ft_size ft) (ft_top ft) (fs_pi st) else Some (Ok (ft_top ft, fs_pi st))) =
      Some (Ok (root, pi))" "ps_pi \<sigma>' = pi" "ps_refs \<sigma>' = ps_refs \<sigma>" "ft_inv (ft\<lparr>ft_top := root\<rparr>) \<sigma>' (fs_mem st)"
      "ft_shows (ft\<lparr>ft_top := root\<rparr>) (fs_mem st) F1" by blast
  from run fl t(1,2) obtain ft2 where r: "trunc_zero sz (ft\<lparr>ft_top := root\<rparr>) \<lparr>fs_pi = ps_pi \<sigma>', fs_mem = fs_mem st\<rparr> = Ok (ft2, st')"
    "r = 0" "ft' = ft2\<lparr>ft_size := sz\<rparr>"
    unfolding ftTruncate_def by (subst (asm) t(1)) (cases st, auto simp: kbind_Ok_iff)
  have refs: "\<forall>f. ps_refs \<sigma>' f < 2 ^ 31" using t(3) \<sigma>(3) by simp
  from trunc_zero_spec [OF t(4) refs t(5) r(1)] obtain \<sigma>2 where
    n: "ft_next (ft\<lparr>ft_top := root\<rparr>) \<sigma>' ft2 st' \<sigma>2"
      "ft_shows ft2 (fs_mem st') (if page_off sz = 0 then F1 else fwrite (unat sz) (replicate (4096 - page_off sz) 0) F1)" by auto
  have f1: "F1 = (if unat sz < unat (ft_size ft) then dropped (unat ?lo) (unat (ft_size ft)) (load_byte ft) F else F)"
    by (simp add: F1_def word_less_nat_alt)
  have F: "(if page_off sz = 0 then F1 else fwrite (unat sz) (replicate (4096 - page_off sz) 0) F1) = truncated ft (unat sz) F"
  proof
    fix i
    show "(if page_off sz = 0 then F1 else fwrite (unat sz) (replicate (4096 - page_off sz) 0) F1) i = truncated ft (unat sz) F i"
      unfolding truncated_byte [OF lo page_off_mod f1] truncated_def by (simp add: lo)
  qed
  have sizes: "ft_inv (ft2\<lparr>ft_size := sz\<rparr>) \<sigma>2 (fs_mem st') \<and> (\<forall>p. ft_page (ft2\<lparr>ft_size := sz\<rparr>) (fs_mem st') p = ft_page ft2 (fs_mem st') p)"
    using n(1) resized_none [where ft = ft2 and sz = sz] by (simp add: ft_next_def)
  have "same_driver ft ft2" using n(1) same_meta_fields(1) [of "ft\<lparr>ft_top := root\<rparr>" ft2] by (simp add: ft_next_def same_driver_def)
  with r sizes n refs F \<sigma>(3) t(3) show ?thesis
    by (auto simp: ft_ok_def same_driver_def ft_shows_def ft_next_def intro!: exI [of _ \<sigma>2])
qed

section \<open>Files\<close>

text \<open>
  A tree and the bytes \<open>F\<close> a user of the file has to find in it: what the file system loads, with
  the writes and truncations made since. Evictions and flushes do not show, nor does what the rest
  of the kernel does as long as it keeps the use counts and the contents of the cached pages.
  The driver does what \<open>ftree.h\<close> says and, as a condition of its own, no flush fails.
  \<open>ftGetFreePage\<close> takes pages from the trees of the list only, where no anonymous tree is.
\<close>

inductive ft_sys :: "'d FileTree \<Rightarrow> frames \<Rightarrow> (nat \<Rightarrow> u8) \<Rightarrow> bool" where
  create: "sys_ok \<sigma> \<Longrightarrow> fs_pi st = ps_pi \<sigma> \<Longrightarrow> \<forall>f. ps_refs \<sigma> f < 2 ^ 31 \<Longrightarrow> driver_doc ft \<Longrightarrow> flush_sure ft \<Longrightarrow>
    ft_top ft = Nodes (\<lambda>_. None) \<Longrightarrow> ft_getpage ft = None \<Longrightarrow> unat (ft_size ft) < 2 ^ 63 \<Longrightarrow>
    \<forall>p b. load_page ft (align p) = Some b \<longrightarrow> (\<forall>j < 4096. b ! j = F (unat (align p) + j)) \<Longrightarrow>
    (has (ft_flags ft) FT_ANON \<longrightarrow> F = (\<lambda>_. 0)) \<Longrightarrow> ft_sys ft st F"
| reading: "ft_sys ft st F \<Longrightarrow> unat pos + unat sz < 2 ^ 63 \<Longrightarrow> ftRead ft sz pos st = Ok (bs, ft', st') \<Longrightarrow> ft_sys ft' st' F"
| writing: "ft_sys ft st F \<Longrightarrow> \<not> has (ft_flags ft) FT_FIXED_SIZE \<Longrightarrow> unat pos + length buf < 2 ^ 63 \<Longrightarrow>
    ftWrite ft buf (of_nat (length buf)) pos st = Ok (n, ft', st') \<Longrightarrow> ft_sys ft' st' (fwrite (unat pos) (take (unat n) buf) F)"
| truncating: "ft_sys ft st F \<Longrightarrow> \<not> has (ft_flags ft) FT_FIXED_SIZE \<Longrightarrow> \<not> has (ft_flags ft) FT_READONLY \<Longrightarrow>
    unat sz < 2 ^ 63 \<Longrightarrow> ftTruncate ft sz st = Some (Ok (r, ft', st')) \<Longrightarrow> ft_sys ft' st' (truncated ft (unat sz) F)"
| evicting: "ft_sys ft st F \<Longrightarrow> \<not> has (ft_flags ft) FT_ANON \<Longrightarrow> tryFreeFrame ft st = Ok (f, ft', st') \<Longrightarrow> ft_sys ft' st' F"
| flushing: "ft_sys ft st F \<Longrightarrow> ftFlush ft st = Ok (ft', st') \<Longrightarrow> ft_sys ft' st' F"
| others: "ft_sys ft st F \<Longrightarrow> ft_ok ft st' \<Longrightarrow> \<forall>p. ent ft p \<noteq> 0 \<longrightarrow> fs_mem st' (ent ft p) = fs_mem st (ent ft p) \<Longrightarrow> ft_sys ft st' F"

lemma ent_empty: "ent_of (Nodes (\<lambda>_. None)) p = 0"
  by (simp add: ent_of_def eval_nat_numeral)

lemma shaped_empty: "shaped 12 (Nodes (\<lambda>_. None))"
  by (simp add: eval_nat_numeral)

lemma ft_sys_inv:
  "ft_sys ft st F \<Longrightarrow> ft_ok ft st \<and> ft_shows ft (fs_mem st) F \<and> unat (ft_size ft) < 2 ^ 63 \<and>
     (has (ft_flags ft) FT_ANON \<longrightarrow> (\<forall>i \<ge> unat (ft_size ft). F i = 0))"
proof (induction rule: ft_sys.induct)
  case (create \<sigma> st ft F)
  then have e: "ent ft p = 0" for p by (simp add: ent_empty)
  have "ft_shows ft (fs_mem st) F" using create(9) e by (simp add: ft_shows_def ft_page_def)
  moreover have "ft_ok ft st" using create e shaped_empty by (auto simp: ft_ok_def ft_inv_def driver_ok_def)
  ultimately show ?case using create(8,10) by simp
next
  case (reading ft st F pos sz bs ft' st')
  then have "unat pos + unat sz < 2 ^ 64" by simp
  from ftRead_spec [OF _ _ this reading(3), of F] reading(4) show ?case
    using same_meta_fields [of ft ft'] by (auto simp: same_driver_def intro: ft_shows_cong)
next
  case (writing ft st F pos buf n ft' st')
  then have "unat pos + length buf < 2 ^ 64" by simp
  from ftWrite_spec [OF _ _ this writing(2,4), of F] writing(3,5) show ?case
    by (auto simp: same_driver_def fwrite_def)
next
  case (truncating ft st F sz r ft' st')
  from ftTruncate_spec [OF _ _ truncating(2,3) _ truncating(4,5), of F] truncating(6)
  have t: "ft_ok ft' st'" "same_driver ft ft'" "ft_size ft' = sz" "ft_shows ft' (fs_mem st') (truncated ft (unat sz) F)"
    by simp_all
  have "truncated ft (unat sz) F i = 0" if "has (ft_flags ft) FT_ANON" "unat sz \<le> i" for i
    using truncated_anon [OF that(1)] truncating(6) that by simp
  with t truncating(4) show ?case by (auto simp: same_driver_def)
next
  case (evicting ft st F f ft' st')
  from tryFreeFrame_spec [OF _ evicting(2,3)] evicting(4) show ?case by (auto simp: same_driver_def intro: ft_shows_cong)
next
  case (flushing ft st F ft' st')
  from ftFlush_spec [OF _ flushing(2)] flushing(3) show ?case by (auto simp: same_driver_def intro: ft_shows_cong)
next
  case (others ft st F st')
  have "ft_page ft (fs_mem st') p = ft_page ft (fs_mem st) p" for p using others(3) by (simp add: ft_page_def)
  with others show ?case by (auto intro: ft_shows_cong)
qed

section \<open>Operations on cached pages do not panic\<close>

lemma cached_entry:
  assumes "sys_ok \<sigma>" and "f \<in> ps_cache \<sigma>"
  obtains v where "pi_get f (pi_root (ps_pi \<sigma>)) = Some v" and "entry_ok v (ps_refs \<sigma> f) True"
  using pi_ok_entry [of \<sigma> f] assms by (auto simp: sys_ok_def pi_live_def)

lemma rmw_total: "sys_ok \<sigma> \<Longrightarrow> f \<in> ps_cache \<sigma> \<Longrightarrow> \<exists>r. pi_rmw f h (ps_pi \<sigma>) = Ok r"
  by (rule cached_entry) (auto simp: pi_rmw_def)

lemma mark_total:
  assumes "sys_ok \<sigma>" and "f \<in> ps_cache \<sigma>"
  shows "\<exists>pi. piMarkAccessed f (ps_pi \<sigma>) = Ok pi" and "\<exists>pi. piMarkDirty f (ps_pi \<sigma>) = Ok pi"
    and "\<exists>pi. piIncref f (ps_pi \<sigma>) = Ok pi"
  using assms by (rule cached_entry; simp add: piMarkAccessed_def piMarkDirty_def piIncref_def pi_rmw_def)+

lemma decref_total:
  assumes "sys_ok \<sigma>" and "f \<in> ps_cache \<sigma>" and "0 < ps_refs \<sigma> f"
  shows "\<exists>pi. piDecref f (ps_pi \<sigma>) = Ok pi"
proof -
  from assms(1,2) obtain v where v: "pi_get f (pi_root (ps_pi \<sigma>)) = Some v" "entry_ok v (ps_refs \<sigma> f) True"
    by (rule cached_entry)
  have "(v - 1) AND PI_CACHE \<noteq> 0" using entry_read(2) [OF entry_dec [OF v(2) assms(3)]] by blast
  with v(1) show ?thesis by (simp add: piDecref_def pi_rmw_def)
qed

lemma done_read_total:
  assumes "sys_ok \<sigma>" and "f \<in> ps_cache \<sigma>" and "0 < ps_refs \<sigma> f"
  shows "\<exists>pi. done_read f (ps_pi \<sigma>) = Ok pi"
proof -
  from mark_total(1) [OF assms(1,2)] obtain pi1 where 1: "piMarkAccessed f (ps_pi \<sigma>) = Ok pi1" by blast
  from sys_accessed [OF assms(1,2) 1] obtain \<sigma>1 where n: "sys_next \<sigma> pi1 (ps_refs \<sigma>) (is_dirty (ps_pi \<sigma>)) \<sigma>1" by blast
  note n = sys_nextD [OF n]
  from decref_total [OF n(2), of f] n(1,3,4) assms 1 show ?thesis by (simp add: done_read_def)
qed

lemma done_write_total:
  assumes "sys_ok \<sigma>" and "f \<in> ps_cache \<sigma>" and "0 < ps_refs \<sigma> f"
  shows "\<exists>pi. done_write f (ps_pi \<sigma>) = Ok pi"
proof -
  from mark_total(1) [OF assms(1,2)] obtain pi1 where 1: "piMarkAccessed f (ps_pi \<sigma>) = Ok pi1" by blast
  from sys_accessed [OF assms(1,2) 1] obtain \<sigma>1 where n: "sys_next \<sigma> pi1 (ps_refs \<sigma>) (is_dirty (ps_pi \<sigma>)) \<sigma>1" by blast
  note n = sys_nextD [OF n]
  from mark_total(2) [OF n(2), of f] n(1,4) assms(2) obtain pi2 where 2: "piMarkDirty f pi1 = Ok pi2" by auto
  from sys_dirty [OF n(2), of f pi2] n(1,4) assms(2) 2 obtain \<sigma>2 where
    m: "sys_next \<sigma>1 pi2 (ps_refs \<sigma>1) (\<lambda>g. g = f \<or> is_dirty (ps_pi \<sigma>1) g) \<sigma>2" by auto
  note m = sys_nextD [OF m]
  from decref_total [OF m(2), of f] m(1,3,4) n(3,4) assms 1 2 show ?thesis by (simp add: done_write_def)
qed

text \<open>Reading and writing within one page whose frame can be had.\<close>

lemma one_page_read:
  assumes "ft_inv ft \<sigma> mem" and "\<forall>f. ps_refs \<sigma> f < 2 ^ 31" and "sz \<noteq> 0" and "chunk sz pos = sz"
    and "getPageUnlocked ft (align pos) \<lparr>fs_pi = ps_pi \<sigma>, fs_mem = mem\<rparr> = Ok (f, ft1, st1)" and "f \<noteq> 0"
  shows "\<exists>bs st'. read_loop sz pos ft \<lparr>fs_pi = ps_pi \<sigma>, fs_mem = mem\<rparr> = Ok (bs, ft1, st')"
proof -
  from getPageUnlocked_spec [OF assms(1,2) align_align assms(5)] assms(6) obtain \<sigma>1 where
    1: "fs_pi st1 = ps_pi \<sigma>1" "ft_inv ft1 \<sigma>1 (fs_mem st1)" "f \<in> ps_cache \<sigma>1" "ps_refs \<sigma>1 = (ps_refs \<sigma>)(f := ps_refs \<sigma> f + 1)" by auto
  then have "sys_ok \<sigma>1" "0 < ps_refs \<sigma>1 f" by (simp_all add: ft_inv_def)
  from done_read_total [OF this(1) 1(3) this(2)] obtain pi where "done_read f (ps_pi \<sigma>1) = Ok pi" by blast
  then show ?thesis using assms(3-6) 1(1) by (simp add: read_turn read_loop.simps [of 0])
qed

lemma one_page_write:
  assumes "ft_inv ft \<sigma> mem" and "\<forall>f. ps_refs \<sigma> f < 2 ^ 31" and "sz \<noteq> 0" and "chunk sz pos = sz"
    and "getPageUnlocked ft (align pos) \<lparr>fs_pi = ps_pi \<sigma>, fs_mem = mem\<rparr> = Ok (f, ft1, st1)" and "f \<noteq> 0"
  shows "\<exists>st'. write_loop scan sz pos ft \<lparr>fs_pi = ps_pi \<sigma>, fs_mem = mem\<rparr> = Ok (sz, ft1, st') \<and> ent ft1 pos = f"
proof -
  from getPageUnlocked_spec [OF assms(1,2) align_align assms(5)] assms(6) obtain \<sigma>1 where
    1: "fs_pi st1 = ps_pi \<sigma>1" "ft_inv ft1 \<sigma>1 (fs_mem st1)" "f \<in> ps_cache \<sigma>1" "ps_refs \<sigma>1 = (ps_refs \<sigma>)(f := ps_refs \<sigma> f + 1)"
      "ent ft1 pos = f" by auto
  then have "sys_ok \<sigma>1" "0 < ps_refs \<sigma>1 f" by (simp_all add: ft_inv_def)
  from done_write_total [OF this(1) 1(3) this(2)] obtain pi where "done_write f (ps_pi \<sigma>1) = Ok pi" by blast
  then show ?thesis using assms(3-6) 1(1,5) by (simp add: write_turn write_loop.simps [of _ 0])
qed

lemma getPage_cached:
  assumes "ft_inv ft \<sigma> mem" and "ent ft pos \<noteq> 0" and "align pos = pos"
  shows "\<exists>ft1 st1. getPageUnlocked ft pos \<lparr>fs_pi = ps_pi \<sigma>, fs_mem = mem\<rparr> = Ok (ent ft pos, ft1, st1)"
proof -
  have "sys_ok \<sigma>" "ent ft pos \<in> ps_cache \<sigma>" and sh: "shaped 12 (ft_top ft)" using assms(1,2) by (simp_all add: ft_inv_def)
  from mark_total(3) [OF this(1,2)] obtain pi where "piIncref (ent ft pos) (ps_pi \<sigma>) = Ok pi" by blast
  with assms(1,2) show ?thesis by (simp add: getPageUnlocked_def ent_make [OF sh] ft_inv_def)
qed

section \<open>An example\<close>

definition ft_demo :: "unit FileTree" where
  "ft_demo = ftCreate FT_ANON () \<lparr>rl_heap = \<lambda>_. undefined, rl_ranges = None, rl_requests = [], rl_new = 0\<rparr>"

definition demo_frames :: frames where
  "demo_frames = \<lparr>fs_pi = piInit \<lparr>pi_root = \<lambda>_. None, pi_cachedFrames = 0, pi_phm = phm_demo [] [] (replicate 8 0xFF @ replicate 9 0)\<rparr>,
     fs_mem = \<lambda>_. zero_page\<rparr>"

lemma demo_sys:
  obtains \<sigma> where "fs_pi demo_frames = ps_pi \<sigma>" and "sys_ok \<sigma>" and "\<forall>f. ps_refs \<sigma> f < 2 ^ 31"
proof
  let ?phm = "phm_demo [] [] (replicate 8 0xFF @ replicate 9 0)"
  let ?\<sigma> = "\<lparr>ps_pi = fs_pi demo_frames, ps_refs = \<lambda>_. 0, ps_cache = {}\<rparr>"
  have "phm_ok ?phm" by (simp add: phm_ok_def phm_demo_def cached_def used_def nth_append)
  then have "pi_reach ?\<sigma>" unfolding demo_frames_def by (auto intro!: pi_reach.start)
  then show "sys_ok ?\<sigma>" using pi_reach_ok [of ?\<sigma>] by (simp add: sys_ok_def small_phm_def demo_frames_def piInit_def phm_demo_def)
qed simp_all

lemma demo_anon: "has (ft_flags ft_demo) FT_ANON" "\<not> has (ft_flags ft_demo) FT_FIXED_SIZE" "\<not> has (ft_flags ft_demo) FT_READONLY"
  by (simp_all add: ft_demo_def ftCreate_def has_def)

lemma demo_page: "load_page (ft_demo\<lparr>ft_size := s\<rparr>) p = Some zero_page" "load_page ft_demo p = Some zero_page"
  using demo_anon by (simp_all add: load_page_def)

lemma demo_file:
  assumes "unat s < 2 ^ 63"
  shows "ft_sys (ft_demo\<lparr>ft_size := s\<rparr>) demo_frames (\<lambda>_. 0)"
proof -
  obtain \<sigma> where \<sigma>: "fs_pi demo_frames = ps_pi \<sigma>" "sys_ok \<sigma>" "\<forall>f. ps_refs \<sigma> f < 2 ^ 31" by (rule demo_sys)
  show ?thesis
  proof (rule ft_sys.create [OF \<sigma>(2,1,3)])
    show "driver_doc (ft_demo\<lparr>ft_size := s\<rparr>)" "flush_sure (ft_demo\<lparr>ft_size := s\<rparr>)"
      using demo_anon(1) by (simp_all add: driver_defs ft_demo_def ftCreate_def)
    show "\<forall>p b. load_page (ft_demo\<lparr>ft_size := s\<rparr>) (align p) = Some b \<longrightarrow> (\<forall>j < 4096. b ! j = 0)" by (auto simp: demo_page)
  qed (use assms in \<open>simp_all add: ft_demo_def ftCreate_def\<close>)
qed

lemma demo_ok: "ft_ok (ft_demo\<lparr>ft_size := s\<rparr>) demo_frames"
proof -
  have "ft_sys (ft_demo\<lparr>ft_size := 0\<rparr>) demo_frames (\<lambda>_. 0)" by (rule demo_file) simp
  from ft_sys_inv [OF this] have "ft_ok (ft_demo\<lparr>ft_size := 0\<rparr>) demo_frames" by blast
  then show ?thesis by (simp add: ft_ok_def resized_none)
qed

lemma demo_ft_page: "ft_page (ft_demo\<lparr>ft_size := s\<rparr>) mem p = Some zero_page"
  by (simp add: ft_page_def demo_page) (simp add: ft_demo_def ftCreate_def ent_empty)

lemma getPage_new:
  assumes "ft_getpage ft = None" and "shaped 12 (ft_top ft)" and "ent ft pos = 0" and "load_page ft pos = Some b"
    and "piNew PI_CACHE (fs_pi st) = Ok (f, pi)" and "f \<noteq> 0"
  shows "\<exists>ft1 st1. getPageUnlocked ft pos st = Ok (f, ft1, st1)"
  using assms by (simp add: getPageUnlocked_def Let_def ent_make)

lemma demo_getPage:
  obtains ft1 st1 where "getPageUnlocked (ft_demo\<lparr>ft_size := s\<rparr>) 0 demo_frames = Ok (64, ft1, st1)"
proof -
  let ?phm = "phm_demo [] [] (replicate 8 0xFF @ replicate 9 0)"
  have "case phmAllocFrame ?phm of Ok (f, _) \<Rightarrow> f = 64 | Panic \<Rightarrow> False" by code_simp
  then obtain phm' where "phmAllocFrame ?phm = Ok (64, phm')" by (auto split: kres.splits)
  then obtain pi where n: "piNew PI_CACHE (fs_pi demo_frames) = Ok (64, pi)" by (simp add: demo_frames_def piNew_def piInit_def)
  have "\<exists>ft1 st1. getPageUnlocked (ft_demo\<lparr>ft_size := s\<rparr>) 0 demo_frames = Ok (64, ft1, st1)"
    by (rule getPage_new [OF _ _ _ _ n]) (simp_all add: demo_page shaped_empty ent_empty, simp_all add: ft_demo_def ftCreate_def shaped_empty ent_empty)
  with that show thesis by blast
qed

section \<open>Properties\<close>

text \<open>A page whose flush failed is clean afterwards and nothing is stored: its bytes are in memory
  only until the next eviction.\<close>

lemma flush_fails:
  assumes "sys_ok \<sigma>" and "f \<in> ps_cache \<sigma>" and "f \<noteq> 0"
    and "flush_page (Some (\<lambda>_ _ d. (-1, d))) mem pos f (ps_pi \<sigma>, d) = Ok (pi', d')"
  shows "d' = d \<and> \<not> is_dirty pi' f"
proof -
  from assms(3,4) obtain v where v: "pi_rmw f (\<lambda>v. v AND NOT PI_DIRTY) (ps_pi \<sigma>) = Ok (v, pi')" "d' = d"
    unfolding flush_page_def by (auto simp: piCheckFlush_def kbind_Ok_iff)
  from sys_flag(1) [OF assms(1,2) v(1) entry_clean] obtain \<sigma>' where
    "sys_next \<sigma> pi' (ps_refs \<sigma>) (\<lambda>g. if g = f then (v AND NOT PI_DIRTY) AND PI_DIRTY \<noteq> 0 else is_dirty (ps_pi \<sigma>) g) \<sigma>'"
    by blast
  note n = sys_nextD [OF this]
  from n(5) [OF assms(2)] have "\<not> is_dirty pi' f" unfolding clean_dirty n(1) by simp
  with v(2) show ?thesis by simp
qed












text \<open>C17: a read after a write of the same range gives the bytes that were written, and the write writes all
  of them, when every page of the file is in memory or can be loaded.\<close>
theorem ft_write_read:
  assumes "ft_sys ft st F" and "\<not> has (ft_flags ft) FT_FIXED_SIZE" and "unat pos + length buf < 2 ^ 63"
    and "\<forall>p. ft_page ft (fs_mem st) p \<noteq> None"
    and "ftWrite ft buf (of_nat (length buf)) pos st = Ok (n, ft1, st1)"
    and "ftRead ft1 (of_nat (length buf)) pos st1 = Ok (bs, ft2, st2)"
  shows "unat n = length buf \<and> bs = buf"
proof -
  from assms(3) have b: "unat pos + length buf < 2 ^ 64" by simp
  have l: "unat (of_nat (length buf) :: u64) = length buf" using b by (simp add: unsigned_of_nat take_bit_nat_eq_self)
  from ftWrite_spec [OF _ _ b assms(2,5), of F] ft_sys_inv [OF assms(1)] assms(4) have
    w: "unat n = length buf" "unat pos + length buf \<le> unat (ft_size ft1)" "\<forall>p. ft_page ft1 (fs_mem st1) p \<noteq> None" by auto
  have "ft_sys ft1 st1 (fwrite (unat pos) (take (unat n) buf) F)" by (rule ft_sys.writing [OF assms(1-3,5)])
  then have s: "ft_sys ft1 st1 (fwrite (unat pos) buf F)" using w(1) by simp
  from b have "unat pos + unat (of_nat (length buf) :: u64) < 2 ^ 64" using l by simp
  from ftRead_spec [OF _ _ this assms(6), of "fwrite (unat pos) buf F"] ft_sys_inv [OF s] w(2,3) l
  have "bs = map (fwrite (unat pos) buf F) [unat pos..<unat pos + length buf]" by (auto simp: readable_def)
  also have "\<dots> = buf" by (rule nth_equalityI) (simp_all add: fwrite_def)
  finally show ?thesis using w(1) by simp
qed

theorem ft_write_read_witness:
  "\<exists>n ft1 st1 bs ft2 st2. ftWrite ft_demo [7, 8] 2 1 demo_frames = Ok (n, ft1, st1) \<and>
     ftRead ft1 2 1 st1 = Ok (bs, ft2, st2) \<and> n = 2 \<and> bs = [7, 8]"
proof -
  have size0: "ft_demo\<lparr>ft_size := 0\<rparr> = ft_demo" by (simp add: ft_demo_def ftCreate_def)
  have f: "ft_sys ft_demo demo_frames (\<lambda>_. 0)" using demo_file [of 0] size0 by simp
  let ?ft = "ft_demo\<lparr>ft_size := 3\<rparr>"
  from demo_ok [of 3] obtain \<sigma> where \<sigma>: "fs_pi demo_frames = ps_pi \<sigma>" "ft_inv ?ft \<sigma> (fs_mem demo_frames)" "\<forall>f. ps_refs \<sigma> f < 2 ^ 31"
    by (auto simp: ft_ok_def)
  have d: "\<lparr>fs_pi = ps_pi \<sigma>, fs_mem = fs_mem demo_frames\<rparr> = demo_frames" using \<sigma>(1) by simp
  obtain ft1 st0 where g: "getPageUnlocked ?ft 0 demo_frames = Ok (64, ft1, st0)" by (rule demo_getPage)
  have c: "align 1 = 0" "chunk 2 1 = 2" by (simp_all add: page_mask_def chunk_def)
  from one_page_write [OF \<sigma>(2,3) _ c(2), of 64 ft1 st0 "[7, 8]", unfolded c(1) d, OF _ g] obtain st1
    where w: "write_loop [7, 8] 2 1 ?ft demo_frames = Ok (2, ft1, st1)" "ent ft1 1 = 64" by auto
  have W: "ftWrite ft_demo [7, 8] 2 1 demo_frames = Ok (2, ft1, st1)"
    using w(1) demo_anon(2) by (simp add: ftWrite_def) (simp add: ft_demo_def ftCreate_def)
  have "ft_sys ft1 st1 (fwrite 1 (take 2 [7, 8]) (\<lambda>_. 0))"
    using ft_sys.writing [OF f demo_anon(2), of 1 "[7, 8]" 2 ft1 st1] W by simp
  from ft_sys_inv [OF this] obtain \<sigma>1 where
    1: "fs_pi st1 = ps_pi \<sigma>1" "ft_inv ft1 \<sigma>1 (fs_mem st1)" "\<forall>f. ps_refs \<sigma>1 f < 2 ^ 31" by (auto simp: ft_ok_def)
  have d1: "\<lparr>fs_pi = ps_pi \<sigma>1, fs_mem = fs_mem st1\<rparr> = st1" using 1(1) by simp
  have a0: "align 0 = 0" by simp
  have e0: "ent ft1 0 = 64" using w(2) ent_align [of "ft_top ft1" 1] c(1) by simp
  from getPage_cached [OF 1(2) _ a0] e0 obtain ft2 st2 where g2: "getPageUnlocked ft1 0 st1 = Ok (64, ft2, st2)" using d1 by auto
  from one_page_read [OF 1(2,3) _ c(2), of 64 ft2 st2, unfolded c(1) d1, OF _ g2] obtain bs st3
    where r: "read_loop 2 1 ft1 st1 = Ok (bs, ft2, st3)" by auto
  have "same_meta ?ft ft1" using getPageUnlocked_spec [OF \<sigma>(2,3) a0, of 64 ft1 st0] g d by auto
  then have "ft_size ft1 = 3" using same_meta_fields(2) [of ?ft ft1] by simp
  with r have R: "ftRead ft1 2 1 st1 = Ok (bs, ft2, st3)" by (simp add: ftRead_def word_le_nat_alt)
  have pages: "\<forall>p. ft_page ft_demo (fs_mem demo_frames) p \<noteq> None" using demo_ft_page [of 0] size0 by simp
  have "unat (2 :: u64) = length [7, 8 :: u8] \<and> bs = [7, 8]"
    by (rule ft_write_read [OF f demo_anon(2) _ pages, of 1 "[7, 8]" 2 ft1 st1 bs ft2 st3]) (use W R in simp_all)
  with W R show ?thesis by blast
qed

lemma trunc_loop_never:
  assumes "trunc_loop pos stop root pi = Some r"
  shows "align pos = pos \<Longrightarrow> 2 ^ 64 - 4096 < unat stop \<Longrightarrow> ft_inv ft \<sigma> mem \<Longrightarrow> root = ft_top ft \<Longrightarrow> pi = ps_pi \<sigma> \<Longrightarrow> False"
  using assms
proof (induction pos stop root pi r arbitrary: ft \<sigma> rule: trunc_loop.raw_induct [rotated, consumes 1, case_names step])
  case (step rec pos stop root pi r)
  have m: "unat pos mod 4096 = 0" using step(3) by (rule align_4096)
  have "pos < stop"
  proof -
    have "unat pos < 2 ^ LENGTH(64)" by (rule unsigned_less)
    then have "unat pos < 18446744073709551616" by simp
    moreover obtain x where x: "unat pos = 4096 * x" using m minus_mod_eq_mult_div [of "unat pos" 4096] by auto
    ultimately have "x \<le> 4503599627370495" by simp
    then have "unat pos \<le> 18446744073709547520" unfolding x by simp
    with step(4) show ?thesis by (simp add: word_less_nat_alt)
  qed
  moreover have "align (pos + 0x1000) = pos + 0x1000"
  proof -
    have "unat (pos + 0x1000) = (unat pos + 4096) mod 2 ^ 64" by (simp add: unat_word_ariths)
    then have "unat (pos + 0x1000) mod 4096 = (unat pos + 4096) mod 4096" by (simp add: mod_mod_cancel)
    with m have "unat (align (pos + 0x1000)) = unat (pos + 0x1000)" by (simp add: unat_align)
    then show ?thesis by (simp add: word_unat_eq_iff)
  qed
  moreover have "rec (pos + 0x1000) stop root pi = Some r \<or>
    (\<exists>pi1. ent_of root pos \<noteq> 0 \<and> piUncache (ent_of root pos) pi = Ok pi1 \<and> rec (pos + 0x1000) stop (set_ent pos 0 root) pi1 = Some r)"
  proof (cases "ent ft pos = 0")
    case False
    then have "sys_ok \<sigma>" "ent ft pos \<in> ps_cache \<sigma>" using step(5) by (simp_all add: ft_inv_def)
    from sys_uncache [OF this] obtain pi1 where "piUncache (ent ft pos) (ps_pi \<sigma>) = Ok pi1" by blast
    with False step(2,6,7) calculation(1) show ?thesis by simp
  qed (use step(2,6) calculation(1) in simp)
  ultimately consider "align (pos + 0x1000) = pos + 0x1000" "rec (pos + 0x1000) stop root pi = Some r"
    | pi1 where "align (pos + 0x1000) = pos + 0x1000" "ent ft pos \<noteq> 0" "piUncache (ent ft pos) (ps_pi \<sigma>) = Ok pi1"
        "rec (pos + 0x1000) stop (set_ent pos 0 root) pi1 = Some r"
    using step(6,7) by blast
  then show False
  proof cases
    case 1
    from step(1) [OF 1(2,1) step(4-7)] show False .
  next
    case 2
    then have "sys_ok \<sigma>" "ent ft pos \<in> ps_cache \<sigma>" using step(5) by (simp_all add: ft_inv_def)
    from sys_uncache [OF this] 2(3) obtain \<sigma>1 where u: "ps_pi \<sigma>1 = pi1" "sys_ok \<sigma>1" "ps_cache \<sigma>1 = ps_cache \<sigma> - {ent ft pos}"
      "\<forall>g \<in> ps_cache \<sigma>1. is_dirty (ps_pi \<sigma>1) g = is_dirty (ps_pi \<sigma>) g" by auto
    from step(1) [OF 2(4,1) step(4) remove_entry(1) [OF step(5) 2(2) u(2-4)]] u(1) step(6) show False by simp
  qed
qed

text \<open>C18: \<open>ftTruncate\<close> returns exactly when it refuses, when it does not make the file smaller or when the
  file is at least 4096 bytes smaller than the address space; from a larger file, such as one that
  \<open>ftruncate(fd, -1)\<close> made, its loop wraps and never ends.\<close>
theorem ftTruncate_returns:
  assumes "ft_ok ft st"
  shows "(\<exists>r. ftTruncate ft sz st = Some r) \<longleftrightarrow>
    has (ft_flags ft) FT_FIXED_SIZE \<or> has (ft_flags ft) FT_READONLY \<or> ft_size ft \<le> sz \<or> unat (ft_size ft) \<le> 2 ^ 64 - 4096"
proof -
  from assms obtain \<sigma> where \<sigma>: "fs_pi st = ps_pi \<sigma>" "ft_inv ft \<sigma> (fs_mem st)" by (auto simp: ft_ok_def)
  let ?t = "trunc_loop ((sz + 0xFFF) AND page_mask) (ft_size ft) (ft_top ft) (fs_pi st)"
  have "?t \<noteq> None \<longleftrightarrow> unat (ft_size ft) \<le> 2 ^ 64 - 4096"
  proof
    assume "unat (ft_size ft) \<le> 2 ^ 64 - 4096"
    from trunc_loop_spec [OF \<sigma>(2) align_align this, of "sz + 0xFFF"] \<sigma>(1) show "?t \<noteq> None" by auto
  next
    assume "?t \<noteq> None"
    then obtain r where r: "?t = Some r" by blast
    show "unat (ft_size ft) \<le> 2 ^ 64 - 4096"
      using trunc_loop_never [OF r align_align _ \<sigma>(2) refl \<sigma>(1)] by (meson not_less)
  qed
  then show ?thesis by (auto simp: ftTruncate_def not_less split: option.split kres.split)
qed

theorem ftTruncate_returns_witness:
  "(\<exists>r. ftTruncate (ft_demo\<lparr>ft_size := 2\<rparr>) 1 demo_frames = Some r) \<and>
   \<not> (\<exists>r. ftTruncate (ft_demo\<lparr>ft_size := 0xFFFFFFFFFFFFFFFF\<rparr>) 0 demo_frames = Some r)"
  unfolding ftTruncate_returns [OF demo_ok] using demo_anon by (simp add: word_le_nat_alt)

text \<open>After \<open>ftUncache\<close>, which the last \<open>unlink\<close> of an open file calls, a page that was not in memory
  reads as zeroes, whatever the file system would have loaded.\<close>

theorem ftUncache_zeroes:
  assumes "ent ft p = 0"
  shows "ft_page (ftUncache ft) mem p = Some zero_page"
proof -
  have "(ft_flags ft OR FT_ANON) AND FT_ANON = FT_ANON" by (rule bit_eqI) (auto simp: bit_and_iff bit_or_iff)
  then show ?thesis using assms by (simp add: ft_page_def load_page_def ftUncache_def has_def)
qed

end
