(* ===== verification/Gx_ProcMem.thy ===== *)
theory Gx_ProcMem
  imports Gx_FileTree
begin

text \<open>
  \<open>kernel/src/thread/procmem.c\<close>: the address spaces of processes. An address space is a list of
  segments that cover the 512 GB below \<open>ADDR_MAX\<close> and a tree of page tables of three levels of 512
  entries.

  Positions and sizes are in pages: every segment begins at a multiple of 4096, and the comparison of
  such a position with an address is that with the page of the address. The doubly linked list of
  segments is a HOL list; the operations split it where the code stands. File trees are reached through
  their addresses in the store \<open>ve_fts\<close> (a freed tree is \<open>None\<close>), frames are those of \<open>Gx_FileTree\<close>. A
  page-table entry of a table that is not present reads as none. The semaphore \<open>lock\<close> is its number of
  resources: a call that finds none sleeps, which is the result \<open>None\<close>; the rest of a call is one step.
  \<open>Panic\<close> is a panic, a failed assertion or a fault of the kernel itself. \<open>NEW\<close> returns an object, and
  the invalidation of the TLB leaves the state as it is.
\<close>

section \<open>State\<close>

abbreviation EACCES :: int where "EACCES \<equiv> 2"
abbreviation ENODEV :: int where "ENODEV \<equiv> 45"
abbreviation ENOMEM :: int where "ENOMEM \<equiv> 50"

abbreviation PROT_READ :: u32 where "PROT_READ \<equiv> 1"
abbreviation PROT_WRITE :: u32 where "PROT_WRITE \<equiv> 2"
abbreviation PROT_EXEC :: u32 where "PROT_EXEC \<equiv> 4"
abbreviation PROT_ALL :: u32 where "PROT_ALL \<equiv> 7"
abbreviation MAP_PRIVATE :: u32 where "MAP_PRIVATE \<equiv> 1"
abbreviation MAP_SHARED :: u32 where "MAP_SHARED \<equiv> 2"
abbreviation MAP_ANON :: u32 where "MAP_ANON \<equiv> 4"
abbreviation MAP_FIXED :: u32 where "MAP_FIXED \<equiv> 8"
abbreviation MAP_THREAD :: u32 where "MAP_THREAD \<equiv> 16"
abbreviation MAP_UN :: u32 where "MAP_UN \<equiv> 32"
abbreviation PF_WRITE :: u32 where "PF_WRITE \<equiv> 2"
abbreviation PF_FETCH :: u32 where "PF_FETCH \<equiv> 16"

abbreviation addr_pages :: nat where "addr_pages \<equiv> 0x8000000"

text \<open>The fields of a page-table entry that the kernel and the processor use.\<close>

record PTe =
  pte_present :: bool
  pte_rw :: bool
  pte_user :: bool
  pte_accessed :: bool
  pte_dirty :: bool
  pte_frame :: nat
  gx_r :: bool
  gx_w :: bool
  gx_x :: bool
  gx_loaded :: bool
  gx_cow :: bool
  gx_shared :: bool
  gx_perm_ovr :: bool
  pte_xd :: bool

definition zero_pte :: PTe where
  "zero_pte = \<lparr>pte_present = False, pte_rw = False, pte_user = False, pte_accessed = False, pte_dirty = False,
     pte_frame = 0, gx_r = False, gx_w = False, gx_x = False, gx_loaded = False, gx_cow = False,
     gx_shared = False, gx_perm_ovr = False, pte_xd = False\<rparr>"

text \<open>An entry of the upper levels is the frame and the contents of a table, or not present.\<close>

type_synonym PT = "nat \<Rightarrow> PTe"
type_synonym PD = "nat \<Rightarrow> (nat \<times> PT) option"
type_synonym PDPT = "nat \<Rightarrow> (nat \<times> PD) option"

record Segment =
  seg_pages :: nat \<comment> \<open>\<open>numPages\<close>\<close>
  seg_ft :: "nat option"
  seg_offset :: u64
  seg_creator :: "nat option"
  seg_flags :: u32
  seg_prot :: u32
  seg_access :: u32

record ProcMem =
  pm_lock :: nat
  pm_segs :: "Segment list"
  pm_refcount :: int
  pm_phys :: nat
  pm_pdpt :: PDPT \<comment> \<open>the tables in the frame \<open>pm_phys\<close>\<close>

text \<open>What the address spaces share: frames, file trees, and the threads with their \<open>blockPhys\<close>,
  of which \<open>ve_woken\<close> have been signalled.\<close>

record 'd vmenv =
  ve_fr :: frames
  ve_fts :: "nat \<Rightarrow> 'd FileTree option"
  ve_threads :: "(nat \<times> u64) list"
  ve_woken :: "nat list"

text \<open>The fields of a \<open>File\<close> that \<open>vmMap\<close> reads: \<open>iref.inode->ft\<close> and \<open>oflags\<close>.\<close>

record MapFile =
  mf_ft :: "nat option"
  mf_oflags :: u32

text \<open>The block that \<open>NEW(FileTree)\<close> returns in \<open>ftCreate\<close>: its address and what it holds.\<close>

type_synonym 'd newtree = "nat \<times> 'd \<times> RangeLock"

type_synonym 'd vm = "ProcMem \<times> 'd vmenv"

section \<open>Page tables\<close>

text \<open>\<open>getPage(addr, 0)\<close>; \<open>page\<close> is \<open>addr >> 12\<close>.\<close>

definition pte_at :: "PDPT \<Rightarrow> nat \<Rightarrow> PTe option" where
  "pte_at pdpt page =
     (case pdpt (page div 2 ^ 18) of None \<Rightarrow> None
      | Some (_, pd) \<Rightarrow> (case pd ((page div 2 ^ 9) mod 2 ^ 9) of None \<Rightarrow> None
      | Some (_, pt) \<Rightarrow> Some (pt (page mod 2 ^ 9))))"

text \<open>An assignment through the pointer that \<open>getPage\<close> returned.\<close>

definition put_pte :: "nat \<Rightarrow> PTe \<Rightarrow> PDPT \<Rightarrow> PDPT" where
  "put_pte page pte pdpt =
     (case pdpt (page div 2 ^ 18) of None \<Rightarrow> pdpt
      | Some (f, pd) \<Rightarrow> (case pd ((page div 2 ^ 9) mod 2 ^ 9) of None \<Rightarrow> pdpt
      | Some (g, pt) \<Rightarrow>
          pdpt(page div 2 ^ 18 \<mapsto> (f, pd((page div 2 ^ 9) mod 2 ^ 9 \<mapsto> (g, pt(page mod 2 ^ 9 := pte)))))))"

text \<open>\<open>phmAllocZeroFrame\<close> for a table, whose entries are all zero.\<close>

definition alloc_table :: "pageinfo \<Rightarrow> (nat \<times> pageinfo) kres" where
  "alloc_table pi = kbind (phmAllocFrame (pi_phm pi)) (\<lambda>(f, phm). Ok (f, pi\<lparr>pi_phm := phm\<rparr>))"

text \<open>\<open>getPage(addr, 1)\<close>: the entry, in tables that are made where they are missing.\<close>

definition getPage :: "nat \<Rightarrow> PDPT \<Rightarrow> pageinfo \<Rightarrow> (PTe \<times> PDPT \<times> pageinfo) kres" where
  "getPage page pdpt pi =
     kbind (case pdpt (page div 2 ^ 18) of
              None \<Rightarrow> kbind (alloc_table pi) (\<lambda>(f, pi). Ok (f, \<lambda>_. None, pi))
            | Some (f, pd) \<Rightarrow> Ok (f, pd, pi)) (\<lambda>(f, pd, pi).
     kbind (case pd ((page div 2 ^ 9) mod 2 ^ 9) of
              None \<Rightarrow> kbind (alloc_table pi) (\<lambda>(g, pi). Ok (g, \<lambda>_. zero_pte, pi))
            | Some (g, pt) \<Rightarrow> Ok (g, pt, pi)) (\<lambda>(g, pt, pi).
     Ok (pt (page mod 2 ^ 9), pdpt(page div 2 ^ 18 \<mapsto> (f, pd((page div 2 ^ 9) mod 2 ^ 9 \<mapsto> (g, pt)))), pi)))"

text \<open>The body of the loop of \<open>unmapArea\<close>. An access above the address space is a fault of the kernel.\<close>

definition unmap_page :: "nat \<Rightarrow> PDPT \<times> pageinfo \<Rightarrow> (PDPT \<times> pageinfo) kres" where
  "unmap_page page s =
     (if addr_pages \<le> page then Panic
      else case pte_at (fst s) page of
        None \<Rightarrow> Ok s
      | Some pte \<Rightarrow>
          if gx_loaded pte then
            kbind (if pte_accessed pte then piMarkAccessed (pte_frame pte) (snd s) else Ok (snd s)) (\<lambda>pi.
            kbind (if pte_dirty pte then piMarkDirty (pte_frame pte) pi else Ok pi) (\<lambda>pi.
            kbind (piDecref (pte_frame pte) pi) (\<lambda>pi.
              Ok (put_pte page zero_pte (fst s), pi))))
          else Ok s)"

definition unmapArea :: "nat \<Rightarrow> nat \<Rightarrow> 'd vm \<Rightarrow> 'd vm kres" where
  "unmapArea base n = (\<lambda>(pm, env).
     kbind (for_each unmap_page [base..<base + n] (pm_pdpt pm, fs_pi (ve_fr env))) (\<lambda>(pdpt, pi).
       Ok (pm\<lparr>pm_pdpt := pdpt\<rparr>, env\<lparr>ve_fr := (ve_fr env)\<lparr>fs_pi := pi\<rparr>\<rparr>)))"

section \<open>File trees of segments\<close>

text \<open>\<open>if (t != NULL) ftUp(t)\<close>, which is also \<open>getTree\<close>, and \<open>if (t != NULL) ftDown(t)\<close>.\<close>

definition tree_up :: "nat option \<Rightarrow> 'd vmenv \<Rightarrow> 'd vmenv kres" where
  "tree_up t env =
     (case t of None \<Rightarrow> Ok env
      | Some k \<Rightarrow> (case ve_fts env k of None \<Rightarrow> Panic
                 | Some ft \<Rightarrow> Ok (env\<lparr>ve_fts := (ve_fts env)(k \<mapsto> ftUp ft)\<rparr>)))"

definition tree_down :: "nat option \<Rightarrow> 'd vmenv \<Rightarrow> 'd vmenv kres" where
  "tree_down t env =
     (case t of None \<Rightarrow> Ok env
      | Some k \<Rightarrow> (case ve_fts env k of None \<Rightarrow> Panic
                 | Some ft \<Rightarrow> kbind (ftDown ft (ve_fr env)) (\<lambda>(r, fr).
                     Ok (env\<lparr>ve_fr := fr, ve_fts := (ve_fts env)(k := r)\<rparr>))))"

text \<open>\<open>ftCreate(FT_ANON)\<close>\<close>

definition new_anon :: "'d newtree \<Rightarrow> 'd vmenv \<Rightarrow> 'd vmenv" where
  "new_anon nt env = env\<lparr>ve_fts := (ve_fts env)(fst nt \<mapsto> ftCreate FT_ANON (fst (snd nt)) (snd (snd nt)))\<rparr>"

section \<open>The lock\<close>

definition vm_locked :: "('d vm \<Rightarrow> 'r kres) \<Rightarrow> 'd vm \<Rightarrow> 'r kres option" where
  "vm_locked body = (\<lambda>(pm, env).
     if pm_lock pm = 0 then None else Some (body (pm\<lparr>pm_lock := pm_lock pm - 1\<rparr>, env)))"

definition vm_signal :: "ProcMem \<Rightarrow> ProcMem" where
  "vm_signal pm = pm\<lparr>pm_lock := pm_lock pm + 1\<rparr>"

section \<open>Mapping\<close>

definition adjust_prot :: "u32 \<Rightarrow> u32" where
  "adjust_prot prot =
     (let prot = (if has prot PROT_WRITE then prot OR PROT_READ else prot)
      in if has prot PROT_EXEC then prot OR PROT_READ else prot)"

definition map_access :: "MapFile option \<Rightarrow> u32" where
  "map_access fp = (case fp of None \<Rightarrow> O_RDWR | Some f \<Rightarrow> mf_oflags f AND O_RDWR)"

definition map_pages :: "u64 \<Rightarrow> u64" where
  "map_pages len = drop_bit 12 (len + 0xFFF)"

text \<open>The checks at the start of \<open>vmMap\<close>: the error, or 0.\<close>

definition map_check :: "u64 \<Rightarrow> u64 \<Rightarrow> u32 \<Rightarrow> u32 \<Rightarrow> MapFile option \<Rightarrow> u64 \<Rightarrow> int" where
  "map_check addr len prot flags fp off =
     (let prot = adjust_prot prot; access = map_access fp;
          mappingType = flags AND (MAP_PRIVATE OR MAP_SHARED)
      in if has flags MAP_UN \<and> fp \<noteq> None then EINVAL
         else if fp = None \<and> \<not> has flags MAP_ANON then EBADF
         else if (case fp of None \<Rightarrow> False | Some f \<Rightarrow> mf_ft f = None) then ENODEV
         else if has flags MAP_ANON \<and> fp \<noteq> None then EINVAL
         else if mappingType \<noteq> MAP_PRIVATE \<and> mappingType \<noteq> MAP_SHARED then EINVAL
         else if mappingType = MAP_SHARED \<and> has prot PROT_WRITE \<and> \<not> has access O_WRONLY then EACCES
         else if (addr \<noteq> 0 \<or> has flags MAP_FIXED) \<and> (addr < 0x200000 \<or> addr + len > 0x8000000000) then EINVAL
         else if off AND 0xFFF \<noteq> 0 then EINVAL
         else if map_pages len = 0 then EINVAL
         else 0)"

text \<open>The details a mapping fills in: \<open>rq_anon\<close> is \<open>anonShared\<close>.\<close>

record mapreq =
  rq_file :: "nat option"
  rq_anon :: bool
  rq_off :: u64
  rq_creator :: "nat option"
  rq_flags :: u32
  rq_prot :: u32
  rq_access :: u32

definition seg_details :: "mapreq \<Rightarrow> nat option \<Rightarrow> nat \<Rightarrow> Segment" where
  "seg_details rq t n = \<lparr>seg_pages = n, seg_ft = t, seg_offset = rq_off rq, seg_creator = rq_creator rq,
     seg_flags = rq_flags rq, seg_prot = rq_prot rq, seg_access = rq_access rq\<rparr>"

text \<open>The assignments from \<open>seg->ft = NULL\<close> to \<open>seg->access\<close>.\<close>

definition seg_fill :: "mapreq \<Rightarrow> 'd newtree \<Rightarrow> Segment \<Rightarrow> 'd vmenv \<Rightarrow> (Segment \<times> 'd vmenv) kres" where
  "seg_fill rq nt seg env =
     kbind (tree_up (rq_file rq) env) (\<lambda>env.
       Ok (seg_details rq (if rq_anon rq then Some (fst nt) else rq_file rq) (seg_pages seg),
           if rq_anon rq then new_anon nt env else env))"

text \<open>The search backwards for a free segment: what precedes it, its position, and what follows.\<close>

fun free_scan :: "nat \<Rightarrow> nat \<Rightarrow> Segment list \<Rightarrow> Segment list \<Rightarrow> (Segment list \<times> nat \<times> Segment \<times> Segment list) option" where
  "free_scan n pos [] post = None"
| "free_scan n pos (seg # rpre) post =
     (let pos = pos - seg_pages seg
      in if seg_flags seg \<noteq> 0 \<or> seg_pages seg < n then free_scan n pos rpre (seg # post)
         else Some (rev rpre, pos, seg, post))"

definition err :: "int \<Rightarrow> u64" where "err e = word_of_int e"

definition page_addr :: "nat \<Rightarrow> u64" where "page_addr page = of_nat (page * 4096)"

definition map_anywhere :: "mapreq \<Rightarrow> 'd newtree \<Rightarrow> nat \<Rightarrow> 'd vm \<Rightarrow> (u64 \<times> 'd vm) kres" where
  "map_anywhere rq nt numPages = (\<lambda>(pm, env).
     case free_scan numPages addr_pages (rev (pm_segs pm)) [] of
       None \<Rightarrow> Ok (err ENOMEM, vm_signal pm, env)
     | Some (pre, pos, seg, post) \<Rightarrow>
         if seg_pages seg = numPages then
           if pos < 0x200 then Ok (err ENOMEM, vm_signal pm, env)
           else kbind (seg_fill rq nt seg env) (\<lambda>(seg, env).
             Ok (page_addr pos, vm_signal (pm\<lparr>pm_segs := pre @ seg # post\<rparr>), env))
         else
           let pos = pos + (seg_pages seg - numPages)
           in if pos < 0x200 then Ok (err ENOMEM, vm_signal pm, env)
              else kbind (tree_up (rq_file rq) env) (\<lambda>env.
                let newSeg = seg_details rq (rq_file rq) numPages;
                    seg = (if rq_anon rq then seg\<lparr>seg_ft := Some (fst nt)\<rparr> else seg);
                    env = (if rq_anon rq then new_anon nt env else env);
                    seg = seg\<lparr>seg_pages := seg_pages seg - numPages\<rparr>
                in Ok (page_addr pos, vm_signal (pm\<lparr>pm_segs := pre @ seg # newSeg # post\<rparr>), env)))"

text \<open>The search for the segment of a page, with what precedes it; \<open>None\<close> is the end of the list.\<close>

fun find_seg :: "nat \<Rightarrow> nat \<Rightarrow> Segment list \<Rightarrow> (Segment list \<times> nat \<times> Segment \<times> Segment list) option" where
  "find_seg page pos [] = None"
| "find_seg page pos (seg # segs) =
     (if pos + seg_pages seg \<le> page
      then (case find_seg page (pos + seg_pages seg) segs of
              None \<Rightarrow> None
            | Some (pre, p, s, post) \<Rightarrow> Some (seg # pre, p, s, post))
      else Some ([], pos, seg, segs))"

text \<open>The second of the two segments that a segment is split into after \<open>k\<close> pages.\<close>

definition seg_rest :: "nat \<Rightarrow> Segment \<Rightarrow> Segment" where
  "seg_rest k seg = seg\<lparr>seg_pages := seg_pages seg - k, seg_offset := seg_offset seg + of_nat (k * 4096)\<rparr>"

text \<open>\<open>while (seg->numPages < numPages)\<close>, on the segments that follow \<open>seg\<close>.\<close>

fun consume :: "nat \<Rightarrow> nat \<Rightarrow> Segment \<Rightarrow> Segment list \<Rightarrow> 'd vm \<Rightarrow> (Segment \<times> Segment list \<times> 'd vm) kres" where
  "consume page n seg [] s = (if seg_pages seg < n then Panic else Ok (seg, [], s))"
| "consume page n seg (nx # post) s =
     (if seg_pages seg < n then
        let pagesNeeded = n - seg_pages seg
        in if seg_pages nx \<le> pagesNeeded then
             kbind (if seg_flags nx \<noteq> 0 then unmapArea (page + seg_pages seg) (seg_pages seg) s else Ok s) (\<lambda>(pm, env).
             kbind (tree_down (seg_ft nx) env) (\<lambda>env.
               consume page n (seg\<lparr>seg_pages := seg_pages seg + seg_pages nx\<rparr>) post (pm, env)))
           else Ok (seg\<lparr>seg_pages := seg_pages seg + pagesNeeded\<rparr>, seg_rest pagesNeeded nx # post, s)
      else Ok (seg, nx # post, s))"

definition map_at :: "mapreq \<Rightarrow> 'd newtree \<Rightarrow> nat \<Rightarrow> nat \<Rightarrow> 'd vm \<Rightarrow> (u64 \<times> 'd vm) kres" where
  "map_at rq nt page numPages = (\<lambda>(pm, env).
     case find_seg page 0 (pm_segs pm) of
       None \<Rightarrow> Ok (err ENOMEM, vm_signal pm, env)
     | Some (pre, pos, seg, post) \<Rightarrow>
         if pos = page \<and> seg_pages seg = numPages then
           kbind (tree_down (seg_ft seg) env) (\<lambda>env.
           kbind (if seg_flags seg \<noteq> 0 then unmapArea pos numPages (pm, env) else Ok (pm, env)) (\<lambda>(pm, env).
           kbind (seg_fill rq nt seg env) (\<lambda>(seg, env).
             Ok (page_addr page, vm_signal (pm\<lparr>pm_segs := pre @ seg # post\<rparr>), env))))
         else
           let k = page - pos
           in kbind (if pos < page then tree_up (seg_ft seg) env else Ok env) (\<lambda>env.
              let pre = (if pos < page then pre @ [seg\<lparr>seg_pages := k\<rparr>] else pre);
                  seg = (if pos < page then seg_rest k seg else seg)
              in kbind (if numPages < seg_pages seg then tree_up (seg_ft seg) env else Ok env) (\<lambda>env.
                 let post = (if numPages < seg_pages seg then seg_rest numPages seg # post else post);
                     seg = (if numPages < seg_pages seg then seg\<lparr>seg_pages := numPages\<rparr> else seg)
                 in kbind (consume page numPages seg post (pm, env)) (\<lambda>(seg, post, pm, env).
                    kbind (if seg_flags seg \<noteq> 0 then unmapArea page numPages (pm, env) else Ok (pm, env)) (\<lambda>(pm, env).
                    kbind (tree_down (seg_ft seg) env) (\<lambda>env.
                    kbind (seg_fill rq nt seg env) (\<lambda>(seg, env).
                      Ok (page_addr page, vm_signal (pm\<lparr>pm_segs := pre @ seg # post\<rparr>), env))))))))"

definition map_request :: "nat \<Rightarrow> u32 \<Rightarrow> u32 \<Rightarrow> MapFile option \<Rightarrow> u64 \<Rightarrow> mapreq" where
  "map_request ct prot flags fp off =
     \<lparr>rq_file = (case fp of None \<Rightarrow> None | Some f \<Rightarrow> mf_ft f), rq_anon = (has flags MAP_SHARED \<and> has flags MAP_ANON),
      rq_off = off, rq_creator = (if has flags MAP_THREAD then Some ct else None), rq_flags = flags,
      rq_prot = adjust_prot prot, rq_access = map_access fp\<rparr>"

definition vmMap :: "nat \<Rightarrow> 'd newtree \<Rightarrow> u64 \<Rightarrow> u64 \<Rightarrow> u32 \<Rightarrow> u32 \<Rightarrow> MapFile option \<Rightarrow> u64 \<Rightarrow> 'd vm \<Rightarrow> (u64 \<times> 'd vm) kres option" where
  "vmMap ct nt addr len prot flags fp off s =
     (let e = map_check addr len prot flags fp off; rq = map_request ct prot flags fp off; n = unat (map_pages len)
      in if e \<noteq> 0 then Some (Ok (err e, s))
         else if addr = 0 \<and> \<not> has flags MAP_FIXED then vm_locked (map_anywhere rq nt n) s
         else if has flags MAP_FIXED \<and> addr AND 0xFFF \<noteq> 0 then Some (Ok (err EINVAL, s))
         else vm_locked (map_at (if has flags MAP_UN then rq\<lparr>rq_flags := 0\<rparr> else rq) nt (unat addr div 4096) n) s)"

section \<open>Faults\<close>

text \<open>The search for the segment of an address; \<open>None\<close> is an access through \<open>NULL\<close>.\<close>

fun seg_skip :: "nat \<Rightarrow> nat \<Rightarrow> Segment list \<Rightarrow> (nat \<times> Segment list) option" where
  "seg_skip page pos [] = None"
| "seg_skip page pos (seg # segs) =
     (if pos + seg_pages seg \<le> page then seg_skip page (pos + seg_pages seg) segs else Some (pos, seg # segs))"

text \<open>``Set permission if currently unset'' and ``check permissions''.\<close>

definition set_perms :: "u32 \<Rightarrow> PTe \<Rightarrow> PTe" where
  "set_perms prot pte =
     (if gx_perm_ovr pte then pte
      else pte\<lparr>gx_perm_ovr := True, gx_r := gx_r pte \<or> has prot PROT_READ, gx_w := gx_w pte \<or> has prot PROT_WRITE,
               gx_x := gx_x pte \<or> has prot PROT_EXEC\<rparr>)"

definition allowed :: "bool \<Rightarrow> bool \<Rightarrow> PTe \<Rightarrow> bool" where
  "allowed w x pte \<longleftrightarrow> (w \<longrightarrow> gx_w pte) \<and> gx_r pte \<and> (x \<longrightarrow> gx_x pte)"

text \<open>\<open>piNew(0)\<close>, whose frame holds zeroes.\<close>

definition zeroed_frame :: "'d vmenv \<Rightarrow> (nat \<times> 'd vmenv) kres" where
  "zeroed_frame env =
     kbind (piNew 0 (fs_pi (ve_fr env))) (\<lambda>(frame, pi).
       let mem = fs_mem (ve_fr env)
       in Ok (frame, env\<lparr>ve_fr := \<lparr>fs_pi = pi, fs_mem = (if frame = 0 then mem else mem(frame := zero_page))\<rparr>\<rparr>))"

text \<open>The frame of a page that is not loaded, 0 for none.\<close>

definition fault_frame :: "Segment \<Rightarrow> nat \<Rightarrow> nat \<Rightarrow> 'd vmenv \<Rightarrow> (nat \<times> 'd vmenv) kres" where
  "fault_frame seg pos page env =
     (case seg_ft seg of
        Some k \<Rightarrow>
          (case ve_fts env k of None \<Rightarrow> Panic
           | Some ft \<Rightarrow>
               kbind (ftGetPage ft (seg_offset seg + of_nat ((page - pos) * 4096)) (ve_fr env)) (\<lambda>(frame, ft, fr).
                 Ok (frame, env\<lparr>ve_fr := fr, ve_fts := (ve_fts env)(k \<mapsto> ft)\<rparr>)))
      | None \<Rightarrow> zeroed_frame env)"

definition loaded_pte :: "u32 \<Rightarrow> nat \<Rightarrow> PTe \<Rightarrow> PTe" where
  "loaded_pte flags frame pte =
     (let pte = pte\<lparr>pte_frame := frame, gx_shared := has flags MAP_SHARED, gx_cow := False\<rparr>;
          pte = (if has flags MAP_PRIVATE then pte\<lparr>gx_cow := True, pte_rw := False\<rparr>
                 else if gx_w pte then pte\<lparr>pte_rw := True\<rparr> else pte);
          pte = (if \<not> gx_x pte then pte\<lparr>pte_xd := True\<rparr> else pte);
          pte = (if gx_r pte then pte\<lparr>pte_present := True\<rparr> else pte)
      in pte\<lparr>pte_user := True, gx_loaded := True\<rparr>)"

text \<open>Breaking copy-on-write: the new entry, or \<open>None\<close> without memory, and the frame that was copied. The
  copy reads the page through its address.\<close>

definition break_cow :: "PTe \<Rightarrow> 'd vmenv \<Rightarrow> (PTe option \<times> nat option \<times> 'd vmenv) kres" where
  "break_cow pte env =
     (if \<not> gx_cow pte then Ok (Some pte, None, env)
      else kbind (piNeedsCopyOnWrite (pte_frame pte) (fs_pi (ve_fr env))) (\<lambda>needs.
        if needs then
          kbind (zeroed_frame env) (\<lambda>(frame, env).
            if frame = 0 then Ok (None, None, env)
            else if \<not> pte_present pte then Panic
            else
              let old = pte_frame pte; fr = ve_fr env; mem = (fs_mem fr)(frame := fs_mem fr old)
              in kbind (piDecref old (fs_pi fr)) (\<lambda>pi.
                   Ok (Some (pte\<lparr>pte_frame := frame, gx_cow := False, pte_rw := True\<rparr>), Some old,
                       env\<lparr>ve_fr := \<lparr>fs_pi = pi, fs_mem = mem\<rparr>\<rparr>)))
        else Ok (Some (pte\<lparr>gx_cow := False, pte_rw := True\<rparr>), None, env)))"

text \<open>Threads that block on a word in the frame are woken.\<close>

definition invalidateBlocks :: "nat \<Rightarrow> 'd vmenv \<Rightarrow> 'd vmenv" where
  "invalidateBlocks frame env =
     (let hit = (\<lambda>b. unat (drop_bit 12 b) = frame)
      in env\<lparr>ve_threads := map (\<lambda>(t, b). (t, if hit b then 0 else b)) (ve_threads env),
             ve_woken := ve_woken env @ map fst (filter (\<lambda>(t, b). hit b) (ve_threads env))\<rparr>)"

text \<open>
  How a fault ends. But for \<open>Resolved\<close>, \<open>throw(EX_PAGE_FAULT)\<close> comes first: a handler of the thread takes
  the exception (\<open>catching\<close>), and the signal is what is sent when there is none.
\<close>

datatype fault = Resolved | Thrown | SegvMapErr | SegvAccErr | BusErr

definition throw :: "bool \<Rightarrow> fault \<Rightarrow> fault" where
  "throw catching sig = (if catching then Thrown else sig)"

definition vm_put :: "nat \<Rightarrow> PTe \<Rightarrow> ProcMem \<Rightarrow> ProcMem" where
  "vm_put page pte pm = pm\<lparr>pm_pdpt := put_pte page pte (pm_pdpt pm)\<rparr>"

text \<open>The first half of \<open>vmFault\<close> and \<open>vmGetPhys\<close>: the entry with its permissions set, in its table.\<close>

definition fault_pte :: "u32 \<Rightarrow> nat \<Rightarrow> 'd vm \<Rightarrow> (PTe \<times> 'd vm) kres" where
  "fault_pte prot page = (\<lambda>(pm, env).
     kbind (getPage page (pm_pdpt pm) (fs_pi (ve_fr env))) (\<lambda>(pte, pdpt, pi).
       let pte = set_perms prot pte
       in Ok (pte, pm\<lparr>pm_pdpt := put_pte page pte pdpt\<rparr>, env\<lparr>ve_fr := (ve_fr env)\<lparr>fs_pi := pi\<rparr>\<rparr>)))"

text \<open>``If the page is not yet loaded, load it''; \<open>None\<close> without a frame.\<close>

definition fault_load :: "Segment \<Rightarrow> nat \<Rightarrow> nat \<Rightarrow> PTe \<Rightarrow> 'd vm \<Rightarrow> (PTe option \<times> 'd vm) kres" where
  "fault_load seg pos page pte = (\<lambda>(pm, env).
     if gx_loaded pte then Ok (Some pte, pm, env)
     else kbind (fault_frame seg pos page env) (\<lambda>(frame, env).
       if frame = 0 then Ok (None, pm, env)
       else let pte = loaded_pte (seg_flags seg) frame pte in Ok (Some pte, vm_put page pte pm, env)))"

definition fault_body :: "bool \<Rightarrow> bool \<Rightarrow> nat \<Rightarrow> u32 \<Rightarrow> 'd vm \<Rightarrow> (fault \<times> 'd vm) kres" where
  "fault_body in_kernel catching page flags = (\<lambda>(pm, env).
     case seg_skip page 0 (pm_segs pm) of
       Some (pos, seg # _) \<Rightarrow>
         if seg_flags seg = 0 then Ok (throw catching SegvMapErr, vm_signal pm, env)
         else kbind (fault_pte (seg_prot seg) page (pm, env)) (\<lambda>(pte, pm, env).
           if \<not> allowed (has flags PF_WRITE) (has flags PF_FETCH) pte then
             (if in_kernel \<and> \<not> catching then Panic else Ok (throw catching SegvAccErr, vm_signal pm, env))
           else kbind (fault_load seg pos page pte (pm, env)) (\<lambda>(r, pm, env).
             case r of None \<Rightarrow> Ok (throw catching BusErr, vm_signal pm, env)
             | Some pte \<Rightarrow>
                 if has flags PF_WRITE then
                   kbind (break_cow pte env) (\<lambda>(r, old, env).
                     case r of None \<Rightarrow> Ok (throw catching BusErr, vm_signal pm, env)
                     | Some pte \<Rightarrow> Ok (Resolved, vm_signal (vm_put page pte pm),
                         case old of None \<Rightarrow> env | Some f \<Rightarrow> invalidateBlocks f env))
                 else Ok (Resolved, vm_signal pm, env)))
     | _ \<Rightarrow> Panic)"

definition vmFault :: "bool \<Rightarrow> bool \<Rightarrow> u64 \<Rightarrow> u32 \<Rightarrow> 'd vm \<Rightarrow> (fault \<times> 'd vm) kres option" where
  "vmFault in_kernel catching faultAddr flags s =
     (if faultAddr < 0x200000 \<or> 0x8000000000 \<le> faultAddr then Some (Ok (throw catching SegvMapErr, s))
      else vm_locked (fault_body in_kernel catching (unat faultAddr div 4096) flags) s)"

definition getphys_body :: "nat \<Rightarrow> u32 \<Rightarrow> 'd vm \<Rightarrow> (nat \<times> 'd vm) kres" where
  "getphys_body page requiredPerms = (\<lambda>(pm, env).
     case seg_skip page 0 (pm_segs pm) of
       Some (pos, seg # _) \<Rightarrow>
         if seg_flags seg = 0 then Ok (0, vm_signal pm, env)
         else kbind (fault_pte (seg_prot seg) page (pm, env)) (\<lambda>(pte, pm, env).
           if \<not> allowed (has requiredPerms PROT_WRITE) (has requiredPerms PROT_EXEC) pte then Ok (0, vm_signal pm, env)
           else kbind (fault_load seg pos page pte (pm, env)) (\<lambda>(r, pm, env).
             case r of None \<Rightarrow> Ok (0, vm_signal pm, env)
             | Some pte \<Rightarrow>
                 kbind (break_cow pte env) (\<lambda>(r, old, env).
                   case r of None \<Rightarrow> Ok (0, vm_signal pm, env)
                   | Some pte \<Rightarrow>
                       kbind (piIncref (pte_frame pte) (fs_pi (ve_fr env))) (\<lambda>pi.
                         Ok (pte_frame pte, vm_signal (vm_put page pte pm),
                             env\<lparr>ve_fr := (ve_fr env)\<lparr>fs_pi := pi\<rparr>\<rparr>)))))
     | _ \<Rightarrow> Panic)"

definition vmGetPhys :: "u64 \<Rightarrow> u32 \<Rightarrow> 'd vm \<Rightarrow> (nat \<times> 'd vm) kres option" where
  "vmGetPhys faultAddr requiredPerms s =
     (if faultAddr < 0x200000 \<or> 0x8000000000 \<le> faultAddr then Some (Ok (0, s))
      else vm_locked (getphys_body (unat faultAddr div 4096) requiredPerms) s)"

section \<open>Protection\<close>

definition protect_pte :: "u32 \<Rightarrow> PTe \<Rightarrow> PTe" where
  "protect_pte prot pte =
     (let pte = pte\<lparr>gx_perm_ovr := True, gx_r := has prot PROT_READ, gx_w := has prot PROT_WRITE, gx_x := has prot PROT_EXEC\<rparr>
      in if gx_loaded pte then
           let pte = (if \<not> gx_r pte then pte\<lparr>pte_present := False\<rparr> else pte);
               pte = (if \<not> gx_w pte then pte\<lparr>pte_rw := False\<rparr> else pte)
           in if \<not> gx_x pte then pte\<lparr>pte_xd := True\<rparr> else pte
         else pte)"

text \<open>The loop of \<open>vmProtect\<close> with \<open>k\<close> turns left, at page \<open>page\<close> with the segment of the turn before. A
  return from the loop releases the lock; its end, with result 0, does not.\<close>

primrec protect_loop :: "nat \<Rightarrow> u32 \<Rightarrow> nat \<Rightarrow> nat \<Rightarrow> Segment list \<Rightarrow> 'd vm \<Rightarrow> (int \<times> 'd vm) kres" where
  "protect_loop 0 prot page pos segs s = Ok (0, s)"
| "protect_loop (Suc k) prot page pos segs s =
     (case seg_skip page pos segs of
        Some (pos, seg # segs) \<Rightarrow>
          if seg_flags seg = 0 then Ok (ENOMEM, vm_signal (fst s), snd s)
          else if has prot PROT_WRITE \<and> has (seg_flags seg) MAP_SHARED \<and> \<not> has (seg_access seg) O_WRONLY
          then Ok (EACCES, vm_signal (fst s), snd s)
          else kbind (getPage page (pm_pdpt (fst s)) (fs_pi (ve_fr (snd s)))) (\<lambda>(pte, pdpt, pi).
            protect_loop k prot (page + 1) pos (seg # segs)
              ((fst s)\<lparr>pm_pdpt := put_pte page (protect_pte prot pte) pdpt\<rparr>,
               (snd s)\<lparr>ve_fr := (ve_fr (snd s))\<lparr>fs_pi := pi\<rparr>\<rparr>))
      | _ \<Rightarrow> Panic)"

text \<open>The number of turns of \<open>for (addr=base; addr<(base+len); addr+=0x1000)\<close>.\<close>

definition protect_turns :: "u64 \<Rightarrow> u64 \<Rightarrow> nat" where
  "protect_turns base len = (unat (base + len) - unat base + 4095) div 4096"

definition vmProtect :: "u64 \<Rightarrow> u64 \<Rightarrow> u32 \<Rightarrow> 'd vm \<Rightarrow> (int \<times> 'd vm) kres option" where
  "vmProtect base len prot s =
     (if prot AND NOT PROT_ALL \<noteq> 0 then Some (Ok (EINVAL, s))
      else if base AND 0xFFF \<noteq> 0 then Some (Ok (EINVAL, s))
      else if base < 0x200000 \<or> 0x8000000000 \<le> base then Some (Ok (EINVAL, s))
      else vm_locked (\<lambda>s. protect_loop (protect_turns base len) (adjust_prot prot) (unat base div 4096) 0 (pm_segs (fst s)) s) s)"

section \<open>The end of a thread\<close>

text \<open>The loop of \<open>vmUnmapThread\<close> at position \<open>pos\<close>; \<open>rpre\<close> are the segments before, the last one first.\<close>

function unmap_thread_loop :: "nat \<Rightarrow> nat \<Rightarrow> Segment list \<Rightarrow> Segment list \<Rightarrow> 'd vm \<Rightarrow> (Segment list \<times> 'd vm) kres" where
  "unmap_thread_loop ct pos rpre [] s = Ok (rev rpre, s)"
| "unmap_thread_loop ct pos rpre (seg # segs) s =
     (if has (seg_flags seg) MAP_THREAD \<and> seg_creator seg = Some ct then
        kbind (unmapArea pos (seg_pages seg) s) (\<lambda>(pm, env).
        kbind (tree_down (seg_ft seg) env) (\<lambda>env.
          let seg = seg\<lparr>seg_ft := None, seg_flags := 0, seg_creator := None\<rparr>;
              (rpre, seg) = (case rpre of
                 prev # rpre' \<Rightarrow>
                   if seg_flags prev = 0 then (rpre', prev\<lparr>seg_pages := seg_pages prev + seg_pages seg\<rparr>) else (rpre, seg)
               | [] \<Rightarrow> (rpre, seg));
              (seg, segs) = (case segs of
                 nx # segs' \<Rightarrow>
                   if seg_flags nx = 0 then (seg\<lparr>seg_pages := seg_pages seg + seg_pages nx\<rparr>, segs') else (seg, segs)
               | [] \<Rightarrow> (seg, segs))
          in unmap_thread_loop ct (pos + seg_pages seg) (seg # rpre) segs (pm, env)))
      else unmap_thread_loop ct (pos + seg_pages seg) (seg # rpre) segs s)"
  by pat_completeness auto
termination by (relation "measure (\<lambda>(_, _, _, segs, _). length segs)") (auto split: list.splits if_splits prod.splits)

definition vmUnmapThread :: "nat \<Rightarrow> 'd vm \<Rightarrow> 'd vm kres option" where
  "vmUnmapThread ct =
     vm_locked (\<lambda>(pm, env).
       kbind (unmap_thread_loop ct 0 [] (pm_segs pm) (pm, env)) (\<lambda>(segs, pm, env).
         Ok (vm_signal (pm\<lparr>pm_segs := segs\<rparr>), env)))"

section \<open>Cloning and deleting\<close>

text \<open>The loops over the 512 entries of a table that is copied. The page table is changed in place and then
  copied; the directories of the copy hold the frames of the new tables.\<close>

definition clone_pte :: "nat \<Rightarrow> PT \<times> pageinfo \<Rightarrow> (PT \<times> pageinfo) kres" where
  "clone_pte i = (\<lambda>(pt, pi).
     let pte = pt i
     in if gx_loaded pte then
          kbind (piIncref (pte_frame pte) pi) (\<lambda>pi.
            Ok (if gx_shared pte then pt else pt(i := pte\<lparr>pte_rw := False, gx_cow := True\<rparr>), pi))
        else Ok (pt, pi))"

text \<open>The frame of the copy, and the table as it is then in both.\<close>

definition clonePT :: "PT \<Rightarrow> pageinfo \<Rightarrow> (nat \<times> PT \<times> pageinfo) kres" where
  "clonePT pt pi =
     kbind (alloc_table pi) (\<lambda>(frame, pi).
     kbind (for_each clone_pte [0..<512] (pt, pi)) (\<lambda>(pt, pi). Ok (frame, pt, pi)))"

definition clone_pde :: "nat \<Rightarrow> PD \<times> PD \<times> pageinfo \<Rightarrow> (PD \<times> PD \<times> pageinfo) kres" where
  "clone_pde i = (\<lambda>(pd, copy, pi).
     case pd i of None \<Rightarrow> Ok (pd, copy, pi)
     | Some (g, pt) \<Rightarrow> kbind (clonePT pt pi) (\<lambda>(frame, pt, pi).
         Ok (pd(i \<mapsto> (g, pt)), copy(i \<mapsto> (frame, pt)), pi)))"

definition clonePD :: "PD \<Rightarrow> pageinfo \<Rightarrow> (nat \<times> PD \<times> PD \<times> pageinfo) kres" where
  "clonePD pd pi =
     kbind (alloc_table pi) (\<lambda>(frame, pi).
     kbind (for_each clone_pde [0..<512] (pd, \<lambda>_. None, pi)) (\<lambda>(pd, copy, pi). Ok (frame, pd, copy, pi)))"

definition clone_pdpte :: "nat \<Rightarrow> PDPT \<times> PDPT \<times> pageinfo \<Rightarrow> (PDPT \<times> PDPT \<times> pageinfo) kres" where
  "clone_pdpte i = (\<lambda>(pdpt, copy, pi).
     case pdpt i of None \<Rightarrow> Ok (pdpt, copy, pi)
     | Some (f, pd) \<Rightarrow> kbind (clonePD pd pi) (\<lambda>(frame, pd, pd', pi).
         Ok (pdpt(i \<mapsto> (f, pd)), copy(i \<mapsto> (frame, pd')), pi)))"

definition clonePDPT :: "PDPT \<Rightarrow> pageinfo \<Rightarrow> (nat \<times> PDPT \<times> PDPT \<times> pageinfo) kres" where
  "clonePDPT pdpt pi =
     kbind (alloc_table pi) (\<lambda>(frame, pi).
     kbind (for_each clone_pdpte [0..<512] (pdpt, \<lambda>_. None, pi)) (\<lambda>(pdpt, copy, pi). Ok (frame, pdpt, copy, pi)))"

definition clone_seg :: "Segment \<Rightarrow> Segment" where
  "clone_seg seg =
     (if has (seg_flags seg) MAP_THREAD
      then seg\<lparr>seg_creator := None, seg_flags := seg_flags seg AND NOT MAP_THREAD\<rparr> else seg)"

primrec clone_segs :: "Segment list \<Rightarrow> 'd vmenv \<Rightarrow> (Segment list \<times> 'd vmenv) kres" where
  "clone_segs [] env = Ok ([], env)"
| "clone_segs (seg # segs) env =
     kbind (tree_up (seg_ft seg) env) (\<lambda>env.
     kbind (clone_segs segs env) (\<lambda>(segs, env). Ok (clone_seg seg # segs, env)))"

text \<open>The blank segment of a new address space. Its other fields are as \<open>NEW\<close> returns them.\<close>

definition blank_seg :: "Segment \<Rightarrow> Segment" where
  "blank_seg mem = mem\<lparr>seg_pages := addr_pages, seg_ft := None, seg_flags := 0, seg_prot := 0\<rparr>"

definition set_pi :: "pageinfo \<Rightarrow> 'd vmenv \<Rightarrow> 'd vmenv" where
  "set_pi pi env = env\<lparr>ve_fr := (ve_fr env)\<lparr>fs_pi := pi\<rparr>\<rparr>"

definition fresh_space :: "Segment \<Rightarrow> 'd vmenv \<Rightarrow> 'd vm kres" where
  "fresh_space mem env =
     kbind (alloc_table (fs_pi (ve_fr env))) (\<lambda>(phys, pi).
       Ok (\<lparr>pm_lock = 1, pm_segs = [blank_seg mem], pm_refcount = 1, pm_phys = phys, pm_pdpt = \<lambda>_. None\<rparr>,
           set_pi pi env))"

text \<open>The new address space and the one of the caller, if it has one.\<close>

definition vmClone :: "Segment \<Rightarrow> ProcMem option \<Rightarrow> 'd vmenv \<Rightarrow> (ProcMem \<times> ProcMem option \<times> 'd vmenv) kres option" where
  "vmClone mem pm env =
     (case pm of
        None \<Rightarrow> Some (kbind (fresh_space mem env) (\<lambda>(newPM, env). Ok (newPM, None, env)))
      | Some pm \<Rightarrow> vm_locked (\<lambda>(pm, env).
          kbind (clone_segs (pm_segs pm) env) (\<lambda>(segs, env).
          kbind (clonePDPT (pm_pdpt pm) (fs_pi (ve_fr env))) (\<lambda>(phys, pdpt, copy, pi).
            Ok (\<lparr>pm_lock = 1, pm_segs = segs, pm_refcount = 1, pm_phys = phys, pm_pdpt = copy\<rparr>,
                Some (vm_signal (pm\<lparr>pm_pdpt := pdpt\<rparr>)), set_pi pi env)))) (pm, env))"

definition vmUp :: "ProcMem \<Rightarrow> ProcMem" where
  "vmUp pm = pm\<lparr>pm_refcount := c_int (pm_refcount pm + 1)\<rparr>"

definition free_table :: "nat \<Rightarrow> pageinfo \<Rightarrow> pageinfo kres" where
  "free_table frame pi = kbind (phmFreeFrame frame (pi_phm pi)) (\<lambda>phm. Ok (pi\<lparr>pi_phm := phm\<rparr>))"

definition delete_pte :: "PTe \<Rightarrow> pageinfo \<Rightarrow> pageinfo kres" where
  "delete_pte pte pi =
     (if gx_loaded pte then
        kbind (if pte_dirty pte then piMarkDirty (pte_frame pte) pi else Ok pi) (\<lambda>pi.
        kbind (if pte_accessed pte then piMarkAccessed (pte_frame pte) pi else Ok pi) (piDecref (pte_frame pte)))
      else Ok pi)"

definition deletePT :: "nat \<Rightarrow> PT \<Rightarrow> pageinfo \<Rightarrow> pageinfo kres" where
  "deletePT frame pt pi = kbind (free_table frame pi) (for_each (\<lambda>i. delete_pte (pt i)) [0..<512])"

definition deletePD :: "nat \<Rightarrow> PD \<Rightarrow> pageinfo \<Rightarrow> pageinfo kres" where
  "deletePD frame pd pi = kbind (free_table frame pi)
     (for_each (\<lambda>i pi. case pd i of None \<Rightarrow> Ok pi | Some (g, pt) \<Rightarrow> deletePT g pt pi) [0..<512])"

definition deletePDPT :: "nat \<Rightarrow> PDPT \<Rightarrow> pageinfo \<Rightarrow> pageinfo kres" where
  "deletePDPT frame pdpt pi = kbind (free_table frame pi)
     (for_each (\<lambda>i pi. case pdpt i of None \<Rightarrow> Ok pi | Some (f, pd) \<Rightarrow> deletePD f pd pi) [0..<512])"

primrec down_segs :: "Segment list \<Rightarrow> 'd vmenv \<Rightarrow> 'd vmenv kres" where
  "down_segs [] env = Ok env"
| "down_segs (seg # segs) env = kbind (tree_down (seg_ft seg) env) (down_segs segs)"

text \<open>At the last reference the tables and the segments go; the \<open>ProcMem\<close> itself is not freed.\<close>

definition vmDown :: "'d vm \<Rightarrow> 'd vm kres" where
  "vmDown = (\<lambda>(pm, env).
     let pm = pm\<lparr>pm_refcount := c_int (pm_refcount pm - 1)\<rparr>
     in if pm_refcount pm = 0 then
          kbind (deletePDPT (pm_phys pm) (pm_pdpt pm) (fs_pi (ve_fr env))) (\<lambda>pi.
          kbind (down_segs (pm_segs pm) (set_pi pi env)) (\<lambda>env. Ok (pm, env)))
        else Ok (pm, env))"

text \<open>The first entry of the PML4, which refers to the address space that is current.\<close>

record PML4e =
  p4_present :: bool
  p4_user :: bool
  p4_rw :: bool
  p4_phys :: nat

definition vmSwitch :: "ProcMem \<Rightarrow> PML4e \<Rightarrow> PML4e" where
  "vmSwitch pm e = e\<lparr>p4_phys := pm_phys pm, p4_user := True, p4_rw := True, p4_present := True\<rparr>"

text \<open>The address space that is given up, the new one, and the entry.\<close>

definition vmNew :: "Segment \<Rightarrow> ProcMem option \<Rightarrow> PML4e \<Rightarrow> 'd vmenv \<Rightarrow> (ProcMem option \<times> ProcMem \<times> PML4e \<times> 'd vmenv) kres" where
  "vmNew mem oldPM e env =
     (let e = e\<lparr>p4_present := False, p4_phys := 0\<rparr>
      in kbind (case oldPM of None \<Rightarrow> Ok (None, env)
                | Some pm \<Rightarrow> kbind (vmDown (pm, env)) (\<lambda>(pm, env). Ok (Some pm, env))) (\<lambda>(old, env).
         kbind (fresh_space mem env) (\<lambda>(pm, env). Ok (old, pm, vmSwitch pm e, env))))"

end
