(* ===== verification/Gx_VmSpec.thy ===== *)
theory Gx_VmSpec
  imports Gx_ProcMem
begin

text \<open>
  What an address space is, and that the operations of \<open>kernel/src/thread/procmem.c\<close> keep and change it
  as they should: the abstract address space is a function from pages to mappings, and the segments
  partition it.
\<close>

section \<open>Segments as a function from pages\<close>

definition seg_total :: "Segment list \<Rightarrow> nat" where
  "seg_total segs = sum_list (map seg_pages segs)"

definition segs_ok :: "Segment list \<Rightarrow> bool" where
  "segs_ok segs \<longleftrightarrow> seg_total segs = addr_pages \<and> (\<forall>s \<in> set segs. 0 < seg_pages s)"

text \<open>What is mapped at page \<open>p\<close> of a segment, as a segment of one page; \<open>None\<close> if nothing is.\<close>

definition seg_view :: "Segment \<Rightarrow> nat \<Rightarrow> Segment option" where
  "seg_view s p =
     (if seg_flags s = 0 then None else Some (s\<lparr>seg_pages := 1, seg_offset := seg_offset s + of_nat (p * 4096)\<rparr>))"

fun vm_view :: "Segment list \<Rightarrow> nat \<Rightarrow> Segment option" where
  "vm_view [] p = None"
| "vm_view (s # segs) p = (if p < seg_pages s then seg_view s p else vm_view segs (p - seg_pages s))"

lemma total_simps [simp]: "seg_total [] = 0" "seg_total (s # segs) = seg_pages s + seg_total segs" "seg_total (xs @ ys) = seg_total xs + seg_total ys"
  by (simp_all add: seg_total_def)

lemma total_rev [simp]: "seg_total (rev xs) = seg_total xs"
  by (induction xs) simp_all

lemma vm_view_append:
  "vm_view (xs @ ys) p = (if p < seg_total xs then vm_view xs p else vm_view ys (p - seg_total xs))"
  by (induction xs arbitrary: p) auto

lemma vm_view_beyond: "seg_total segs \<le> p \<Longrightarrow> vm_view segs p = None"
  by (induction segs arbitrary: p) auto

text \<open>Splitting a segment changes nothing.\<close>

lemma seg_view_rest: "seg_view (seg_rest k s) p = seg_view s (k + p)"
  by (simp add: seg_view_def seg_rest_def algebra_simps)

lemma seg_view_pages [simp]: "seg_view (s\<lparr>seg_pages := k\<rparr>) p = seg_view s p"
  by (simp add: seg_view_def)

lemma seg_rest_pages [simp]: "seg_pages (seg_rest k s) = seg_pages s - k"
  by (simp add: seg_rest_def)

lemma find_seg_Some:
  assumes "find_seg page pos segs = Some (pre, p, seg, post)" and "pos \<le> page"
  shows "segs = pre @ seg # post \<and> p = pos + seg_total pre \<and> p \<le> page \<and> page < p + seg_pages seg"
  using assms
proof (induction segs arbitrary: pos pre)
  case (Cons s segs)
  show ?case
  proof (cases "pos + seg_pages s \<le> page")
    case True
    with Cons.prems obtain pre' where f: "find_seg page (pos + seg_pages s) segs = Some (pre', p, seg, post)" "pre = s # pre'"
      by (auto split: option.splits)
    from Cons.IH [OF f(1) True] f(2) show ?thesis by auto
  next
    case False
    with Cons.prems show ?thesis by auto
  qed
qed simp

lemma find_seg_None: "pos \<le> page \<Longrightarrow> find_seg page pos segs = None \<longleftrightarrow> pos + seg_total segs \<le> page"
proof (induction segs arbitrary: pos)
  case (Cons s segs)
  show ?case
  proof (cases "pos + seg_pages s \<le> page")
    case True
    from Cons.IH [OF True] True show ?thesis by (auto split: option.splits simp: add.assoc)
  qed (auto split: option.splits)
qed simp

lemma seg_skip_Some:
  assumes "seg_skip page pos segs = Some (p, rest)" and "pos \<le> page"
  shows "\<exists>pre seg post. rest = seg # post \<and> segs = pre @ rest \<and> p = pos + seg_total pre \<and> p \<le> page \<and> page < p + seg_pages seg"
  using assms
proof (induction segs arbitrary: pos)
  case (Cons s segs)
  show ?case
  proof (cases "pos + seg_pages s \<le> page")
    case True
    with Cons.prems Cons.IH [of "pos + seg_pages s"] obtain pre seg post where
      "rest = seg # post" "segs = pre @ rest" "p = pos + seg_pages s + seg_total pre" "p \<le> page" "page < p + seg_pages seg"
      by auto
    then show ?thesis by (intro exI [of _ "s # pre"]) auto
  next
    case False
    with Cons.prems show ?thesis by (intro exI [of _ "[]"]) auto
  qed
qed simp

lemma seg_skip_None: "pos \<le> page \<Longrightarrow> seg_skip page pos segs = None \<longleftrightarrow> pos + seg_total segs \<le> page"
  by (induction segs arbitrary: pos) auto

text \<open>The segment that the search finds is the one the view shows.\<close>

lemma vm_view_at:
  assumes "segs = pre @ seg # post" and "p = seg_total pre" and "p \<le> page" and "page < p + seg_pages seg"
  shows "vm_view segs page = seg_view seg (page - p)"
  using assms by (auto simp: vm_view_append)

section \<open>What the steps of an operation leave alone\<close>

text \<open>Everything of an address space but its page tables.\<close>

definition same_space :: "ProcMem \<Rightarrow> ProcMem \<Rightarrow> bool" where
  "same_space pm pm' \<longleftrightarrow> (\<exists>t. pm' = pm\<lparr>pm_pdpt := t\<rparr>)"

lemma same_spaceD:
  assumes "same_space pm pm'"
  shows "pm_segs pm' = pm_segs pm" "pm_lock pm' = pm_lock pm" "pm_refcount pm' = pm_refcount pm" "pm_phys pm' = pm_phys pm"
  using assms by (auto simp: same_space_def)

lemma same_space_iff:
  "same_space pm pm' \<longleftrightarrow> pm_segs pm' = pm_segs pm \<and> pm_lock pm' = pm_lock pm \<and> pm_refcount pm' = pm_refcount pm \<and>
     pm_phys pm' = pm_phys pm"
  by (cases pm; cases pm') (auto simp: same_space_def)

lemma same_space_refl [simp]: "same_space pm pm"
  unfolding same_space_def by (rule exI [of _ "pm_pdpt pm"]) simp

lemma same_space_trans [trans]: "same_space a b \<Longrightarrow> same_space b c \<Longrightarrow> same_space a c"
  by (auto simp: same_space_def)

lemma same_space_pdpt [simp]: "same_space pm (pm\<lparr>pm_pdpt := t\<rparr>)" "same_space pm (vm_put page pte pm)"
  by (auto simp: same_space_def vm_put_def)

lemma unmapArea_same: "unmapArea base n (pm, env) = Ok (pm', env') \<Longrightarrow> same_space pm pm'"
  by (auto simp: unmapArea_def kbind_Ok_iff)

lemma consume_result:
  assumes "consume page n seg post (pm, env) = Ok (seg', post', pm', env')" and "seg_pages seg \<le> n"
    and "\<forall>s \<in> set post. 0 < seg_pages s"
  shows "seg' = seg\<lparr>seg_pages := n\<rparr> \<and> seg_pages seg + seg_total post = n + seg_total post' \<and> same_space pm pm' \<and>
    (\<forall>s \<in> set post'. 0 < seg_pages s) \<and> (\<forall>p. vm_view post' p = vm_view post (p + (n - seg_pages seg)))"
  using assms
proof (induction post arbitrary: seg pm env)
  case Nil
  then show ?case by (auto split: if_splits)
next
  case (Cons nx post)
  show ?case
  proof (cases "seg_pages seg < n")
    case False
    with Cons.prems show ?thesis by auto
  next
    case less: True
    show ?thesis
    proof (cases "seg_pages nx \<le> n - seg_pages seg")
      case False
      with less Cons.prems show ?thesis
        by (auto simp: seg_view_rest algebra_simps)
    next
      case True
      let ?seg = "seg\<lparr>seg_pages := seg_pages seg + seg_pages nx\<rparr>"
      from True less Cons.prems(1) obtain pm1 env1 env2 where
        u: "(if seg_flags nx \<noteq> 0 then unmapArea (page + seg_pages seg) (seg_pages seg) (pm, env) else Ok (pm, env)) = Ok (pm1, env1)"
        and c: "consume page n ?seg post (pm1, env2) = Ok (seg', post', pm', env')"
        by (auto simp: kbind_Ok_iff)
      from u have s1: "same_space pm pm1" by (auto split: if_splits dest: unmapArea_same)
      have le: "seg_pages ?seg \<le> n" using True less by simp
      have pos: "\<forall>s \<in> set post. 0 < seg_pages s" using Cons.prems(3) by simp
      note ih = Cons.IH [OF c le pos]
      have v: "vm_view post' p = vm_view (nx # post) (p + (n - seg_pages seg))" for p
      proof -
        have "n - seg_pages seg = seg_pages nx + (n - (seg_pages seg + seg_pages nx))" using True less by simp
        with ih show ?thesis by simp
      qed
      from ih s1 v show ?thesis by (auto intro: same_space_trans)
    qed
  qed
qed

lemma seg_fill_result:
  assumes "seg_fill rq nt seg env = Ok (seg', env')"
  shows "seg' = seg_details rq (if rq_anon rq then Some (fst nt) else rq_file rq) (seg_pages seg)"
  using assms by (auto simp: seg_fill_def kbind_Ok_iff)

section \<open>Mapping at an address\<close>

text \<open>The abstract address space after a mapping of \<open>n\<close> pages at \<open>page\<close>.\<close>

definition view_upd :: "(nat \<Rightarrow> Segment option) \<Rightarrow> nat \<Rightarrow> nat \<Rightarrow> Segment \<Rightarrow> nat \<Rightarrow> Segment option" where
  "view_upd v page n seg = (\<lambda>p. if page \<le> p \<and> p < page + n then seg_view seg (p - page) else v p)"

text \<open>A part of the list is replaced by one segment.\<close>

lemma replace_view:
  assumes "segs = pre @ mid @ post" and "page = seg_total pre" and "seg_total mid = seg_pages seg"
  shows "vm_view (pre @ seg # post) = view_upd (vm_view segs) page (seg_pages seg) seg"
  using assms by (auto simp: fun_eq_iff view_upd_def vm_view_append)

text \<open>Splitting a segment does not change the view.\<close>

lemma split_view:
  assumes "k \<le> seg_pages s"
  shows "vm_view (xs @ s\<lparr>seg_pages := k\<rparr> # seg_rest k s # ys) = vm_view (xs @ s # ys)"
proof
  fix p
  show "vm_view (xs @ s\<lparr>seg_pages := k\<rparr> # seg_rest k s # ys) p = vm_view (xs @ s # ys) p"
    using assms by (auto simp: vm_view_append seg_view_rest)
qed

text \<open>The parts of \<open>map_at\<close> before the search for more pages: the segments still show the same, and \<open>seg\<close>
  begins at the page and does not have too many pages.\<close>

lemma map_at_split:
  fixes segs pre post :: "Segment list"
  assumes "segs = pre @ seg # post" and "pos = seg_total pre" and "pos \<le> page" and "page < pos + seg_pages seg"
    and "\<forall>s \<in> set segs. 0 < seg_pages s" and "0 < n"
  defines "pre1 \<equiv> (if pos < page then pre @ [seg\<lparr>seg_pages := page - pos\<rparr>] else pre)"
    and "seg1 \<equiv> (if pos < page then seg_rest (page - pos) seg else seg)"
  defines "post2 \<equiv> (if n < seg_pages seg1 then seg_rest n seg1 # post else post)"
    and "seg2 \<equiv> (if n < seg_pages seg1 then seg1\<lparr>seg_pages := n\<rparr> else seg1)"
  shows "vm_view (pre1 @ seg2 # post2) = vm_view segs \<and> seg_total pre1 = page \<and> seg_pages seg2 \<le> n \<and> 0 < seg_pages seg2 \<and>
    seg_total (pre1 @ seg2 # post2) = seg_total segs \<and> (\<forall>s \<in> set pre1 \<union> set post2. 0 < seg_pages s)"
proof -
  have 1: "vm_view (pre1 @ seg1 # post) = vm_view segs"
    using assms(1,4) split_view [of "page - pos" seg pre post] by (simp add: pre1_def seg1_def)
  have t: "seg_total pre1 = page" "seg_pages seg1 = pos + seg_pages seg - page" "seg_total (pre1 @ seg1 # post) = seg_total segs"
    using assms(1-4) by (auto simp: pre1_def seg1_def)
  have "vm_view (pre1 @ seg2 # post2) = vm_view (pre1 @ seg1 # post)"
    using split_view [of n seg1 pre1 post] by (simp add: post2_def seg2_def)
  moreover have "seg_total (seg2 # post2) = seg_total (seg1 # post)"
    by (simp add: post2_def seg2_def)
  moreover have "\<forall>s \<in> set pre1 \<union> set post2. 0 < seg_pages s"
    using assms(1,4,5) by (auto simp: pre1_def post2_def)
  moreover have "seg_pages seg2 \<le> n" "0 < seg_pages seg2" using t(2) assms(4,6) by (auto simp: seg2_def)
  ultimately show ?thesis using 1 t by simp
qed

text \<open>The lock is released; the rest but the segments and tables is as it was.\<close>

definition vm_done :: "ProcMem \<Rightarrow> ProcMem \<Rightarrow> bool" where
  "vm_done pm pm' \<longleftrightarrow> pm_lock pm' = pm_lock pm + 1 \<and> pm_refcount pm' = pm_refcount pm \<and> pm_phys pm' = pm_phys pm"

lemma same_space_filled:
  assumes "same_space pm pm1" and "pm' = vm_signal (pm1\<lparr>pm_segs := S\<rparr>)"
  shows "pm_segs pm' = S \<and> vm_done pm pm'"
  using assms by (auto simp: same_space_iff vm_signal_def vm_done_def)

lemma map_at_result:
  fixes env :: "'d vmenv"
  assumes m: "map_at rq nt page n (pm, env) = Ok (r, pm', env')" and ok: "segs_ok (pm_segs pm)" and n: "0 < n"
  shows "if addr_pages \<le> page then r = err ENOMEM \<and> pm' = vm_signal pm \<and> env' = env
    else r = page_addr page \<and> page + n \<le> addr_pages \<and> vm_done pm pm' \<and>
      segs_ok (pm_segs pm') \<and>
      vm_view (pm_segs pm') = view_upd (vm_view (pm_segs pm)) page n (seg_details rq (if rq_anon rq then Some (fst nt) else rq_file rq) n)"
proof (cases "find_seg page 0 (pm_segs pm)")
  case None
  then have "addr_pages \<le> page" using find_seg_None [of 0 page "pm_segs pm"] ok by (simp add: segs_ok_def)
  moreover have "r = err ENOMEM \<and> pm' = vm_signal pm \<and> env' = env" using m None by (simp add: map_at_def)
  ultimately show ?thesis by simp
next
  case (Some q)
  obtain pre pos seg post where q: "q = (pre, pos, seg, post)" by (cases q)
  note f = find_seg_Some [OF Some [unfolded q]]
  have pre: "pm_segs pm = pre @ seg # post" "pos = seg_total pre" "pos \<le> page" "page < pos + seg_pages seg"
    and tot: "seg_total (pm_segs pm) = addr_pages" and all: "\<forall>s \<in> set (pm_segs pm). 0 < seg_pages s"
    using f ok by (auto simp: segs_ok_def)
  have pg: "page < addr_pages" using pre tot by simp
  let ?d = "seg_details rq (if rq_anon rq then Some (fst nt) else rq_file rq) n"
  show ?thesis
  proof (cases "pos = page \<and> seg_pages seg = n")
    case True
    with m Some q obtain env1 env2 env3 pm1 seg' where
      u: "(if seg_flags seg \<noteq> 0 then unmapArea pos n (pm, env1) else Ok (pm, env1)) = Ok (pm1, env2)"
      and fl: "seg_fill rq nt seg env2 = Ok (seg', env3)"
      and r: "r = page_addr page" "pm' = vm_signal (pm1\<lparr>pm_segs := pre @ seg' # post\<rparr>)"
      by (auto simp: map_at_def kbind_Ok_iff)
    have s1: "same_space pm pm1" using u by (auto split: if_splits dest: unmapArea_same)
    have sg: "seg' = ?d" using seg_fill_result [OF fl] True by simp
    have v: "vm_view (pre @ ?d # post) = view_upd (vm_view (pm_segs pm)) page n ?d"
      using replace_view [of "pm_segs pm" pre "[seg]" post page ?d] pre(1,2) True by (simp add: seg_details_def)
    have k: "segs_ok (pre @ ?d # post)" using tot all True n by (auto simp: segs_ok_def pre(1) seg_details_def)
    have "page + n \<le> addr_pages" using tot True pre by simp
    with pg r(1) same_space_filled [OF s1 r(2)] sg v k show ?thesis by (simp split del: if_split)
  next
    case False
    define pre1 where "pre1 = (if pos < page then pre @ [seg\<lparr>seg_pages := page - pos\<rparr>] else pre)"
    define seg1 where "seg1 = (if pos < page then seg_rest (page - pos) seg else seg)"
    define post2 where "post2 = (if n < seg_pages seg1 then seg_rest n seg1 # post else post)"
    define seg2 where "seg2 = (if n < seg_pages seg1 then seg1\<lparr>seg_pages := n\<rparr> else seg1)"
    from map_at_split [OF pre all n] have sp: "vm_view (pre1 @ seg2 # post2) = vm_view (pm_segs pm)" "seg_total pre1 = page"
      "seg_pages seg2 \<le> n" "0 < seg_pages seg2" "seg_total (pre1 @ seg2 # post2) = addr_pages"
      "\<forall>s \<in> set pre1. 0 < seg_pages s" "\<forall>s \<in> set post2. 0 < seg_pages s"
      unfolding pre1_def seg1_def post2_def seg2_def tot by auto
    from m [unfolded map_at_def prod.case Some q option.case Let_def if_not_P [OF False], folded pre1_def seg1_def,
        folded post2_def seg2_def]
    obtain env1 env2 env3 env4 env5 :: "'d vmenv" and pm1 pm2 seg3 seg4 post3 where
      c: "consume page n seg2 post2 (pm, env1) = Ok (seg3, post3, pm1, env2)"
      and u: "(if seg_flags seg3 \<noteq> 0 then unmapArea page n (pm1, env2) else Ok (pm1, env2)) = Ok (pm2, env3)"
      and fl: "seg_fill rq nt seg3 env4 = Ok (seg4, env5)"
      and r: "r = page_addr page" "pm' = vm_signal (pm2\<lparr>pm_segs := pre1 @ seg4 # post3\<rparr>)"
      by (auto simp: kbind_Ok_iff split del: if_split)
    from consume_result [OF c sp(3,7)] have s3: "seg3 = seg2\<lparr>seg_pages := n\<rparr>" "seg_pages seg2 + seg_total post2 = n + seg_total post3"
      "same_space pm pm1" "\<forall>s \<in> set post3. 0 < seg_pages s" "\<And>p. vm_view post3 p = vm_view post2 (p + (n - seg_pages seg2))"
      by auto
    have s2: "same_space pm pm2" using u s3(3) by (auto split: if_splits dest: unmapArea_same intro: same_space_trans)
    have sg: "seg4 = ?d" using seg_fill_result [OF fl] s3(1) by simp
    have "vm_view (pre1 @ ?d # post3) p = view_upd (vm_view (pre1 @ seg2 # post2)) page n ?d p" for p
      using sp(2-4) n by (auto simp: view_upd_def vm_view_append seg_details_def s3(5) not_less)
    then have v: "vm_view (pre1 @ ?d # post3) = view_upd (vm_view (pm_segs pm)) page n ?d" using sp(1) by (auto simp: fun_eq_iff)
    have k: "segs_ok (pre1 @ ?d # post3)" using sp(5,6) s3(2,4) n by (auto simp: segs_ok_def seg_details_def)
    have "page + n \<le> addr_pages" using sp(2,5) s3(2) by simp
    with pg r(1) same_space_filled [OF s2 r(2)] sg v k show ?thesis by (simp split del: if_split)
  qed
qed

lemma vm_locked_Ok:
  "vm_locked body (pm, env) = Some (Ok x) \<longleftrightarrow> 0 < pm_lock pm \<and> body (pm\<lparr>pm_lock := pm_lock pm - 1\<rparr>, env) = Ok x"
  by (auto simp: vm_locked_def)

lemma vm_signal_fields [simp]:
  "pm_segs (vm_signal pm) = pm_segs pm" "pm_lock (vm_signal pm) = pm_lock pm + 1" "pm_pdpt (vm_signal pm) = pm_pdpt pm"
  by (simp_all add: vm_signal_def)

lemma vm_signal_relock: "0 < pm_lock pm \<Longrightarrow> vm_signal (pm\<lparr>pm_lock := pm_lock pm - 1\<rparr>) = pm"
  by (cases pm) (simp add: vm_signal_def)

text \<open>The error of \<open>vmMap\<close> at an address, 0 for none.\<close>

definition map_errno :: "u64 \<Rightarrow> u64 \<Rightarrow> u32 \<Rightarrow> u32 \<Rightarrow> MapFile option \<Rightarrow> u64 \<Rightarrow> int" where
  "map_errno addr len prot flags fp off =
     (if map_check addr len prot flags fp off \<noteq> 0 then map_check addr len prot flags fp off
      else if has flags MAP_FIXED \<and> addr AND 0xFFF \<noteq> 0 then EINVAL
      else if addr_pages \<le> unat addr div 4096 then ENOMEM else 0)"

text \<open>The mapping that a call makes, with the tree \<open>t\<close>.\<close>

definition mapping :: "nat \<Rightarrow> u32 \<Rightarrow> u32 \<Rightarrow> MapFile option \<Rightarrow> u64 \<Rightarrow> nat option \<Rightarrow> nat \<Rightarrow> Segment" where
  "mapping ct prot flags fp off t n =
     \<lparr>seg_pages = n, seg_ft = t, seg_offset = off, seg_creator = (if has flags MAP_THREAD then Some ct else None),
      seg_flags = (if has flags MAP_UN then 0 else flags), seg_prot = adjust_prot prot, seg_access = map_access fp\<rparr>"

definition file_tree :: "MapFile option \<Rightarrow> nat option" where
  "file_tree fp = (case fp of None \<Rightarrow> None | Some f \<Rightarrow> mf_ft f)"

definition anon_shared :: "u32 \<Rightarrow> bool" where
  "anon_shared flags \<longleftrightarrow> has flags MAP_SHARED \<and> has flags MAP_ANON"

lemma seg_details_request:
  "seg_details (if has flags MAP_UN then map_request ct prot flags fp off\<lparr>rq_flags := 0\<rparr> else map_request ct prot flags fp off) t n =
   mapping ct prot flags fp off t n"
  by (simp add: seg_details_def map_request_def mapping_def)

lemma map_check_pages: "map_check addr len prot flags fp off = 0 \<Longrightarrow> 0 < unat (map_pages len)"
  by (auto simp: map_check_def Let_def unat_gt_0 split: if_splits)

lemma vmMap_at_result:
  fixes env :: "'d vmenv"
  assumes m: "vmMap ct nt addr len prot flags fp off (pm, env) = Some (Ok (r, pm', env'))"
    and ok: "segs_ok (pm_segs pm)" and at: "addr \<noteq> 0 \<or> has flags MAP_FIXED"
  defines "e \<equiv> map_errno addr len prot flags fp off" and "page \<equiv> unat addr div 4096" and "n \<equiv> unat (map_pages len)"
    and "t \<equiv> (if anon_shared flags then Some (fst nt) else file_tree fp)"
  shows "(e \<noteq> 0 \<longrightarrow> r = err e \<and> pm' = pm \<and> env' = env) \<and>
    (e = 0 \<longrightarrow> r = page_addr page \<and> page + n \<le> addr_pages \<and>
       vm_view (pm_segs pm') = (\<lambda>p. if page \<le> p \<and> p < page + n
         then seg_view (mapping ct prot flags fp off t n) (p - page) else vm_view (pm_segs pm) p) \<and>
       segs_ok (pm_segs pm') \<and> pm_lock pm' = pm_lock pm)"
proof (cases "map_check addr len prot flags fp off \<noteq> 0 \<or> has flags MAP_FIXED \<and> addr AND 0xFFF \<noteq> 0")
  case True
  with m at show ?thesis by (auto simp: vmMap_def Let_def e_def map_errno_def)
next
  case False
  let ?rq = "map_request ct prot flags fp off"
  let ?rq' = "if has flags MAP_UN then ?rq\<lparr>rq_flags := 0\<rparr> else ?rq"
  let ?pm = "pm\<lparr>pm_lock := pm_lock pm - 1\<rparr>"
  from m at False have l: "0 < pm_lock pm" and ma: "map_at ?rq' nt page n (?pm, env) = Ok (r, pm', env')"
    by (auto simp: vmMap_def Let_def vm_locked_Ok page_def n_def)
  have n0: "0 < n" using map_check_pages False by (auto simp: n_def)
  have tr: "(if rq_anon ?rq' then Some (fst nt) else rq_file ?rq') = t"
    by (auto simp: t_def map_request_def anon_shared_def file_tree_def)
  have e: "e = (if addr_pages \<le> page then ENOMEM else 0)" using False by (auto simp: e_def map_errno_def page_def)
  have "segs_ok (pm_segs ?pm)" using ok by simp
  note res = map_at_result [OF ma this n0, unfolded tr seg_details_request]
  show ?thesis
  proof (cases "addr_pages \<le> page")
    case True
    with res e vm_signal_relock [OF l] show ?thesis by (simp del: One_nat_def)
  next
    case False
    with res e l show ?thesis by (simp add: view_upd_def vm_done_def)
  qed
qed

text \<open>
  C19: \<open>vmMap\<close> at an address refines the update of a function from pages to mappings: when it returns, either
  it refused the arguments and changed nothing, or the pages of the range show the new mapping (nothing, for an
  unmapping) with ascending file offsets, every other page shows what it showed before, and the segments still
  partition the address space. An anonymous shared mapping gets a tree of its own.
\<close>

theorem vmMap_at_refines:
  fixes env :: "'d vmenv"
  assumes m: "vmMap ct nt addr len prot flags fp off (pm, env) = Some (Ok (r, pm', env'))"
    and ok: "segs_ok (pm_segs pm)" and at: "addr \<noteq> 0 \<or> has flags MAP_FIXED"
  defines "e \<equiv> map_errno addr len prot flags fp off" and "page \<equiv> unat addr div 4096" and "n \<equiv> unat (map_pages len)"
    and "t \<equiv> (if anon_shared flags then Some (fst nt) else file_tree fp)"
  shows "(e \<noteq> 0 \<longrightarrow> r = err e \<and> pm' = pm \<and> env' = env) \<and>
    (e = 0 \<longrightarrow> r = page_addr page \<and> page + n \<le> addr_pages \<and>
       vm_view (pm_segs pm') = (\<lambda>p. if page \<le> p \<and> p < page + n
         then seg_view (mapping ct prot flags fp off t n) (p - page) else vm_view (pm_segs pm) p) \<and>
       segs_ok (pm_segs pm') \<and> pm_lock pm' = pm_lock pm)"
  unfolding e_def page_def n_def t_def by (rule vmMap_at_result [OF m ok at])

section \<open>Mapping anywhere\<close>

lemma free_scan_Some:
  assumes "free_scan n pos rpre post = Some (pre, p, seg, post')" and "pos = seg_total rpre"
  shows "\<exists>mid. rev rpre = pre @ seg # mid \<and> post' = mid @ post \<and> p = seg_total pre \<and> seg_flags seg = 0 \<and> n \<le> seg_pages seg \<and>
    (\<forall>s \<in> set mid. seg_flags s \<noteq> 0 \<or> seg_pages s < n)"
  using assms
proof (induction rpre arbitrary: pos post)
  case (Cons s rpre)
  show ?case
  proof (cases "seg_flags s \<noteq> 0 \<or> seg_pages s < n")
    case True
    with Cons.prems have f: "free_scan n (seg_total rpre) rpre (s # post) = Some (pre, p, seg, post')" by (simp add: Let_def)
    from Cons.IH [OF f refl] obtain mid where "rev rpre = pre @ seg # mid" "post' = mid @ s # post" "p = seg_total pre"
      "seg_flags seg = 0" "n \<le> seg_pages seg" "\<forall>s \<in> set mid. seg_flags s \<noteq> 0 \<or> seg_pages s < n" by blast
    with True show ?thesis by (intro exI [of _ "mid @ [s]"]) auto
  next
    case False
    with Cons.prems show ?thesis by (auto simp: Let_def)
  qed
qed simp

lemma free_scan_None: "free_scan n pos rpre post = None \<longleftrightarrow> (\<forall>s \<in> set rpre. seg_flags s \<noteq> 0 \<or> seg_pages s < n)"
  by (induction rpre arbitrary: pos post) (auto simp: Let_def)

text \<open>\<open>n\<close> free pages at \<open>q\<close> inside one segment.\<close>

definition free_room :: "nat \<Rightarrow> Segment list \<Rightarrow> nat \<Rightarrow> bool" where
  "free_room n segs q \<longleftrightarrow> (\<exists>pre s post. segs = pre @ s # post \<and> seg_flags s = 0 \<and> seg_total pre \<le> q \<and> q + n \<le> seg_total pre + seg_pages s)"

lemma free_room_free:
  assumes "free_room n segs q" and "q \<le> p" and "p < q + n"
  shows "vm_view segs p = None"
  using assms by (auto simp: free_room_def vm_view_append seg_view_def)

text \<open>The last segment that is free and large enough holds the highest room.\<close>

lemma free_room_last:
  assumes segs: "segs = pre @ s # post" and fits: "seg_flags s = 0" "n \<le> seg_pages s"
    and none: "\<forall>s \<in> set post. seg_flags s \<noteq> 0 \<or> seg_pages s < n"
  shows "free_room n segs (seg_total pre + seg_pages s - n)" and "free_room n segs q \<Longrightarrow> q \<le> seg_total pre + seg_pages s - n"
proof -
  show "free_room n segs (seg_total pre + seg_pages s - n)"
    unfolding free_room_def using segs fits by (intro exI [of _ pre] exI [of _ s] exI [of _ post]) auto
  assume "free_room n segs q"
  then obtain pre' s' post' where o: "segs = pre' @ s' # post'" "seg_flags s' = 0" "seg_total pre' \<le> q"
    "q + n \<le> seg_total pre' + seg_pages s'"
    by (auto simp: free_room_def)
  have "\<not> (\<exists>mid. pre' = pre @ s # mid \<and> post = mid @ s' # post')" using none o by auto
  then have "\<exists>mid. pre = pre' @ mid \<and> s' # post' = mid @ s # post"
    using segs o(1) by (auto simp: append_eq_append_conv2 append_eq_Cons_conv Cons_eq_append_conv)
  then obtain mid where mid: "pre = pre' @ mid" "s' # post' = mid @ s # post" by blast
  show "q \<le> seg_total pre + seg_pages s - n"
  proof (cases mid)
    case Nil
    with mid o show ?thesis by auto
  next
    case (Cons a as)
    with mid o fits show ?thesis by auto
  qed
qed

text \<open>A segment of \<open>n\<close> pages begins at \<open>q\<close>.\<close>

definition seg_at :: "Segment list \<Rightarrow> nat \<Rightarrow> nat \<Rightarrow> bool" where
  "seg_at segs q n \<longleftrightarrow> (\<exists>pre s post. segs = pre @ s # post \<and> seg_total pre = q \<and> seg_pages s = n)"

lemma not_seg_at_inside:
  assumes "segs = pre @ s # post" and "seg_total pre < q" and "q < seg_total pre + seg_pages s"
  shows "\<not> seg_at segs q n"
proof
  assume "seg_at segs q n"
  then obtain pre' s' post' where o: "segs = pre' @ s' # post'" "seg_total pre' = q" by (auto simp: seg_at_def)
  from assms(1) o(1) have "(\<exists>mid. pre' = pre @ s # mid) \<or> (\<exists>mid. pre = pre' @ mid)"
    by (auto simp: append_eq_append_conv2 append_eq_Cons_conv Cons_eq_append_conv)
  with o(2) assms(2,3) show False by auto
qed

lemma map_anywhere_result:
  fixes env :: "'d vmenv"
  assumes m: "map_anywhere rq nt n (pm, env) = Ok (r, pm', env')" and ok: "segs_ok (pm_segs pm)" and n: "0 < n"
  shows "(r = err ENOMEM \<and> pm' = vm_signal pm \<and> env' = env \<and> (\<forall>q \<ge> 0x200. \<not> free_room n (pm_segs pm) q)) \<or>
    (\<exists>q t. r = page_addr q \<and> 0x200 \<le> q \<and> free_room n (pm_segs pm) q \<and> (\<forall>q'. free_room n (pm_segs pm) q' \<longrightarrow> q' \<le> q) \<and>
       t = (if rq_anon rq \<and> seg_at (pm_segs pm) q n then Some (fst nt) else rq_file rq) \<and>
       vm_view (pm_segs pm') = view_upd (vm_view (pm_segs pm)) q n (seg_details rq t n) \<and> segs_ok (pm_segs pm') \<and> vm_done pm pm')"
proof (cases "free_scan n addr_pages (rev (pm_segs pm)) []")
  case None
  then have none: "\<forall>s \<in> set (pm_segs pm). seg_flags s \<noteq> 0 \<or> seg_pages s < n" by (simp add: free_scan_None)
  then have "\<not> free_room n (pm_segs pm) q" for q by (auto simp: free_room_def)
  with m None show ?thesis by (simp add: map_anywhere_def)
next
  case (Some x)
  obtain pre pos seg post where x: "x = (pre, pos, seg, post)" by (cases x)
  have tot: "seg_total (pm_segs pm) = addr_pages" and all: "\<forall>s \<in> set (pm_segs pm). 0 < seg_pages s"
    using ok by (auto simp: segs_ok_def)
  from free_scan_Some [OF Some [unfolded x]] tot have f: "pm_segs pm = pre @ seg # post" "pos = seg_total pre" "seg_flags seg = 0"
    "n \<le> seg_pages seg" "\<forall>s \<in> set post. seg_flags s \<noteq> 0 \<or> seg_pages s < n" by auto
  define q where "q = pos + (seg_pages seg - n)"
  have q: "q = seg_total pre + seg_pages seg - n" using f(2,4) by (simp add: q_def)
  note room = free_room_last [OF f(1,3,4,5), folded q]
  show ?thesis
  proof (cases "q < 0x200")
    case True
    then have "r = err ENOMEM \<and> pm' = vm_signal pm \<and> env' = env"
      using m Some x by (auto simp: map_anywhere_def q_def Let_def split: if_splits)
    with True room(2) show ?thesis by (force simp: not_le)
  next
    case big: False
    show ?thesis
    proof (cases "seg_pages seg = n")
      case True
      with m Some x big obtain seg' env1 where fl: "seg_fill rq nt seg env = Ok (seg', env1)"
        and r: "r = page_addr q" "pm' = vm_signal (pm\<lparr>pm_segs := pre @ seg' # post\<rparr>)"
        by (auto simp: map_anywhere_def kbind_Ok_iff q_def)
      have here: "seg_at (pm_segs pm) q n" using f(1,2) True unfolding seg_at_def q_def by auto
      define t where "t = (if rq_anon rq then Some (fst nt) else rq_file rq)"
      have sg: "seg' = seg_details rq t n" using seg_fill_result [OF fl] True by (simp add: t_def)
      have v: "vm_view (pm_segs pm') = view_upd (vm_view (pm_segs pm)) q n (seg_details rq t n)"
        using replace_view [of "pm_segs pm" pre "[seg]" post q "seg_details rq t n"] f(1,2) True r(2) sg
        by (simp add: seg_details_def q_def)
      have k: "segs_ok (pm_segs pm')" using ok True f(1) r(2) sg by (auto simp: segs_ok_def seg_details_def)
      have "vm_done pm pm'" using r(2) by (simp add: vm_done_def vm_signal_def)
      then show ?thesis using r(1) big room v k here by (intro disjI2 exI [of _ q] exI [of _ t]) (auto simp: t_def)
    next
      case False
      let ?new = "seg_details rq (rq_file rq) n"
      from m [unfolded map_anywhere_def prod.case Some x option.case Let_def if_not_P [OF False], folded q_def] big
      obtain seg' where r: "r = page_addr q" "pm' = vm_signal (pm\<lparr>pm_segs := pre @ seg' # ?new # post\<rparr>)"
        and sg: "seg_pages seg' = seg_pages seg - n" "seg_flags seg' = 0"
        using f(3) by (auto simp: kbind_Ok_iff split: if_splits)
      have nv: "seg_view seg' p = None" "seg_view seg p = None" for p using sg f(3) by (simp_all add: seg_view_def)
      have "vm_view (pre @ seg' # ?new # post) p = view_upd (vm_view (pm_segs pm)) q n ?new p" for p
        using f(2,4) sg by (auto simp: f(1) view_upd_def vm_view_append nv seg_details_def q_def not_less)
      then have v: "vm_view (pm_segs pm') = view_upd (vm_view (pm_segs pm)) q n ?new" using r(2) by (auto simp: fun_eq_iff)
      have k: "segs_ok (pm_segs pm')"
        using ok f(1,4) r(2) sg False n by (auto simp: segs_ok_def seg_details_def)
      have "vm_done pm pm'" using r(2) by (simp add: vm_done_def vm_signal_def)
      moreover have "\<not> seg_at (pm_segs pm) q n"
        using not_seg_at_inside [OF f(1)] f(4) False n q by simp
      ultimately show ?thesis using r(1) big room v k by (intro disjI2 exI [of _ q] exI [of _ "rq_file rq"]) auto
    qed
  qed
qed

text \<open>\<open>vmMap\<close> without an address places the mapping on free pages, as high as any segment has room, never below
  \<open>ADDR_MIN\<close>; all other pages keep what they show. It fails with \<open>ENOMEM\<close> only when no segment has room.
  An anonymous shared mapping gets its tree only when it fills a free segment exactly: otherwise it shows no
  tree at all, as a private one does.
\<close>

theorem vmMap_picks_highest:
  fixes env :: "'d vmenv"
  assumes m: "vmMap ct nt 0 len prot flags fp off (pm, env) = Some (Ok (r, pm', env'))"
    and ok: "segs_ok (pm_segs pm)" and at: "\<not> has flags MAP_FIXED" and chk: "map_check 0 len prot flags fp off = 0"
  defines "n \<equiv> unat (map_pages len)"
  shows "(r = err ENOMEM \<and> pm' = pm \<and> env' = env \<and> (\<forall>q \<ge> 0x200. \<not> free_room n (pm_segs pm) q)) \<or>
    (\<exists>q. r = page_addr q \<and> 0x200 \<le> q \<and> free_room n (pm_segs pm) q \<and> (\<forall>q'. free_room n (pm_segs pm) q' \<longrightarrow> q' \<le> q) \<and>
       (\<forall>p. q \<le> p \<and> p < q + n \<longrightarrow> vm_view (pm_segs pm) p = None) \<and>
       vm_view (pm_segs pm') = (\<lambda>p. if q \<le> p \<and> p < q + n
         then seg_view ((mapping ct prot flags fp off
                (if anon_shared flags \<and> seg_at (pm_segs pm) q n then Some (fst nt) else file_tree fp) n)\<lparr>seg_flags := flags\<rparr>) (p - q)
         else vm_view (pm_segs pm) p) \<and>
       segs_ok (pm_segs pm') \<and> pm_lock pm' = pm_lock pm)"
proof -
  let ?rq = "map_request ct prot flags fp off"
  let ?pm = "pm\<lparr>pm_lock := pm_lock pm - 1\<rparr>"
  from m at chk have l: "0 < pm_lock pm" and ma: "map_anywhere ?rq nt n (?pm, env) = Ok (r, pm', env')"
    by (auto simp: vmMap_def Let_def vm_locked_Ok n_def)
  have n0: "0 < n" using map_check_pages [OF chk] by (simp add: n_def)
  have sg: "pm_segs ?pm = pm_segs pm" by simp
  have d: "seg_details ?rq t n = (mapping ct prot flags fp off t n)\<lparr>seg_flags := flags\<rparr>" for t
    by (simp add: seg_details_def map_request_def mapping_def)
  have a: "rq_anon ?rq = anon_shared flags" "rq_file ?rq = file_tree fp"
    by (simp_all add: map_request_def anon_shared_def file_tree_def)
  from map_anywhere_result [OF ma _ n0, unfolded sg a d, OF ok] show ?thesis
  proof (elim disjE exE conjE)
    fix q t
    assume "r = page_addr q" "0x200 \<le> q" and room: "free_room n (pm_segs pm) q" and
      "\<forall>q'. free_room n (pm_segs pm) q' \<longrightarrow> q' \<le> q" and
      t: "t = (if anon_shared flags \<and> seg_at (pm_segs pm) q n then Some (fst nt) else file_tree fp)" and
      "vm_view (pm_segs pm') = view_upd (vm_view (pm_segs pm)) q n ((mapping ct prot flags fp off t n)\<lparr>seg_flags := flags\<rparr>)"
      "segs_ok (pm_segs pm')" "vm_done ?pm pm'"
    moreover have "\<forall>p. q \<le> p \<and> p < q + n \<longrightarrow> vm_view (pm_segs pm) p = None" using free_room_free [OF room] by blast
    ultimately show ?thesis using l unfolding view_upd_def vm_done_def t by (intro disjI2 exI [of _ q]) (simp del: One_nat_def split del: if_split)
  qed (use vm_signal_relock [OF l] in \<open>simp del: One_nat_def\<close>)
qed

end
