(* ===== verification/Gx_VmInv.thy ===== *)
theory Gx_VmInv
  imports Gx_VmSpec
begin

text \<open>
  The invariant of the address spaces of \<open>kernel/src/thread/procmem.c\<close> over every history of calls, page
  faults and accesses: the segments partition the addresses and the page tables never grant the processor
  what the permissions of the page do not.
\<close>

section \<open>Page tables as a function from pages\<close>

text \<open>The entry of a page, zero if it has no table.\<close>

definition entry :: "PDPT \<Rightarrow> nat \<Rightarrow> PTe" where
  "entry t p = (case pte_at t p of None \<Rightarrow> zero_pte | Some pte \<Rightarrow> pte)"

lemma page_index_eq:
  assumes "p div 2 ^ 18 = q div 2 ^ 18" and "(p div 2 ^ 9) mod 2 ^ 9 = (q div 2 ^ 9) mod 2 ^ 9" and "p mod 2 ^ 9 = q mod 2 ^ 9"
  shows "p = (q :: nat)"
proof -
  have s: "x = 262144 * (x div 262144) + 512 * ((x div 512) mod 512) + x mod 512" for x :: nat
  proof -
    have "x div 512 = 512 * (x div 512 div 512) + (x div 512) mod 512" by simp
    moreover have "x div 512 div 512 = x div 262144" by (simp add: div_mult2_eq [symmetric])
    moreover have "x = 512 * (x div 512) + x mod 512" by simp
    ultimately show ?thesis by linarith
  qed
  from s [of p] s [of q] assms show ?thesis by simp
qed

lemma pte_at_put:
  "pte_at (put_pte q v t) p = (if p = q \<and> pte_at t q \<noteq> None then Some v else pte_at t p)"
proof (cases "p = q")
  case True
  then show ?thesis by (auto simp: pte_at_def put_pte_def split: option.splits)
next
  case False
  then have "p div 2 ^ 18 \<noteq> q div 2 ^ 18 \<or> (p div 2 ^ 9) mod 2 ^ 9 \<noteq> (q div 2 ^ 9) mod 2 ^ 9 \<or> p mod 2 ^ 9 \<noteq> q mod 2 ^ 9"
    using page_index_eq by blast
  with False show ?thesis by (auto simp: pte_at_def put_pte_def simp del: One_nat_def split: option.splits)
qed

lemma entry_put: "entry (put_pte q v t) p = (if p = q \<and> pte_at t q \<noteq> None then v else entry t p)"
  by (auto simp: entry_def pte_at_put split: option.splits)

lemma getPage_result:
  assumes "getPage page t pi = Ok (pte, t', pi')"
  shows "pte = entry t page \<and> pte_at t' page = Some pte \<and> (\<forall>p. entry t' p = entry t p)"
proof -
  obtain f pd pi1 where
    a: "(case t (page div 2 ^ 18) of None \<Rightarrow> kbind (alloc_table pi) (\<lambda>(f, pi). Ok (f, \<lambda>_. None, pi))
         | Some (f, pd) \<Rightarrow> Ok (f, pd, pi)) = Ok (f, pd, pi1)"
    and a2: "kbind (case pd ((page div 2 ^ 9) mod 2 ^ 9) of None \<Rightarrow> kbind (alloc_table pi1) (\<lambda>(g, pi). Ok (g, \<lambda>_. zero_pte, pi))
         | Some (g, pt) \<Rightarrow> Ok (g, pt, pi1)) (\<lambda>(g, pt, pi).
           Ok (pt (page mod 2 ^ 9), t(page div 2 ^ 18 \<mapsto> (f, pd((page div 2 ^ 9) mod 2 ^ 9 \<mapsto> (g, pt)))), pi)) = Ok (pte, t', pi')"
    by (rule kbind3 [OF assms [unfolded getPage_def]])
  obtain g pt pi2 where
    b: "(case pd ((page div 2 ^ 9) mod 2 ^ 9) of None \<Rightarrow> kbind (alloc_table pi1) (\<lambda>(g, pi). Ok (g, \<lambda>_. zero_pte, pi))
         | Some (g, pt) \<Rightarrow> Ok (g, pt, pi1)) = Ok (g, pt, pi2)"
    and r': "Ok (pt (page mod 2 ^ 9), t(page div 2 ^ 18 \<mapsto> (f, pd((page div 2 ^ 9) mod 2 ^ 9 \<mapsto> (g, pt)))), pi2) = Ok (pte, t', pi')"
    by (rule kbind3 [OF a2])
  have r: "pte = pt (page mod 2 ^ 9)" "t' = t(page div 2 ^ 18 \<mapsto> (f, pd((page div 2 ^ 9) mod 2 ^ 9 \<mapsto> (g, pt))))"
    using r' by (simp_all only: kres.inject prod.inject)
  from a have fpd: "case t (page div 2 ^ 18) of None \<Rightarrow> pd = (\<lambda>_. None) | Some x \<Rightarrow> x = (f, pd)"
    by (auto simp: kbind_Ok_iff split: option.splits)
  from b have gpt: "case pd ((page div 2 ^ 9) mod 2 ^ 9) of None \<Rightarrow> pt = (\<lambda>_. zero_pte) | Some x \<Rightarrow> x = (g, pt)"
    by (auto simp: kbind_Ok_iff split: option.splits)
  have "pte_at t' page = Some pte" by (simp add: pte_at_def r)
  moreover have "pte = entry t page"
    using fpd gpt by (auto simp: entry_def pte_at_def r(1) split: option.splits)
  moreover have "entry t' p = entry t p" for p
  proof (cases "p div 2 ^ 18 = page div 2 ^ 18")
    case False
    then show ?thesis by (simp add: entry_def pte_at_def r(2))
  next
    case 1: True
    have e: "entry t p = (case pd ((p div 2 ^ 9) mod 2 ^ 9) of None \<Rightarrow> zero_pte | Some (g, pt) \<Rightarrow> pt (p mod 2 ^ 9))"
      using fpd unfolding entry_def pte_at_def 1 by (cases "t (page div 2 ^ 18)") (auto split: option.splits)
    have e': "entry t' p = (case (pd((page div 2 ^ 9) mod 2 ^ 9 \<mapsto> (g, pt))) ((p div 2 ^ 9) mod 2 ^ 9) of
        None \<Rightarrow> zero_pte | Some (g, pt) \<Rightarrow> pt (p mod 2 ^ 9))"
      unfolding entry_def pte_at_def r(2) 1 by (simp split: option.splits prod.splits)
    show ?thesis
    proof (cases "(p div 2 ^ 9) mod 2 ^ 9 = (page div 2 ^ 9) mod 2 ^ 9")
      case True
      with gpt show ?thesis unfolding e e' True by (cases "pd ((page div 2 ^ 9) mod 2 ^ 9)") auto
    qed (simp add: e e')
  qed
  ultimately show ?thesis by simp
qed

lemma getPage_put:
  assumes "getPage page t pi = Ok (pte, t', pi')"
  shows "pte = entry t page" and "entry (put_pte page v t') p = (if p = page then v else entry t p)"
    and "pte_at (put_pte page v t') page = Some v"
  using getPage_result [OF assms] by (simp_all add: entry_put pte_at_put)

section \<open>Unmapping\<close>

text \<open>The only change of the tables is that entries of loaded pages become zero.\<close>

definition unmaps :: "PDPT \<Rightarrow> PDPT \<Rightarrow> bool" where
  "unmaps t t' \<longleftrightarrow> (\<forall>p. entry t' p = entry t p \<or> gx_loaded (entry t p) \<and> entry t' p = zero_pte)"

lemma zero_pte_fields [simp]:
  "\<not> gx_loaded zero_pte" "\<not> pte_present zero_pte" "\<not> pte_rw zero_pte" "\<not> gx_cow zero_pte" "\<not> gx_perm_ovr zero_pte"
  by (simp_all add: zero_pte_def)

lemma unmaps_refl [simp]: "unmaps t t"
  by (simp add: unmaps_def)

lemma unmaps_trans [trans]: "unmaps a b \<Longrightarrow> unmaps b c \<Longrightarrow> unmaps a c"
  unfolding unmaps_def by (metis zero_pte_fields(1))

lemma unmap_page_entry:
  assumes "unmap_page page (t, pi) = Ok (t', pi')"
  shows "entry t' p = (if p = page \<and> gx_loaded (entry t page) then zero_pte else entry t p)"
proof (cases "pte_at t page")
  case None
  then have "\<not> gx_loaded (entry t page)" by (simp add: entry_def)
  with assms None show ?thesis by (auto simp: unmap_page_def split: if_splits)
next
  case (Some pte)
  then have e: "entry t page = pte" by (simp add: entry_def)
  from assms Some show ?thesis
    by (cases "gx_loaded pte") (auto simp: unmap_page_def kbind_Ok_iff e entry_put split: if_splits)
qed

lemma for_each_unmap:
  assumes "for_each unmap_page ps (t, pi) = Ok (t', pi')"
  shows "entry t' p = (if p \<in> set ps \<and> gx_loaded (entry t p) then zero_pte else entry t p)"
  using assms
proof (induction ps arbitrary: t pi)
  case (Cons q ps)
  then obtain t1 pi1 where u: "unmap_page q (t, pi) = Ok (t1, pi1)" and r: "for_each unmap_page ps (t1, pi1) = Ok (t', pi')"
    by (auto simp: kbind_Ok_iff)
  show ?case using Cons.IH [OF r] by (auto simp: unmap_page_entry [OF u])
qed simp

lemma unmapArea_entry:
  assumes "unmapArea base n (pm, env) = Ok (pm', env')"
  shows "entry (pm_pdpt pm') p = (if base \<le> p \<and> p < base + n \<and> gx_loaded (entry (pm_pdpt pm) p) then zero_pte else entry (pm_pdpt pm) p)"
  using assms by (auto simp: unmapArea_def kbind_Ok_iff for_each_unmap)

lemma unmapArea_unmaps: "unmapArea base n (pm, env) = Ok (pm', env') \<Longrightarrow> unmaps (pm_pdpt pm) (pm_pdpt pm')"
  by (auto simp: unmaps_def unmapArea_entry)

lemma consume_unmaps:
  "consume page n seg post (pm, env) = Ok (seg', post', pm', env') \<Longrightarrow> unmaps (pm_pdpt pm) (pm_pdpt pm')"
proof (induction post arbitrary: seg pm env)
  case Nil
  then show ?case by (auto split: if_splits)
next
  case (Cons nx post)
  show ?case
  proof (cases "seg_pages seg < n \<and> seg_pages nx \<le> n - seg_pages seg")
    case True
    with Cons.prems obtain pm1 env1 env2 where
      u: "(if seg_flags nx \<noteq> 0 then unmapArea (page + seg_pages seg) (seg_pages seg) (pm, env) else Ok (pm, env)) = Ok (pm1, env1)"
      and c: "consume page n (seg\<lparr>seg_pages := seg_pages seg + seg_pages nx\<rparr>) post (pm1, env2) = Ok (seg', post', pm', env')"
      by (auto simp: kbind_Ok_iff)
    have "unmaps (pm_pdpt pm) (pm_pdpt pm1)" using u by (auto split: if_splits dest: unmapArea_unmaps)
    with Cons.IH [OF c] show ?thesis by (auto intro: unmaps_trans)
  qed (use Cons.prems in \<open>auto simp: Let_def split: if_splits\<close>)
qed

lemma map_at_unmaps:
  fixes env :: "'d vmenv"
  assumes "map_at rq nt page n (pm, env) = Ok (r, pm', env')"
  shows "unmaps (pm_pdpt pm) (pm_pdpt pm')"
proof (cases "find_seg page 0 (pm_segs pm)")
  case None
  with assms show ?thesis by (auto simp: map_at_def)
next
  case (Some q)
  obtain pre pos seg post where q: "q = (pre, pos, seg, post)" by (cases q)
  show ?thesis
  proof (cases "pos = page \<and> seg_pages seg = n")
    case True
    with assms Some q obtain pm1 and env1 env2 :: "'d vmenv" where
      "(if seg_flags seg \<noteq> 0 then unmapArea pos n (pm, env1) else Ok (pm, env1)) = Ok (pm1, env2)"
      and "pm_pdpt pm' = pm_pdpt pm1"
      by (auto simp: map_at_def kbind_Ok_iff)
    then show ?thesis by (auto split: if_splits dest: unmapArea_unmaps)
  next
    case False
    from assms [unfolded map_at_def prod.case Some q option.case Let_def if_not_P [OF False]]
    obtain pm1 pm2 seg2 seg3 post2 post3 and env1 env2 env3 :: "'d vmenv" where
      c: "consume page n seg2 post2 (pm, env1) = Ok (seg3, post3, pm1, env2)"
      and u: "(if seg_flags seg3 \<noteq> 0 then unmapArea page n (pm1, env2) else Ok (pm1, env2)) = Ok (pm2, env3)"
      and "pm_pdpt pm' = pm_pdpt pm2"
      by (auto simp: kbind_Ok_iff split del: if_split)
    moreover have "unmaps (pm_pdpt pm1) (pm_pdpt pm2)" using u by (auto split: if_splits dest: unmapArea_unmaps)
    ultimately show ?thesis using consume_unmaps [OF c] by (auto intro: unmaps_trans)
  qed
qed

section \<open>Entries that keep their permissions\<close>

text \<open>
  A copy-on-write page is not writable for the processor; what is present was loaded and may be read; what
  may not be executed has the execute-disable bit. What is writable has write permission, unless \<open>vmGetPhys\<close>
  is used (\<open>G\<close>).
\<close>

definition pte_ok :: "bool \<Rightarrow> PTe \<Rightarrow> bool" where
  "pte_ok G pte \<longleftrightarrow> (gx_cow pte \<longrightarrow> \<not> pte_rw pte) \<and> (pte_present pte \<longrightarrow> gx_loaded pte \<and> gx_r pte) \<and>
     (gx_loaded pte \<and> \<not> gx_x pte \<longrightarrow> pte_xd pte) \<and> (gx_cow pte \<or> pte_rw pte \<longrightarrow> gx_loaded pte) \<and> (\<not> G \<longrightarrow> pte_rw pte \<longrightarrow> gx_w pte)"

definition ptes_ok :: "bool \<Rightarrow> PDPT \<Rightarrow> bool" where
  "ptes_ok G t \<longleftrightarrow> (\<forall>p. pte_ok G (entry t p))"

lemma pte_ok_zero [simp]: "pte_ok G zero_pte"
  by (simp add: pte_ok_def zero_pte_def)

lemma pte_ok_set_perms [simp]: "pte_ok G pte \<Longrightarrow> pte_ok G (set_perms prot pte)"
  by (auto simp: pte_ok_def set_perms_def)

lemma pte_ok_loaded [simp]: "\<not> gx_loaded pte \<Longrightarrow> pte_ok G pte \<Longrightarrow> pte_ok G (loaded_pte flags frame pte)"
  by (auto simp: pte_ok_def loaded_pte_def Let_def)

lemma pte_ok_protect [simp]: "pte_ok G pte \<Longrightarrow> pte_ok G (protect_pte prot pte)"
  by (auto simp: pte_ok_def protect_pte_def Let_def)

lemma break_cow_Some:
  assumes "break_cow pte env = Ok (Some pte', old, env')"
  obtains f where "pte' = (if gx_cow pte then pte\<lparr>pte_frame := f, gx_cow := False, pte_rw := True\<rparr> else pte)"
proof -
  have i: "pte = pte\<lparr>pte_frame := pte_frame pte\<rparr>" by simp
  from assms have "\<exists>f. pte' = (if gx_cow pte then pte\<lparr>pte_frame := f, gx_cow := False, pte_rw := True\<rparr> else pte)"
    by (auto simp: break_cow_def kbind_Ok_iff Let_def split: if_splits intro: exI [of _ "pte_frame pte"])
  with that show thesis by blast
qed

lemma pte_ok_break_cow: "break_cow pte env = Ok (Some pte', old, env') \<Longrightarrow> G \<or> gx_w pte \<Longrightarrow> pte_ok G pte \<Longrightarrow> pte_ok G pte'"
  by (erule break_cow_Some) (auto simp: pte_ok_def)

lemma ptes_ok_unmaps: "unmaps t t' \<Longrightarrow> ptes_ok G t \<Longrightarrow> ptes_ok G t'"
  unfolding unmaps_def ptes_ok_def by (metis pte_ok_zero)

text \<open>The change of one entry.\<close>

definition one_entry :: "nat \<Rightarrow> PTe \<Rightarrow> PDPT \<Rightarrow> PDPT \<Rightarrow> bool" where
  "one_entry page pte t t' \<longleftrightarrow> pte_at t' page = Some pte \<and> (\<forall>p. entry t' p = (if p = page then pte else entry t p))"

lemma one_entryD: "one_entry page pte t t' \<Longrightarrow> entry t' page = pte" "one_entry page pte t t' \<Longrightarrow> p \<noteq> page \<Longrightarrow> entry t' p = entry t p"
  by (simp_all add: one_entry_def)

lemma one_entry_trans: "one_entry page pte t t' \<Longrightarrow> one_entry page pte' t' t'' \<Longrightarrow> one_entry page pte' t t''"
  by (simp add: one_entry_def)

lemma one_entry_put: "one_entry page pte t t' \<Longrightarrow> one_entry page pte' t (put_pte page pte' t')"
  by (simp add: one_entry_def entry_put pte_at_put)

lemma ptes_ok_one: "one_entry page pte t t' \<Longrightarrow> ptes_ok G t \<Longrightarrow> pte_ok G pte \<Longrightarrow> ptes_ok G t'"
  by (simp add: one_entry_def ptes_ok_def)

section \<open>Faults\<close>

lemma fault_pte_result:
  assumes "fault_pte prot page (pm, env) = Ok (pte, pm', env')"
  shows "same_space pm pm' \<and> pte = set_perms prot (entry (pm_pdpt pm) page) \<and> one_entry page pte (pm_pdpt pm) (pm_pdpt pm') \<and>
    ve_fts env' = ve_fts env \<and> fs_mem (ve_fr env') = fs_mem (ve_fr env)"
proof -
  from assms obtain p0 t pi where g: "getPage page (pm_pdpt pm) (fs_pi (ve_fr env)) = Ok (p0, t, pi)"
    and r: "pte = set_perms prot p0" "pm' = pm\<lparr>pm_pdpt := put_pte page pte t\<rparr>" "env' = env\<lparr>ve_fr := (ve_fr env)\<lparr>fs_pi := pi\<rparr>\<rparr>"
    by (auto simp: fault_pte_def kbind_Ok_iff Let_def)
  from getPage_put [OF g] show ?thesis by (simp add: r one_entry_def)
qed

lemma fault_load_result:
  assumes "fault_load seg pos page pte (pm, env) = Ok (r, pm', env')" and "one_entry page pte t0 (pm_pdpt pm)"
  shows "same_space pm pm' \<and> (case r of None \<Rightarrow> pm' = pm \<and> \<not> gx_loaded pte
    | Some pte' \<Rightarrow> one_entry page pte' t0 (pm_pdpt pm') \<and>
        (if gx_loaded pte then pte' = pte \<and> pm' = pm \<and> env' = env
         else \<exists>frame. fault_frame seg pos page env = Ok (frame, env') \<and> frame \<noteq> 0 \<and> pte' = loaded_pte (seg_flags seg) frame pte))"
  using assms
  by (auto simp: fault_load_def kbind_Ok_iff Let_def vm_put_def one_entry_put split: if_splits)

text \<open>The table of the page was touched: its entry is \<open>pte\<close>, which keeps the permissions.\<close>

definition touch :: "bool \<Rightarrow> nat \<Rightarrow> PTe \<Rightarrow> ProcMem \<Rightarrow> ProcMem \<Rightarrow> bool" where
  "touch G page pte pm pm' \<longleftrightarrow> same_space pm pm' \<and> one_entry page pte (pm_pdpt pm) (pm_pdpt pm') \<and> pte_ok G pte"

lemma touch_pte:
  "fault_pte prot page (pm, env) = Ok (pte, pm', env') \<Longrightarrow> ptes_ok G (pm_pdpt pm) \<Longrightarrow> touch G page pte pm pm'"
  using fault_pte_result [of prot page pm env pte pm' env'] by (auto simp: touch_def ptes_ok_def)

lemma touch_load:
  assumes "touch G page pte pm pm1" and "fault_load seg pos page pte (pm1, env) = Ok (r, pm2, env')"
  shows "touch G page (case r of None \<Rightarrow> pte | Some pte2 \<Rightarrow> pte2) pm pm2" and "r = Some pte2 \<Longrightarrow> gx_w pte2 = gx_w pte"
proof -
  have o: "one_entry page pte (pm_pdpt pm) (pm_pdpt pm1)" and s: "same_space pm pm1" and k: "pte_ok G pte"
    using assms(1) by (simp_all add: touch_def)
  note l = fault_load_result [OF assms(2) o]
  show "touch G page (case r of None \<Rightarrow> pte | Some pte2 \<Rightarrow> pte2) pm pm2"
  proof (cases r)
    case None
    with l o s k show ?thesis by (simp add: touch_def)
  next
    case (Some pte2)
    with l s k show ?thesis by (auto simp: touch_def intro: same_space_trans split: if_splits)
  qed
  show "r = Some pte2 \<Longrightarrow> gx_w pte2 = gx_w pte"
    using l by (auto simp: loaded_pte_def Let_def split: if_splits)
qed

lemma touch_cow:
  assumes "touch G page pte pm pm1" and "break_cow pte env = Ok (Some pte2, old, env')" and "G \<or> gx_w pte"
  shows "touch G page pte2 pm (vm_put page pte2 pm1)"
  using assms one_entry_put [of page pte "pm_pdpt pm" "pm_pdpt pm1" pte2] pte_ok_break_cow [OF assms(2,3)]
  by (auto simp: touch_def vm_put_def intro: same_space_trans)

text \<open>The lock is released and at most the entry of one page has changed.\<close>

definition one_page :: "bool \<Rightarrow> nat \<Rightarrow> ProcMem \<Rightarrow> ProcMem \<Rightarrow> bool" where
  "one_page G page pm pm' \<longleftrightarrow> pm_segs pm' = pm_segs pm \<and> vm_done pm pm' \<and> ptes_ok G (pm_pdpt pm') \<and>
     (\<forall>p. p \<noteq> page \<longrightarrow> entry (pm_pdpt pm') p = entry (pm_pdpt pm) p)"

lemma one_page_touch: "touch G page pte pm pm2 \<Longrightarrow> ptes_ok G (pm_pdpt pm) \<Longrightarrow> one_page G page pm (vm_signal pm2)"
  using ptes_ok_one [of page pte "pm_pdpt pm" "pm_pdpt pm2"]
  by (auto simp: one_page_def touch_def same_space_iff vm_done_def vm_signal_def one_entryD)

lemma one_page_refl: "ptes_ok G (pm_pdpt pm) \<Longrightarrow> one_page G page pm (vm_signal pm)"
  by (auto simp: one_page_def vm_done_def vm_signal_def)

lemma fault_body_keeps:
  fixes env :: "'d vmenv"
  assumes f: "fault_body in_kernel catching page flags (pm, env) = Ok (r, pm', env')" and ok: "ptes_ok G (pm_pdpt pm)"
  shows "one_page G page pm pm'"
proof -
  from f obtain pos seg rest where sk: "seg_skip page 0 (pm_segs pm) = Some (pos, seg # rest)"
    by (auto simp: fault_body_def split: option.splits list.splits)
  show ?thesis
  proof (cases "seg_flags seg = 0")
    case True
    with f sk one_page_refl [OF ok] show ?thesis by (auto simp: fault_body_def)
  next
    case False
    note f1 = f [unfolded fault_body_def prod.case sk option.case list.case if_not_P [OF False]]
    obtain pte pm1 and env1 :: "'d vmenv" where fp: "fault_pte (seg_prot seg) page (pm, env) = Ok (pte, pm1, env1)"
      using f1 by (auto simp: kbind_Ok_iff)
    note t1 = touch_pte [OF fp ok]
    show ?thesis
    proof (cases "allowed (has flags PF_WRITE) (has flags PF_FETCH) pte")
      case False
      with f1 fp one_page_touch [OF t1 ok] show ?thesis by (auto split: if_splits)
    next
      case True
      with f1 fp obtain r1 pm2 and env2 :: "'d vmenv" where fl: "fault_load seg pos page pte (pm1, env1) = Ok (r1, pm2, env2)"
        by (auto simp: kbind_Ok_iff)
      note t2 = touch_load [OF t1 fl]
      show ?thesis
      proof (cases "\<exists>pte2. r1 = Some pte2 \<and> has flags PF_WRITE")
        case False
        with f1 fp True fl one_page_touch [OF t2(1) ok] show ?thesis by (auto split: option.splits)
      next
        case w: True
        then obtain pte2 where r1: "r1 = Some pte2" "has flags PF_WRITE" by blast
        with f1 fp True fl obtain r3 old and env3 :: "'d vmenv" where b: "break_cow pte2 env2 = Ok (r3, old, env3)"
          and p: "pm' = vm_signal (case r3 of None \<Rightarrow> pm2 | Some pte \<Rightarrow> vm_put page pte pm2)"
          by (auto simp: kbind_Ok_iff split: option.splits)
        have "gx_w pte2" using t2(2) [OF r1(1)] True r1(2) by (simp add: allowed_def)
        with p r1 one_page_touch [OF t2(1) ok] one_page_touch [OF touch_cow [of G page pte2 pm pm2 env2] ok] t2(1) b
        show ?thesis by (cases r3) auto
      qed
    qed
  qed
qed

lemma getphys_body_keeps:
  fixes env :: "'d vmenv"
  assumes f: "getphys_body page perms (pm, env) = Ok (r, pm', env')" and ok: "ptes_ok True (pm_pdpt pm)"
  shows "one_page True page pm pm'"
proof -
  from f obtain pos seg rest where sk: "seg_skip page 0 (pm_segs pm) = Some (pos, seg # rest)"
    by (auto simp: getphys_body_def split: option.splits list.splits)
  show ?thesis
  proof (cases "seg_flags seg = 0")
    case True
    with f sk one_page_refl [OF ok] show ?thesis by (auto simp: getphys_body_def)
  next
    case False
    note f1 = f [unfolded getphys_body_def prod.case sk option.case list.case if_not_P [OF False]]
    obtain pte pm1 and env1 :: "'d vmenv" where fp: "fault_pte (seg_prot seg) page (pm, env) = Ok (pte, pm1, env1)"
      using f1 by (auto simp: kbind_Ok_iff)
    note t1 = touch_pte [OF fp ok]
    show ?thesis
    proof (cases "allowed (has perms PROT_WRITE) (has perms PROT_EXEC) pte")
      case False
      with f1 fp one_page_touch [OF t1 ok] show ?thesis by (auto split: if_splits)
    next
      case True
      with f1 fp obtain r1 pm2 and env2 :: "'d vmenv" where fl: "fault_load seg pos page pte (pm1, env1) = Ok (r1, pm2, env2)"
        by (auto simp: kbind_Ok_iff)
      note t2 = touch_load [OF t1 fl]
      show ?thesis
      proof (cases r1)
        case None
        with f1 fp True fl one_page_touch [OF t2(1) ok] show ?thesis by auto
      next
        case (Some pte2)
        with f1 fp True fl obtain r3 old and env3 :: "'d vmenv" where b: "break_cow pte2 env2 = Ok (r3, old, env3)"
          and p: "pm' = vm_signal (case r3 of None \<Rightarrow> pm2 | Some pte \<Rightarrow> vm_put page pte pm2)"
          by (auto simp: kbind_Ok_iff split: option.splits)
        show ?thesis
          using p Some one_page_touch [OF t2(1) ok] one_page_touch [OF touch_cow [of True page pte2 pm pm2 env2] ok] t2(1) b
          by (cases r3) auto
      qed
    qed
  qed
qed

section \<open>Protection\<close>

text \<open>The loop of \<open>vmProtect\<close> changes only page tables; it releases the lock exactly when it fails.\<close>

lemma protect_loop_keeps:
  assumes "protect_loop k prot page pos segs (pm, env) = Ok (r, pm', env')" and "ptes_ok G (pm_pdpt pm)"
  shows "ptes_ok G (pm_pdpt pm') \<and> pm_segs pm' = pm_segs pm \<and> pm_refcount pm' = pm_refcount pm \<and> pm_phys pm' = pm_phys pm \<and>
    pm_lock pm' = pm_lock pm + (if r = 0 then 0 else 1)"
  using assms
proof (induction k arbitrary: page pos segs pm env)
  case (Suc k)
  from Suc.prems(1) obtain pos' seg segs' where sk: "seg_skip page pos segs = Some (pos', seg # segs')"
    by (auto split: option.splits list.splits)
  show ?case
  proof (cases "seg_flags seg = 0 \<or> has prot PROT_WRITE \<and> has (seg_flags seg) MAP_SHARED \<and> \<not> has (seg_access seg) O_WRONLY")
    case True
    with Suc.prems sk show ?thesis by (auto simp: vm_signal_def split: if_splits)
  next
    case False
    with Suc.prems(1) sk obtain pte t pi where g: "getPage page (pm_pdpt pm) (fs_pi (ve_fr env)) = Ok (pte, t, pi)"
      and r: "protect_loop k prot (page + 1) pos' (seg # segs') (pm\<lparr>pm_pdpt := put_pte page (protect_pte prot pte) t\<rparr>,
          env\<lparr>ve_fr := (ve_fr env)\<lparr>fs_pi := pi\<rparr>\<rparr>) = Ok (r, pm', env')"
      by (auto simp: kbind_Ok_iff split: if_splits)
    have "ptes_ok G (put_pte page (protect_pte prot pte) t)"
      using Suc.prems(2) getPage_put [OF g] by (auto simp: ptes_ok_def)
    with Suc.IH [OF r] show ?thesis by simp
  qed
qed simp

section \<open>The end of a thread\<close>

text \<open>What a page shows after the mappings of the thread are gone.\<close>

definition thread_off :: "nat \<Rightarrow> Segment option \<Rightarrow> Segment option" where
  "thread_off ct m = (case m of None \<Rightarrow> None
     | Some s \<Rightarrow> if has (seg_flags s) MAP_THREAD \<and> seg_creator s = Some ct then None else Some s)"

lemma thread_off_seg:
  "thread_off ct (seg_view s p) = (if has (seg_flags s) MAP_THREAD \<and> seg_creator s = Some ct then None else seg_view s p)"
  by (auto simp: thread_off_def seg_view_def)

lemma unmap_thread_loop_keeps:
  fixes env :: "'d vmenv"
  assumes "unmap_thread_loop ct pos rpre segs (pm, env) = Ok (segs', pm', env')" and "\<forall>s \<in> set rpre \<union> set segs. 0 < seg_pages s"
  shows "same_space pm pm' \<and> unmaps (pm_pdpt pm) (pm_pdpt pm') \<and> seg_total segs' = seg_total rpre + seg_total segs \<and>
    (\<forall>s \<in> set segs'. 0 < seg_pages s) \<and>
    (\<forall>p. vm_view segs' p = (if p < seg_total rpre then vm_view (rev rpre) p else thread_off ct (vm_view segs (p - seg_total rpre))))"
  using assms
proof (induction "length segs" arbitrary: pos rpre segs pm env rule: less_induct)
  case less
  show ?case
  proof (cases segs)
    case Nil
    with less.prems show ?thesis by (auto simp: vm_view_beyond thread_off_def)
  next
    case (Cons seg rest)
    show ?thesis
    proof (cases "has (seg_flags seg) MAP_THREAD \<and> seg_creator seg = Some ct")
      case False
      from less.prems(1) Cons False
      have r: "unmap_thread_loop ct (pos + seg_pages seg) (seg # rpre) rest (pm, env) = Ok (segs', pm', env')" by auto
      have pos': "\<forall>s \<in> set (seg # rpre) \<union> set rest. 0 < seg_pages s" using less.prems(2) Cons by auto
      from less.hyps [OF _ r pos'] Cons
      have ih: "same_space pm pm'" "unmaps (pm_pdpt pm) (pm_pdpt pm')" "seg_total segs' = seg_total (seg # rpre) + seg_total rest"
        "\<forall>s \<in> set segs'. 0 < seg_pages s"
        "\<And>p. vm_view segs' p = (if p < seg_total (seg # rpre) then vm_view (rev (seg # rpre)) p
           else thread_off ct (vm_view rest (p - seg_total (seg # rpre))))" by auto
      have "vm_view segs' p = (if p < seg_total rpre then vm_view (rev rpre) p else thread_off ct (vm_view segs (p - seg_total rpre)))" for p
        using False by (auto simp: ih(5) Cons vm_view_append thread_off_seg add.commute)
      with ih Cons show ?thesis by simp
    next
      case True
      define seg0 where "seg0 = seg\<lparr>seg_ft := None, seg_flags := 0, seg_creator := None\<rparr>"
      define prv where "prv = (case rpre of prev # rpre' \<Rightarrow>
          if seg_flags prev = 0 then (rpre', prev\<lparr>seg_pages := seg_pages prev + seg_pages seg0\<rparr>) else (rpre, seg0)
        | [] \<Rightarrow> (rpre, seg0))"
      define nxt where "nxt = (case rest of nx # segs' \<Rightarrow>
          if seg_flags nx = 0 then ((snd prv)\<lparr>seg_pages := seg_pages (snd prv) + seg_pages nx\<rparr>, segs') else (snd prv, rest)
        | [] \<Rightarrow> (snd prv, rest))"
      have eq: "unmap_thread_loop ct pos rpre (seg # rest) (pm, env) =
          kbind (unmapArea pos (seg_pages seg) (pm, env)) (\<lambda>(pm, env). kbind (tree_down (seg_ft seg) env) (\<lambda>env.
            unmap_thread_loop ct (pos + seg_pages (fst nxt)) (fst nxt # fst prv) (snd nxt) (pm, env)))"
        unfolding unmap_thread_loop.simps(2) if_P [OF True] Let_def case_prod_unfold nxt_def prv_def seg0_def by (rule refl)
      from less.prems(1) [unfolded Cons eq] obtain pm1 and env1 env2 :: "'d vmenv" where
        u: "unmapArea pos (seg_pages seg) (pm, env) = Ok (pm1, env1)"
        and r: "unmap_thread_loop ct (pos + seg_pages (fst nxt)) (fst nxt # fst prv) (snd nxt) (pm1, env2) = Ok (segs', pm', env')"
        by (auto simp: kbind_Ok_iff simp del: unmap_thread_loop.simps)
      have free: "seg_flags seg0 = 0" "seg_pages seg0 = seg_pages seg" by (simp_all add: seg0_def)
      have prv: "seg_flags (snd prv) = 0" "seg_total (fst prv) + seg_pages (snd prv) = seg_total rpre + seg_pages seg"
        "\<And>p. p < seg_total (fst prv) \<Longrightarrow> vm_view (rev (fst prv)) p = vm_view (rev rpre) p"
        "\<And>p. seg_total (fst prv) \<le> p \<Longrightarrow> p < seg_total rpre \<Longrightarrow> vm_view (rev rpre) p = None"
        "\<forall>s \<in> set (fst prv). 0 < seg_pages s" "0 < seg_pages (snd prv)" "seg_total (fst prv) \<le> seg_total rpre"
        using less.prems(2) free Cons
        by (auto simp: prv_def vm_view_append seg_view_def split: list.splits if_splits)
      have nxt: "seg_flags (fst nxt) = 0" "seg_pages (fst nxt) + seg_total (snd nxt) = seg_pages (snd prv) + seg_total rest"
        "seg_pages (snd prv) \<le> seg_pages (fst nxt)" "length (snd nxt) \<le> length rest"
        "\<And>p. seg_pages (fst nxt) - seg_pages (snd prv) \<le> p \<Longrightarrow>
           vm_view (snd nxt) (p - (seg_pages (fst nxt) - seg_pages (snd prv))) = vm_view rest p"
        "\<And>p. p < seg_pages (fst nxt) - seg_pages (snd prv) \<Longrightarrow> vm_view rest p = None"
        "\<forall>s \<in> set (snd nxt). 0 < seg_pages s" "0 < seg_pages (fst nxt)"
        using less.prems(2) prv(1,6) Cons
        by (auto simp: nxt_def seg_view_def split: list.splits if_splits)
      have sp: "same_space pm pm1" "unmaps (pm_pdpt pm) (pm_pdpt pm1)"
        using unmapArea_same [OF u] unmapArea_unmaps [OF u] by simp_all
      have ps: "\<forall>s \<in> set (fst nxt # fst prv) \<union> set (snd nxt). 0 < seg_pages s" using prv(5) nxt(7,8) by auto
      from less.hyps [OF _ r ps] Cons nxt(4)
      have ih: "same_space pm1 pm'" "unmaps (pm_pdpt pm1) (pm_pdpt pm')"
        "seg_total segs' = seg_total (fst nxt # fst prv) + seg_total (snd nxt)" "\<forall>s \<in> set segs'. 0 < seg_pages s"
        "\<And>p. vm_view segs' p = (if p < seg_total (fst nxt # fst prv) then vm_view (rev (fst nxt # fst prv)) p
           else thread_off ct (vm_view (snd nxt) (p - seg_total (fst nxt # fst prv))))" by auto
      have v: "vm_view segs' p = (if p < seg_total rpre then vm_view (rev rpre) p else thread_off ct (vm_view segs (p - seg_total rpre)))" for p
      proof -
        let ?P = "seg_total (fst prv)" and ?N = "seg_pages (fst nxt)" and ?S = "seg_pages (snd prv)"
        have fn: "seg_view (fst nxt) q = None" for q using nxt(1) by (simp add: seg_view_def)
        have off: "thread_off ct (seg_view seg q) = None" for q using True by (simp add: thread_off_seg)
        have tn: "thread_off ct None = None" by (simp add: thread_off_def)
        consider "p < ?P" | "?P \<le> p" "p < seg_total rpre" | "seg_total rpre \<le> p" "p < seg_total rpre + seg_pages seg"
          | "seg_total rpre + seg_pages seg \<le> p" "p < ?P + ?N" | "?P + ?N \<le> p" by linarith
        then show ?thesis
        proof cases
          case 1
          with prv(3,7) show ?thesis by (simp add: ih(5) vm_view_append)
        next
          case 2
          with prv(2,4) nxt(3) show ?thesis by (simp add: ih(5) vm_view_append fn)
        next
          case 3
          then have "p - seg_total rpre < seg_pages seg" by linarith
          with 3 prv(2,7) nxt(3) show ?thesis by (simp add: ih(5) vm_view_append fn Cons off)
        next
          case 4
          then have "p - seg_total rpre - seg_pages seg < ?N - ?S" using prv(2) by linarith
          with nxt(6) have "vm_view rest (p - seg_total rpre - seg_pages seg) = None" by blast
          moreover have "\<not> p - seg_total rpre < seg_pages seg" "p - ?P < ?N" "\<not> p < seg_total rpre" "\<not> p < ?P"
            using 4 prv(7) by linarith+
          ultimately show ?thesis using 4 by (simp add: ih(5) vm_view_append fn Cons tn)
        next
          case 5
          then have le: "?N - ?S \<le> p - seg_total rpre - seg_pages seg" and
            e: "p - seg_total rpre - seg_pages seg - (?N - ?S) = p - (?N + ?P)"
            using prv(2) nxt(3) by linarith+
          from nxt(5) [OF le] have "vm_view (snd nxt) (p - (?N + ?P)) = vm_view rest (p - seg_total rpre - seg_pages seg)"
            unfolding e .
          moreover have "\<not> p - seg_total rpre < seg_pages seg" "\<not> p < seg_total rpre" using 5 prv(2,7) nxt(3) by linarith+
          ultimately show ?thesis using 5 by (simp add: ih(5) Cons)
        qed
      qed
      have "seg_total segs' = seg_total rpre + seg_total segs" using ih(3) prv(2) nxt(2) Cons by simp
      with ih sp v show ?thesis by (auto intro: same_space_trans unmaps_trans)
    qed
  qed
qed

section \<open>Cloning\<close>

text \<open>What a clone makes of an entry, in both address spaces.\<close>

definition cow_pte :: "PTe \<Rightarrow> PTe" where
  "cow_pte pte = (if gx_loaded pte \<and> \<not> gx_shared pte then pte\<lparr>pte_rw := False, gx_cow := True\<rparr> else pte)"

definition cow_pt :: "PT \<Rightarrow> PT" where
  "cow_pt pt = (\<lambda>i. if i < 512 then cow_pte (pt i) else pt i)"

lemma pte_ok_cow [simp]: "pte_ok G pte \<Longrightarrow> pte_ok G (cow_pte pte)"
  by (auto simp: pte_ok_def cow_pte_def)

lemma cow_pte_zero [simp]: "cow_pte zero_pte = zero_pte"
  by (simp add: cow_pte_def)

lemma clone_ptes:
  assumes "for_each clone_pte is (pt, pi) = Ok (pt', pi')" and "distinct is"
  shows "pt' = (\<lambda>i. if i \<in> set is then cow_pte (pt i) else pt i)"
  using assms
proof (induction "is" arbitrary: pt pi)
  case (Cons i "is")
  then obtain pt1 pi1 where c: "clone_pte i (pt, pi) = Ok (pt1, pi1)" and r: "for_each clone_pte is (pt1, pi1) = Ok (pt', pi')"
    by (auto simp: kbind_Ok_iff)
  have "pt1 = pt(i := cow_pte (pt i))"
    using c by (auto simp: clone_pte_def cow_pte_def kbind_Ok_iff Let_def split: if_splits)
  with Cons.IH [OF r] Cons.prems(2) show ?case by (auto simp: fun_eq_iff)
qed simp

lemma clonePT_result: "clonePT pt pi = Ok (frame, pt', pi') \<Longrightarrow> pt' = cow_pt pt"
  by (auto simp: clonePT_def kbind_Ok_iff cow_pt_def dest: clone_ptes)

definition cow_tab :: "(nat \<times> PT) option \<Rightarrow> PT option" where
  "cow_tab x = (case x of None \<Rightarrow> None | Some (_, pt) \<Rightarrow> Some (cow_pt pt))"

lemma cow_tab_simps [simp]: "cow_tab None = None" "cow_tab (Some (g, pt)) = Some (cow_pt pt)"
  by (simp_all add: cow_tab_def)

text \<open>A directory \<open>pd'\<close> holds what the clone makes of the tables of \<open>pd\<close>.\<close>

definition cow_pd :: "PD \<Rightarrow> PD \<Rightarrow> bool" where
  "cow_pd pd pd' \<longleftrightarrow> (\<forall>i < 512. map_option snd (pd' i) = cow_tab (pd i))"

definition cow_pdpt :: "PDPT \<Rightarrow> PDPT \<Rightarrow> bool" where
  "cow_pdpt t t' \<longleftrightarrow> (\<forall>i < 512. case t i of None \<Rightarrow> t' i = None | Some (_, pd) \<Rightarrow> \<exists>f pd'. t' i = Some (f, pd') \<and> cow_pd pd pd')"

lemma clone_pdes:
  assumes "for_each clone_pde is (pd, copy, pi) = Ok (pd', copy', pi')" and "distinct is"
  shows "map_option snd (pd' i) = (if i \<in> set is then cow_tab (pd i) else map_option snd (pd i))"
    and "map_option snd (copy' i) = (if i \<in> set is \<and> pd i \<noteq> None then cow_tab (pd i) else map_option snd (copy i))"
  using assms
proof (induction "is" arbitrary: pd copy pi)
  case (Cons j "is")
  {
    case 1
    then obtain pd1 copy1 pi1 where c: "clone_pde j (pd, copy, pi) = Ok (pd1, copy1, pi1)"
      and r: "for_each clone_pde is (pd1, copy1, pi1) = Ok (pd', copy', pi')" by (auto simp: kbind_Ok_iff)
    have "map_option snd (pd1 i) = (if i = j then cow_tab (pd i) else map_option snd (pd i))"
      "i \<noteq> j \<Longrightarrow> pd1 i = pd i"
      using c by (auto simp: clone_pde_def kbind_Ok_iff dest!: clonePT_result split: option.splits)
    with Cons.IH(1) [OF r] 1 show ?case by (cases "i = j") auto
  next
    case 2
    then obtain pd1 copy1 pi1 where c: "clone_pde j (pd, copy, pi) = Ok (pd1, copy1, pi1)"
      and r: "for_each clone_pde is (pd1, copy1, pi1) = Ok (pd', copy', pi')" by (auto simp: kbind_Ok_iff)
    have "map_option snd (copy1 i) = (if i = j \<and> pd i \<noteq> None then cow_tab (pd i) else map_option snd (copy i))"
      "i \<noteq> j \<Longrightarrow> pd1 i = pd i"
      using c by (auto simp: clone_pde_def kbind_Ok_iff dest!: clonePT_result split: option.splits)
    with Cons.IH(2) [OF r] 2 show ?case by (cases "i = j") auto
  }
qed simp_all

lemma clonePD_result:
  assumes "clonePD pd pi = Ok (frame, pd', copy, pi')"
  shows "cow_pd pd pd' \<and> cow_pd pd copy"
proof -
  from assms obtain pi1 where "for_each clone_pde [0..<512] (pd, \<lambda>_. None, pi1) = Ok (pd', copy, pi')"
    by (auto simp: clonePD_def kbind_Ok_iff)
  note c = clone_pdes [OF this distinct_upt]
  have "map_option snd (copy i) = cow_tab (pd i)" if "i < 512" for i
    using c(2) [of i] that by (cases "pd i") auto
  with c(1) show ?thesis by (simp add: cow_pd_def)
qed

lemma clone_pdptes:
  assumes "for_each clone_pdpte is (t, copy, pi) = Ok (t', copy', pi')" and "distinct is" and "\<forall>i \<in> set is. copy i = None"
  shows "\<forall>i \<in> set is. (case t i of None \<Rightarrow> t' i = None \<and> copy' i = None
      | Some (_, pd) \<Rightarrow> (\<exists>f pd'. t' i = Some (f, pd') \<and> cow_pd pd pd') \<and> (\<exists>f pd'. copy' i = Some (f, pd') \<and> cow_pd pd pd'))"
    and "\<forall>i. i \<notin> set is \<longrightarrow> t' i = t i \<and> copy' i = copy i"
  using assms
proof (induction "is" arbitrary: t copy pi)
  case (Cons j "is")
  {
    fix P and t copy :: PDPT and pi
    assume *: "\<And>t1 copy1 pi1. for_each clone_pdpte is (t1, copy1, pi1) = Ok (t', copy', pi') \<Longrightarrow>
        \<forall>i. i \<noteq> j \<longrightarrow> t1 i = t i \<and> copy1 i = copy i \<Longrightarrow> (case t j of None \<Rightarrow> t1 j = None \<and> copy1 j = None
      | Some (_, pd) \<Rightarrow> (\<exists>f pd'. t1 j = Some (f, pd') \<and> cow_pd pd pd') \<and> (\<exists>f pd'. copy1 j = Some (f, pd') \<and> cow_pd pd pd')) \<Longrightarrow> P"
    assume p: "for_each clone_pdpte (j # is) (t, copy, pi) = Ok (t', copy', pi')" "\<forall>i \<in> set (j # is). copy i = None"
    from p obtain t1 copy1 pi1 where c: "clone_pdpte j (t, copy, pi) = Ok (t1, copy1, pi1)"
      and r: "for_each clone_pdpte is (t1, copy1, pi1) = Ok (t', copy', pi')" by (auto simp: kbind_Ok_iff)
    have P by (rule * [OF r]) (use c p(2) in \<open>auto simp: clone_pdpte_def kbind_Ok_iff dest!: clonePD_result split: option.splits\<close>)
  }
  note step = this
  {
    case 1
    show ?case
    proof (rule step [OF _ 1(1,3)])
      fix t1 copy1 pi1
      assume r: "for_each clone_pdpte is (t1, copy1, pi1) = Ok (t', copy', pi')" and e: "\<forall>i. i \<noteq> j \<longrightarrow> t1 i = t i \<and> copy1 i = copy i"
        and k: "case t j of None \<Rightarrow> t1 j = None \<and> copy1 j = None
          | Some (_, pd) \<Rightarrow> (\<exists>f pd'. t1 j = Some (f, pd') \<and> cow_pd pd pd') \<and> (\<exists>f pd'. copy1 j = Some (f, pd') \<and> cow_pd pd pd')"
      have n: "\<forall>i \<in> set is. copy1 i = None" "j \<notin> set is" "distinct is" using e 1 by auto
      show ?thesis
      proof
        fix i assume "i \<in> set (j # is)"
        then consider "i = j" | "i \<in> set is" "i \<noteq> j" using n(2) by auto
        then show "case t i of None \<Rightarrow> t' i = None \<and> copy' i = None
          | Some (_, pd) \<Rightarrow> (\<exists>f pd'. t' i = Some (f, pd') \<and> cow_pd pd pd') \<and> (\<exists>f pd'. copy' i = Some (f, pd') \<and> cow_pd pd pd')"
        proof cases
          case 1
          have h: "t' j = t1 j" "copy' j = copy1 j" using Cons.IH(2) [OF r n(3,1)] n(2) by simp_all
          show ?thesis using k unfolding 1 h .
        next
          case 2
          then have h: "t1 i = t i" using e by simp
          from Cons.IH(1) [OF r n(3,1)] 2 show ?thesis unfolding h [symmetric] by blast
        qed
      qed
    qed
  next
    case 2
    show ?case
    proof (rule step [OF _ 2(1,3)])
      fix t1 copy1 pi1
      assume r: "for_each clone_pdpte is (t1, copy1, pi1) = Ok (t', copy', pi')" and e: "\<forall>i. i \<noteq> j \<longrightarrow> t1 i = t i \<and> copy1 i = copy i"
      have n: "\<forall>i \<in> set is. copy1 i = None" "distinct is" using e 2 by auto
      show ?thesis using Cons.IH(2) [OF r n(2,1)] e by simp
    qed
  }
qed simp_all

lemma clonePDPT_result:
  assumes "clonePDPT t pi = Ok (phys, t', copy, pi')"
  shows "cow_pdpt t t' \<and> cow_pdpt t copy \<and> (\<forall>i \<ge> 512. t' i = t i \<and> copy i = None)"
proof -
  from assms obtain pi1 where "for_each clone_pdpte [0..<512] (t, \<lambda>_. None, pi1) = Ok (t', copy, pi')"
    by (auto simp: clonePDPT_def kbind_Ok_iff)
  note c = clone_pdptes [OF this distinct_upt]
  have "case t i of None \<Rightarrow> t' i = None \<and> copy i = None
      | Some (_, pd) \<Rightarrow> (\<exists>f pd'. t' i = Some (f, pd') \<and> cow_pd pd pd') \<and> (\<exists>f pd'. copy i = Some (f, pd') \<and> cow_pd pd pd')"
    if "i < 512" for i using c(1) that by simp
  then have "(case t i of None \<Rightarrow> t' i = None | Some (_, pd) \<Rightarrow> \<exists>f pd'. t' i = Some (f, pd') \<and> cow_pd pd pd') \<and>
      (case t i of None \<Rightarrow> copy i = None | Some (_, pd) \<Rightarrow> \<exists>f pd'. copy i = Some (f, pd') \<and> cow_pd pd pd')"
    if "i < 512" for i using that by (cases "t i") force+
  then have "cow_pdpt t t' \<and> cow_pdpt t copy" by (simp add: cow_pdpt_def)
  with c(2) show ?thesis by simp
qed

lemma cow_pdpt_entry:
  assumes "cow_pdpt t t'" and "p < addr_pages"
  shows "entry t' p = cow_pte (entry t p)"
proof -
  have i: "p div 2 ^ 18 < 512" using assms(2) by (simp add: div_less_iff_less_mult)
  have j: "(p div 2 ^ 9) mod 2 ^ 9 < 512" "p mod 2 ^ 9 < 512" by simp_all
  show ?thesis
  proof (cases "t (p div 2 ^ 18)")
    case None
    then have "t' (p div 2 ^ 18) = None" using assms(1) i by (force simp: cow_pdpt_def)
    with None show ?thesis by (simp add: entry_def pte_at_def)
  next
    case (Some a)
    then obtain f pd where a: "t (p div 2 ^ 18) = Some (f, pd)" by (cases a) simp
    then obtain g pd' where b: "t' (p div 2 ^ 18) = Some (g, pd')" "cow_pd pd pd'" using assms(1) i by (force simp: cow_pdpt_def)
    from b(2) j(1) have c: "map_option snd (pd' ((p div 2 ^ 9) mod 2 ^ 9)) = cow_tab (pd ((p div 2 ^ 9) mod 2 ^ 9))"
      by (simp add: cow_pd_def)
    show ?thesis
      unfolding entry_def pte_at_def a b(1) option.case prod.case
      using c j(2) by (cases "pd ((p div 2 ^ 9) mod 2 ^ 9)") (auto simp: cow_pt_def)
  qed
qed

lemma clone_segs_result: "clone_segs segs env = Ok (segs', env') \<Longrightarrow> segs' = map clone_seg segs"
  by (induction segs arbitrary: env segs') (auto simp: kbind_Ok_iff)

lemma vmClone_result:
  assumes "vmClone mem (Some pm) env = Some (Ok (new, r, env'))"
  shows "\<exists>pm'. r = Some pm' \<and> 0 < pm_lock pm \<and> pm_segs new = map clone_seg (pm_segs pm) \<and> pm_lock new = 1 \<and>
    pm_segs pm' = pm_segs pm \<and> pm_lock pm' = pm_lock pm \<and>
    cow_pdpt (pm_pdpt pm) (pm_pdpt pm') \<and> cow_pdpt (pm_pdpt pm) (pm_pdpt new) \<and>
    (\<forall>i \<ge> 512. pm_pdpt pm' i = pm_pdpt pm i \<and> pm_pdpt new i = None)"
  using assms
  by (auto simp: vmClone_def vm_locked_Ok kbind_Ok_iff dest!: clone_segs_result clonePDPT_result)

lemma entry_high:
  assumes "addr_pages \<le> p"
  shows "entry t p = (case t (p div 2 ^ 18) of None \<Rightarrow> zero_pte
    | Some (f, pd) \<Rightarrow> (case pd ((p div 2 ^ 9) mod 2 ^ 9) of None \<Rightarrow> zero_pte | Some (g, pt) \<Rightarrow> pt (p mod 2 ^ 9)))" and "512 \<le> p div 2 ^ 18"
  using assms by (auto simp: entry_def pte_at_def less_eq_div_iff_mult_less_eq split: option.splits)

lemma vmClone_entries:
  assumes "vmClone mem (Some pm) env = Some (Ok (new, Some pm', env'))"
  shows "entry (pm_pdpt pm') p = (if p < addr_pages then cow_pte (entry (pm_pdpt pm) p) else entry (pm_pdpt pm) p)"
    and "entry (pm_pdpt new) p = (if p < addr_pages then cow_pte (entry (pm_pdpt pm) p) else zero_pte)"
proof -
  from vmClone_result [OF assms] have c: "cow_pdpt (pm_pdpt pm) (pm_pdpt pm')" "cow_pdpt (pm_pdpt pm) (pm_pdpt new)"
    "\<forall>i \<ge> 512. pm_pdpt pm' i = pm_pdpt pm i \<and> pm_pdpt new i = None" by auto
  show "entry (pm_pdpt pm') p = (if p < addr_pages then cow_pte (entry (pm_pdpt pm) p) else entry (pm_pdpt pm) p)"
    using cow_pdpt_entry [OF c(1)] c(3) entry_high(2) [of p] by (auto simp: not_less entry_high(1) simp del: One_nat_def)
  show "entry (pm_pdpt new) p = (if p < addr_pages then cow_pte (entry (pm_pdpt pm) p) else zero_pte)"
    using cow_pdpt_entry [OF c(2)] c(3) entry_high(2) [of p] by (auto simp: not_less entry_high(1) simp del: One_nat_def)
qed

section \<open>Histories\<close>

text \<open>
  What can happen to an address space: the calls of its threads, the accesses of the processor, which marks
  the entries of present pages, and anything that other address spaces and file systems do to what they share.
  After \<open>fork\<close> a history continues in the parent or in the child. \<open>G\<close>: \<open>vmGetPhys\<close> may be called.
\<close>

inductive vm_step :: "bool \<Rightarrow> 'd vm \<Rightarrow> 'd vm \<Rightarrow> bool" for G where
  map: "vmMap ct nt addr len prot flags fp off s = Some (Ok (r, s')) \<Longrightarrow> vm_step G s s'"
| unmap_thread: "vmUnmapThread ct s = Some (Ok s') \<Longrightarrow> vm_step G s s'"
| protect: "vmProtect base len prot s = Some (Ok (e, s')) \<Longrightarrow> vm_step G s s'"
| fault: "vmFault in_kernel catching a flags s = Some (Ok (r, s')) \<Longrightarrow> vm_step G s s'"
| getphys: "G \<Longrightarrow> vmGetPhys a perms s = Some (Ok (frame, s')) \<Longrightarrow> vm_step G s s'"
| parent: "vmClone mem (Some pm) env = Some (Ok (new, Some pm', env')) \<Longrightarrow> vm_step G (pm, env) (pm', env')"
| child: "vmClone mem (Some pm) env = Some (Ok (new, Some pm', env')) \<Longrightarrow> vm_step G (pm, env) (new, env')"
| up: "vm_step G (pm, env) (vmUp pm, env)"
| down: "vmDown (pm, env) = Ok (pm', env') \<Longrightarrow> pm_refcount pm' \<noteq> 0 \<Longrightarrow> vm_step G (pm, env) (pm', env')"
| mmu: "pte_at (pm_pdpt pm) page = Some pte \<Longrightarrow> pte_present pte \<Longrightarrow> d \<longrightarrow> pte_rw pte \<Longrightarrow>
    vm_step G (pm, env) (vm_put page (pte\<lparr>pte_accessed := True, pte_dirty := pte_dirty pte \<or> d\<rparr>) pm, env)"
| others: "vm_step G (pm, env) (pm, env')"

inductive vm_reach :: "bool \<Rightarrow> 'd vm \<Rightarrow> bool" for G where
  init: "vmNew mem oldPM e env = Ok (old, pm, e', env') \<Longrightarrow> vm_reach G (pm, env')"
| clone_init: "vmClone mem None env = Some (Ok (pm, r, env')) \<Longrightarrow> vm_reach G (pm, env')"
| step: "vm_reach G s \<Longrightarrow> vm_step G s s' \<Longrightarrow> vm_reach G s'"

definition vm_ok :: "bool \<Rightarrow> ProcMem \<Rightarrow> bool" where
  "vm_ok G pm \<longleftrightarrow> segs_ok (pm_segs pm) \<and> ptes_ok G (pm_pdpt pm) \<and> pm_lock pm \<le> 1"

lemma fresh_space_ok: "fresh_space mem env = Ok (pm, env') \<Longrightarrow> vm_ok G pm"
  by (auto simp: fresh_space_def kbind_Ok_iff vm_ok_def segs_ok_def blank_seg_def ptes_ok_def entry_def pte_at_def)

lemma vm_ok_one_page: "one_page G page (pm\<lparr>pm_lock := pm_lock pm - 1\<rparr>) pm' \<Longrightarrow> vm_ok G pm \<Longrightarrow> 0 < pm_lock pm \<Longrightarrow> vm_ok G pm'"
  by (auto simp: one_page_def vm_ok_def vm_done_def)

lemma clone_seg_pages [simp]: "seg_pages (clone_seg s) = seg_pages s"
  by (simp add: clone_seg_def)

lemma segs_ok_clone: "segs_ok segs \<Longrightarrow> segs_ok (map clone_seg segs)"
  by (simp add: segs_ok_def seg_total_def comp_def)

lemma vmMap_keeps:
  fixes env :: "'d vmenv"
  assumes m: "vmMap ct nt addr len prot flags fp off (pm, env) = Some (Ok (r, pm', env'))" and ok: "segs_ok (pm_segs pm)"
  shows "segs_ok (pm_segs pm') \<and> pm_lock pm' = pm_lock pm \<and> unmaps (pm_pdpt pm) (pm_pdpt pm')"
proof (cases "map_check addr len prot flags fp off = 0")
  case False
  with m ok show ?thesis by (auto simp: vmMap_def Let_def)
next
  case True
  note n0 = map_check_pages [OF True]
  have s: "pm_segs (pm\<lparr>pm_lock := l\<rparr>) = pm_segs pm" "pm_pdpt (pm\<lparr>pm_lock := l\<rparr>) = pm_pdpt pm" for l by simp_all
  from m True consider (same) "pm' = pm"
    | (any) "0 < pm_lock pm" "map_anywhere (map_request ct prot flags fp off) nt (unat (map_pages len))
        (pm\<lparr>pm_lock := pm_lock pm - 1\<rparr>, env) = Ok (r, pm', env')"
    | (at) rq where "0 < pm_lock pm" "map_at rq nt (unat addr div 4096) (unat (map_pages len))
        (pm\<lparr>pm_lock := pm_lock pm - 1\<rparr>, env) = Ok (r, pm', env')"
    by (auto simp: vmMap_def Let_def vm_locked_Ok split: if_splits)
  then show ?thesis
  proof cases
    case same
    with ok show ?thesis by simp
  next
    case any
    have "pm_pdpt pm' = pm_pdpt pm"
      using any(2) by (auto simp: map_anywhere_def kbind_Ok_iff Let_def split: option.splits if_splits)
    with map_anywhere_result [OF any(2) _ n0, unfolded s, OF ok] any(1) ok show ?thesis by (auto simp: vm_done_def)
  next
    case at
    from map_at_result [OF at(2) _ n0, unfolded s, OF ok] map_at_unmaps [OF at(2)] at(1) ok
    show ?thesis by (auto simp: vm_done_def split: if_splits)
  qed
qed

lemma vm_step_ok: "vm_step G s s' \<Longrightarrow> vm_ok G (fst s) \<Longrightarrow> vm_ok G (fst s')"
proof (induction rule: vm_step.induct)
  case (map ct nt addr len prot flags fp off s r s')
  then show ?case using vmMap_keeps [of ct nt addr len prot flags fp off "fst s" "snd s" r "fst s'" "snd s'"]
    by (auto simp: vm_ok_def intro: ptes_ok_unmaps)
next
  case (unmap_thread ct s s')
  obtain pm env pm' env' where s: "s = (pm, env)" "s' = (pm', env')" by (cases s; cases s') auto
  from unmap_thread(1) obtain segs pm1 where l: "0 < pm_lock pm"
    and u: "unmap_thread_loop ct 0 [] (pm_segs pm) (pm\<lparr>pm_lock := pm_lock pm - 1\<rparr>, env) = Ok (segs, pm1, env')"
    and r: "pm' = vm_signal (pm1\<lparr>pm_segs := segs\<rparr>)"
    by (auto simp: vmUnmapThread_def s vm_locked_Ok kbind_Ok_iff)
  have "\<forall>x \<in> set [] \<union> set (pm_segs pm). 0 < seg_pages x" using unmap_thread(2) by (simp add: s vm_ok_def segs_ok_def)
  from unmap_thread_loop_keeps [OF u this] have k: "same_space (pm\<lparr>pm_lock := pm_lock pm - 1\<rparr>) pm1" "unmaps (pm_pdpt pm) (pm_pdpt pm1)"
    "seg_total segs = seg_total (pm_segs pm)" "\<forall>x \<in> set segs. 0 < seg_pages x" by simp_all
  then have "ptes_ok G (pm_pdpt pm1)" using unmap_thread(2) ptes_ok_unmaps by (auto simp: s vm_ok_def)
  with k l unmap_thread(2) show ?case by (auto simp: s r vm_ok_def segs_ok_def same_space_iff vm_signal_def)
next
  case (protect base len prot s e s')
  obtain pm env pm' env' where s: "s = (pm, env)" "s' = (pm', env')" by (cases s; cases s') auto
  from protect show ?case
    by (auto simp: vmProtect_def s vm_locked_Ok vm_ok_def dest!: protect_loop_keeps [where G = G] split: if_splits)
next
  case (fault in_kernel catching a flags s r s')
  obtain pm env pm' env' where s: "s = (pm, env)" "s' = (pm', env')" by (cases s; cases s') auto
  from fault(1) consider "pm' = pm" | (body) "0 < pm_lock pm" "fault_body in_kernel catching (unat a div 4096) flags
      (pm\<lparr>pm_lock := pm_lock pm - 1\<rparr>, env) = Ok (r, pm', env')"
    by (auto simp: vmFault_def s vm_locked_Ok split: if_splits)
  then show ?case
  proof cases
    case body
    have "one_page G (unat a div 4096) (pm\<lparr>pm_lock := pm_lock pm - 1\<rparr>) pm'"
      by (rule fault_body_keeps [OF body(2)]) (use fault(2) in \<open>simp add: s vm_ok_def\<close>)
    with vm_ok_one_page body(1) fault(2) show ?thesis by (simp add: s)
  qed (use fault(2) in \<open>simp add: s\<close>)
next
  case (getphys a perms s frame s')
  obtain pm env pm' env' where s: "s = (pm, env)" "s' = (pm', env')" by (cases s; cases s') auto
  from getphys(2) consider "pm' = pm" | (body) "0 < pm_lock pm" "getphys_body (unat a div 4096) perms
      (pm\<lparr>pm_lock := pm_lock pm - 1\<rparr>, env) = Ok (frame, pm', env')"
    by (auto simp: vmGetPhys_def s vm_locked_Ok split: if_splits)
  then show ?case
  proof cases
    case body
    have "one_page G (unat a div 4096) (pm\<lparr>pm_lock := pm_lock pm - 1\<rparr>) pm'"
      using getphys_body_keeps [OF body(2)] getphys(1,3) by (simp add: s vm_ok_def)
    with vm_ok_one_page body(1) getphys(3) show ?thesis by (simp add: s)
  qed (use getphys(3) in \<open>simp add: s\<close>)
next
  case (parent mem pm env new pm' env')
  from vmClone_result [OF parent(1)] vmClone_entries(1) [OF parent(1)] parent(2)
  show ?case by (auto simp: vm_ok_def ptes_ok_def)
next
  case (child mem pm env new pm' env')
  from vmClone_result [OF child(1)] vmClone_entries(2) [OF child(1)] child(2)
  show ?case by (auto simp: vm_ok_def ptes_ok_def segs_ok_clone)
next
  case (mmu pm page pte d env)
  have "entry (pm_pdpt pm) page = pte" using mmu(1) by (simp add: entry_def)
  with mmu show ?case by (auto simp: vm_ok_def ptes_ok_def vm_put_def entry_put pte_ok_def)
qed (auto simp: vm_ok_def vmUp_def vmDown_def Let_def kbind_Ok_iff split: if_splits)

text \<open>
  C20: in every history of an address space the segments partition the 512 GB of addresses into non-empty
  parts, the lock has at most one resource, and the page tables grant the processor no more than the permissions
  of the page: what is present was loaded and may be read, what may not be executed is marked so, a page that is
  to be copied on a write is not writable, and (unless \<open>vmGetPhys\<close> is called) what is writable may be written.
\<close>

theorem vm_type_invariant:
  assumes "vm_reach G (pm, env)"
  shows "seg_total (pm_segs pm) = addr_pages \<and> (\<forall>s \<in> set (pm_segs pm). 0 < seg_pages s) \<and> pm_lock pm \<le> 1 \<and>
    (\<forall>p. let pte = entry (pm_pdpt pm) p in
       (pte_present pte \<longrightarrow> gx_loaded pte \<and> gx_r pte) \<and> (gx_loaded pte \<and> \<not> gx_x pte \<longrightarrow> pte_xd pte) \<and>
       (gx_cow pte \<longrightarrow> \<not> pte_rw pte) \<and> (\<not> G \<longrightarrow> pte_rw pte \<longrightarrow> gx_w pte))"
proof -
  have "vm_ok G (fst (pm, env))"
    using assms
  proof (induction rule: vm_reach.induct)
    case (init mem oldPM e env old pm e' env')
    then show ?case by (auto simp: vmNew_def Let_def kbind_Ok_iff intro: fresh_space_ok)
  next
    case (clone_init mem env pm r env')
    then show ?case by (auto simp: vmClone_def kbind_Ok_iff intro: fresh_space_ok)
  next
    case (step s s')
    then show ?case using vm_step_ok by blast
  qed
  then show ?thesis by (auto simp: vm_ok_def segs_ok_def ptes_ok_def pte_ok_def Let_def)
qed

end
