(* ===== verification/Gx_VmProps.thy ===== *)
theory Gx_VmProps
  imports Gx_VmInv
begin

text \<open>
  Properties of the address spaces of \<open>kernel/src/thread/procmem.c\<close>: what a page fault gives a thread, what a
  clone shares, and the places where the page tables and the segments come apart.
\<close>

section \<open>The lock after \<open>vmProtect\<close>\<close>

lemma locked_None: "pm_lock pm = 0 \<Longrightarrow> vm_locked body (pm, env) = None"
  by (simp add: vm_locked_def)

lemma step_stays_locked:
  assumes "vm_step G s s'" and "pm_lock (fst s) = 0"
  shows "pm_lock (fst s') = 0"
  using assms
proof (induction rule: vm_step.induct)
  case (map ct nt addr len prot flags fp off s r s')
  then show ?case by (cases s) (auto simp: vmMap_def Let_def locked_None split: if_splits)
next
  case (unmap_thread ct s s')
  then show ?case by (cases s) (auto simp: vmUnmapThread_def locked_None)
next
  case (protect base len prot s e s')
  then show ?case by (cases s) (auto simp: vmProtect_def locked_None split: if_splits)
next
  case (fault in_kernel catching a flags s r s')
  then show ?case by (cases s) (auto simp: vmFault_def locked_None split: if_splits)
next
  case (getphys a perms s frame s')
  then show ?case by (cases s) (auto simp: vmGetPhys_def locked_None split: if_splits)
next
  case (parent mem pm env new pm' env')
  then show ?case by (auto simp: vmClone_def locked_None)
next
  case (child mem pm env new pm' env')
  then show ?case by (auto simp: vmClone_def locked_None)
qed (auto simp: vmUp_def vmDown_def vm_put_def Let_def kbind_Ok_iff split: if_splits)

lemma steps_stay_locked: "(vm_step G)\<^sup>*\<^sup>* s s' \<Longrightarrow> pm_lock (fst s) = 0 \<Longrightarrow> pm_lock (fst s') = 0"
  by (induction rule: rtranclp_induct) (auto dest: step_stays_locked)

lemma protect_loop_lock:
  "protect_loop k prot page pos segs (pm, env) = Ok (r, pm', env') \<Longrightarrow> pm_lock pm' = pm_lock pm + (if r = 0 then 0 else 1)"
proof (induction k arbitrary: page pos segs pm env)
  case (Suc k)
  then show ?case
    by (auto simp: kbind_Ok_iff vm_signal_def split: option.splits list.splits if_splits)
qed simp

text \<open>
  C24: a call of \<open>vmProtect\<close> that succeeds keeps the lock. In every later history of the address space the lock
  stays taken, and each call that needs it sleeps: a page fault of any thread, a new mapping, \<open>fork\<close>, another
  \<open>mprotect\<close> and the end of a thread.
\<close>

theorem vmProtect_keeps_lock:
  assumes "vmProtect base len prot (pm, env) = Some (Ok (0, pm', env'))" and "pm_lock pm \<le> 1"
    and "(vm_step G)\<^sup>*\<^sup>* (pm', env') (pm2, env2)"
  shows "pm_lock pm2 = 0 \<and> vmUnmapThread ct (pm2, env2) = None \<and> vmClone mem (Some pm2) env2 = None \<and>
    (0x200000 \<le> a \<and> a < 0x8000000000 \<longrightarrow> vmFault in_kernel catching a flags (pm2, env2) = None) \<and>
    (map_errno a l p fl fp off = 0 \<and> (a \<noteq> 0 \<or> has fl MAP_FIXED) \<longrightarrow> vmMap ct nt a l p fl fp off (pm2, env2) = None) \<and>
    (\<forall>e s. vmProtect a l p (pm2, env2) = Some (Ok (e, s)) \<longrightarrow> e = EINVAL)"
proof -
  from assms(1) have l: "0 < pm_lock pm" and
    p: "protect_loop (protect_turns base len) (adjust_prot prot) (unat base div 4096) 0 (pm_segs pm)
      (pm\<lparr>pm_lock := pm_lock pm - 1\<rparr>, env) = Ok (0, pm', env')"
    by (auto simp: vmProtect_def vm_locked_Ok split: if_splits)
  have "pm_lock (fst (pm', env')) = 0" using protect_loop_lock [OF p] l assms(2) by simp
  from steps_stay_locked [OF assms(3) this] have z: "pm_lock pm2 = 0" by simp
  note n = locked_None [OF z]
  have "vmMap ct nt a l' p' fl fp off (pm2, env2) = None" if "map_errno a l' p' fl fp off = 0" "a \<noteq> 0 \<or> has fl MAP_FIXED" for l' p'
    using that by (auto simp: vmMap_def Let_def n map_errno_def split: if_splits)
  moreover have "e = EINVAL" if "vmProtect a l' p' (pm2, env2) = Some (Ok (e, s))" for e s l' p'
    using that by (auto simp: vmProtect_def n split: if_splits)
  ultimately show ?thesis by (auto simp: z n vmUnmapThread_def vmClone_def vmFault_def)
qed

definition boot_env :: "unit vmenv" where
  "boot_env = \<lparr>ve_fr = \<lparr>fs_pi = \<lparr>pi_root = \<lambda>_. None, pi_cachedFrames = 0,
       pi_phm = \<lparr>pm_placement = 5, pm_map = [\<lparr>mb_baseAddr = 0, mb_len = 0x100000, mb_type = 1\<rparr>], pm_mapStart = [],
         pm_num = 0, pm_bitmap = None, pm_lowest = 0, pm_total = 0, pm_used = 0, pm_pages = [], pm_tracks = []\<rparr>\<rparr>,
       fs_mem = \<lambda>_. zero_page\<rparr>,
     ve_fts = \<lambda>_. None, ve_threads = [], ve_woken = []\<rparr>"

definition demo_seg :: "nat \<Rightarrow> u32 \<Rightarrow> Segment" where
  "demo_seg n flags = \<lparr>seg_pages = n, seg_ft = None, seg_offset = 0, seg_creator = None, seg_flags = flags,
     seg_prot = PROT_READ OR PROT_WRITE, seg_access = O_RDWR\<rparr>"

definition demo_space :: "Segment list \<Rightarrow> PDPT \<Rightarrow> ProcMem" where
  "demo_space segs t = \<lparr>pm_lock = 1, pm_segs = segs, pm_refcount = 1, pm_phys = 4, pm_pdpt = t\<rparr>"

theorem vmProtect_keeps_lock_witness:
  "\<exists>pm'. vmProtect 0x200000 0 PROT_READ (demo_space [demo_seg addr_pages 0] (\<lambda>_. None), boot_env) = Some (Ok (0, pm', boot_env)) \<and>
     vmFault False False 0x200000 0 (pm', boot_env) = None"
proof -
  let ?s = "(demo_space [demo_seg addr_pages 0] (\<lambda>_. None))\<lparr>pm_lock := 0\<rparr>"
  have r: "vmProtect 0x200000 0 PROT_READ (demo_space [demo_seg addr_pages 0] (\<lambda>_. None), boot_env) = Some (Ok (0, ?s, boot_env))"
    by (simp add: vmProtect_def vm_locked_def demo_space_def protect_turns_def)
  have "vmFault False False 0x200000 0 (?s, boot_env) = None"
    using vmProtect_keeps_lock [OF r _ rtranclp.rtrancl_refl, where a = "0x200000"] by (simp add: demo_space_def)
  with r show ?thesis by blast
qed

theorem vm_type_invariant_witness:
  "\<exists>pm e env. vmNew (demo_seg 0 0) None \<lparr>p4_present = False, p4_user = False, p4_rw = False, p4_phys = 0\<rparr> boot_env = Ok (None, pm, e, env) \<and>
     seg_total (pm_segs pm) = addr_pages"
proof -
  obtain pm e env where n: "vmNew (demo_seg 0 0) None \<lparr>p4_present = False, p4_user = False, p4_rw = False, p4_phys = 0\<rparr> boot_env = Ok (None, pm, e, env)"
    by (simp add: vmNew_def fresh_space_def alloc_table_def phmAllocFrame_def boot_env_def)
  from vm_type_invariant [OF vm_reach.init [OF n]] n show ?thesis by blast
qed

section \<open>The end of a thread\<close>

text \<open>\<open>vmUnmapThread\<close> removes exactly the mappings that the thread made for itself: every other page shows what
  it showed before, and the segments still partition the address space.
\<close>

theorem vmUnmapThread_view:
  assumes "vmUnmapThread ct (pm, env) = Some (Ok (pm', env'))" and "segs_ok (pm_segs pm)"
  shows "vm_view (pm_segs pm') = (\<lambda>p. case vm_view (pm_segs pm) p of None \<Rightarrow> None
      | Some s \<Rightarrow> if has (seg_flags s) MAP_THREAD \<and> seg_creator s = Some ct then None else Some s) \<and>
    segs_ok (pm_segs pm') \<and> pm_lock pm' = pm_lock pm"
proof -
  from assms(1) obtain segs pm1 where l: "0 < pm_lock pm"
    and u: "unmap_thread_loop ct 0 [] (pm_segs pm) (pm\<lparr>pm_lock := pm_lock pm - 1\<rparr>, env) = Ok (segs, pm1, env')"
    and r: "pm' = vm_signal (pm1\<lparr>pm_segs := segs\<rparr>)"
    by (auto simp: vmUnmapThread_def vm_locked_Ok kbind_Ok_iff)
  have "\<forall>x \<in> set [] \<union> set (pm_segs pm). 0 < seg_pages x" using assms(2) by (simp add: segs_ok_def)
  note k = unmap_thread_loop_keeps [OF u this]
  then have "vm_view segs = (\<lambda>p. thread_off ct (vm_view (pm_segs pm) p))" by (simp add: fun_eq_iff)
  with k l assms(2) show ?thesis by (simp add: r segs_ok_def same_space_iff vm_signal_def thread_off_def)
qed

theorem vmUnmapThread_view_witness:
  "\<exists>pm' env'. vmUnmapThread 7 (demo_space [demo_seg 512 0, (demo_seg 1 17)\<lparr>seg_creator := Some 7\<rparr>, demo_seg (addr_pages - 513) 0] (\<lambda>_. None),
       boot_env) = Some (Ok (pm', env')) \<and> vm_view (pm_segs pm') 512 = None \<and> seg_total (pm_segs pm') = addr_pages"
proof -
  let ?s = "demo_space [demo_seg 512 0, (demo_seg 1 17)\<lparr>seg_creator := Some 7\<rparr>, demo_seg (addr_pages - 513) 0] (\<lambda>_. None)"
  have up: "[512..<513] = [512]" by (simp add: upt_rec)
  have u: "unmap_page 512 (\<lambda>_. None, pi) = Ok (\<lambda>_. None, pi)" for pi by (simp add: unmap_page_def pte_at_def)
  obtain pm' env' where m: "vmUnmapThread 7 (?s, boot_env) = Some (Ok (pm', env'))"
    by (simp add: vmUnmapThread_def vm_locked_def demo_space_def demo_seg_def has_def unmapArea_def up u tree_down_def)
  have "segs_ok (pm_segs ?s)" by (simp add: demo_space_def segs_ok_def demo_seg_def)
  from vmUnmapThread_view [OF m this] m show ?thesis
    by (auto simp: demo_space_def demo_seg_def seg_view_def has_def segs_ok_def)
qed

text \<open>
  After \<open>vmUnmapThread\<close> has merged a segment with the free one before it, it continues at the wrong position:
  with these segments it unmaps page 6, which another mapping still uses, in place of page 4, whose entry stays in
  the page tables although nothing is mapped there any more.
\<close>

definition thread_segs :: "Segment list" where
  "thread_segs = [demo_seg 2 0, (demo_seg 1 (MAP_PRIVATE OR MAP_ANON OR MAP_THREAD))\<lparr>seg_creator := Some 7\<rparr>,
     demo_seg 1 (MAP_PRIVATE OR MAP_ANON), (demo_seg 1 (MAP_PRIVATE OR MAP_ANON OR MAP_THREAD))\<lparr>seg_creator := Some 7\<rparr>,
     demo_seg 4 (MAP_PRIVATE OR MAP_ANON), demo_seg (addr_pages - 9) 0]"

lemma thread_loop_demo:
  assumes "unmap_thread_loop 7 0 [] thread_segs (pm, env) = Ok (segs, pm', env')"
  shows "segs = [demo_seg 3 0, demo_seg 1 (MAP_PRIVATE OR MAP_ANON), demo_seg 1 0, demo_seg 4 (MAP_PRIVATE OR MAP_ANON), demo_seg (addr_pages - 9) 0]"
    and "entry (pm_pdpt pm') p = (if p \<in> {2, 6} \<and> gx_loaded (entry (pm_pdpt pm) p) then zero_pte else entry (pm_pdpt pm) p)"
proof -
  from assms obtain pm1 env1 pm2 env2 where u: "unmapArea (Suc (Suc 0)) 1 (pm, env) = Ok (pm1, env1)" "unmapArea 6 1 (pm1, env1) = Ok (pm2, env2)"
    and r: "segs = [demo_seg 3 0, demo_seg 1 (MAP_PRIVATE OR MAP_ANON), demo_seg 1 0, demo_seg 4 (MAP_PRIVATE OR MAP_ANON), demo_seg (addr_pages - 9) 0]"
      "pm' = pm2"
    by (auto simp: thread_segs_def demo_seg_def has_def kbind_Ok_iff tree_down_def Let_def simp del: One_nat_def)
  show "segs = [demo_seg 3 0, demo_seg 1 (MAP_PRIVATE OR MAP_ANON), demo_seg 1 0, demo_seg 4 (MAP_PRIVATE OR MAP_ANON), demo_seg (addr_pages - 9) 0]"
    by (rule r(1))
  show "entry (pm_pdpt pm') p = (if p \<in> {2, 6} \<and> gx_loaded (entry (pm_pdpt pm) p) then zero_pte else entry (pm_pdpt pm) p)"
    by (auto simp: r(2) unmapArea_entry [OF u(2)] unmapArea_entry [OF u(1)])
qed

theorem vmUnmapThread_wrong_page:
  assumes "vmUnmapThread 7 (demo_space thread_segs t, env) = Some (Ok (pm', env'))"
  shows "vm_view thread_segs 4 \<noteq> None \<and> vm_view (pm_segs pm') 4 = None \<and> entry (pm_pdpt pm') 4 = entry t 4 \<and>
    vm_view thread_segs 6 \<noteq> None \<and> vm_view (pm_segs pm') 6 = vm_view thread_segs 6 \<and>
    (gx_loaded (entry t 6) \<longrightarrow> entry (pm_pdpt pm') 6 = zero_pte)"
proof -
  from assms obtain segs pm1
    where u: "unmap_thread_loop 7 0 [] thread_segs ((demo_space thread_segs t)\<lparr>pm_lock := 0\<rparr>, env) = Ok (segs, pm1, env')"
    and r: "pm' = vm_signal (pm1\<lparr>pm_segs := segs\<rparr>)"
    by (auto simp: vmUnmapThread_def vm_locked_Ok kbind_Ok_iff demo_space_def)
  from thread_loop_demo [OF u] show ?thesis
    by (simp add: r thread_segs_def demo_seg_def seg_view_def demo_space_def)
qed

text \<open>Page tables with the same entries for the first and the second two megabytes.\<close>

definition demo_pdpt :: "PT \<Rightarrow> PDPT" where
  "demo_pdpt pt = (\<lambda>_. None)(0 \<mapsto> (1, (\<lambda>_. None)(0 \<mapsto> (2, pt), 1 \<mapsto> (3, pt))))"

theorem vmUnmapThread_wrong_page_witness:
  "\<exists>pm' env'. vmUnmapThread 7 (demo_space thread_segs (demo_pdpt ((\<lambda>_. zero_pte)(4 := zero_pte\<lparr>gx_loaded := True, pte_frame := 9\<rparr>))), boot_env) =
     Some (Ok (pm', env')) \<and> gx_loaded (entry (pm_pdpt pm') 4)"
proof -
  let ?t = "demo_pdpt ((\<lambda>_. zero_pte)(4 := zero_pte\<lparr>gx_loaded := True, pte_frame := 9\<rparr>))"
  have e: "pte_at ?t 2 = Some zero_pte" "pte_at ?t 6 = Some zero_pte" "entry ?t 4 = zero_pte\<lparr>gx_loaded := True, pte_frame := 9\<rparr>"
    by (simp_all add: demo_pdpt_def pte_at_def entry_def)
  have u: "unmap_page (Suc (Suc 0)) (?t, pi) = Ok (?t, pi)" "unmap_page 6 (?t, pi) = Ok (?t, pi)" for pi
    using e(1) by (simp_all add: unmap_page_def e numeral_2_eq_2)
  have up: "[Suc (Suc 0)..<3] = [Suc (Suc 0)]" by (simp add: upt_rec)
  obtain pm' where m: "vmUnmapThread 7 (demo_space thread_segs ?t, boot_env) = Some (Ok (pm', boot_env))"
    by (simp add: vmUnmapThread_def vm_locked_def demo_space_def thread_segs_def demo_seg_def has_def tree_down_def unmapArea_def u up
        Let_def del: One_nat_def)
  from vmUnmapThread_wrong_page [OF m] m show ?thesis by (intro exI [of _ pm'] exI [of _ boot_env]) (simp add: e)
qed

section \<open>What a new mapping does to pages that are in memory\<close>

lemma find_seg_at: "0 < seg_pages s \<Longrightarrow> find_seg (pos + seg_total pre) pos (pre @ s # post) = Some (pre, pos + seg_total pre, s, post)"
proof (induction pre arbitrary: pos)
  case (Cons a pre)
  have "find_seg (pos + seg_pages a + seg_total pre) (pos + seg_pages a) (pre @ s # post) =
      Some (pre, pos + seg_pages a + seg_total pre, s, post)"
    by (rule Cons.IH [OF Cons.prems])
  then show ?case by (simp add: add.assoc)
qed simp

text \<open>
  \<open>vmMap\<close> over a free segment of \<open>k\<close> pages and the mapped segment after it takes the wrong number of pages
  out of the page tables: it unmaps \<open>k\<close> pages from the start of the mapped segment, however many that has. With
  fewer than \<open>k\<close>, pages of the next mapping are lost; with more, old pages stay in the new mapping.
\<close>

theorem vmMap_unmaps_wrong_pages:
  fixes env :: "'d vmenv"
  assumes m: "vmMap ct nt addr len prot flags fp off (pm, env) = Some (Ok (r, pm', env'))"
    and e: "map_errno addr len prot flags fp off = 0" "addr \<noteq> 0 \<or> has flags MAP_FIXED"
    and segs: "pm_segs pm = pre @ f # x # post" "seg_flags f = 0" "seg_flags x \<noteq> 0" "0 < seg_pages f" "0 < seg_pages x"
    and pg: "unat addr div 4096 = seg_total pre" "unat (map_pages len) = seg_pages f + seg_pages x"
  shows "entry (pm_pdpt pm') p =
    (if seg_total pre + seg_pages f \<le> p \<and> p < seg_total pre + 2 * seg_pages f \<and> gx_loaded (entry (pm_pdpt pm) p)
     then zero_pte else entry (pm_pdpt pm) p)"
proof -
  let ?pm = "pm\<lparr>pm_lock := pm_lock pm - 1\<rparr>" and ?page = "seg_total pre" and ?n = "seg_pages f + seg_pages x"
  from m e obtain rq where ma: "map_at rq nt ?page ?n (?pm, env) = Ok (r, pm', env')"
    by (auto simp: vmMap_def Let_def vm_locked_Ok map_errno_def pg split: if_splits)
  have fs: "find_seg ?page 0 (pm_segs pm) = Some (pre, ?page, f, x # post)"
    using find_seg_at [of f 0 pre "x # post"] segs(1,4) by simp
  have c: "consume ?page ?n (f\<lparr>seg_pages := ?n\<rparr>) post s = Ok (f\<lparr>seg_pages := ?n\<rparr>, post, s)" for s :: "'d vm"
    by (cases post) simp_all
  from ma fs segs obtain pm1 and env1 env2 :: "'d vmenv" where
    u: "unmapArea (?page + seg_pages f) (seg_pages f) (?pm, env1) = Ok (pm1, env2)" and r: "pm_pdpt pm' = pm_pdpt pm1"
    by (auto simp: map_at_def Let_def kbind_Ok_iff c)
  show ?thesis using unmapArea_entry [OF u] by (simp add: r mult_2 algebra_simps)
qed

text \<open>
  A length that makes \<open>addr+len\<close> wrap passes the checks of \<open>vmMap\<close>, and the call then panics: it looks for
  more pages than the address space has until there is no further segment (or a step before that panics).
\<close>

theorem vmMap_overflow_panics:
  fixes s :: "'d vm"
  assumes "map_errno addr len prot flags fp off = 0" "addr \<noteq> 0 \<or> has flags MAP_FIXED"
    and "segs_ok (pm_segs (fst s))" "0 < pm_lock (fst s)" and "addr_pages < unat addr div 4096 + unat (map_pages len)"
  shows "vmMap ct nt addr len prot flags fp off s = Some Panic"
proof -
  obtain pm and env :: "'d vmenv" where s: "s = (pm, env)" by (cases s)
  let ?pm = "pm\<lparr>pm_lock := pm_lock pm - 1\<rparr>"
  from assms(1) have chk: "map_check addr len prot flags fp off = 0" "unat addr div 4096 < addr_pages"
    by (auto simp: map_errno_def split: if_splits)
  obtain rq where m: "vmMap ct nt addr len prot flags fp off s = Some (map_at rq nt (unat addr div 4096) (unat (map_pages len)) (?pm, env))"
    using assms(1,2,4) by (auto simp: vmMap_def Let_def vm_locked_def map_errno_def s split: if_splits)
  have sg: "segs_ok (pm_segs ?pm)" using assms(3) by (simp add: s)
  have "map_at rq nt (unat addr div 4096) (unat (map_pages len)) (?pm, env) \<noteq> Ok (r, pm', env')" for r pm' env'
    using map_at_result [OF _ sg map_check_pages [OF chk(1)], of rq nt "unat addr div 4096" env r pm' env'] chk(2) assms(5) by auto
  then have "map_at rq nt (unat addr div 4096) (unat (map_pages len)) (?pm, env) = Panic"
    by (cases "map_at rq nt (unat addr div 4096) (unat (map_pages len)) (?pm, env)") auto
  with m show ?thesis by simp
qed

definition demo_newtree :: "unit newtree" where
  "demo_newtree = (0, (), \<lparr>rl_heap = \<lambda>_. undefined, rl_ranges = None, rl_requests = [], rl_new = 0\<rparr>)"

theorem vmMap_overflow_panics_witness:
  "vmMap 1 demo_newtree 0x200000 (- 0x100000) PROT_READ (MAP_PRIVATE OR MAP_ANON OR MAP_FIXED) None 0
     (demo_space [demo_seg addr_pages 0] (\<lambda>_. None), boot_env) = Some Panic"
  by (rule vmMap_overflow_panics)
    (simp_all add: map_errno_def map_check_def adjust_prot_def map_access_def has_def map_pages_def demo_space_def segs_ok_def demo_seg_def
      drop_bit_eq_div)

theorem vmMap_unmaps_wrong_pages_witness:
  "\<exists>pm' env'. vmMap 1 demo_newtree 0x200000 0x4000 PROT_READ (MAP_PRIVATE OR MAP_ANON OR MAP_FIXED) None 0
     (demo_space [demo_seg 512 1, demo_seg 1 0, demo_seg 3 1, demo_seg (addr_pages - 516) 0]
        (demo_pdpt ((\<lambda>_. zero_pte)(3 := zero_pte\<lparr>gx_loaded := True, pte_frame := 9\<rparr>))), boot_env) =
       Some (Ok (0x200000, pm', env')) \<and> gx_loaded (entry (pm_pdpt pm') 515)"
proof -
  let ?segs = "[demo_seg 512 1, demo_seg 1 0, demo_seg 3 1, demo_seg (addr_pages - 516) 0]"
  let ?t = "demo_pdpt ((\<lambda>_. zero_pte)(3 := zero_pte\<lparr>gx_loaded := True, pte_frame := 9\<rparr>))"
  let ?fl = "13 :: u32"
  have fl: "(MAP_PRIVATE OR MAP_ANON OR MAP_FIXED :: u32) = ?fl" by simp
  have "pte_at ?t 513 = Some zero_pte" by (simp add: demo_pdpt_def pte_at_def)
  then have u: "unmap_page 513 (?t, pi) = Ok (?t, pi)" for pi by (simp add: unmap_page_def)
  have e: "map_check 0x200000 0x4000 PROT_READ ?fl None 0 = 0" "unat (map_pages 0x4000) = 4"
    by (simp_all add: map_check_def map_pages_def has_def adjust_prot_def map_access_def drop_bit_eq_div)
  have up: "[513..<514] = [513]" by (simp add: upt_rec)
  obtain pm' where m: "vmMap 1 demo_newtree 0x200000 0x4000 PROT_READ ?fl None 0 (demo_space ?segs ?t, boot_env) =
       Some (Ok (0x200000, pm', boot_env))"
    by (simp add: vmMap_def e Let_def has_def vm_locked_def map_at_def demo_space_def demo_seg_def map_request_def unmapArea_def up u
        tree_down_def tree_up_def seg_fill_def seg_details_def page_addr_def)
  have n: "map_errno 0x200000 0x4000 PROT_READ ?fl None 0 = 0" by (simp add: map_errno_def e)
  have "entry (pm_pdpt pm') 515 = entry ?t 515"
    using vmMap_unmaps_wrong_pages [OF m n, of "[demo_seg 512 1]" "demo_seg 1 0" "demo_seg 3 1" _ 515]
    by (simp add: demo_space_def demo_seg_def e)
  also have "gx_loaded \<dots>" by (simp add: demo_pdpt_def entry_def pte_at_def)
  finally show ?thesis using m unfolding fl by blast
qed

section \<open>Page faults\<close>

lemma page_addr_div: "p < addr_pages \<Longrightarrow> unat (page_addr p) div 4096 = p"
proof -
  assume "p < addr_pages"
  then have "p * 4096 < 2 ^ 64" by simp
  then have "unat (page_addr p) = p * 4096" unfolding page_addr_def unsigned_of_nat by (simp add: take_bit_nat_eq_self)
  then show ?thesis by simp
qed

lemma skip_view:
  assumes "seg_skip page 0 segs = Some (pos, seg # rest)"
  shows "vm_view segs page = seg_view seg (page - pos)" and "pos \<le> page"
proof -
  from seg_skip_Some [OF assms] obtain pre where "segs = pre @ seg # rest" "pos = seg_total pre" "pos \<le> page" "page < pos + seg_pages seg"
    by auto
  then show "vm_view segs page = seg_view seg (page - pos)" "pos \<le> page" by (simp_all add: vm_view_at)
qed

lemma loaded_pte_fields:
  "gx_loaded (loaded_pte fl f pte)" "gx_r (loaded_pte fl f pte) = gx_r pte" "gx_w (loaded_pte fl f pte) = gx_w pte"
  "gx_x (loaded_pte fl f pte) = gx_x pte" "pte_frame (loaded_pte fl f pte) = f"
  "gx_r pte \<Longrightarrow> pte_present (loaded_pte fl f pte)" "gx_x pte \<Longrightarrow> pte_xd (loaded_pte fl f pte) = pte_xd pte"
  "gx_w pte \<Longrightarrow> gx_cow (loaded_pte fl f pte) \<or> pte_rw (loaded_pte fl f pte)"
  "gx_shared (loaded_pte fl f pte) = has fl MAP_SHARED" "gx_cow (loaded_pte fl f pte) = has fl MAP_PRIVATE"
  "gx_perm_ovr (loaded_pte fl f pte) = gx_perm_ovr pte"
  by (auto simp: loaded_pte_def Let_def)

text \<open>The permissions, and what the processor may do but for writing, are the same in both entries.\<close>

definition same_rights :: "PTe \<Rightarrow> PTe \<Rightarrow> bool" where
  "same_rights pte pte' \<longleftrightarrow> gx_r pte' = gx_r pte \<and> gx_w pte' = gx_w pte \<and> gx_x pte' = gx_x pte \<and> gx_perm_ovr pte' = gx_perm_ovr pte"

text \<open>What a fault makes of the entry of its page when it finds \<open>pte\<close> there and allows the access.\<close>

definition resolved :: "bool \<Rightarrow> bool \<Rightarrow> Segment \<Rightarrow> PTe \<Rightarrow> PTe \<Rightarrow> bool" where
  "resolved w x s pte pte' \<longleftrightarrow> gx_loaded pte' \<and> same_rights pte pte' \<and> (w \<longrightarrow> \<not> gx_cow pte') \<and>
     (if gx_loaded pte then pte_present pte' = pte_present pte \<and> pte_xd pte' = pte_xd pte \<and> gx_shared pte' = gx_shared pte \<and>
        (w \<and> gx_cow pte \<longrightarrow> pte_rw pte') \<and> (\<not> (w \<and> gx_cow pte) \<longrightarrow> pte' = pte)
      else pte_present pte' \<and> gx_shared pte' = has (seg_flags s) MAP_SHARED \<and> (w \<longrightarrow> pte_rw pte') \<and> (x \<longrightarrow> pte_xd pte' = pte_xd pte))"

lemma resolved_load:
  assumes "allowed w x pte" "if gx_loaded pte then pte1 = pte else pte1 = loaded_pte (seg_flags s) f pte" and "\<not> w"
  shows "resolved w x s pte pte1"
  using assms by (auto simp: resolved_def same_rights_def loaded_pte_fields allowed_def split: if_splits)

lemma resolved_cow:
  assumes a: "allowed True x pte" and l: "if gx_loaded pte then pte1 = pte else pte1 = loaded_pte (seg_flags s) f pte"
    and b: "break_cow pte1 env = Ok (Some pte2, old, env')"
  shows "resolved True x s pte pte2"
proof -
  from break_cow_Some [OF b] obtain g where g: "pte2 = (if gx_cow pte1 then pte1\<lparr>pte_frame := g, gx_cow := False, pte_rw := True\<rparr> else pte1)" .
  show ?thesis
  proof (cases "gx_loaded pte")
    case True
    with l g show ?thesis by (auto simp: resolved_def same_rights_def)
  next
    case False
    with l have p1: "pte1 = loaded_pte (seg_flags s) f pte" by simp
    have "gx_r pte" "gx_w pte" "x \<longrightarrow> gx_x pte" using a by (auto simp: allowed_def)
    with False g show ?thesis using loaded_pte_fields(8) [of pte "seg_flags s" f]
      by (auto simp: resolved_def same_rights_def loaded_pte_fields p1)
  qed
qed

text \<open>The parts of a fault at a page with a mapping.\<close>

lemma fault_body_result:
  fixes env :: "'d vmenv"
  assumes f: "fault_body in_kernel catching page flags (pm, env) = Ok (r, pm', env')" and ok: "segs_ok (pm_segs pm)" "page < addr_pages"
  defines "w \<equiv> has flags PF_WRITE" and "x \<equiv> has flags PF_FETCH"
  shows "case vm_view (pm_segs pm) page of
      None \<Rightarrow> r = throw catching SegvMapErr \<and> pm' = vm_signal pm \<and> env' = env
    | Some s \<Rightarrow> let pte = set_perms (seg_prot s) (entry (pm_pdpt pm) page) in
        if \<not> allowed w x pte
        then r = throw catching SegvAccErr \<and> entry (pm_pdpt pm') page = pte \<and> (\<not> in_kernel \<or> catching)
        else r = throw catching BusErr \<or> r = Resolved \<and> resolved w x s pte (entry (pm_pdpt pm') page)"
proof -
  have "seg_skip page 0 (pm_segs pm) \<noteq> None" using seg_skip_None [of 0 page "pm_segs pm"] ok by (simp add: segs_ok_def)
  then obtain pos seg rest where sk: "seg_skip page 0 (pm_segs pm) = Some (pos, seg # rest)"
    using seg_skip_Some [of page 0 "pm_segs pm"] by fastforce
  note v = skip_view(1) [OF sk]
  show ?thesis
  proof (cases "seg_flags seg = 0")
    case True
    then have "vm_view (pm_segs pm) page = None" using v by (simp add: seg_view_def)
    with f sk True show ?thesis by (auto simp: fault_body_def)
  next
    case False
    then obtain s where s: "vm_view (pm_segs pm) page = Some s" "seg_prot s = seg_prot seg" "seg_flags s = seg_flags seg"
      using v by (simp add: seg_view_def)
    define pte where "pte = set_perms (seg_prot s) (entry (pm_pdpt pm) page)"
    note f1 = f [unfolded fault_body_def prod.case sk option.case list.case if_not_P [OF False]]
    obtain pte0 pm1 and env1 :: "'d vmenv" where fp: "fault_pte (seg_prot seg) page (pm, env) = Ok (pte0, pm1, env1)"
      using f1 by (auto simp: kbind_Ok_iff)
    from fault_pte_result [OF fp] have p0: "pte0 = pte" and o1: "one_entry page pte (pm_pdpt pm) (pm_pdpt pm1)"
      by (auto simp: pte_def s)
    have goal: ?thesis if "if \<not> allowed w x pte
        then r = throw catching SegvAccErr \<and> entry (pm_pdpt pm') page = pte \<and> (\<not> in_kernel \<or> catching)
        else r = throw catching BusErr \<or> r = Resolved \<and> resolved w x s pte (entry (pm_pdpt pm') page)"
      unfolding s(1) option.case Let_def pte_def [symmetric] by (rule that)
    show ?thesis
    proof (cases "allowed w x pte")
      case na: False
      with f1 fp p0 one_entryD(1) [OF o1] show ?thesis by (intro goal) (auto simp: w_def x_def split: if_splits)
    next
      case al: True
      with f1 fp p0 obtain r1 pm2 and env2 :: "'d vmenv" where fl: "fault_load seg pos page pte (pm1, env1) = Ok (r1, pm2, env2)"
        by (auto simp: kbind_Ok_iff w_def x_def)
      note l = fault_load_result [OF fl o1]
      show ?thesis
      proof (cases r1)
        case None
        with f1 fp p0 al fl show ?thesis by (intro goal) (auto simp: w_def x_def)
      next
        case (Some pte1)
        with l have o2: "one_entry page pte1 (pm_pdpt pm) (pm_pdpt pm2)" by (auto split: if_splits)
        from l Some obtain f where lp: "if gx_loaded pte then pte1 = pte else pte1 = loaded_pte (seg_flags s) f pte"
          by (auto simp: s(3) split: if_splits)
        show ?thesis
        proof (cases w)
          case False
          with f1 fp p0 al fl Some have r: "r = Resolved" "pm' = vm_signal pm2" by (auto simp: w_def x_def)
          then show ?thesis using resolved_load [OF al lp False] one_entryD(1) [OF o2] al by (intro goal) simp
        next
          case wr: True
          with f1 fp p0 al fl Some obtain r3 old and env3 :: "'d vmenv" where b: "break_cow pte1 env2 = Ok (r3, old, env3)"
            and fin: "case r3 of None \<Rightarrow> r = throw catching BusErr | Some pte2 \<Rightarrow> r = Resolved \<and> pm' = vm_signal (vm_put page pte2 pm2)"
            by (auto simp: kbind_Ok_iff w_def x_def split: option.splits)
          show ?thesis
          proof (cases r3)
            case None
            with fin al show ?thesis by (intro goal) simp
          next
            case s3: (Some pte2)
            have "entry (pm_pdpt (vm_put page pte2 pm2)) page = pte2"
              using one_entryD(1) [OF one_entry_put [OF o2]] by (simp add: vm_put_def)
            with fin s3 al wr resolved_cow [OF _ lp, of x env2 pte2 old env3] b show ?thesis by (intro goal) simp
          qed
        qed
      qed
    qed
  qed
qed

lemma vmFault_body:
  assumes "vmFault in_kernel catching a flags (pm, env) = Some (Ok (r, pm', env'))" and "0x200000 \<le> a" "a < 0x8000000000"
  shows "0 < pm_lock pm" and "unat a div 4096 < addr_pages"
    and "fault_body in_kernel catching (unat a div 4096) flags (pm\<lparr>pm_lock := pm_lock pm - 1\<rparr>, env) = Ok (r, pm', env')"
proof -
  have "\<not> (a < 0x200000 \<or> 0x8000000000 \<le> a)" using assms(2,3) by (simp add: not_less not_le)
  with assms(1) show "0 < pm_lock pm"
    "fault_body in_kernel catching (unat a div 4096) flags (pm\<lparr>pm_lock := pm_lock pm - 1\<rparr>, env) = Ok (r, pm', env')"
    by (auto simp: vmFault_def vm_locked_Ok)
  have "unat a < 0x8000000000" using assms(3) by (simp add: word_less_nat_alt)
  then show "unat a div 4096 < addr_pages" by (simp add: div_less_iff_less_mult)
qed

text \<open>
  C21: how a page fault inside the address space ends. Where nothing is mapped the thread gets \<open>SEGV_MAPERR\<close> and
  nothing changes. Else the permissions are those of the page, or of the mapping if the page has none yet; an access
  they forbid gets \<open>SEGV_ACCERR\<close> and loads nothing. An allowed access gets \<open>SIGBUS\<close> or is resolved: the page
  is loaded with the same permissions, and after a write it is no longer to be copied. A page that was not loaded
  before is then present, and writable after a write; one that was loaded and is not to be copied is left as it
  is. Segments, the lock and the entries of all other pages stay as they were.
\<close>

theorem vmFault_outcome:
  fixes env :: "'d vmenv"
  assumes f: "vmFault in_kernel catching a flags (pm, env) = Some (Ok (r, pm', env'))" and a: "0x200000 \<le> a" "a < 0x8000000000"
    and ok: "segs_ok (pm_segs pm)"
  defines "w \<equiv> has flags PF_WRITE" and "x \<equiv> has flags PF_FETCH" and "page \<equiv> unat a div 4096"
  shows "(case vm_view (pm_segs pm) page of
      None \<Rightarrow> r = throw catching SegvMapErr \<and> pm' = pm \<and> env' = env
    | Some s \<Rightarrow> let pte = set_perms (seg_prot s) (entry (pm_pdpt pm) page); pte' = entry (pm_pdpt pm') page in
        if \<not> allowed w x pte then r = throw catching SegvAccErr \<and> pte' = pte \<and> (\<not> in_kernel \<or> catching)
        else r = throw catching BusErr \<or> r = Resolved \<and>
          gx_loaded pte' \<and> gx_r pte' = gx_r pte \<and> gx_w pte' = gx_w pte \<and> gx_x pte' = gx_x pte \<and> (w \<longrightarrow> \<not> gx_cow pte') \<and>
          (\<not> gx_loaded pte \<longrightarrow> pte_present pte' \<and> (w \<longrightarrow> pte_rw pte') \<and> (x \<longrightarrow> pte_xd pte' = pte_xd pte)) \<and>
          (gx_loaded pte \<and> w \<and> gx_cow pte \<longrightarrow> pte_rw pte' \<and> pte_present pte' = pte_present pte) \<and>
          (gx_loaded pte \<and> \<not> (w \<and> gx_cow pte) \<longrightarrow> pte' = pte)) \<and>
    (ptes_ok True (pm_pdpt pm) \<longrightarrow> pm_segs pm' = pm_segs pm \<and> pm_lock pm' = pm_lock pm \<and>
       (\<forall>p. p \<noteq> page \<longrightarrow> entry (pm_pdpt pm') p = entry (pm_pdpt pm) p))"
proof -
  let ?pm = "pm\<lparr>pm_lock := pm_lock pm - 1\<rparr>"
  note b = vmFault_body [OF f a, folded page_def]
  have ok': "segs_ok (pm_segs ?pm)" using ok by simp
  have sg: "pm_segs ?pm = pm_segs pm" "pm_pdpt ?pm = pm_pdpt pm" by simp_all
  note res = fault_body_result [OF b(3) ok' b(2), folded w_def x_def, unfolded sg]
  have "ptes_ok True (pm_pdpt pm) \<longrightarrow> one_page True page ?pm pm'" using fault_body_keeps [OF b(3), of True] by simp
  then have keep: "ptes_ok True (pm_pdpt pm) \<longrightarrow> pm_segs pm' = pm_segs pm \<and> pm_lock pm' = pm_lock pm \<and>
       (\<forall>p. p \<noteq> page \<longrightarrow> entry (pm_pdpt pm') p = entry (pm_pdpt pm) p)"
    using b(1) by (auto simp: one_page_def vm_done_def)
  show ?thesis
  proof (cases "vm_view (pm_segs pm) page")
    case None
    with res keep vm_signal_relock [OF b(1)] show ?thesis by (simp del: One_nat_def)
  next
    case (Some s)
    show ?thesis
      using res keep unfolding Some option.case Let_def resolved_def same_rights_def
      by (auto split: if_splits)
  qed
qed

definition rw_pte :: PTe where
  "rw_pte = zero_pte\<lparr>pte_present := True, gx_loaded := True, gx_r := True, gx_w := True, gx_perm_ovr := True, pte_frame := 9\<rparr>"

definition rw_pdpt :: PDPT where
  "rw_pdpt = demo_pdpt ((\<lambda>_. zero_pte)(0 := rw_pte))"

lemma rw_entry: "pte_at rw_pdpt 512 = Some rw_pte" "entry rw_pdpt 512 = rw_pte"
  by (simp_all add: rw_pdpt_def demo_pdpt_def pte_at_def entry_def)

text \<open>The page is loaded and may be written, but the processor may not write: the fault changes nothing.\<close>

theorem vmFault_outcome_witness:
  "\<exists>pm' env'. vmFault False False 0x200000 PF_WRITE (demo_space [demo_seg addr_pages 1] rw_pdpt, boot_env) = Some (Ok (Resolved, pm', env')) \<and>
     entry (pm_pdpt pm') 512 = rw_pte \<and> \<not> pte_rw (entry (pm_pdpt pm') 512)"
proof -
  let ?s = "demo_space [demo_seg addr_pages 1] rw_pdpt"
  have sp: "set_perms 3 rw_pte = rw_pte" by (simp add: set_perms_def rw_pte_def)
  have rw: "gx_loaded rw_pte" "gx_r rw_pte" "gx_w rw_pte" "\<not> gx_cow rw_pte" "\<not> pte_rw rw_pte" by (simp_all add: rw_pte_def zero_pte_def)
  have g: "\<exists>t. getPage 512 rw_pdpt pi = Ok (rw_pte, t, pi)" for pi
    by (simp add: getPage_def rw_pdpt_def demo_pdpt_def)
  then obtain t where t: "getPage 512 rw_pdpt (fs_pi (ve_fr boot_env)) = Ok (rw_pte, t, fs_pi (ve_fr boot_env))" by blast
  obtain pm' env' where m: "vmFault False False 0x200000 PF_WRITE (?s, boot_env) = Some (Ok (Resolved, pm', env'))"
    by (simp add: vmFault_def vm_locked_def demo_space_def fault_body_def demo_seg_def fault_pte_def t sp Let_def allowed_def has_def rw
        fault_load_def break_cow_def)
  have "segs_ok (pm_segs ?s)" by (simp add: demo_space_def segs_ok_def demo_seg_def)
  from vmFault_outcome [OF m _ _ this] have "entry (pm_pdpt pm') 512 = rw_pte"
    by (simp add: demo_space_def demo_seg_def seg_view_def rw_entry sp allowed_def has_def rw Let_def throw_def)
  with m rw show ?thesis by simp
qed

section \<open>Two calls of \<open>vmMap\<close>\<close>

text \<open>A page in the middle of the blank address space, and the highest page of it.\<close>

lemma demo_map_check:
  "map_check 0x200000 0x1000 PROT_READ 13 None 0 = 0" "map_check 0 0x1000 PROT_READ 5 None 0 = 0" "unat (map_pages 0x1000) = 1"
  by (simp_all add: map_check_def map_pages_def has_def adjust_prot_def map_access_def drop_bit_eq_div)

theorem vmMap_at_refines_witness:
  "\<exists>pm'. vmMap 1 demo_newtree 0x200000 0x1000 PROT_READ (MAP_PRIVATE OR MAP_ANON OR MAP_FIXED) None 0
       (demo_space [demo_seg addr_pages 0] (\<lambda>_. None), boot_env) = Some (Ok (0x200000, pm', boot_env)) \<and>
     vm_view (pm_segs pm') 511 = None \<and> (\<exists>s. vm_view (pm_segs pm') 512 = Some s \<and> seg_prot s = PROT_READ) \<and> vm_view (pm_segs pm') 513 = None"
proof -
  let ?s = "demo_space [demo_seg addr_pages 0] (\<lambda>_. None)"
  have fl: "(MAP_PRIVATE OR MAP_ANON OR MAP_FIXED :: u32) = 13" by simp
  obtain pm' where m: "vmMap 1 demo_newtree 0x200000 0x1000 PROT_READ 13 None 0 (?s, boot_env) = Some (Ok (0x200000, pm', boot_env))"
    by (simp add: vmMap_def demo_map_check Let_def has_def vm_locked_def map_at_def demo_space_def demo_seg_def map_request_def
        tree_down_def tree_up_def seg_fill_def seg_details_def page_addr_def seg_rest_def)
  have "segs_ok (pm_segs ?s)" by (simp add: demo_space_def segs_ok_def demo_seg_def)
  have "map_errno 0x200000 0x1000 PROT_READ 13 None 0 = 0" "(0x200000 :: u64) \<noteq> 0 \<or> has (13 :: u32) MAP_FIXED"
    by (simp_all add: map_errno_def demo_map_check has_def)
  with vmMap_at_refines [OF m \<open>segs_ok (pm_segs ?s)\<close>] have
    v: "vm_view (pm_segs pm') = (\<lambda>p. if 512 \<le> p \<and> p < 513 then seg_view (mapping 1 PROT_READ 13 None 0 None 1) (p - 512)
      else vm_view (pm_segs ?s) p)"
    unfolding demo_map_check by (simp add: anon_shared_def file_tree_def has_def cong: if_cong)
  have "vm_view (pm_segs ?s) p = None" for p by (simp add: demo_space_def demo_seg_def seg_view_def)
  with v m show ?thesis unfolding fl by (simp add: seg_view_def mapping_def has_def adjust_prot_def)
qed

theorem vmMap_picks_highest_witness:
  "\<exists>pm'. vmMap 1 demo_newtree 0 0x1000 PROT_READ (MAP_PRIVATE OR MAP_ANON) None 0
       (demo_space [demo_seg addr_pages 0] (\<lambda>_. None), boot_env) = Some (Ok (0x7FFFFFF000, pm', boot_env)) \<and>
     vm_view (pm_segs pm') (addr_pages - 1) \<noteq> None"
proof -
  let ?s = "demo_space [demo_seg addr_pages 0] (\<lambda>_. None)"
  have fl: "(MAP_PRIVATE OR MAP_ANON :: u32) = 5" by simp
  obtain pm' where m: "vmMap 1 demo_newtree 0 0x1000 PROT_READ 5 None 0 (?s, boot_env) = Some (Ok (0x7FFFFFF000, pm', boot_env))"
    by (simp add: vmMap_def demo_map_check Let_def has_def vm_locked_def map_anywhere_def demo_space_def demo_seg_def map_request_def
        tree_up_def page_addr_def)
  have "segs_ok (pm_segs ?s)" "\<not> has (5 :: u32) MAP_FIXED" by (simp_all add: demo_space_def segs_ok_def demo_seg_def has_def)
  from vmMap_picks_highest [OF m this demo_map_check(2)] obtain q where q: "page_addr q = 0x7FFFFFF000" "free_room 1 (pm_segs ?s) q"
    and v: "vm_view (pm_segs pm') q \<noteq> None"
    by (auto simp: demo_map_check err_def seg_view_def mapping_def has_def)
  from q(2) have "q < addr_pages" by (auto simp: free_room_def demo_space_def demo_seg_def append_eq_Cons_conv Cons_eq_append_conv)
  then have "q = addr_pages - 1" using page_addr_div [of q] q(1) by simp
  with m v show ?thesis unfolding fl by auto
qed

section \<open>Permissions that outlive a mapping\<close>

text \<open>The permissions of a page that was touched but never loaded stay in the page tables when its mapping goes.
  When a file that was opened for reading only is then mapped there, shared and read-only, a write to the
  page is not refused: unless the page cannot be loaded the fault makes the processor write to the page of the
  file.
\<close>

theorem vmMap_stale_permission:
  fixes env :: "'d vmenv"
  assumes old: "\<not> gx_loaded (entry (pm_pdpt pm) p)" "gx_perm_ovr (entry (pm_pdpt pm) p)" "gx_r (entry (pm_pdpt pm) p)"
      "gx_w (entry (pm_pdpt pm) p)"
    and m: "vmMap ct nt addr len PROT_READ (MAP_SHARED OR MAP_FIXED) (Some \<lparr>mf_ft = Some k, mf_oflags = O_RDONLY\<rparr>) off (pm, env) =
      Some (Ok (r, pm1, env1))"
    and no_error: "map_errno addr len PROT_READ (MAP_SHARED OR MAP_FIXED) (Some \<lparr>mf_ft = Some k, mf_oflags = O_RDONLY\<rparr>) off = 0"
    and p: "unat addr div 4096 \<le> p" "p < unat addr div 4096 + unat (map_pages len)" "0x200 \<le> p"
    and ok: "segs_ok (pm_segs pm)"
    and f: "vmFault in_kernel catching (page_addr p) PF_WRITE (pm1, env1) = Some (Ok (r2, pm2, env2))"
  shows "(\<exists>s. vm_view (pm_segs pm1) p = Some s \<and> seg_ft s = Some k \<and> \<not> has (seg_prot s) PROT_WRITE \<and> \<not> has (seg_access s) O_WRONLY) \<and>
    (r2 = throw catching BusErr \<or>
     r2 = Resolved \<and> pte_present (entry (pm_pdpt pm2) p) \<and> pte_rw (entry (pm_pdpt pm2) p) \<and> gx_shared (entry (pm_pdpt pm2) p))"
proof -
  let ?fl = "MAP_SHARED OR MAP_FIXED :: u32" and ?fp = "Some \<lparr>mf_ft = Some k, mf_oflags = O_RDONLY\<rparr>"
  let ?n = "unat (map_pages len)" and ?page = "unat addr div 4096"
  have fl: "has ?fl MAP_FIXED" "\<not> anon_shared ?fl" "\<not> has ?fl MAP_UN" "has ?fl MAP_SHARED" "\<not> has (10 :: u32) MAP_UN"
    by (simp_all add: has_def anon_shared_def)
  have at: "addr \<noteq> 0 \<or> has ?fl MAP_FIXED" using fl by simp
  from vmMap_at_result [OF m ok at] no_error fl have v: "?page + ?n \<le> addr_pages"
    "vm_view (pm_segs pm1) p = seg_view (mapping ct PROT_READ ?fl ?fp off (file_tree ?fp) ?n) (p - ?page)" "segs_ok (pm_segs pm1)"
    using p by auto
  then obtain s where s: "vm_view (pm_segs pm1) p = Some s" "seg_ft s = Some k" "seg_prot s = adjust_prot PROT_READ"
    "seg_access s = map_access ?fp" "seg_flags s = ?fl"
    by (auto simp: seg_view_def mapping_def fl file_tree_def)
  have p2: "p < addr_pages" using p v by simp
  have "unmaps (pm_pdpt pm) (pm_pdpt pm1)" using vmMap_keeps [OF m ok] by simp
  then have e: "entry (pm_pdpt pm1) p = entry (pm_pdpt pm) p" using old(1) by (auto simp: unmaps_def)
  have small: "p * 4096 < 2 ^ 64" using p2 by simp
  have ad: "unat (page_addr p) div 4096 = p" by (rule page_addr_div [OF p2])
  have un: "unat (page_addr p) = p * 4096" unfolding page_addr_def unsigned_of_nat using small by (simp add: take_bit_nat_eq_self)
  have rg: "0x200000 \<le> page_addr p" "page_addr p < 0x8000000000"
    using p(3) p2 by (simp_all add: word_le_nat_alt word_less_nat_alt un)
  let ?pm = "pm1\<lparr>pm_lock := pm_lock pm1 - 1\<rparr>"
  note b = vmFault_body [OF f rg, unfolded ad]
  have ok': "segs_ok (pm_segs ?pm)" using v(3) by simp
  have sg: "pm_segs ?pm = pm_segs pm1" "pm_pdpt ?pm = pm_pdpt pm1" by simp_all
  have sp: "set_perms (seg_prot s) (entry (pm_pdpt pm1) p) = entry (pm_pdpt pm) p" using old(2) by (simp add: set_perms_def e)
  have al: "allowed (has PF_WRITE PF_WRITE) (has PF_WRITE PF_FETCH) (entry (pm_pdpt pm) p)" using old by (simp add: allowed_def has_def)
  from fault_body_result [OF b(3) ok' b(2), unfolded sg s(1) option.case Let_def sp] al
  have "r2 = throw catching BusErr \<or> r2 = Resolved \<and> resolved (has PF_WRITE PF_WRITE) (has PF_WRITE PF_FETCH) s (entry (pm_pdpt pm) p) (entry (pm_pdpt pm2) p)"
    by simp
  moreover have "has PF_WRITE PF_WRITE" by (simp add: has_def)
  ultimately have "r2 = throw catching BusErr \<or>
     r2 = Resolved \<and> pte_present (entry (pm_pdpt pm2) p) \<and> pte_rw (entry (pm_pdpt pm2) p) \<and> gx_shared (entry (pm_pdpt pm2) p)"
    using old(1) s(5) fl(4) by (auto simp: resolved_def)
  moreover have "\<not> has (seg_prot s) PROT_WRITE" "\<not> has (seg_access s) O_WRONLY"
    unfolding s(3,4) by (simp_all add: adjust_prot_def map_access_def has_def)
  ultimately show ?thesis using s(1,2) by blast
qed

text \<open>An environment with a file whose driver gives its pages itself.\<close>

definition file_env :: "unit vmenv" where
  "file_env = boot_env\<lparr>ve_fts := (\<lambda>_. None)(3 \<mapsto> (ftCreate 0 () (snd (snd demo_newtree)))\<lparr>ft_getpage := Some (\<lambda>_. 9)\<rparr>)\<rparr>"

definition stale_pte :: PTe where
  "stale_pte = zero_pte\<lparr>gx_r := True, gx_w := True, gx_perm_ovr := True\<rparr>"

lemma stale_fields: "\<not> gx_loaded stale_pte" "gx_perm_ovr stale_pte" "gx_r stale_pte" "gx_w stale_pte"
  by (simp_all add: stale_pte_def zero_pte_def)

theorem vmMap_stale_permission_witness:
  "\<exists>pm1 env1 pm2 env2.
     vmMap 1 demo_newtree 0x200000 0x1000 PROT_READ (MAP_SHARED OR MAP_FIXED) (Some \<lparr>mf_ft = Some 3, mf_oflags = O_RDONLY\<rparr>) 0
       (demo_space [demo_seg addr_pages 0] (demo_pdpt (\<lambda>_. stale_pte)), file_env) = Some (Ok (0x200000, pm1, env1)) \<and>
     vmFault False False (page_addr 512) PF_WRITE (pm1, env1) = Some (Ok (Resolved, pm2, env2)) \<and> pte_rw (entry (pm_pdpt pm2) 512)"
proof -
  let ?t = "demo_pdpt (\<lambda>_. stale_pte)" and ?fp = "Some \<lparr>mf_ft = Some 3, mf_oflags = O_RDONLY\<rparr>" and ?fl = "10 :: u32"
  let ?s = "demo_space [demo_seg addr_pages 0] ?t"
  let ?segs = "[demo_seg 512 0, mapping 1 PROT_READ 10 ?fp 0 (Some 3) 1, (seg_rest 1 (seg_rest 512 (demo_seg addr_pages 0)))]"
  let ?pm1 = "demo_space ?segs ?t"
  have fl: "(MAP_SHARED OR MAP_FIXED :: u32) = ?fl" by simp
  have e: "map_check 0x200000 0x1000 PROT_READ ?fl ?fp 0 = 0" "unat (map_pages 0x1000) = 1"
    by (simp_all add: map_check_def map_pages_def has_def adjust_prot_def map_access_def drop_bit_eq_div)
  obtain env1 where m: "vmMap 1 demo_newtree 0x200000 0x1000 PROT_READ ?fl ?fp 0 (?s, file_env) = Some (Ok (0x200000, ?pm1, env1))"
    and env1: "env1 = file_env\<lparr>ve_fts := (ve_fts file_env)(3 \<mapsto> ftUp (the (ve_fts file_env 3)))\<rparr>"
    by (simp add: vmMap_def e Let_def has_def vm_locked_def map_at_def demo_space_def demo_seg_def map_request_def file_env_def
        tree_down_def tree_up_def seg_fill_def seg_details_def page_addr_def seg_rest_def vm_signal_def mapping_def)
  have n: "map_errno 0x200000 0x1000 PROT_READ ?fl ?fp 0 = 0" by (simp add: map_errno_def e has_def)
  have en: "entry ?t 512 = stale_pte" by (simp add: demo_pdpt_def pte_at_def entry_def)
  have sp: "set_perms x stale_pte = stale_pte" for x by (simp add: set_perms_def stale_fields)
  obtain t where t: "getPage 512 ?t (fs_pi (ve_fr env1)) = Ok (stale_pte, t, fs_pi (ve_fr env1))"
    by (simp add: getPage_def demo_pdpt_def)
  have pa: "page_addr 512 = 0x200000" by (simp add: page_addr_def)
  define M where "M = mapping 1 PROT_READ 10 ?fp 0 (Some 3) 1"
  have lf: "seg_flags M = 10" "seg_ft M = Some 3" "seg_pages M = 1" by (simp_all add: M_def mapping_def has_def)
  have nc: "\<not> gx_cow (loaded_pte 10 9 stale_pte)" by (simp add: loaded_pte_fields has_def)
  obtain F where F: "ve_fts env1 3 = Some F" "ft_getpage F = Some (\<lambda>_. 9)"
    by (simp add: env1 file_env_def ftUp_def)
  obtain pm2 env2 where f: "vmFault False False 0x200000 PF_WRITE (?pm1, env1) = Some (Ok (Resolved, pm2, env2))"
    unfolding M_def [symmetric]
    by (simp add: vmFault_def vm_locked_def demo_space_def fault_body_def demo_seg_def lf fault_pte_def t sp Let_def allowed_def has_def
        stale_fields fault_load_def fault_frame_def F ftGetPage_def getPageUnlocked_def break_cow_def nc)
  have "segs_ok (pm_segs ?s)" by (simp add: demo_space_def segs_ok_def demo_seg_def)
  from vmMap_stale_permission [OF _ _ _ _ m [folded fl] n [folded fl] _ _ _ this, of 512 False False Resolved pm2 env2] f
  have "pte_rw (entry (pm_pdpt pm2) 512)" by (simp add: demo_space_def en stale_fields e pa throw_def)
  with m f show ?thesis unfolding fl pa by blast
qed

end
