(* ===== verification/Gx_VmShare.thy ===== *)
theory Gx_VmShare
  imports Gx_VmProps
begin

text \<open>
  Frames that address spaces share (\<open>kernel/src/thread/procmem.c\<close>): \<open>fork\<close> makes a copy of an address space
  that refers to the same frames, every reference of which is counted, and a write fault gives the writer a frame of
  its own. The counts are those of \<open>Gx_PageInfo\<close>.
\<close>

section \<open>Allocating tables and frames\<close>

text \<open>The references of \<open>\<sigma>'\<close> are those of \<open>\<sigma>\<close> and one for each element of \<open>fs\<close>.\<close>

definition refs_up :: "nat list \<Rightarrow> pi_sys \<Rightarrow> pageinfo \<Rightarrow> pi_sys \<Rightarrow> bool" where
  "refs_up fs \<sigma> pi \<sigma>' \<longleftrightarrow> ps_pi \<sigma>' = pi \<and> pi_ok \<sigma>' \<and> ps_cache \<sigma>' = ps_cache \<sigma> \<and>
     ps_refs \<sigma>' = (\<lambda>f. ps_refs \<sigma> f + count_list fs f)"

text \<open>The condition under which they can be counted.\<close>

definition countable_refs :: "nat list \<Rightarrow> pi_sys \<Rightarrow> bool" where
  "countable_refs fs \<sigma> \<longleftrightarrow> pi_ok \<sigma> \<and> set fs \<subseteq> pi_live \<sigma> \<and> (\<forall>f. ps_refs \<sigma> f + count_list fs f < 2 ^ 32)"

lemma refs_up_trans: "refs_up fs \<sigma> pi \<sigma>' \<Longrightarrow> refs_up gs \<sigma>' pi' \<sigma>'' \<Longrightarrow> refs_up (fs @ gs) \<sigma> pi' \<sigma>''"
  by (auto simp: refs_up_def fun_eq_iff)

lemma countable_rest:
  "countable_refs (fs @ gs) \<sigma> \<Longrightarrow> refs_up fs \<sigma> pi \<sigma>' \<Longrightarrow> countable_refs gs \<sigma>'"
  by (auto simp: countable_refs_def refs_up_def pi_live_def add.assoc)

lemma countable_first: "countable_refs (fs @ gs) \<sigma> \<Longrightarrow> countable_refs fs \<sigma>"
  by (auto simp: countable_refs_def) (metis add_lessD1 add.assoc)

lemma alloc_table_refs:
  assumes "alloc_table (ps_pi \<sigma>) = Ok (f, pi)" and "pi_ok \<sigma>"
  shows "\<exists>\<sigma>'. refs_up [] \<sigma> pi \<sigma>'"
proof -
  note phm = pi_okD(2) [OF assms(2)]
  have eq: "phmAllocFrame (pi_phm (ps_pi \<sigma>)) = phmAllocSingle (pi_phm (ps_pi \<sigma>))"
    using phm by (auto simp: phmAllocFrame_def phm_ok_def)
  from assms(1) obtain phm' where a: "phmAllocSingle (pi_phm (ps_pi \<sigma>)) = Ok (f, phm')" and p: "pi = (ps_pi \<sigma>)\<lparr>pi_phm := phm'\<rparr>"
    by (auto simp: alloc_table_def kbind_Ok_iff eq)
  from fp.alloc_law [OF phm a] have "phm_ok phm'" "owned phm' = insert f (owned (pi_phm (ps_pi \<sigma>)))" by blast+
  moreover have "pi_live \<sigma> \<subseteq> owned (pi_phm (ps_pi \<sigma>))" using assms(2) by (auto simp: pi_ok_def)
  ultimately have "pi_step \<sigma> (\<sigma>\<lparr>ps_pi := (ps_pi \<sigma>)\<lparr>pi_phm := phm'\<rparr>\<rparr>)" by (intro pi_step.frames) auto
  from pi_step_ok [OF this assms(2)] show ?thesis
    by (intro exI [of _ "\<sigma>\<lparr>ps_pi := (ps_pi \<sigma>)\<lparr>pi_phm := phm'\<rparr>\<rparr>"]) (simp add: refs_up_def p)
qed

section \<open>The frames that page tables refer to\<close>

definition pt_frames :: "PT \<Rightarrow> nat list" where
  "pt_frames pt = map (\<lambda>i. pte_frame (pt i)) (filter (\<lambda>i. gx_loaded (pt i)) [0..<512])"

definition pd_frames :: "PD \<Rightarrow> nat list" where
  "pd_frames pd = concat (map (\<lambda>i. case pd i of None \<Rightarrow> [] | Some (_, pt) \<Rightarrow> pt_frames pt) [0..<512])"

definition pdpt_frames :: "PDPT \<Rightarrow> nat list" where
  "pdpt_frames t = concat (map (\<lambda>i. case t i of None \<Rightarrow> [] | Some (_, pd) \<Rightarrow> pd_frames pd) [0..<512])"

lemma clone_ptes_refs:
  assumes "for_each clone_pte is (pt, ps_pi \<sigma>) = Ok (pt', pi')" and "distinct is"
    and "countable_refs (map (\<lambda>i. pte_frame (pt i)) (filter (\<lambda>i. gx_loaded (pt i)) is)) \<sigma>"
  shows "\<exists>\<sigma>'. refs_up (map (\<lambda>i. pte_frame (pt i)) (filter (\<lambda>i. gx_loaded (pt i)) is)) \<sigma> pi' \<sigma>'"
  using assms
proof (induction "is" arbitrary: pt \<sigma>)
  case Nil
  then show ?case by (intro exI [of _ \<sigma>]) (auto simp: refs_up_def countable_refs_def)
next
  case (Cons i "is")
  let ?fs = "\<lambda>pt. map (\<lambda>i. pte_frame (pt i)) (filter (\<lambda>i. gx_loaded (pt i)) is)"
  obtain pt1 pi1 where c: "clone_pte i (pt, ps_pi \<sigma>) = Ok (pt1, pi1)" and r: "for_each clone_pte is (pt1, pi1) = Ok (pt', pi')"
    using Cons.prems(1) by (auto simp: kbind_Ok_iff)
  have d: "distinct is" "i \<notin> set is" using Cons.prems(2) by auto
  have "\<forall>j. j \<noteq> i \<longrightarrow> pt1 j = pt j" using c by (auto simp: clone_pte_def kbind_Ok_iff Let_def split: if_splits)
  then have fs: "?fs pt1 = ?fs pt" using d(2) by (auto intro!: map_cong filter_cong)
  show ?case
  proof (cases "gx_loaded (pt i)")
    case False
    then have "pi1 = ps_pi \<sigma>" using c by (simp add: clone_pte_def Let_def)
    with Cons.IH [of pt1 \<sigma>] r d(1) Cons.prems(3) False fs show ?thesis by simp
  next
    case True
    let ?f = "pte_frame (pt i)"
    have inc: "piIncref ?f (ps_pi \<sigma>) = Ok pi1" using c True by (auto simp: clone_pte_def kbind_Ok_iff Let_def)
    have cr: "countable_refs ([?f] @ ?fs pt) \<sigma>" using Cons.prems(3) True by simp
    have one: "countable_refs [?f] \<sigma>" by (rule countable_first [OF cr])
    have lt: "ps_refs \<sigma> ?f + count_list [?f] ?f < 2 ^ 32" using one unfolding countable_refs_def by blast
    have ok: "pi_ok \<sigma>" "?f \<in> pi_live \<sigma>" "ps_refs \<sigma> ?f + 1 < 2 ^ 32" using one lt by (auto simp: countable_refs_def)
    let ?\<sigma> = "\<sigma>\<lparr>ps_pi := pi1, ps_refs := (ps_refs \<sigma>)(?f := ps_refs \<sigma> ?f + 1)\<rparr>"
    have up: "refs_up [?f] \<sigma> pi1 ?\<sigma>" using pi_incref_ok [OF ok inc] by (auto simp: refs_up_def fun_eq_iff)
    have "countable_refs (?fs pt1) ?\<sigma>" unfolding fs by (rule countable_rest [OF cr up])
    with Cons.IH [of pt1 ?\<sigma>] r d(1) obtain \<sigma>' where "refs_up (?fs pt1) ?\<sigma> pi' \<sigma>'" by auto
    from refs_up_trans [OF up this] True fs show ?thesis by auto
  qed
qed

lemma clonePT_refs:
  assumes "clonePT pt (ps_pi \<sigma>) = Ok (frame, pt', pi')" and "countable_refs (pt_frames pt) \<sigma>"
  shows "\<exists>\<sigma>'. refs_up (pt_frames pt) \<sigma> pi' \<sigma>'"
proof -
  from assms(1) obtain pi1 where a: "alloc_table (ps_pi \<sigma>) = Ok (frame, pi1)" and c: "for_each clone_pte [0..<512] (pt, pi1) = Ok (pt', pi')"
    by (auto simp: clonePT_def kbind_Ok_iff)
  have "pi_ok \<sigma>" using assms(2) by (simp add: countable_refs_def)
  from alloc_table_refs [OF a this] obtain \<sigma>1 where 1: "refs_up [] \<sigma> pi1 \<sigma>1" by blast
  have "countable_refs (pt_frames pt) \<sigma>1" using countable_rest [of "[]" "pt_frames pt", OF _ 1] assms(2) by simp
  moreover have "ps_pi \<sigma>1 = pi1" using 1 by (simp add: refs_up_def)
  ultimately obtain \<sigma>2 where "refs_up (pt_frames pt) \<sigma>1 pi' \<sigma>2"
    using clone_ptes_refs [of "[0..<512]" pt \<sigma>1 pt' pi'] c unfolding pt_frames_def by auto
  from refs_up_trans [OF 1 this] show ?thesis by auto
qed

lemma clone_pdes_refs:
  defines "F \<equiv> \<lambda>(pd :: PD) is. concat (map (\<lambda>i. case pd i of None \<Rightarrow> [] | Some (_, pt) \<Rightarrow> pt_frames pt) is)"
  assumes "for_each clone_pde is (pd, copy, ps_pi \<sigma>) = Ok (pd', copy', pi')" and "distinct is" and "countable_refs (F pd is) \<sigma>"
  shows "\<exists>\<sigma>'. refs_up (F pd is) \<sigma> pi' \<sigma>'"
  using assms(2-)
proof (induction "is" arbitrary: pd copy \<sigma>)
  case Nil
  then show ?case by (intro exI [of _ \<sigma>]) (auto simp: refs_up_def countable_refs_def F_def)
next
  case (Cons i "is")
  obtain pd1 copy1 pi1 where c: "clone_pde i (pd, copy, ps_pi \<sigma>) = Ok (pd1, copy1, pi1)"
    and r: "for_each clone_pde is (pd1, copy1, pi1) = Ok (pd', copy', pi')"
    using Cons.prems(1) by (auto simp: kbind_Ok_iff)
  have d: "distinct is" "i \<notin> set is" using Cons.prems(2) by auto
  have "\<forall>j. j \<noteq> i \<longrightarrow> pd1 j = pd j" using c by (auto simp: clone_pde_def kbind_Ok_iff split: option.splits)
  then have fs: "F pd1 is = F pd is" using d(2) unfolding F_def by (intro arg_cong [where f = concat] map_cong) auto
  let ?i = "case pd i of None \<Rightarrow> [] | Some (_, pt) \<Rightarrow> pt_frames pt"
  have cr: "countable_refs (?i @ F pd is) \<sigma>" using Cons.prems(3) by (simp add: F_def)
  have "\<exists>\<sigma>1. refs_up ?i \<sigma> pi1 \<sigma>1"
  proof (cases "pd i")
    case None
    then have "pi1 = ps_pi \<sigma>" using c by (simp add: clone_pde_def)
    with None countable_first [OF cr] show ?thesis by (intro exI [of _ \<sigma>]) (simp add: refs_up_def countable_refs_def)
  next
    case (Some x)
    then obtain g pt where x: "pd i = Some (g, pt)" by (cases x) simp
    with c obtain f pt' where "clonePT pt (ps_pi \<sigma>) = Ok (f, pt', pi1)" by (auto simp: clone_pde_def kbind_Ok_iff)
    from clonePT_refs [OF this] countable_first [OF cr] show ?thesis by (simp add: x)
  qed
  then obtain \<sigma>1 where 1: "refs_up ?i \<sigma> pi1 \<sigma>1" by blast
  have p1: "ps_pi \<sigma>1 = pi1" using 1 by (simp add: refs_up_def)
  have "countable_refs (F pd1 is) \<sigma>1" unfolding fs by (rule countable_rest [OF cr 1])
  from Cons.IH [OF r [folded p1] d(1) this] obtain \<sigma>' where "refs_up (F pd is) \<sigma>1 pi' \<sigma>'" unfolding fs by blast
  from refs_up_trans [OF 1 this] show ?case by (auto simp: F_def)
qed

lemma clonePD_refs:
  assumes "clonePD pd (ps_pi \<sigma>) = Ok (frame, pd', copy, pi')" and "countable_refs (pd_frames pd) \<sigma>"
  shows "\<exists>\<sigma>'. refs_up (pd_frames pd) \<sigma> pi' \<sigma>'"
proof -
  from assms(1) obtain pi1 where a: "alloc_table (ps_pi \<sigma>) = Ok (frame, pi1)"
    and c: "for_each clone_pde [0..<512] (pd, \<lambda>_. None, pi1) = Ok (pd', copy, pi')"
    by (auto simp: clonePD_def kbind_Ok_iff)
  have "pi_ok \<sigma>" using assms(2) by (simp add: countable_refs_def)
  from alloc_table_refs [OF a this] obtain \<sigma>1 where 1: "refs_up [] \<sigma> pi1 \<sigma>1" by blast
  then have p1: "ps_pi \<sigma>1 = pi1" by (simp add: refs_up_def)
  have "countable_refs (pd_frames pd) \<sigma>1" using countable_rest [of "[]" "pd_frames pd", OF _ 1] assms(2) by simp
  from clone_pdes_refs [OF c [folded p1] distinct_upt this [unfolded pd_frames_def]]
  obtain \<sigma>2 where "refs_up (pd_frames pd) \<sigma>1 pi' \<sigma>2" unfolding pd_frames_def by blast
  from refs_up_trans [OF 1 this] show ?thesis by auto
qed

lemma clone_pdptes_refs:
  defines "F \<equiv> \<lambda>(t :: PDPT) is. concat (map (\<lambda>i. case t i of None \<Rightarrow> [] | Some (_, pd) \<Rightarrow> pd_frames pd) is)"
  assumes "for_each clone_pdpte is (t, copy, ps_pi \<sigma>) = Ok (t', copy', pi')" and "distinct is" and "countable_refs (F t is) \<sigma>"
  shows "\<exists>\<sigma>'. refs_up (F t is) \<sigma> pi' \<sigma>'"
  using assms(2-)
proof (induction "is" arbitrary: t copy \<sigma>)
  case Nil
  then show ?case by (intro exI [of _ \<sigma>]) (auto simp: refs_up_def countable_refs_def F_def)
next
  case (Cons i "is")
  obtain t1 copy1 pi1 where c: "clone_pdpte i (t, copy, ps_pi \<sigma>) = Ok (t1, copy1, pi1)"
    and r: "for_each clone_pdpte is (t1, copy1, pi1) = Ok (t', copy', pi')"
    using Cons.prems(1) by (auto simp: kbind_Ok_iff)
  have d: "distinct is" "i \<notin> set is" using Cons.prems(2) by auto
  have "\<forall>j. j \<noteq> i \<longrightarrow> t1 j = t j" using c by (auto simp: clone_pdpte_def kbind_Ok_iff split: option.splits)
  then have fs: "F t1 is = F t is" using d(2) unfolding F_def by (intro arg_cong [where f = concat] map_cong) auto
  let ?i = "case t i of None \<Rightarrow> [] | Some (_, pd) \<Rightarrow> pd_frames pd"
  have cr: "countable_refs (?i @ F t is) \<sigma>" using Cons.prems(3) by (simp add: F_def)
  have "\<exists>\<sigma>1. refs_up ?i \<sigma> pi1 \<sigma>1"
  proof (cases "t i")
    case None
    then have "pi1 = ps_pi \<sigma>" using c by (simp add: clone_pdpte_def)
    with None countable_first [OF cr] show ?thesis by (intro exI [of _ \<sigma>]) (simp add: refs_up_def countable_refs_def)
  next
    case (Some x)
    then obtain g pd where x: "t i = Some (g, pd)" by (cases x) simp
    with c obtain f pd' pd'' where "clonePD pd (ps_pi \<sigma>) = Ok (f, pd', pd'', pi1)" by (auto simp: clone_pdpte_def kbind_Ok_iff)
    from clonePD_refs [OF this] countable_first [OF cr] show ?thesis by (simp add: x)
  qed
  then obtain \<sigma>1 where 1: "refs_up ?i \<sigma> pi1 \<sigma>1" by blast
  have p1: "ps_pi \<sigma>1 = pi1" using 1 by (simp add: refs_up_def)
  have "countable_refs (F t1 is) \<sigma>1" unfolding fs by (rule countable_rest [OF cr 1])
  from Cons.IH [OF r [folded p1] d(1) this] obtain \<sigma>' where "refs_up (F t is) \<sigma>1 pi' \<sigma>'" unfolding fs by blast
  from refs_up_trans [OF 1 this] show ?case by (auto simp: F_def)
qed

lemma clonePDPT_refs:
  assumes "clonePDPT t (ps_pi \<sigma>) = Ok (phys, t', copy, pi')" and "countable_refs (pdpt_frames t) \<sigma>"
  shows "\<exists>\<sigma>'. refs_up (pdpt_frames t) \<sigma> pi' \<sigma>'"
proof -
  from assms(1) obtain pi1 where a: "alloc_table (ps_pi \<sigma>) = Ok (phys, pi1)"
    and c: "for_each clone_pdpte [0..<512] (t, \<lambda>_. None, pi1) = Ok (t', copy, pi')"
    by (auto simp: clonePDPT_def kbind_Ok_iff)
  have "pi_ok \<sigma>" using assms(2) by (simp add: countable_refs_def)
  from alloc_table_refs [OF a this] obtain \<sigma>1 where 1: "refs_up [] \<sigma> pi1 \<sigma>1" by blast
  then have p1: "ps_pi \<sigma>1 = pi1" by (simp add: refs_up_def)
  have "countable_refs (pdpt_frames t) \<sigma>1" using countable_rest [of "[]" "pdpt_frames t", OF _ 1] assms(2) by simp
  from clone_pdptes_refs [OF c [folded p1] distinct_upt this [unfolded pdpt_frames_def]]
  obtain \<sigma>2 where "refs_up (pdpt_frames t) \<sigma>1 pi' \<sigma>2" unfolding pdpt_frames_def by blast
  from refs_up_trans [OF 1 this] show ?thesis by auto
qed

section \<open>Cloning an address space\<close>

lemma clone_segs_env: "clone_segs segs env = Ok (segs', env') \<Longrightarrow> ve_fr env' = ve_fr env"
  by (induction segs arbitrary: env segs') (fastforce simp: kbind_Ok_iff tree_up_def split: option.splits)+

lemma view_map_clone: "vm_view (map clone_seg segs) p = (case vm_view segs p of None \<Rightarrow> None
    | Some s \<Rightarrow> if seg_flags (clone_seg s) = 0 then None else Some (clone_seg s))"
  by (induction segs arbitrary: p) (auto simp: seg_view_def clone_seg_def has_def)

lemma vm_view_flags: "vm_view segs p = Some s \<Longrightarrow> seg_flags s \<noteq> 0"
  by (induction segs arbitrary: p) (auto simp: seg_view_def split: if_splits)

lemma and_not_clear: "\<not> has x m \<Longrightarrow> x AND NOT m = x" for x :: u32
proof -
  assume "\<not> has x m"
  then have "x AND m = 0" by (simp add: has_def)
  moreover have "x = (x AND m) OR (x AND NOT m)" by (simp flip: bit.conj_disj_distrib)
  ultimately show "x AND NOT m = x" by simp
qed

text \<open>
  C23: \<open>vmClone\<close> makes an address space with the same mappings, which the threads of the child no longer lose when a
  thread of the parent ends, and the same loaded pages in the same frames. In parent and child alike each of them is
  to be copied before the next write unless it is shared. Every reference of the new page tables is counted, and no
  other count changes.
\<close>

theorem vmClone_shares:
  fixes env :: "'d vmenv"
  assumes c: "vmClone mem (Some pm) env = Some (Ok (new, Some pm', env'))" and "ps_pi \<sigma> = fs_pi (ve_fr env)"
    and "pi_ok \<sigma>" and "set (pdpt_frames (pm_pdpt pm)) \<subseteq> pi_live \<sigma>"
    and "\<forall>f. ps_refs \<sigma> f + count_list (pdpt_frames (pm_pdpt pm)) f < 2 ^ 32" and "p < addr_pages"
  shows "vm_view (pm_segs pm') p = vm_view (pm_segs pm) p \<and>
    vm_view (pm_segs new) p = (case vm_view (pm_segs pm) p of None \<Rightarrow> None
      | Some s \<Rightarrow> if seg_flags s AND NOT MAP_THREAD = 0 then None
                  else Some (if has (seg_flags s) MAP_THREAD then s\<lparr>seg_creator := None, seg_flags := seg_flags s AND NOT MAP_THREAD\<rparr> else s)) \<and>
    entry (pm_pdpt new) p = entry (pm_pdpt pm') p \<and>
    entry (pm_pdpt pm') p = (if gx_loaded (entry (pm_pdpt pm) p) \<and> \<not> gx_shared (entry (pm_pdpt pm) p)
      then (entry (pm_pdpt pm) p)\<lparr>pte_rw := False, gx_cow := True\<rparr> else entry (pm_pdpt pm) p) \<and>
    (\<exists>\<sigma>'. ps_pi \<sigma>' = fs_pi (ve_fr env') \<and> pi_ok \<sigma>' \<and> ps_cache \<sigma>' = ps_cache \<sigma> \<and>
       ps_refs \<sigma>' = (\<lambda>f. ps_refs \<sigma> f + count_list (pdpt_frames (pm_pdpt pm)) f))"
proof -
  from c obtain segs env1 phys t copy pi where s: "clone_segs (pm_segs pm) env = Ok (segs, env1)"
    and t: "clonePDPT (pm_pdpt pm) (fs_pi (ve_fr env1)) = Ok (phys, t, copy, pi)" and e: "env' = set_pi pi env1"
    by (auto simp: vmClone_def vm_locked_Ok kbind_Ok_iff)
  have "fs_pi (ve_fr env1) = ps_pi \<sigma>" using clone_segs_env [OF s] assms(2) by simp
  moreover have "countable_refs (pdpt_frames (pm_pdpt pm)) \<sigma>" using assms(3-5) by (simp add: countable_refs_def)
  ultimately obtain \<sigma>' where "refs_up (pdpt_frames (pm_pdpt pm)) \<sigma> pi \<sigma>'" using clonePDPT_refs t by metis
  then have r: "\<exists>\<sigma>'. ps_pi \<sigma>' = fs_pi (ve_fr env') \<and> pi_ok \<sigma>' \<and> ps_cache \<sigma>' = ps_cache \<sigma> \<and>
       ps_refs \<sigma>' = (\<lambda>f. ps_refs \<sigma> f + count_list (pdpt_frames (pm_pdpt pm)) f)"
    by (auto simp: refs_up_def e set_pi_def)
  from vmClone_result [OF c] have g: "pm_segs new = map clone_seg (pm_segs pm)" "pm_segs pm' = pm_segs pm" by auto
  have "vm_view (pm_segs new) p = (case vm_view (pm_segs pm) p of None \<Rightarrow> None
      | Some s \<Rightarrow> if seg_flags s AND NOT MAP_THREAD = 0 then None
                  else Some (if has (seg_flags s) MAP_THREAD then s\<lparr>seg_creator := None, seg_flags := seg_flags s AND NOT MAP_THREAD\<rparr> else s))"
    unfolding g(1) view_map_clone
    using and_not_clear [of "seg_flags (the (vm_view (pm_segs pm) p))" MAP_THREAD] vm_view_flags [of "pm_segs pm" p]
    by (auto simp: clone_seg_def split: option.splits)
  with r g vmClone_entries [OF c, of p] assms(6) show ?thesis by (simp add: cow_pte_def)
qed

text \<open>An address space with one loaded page, in frame 64, which has one reference.\<close>

definition one_frame :: pageinfo where
  "one_frame = piInit \<lparr>pi_root = \<lambda>_. None, pi_cachedFrames = 0, pi_phm = phm_demo [] [] (replicate 8 0xFF @ replicate 9 0)\<rparr>"

definition one_page_pdpt :: PDPT where
  "one_page_pdpt = (\<lambda>_. None)(0 \<mapsto> (1, (\<lambda>_. None)(1 \<mapsto> (2, (\<lambda>_. zero_pte)(0 := rw_pte\<lparr>pte_rw := True, pte_frame := 64\<rparr>)))))"

lemma clone_skip:
  "\<forall>j \<in> set is. \<not> gx_loaded (pt j) \<Longrightarrow> for_each clone_pte is (pt, pi) = Ok (pt, pi)"
  "\<forall>j \<in> set is. pd j = None \<Longrightarrow> for_each clone_pde is (pd, pd', pi) = Ok (pd, pd', pi)"
  "\<forall>j \<in> set is. t j = None \<Longrightarrow> for_each clone_pdpte is (t, t', pi) = Ok (t, t', pi)"
  by (induction "is") (simp_all add: clone_pte_def clone_pde_def clone_pdpte_def)

lemma upt_512: "[0..<512] = 0 # [1..<512]" "[0..<512] = 0 # 1 # [2..<512]"
  by (simp_all add: upt_rec)

text \<open>The tables that are allocated for the copy.\<close>

definition three_tables :: "physmem \<Rightarrow> physmem kres" where
  "three_tables phm = kbind (phmAllocFrame phm) (\<lambda>(f, phm). kbind (phmAllocFrame phm) (\<lambda>(f, phm). kbind (phmAllocFrame phm) (\<lambda>(f, phm).
     kbind (phmAllocFrame phm) (\<lambda>(f, phm). Ok phm))))"

lemma three_tables: "case three_tables (phm_demo [] [] (replicate 8 0xFF @ replicate 9 0)) of Panic \<Rightarrow> False | Ok _ \<Rightarrow> True"
  by code_simp

theorem vmClone_shares_witness:
  "\<exists>pi new pm' env'. piNew 0 one_frame = Ok (64, pi) \<and>
     vmClone (demo_seg 0 0) (Some (demo_space [demo_seg addr_pages 1] one_page_pdpt)) (set_pi pi boot_env) = Some (Ok (new, Some pm', env')) \<and>
     pte_frame (entry (pm_pdpt new) 512) = 64 \<and> \<not> pte_rw (entry (pm_pdpt new) 512) \<and> \<not> pte_rw (entry (pm_pdpt pm') 512)"
proof -
  let ?pm = "demo_space [demo_seg addr_pages 1] one_page_pdpt" and ?pte = "rw_pte\<lparr>pte_rw := True, pte_frame := 64\<rparr>"
  obtain pi where n: "piNew 0 one_frame = Ok (64, pi)" and r: "pi_reach \<lparr>ps_pi = pi, ps_refs = (\<lambda>_. 0)(64 := 1), ps_cache = {}\<rparr>" (is "pi_reach ?\<sigma>")
    unfolding one_frame_def by (rule pi_demo_run)
  have ok: "pi_ok ?\<sigma>" by (rule pi_reach_ok [OF r])
  from n obtain phm where p: "phmAllocFrame (phm_demo [] [] (replicate 8 0xFF @ replicate 9 0)) = Ok (64, phm)" "pi_phm pi = phm"
    by (auto simp: piNew_def one_frame_def piInit_def kbind_Ok_iff split: if_splits)
  from three_tables p obtain f1 phm1 f2 phm2 f3 phm3 where
    "phmAllocFrame phm = Ok (f1, phm1)" "phmAllocFrame phm1 = Ok (f2, phm2)" "phmAllocFrame phm2 = Ok (f3, phm3)"
    by (auto simp: three_tables_def kbind_Ok_iff split: kres.splits)
  then have a: "alloc_table pi = Ok (f1, pi\<lparr>pi_phm := phm1\<rparr>)" "alloc_table (pi\<lparr>pi_phm := phm1\<rparr>) = Ok (f2, pi\<lparr>pi_phm := phm2\<rparr>)"
    "alloc_table (pi\<lparr>pi_phm := phm2\<rparr>) = Ok (f3, pi\<lparr>pi_phm := phm3\<rparr>)"
    by (simp_all add: alloc_table_def p)
  have "64 \<in> pi_live ?\<sigma>" by (simp add: pi_live_def)
  with ok obtain v where "pi_get 64 (pi_root pi) = Some v" by (auto elim: pi_ok_entry)
  then obtain pi4 where i: "piIncref 64 (pi\<lparr>pi_phm := phm3\<rparr>) = Ok pi4" by (cases "(v + 1) AND 0xFFFFFFFF = 1") (simp_all add: piIncref_def pi_rmw_def)
  have ld: "gx_loaded ?pte" "\<not> gx_shared ?pte" "pte_frame ?pte = 64" by (simp_all add: rw_pte_def zero_pte_def)
  have pt: "clonePT ((\<lambda>_. zero_pte)(0 := ?pte)) (pi\<lparr>pi_phm := phm2\<rparr>) =
      Ok (f3, (\<lambda>_. zero_pte)(0 := ?pte\<lparr>pte_rw := False, gx_cow := True\<rparr>), pi4)" (is "_ = Ok (f3, ?pt, pi4)")
    unfolding clonePT_def a(3) upt_512(1) for_each.simps
    by (simp add: clone_pte_def ld i clone_skip(1) zero_pte_def)
  have pd: "clonePD ((\<lambda>_. None)(1 \<mapsto> (2, (\<lambda>_. zero_pte)(0 := ?pte)))) (pi\<lparr>pi_phm := phm1\<rparr>) =
      Ok (f2, (\<lambda>_. None)(1 \<mapsto> (2, ?pt)), (\<lambda>_. None)(1 \<mapsto> (f3, ?pt)), pi4)"
    unfolding clonePD_def a(2) upt_512(2) for_each.simps
    by (simp add: clone_pde_def pt clone_skip(2) del: One_nat_def)
  have c: "clonePDPT one_page_pdpt pi = Ok (f1, (\<lambda>_. None)(0 \<mapsto> (1, (\<lambda>_. None)(1 \<mapsto> (2, ?pt)))), (\<lambda>_. None)(0 \<mapsto> (f2, (\<lambda>_. None)(1 \<mapsto> (f3, ?pt)))), pi4)"
    unfolding clonePDPT_def a(1) upt_512(1) for_each.simps one_page_pdpt_def
    by (simp add: clone_pdpte_def pd clone_skip(3) del: One_nat_def)
  obtain new pm' env' where m: "vmClone (demo_seg 0 0) (Some ?pm) (set_pi pi boot_env) = Some (Ok (new, Some pm', env'))"
    by (simp add: vmClone_def vm_locked_def demo_space_def demo_seg_def tree_up_def set_pi_def c)
  have "filter (\<lambda>i. gx_loaded (((\<lambda>_. zero_pte)(0 := ?pte)) i)) [1..<512] = []" by (auto simp: filter_empty_conv zero_pte_def)
  then have "pt_frames ((\<lambda>_. zero_pte)(0 := ?pte)) = [64]" unfolding pt_frames_def upt_512(1) by (simp add: ld)
  then have "pd_frames ((\<lambda>_. None)(1 \<mapsto> (2, (\<lambda>_. zero_pte)(0 := ?pte)))) = [64]"
    unfolding pd_frames_def upt_512(2) by (auto simp del: One_nat_def)
  then have fr: "pdpt_frames one_page_pdpt = [64]"
    unfolding pdpt_frames_def upt_512(1) one_page_pdpt_def by (auto simp del: One_nat_def)
  have en: "entry one_page_pdpt 512 = ?pte" by (simp add: entry_def one_page_pdpt_def pte_at_def)
  from vmClone_shares [OF m, of ?\<sigma> 512] ok m n show ?thesis
    by (simp add: demo_space_def fr en ld set_pi_def pi_live_def)
qed

section \<open>Breaking copy-on-write\<close>

text \<open>The writer alone holds the frame \<open>f'\<close> that it has in place of \<open>f\<close>, with the same contents.\<close>

definition own_copy :: "nat \<Rightarrow> nat \<Rightarrow> pi_sys \<Rightarrow> frames \<Rightarrow> frames \<Rightarrow> bool" where
  "own_copy f f' \<sigma> fr fr' \<longleftrightarrow> fs_mem fr' f' = fs_mem fr f \<and> (\<forall>g. g \<noteq> f' \<longrightarrow> fs_mem fr' g = fs_mem fr g) \<and>
     (\<exists>\<sigma>'. ps_pi \<sigma>' = fs_pi fr' \<and> pi_ok \<sigma>' \<and> ps_cache \<sigma>' = ps_cache \<sigma> \<and> f' \<notin> ps_cache \<sigma> \<and>
       (if ps_refs \<sigma> f = 1 \<and> f \<notin> ps_cache \<sigma> then f' = f \<and> ps_refs \<sigma>' = ps_refs \<sigma>
        else f' \<notin> pi_live \<sigma> \<and> ps_refs \<sigma>' = (ps_refs \<sigma>)(f' := 1, f := ps_refs \<sigma> f - 1)))"

lemma needs_copy:
  assumes "pi_ok \<sigma>" and "0 < ps_refs \<sigma> f" and "piNeedsCopyOnWrite f (ps_pi \<sigma>) = Ok b"
  shows "b \<longleftrightarrow> \<not> (ps_refs \<sigma> f = 1 \<and> f \<notin> ps_cache \<sigma>)"
proof -
  have "f \<in> pi_live \<sigma>" using assms(2) by (simp add: pi_live_def)
  with assms(1) obtain v where v: "pi_get f (pi_root (ps_pi \<sigma>)) = Some v" "entry_ok v (ps_refs \<sigma> f) (f \<in> ps_cache \<sigma>)" by (rule pi_ok_entry)
  have "v AND 0xFFFFFFFF = 1 \<longleftrightarrow> ps_refs \<sigma> f = 1" using entry_count [OF v(2), of 1] entry_read(1) [OF v(2)] by auto
  moreover have "v AND PI_CACHE = 0 \<longleftrightarrow> f \<notin> ps_cache \<sigma>" using entry_read(2) [OF v(2)] by blast
  ultimately show ?thesis using assms(3) v(1) by (auto simp: piNeedsCopyOnWrite_def piGetInfo_def split: if_splits)
qed

lemma piNew_small:
  assumes "sys_ok \<sigma>" and "piNew fl (ps_pi \<sigma>) = Ok (f, pi)"
  shows "f < 2 ^ 36"
proof (cases "f = 0")
  case False
  have ok: "phm_ok (pi_phm (ps_pi \<sigma>))" "small_phm (pi_phm (ps_pi \<sigma>))" using assms(1) by (auto simp: sys_ok_def pi_okD(2))
  from ok(1) have eq: "phmAllocFrame (pi_phm (ps_pi \<sigma>)) = phmAllocSingle (pi_phm (ps_pi \<sigma>))"
    by (auto simp: phmAllocFrame_def phm_ok_def)
  from assms(2) obtain phm where a: "phmAllocSingle (pi_phm (ps_pi \<sigma>)) = Ok (f, phm)"
    by (auto simp: piNew_def kbind_Ok_iff eq split: if_splits)
  have "small_phm phm" using phmAllocSingle_num [OF a] ok(2) by (simp add: small_phm_def)
  with fp.alloc_law [OF ok(1) a] show ?thesis using owned_small [of phm f] by simp
qed simp

lemma break_cow_copies:
  fixes env :: "'d vmenv"
  assumes b: "break_cow pte env = Ok (Some pte', old, env')" and cow: "gx_cow pte"
    and ok: "sys_ok \<sigma>" "ps_pi \<sigma> = fs_pi (ve_fr env)" and f: "0 < ps_refs \<sigma> (pte_frame pte)"
  shows "own_copy (pte_frame pte) (pte_frame pte') \<sigma> (ve_fr env) (ve_fr env')"
proof -
  let ?f = "pte_frame pte"
  have pok: "pi_ok \<sigma>" using ok(1) by (simp add: sys_ok_def)
  from b cow obtain n where n: "piNeedsCopyOnWrite ?f (ps_pi \<sigma>) = Ok n" by (auto simp: break_cow_def kbind_Ok_iff ok(2))
  note need = needs_copy [OF pok f n]
  show ?thesis
  proof (cases n)
    case False
    with b cow n have "pte_frame pte' = ?f" "env' = env" by (auto simp: break_cow_def ok(2))
    moreover have "ps_refs \<sigma> ?f = 1" "?f \<notin> ps_cache \<sigma>" using need False by auto
    ultimately show ?thesis using pok ok(2) by (auto simp: own_copy_def intro!: exI [of _ \<sigma>])
  next
    case True
    from b cow n True obtain g pi' and env1 :: "'d vmenv" where z: "zeroed_frame env = Ok (g, env1)" and dec: "piDecref ?f (fs_pi (ve_fr env1)) = Ok pi'"
      and g: "pte_frame pte' = g" "g \<noteq> 0"
      and fs: "fs_pi (ve_fr env') = pi'" "fs_mem (ve_fr env') = (fs_mem (ve_fr env1))(g := fs_mem (ve_fr env1) ?f)"
      by (auto simp: break_cow_def kbind_Ok_iff ok(2) Let_def split: if_splits)
    from z g(2) obtain pi where new: "piNew 0 (ps_pi \<sigma>) = Ok (g, pi)"
      and env1: "fs_pi (ve_fr env1) = pi" "fs_mem (ve_fr env1) = (fs_mem (ve_fr env))(g := zero_page)"
      by (auto simp: zeroed_frame_def kbind_Ok_iff ok(2) Let_def)
    note dec = dec [unfolded env1] and fs = fs [unfolded env1]
    from pi_new_ok [OF pok new _ piNew_small [OF ok(1) new]] have g1: "g \<notin> pi_live \<sigma>"
      and ok1: "pi_ok \<lparr>ps_pi = pi, ps_refs = (ps_refs \<sigma>)(g := 1), ps_cache = ps_cache \<sigma>\<rparr>" (is "pi_ok ?\<sigma>") by simp_all
    have ne: "?f \<noteq> g" using g1 f by (auto simp: pi_live_def)
    from pi_decref_ok [OF ok1, of ?f pi'] dec f ne
    have "pi_ok (?\<sigma>\<lparr>ps_pi := pi', ps_refs := (ps_refs ?\<sigma>)(?f := ps_refs ?\<sigma> ?f - 1)\<rparr>)" by simp
    moreover have "g \<notin> ps_cache \<sigma>" using g1 by (simp add: pi_live_def)
    ultimately show ?thesis using g1 ne need True fs
      unfolding own_copy_def g(1) by (intro conjI exI [of _ "?\<sigma>\<lparr>ps_pi := pi', ps_refs := (ps_refs ?\<sigma>)(?f := ps_refs ?\<sigma> ?f - 1)\<rparr>"]) auto
  qed
qed

lemma getPage_there:
  assumes "pte_at t page = Some pte"
  obtains t' where "getPage page t pi = Ok (pte, t', pi)"
  using assms that by (auto simp: pte_at_def getPage_def split: option.splits prod.splits)

lemma loaded_there: "gx_loaded (entry t page) \<Longrightarrow> pte_at t page = Some (entry t page)"
  by (cases "pte_at t page") (auto simp: entry_def zero_pte_def)

text \<open>
  C22: a write to a page that is to be copied is isolated. When the fault is resolved the writer is the only holder of
  the frame of the page, which may be written and holds what the page held; every other frame keeps its contents.
  The frame is the old one if nobody else had a reference to it, and else one that nobody used, while the old
  one lost one reference.
\<close>

theorem vmFault_copies:
  fixes env :: "'d vmenv"
  assumes f: "vmFault in_kernel catching a flags (pm, env) = Some (Ok (Resolved, pm', env'))" and a: "0x200000 \<le> a" "a < 0x8000000000"
    and wr: "has flags PF_WRITE" and ok: "sys_ok \<sigma>" "ps_pi \<sigma> = fs_pi (ve_fr env)" and segs: "segs_ok (pm_segs pm)"
  defines "pte \<equiv> entry (pm_pdpt pm) (unat a div 4096)" and "pte' \<equiv> entry (pm_pdpt pm') (unat a div 4096)"
  assumes pte: "gx_loaded pte" "gx_cow pte" "gx_perm_ovr pte" "0 < ps_refs \<sigma> (pte_frame pte)"
  shows "pte_rw pte' \<and> \<not> gx_cow pte' \<and> own_copy (pte_frame pte) (pte_frame pte') \<sigma> (ve_fr env) (ve_fr env')"
proof -
  let ?page = "unat a div 4096" and ?pm = "pm\<lparr>pm_lock := pm_lock pm - 1\<rparr>"
  note b = vmFault_body [OF f a]
  obtain t where t: "getPage ?page (pm_pdpt pm) (fs_pi (ve_fr env)) = Ok (pte, t, fs_pi (ve_fr env))"
    using getPage_there [OF loaded_there] pte(1) unfolding pte_def by blast
  have sp: "set_perms p pte = pte" for p using pte(3) by (simp add: set_perms_def)
  have th: "throw catching x = Resolved \<longleftrightarrow> False" if "x \<noteq> Resolved" for x using that by (simp add: throw_def)
  obtain pos seg rest where sk: "seg_skip ?page 0 (pm_segs ?pm) = Some (pos, seg # rest)"
    using b(3) by (auto simp: fault_body_def split: option.splits list.splits)
  have fp: "fault_pte x ?page (?pm, env) = Ok (pte, ?pm\<lparr>pm_pdpt := put_pte ?page pte t\<rparr>, env)" for x
    by (simp add: fault_pte_def t sp)
  have fl: "fault_load seg pos ?page pte s = Ok (Some pte, s)" for s :: "'d vm" by (cases s) (simp add: fault_load_def pte(1))
  note m = b(3) [unfolded fault_body_def prod.case sk option.case list.case fp kbind.simps fl]
  have nz: "seg_flags seg \<noteq> 0" by (rule notI) (use m th in \<open>simp add: if_P\<close>)
  note m = m [unfolded if_not_P [OF nz]]
  have al: "\<not> \<not> allowed (has flags PF_WRITE) (has flags PF_FETCH) pte" by (rule notI) (use m th in \<open>simp split: if_splits\<close>)
  note m = m [unfolded if_not_P [OF al] if_P [OF wr]]
  obtain pte2 old and env2 :: "'d vmenv" where c: "break_cow pte env = Ok (Some pte2, old, env2)"
    and p: "pm' = vm_signal (vm_put ?page pte2 (?pm\<lparr>pm_pdpt := put_pte ?page pte t\<rparr>))"
    and e: "env' = (case old of None \<Rightarrow> env2 | Some f \<Rightarrow> invalidateBlocks f env2)"
    using m by (auto simp: kbind_Ok_iff th split: option.split_asm)
  have en: "pte' = pte2" unfolding pte'_def p
    using getPage_put(3) [OF t, of pte] by (simp add: vm_signal_def vm_put_def entry_put)
  have fr: "ve_fr env' = ve_fr env2" unfolding e by (simp add: invalidateBlocks_def Let_def split: option.splits)
  obtain g where "pte2 = (if gx_cow pte then pte\<lparr>pte_frame := g, gx_cow := False, pte_rw := True\<rparr> else pte)" by (rule break_cow_Some [OF c])
  with pte(2) have "pte_rw pte2" "\<not> gx_cow pte2" by simp_all
  with break_cow_copies [OF c pte(2) ok pte(4)] show ?thesis by (simp add: en fr)
qed

lemma decref_returns:
  assumes "pi_ok \<sigma>" and "0 < ps_refs \<sigma> f"
  obtains st where "piDecref f (ps_pi \<sigma>) = Ok st"
proof -
  have "f \<in> pi_live \<sigma>" using assms(2) by (simp add: pi_live_def)
  with assms(1) obtain v where v: "pi_get f (pi_root (ps_pi \<sigma>)) = Some v" "0 < f" "f \<in> owned (pi_phm (ps_pi \<sigma>))"
    by (auto elim: pi_ok_entry)
  from fp.free_law [OF pi_okD(2) [OF assms(1)] v(3)] v(2) obtain phm where "phmFreeFrame f (pi_phm (ps_pi \<sigma>)) = Ok phm" by auto
  with v(1) have "\<exists>st. piDecref f (ps_pi \<sigma>) = Ok st" by (simp add: piDecref_def pi_rmw_def)
  with that show thesis by blast
qed

definition cow_page :: PTe where
  "cow_page = rw_pte\<lparr>gx_cow := True, pte_frame := 64\<rparr>"

text \<open>Frame 64 has two references; the writer gets a frame of its own.\<close>

theorem vmFault_copies_witness:
  "\<exists>pi pi2 pm' env'. piNew 0 one_frame = Ok (64, pi) \<and> piIncref 64 pi = Ok pi2 \<and>
     vmFault False False 0x200000 PF_WRITE (demo_space [demo_seg addr_pages 1] (demo_pdpt ((\<lambda>_. zero_pte)(0 := cow_page))), set_pi pi2 boot_env) =
       Some (Ok (Resolved, pm', env')) \<and> pte_frame (entry (pm_pdpt pm') 512) \<noteq> 64"
proof -
  let ?t = "demo_pdpt ((\<lambda>_. zero_pte)(0 := cow_page))"
  let ?pm = "demo_space [demo_seg addr_pages 1] ?t"
  obtain pi where n: "piNew 0 one_frame = Ok (64, pi)" and r: "pi_reach \<lparr>ps_pi = pi, ps_refs = (\<lambda>_. 0)(64 := 1), ps_cache = {}\<rparr>" (is "pi_reach ?\<sigma>1")
    unfolding one_frame_def by (rule pi_demo_run)
  have ok1: "pi_ok ?\<sigma>1" by (rule pi_reach_ok [OF r])
  have l1: "64 \<in> pi_live ?\<sigma>1" by (simp add: pi_live_def)
  with ok1 obtain v1 where v1: "pi_get 64 (pi_root pi) = Some v1" by (auto elim: pi_ok_entry)
  then obtain pi2 where i: "piIncref 64 pi = Ok pi2"
    by (cases "(v1 + 1) AND 0xFFFFFFFF = 1") (simp_all add: piIncref_def pi_rmw_def)
  then have ph: "pi_phm pi2 = pi_phm pi" using v1 by (auto simp: piIncref_def pi_rmw_def split: if_splits)
  define \<sigma> where "\<sigma> = ?\<sigma>1\<lparr>ps_pi := pi2, ps_refs := (ps_refs ?\<sigma>1)(64 := ps_refs ?\<sigma>1 64 + 1)\<rparr>"
  have ok: "pi_ok \<sigma>" unfolding \<sigma>_def using pi_incref_ok [OF ok1 l1, of pi2] i by simp
  have \<sigma>: "ps_pi \<sigma> = pi2" "ps_refs \<sigma> 64 = 2" "ps_cache \<sigma> = {}" by (simp_all add: \<sigma>_def)
  obtain phm where p: "phmAllocFrame (phm_demo [] [] (replicate 8 0xFF @ replicate 9 0)) = Ok (64, phm)" "pi_phm pi = phm"
    using n by (auto simp: piNew_def one_frame_def piInit_def kbind_Ok_iff split: if_splits)
  have "pm_num phm = 128"
    using p(1) phmAllocSingle_num [of "phm_demo [] [] (replicate 8 0xFF @ replicate 9 0)"] by (auto simp: phmAllocFrame_def phm_demo_def)
  then have sys: "sys_ok \<sigma>" using ok by (simp add: sys_ok_def \<sigma> ph p(2) small_phm_def)
  from three_tables p obtain g phm1 where al: "phmAllocFrame phm = Ok (g, phm1)"
    by (auto simp: three_tables_def kbind_Ok_iff split: kres.splits)
  have phm: "phm_ok phm" using pi_okD(2) [OF ok1] by (simp add: p)
  then have "phmAllocFrame phm = phmAllocSingle phm" by (auto simp: phmAllocFrame_def phm_ok_def)
  with fp.alloc_law [OF phm] al have g: "g \<noteq> 0" by simp
  then obtain pi3 where new: "piNew 0 pi2 = Ok (g, pi3)" by (simp add: piNew_def ph p(2) al)
  have gs: "g < 2 ^ 36" using piNew_small [OF sys] new \<sigma>(1) by simp
  have new': "piNew 0 (ps_pi \<sigma>) = Ok (g, pi3)" using new \<sigma>(1) by simp
  from pi_new_ok [OF ok new' _ gs] have ok3: "pi_ok \<lparr>ps_pi = pi3, ps_refs = (ps_refs \<sigma>)(g := 1), ps_cache = ps_cache \<sigma>\<rparr>" (is "pi_ok ?\<sigma>3")
    and ng: "g \<notin> pi_live \<sigma>" by simp_all
  have ne: "g \<noteq> 64" using ng \<sigma>(2) by (auto simp: pi_live_def)
  have "0 < ps_refs ?\<sigma>3 64" using \<sigma>(2) ne by simp
  from decref_returns [OF ok3 this] obtain pi4 where dec: "piDecref 64 pi3 = Ok pi4" by auto
  obtain b where nb: "piNeedsCopyOnWrite 64 pi2 = Ok b"
  proof -
    have "64 \<in> pi_live \<sigma>" using \<sigma>(2) by (simp add: pi_live_def)
    with ok obtain v where "pi_get 64 (pi_root pi2) = Some v" by (auto elim: pi_ok_entry simp: \<sigma>(1))
    with that show thesis by (simp add: piNeedsCopyOnWrite_def piGetInfo_def)
  qed
  have b: b using needs_copy [OF ok, of 64 b] nb \<sigma> by simp
  let ?env = "set_pi pi2 boot_env"
  have cw: "gx_loaded cow_page" "gx_r cow_page" "gx_w cow_page" "gx_cow cow_page" "gx_perm_ovr cow_page" "pte_present cow_page" "pte_frame cow_page = 64"
    by (simp_all add: cow_page_def rw_pte_def zero_pte_def)
  have sp: "set_perms x cow_page = cow_page" for x by (simp add: set_perms_def cw)
  have en: "entry ?t 512 = cow_page" by (simp add: entry_def demo_pdpt_def pte_at_def)
  obtain t where t: "getPage 512 ?t pi2 = Ok (cow_page, t, pi2)" by (simp add: getPage_def demo_pdpt_def)
  have fr: "fs_pi (ve_fr ?env) = pi2" "?env\<lparr>ve_fr := ve_fr ?env\<lparr>fs_pi := pi2\<rparr>\<rparr> = ?env" by (simp_all add: set_pi_def)
  obtain old pte2 env2 where c: "break_cow cow_page ?env = Ok (Some pte2, old, env2)"
    using b by (simp add: break_cow_def cw fr nb zeroed_frame_def new g dec Let_def)
  obtain pm' env' where m: "vmFault False False 0x200000 PF_WRITE (?pm, ?env) = Some (Ok (Resolved, pm', env'))"
    by (simp add: vmFault_def vm_locked_def demo_space_def fault_body_def demo_seg_def fault_pte_def fr t sp Let_def allowed_def has_def cw
        fault_load_def c)
  have sg: "segs_ok (pm_segs ?pm)" "has PF_WRITE PF_WRITE" by (simp_all add: demo_space_def segs_ok_def demo_seg_def has_def)
  have pg: "unat (0x200000 :: u64) div 4096 = 512" "entry (pm_pdpt ?pm) 512 = cow_page" using en by (simp_all add: demo_space_def)
  have "own_copy 64 (pte_frame (entry (pm_pdpt pm') 512)) \<sigma> (ve_fr ?env) (ve_fr env')"
    using vmFault_copies [OF m _ _ sg(2) sys _ sg(1), unfolded pg cw(7)] \<sigma> fr cw by simp
  then have "pte_frame (entry (pm_pdpt pm') 512) \<notin> pi_live \<sigma>" by (auto simp: own_copy_def \<sigma>)
  then have "pte_frame (entry (pm_pdpt pm') 512) \<noteq> 64" using \<sigma>(2) by (auto simp: pi_live_def)
  with n i m show ?thesis by blast
qed

end
