(* ===== verification/Gx_Signal.thy ===== *)
theory Gx_Signal
  imports Gx_Timer
begin

text \<open>
  Signals (\<open>kernel/src/thread/signal.c\<close>, the parts of \<open>thread/sched.c\<close> and \<open>int/syscall.c\<close> that keep the pending
  signals, and the return from a handler in \<open>kernel/asm/usup.asm\<close>): how a signal becomes pending, which one is
  dispatched and how, the frame on the user's stack, and the return from it.

  A thread is a record with the fields of \<open>struct _Thread\<close> that these functions use. The signal dispositions are
  reached through their address in a store. Addresses of functions of the kernel and of the user support page are
  the fields of \<open>kaddrs\<close>. The scheduler lock is held by every function that changes a thread, which makes it one
  step. User memory is a function from addresses to bytes; the addresses that can be accessed are a predicate.
\<close>

section \<open>Constants\<close>

abbreviation EFAULT :: int where "EFAULT \<equiv> 21"
abbreviation ESRCH :: int where "ESRCH \<equiv> 76"

abbreviation SIGINT :: int where "SIGINT \<equiv> 2"
abbreviation SIGKILL :: int where "SIGKILL \<equiv> 9"
abbreviation SIGALRM :: int where "SIGALRM \<equiv> 14"
abbreviation SIGSTOP :: int where "SIGSTOP \<equiv> 23"
abbreviation SIGCONT :: int where "SIGCONT \<equiv> 25"
abbreviation SIGTHKILL :: int where "SIGTHKILL \<equiv> 35"
abbreviation SIGTHWAKE :: int where "SIGTHWAKE \<equiv> 36"
abbreviation SIGTRACE :: int where "SIGTRACE \<equiv> 37"
abbreviation SIGTHSUSP :: int where "SIGTHSUSP \<equiv> 38"
abbreviation SIG_NUM :: int where "SIG_NUM \<equiv> 39"

abbreviation SIG_DFL :: u64 where "SIG_DFL \<equiv> 1"
abbreviation SIG_IGN :: u64 where "SIG_IGN \<equiv> 4"
abbreviation SIG_CORE :: u64 where "SIG_CORE \<equiv> 5"
abbreviation SA_SIGINFO :: u32 where "SA_SIGINFO \<equiv> 64"
abbreviation SS_NONBLOCKED :: u32 where "SS_NONBLOCKED \<equiv> 1"
abbreviation SP_NOPERM :: u32 where "SP_NOPERM \<equiv> 1"
abbreviation DBG_SIGNALS :: u32 where "DBG_SIGNALS \<equiv> 8"

abbreviation THREAD_WAITING :: u64 where "THREAD_WAITING \<equiv> 1"
abbreviation THREAD_TERMINATED :: u64 where "THREAD_TERMINATED \<equiv> 4"
abbreviation THREAD_REBEL :: u64 where "THREAD_REBEL \<equiv> 16"
abbreviation THREAD_TRACED :: u64 where "THREAD_TRACED \<equiv> 32"

section \<open>Data\<close>

text \<open>\<open>si_pad\<close> is the padding after \<open>si_status\<close>, which is copied with the rest.\<close>

record siginfo =
  si_signo :: int
  si_code :: int
  si_errno :: int
  si_pid :: int
  si_uid :: u64
  si_addr :: u64
  si_status :: int
  si_pad :: u32
  si_band :: u64
  si_value :: u64

record SigAction =
  sa_handler :: u64
  sa_mask :: u64
  sa_flags :: u32
  sa_sigaction :: u64

record SigDisp =
  sd_refcount :: int
  sd_actions :: "SigAction list"

type_synonym sigdisps = "nat \<Rightarrow> SigDisp option"

record Regs =
  r_fsbase :: u64
  r_gsbase :: u64
  r_ds :: u64
  r_rdi :: u64
  r_rsi :: u64
  r_rbp :: u64
  r_rbx :: u64
  r_rdx :: u64
  r_rcx :: u64
  r_rax :: u64
  r_r8 :: u64
  r_r9 :: u64
  r_r10 :: u64
  r_r11 :: u64
  r_r12 :: u64
  r_r13 :: u64
  r_r14 :: u64
  r_r15 :: u64
  r_intNo :: u64
  r_errCode :: u64
  r_rip :: u64
  r_cs :: u64
  r_rflags :: u64
  r_rsp :: u64
  r_ss :: u64

record MachineState =
  ms_fpuRegs :: "u8 list" \<comment> \<open>512 bytes\<close>
  ms_rflags :: u64
  ms_rip :: u64
  ms_rdi :: u64
  ms_rsi :: u64
  ms_rbp :: u64
  ms_rbx :: u64
  ms_rdx :: u64
  ms_rcx :: u64
  ms_rax :: u64
  ms_r8 :: u64
  ms_r9 :: u64
  ms_r10 :: u64
  ms_r11 :: u64
  ms_r12 :: u64
  ms_r13 :: u64
  ms_r14 :: u64
  ms_r15 :: u64
  ms_rsp :: u64
  ms_fsbase :: u64
  ms_gsbase :: u64

record SignalStackFrame =
  ss_trapSigRet :: u64
  ss_sigmask :: u64
  ss_si :: siginfo
  ss_mstate :: MachineState

text \<open>The object that \<open>dispatchSignal\<close> leaves at the base of the kernel stack of the thread.\<close>

datatype kstack = Unused | SigFrame SignalStackFrame | SuspFrame Regs | CoreFrame siginfo Regs

record Creds =
  cr_pid :: int
  cr_ppid :: int
  cr_pgid :: int
  cr_euid :: u64
  cr_ruid :: u64

record sthread =
  st_thid :: int
  st_creds :: "Creds option"
  st_flags :: u64
  st_regs :: Regs
  st_fpuRegs :: "u8 list"
  st_stack :: u64
  st_stackSize :: u64
  st_kstack :: kstack
  st_sigdisp :: "nat option"
  st_pendingSet :: u64
  st_pendingSigs :: "siginfo list" \<comment> \<open>64 of them\<close>
  st_sigmask :: u64
  st_wakeCounter :: int
  st_queued :: bool \<comment> \<open>\<open>runq.thread != NULL\<close>\<close>
  st_alarmTime :: u64
  st_alarmTimer :: nat
  st_debugFlags :: u32

section \<open>Waking a thread\<close>

text \<open>The second half of \<open>signalThread\<close>.\<close>

definition wake_thread :: "sthread \<Rightarrow> sthread" where
  "wake_thread t =
     (if has (st_flags t) THREAD_WAITING
      then t\<lparr>st_flags := st_flags t AND NOT THREAD_WAITING, st_queued := True\<rparr>
      else t\<lparr>st_wakeCounter := c_int (st_wakeCounter t + 1)\<rparr>)"

definition waitThread :: "sthread \<Rightarrow> sthread" where
  "waitThread t =
     (if st_wakeCounter t = 0 then t\<lparr>st_flags := st_flags t OR THREAD_WAITING\<rparr>
      else t\<lparr>st_wakeCounter := c_int (st_wakeCounter t - 1)\<rparr>)"

text \<open>The argument is what the stack holds in the padding and in the half of \<open>si_value\<close> that is not assigned.\<close>

definition alarm_siginfo :: "u32 \<times> u32 \<Rightarrow> siginfo" where
  "alarm_siginfo junk = \<lparr>si_signo = SIGALRM, si_code = 0, si_errno = 0, si_pid = 0, si_uid = 0, si_addr = 0, si_status = 0,
     si_pad = fst junk, si_band = 0, si_value = push_bit 32 (ucast (snd junk))\<rparr>"

section \<open>Sending a signal\<close>

definition isUnblockableSig :: "int \<Rightarrow> bool" where
  "isUnblockableSig signo \<longleftrightarrow> signo \<in> {9, 35, 23, 38, 11, 6, 4, 10, 12}"

definition isDeathSig :: "int \<Rightarrow> bool" where
  "isDeathSig signo \<longleftrightarrow> signo \<in> {1, 2, 3, 4, 6, 8, 11, 13, 14, 15, 16, 17, 10, 12}"

definition sigbit :: "int \<Rightarrow> u64" where
  "sigbit signo = push_bit (nat signo) 1"

definition blocked :: "u64 \<Rightarrow> int \<Rightarrow> bool" where
  "blocked m signo \<longleftrightarrow> has m (sigbit signo) \<and> \<not> isUnblockableSig signo"

text \<open>The search for a free place, and the assignments to it; \<open>None\<close> is the second \<open>panic()\<close>.\<close>

definition put_pending :: "siginfo \<Rightarrow> sthread \<Rightarrow> sthread option" where
  "put_pending si t =
     (case find (\<lambda>i. \<not> has (st_pendingSet t) (push_bit i 1)) [0..<64] of
        None \<Rightarrow> None
      | Some i \<Rightarrow> Some (t\<lparr>st_pendingSet := st_pendingSet t OR push_bit i 1, st_pendingSigs := (st_pendingSigs t)[i := si]\<rparr>))"

lemma put_pending_alarm: "put_pending si t = Some t' \<Longrightarrow> st_alarmTime t' = st_alarmTime t"
  by (auto simp: put_pending_def split: option.splits)

text \<open>
  \<open>signalThread\<close> sends \<open>SIGALRM\<close> when the alarm of the thread is due, after it has reset the alarm.
  The result of \<open>sendSignalEx\<close> is 0 or -1; its third argument is \<open>getNanotime()\<close>.
\<close>

function (sequential) sendSignalEx :: "sigdisps \<Rightarrow> u32 \<times> u32 \<Rightarrow> u64 \<Rightarrow> siginfo \<Rightarrow> u32 \<Rightarrow> sthread \<times> timers \<Rightarrow> (int \<times> sthread \<times> timers) kres"
  and signalThread :: "sigdisps \<Rightarrow> u32 \<times> u32 \<Rightarrow> u64 \<Rightarrow> sthread \<times> timers \<Rightarrow> (sthread \<times> timers) kres" where
  "sendSignalEx disps junk now si flags (t, ts) =
     (if si_signo si < 0 \<or> SIG_NUM \<le> si_signo si then Panic
      else
        let t = (if has (st_flags t) THREAD_TRACED
                 then t\<lparr>st_flags := (st_flags t AND NOT THREAD_TRACED) OR THREAD_WAITING\<rparr> else t);
            exempt = si_signo si = SIGKILL \<or> si_signo si = SIGTHKILL \<or> si_signo si = SIGSTOP
        in if has (st_flags t) THREAD_TERMINATED then Ok (-1, t, ts)
           else if si_signo si = SIGCONT then kbind (signalThread disps junk now (t, ts)) (\<lambda>(t, ts). Ok (-1, t, ts))
           else if si_signo si = SIGTHWAKE then kbind (signalThread disps junk now (t, ts)) (\<lambda>(t, ts). Ok (0, t, ts))
           else if \<not> exempt \<and> (case st_sigdisp t of None \<Rightarrow> True | Some d \<Rightarrow> disps d = None) then Panic
           else if \<not> exempt \<and> sa_handler (sd_actions (the (disps (the (st_sigdisp t)))) ! nat (si_signo si)) = SIG_IGN
           then kbind (signalThread disps junk now (t, ts)) (\<lambda>(t, ts). Ok (-1, t, ts))
           else if \<not> exempt \<and> has flags SS_NONBLOCKED \<and> has (st_sigmask t) (sigbit (si_signo si)) then Ok (-1, t, ts)
           else if st_pendingSet t = 0xFFFFFFFFFFFFFFFF
           then kbind (signalThread disps junk now (t, ts)) (\<lambda>(t, ts). Ok (-1, t, ts))
           else (case put_pending si t of None \<Rightarrow> Panic
                 | Some t \<Rightarrow> kbind (signalThread disps junk now (t, ts)) (\<lambda>(t, ts). Ok (0, t, ts))))"
| "signalThread disps junk now (t, ts) =
     (if st_alarmTime t \<noteq> 0 \<and> st_alarmTime t \<le> now
      then kbind (sendSignalEx disps junk now (alarm_siginfo junk) 0 (t\<lparr>st_alarmTime := 0\<rparr>, timedCancel (st_alarmTimer t) ts))
             (\<lambda>(r, t, ts). Ok (wake_thread t, ts))
      else Ok (wake_thread t, ts))"
  by pat_completeness auto
termination
  by (relation "measure (\<lambda>x. case x of
        Inl (_, _, _, _, _, t, _) \<Rightarrow> 1 + (if st_alarmTime t = 0 then 0 else 2)
      | Inr (_, _, _, t, _) \<Rightarrow> (if st_alarmTime t = 0 then 0 else 2))")
    (auto simp: put_pending_alarm split: if_splits)

declare sendSignalEx.simps [simp del] signalThread.simps [simp del]

definition sendSignal :: "sigdisps \<Rightarrow> u32 \<times> u32 \<Rightarrow> u64 \<Rightarrow> siginfo \<Rightarrow> sthread \<times> timers \<Rightarrow> (int \<times> sthread \<times> timers) kres" where
  "sendSignal disps junk now si s = sendSignalEx disps junk now si 0 s"

section \<open>Dispatching a signal\<close>

text \<open>The addresses of the functions that the thread continues with.\<close>

record kaddrs =
  k_threadExit :: u64
  k_processExit :: u64
  k_suspend :: u64
  k_coredump :: u64
  k_jumpToHandler :: u64
  k_usup_sigret :: u64 \<comment> \<open>\<open>&usup_sigret - &usup_start + 0xFFFF808000003000\<close>\<close>

definition ready_at :: "sthread \<Rightarrow> nat \<Rightarrow> bool" where
  "ready_at t i \<longleftrightarrow> has (st_pendingSet t) (push_bit i 1) \<and> \<not> blocked (st_sigmask t) (si_signo (st_pendingSigs t ! i))"

definition haveReadySigs :: "sthread \<Rightarrow> bool" where
  "haveReadySigs t \<longleftrightarrow> st_sigdisp t \<noteq> None \<and> (\<exists>i \<in> set [0..<64]. ready_at t i)"

text \<open>\<open>getFlagsRegister()\<close> is the argument \<open>fl\<close>.\<close>

definition switchToKernelSpace :: "u64 \<Rightarrow> Regs \<Rightarrow> Regs" where
  "switchToKernelSpace fl regs = regs\<lparr>r_cs := 0x08, r_ds := 0x10, r_ss := 0, r_rflags := fl OR push_bit 9 1\<rparr>"

definition stack_top :: "sthread \<Rightarrow> u64" where
  "stack_top t = (st_stack t + st_stackSize t) AND NOT 0xF"

text \<open>The assignments to \<open>frame\<close>.\<close>

definition signal_frame :: "kaddrs \<Rightarrow> sthread \<Rightarrow> siginfo \<Rightarrow> SignalStackFrame" where
  "signal_frame K t si =
     (let r = st_regs t
      in \<lparr>ss_trapSigRet = k_usup_sigret K, ss_sigmask = st_sigmask t, ss_si = si,
          ss_mstate = \<lparr>ms_fpuRegs = st_fpuRegs t, ms_rflags = r_rflags r, ms_rip = r_rip r, ms_rdi = r_rdi r, ms_rsi = r_rsi r,
            ms_rbp = r_rbp r, ms_rbx = r_rbx r, ms_rdx = r_rdx r, ms_rcx = r_rcx r, ms_rax = r_rax r, ms_r8 = r_r8 r,
            ms_r9 = r_r9 r, ms_r10 = r_r10 r, ms_r11 = r_r11 r, ms_r12 = r_r12 r, ms_r13 = r_r13 r, ms_r14 = r_r14 r,
            ms_r15 = r_r15 r, ms_rsp = r_rsp r, ms_fsbase = 0, ms_gsbase = 0\<rparr>\<rparr>)"

text \<open>
  What the thread does with the signal \<open>si\<close>, which is no longer pending. With \<open>DBG_SIGNALS\<close> the thread stops
  in \<open>traceTrapEx\<close>, which does not return (the notification of the parent is not modelled). \<open>vmSwitch\<close> makes
  the address space of the thread current.
\<close>

definition deliver_signal :: "kaddrs \<Rightarrow> u64 \<Rightarrow> sigdisps \<Rightarrow> siginfo \<Rightarrow> sthread \<Rightarrow> sthread kres" where
  "deliver_signal K fl disps si t =
     (if si_signo si = SIGTHKILL then
        Ok (t\<lparr>st_regs := (switchToKernelSpace fl (st_regs t))\<lparr>r_rip := k_threadExit K, r_rdi := 0, r_rsp := stack_top t\<rparr>\<rparr>)
      else if si_signo si = SIGKILL then
        Ok (t\<lparr>st_regs := (switchToKernelSpace fl (st_regs t))\<lparr>r_rip := k_processExit K, r_rdi := 9, r_rsp := stack_top t\<rparr>\<rparr>)
      else if si_signo si = SIGTHSUSP then
        Ok (t\<lparr>st_kstack := SuspFrame (st_regs t),
               st_regs := (switchToKernelSpace fl (st_regs t))\<lparr>r_rip := k_suspend K, r_rdi := st_stack t, r_rsi := si_addr si,
                 r_rsp := stack_top t, r_rbp := 0\<rparr>\<rparr>)
      else if has (st_debugFlags t) DBG_SIGNALS then Ok (t\<lparr>st_flags := st_flags t OR THREAD_TRACED\<rparr>)
      else case (case st_sigdisp t of None \<Rightarrow> None | Some d \<Rightarrow> disps d) of
        None \<Rightarrow> Panic
      | Some sd \<Rightarrow>
          let action = sd_actions sd ! nat (si_signo si);
              to_handler = (\<lambda>handler.
                Ok (t\<lparr>st_kstack := SigFrame (signal_frame K t si),
                       st_regs := (st_regs t)\<lparr>r_rsp := stack_top t, r_rdi := st_stack t, r_rsi := handler, r_rip := k_jumpToHandler K,
                         r_cs := 0x08, r_ds := 0x10, r_ss := 0\<rparr>,
                       st_sigmask := st_sigmask t OR sa_mask action\<rparr>))
          in if has (sa_flags action) SA_SIGINFO then to_handler (sa_sigaction action)
             else if sa_handler action = SIG_IGN then Ok t
             else if sa_handler action = SIG_CORE then
               Ok (t\<lparr>st_kstack := CoreFrame si (st_regs t),
                      st_regs := (switchToKernelSpace fl (st_regs t))\<lparr>r_rip := k_coredump K, r_rdi := st_stack t,
                        r_rsi := st_stack t + 56, r_rsp := stack_top t, r_rbp := 0\<rparr>\<rparr>)
             else if sa_handler action = SIG_DFL then
               (if isDeathSig (si_signo si)
                then Ok (t\<lparr>st_regs := (switchToKernelSpace fl (st_regs t))\<lparr>r_rip := k_processExit K,
                              r_rdi := word_of_int (si_signo si), r_rsp := stack_top t\<rparr>\<rparr>)
                else Ok t)
             else to_handler (sa_handler action))"

definition dispatchSignal :: "kaddrs \<Rightarrow> u64 \<Rightarrow> sigdisps \<Rightarrow> sthread \<Rightarrow> sthread kres" where
  "dispatchSignal K fl disps t =
     (case find (ready_at t) [0..<64] of
        None \<Rightarrow> Panic
      | Some i \<Rightarrow> deliver_signal K fl disps (st_pendingSigs t ! i) (t\<lparr>st_pendingSet := st_pendingSet t AND NOT (push_bit i 1)\<rparr>))"

text \<open>\<open>suspend\<close>, which the thread runs to stop; the counter is at the address in \<open>rsi\<close>.\<close>

definition suspend :: "Regs \<Rightarrow> int \<Rightarrow> sthread \<Rightarrow> sthread \<times> int" where
  "suspend regs suspendCounter t =
     (t\<lparr>st_regs := regs, st_flags := st_flags t OR THREAD_TRACED\<rparr>, c_int (suspendCounter + 1))"

section \<open>User memory\<close>

type_synonym umem = "u64 \<Rightarrow> u8"

definition bytes64 :: "u64 \<Rightarrow> u8 list" where
  "bytes64 w = map (\<lambda>i. ucast (drop_bit (8 * i) w)) [0..<8]"

definition bytes32 :: "u32 \<Rightarrow> u8 list" where
  "bytes32 w = map (\<lambda>i. ucast (drop_bit (8 * i) w)) [0..<4]"

primrec word64 :: "u8 list \<Rightarrow> u64" where
  "word64 [] = 0"
| "word64 (b # bs) = ucast b OR push_bit 8 (word64 bs)"

definition put_bytes :: "u64 \<Rightarrow> u8 list \<Rightarrow> umem \<Rightarrow> umem" where
  "put_bytes a bs mem = (\<lambda>x. if unat (x - a) < length bs then bs ! unat (x - a) else mem x)"

definition get_bytes :: "u64 \<Rightarrow> nat \<Rightarrow> umem \<Rightarrow> u8 list" where
  "get_bytes a n mem = map (\<lambda>i. mem (a + of_nat i)) [0..<n]"

definition get64 :: "u64 \<Rightarrow> umem \<Rightarrow> u64" where
  "get64 a mem = word64 (get_bytes a 8 mem)"

text \<open>The checks of \<open>memcpy_k2u\<close> and \<open>memcpy_u2k\<close>; an access that faults is caught. \<open>ok\<close> are the addresses
  that can be accessed.\<close>

definition user_range :: "(u64 \<Rightarrow> bool) \<Rightarrow> u64 \<Rightarrow> nat \<Rightarrow> bool" where
  "user_range ok start n \<longleftrightarrow>
     (let finish = start + of_nat n
      in \<not> (start < 0x200000 \<or> 0x8000000000 \<le> start) \<and> \<not> (finish < 0x200000 \<or> 0x8000000000 \<le> finish) \<and> \<not> finish < start \<and>
         (\<forall>i \<in> set [0..<n]. ok (start + of_nat i)))"

definition memcpy_k2u :: "(u64 \<Rightarrow> bool) \<Rightarrow> u64 \<Rightarrow> u8 list \<Rightarrow> umem \<Rightarrow> umem option" where
  "memcpy_k2u ok dst bs mem =
     (if bs = [] then Some mem else if user_range ok dst (length bs) then Some (put_bytes dst bs mem) else None)"

definition memcpy_u2k :: "(u64 \<Rightarrow> bool) \<Rightarrow> u64 \<Rightarrow> nat \<Rightarrow> umem \<Rightarrow> u8 list option" where
  "memcpy_u2k ok src n mem = (if n = 0 then Some [] else if user_range ok src n then Some (get_bytes src n mem) else None)"

section \<open>The frame on the stack of the user\<close>

text \<open>The images of the structs: \<open>siginfo_t\<close>, \<open>MachineState\<close> after the FPU registers, and \<open>SignalContext\<close>.\<close>

definition siginfo_bytes :: "siginfo \<Rightarrow> u8 list" where
  "siginfo_bytes si =
     bytes32 (word_of_int (si_signo si)) @ bytes32 (word_of_int (si_code si)) @ bytes32 (word_of_int (si_errno si)) @
     bytes32 (word_of_int (si_pid si)) @ bytes64 (si_uid si) @ bytes64 (si_addr si) @ bytes32 (word_of_int (si_status si)) @
     bytes32 (si_pad si) @ bytes64 (si_band si) @ bytes64 (si_value si)"

definition gpr_words :: "MachineState \<Rightarrow> u64 list" where
  "gpr_words m = [ms_rflags m, ms_rip m, ms_rdi m, ms_rsi m, ms_rbp m, ms_rbx m, ms_rdx m, ms_rcx m, ms_rax m, ms_r8 m, ms_r9 m,
     ms_r10 m, ms_r11 m, ms_r12 m, ms_r13 m, ms_r14 m, ms_r15 m, ms_rsp m, ms_fsbase m, ms_gsbase m]"

definition context_words :: "SignalStackFrame \<Rightarrow> u64 list" where
  "context_words f = [0, ss_sigmask f, 0, 0, 0] @ take 18 (gpr_words (ss_mstate f))"

definition initUserRegs :: "u64 \<Rightarrow> Regs" where
  "initUserRegs fl =
     \<lparr>r_fsbase = 0, r_gsbase = 0, r_ds = 0x23, r_rdi = 0, r_rsi = 0, r_rbp = 0, r_rbx = 0, r_rdx = 0, r_rcx = 0, r_rax = 0,
      r_r8 = 0, r_r9 = 0, r_r10 = 0, r_r11 = 0, r_r12 = 0, r_r13 = 0, r_r14 = 0, r_r15 = 0, r_intNo = 0, r_errCode = 0,
      r_rip = 0, r_cs = 0x1B, r_rflags = fl OR push_bit 9 1, r_rsp = 0, r_ss = 0x23\<rparr>"

text \<open>\<open>fs\<close> and \<open>gs\<close> are the MSRs. \<open>None\<close> is \<open>processExit(WS_SIG(SIGABRT))\<close>.\<close>

definition jumpToHandler :: "kaddrs \<Rightarrow> (u64 \<Rightarrow> bool) \<Rightarrow> u64 \<Rightarrow> u64 \<Rightarrow> u64 \<Rightarrow> SignalStackFrame \<Rightarrow> u64 \<Rightarrow> umem \<Rightarrow> (Regs \<times> umem) option" where
  "jumpToHandler K ok fl fs gs frame handler mem =
     (let addrGPR = ms_rsp (ss_mstate frame) - 160 - 128;
          addrInfo = addrGPR - 56;
          addrFPU = (addrInfo - 512) AND NOT 0xF;
          addrContext = addrFPU - 184;
          addrRet = addrContext - 8
      in Option.bind (memcpy_k2u ok addrGPR (concat (map bytes64 (gpr_words (ss_mstate frame)))) mem) (\<lambda>mem.
         Option.bind (memcpy_k2u ok addrInfo (siginfo_bytes (ss_si frame)) mem) (\<lambda>mem.
         Option.bind (memcpy_k2u ok addrFPU (ms_fpuRegs (ss_mstate frame)) mem) (\<lambda>mem.
         Option.bind (memcpy_k2u ok addrContext (concat (map bytes64 (context_words frame))) mem) (\<lambda>mem.
         Option.bind (memcpy_k2u ok addrRet (bytes64 (k_usup_sigret K)) mem) (\<lambda>mem.
           Some ((initUserRegs fl)\<lparr>r_rip := handler, r_rsp := addrRet, r_rdi := ucast (word_of_int (si_signo (ss_si frame)) :: u32),
               r_rsi := addrInfo, r_rdx := addrContext, r_rbx := addrFPU, r_r12 := addrGPR, r_r13 := ss_sigmask frame,
               r_fsbase := fs, r_gsbase := gs\<rparr>, mem)))))))"

section \<open>The return from a handler\<close>

text \<open>\<open>sys_sigprocmask\<close>. A pointer argument is \<open>None\<close> for \<open>NULL\<close>; \<open>set\<close> is then what \<open>memcpy_u2k\<close> gives, and \<open>oldset\<close> is
  whether \<open>memcpy_k2u\<close> succeeds. The result is the error number, 0 for none, and the new mask.\<close>

definition sys_sigprocmask :: "int \<Rightarrow> u64 option option \<Rightarrow> bool option \<Rightarrow> u64 \<Rightarrow> int \<times> u64" where
  "sys_sigprocmask how newset oldset m =
     (if newset = Some None then (EFAULT, m)
      else if oldset = Some False then (EFAULT, m)
      else case newset of
        Some (Some w) \<Rightarrow>
          if how = 0 then (0, m OR w)
          else if how = 1 then (0, m AND NOT w)
          else if how = 2 then (0, w)
          else (EINVAL, m)
      | _ \<Rightarrow> (0, m))"

text \<open>
  \<open>usup_sigret\<close>, which runs when the handler returns: its registers, the memory and the mask of the thread. The
  results are the registers, the FPU registers and the mask with which the thread goes on. \<open>push\<close> writes below
  \<open>rsp\<close>; \<open>popf\<close> in user mode changes the flags in \<open>pf\<close> only; \<open>fxrstor\<close> loads 512 bytes.
\<close>

definition usup_sigret :: "(u64 \<Rightarrow> bool) \<Rightarrow> u64 \<Rightarrow> Regs \<Rightarrow> umem \<Rightarrow> u64 \<Rightarrow> Regs \<times> u8 list \<times> u64" where
  "usup_sigret ok pf r mem m =
     (let rsp = r_rsp r - 8;
          mem = put_bytes rsp (bytes64 (r_r13 r)) mem;
          m = snd (sys_sigprocmask 2 (Some (map_option word64 (memcpy_u2k ok rsp 8 mem))) None m);
          fpu = get_bytes (r_rbx r) 512 mem;
          rsp = r_r12 r;
          fl = (r_rflags r AND NOT pf) OR (get64 rsp mem AND pf);
          rsp = rsp + 8
      in (r\<lparr>r_rdi := get64 (rsp + 8) mem, r_rsi := get64 (rsp + 16) mem, r_rbp := get64 (rsp + 24) mem,
            r_rbx := get64 (rsp + 32) mem, r_rdx := get64 (rsp + 40) mem, r_rcx := get64 (rsp + 48) mem,
            r_rax := get64 (rsp + 56) mem, r_r8 := get64 (rsp + 64) mem, r_r9 := get64 (rsp + 72) mem,
            r_r10 := get64 (rsp + 80) mem, r_r11 := get64 (rsp + 88) mem, r_r12 := get64 (rsp + 96) mem,
            r_r13 := get64 (rsp + 104) mem, r_r14 := get64 (rsp + 112) mem, r_r15 := get64 (rsp + 120) mem,
            r_rflags := fl, r_rip := get64 rsp mem, r_rsp := rsp + 8 + 272\<rparr>, fpu, m))"

text \<open>\<open>sigret\<close>, which a thread reaches by a jump to \<open>TRAP_SIGRET\<close>, with the frame that it put on its stack: the
  registers, the FPU registers and the mask it goes on with.\<close>

abbreviation OK_USER_FLAGS :: u64 where "OK_USER_FLAGS \<equiv> 0xFFFF"

definition sigret :: "u64 \<Rightarrow> SignalStackFrame \<Rightarrow> Regs \<times> u8 list \<times> u64" where
  "sigret fl frame =
     (let s = ss_mstate frame
      in ((initUserRegs fl)\<lparr>r_rax := ms_rax s, r_rbx := ms_rbx s, r_rcx := ms_rcx s, r_rdx := ms_rdx s, r_rbp := ms_rbp s,
            r_rsp := ms_rsp s, r_rip := ms_rip s, r_rdi := ms_rdi s, r_rsi := ms_rsi s, r_r8 := ms_r8 s, r_r9 := ms_r9 s,
            r_r10 := ms_r10 s, r_r11 := ms_r11 s, r_r12 := ms_r12 s, r_r13 := ms_r13 s, r_r14 := ms_r14 s, r_r15 := ms_r15 s,
            r_rflags := (ms_rflags s AND OK_USER_FLAGS) OR (fl AND NOT OK_USER_FLAGS) OR push_bit 9 1\<rparr>,
          ms_fpuRegs s, ss_sigmask frame))"

section \<open>Dispositions\<close>

definition sigdispCreate :: "nat \<Rightarrow> sigdisps \<Rightarrow> sigdisps" where
  "sigdispCreate new disps = disps(new \<mapsto> \<lparr>sd_refcount = 1,
     sd_actions = replicate 39 \<lparr>sa_handler = SIG_DFL, sa_mask = 0, sa_flags = 0, sa_sigaction = 0\<rparr>\<rparr>)"

definition sigdispUpref :: "nat \<Rightarrow> sigdisps \<Rightarrow> sigdisps kres" where
  "sigdispUpref sd disps =
     (case disps sd of None \<Rightarrow> Panic
      | Some d \<Rightarrow> Ok (disps(sd \<mapsto> d\<lparr>sd_refcount := c_int (sd_refcount d + 1)\<rparr>)))"

definition sigdispDownref :: "nat \<Rightarrow> sigdisps \<Rightarrow> sigdisps kres" where
  "sigdispDownref sd disps =
     (case disps sd of None \<Rightarrow> Panic
      | Some d \<Rightarrow> Ok (if sd_refcount d = 1 then disps(sd := None)
                     else disps(sd \<mapsto> d\<lparr>sd_refcount := c_int (sd_refcount d - 1)\<rparr>)))"

definition exec_action :: "SigAction \<Rightarrow> SigAction \<Rightarrow> SigAction" where
  "exec_action old new =
     (let new = (if sa_handler old = SIG_IGN then new\<lparr>sa_handler := SIG_IGN\<rparr> else new)
      in if sa_handler old = SIG_CORE then new\<lparr>sa_handler := SIG_CORE\<rparr> else new)"

definition sigdispExec :: "nat \<Rightarrow> nat \<Rightarrow> sigdisps \<Rightarrow> sigdisps kres" where
  "sigdispExec new old disps =
     (let disps = sigdispCreate new disps
      in case disps old of None \<Rightarrow> Panic
         | Some d \<Rightarrow> (let n = the (disps new)
             in sigdispDownref old (disps(new \<mapsto> n\<lparr>sd_actions := map2 exec_action (sd_actions d) (sd_actions n)\<rparr>))))"

text \<open>\<open>sys_sigaction\<close>: the error number, 0 for none, the old action that is copied out, and the dispositions. \<open>uoact\<close>
  is whether the copy to the user succeeds.\<close>

definition sys_sigaction :: "int \<Rightarrow> SigAction option option \<Rightarrow> bool option \<Rightarrow> nat \<Rightarrow> sigdisps \<Rightarrow> (int \<times> SigAction option \<times> sigdisps) kres" where
  "sys_sigaction sig uact uoact sd disps =
     (if uact = Some None then Ok (EFAULT, None, disps)
      else if sig < 1 \<or> SIG_NUM \<le> sig then Ok (EINVAL, None, disps)
      else if sig = SIGSTOP \<or> sig = SIGKILL then Ok (EINVAL, None, disps)
      else case disps sd of None \<Rightarrow> Panic
      | Some d \<Rightarrow>
          let oact = sd_actions d ! nat sig;
              disps = (case uact of Some (Some act) \<Rightarrow> disps(sd \<mapsto> d\<lparr>sd_actions := (sd_actions d)[nat sig := act]\<rparr>)
                       | _ \<Rightarrow> disps)
          in case uoact of None \<Rightarrow> Ok (0, None, disps)
             | Some copied \<Rightarrow> if copied then Ok (0, Some oact, disps) else Ok (EFAULT, None, disps))"

section \<open>Signals to processes\<close>

definition canSendSignal :: "sthread \<Rightarrow> sthread \<Rightarrow> int \<Rightarrow> u32 \<Rightarrow> bool" where
  "canSendSignal src dst signo flags =
     (if signo = SIGTRACE \<and> has flags SP_NOPERM then True
      else if signo \<notin> {25, 1, 2, 9, 3, 23, 15, 24, 16, 17, 0} then False
      else case st_creds dst of None \<Rightarrow> False
      | Some dc \<Rightarrow> (case st_creds src of None \<Rightarrow> True
        | Some sc \<Rightarrow>
            if has flags SP_NOPERM then True
            else if cr_pid dc = 1 \<and> (signo = SIGKILL \<or> signo = SIGSTOP) then False
            else if cr_euid sc = 0 \<or> cr_ruid sc = 0 then True
            else if cr_ruid sc = cr_euid dc \<or> cr_ruid sc = cr_ruid dc then True
            else if cr_ppid dc = cr_pid sc \<and> (\<not> has (st_flags dst) THREAD_REBEL \<or> signo = SIGINT) then True
            else False))"

definition pid_matches :: "int \<Rightarrow> int \<Rightarrow> Creds \<Rightarrow> bool" where
  "pid_matches pid mypgid c \<longleftrightarrow> cr_pid c = pid \<or> cr_pgid c = - pid \<or> pid = -1 \<or> (pid = 0 \<and> cr_pgid c = mypgid)"

text \<open>
  The loop of \<open>signalPidUnlocked\<close> over the threads, from the current one (\<open>src\<close>) on; \<open>delivered\<close> are the \<open>pidDelivIndex\<close>
  processes that have the signal. The results are the return value, \<open>ERRNO\<close>, and the threads and timers after it. With
  \<open>si == NULL\<close> the argument of \<open>canSendSignal\<close> is read through \<open>NULL\<close>.
\<close>

fun signal_loop :: "sigdisps \<Rightarrow> u32 \<times> u32 \<Rightarrow> u64 \<Rightarrow> int \<Rightarrow> int \<Rightarrow> siginfo option \<Rightarrow> u32 \<Rightarrow> sthread \<Rightarrow> int list \<Rightarrow> int \<Rightarrow> int \<Rightarrow>
    sthread list \<Rightarrow> timers \<Rightarrow> (int \<times> int \<times> sthread list \<times> timers) kres" where
  "signal_loop disps junk now pid mypgid si flags src delivered result errno [] ts = Ok (result, errno, [], ts)"
| "signal_loop disps junk now pid mypgid si flags src delivered result errno (t # rest) ts =
     (let next = (\<lambda>delivered result errno t ts.
            kbind (signal_loop disps junk now pid mypgid si flags src delivered result errno rest ts) (\<lambda>(r, e, rest, ts).
              Ok (r, e, t # rest, ts)))
      in case st_creds t of
           None \<Rightarrow> next delivered result errno t ts
         | Some c \<Rightarrow>
             if \<not> pid_matches pid mypgid c \<or> cr_pid c \<in> set delivered then next delivered result errno t ts
             else (case si of None \<Rightarrow> Panic
               | Some si \<Rightarrow>
                   if \<not> canSendSignal src t (si_signo si) flags then next delivered result EPERM t ts
                   else kbind (sendSignalEx disps junk now si SS_NONBLOCKED (t, ts)) (\<lambda>(r, t, ts).
                     if r = 0 \<and> length delivered = 100 then Ok (result, 50, t # rest, ts)
                     else next (if r = 0 then delivered @ [cr_pid c] else delivered) 0 errno t ts)))"

definition signalPidUnlocked :: "sigdisps \<Rightarrow> u32 \<times> u32 \<Rightarrow> u64 \<Rightarrow> int \<Rightarrow> siginfo option \<Rightarrow> u32 \<Rightarrow> sthread list \<Rightarrow> timers \<Rightarrow>
    (int \<times> int \<times> sthread list \<times> timers) kres" where
  "signalPidUnlocked disps junk now pid si flags threads ts =
     signal_loop disps junk now pid (case st_creds (hd threads) of None \<Rightarrow> 0 | Some c \<Rightarrow> cr_pgid c) si flags (hd threads) [] (-1) ESRCH
       threads ts"

section \<open>Waiting for a signal\<close>

text \<open>One turn of the loop of \<open>sys_sigwait\<close>: the number it returns and the signal it takes, or nothing, when it yields.
  The first of the pending signals that is in the set, or not blocked, decides.\<close>

definition sigwait_turn :: "u64 \<Rightarrow> u64 \<Rightarrow> u64 \<Rightarrow> sthread \<Rightarrow> (int \<times> siginfo option \<times> sthread) option" where
  "sigwait_turn sigs deadline now t =
     (let sigs = sigs AND NOT (sigbit SIGKILL OR sigbit SIGSTOP OR sigbit SIGTHKILL OR sigbit SIGTHWAKE)
      in case find (\<lambda>i. has (st_pendingSet t) (push_bit i 1) \<and>
             (has sigs (sigbit (si_signo (st_pendingSigs t ! i))) \<or> \<not> blocked (st_sigmask t) (si_signo (st_pendingSigs t ! i)))) [0..<64] of
           Some i \<Rightarrow>
             if has sigs (sigbit (si_signo (st_pendingSigs t ! i)))
             then Some (0, Some (st_pendingSigs t ! i), t\<lparr>st_pendingSet := st_pendingSet t AND NOT (push_bit i 1)\<rparr>)
             else Some (EINTR, None, t)
         | None \<Rightarrow> if deadline \<le> now \<and> deadline \<noteq> 0 then Some (EAGAIN, None, t) else None)"

end
