(* ===== verification/Gx_SigFrame.thy ===== *)
theory Gx_SigFrame
  imports Gx_Signal
begin

text \<open>
  The frame of a signal on the stack of the user: \<open>jumpToHandler\<close> writes the registers, the \<open>siginfo_t\<close>, the FPU
  registers and the context below the red zone, and \<open>usup_sigret\<close> restores the thread from it after any handler that
  keeps the callee-saved registers and the frame.
\<close>

section \<open>Bytes and words\<close>

lemma bit_word64: "n < 64 \<Longrightarrow> bit (word64 bs) n \<longleftrightarrow> n div 8 < length bs \<and> bit (bs ! (n div 8)) (n mod 8)"
proof (induction bs arbitrary: n)
  case (Cons b bs)
  show ?case
  proof (cases "n < 8")
    case True
    then show ?thesis by (simp add: bit_or_iff bit_push_bit_iff bit_ucast_iff)
  next
    case False
    then have "\<not> bit b n" "n div 8 = Suc ((n - 8) div 8)" "n mod 8 = (n - 8) mod 8"
      using bit_imp_le_length [of b n] by (auto simp: le_div_geq le_mod_geq not_less)
    with False Cons.prems Cons.IH [of "n - 8"] show ?thesis
      by (simp add: bit_or_iff bit_push_bit_iff bit_ucast_iff)
  qed
qed simp

lemma bytes64_simps [simp]: "length (bytes64 w) = 8" "i < 8 \<Longrightarrow> bytes64 w ! i = ucast (drop_bit (8 * i) w)"
  by (simp_all add: bytes64_def)

lemma length_bytes32 [simp]: "length (bytes32 w) = 4"
  by (simp add: bytes32_def)

lemma word64_bytes64 [simp]: "word64 (bytes64 w) = w"
proof (rule bit_word_eqI)
  fix n assume "n < LENGTH(64)"
  then have n: "n < 64" "n div 8 < 8" "n mod 8 < 8" by (simp_all add: div_less_iff_less_mult)
  have "8 * (n div 8) + n mod 8 = n" by simp
  with n show "bit (word64 (bytes64 w)) n = bit w n"
    by (simp add: bit_word64 bit_ucast_iff bit_drop_bit_eq del: div_mod_decomp mult_div_mod_eq)
qed

lemma length_words: "length (concat (map bytes64 ws)) = 8 * length ws"
  by (induction ws) simp_all

lemma nth_words: "i < length ws \<Longrightarrow> take 8 (drop (8 * i) (concat (map bytes64 ws))) = bytes64 (ws ! i)"
proof (induction ws arbitrary: i)
  case (Cons w ws)
  then show ?case by (cases i) simp_all
qed simp

lemma length_images [simp]: "length (siginfo_bytes si) = 56" "length (gpr_words m) = 20" "length (context_words f) = 23"
  by (simp_all add: siginfo_bytes_def gpr_words_def context_words_def)

section \<open>Memory\<close>

text \<open>Addresses are taken relative to a base; \<open>X\<close> is the offset of an address.\<close>

lemma unat_minus_off: "unat (z - of_nat off) = (if off \<le> unat z then unat z - off else unat z + 2 ^ 64 - off)" if "off < 2 ^ 64" for z :: u64
proof -
  have o: "unat (of_nat off :: u64) = off" using that by (simp add: unsigned_of_nat take_bit_nat_eq_self)
  show ?thesis using unat_sub_if' [of z "of_nat off"] by (simp add: o)
qed

lemma put_bytes_off:
  assumes "off + length bs \<le> 2 ^ 64" and "off < 2 ^ 64"
  shows "put_bytes (R + of_nat off) bs mem y =
    (if off \<le> unat (y - R) \<and> unat (y - R) < off + length bs then bs ! (unat (y - R) - off) else mem y)"
proof -
  have e: "y - (R + of_nat off) = (y - R) - of_nat off" by (simp add: algebra_simps)
  have "unat (y - (R + of_nat off)) = (if off \<le> unat (y - R) then unat (y - R) - off else unat (y - R) + 2 ^ 64 - off)"
    unfolding e by (rule unat_minus_off [OF assms(2)])
  then show ?thesis using assms by (auto simp: put_bytes_def)
qed

lemma get_bytes_off: "get_bytes (R + of_nat off) n mem = map (\<lambda>i. mem (R + of_nat (off + i))) [0..<n]"
  by (simp add: get_bytes_def add.assoc)

lemma length_get [simp]: "length (get_bytes a n mem) = n"
  by (simp add: get_bytes_def)

lemma get_part: "k + n \<le> N \<Longrightarrow> get_bytes (a + of_nat k) n mem = take n (drop k (get_bytes a N mem))"
  by (rule nth_equalityI) (simp_all add: get_bytes_def add.assoc)

lemma off_plus: "x < 2 ^ 64 \<Longrightarrow> unat (R + of_nat x - R :: u64) = x"
  by (simp add: unsigned_of_nat take_bit_nat_eq_self)

lemma k2u_Some: "memcpy_k2u ok dst bs mem = Some mem' \<Longrightarrow> bs \<noteq> [] \<Longrightarrow> user_range ok dst (length bs) \<and> mem' = put_bytes dst bs mem"
  by (simp add: memcpy_k2u_def split: if_splits)

section \<open>The frame\<close>

text \<open>The slack that aligns the FPU registers, and the lowest address of the frame.\<close>

definition frame_slack :: "u64 \<Rightarrow> nat" where
  "frame_slack rsp = unat ((rsp - 856) AND 0xF)"

definition frame_base :: "u64 \<Rightarrow> u64" where
  "frame_base rsp = rsp - of_nat (1048 + frame_slack rsp)"

lemma frame_slack_less: "frame_slack rsp < 16"
proof -
  have "(rsp - 856) AND 0xF \<le> 0xF" by (rule word_and_le1)
  then show ?thesis unfolding frame_slack_def word_le_nat_alt by simp
qed

lemma and_not_align: "w AND NOT m = w - (w AND m)" for w m :: u64
proof -
  have "w = (w AND NOT m) + (w AND m)"
    by (subst disjunctive_add) (auto simp: bit_simps bit_eq_iff)
  then show ?thesis by (metis add_diff_cancel_right')
qed

lemma frame_addresses:
  assumes "R = frame_base rsp" and "e = frame_slack rsp"
  shows "rsp - 160 - 128 = R + of_nat (760 + e)" "rsp - 160 - 128 - 56 = R + of_nat (704 + e)"
    "(rsp - 160 - 128 - 56 - 512) AND NOT 0xF = R + of_nat 192"
    "((rsp - 160 - 128 - 56 - 512) AND NOT 0xF) - 184 = R + of_nat 8"
    "((rsp - 160 - 128 - 56 - 512) AND NOT 0xF) - 184 - 8 = R + of_nat 0" "rsp = R + of_nat (1048 + e)"
proof -
  have e: "of_nat e = (rsp - 856) AND 0xF" by (simp add: assms(2) frame_slack_def)
  have R: "R = rsp - 1048 - of_nat e" by (simp add: assms frame_base_def)
  have "rsp - 160 - 128 - 56 - 512 = rsp - 856" by simp
  then have f: "(rsp - 160 - 128 - 56 - 512) AND NOT 0xF = rsp - 856 - of_nat e" by (simp only: and_not_align e)
  show "rsp - 160 - 128 = R + of_nat (760 + e)" "rsp - 160 - 128 - 56 = R + of_nat (704 + e)" "rsp = R + of_nat (1048 + e)"
    by (simp_all add: R)
  show "(rsp - 160 - 128 - 56 - 512) AND NOT 0xF = R + of_nat 192"
    "((rsp - 160 - 128 - 56 - 512) AND NOT 0xF) - 184 = R + of_nat 8"
    "((rsp - 160 - 128 - 56 - 512) AND NOT 0xF) - 184 - 8 = R + of_nat 0"
    unfolding f by (simp_all add: R)
qed

text \<open>What \<open>jumpToHandler\<close> has written, by offset from the lowest address of the frame.\<close>

definition frame_byte :: "kaddrs \<Rightarrow> SignalStackFrame \<Rightarrow> nat \<Rightarrow> nat \<Rightarrow> u8 option" where
  "frame_byte K f e X =
     (if X < 8 then Some (bytes64 (k_usup_sigret K) ! X)
      else if X < 192 then Some (concat (map bytes64 (context_words f)) ! (X - 8))
      else if X < 704 then Some (ms_fpuRegs (ss_mstate f) ! (X - 192))
      else if 704 + e \<le> X \<and> X < 760 + e then Some (siginfo_bytes (ss_si f) ! (X - (704 + e)))
      else if 760 + e \<le> X \<and> X < 920 + e then Some (concat (map bytes64 (gpr_words (ss_mstate f))) ! (X - (760 + e)))
      else None)"

lemma jump_frame:
  assumes j: "jumpToHandler K ok fl fs gs f h mem = Some (r, mem')" and len: "length (ms_fpuRegs (ss_mstate f)) = 512"
  defines "R \<equiv> frame_base (ms_rsp (ss_mstate f))" and "e \<equiv> frame_slack (ms_rsp (ss_mstate f))"
  shows "mem' y = (case frame_byte K f e (unat (y - R)) of None \<Rightarrow> mem y | Some b \<Rightarrow> b)"
    and "user_range ok R 8"
    and "r = (initUserRegs fl)\<lparr>r_rip := h, r_rsp := R, r_rdi := ucast (word_of_int (si_signo (ss_si f)) :: u32),
      r_rsi := R + of_nat (704 + e), r_rdx := R + 8, r_rbx := R + 192, r_r12 := R + of_nat (760 + e), r_r13 := ss_sigmask f,
      r_fsbase := fs, r_gsbase := gs\<rparr>"
proof -
  note ad = frame_addresses [OF R_def [THEN meta_eq_to_obj_eq] e_def [THEN meta_eq_to_obj_eq]]
  have e16: "e < 16" unfolding e_def by (rule frame_slack_less)
  let ?gpr = "concat (map bytes64 (gpr_words (ss_mstate f)))" and ?ctx = "concat (map bytes64 (context_words f))"
  have ls: "length ?gpr = 160" "length ?ctx = 184" by (simp_all add: length_words)
  then have ne: "?gpr \<noteq> []" "?ctx \<noteq> []" "siginfo_bytes (ss_si f) \<noteq> []" "ms_fpuRegs (ss_mstate f) \<noteq> []" "bytes64 (k_usup_sigret K) \<noteq> []"
    using len length_images(1) [of "ss_si f"] bytes64_simps(1) [of "k_usup_sigret K"] by (metis length_0_conv zero_neq_numeral)+
  from j obtain m1 m2 m3 m4 where
    m: "memcpy_k2u ok (R + of_nat (760 + e)) ?gpr mem = Some m1"
      "memcpy_k2u ok (R + of_nat (704 + e)) (siginfo_bytes (ss_si f)) m1 = Some m2"
      "memcpy_k2u ok (R + of_nat 192) (ms_fpuRegs (ss_mstate f)) m2 = Some m3"
      "memcpy_k2u ok (R + of_nat 8) ?ctx m3 = Some m4"
      "memcpy_k2u ok (R + of_nat 0) (bytes64 (k_usup_sigret K)) m4 = Some mem'"
    and r: "r = (initUserRegs fl)\<lparr>r_rip := h, r_rsp := R + of_nat 0, r_rdi := ucast (word_of_int (si_signo (ss_si f)) :: u32),
      r_rsi := R + of_nat (704 + e), r_rdx := R + of_nat 8, r_rbx := R + of_nat 192, r_r12 := R + of_nat (760 + e), r_r13 := ss_sigmask f,
      r_fsbase := fs, r_gsbase := gs\<rparr>"
    unfolding jumpToHandler_def Let_def
    unfolding ad(5) unfolding ad(4) unfolding ad(3) unfolding ad(2) unfolding ad(1) bind_eq_Some_conv by blast
  note p1 = k2u_Some [OF m(1) ne(1), THEN conjunct2] and p2 = k2u_Some [OF m(2) ne(3), THEN conjunct2]
    and p3 = k2u_Some [OF m(3) ne(4), THEN conjunct2] and p4 = k2u_Some [OF m(4) ne(2), THEN conjunct2]
    and p5 = k2u_Some [OF m(5) ne(5), THEN conjunct2]
  let ?X = "unat (y - R)"
  have "m1 y = (if 760 + e \<le> ?X \<and> ?X < 920 + e then ?gpr ! (?X - (760 + e)) else mem y)"
    unfolding p1 by (subst put_bytes_off) (use e16 ls in simp_all)
  moreover have "m2 y = (if 704 + e \<le> ?X \<and> ?X < 760 + e then siginfo_bytes (ss_si f) ! (?X - (704 + e)) else m1 y)"
    unfolding p2 by (subst put_bytes_off) (use e16 in simp_all)
  moreover have "m3 y = (if 192 \<le> ?X \<and> ?X < 704 then ms_fpuRegs (ss_mstate f) ! (?X - 192) else m2 y)"
    unfolding p3 by (subst put_bytes_off) (use len in simp_all)
  moreover have "m4 y = (if 8 \<le> ?X \<and> ?X < 192 then ?ctx ! (?X - 8) else m3 y)"
    unfolding p4 by (subst put_bytes_off) (use ls in simp_all)
  moreover have "mem' y = (if ?X < 8 then bytes64 (k_usup_sigret K) ! ?X else m4 y)"
    unfolding p5 by (subst put_bytes_off) simp_all
  ultimately show "mem' y = (case frame_byte K f e ?X of None \<Rightarrow> mem y | Some b \<Rightarrow> b)"
    by (auto simp: frame_byte_def)
  show "user_range ok R 8" using k2u_Some [OF m(5) ne(5)] by simp
  show "r = (initUserRegs fl)\<lparr>r_rip := h, r_rsp := R, r_rdi := ucast (word_of_int (si_signo (ss_si f)) :: u32),
      r_rsi := R + of_nat (704 + e), r_rdx := R + 8, r_rbx := R + 192, r_r12 := R + of_nat (760 + e), r_r13 := ss_sigmask f,
      r_fsbase := fs, r_gsbase := gs\<rparr>"
    using r by simp
qed

lemma jump_reads:
  assumes j: "jumpToHandler K ok fl fs gs f h mem = Some (r, mem')" and len: "length (ms_fpuRegs (ss_mstate f)) = 512"
  shows "get_bytes (r_rbx r) 512 mem' = ms_fpuRegs (ss_mstate f)"
    and "get_bytes (r_r12 r) 160 mem' = concat (map bytes64 (gpr_words (ss_mstate f)))"
    and "get_bytes (r_rsp r) 8 mem' = bytes64 (k_usup_sigret K)"
    and "get_bytes (r_rsi r) 56 mem' = siginfo_bytes (ss_si f)"
    and "get_bytes (r_rdx r) 184 mem' = concat (map bytes64 (context_words f))"
proof -
  let ?R = "frame_base (ms_rsp (ss_mstate f))" and ?e = "frame_slack (ms_rsp (ss_mstate f))"
  note jf = jump_frame [OF j len]
  have e: "?e < 16" by (rule frame_slack_less)
  have ls: "length (concat (map bytes64 (gpr_words (ss_mstate f)))) = 160" "length (concat (map bytes64 (context_words f))) = 184"
    by (simp_all add: length_words)
  have at: "mem' (?R + of_nat x) = (case frame_byte K f ?e x of None \<Rightarrow> mem (?R + of_nat x) | Some b \<Rightarrow> b)" if "x < 2 ^ 64" for x
    using jf(1) [of "?R + of_nat x"] off_plus [OF that, of ?R] by simp
  have ra: "r_rbx r = ?R + of_nat 192" "r_r12 r = ?R + of_nat (760 + ?e)" "r_rsp r = ?R + of_nat 0" "r_rsi r = ?R + of_nat (704 + ?e)"
    "r_rdx r = ?R + of_nat 8" by (simp_all add: jf(3))
  show "get_bytes (r_rbx r) 512 mem' = ms_fpuRegs (ss_mstate f)"
    unfolding ra(1) get_bytes_off by (rule nth_equalityI) (use len in \<open>simp_all add: at frame_byte_def del: of_nat_add\<close>)
  show "get_bytes (r_r12 r) 160 mem' = concat (map bytes64 (gpr_words (ss_mstate f)))"
    unfolding ra(2) get_bytes_off by (rule nth_equalityI) (use e ls in \<open>simp_all add: at frame_byte_def del: of_nat_add\<close>)
  show "get_bytes (r_rsp r) 8 mem' = bytes64 (k_usup_sigret K)"
    unfolding ra(3) get_bytes_off by (rule nth_equalityI) (simp_all add: at frame_byte_def del: of_nat_add)
  show "get_bytes (r_rsi r) 56 mem' = siginfo_bytes (ss_si f)"
    unfolding ra(4) get_bytes_off by (rule nth_equalityI) (use e in \<open>simp_all add: at frame_byte_def del: of_nat_add\<close>)
  show "get_bytes (r_rdx r) 184 mem' = concat (map bytes64 (context_words f))"
    unfolding ra(5) get_bytes_off by (rule nth_equalityI) (use ls in \<open>simp_all add: at frame_byte_def del: of_nat_add\<close>)
qed

section \<open>The round trip\<close>

text \<open>The disposition of the signal is a handler.\<close>

definition handled :: "sigdisps \<Rightarrow> sthread \<Rightarrow> siginfo \<Rightarrow> u64 \<Rightarrow> bool" where
  "handled disps t si h \<longleftrightarrow> si_signo si \<notin> {SIGTHKILL, SIGKILL, SIGTHSUSP} \<and> \<not> has (st_debugFlags t) DBG_SIGNALS \<and>
     (\<exists>d sd. st_sigdisp t = Some d \<and> disps d = Some sd \<and>
        (let action = sd_actions sd ! nat (si_signo si)
         in if has (sa_flags action) SA_SIGINFO then h = sa_sigaction action
            else sa_handler action \<notin> {SIG_IGN, SIG_CORE, SIG_DFL} \<and> h = sa_handler action))"

definition gp_regs :: "Regs \<Rightarrow> u64 list" where
  "gp_regs r = [r_rip r, r_rsp r, r_rdi r, r_rsi r, r_rbp r, r_rbx r, r_rdx r, r_rcx r, r_rax r, r_r8 r, r_r9 r, r_r10 r, r_r11 r,
     r_r12 r, r_r13 r, r_r14 r, r_r15 r]"

lemma deliver_handled:
  assumes "handled disps t si h" and "deliver_signal K fl disps si t = Ok t1"
  shows "st_kstack t1 = SigFrame (signal_frame K t si) \<and> r_rsi (st_regs t1) = h \<and> r_rip (st_regs t1) = k_jumpToHandler K \<and>
    r_rflags (st_regs t1) = r_rflags (st_regs t) \<and> r_cs (st_regs t1) = 8"
  using assms by (auto simp: handled_def deliver_signal_def Let_def split: if_splits)

lemma sigret_push:
  assumes "n + off < 2 ^ 64" and "8 \<le> off"
  shows "get_bytes (R + of_nat off) n (put_bytes R (bytes64 w) mem) = get_bytes (R + of_nat off) n mem"
proof -
  have "put_bytes R (bytes64 w) mem (R + of_nat (off + i)) = mem (R + of_nat (off + i))" if "i < n" for i
    using put_bytes_off [of 0 "bytes64 w" R mem "R + of_nat (off + i)"] off_plus [of "off + i" R] assms that by simp
  then show ?thesis by (simp add: get_bytes_off del: of_nat_add)
qed

lemma read_gpr:
  assumes "get_bytes a 160 mem = concat (map bytes64 ws)" and "length ws = 20" and "i < 20"
  shows "get64 (a + of_nat (8 * i)) mem = ws ! i"
  using get_part [of "8 * i" 8 160 a mem] assms nth_words [of i ws] by (simp add: get64_def)

text \<open>
  C25: a signal handler is transparent. Whatever the handler does, if it returns with the callee-saved registers and the
  frame as they were, \<open>usup_sigret\<close> gives the thread back the general registers, instruction and stack pointer, the
  flags that user code may change, the FPU registers and the signal mask it had when the signal was dispatched. The
  handler is entered at its address and returns to \<open>usup_sigret\<close>.
\<close>

theorem signal_roundtrip:
  assumes h: "handled disps t si h" and len: "length (st_fpuRegs t) = 512"
    and d: "deliver_signal K fl disps si t = Ok t1" "st_kstack t1 = SigFrame f"
    and j: "jumpToHandler K ok fl' fs gs f (r_rsi (st_regs t1)) mem = Some (r1, mem1)"
    and kept: "r_rsp r2 = r_rsp r1 + 8" "r_rbx r2 = r_rbx r1" "r_r12 r2 = r_r12 r1" "r_r13 r2 = r_r13 r1"
      "get_bytes (r_rbx r1) 512 mem2 = get_bytes (r_rbx r1) 512 mem1" "get_bytes (r_r12 r1) 160 mem2 = get_bytes (r_r12 r1) 160 mem1"
    and u: "usup_sigret ok pf r2 mem2 m2 = (r3, fpu, m3)"
  shows "r_rip r1 = h \<and> get64 (r_rsp r1) mem1 = k_usup_sigret K \<and>
    gp_regs r3 = gp_regs (st_regs t) \<and> r_rflags r3 AND pf = r_rflags (st_regs t) AND pf \<and> fpu = st_fpuRegs t \<and> m3 = st_sigmask t"
proof -
  note dh = deliver_handled [OF h d(1)]
  have f: "f = signal_frame K t si" using dh d(2) by simp
  let ?ms = "ss_mstate f"
  let ?R = "frame_base (ms_rsp ?ms)" and ?e = "frame_slack (ms_rsp ?ms)"
  have len': "length (ms_fpuRegs ?ms) = 512" using len by (simp add: f signal_frame_def Let_def)
  note jf = jump_frame [OF j len'] and jr = jump_reads [OF j len']
  have e: "?e < 16" by (rule frame_slack_less)
  have push: "r_rsp r2 - 8 = ?R" using kept(1) by (simp add: jf(3))
  let ?mem = "put_bytes ?R (bytes64 (r_r13 r2)) mem2"
  have gpr: "get_bytes (r_r12 r2) 160 ?mem = concat (map bytes64 (gpr_words ?ms))"
    using sigret_push [of 160 "760 + ?e" ?R "r_r13 r2" mem2] e kept(3,6) jr(2) by (simp add: jf(3))
  have fp: "get_bytes (r_rbx r2) 512 ?mem = ms_fpuRegs ?ms"
    using sigret_push [of 512 192 ?R "r_r13 r2" mem2] kept(2,5) jr(1) by (simp add: jf(3))
  have "get_bytes ?R 8 ?mem = bytes64 (r_r13 r2)"
    using put_bytes_off [of 0 "bytes64 (r_r13 r2)" ?R mem2] off_plus [of _ ?R]
    by (intro nth_equalityI) (simp_all add: get_bytes_def)
  then have mask: "memcpy_u2k ok ?R 8 ?mem = Some (bytes64 (ss_sigmask f))"
    using jf(2) kept(4) by (simp add: memcpy_u2k_def jf(3))
  have w: "get64 (r_r12 r2 + 8 * of_nat i) ?mem = gpr_words ?ms ! i" if "i < 20" for i
    using read_gpr [OF gpr _ that] by simp
  note w = w [of 0] w [of 1] w [of 2] w [of 3] w [of 4] w [of 5] w [of 6] w [of 7] w [of 8] w [of 9] w [of 10] w [of 11] w [of 12]
    w [of 13] w [of 14] w [of 15] w [of 16]
  have sp: "ms_rsp ?ms = r_r12 r2 + 288" using frame_addresses(1) [OF refl refl, of "ms_rsp ?ms"] kept(3) by (simp add: jf(3) algebra_simps)
  from u have r3: "m3 = ss_sigmask f" "fpu = ms_fpuRegs ?ms" "gp_regs r3 = [ms_rip ?ms, ms_rsp ?ms, ms_rdi ?ms, ms_rsi ?ms, ms_rbp ?ms, ms_rbx ?ms,
      ms_rdx ?ms, ms_rcx ?ms, ms_rax ?ms, ms_r8 ?ms, ms_r9 ?ms, ms_r10 ?ms, ms_r11 ?ms, ms_r12 ?ms, ms_r13 ?ms, ms_r14 ?ms, ms_r15 ?ms]"
      "r_rflags r3 = (r_rflags r2 AND NOT pf) OR (ms_rflags ?ms AND pf)"
    using w by (auto simp: usup_sigret_def Let_def push mask fp sys_sigprocmask_def gp_regs_def gpr_words_def sp [symmetric] add.assoc)
  have "(x AND NOT pf OR y AND pf) AND pf = y AND pf" for x y :: u64 by (auto simp: bit_eq_iff bit_simps)
  then have "r_rflags r3 AND pf = ms_rflags ?ms AND pf" by (simp add: r3(4))
  moreover have "gp_regs r3 = gp_regs (st_regs t)" unfolding r3(3) by (simp add: f signal_frame_def Let_def gp_regs_def)
  moreover have "get64 (r_rsp r1) mem1 = k_usup_sigret K" by (simp add: get64_def jr(3))
  ultimately show ?thesis using dh by (simp add: r3 f signal_frame_def Let_def jf(3))
qed

lemma unat_low_nibble: "unat (w AND 0xF) = unat w mod 16" for w :: u64
proof -
  have "w AND 0xF = take_bit 4 w" by (simp add: take_bit_eq_mask mask_eq_exp_minus_1)
  also have "\<dots> = w mod 16" by (simp add: take_bit_eq_mod)
  finally show ?thesis by (simp add: unat_mod)
qed

text \<open>The frame lies below the red zone of the code that was interrupted: no byte from 128 below the stack pointer
  upwards is written, nor any other outside the frame. The handler finds its signal and the context through its
  arguments. It is entered with a stack pointer that is a multiple of 16 where the calling convention has a
  multiple of 16 plus 8.
\<close>

theorem handler_entry:
  assumes j: "jumpToHandler K ok fl fs gs f h mem = Some (r, mem')" and len: "length (ms_fpuRegs (ss_mstate f)) = 512"
    and sp: "ms_rsp (ss_mstate f) = rsp"
  shows "(\<forall>y. unat (rsp - 128 - r_rsp r) \<le> unat (y - r_rsp r) \<longrightarrow> mem' y = mem y) \<and>
    920 \<le> unat (rsp - 128 - r_rsp r) \<and> unat (rsp - 128 - r_rsp r) < 936 \<and>
    get_bytes (r_rsi r) 56 mem' = siginfo_bytes (ss_si f) \<and>
    get_bytes (r_rdx r) 184 mem' = concat (map bytes64 (context_words f)) \<and> r_rsp r AND 0xF = 0"
proof -
  let ?R = "frame_base rsp" and ?e = "frame_slack rsp"
  note jf = jump_frame [OF j len, unfolded sp]
  note ad = frame_addresses [OF refl refl, of rsp]
  have e: "?e < 16" by (rule frame_slack_less)
  have R: "r_rsp r = ?R" by (simp add: jf(3))
  have "rsp - 128 - ?R = of_nat (920 + ?e)" using ad(6) by (simp add: algebra_simps)
  then have un: "unat (rsp - 128 - ?R) = 920 + ?e" using e by (simp add: unsigned_of_nat take_bit_nat_eq_self del: of_nat_add)
  have out: "mem' y = mem y" if "920 + ?e \<le> unat (y - ?R)" for y
    using jf(1) [of y] that by (simp add: frame_byte_def)
  have "(?R + of_nat 192) AND 0xF = 0" unfolding ad(3) [symmetric] by (simp add: and.assoc)
  moreover have "(?R + 192) AND 0xF = (?R AND 0xF)"
  proof (rule word_unat_eq_iff [THEN iffD2])
    have "unat (?R + 192) mod 16 = (unat ?R + 192) mod 2 ^ 64 mod 16" by (simp add: unat_word_ariths)
    also have "\<dots> = (unat ?R + 16 * 12) mod 16" by (simp add: mod_mod_cancel)
    also have "\<dots> = unat ?R mod 16" by (rule mod_mult_self2)
    finally show "unat ((?R + 192) AND 0xF) = unat (?R AND 0xF)" by (simp only: unat_low_nibble)
  qed
  ultimately have "?R AND 0xF = 0" by simp
  with out un e show ?thesis unfolding R using jump_reads(4,5) [OF j len] by auto
qed

section \<open>A signal that is handled\<close>

definition demo_regs :: Regs where
  "demo_regs = (initUserRegs 2)\<lparr>r_rip := 0x201000, r_rsp := 0x400008, r_rbx := 7\<rparr>"

definition demo_siginfo :: "int \<Rightarrow> siginfo" where
  "demo_siginfo n = \<lparr>si_signo = n, si_code = 0, si_errno = 0, si_pid = 3, si_uid = 0, si_addr = 0, si_status = 0, si_pad = 0,
     si_band = 0, si_value = 0\<rparr>"

definition demo_thread :: sthread where
  "demo_thread = \<lparr>st_thid = 5, st_creds = Some \<lparr>cr_pid = 4, cr_ppid = 1, cr_pgid = 4, cr_euid = 1000, cr_ruid = 1000\<rparr>, st_flags = 0,
     st_regs = demo_regs, st_fpuRegs = replicate 512 0, st_stack = 0x9000, st_stackSize = 0x1000, st_kstack = Unused,
     st_sigdisp = Some 1, st_pendingSet = 0, st_pendingSigs = replicate 64 (demo_siginfo 0), st_sigmask = 0, st_wakeCounter = 0,
     st_queued = True, st_alarmTime = 0, st_alarmTimer = 0, st_debugFlags = 0\<rparr>"

text \<open>Signal 2 has a handler.\<close>

definition demo_disps :: sigdisps where
  "demo_disps = (\<lambda>_. None)(1 \<mapsto> \<lparr>sd_refcount = 1, sd_actions =
     (replicate 39 \<lparr>sa_handler = SIG_DFL, sa_mask = 0, sa_flags = 0, sa_sigaction = 0\<rparr>)
       [2 := \<lparr>sa_handler = 0x205000, sa_mask = 4, sa_flags = 0, sa_sigaction = 0\<rparr>]\<rparr>)"

definition demo_kaddrs :: kaddrs where
  "demo_kaddrs = \<lparr>k_threadExit = 0x11000, k_processExit = 0x12000, k_suspend = 0x13000, k_coredump = 0x14000, k_jumpToHandler = 0x15000,
     k_usup_sigret = 0xFFFF808000003060\<rparr>"

lemma demo_handled: "handled demo_disps demo_thread (demo_siginfo 2) 0x205000"
  by (simp add: handled_def demo_thread_def demo_disps_def demo_siginfo_def has_def)

lemma demo_deliver:
  obtains t1 where "deliver_signal demo_kaddrs 2 demo_disps (demo_siginfo 2) demo_thread = Ok t1" and "r_rsi (st_regs t1) = 0x205000"
    and "st_kstack t1 = SigFrame (signal_frame demo_kaddrs demo_thread (demo_siginfo 2))"
proof -
  obtain t1 where d: "deliver_signal demo_kaddrs 2 demo_disps (demo_siginfo 2) demo_thread = Ok t1"
    by (simp add: deliver_signal_def demo_siginfo_def demo_thread_def demo_disps_def has_def)
  from deliver_handled [OF demo_handled d] that [OF d] show thesis by simp
qed

lemma k2u_all: "0x200000 \<le> dst \<Longrightarrow> dst < 0x600000 \<Longrightarrow> 0 < length bs \<Longrightarrow> length bs < 4096 \<Longrightarrow>
    memcpy_k2u (\<lambda>_. True) dst bs mem = Some (put_bytes dst bs mem)"
proof -
  assume d: "0x200000 \<le> dst" "dst < 0x600000" and b: "0 < length bs" "length bs < 4096"
  have l: "unat (of_nat (length bs) :: u64) = length bs" using b(2) by (simp add: unsigned_of_nat take_bit_nat_eq_self)
  have "unat dst + length bs < 2 ^ 64" using d b(2) by (simp add: word_less_nat_alt)
  then have "unat (dst + of_nat (length bs)) = unat dst + length bs" using l by (simp add: unat_add_lem [THEN iffD1])
  with d b show ?thesis by (simp add: memcpy_k2u_def user_range_def Let_def word_le_nat_alt word_less_nat_alt)
qed

lemma demo_jump:
  fixes mem :: umem
  obtains r1 mem1 where "jumpToHandler demo_kaddrs (\<lambda>_. True) 2 0 0 (signal_frame demo_kaddrs demo_thread (demo_siginfo 2)) 0x205000 mem =
    Some (r1, mem1)"
  by (rule that) (simp add: jumpToHandler_def signal_frame_def demo_thread_def demo_regs_def k2u_all length_words Let_def del: length_concat length_0_conv length_greater_0_conv)

theorem signal_roundtrip_witness:
  "\<exists>t1 f r1 mem1 r3 fpu. deliver_signal demo_kaddrs 2 demo_disps (demo_siginfo 2) demo_thread = Ok t1 \<and> st_kstack t1 = SigFrame f \<and>
     jumpToHandler demo_kaddrs (\<lambda>_. True) 2 0 0 f (r_rsi (st_regs t1)) (\<lambda>_. 0) = Some (r1, mem1) \<and>
     usup_sigret (\<lambda>_. True) 0xDD5 (r1\<lparr>r_rsp := r_rsp r1 + 8, r_rip := 0xFFFF808000003060, r_rax := 77\<rparr>) mem1 12 = (r3, fpu, 0) \<and>
     r_rip r1 = 0x205000 \<and> r_rip r3 = 0x201000 \<and> r_rsp r3 = 0x400008 \<and> r_rax r3 = 0"
proof -
  obtain t1 where d: "deliver_signal demo_kaddrs 2 demo_disps (demo_siginfo 2) demo_thread = Ok t1" "r_rsi (st_regs t1) = 0x205000"
    "st_kstack t1 = SigFrame (signal_frame demo_kaddrs demo_thread (demo_siginfo 2))" (is "_ = SigFrame ?f")
    by (rule demo_deliver)
  obtain r1 mem1 where j: "jumpToHandler demo_kaddrs (\<lambda>_. True) 2 0 0 ?f (r_rsi (st_regs t1)) (\<lambda>_. 0) = Some (r1, mem1)"
    unfolding d(2) by (rule demo_jump)
  let ?r2 = "r1\<lparr>r_rsp := r_rsp r1 + 8, r_rip := 0xFFFF808000003060, r_rax := 77\<rparr>"
  obtain r3 fpu m3 where u: "usup_sigret (\<lambda>_. True) 0xDD5 ?r2 mem1 12 = (r3, fpu, m3)" by (metis prod_cases3)
  have "length (st_fpuRegs demo_thread) = 512" by (simp add: demo_thread_def)
  from signal_roundtrip [OF demo_handled this d(1,3) j _ _ _ _ refl refl u]
  have "r_rip r1 = 0x205000" "gp_regs r3 = gp_regs demo_regs" "m3 = 0" by (simp_all add: demo_thread_def)
  with d(1,3) j u show ?thesis by (auto simp: gp_regs_def demo_regs_def initUserRegs_def)
qed

theorem handler_entry_witness:
  "\<exists>r mem'. jumpToHandler demo_kaddrs (\<lambda>_. True) 2 0 0 (signal_frame demo_kaddrs demo_thread (demo_siginfo 2)) 0x205000 (\<lambda>_. 9) = Some (r, mem') \<and>
     mem' (0x400008 - 128) = 9 \<and> r_rsp r AND 0xF = 0"
proof -
  let ?f = "signal_frame demo_kaddrs demo_thread (demo_siginfo 2)"
  obtain r mem' where j: "jumpToHandler demo_kaddrs (\<lambda>_. True) 2 0 0 ?f 0x205000 (\<lambda>_. 9) = Some (r, mem')"
    by (rule demo_jump)
  have "length (ms_fpuRegs (ss_mstate ?f)) = 512" "ms_rsp (ss_mstate ?f) = 0x400008"
    by (simp_all add: signal_frame_def demo_thread_def demo_regs_def Let_def)
  from handler_entry [OF j this] j show ?thesis by auto
qed

end
