(* ===== verification/Gx_SigProps.thy ===== *)
theory Gx_SigProps
  imports Gx_SigFrame "HOL-Library.Multiset"
begin

text \<open>
  The pending signals of a thread as a multiset (\<open>pend\<close>): what sending and dispatching add and remove, which signals
  cannot be stopped, and where the code lets a signal, a stopped thread or a privilege slip.
\<close>

section \<open>Pending signals\<close>

definition slots :: "sthread \<Rightarrow> nat set" where
  "slots t = {i. i < 64 \<and> bit (st_pendingSet t) i}"

definition pend :: "sthread \<Rightarrow> siginfo multiset" where
  "pend t = image_mset ((!) (st_pendingSigs t)) (mset_set (slots t))"

lemma finite_slots [simp]: "finite (slots t)"
  by (simp add: slots_def)

lemma has_bit: "has w (push_bit i 1) \<longleftrightarrow> bit w i" "has w (2 ^ i) \<longleftrightarrow> bit w i" for w :: u64
  by (simp_all add: has_def and_exp_eq_0_iff_not_bit)

lemma size_pend: "size (pend t) = card (slots t)"
  by (simp add: pend_def)

lemma pend_cong: "st_pendingSet t = st_pendingSet u \<Longrightarrow> st_pendingSigs t = st_pendingSigs u \<Longrightarrow> pend t = pend u"
  by (simp add: pend_def slots_def)

lemma full_slots: "st_pendingSet t = 0xFFFFFFFFFFFFFFFF \<longleftrightarrow> size (pend t) = 64"
proof
  assume "st_pendingSet t = 0xFFFFFFFFFFFFFFFF"
  then have "st_pendingSet t = - 1" by simp
  then have "slots t = {..<64}" by (auto simp: slots_def bit_minus_1_iff)
  then show "size (pend t) = 64" by (simp add: size_pend)
next
  assume "size (pend t) = 64"
  then have "slots t = {..<64}" by (intro card_subset_eq) (auto simp: size_pend slots_def)
  then have "st_pendingSet t = - 1" by (intro bit_word_eqI) (auto simp: slots_def set_eq_iff bit_minus_1_iff)
  then show "st_pendingSet t = 0xFFFFFFFFFFFFFFFF" by simp
qed

lemma put_pending_pend:
  assumes "put_pending si t = Some t'" and "length (st_pendingSigs t) = 64"
  shows "pend t' = pend t + {#si#}" and "\<exists>ps sigs. t' = t\<lparr>st_pendingSet := ps, st_pendingSigs := sigs\<rparr> \<and> length sigs = 64"
proof -
  from assms(1) obtain i where i: "i < 64" "\<not> bit (st_pendingSet t) i"
    and t': "t' = t\<lparr>st_pendingSet := st_pendingSet t OR push_bit i 1, st_pendingSigs := (st_pendingSigs t)[i := si]\<rparr>"
    by (auto simp: put_pending_def find_Some_iff has_bit split: option.splits)
  have s: "slots t' = insert i (slots t)" "i \<notin> slots t" using i by (auto simp: slots_def t' bit_simps)
  have "image_mset ((!) ((st_pendingSigs t)[i := si])) (mset_set (slots t)) = pend t"
    unfolding pend_def by (rule image_mset_cong) (use s in \<open>metis finite_set_mset_mset_set finite_slots nth_list_update_neq\<close>)
  moreover have "pend t' = image_mset ((!) ((st_pendingSigs t)[i := si])) (mset_set (insert i (slots t)))"
    unfolding pend_def [of t'] s(1) by (simp add: t')
  ultimately show "pend t' = pend t + {#si#}" using i assms(2) s(2) by simp
  show "\<exists>ps sigs. t' = t\<lparr>st_pendingSet := ps, st_pendingSigs := sigs\<rparr> \<and> length sigs = 64"
    by (rule exI [of _ "st_pendingSet t OR push_bit i 1"], rule exI [of _ "(st_pendingSigs t)[i := si]"]) (simp add: t' assms(2))
qed

lemma put_pending_free: "size (pend t) < 64 \<Longrightarrow> put_pending si t \<noteq> None"
proof
  assume "size (pend t) < 64" and n: "put_pending si t = None"
  then have "slots t \<noteq> {..<64}" by (metis card_lessThan less_irrefl size_pend)
  then obtain i where "i < 64" "\<not> bit (st_pendingSet t) i" by (auto simp: slots_def)
  with n show False by (auto simp: put_pending_def find_None_iff has_bit split: option.splits)
qed

lemma take_slot:
  assumes "i \<in> slots t" and "t' = t\<lparr>st_pendingSet := st_pendingSet t AND NOT (push_bit i 1)\<rparr>"
  shows "pend t = pend t' + {#st_pendingSigs t ! i#}"
proof -
  have "i < 64" using assms(1) by (simp add: slots_def)
  then have s: "slots t = insert i (slots t')" "i \<notin> slots t'" using assms by (auto simp: slots_def bit_simps)
  show ?thesis unfolding pend_def s(1) using s(2) by (simp add: assms(2))
qed

section \<open>Sending\<close>

text \<open>No alarm of the thread is due.\<close>

definition no_alarm :: "u64 \<Rightarrow> sthread \<Rightarrow> bool" where
  "no_alarm now t \<longleftrightarrow> st_alarmTime t = 0 \<or> now < st_alarmTime t"

lemma signalThread_no_alarm: "no_alarm now t \<Longrightarrow> signalThread disps junk now (t, ts) = Ok (wake_thread t, ts)"
  by (subst signalThread.simps) (auto simp: no_alarm_def not_le)

text \<open>The thread ignores the signal, or the sender drops it because it is blocked.\<close>

definition sig_ignored :: "sigdisps \<Rightarrow> sthread \<Rightarrow> int \<Rightarrow> bool" where
  "sig_ignored disps t signo \<longleftrightarrow> signo \<notin> {SIGKILL, SIGTHKILL, SIGSTOP} \<and>
     sa_handler (sd_actions (the (disps (the (st_sigdisp t)))) ! nat signo) = SIG_IGN"

definition sig_dropped :: "u32 \<Rightarrow> sthread \<Rightarrow> int \<Rightarrow> bool" where
  "sig_dropped flags t signo \<longleftrightarrow> signo \<notin> {SIGKILL, SIGTHKILL, SIGSTOP} \<and> has flags SS_NONBLOCKED \<and> has (st_sigmask t) (sigbit signo)"

text \<open>The thread can be picked by the scheduler, or has a wake-up to its credit.\<close>

definition woken :: "sthread \<Rightarrow> sthread \<Rightarrow> bool" where
  "woken t t' \<longleftrightarrow> \<not> has (st_flags t') THREAD_WAITING \<and> \<not> has (st_flags t') THREAD_TRACED \<and>
     (has (st_flags t) (THREAD_WAITING OR THREAD_TRACED) \<longrightarrow> st_queued t') \<and>
     (\<not> has (st_flags t) (THREAD_WAITING OR THREAD_TRACED) \<longrightarrow> st_wakeCounter t' = c_int (st_wakeCounter t + 1))"

definition untrace :: "sthread \<Rightarrow> sthread" where
  "untrace t = (if has (st_flags t) THREAD_TRACED then t\<lparr>st_flags := (st_flags t AND NOT THREAD_TRACED) OR THREAD_WAITING\<rparr> else t)"

lemma bits_32: "bit (32 :: u64) n \<longleftrightarrow> n = 5" "bit (1 :: u64) n \<longleftrightarrow> n = 0"
  "bit (- 33 :: int) n \<longleftrightarrow> n \<noteq> 5" "bit (- 2 :: int) n \<longleftrightarrow> n \<noteq> 0"
proof -
  have e: "(32 :: u64) = 2 ^ 5" by simp
  show "bit (32 :: u64) n \<longleftrightarrow> n = 5" unfolding e bit_exp_iff by auto
  show "bit (1 :: u64) n \<longleftrightarrow> n = 0" by (simp add: bit_1_iff)
  have n: "(- 33 :: int) = NOT (2 ^ 5)" "(- 2 :: int) = NOT 1" by (simp_all add: not_int_def)
  show "bit (- 33 :: int) n \<longleftrightarrow> n \<noteq> 5" "bit (- 2 :: int) n \<longleftrightarrow> n \<noteq> 0"
    unfolding n bit_not_int_iff bit_exp_iff by (auto simp: bit_1_iff)
qed

lemma has_1: "has w 1 \<longleftrightarrow> bit w 0" and has_32: "has w 32 \<longleftrightarrow> bit w 5" and has_4: "has w 4 \<longleftrightarrow> bit w 2"
  and has_33: "has w 33 \<longleftrightarrow> bit w 0 \<or> bit w 5" for w :: u64
proof -
  show 1: "has w 1 \<longleftrightarrow> bit w 0" using has_bit(2) [of w 0] by simp
  show 5: "has w 32 \<longleftrightarrow> bit w 5" using has_bit(2) [of w 5] by simp
  show "has w 4 \<longleftrightarrow> bit w 2" using has_bit(2) [of w 2] by simp
  have "w AND 33 = (w AND 1) OR (w AND 32)" by (simp flip: bit.conj_disj_distrib)
  then have "has w 33 \<longleftrightarrow> has w 1 \<or> has w 32" unfolding has_def by (simp only: or_eq_0_iff) blast
  with 1 5 show "has w 33 \<longleftrightarrow> bit w 0 \<or> bit w 5" by simp
qed

lemma untrace_flags: "bit (st_flags (untrace t)) n = (if n = 5 then False else if n = 0 then bit (st_flags t) 0 \<or> bit (st_flags t) 5
    else bit (st_flags t) n)"
  using bit_imp_le_length [of "st_flags t" n] by (auto simp: untrace_def has_32 bit_and_iff bit_or_iff bits_32)

lemma wake_woken: "woken t (wake_thread (untrace t'))" if "st_flags t' = st_flags t" "st_wakeCounter t' = st_wakeCounter t"
proof -
  have m: "(1 OR 32 :: u64) = 33" by simp
  have w: "st_wakeCounter (untrace t') = st_wakeCounter t" using that by (simp add: untrace_def)
  show ?thesis
    unfolding woken_def m has_1 has_32 has_33
    by (simp add: wake_thread_def has_1 untrace_flags bit_and_iff bits_32 that w)
qed

lemma untrace_fields: "st_pendingSet (untrace t) = st_pendingSet t" "st_pendingSigs (untrace t) = st_pendingSigs t" "st_sigmask (untrace t) = st_sigmask t"
  "st_sigdisp (untrace t) = st_sigdisp t" "st_regs (untrace t) = st_regs t" "st_alarmTime (untrace t) = st_alarmTime t"
  "st_wakeCounter (untrace t) = st_wakeCounter t" "st_debugFlags (untrace t) = st_debugFlags t"
  by (simp_all add: untrace_def)

lemma untrace_queued: "st_queued (untrace t) = st_queued t"
  by (simp add: untrace_def)

lemma wake_fields: "st_pendingSet (wake_thread t) = st_pendingSet t" "st_pendingSigs (wake_thread t) = st_pendingSigs t"
  "st_sigmask (wake_thread t) = st_sigmask t" "st_sigdisp (wake_thread t) = st_sigdisp t" "st_regs (wake_thread t) = st_regs t"
  "st_debugFlags (wake_thread t) = st_debugFlags t"
  by (simp_all add: wake_thread_def)

lemma untrace_dead: "has (st_flags (untrace t)) THREAD_TERMINATED \<longleftrightarrow> has (st_flags t) THREAD_TERMINATED"
  by (simp add: has_4 untrace_flags)

lemma no_alarm_untrace: "no_alarm now (untrace t) \<longleftrightarrow> no_alarm now t"
  by (simp add: no_alarm_def untrace_fields)

text \<open>The code of \<open>sendSignalEx\<close> for a thread without a due alarm.\<close>

lemma sendSignalEx_no_alarm:
  assumes "no_alarm now t"
  shows "sendSignalEx disps junk now si flags (t, ts) =
    (if si_signo si < 0 \<or> SIG_NUM \<le> si_signo si then Panic
     else if has (st_flags t) THREAD_TERMINATED then Ok (-1, untrace t, ts)
     else if si_signo si = SIGCONT then Ok (-1, wake_thread (untrace t), ts)
     else if si_signo si = SIGTHWAKE then Ok (0, wake_thread (untrace t), ts)
     else if si_signo si \<notin> {SIGKILL, SIGTHKILL, SIGSTOP} \<and> (case st_sigdisp t of None \<Rightarrow> True | Some d \<Rightarrow> disps d = None) then Panic
     else if sig_ignored disps t (si_signo si) then Ok (-1, wake_thread (untrace t), ts)
     else if sig_dropped flags t (si_signo si) then Ok (-1, untrace t, ts)
     else if st_pendingSet t = 0xFFFFFFFFFFFFFFFF then Ok (-1, wake_thread (untrace t), ts)
     else (case put_pending si (untrace t) of None \<Rightarrow> Panic | Some t' \<Rightarrow> Ok (0, wake_thread t', ts)))"
proof -
  have n: "no_alarm now (untrace t)" using assms by (simp add: no_alarm_untrace)
  have w: "signalThread disps junk now (untrace t, ts) = Ok (wake_thread (untrace t), ts)" by (rule signalThread_no_alarm [OF n])
  have w': "signalThread disps junk now (t', ts) = Ok (wake_thread t', ts)" if "put_pending si (untrace t) = Some t'" for t'
    using n put_pending_alarm [OF that] by (intro signalThread_no_alarm) (simp add: no_alarm_def)
  show ?thesis
    by (subst sendSignalEx.simps, fold untrace_def)
      (auto simp: Let_def untrace_dead untrace_fields w w' sig_ignored_def sig_dropped_def split: option.splits)
qed

text \<open>What \<open>sendSignalEx\<close> does when no alarm is due. Exactly the signal is added to the pending ones, unless the thread
  has terminated, the signal only wakes, it is ignored or dropped, or 64 are pending; the result tells the sender.
  The thread can run afterwards unless it has terminated or the signal was dropped.
\<close>

theorem sendSignalEx_queues:
  assumes s: "sendSignalEx disps junk now si flags (t, ts) = Ok (r, t', ts')" and len: "length (st_pendingSigs t) = 64"
    and alarm: "no_alarm now t"
  defines "dead \<equiv> has (st_flags t) THREAD_TERMINATED" and "wakes \<equiv> si_signo si \<in> {SIGCONT, SIGTHWAKE}"
  defines "queued \<equiv> \<not> dead \<and> \<not> wakes \<and> \<not> sig_ignored disps t (si_signo si) \<and> \<not> sig_dropped flags t (si_signo si) \<and> size (pend t) < 64"
  shows "pend t' = pend t + (if queued then {#si#} else {#}) \<and>
    r = (if queued \<or> \<not> dead \<and> si_signo si = SIGTHWAKE then 0 else -1) \<and>
    (if dead \<or> \<not> wakes \<and> \<not> sig_ignored disps t (si_signo si) \<and> sig_dropped flags t (si_signo si) then t' = untrace t else woken t t') \<and>
    st_sigmask t' = st_sigmask t \<and> st_sigdisp t' = st_sigdisp t \<and> st_regs t' = st_regs t \<and> length (st_pendingSigs t') = 64"
proof -
  let ?u = "untrace t"
  have pu: "pend ?u = pend t" by (rule pend_cong) (simp_all add: untrace_fields)
  have pw: "pend (wake_thread x) = pend x" for x by (rule pend_cong) (simp_all add: wake_fields)
  have wk: "woken t (wake_thread ?u)" by (rule wake_woken) simp_all
  have full: "st_pendingSet t = 0xFFFFFFFFFFFFFFFF \<longleftrightarrow> \<not> size (pend t) < 64"
  proof -
    have "size (pend t) \<le> card {..<64 :: nat}" unfolding size_pend by (rule card_mono) (auto simp: slots_def)
    then show ?thesis using full_slots [of t] by auto
  qed
  show ?thesis
  proof (cases queued)
    case True
    with s full obtain v where v: "put_pending si ?u = Some v" "r = 0" "t' = wake_thread v"
      unfolding sendSignalEx_no_alarm [OF alarm]
      by (auto simp: queued_def dead_def wakes_def split: if_splits option.splits)
    note pp = put_pending_pend [OF v(1), unfolded untrace_fields, OF len]
    from pp(2) obtain ps sigs where vv: "v = ?u\<lparr>st_pendingSet := ps, st_pendingSigs := sigs\<rparr>" "length sigs = 64" by blast
    have "woken t (wake_thread v)"
    proof -
      have "v = untrace (t\<lparr>st_pendingSet := ps, st_pendingSigs := sigs\<rparr>)" by (simp add: vv untrace_def)
      then show ?thesis using wake_woken [of "t\<lparr>st_pendingSet := ps, st_pendingSigs := sigs\<rparr>" t] by simp
    qed
    with True pp(1) v vv show ?thesis
      by (simp add: pw pu wake_fields untrace_fields) (auto simp: queued_def)
  next
    case False
    then show ?thesis using s full wk len
      unfolding sendSignalEx_no_alarm [OF alarm]
      by (auto simp: queued_def dead_def wakes_def pu pw wake_fields untrace_fields split: if_splits option.splits)
  qed
qed

text \<open>Signal 2 to a thread that waits.\<close>

theorem sendSignalEx_queues_witness:
  "\<exists>t' ts'. sendSignalEx demo_disps (0, 0) 7 (demo_siginfo 2) 0 (demo_thread\<lparr>st_flags := THREAD_WAITING\<rparr>, timers0) = Ok (0, t', ts') \<and>
     pend t' = {#demo_siginfo 2#} \<and> st_queued t'"
proof -
  let ?t = "demo_thread\<lparr>st_flags := THREAD_WAITING\<rparr>"
  have al: "no_alarm 7 ?t" "length (st_pendingSigs ?t) = 64" by (simp_all add: no_alarm_def demo_thread_def)
  have pd: "pend ?t = {#}" by (simp add: pend_def slots_def demo_thread_def)
  obtain v where "put_pending (demo_siginfo 2) (untrace ?t) = Some v"
    using put_pending_free [of "untrace ?t"] pd by (auto simp: pend_cong [of "untrace ?t" ?t] untrace_fields)
  then obtain t' ts' where m: "sendSignalEx demo_disps (0, 0) 7 (demo_siginfo 2) 0 (?t, timers0) = Ok (0, t', ts')"
    unfolding sendSignalEx_no_alarm [OF al(1)]
    by (simp add: demo_siginfo_def demo_disps_def demo_thread_def sig_ignored_def sig_dropped_def has_def)
  from sendSignalEx_queues [OF m al(2,1)] pd
  have "pend t' = {#demo_siginfo 2#}" "woken ?t t'"
    by (auto simp: demo_siginfo_def demo_disps_def demo_thread_def sig_ignored_def sig_dropped_def has_def)
  with m show ?thesis by (auto simp: woken_def has_def demo_thread_def)
qed

section \<open>Dispatching\<close>

lemma ready_slot: "i < 64 \<Longrightarrow> ready_at t i \<Longrightarrow> i \<in> slots t"
  by (simp add: ready_at_def slots_def has_bit)

lemma deliver_keeps:
  "deliver_signal K fl disps si t = Ok t' \<Longrightarrow> st_pendingSet t' = st_pendingSet t \<and> st_pendingSigs t' = st_pendingSigs t \<and> st_sigdisp t' = st_sigdisp t"
  by (auto simp: deliver_signal_def Let_def split: if_splits option.splits)

text \<open>\<open>dispatchSignal\<close> panics exactly if no signal is ready, which is what the scheduler tests before; else it removes
  one pending signal that the mask does not block or that cannot be blocked, the one in the first such place, and
  delivers it.
\<close>

theorem dispatchSignal_takes:
  assumes "st_sigdisp t = Some d" and "disps d \<noteq> None"
  shows "(dispatchSignal K fl disps t = Panic \<longleftrightarrow> \<not> haveReadySigs t) \<and>
    (\<forall>t'. dispatchSignal K fl disps t = Ok t' \<longrightarrow>
       (\<exists>si u. pend t = pend t' + {#si#} \<and> \<not> blocked (st_sigmask t) (si_signo si) \<and> deliver_signal K fl disps si u = Ok t' \<and>
          pend u = pend t' \<and> (\<exists>ps. u = t\<lparr>st_pendingSet := ps\<rparr>)))"
proof -
  have dl: "deliver_signal K fl disps si u \<noteq> Panic" if "st_sigdisp u = st_sigdisp t" for si u
    using that assms by (auto simp: deliver_signal_def Let_def split: if_splits)
  have p: "dispatchSignal K fl disps t = Panic \<longleftrightarrow> \<not> haveReadySigs t"
  proof (cases "find (ready_at t) [0..<64]")
    case None
    then have "dispatchSignal K fl disps t = Panic" by (simp add: dispatchSignal_def)
    with None show ?thesis by (auto simp: haveReadySigs_def find_None_iff)
  next
    case (Some i)
    then have "i \<in> set [0..<64]" "ready_at t i" by (auto simp: find_Some_iff)
    then have "haveReadySigs t" using assms(1) unfolding haveReadySigs_def by blast
    with Some dl show ?thesis by (simp add: dispatchSignal_def)
  qed
  have "\<exists>si u. pend t = pend t' + {#si#} \<and> \<not> blocked (st_sigmask t) (si_signo si) \<and> deliver_signal K fl disps si u = Ok t' \<and>
          pend u = pend t' \<and> (\<exists>ps. u = t\<lparr>st_pendingSet := ps\<rparr>)" if m: "dispatchSignal K fl disps t = Ok t'" for t'
  proof -
    from m obtain i where i: "i < 64" "ready_at t i"
      and d: "deliver_signal K fl disps (st_pendingSigs t ! i) (t\<lparr>st_pendingSet := st_pendingSet t AND NOT (push_bit i 1)\<rparr>) = Ok t'"
      by (auto simp: dispatchSignal_def find_Some_iff split: option.splits)
    let ?u = "t\<lparr>st_pendingSet := st_pendingSet t AND NOT (push_bit i 1)\<rparr>"
    have "pend t = pend ?u + {#st_pendingSigs t ! i#}" by (rule take_slot [OF ready_slot [OF i] refl])
    moreover have "pend ?u = pend t'" using deliver_keeps [OF d] by (intro pend_cong) simp_all
    ultimately show ?thesis using d i(2) by (auto simp: ready_at_def)
  qed
  with p show ?thesis by blast
qed

definition pending_thread :: "int \<Rightarrow> u64 \<Rightarrow> sthread" where
  "pending_thread n m = demo_thread\<lparr>st_pendingSet := 1, st_pendingSigs := replicate 64 (demo_siginfo n), st_sigmask := m\<rparr>"

lemma pending_thread: "slots (pending_thread n m) = {0}" "pend (pending_thread n m) = {#demo_siginfo n#}"
proof -
  show s: "slots (pending_thread n m) = {0}" by (auto simp: slots_def pending_thread_def bits_32)
  show "pend (pending_thread n m) = {#demo_siginfo n#}" unfolding pend_def s by (simp add: pending_thread_def)
qed

theorem dispatchSignal_takes_witness:
  "\<exists>t'. dispatchSignal demo_kaddrs 2 demo_disps (pending_thread 2 0) = Ok t' \<and> pend t' = {#}"
proof -
  let ?t = "pending_thread 2 0"
  have sd: "st_sigdisp ?t = Some 1" "demo_disps 1 \<noteq> None" by (simp_all add: pending_thread_def demo_thread_def demo_disps_def)
  have "ready_at ?t 0" by (simp add: ready_at_def pending_thread_def has_def blocked_def)
  then have "haveReadySigs ?t" using sd by (auto simp: haveReadySigs_def)
  note dt = dispatchSignal_takes [where disps = demo_disps, OF sd, of demo_kaddrs 2]
  from \<open>haveReadySigs ?t\<close> dt obtain t' where
    m: "dispatchSignal demo_kaddrs 2 demo_disps ?t = Ok t'" by (cases "dispatchSignal demo_kaddrs 2 demo_disps ?t") auto
  with dt pending_thread(2) [of 2 0] have "pend t' = {#}" by fastforce
  with m show ?thesis by blast
qed

section \<open>\<open>SIGKILL\<close>\<close>

text \<open>
  C26: no thread of a process escapes \<open>SIGKILL\<close>. Whatever its mask, its dispositions and the flags of the sender, a
  thread that has not terminated and has room for the signal gets it, becomes able to run, and has a signal ready; if
  nothing else is pending, its next dispatch makes it run \<open>processExit(SIGKILL)\<close> on its kernel stack.
\<close>

theorem sigkill_unstoppable:
  assumes "si_signo si = SIGKILL" and len: "length (st_pendingSigs t) = 64" and "no_alarm now t" and "\<not> has (st_flags t) THREAD_TERMINATED"
    and room: "size (pend t) < 64" and "st_sigdisp t = Some d"
  shows "\<exists>t'. sendSignalEx disps junk now si flags (t, ts) = Ok (0, t', ts) \<and> woken t t' \<and> si \<in># pend t' \<and> haveReadySigs t' \<and>
    (pend t = {#} \<longrightarrow> (\<exists>t2. dispatchSignal K fl disps t' = Ok t2 \<and> r_rip (st_regs t2) = k_processExit K \<and> r_rdi (st_regs t2) = 9 \<and>
       r_cs (st_regs t2) = 8 \<and> r_rsp (st_regs t2) = stack_top t2))"
proof -
  have ig: "\<not> sig_ignored disps t (si_signo si)" "\<not> sig_dropped flags t (si_signo si)"
    using assms(1) by (simp_all add: sig_ignored_def sig_dropped_def)
  have pu: "pend (untrace t) = pend t" by (rule pend_cong) (simp_all add: untrace_fields)
  obtain v where v: "put_pending si (untrace t) = Some v" using put_pending_free [of "untrace t" si] room pu by auto
  have "st_pendingSet t \<noteq> 0xFFFFFFFFFFFFFFFF" using full_slots [of t] room by auto
  then have m: "sendSignalEx disps junk now si flags (t, ts) = Ok (0, wake_thread v, ts)"
    using assms(1,4) ig v by (simp add: sendSignalEx_no_alarm [OF assms(3)])
  let ?t' = "wake_thread v"
  from sendSignalEx_queues [OF m len assms(3)] assms(1,4) ig room
  have q: "pend ?t' = pend t + {#si#}" "woken t ?t'" "st_sigdisp ?t' = Some d" "length (st_pendingSigs ?t') = 64"
    using assms(6) by auto
  then have si: "si \<in># pend ?t'" by simp
  then obtain i where i: "i \<in> slots ?t'" "st_pendingSigs ?t' ! i = si" by (auto simp: pend_def)
  then have r: "i < 64" "ready_at ?t' i"
    using assms(1) by (auto simp: slots_def ready_at_def has_bit blocked_def isUnblockableSig_def)
  then have h: "haveReadySigs ?t'" using q(3) by (auto simp: haveReadySigs_def)
  have "\<exists>t2. dispatchSignal K fl disps ?t' = Ok t2 \<and> r_rip (st_regs t2) = k_processExit K \<and> r_rdi (st_regs t2) = 9 \<and>
       r_cs (st_regs t2) = 8 \<and> r_rsp (st_regs t2) = stack_top t2" if "pend t = {#}"
  proof -
    from q(1) that have "card (slots ?t') = 1" using size_pend [of ?t'] by simp
    with i(1) have s: "slots ?t' = {i}" by (auto simp: card_1_singleton_iff)
    have "find (ready_at ?t') [0..<64] = Some i"
    proof (cases "find (ready_at ?t') [0..<64]")
      case None
      then show ?thesis using r by (auto simp: find_None_iff)
    next
      case (Some j)
      then have "j \<in> slots ?t'" by (auto simp: find_Some_iff intro: ready_slot)
      with Some s show ?thesis by simp
    qed
    then show ?thesis using i(2) assms(1)
      by (simp add: dispatchSignal_def deliver_signal_def switchToKernelSpace_def stack_top_def)
  qed
  with m q si h show ?thesis by blast
qed

theorem sigkill_unstoppable_witness:
  "\<exists>t' t2. sendSignalEx demo_disps (0, 0) 7 (demo_siginfo 9) SS_NONBLOCKED (demo_thread\<lparr>st_sigmask := - 1\<rparr>, timers0) = Ok (0, t', timers0) \<and>
     dispatchSignal demo_kaddrs 2 demo_disps t' = Ok t2 \<and> r_rip (st_regs t2) = 0x12000"
proof -
  let ?t = "demo_thread\<lparr>st_sigmask := - 1\<rparr>"
  have t: "si_signo (demo_siginfo 9) = SIGKILL" "length (st_pendingSigs ?t) = 64" "no_alarm 7 ?t" "\<not> has (st_flags ?t) THREAD_TERMINATED"
    "st_sigdisp ?t = Some 1" "pend ?t = {#}"
    by (simp_all add: demo_thread_def demo_siginfo_def no_alarm_def has_def pend_def slots_def)
  have "size (pend ?t) < 64" by (simp add: t(6))
  from sigkill_unstoppable [OF t(1-4) this t(5), of demo_disps "(0, 0)" SS_NONBLOCKED timers0 demo_kaddrs 2] t(6)
  show ?thesis by (auto simp: demo_kaddrs_def)
qed

section \<open>Where the code falls short\<close>

text \<open>A jump to \<open>TRAP_SIGRET\<close> gives a thread the I/O privilege: the bits of \<open>OK_USER_FLAGS\<close> come from the frame that the
  thread itself put on its stack, and they include the two of the I/O privilege level. The thread then runs in user
  mode with every port and the interrupt flag at its disposal.
\<close>

theorem sigret_privilege:
  assumes "sigret fl frame = (r, fpu, m)"
  shows "r_cs r = 0x1B \<and> r_rip r = ms_rip (ss_mstate frame) \<and>
    (bit (ms_rflags (ss_mstate frame)) 12 \<and> bit (ms_rflags (ss_mstate frame)) 13 \<longrightarrow> bit (r_rflags r) 12 \<and> bit (r_rflags r) 13)"
proof -
  let ?fl = "ms_rflags (ss_mstate frame)"
  have ok: "bit OK_USER_FLAGS n \<longleftrightarrow> n < 16" for n
  proof -
    have "bit (mask 16 :: u64) n \<longleftrightarrow> n < 16" by (auto simp: bit_mask_iff)
    moreover have "OK_USER_FLAGS = mask 16" by (simp add: mask_eq_exp_minus_1)
    ultimately show ?thesis by (simp only:)
  qed
  have r: "r_rflags r = (?fl AND OK_USER_FLAGS) OR (fl AND NOT OK_USER_FLAGS) OR push_bit 9 1" "r_cs r = 0x1B" "r_rip r = ms_rip (ss_mstate frame)"
    using assms by (auto simp: sigret_def Let_def initUserRegs_def)
  have "bit (r_rflags r) n" if "bit ?fl n" "n < 16" for n
    unfolding r(1) bit_or_iff bit_and_iff ok using that by blast
  with r(2,3) show ?thesis by simp
qed

theorem sigret_privilege_witness:
  "\<exists>r fpu m. sigret 2 ((signal_frame demo_kaddrs demo_thread (demo_siginfo 2))
      \<lparr>ss_mstate := (ss_mstate (signal_frame demo_kaddrs demo_thread (demo_siginfo 2)))\<lparr>ms_rflags := 0x3000\<rparr>\<rparr>) = (r, fpu, m) \<and>
     bit (r_rflags r) 12 \<and> bit (r_rflags r) 13"
proof -
  let ?f = "(signal_frame demo_kaddrs demo_thread (demo_siginfo 2))
      \<lparr>ss_mstate := (ss_mstate (signal_frame demo_kaddrs demo_thread (demo_siginfo 2)))\<lparr>ms_rflags := 0x3000\<rparr>\<rparr>"
  obtain r fpu m where m: "sigret 2 ?f = (r, fpu, m)" by (metis prod_cases3)
  have "bit (0x3000 :: u64) 12" "bit (0x3000 :: u64) 13" by simp_all
  with sigret_privilege [OF m] m show ?thesis by auto
qed

text \<open>
  A signal that is dropped because it is blocked still ends the tracing of a stopped thread: the thread is then
  waiting, is not on the run queue, and the debugger can neither read nor continue it, as both need the flag.
\<close>

theorem dropped_signal_untraces:
  assumes "has (st_flags t) THREAD_TRACED" and "no_alarm now t" and "\<not> has (st_flags t) THREAD_TERMINATED"
    and "0 \<le> si_signo si" "si_signo si < SIG_NUM" "si_signo si \<notin> {SIGCONT, SIGTHWAKE}" and "st_sigdisp t = Some d" "disps d \<noteq> None"
    and "\<not> sig_ignored disps t (si_signo si)" and "sig_dropped flags t (si_signo si)"
  shows "\<exists>t'. sendSignalEx disps junk now si flags (t, ts) = Ok (-1, t', ts) \<and> pend t' = pend t \<and> \<not> has (st_flags t') THREAD_TRACED \<and>
    has (st_flags t') THREAD_WAITING \<and> st_queued t' = st_queued t"
proof -
  have "sendSignalEx disps junk now si flags (t, ts) = Ok (-1, untrace t, ts)"
    using assms by (auto simp: sendSignalEx_no_alarm)
  moreover have "pend (untrace t) = pend t" by (rule pend_cong) (simp_all add: untrace_fields)
  ultimately show ?thesis
    using assms(1) untrace_queued [of t] by (simp add: has_32 has_1 untrace_flags)
qed

text \<open>\<open>kill(pid, 0)\<close>, the test whether a process exists, reads through \<open>NULL\<close> as soon as a thread matches.\<close>

theorem kill_0_faults:
  assumes "t \<in> set threads" and "st_creds t = Some c" and "pid_matches pid mypgid c"
  shows "signal_loop disps junk now pid mypgid None flags src [] result errno threads ts = Panic"
  using assms
proof (induction threads arbitrary: ts)
  case (Cons u threads)
  show ?case
  proof (cases "\<exists>cu. st_creds u = Some cu \<and> pid_matches pid mypgid cu")
    case True
    then show ?thesis by auto
  next
    case False
    with Cons have "t \<in> set threads" by auto
    with Cons have "signal_loop disps junk now pid mypgid None flags src [] result errno threads ts = Panic" for ts by simp
    with False show ?thesis by (cases "st_creds u") auto
  qed
qed simp

text \<open>The dispositions after \<open>exec\<close>: ignored signals stay ignored, those that dump core stay so, handlers are reset.\<close>

theorem sigdispExec_resets:
  assumes "disps old = Some d" and "length (sd_actions d) = 39" and "new \<noteq> old" and "sigdispExec new old disps = Ok disps'" and "n < 39"
  shows "\<exists>a. disps' new = Some a \<and> sd_refcount a = 1 \<and> \<not> has (sa_flags (sd_actions a ! n)) SA_SIGINFO \<and>
    sa_handler (sd_actions a ! n) = (if sa_handler (sd_actions d ! n) \<in> {SIG_IGN, SIG_CORE} then sa_handler (sd_actions d ! n) else SIG_DFL) \<and>
    disps' old = (if sd_refcount d = 1 then None else Some (d\<lparr>sd_refcount := c_int (sd_refcount d - 1)\<rparr>))"
  using assms
  by (auto simp: sigdispExec_def sigdispCreate_def sigdispDownref_def exec_action_def Let_def has_def split: if_splits)

end
