(* ===== verification/Gx_Sched.thy ===== *)
theory Gx_Sched
  imports Gx_Links Gx_Signal
begin

text \<open>
  The run queues of the scheduler (\<open>kernel/src/thread/sched.c\<close> and the ready processors of \<open>hw/cpu.c\<close>): which
  thread a processor runs next, how threads block and are woken, priorities, and the threads that are created
  and end.

  A thread is a record with the fields of \<open>struct _Thread\<close> that the scheduler uses; the embedded \<open>runq\<close> is linked
  by the address of its thread. What a processor loads and saves at a switch, \<open>regs\<close> and \<open>fpuRegs\<close>, is one value
  of type \<open>'c\<close>. The per-processor variables \<open>currentThread\<close> and \<open>idleThread\<close> are functions from processors. The
  scheduler lock makes every function below one step; a thread that blocks is cut between the release of the lock
  after \<open>waitThread\<close> and the switch in \<open>kyield\<close>, when other processors may run.

  The alarm of \<open>signalThread\<close> and the signals dispatched at a switch are in \<open>Gx_Signal\<close>: here the alarm is not
  due, and what \<open>dispatchSignal\<close> does to the context is a parameter.
\<close>

section \<open>Data\<close>

abbreviation THREAD_DETACHED :: u64 where "THREAD_DETACHED \<equiv> 8"
abbreviation THREAD_NOSCHED :: u64 where "THREAD_NOSCHED \<equiv> THREAD_WAITING OR THREAD_TERMINATED OR THREAD_TRACED"
abbreviation NUM_PRIO_Q :: int where "NUM_PRIO_Q \<equiv> 16"

record ProcStat =
  ps_ticks :: u64
  ps_entries :: u64

record 'c task =
  tk_flags :: u64
  tk_wakeCounter :: int
  tk_niceVal :: int
  tk_rqThread :: "nat option"
  tk_rqNext :: "nat option"
  tk_ps :: ProcStat
  tk_creds :: "nat option"
  tk_ctx :: 'c
  tk_prev :: nat
  tk_next :: nat

record 'c sched =
  s_thr :: "nat \<Rightarrow> 'c task"
  s_first :: "int \<Rightarrow> nat option"
  s_last :: "int \<Rightarrow> nat option"
  s_cur :: "nat \<Rightarrow> nat"
  s_idle :: "nat \<Rightarrow> nat"
  s_cps :: "nat \<Rightarrow> ProcStat" \<comment> \<open>the statistics of the credentials\<close>
  s_ready :: u16 \<comment> \<open>\<open>cpuReadyBitmap\<close>\<close>
  s_numCPU :: nat
  s_hints :: "nat list" \<comment> \<open>processors given to \<open>sendHintToCPU\<close>\<close>

definition upd_thr :: "nat \<Rightarrow> ('c task \<Rightarrow> 'c task) \<Rightarrow> 'c sched \<Rightarrow> 'c sched" where
  "upd_thr t f s = s\<lparr>s_thr := (s_thr s)(t := f (s_thr s t))\<rparr>"

section \<open>Processors\<close>

definition cpuReady :: "nat \<Rightarrow> 'c sched \<Rightarrow> 'c sched" where
  "cpuReady me s = s\<lparr>s_ready := s_ready s OR push_bit me 1\<rparr>"

definition cpuBusy :: "nat \<Rightarrow> 'c sched \<Rightarrow> 'c sched" where
  "cpuBusy me s = s\<lparr>s_ready := s_ready s AND NOT (push_bit me 1)\<rparr>"

definition cpuSleeping :: "nat \<Rightarrow> 'c sched \<Rightarrow> bool" where
  "cpuSleeping me s \<longleftrightarrow> has (s_ready s) (push_bit me 1)"

text \<open>The loop of \<open>cpuDispatch\<close> over the processors \<open>is\<close>.\<close>

fun dispatch_loop :: "nat \<Rightarrow> nat list \<Rightarrow> 'c sched \<Rightarrow> 'c sched" where
  "dispatch_loop me [] s = s"
| "dispatch_loop me (i # is) s =
     (if has (s_ready s) (push_bit i 1)
      then (let s = s\<lparr>s_ready := s_ready s AND NOT (push_bit i 1)\<rparr>
            in if i \<noteq> me then s\<lparr>s_hints := s_hints s @ [i]\<rparr> else s)
      else dispatch_loop me is s)"

definition cpuDispatch :: "nat \<Rightarrow> 'c sched \<Rightarrow> 'c sched" where
  "cpuDispatch me s = (if s_numCPU s = 1 then s else dispatch_loop me [0..<s_numCPU s] s)"

section \<open>The run queues\<close>

definition canSched :: "'c task \<Rightarrow> bool" where
  "canSched t \<longleftrightarrow> \<not> has (tk_flags t) THREAD_NOSCHED"

definition getPrio :: "'c task \<Rightarrow> int" where
  "getPrio t = NUM_PRIO_Q div 2 + tk_niceVal t"

text \<open>A thread at the end of queue \<open>i\<close>, as \<open>signalThread\<close>, \<open>threadClone\<close> and others link it.\<close>

definition rq_link :: "int \<Rightarrow> nat \<Rightarrow> 'c sched \<Rightarrow> 'c sched" where
  "rq_link i t s =
     (let s = upd_thr t (\<lambda>r. r\<lparr>tk_rqThread := Some t, tk_rqNext := None\<rparr>) s
      in case s_last s i of
           None \<Rightarrow> s\<lparr>s_first := (s_first s)(i := Some t), s_last := (s_last s)(i := Some t)\<rparr>
         | Some l \<Rightarrow> (upd_thr l (\<lambda>r. r\<lparr>tk_rqNext := Some t\<rparr>) s)\<lparr>s_last := (s_last s)(i := Some t)\<rparr>)"

text \<open>``Put the current thread back into the queue if still running''.\<close>

definition requeue :: "nat \<Rightarrow> nat \<Rightarrow> 'c sched \<Rightarrow> 'c sched" where
  "requeue me t s =
     (let r = s_thr s t
      in if canSched r \<and> tk_rqThread r = None
         then (if s_last s (getPrio r) = None then rq_link (getPrio r) t s
               else cpuDispatch me (rq_link (getPrio r) t s))
         else s)"

text \<open>The first thread of the first queue that has one.\<close>

definition rq_pick :: "'c sched \<Rightarrow> (nat \<times> 'c sched) option" where
  "rq_pick s =
     (case List.find (\<lambda>i. s_first s i \<noteq> None) [0..NUM_PRIO_Q - 1] of
        None \<Rightarrow> None
      | Some i \<Rightarrow>
          (let t = the (s_first s i); n = tk_rqNext (s_thr s t);
               s = s\<lparr>s_first := (s_first s)(i := n)\<rparr>;
               s = (if n = None then s\<lparr>s_last := (s_last s)(i := None)\<rparr> else s)
           in Some (t, upd_thr t (\<lambda>r. r\<lparr>tk_rqThread := None\<rparr>) s)))"

definition ps_add :: "u64 \<Rightarrow> ProcStat \<Rightarrow> ProcStat" where
  "ps_add ticks p = \<lparr>ps_ticks = ps_ticks p + ticks, ps_entries = ps_entries p + 1\<rparr>"

text \<open>
  \<open>switchTaskUnlocked\<close> on the processor \<open>me\<close>: \<open>regs\<close> is the context that is saved, \<open>ticks\<close> the time used, and the
  result is the context that is loaded, after the signals \<open>sigs\<close>.
\<close>

definition switch_out :: "nat \<Rightarrow> u64 \<Rightarrow> 'c \<Rightarrow> 'c sched \<Rightarrow> 'c sched" where
  "switch_out me ticks regs s =
     (let t = s_cur s me;
          s = cpuBusy me (upd_thr t (\<lambda>r. r\<lparr>tk_ps := ps_add ticks (tk_ps r)\<rparr>) s);
          s = (case tk_creds (s_thr s t) of None \<Rightarrow> s
               | Some c \<Rightarrow> s\<lparr>s_cps := (s_cps s)(c := ps_add ticks (s_cps s c))\<rparr>)
      in requeue me t (upd_thr t (\<lambda>r. r\<lparr>tk_ctx := regs\<rparr>) s))"

definition switchTaskUnlocked :: "('c \<Rightarrow> 'c) \<Rightarrow> nat \<Rightarrow> u64 \<Rightarrow> 'c \<Rightarrow> 'c sched \<Rightarrow> 'c \<times> 'c sched" where
  "switchTaskUnlocked sigs me ticks regs s =
     (let s = switch_out me ticks regs s;
          s = (case rq_pick s of
                 None \<Rightarrow> (cpuReady me s)\<lparr>s_cur := (s_cur s)(me := s_idle s me)\<rparr>
               | Some (t, s) \<Rightarrow> s\<lparr>s_cur := (s_cur s)(me := t)\<rparr>);
          s = upd_thr (s_cur s me) (\<lambda>r. r\<lparr>tk_ctx := sigs (tk_ctx r)\<rparr>) s
      in (tk_ctx (s_thr s (s_cur s me)), s))"

section \<open>Waiting and waking\<close>

definition sched_wait :: "nat \<Rightarrow> 'c sched \<Rightarrow> 'c sched" where
  "sched_wait t s =
     upd_thr t (\<lambda>r. if tk_wakeCounter r = 0 then r\<lparr>tk_flags := tk_flags r OR THREAD_WAITING\<rparr>
                    else r\<lparr>tk_wakeCounter := c_int (tk_wakeCounter r - 1)\<rparr>) s"

text \<open>The second half of \<open>signalThread\<close>, with its result: whether the woken thread has a higher priority.\<close>

definition sched_signal :: "nat \<Rightarrow> nat \<Rightarrow> 'c sched \<Rightarrow> bool \<times> 'c sched" where
  "sched_signal me t s =
     (let s = (if has (tk_flags (s_thr s t)) THREAD_WAITING
               then (let s = upd_thr t (\<lambda>r. r\<lparr>tk_flags := tk_flags r AND NOT THREAD_WAITING\<rparr>) s;
                         s = (if tk_rqThread (s_thr s t) = None then rq_link (getPrio (s_thr s t)) t s else s)
                     in cpuDispatch me s)
               else upd_thr t (\<lambda>r. r\<lparr>tk_wakeCounter := c_int (tk_wakeCounter r + 1)\<rparr>) s)
      in (tk_niceVal (s_thr s t) < tk_niceVal (s_thr s (s_cur s me)), s))"

text \<open>How a traced thread continues: \<open>tcCont\<close>, \<open>sendSignalEx\<close> and \<open>credsDownref\<close>.\<close>

definition sched_cont :: "nat \<Rightarrow> nat \<Rightarrow> 'c sched \<Rightarrow> 'c sched" where
  "sched_cont me t s =
     snd (sched_signal me t (upd_thr t (\<lambda>r. r\<lparr>tk_flags := tk_flags r AND NOT THREAD_TRACED OR THREAD_WAITING\<rparr>) s))"

definition thnice :: "nat \<Rightarrow> int \<Rightarrow> 'c sched \<Rightarrow> int \<times> 'c sched" where
  "thnice me incr s =
     (let newVal = c_int (tk_niceVal (s_thr s (s_cur s me)) + incr);
          newVal = (if newVal \<le> - (NUM_PRIO_Q div 2) then - (NUM_PRIO_Q div 2) + 1 else newVal);
          newVal = (if newVal \<ge> NUM_PRIO_Q div 2 then NUM_PRIO_Q div 2 - 1 else newVal)
      in (newVal, upd_thr (s_cur s me) (\<lambda>r. r\<lparr>tk_niceVal := newVal\<rparr>) s))"

text \<open>\<open>sys_nice\<close>, where \<open>perm\<close> is \<open>havePerm(XP_NICE)\<close>; the error is \<open>EPERM\<close>.\<close>

definition sys_nice :: "bool \<Rightarrow> nat \<Rightarrow> int \<Rightarrow> 'c sched \<Rightarrow> int \<times> 'c sched" where
  "sys_nice perm me incr s = (if incr < 0 \<and> \<not> perm then (-1, s) else thnice me incr s)"

section \<open>Threads that begin and end\<close>

text \<open>The circular list of threads: \<open>t\<close> comes after \<open>c\<close>; and \<open>t\<close> is taken out.\<close>

definition ring_link :: "nat \<Rightarrow> nat \<Rightarrow> 'c sched \<Rightarrow> 'c sched" where
  "ring_link c t s =
     (let s = upd_thr (tk_next (s_thr s c)) (\<lambda>r. r\<lparr>tk_prev := t\<rparr>) s;
          s = upd_thr t (\<lambda>r. r\<lparr>tk_next := tk_next (s_thr s c), tk_prev := c\<rparr>) s
      in upd_thr c (\<lambda>r. r\<lparr>tk_next := t\<rparr>) s)"

definition ring_unlink :: "nat \<Rightarrow> 'c sched \<Rightarrow> 'c sched" where
  "ring_unlink t s =
     (let s = upd_thr (tk_prev (s_thr s t)) (\<lambda>r. r\<lparr>tk_next := tk_next (s_thr s t)\<rparr>) s
      in upd_thr (tk_next (s_thr s t)) (\<lambda>r. r\<lparr>tk_prev := tk_prev (s_thr s t)\<rparr>) s)"

definition new_task :: "u64 \<Rightarrow> int \<Rightarrow> nat option \<Rightarrow> 'c \<Rightarrow> 'c task \<Rightarrow> 'c task" where
  "new_task flags nice creds regs r =
     r\<lparr>tk_flags := flags, tk_wakeCounter := 0, tk_niceVal := nice, tk_rqThread := None, tk_rqNext := None,
       tk_ps := \<lparr>ps_ticks = 0, ps_entries = 0\<rparr>, tk_creds := creds, tk_ctx := regs\<rparr>"

text \<open>The scheduling parts of \<open>CreateKernelThread\<close> and \<open>threadClone\<close>; \<open>t\<close> is the address \<open>kmalloc\<close> gave.\<close>

definition CreateKernelThread :: "nat \<Rightarrow> nat \<Rightarrow> u64 \<Rightarrow> 'c \<Rightarrow> 'c sched \<Rightarrow> 'c sched" where
  "CreateKernelThread me t flags regs s =
     (let s = ring_link (s_cur s me) t (upd_thr t (new_task flags 0 None regs) s)
      in if canSched (s_thr s t) then rq_link (NUM_PRIO_Q div 2 - 1) t s else s)"

definition clone_link :: "nat \<Rightarrow> nat \<Rightarrow> u64 \<Rightarrow> nat option \<Rightarrow> 'c \<Rightarrow> 'c sched \<Rightarrow> 'c sched" where
  "clone_link me t flags creds regs s =
     (let s = ring_link (s_cur s me) t (upd_thr t (new_task flags (tk_niceVal (s_thr s (s_cur s me))) creds regs) s)
      in rq_link (getPrio (s_thr s t)) t s)"

definition set_flag :: "u64 \<Rightarrow> nat \<Rightarrow> 'c sched \<Rightarrow> 'c sched" where
  "set_flag f t s = upd_thr t (\<lambda>r. r\<lparr>tk_flags := tk_flags r OR f\<rparr>) s"

text \<open>
  The ends of threads, under the lock: \<open>threadExitEx\<close> of a user thread, and \<open>kernelThreadExit\<close>, where a thread that
  will be joined leaves the list at once. The others are left to the system manager, which is woken.
\<close>

definition exit_switch :: "('c \<Rightarrow> 'c) \<Rightarrow> nat \<Rightarrow> nat \<Rightarrow> u64 \<Rightarrow> 'c \<Rightarrow> 'c sched \<Rightarrow> 'c sched" where
  "exit_switch sigs sysman me ticks regs s =
     (let s = snd (sched_signal me sysman (set_flag THREAD_TERMINATED (s_cur s me) s))
      in snd (switchTaskUnlocked sigs me ticks regs s))"

definition thread_exit :: "('c \<Rightarrow> 'c) \<Rightarrow> nat \<Rightarrow> nat \<Rightarrow> u64 \<Rightarrow> 'c \<Rightarrow> 'c sched \<Rightarrow> 'c sched kres" where
  "thread_exit sigs sysman me ticks regs s =
     (if tk_creds (s_thr s (s_cur s me)) = None then Panic else Ok (exit_switch sigs sysman me ticks regs s))"

definition kernelThreadExit :: "('c \<Rightarrow> 'c) \<Rightarrow> nat \<Rightarrow> nat \<Rightarrow> nat \<Rightarrow> u64 \<Rightarrow> 'c \<Rightarrow> 'c sched \<Rightarrow> 'c sched kres" where
  "kernelThreadExit sigs firstThread sysman me ticks regs s =
     (let t = s_cur s me
      in if t = firstThread then Panic
         else if has (tk_flags (s_thr s t)) THREAD_DETACHED then Ok (exit_switch sigs sysman me ticks regs s)
         else Ok (snd (switchTaskUnlocked sigs me ticks regs (set_flag THREAD_TERMINATED t (ring_unlink t s)))))"

definition traceTrap :: "('c \<Rightarrow> 'c) \<Rightarrow> nat \<Rightarrow> u64 \<Rightarrow> 'c \<Rightarrow> 'c sched \<Rightarrow> 'c sched" where
  "traceTrap sigs me ticks regs s = snd (switchTaskUnlocked sigs me ticks regs (set_flag THREAD_TRACED (s_cur s me) s))"

text \<open>
  The system manager: from itself it follows the list to the first thread that has ended and is not to be joined
  by a kernel thread, and takes it out; \<open>None\<close> when the walk does not end.
\<close>

definition reapable :: "'c task \<Rightarrow> bool" where
  "reapable r \<longleftrightarrow> has (tk_flags r) THREAD_TERMINATED \<and> (tk_creds r \<noteq> None \<or> has (tk_flags r) THREAD_DETACHED)"

partial_function (option) reap_search :: "(nat \<Rightarrow> 'c task) \<Rightarrow> nat \<Rightarrow> nat \<Rightarrow> nat option" where
  "reap_search thr cur t =
     (if reapable (thr t) then Some t else if tk_next (thr t) = cur then Some cur else reap_search thr cur (tk_next (thr t)))"

definition sysman_reap :: "nat \<Rightarrow> 'c sched \<Rightarrow> (nat option \<times> 'c sched) option" where
  "sysman_reap me s =
     (case reap_search (s_thr s) (s_cur s me) (s_cur s me) of
        None \<Rightarrow> None
      | Some t \<Rightarrow> Some (if t \<noteq> s_cur s me then (Some t, ring_unlink t s) else (None, s)))"

section \<open>The threads of the machine\<close>

text \<open>
  The state of the machine is the scheduler's, the processors that have released the lock after \<open>waitThread\<close> and
  not yet switched (with interrupts off), and the threads that were created; no address is used twice. \<open>first\<close>
  and \<open>sysman\<close> are the startup thread and the system manager, which never end. A processor wakes threads from
  its thread or from an interrupt; what it does with its thread needs one (it is not idle). The contexts and times
  are arbitrary.
\<close>

type_synonym 'c smp = "'c sched \<times> nat set \<times> nat set"

inductive sched_step :: "nat \<Rightarrow> nat \<Rightarrow> 'c smp \<Rightarrow> 'c smp \<Rightarrow> bool" for first sysman where
  tick: "c < s_numCPU s \<Longrightarrow> c \<notin> P \<Longrightarrow> sched_step first sysman (s, P, A) (snd (switchTaskUnlocked sigs c ticks regs s), P, A)"
| block: "c < s_numCPU s \<Longrightarrow> c \<notin> P \<Longrightarrow> s_cur s c \<in> A \<Longrightarrow> sched_step first sysman (s, P, A) (sched_wait (s_cur s c) s, insert c P, A)"
| yield: "c \<in> P \<Longrightarrow> sched_step first sysman (s, P, A) (snd (switchTaskUnlocked sigs c ticks regs s), P - {c}, A)"
| wake: "c < s_numCPU s \<Longrightarrow> c \<notin> P \<Longrightarrow> t \<in> A \<Longrightarrow> sched_step first sysman (s, P, A) (snd (sched_signal c t s), P, A)"
| cont: "c < s_numCPU s \<Longrightarrow> c \<notin> P \<Longrightarrow> t \<in> A \<Longrightarrow> has (tk_flags (s_thr s t)) THREAD_TRACED \<Longrightarrow>
    sched_step first sysman (s, P, A) (sched_cont c t s, P, A)"
| nice: "c < s_numCPU s \<Longrightarrow> c \<notin> P \<Longrightarrow> s_cur s c \<in> A \<Longrightarrow> sched_step first sysman (s, P, A) (snd (sys_nice perm c incr s), P, A)"
| create: "c < s_numCPU s \<Longrightarrow> c \<notin> P \<Longrightarrow> s_cur s c \<in> A \<Longrightarrow> t \<notin> A \<Longrightarrow> \<forall>d. t \<noteq> s_idle s d \<Longrightarrow> \<not> has fl (THREAD_TERMINATED OR THREAD_TRACED) \<Longrightarrow>
    sched_step first sysman (s, P, A) (CreateKernelThread c t fl regs s, P, insert t A)"
| clone: "c < s_numCPU s \<Longrightarrow> c \<notin> P \<Longrightarrow> s_cur s c \<in> A \<Longrightarrow> t \<notin> A \<Longrightarrow> \<forall>d. t \<noteq> s_idle s d \<Longrightarrow> fl \<in> {0, THREAD_DETACHED} \<Longrightarrow>
    sched_step first sysman (s, P, A) (clone_link c t fl (Some cr) regs s, P, insert t A)"
| uend: "c < s_numCPU s \<Longrightarrow> c \<notin> P \<Longrightarrow> s_cur s c \<in> A \<Longrightarrow> thread_exit sigs sysman c ticks regs s = Ok s' \<Longrightarrow>
    sched_step first sysman (s, P, A) (s', P, A)"
| kend: "c < s_numCPU s \<Longrightarrow> c \<notin> P \<Longrightarrow> s_cur s c \<in> A - {sysman} \<Longrightarrow> kernelThreadExit sigs first sysman c ticks regs s = Ok s' \<Longrightarrow>
    sched_step first sysman (s, P, A) (s', P, A)"
| trap: "c < s_numCPU s \<Longrightarrow> c \<notin> P \<Longrightarrow> s_cur s c \<in> A \<Longrightarrow> sched_step first sysman (s, P, A) (traceTrap sigs c ticks regs s, P, A)"
| reap: "c < s_numCPU s \<Longrightarrow> c \<notin> P \<Longrightarrow> s_cur s c = sysman \<Longrightarrow> sysman_reap c s = Some (r, s') \<Longrightarrow> sched_step first sysman (s, P, A) (s', P, A)"

text \<open>The machine after \<open>initSched\<close>, \<open>initSched2\<close> and \<open>initSchedAP\<close>, when the startup thread and the system manager exist.\<close>

definition sched_boot :: "nat \<Rightarrow> nat \<Rightarrow> 'c smp \<Rightarrow> bool" where
  "sched_boot first sysman = (\<lambda>(s, P, A).
     P = {} \<and> A = {first, sysman} \<and> first \<noteq> sysman \<and> 0 < s_numCPU s \<and> s_numCPU s \<le> 16 \<and>
     (\<forall>i. s_first s i = (if i = 7 then Some sysman else None) \<and> s_last s i = s_first s i) \<and>
     s_cur s 0 = first \<and> (\<forall>c. 0 < c \<longrightarrow> s_cur s c = s_idle s c) \<and>
     (\<forall>c. s_idle s c \<notin> A \<and> tk_flags (s_thr s (s_idle s c)) = THREAD_WAITING) \<and>
     (\<forall>t\<in>A. tk_flags (s_thr s t) = 0 \<and> tk_wakeCounter (s_thr s t) = 0 \<and> tk_niceVal (s_thr s t) = 0 \<and> tk_creds (s_thr s t) = None \<and>
        tk_rqNext (s_thr s t) = None) \<and>
     tk_rqThread (s_thr s first) = None \<and> tk_rqThread (s_thr s sysman) = Some sysman \<and>
     tk_next (s_thr s first) = sysman \<and> tk_prev (s_thr s first) = sysman \<and>
     tk_next (s_thr s sysman) = first \<and> tk_prev (s_thr s sysman) = first)"

inductive sched_reach :: "nat \<Rightarrow> nat \<Rightarrow> 'c smp \<Rightarrow> bool" for first sysman where
  boot: "sched_boot first sysman m \<Longrightarrow> sched_reach first sysman m"
| step: "sched_reach first sysman m \<Longrightarrow> sched_step first sysman m m' \<Longrightarrow> sched_reach first sysman m'"

inductive_cases sched_step_cases: "sched_step first sysman m m'"

end
