(* ===== verification/Gx_SchedInv.thy ===== *)
theory Gx_SchedInv
  imports Gx_Sched
begin

text \<open>
  The run queues of \<open>Gx_Sched\<close> as lists of threads, one for each priority, and what every operation of the scheduler
  does to them.
\<close>

section \<open>The queues as lists\<close>

abbreviation rqn :: "'c sched \<Rightarrow> nat \<Rightarrow> nat option" where
  "rqn s \<equiv> (\<lambda>t. tk_rqNext (s_thr s t))"

definition rq_list :: "'c sched \<Rightarrow> int \<Rightarrow> nat list \<Rightarrow> bool" where
  "rq_list s i xs \<longleftrightarrow> distinct xs \<and> lpath (rqn s) (s_first s i) xs None \<and> s_last s i = (if xs = [] then None else Some (last xs))"

definition rq_ok :: "'c sched \<Rightarrow> (int \<Rightarrow> nat list) \<Rightarrow> nat set \<Rightarrow> bool" where
  "rq_ok s q A \<longleftrightarrow>
     (\<forall>i. rq_list s i (q i) \<and> set (q i) \<subseteq> A \<and> (i \<notin> {1..15} \<longrightarrow> q i = [])) \<and>
     (\<forall>i j t. t \<in> set (q i) \<longrightarrow> t \<in> set (q j) \<longrightarrow> i = j) \<and>
     (\<forall>t\<in>A. tk_rqThread (s_thr s t) = (if \<exists>i. t \<in> set (q i) then Some t else None))"

abbreviation queued :: "(int \<Rightarrow> nat list) \<Rightarrow> nat \<Rightarrow> bool" where
  "queued q t \<equiv> (\<exists>i. t \<in> set (q i))"

text \<open>What the scheduler keeps of the threads when it only links queues.\<close>

definition strip :: "'c task \<Rightarrow> 'c task" where
  "strip r = r\<lparr>tk_rqThread := None, tk_rqNext := None\<rparr>"

definition same_threads :: "'c sched \<Rightarrow> 'c sched \<Rightarrow> bool" where
  "same_threads s s' \<longleftrightarrow> (\<forall>t. strip (s_thr s' t) = strip (s_thr s t)) \<and> s_idle s' = s_idle s \<and> s_numCPU s' = s_numCPU s"

lemma strip_fields:
  assumes "strip r = strip r'"
  shows "tk_flags r = tk_flags r'" "tk_wakeCounter r = tk_wakeCounter r'" "tk_niceVal r = tk_niceVal r'" "tk_ps r = tk_ps r'"
    "tk_creds r = tk_creds r'" "tk_ctx r = tk_ctx r'" "tk_prev r = tk_prev r'" "tk_next r = tk_next r'"
  using assms by (cases r; cases r'; simp add: strip_def)+

lemma same_threads_refl [simp]: "same_threads s s"
  by (simp add: same_threads_def)

lemma same_threads_trans: "same_threads s s' \<Longrightarrow> same_threads s' s'' \<Longrightarrow> same_threads s s''"
  by (simp add: same_threads_def)

lemma same_threadsD:
  assumes "same_threads s s'"
  shows "tk_flags (s_thr s' t) = tk_flags (s_thr s t)" "tk_wakeCounter (s_thr s' t) = tk_wakeCounter (s_thr s t)"
    "tk_niceVal (s_thr s' t) = tk_niceVal (s_thr s t)" "tk_creds (s_thr s' t) = tk_creds (s_thr s t)"
    "tk_ctx (s_thr s' t) = tk_ctx (s_thr s t)" "tk_prev (s_thr s' t) = tk_prev (s_thr s t)" "tk_next (s_thr s' t) = tk_next (s_thr s t)"
    "tk_ps (s_thr s' t) = tk_ps (s_thr s t)"
    "s_idle s' = s_idle s" "s_numCPU s' = s_numCPU s" "canSched (s_thr s' t) = canSched (s_thr s t)" "getPrio (s_thr s' t) = getPrio (s_thr s t)"
  using assms strip_fields [of "s_thr s' t" "s_thr s t"] by (auto simp: same_threads_def canSched_def getPrio_def)

lemma rq_list_cong:
  assumes "\<And>t. t \<in> set xs \<Longrightarrow> rqn s' t = rqn s t" "s_first s' i = s_first s i" "s_last s' i = s_last s i"
  shows "rq_list s' i xs = rq_list s i xs"
proof -
  have "lpath (rqn s') p xs r = lpath (rqn s) p xs r" for p r
    using assms(1) by (induction xs arbitrary: p) auto
  then show ?thesis using assms(2,3) by (simp add: rq_list_def)
qed

text \<open>Only the links of threads in queues and the heads matter.\<close>

lemma rq_ok_cong:
  assumes "rq_ok s q A" "\<And>t. t \<in> A \<Longrightarrow> rqn s' t = rqn s t \<and> tk_rqThread (s_thr s' t) = tk_rqThread (s_thr s t)"
    "s_first s' = s_first s" "s_last s' = s_last s"
  shows "rq_ok s' q A"
proof -
  have "rq_list s' i (q i) = rq_list s i (q i)" for i
    using assms by (intro rq_list_cong) (auto simp: rq_ok_def subset_iff)
  then show ?thesis using assms(1,2) by (simp add: rq_ok_def)
qed

lemma rq_ok_queued: "rq_ok s q A \<Longrightarrow> t \<in> A \<Longrightarrow> tk_rqThread (s_thr s t) = None \<longleftrightarrow> \<not> queued q t"
  by (auto simp: rq_ok_def)

lemma rq_link_ok:
  assumes ok: "rq_ok s q A" and t: "t \<in> A" "\<not> queued q t" and i: "i \<in> {1..15}"
  shows "rq_ok (rq_link i t s) (q(i := q i @ [t])) A" "same_threads s (rq_link i t s)" "s_cur (rq_link i t s) = s_cur s"
proof -
  let ?s = "rq_link i t s" and ?q = "q(i := q i @ [t])"
  have L: "rq_list s j (q j)" for j using ok by (simp add: rq_ok_def)
  have f: "s_last ?s = (s_last s)(i := Some t)" "s_first ?s = (if q i = [] then (s_first s)(i := Some t) else s_first s)"
    using L [of i] by (auto simp: rq_link_def upd_thr_def rq_list_def Let_def split: option.splits)
  have n: "rqn ?s x = (if q i \<noteq> [] \<and> x = last (q i) then Some t else if x = t then None else rqn s x)" for x
    using L [of i] t by (auto simp: rq_link_def upd_thr_def rq_list_def Let_def split: option.splits)
  have r: "tk_rqThread (s_thr ?s x) = (if x = t then Some t else tk_rqThread (s_thr s x))" for x
    by (simp add: rq_link_def upd_thr_def Let_def split: option.splits)
  have disj: "x \<in> set (q j) \<Longrightarrow> x \<in> set (q k) \<Longrightarrow> j = k" for x j k using ok by (auto simp: rq_ok_def)
  have other: "rq_list ?s j (q j)" if j: "j \<noteq> i" for j
  proof -
    have "rqn ?s x = rqn s x" if x: "x \<in> set (q j)" for x
    proof -
      have "x \<noteq> last (q i)" if "q i \<noteq> []" using disj [OF x] last_in_set [OF that] j by metis
      then show ?thesis using n t x by auto
    qed
    then show ?thesis using L [of j] j f by (subst rq_list_cong [where s = s]) auto
  qed
  have self: "rq_list ?s i (q i @ [t])"
  proof (cases "q i" rule: rev_cases)
    case Nil
    then show ?thesis using f n by (simp add: rq_list_def)
  next
    case (snoc ys l)
    have "t \<notin> set (ys @ [l])" using t(2) snoc by metis
    then have d: "distinct (ys @ [l, t])" using L [of i] snoc by (auto simp: rq_list_def)
    have "lpath (rqn ?s) p ys r = lpath (rqn s) p ys r" for p r
    proof -
      have "\<forall>x\<in>set ys. rqn ?s x = rqn s x" using n d snoc by auto
      then show ?thesis by (induction ys arbitrary: p) auto
    qed
    then show ?thesis using L [of i] f n d snoc by (auto simp: rq_list_def)
  qed
  show "rq_ok ?s ?q A"
    unfolding rq_ok_def
  proof (intro conjI allI ballI impI)
    fix j show "rq_list ?s j (?q j)" using self other by simp
    show "set (?q j) \<subseteq> A" using ok t by (auto simp: rq_ok_def)
    show "?q j = []" if "j \<notin> {1..15}" using ok i that by (auto simp: rq_ok_def)
  next
    fix j k x assume "x \<in> set (?q j)" "x \<in> set (?q k)"
    then show "j = k" using disj t by (auto split: if_splits)
  next
    fix x assume "x \<in> A"
    have e: "set (?q j) = set (q j) \<union> (if j = i then {t} else {})" for j by simp
    have "(\<exists>j. x \<in> set (?q j)) \<longleftrightarrow> queued q x \<or> x = t" unfolding e by auto
    then show "tk_rqThread (s_thr ?s x) = (if \<exists>j. x \<in> set (?q j) then Some x else None)"
      using ok r \<open>x \<in> A\<close> by (auto simp: rq_ok_def)
  qed
  show "same_threads s ?s"
    by (auto simp: same_threads_def rq_link_def upd_thr_def Let_def strip_def split: option.splits)
  show "s_cur ?s = s_cur s"
    by (simp add: rq_link_def upd_thr_def Let_def split: option.splits)
qed

lemma find_first:
  "List.find P [0..15::int] = Some i \<Longrightarrow> P i \<and> i \<in> {0..15} \<and> (\<forall>j\<in>{0..<i}. \<not> P j)"
  "List.find P [0..15::int] = None \<Longrightarrow> \<forall>j\<in>{0..15}. \<not> P j"
proof -
  assume "List.find P [0..15::int] = Some i"
  then obtain k where k: "k < length [0..15::int]" "i = [0..15::int] ! k" "P i" "\<forall>j<k. \<not> P ([0..15::int] ! j)"
    unfolding find_Some_iff by auto
  then have "i = int k" "k < 16" by simp_all
  moreover have "\<not> P j" if "j \<in> {0..<i}" for j
  proof -
    from that have n: "j = int (nat j)" "nat j < k" using \<open>i = int k\<close> by auto
    then have "[0..15::int] ! nat j = j" using \<open>k < 16\<close> by (subst nth_upto) auto
    then show ?thesis using k(4) n(2) by metis
  qed
  ultimately show "P i \<and> i \<in> {0..15} \<and> (\<forall>j\<in>{0..<i}. \<not> P j)" using k(3) by simp
next
  assume "List.find P [0..15::int] = None"
  then show "\<forall>j\<in>{0..15}. \<not> P j" by (simp add: find_None_iff)
qed

lemma rq_pick_ok:
  assumes ok: "rq_ok s q A"
  shows "case rq_pick s of
      None \<Rightarrow> \<forall>i. q i = []
    | Some (t, s') \<Rightarrow> \<exists>i xs. i \<in> {1..15} \<and> q i = t # xs \<and> (\<forall>j<i. q j = []) \<and> rq_ok s' (q(i := xs)) A \<and> same_threads s s' \<and> s_cur s' = s_cur s"
proof (cases "List.find (\<lambda>i. s_first s i \<noteq> None) [0..15]")
  case None
  have L: "rq_list s j (q j)" "j \<notin> {1..15} \<longrightarrow> q j = []" for j using ok by (simp_all add: rq_ok_def)
  have "q j = []" for j
  proof (cases "j \<in> {1..15}")
    case True
    with find_first(2) [OF None] have "s_first s j = None" by auto
    then show ?thesis using L(1) [of j] by (auto simp: rq_list_def)
  qed (use L in simp)
  then show ?thesis using None by (simp add: rq_pick_def)
next
  case (Some i)
  have L: "rq_list s j (q j)" "j \<notin> {1..15} \<longrightarrow> q j = []" for j using ok by (simp_all add: rq_ok_def)
  note fi = find_first(1) [OF Some]
  obtain t xs where q: "q i = t # xs" using L(1) [of i] fi by (cases "q i") (auto simp: rq_list_def)
  have t: "s_first s i = Some t" using L(1) [of i] q by (simp add: rq_list_def)
  have i: "i \<in> {1..15}" using L(2) [of i] q by auto
  have low: "q j = []" if "j < i" for j
  proof (cases "j < 0")
    case False
    then have "s_first s j = None" using fi that by auto
    then show ?thesis using L(1) [of j] by (auto simp: rq_list_def)
  qed (use L(2) [of j] in simp)
  have nx: "lpath (rqn s) (rqn s t) xs None" "t \<notin> set xs" "distinct xs" using L(1) [of i] q by (auto simp: rq_list_def)
  then have e: "rqn s t = None \<longleftrightarrow> xs = []" by (cases xs) auto
  define s' where "s' = (let n = tk_rqNext (s_thr s t); s1 = s\<lparr>s_first := (s_first s)(i := n)\<rparr>;
      s1 = (if n = None then s1\<lparr>s_last := (s_last s1)(i := None)\<rparr> else s1) in upd_thr t (\<lambda>r. r\<lparr>tk_rqThread := None\<rparr>) s1)"
  have p: "rq_pick s = Some (t, s')" using Some t by (simp add: rq_pick_def s'_def Let_def)
  have f: "s_first s' = (s_first s)(i := rqn s t)" "s_last s' = (if xs = [] then (s_last s)(i := None) else s_last s)"
    "rqn s' = rqn s" "tk_rqThread (s_thr s' x) = (if x = t then None else tk_rqThread (s_thr s x))" for x
    using e by (auto simp: s'_def Let_def upd_thr_def)
  have disj: "x \<in> set (q j) \<Longrightarrow> x \<in> set (q k) \<Longrightarrow> j = k" for x j k using ok by (auto simp: rq_ok_def)
  let ?q = "q(i := xs)"
  have "rq_ok s' ?q A"
    unfolding rq_ok_def
  proof (intro conjI allI ballI impI)
    fix j
    have o: "s_first s' j = s_first s j" "s_last s' j = s_last s j" if "j \<noteq> i" using f that by auto
    show "rq_list s' j (?q j)"
    proof (cases "j = i")
      case True
      then show ?thesis using f nx L(1) [of i] q by (auto simp: rq_list_def)
    next
      case False
      then show ?thesis using L(1) [of j] o f(3) by (subst rq_list_cong [where s = s]) (auto simp: fun_eq_iff)
    qed
    have "set (q j) \<subseteq> A" "set (q i) \<subseteq> A" using ok by (simp_all add: rq_ok_def)
    then show "set (?q j) \<subseteq> A" using q by simp
    show "?q j = []" if "j \<notin> {1..15}" using ok i that by (auto simp: rq_ok_def)
  next
    fix j k x assume "x \<in> set (?q j)" "x \<in> set (?q k)"
    then show "j = k" using disj q by (auto split: if_splits)
  next
    fix x assume x: "x \<in> A"
    have "(\<exists>j. x \<in> set (?q j)) \<longleftrightarrow> (\<exists>j. x \<in> set (q j)) \<and> x \<noteq> t"
    proof (cases "x \<in> set (q i)")
      case True
      then have "(\<exists>j. x \<in> set (?q j)) \<longleftrightarrow> x \<in> set xs" using disj by (auto split: if_splits)
      then show ?thesis using True q nx(2) by (metis set_ConsD list.set_intros(2))
    next
      case False
      then have "x \<notin> set xs" "x \<noteq> t" using q by auto
      then show ?thesis using False by (auto split: if_splits)
    qed
    then show "tk_rqThread (s_thr s' x) = (if \<exists>j. x \<in> set (?q j) then Some x else None)"
      using ok x f(4) by (auto simp: rq_ok_def)
  qed
  moreover have "same_threads s s'" "s_cur s' = s_cur s"
    by (auto simp: same_threads_def s'_def Let_def upd_thr_def strip_def)
  ultimately show ?thesis using p q low i by auto
qed

section \<open>The abstract scheduler\<close>

text \<open>
  Its state is the queues and who runs: a thread that leaves the processor goes to the end of the queue of its
  priority, and the first thread of the first queue runs.
\<close>

definition spec_out :: "'c task \<Rightarrow> nat \<Rightarrow> (int \<Rightarrow> nat list) \<Rightarrow> int \<Rightarrow> nat list" where
  "spec_out r t q = (if canSched r \<and> \<not> queued q t then q(getPrio r := q (getPrio r) @ [t]) else q)"

definition spec_pick :: "(int \<Rightarrow> nat list) \<Rightarrow> (nat \<times> (int \<Rightarrow> nat list)) option" where
  "spec_pick q = map_option (\<lambda>i. (hd (q i), q(i := tl (q i)))) (List.find (\<lambda>i. q i \<noteq> []) [0..15])"

lemma spec_pick_Some:
  assumes "i \<in> {0..15}" "q i = t # xs" "\<forall>j<i. q j = []"
  shows "spec_pick q = Some (t, q(i := xs))"
proof (cases "List.find (\<lambda>i. q i \<noteq> []) [0..15]")
  case None
  then show ?thesis using find_first(2) [OF None] assms by auto
next
  case (Some k)
  have "k = i" using find_first(1) [OF Some] assms by (cases k i rule: linorder_cases) auto
  then show ?thesis using Some assms by (simp add: spec_pick_def)
qed

lemma spec_pick_None: "spec_pick q = None \<longleftrightarrow> (\<forall>i\<in>{0..15}. q i = [])"
  by (auto simp: spec_pick_def find_None_iff)

lemma rq_pick_refines:
  assumes ok: "rq_ok s q A"
  shows "case rq_pick s of
      None \<Rightarrow> spec_pick q = None
    | Some (t, s') \<Rightarrow> \<exists>q'. spec_pick q = Some (t, q') \<and> t \<in> A \<and> queued q t \<and> rq_ok s' q' A \<and> same_threads s s' \<and> s_cur s' = s_cur s"
proof -
  note p = rq_pick_ok [OF ok]
  show ?thesis
  proof (cases "rq_pick s")
    case None
    with p show ?thesis by (simp add: spec_pick_None)
  next
    case (Some r)
    obtain t s' where r: "r = (t, s')" by (cases r)
    with p Some obtain i xs where x: "i \<in> {1..15}" "q i = t # xs" "\<forall>j<i. q j = []" "rq_ok s' (q(i := xs)) A" "same_threads s s'" "s_cur s' = s_cur s"
      by auto
    then have "spec_pick q = Some (t, q(i := xs))" by (intro spec_pick_Some) auto
    moreover have "set (q i) \<subseteq> A" using ok by (simp add: rq_ok_def)
    moreover have "queued q t" using x(2) by (intro exI [of _ i]) simp
    ultimately show ?thesis using x r Some by auto
  qed
qed

lemma cpuDispatch_fields [simp]:
  "s_thr (cpuDispatch me s) = s_thr s" "s_first (cpuDispatch me s) = s_first s" "s_last (cpuDispatch me s) = s_last s"
  "s_cur (cpuDispatch me s) = s_cur s" "s_idle (cpuDispatch me s) = s_idle s" "s_numCPU (cpuDispatch me s) = s_numCPU s"
proof -
  have "s_thr (dispatch_loop me is s) = s_thr s \<and> s_first (dispatch_loop me is s) = s_first s \<and> s_last (dispatch_loop me is s) = s_last s \<and>
    s_cur (dispatch_loop me is s) = s_cur s \<and> s_idle (dispatch_loop me is s) = s_idle s \<and> s_numCPU (dispatch_loop me is s) = s_numCPU s" for "is"
    by (induction "is" arbitrary: s) (simp_all add: Let_def)
  then show "s_thr (cpuDispatch me s) = s_thr s" "s_first (cpuDispatch me s) = s_first s" "s_last (cpuDispatch me s) = s_last s"
    "s_cur (cpuDispatch me s) = s_cur s" "s_idle (cpuDispatch me s) = s_idle s" "s_numCPU (cpuDispatch me s) = s_numCPU s"
    by (simp_all add: cpuDispatch_def)
qed

lemma rq_ok_dispatch [simp]: "rq_ok (cpuDispatch me s) q A = rq_ok s q A"
  by (simp add: rq_ok_def rq_list_def)

lemma same_threads_dispatch [simp]: "same_threads s (cpuDispatch me s') = same_threads s s'"
  by (simp add: same_threads_def)

lemma requeue_refines:
  assumes ok: "rq_ok s q A" and t: "t \<notin> A \<Longrightarrow> \<not> canSched (s_thr s t)" "t \<in> A \<Longrightarrow> getPrio (s_thr s t) \<in> {1..15}"
  shows "rq_ok (requeue me t s) (spec_out (s_thr s t) t q) A \<and> same_threads s (requeue me t s) \<and> s_cur (requeue me t s) = s_cur s"
proof (cases "canSched (s_thr s t) \<and> tk_rqThread (s_thr s t) = None")
  case True
  then have A: "t \<in> A" using t by blast
  then have n: "\<not> queued q t" using True rq_ok_queued [OF ok A] by simp
  note l = rq_link_ok [OF ok A n t(2) [OF A]]
  from True n l show ?thesis by (auto simp: requeue_def spec_out_def Let_def)
next
  case False
  then have "spec_out (s_thr s t) t q = q"
    unfolding spec_out_def using rq_ok_queued [OF ok, of t] t(1) by (intro if_not_P) blast
  with False ok show ?thesis by (auto simp: requeue_def Let_def)
qed

text \<open>What a switch leaves of the threads: all but statistics, links and contexts.\<close>

definition same_core :: "'c sched \<Rightarrow> 'c sched \<Rightarrow> bool" where
  "same_core s s' \<longleftrightarrow>
     (\<forall>t. tk_flags (s_thr s' t) = tk_flags (s_thr s t) \<and> tk_wakeCounter (s_thr s' t) = tk_wakeCounter (s_thr s t) \<and>
       tk_niceVal (s_thr s' t) = tk_niceVal (s_thr s t) \<and> tk_creds (s_thr s' t) = tk_creds (s_thr s t) \<and>
       tk_prev (s_thr s' t) = tk_prev (s_thr s t) \<and> tk_next (s_thr s' t) = tk_next (s_thr s t)) \<and>
     s_idle s' = s_idle s \<and> s_numCPU s' = s_numCPU s"

lemma same_coreD:
  assumes "same_core s s'"
  shows "tk_flags (s_thr s' t) = tk_flags (s_thr s t)" "tk_niceVal (s_thr s' t) = tk_niceVal (s_thr s t)"
    "canSched (s_thr s' t) = canSched (s_thr s t)" "getPrio (s_thr s' t) = getPrio (s_thr s t)"
    "tk_creds (s_thr s' t) = tk_creds (s_thr s t)" "tk_prev (s_thr s' t) = tk_prev (s_thr s t)" "tk_next (s_thr s' t) = tk_next (s_thr s t)"
    "s_idle s' = s_idle s" "s_numCPU s' = s_numCPU s"
  using assms by (simp_all add: same_core_def canSched_def getPrio_def)

lemma same_threads_core: "same_threads s s' \<Longrightarrow> same_core s s'"
  by (simp add: same_core_def same_threadsD)

lemma same_core_trans: "same_core s s' \<Longrightarrow> same_core s' s'' \<Longrightarrow> same_core s s''"
  by (simp add: same_core_def)

lemma same_core_refl [simp]: "same_core s s"
  by (simp add: same_core_def)

lemma switch_out_refines:
  assumes ok: "rq_ok s q A" and t: "t = s_cur s me" "t \<notin> A \<Longrightarrow> \<not> canSched (s_thr s t)" "t \<in> A \<Longrightarrow> getPrio (s_thr s t) \<in> {1..15}"
    and s': "s' = switch_out me ticks regs s"
  shows "rq_ok s' (spec_out (s_thr s t) t q) A" "same_core s s'" "s_cur s' = s_cur s"
    "\<And>x. tk_ctx (s_thr s' x) = (if x = t then regs else tk_ctx (s_thr s x))"
proof -
  define u where "u = (let s = cpuBusy me (upd_thr t (\<lambda>r. r\<lparr>tk_ps := ps_add ticks (tk_ps r)\<rparr>) s);
          s = (case tk_creds (s_thr s t) of None \<Rightarrow> s
               | Some c \<Rightarrow> s\<lparr>s_cps := (s_cps s)(c := ps_add ticks (s_cps s c))\<rparr>)
      in upd_thr t (\<lambda>r. r\<lparr>tk_ctx := regs\<rparr>) s)"
  have s'u: "s' = requeue me t u" unfolding s' switch_out_def u_def Let_def t(1) ..
  have ut: "s_thr u = (s_thr s)(t := (s_thr s t)\<lparr>tk_ps := ps_add ticks (tk_ps (s_thr s t)), tk_ctx := regs\<rparr>)" "s_cur u = s_cur s"
    "s_first u = s_first s" "s_last u = s_last s" "s_idle u = s_idle s" "s_numCPU u = s_numCPU s"
    unfolding u_def Let_def by (auto simp: upd_thr_def cpuBusy_def split: option.splits)
  have oku: "rq_ok u q A" by (rule rq_ok_cong [OF ok]) (simp_all add: ut)
  have c: "same_core s u" by (simp add: same_core_def ut)
  have so: "spec_out (s_thr u t) t q = spec_out (s_thr s t) t q" by (simp add: spec_out_def canSched_def getPrio_def ut)
  note r = requeue_refines [OF oku, of t me, unfolded so same_coreD(3,4) [OF c], OF t(2,3)]
  from r show "rq_ok s' (spec_out (s_thr s t) t q) A" "s_cur s' = s_cur s" by (simp_all add: s'u ut)
  show "same_core s s'" using r same_core_trans [OF c same_threads_core] by (simp add: s'u)
  show "tk_ctx (s_thr s' x) = (if x = t then regs else tk_ctx (s_thr s x))" for x
    using same_threadsD(5) [of u "requeue me t u" x] r by (simp add: s'u ut)
qed

text \<open>The whole switch refines the abstract scheduler, and keeps and loads the contexts.\<close>

definition switched :: "'c sched \<Rightarrow> nat \<Rightarrow> 'c \<Rightarrow> ('c \<Rightarrow> 'c) \<Rightarrow> 'c \<times> 'c sched \<Rightarrow> bool" where
  "switched s me regs sigs = (\<lambda>(ctx, s').
     let t = s_cur s me; t' = s_cur s' me in
     (\<forall>c. c \<noteq> me \<longrightarrow> s_cur s' c = s_cur s c) \<and> same_core s s' \<and>
     ctx = sigs (if t' = t then regs else tk_ctx (s_thr s t')) \<and>
     (\<forall>x. tk_ctx (s_thr s' x) = (if x = t' then ctx else if x = t then regs else tk_ctx (s_thr s x))))"

lemma switch_refines:
  assumes ok: "rq_ok s q A" and t: "t = s_cur s me" "t \<notin> A \<Longrightarrow> \<not> canSched (s_thr s t)" "t \<in> A \<Longrightarrow> getPrio (s_thr s t) \<in> {1..15}"
    and sw: "switchTaskUnlocked sigs me ticks regs s = (ctx, s')"
  shows "switched s me regs sigs (ctx, s')"
    "case spec_pick (spec_out (s_thr s t) t q) of
       None \<Rightarrow> s_cur s' me = s_idle s me \<and> rq_ok s' (spec_out (s_thr s t) t q) A
     | Some (u, q') \<Rightarrow> s_cur s' me = u \<and> u \<in> A \<and> queued (spec_out (s_thr s t) t q) u \<and> rq_ok s' q' A"
proof -
  let ?o = "switch_out me ticks regs s" and ?q = "spec_out (s_thr s t) t q"
  note o = switch_out_refines [OF ok t refl, of ticks regs]
  define u where "u = (case rq_pick ?o of
                 None \<Rightarrow> (cpuReady me ?o)\<lparr>s_cur := (s_cur ?o)(me := s_idle ?o me)\<rparr>
               | Some (t, s) \<Rightarrow> s\<lparr>s_cur := (s_cur s)(me := t)\<rparr>)"
  have s': "s' = upd_thr (s_cur u me) (\<lambda>r. r\<lparr>tk_ctx := sigs (tk_ctx r)\<rparr>) u" and ctx: "ctx = tk_ctx (s_thr s' (s_cur s' me))"
    using sw by (auto simp: switchTaskUnlocked_def u_def Let_def upd_thr_def)
  have f: "s_first s' = s_first u" "s_last s' = s_last u" "s_cur s' = s_cur u" "s_idle s' = s_idle u" "s_numCPU s' = s_numCPU u"
    "s_thr s' = (s_thr u)(s_cur u me := (s_thr u (s_cur u me))\<lparr>tk_ctx := sigs (tk_ctx (s_thr u (s_cur u me)))\<rparr>)"
    by (simp_all add: s' upd_thr_def)
  have tr: "rq_ok s' x A" if "rq_ok u x A" for x by (rule rq_ok_cong [OF that]) (simp_all add: f)
  have sc: "same_core u s'" by (simp add: same_core_def f)
  note p = rq_pick_refines [OF o(1)]
  have "same_core ?o u \<and> (\<forall>x. tk_ctx (s_thr u x) = tk_ctx (s_thr ?o x)) \<and> (\<forall>c. c \<noteq> me \<longrightarrow> s_cur u c = s_cur s c) \<and>
    (case spec_pick ?q of
       None \<Rightarrow> s_cur u me = s_idle s me \<and> rq_ok u ?q A
     | Some (t, q') \<Rightarrow> s_cur u me = t \<and> t \<in> A \<and> queued ?q t \<and> rq_ok u q' A)"
  proof (cases "rq_pick ?o")
    case None
    have "rq_ok u ?q A" by (rule rq_ok_cong [OF o(1)]) (simp_all add: u_def None cpuReady_def)
    then show ?thesis using p None o(3) same_coreD(8) [OF o(2)] by (simp add: u_def cpuReady_def same_core_def)
  next
    case (Some r)
    obtain y v where r: "r = (y, v)" by (cases r)
    from p Some r obtain q' where q': "spec_pick ?q = Some (y, q')" "y \<in> A" "queued ?q y" "rq_ok v q' A" "same_threads ?o v" "s_cur v = s_cur ?o"
      by auto
    have u: "u = v\<lparr>s_cur := (s_cur v)(me := y)\<rparr>" by (simp add: u_def Some r)
    have "rq_ok u q' A" by (rule rq_ok_cong [OF q'(4)]) (simp_all add: u)
    then show ?thesis using q' same_threadsD [OF q'(5)] o(3) by (simp add: u same_core_def)
  qed
  note U = this [THEN conjunct1] this [THEN conjunct2, THEN conjunct1] this [THEN conjunct2, THEN conjunct2, THEN conjunct1]
    this [THEN conjunct2, THEN conjunct2, THEN conjunct2]
  have "same_core s s'" using same_core_trans [OF same_core_trans [OF o(2) U(1)] sc] .
  then show "switched s me regs sigs (ctx, s')"
    using U(2,3) o(4) by (auto simp: switched_def Let_def ctx f t(1))
  show "case spec_pick ?q of
       None \<Rightarrow> s_cur s' me = s_idle s me \<and> rq_ok s' ?q A
     | Some (u, q') \<Rightarrow> s_cur s' me = u \<and> u \<in> A \<and> queued ?q u \<and> rq_ok s' q' A"
    using U(4) by (auto simp: f(3) tr split: option.splits)
qed

end
