(* ===== verification/Gx_SchedProps.thy ===== *)
theory Gx_SchedProps
  imports Gx_SchedInv
begin

text \<open>
  The scheduler over every history of \<open>sched_reach\<close>: on any number of processors the queues stay well formed and no
  thread that may run is lost; on one processor a thread is in exactly one place, and on several it can run twice.
\<close>

section \<open>Who is queued\<close>

definition q_distinct :: "(int \<Rightarrow> nat list) \<Rightarrow> bool" where
  "q_distinct q \<longleftrightarrow> (\<forall>i. distinct (q i)) \<and> (\<forall>i j t. t \<in> set (q i) \<longrightarrow> t \<in> set (q j) \<longrightarrow> i = j)"

lemma rq_ok_distinct: "rq_ok s q A \<Longrightarrow> q_distinct q"
  by (simp add: rq_ok_def q_distinct_def rq_list_def)

lemma queued_in: "rq_ok s q A \<Longrightarrow> queued q t \<Longrightarrow> t \<in> A"
  unfolding rq_ok_def by blast

lemma queued_append: "queued (q(i := q i @ [t])) x \<longleftrightarrow> queued q x \<or> x = t"
proof -
  have e: "set ((q(i := q i @ [t])) j) = set (q j) \<union> (if j = i then {t} else {})" for j by simp
  show ?thesis unfolding e by auto
qed

lemma spec_out_queued: "queued (spec_out r t q) x \<longleftrightarrow> queued q x \<or> (x = t \<and> canSched r)"
proof (cases "canSched r \<and> \<not> queued q t")
  case True
  then have "spec_out r t q = q(getPrio r := q (getPrio r) @ [t])" by (simp add: spec_out_def)
  with True show ?thesis by (simp only: queued_append) blast
next
  case False
  then have "spec_out r t q = q" unfolding spec_out_def by (rule if_not_P)
  with False show ?thesis by auto
qed

lemma spec_out_distinct: "q_distinct q \<Longrightarrow> q_distinct (spec_out r t q)"
  by (auto simp: spec_out_def q_distinct_def)

lemma spec_pick_queued:
  assumes p: "spec_pick q = Some (u, q')" and d: "q_distinct q"
  shows "queued q u" "queued q' x \<longleftrightarrow> queued q x \<and> x \<noteq> u"
proof -
  obtain i where i: "q i \<noteq> []" "u = hd (q i)" "q' = q(i := tl (q i))"
    using p find_first(1) by (fastforce simp: spec_pick_def)
  then obtain xs where xs: "q i = u # xs" by (cases "q i") auto
  have "distinct (q i)" using d unfolding q_distinct_def by blast
  moreover have ui: "u \<in> set (q i)" using xs by simp
  ultimately have u: "u \<notin> set xs" "u \<in> set (q j) \<Longrightarrow> j = i" for j using d xs unfolding q_distinct_def by auto
  show "queued q u" using ui by (rule exI)
  have q': "q' = q(i := xs)" using i(3) xs by simp
  have "set (q' j) = set (q j) - {u}" for j
  proof (cases "j = i")
    case True
    then show ?thesis using u(1) xs by (simp add: q')
  next
    case False
    then show ?thesis using u(2) [of j] by (auto simp: q')
  qed
  then show "queued q' x \<longleftrightarrow> queued q x \<and> x \<noteq> u" by auto
qed

section \<open>Signalling\<close>

text \<open>Where a thread goes that is woken.\<close>

definition spec_wake :: "'c task \<Rightarrow> nat \<Rightarrow> (int \<Rightarrow> nat list) \<Rightarrow> int \<Rightarrow> nat list" where
  "spec_wake r t q =
     (if has (tk_flags r) THREAD_WAITING \<and> \<not> queued q t then q(getPrio r := q (getPrio r) @ [t]) else q)"

lemma spec_wake_queued: "queued (spec_wake r t q) x \<longleftrightarrow> queued q x \<or> (x = t \<and> has (tk_flags r) THREAD_WAITING)"
proof (cases "has (tk_flags r) THREAD_WAITING \<and> \<not> queued q t")
  case True
  then have "spec_wake r t q = q(getPrio r := q (getPrio r) @ [t])" by (simp add: spec_wake_def)
  with True show ?thesis by (simp only: queued_append) blast
next
  case False
  then have "spec_wake r t q = q" unfolding spec_wake_def by (rule if_not_P)
  with False show ?thesis by auto
qed

lemma rq_ok_upd:
  assumes "\<And>r. tk_rqNext (f r) = tk_rqNext r" "\<And>r. tk_rqThread (f r) = tk_rqThread r"
  shows "rq_ok (upd_thr t f s) q A = rq_ok s q A"
proof -
  have "rqn (upd_thr t f s) = rqn s" "tk_rqThread (s_thr (upd_thr t f s) x) = tk_rqThread (s_thr s x)" for x
    using assms by (auto simp: upd_thr_def)
  then show ?thesis by (simp add: rq_ok_def rq_list_def) (simp add: upd_thr_def)
qed

lemma upd_thr_fields [simp]:
  "s_first (upd_thr t f s) = s_first s" "s_last (upd_thr t f s) = s_last s" "s_cur (upd_thr t f s) = s_cur s"
  "s_idle (upd_thr t f s) = s_idle s" "s_numCPU (upd_thr t f s) = s_numCPU s" "s_thr (upd_thr t f s) x = (if x = t then f (s_thr s t) else s_thr s x)"
  by (auto simp: upd_thr_def)

text \<open>The flags after a wake, and what stays of every thread.\<close>

definition woken_flags :: "nat \<Rightarrow> 'c sched \<Rightarrow> 'c sched \<Rightarrow> bool" where
  "woken_flags t s s' \<longleftrightarrow>
     (\<forall>x. tk_flags (s_thr s' x) = (if x = t then tk_flags (s_thr s x) AND NOT THREAD_WAITING else tk_flags (s_thr s x)) \<and>
       tk_niceVal (s_thr s' x) = tk_niceVal (s_thr s x) \<and> tk_creds (s_thr s' x) = tk_creds (s_thr s x) \<and>
       tk_prev (s_thr s' x) = tk_prev (s_thr s x) \<and> tk_next (s_thr s' x) = tk_next (s_thr s x) \<and> tk_ctx (s_thr s' x) = tk_ctx (s_thr s x)) \<and>
     s_cur s' = s_cur s \<and> s_idle s' = s_idle s \<and> s_numCPU s' = s_numCPU s"

lemma not_waiting: "\<not> has w THREAD_WAITING \<Longrightarrow> w AND NOT THREAD_WAITING = w" for w :: u64
proof -
  assume "\<not> has w THREAD_WAITING"
  then have "\<not> bit w 0" by (simp add: has_def and_one_eq mod_2_eq_odd bit_0 split: if_splits)
  then have "w AND NOT (push_bit 0 1) = w" by (intro bit_word_eqI) (auto simp: bit_simps intro: gr0I)
  then show ?thesis by simp
qed

lemma sched_signal_refines:
  assumes ok: "rq_ok s q A" and t: "t \<in> A" "getPrio (s_thr s t) \<in> {1..15}"
  shows "rq_ok (snd (sched_signal me t s)) (spec_wake (s_thr s t) t q) A" "woken_flags t s (snd (sched_signal me t s))"
proof -
  let ?s' = "snd (sched_signal me t s)"
  have "rq_ok ?s' (spec_wake (s_thr s t) t q) A \<and> woken_flags t s ?s'"
  proof (cases "has (tk_flags (s_thr s t)) THREAD_WAITING")
    case False
    then show ?thesis
      using ok not_waiting by (simp add: sched_signal_def Let_def spec_wake_def rq_ok_upd woken_flags_def)
  next
    case True
    define u where "u = upd_thr t (\<lambda>r. r\<lparr>tk_flags := tk_flags r AND NOT THREAD_WAITING\<rparr>) s"
    have oku: "rq_ok u q A" using ok by (simp add: u_def rq_ok_upd)
    have wu: "woken_flags t s u" by (simp add: woken_flags_def u_def)
    have pu: "getPrio (s_thr u t) = getPrio (s_thr s t)" "tk_rqThread (s_thr u t) = tk_rqThread (s_thr s t)" by (simp_all add: u_def getPrio_def)
    show ?thesis
    proof (cases "queued q t")
      case q: True
      then have "tk_rqThread (s_thr u t) \<noteq> None" using rq_ok_queued [OF oku t(1)] by simp
      then have "?s' = cpuDispatch me u" using True by (auto simp: sched_signal_def Let_def u_def)
      then show ?thesis using oku wu q by (simp add: spec_wake_def woken_flags_def)
    next
      case q: False
      then have "tk_rqThread (s_thr u t) = None" using rq_ok_queued [OF oku t(1)] by simp
      then have s': "?s' = cpuDispatch me (rq_link (getPrio (s_thr s t)) t u)" using True pu by (simp add: sched_signal_def Let_def u_def)
      note l = rq_link_ok [OF oku t(1) q t(2)]
      show ?thesis using l wu True q same_threadsD [OF l(2)] by (simp add: s' spec_wake_def woken_flags_def)
    qed
  qed
  then show "rq_ok ?s' (spec_wake (s_thr s t) t q) A" "woken_flags t s ?s'" by simp_all
qed

section \<open>The invariant on any number of processors\<close>

definition smp_inv :: "nat \<Rightarrow> nat \<Rightarrow> 'c smp \<Rightarrow> (int \<Rightarrow> nat list) \<Rightarrow> bool" where
  "smp_inv first sysman = (\<lambda>(s, P, A) q.
     rq_ok s q A \<and> P \<subseteq> {..<s_numCPU s} \<and> {first, sysman} \<subseteq> A \<and>
     (\<forall>t\<in>A. tk_niceVal (s_thr s t) \<in> {-7..7}) \<and>
     (\<forall>c. s_idle s c \<notin> A \<and> tk_flags (s_thr s (s_idle s c)) = THREAD_WAITING) \<and>
     (\<forall>c < s_numCPU s. s_cur s c \<in> A \<or> s_cur s c = s_idle s c) \<and>
     (\<forall>t\<in>A. canSched (s_thr s t) \<longrightarrow> queued q t \<or> (\<exists>c < s_numCPU s. s_cur s c = t)))"

lemma canSched_flags: "canSched r \<longleftrightarrow> tk_flags r AND 37 = 0"
  by (simp add: canSched_def has_def)

lemma waiting_not_canSched: "tk_flags r = THREAD_WAITING \<Longrightarrow> \<not> canSched r"
  by (simp add: canSched_flags)

lemma canSched_or: "canSched (r\<lparr>tk_flags := tk_flags r OR f\<rparr>) \<Longrightarrow> canSched r"
  by (simp add: canSched_flags bit.conj_disj_distrib bit.conj_disj_distrib2 or_eq_0_iff)

lemma canSched_fields [simp]:
  "canSched (r\<lparr>tk_wakeCounter := n\<rparr>) = canSched r" "canSched (r\<lparr>tk_niceVal := i\<rparr>) = canSched r"
  "canSched (r\<lparr>tk_prev := p\<rparr>) = canSched r" "canSched (r\<lparr>tk_next := p\<rparr>) = canSched r"
  by (simp_all add: canSched_def)

lemma canSched_off: "\<not> canSched (r\<lparr>tk_flags := w OR THREAD_WAITING\<rparr>)"
proof -
  have "odd ((w OR THREAD_WAITING) AND 37)" by (simp add: even_and_iff even_or_iff)
  then have "(w OR THREAD_WAITING) AND 37 \<noteq> 0" using even_zero by metis
  then show ?thesis by (simp add: canSched_flags)
qed

lemma smp_inv_prio: "smp_inv first sysman (s, P, A) q \<Longrightarrow> t \<in> A \<Longrightarrow> getPrio (s_thr s t) \<in> {1..15}"
  by (auto simp: smp_inv_def getPrio_def)

text \<open>A change of one thread that does not make it schedulable.\<close>

lemma smp_inv_upd:
  assumes inv: "smp_inv first sysman (s, P, A) q" and t: "t \<in> A"
    and f: "\<And>r. tk_rqNext (f r) = tk_rqNext r" "\<And>r. tk_rqThread (f r) = tk_rqThread r"
    and n: "tk_niceVal (f (s_thr s t)) \<in> {-7..7}" and c: "canSched (f (s_thr s t)) \<Longrightarrow> canSched (s_thr s t)"
    and P: "P' \<subseteq> {..<s_numCPU s}"
  shows "smp_inv first sysman (upd_thr t f s, P', A) q"
  using inv t n c P rq_ok_upd [of f, OF f] by (auto simp: smp_inv_def)

lemma smp_inv_flag:
  assumes inv: "smp_inv first sysman (s, P, A) q" and t: "t \<in> A"
  shows "smp_inv first sysman (set_flag f t s, P, A) q"
  unfolding set_flag_def
proof (rule smp_inv_upd [OF inv t])
  show "P \<subseteq> {..<s_numCPU s}" "tk_niceVal (s_thr s t\<lparr>tk_flags := tk_flags (s_thr s t) OR f\<rparr>) \<in> {-7..7}"
    using inv t by (auto simp: smp_inv_def)
  show "canSched (s_thr s t\<lparr>tk_flags := tk_flags (s_thr s t) OR f\<rparr>) \<Longrightarrow> canSched (s_thr s t)" by (rule canSched_or)
qed simp_all

text \<open>A change that the scheduler does not see.\<close>

lemma smp_inv_same:
  assumes inv: "smp_inv first sysman (s, P, A) q"
    and e: "\<And>t. tk_flags (s_thr s' t) = tk_flags (s_thr s t) \<and> tk_niceVal (s_thr s' t) = tk_niceVal (s_thr s t) \<and>
        tk_rqNext (s_thr s' t) = tk_rqNext (s_thr s t) \<and> tk_rqThread (s_thr s' t) = tk_rqThread (s_thr s t)"
      "s_first s' = s_first s" "s_last s' = s_last s" "s_cur s' = s_cur s" "s_idle s' = s_idle s" "s_numCPU s' = s_numCPU s"
  shows "smp_inv first sysman (s', P, A) q"
proof -
  have "rq_ok s q A" using inv by (simp add: smp_inv_def)
  then have "rq_ok s' q A" by (rule rq_ok_cong) (simp_all add: e)
  moreover have "canSched (s_thr s' t) = canSched (s_thr s t)" for t using e(1) by (simp add: canSched_def)
  ultimately show ?thesis using inv by (simp add: smp_inv_def e)
qed

lemma smp_inv_signal:
  assumes inv: "smp_inv first sysman (s, P, A) q" and t: "t \<in> A"
  shows "smp_inv first sysman (snd (sched_signal me t s), P, A) (spec_wake (s_thr s t) t q)"
proof -
  let ?s' = "snd (sched_signal me t s)"
  have ok: "rq_ok s q A" using inv by (simp add: smp_inv_def)
  note r = sched_signal_refines [OF ok t smp_inv_prio [OF inv t], of me]
  have w: "woken_flags t s ?s'" using r(2) .
  have fl: "tk_flags (s_thr ?s' x) = (if x = t then tk_flags (s_thr s x) AND NOT THREAD_WAITING else tk_flags (s_thr s x))" for x
    using w unfolding woken_flags_def by blast
  have c: "queued (spec_wake (s_thr s t) t q) x \<or> canSched (s_thr s x)" if "canSched (s_thr ?s' x)" for x
  proof (cases "x = t \<and> has (tk_flags (s_thr s t)) THREAD_WAITING")
    case True
    then show ?thesis by (simp only: spec_wake_queued) blast
  next
    case False
    then have "tk_flags (s_thr ?s' x) = tk_flags (s_thr s x)" using not_waiting unfolding fl by metis
    then show ?thesis using that by (simp add: canSched_def)
  qed
  have i: "s_idle ?s' = s_idle s" "s_cur ?s' = s_cur s" "s_numCPU ?s' = s_numCPU s" "\<And>x. tk_niceVal (s_thr ?s' x) = tk_niceVal (s_thr s x)"
    using w by (simp_all add: woken_flags_def)
  have "\<forall>x\<in>A. canSched (s_thr ?s' x) \<longrightarrow> queued (spec_wake (s_thr s t) t q) x \<or> (\<exists>c < s_numCPU s. s_cur s c = x)"
    using c inv unfolding smp_inv_def spec_wake_queued by fastforce
  moreover have "tk_flags (s_thr ?s' (s_idle s c)) = THREAD_WAITING" for c
    using inv t unfolding fl by (auto simp: smp_inv_def)
  ultimately show ?thesis using inv r(1) by (simp add: smp_inv_def i)
qed

lemma smp_inv_switch:
  assumes inv: "smp_inv first sysman (s, P, A) q" and c: "c < s_numCPU s" and P: "P' \<subseteq> {..<s_numCPU s}"
  shows "\<exists>q'. smp_inv first sysman (snd (switchTaskUnlocked sigs c ticks regs s), P', A) q' \<and>
    (\<forall>x. queued q' x \<longleftrightarrow> queued (spec_out (s_thr s (s_cur s c)) (s_cur s c) q) x \<and> x \<noteq> s_cur (snd (switchTaskUnlocked sigs c ticks regs s)) c) \<and>
    (case spec_pick (spec_out (s_thr s (s_cur s c)) (s_cur s c) q) of None \<Rightarrow> s_cur (snd (switchTaskUnlocked sigs c ticks regs s)) c = s_idle s c
     | Some (u, _) \<Rightarrow> s_cur (snd (switchTaskUnlocked sigs c ticks regs s)) c = u \<and> queued (spec_out (s_thr s (s_cur s c)) (s_cur s c) q) u)"
proof -
  let ?t = "s_cur s c" and ?q = "spec_out (s_thr s (s_cur s c)) (s_cur s c) q"
  obtain ctx s' where sw: "switchTaskUnlocked sigs c ticks regs s = (ctx, s')" by (cases "switchTaskUnlocked sigs c ticks regs s")
  have ok: "rq_ok s q A" using inv by (simp add: smp_inv_def)
  have idle: "?t \<notin> A \<Longrightarrow> \<not> canSched (s_thr s ?t)"
  proof -
    assume "?t \<notin> A"
    then have "?t = s_idle s c" using inv c by (auto simp: smp_inv_def)
    then have "tk_flags (s_thr s ?t) = THREAD_WAITING" using inv by (simp add: smp_inv_def)
    then show "\<not> canSched (s_thr s ?t)" by (rule waiting_not_canSched)
  qed
  note r = switch_refines [OF ok refl idle smp_inv_prio [OF inv] sw]
  have core: "same_core s s'" "\<forall>d. d \<noteq> c \<longrightarrow> s_cur s' d = s_cur s d" using r(1) by (simp_all add: switched_def Let_def)
  note co = same_coreD [OF core(1)]
  have d: "q_distinct ?q" using spec_out_distinct rq_ok_distinct [OF ok] by blast
  have l: "\<forall>x\<in>A. canSched (s_thr s x) \<longrightarrow> queued ?q x \<or> (\<exists>d < s_numCPU s. d \<noteq> c \<and> s_cur s d = x)"
    using inv unfolding smp_inv_def spec_out_queued by fastforce
  obtain q' where q': "rq_ok s' q' A" "\<forall>x. queued q' x \<longleftrightarrow> queued ?q x \<and> x \<noteq> s_cur s' c" "s_cur s' c \<in> A \<or> s_cur s' c = s_idle s c"
    "case spec_pick ?q of None \<Rightarrow> s_cur s' c = s_idle s c | Some (u, _) \<Rightarrow> s_cur s' c = u \<and> queued ?q u"
  proof (cases "spec_pick ?q")
    case None
    with r(2) have n: "s_cur s' c = s_idle s c" "rq_ok s' ?q A" by simp_all
    have "s_idle s c \<notin> A" using inv by (simp add: smp_inv_def)
    then have "\<not> queued ?q (s_cur s' c)" using n queued_in by metis
    then have "\<forall>x. queued ?q x \<longleftrightarrow> queued ?q x \<and> x \<noteq> s_cur s' c" by metis
    then show thesis using that [of ?q] n None by simp
  next
    case (Some p)
    obtain u q' where p: "p = (u, q')" by (cases p)
    with r(2) Some have n: "s_cur s' c = u" "rq_ok s' q' A" "u \<in> A" by simp_all
    have pq: "spec_pick ?q = Some (u, q')" using Some p by simp
    show thesis using that [of q'] n Some p spec_pick_queued [OF pq d] by simp
  qed
  have "\<forall>x\<in>A. canSched (s_thr s' x) \<longrightarrow> queued q' x \<or> (\<exists>d < s_numCPU s'. s_cur s' d = x)"
  proof (intro ballI impI)
    fix x assume x: "x \<in> A" "canSched (s_thr s' x)"
    then consider "queued ?q x" | d where "d < s_numCPU s" "d \<noteq> c" "s_cur s d = x" using l co by metis
    then show "queued q' x \<or> (\<exists>d < s_numCPU s'. s_cur s' d = x)"
    proof cases
      case 1
      then show ?thesis using q'(2) c co by (cases "x = s_cur s' c") auto
    next
      case 2
      then show ?thesis using core(2) co by auto
    qed
  qed
  moreover have "\<forall>d < s_numCPU s. s_cur s' d \<in> A \<or> s_cur s' d = s_idle s d"
  proof (intro allI impI)
    fix d assume d: "d < s_numCPU s"
    have "s_cur s d \<in> A \<or> s_cur s d = s_idle s d" using inv d by (simp add: smp_inv_def)
    then show "s_cur s' d \<in> A \<or> s_cur s' d = s_idle s d" using q'(3) core(2) by (cases "d = c") auto
  qed
  ultimately have "smp_inv first sysman (s', P', A) q'"
    using inv q'(1) P by (simp add: smp_inv_def co)
  then show ?thesis unfolding sw snd_conv using q'(2,4) by (intro exI [of _ q'] conjI)
qed

lemma smp_inv_switched:
  assumes "smp_inv first sysman (s, P, A) q" "c < s_numCPU s"
  shows "\<exists>q'. smp_inv first sysman (snd (switchTaskUnlocked sigs c ticks regs s), P, A) q'"
proof -
  have "P \<subseteq> {..<s_numCPU s}" using assms(1) by (simp add: smp_inv_def)
  then show ?thesis using smp_inv_switch [OF assms] by blast
qed

lemma set_flag_fields [simp]: "s_numCPU (set_flag f t s) = s_numCPU s" "s_cur (set_flag f t s) = s_cur s"
  by (simp_all add: set_flag_def)

lemma ring_link_fields [simp]:
  "tk_flags (s_thr (ring_link c t s) x) = tk_flags (s_thr s x)" "tk_niceVal (s_thr (ring_link c t s) x) = tk_niceVal (s_thr s x)"
  "tk_rqNext (s_thr (ring_link c t s) x) = tk_rqNext (s_thr s x)" "tk_rqThread (s_thr (ring_link c t s) x) = tk_rqThread (s_thr s x)"
  "tk_creds (s_thr (ring_link c t s) x) = tk_creds (s_thr s x)"
  "s_first (ring_link c t s) = s_first s" "s_last (ring_link c t s) = s_last s" "s_cur (ring_link c t s) = s_cur s"
  "s_idle (ring_link c t s) = s_idle s" "s_numCPU (ring_link c t s) = s_numCPU s"
  by (simp_all add: ring_link_def Let_def)

lemma ring_unlink_fields [simp]:
  "tk_flags (s_thr (ring_unlink t s) x) = tk_flags (s_thr s x)" "tk_niceVal (s_thr (ring_unlink t s) x) = tk_niceVal (s_thr s x)"
  "tk_rqNext (s_thr (ring_unlink t s) x) = tk_rqNext (s_thr s x)" "tk_rqThread (s_thr (ring_unlink t s) x) = tk_rqThread (s_thr s x)"
  "tk_creds (s_thr (ring_unlink t s) x) = tk_creds (s_thr s x)"
  "s_first (ring_unlink t s) = s_first s" "s_last (ring_unlink t s) = s_last s" "s_cur (ring_unlink t s) = s_cur s"
  "s_idle (ring_unlink t s) = s_idle s" "s_numCPU (ring_unlink t s) = s_numCPU s"
  by (simp_all add: ring_unlink_def Let_def)

text \<open>A new thread, not yet queued, and its first place.\<close>

lemma new_thread_ok:
  assumes ok: "rq_ok s q A" and t: "t \<notin> A" and s': "s' = ring_link c t (upd_thr t (new_task fl n cr regs) s)"
  shows "rq_ok s' q (insert t A)" "\<not> queued q t"
proof -
  show n: "\<not> queued q t" using queued_in [OF ok] t by blast
  have 1: "rq_ok s' q A" by (rule rq_ok_cong [OF ok]) (use t in \<open>auto simp: s'\<close>)
  have "tk_rqThread (s_thr s' t) = None" by (simp add: s' new_task_def)
  then show "rq_ok s' q (insert t A)" using 1 n unfolding rq_ok_def by auto
qed

lemma smp_inv_new:
  assumes inv: "smp_inv first sysman (s, P, A) q" and t: "t \<notin> A" "\<forall>d. t \<noteq> s_idle s d"
    and s': "s' = ring_link c t (upd_thr t (new_task fl n cr regs) s)" and n: "n \<in> {-7..7}"
  shows "i \<in> {1..15} \<Longrightarrow> smp_inv first sysman (rq_link i t s', P, insert t A) (q(i := q i @ [t]))"
    "\<not> canSched (s_thr s' t) \<Longrightarrow> smp_inv first sysman (s', P, insert t A) q"
proof -
  have ok: "rq_ok s q A" using inv by (simp add: smp_inv_def)
  note N = new_thread_ok [OF ok t(1) s']
  have f: "tk_flags (s_thr s' x) = (if x = t then fl else tk_flags (s_thr s x))" "tk_niceVal (s_thr s' x) = (if x = t then n else tk_niceVal (s_thr s x))"
    "s_idle s' = s_idle s" "s_cur s' = s_cur s" "s_numCPU s' = s_numCPU s" for x
    by (simp_all add: s' new_task_def)
  have c: "canSched (s_thr s' x) = canSched (s_thr s x)" if "x \<noteq> t" for x using f(1) [of x] that by (simp add: canSched_def)
  have base: "P \<subseteq> {..<s_numCPU s}" "{first, sysman} \<subseteq> A" "\<forall>t\<in>A. tk_niceVal (s_thr s t) \<in> {-7..7}"
    "\<forall>c. s_idle s c \<notin> A \<and> tk_flags (s_thr s (s_idle s c)) = THREAD_WAITING"
    "\<forall>c < s_numCPU s. s_cur s c \<in> A \<or> s_cur s c = s_idle s c"
    "\<forall>t\<in>A. canSched (s_thr s t) \<longrightarrow> queued q t \<or> (\<exists>c < s_numCPU s. s_cur s c = t)"
    using inv by (simp_all add: smp_inv_def)
  have rest: "P \<subseteq> {..<s_numCPU s'}" "{first, sysman} \<subseteq> insert t A" "\<forall>x\<in>insert t A. tk_niceVal (s_thr s' x) \<in> {-7..7}"
    "\<forall>c. s_idle s' c \<notin> insert t A \<and> tk_flags (s_thr s' (s_idle s' c)) = THREAD_WAITING"
    "\<forall>c < s_numCPU s'. s_cur s' c \<in> insert t A \<or> s_cur s' c = s_idle s' c"
    using base t n unfolding f by auto
  show "smp_inv first sysman (s', P, insert t A) q" if nc: "\<not> canSched (s_thr s' t)"
    unfolding smp_inv_def prod.case
  proof (intro conjI N rest)
    show "\<forall>x\<in>insert t A. canSched (s_thr s' x) \<longrightarrow> queued q x \<or> (\<exists>c < s_numCPU s'. s_cur s' c = x)"
    proof (intro ballI impI)
      fix x assume x: "x \<in> insert t A" "canSched (s_thr s' x)"
      then have "x \<in> A" "x \<noteq> t" using nc by auto
      then show "queued q x \<or> (\<exists>c < s_numCPU s'. s_cur s' c = x)" using base(6) c x unfolding f by blast
    qed
  qed
  show "smp_inv first sysman (rq_link i t s', P, insert t A) (q(i := q i @ [t]))" if i: "i \<in> {1..15}"
  proof -
    note l = rq_link_ok [OF N(1) insertI1 N(2) i]
    note e = same_threadsD [OF l(2)]
    show ?thesis
      unfolding smp_inv_def prod.case e l(3) queued_append
    proof (intro conjI l(1) rest)
      show "\<forall>x\<in>insert t A. canSched (s_thr s' x) \<longrightarrow> (queued q x \<or> x = t) \<or> (\<exists>c < s_numCPU s'. s_cur s' c = x)"
        using base(6) c unfolding f by auto
    qed
  qed
qed

lemma smp_inv_exit:
  assumes inv: "smp_inv first sysman (s, P, A) q" and c: "c < s_numCPU s" "s_cur s c \<in> A" and x: "x = s_cur s c"
  shows "\<exists>q'. smp_inv first sysman (exit_switch sigs sysman c ticks regs s, P, A) q'"
proof -
  have P: "P \<subseteq> {..<s_numCPU s}" and sm: "sysman \<in> A" using inv by (simp_all add: smp_inv_def)
  have i1: "smp_inv first sysman (set_flag THREAD_TERMINATED (s_cur s c) s, P, A) q"
    by (rule smp_inv_flag [OF inv c(2)])
  note i2 = smp_inv_signal [OF i1 sm, of c]
  let ?s2 = "snd (sched_signal c sysman (set_flag THREAD_TERMINATED (s_cur s c) s))"
  have ok: "rq_ok (set_flag THREAD_TERMINATED (s_cur s c) s) q A" using i1 by (simp add: smp_inv_def)
  have "woken_flags sysman (set_flag THREAD_TERMINATED (s_cur s c) s) ?s2" by (rule sched_signal_refines(2) [OF ok sm smp_inv_prio [OF i1 sm]])
  then have c2: "s_numCPU ?s2 = s_numCPU s" by (simp add: woken_flags_def set_flag_def)
  have P2: "P \<subseteq> {..<s_numCPU ?s2}" "c < s_numCPU ?s2" using P c c2 by simp_all
  from smp_inv_switch [OF i2 P2(2) P2(1)] show ?thesis unfolding exit_switch_def Let_def by blast
qed

lemma thnice_range: "fst (thnice me incr s) \<in> {-7..7}"
  by (simp add: thnice_def Let_def)

lemma smp_inv_step:
  assumes "sched_step first sysman m m'" and "smp_inv first sysman m q"
  shows "\<exists>q'. smp_inv first sysman m' q'"
  using assms
proof (induction rule: sched_step.induct)
  case (tick c s P A sigs ticks regs)
  show ?case by (rule smp_inv_switched [OF tick(3,1)])
next
  case (block c s P A)
  have P: "insert c P \<subseteq> {..<s_numCPU s}" "tk_niceVal (s_thr s (s_cur s c)) \<in> {-7..7}" using block by (auto simp: smp_inv_def)
  have "smp_inv first sysman (sched_wait (s_cur s c) s, insert c P, A) q"
    unfolding sched_wait_def by (rule smp_inv_upd [OF block(4,3) _ _ _ _ P(1)]) (use P(2) canSched_off in \<open>auto split: if_splits\<close>)
  then show ?case by blast
next
  case (yield c P s A sigs ticks regs)
  have "P - {c} \<subseteq> {..<s_numCPU s}" "c < s_numCPU s" using yield by (auto simp: smp_inv_def)
  then show ?case using smp_inv_switch [OF yield(2)] by blast
next
  case (wake c s P t A)
  then show ?case using smp_inv_signal by blast
next
  case (cont c s P t A)
  have P: "P \<subseteq> {..<s_numCPU s}" "tk_niceVal (s_thr s t) \<in> {-7..7}" using cont by (auto simp: smp_inv_def)
  have "smp_inv first sysman (upd_thr t (\<lambda>r. r\<lparr>tk_flags := tk_flags r AND NOT THREAD_TRACED OR THREAD_WAITING\<rparr>) s, P, A) q"
    by (rule smp_inv_upd [OF cont(5,3) _ _ _ _ P(1)]) (use P(2) canSched_off in auto)
  from smp_inv_signal [OF this cont(3)] show ?case unfolding sched_cont_def by blast
next
  case (nice c s P A perm incr)
  have P: "P \<subseteq> {..<s_numCPU s}" "tk_niceVal (s_thr s (s_cur s c)) \<in> {-7..7}" using nice by (auto simp: smp_inv_def)
  have "smp_inv first sysman (snd (thnice c incr s), P, A) q"
    using thnice_range [of c incr s] unfolding thnice_def Let_def snd_conv
    by (intro smp_inv_upd [OF nice(4,3) _ _ _ _ P(1)]) auto
  then show ?case using nice(4) by (auto simp: sys_nice_def)
next
  case (create c s P A t fl regs)
  define s1 where s1: "s1 = ring_link (s_cur s c) t (upd_thr t (new_task fl 0 None regs) s)"
  have e: "CreateKernelThread c t fl regs s = (if canSched (s_thr s1 t) then rq_link 7 t s1 else s1)"
    by (simp add: CreateKernelThread_def Let_def s1)
  note N = smp_inv_new [OF create(7,4,5) s1]
  have "smp_inv first sysman (rq_link 7 t s1, P, insert t A) (q(7 := q 7 @ [t]))" using N(1) [of 7] by simp
  then show ?case using N(2) unfolding e by (cases "canSched (s_thr s1 t)") auto
next
  case (clone c s P A t fl cr regs)
  let ?n = "tk_niceVal (s_thr s (s_cur s c))"
  define s1 where s1: "s1 = ring_link (s_cur s c) t (upd_thr t (new_task fl ?n (Some cr) regs) s)"
  have n: "?n \<in> {-7..7}" using clone by (auto simp: smp_inv_def)
  have g: "getPrio (s_thr s1 t) = 8 + ?n" by (simp add: s1 new_task_def getPrio_def)
  have e: "clone_link c t fl (Some cr) regs s = rq_link (8 + ?n) t s1"
    unfolding clone_link_def Let_def s1 [symmetric] g ..
  show ?case using smp_inv_new(1) [OF clone(7,4,5) s1 n, of "8 + ?n"] n unfolding e by auto
next
  case (uend c s P A sigs ticks regs s')
  then have "s' = exit_switch sigs sysman c ticks regs s" by (simp add: thread_exit_def split: if_splits)
  then show ?case using smp_inv_exit [OF uend(5,1,3) refl] by blast
next
  case (kend c s P A sigs ticks regs s')
  have c: "s_cur s c \<in> A" using kend by simp
  show ?case
  proof (cases "has (tk_flags (s_thr s (s_cur s c))) THREAD_DETACHED")
    case True
    then have "s' = exit_switch sigs sysman c ticks regs s" using kend(4) by (simp add: kernelThreadExit_def Let_def split: if_splits)
    then show ?thesis using smp_inv_exit [OF kend(5,1) c refl] by blast
  next
    case False
    let ?s1 = "set_flag THREAD_TERMINATED (s_cur s c) (ring_unlink (s_cur s c) s)"
    have s': "s' = snd (switchTaskUnlocked sigs c ticks regs ?s1)"
      using kend(4) False by (simp add: kernelThreadExit_def Let_def split: if_splits)
    have i: "smp_inv first sysman (ring_unlink (s_cur s c) s, P, A) q" by (rule smp_inv_same [OF kend(5)]) simp_all
    have i1: "smp_inv first sysman (?s1, P, A) q"
      by (rule smp_inv_flag [OF i c])
    show ?thesis unfolding s' by (rule smp_inv_switched [OF i1]) (simp add: kend(1))
  qed
next
  case (trap c s P A sigs ticks regs)
  have i1: "smp_inv first sysman (set_flag THREAD_TRACED (s_cur s c) s, P, A) q"
    by (rule smp_inv_flag [OF trap(4,3)])
  show ?case unfolding traceTrap_def by (rule smp_inv_switched [OF i1]) (simp add: trap(1))
next
  case (reap c s P r s' A)
  then have "s' = s \<or> (\<exists>t. s' = ring_unlink t s)" by (auto simp: sysman_reap_def split: option.splits if_splits)
  moreover have "smp_inv first sysman (ring_unlink t s, P, A) q" for t by (rule smp_inv_same [OF reap(5)]) simp_all
  ultimately show ?case using reap(5) by blast
qed

lemma smp_inv_boot:
  assumes "sched_boot first sysman (s, P, A)"
  shows "smp_inv first sysman (s, P, A) (\<lambda>i. if i = 7 then [sysman] else [])"
proof -
  let ?q = "\<lambda>i::int. if i = 7 then [sysman] else []"
  note B = assms [unfolded sched_boot_def prod.case]
  have b1: "P = {}" using B by (elim conjE) assumption
  have b2: "A = {first, sysman}" using B by (elim conjE) assumption
  have b3: "0 < s_numCPU s" using B by (elim conjE) assumption
  have b4: "s_cur s 0 = first" using B by (elim conjE) assumption
  have b5: "\<forall>c. 0 < c \<longrightarrow> s_cur s c = s_idle s c" using B by (elim conjE) assumption
  have b6: "\<forall>i. s_first s i = (if i = 7 then Some sysman else None) \<and> s_last s i = s_first s i" using B by (elim conjE) assumption
  have b7: "\<forall>c. s_idle s c \<notin> A \<and> tk_flags (s_thr s (s_idle s c)) = THREAD_WAITING" using B by (elim conjE) assumption
  have b8: "first \<noteq> sysman" using B by (elim conjE) assumption
  have b9: "tk_rqThread (s_thr s first) = None" using B by (elim conjE) assumption
  have b10: "tk_rqThread (s_thr s sysman) = Some sysman" using B by (elim conjE) assumption
  note b = b1 b2 b3 b4 b5 b6 b7 b8 b9 b10
  have "\<forall>t\<in>A. tk_flags (s_thr s t) = 0 \<and> tk_wakeCounter (s_thr s t) = 0 \<and> tk_niceVal (s_thr s t) = 0 \<and> tk_creds (s_thr s t) = None \<and>
        tk_rqNext (s_thr s t) = None" using B by (elim conjE) assumption
  then have z: "\<forall>t\<in>A. tk_rqNext (s_thr s t) = None" "\<forall>t\<in>A. tk_niceVal (s_thr s t) = 0" by simp_all
  have q: "queued ?q t \<longleftrightarrow> t = sysman" for t by auto
  have "rq_ok s ?q A" unfolding rq_ok_def q using b(2,6,8-10) z(1) by (auto simp: rq_list_def)
  moreover have "\<forall>c < s_numCPU s. s_cur s c \<in> A \<or> s_cur s c = s_idle s c" using b(2,4,5) by (metis gr0I insertCI)
  moreover have "\<forall>t\<in>A. canSched (s_thr s t) \<longrightarrow> queued ?q t \<or> (\<exists>c < s_numCPU s. s_cur s c = t)" unfolding q b(2) using b(3,4) by auto
  ultimately show ?thesis unfolding smp_inv_def prod.case using b(1,2,7) z(2) by simp
qed

lemma smp_reach_inv: "sched_reach first sysman m \<Longrightarrow> \<exists>q. smp_inv first sysman m q"
proof (induction rule: sched_reach.induct)
  case (boot m)
  then show ?case using smp_inv_boot by (cases m) blast
next
  case (step m m')
  then show ?case using smp_inv_step by blast
qed

text \<open>
  C28: On any number of processors, over every history of switches, waits, wake-ups, traced threads, new priorities,
  threads that are created, end and are removed: every run queue is a proper list of threads, a thread is in at most one and
  knows whether it is, and every thread that may run is in a queue or current on a processor: no runnable thread is lost.
\<close>

theorem sched_queues:
  assumes "sched_reach first sysman (s, P, A)"
  shows "\<exists>q. rq_ok s q A \<and> (\<forall>t\<in>A. getPrio (s_thr s t) \<in> {1..15}) \<and>
    (\<forall>t\<in>A. canSched (s_thr s t) \<longrightarrow> queued q t \<or> (\<exists>c < s_numCPU s. s_cur s c = t))"
proof -
  obtain q where q: "smp_inv first sysman (s, P, A) q" using smp_reach_inv [OF assms] by blast
  then show ?thesis using smp_inv_prio [OF q] by (auto simp: smp_inv_def)
qed

end
