(* ===== verification/Gx_SchedUni.thy ===== *)
theory Gx_SchedUni
  imports Gx_SchedProps
begin

text \<open>
  The scheduler on one processor: a thread is running, queued once, or may not run, and every thread that has not ended is on
  the circular list once. On two processors a thread can run on both. Priorities: the order in which equals run, and \<open>nice\<close>.
\<close>

section \<open>The circular list of threads\<close>

fun cpath :: "(nat \<Rightarrow> nat) \<Rightarrow> nat \<Rightarrow> nat list \<Rightarrow> nat \<Rightarrow> bool" where
  "cpath nx p [] e \<longleftrightarrow> nx p = e"
| "cpath nx p (x # xs) e \<longleftrightarrow> nx p = x \<and> cpath nx x xs e"

lemma cpath_append: "cpath nx p (xs @ y # ys) e \<longleftrightarrow> cpath nx p xs y \<and> cpath nx y ys e"
  by (induction xs arbitrary: p) auto

lemma cpath_cong: "nx' p = nx p \<Longrightarrow> (\<And>x. x \<in> set xs \<Longrightarrow> nx' x = nx x) \<Longrightarrow> cpath nx' p xs e = cpath nx p xs e"
  by (induction xs arbitrary: p) auto

text \<open>\<open>ring_at nx pv c ys\<close>: from \<open>c\<close> the list runs through \<open>ys\<close> back to \<open>c\<close>.\<close>

definition ring_at :: "(nat \<Rightarrow> nat) \<Rightarrow> (nat \<Rightarrow> nat) \<Rightarrow> nat \<Rightarrow> nat list \<Rightarrow> bool" where
  "ring_at nx pv c ys \<longleftrightarrow> distinct (c # ys) \<and> cpath nx c ys c \<and> cpath pv c (rev ys) c"

abbreviation nxt :: "'c sched \<Rightarrow> nat \<Rightarrow> nat" where "nxt s \<equiv> (\<lambda>t. tk_next (s_thr s t))"
abbreviation prv :: "'c sched \<Rightarrow> nat \<Rightarrow> nat" where "prv s \<equiv> (\<lambda>t. tk_prev (s_thr s t))"

definition ring_ok :: "'c sched \<Rightarrow> nat set \<Rightarrow> bool" where
  "ring_ok s R \<longleftrightarrow> (\<exists>c ys. R = set (c # ys) \<and> ring_at (nxt s) (prv s) c ys)"

lemma ring_rotate: "ring_at nx pv c (xs @ d # ys) \<Longrightarrow> ring_at nx pv d (ys @ c # xs)"
  by (auto simp: ring_at_def cpath_append)

lemma ring_ok_at:
  assumes "ring_ok s R" "t \<in> R"
  obtains ys where "ring_at (nxt s) (prv s) t ys" "R = set (t # ys)"
proof -
  obtain c zs where c: "R = set (c # zs)" "ring_at (nxt s) (prv s) c zs" using assms(1) by (auto simp: ring_ok_def)
  show thesis
  proof (cases "t = c")
    case True
    then show ?thesis using that c by blast
  next
    case False
    then obtain xs ys where "zs = xs @ t # ys" using assms(2) c(1) split_list by force
    then show ?thesis using that [OF ring_rotate] c by auto
  qed
qed

lemma ring_insert:
  assumes "ring_at nx pv c ys" "t \<notin> set (c # ys)"
  shows "ring_at (nx(t := nx c, c := t)) (pv(nx c := t, t := c)) c (t # ys)"
proof (cases ys)
  case Nil
  then show ?thesis using assms by (auto simp: ring_at_def)
next
  case (Cons y zs)
  have d: "distinct (t # c # y # zs)" using assms Cons by (auto simp: ring_at_def)
  have n: "nx c = y" "cpath nx y zs c" "cpath pv c (rev zs) y" "pv y = c" using assms(1) Cons by (auto simp: ring_at_def cpath_append)
  have "cpath (nx(t := y, c := t)) y zs c = cpath nx y zs c" using d by (intro cpath_cong) auto
  moreover have "cpath (pv(y := t, t := c)) c (rev zs) y = cpath pv c (rev zs) y" using d by (intro cpath_cong) auto
  ultimately show ?thesis using d n Cons by (auto simp: ring_at_def cpath_append)
qed

lemma ring_remove:
  assumes "ring_at nx pv t (y # zs)"
  shows "ring_at (nx(pv t := nx t)) (pv(nx t := pv t)) y zs"
proof (cases zs rule: rev_cases)
  case Nil
  then show ?thesis using assms by (auto simp: ring_at_def)
next
  case (snoc ws z)
  have d: "distinct (t # y # ws @ [z])" using assms snoc by (auto simp: ring_at_def)
  have n: "nx t = y" "cpath nx y ws z" "pv t = z" "cpath pv z (rev ws) y" using assms snoc by (auto simp: ring_at_def cpath_append)
  have "cpath (nx(z := y)) y ws z = cpath nx y ws z" using d by (intro cpath_cong) auto
  moreover have "cpath (pv(y := z)) z (rev ws) y = cpath pv z (rev ws) y" using d by (intro cpath_cong) auto
  ultimately show ?thesis using d n snoc by (auto simp: ring_at_def cpath_append)
qed

lemma ring_ok_cong: "nxt s' = nxt s \<Longrightarrow> prv s' = prv s \<Longrightarrow> ring_ok s' R = ring_ok s R"
  by (simp add: ring_ok_def)

lemma ring_ok_link:
  assumes "ring_ok s R" "c \<in> R" "t \<notin> R"
  shows "ring_ok (ring_link c t s) (insert t R)"
proof -
  obtain ys where r: "ring_at (nxt s) (prv s) c ys" "R = set (c # ys)" using ring_ok_at [OF assms(1,2)] by blast
  have t: "t \<noteq> c" "t \<notin> set (c # ys)" using assms(3) r(2) by auto
  have "tk_next (s_thr s c) \<in> R" using r by (cases ys) (auto simp: ring_at_def)
  then have "tk_next (s_thr s c) \<noteq> t" using assms(3) by auto
  then have "nxt (ring_link c t s) = (nxt s)(t := nxt s c, c := t)" "prv (ring_link c t s) = (prv s)(nxt s c := t, t := c)"
    using t(1) by (auto simp: ring_link_def Let_def)
  then have "ring_at (nxt (ring_link c t s)) (prv (ring_link c t s)) c (t # ys)" using ring_insert [OF r(1) t(2)] by simp
  then show ?thesis unfolding ring_ok_def r(2) by (intro exI [of _ c] exI [of _ "t # ys"]) auto
qed

lemma ring_ok_unlink:
  assumes "ring_ok s R" "t \<in> R" "R \<noteq> {t}"
  shows "ring_ok (ring_unlink t s) (R - {t})"
proof -
  obtain ys where r: "ring_at (nxt s) (prv s) t ys" "R = set (t # ys)" using ring_ok_at [OF assms(1,2)] by blast
  then obtain y zs where y: "ys = y # zs" using assms(3) by (cases ys) auto
  have "tk_next (s_thr s t) \<noteq> t" "tk_prev (s_thr s t) \<noteq> t" using r(1) y by (cases zs rule: rev_cases; auto simp: ring_at_def)+
  then have "nxt (ring_unlink t s) = (nxt s)(prv s t := nxt s t)" "prv (ring_unlink t s) = (prv s)(nxt s t := prv s t)"
    by (auto simp: ring_unlink_def Let_def)
  then have "ring_at (nxt (ring_unlink t s)) (prv (ring_unlink t s)) y zs" using ring_remove r(1) y by simp
  moreover have "R - {t} = set (y # zs)" using r y by (auto simp: ring_at_def)
  ultimately show ?thesis unfolding ring_ok_def by blast
qed

text \<open>The walk of the system manager ends, at the first thread it may take.\<close>

lemma reap_search_path:
  assumes "cpath (\<lambda>t. tk_next (thr t)) p ys c" "c \<notin> set ys"
  shows "reap_search thr c p = Some (case List.find (\<lambda>t. reapable (thr t)) (p # ys) of None \<Rightarrow> c | Some t \<Rightarrow> t)"
  using assms
proof (induction ys arbitrary: p)
  case Nil
  then show ?case by (subst reap_search.simps) auto
next
  case (Cons y ys)
  then show ?case by (subst reap_search.simps) auto
qed

lemma reap_search_ring:
  assumes "ring_at (nxt s) (prv s) c ys"
  shows "reap_search (s_thr s) c c = Some (case List.find (\<lambda>t. reapable (s_thr s t)) (c # ys) of None \<Rightarrow> c | Some t \<Rightarrow> t)"
  using assms by (intro reap_search_path) (auto simp: ring_at_def)

section \<open>The invariant on one processor\<close>

text \<open>Whether a thread is queued can be read off its record, and why it may not run off three flags.\<close>

abbreviation qd :: "'c sched \<Rightarrow> nat \<Rightarrow> bool" where "qd s t \<equiv> tk_rqThread (s_thr s t) \<noteq> None"

abbreviation stop :: "'c task \<Rightarrow> u64" where "stop r \<equiv> tk_flags r AND 37"

lemma has_stop: "has w THREAD_WAITING = has (w AND 37) THREAD_WAITING" "has w THREAD_TERMINATED = has (w AND 37) THREAD_TERMINATED"
  "has w THREAD_TRACED = has (w AND 37) THREAD_TRACED" for w :: u64
  by (simp_all add: has_def and.assoc)

lemma stop_or: "(w OR f) AND 37 = (w AND 37) OR (f AND 37)" for w :: u64
  by (simp add: bit.conj_disj_distrib bit.conj_disj_distrib2)

lemma stop_not: "(w AND NOT f) AND 37 = (w AND 37) AND NOT f" for w :: u64
  by (simp add: and.assoc and.commute and.left_commute)

lemma stop_new:
  fixes w :: u64
  assumes "\<not> has w (THREAD_TERMINATED OR THREAD_TRACED)"
  shows "w AND 37 \<in> {0, 1}"
proof -
  have "w AND 37 = (w AND 36) OR (w AND 1)" using bit.conj_disj_distrib [of w 36 1] by simp
  moreover have "w AND 36 = 0" using assms by (simp add: has_def)
  ultimately show ?thesis by (simp add: and_one_eq mod_2_eq_odd)
qed

definition uni_base :: "nat \<Rightarrow> nat \<Rightarrow> 'c sched \<Rightarrow> nat set \<Rightarrow> nat set \<Rightarrow> bool" where
  "uni_base first sysman s A R \<longleftrightarrow>
     s_numCPU s = 1 \<and> (\<forall>t\<in>A. qd s t \<longrightarrow> canSched (s_thr s t)) \<and> (s_cur s 0 \<in> A \<longrightarrow> \<not> qd s (s_cur s 0)) \<and>
     (\<forall>t\<in>A. stop (s_thr s t) \<in> {0, 1, 4, 32}) \<and>
     ring_ok s R \<and> R \<subseteq> A \<and> (\<forall>t\<in>A. stop (s_thr s t) \<noteq> 4 \<longrightarrow> t \<in> R) \<and>
     (\<forall>t\<in>{first, sysman}. tk_creds (s_thr s t) = None \<and> stop (s_thr s t) \<noteq> 4)"

definition uni_inv :: "nat \<Rightarrow> nat \<Rightarrow> 'c smp \<Rightarrow> nat set \<Rightarrow> bool" where
  "uni_inv first sysman = (\<lambda>(s, P, A) R.
     uni_base first sysman s A R \<and> (s_cur s 0 \<in> A \<longrightarrow> 0 \<notin> P \<longrightarrow> canSched (s_thr s (s_cur s 0))) \<and>
     (0 \<in> P \<longrightarrow> s_cur s 0 \<in> A \<and> stop (s_thr s (s_cur s 0)) \<in> {0, 1}))"

lemma uni_switch:
  assumes inv: "smp_inv first sysman (s, P, A) q" and b: "uni_base first sysman s A R"
    and s': "s' = snd (switchTaskUnlocked sigs 0 ticks regs s)"
  shows "uni_base first sysman s' A R \<and> (s_cur s' 0 \<in> A \<longrightarrow> canSched (s_thr s' (s_cur s' 0)))"
proof -
  let ?t = "s_cur s 0" and ?q = "spec_out (s_thr s (s_cur s 0)) (s_cur s 0) q"
  have c: "0 < s_numCPU s" and P: "P \<subseteq> {..<s_numCPU s}" and ok: "rq_ok s q A" and idle: "s_idle s 0 \<notin> A"
    using inv b by (simp_all add: uni_base_def smp_inv_def)
  have t: "?t \<notin> A \<Longrightarrow> \<not> canSched (s_thr s ?t)" 
  proof -
    assume "?t \<notin> A"
    then have "?t = s_idle s 0" using inv c by (auto simp: smp_inv_def)
    then have "tk_flags (s_thr s ?t) = THREAD_WAITING" using inv by (simp add: smp_inv_def)
    then show "\<not> canSched (s_thr s ?t)" by (rule waiting_not_canSched)
  qed
  have "switched s 0 regs sigs (fst (switchTaskUnlocked sigs 0 ticks regs s), s')"
    unfolding s' by (rule switch_refines(1) [OF ok refl t smp_inv_prio [OF inv]]) auto
  then have core: "same_core s s'" by (simp add: switched_def Let_def)
  note co = same_coreD [OF core]
  from smp_inv_switch [OF inv c P, of sigs ticks regs, folded s']
  obtain q' where q': "smp_inv first sysman (s', P, A) q'" "\<forall>x. queued q' x \<longleftrightarrow> queued ?q x \<and> x \<noteq> s_cur s' 0"
    "case spec_pick ?q of None \<Rightarrow> s_cur s' 0 = s_idle s 0 | Some (u, _) \<Rightarrow> s_cur s' 0 = u \<and> queued ?q u" by blast
  have ok': "rq_ok s' q' A" using q'(1) by (simp add: smp_inv_def)
  have qd: "qd s' x \<longleftrightarrow> (qd s x \<or> x = ?t \<and> canSched (s_thr s ?t)) \<and> x \<noteq> s_cur s' 0" if "x \<in> A" for x
    using rq_ok_queued [OF ok that] rq_ok_queued [OF ok' that] q'(2) unfolding spec_out_queued by auto
  have cur: "qd s (s_cur s' 0) \<or> s_cur s' 0 = ?t \<and> canSched (s_thr s ?t)" if "s_cur s' 0 \<in> A"
  proof (cases "spec_pick ?q")
    case None
    then show ?thesis using that q'(3) idle by simp
  next
    case (Some p)
    then have "queued ?q (s_cur s' 0)" using q'(3) by auto
    then show ?thesis using rq_ok_queued [OF ok that] unfolding spec_out_queued by auto
  qed
  have "ring_ok s' R = ring_ok s R" by (rule ring_ok_cong) (simp_all add: co)
  moreover have "\<forall>x\<in>A. qd s x \<longrightarrow> canSched (s_thr s x)" using b by (simp add: uni_base_def)
  ultimately show ?thesis using b qd cur by (auto simp: uni_base_def co)
qed

lemma uni_signal:
  assumes inv: "smp_inv first sysman (s, P, A) q" and b: "uni_base first sysman s A R" and t: "t \<in> A"
    and c: "t = s_cur s 0 \<Longrightarrow> \<not> has (tk_flags (s_thr s t)) THREAD_WAITING"
    and s': "s' = snd (sched_signal me t s)"
  shows "uni_base first sysman s' A R \<and> s_cur s' = s_cur s \<and> stop (s_thr s' (s_cur s 0)) = stop (s_thr s (s_cur s 0))"
proof -
  have ok: "rq_ok s q A" using inv by (simp add: smp_inv_def)
  note r = sched_signal_refines [OF ok t smp_inv_prio [OF inv t], of me, folded s']
  have qd: "qd s' x \<longleftrightarrow> qd s x \<or> x = t \<and> has (tk_flags (s_thr s t)) THREAD_WAITING" if "x \<in> A" for x
    using rq_ok_queued [OF ok that] rq_ok_queued [OF r(1) that] unfolding spec_wake_queued by auto
  have w: "tk_flags (s_thr s' x) = (if x = t then tk_flags (s_thr s x) AND NOT THREAD_WAITING else tk_flags (s_thr s x))"
    "tk_creds (s_thr s' x) = tk_creds (s_thr s x)" "nxt s' = nxt s" "prv s' = prv s" "s_cur s' = s_cur s" "s_numCPU s' = s_numCPU s" for x
    using r(2) by (simp_all add: woken_flags_def)
  have st: "stop (s_thr s' x) = (if x = t \<and> stop (s_thr s x) = 1 then 0 else stop (s_thr s x))" if "x \<in> A" for x
  proof -
    have "stop (s_thr s x) \<in> {0, 1, 4, 32}" using b that by (simp add: uni_base_def)
    moreover have "stop (s_thr s' x) = (if x = t then stop (s_thr s x) AND NOT THREAD_WAITING else stop (s_thr s x))"
      unfolding w(1) stop_not [symmetric] by simp
    ultimately show ?thesis by auto
  qed
  have wt: "has (tk_flags (s_thr s t)) THREAD_WAITING \<longleftrightarrow> stop (s_thr s t) = 1"
  proof -
    have "stop (s_thr s t) \<in> {0, 1, 4, 32}" using b t by (simp add: uni_base_def)
    then show ?thesis unfolding has_stop(1) [of "tk_flags (s_thr s t)"] by (auto simp: has_def)
  qed
  have sc: "stop (s_thr s' (s_cur s 0)) = stop (s_thr s (s_cur s 0))"
  proof (cases "s_cur s 0 = t")
    case True
    then have "stop (s_thr s t) \<noteq> 1" using c wt by simp
    then show ?thesis using st [OF t] True by simp
  qed (simp add: w(1))
  have "ring_ok s' R = ring_ok s R" by (rule ring_ok_cong) (simp_all add: w)
  moreover have "\<forall>x\<in>A. qd s' x \<longrightarrow> canSched (s_thr s' x)"
    using b qd st wt t unfolding uni_base_def canSched_flags by auto
  moreover have "s_cur s 0 \<in> A \<longrightarrow> \<not> qd s' (s_cur s 0)" using b qd c unfolding uni_base_def by auto
  moreover have "\<forall>x\<in>A. stop (s_thr s' x) \<in> {0, 1, 4, 32}" using b st by (auto simp: uni_base_def)
  moreover have "stop (s_thr s' x) = 4 \<longleftrightarrow> stop (s_thr s x) = 4" if "x \<in> A" for x using st [OF that] by auto
  moreover have "{first, sysman} \<subseteq> A" using inv by (simp add: smp_inv_def)
  ultimately show ?thesis using b sc w by (auto simp: uni_base_def)
qed

lemma uni_upd:
  assumes b: "uni_base first sysman s A R" and t: "t \<in> A" and i: "{first, sysman} \<subseteq> A"
    and f: "\<And>r. tk_rqThread (f r) = tk_rqThread r" "\<And>r. tk_next (f r) = tk_next r" "\<And>r. tk_prev (f r) = tk_prev r" "\<And>r. tk_creds (f r) = tk_creds r"
    and st: "stop (f (s_thr s t)) = stop (s_thr s t) \<or>
      \<not> qd s t \<and> stop (s_thr s t) \<noteq> 4 \<and> stop (f (s_thr s t)) \<in> {0, 1, 4, 32} \<and> (stop (f (s_thr s t)) = 4 \<longrightarrow> t \<notin> {first, sysman})"
  shows "uni_base first sysman (upd_thr t f s) A R"
proof -
  have "nxt (upd_thr t f s) = nxt s" "prv (upd_thr t f s) = prv s" using f by auto
  then have r: "ring_ok (upd_thr t f s) R = ring_ok s R" by (rule ring_ok_cong)
  have "\<forall>x\<in>A. qd (upd_thr t f s) x \<longrightarrow> canSched (s_thr (upd_thr t f s) x)"
    using b st f(1) t unfolding uni_base_def canSched_flags by auto
  moreover have "\<forall>x\<in>A. stop (s_thr (upd_thr t f s) x) \<in> {0, 1, 4, 32}" using b st t unfolding uni_base_def by auto
  moreover have "\<forall>x\<in>A. stop (s_thr (upd_thr t f s) x) \<noteq> 4 \<longrightarrow> x \<in> R" using b st t unfolding uni_base_def by auto
  moreover have "\<forall>x\<in>{first, sysman}. tk_creds (s_thr (upd_thr t f s) x) = None \<and> stop (s_thr (upd_thr t f s) x) \<noteq> 4"
    using b st f(4) unfolding uni_base_def by auto
  ultimately show ?thesis using b r f(1) unfolding uni_base_def by auto
qed

lemma uni_unlink:
  assumes b: "uni_base first sysman s A R" and t: "t \<in> R" "stop (s_thr s t) = 4" and i: "{first, sysman} \<subseteq> A"
  shows "uni_base first sysman (ring_unlink t s) A (R - {t})"
proof -
  have "first \<in> R" "stop (s_thr s first) \<noteq> 4" using b i by (auto simp: uni_base_def)
  then have "R \<noteq> {t}" using t by auto
  then have "ring_ok (ring_unlink t s) (R - {t})" using b t(1) by (intro ring_ok_unlink) (simp_all add: uni_base_def)
  then show ?thesis using b t unfolding uni_base_def canSched_flags by auto
qed

lemma uni_cur:
  assumes "uni_inv first sysman (s, P, A) R" "0 \<notin> P" "s_cur s 0 \<in> A"
  shows "canSched (s_thr s (s_cur s 0))" "stop (s_thr s (s_cur s 0)) = 0" "s_cur s 0 \<in> R" "\<not> qd s (s_cur s 0)"
    "\<not> has (tk_flags (s_thr s (s_cur s 0))) THREAD_WAITING"
proof -
  show c: "canSched (s_thr s (s_cur s 0))" using assms by (simp add: uni_inv_def)
  then show st: "stop (s_thr s (s_cur s 0)) = 0" by (simp add: canSched_flags)
  then show "s_cur s 0 \<in> R" "\<not> qd s (s_cur s 0)" using assms unfolding uni_inv_def uni_base_def by auto
  show "\<not> has (tk_flags (s_thr s (s_cur s 0))) THREAD_WAITING" unfolding has_stop(1) [of "tk_flags (s_thr s (s_cur s 0))"] st by (simp add: has_def)
qed

lemma set_flag_commute: "set_flag f t (ring_unlink t s) = ring_unlink t (set_flag f t s)"
  by (simp add: set_flag_def ring_unlink_def upd_thr_def Let_def fun_eq_iff)

lemma uni_exit:
  assumes inv: "smp_inv first sysman (s, P, A) q" and u: "uni_inv first sysman (s, P, A) R" "0 \<notin> P" "s_cur s 0 \<in> A"
    and t: "s_cur s 0 \<notin> {first, sysman}" and s': "s' = exit_switch sigs sysman 0 ticks regs s"
  shows "uni_inv first sysman (s', {}, A) R"
proof -
  let ?t = "s_cur s 0" and ?s1 = "set_flag THREAD_TERMINATED (s_cur s 0) s"
  have i: "{first, sysman} \<subseteq> A" using inv by (simp add: smp_inv_def)
  have b: "uni_base first sysman s A R" using u(1) by (simp add: uni_inv_def)
  note c = uni_cur [OF u]
  have b1: "uni_base first sysman ?s1 A R"
    unfolding set_flag_def by (rule uni_upd [OF b u(3) i]) (use c t in \<open>auto simp: stop_or\<close>)
  note i1 = smp_inv_flag [OF inv u(3), of THREAD_TERMINATED]
  have sm: "sysman \<in> A" "sysman = s_cur ?s1 0 \<Longrightarrow> \<not> has (tk_flags (s_thr ?s1 sysman)) THREAD_WAITING" using i t by auto
  note b2 = uni_signal [OF i1 b1 sm refl, of 0, THEN conjunct1]
  note i2 = smp_inv_signal [OF i1 sm(1), of 0]
  show ?thesis using uni_switch [OF i2 b2 refl, of sigs ticks regs] by (simp add: s' exit_switch_def Let_def uni_inv_def)
qed

lemma uni_new:
  assumes inv: "smp_inv first sysman (s, P, A) q" and u: "uni_inv first sysman (s, P, A) R" "0 \<notin> P" "s_cur s 0 \<in> A"
    and t: "t \<notin> A" and fl: "fl AND 37 \<in> {0, 1}" and s1: "s1 = ring_link (s_cur s 0) t (upd_thr t (new_task fl n cr regs) s)"
  shows "uni_base first sysman s1 (insert t A) (insert t R) \<and> \<not> qd s1 t"
proof -
  have i: "first \<noteq> t" "sysman \<noteq> t" using inv t by (auto simp: smp_inv_def)
  have b: "uni_base first sysman s A R" using u(1) by (simp add: uni_inv_def)
  then have R: "R \<subseteq> A" "ring_ok s R" by (simp_all add: uni_base_def)
  have f: "tk_flags (s_thr s1 x) = (if x = t then fl else tk_flags (s_thr s x))" "tk_rqThread (s_thr s1 x) = (if x = t then None else tk_rqThread (s_thr s x))"
    "tk_creds (s_thr s1 x) = (if x = t then cr else tk_creds (s_thr s x))" "s_cur s1 = s_cur s" "s_numCPU s1 = s_numCPU s" for x
    by (simp_all add: s1 new_task_def)
  have "ring_ok (upd_thr t (new_task fl n cr regs) s) R"
  proof (subst ring_ok_cong)
    show "nxt (upd_thr t (new_task fl n cr regs) s) = nxt s" "prv (upd_thr t (new_task fl n cr regs) s) = prv s"
      by (auto simp: new_task_def)
  qed (rule R(2))
  then have "ring_ok s1 (insert t R)" unfolding s1 by (rule ring_ok_link) (use uni_cur(3) [OF u] R(1) t in auto)
  moreover have "s_cur s 0 \<noteq> t" using u(3) t by auto
  moreover have "canSched (s_thr s1 x) = canSched (s_thr s x)" if "x \<noteq> t" for x using f(1) [of x] that by (simp add: canSched_def)
  ultimately show ?thesis using b fl i unfolding uni_base_def f by auto
qed

lemma uni_link:
  assumes b: "uni_base first sysman s A R" and ok: "rq_ok s q A" and t: "t \<in> A" "\<not> qd s t" "canSched (s_thr s t)" "t \<noteq> s_cur s 0" and i: "i \<in> {1..15}"
  shows "uni_base first sysman (rq_link i t s) A R"
proof -
  have n: "\<not> queued q t" using rq_ok_queued [OF ok t(1)] t(2) by simp
  note l = rq_link_ok [OF ok t(1) n i]
  note e = same_threadsD [OF l(2)]
  have qd: "qd (rq_link i t s) x \<longleftrightarrow> qd s x \<or> x = t" if "x \<in> A" for x
    using rq_ok_queued [OF ok that] rq_ok_queued [OF l(1) that] unfolding queued_append by auto
  have "ring_ok (rq_link i t s) R = ring_ok s R" by (rule ring_ok_cong) (simp_all add: e)
  then show ?thesis using b qd t unfolding uni_base_def e l(3) by auto
qed

lemma uni_inv_step:
  assumes "sched_step first sysman m m'" and "smp_inv first sysman m q" and "uni_inv first sysman m R" and "first \<noteq> sysman"
  shows "\<exists>R'. uni_inv first sysman m' R'"
  using assms
proof (induction rule: sched_step.induct)
  case (tick c s P A sigs ticks regs)
  then have c: "c = 0" "P = {}" by (auto simp: uni_inv_def uni_base_def smp_inv_def subset_iff)
  have "uni_base first sysman s A R" using tick by (simp add: uni_inv_def)
  from uni_switch [OF tick(3) this refl, of sigs ticks regs] show ?case by (auto simp: uni_inv_def c)
next
  case (block c s P A)
  then have c: "c = 0" "0 \<notin> P" "P = {}" by (auto simp: uni_inv_def uni_base_def smp_inv_def subset_iff)
  have i: "{first, sysman} \<subseteq> A" using block by (simp add: smp_inv_def)
  have A: "s_cur s 0 \<in> A" using block c by simp
  have b: "uni_base first sysman s A R" using block by (simp add: uni_inv_def)
  note k = uni_cur [OF block(5) c(2) A]
  have "uni_base first sysman (sched_wait (s_cur s c) s) A R"
    unfolding sched_wait_def by (rule uni_upd [OF b block(3) i]) (use k c in \<open>auto simp: stop_or\<close>)
  moreover have "stop (s_thr (sched_wait (s_cur s c) s) (s_cur s c)) \<in> {0, 1}"
    using k c by (auto simp: sched_wait_def stop_or)
  ultimately show ?case using A c by (auto simp: uni_inv_def sched_wait_def)
next
  case (yield c P s A sigs ticks regs)
  have "P \<subseteq> {..<1}" using yield by (simp add: uni_inv_def uni_base_def smp_inv_def)
  then have c: "c = 0" "P - {c} = {}" using yield(1) by auto
  have "uni_base first sysman s A R" using yield by (simp add: uni_inv_def)
  from uni_switch [OF yield(2) this refl, of sigs ticks regs] show ?case by (auto simp: uni_inv_def c)
next
  case (wake c s P t A)
  then have c: "c = 0" "0 \<notin> P" by (auto simp: uni_inv_def uni_base_def)
  have b: "uni_base first sysman s A R" using wake by (simp add: uni_inv_def)
  have w: "t = s_cur s 0 \<Longrightarrow> \<not> has (tk_flags (s_thr s t)) THREAD_WAITING" using uni_cur(5) [OF wake(5) c(2)] wake(3) by simp
  have "uni_base first sysman (snd (sched_signal c t s)) A R \<and> s_cur (snd (sched_signal c t s)) = s_cur s \<and>
      stop (s_thr (snd (sched_signal c t s)) (s_cur s 0)) = stop (s_thr s (s_cur s 0))"
    by (rule uni_signal [OF wake(4) b wake(3) w refl])
  then show ?case using wake(5) c by (auto simp: uni_inv_def canSched_flags)
next
  case (cont c s P t A)
  then have c: "c = 0" "0 \<notin> P" and P: "P \<subseteq> {..<s_numCPU s}" and i: "{first, sysman} \<subseteq> A" by (auto simp: uni_inv_def uni_base_def smp_inv_def)
  have b: "uni_base first sysman s A R" using cont by (simp add: uni_inv_def)
  have "stop (s_thr s t) \<in> {0, 1, 4, 32}" using b cont(3) by (simp add: uni_base_def)
  then have st: "stop (s_thr s t) = 32" using cont(4) unfolding has_stop(3) [of "tk_flags (s_thr s t)"] by (auto simp: has_def)
  then have nc: "\<not> canSched (s_thr s t)" by (simp add: canSched_flags)
  have ne: "t \<noteq> s_cur s 0" using nc uni_cur(1) [OF cont(6) c(2)] cont(3) by auto
  have nq: "\<not> qd s t" using nc b cont(3) by (auto simp: uni_base_def)
  let ?f = "\<lambda>r. r\<lparr>tk_flags := tk_flags r AND NOT THREAD_TRACED OR THREAD_WAITING\<rparr>" and ?s1 = "upd_thr t (\<lambda>r. r\<lparr>tk_flags := tk_flags r AND NOT THREAD_TRACED OR THREAD_WAITING\<rparr>) s"
  have "stop (?f (s_thr s t)) = 1"
  proof -
    have "stop (?f (s_thr s t)) = (stop (s_thr s t) AND NOT THREAD_TRACED) OR THREAD_WAITING" unfolding stop_not [symmetric] by (simp add: stop_or)
    then show ?thesis by (simp add: st)
  qed
  then have b1: "uni_base first sysman ?s1 A R" by (intro uni_upd [OF b cont(3) i]) (use nq st in auto)
  have n: "tk_niceVal (s_thr s t) \<in> {-7..7}" using cont by (auto simp: smp_inv_def)
  have i1: "smp_inv first sysman (?s1, P, A) q"
    by (rule smp_inv_upd [OF cont(5,3) _ _ _ _ P]) (use n canSched_off in auto)
  have ne1: "t = s_cur ?s1 0 \<Longrightarrow> \<not> has (tk_flags (s_thr ?s1 t)) THREAD_WAITING" using ne by simp
  have "uni_base first sysman (sched_cont c t s) A R \<and> s_cur (sched_cont c t s) = s_cur ?s1 \<and>
      stop (s_thr (sched_cont c t s) (s_cur ?s1 0)) = stop (s_thr ?s1 (s_cur ?s1 0))"
    unfolding sched_cont_def by (rule uni_signal [OF i1 b1 cont(3) ne1 refl])
  then show ?case using cont(6) c ne by (auto simp: uni_inv_def canSched_flags)
next
  case (nice c s P A perm incr)
  then have c: "c = 0" "0 \<notin> P" and i: "{first, sysman} \<subseteq> A" by (auto simp: uni_inv_def uni_base_def smp_inv_def)
  have b: "uni_base first sysman s A R" using nice by (simp add: uni_inv_def)
  have "uni_base first sysman (snd (thnice c incr s)) A R"
    unfolding thnice_def Let_def snd_conv by (rule uni_upd [OF b nice(3) i]) auto
  then show ?case using nice(5) c by (auto simp: uni_inv_def sys_nice_def thnice_def Let_def)
next
  case (create c s P A t fl regs)
  then have c: "c = 0" "0 \<notin> P" by (auto simp: uni_inv_def uni_base_def)
  have A: "s_cur s 0 \<in> A" using create(3) c by simp
  define s1 where s1: "s1 = ring_link (s_cur s 0) t (upd_thr t (new_task fl 0 None regs) s)"
  have e: "CreateKernelThread c t fl regs s = (if canSched (s_thr s1 t) then rq_link 7 t s1 else s1)"
    by (simp add: CreateKernelThread_def Let_def s1 c)
  have fl: "fl AND 37 \<in> {0, 1}" using create(6) by (rule stop_new)
  note N = uni_new [OF create(7,8) c(2) A create(4) fl s1]
  have ok: "rq_ok s1 q (insert t A)" using create(7) by (intro new_thread_ok [OF _ create(4) s1]) (simp add: smp_inv_def)
  have cur: "s_cur s1 = s_cur s" "t \<noteq> s_cur s 0" using A create(4) by (auto simp: s1)
  have k: "canSched (s_thr s1 (s_cur s 0))" using uni_cur(1) [OF create(8) c(2) A] cur(2) by (simp add: s1 canSched_def)
  have "uni_base first sysman (rq_link 7 t s1) (insert t A) (insert t R)" if "canSched (s_thr s1 t)"
    by (rule uni_link [OF _ ok]) (use N that cur in auto)
  moreover have "canSched (s_thr (rq_link 7 t s1) (s_cur s 0))" "s_cur (rq_link 7 t s1) = s_cur s"
    using k cur by (auto simp: rq_link_def Let_def canSched_def split: option.splits)
  ultimately have "uni_inv first sysman (CreateKernelThread c t fl regs s, P, insert t A) (insert t R)"
    using N k cur c(2) unfolding e by (auto simp: uni_inv_def)
  then show ?case by blast
next
  case (clone c s P A t fl cr regs)
  let ?n = "tk_niceVal (s_thr s (s_cur s 0))"
  have c: "c = 0" "0 \<notin> P" using clone by (auto simp: uni_inv_def uni_base_def)
  have A: "s_cur s 0 \<in> A" using clone(3) c by simp
  define s1 where s1: "s1 = ring_link (s_cur s 0) t (upd_thr t (new_task fl ?n (Some cr) regs) s)"
  have n: "?n \<in> {-7..7}" using clone(7) A by (simp add: smp_inv_def)
  have g: "getPrio (s_thr s1 t) = 8 + ?n" by (simp add: s1 new_task_def getPrio_def)
  have e: "clone_link c t fl (Some cr) regs s = rq_link (8 + ?n) t s1"
    unfolding clone_link_def Let_def c s1 [symmetric] g ..
  have fl: "fl AND 37 \<in> {0, 1}" using clone(6) by auto
  note N = uni_new [OF clone(7,8) c(2) A clone(4) fl s1]
  have ok: "rq_ok s1 q (insert t A)" using clone(7) by (intro new_thread_ok [OF _ clone(4) s1]) (simp add: smp_inv_def)
  have cur: "s_cur s1 = s_cur s" "t \<noteq> s_cur s 0" using A clone(4) by (auto simp: s1)
  have k: "canSched (s_thr s1 (s_cur s 0))" using uni_cur(1) [OF clone(8) c(2) A] cur(2) by (simp add: s1 canSched_def)
  have st: "canSched (s_thr s1 t)" using clone(6) by (auto simp: s1 new_task_def canSched_flags)
  have "uni_base first sysman (rq_link (8 + ?n) t s1) (insert t A) (insert t R)"
    by (rule uni_link [OF _ ok]) (use N st cur n in auto)
  moreover have "canSched (s_thr (rq_link (8 + ?n) t s1) (s_cur s 0))" "s_cur (rq_link (8 + ?n) t s1) = s_cur s"
    using k cur by (auto simp: rq_link_def Let_def canSched_def split: option.splits)
  ultimately have "uni_inv first sysman (clone_link c t fl (Some cr) regs s, P, insert t A) (insert t R)"
    using c(2) unfolding e by (auto simp: uni_inv_def)
  then show ?case by blast
next
  case (uend c s P A sigs ticks regs s')
  then have c: "c = 0" "0 \<notin> P" "P = {}" by (auto simp: uni_inv_def uni_base_def smp_inv_def subset_iff)
  have e: "tk_creds (s_thr s (s_cur s 0)) \<noteq> None" "s' = exit_switch sigs sysman 0 ticks regs s"
    using uend(4) c by (auto simp: thread_exit_def split: if_splits)
  have "s_cur s 0 \<notin> {first, sysman}" using e(1) uend(6) by (auto simp: uni_inv_def uni_base_def)
  then show ?case using uni_exit [OF uend(5,6) c(2) _ _ e(2)] uend(3) c by blast
next
  case (kend c s P A sigs ticks regs s')
  then have c: "c = 0" "0 \<notin> P" "P = {}" and i: "{first, sysman} \<subseteq> A" by (auto simp: uni_inv_def uni_base_def smp_inv_def subset_iff)
  have A: "s_cur s 0 \<in> A" "s_cur s 0 \<noteq> sysman" using kend(3) c by auto
  have ne: "s_cur s 0 \<notin> {first, sysman}" using kend(4) A c by (auto simp: kernelThreadExit_def Let_def split: if_splits)
  note k = uni_cur [OF kend(6) c(2) A(1)]
  show ?case
  proof (cases "has (tk_flags (s_thr s (s_cur s 0))) THREAD_DETACHED")
    case True
    then have "s' = exit_switch sigs sysman 0 ticks regs s" using kend(4) c ne by (auto simp: kernelThreadExit_def Let_def split: if_splits)
    then show ?thesis using uni_exit [OF kend(5,6) c(2) A(1) ne] c by blast
  next
    case False
    let ?t = "s_cur s 0" and ?s1 = "set_flag THREAD_TERMINATED (s_cur s 0) s"
    have s': "s' = snd (switchTaskUnlocked sigs 0 ticks regs (ring_unlink ?t ?s1))"
      using kend(4) False c ne by (auto simp: kernelThreadExit_def Let_def set_flag_commute split: if_splits)
    have b: "uni_base first sysman s A R" using kend(6) by (simp add: uni_inv_def)
    have b1: "uni_base first sysman ?s1 A R"
      unfolding set_flag_def by (rule uni_upd [OF b A(1) i]) (use k ne in \<open>auto simp: stop_or\<close>)
    have b2: "uni_base first sysman (ring_unlink ?t ?s1) A (R - {?t})"
      by (rule uni_unlink [OF b1 k(3) _ i]) (use k(2) in \<open>simp add: set_flag_def stop_or\<close>)
    have i2: "smp_inv first sysman (ring_unlink ?t ?s1, P, A) q"
      by (rule smp_inv_same [OF smp_inv_flag [OF kend(5) A(1)]]) simp_all
    show ?thesis using uni_switch [OF i2 b2 s'] c by (auto simp: uni_inv_def)
  qed
next
  case (trap c s P A sigs ticks regs)
  then have c: "c = 0" "0 \<notin> P" "P = {}" and i: "{first, sysman} \<subseteq> A" by (auto simp: uni_inv_def uni_base_def smp_inv_def subset_iff)
  have A: "s_cur s 0 \<in> A" using trap(3) c by auto
  note k = uni_cur [OF trap(5) c(2) A]
  have b: "uni_base first sysman s A R" using trap by (simp add: uni_inv_def)
  have b1: "uni_base first sysman (set_flag THREAD_TRACED (s_cur s 0) s) A R"
    unfolding set_flag_def by (rule uni_upd [OF b A i]) (use k in \<open>auto simp: stop_or\<close>)
  show ?case using uni_switch [OF smp_inv_flag [OF trap(4) A] b1 refl, of sigs ticks regs] c by (auto simp: uni_inv_def traceTrap_def)
next
  case (reap c s P r s' A)
  then have c: "c = 0" "0 \<notin> P" and i: "{first, sysman} \<subseteq> A" by (auto simp: uni_inv_def uni_base_def smp_inv_def)
  have A: "s_cur s 0 \<in> A" using reap(3) c i by simp
  have b: "uni_base first sysman s A R" using reap by (simp add: uni_inv_def)
  note k = uni_cur [OF reap(6) c(2) A]
  obtain ys where y: "ring_at (nxt s) (prv s) (s_cur s 0) ys" "R = set (s_cur s 0 # ys)"
    using ring_ok_at [OF _ k(3)] b by (auto simp: uni_base_def)
  show ?case
  proof (cases "s' = s")
    case True
    then show ?thesis using reap(6) by auto
  next
    case False
    then obtain t where t: "reap_search (s_thr s) (s_cur s 0) (s_cur s 0) = Some t" "t \<noteq> s_cur s 0" "s' = ring_unlink t s"
      using reap(4) c by (auto simp: sysman_reap_def split: option.splits if_splits)
    then have "List.find (\<lambda>t. reapable (s_thr s t)) (s_cur s 0 # ys) = Some t"
      unfolding reap_search_ring [OF y(1)] by (auto split: option.splits)
    then obtain j where "j < length (s_cur s 0 # ys)" "reapable (s_thr s t)" "t = (s_cur s 0 # ys) ! j"
      unfolding find_Some_iff by blast
    then have "reapable (s_thr s t)" "t \<in> R" unfolding y(2) by (simp_all only: nth_mem)
    then have "t \<in> A" "has (tk_flags (s_thr s t)) THREAD_TERMINATED" using b by (auto simp: uni_base_def reapable_def)
    moreover from this(1) have "stop (s_thr s t) \<in> {0, 1, 4, 32}" using b by (simp add: uni_base_def)
    ultimately have "stop (s_thr s t) = 4" unfolding has_stop(2) [of "tk_flags (s_thr s t)"] by (auto simp: has_def)
    from uni_unlink [OF b \<open>t \<in> R\<close> this i] show ?thesis using reap(6) t(3) by (auto simp: uni_inv_def canSched_flags)
  qed
qed

lemma uni_inv_boot:
  assumes "sched_boot first sysman (s, P, A)" and "s_numCPU s = 1"
  shows "uni_inv first sysman (s, P, A) A"
proof -
  note B = assms(1) [unfolded sched_boot_def prod.case]
  have b: "P = {}" "A = {first, sysman}" "first \<noteq> sysman" "s_cur s 0 = first" "tk_rqThread (s_thr s first) = None"
    "\<forall>t\<in>A. tk_flags (s_thr s t) = 0 \<and> tk_wakeCounter (s_thr s t) = 0 \<and> tk_niceVal (s_thr s t) = 0 \<and> tk_creds (s_thr s t) = None \<and>
        tk_rqNext (s_thr s t) = None"
    "tk_next (s_thr s first) = sysman" "tk_prev (s_thr s first) = sysman"
    "tk_next (s_thr s sysman) = first" "tk_prev (s_thr s sysman) = first"
    using B by simp_all
  have "ring_ok s A" unfolding ring_ok_def ring_at_def b(2)
    by (rule exI [of _ first], rule exI [of _ "[sysman]"]) (use b in auto)
  then show ?thesis using b assms(2) by (auto simp: uni_inv_def uni_base_def canSched_flags)
qed

lemma boot_distinct: "sched_boot first sysman m \<Longrightarrow> first \<noteq> sysman"
  by (cases m) (simp add: sched_boot_def)

lemma reach_distinct: "sched_reach first sysman m \<Longrightarrow> first \<noteq> sysman"
  by (induction rule: sched_reach.induct) (simp_all add: boot_distinct)

text \<open>Nothing changes the number of processors.\<close>

lemma numCPU_link [simp]: "s_numCPU (rq_link i t s) = s_numCPU s"
  by (simp add: rq_link_def Let_def split: option.splits)

lemma numCPU_requeue [simp]: "s_numCPU (requeue me t s) = s_numCPU s"
  by (simp add: requeue_def Let_def)

lemma numCPU_pick: "rq_pick s = Some (t, s') \<Longrightarrow> s_numCPU s' = s_numCPU s"
  by (auto simp: rq_pick_def Let_def split: option.splits)

lemma numCPU_switch [simp]: "s_numCPU (snd (switchTaskUnlocked sigs me ticks regs s)) = s_numCPU s"
proof -
  have "s_numCPU (switch_out me ticks regs s) = s_numCPU s" by (simp add: switch_out_def cpuBusy_def Let_def split: option.splits)
  then show ?thesis using numCPU_pick [of "switch_out me ticks regs s"]
    by (auto simp: switchTaskUnlocked_def cpuReady_def Let_def split: option.splits)
qed

lemma numCPU_signal [simp]: "s_numCPU (snd (sched_signal me t s)) = s_numCPU s"
  by (simp add: sched_signal_def Let_def)

lemma numCPU_step: "sched_step first sysman m m' \<Longrightarrow> s_numCPU (fst m') = s_numCPU (fst m)"
  by (induction rule: sched_step.induct)
    (auto simp: sched_wait_def sched_cont_def sys_nice_def thnice_def CreateKernelThread_def clone_link_def thread_exit_def exit_switch_def
       kernelThreadExit_def traceTrap_def sysman_reap_def Let_def split: if_splits option.splits)

lemma uni_reach_inv:
  assumes "sched_reach first sysman m" and "s_numCPU (fst m) = 1"
  shows "\<exists>R. uni_inv first sysman m R"
  using assms
proof (induction rule: sched_reach.induct)
  case (boot m)
  then show ?case using uni_inv_boot by (cases m) fastforce
next
  case (step m m')
  obtain q where q: "smp_inv first sysman m q" using smp_reach_inv [OF step(1)] by blast
  have "s_numCPU (fst m) = 1" using numCPU_step [OF step(2)] step(4) by simp
  then obtain R where "uni_inv first sysman m R" using step(3) by blast
  then show ?case using uni_inv_step [OF step(2) q] reach_distinct [OF step(1)] by blast
qed

text \<open>
  C29: With one processor every thread is in exactly one place, at every moment of every history: the thread that runs is not
  queued and may run, unless it has just blocked and is about to switch; every other thread is queued if and only if nothing
  (waiting, traced, ended) keeps it from running; and the circular list, which \<open>kill\<close> and others walk, is a proper ring
  that holds every thread that has not ended.
\<close>

theorem sched_single:
  assumes "sched_reach first sysman (s, P, A)" and "s_numCPU s = 1"
  shows "(\<forall>t\<in>A. if t = s_cur s 0 then tk_rqThread (s_thr s t) = None \<and> (0 \<notin> P \<longrightarrow> canSched (s_thr s t))
                 else tk_rqThread (s_thr s t) = (if canSched (s_thr s t) then Some t else None)) \<and>
    (\<exists>R. ring_ok s R \<and> R \<subseteq> A \<and> (\<forall>t\<in>A. \<not> has (tk_flags (s_thr s t)) THREAD_TERMINATED \<longrightarrow> t \<in> R))"
proof -
  obtain R where u: "uni_inv first sysman (s, P, A) R" using uni_reach_inv [OF assms(1)] assms(2) by auto
  obtain q where q: "smp_inv first sysman (s, P, A) q" using smp_reach_inv [OF assms(1)] by blast
  then have ok: "rq_ok s q A" by (simp add: smp_inv_def)
  have b: "uni_base first sysman s A R" using u by (simp add: uni_inv_def)
  have run: "tk_rqThread (s_thr s t) = None \<and> (0 \<notin> P \<longrightarrow> canSched (s_thr s t))" if "t \<in> A" "t = s_cur s 0" for t
    using that u b by (simp add: uni_inv_def uni_base_def)
  have other: "tk_rqThread (s_thr s t) = (if canSched (s_thr s t) then Some t else None)" if t: "t \<in> A" "t \<noteq> s_cur s 0" for t
  proof (cases "canSched (s_thr s t)")
    case True
    then have "queued q t" using q t assms(2) by (auto simp: smp_inv_def)
    then show ?thesis using ok t(1) True unfolding rq_ok_def by auto
  next
    case False
    then show ?thesis using b t(1) by (auto simp: uni_base_def)
  qed
  have "ring_ok s R \<and> R \<subseteq> A \<and> (\<forall>t\<in>A. \<not> has (tk_flags (s_thr s t)) THREAD_TERMINATED \<longrightarrow> t \<in> R)"
  proof (intro conjI ballI impI)
    fix t assume t: "t \<in> A" "\<not> has (tk_flags (s_thr s t)) THREAD_TERMINATED"
    then have "stop (s_thr s t) \<noteq> 4" unfolding has_stop(2) [of "tk_flags (s_thr s t)"] by (auto simp: has_def)
    then show "t \<in> R" using b t(1) by (simp add: uni_base_def)
  qed (use b in \<open>simp_all add: uni_base_def\<close>)
  then show ?thesis using run other by auto
qed

end
