(* ===== verification/Gx_SchedRun.thy ===== *)
theory Gx_SchedRun
  imports Gx_SchedUni
begin

text \<open>
  What the scheduler promises to run: the policy of a switch, the turns of threads of equal priority, the work of the
  system manager, the effect of \<open>nice\<close>, and a thread that runs on two processors.
\<close>

section \<open>The policy\<close>

text \<open>
  C27: A switch saves the context of the thread that leaves, puts it behind the threads of its priority if it may still run, and
  takes the first thread of the first queue that is not empty, with the context it had when it last left (after its
  signals), or the idle thread when there is none; nothing else changes.
\<close>

theorem switch_policy:
  assumes ok: "rq_ok s q A" and t: "t = s_cur s me" "t \<in> A \<or> \<not> canSched (s_thr s t)" "\<forall>x\<in>A. getPrio (s_thr s x) \<in> {1..15}"
    and sw: "switchTaskUnlocked sigs me ticks regs s = (ctx, s')"
  shows "switched s me regs sigs (ctx, s') \<and>
    (case spec_pick (spec_out (s_thr s t) t q) of
       None \<Rightarrow> s_cur s' me = s_idle s me \<and> rq_ok s' (spec_out (s_thr s t) t q) A
     | Some (u, q') \<Rightarrow> s_cur s' me = u \<and> rq_ok s' q' A)"
proof -
  have a: "t \<notin> A \<Longrightarrow> \<not> canSched (s_thr s t)" "t \<in> A \<Longrightarrow> getPrio (s_thr s t) \<in> {1..15}" using t by auto
  note r = switch_refines [OF ok t(1) a sw]
  then show ?thesis by (auto split: option.splits)
qed

section \<open>Turns\<close>

text \<open>The switches at the ends of quanta, each with its signals, its ticks and the context that is saved.\<close>

fun run_ticks :: "nat \<Rightarrow> (('c \<Rightarrow> 'c) \<times> u64 \<times> 'c) list \<Rightarrow> 'c sched \<Rightarrow> 'c sched" where
  "run_ticks me [] s = s"
| "run_ticks me ((sigs, ticks, regs) # es) s = run_ticks me es (snd (switchTaskUnlocked sigs me ticks regs s))"

lemma tick_turn:
  assumes ok: "rq_ok s q A" and t: "t = s_cur s me" "t \<in> A" "canSched (s_thr s t)" "getPrio (s_thr s t) = i" "\<not> queued q t"
    and i: "i \<in> {1..15}" "\<forall>j<i. q j = []" and s': "s' = snd (switchTaskUnlocked sigs me ticks regs s)"
  shows "s_cur s' me = hd (q i @ [t])" "rq_ok s' (q(i := tl (q i @ [t]))) A" "same_core s s'"
proof -
  obtain ctx where sw: "switchTaskUnlocked sigs me ticks regs s = (ctx, s')" using s' by (metis prod.collapse)
  have a: "t \<notin> A \<Longrightarrow> \<not> canSched (s_thr s t)" "t \<in> A \<Longrightarrow> getPrio (s_thr s t) \<in> {1..15}" using t i by auto
  note r = switch_refines [OF ok t(1) a sw]
  have o: "spec_out (s_thr s t) t q = q(i := q i @ [t])" using t by (simp add: spec_out_def)
  have "spec_pick (q(i := q i @ [t])) = Some (hd (q i @ [t]), (q(i := q i @ [t]))(i := tl (q i @ [t])))"
    by (rule spec_pick_Some [of i]) (use i in \<open>auto simp: hd_append tl_append neq_Nil_conv split: list.splits\<close>)
  then show "s_cur s' me = hd (q i @ [t])" "rq_ok s' (q(i := tl (q i @ [t]))) A" using r(2) by (simp_all add: o)
  show "same_core s s'" using r(1) by (simp add: switched_def Let_def)
qed

text \<open>Threads of one priority take turns: while the threads of the highest priority in use (the one that runs and those queued
  behind it) only use up their quanta, after \<open>n\<close> switches the \<open>n\<close>-th of them runs, counting around, so each runs
  once in every round; and the queues of lower priority do not move at all.
\<close>

theorem round_robin:
  assumes ok: "rq_ok s q A" and t: "t = s_cur s me" "\<not> queued q t"
    and all: "\<forall>x\<in>set (t # q i). x \<in> A \<and> canSched (s_thr s x) \<and> getPrio (s_thr s x) = i"
    and i: "i \<in> {1..15}" "\<forall>j<i. q j = []"
  shows "s_cur (run_ticks me es s) me = (t # q i) ! (length es mod Suc (length (q i))) \<and>
    rq_ok (run_ticks me es s) (q(i := tl (rotate (length es) (t # q i)))) A"
  using assms
proof (induction es arbitrary: s q t)
  case Nil
  then show ?case by simp
next
  case (Cons e es)
  obtain sigs ticks regs where e: "e = (sigs, ticks, regs)" by (cases e)
  define s' where "s' = snd (switchTaskUnlocked sigs me ticks regs s)"
  let ?q = "q(i := tl (q i @ [t]))" and ?t = "hd (q i @ [t])"
  have t: "t \<in> A" "canSched (s_thr s t)" "getPrio (s_thr s t) = i" using Cons.prems(4) by simp_all
  note T = tick_turn [OF Cons.prems(1,2) t Cons.prems(3,5,6) s'_def]
  note co = same_coreD [OF T(3)]
  have r: "?t # ?q i = rotate1 (t # q i)" by (cases "q i") simp_all
  have d: "distinct (t # q i)" using Cons.prems(1,3) by (auto simp: rq_ok_def rq_list_def)
  have "\<not> queued ?q ?t"
  proof
    assume "queued ?q ?t"
    then obtain j where j: "?t \<in> set (?q j)" by blast
    have "?t \<notin> set (?q i)" using d by (cases "q i") auto
    then have "j \<noteq> i" using j by metis
    then have "?t \<in> set (q j)" using j by simp
    moreover have "?t \<in> set (t # q i)" by (cases "q i") auto
    ultimately show False using Cons.prems(1,3) \<open>j \<noteq> i\<close> unfolding rq_ok_def by (metis set_ConsD)
  qed
  moreover have "\<forall>x\<in>set (?t # ?q i). x \<in> A \<and> canSched (s_thr s' x) \<and> getPrio (s_thr s' x) = i"
    using Cons.prems(4) unfolding r set_rotate1 co by simp
  ultimately have "s_cur (run_ticks me es s') me = (?t # ?q i) ! (length es mod Suc (length (?q i))) \<and>
    rq_ok (run_ticks me es s') (?q(i := tl (rotate (length es) (?t # ?q i)))) A"
    using Cons.prems(6) by (intro Cons.IH [OF T(2) T(1) [symmetric] _ _ Cons.prems(5)]) auto
  moreover have "run_ticks me (e # es) s = run_ticks me es s'" by (simp add: e s'_def)
  moreover have "rotate (length es) (?t # ?q i) = rotate (length (e # es)) (t # q i)" unfolding r by (simp add: rotate1_rotate_swap)
  moreover have "(?t # ?q i) ! (length es mod Suc (length (?q i))) = (t # q i) ! (length (e # es) mod Suc (length (q i)))"
  proof -
    have l: "Suc (length (?q i)) = Suc (length (q i))" by simp
    have "rotate1 (t # q i) ! n = (t # q i) ! (Suc n mod Suc (length (q i)))" if "n < Suc (length (q i))" for n
      using nth_rotate1 [of n "t # q i"] that by simp
    then show ?thesis unfolding r l by (simp add: mod_Suc_eq)
  qed
  ultimately show ?case by (simp only: fun_upd_upd)
qed

section \<open>The system manager\<close>

text \<open>The walk of the system manager over the list of threads always ends; it takes out the first thread that has ended and
  that no kernel thread will join, and the rest is a proper list again; it takes none only if there is none.
\<close>

theorem sysman_reap_total:
  assumes r: "ring_ok s R" "s_cur s me \<in> R" "\<not> reapable (s_thr s (s_cur s me))"
  shows "\<exists>r s'. sysman_reap me s = Some (r, s') \<and> (case r of
      None \<Rightarrow> s' = s \<and> (\<forall>t\<in>R. \<not> reapable (s_thr s t))
    | Some t \<Rightarrow> t \<in> R \<and> reapable (s_thr s t) \<and> ring_ok s' (R - {t}))"
proof -
  let ?c = "s_cur s me"
  obtain ys where y: "ring_at (nxt s) (prv s) ?c ys" "R = set (?c # ys)" using ring_ok_at [OF r(1,2)] by blast
  note f = reap_search_ring [OF y(1)]
  show ?thesis
  proof (cases "List.find (\<lambda>t. reapable (s_thr s t)) (?c # ys)")
    case None
    then have "\<forall>t\<in>R. \<not> reapable (s_thr s t)" unfolding y(2) find_None_iff by blast
    then show ?thesis using f None by (simp add: sysman_reap_def)
  next
    case (Some t)
    then obtain j where j: "j < length (?c # ys)" "reapable (s_thr s t)" "t = (?c # ys) ! j" unfolding find_Some_iff by blast
    have t: "t \<in> R" unfolding y(2) j(3) using j(1) by (rule nth_mem)
    have ne: "t \<noteq> ?c" using j(2) r(3) by auto
    then have "ring_ok (ring_unlink t s) (R - {t})" using ring_ok_unlink [OF r(1) t] r(2) by auto
    then show ?thesis using f Some t j(2) ne by (simp add: sysman_reap_def)
  qed
qed

section \<open>Niceness\<close>

text \<open>
  C30: Niceness stays between -7 and 7, so that every thread has a queue; and without permission a thread can only become nicer,
  but for one case: the sum overflows an \<open>int\<close>, and then the thread gets the highest priority there is.
\<close>

theorem nice_bounds:
  assumes n: "tk_niceVal (s_thr s (s_cur s me)) \<in> {-7..7}" and i: "- (2 ^ 31) \<le> incr" "incr < 2 ^ 31"
    and r: "sys_nice perm me incr s = (v, s')"
  shows "tk_niceVal (s_thr s' (s_cur s me)) \<in> {-7..7} \<and>
    (let n = tk_niceVal (s_thr s (s_cur s me)); n' = tk_niceVal (s_thr s' (s_cur s me)) in
     (\<not> perm \<longrightarrow> (if n + incr < 2 ^ 31 then n \<le> n' else n' = -7)) \<and>
     (perm \<or> 0 \<le> incr \<longrightarrow> v = n'))"
proof -
  let ?n = "tk_niceVal (s_thr s (s_cur s me))"
  have c: "c_int (?n + incr) = (if ?n + incr < 2 ^ 31 then if - (2 ^ 31) \<le> ?n + incr then ?n + incr else ?n + incr + 2 ^ 32 else ?n + incr - 2 ^ 32)"
  proof -
    have "c_int (?n + incr) = ?n + incr" if "- (2 ^ 31) \<le> ?n + incr" "?n + incr < 2 ^ 31" using that by (rule c_int_id)
    moreover have "c_int (?n + incr) = ?n + incr - 2 ^ 32" if "2 ^ 31 \<le> ?n + incr"
    proof -
      have "c_int (?n + incr) = c_int (?n + incr - 2 ^ 32)" by (simp add: c_int_mod)
      also have "\<dots> = ?n + incr - 2 ^ 32" using that n i by (intro c_int_id) auto
      finally show ?thesis .
    qed
    moreover have "c_int (?n + incr) = ?n + incr + 2 ^ 32" if "?n + incr < - (2 ^ 31)"
    proof -
      have "c_int (?n + incr) = c_int (?n + incr + 2 ^ 32)" by (simp add: c_int_mod)
      also have "\<dots> = ?n + incr + 2 ^ 32" using that n i by (intro c_int_id) auto
      finally show ?thesis .
    qed
    ultimately show ?thesis by auto
  qed
  show ?thesis using r n i by (auto simp: sys_nice_def thnice_def Let_def c split: if_splits)
qed

section \<open>A machine that has just started\<close>

definition demo_task :: "u64 \<Rightarrow> nat option \<Rightarrow> nat \<Rightarrow> nat \<Rightarrow> nat task" where
  "demo_task fl rq ctx n = \<lparr>tk_flags = fl, tk_wakeCounter = 0, tk_niceVal = 0, tk_rqThread = rq, tk_rqNext = None,
     tk_ps = \<lparr>ps_ticks = 0, ps_entries = 0\<rparr>, tk_creds = None, tk_ctx = ctx, tk_prev = n, tk_next = n\<rparr>"

text \<open>Thread 1 started the machine, 2 is the system manager; the idle threads are at 10 and above.\<close>

definition demo_sched :: "nat \<Rightarrow> nat sched" where
  "demo_sched n = \<lparr>s_thr = (\<lambda>t. demo_task THREAD_WAITING None 0 t)(1 := demo_task 0 None 100 2, 2 := demo_task 0 (Some 2) 200 1),
     s_first = (\<lambda>i. if i = 7 then Some 2 else None), s_last = (\<lambda>i. if i = 7 then Some 2 else None),
     s_cur = (\<lambda>c. 10 + c)(0 := 1), s_idle = (\<lambda>c. 10 + c), s_cps = (\<lambda>c. \<lparr>ps_ticks = 0, ps_entries = 0\<rparr>),
     s_ready = 0, s_numCPU = n, s_hints = []\<rparr>"

lemma demo_sched_boot: "0 < n \<Longrightarrow> n \<le> 16 \<Longrightarrow> sched_boot 1 2 (demo_sched n, {}, {1, 2})"
  by (simp add: sched_boot_def demo_sched_def demo_task_def)

lemma demo_sched_reach: "0 < n \<Longrightarrow> n \<le> 16 \<Longrightarrow> sched_reach 1 2 (demo_sched n, {}, {1, 2})"
  by (rule sched_reach.boot [OF demo_sched_boot])

section \<open>A thread on two processors\<close>

text \<open>
  Thread 1 blocks on processor 0; before it has switched, processor 1 wakes it, finds it in the queue at the end of the quantum, and
  runs it.
\<close>

definition race1 :: "nat sched" where "race1 = snd (switchTaskUnlocked (\<lambda>c. c) 1 0 0 (demo_sched 2))"
definition race2 :: "nat sched" where "race2 = sched_wait 1 race1"
definition race3 :: "nat sched" where "race3 = snd (sched_signal 1 1 race2)"
definition race4 :: "nat \<times> nat sched" where "race4 = switchTaskUnlocked (\<lambda>c. c) 1 5 201 race3"

lemma race_result: "s_cur race1 0 = 1" "s_numCPU race1 = 2" "s_cur (snd race4) 0 = 1" "s_cur (snd race4) 1 = 1" "fst race4 = 100"
  by code_simp+

text \<open>With two processors a thread can run on both at once: \<open>waitThread\<close> marks it before it has left its processor, and a
  wake-up in between puts it into a queue at once. The second processor continues it from an old context.
\<close>

theorem two_processors:
  "\<exists>s A. sched_reach 1 2 (s, {0}, A) \<and> s_numCPU s = 2 \<and> s_cur s 0 \<in> A \<and> s_cur s 1 = s_cur s 0 \<and>
     (\<exists>s0. sched_reach 1 2 (s0, {0}, A) \<and> s_cur s0 0 = s_cur s 0 \<and> s = snd (switchTaskUnlocked (\<lambda>c. c) 1 5 201 s0) \<and>
        fst (switchTaskUnlocked (\<lambda>c. c) 1 5 201 s0) = tk_ctx (s_thr (demo_sched 2) (s_cur s 0)))"
proof -
  have r0: "sched_reach 1 2 (demo_sched 2, {}, {1, 2})" by (rule demo_sched_reach) simp_all
  have "sched_step 1 2 (demo_sched 2, {}, {1, 2}) (race1, {}, {1, 2})"
    unfolding race1_def by (rule sched_step.tick) (simp_all add: demo_sched_def)
  with r0 have r1: "sched_reach 1 2 (race1, {}, {1, 2})" by (rule sched_reach.step)
  have "sched_step 1 2 (race1, {}, {1, 2}) (sched_wait (s_cur race1 0) race1, {0}, {1, 2})"
    using sched_step.block [of 0 race1 "{}" "{1, 2}"] by (simp add: race_result)
  then have "sched_step 1 2 (race1, {}, {1, 2}) (race2, {0}, {1, 2})" by (simp add: race2_def race_result)
  with r1 have r2: "sched_reach 1 2 (race2, {0}, {1, 2})" by (rule sched_reach.step)
  have n2: "s_numCPU race2 = 2" by (simp add: race2_def sched_wait_def race_result)
  have "sched_step 1 2 (race2, {0}, {1, 2}) (race3, {0}, {1, 2})"
    unfolding race3_def by (rule sched_step.wake) (simp_all add: n2)
  with r2 have r3: "sched_reach 1 2 (race3, {0}, {1, 2})" by (rule sched_reach.step)
  have n3: "s_numCPU race3 = 2" by (simp add: race3_def n2)
  have "sched_step 1 2 (race3, {0}, {1, 2}) (snd race4, {0}, {1, 2})"
    unfolding race4_def by (rule sched_step.tick) (simp_all add: n3)
  with r3 have r4: "sched_reach 1 2 (snd race4, {0}, {1, 2})" by (rule sched_reach.step)
  have n4: "s_numCPU (snd race4) = 2" by (simp add: race4_def n3)
  have c3: "s_cur race3 0 = 1" by code_simp
  show ?thesis
    by (rule exI [of _ "snd race4"], rule exI [of _ "{1, 2}"], intro conjI exI [of _ race3])
      (use r3 r4 c3 n4 race_result in \<open>simp_all add: race4_def demo_sched_def demo_task_def\<close>)
qed

section \<open>Witnesses\<close>

lemma demo_rq: "rq_ok (demo_sched 1) (\<lambda>i. if i = 7 then [2] else []) {1, 2}"
  using smp_inv_boot [OF demo_sched_boot [of 1]] by (simp add: smp_inv_def)

theorem switch_policy_witness:
  "fst (switchTaskUnlocked Suc 0 5 101 (demo_sched 1)) = 201 \<and> s_cur (snd (switchTaskUnlocked Suc 0 5 101 (demo_sched 1))) 0 = 2 \<and>
   rq_ok (snd (switchTaskUnlocked Suc 0 5 101 (demo_sched 1))) ((\<lambda>i. [])(8 := [1])) {1, 2}"
proof -
  let ?q = "\<lambda>i::int. if i = 7 then [2::nat] else []"
  obtain ctx s' where sw: "switchTaskUnlocked Suc 0 5 101 (demo_sched 1) = (ctx, s')" by (cases "switchTaskUnlocked Suc 0 5 101 (demo_sched 1)")
  have t: "s_thr (demo_sched 1) 1 = demo_task 0 None 100 2" "s_cur (demo_sched 1) 0 = 1" "s_thr (demo_sched 1) 2 = demo_task 0 (Some 2) 200 1"
    by (simp_all add: demo_sched_def)
  have o: "spec_out (s_thr (demo_sched 1) 1) 1 ?q = ?q(8 := [1])"
    unfolding t by (simp add: spec_out_def canSched_def has_def demo_task_def getPrio_def)
  have p: "spec_pick (?q(8 := [1])) = Some (2, (?q(8 := [1]))(7 := []))" by (rule spec_pick_Some) auto
  have e: "(?q(8 := [1]))(7 := []) = (\<lambda>i. [])(8 := [1])" by auto
  have a: "\<forall>x\<in>{1, 2}. getPrio (s_thr (demo_sched 1) x) \<in> {1..15}" by (simp add: demo_sched_def demo_task_def getPrio_def)
  have c: "1 = s_cur (demo_sched 1) 0" "1 \<in> {1, 2} \<or> \<not> canSched (s_thr (demo_sched 1) 1)" by (simp_all add: demo_sched_def)
  note r = switch_policy [OF demo_rq c a sw, unfolded o p option.case prod.case e]
  then have "s_cur s' 0 = 2" "rq_ok s' ((\<lambda>i. [])(8 := [1])) {1, 2}" by (simp_all only:)
  moreover from r have "ctx = Suc (if s_cur s' 0 = s_cur (demo_sched 1) 0 then 101 else tk_ctx (s_thr (demo_sched 1) (s_cur s' 0)))"
    unfolding switched_def Let_def prod.case by (elim conjE)
  ultimately show ?thesis unfolding sw fst_conv snd_conv by (simp add: demo_sched_def demo_task_def)
qed

definition demo_turns :: "nat sched" where
  "demo_turns = (demo_sched 1)\<lparr>
     s_thr := (\<lambda>t. demo_task THREAD_WAITING None 0 t)(1 := demo_task 0 None 100 2,
       2 := (demo_task 0 (Some 2) 200 3)\<lparr>tk_rqNext := Some 3\<rparr>, 3 := demo_task 0 (Some 3) 300 1),
     s_first := (\<lambda>i. None)(8 := Some 2), s_last := (\<lambda>i. None)(8 := Some 3)\<rparr>"

theorem round_robin_witness:
  "s_cur (run_ticks 0 (replicate 5 (\<lambda>c. c, 7, 0)) demo_turns) 0 = 3"
proof -
  let ?q = "(\<lambda>i. [])(8 := [2::nat, 3])"
  have "rq_ok demo_turns ?q {1, 2, 3}"
    by (auto simp: rq_ok_def rq_list_def demo_turns_def demo_task_def)
  moreover have "s_cur demo_turns 0 = 1" by (simp add: demo_turns_def demo_sched_def)
  moreover have "\<forall>x\<in>{1, 2, 3}. canSched (s_thr demo_turns x) \<and> getPrio (s_thr demo_turns x) = 8"
    by (simp add: demo_turns_def demo_task_def canSched_def has_def getPrio_def)
  ultimately have "s_cur (run_ticks 0 (replicate 5 (\<lambda>c. c, 7, 0)) demo_turns) 0 = [1, 2, 3] ! (length (replicate 5 (\<lambda>c::nat. c, 7::u64, 0::nat)) mod Suc 2)"
    using round_robin [of demo_turns ?q "{1, 2, 3}" 1 0 8 "replicate 5 (\<lambda>c. c, 7, 0)"] by (simp split: if_splits)
  then show ?thesis by simp
qed

definition demo_ring :: "nat sched" where
  "demo_ring = (demo_sched 1)\<lparr>s_cur := (\<lambda>c. 2),
     s_thr := (\<lambda>t. demo_task 0 None 0 t)(1 := (demo_task 0 None 100 2)\<lparr>tk_prev := 3\<rparr>, 2 := (demo_task 0 None 200 3)\<lparr>tk_prev := 1\<rparr>,
       3 := (demo_task THREAD_TERMINATED None 300 1)\<lparr>tk_prev := 2, tk_creds := Some 50\<rparr>)\<rparr>"

theorem sysman_reap_total_witness:
  "\<exists>s'. sysman_reap 0 demo_ring = Some (Some 3, s') \<and> ring_ok s' {1, 2}"
proof -
  have r: "ring_ok demo_ring {1, 2, 3}"
    unfolding ring_ok_def ring_at_def
    by (rule exI [of _ 1], rule exI [of _ "[2, 3]"]) (auto simp: demo_ring_def demo_task_def)
  have n: "reapable (s_thr demo_ring t) \<longleftrightarrow> t = 3" if "t \<in> {1, 2, 3}" for t
    using that by (auto simp: demo_ring_def demo_task_def reapable_def has_def)
  have c: "s_cur demo_ring 0 = 2" by (simp add: demo_ring_def)
  obtain r s' where o: "sysman_reap 0 demo_ring = Some (r, s')" "case r of
      None \<Rightarrow> s' = demo_ring \<and> (\<forall>t\<in>{1, 2, 3}. \<not> reapable (s_thr demo_ring t))
    | Some t \<Rightarrow> t \<in> {1, 2, 3} \<and> reapable (s_thr demo_ring t) \<and> ring_ok s' ({1, 2, 3} - {t})"
    using sysman_reap_total [OF r, of 0] c n by auto
  have "r = Some 3" using o(2) n by (auto split: option.splits)
  moreover have "{1, 2, 3} - {3} = {1, 2::nat}" by auto
  ultimately show ?thesis using o by auto
qed

definition demo_nice :: "nat sched" where "demo_nice = snd (sys_nice False 0 5 (demo_sched 1))"

theorem nice_bounds_witness:
  "\<exists>s'. sys_nice False 0 (2 ^ 31 - 1) demo_nice = (-7, s') \<and> tk_niceVal (s_thr s' 1) = -7"
proof -
  have n: "s_cur demo_nice 0 = 1" "tk_niceVal (s_thr demo_nice 1) = 5"
    by (simp_all add: demo_nice_def sys_nice_def thnice_def Let_def demo_sched_def demo_task_def upd_thr_def c_int_id)
  obtain v s' where r: "sys_nice False 0 (2 ^ 31 - 1) demo_nice = (v, s')" by (cases "sys_nice False 0 (2 ^ 31 - 1) demo_nice")
  have "tk_niceVal (s_thr demo_nice (s_cur demo_nice 0)) \<in> {-7..7}" unfolding n by simp
  from nice_bounds [OF this _ _ r, unfolded n] have "v = -7" "tk_niceVal (s_thr s' 1) = -7" by (simp_all add: n Let_def)
  with r show ?thesis by simp
qed

theorem sched_queues_witness:
  "\<exists>q. rq_ok (demo_sched 2) q {1, 2} \<and> (\<forall>t\<in>{1, 2}. getPrio (s_thr (demo_sched 2) t) \<in> {1..15}) \<and>
    (\<forall>t\<in>{1, 2}. canSched (s_thr (demo_sched 2) t) \<longrightarrow> queued q t \<or> (\<exists>c < s_numCPU (demo_sched 2). s_cur (demo_sched 2) c = t))"
  by (rule sched_queues [OF demo_sched_reach]) simp_all

theorem sched_single_witness:
  "\<exists>R. ring_ok (demo_sched 1) R \<and> R \<subseteq> {1, 2} \<and> (\<forall>t\<in>{1, 2}. \<not> has (tk_flags (s_thr (demo_sched 1) t)) THREAD_TERMINATED \<longrightarrow> t \<in> R)"
  using sched_single [OF demo_sched_reach [of 1]] by (simp add: demo_sched_def)

end
