(* ===== verification/Gx_Process.thy ===== *)
theory Gx_Process
  imports Gx_Sched
begin

text \<open>
  Processes (\<open>kernel/src/thread/sched.c\<close>): the credentials that the threads of a process share, \<open>fork\<close> and thread
  creation, how threads and processes end, and the notifications by which \<open>wait\<close>, \<open>pthread_join\<close> and \<open>pthread_detach\<close>
  learn of it.

  The circular list of threads is a list here (\<open>Gx_SchedUni\<close> shows that it is a proper ring), and so is the list of
  notifications, newest first; a walk from \<open>currentThread\<close> is \<open>threads_from\<close>. Credentials are reached through their address,
  with their reference count. \<open>px_woken\<close> are the threads given to \<open>signalThread\<close>, \<open>px_killed\<close> those sent \<open>SIGTHKILL\<close>,
  \<open>px_sent\<close> the signals given to \<open>signalPidEx\<close>. Address spaces, file tables, directories and signal dispositions of threads
  are in their own components.
\<close>

section \<open>Data\<close>

abbreviation ECHILD :: int where "ECHILD \<equiv> 12"
abbreviation SIGCHLD :: int where "SIGCHLD \<equiv> 18"
abbreviation CLD_EXITED :: int where "CLD_EXITED \<equiv> 0x2001"
abbreviation CLD_KILLED :: int where "CLD_KILLED \<equiv> 0x2002"
abbreviation CLD_DUMPED :: int where "CLD_DUMPED \<equiv> 0x2003"
abbreviation TR_EXIT :: int where "TR_EXIT \<equiv> 1"
abbreviation CLONE_THREAD :: u32 where "CLONE_THREAD \<equiv> 1"
abbreviation CLONE_DETACHED :: u32 where "CLONE_DETACHED \<equiv> 2"
abbreviation WNOHANG :: u32 where "WNOHANG \<equiv> 1"
abbreviation WS_CORE :: int where "WS_CORE \<equiv> 128"
abbreviation DBG_STOP_ON_EXEC :: u32 where "DBG_STOP_ON_EXEC \<equiv> 1"
abbreviation DBG_DEBUGGER :: u32 where "DBG_DEBUGGER \<equiv> 2"
abbreviation DBG_DEBUG_MODE :: u32 where "DBG_DEBUG_MODE \<equiv> 4"

record pcreds = Creds +
  pc_refcount :: int
  pc_status :: int

text \<open>\<open>SHN_PROCESS_DEAD\<close> and \<open>SHN_THREAD_DEAD\<close>, with the destination, the source and what \<open>info\<close> holds.\<close>

datatype SchedNotif =
  ProcessDead (sn_dest: int) (sn_source: int) (sn_status: int)
| ThreadDead (sn_dest: int) (sn_source: int) (sn_retval: u64)

record pthr =
  pt_thid :: int
  pt_creds :: "nat option"
  pt_flags :: u64
  pt_debugFlags :: u32
  pt_wakeCounter :: int

record psys =
  px_thr :: "nat \<Rightarrow> pthr"
  px_ring :: "nat list"
  px_cr :: "nat \<Rightarrow> pcreds option"
  px_notifs :: "SchedNotif list"
  px_nextPid :: int
  px_toClean :: int
  px_closingPid :: int
  px_reaping :: "nat option" \<comment> \<open>what the system manager has taken out of the list and not yet cleaned up\<close>
  px_woken :: "nat list"
  px_killed :: "nat list"
  px_sent :: "(int \<times> siginfo) list"

definition threads_from :: "nat \<Rightarrow> nat list \<Rightarrow> nat list" where
  "threads_from cur ring = dropWhile (\<lambda>t. t \<noteq> cur) ring @ takeWhile (\<lambda>t. t \<noteq> cur) ring"

definition px_upd :: "nat \<Rightarrow> (pthr \<Rightarrow> pthr) \<Rightarrow> psys \<Rightarrow> psys" where
  "px_upd t f st = st\<lparr>px_thr := (px_thr st)(t := f (px_thr st t))\<rparr>"

text \<open>\<open>thread->creds->pid\<close>; \<open>None\<close> for kernel threads.\<close>

definition creds_of :: "psys \<Rightarrow> nat \<Rightarrow> pcreds option" where
  "creds_of st t = (case pt_creds (px_thr st t) of None \<Rightarrow> None | Some a \<Rightarrow> px_cr st a)"

definition pid_of :: "psys \<Rightarrow> nat \<Rightarrow> int option" where
  "pid_of st t = map_option cr_pid (creds_of st t)"

definition getThreadByTHID :: "nat \<Rightarrow> int \<Rightarrow> psys \<Rightarrow> nat option" where
  "getThreadByTHID cur thid st = List.find (\<lambda>t. pt_thid (px_thr st t) = thid) (threads_from cur (px_ring st))"

definition getThreadByPID :: "nat \<Rightarrow> int \<Rightarrow> psys \<Rightarrow> nat option" where
  "getThreadByPID cur pid st = List.find (\<lambda>t. pid_of st t = Some pid) (threads_from cur (px_ring st))"

section \<open>Sleeping and waking\<close>

text \<open>What \<open>waitThread\<close> and \<open>signalThread\<close> do to the thread; \<open>Gx_Sched\<close> has the run queues, \<open>Gx_Signal\<close> the alarm.\<close>

definition px_wait :: "nat \<Rightarrow> psys \<Rightarrow> psys" where
  "px_wait t st =
     px_upd t (\<lambda>r. if pt_wakeCounter r = 0 then r\<lparr>pt_flags := pt_flags r OR THREAD_WAITING\<rparr>
                   else r\<lparr>pt_wakeCounter := c_int (pt_wakeCounter r - 1)\<rparr>) st"

definition px_signal :: "nat \<Rightarrow> psys \<Rightarrow> psys" where
  "px_signal t st =
     (px_upd t (\<lambda>r. if has (pt_flags r) THREAD_WAITING then r\<lparr>pt_flags := pt_flags r AND NOT THREAD_WAITING\<rparr>
                    else r\<lparr>pt_wakeCounter := c_int (pt_wakeCounter r + 1)\<rparr>) st)\<lparr>px_woken := px_woken st @ [t]\<rparr>"

definition wakeProcess :: "nat \<Rightarrow> int \<Rightarrow> psys \<Rightarrow> psys" where
  "wakeProcess cur pid st =
     fold (\<lambda>t st. if pid_of st t = Some pid then px_signal t st else st) (threads_from cur (px_ring st)) st"

section \<open>Credentials\<close>

definition credsNew :: "nat \<Rightarrow> psys \<Rightarrow> psys" where
  "credsNew a st = st\<lparr>px_cr := (px_cr st)(a \<mapsto> \<lparr>cr_pid = 1, cr_ppid = 1, cr_pgid = 0, cr_euid = 0, cr_ruid = 0, pc_refcount = 1, pc_status = 0\<rparr>)\<rparr>"

definition credsDup :: "pcreds \<Rightarrow> nat \<Rightarrow> psys \<Rightarrow> psys" where
  "credsDup old a st =
     st\<lparr>px_cr := (px_cr st)(a \<mapsto> old\<lparr>pc_refcount := 1, cr_pid := px_nextPid st\<rparr>), px_nextPid := c_int (px_nextPid st + 1)\<rparr>"

definition creds_add :: "nat \<Rightarrow> int \<Rightarrow> psys \<Rightarrow> psys" where
  "creds_add a d st = st\<lparr>px_cr := (px_cr st)(a := map_option (\<lambda>c. c\<lparr>pc_refcount := c_int (pc_refcount c + d)\<rparr>) (px_cr st a))\<rparr>"

definition credsUpref :: "nat \<Rightarrow> psys \<Rightarrow> psys" where
  "credsUpref a st = creds_add a 1 st"

definition set_ppid :: "nat \<Rightarrow> int \<Rightarrow> psys \<Rightarrow> psys" where
  "set_ppid a p st = st\<lparr>px_cr := (px_cr st)(a := map_option (\<lambda>c. c\<lparr>cr_ppid := p\<rparr>) (px_cr st a))\<rparr>"

text \<open>
  The loop of \<open>credsDownref\<close> over the threads: the children of the process \<open>pid\<close> become children of init, and are no
  longer traced; the parent is found when one of its threads is on the list.
\<close>

definition orphan :: "int \<Rightarrow> nat \<Rightarrow> psys \<Rightarrow> psys" where
  "orphan pid t st =
     (case creds_of st t of
        None \<Rightarrow> st
      | Some c \<Rightarrow>
          if cr_ppid c = pid then
            (let st = (case pt_creds (px_thr st t) of None \<Rightarrow> st | Some a \<Rightarrow> set_ppid a 1 st)
             in if has (pt_flags (px_thr st t)) THREAD_TRACED
                then px_signal t (px_upd t (\<lambda>r. r\<lparr>pt_debugFlags := 0, pt_flags := pt_flags r AND NOT THREAD_TRACED OR THREAD_WAITING\<rparr>) st)
                else st)
          else st)"

fun orphan_loop :: "int \<Rightarrow> int \<Rightarrow> int \<Rightarrow> nat list \<Rightarrow> psys \<Rightarrow> int \<times> psys" where
  "orphan_loop pid ppid parent [] st = (parent, st)"
| "orphan_loop pid ppid parent (t # ts) st =
     (let st = orphan pid t st
      in orphan_loop pid ppid (if pid_of st t = Some ppid then ppid else parent) ts st)"

definition child_siginfo :: "siginfo \<Rightarrow> pcreds \<Rightarrow> siginfo" where
  "child_siginfo junk c =
     (let termsig = pc_status c AND 0x7F;
          si = junk\<lparr>si_signo := SIGCHLD, si_pid := cr_pid c, si_uid := cr_ruid c\<rparr>
      in if termsig \<noteq> 0 then si\<lparr>si_code := (if pc_status c AND WS_CORE \<noteq> 0 then CLD_DUMPED else CLD_KILLED), si_status := termsig\<rparr>
         else si\<lparr>si_code := CLD_EXITED, si_status := drop_bit 8 (pc_status c) AND 0xFF\<rparr>)"

text \<open>\<open>junk\<close> is what the stack holds in the fields of the \<open>siginfo_t\<close> that are not set.\<close>

definition credsDownref :: "siginfo \<Rightarrow> nat \<Rightarrow> nat \<Rightarrow> psys \<Rightarrow> psys kres" where
  "credsDownref junk cur a st =
     (case px_cr st a of
        None \<Rightarrow> Panic
      | Some c \<Rightarrow>
          let st = creds_add a (-1) st in
          if pc_refcount c \<noteq> 1 then Ok st
          else
            let (parent, st) = orphan_loop (cr_pid c) (cr_ppid c) 1 (threads_from cur (px_ring st)) st;
                c = (case px_cr st a of None \<Rightarrow> c | Some c \<Rightarrow> c);
                st = st\<lparr>px_notifs := ProcessDead parent (cr_pid c) (pc_status c) # filter (\<lambda>n. sn_dest n \<noteq> cr_pid c) (px_notifs st)\<rparr>;
                st = st\<lparr>px_sent := px_sent st @ [(parent, child_siginfo junk c)]\<rparr>;
                st = wakeProcess cur parent st
            in Ok (st\<lparr>px_cr := (px_cr st)(a := None)\<rparr>))"

section \<open>New threads and processes\<close>

definition ring_after :: "nat \<Rightarrow> nat \<Rightarrow> nat list \<Rightarrow> nat list" where
  "ring_after cur t ring = takeWhile (\<lambda>x. x \<noteq> cur) ring @ cur # t # tl (dropWhile (\<lambda>x. x \<noteq> cur) ring)"

text \<open>The credentials and identity that \<open>threadClone\<close> gives to the thread at \<open>t\<close>; \<open>a\<close> is where new credentials go.\<close>

definition threadClone :: "nat \<Rightarrow> nat \<Rightarrow> nat \<Rightarrow> u32 \<Rightarrow> psys \<Rightarrow> (int \<times> psys) kres" where
  "threadClone cur t a flags st =
     (let me = px_thr st cur;
          (cr, st) = (if has flags CLONE_THREAD then
                        (case pt_creds me of Some b \<Rightarrow> (b, credsUpref b st) | None \<Rightarrow> (a, credsNew a st))
                      else
                        (case creds_of st cur of Some c \<Rightarrow> (a, credsDup c a st) | None \<Rightarrow> (a, credsNew a st)));
          thid = px_nextPid st;
          st = st\<lparr>px_nextPid := c_int (px_nextPid st + 1)\<rparr>;
          st = (if has flags CLONE_THREAD then st
                else set_ppid cr (case pid_of st cur of Some p \<Rightarrow> p | None \<Rightarrow> 1) st);
          r = \<lparr>pt_thid = thid, pt_creds = Some cr, pt_flags = (if has flags CLONE_DETACHED then THREAD_DETACHED else 0),
               pt_debugFlags = (if has (pt_debugFlags me) DBG_DEBUGGER then DBG_STOP_ON_EXEC OR DBG_DEBUG_MODE else 0), pt_wakeCounter = 0\<rparr>;
          st = st\<lparr>px_thr := (px_thr st)(t := r), px_ring := ring_after cur t (px_ring st)\<rparr>
      in if has flags CLONE_THREAD then Ok (thid, st)
         else case px_cr st cr of None \<Rightarrow> Panic | Some c \<Rightarrow> Ok (cr_pid c, st))"

section \<open>Ends\<close>

definition exit_siginfo :: "int \<Rightarrow> siginfo" where
  "exit_siginfo thid = \<lparr>si_signo = SIGTRACE, si_code = TR_EXIT, si_errno = 0, si_pid = thid, si_uid = 0, si_addr = 0, si_status = 0,
     si_pad = 0, si_band = 0, si_value = 0\<rparr>"

definition threadExitEx :: "nat \<Rightarrow> nat \<Rightarrow> u64 \<Rightarrow> psys \<Rightarrow> psys kres" where
  "threadExitEx sysman cur retval st =
     (case creds_of st cur of
        None \<Rightarrow> Panic
      | Some c \<Rightarrow>
          let me = px_thr st cur;
              st = (if has (pt_debugFlags me) DBG_DEBUG_MODE then st\<lparr>px_sent := px_sent st @ [(cr_ppid c, exit_siginfo (pt_thid me))]\<rparr> else st);
              st = (if \<not> has (pt_flags me) THREAD_DETACHED
                    then wakeProcess cur (cr_pid c) (st\<lparr>px_notifs := ThreadDead (cr_pid c) (pt_thid me) retval # px_notifs st\<rparr>)
                    else st);
              st = px_upd cur (\<lambda>r. r\<lparr>pt_flags := pt_flags r OR THREAD_TERMINATED\<rparr>) st
          in Ok (px_signal sysman (st\<lparr>px_toClean := px_toClean st + 1\<rparr>)))"

definition killOtherThreads :: "nat \<Rightarrow> psys \<Rightarrow> psys" where
  "killOtherThreads cur st =
     (case pid_of st cur of
        None \<Rightarrow> st
      | Some pid \<Rightarrow> st\<lparr>px_killed := px_killed st @ filter (\<lambda>t. pid_of st t = Some pid \<and> t \<noteq> cur) (threads_from cur (px_ring st)),
          px_notifs := filter (\<lambda>n. sn_dest n \<noteq> pid) (px_notifs st)\<rparr>)"

definition set_status :: "nat \<Rightarrow> int \<Rightarrow> psys \<Rightarrow> psys" where
  "set_status a v st = st\<lparr>px_cr := (px_cr st)(a := map_option (\<lambda>c. c\<lparr>pc_status := v\<rparr>) (px_cr st a))\<rparr>"

definition processExit :: "nat \<Rightarrow> nat \<Rightarrow> int \<Rightarrow> psys \<Rightarrow> psys kres" where
  "processExit sysman cur status st =
     (case (pid_of st cur, pt_creds (px_thr st cur)) of
        (Some pid, Some a) \<Rightarrow>
          if pid = 1 then Panic
          else threadExitEx sysman cur 0 (set_status a status (killOtherThreads cur st))
      | _ \<Rightarrow> Panic)"

text \<open>
  The system manager: the first thread that has ended and may be cleaned up leaves the list; then its credentials are
  released.
\<close>

definition px_reapable :: "psys \<Rightarrow> nat \<Rightarrow> bool" where
  "px_reapable st t \<longleftrightarrow> has (pt_flags (px_thr st t)) THREAD_TERMINATED \<and>
     (pt_creds (px_thr st t) \<noteq> None \<or> has (pt_flags (px_thr st t)) THREAD_DETACHED)"

definition clean_unlink :: "nat \<Rightarrow> psys \<Rightarrow> psys" where
  "clean_unlink sysman st =
     (let st = st\<lparr>px_toClean := px_toClean st - 1\<rparr>
      in case List.find (px_reapable st) (threads_from sysman (px_ring st)) of
           None \<Rightarrow> st
         | Some t \<Rightarrow> st\<lparr>px_ring := remove1 t (px_ring st), px_reaping := Some t\<rparr>)"

definition clean_finish :: "siginfo \<Rightarrow> nat \<Rightarrow> psys \<Rightarrow> psys kres" where
  "clean_finish junk sysman st =
     (case px_reaping st of
        None \<Rightarrow> Ok st
      | Some t \<Rightarrow>
          let st = (case pid_of st t of None \<Rightarrow> st | Some p \<Rightarrow> st\<lparr>px_closingPid := p\<rparr>)
          in kbind (case pt_creds (px_thr st t) of None \<Rightarrow> Ok st | Some a \<Rightarrow> credsDownref junk sysman a st)
               (\<lambda>st. Ok (st\<lparr>px_reaping := None\<rparr>)))"

section \<open>Waiting for ends\<close>

datatype wait_out = Reaped int int | Failed int | Sleeps

text \<open>The first notification for which \<open>P\<close> holds leaves the list.\<close>

fun take_notif :: "(SchedNotif \<Rightarrow> bool) \<Rightarrow> SchedNotif list \<Rightarrow> (SchedNotif \<times> SchedNotif list) option" where
  "take_notif P [] = None"
| "take_notif P (n # ns) = (if P n then Some (n, ns) else map_option (\<lambda>(m, ms). (m, n # ms)) (take_notif P ns))"

definition dead_child :: "int \<Rightarrow> int \<Rightarrow> SchedNotif \<Rightarrow> bool" where
  "dead_child me pid n \<longleftrightarrow> sn_dest n = me \<and> (sn_source n = pid \<or> pid = -1) \<and> (case n of ProcessDead _ _ _ \<Rightarrow> True | _ \<Rightarrow> False)"

text \<open>One turn of the loop of \<open>processWait\<close>, up to the point where the thread sleeps.\<close>

definition wait_turn :: "nat \<Rightarrow> int \<Rightarrow> u32 \<Rightarrow> psys \<Rightarrow> wait_out \<times> psys" where
  "wait_turn cur pid flags st =
     (case pid_of st cur of
        None \<Rightarrow> (Failed ECHILD, st)
      | Some me \<Rightarrow>
          case take_notif (dead_child me pid) (px_notifs st) of
            Some (n, ns) \<Rightarrow> (Reaped (sn_source n) (sn_status n), st\<lparr>px_notifs := ns\<rparr>)
          | None \<Rightarrow> if has flags WNOHANG then (Failed ECHILD, st) else (Sleeps, px_wait cur st))"

definition processWait :: "nat \<Rightarrow> int \<Rightarrow> u32 \<Rightarrow> psys \<Rightarrow> wait_out \<times> psys" where
  "processWait cur pid flags st = (if pid_of st cur = Some pid then (Failed ECHILD, st) else wait_turn cur pid flags st)"

text \<open>When the thread runs again; \<open>sig\<close> is \<open>wasSignalled()\<close>.\<close>

definition processWait_resume :: "bool \<Rightarrow> nat \<Rightarrow> int \<Rightarrow> u32 \<Rightarrow> psys \<Rightarrow> wait_out \<times> psys" where
  "processWait_resume sig cur pid flags st = (if sig then (Failed EINTR, st) else wait_turn cur pid flags st)"

datatype join_out = Joined u64 | SelfJoin | JoinSleeps | Interrupted

definition dead_thread :: "int \<Rightarrow> int \<Rightarrow> SchedNotif \<Rightarrow> bool" where
  "dead_thread me thid n \<longleftrightarrow> sn_dest n = me \<and> (case n of ThreadDead _ s _ \<Rightarrow> s = thid | _ \<Rightarrow> False)"

definition join_turn :: "nat \<Rightarrow> int \<Rightarrow> psys \<Rightarrow> join_out \<times> psys" where
  "join_turn cur thid st =
     (case pid_of st cur of
        None \<Rightarrow> (JoinSleeps, st)
      | Some me \<Rightarrow>
          case take_notif (dead_thread me thid) (px_notifs st) of
            Some (n, ns) \<Rightarrow> (Joined (sn_retval n), st\<lparr>px_notifs := ns\<rparr>)
          | None \<Rightarrow> (JoinSleeps, px_wait cur st))"

definition joinThread :: "nat \<Rightarrow> int \<Rightarrow> psys \<Rightarrow> join_out \<times> psys" where
  "joinThread cur thid st = (if thid = pt_thid (px_thr st cur) then (SelfJoin, st) else join_turn cur thid st)"

definition joinThread_resume :: "bool \<Rightarrow> nat \<Rightarrow> int \<Rightarrow> psys \<Rightarrow> join_out \<times> psys" where
  "joinThread_resume sig cur thid st = (if sig then (Interrupted, st) else join_turn cur thid st)"

text \<open>The result of \<open>detachThread\<close>, whether it returns with the scheduler lock held, and the state.\<close>

definition detachThread :: "nat \<Rightarrow> int \<Rightarrow> psys \<Rightarrow> int \<times> bool \<times> psys" where
  "detachThread cur thid st =
     (case getThreadByTHID cur thid st of
        None \<Rightarrow> (ESRCH, False, st)
      | Some t \<Rightarrow>
          case (pid_of st t, pid_of st cur) of
            (Some p, Some me) \<Rightarrow>
              if p \<noteq> me then (ESRCH, False, st)
              else if has (pt_flags (px_thr st t)) THREAD_DETACHED then (EINVAL, False, st)
              else let st = px_upd t (\<lambda>r. r\<lparr>pt_flags := pt_flags r OR THREAD_DETACHED\<rparr>) st
                   in (case take_notif (dead_thread me thid) (px_notifs st) of
                         Some (n, ns) \<Rightarrow> (0, True, st\<lparr>px_notifs := ns\<rparr>)
                       | None \<Rightarrow> (0, False, st))
          | _ \<Rightarrow> (ESRCH, False, st))"

definition detachMe :: "nat \<Rightarrow> psys \<Rightarrow> psys" where
  "detachMe cur st = px_upd cur (\<lambda>r. r\<lparr>pt_flags := pt_flags r OR THREAD_DETACHED\<rparr>) st"

definition getClosingPid :: "nat \<Rightarrow> nat \<Rightarrow> psys \<Rightarrow> int" where
  "getClosingPid sysman cur st =
     (if cur = sysman then px_closingPid st else case pid_of st cur of None \<Rightarrow> 0 | Some p \<Rightarrow> p)"

end
