(* ===== verification/Gx_ProcProps.thy ===== *)
theory Gx_ProcProps
  imports Gx_Process
begin

text \<open>
  Processes over every history of \<open>proc_reach\<close>: reference counts, identities, parents and notifications agree, the end of a
  process reaches its parent once, and what goes wrong with threads that are detached or wait for nobody.
\<close>

section \<open>Histories\<close>

text \<open>
  A thread acts that is on the list and has not ended. New threads and credentials have unused addresses; there are fewer than
  \<open>2 ^ 31\<close> threads, and the counter of identities has not wrapped. The first process is started once, by a kernel thread.
\<close>

definition px_live :: "psys \<Rightarrow> nat \<Rightarrow> bool" where
  "px_live st t \<longleftrightarrow> t \<in> set (px_ring st) \<and> \<not> has (pt_flags (px_thr st t)) THREAD_TERMINATED"

inductive proc_step :: "nat \<Rightarrow> psys \<Rightarrow> psys \<Rightarrow> bool" for sysman where
  clone: "px_live st cur \<Longrightarrow> creds_of st cur \<noteq> None \<or> (px_nextPid st = 1 \<and> pt_creds (px_thr st cur) = None \<and> \<not> has flags CLONE_THREAD) \<Longrightarrow>
    t \<notin> set (px_ring st) \<Longrightarrow> px_reaping st \<noteq> Some t \<Longrightarrow> px_cr st a = None \<Longrightarrow> px_nextPid st < 2 ^ 31 - 2 \<Longrightarrow> length (px_ring st) < 2 ^ 31 - 2 \<Longrightarrow>
    threadClone cur t a flags st = Ok (r, st') \<Longrightarrow> proc_step sysman st st'"
| exit: "px_live st cur \<Longrightarrow> threadExitEx sysman cur retval st = Ok st' \<Longrightarrow> proc_step sysman st st'"
| pexit: "px_live st cur \<Longrightarrow> processExit sysman cur status st = Ok st' \<Longrightarrow> proc_step sysman st st'"
| exec: "px_live st cur \<Longrightarrow> proc_step sysman st (killOtherThreads cur st)"
| unlink: "px_reaping st = None \<Longrightarrow> proc_step sysman st (clean_unlink sysman st)"
| finish: "clean_finish junk sysman st = Ok st' \<Longrightarrow> proc_step sysman st st'"
| wait: "px_live st cur \<Longrightarrow> proc_step sysman st (snd (processWait cur pid flags st))"
| wait_again: "px_live st cur \<Longrightarrow> proc_step sysman st (snd (processWait_resume sig cur pid flags st))"
| join: "px_live st cur \<Longrightarrow> proc_step sysman st (snd (joinThread cur thid st))"
| join_again: "px_live st cur \<Longrightarrow> proc_step sysman st (snd (joinThread_resume sig cur thid st))"
| detach: "px_live st cur \<Longrightarrow> proc_step sysman st (snd (snd (detachThread cur thid st)))"
| detach_me: "px_live st cur \<Longrightarrow> proc_step sysman st (detachMe cur st)"

text \<open>The machine before the first process, with the startup thread and the system manager.\<close>

definition proc_boot :: "nat \<Rightarrow> psys \<Rightarrow> bool" where
  "proc_boot sysman st \<longleftrightarrow>
     (\<exists>first. first \<noteq> sysman \<and> px_ring st = [first, sysman] \<and> pt_creds (px_thr st first) = None \<and> pt_creds (px_thr st sysman) = None) \<and>
     px_cr st = (\<lambda>a. None) \<and> px_notifs st = [] \<and> px_nextPid st = 1 \<and> px_reaping st = None"

inductive proc_reach :: "nat \<Rightarrow> psys \<Rightarrow> bool" for sysman where
  boot: "proc_boot sysman st \<Longrightarrow> proc_reach sysman st"
| step: "proc_reach sysman st \<Longrightarrow> proc_step sysman st st' \<Longrightarrow> proc_reach sysman st'"

section \<open>What the invariant depends on\<close>

definition pcr :: "psys \<Rightarrow> nat \<Rightarrow> nat option" where "pcr st t = pt_creds (px_thr st t)"

text \<open>The threads that hold credentials, among those on the list and the one being cleaned up.\<close>

definition held_by :: "psys \<Rightarrow> nat set" where
  "held_by st = set (px_ring st) \<union> (case px_reaping st of None \<Rightarrow> {} | Some t \<Rightarrow> {t})"

definition holders :: "psys \<Rightarrow> nat \<Rightarrow> nat set" where
  "holders st a = {t \<in> held_by st. pcr st t = Some a}"

definition live_pid :: "psys \<Rightarrow> int \<Rightarrow> bool" where
  "live_pid st p \<longleftrightarrow> (\<exists>a c. px_cr st a = Some c \<and> cr_pid c = p)"

definition zombies :: "psys \<Rightarrow> int list" where
  "zombies st = map sn_source (filter (\<lambda>n. case n of ProcessDead _ _ _ \<Rightarrow> True | _ \<Rightarrow> False) (px_notifs st))"

definition proc_inv :: "psys \<Rightarrow> bool" where
  "proc_inv st \<longleftrightarrow>
     distinct (px_ring st) \<and> (\<forall>t. px_reaping st = Some t \<longrightarrow> t \<notin> set (px_ring st)) \<and> length (px_ring st) < 2 ^ 31 - 1 \<and>
     1 \<le> px_nextPid st \<and> px_nextPid st < 2 ^ 31 \<and>
     (\<forall>t\<in>held_by st. \<forall>a. pcr st t = Some a \<longrightarrow> px_cr st a \<noteq> None) \<and>
     (\<forall>a c. px_cr st a = Some c \<longrightarrow> pc_refcount c = int (card (holders st a)) \<and> holders st a \<noteq> {}) \<and>
     (\<forall>a c. px_cr st a = Some c \<longrightarrow> 1 \<le> cr_pid c \<and> cr_pid c < px_nextPid st) \<and>
     (\<forall>a b c d. px_cr st a = Some c \<longrightarrow> px_cr st b = Some d \<longrightarrow> cr_pid c = cr_pid d \<longrightarrow> a = b) \<and>
     distinct (zombies st) \<and> (\<forall>p\<in>set (zombies st). \<not> live_pid st p \<and> 1 \<le> p \<and> p < px_nextPid st) \<and>
     (\<forall>n\<in>set (px_notifs st). live_pid st (sn_dest n) \<or> sn_dest n = 1) \<and>
     (\<forall>a c. px_cr st a = Some c \<longrightarrow> live_pid st (cr_ppid c) \<or> cr_ppid c = 1)"

text \<open>Changes of flags and wake-ups do not matter to it.\<close>

definition same_procs :: "psys \<Rightarrow> psys \<Rightarrow> bool" where
  "same_procs st st' \<longleftrightarrow> pcr st' = pcr st \<and> px_ring st' = px_ring st \<and> px_cr st' = px_cr st \<and> px_notifs st' = px_notifs st \<and>
     px_nextPid st' = px_nextPid st \<and> px_reaping st' = px_reaping st"

lemma same_procs_refl [simp]: "same_procs st st"
  by (simp add: same_procs_def)

lemma same_procs_trans: "same_procs st st' \<Longrightarrow> same_procs st' st'' \<Longrightarrow> same_procs st st''"
  by (simp add: same_procs_def)

lemma same_procsD:
  assumes "same_procs st st'"
  shows "pcr st' = pcr st" "px_ring st' = px_ring st" "px_cr st' = px_cr st" "px_notifs st' = px_notifs st" "px_nextPid st' = px_nextPid st"
    "px_reaping st' = px_reaping st" "held_by st' = held_by st" "holders st' a = holders st a" "live_pid st' p = live_pid st p"
    "zombies st' = zombies st" "creds_of st' t = creds_of st t" "pid_of st' t = pid_of st t" "proc_inv st' = proc_inv st"
proof -
  show f: "pcr st' = pcr st" "px_ring st' = px_ring st" "px_cr st' = px_cr st" "px_notifs st' = px_notifs st" "px_nextPid st' = px_nextPid st"
    "px_reaping st' = px_reaping st" using assms by (simp_all add: same_procs_def)
  show h: "held_by st' = held_by st" "live_pid st' p = live_pid st p" "zombies st' = zombies st" for p
    by (simp_all add: f held_by_def live_pid_def zombies_def)
  show ho: "holders st' a = holders st a" for a by (simp add: holders_def f h)
  have "pt_creds (px_thr st' t) = pt_creds (px_thr st t)" using fun_cong [OF f(1), of t] unfolding pcr_def .
  then show c: "creds_of st' t = creds_of st t" by (simp add: creds_of_def f(3) split: option.splits)
  then show "pid_of st' t = pid_of st t" by (simp add: pid_of_def)
  show "proc_inv st' = proc_inv st" by (simp add: proc_inv_def f h ho)
qed

lemma same_procs_upd: "(\<And>r. pt_creds (f r) = pt_creds r) \<Longrightarrow> same_procs st (px_upd t f st)"
  by (auto simp: same_procs_def px_upd_def pcr_def)

lemma same_procs_signal [simp]: "same_procs st (px_signal t st)"
  by (auto simp: same_procs_def px_signal_def px_upd_def pcr_def)

lemma same_procs_wait [simp]: "same_procs st (px_wait t st)"
  by (simp add: px_wait_def same_procs_upd)

lemma same_procs_wake [simp]: "same_procs st (wakeProcess cur pid st)"
proof -
  have "same_procs st (fold (\<lambda>t st. if pid_of st t = Some pid then px_signal t st else st) ts st)" for ts
    by (induction ts arbitrary: st) (auto intro: same_procs_trans [OF same_procs_signal])
  then show ?thesis by (simp add: wakeProcess_def)
qed

lemma wakeProcess_wakes:
  assumes "t \<in> set (px_ring st)" "pid_of st t = Some pid"
  shows "t \<in> set (px_woken (wakeProcess cur pid st))"
proof -
  let ?f = "\<lambda>t st. if pid_of st t = Some pid then px_signal t st else st"
  have "set (px_woken st) \<subseteq> set (px_woken (?f x st))" for x st by (auto simp: px_signal_def)
  then have mono: "set (px_woken st) \<subseteq> set (px_woken (fold ?f ts st))" for ts st
    by (induction ts arbitrary: st) (simp, metis (no_types, lifting) fold_simps(2) subset_trans)
  have "t \<in> set ts \<Longrightarrow> pid_of st t = Some pid \<Longrightarrow> t \<in> set (px_woken (fold ?f ts st))" for ts st
  proof (induction ts arbitrary: st)
    case (Cons x ts)
    have e: "pid_of (?f x st) t = Some pid" using Cons.prems(2) same_procsD(12) [OF same_procs_signal] by simp
    show ?case
    proof (cases "t = x")
      case True
      then have "t \<in> set (px_woken (?f x st))" using Cons.prems by (simp add: px_signal_def)
      then show ?thesis using mono [of "?f x st" ts] by auto
    next
      case False
      then show ?thesis using Cons.IH [OF _ e] Cons.prems by simp
    qed
  qed simp
  moreover have "set (threads_from cur (px_ring st)) = set (px_ring st)"
    unfolding threads_from_def by (metis Un_commute set_append takeWhile_dropWhile_id)
  ultimately show ?thesis using assms by (simp add: wakeProcess_def)
qed

section \<open>The loop over the children\<close>

lemma set_ppid_fields [simp]: "pcr (set_ppid a p st) = pcr st" "px_ring (set_ppid a p st) = px_ring st" "px_notifs (set_ppid a p st) = px_notifs st"
  "px_nextPid (set_ppid a p st) = px_nextPid st" "px_reaping (set_ppid a p st) = px_reaping st" "px_thr (set_ppid a p st) = px_thr st"
  by (simp_all add: set_ppid_def pcr_def fun_eq_iff)

text \<open>The credentials after it: the children among the threads have init as their parent.\<close>

definition adopted :: "int \<Rightarrow> nat set \<Rightarrow> (nat \<Rightarrow> pcreds option) \<Rightarrow> nat \<Rightarrow> pcreds option" where
  "adopted pid S cr a = map_option (\<lambda>c. if cr_ppid c = pid \<and> a \<in> S then c\<lparr>cr_ppid := 1\<rparr> else c) (cr a)"

lemma adopted_id:
  assumes "\<And>a c. a \<in> S \<Longrightarrow> cr a = Some c \<Longrightarrow> cr_ppid c = pid \<Longrightarrow> pid = 1"
  shows "adopted pid S cr = cr"
proof
  show "adopted pid S cr a = cr a" for a
    using assms by (cases "cr a") (auto simp: adopted_def)
qed

lemma adopted_empty [simp]: "adopted pid {} cr = cr"
  by (rule adopted_id) simp

definition adopts :: "int \<Rightarrow> nat set \<Rightarrow> psys \<Rightarrow> psys \<Rightarrow> bool" where
  "adopts pid S st st' \<longleftrightarrow> pcr st' = pcr st \<and> px_ring st' = px_ring st \<and> px_cr st' = adopted pid S (px_cr st) \<and> px_notifs st' = px_notifs st \<and>
     px_nextPid st' = px_nextPid st \<and> px_reaping st' = px_reaping st"

lemma orphan_adopts: "adopts pid (case pcr st t of None \<Rightarrow> {} | Some a \<Rightarrow> {a}) st (orphan pid t st)"
proof (cases "pcr st t")
  case None
  then show ?thesis by (simp add: adopts_def orphan_def creds_of_def pcr_def adopted_id)
next
  case (Some a)
  then have p: "pt_creds (px_thr st t) = Some a" by (simp add: pcr_def)
  show ?thesis
  proof (cases "px_cr st a")
    case None
    then show ?thesis using Some p by (auto simp: adopts_def orphan_def creds_of_def intro!: adopted_id [symmetric])
  next
    case (Some c)
    let ?u = "set_ppid a 1 st"
    have cr: "px_cr ?u = adopted pid {a} (px_cr st)" if "cr_ppid c = pid"
    proof
      show "px_cr ?u b = adopted pid {a} (px_cr st) b" for b
        using that Some by (cases "px_cr st b") (auto simp: set_ppid_def adopted_def)
    qed
    have cr': "adopted pid {a} (px_cr st) = px_cr st" if "cr_ppid c \<noteq> pid"
      using that Some by (intro adopted_id) auto
    have s: "same_procs ?u (px_signal t (px_upd t (\<lambda>r. r\<lparr>pt_debugFlags := 0, pt_flags := pt_flags r AND NOT THREAD_TRACED OR THREAD_WAITING\<rparr>) ?u))"
      by (rule same_procs_trans [OF same_procs_upd same_procs_signal]) simp
    show ?thesis using Some p \<open>pcr st t = Some a\<close> cr cr' s by (auto simp: adopts_def orphan_def creds_of_def same_procs_def Let_def)
  qed
qed

lemma adopted_pid: "map_option cr_pid (adopted pid S cr a) = map_option cr_pid (cr a)"
  by (cases "cr a") (simp_all add: adopted_def)

lemma adopted_adopted:
  assumes "pid \<noteq> 1"
  shows "adopted pid S (adopted pid T cr) = adopted pid (S \<union> T) cr"
proof
  show "adopted pid S (adopted pid T cr) a = adopted pid (S \<union> T) cr a" for a
    using assms by (cases "cr a") (auto simp: adopted_def)
qed

lemma adopted_one: "adopted 1 S cr = cr"
  by (rule adopted_id) simp

lemma adopts_trans: "adopts pid T st st' \<Longrightarrow> adopts pid S st' st'' \<Longrightarrow> adopts pid (S \<union> T) st st''"
  by (cases "pid = 1") (auto simp: adopts_def adopted_adopted adopted_one)

lemma adopts_pid_of: "adopts pid S st st' \<Longrightarrow> pid_of st' t = pid_of st t"
proof -
  assume a: "adopts pid S st st'"
  then have "pt_creds (px_thr st' t) = pt_creds (px_thr st t)" unfolding adopts_def pcr_def by metis
  then show ?thesis using a by (auto simp: pid_of_def creds_of_def adopts_def adopted_pid split: option.splits)
qed

lemma orphan_loop_adopts:
  assumes "orphan_loop pid ppid parent ts st = (r, st')"
  shows "adopts pid {a. \<exists>t\<in>set ts. pcr st t = Some a} st st' \<and> r = (if \<exists>t\<in>set ts. pid_of st t = Some ppid then ppid else parent)"
  using assms
proof (induction ts arbitrary: st parent)
  case Nil
  then show ?case by (simp add: adopts_def adopted_id)
next
  case (Cons t ts)
  let ?u = "orphan pid t st"
  have l: "orphan_loop pid ppid (if pid_of ?u t = Some ppid then ppid else parent) ts ?u = (r, st')" using Cons.prems by (simp add: Let_def)
  note i = Cons.IH [OF l]
  have o: "adopts pid (case pcr st t of None \<Rightarrow> {} | Some a \<Rightarrow> {a}) st ?u" by (rule orphan_adopts)
  then have p: "pcr ?u = pcr st" by (simp add: adopts_def)
  have e: "{a. \<exists>t\<in>set ts. pcr ?u t = Some a} \<union> (case pcr st t of None \<Rightarrow> {} | Some a \<Rightarrow> {a}) = {a. \<exists>t\<in>set (t # ts). pcr st t = Some a}"
    unfolding p by (auto split: option.splits)
  have "adopts pid {a. \<exists>t\<in>set (t # ts). pcr st t = Some a} st st'" unfolding e [symmetric]
    by (rule adopts_trans [OF o conjunct1 [OF i]])
  moreover have "r = (if \<exists>t\<in>set (t # ts). pid_of st t = Some ppid then ppid else parent)"
    using i adopts_pid_of [OF o] by auto
  ultimately show ?case by simp
qed

section \<open>Steps that keep the invariant\<close>

lemma live_cong: "\<forall>a. map_option cr_pid (px_cr st' a) = map_option cr_pid (px_cr st a) \<Longrightarrow> live_pid st' p = live_pid st p"
proof -
  have e: "live_pid u p \<longleftrightarrow> (\<exists>a. map_option cr_pid (px_cr u a) = Some p)" for u by (auto simp: live_pid_def)
  show "\<forall>a. map_option cr_pid (px_cr st' a) = map_option cr_pid (px_cr st a) \<Longrightarrow> live_pid st' p = live_pid st p" unfolding e by simp
qed

text \<open>Only the count, the identity and the parent in the credentials matter.\<close>

definition same_key :: "psys \<Rightarrow> psys \<Rightarrow> bool" where
  "same_key st st' \<longleftrightarrow> pcr st' = pcr st \<and> px_ring st' = px_ring st \<and> px_notifs st' = px_notifs st \<and> px_nextPid st' = px_nextPid st \<and>
     px_reaping st' = px_reaping st \<and>
     (\<forall>a. map_option (\<lambda>c. (pc_refcount c, cr_pid c, cr_ppid c)) (px_cr st' a) = map_option (\<lambda>c. (pc_refcount c, cr_pid c, cr_ppid c)) (px_cr st a))"

lemma inv_same_key:
  assumes inv: "proc_inv st" and k: "same_key st st'"
  shows "proc_inv st'"
proof -
  have f: "pcr st' = pcr st" "px_ring st' = px_ring st" "px_notifs st' = px_notifs st" "px_nextPid st' = px_nextPid st" "px_reaping st' = px_reaping st"
    using k by (simp_all add: same_key_def)
  have K: "map_option (\<lambda>c. (pc_refcount c, cr_pid c, cr_ppid c)) (px_cr st' a) = map_option (\<lambda>c. (pc_refcount c, cr_pid c, cr_ppid c)) (px_cr st a)" for a
    using k unfolding same_key_def by blast
  have c: "\<exists>c. px_cr st a = Some c \<and> pc_refcount c = pc_refcount c' \<and> cr_pid c = cr_pid c' \<and> cr_ppid c = cr_ppid c'" if "px_cr st' a = Some c'" for a c'
    using K [of a] that by (cases "px_cr st a") auto
  have n: "px_cr st' a = None \<longleftrightarrow> px_cr st a = None" for a
    using K [of a] by (cases "px_cr st a"; cases "px_cr st' a") auto
  have l: "live_pid st' p = live_pid st p" for p
  proof (rule live_cong, rule allI)
    fix a show "map_option cr_pid (px_cr st' a) = map_option cr_pid (px_cr st a)"
      using c [of a] n [of a] by (cases "px_cr st' a") auto
  qed
  have h: "held_by st' = held_by st" "holders st' a = holders st a" "zombies st' = zombies st" for a
    by (simp_all add: held_by_def holders_def zombies_def f)
  have i: "\<forall>a c. px_cr st a = Some c \<longrightarrow> pc_refcount c = int (card (holders st a)) \<and> holders st a \<noteq> {}"
    "\<forall>a c. px_cr st a = Some c \<longrightarrow> 1 \<le> cr_pid c \<and> cr_pid c < px_nextPid st"
    "\<forall>a b c d. px_cr st a = Some c \<longrightarrow> px_cr st b = Some d \<longrightarrow> cr_pid c = cr_pid d \<longrightarrow> a = b"
    "\<forall>a c. px_cr st a = Some c \<longrightarrow> live_pid st (cr_ppid c) \<or> cr_ppid c = 1"
    using inv by (simp_all add: proc_inv_def)
  have r1: "\<forall>a c. px_cr st' a = Some c \<longrightarrow> pc_refcount c = int (card (holders st a)) \<and> holders st a \<noteq> {}" using i(1) c by metis
  have r2: "\<forall>a c. px_cr st' a = Some c \<longrightarrow> 1 \<le> cr_pid c \<and> cr_pid c < px_nextPid st" using i(2) c by metis
  have r3: "\<forall>a c. px_cr st' a = Some c \<longrightarrow> live_pid st (cr_ppid c) \<or> cr_ppid c = 1" using i(4) c by metis
  have u: "\<forall>a b c d. px_cr st' a = Some c \<longrightarrow> px_cr st' b = Some d \<longrightarrow> cr_pid c = cr_pid d \<longrightarrow> a = b"
  proof (intro allI impI)
    fix a b c1 c2 assume x: "px_cr st' a = Some c1" "px_cr st' b = Some c2" "cr_pid c1 = cr_pid c2"
    obtain d1 d2 where "px_cr st a = Some d1" "px_cr st b = Some d2" "cr_pid d1 = cr_pid d2" using c [OF x(1)] c [OF x(2)] x(3) by auto
    then show "a = b" using i(3) by blast
  qed
  show ?thesis
    unfolding proc_inv_def f h n l
    using inv r1 r2 r3 u unfolding proc_inv_def by simp
qed

text \<open>Notifications that go.\<close>

definition zmb :: "SchedNotif list \<Rightarrow> int list" where
  "zmb ns = map sn_source (filter (\<lambda>n. case n of ProcessDead _ _ _ \<Rightarrow> True | _ \<Rightarrow> False) ns)"

lemma zmb_simps [simp]: "zmb (xs @ ys) = zmb xs @ zmb ys" "zmb (n # ns) = (case n of ProcessDead _ s _ \<Rightarrow> s # zmb ns | _ \<Rightarrow> zmb ns)" "zmb [] = []"
  by (auto simp: zmb_def split: SchedNotif.splits)

lemma zmb_filter: "set (zmb (filter P ns)) \<subseteq> set (zmb ns)" "distinct (zmb ns) \<Longrightarrow> distinct (zmb (filter P ns))"
proof -
  show s: "set (zmb (filter P ns)) \<subseteq> set (zmb ns)" for ns by (induction ns) (auto split: SchedNotif.splits)
  show "distinct (zmb ns) \<Longrightarrow> distinct (zmb (filter P ns))" using s by (induction ns) (auto split: SchedNotif.splits)
qed

lemma zombies_zmb: "zombies st = zmb (px_notifs st)"
  by (simp add: zombies_def zmb_def)

lemma inv_fewer:
  assumes inv: "proc_inv st" and s: "set ns \<subseteq> set (px_notifs st)" "distinct (zmb ns)" "set (zmb ns) \<subseteq> set (zombies st)"
  shows "proc_inv (st\<lparr>px_notifs := ns\<rparr>)"
proof -
  have f: "held_by (st\<lparr>px_notifs := ns\<rparr>) = held_by st" "holders (st\<lparr>px_notifs := ns\<rparr>) a = holders st a" "live_pid (st\<lparr>px_notifs := ns\<rparr>) p = live_pid st p"
    "zombies (st\<lparr>px_notifs := ns\<rparr>) = zmb ns" "pcr (st\<lparr>px_notifs := ns\<rparr>) = pcr st" for a p
    by (simp_all add: held_by_def holders_def live_pid_def zombies_zmb pcr_def fun_eq_iff)
  show ?thesis using inv s unfolding proc_inv_def f by (simp add: subset_iff)
qed

lemma take_notif_split: "take_notif P ns = Some (n, ms) \<Longrightarrow> \<exists>pre post. ns = pre @ n # post \<and> ms = pre @ post \<and> P n \<and> (\<forall>m\<in>set pre. \<not> P m)"
proof (induction ns arbitrary: ms)
  case (Cons m ns)
  show ?case
  proof (cases "P m")
    case True
    then show ?thesis using Cons.prems by (intro exI [of _ "[]"] exI [of _ ns]) auto
  next
    case False
    then obtain ks where k: "take_notif P ns = Some (n, ks)" "ms = m # ks" using Cons.prems by auto
    obtain pre post where "ns = pre @ n # post" "ks = pre @ post" "P n" "\<forall>m\<in>set pre. \<not> P m" using Cons.IH [OF k(1)] by blast
    then show ?thesis using k False by (intro exI [of _ "m # pre"] exI [of _ post]) auto
  qed
qed simp

lemma take_notif_None: "take_notif P ns = None \<longleftrightarrow> (\<forall>n\<in>set ns. \<not> P n)"
  by (induction ns) auto

lemma inv_take:
  assumes inv: "proc_inv st" and t: "take_notif P (px_notifs st) = Some (n, ns)"
  shows "proc_inv (st\<lparr>px_notifs := ns\<rparr>)"
proof -
  obtain pre post where p: "px_notifs st = pre @ n # post" "ns = pre @ post" using take_notif_split [OF t] by blast
  have d: "distinct (zmb (pre @ n # post))" using inv by (simp add: proc_inv_def zombies_zmb p)
  show ?thesis
    by (rule inv_fewer [OF inv]) (use d p zombies_zmb in \<open>auto split: SchedNotif.splits\<close>)
qed

lemma inv_wait: "proc_inv st \<Longrightarrow> proc_inv (snd (wait_turn cur pid flags st))"
  by (auto simp: wait_turn_def inv_take same_procsD(13) [OF same_procs_wait] split: option.splits)

lemma inv_join: "proc_inv st \<Longrightarrow> proc_inv (snd (join_turn cur thid st))"
  by (auto simp: join_turn_def inv_take same_procsD(13) [OF same_procs_wait] split: option.splits)

lemma inv_flags: "proc_inv st \<Longrightarrow> (\<And>r. pt_creds (f r) = pt_creds r) \<Longrightarrow> proc_inv (px_upd t f st)"
  using same_procsD(13) [OF same_procs_upd] by blast

lemma inv_detach: "proc_inv st \<Longrightarrow> proc_inv (snd (snd (detachThread cur thid st)))"
proof -
  assume inv: "proc_inv st"
  have "proc_inv (px_upd t (\<lambda>r. r\<lparr>pt_flags := pt_flags r OR THREAD_DETACHED\<rparr>) st)" for t by (rule inv_flags [OF inv]) simp
  then show ?thesis using inv by (auto simp: detachThread_def Let_def inv_take split: option.splits)
qed

lemma inv_kill: "proc_inv st \<Longrightarrow> proc_inv (killOtherThreads cur st)"
proof -
  assume inv: "proc_inv st"
  have "proc_inv (st\<lparr>px_notifs := filter P (px_notifs st)\<rparr>)" for P
    by (rule inv_fewer [OF inv]) (use inv zmb_filter in \<open>auto simp: zombies_zmb proc_inv_def\<close>)
  moreover have "proc_inv (st\<lparr>px_killed := k, px_notifs := ns\<rparr>) = proc_inv (st\<lparr>px_notifs := ns\<rparr>)" for k ns
    by (rule same_procsD(13)) (simp add: same_procs_def pcr_def fun_eq_iff)
  ultimately show ?thesis using inv by (simp add: killOtherThreads_def split: option.splits)
qed

lemma same_procs_misc [simp]:
  "same_procs st (st\<lparr>px_sent := x\<rparr>)" "same_procs st (st\<lparr>px_toClean := n\<rparr>)" "same_procs st (st\<lparr>px_closingPid := n\<rparr>)"
  by (simp_all add: same_procs_def pcr_def fun_eq_iff)

lemma inv_thread_dead:
  assumes inv: "proc_inv st" and c: "creds_of st cur = Some c"
  shows "proc_inv (st\<lparr>px_notifs := ThreadDead (cr_pid c) x y # px_notifs st\<rparr>)"
proof -
  let ?u = "st\<lparr>px_notifs := ThreadDead (cr_pid c) x y # px_notifs st\<rparr>"
  have l: "live_pid st (cr_pid c)" using c by (auto simp: creds_of_def live_pid_def split: option.splits)
  have f: "held_by ?u = held_by st" "holders ?u a = holders st a" "live_pid ?u p = live_pid st p" "zombies ?u = zombies st" "pcr ?u = pcr st" for a p
    by (simp_all add: held_by_def holders_def live_pid_def zombies_zmb pcr_def fun_eq_iff)
  show ?thesis using inv l unfolding proc_inv_def f by simp
qed

lemma inv_exit:
  assumes inv: "proc_inv st" and e: "threadExitEx sysman cur retval st = Ok st'"
  shows "proc_inv st'"
proof -
  obtain c where c: "creds_of st cur = Some c" using e by (auto simp: threadExitEx_def split: option.splits)
  define u where "u = (if has (pt_debugFlags (px_thr st cur)) DBG_DEBUG_MODE then st\<lparr>px_sent := px_sent st @ [(cr_ppid c, exit_siginfo (pt_thid (px_thr st cur)))]\<rparr> else st)"
  have su: "same_procs st u" by (simp add: u_def)
  note iu = same_procsD(13) [OF su] same_procsD(11) [OF su]
  define v where "v = (if \<not> has (pt_flags (px_thr st cur)) THREAD_DETACHED
                    then wakeProcess cur (cr_pid c) (u\<lparr>px_notifs := ThreadDead (cr_pid c) (pt_thid (px_thr st cur)) retval # px_notifs u\<rparr>)
                    else u)"
  have "proc_inv (u\<lparr>px_notifs := ThreadDead (cr_pid c) (pt_thid (px_thr st cur)) retval # px_notifs u\<rparr>)"
    by (rule inv_thread_dead [of _ cur]) (simp_all add: iu inv c)
  then have iv: "proc_inv v" using inv iu same_procsD(13) [OF same_procs_wake] by (simp add: v_def)
  define w where "w = px_upd cur (\<lambda>r. r\<lparr>pt_flags := pt_flags r OR THREAD_TERMINATED\<rparr>) v"
  have "proc_inv w" unfolding w_def by (rule inv_flags [OF iv]) simp
  then have "proc_inv (w\<lparr>px_toClean := px_toClean w + 1\<rparr>)" using same_procsD(13) [OF same_procs_misc(2)] by simp
  then have "proc_inv (px_signal sysman (w\<lparr>px_toClean := px_toClean w + 1\<rparr>))" using same_procsD(13) [OF same_procs_signal] by simp
  moreover have "st' = px_signal sysman (w\<lparr>px_toClean := px_toClean w + 1\<rparr>)"
    using e by (auto simp: threadExitEx_def c u_def v_def w_def Let_def)
  ultimately show ?thesis by simp
qed

lemma inv_status: "proc_inv st \<Longrightarrow> proc_inv (set_status a v st)"
proof (rule inv_same_key)
  show "same_key st (set_status a v st)"
    by (auto simp: same_key_def set_status_def pcr_def fun_eq_iff option.map_comp comp_def)
qed

lemma inv_pexit: "proc_inv st \<Longrightarrow> processExit sysman cur status st = Ok st' \<Longrightarrow> proc_inv st'"
  by (auto simp: processExit_def split: option.splits if_splits intro: inv_exit inv_status inv_kill)

section \<open>New threads\<close>

lemma set_ring_after: "cur \<in> set ring \<Longrightarrow> set (ring_after cur t ring) = insert t (set ring) \<and> length (ring_after cur t ring) = Suc (length ring)"
  "cur \<in> set ring \<Longrightarrow> distinct ring \<Longrightarrow> t \<notin> set ring \<Longrightarrow> distinct (ring_after cur t ring)"
proof -
  assume "cur \<in> set ring"
  then obtain xs ys where x: "ring = xs @ cur # ys" "cur \<notin> set xs" by (metis split_list_first)
  then have e: "ring_after cur t ring = xs @ cur # t # ys" by (auto simp: ring_after_def dropWhile_append takeWhile_append)
  show "set (ring_after cur t ring) = insert t (set ring) \<and> length (ring_after cur t ring) = Suc (length ring)" unfolding e unfolding x(1) by auto
  show "distinct ring \<Longrightarrow> t \<notin> set ring \<Longrightarrow> distinct (ring_after cur t ring)" unfolding e unfolding x(1) by auto
qed

lemma finite_held [simp]: "finite (held_by st)"
  by (auto simp: held_by_def split: option.splits)

lemma finite_holders [simp]: "finite (holders st a)"
  by (simp add: holders_def)

text \<open>What a step leaves that adds the thread \<open>t\<close> with the credentials at \<open>b\<close>.\<close>

definition adds :: "nat \<Rightarrow> nat \<Rightarrow> psys \<Rightarrow> psys \<Rightarrow> bool" where
  "adds t b st st' \<longleftrightarrow> set (px_ring st') = insert t (set (px_ring st)) \<and> distinct (px_ring st') \<and> length (px_ring st') < 2 ^ 31 - 1 \<and>
     pcr st' = (pcr st)(t := Some b) \<and> px_notifs st' = px_notifs st \<and> px_reaping st' = px_reaping st \<and>
     px_nextPid st \<le> px_nextPid st' \<and> px_nextPid st' < 2 ^ 31"

lemma adds_holders:
  assumes "adds t b st st'" "t \<notin> held_by st"
  shows "held_by st' = insert t (held_by st)" "holders st' x = (if x = b then insert t (holders st x) else holders st x)" "t \<notin> holders st x"
  using assms by (auto simp: adds_def held_by_def holders_def split: option.splits)

lemma card_holders: "proc_inv st \<Longrightarrow> card (holders st x) < 2 ^ 31 - 1 + 1"
proof -
  assume inv: "proc_inv st"
  have "card (holders st x) \<le> card (held_by st)" by (rule card_mono) (auto simp: holders_def)
  also have "\<dots> \<le> length (px_ring st) + 1"
    unfolding held_by_def using card_length [of "px_ring st"]
    by (intro order_trans [OF card_Un_le] add_mono) (auto split: option.splits)
  finally show ?thesis using inv by (simp add: proc_inv_def)
qed

text \<open>No identity is given twice: those in use later were in use or not yet given out.\<close>

definition pids_mono :: "psys \<Rightarrow> psys \<Rightarrow> bool" where
  "pids_mono st st' \<longleftrightarrow> px_nextPid st \<le> px_nextPid st' \<and> (\<forall>p. live_pid st' p \<longrightarrow> live_pid st p \<or> px_nextPid st \<le> p) \<and>
     (\<forall>p\<in>set (zombies st'). p \<in> set (zombies st) \<or> live_pid st p \<or> px_nextPid st \<le> p)"

lemma inv_add_old:
  assumes inv: "proc_inv st" and t: "t \<notin> held_by st" and a: "adds t b st st'" and b: "px_cr st b = Some c"
    and cr: "px_cr st' = (px_cr st)(b \<mapsto> c\<lparr>pc_refcount := pc_refcount c + 1\<rparr>)"
  shows "proc_inv st' \<and> pids_mono st st'"
proof -
  note h = adds_holders [OF a t]
  have np: "px_nextPid st \<le> px_nextPid st'" using a by (simp add: adds_def)
  have l: "live_pid st' p = live_pid st p" for p by (rule live_cong) (simp add: cr b)
  have f: "zombies st' = zombies st" "px_notifs st' = px_notifs st" "px_reaping st' = px_reaping st" using a by (simp_all add: adds_def zombies_zmb)
  have i: "\<forall>x c. px_cr st x = Some c \<longrightarrow> pc_refcount c = int (card (holders st x)) \<and> holders st x \<noteq> {}"
    "\<forall>x c. px_cr st x = Some c \<longrightarrow> 1 \<le> cr_pid c \<and> cr_pid c < px_nextPid st"
    "\<forall>x y c d. px_cr st x = Some c \<longrightarrow> px_cr st y = Some d \<longrightarrow> cr_pid c = cr_pid d \<longrightarrow> x = y"
    "\<forall>x c. px_cr st x = Some c \<longrightarrow> live_pid st (cr_ppid c) \<or> cr_ppid c = 1"
    "\<forall>t\<in>held_by st. \<forall>a. pcr st t = Some a \<longrightarrow> px_cr st a \<noteq> None"
    "\<forall>p\<in>set (zombies st). \<not> live_pid st p \<and> 1 \<le> p \<and> p < px_nextPid st"
    using inv by (simp_all add: proc_inv_def)
  have "\<forall>x d. px_cr st' x = Some d \<longrightarrow> pc_refcount d = int (card (holders st' x)) \<and> holders st' x \<noteq> {}"
    using i(1) b unfolding cr h(2) by (auto simp: h(3))
  moreover have "\<forall>x d. px_cr st' x = Some d \<longrightarrow> 1 \<le> cr_pid d \<and> cr_pid d < px_nextPid st'"
  proof (intro allI impI)
    fix x d assume "px_cr st' x = Some d"
    then show "1 \<le> cr_pid d \<and> cr_pid d < px_nextPid st'"
      using i(2) [rule_format, of x d] i(2) [rule_format, OF b] np unfolding cr by (cases "x = b") auto
  qed
  moreover have "\<forall>x y d e. px_cr st' x = Some d \<longrightarrow> px_cr st' y = Some e \<longrightarrow> cr_pid d = cr_pid e \<longrightarrow> x = y" using i(3) b unfolding cr by auto
  moreover have "\<forall>x d. px_cr st' x = Some d \<longrightarrow> live_pid st (cr_ppid d) \<or> cr_ppid d = 1" using i(4) b unfolding cr by auto
  moreover have "\<forall>t\<in>held_by st'. \<forall>a. pcr st' t = Some a \<longrightarrow> px_cr st' a \<noteq> None" using i(5) a t unfolding cr h(1) adds_def by auto
  moreover have "\<forall>p\<in>set (zombies st). \<not> live_pid st p \<and> 1 \<le> p \<and> p < px_nextPid st'" using i(6) np by auto
  moreover have "t \<noteq> s" if "px_reaping st = Some s" for s using t that by (auto simp: held_by_def)
  ultimately have "proc_inv st'" using inv a unfolding proc_inv_def f l adds_def by auto
  then show ?thesis using np by (simp add: pids_mono_def l f)
qed

lemma inv_add_new:
  assumes inv: "proc_inv st" and t: "t \<notin> held_by st" and a: "adds t b st st'" and b: "px_cr st b = None"
    and cr: "px_cr st' = (px_cr st)(b \<mapsto> c)" and c: "pc_refcount c = 1" "px_nextPid st \<le> cr_pid c" "cr_pid c < px_nextPid st'"
      "live_pid st (cr_ppid c) \<or> cr_ppid c = 1"
  shows "proc_inv st' \<and> pids_mono st st'"
proof -
  note h = adds_holders [OF a t]
  have np: "px_nextPid st \<le> px_nextPid st'" using a by (simp add: adds_def)
  have l: "live_pid st' p \<longleftrightarrow> live_pid st p \<or> p = cr_pid c" for p
    using b unfolding live_pid_def cr by (metis fun_upd_apply option.inject option.distinct(1))
  have f: "zombies st' = zombies st" "px_notifs st' = px_notifs st" "px_reaping st' = px_reaping st" using a by (simp_all add: adds_def zombies_zmb)
  have i: "\<forall>x c. px_cr st x = Some c \<longrightarrow> pc_refcount c = int (card (holders st x)) \<and> holders st x \<noteq> {}"
    "\<forall>x c. px_cr st x = Some c \<longrightarrow> 1 \<le> cr_pid c \<and> cr_pid c < px_nextPid st"
    "\<forall>x y c d. px_cr st x = Some c \<longrightarrow> px_cr st y = Some d \<longrightarrow> cr_pid c = cr_pid d \<longrightarrow> x = y"
    "\<forall>x c. px_cr st x = Some c \<longrightarrow> live_pid st (cr_ppid c) \<or> cr_ppid c = 1"
    "\<forall>t\<in>held_by st. \<forall>a. pcr st t = Some a \<longrightarrow> px_cr st a \<noteq> None"
    "\<forall>p\<in>set (zombies st). \<not> live_pid st p \<and> 1 \<le> p \<and> p < px_nextPid st"
    "\<forall>n\<in>set (px_notifs st). live_pid st (sn_dest n) \<or> sn_dest n = 1" "1 \<le> px_nextPid st"
    using inv by (simp_all add: proc_inv_def)
  have hb: "holders st b = {}" using i(5) b by (auto simp: holders_def)
  have "\<forall>x d. px_cr st' x = Some d \<longrightarrow> pc_refcount d = int (card (holders st' x)) \<and> holders st' x \<noteq> {}"
    using i(1) b c(1) hb unfolding cr h(2) by (auto simp: h(3))
  moreover have "\<forall>x d. px_cr st' x = Some d \<longrightarrow> 1 \<le> cr_pid d \<and> cr_pid d < px_nextPid st'"
  proof (intro allI impI)
    fix x d assume "px_cr st' x = Some d"
    then show "1 \<le> cr_pid d \<and> cr_pid d < px_nextPid st'"
      using i(2) [rule_format, of x d] i(8) c np unfolding cr by (cases "x = b") auto
  qed
  moreover have "\<forall>x y d e. px_cr st' x = Some d \<longrightarrow> px_cr st' y = Some e \<longrightarrow> cr_pid d = cr_pid e \<longrightarrow> x = y"
    using i(2,3) c(2) unfolding cr by (auto split: if_splits) fastforce+
  moreover have "\<forall>x d. px_cr st' x = Some d \<longrightarrow> live_pid st' (cr_ppid d) \<or> cr_ppid d = 1" using i(4) c(4) unfolding cr l by auto
  moreover have "\<forall>t\<in>held_by st'. \<forall>a. pcr st' t = Some a \<longrightarrow> px_cr st' a \<noteq> None" using i(5) a t unfolding cr h(1) adds_def by auto
  moreover have "\<forall>p\<in>set (zombies st). \<not> live_pid st' p \<and> 1 \<le> p \<and> p < px_nextPid st'"
    using i(6) np c(2) unfolding l by auto
  moreover have "\<forall>n\<in>set (px_notifs st). live_pid st' (sn_dest n) \<or> sn_dest n = 1" using i(7) unfolding l by auto
  moreover have "t \<noteq> s" if "px_reaping st = Some s" for s using t that by (auto simp: held_by_def)
  ultimately have "proc_inv st'" using inv a unfolding proc_inv_def f adds_def by auto
  then show ?thesis using np c(2) by (auto simp: pids_mono_def l f)
qed

lemma creds_add_upd: "px_cr st b = Some c \<Longrightarrow> px_cr (creds_add b d st) = (px_cr st)(b \<mapsto> c\<lparr>pc_refcount := c_int (pc_refcount c + d)\<rparr>)"
  by (simp add: creds_add_def)

text \<open>The state in which the thread is linked, from one that differs in its credentials and the counter.\<close>

lemma adds_thread:
  assumes inv: "proc_inv st" and cur: "cur \<in> set (px_ring st)" and t: "t \<notin> set (px_ring st)" and l: "length (px_ring st) < 2 ^ 31 - 2"
    and u: "px_thr u = px_thr st" "px_ring u = px_ring st" "px_notifs u = px_notifs st" "px_reaping u = px_reaping st"
      "px_nextPid st \<le> px_nextPid u" "px_nextPid u < 2 ^ 31" and r: "pt_creds r = Some b"
  shows "adds t b st (u\<lparr>px_thr := (px_thr u)(t := r), px_ring := ring_after cur t (px_ring u)\<rparr>)"
proof -
  have "distinct (px_ring st)" using inv by (simp add: proc_inv_def)
  then show ?thesis using set_ring_after [OF cur] t l u r by (auto simp: adds_def pcr_def fun_eq_iff)
qed

lemma inv_clone:
  assumes inv: "proc_inv st" and cur: "px_live st cur"
    and g: "creds_of st cur \<noteq> None \<or> (px_nextPid st = 1 \<and> pt_creds (px_thr st cur) = None \<and> \<not> has flags CLONE_THREAD)"
    and t: "t \<notin> set (px_ring st)" "px_reaping st \<noteq> Some t" and a: "px_cr st a = None" and n: "px_nextPid st < 2 ^ 31 - 2"
    and l: "length (px_ring st) < 2 ^ 31 - 2" and e: "threadClone cur t a flags st = Ok (v, st')"
  shows "proc_inv st' \<and> pids_mono st st'"
proof -
  have ring: "cur \<in> set (px_ring st)" using cur by (simp add: px_live_def)
  have th: "t \<notin> held_by st" using t by (auto simp: held_by_def split: option.splits)
  have n1: "1 \<le> px_nextPid st" using inv by (simp add: proc_inv_def)
  let ?me = "px_thr st cur"
  let ?r = "\<lambda>thid b. \<lparr>pt_thid = thid, pt_creds = Some b, pt_flags = (if has flags CLONE_DETACHED then THREAD_DETACHED else 0),
               pt_debugFlags = (if has (pt_debugFlags ?me) DBG_DEBUGGER then DBG_STOP_ON_EXEC OR DBG_DEBUG_MODE else 0), pt_wakeCounter = 0\<rparr>"
  let ?add = "\<lambda>u thid b. u\<lparr>px_thr := (px_thr u)(t := ?r thid b), px_ring := ring_after cur t (px_ring u)\<rparr>"
  show ?thesis
  proof (cases "has flags CLONE_THREAD")
    case True
    then obtain b c where b: "pt_creds ?me = Some b" "px_cr st b = Some c" using g by (auto simp: creds_of_def split: option.splits)
    have rc: "pc_refcount c = int (card (holders st b))" using inv b(2) by (simp add: proc_inv_def)
    have "int (card (holders st b)) < 2 ^ 31 - 1"
    proof -
      have "card (holders st b) \<le> length (px_ring st) + 1"
      proof -
        have "card (holders st b) \<le> card (held_by st)" by (rule card_mono) (auto simp: holders_def)
        also have "\<dots> \<le> length (px_ring st) + 1"
          unfolding held_by_def using card_length [of "px_ring st"]
          by (intro order_trans [OF card_Un_le] add_mono) (auto split: option.splits)
        finally show ?thesis .
      qed
      then show ?thesis using l by simp
    qed
    then have ci: "c_int (pc_refcount c + 1) = pc_refcount c + 1" unfolding rc by (intro c_int_id) simp_all
    define u where "u = (credsUpref b st)\<lparr>px_nextPid := px_nextPid st + 1\<rparr>"
    have s': "st' = ?add u (px_nextPid st) b"
      using e True b n n1 by (auto simp: threadClone_def Let_def u_def credsUpref_def creds_add_def c_int_id)
    have "adds t b st st'" unfolding s'
      by (rule adds_thread [OF inv ring t(1) l]) (use n in \<open>simp_all add: u_def credsUpref_def creds_add_def\<close>)
    moreover have "px_cr st' = (px_cr st)(b \<mapsto> c\<lparr>pc_refcount := pc_refcount c + 1\<rparr>)"
      using b by (simp add: s' u_def credsUpref_def creds_add_def ci)
    ultimately show ?thesis by (rule inv_add_old [OF inv th _ b(2)])
  next
    case False
    show ?thesis
    proof (cases "creds_of st cur")
      case (Some c)
      then obtain b where b: "pt_creds ?me = Some b" "px_cr st b = Some c" by (auto simp: creds_of_def split: option.splits)
      then have ab: "a \<noteq> b" using a by auto
      define u where "u = set_ppid a (cr_pid c) ((credsDup c a st)\<lparr>px_nextPid := px_nextPid st + 2\<rparr>)"
      have s': "st' = ?add u (px_nextPid st + 1) a"
        using e False Some b ab n n1
        by (auto simp: threadClone_def Let_def u_def credsDup_def set_ppid_def c_int_id pid_of_def creds_of_def)
      have A: "adds t a st st'" unfolding s'
        by (rule adds_thread [OF inv ring t(1) l]) (use n in \<open>simp_all add: u_def credsDup_def set_ppid_def\<close>)
      have CR: "px_cr st' = (px_cr st)(a \<mapsto> c\<lparr>pc_refcount := 1, cr_pid := px_nextPid st, cr_ppid := cr_pid c\<rparr>)"
        by (simp add: s' u_def credsDup_def set_ppid_def)
      have "px_nextPid st < px_nextPid st'" by (simp add: s' u_def credsDup_def set_ppid_def)
      moreover have "live_pid st (cr_pid c)" using b(2) by (auto simp: live_pid_def)
      ultimately show ?thesis by (intro inv_add_new [OF inv th A a CR]) simp_all
    next
      case None
      then have k: "px_nextPid st = 1" "pt_creds ?me = None" using g by auto
      define u where "u = set_ppid a 1 ((credsNew a st)\<lparr>px_nextPid := 2\<rparr>)"
      have s': "st' = ?add u 1 a"
        using e False None k
        by (auto simp: threadClone_def Let_def u_def credsNew_def set_ppid_def c_int_id pid_of_def creds_of_def)
      have A: "adds t a st st'" unfolding s'
        by (rule adds_thread [OF inv ring t(1) l]) (use n k in \<open>simp_all add: u_def credsNew_def set_ppid_def\<close>)
      have CR: "px_cr st' = (px_cr st)(a \<mapsto> \<lparr>cr_pid = 1, cr_ppid = 1, cr_pgid = 0, cr_euid = 0, cr_ruid = 0, pc_refcount = 1, pc_status = 0\<rparr>)"
        by (simp add: s' u_def credsNew_def set_ppid_def)
      have "px_nextPid st' = 2" by (simp add: s' u_def credsNew_def set_ppid_def)
      then show ?thesis using k by (intro inv_add_new [OF inv th A a CR]) simp_all
    qed
  qed
qed

section \<open>The system manager\<close>

lemma inv_unlink:
  assumes inv: "proc_inv st" and r: "px_reaping st = None"
  shows "proc_inv (clean_unlink sysman st)"
proof -
  let ?u = "st\<lparr>px_toClean := px_toClean st - 1\<rparr>"
  have iu: "proc_inv ?u" using inv same_procsD(13) [OF same_procs_misc(2)] by simp
  show ?thesis
  proof (cases "List.find (px_reapable ?u) (threads_from sysman (px_ring ?u))")
    case None
    then show ?thesis using iu by (simp add: clean_unlink_def Let_def)
  next
    case (Some t)
    then have "t \<in> set (threads_from sysman (px_ring st))" by (auto simp: find_Some_iff)
    then have t: "t \<in> set (px_ring st)" by (auto simp: threads_from_def dest: set_dropWhileD set_takeWhileD)
    let ?v = "?u\<lparr>px_ring := remove1 t (px_ring ?u), px_reaping := Some t\<rparr>"
    have d: "distinct (px_ring st)" using inv by (simp add: proc_inv_def)
    have h: "held_by ?v = held_by st" using d t r by (auto simp: held_by_def)
    have f1: "pcr ?v = pcr st" "live_pid ?v p = live_pid st p" "zombies ?v = zombies st" for p
      by (simp_all add: pcr_def fun_eq_iff live_pid_def zombies_zmb)
    have f2: "holders ?v a = holders st a" for a unfolding holders_def h f1 ..
    note f = f1 f2
    have "length (remove1 t (px_ring st)) < 2 ^ 31 - 1" using inv by (auto simp: proc_inv_def length_remove1)
    then have "proc_inv ?v" using inv d unfolding proc_inv_def f h by simp
    then show ?thesis using Some by (simp add: clean_unlink_def Let_def)
  qed
qed

lemma orphan_loop_sent: "orphan_loop pid ppid parent ts st = (r, st') \<Longrightarrow> px_sent st' = px_sent st"
proof (induction ts arbitrary: st parent)
  case (Cons t ts)
  have "px_sent (orphan pid t st) = px_sent st"
    by (auto simp: orphan_def set_ppid_def px_signal_def px_upd_def Let_def split: option.splits)
  then show ?case using Cons by (simp add: Let_def)
qed simp

lemma threads_from_set [simp]: "set (threads_from cur ring) = set ring"
  unfolding threads_from_def by (metis Un_commute set_append takeWhile_dropWhile_id)

text \<open>What the last reference leaves behind.\<close>

definition reported :: "siginfo \<Rightarrow> nat \<Rightarrow> pcreds \<Rightarrow> int \<Rightarrow> psys \<Rightarrow> psys \<Rightarrow> bool" where
  "reported junk a c parent st v \<longleftrightarrow>
     parent = (if \<exists>s\<in>set (px_ring st). pid_of st s = Some (cr_ppid c) then cr_ppid c else 1) \<and>
     pcr v = pcr st \<and> px_ring v = px_ring st \<and> px_nextPid v = px_nextPid st \<and> px_reaping v = px_reaping st \<and>
     px_notifs v = ProcessDead parent (cr_pid c) (pc_status c) # filter (\<lambda>n. sn_dest n \<noteq> cr_pid c) (px_notifs st) \<and>
     px_cr v = (adopted (cr_pid c) {b. \<exists>s\<in>set (px_ring st). pcr st s = Some b} (px_cr st))(a := None) \<and>
     px_sent v = px_sent st @ [(parent, child_siginfo junk c)] \<and>
     (\<forall>s\<in>set (px_ring st). pid_of st s = Some parent \<longrightarrow> s \<in> set (px_woken v))"

lemma credsDownref_last:
  assumes c: "px_cr st a = Some c" "pc_refcount c = 1" and na: "\<forall>s\<in>set (px_ring st). pcr st s \<noteq> Some a"
    and v: "credsDownref junk cur a st = Ok v"
  shows "\<exists>parent. reported junk a c parent st v"
proof -
  define w where "w = creds_add a (-1) st"
  let ?c = "c\<lparr>pc_refcount := 0\<rparr>" and ?S = "{b. \<exists>s\<in>set (px_ring st). pcr st s = Some b}"
  have wf: "px_ring w = px_ring st" "pcr w = pcr st" "px_notifs w = px_notifs st" "px_nextPid w = px_nextPid st" "px_reaping w = px_reaping st"
    "px_sent w = px_sent st" "px_thr w = px_thr st"
    by (simp_all add: w_def creds_add_def pcr_def fun_eq_iff)
  have wc: "px_cr w = (px_cr st)(a \<mapsto> ?c)" using c by (simp add: w_def creds_add_def c_int_id)
  have wp: "pid_of w s = pid_of st s" for s using c by (simp add: pid_of_def creds_of_def wf(7) wc split: option.splits)
  obtain parent x where l: "orphan_loop (cr_pid c) (cr_ppid c) 1 (threads_from cur (px_ring w)) w = (parent, x)"
    by (cases "orphan_loop (cr_pid c) (cr_ppid c) 1 (threads_from cur (px_ring w)) w")
  note o = orphan_loop_adopts [OF l, unfolded threads_from_set wf(1,2) wp]
  have xf: "pcr x = pcr st" "px_ring x = px_ring st" "px_cr x = adopted (cr_pid c) ?S ((px_cr st)(a \<mapsto> ?c))" "px_notifs x = px_notifs st"
    "px_nextPid x = px_nextPid st" "px_reaping x = px_reaping st" "px_sent x = px_sent st"
    using o orphan_loop_sent [OF l] by (simp_all add: adopts_def wf wc)
  have xa: "px_cr x a = Some ?c" using na by (simp add: xf(3) adopted_def)
  define y where "y = x\<lparr>px_notifs := ProcessDead parent (cr_pid c) (pc_status c) # filter (\<lambda>n. sn_dest n \<noteq> cr_pid c) (px_notifs x),
     px_sent := px_sent x @ [(parent, child_siginfo junk ?c)]\<rparr>"
  have vy: "v = (wakeProcess cur parent y)\<lparr>px_cr := (px_cr (wakeProcess cur parent y))(a := None)\<rparr>"
    using v c l xa by (simp add: credsDownref_def Let_def w_def [symmetric] y_def)
  note z = same_procsD [OF same_procs_wake [of y cur parent]]
  have py: "pid_of y s = pid_of st s" for s
  proof -
    have "pid_of y s = pid_of x s" by (simp add: pid_of_def creds_of_def y_def split: option.splits)
    also have "\<dots> = pid_of w s" using adopts_pid_of [OF conjunct1 [OF orphan_loop_adopts [OF l]]] .
    finally show ?thesis by (simp add: wp)
  qed
  have ws: "px_sent (wakeProcess cur parent y) = px_sent y"
  proof -
    have "px_sent (fold (\<lambda>t st. if pid_of st t = Some parent then px_signal t st else st) ts y) = px_sent y" for ts y
      by (induction ts arbitrary: y) (simp_all add: px_signal_def px_upd_def)
    then show ?thesis by (simp add: wakeProcess_def)
  qed
  have ac: "(adopted (cr_pid c) ?S ((px_cr st)(a \<mapsto> ?c)))(a := None) = (adopted (cr_pid c) ?S (px_cr st))(a := None)"
    by (auto simp: adopted_def fun_eq_iff)
  have pv: "pcr v = pcr y" using z(1) by (simp add: vy pcr_def fun_eq_iff)
  have yf: "pcr y = pcr st" unfolding xf(1) [symmetric] by (simp add: pcr_def fun_eq_iff y_def)
  have ci: "child_siginfo junk ?c = child_siginfo junk c" by (simp add: child_siginfo_def Let_def)
  have vf: "px_ring v = px_ring y" "px_notifs v = px_notifs y" "px_nextPid v = px_nextPid y" "px_reaping v = px_reaping y"
    "px_cr v = (px_cr y)(a := None)" "px_sent v = px_sent y" "pcr v = pcr st"
    using z ws pv yf by (simp_all add: vy)
  have "\<forall>s\<in>set (px_ring st). pid_of st s = Some parent \<longrightarrow> s \<in> set (px_woken v)"
    using wakeProcess_wakes [of _ y parent cur] py by (auto simp: vy y_def xf)
  then have "reported junk a c parent st v"
    using o ac by (simp add: reported_def vf y_def xf ci)
  then show ?thesis ..
qed

text \<open>The credentials that lose their last thread, and what is left of the others.\<close>

lemma inv_finish:
  assumes inv: "proc_inv st" and e: "clean_finish junk sysman st = Ok st'"
  shows "proc_inv st' \<and> pids_mono st st'"
proof (cases "px_reaping st")
  case None
  then show ?thesis using e inv by (simp add: clean_finish_def pids_mono_def)
next
  case (Some t)
  define u where "u = (case pid_of st t of None \<Rightarrow> st | Some p \<Rightarrow> st\<lparr>px_closingPid := p\<rparr>)"
  have su: "same_procs st u" by (simp add: u_def split: option.splits)
  have iu: "proc_inv u" using inv same_procsD(13) [OF su] by simp
  have ru: "px_reaping u = Some t" "pcr u t = pcr st t" using same_procsD [OF su] Some by simp_all
  have thr: "px_thr u = px_thr st" by (simp add: u_def split: option.splits)
  have e': "kbind (case pt_creds (px_thr u t) of None \<Rightarrow> Ok u | Some a \<Rightarrow> credsDownref junk sysman a u) (\<lambda>st. Ok (st\<lparr>px_reaping := None\<rparr>)) = Ok st'"
    using e Some unfolding clean_finish_def u_def Let_def by simp
  from iu have i: "distinct (px_ring u)" "t \<notin> set (px_ring u)" "length (px_ring u) < 2 ^ 31 - 1" "1 \<le> px_nextPid u" "px_nextPid u < 2 ^ 31"
    "\<forall>x c. px_cr u x = Some c \<longrightarrow> pc_refcount c = int (card (holders u x)) \<and> holders u x \<noteq> {}"
    "\<forall>x c. px_cr u x = Some c \<longrightarrow> 1 \<le> cr_pid c \<and> cr_pid c < px_nextPid u"
    "\<forall>x y c d. px_cr u x = Some c \<longrightarrow> px_cr u y = Some d \<longrightarrow> cr_pid c = cr_pid d \<longrightarrow> x = y"
    "\<forall>x c. px_cr u x = Some c \<longrightarrow> live_pid u (cr_ppid c) \<or> cr_ppid c = 1"
    "\<forall>t\<in>held_by u. \<forall>a. pcr u t = Some a \<longrightarrow> px_cr u a \<noteq> None"
    "distinct (zombies u)" "\<forall>p\<in>set (zombies u). \<not> live_pid u p \<and> 1 \<le> p \<and> p < px_nextPid u"
    "\<forall>n\<in>set (px_notifs u). live_pid u (sn_dest n) \<or> sn_dest n = 1"
    using ru by (simp_all add: proc_inv_def)
  have hb: "held_by u = insert t (set (px_ring u))" using ru by (simp add: held_by_def)
  have "proc_inv st' \<and> pids_mono u st'"
  proof (cases "pt_creds (px_thr st t)")
    case None
    then have st': "st' = u\<lparr>px_reaping := None\<rparr>" using e' thr by simp
    have pt: "pcr u t = None" using None thr by (simp add: pcr_def)
    have f: "held_by st' = set (px_ring u)" "pcr st' = pcr u" "live_pid st' p = live_pid u p" "zombies st' = zombies u" for p
      by (simp_all add: st' held_by_def pcr_def fun_eq_iff live_pid_def zombies_zmb)
    have "holders st' x = holders u x" for x unfolding holders_def f hb using pt by auto
    then show ?thesis using i unfolding proc_inv_def pids_mono_def f hb by (simp add: st')
  next
    case (Some a)
    have pt: "pcr u t = Some a" using Some thr by (simp add: pcr_def)
    then obtain c where c: "px_cr u a = Some c" using i(10) hb by auto
    obtain v where v: "credsDownref junk sysman a u = Ok v" "st' = v\<lparr>px_reaping := None\<rparr>"
      using e' Some thr by (auto simp: kbind_Ok_iff)
    have rc: "pc_refcount c = int (card (holders u a))" using i(6) c by blast
    have th: "t \<in> holders u a" using pt hb by (simp add: holders_def)
    let ?ring = "\<lambda>x. {s \<in> set (px_ring u). pcr u s = Some x}"
    have hold: "holders u x = (if x = a then insert t (?ring x) else ?ring x)" for x unfolding holders_def hb using pt by auto
    have nt: "t \<notin> ?ring x" for x using i(2) by simp
    show ?thesis
    proof (cases "pc_refcount c = 1")
      case False
      define w where "w = creds_add a (-1) u"
      have "v = w" using v(1) c False by (simp add: credsDownref_def w_def Let_def)
      then have st': "st' = w\<lparr>px_reaping := None\<rparr>" using v(2) by simp
      have "1 \<le> pc_refcount c" "pc_refcount c < 2 ^ 31" using rc th card_holders [OF iu, of a] by (auto simp: Suc_le_eq card_gt_0_iff)
      then have cr: "px_cr st' = (px_cr u)(a \<mapsto> c\<lparr>pc_refcount := pc_refcount c - 1\<rparr>)"
        using c by (simp add: st' w_def creds_add_def c_int_id)
      have f: "held_by st' = set (px_ring u)" "pcr st' = pcr u" "zombies st' = zombies u" "px_ring st' = px_ring u" "px_notifs st' = px_notifs u"
        "px_nextPid st' = px_nextPid u" "px_reaping st' = None"
        by (simp_all add: st' w_def creds_add_def held_by_def pcr_def fun_eq_iff zombies_zmb)
      have l: "live_pid st' p = live_pid u p" for p by (rule live_cong) (simp add: cr c)
      have h: "holders st' x = ?ring x" for x unfolding holders_def f ..
      have k: "int (card (?ring a)) = pc_refcount c - 1" using rc nt [of a] by (simp add: hold)
      have "?ring a \<noteq> {}"
      proof
        assume "?ring a = {}"
        then have "int (card (?ring a)) = 0" by (simp only: card.empty)
        then show False using k False by simp
      qed
      then have "\<forall>x d. px_cr st' x = Some d \<longrightarrow> pc_refcount d = int (card (holders st' x)) \<and> holders st' x \<noteq> {}"
        using i(6) k unfolding cr h hold by (auto split: if_splits)
      moreover have "\<forall>x d. px_cr st' x = Some d \<longrightarrow> 1 \<le> cr_pid d \<and> cr_pid d < px_nextPid u" using i(7) c unfolding cr by (auto split: if_splits)
      moreover have "\<forall>x y d e. px_cr st' x = Some d \<longrightarrow> px_cr st' y = Some e \<longrightarrow> cr_pid d = cr_pid e \<longrightarrow> x = y" using i(8) c unfolding cr by auto
      moreover have "\<forall>x d. px_cr st' x = Some d \<longrightarrow> live_pid u (cr_ppid d) \<or> cr_ppid d = 1" using i(9) c unfolding cr by auto
      moreover have "\<forall>t\<in>set (px_ring u). \<forall>a. pcr u t = Some a \<longrightarrow> px_cr st' a \<noteq> None" using i(10) unfolding cr hb by auto
      ultimately show ?thesis using i unfolding proc_inv_def pids_mono_def f l by simp
    next
      case True
      have ra: "?ring a = {}"
      proof -
        have "card (insert t (?ring a)) = 1" using rc True by (simp add: hold)
        then show ?thesis using nt [of a] by (simp add: card_eq_0_iff)
      qed
      have na: "\<forall>s\<in>set (px_ring u). pcr u s \<noteq> Some a" using ra by auto
      obtain parent where R: "reported junk a c parent u v" using credsDownref_last [OF c True na v(1)] by blast
      let ?S = "{b. \<exists>s\<in>set (px_ring u). pcr u s = Some b}"
      have f: "px_ring st' = px_ring u" "pcr st' = pcr u" "px_nextPid st' = px_nextPid u" "px_reaping st' = None"
        "px_notifs st' = ProcessDead parent (cr_pid c) (pc_status c) # filter (\<lambda>n. sn_dest n \<noteq> cr_pid c) (px_notifs u)"
        "px_cr st' = (adopted (cr_pid c) ?S (px_cr u))(a := None)"
        "parent = (if \<exists>s\<in>set (px_ring u). pid_of u s = Some (cr_ppid c) then cr_ppid c else 1)"
        using R by (simp_all add: reported_def v(2) pcr_def fun_eq_iff)
      have h: "held_by st' = set (px_ring u)" "holders st' x = ?ring x" for x by (simp_all add: held_by_def holders_def f)
      have cr: "\<exists>d. px_cr u x = Some d \<and> x \<noteq> a \<and> pc_refcount d' = pc_refcount d \<and> cr_pid d' = cr_pid d \<and>
          cr_ppid d' = (if cr_ppid d = cr_pid c then 1 else cr_ppid d)" if "px_cr st' x = Some d'" for x d'
      proof -
        have xa: "x \<noteq> a" using that by (auto simp: f(6))
        then have "adopted (cr_pid c) ?S (px_cr u) x = Some d'" using that by (simp add: f(6))
        then obtain d where d: "px_cr u x = Some d" "d' = (if cr_ppid d = cr_pid c \<and> x \<in> ?S then d\<lparr>cr_ppid := 1\<rparr> else d)"
          unfolding adopted_def by (elim map_option_eq_Some [THEN iffD1, elim_format] exE conjE) simp
        have "holders u x \<noteq> {}" using i(6) d(1) by blast
        then have "x \<in> ?S" using xa by (auto simp: hold)
        then show ?thesis using d xa by auto
      qed
      have up: "\<exists>d'. px_cr st' x = Some d' \<and> cr_pid d' = cr_pid d" if "px_cr u x = Some d" "x \<noteq> a" for x d
        using that by (simp add: f adopted_def)
      have live: "live_pid st' p \<longleftrightarrow> live_pid u p \<and> p \<noteq> cr_pid c" for p
      proof
        assume "live_pid st' p"
        then obtain x d' where x: "px_cr st' x = Some d'" "cr_pid d' = p" by (auto simp: live_pid_def)
        obtain d where d: "px_cr u x = Some d" "x \<noteq> a" "cr_pid d = p" using cr [OF x(1)] x(2) by auto
        then show "live_pid u p \<and> p \<noteq> cr_pid c" using i(8) c unfolding live_pid_def by metis
      next
        assume "live_pid u p \<and> p \<noteq> cr_pid c"
        then obtain x d where x: "px_cr u x = Some d" "cr_pid d = p" "p \<noteq> cr_pid c" by (auto simp: live_pid_def)
        then have "x \<noteq> a" using c by auto
        then obtain d' where "px_cr st' x = Some d'" "cr_pid d' = p" using up [OF x(1)] x(2) by auto
        then show "live_pid st' p" unfolding live_pid_def by blast
      qed
      have par: "live_pid st' parent \<or> parent = 1"
      proof (cases "\<exists>s\<in>set (px_ring u). pid_of u s = Some (cr_ppid c)")
        case True
        then obtain s b d where s: "s \<in> set (px_ring u)" "pt_creds (px_thr u s) = Some b" "px_cr u b = Some d" "cr_pid d = cr_ppid c"
          by (auto simp: pid_of_def creds_of_def split: option.splits)
        then have "b \<noteq> a" using na by (auto simp: pcr_def)
        then show ?thesis using up [OF s(3)] s(4) True f(7) unfolding live_pid_def by auto
      qed (simp add: f(7))
      have pc: "live_pid u (cr_pid c)" using c by (auto simp: live_pid_def)
      have z: "zombies st' = cr_pid c # zmb (filter (\<lambda>n. sn_dest n \<noteq> cr_pid c) (px_notifs u))" by (simp add: zombies_zmb f)
      have zs: "set (zmb (filter (\<lambda>n. sn_dest n \<noteq> cr_pid c) (px_notifs u))) \<subseteq> set (zombies u)" unfolding zombies_zmb by (rule zmb_filter)
      have zd: "distinct (zombies st')" unfolding z using zs i(11,12) pc zmb_filter(2) zombies_zmb by (metis distinct.simps(2) subsetD)
      have zl: "\<forall>p\<in>set (zombies st'). \<not> live_pid st' p \<and> 1 \<le> p \<and> p < px_nextPid u"
        unfolding z live using zs i(12) i(7) c by auto
      have k1: "\<forall>x d. px_cr st' x = Some d \<longrightarrow> pc_refcount d = int (card (holders st' x)) \<and> holders st' x \<noteq> {}"
      proof (intro allI impI)
        fix x d' assume "px_cr st' x = Some d'"
        from cr [OF this] obtain d where d: "px_cr u x = Some d" "x \<noteq> a" "pc_refcount d' = pc_refcount d" by blast
        have "holders st' x = holders u x" unfolding h hold using d(2) by simp
        then show "pc_refcount d' = int (card (holders st' x)) \<and> holders st' x \<noteq> {}" using i(6) d by metis
      qed
      have k2: "\<forall>x d. px_cr st' x = Some d \<longrightarrow> 1 \<le> cr_pid d \<and> cr_pid d < px_nextPid u" using i(7) cr by metis
      have k3: "\<forall>x y d e. px_cr st' x = Some d \<longrightarrow> px_cr st' y = Some e \<longrightarrow> cr_pid d = cr_pid e \<longrightarrow> x = y"
      proof (intro allI impI)
        fix x y d e assume "px_cr st' x = Some d" "px_cr st' y = Some e" "cr_pid d = cr_pid e"
        then show "x = y" using cr [of x d] cr [of y e] i(8) by auto
      qed
      have k4: "\<forall>x d. px_cr st' x = Some d \<longrightarrow> live_pid st' (cr_ppid d) \<or> cr_ppid d = 1"
      proof (intro allI impI)
        fix x d' assume "px_cr st' x = Some d'"
        from cr [OF this] obtain d where "px_cr u x = Some d" "cr_ppid d' = (if cr_ppid d = cr_pid c then 1 else cr_ppid d)" by blast
        then show "live_pid st' (cr_ppid d') \<or> cr_ppid d' = 1" using i(9) unfolding live by auto
      qed
      have k5: "\<forall>s\<in>held_by st'. \<forall>x. pcr st' s = Some x \<longrightarrow> px_cr st' x \<noteq> None"
      proof (intro ballI allI impI)
        fix s x assume "s \<in> held_by st'" "pcr st' s = Some x"
        then have "s \<in> set (px_ring u)" "pcr u s = Some x" by (simp_all add: h f)
        then have "x \<noteq> a" "px_cr u x \<noteq> None" using na i(10) hb by auto
        then show "px_cr st' x \<noteq> None" using up by auto
      qed
      have k6: "\<forall>n\<in>set (px_notifs st'). live_pid st' (sn_dest n) \<or> sn_dest n = 1" using par i(13) unfolding f live by auto
      have "pids_mono u st'" unfolding pids_mono_def live z f(3) using zs pc by auto
      then show ?thesis unfolding proc_inv_def f(1,3,4) using i(1,3,4,5) zd zl k1 k2 k3 k4 k5 k6 by simp
    qed
  qed
  moreover have "pids_mono st st' = pids_mono u st'" unfolding pids_mono_def same_procsD [OF su] ..
  ultimately show ?thesis by simp
qed

end
