(* ===== verification/Gx_ProcRun.thy ===== *)
theory Gx_ProcRun
  imports Gx_ProcProps
begin

text \<open>
  What processes rely on: the invariant over every history, the report of an end to the parent, that it arrives once, and
  the ways in which \<open>pthread_detach\<close>, \<open>exec\<close> and \<open>wait\<close> fail.
\<close>

section \<open>Every history\<close>

lemma pids_mono_same: "px_nextPid st' = px_nextPid st \<Longrightarrow> px_cr st' = px_cr st \<Longrightarrow> set (zombies st') \<subseteq> set (zombies st) \<Longrightarrow> pids_mono st st'"
  by (auto simp: pids_mono_def live_pid_def)

lemma pids_mono_trans: "pids_mono st u \<Longrightarrow> pids_mono u v \<Longrightarrow> pids_mono st v"
proof -
  assume a: "pids_mono st u" "pids_mono u v"
  have "live_pid st p \<or> px_nextPid st \<le> p" if "live_pid v p" for p
  proof -
    have "live_pid u p \<or> px_nextPid u \<le> p" using a(2) that unfolding pids_mono_def by blast
    moreover have "live_pid u p \<longrightarrow> live_pid st p \<or> px_nextPid st \<le> p" "px_nextPid st \<le> px_nextPid u" using a(1) unfolding pids_mono_def by blast+
    ultimately show ?thesis by auto
  qed
  moreover have "p \<in> set (zombies st) \<or> live_pid st p \<or> px_nextPid st \<le> p" if "p \<in> set (zombies v)" for p
  proof -
    have "p \<in> set (zombies u) \<or> live_pid u p \<or> px_nextPid u \<le> p" using a(2) that unfolding pids_mono_def by blast
    moreover have "p \<in> set (zombies u) \<longrightarrow> p \<in> set (zombies st) \<or> live_pid st p \<or> px_nextPid st \<le> p" "live_pid u p \<longrightarrow> live_pid st p \<or> px_nextPid st \<le> p"
      "px_nextPid st \<le> px_nextPid u" using a(1) unfolding pids_mono_def by blast+
    ultimately show ?thesis by auto
  qed
  moreover have "px_nextPid st \<le> px_nextPid v" using a unfolding pids_mono_def by linarith
  ultimately show ?thesis unfolding pids_mono_def by blast
qed

lemma pids_mono_procs: "same_procs st u \<Longrightarrow> pids_mono st u"
  by (rule pids_mono_same) (simp_all add: same_procsD)

lemma pids_mono_take: "take_notif P (px_notifs st) = Some (n, ns) \<Longrightarrow> pids_mono st (st\<lparr>px_notifs := ns\<rparr>)"
proof (rule pids_mono_same)
  assume "take_notif P (px_notifs st) = Some (n, ns)"
  then obtain pre post where "px_notifs st = pre @ n # post" "ns = pre @ post" using take_notif_split by blast
  then show "set (zombies (st\<lparr>px_notifs := ns\<rparr>)) \<subseteq> set (zombies st)" by (auto simp: zombies_zmb split: SchedNotif.splits)
qed simp_all

lemma pids_mono_wait: "pids_mono st (snd (wait_turn cur pid flags st))" "pids_mono st (snd (join_turn cur thid st))"
  by (auto simp: wait_turn_def join_turn_def pids_mono_take pids_mono_procs split: option.splits)

lemma pids_mono_detach: "pids_mono st (snd (snd (detachThread cur thid st)))"
proof -
  have u: "pids_mono st (px_upd t (\<lambda>r. r\<lparr>pt_flags := pt_flags r OR THREAD_DETACHED\<rparr>) st)" for t
    by (rule pids_mono_procs, rule same_procs_upd) simp
  then show ?thesis
    by (auto simp: detachThread_def Let_def pids_mono_procs split: option.splits intro: pids_mono_trans [OF u pids_mono_take])
qed

lemma pids_mono_kill: "pids_mono st (killOtherThreads cur st)"
proof -
  have "pids_mono st (st\<lparr>px_killed := k, px_notifs := filter P (px_notifs st)\<rparr>)" for k P
    by (rule pids_mono_same) (use zmb_filter(1) in \<open>auto simp: zombies_zmb\<close>)
  then show ?thesis by (auto simp: killOtherThreads_def pids_mono_procs split: option.splits)
qed

lemma pids_mono_exit:
  assumes "threadExitEx sysman cur retval st = Ok st'"
  shows "pids_mono st st'"
proof -
  have w: "px_nextPid (wakeProcess cur p u) = px_nextPid u" "px_cr (wakeProcess cur p u) = px_cr u" "px_notifs (wakeProcess cur p u) = px_notifs u" for p u
    using same_procsD [OF same_procs_wake] by simp_all
  show ?thesis
    by (rule pids_mono_same)
      (use assms in \<open>auto simp: threadExitEx_def Let_def px_signal_def px_upd_def zombies_zmb w split: option.splits if_splits\<close>)
qed

lemma pids_mono_status: "pids_mono st (set_status a v st)"
proof -
  have "live_pid (set_status a v st) p = live_pid st p" for p
    by (rule live_cong) (simp add: set_status_def option.map_comp comp_def)
  then show ?thesis by (simp add: pids_mono_def) (simp add: set_status_def zombies_zmb)
qed

lemma pids_mono_pexit: "processExit sysman cur status st = Ok st' \<Longrightarrow> pids_mono st st'"
  by (auto simp: processExit_def split: option.splits if_splits
      intro: pids_mono_trans [OF pids_mono_kill pids_mono_trans [OF pids_mono_status pids_mono_exit]])

lemma creds_add_live: "live_pid (creds_add a d st) p = live_pid st p"
  by (rule live_cong) (simp add: creds_add_def option.map_comp comp_def)

lemma pids_mono_unlink: "pids_mono st (clean_unlink sysman st)"
  by (rule pids_mono_same) (simp_all add: clean_unlink_def Let_def zombies_zmb split: option.splits)

lemma boot_inv: "proc_boot sysman st \<Longrightarrow> proc_inv st"
  by (auto simp: proc_boot_def proc_inv_def held_by_def holders_def pcr_def zombies_def)

lemma step_inv:
  assumes "proc_step sysman st st'" and inv: "proc_inv st"
  shows "proc_inv st' \<and> pids_mono st st'"
  using assms(1)
proof cases
  case (clone cur flags t a r)
  then show ?thesis by (intro inv_clone [OF inv]) simp_all
next
  case (exit cur retval)
  then show ?thesis using inv_exit [OF inv] pids_mono_exit by blast
next
  case (pexit cur status)
  then show ?thesis using inv_pexit [OF inv] pids_mono_pexit by blast
next
  case (unlink)
  then show ?thesis using inv_unlink [OF inv] by (simp add: pids_mono_unlink)
next
  case (finish junk)
  then show ?thesis using inv_finish [OF inv] by blast
qed (simp_all add: processWait_def processWait_resume_def joinThread_def joinThread_resume_def detachMe_def inv inv_wait inv_join inv_kill
    inv_detach inv_flags pids_mono_wait pids_mono_kill pids_mono_detach pids_mono_procs same_procs_upd)

lemma proc_reach_inv: "proc_reach sysman st \<Longrightarrow> proc_inv st"
  by (induction rule: proc_reach.induct) (use boot_inv step_inv in blast)+

lemma zmb_unique:
  assumes "distinct (zmb ns)" "i < length ns" "j < length ns" "ns ! i = ProcessDead q p v" "ns ! j = ProcessDead r p w"
  shows "i = j"
  using assms
proof (induction ns arbitrary: i j)
  case (Cons n ns)
  have m: "p \<in> set (zmb ns)" if "k < length ns" "ns ! k = ProcessDead x p y" for k x y
    using that nth_mem [of k ns] by (force simp: zmb_def)
  show ?case
  proof (cases i; cases j)
    fix a b assume "i = Suc a" "j = Suc b"
    then show ?thesis using Cons.IH [of a b] Cons.prems by (auto split: SchedNotif.splits)
  qed (use Cons.prems m in auto)
qed simp

lemma zmb_member: "i < length (px_notifs st) \<Longrightarrow> px_notifs st ! i = ProcessDead q p v \<Longrightarrow> p \<in> set (zombies st)"
  using nth_mem [of i "px_notifs st"] by (force simp: zombies_def)

section \<open>Processes are consistent\<close>

text \<open>
  C31: In every state the machine reaches, each thread's credentials exist and count the threads that share them, two
  processes never have the same identity, every parent lives or is init, and a notification that a process has ended is the
  only one for that process, which is no longer in use.
\<close>

theorem processes_consistent:
  assumes "proc_reach sysman st"
  shows "(\<forall>t a. (t \<in> set (px_ring st) \<or> px_reaping st = Some t) \<and> pt_creds (px_thr st t) = Some a \<longrightarrow> px_cr st a \<noteq> None) \<and>
    (\<forall>a c. px_cr st a = Some c \<longrightarrow>
       0 < pc_refcount c \<and> pc_refcount c = int (card {t. (t \<in> set (px_ring st) \<or> px_reaping st = Some t) \<and> pt_creds (px_thr st t) = Some a}) \<and>
       (cr_ppid c = 1 \<or> (\<exists>b d. px_cr st b = Some d \<and> cr_pid d = cr_ppid c))) \<and>
    (\<forall>a b c d. px_cr st a = Some c \<and> px_cr st b = Some d \<and> cr_pid c = cr_pid d \<longrightarrow> a = b) \<and>
    (\<forall>i<length (px_notifs st). \<forall>p v q. px_notifs st ! i = ProcessDead q p v \<longrightarrow>
       (\<forall>a c. px_cr st a = Some c \<longrightarrow> cr_pid c \<noteq> p) \<and>
       (\<forall>j<length (px_notifs st). \<forall>w r. px_notifs st ! j = ProcessDead r p w \<longrightarrow> i = j))"
proof -
  have inv: "proc_inv st" by (rule proc_reach_inv [OF assms])
  have h: "t \<in> held_by st \<longleftrightarrow> t \<in> set (px_ring st) \<or> px_reaping st = Some t" for t by (auto simp: held_by_def split: option.splits)
  then have H: "holders st a = {t. (t \<in> set (px_ring st) \<or> px_reaping st = Some t) \<and> pt_creds (px_thr st t) = Some a}" for a
    by (auto simp: holders_def pcr_def)
  have i: "\<forall>t\<in>held_by st. \<forall>a. pcr st t = Some a \<longrightarrow> px_cr st a \<noteq> None"
    "\<forall>a c. px_cr st a = Some c \<longrightarrow> pc_refcount c = int (card (holders st a)) \<and> holders st a \<noteq> {}"
    "\<forall>a b c d. px_cr st a = Some c \<longrightarrow> px_cr st b = Some d \<longrightarrow> cr_pid c = cr_pid d \<longrightarrow> a = b"
    "distinct (zombies st)" "\<forall>p\<in>set (zombies st). \<not> live_pid st p \<and> 1 \<le> p \<and> p < px_nextPid st"
    "\<forall>a c. px_cr st a = Some c \<longrightarrow> live_pid st (cr_ppid c) \<or> cr_ppid c = 1"
    using inv by (simp_all add: proc_inv_def)
  have r: "0 < pc_refcount c" if "px_cr st a = Some c" for a c using i(2) that by (auto simp: card_gt_0_iff)
  have k1: "\<forall>t a. t \<in> held_by st \<and> pcr st t = Some a \<longrightarrow> px_cr st a \<noteq> None" using i(1) by blast
  have k2: "\<forall>a c. px_cr st a = Some c \<longrightarrow> 0 < pc_refcount c \<and> pc_refcount c = int (card (holders st a)) \<and>
      (cr_ppid c = 1 \<or> (\<exists>b d. px_cr st b = Some d \<and> cr_pid d = cr_ppid c))"
    using r i(2,6) unfolding live_pid_def by blast
  have k3: "\<forall>a b c d. px_cr st a = Some c \<and> px_cr st b = Some d \<and> cr_pid c = cr_pid d \<longrightarrow> a = b" using i(3) by blast
  have k4: "\<forall>i<length (px_notifs st). \<forall>p v q. px_notifs st ! i = ProcessDead q p v \<longrightarrow>
       (\<forall>a c. px_cr st a = Some c \<longrightarrow> cr_pid c \<noteq> p) \<and>
       (\<forall>j<length (px_notifs st). \<forall>w r. px_notifs st ! j = ProcessDead r p w \<longrightarrow> i = j)"
  proof (intro allI impI conjI)
    fix i p v q a c assume "i < length (px_notifs st)" "px_notifs st ! i = ProcessDead q p v" "px_cr st a = Some c"
    then show "cr_pid c \<noteq> p" using zmb_member i(5) unfolding live_pid_def by blast
  next
    fix i p v q j w r
    assume "i < length (px_notifs st)" "px_notifs st ! i = ProcessDead q p v" "j < length (px_notifs st)" "px_notifs st ! j = ProcessDead r p w"
    then show "i = j" using zmb_unique [OF i(4) [unfolded zombies_zmb]] by blast
  qed
  show ?thesis
    unfolding h [symmetric] pcr_def [symmetric] H [unfolded h [symmetric] pcr_def [symmetric], symmetric] using k1 k2 k3 k4 by (intro conjI)
qed


section \<open>The end of a process\<close>

lemma holders_ring:
  assumes "proc_inv st" "px_reaping st = Some t" "pt_creds (px_thr st t) = Some a" "px_cr st a = Some c"
  shows "pc_refcount c = 1 \<longleftrightarrow> (\<forall>s\<in>set (px_ring st). pcr st s \<noteq> Some a)"
proof -
  let ?R = "{s \<in> set (px_ring st). pcr st s = Some a}"
  have t: "t \<notin> ?R" using assms(1,2) by (simp add: proc_inv_def)
  have "holders st a = insert t ?R" using assms(2,3) by (auto simp: holders_def held_by_def pcr_def)
  moreover have "pc_refcount c = int (card (holders st a))" using assms(1,4) by (simp add: proc_inv_def)
  ultimately have "pc_refcount c = 1 + int (card ?R)" using t by simp
  then show ?thesis by (auto simp: card_eq_0_iff)
qed

text \<open>No credentials that are left have the identity of the last thread, or have it as their parent.\<close>

lemma freed_pid:
  assumes inv: "proc_inv st" and t: "px_reaping st = Some t" "pt_creds (px_thr st t) = Some a" and c: "px_cr st a = Some c"
    and d: "((adopted (cr_pid c) {b. \<exists>s\<in>set (px_ring st). pcr st s = Some b} (px_cr st))(a := None)) b = Some d"
  shows "cr_pid d \<noteq> cr_pid c \<and> (cr_ppid d = cr_pid c \<longrightarrow> cr_pid c = 1)"
proof -
  let ?S = "{b. \<exists>s\<in>set (px_ring st). pcr st s = Some b}"
  have b: "b \<noteq> a" "adopted (cr_pid c) ?S (px_cr st) b = Some d" using d by (auto split: if_splits)
  obtain e where e: "px_cr st b = Some e" "d = (if cr_ppid e = cr_pid c \<and> b \<in> ?S then e\<lparr>cr_ppid := 1\<rparr> else e)"
    using b(2) unfolding adopted_def by (elim map_option_eq_Some [THEN iffD1, elim_format] exE conjE) simp
  have "holders st b \<noteq> {}" using inv e(1) by (simp add: proc_inv_def)
  then obtain s where s: "s \<in> held_by st" "pcr st s = Some b" by (auto simp: holders_def)
  then have "s \<noteq> t" using t(2) b(1) by (auto simp: pcr_def)
  then have "b \<in> ?S" using s t(1) by (auto simp: held_by_def)
  moreover have "cr_pid e \<noteq> cr_pid c" using inv e(1) c b(1) unfolding proc_inv_def by blast
  ultimately show ?thesis using e(2) by (auto split: if_splits)
qed

text \<open>
  C32: The system manager never fails on the credentials of a thread that has ended. While other threads share them only the
  count changes. The last one leaves one notification with the exit status, and one \<open>SIGCHLD\<close>, to the parent, or to init when
  no thread of the parent is left; the notifications for the process go, its children become children of init, its identity
  is free, and the threads of the parent are woken.
\<close>

theorem process_end:
  assumes "proc_reach sysman st" "px_reaping st = Some t" "pt_creds (px_thr st t) = Some a"
  shows "\<exists>c st'. px_cr st a = Some c \<and> clean_finish junk sysman st = Ok st' \<and> px_ring st' = px_ring st \<and>
    (if \<exists>s\<in>set (px_ring st). pt_creds (px_thr st s) = Some a
     then px_cr st' = (px_cr st)(a \<mapsto> c\<lparr>pc_refcount := pc_refcount c - 1\<rparr>) \<and> px_notifs st' = px_notifs st \<and> px_sent st' = px_sent st
     else (let parent = (if \<exists>s\<in>set (px_ring st). pid_of st s = Some (cr_ppid c) then cr_ppid c else 1)
           in px_notifs st' = ProcessDead parent (cr_pid c) (pc_status c) # filter (\<lambda>n. sn_dest n \<noteq> cr_pid c) (px_notifs st) \<and>
              px_sent st' = px_sent st @ [(parent, child_siginfo junk c)] \<and>
              (\<forall>b d. px_cr st' b = Some d \<longrightarrow> cr_pid d \<noteq> cr_pid c \<and> (cr_ppid d = cr_pid c \<longrightarrow> cr_pid c = 1)) \<and>
              (\<forall>s\<in>set (px_ring st). pid_of st s = Some parent \<longrightarrow> s \<in> set (px_woken st'))))"
proof -
  have inv: "proc_inv st" by (rule proc_reach_inv [OF assms(1)])
  define u where "u = (case pid_of st t of None \<Rightarrow> st | Some p \<Rightarrow> st\<lparr>px_closingPid := p\<rparr>)"
  have su: "same_procs st u" by (simp add: u_def split: option.splits)
  have uf: "px_thr u = px_thr st" "px_sent u = px_sent st" by (simp_all add: u_def split: option.splits)
  note uu = same_procsD [OF su]
  have "t \<in> held_by st" using assms(2) by (simp add: held_by_def)
  moreover have "\<forall>t\<in>held_by st. \<forall>a. pcr st t = Some a \<longrightarrow> px_cr st a \<noteq> None" using inv by (simp add: proc_inv_def)
  ultimately obtain c where c: "px_cr st a = Some c" using assms(3) by (auto simp: pcr_def)
  have "credsDownref junk sysman a u \<noteq> Panic" using c uu(3) by (simp add: credsDownref_def Let_def split: prod.splits)
  then obtain v where v: "credsDownref junk sysman a u = Ok v" by (cases "credsDownref junk sysman a u") simp_all
  have fin: "clean_finish junk sysman st = Ok (v\<lparr>px_reaping := None\<rparr>)"
    using assms(2,3) v uf by (simp add: clean_finish_def u_def [symmetric] Let_def)
  have ring: "(\<exists>s\<in>set (px_ring st). pt_creds (px_thr st s) = Some a) \<longleftrightarrow> pc_refcount c \<noteq> 1"
    using holders_ring [OF inv assms(2,3) c] by (auto simp: pcr_def)
  show ?thesis
  proof (cases "pc_refcount c = 1")
    case False
    have "1 \<le> pc_refcount c" "pc_refcount c < 2 ^ 31"
    proof -
      have h: "pc_refcount c = int (card (holders st a))" "holders st a \<noteq> {}" using inv c by (simp_all add: proc_inv_def)
      then show "1 \<le> pc_refcount c" "pc_refcount c < 2 ^ 31" using card_holders [OF inv, of a] by (auto simp: Suc_le_eq card_gt_0_iff)
    qed
    then have "c_int (pc_refcount c + -1) = pc_refcount c - 1" by (simp add: c_int_id)
    then have "v = u\<lparr>px_cr := (px_cr st)(a \<mapsto> c\<lparr>pc_refcount := pc_refcount c - 1\<rparr>)\<rparr>"
      using v c uu(3) False by (simp add: credsDownref_def creds_add_def Let_def)
    then show ?thesis using c fin False ring uu uf by simp
  next
    case True
    have na: "\<forall>s\<in>set (px_ring u). pcr u s \<noteq> Some a" using holders_ring [OF inv assms(2,3) c] True uu by simp
    have cu: "px_cr u a = Some c" using c uu(3) by simp
    obtain parent where R: "reported junk a c parent u v" using credsDownref_last [OF cu True na v] by blast
    have p: "parent = (if \<exists>s\<in>set (px_ring st). pid_of st s = Some (cr_ppid c) then cr_ppid c else 1)"
      using R uu unfolding reported_def by simp
    let ?S = "{b. \<exists>s\<in>set (px_ring st). pcr st s = Some b}"
    have cr: "px_cr v = (adopted (cr_pid c) ?S (px_cr st))(a := None)" using R uu unfolding reported_def by simp
    have fr: "cr_pid d \<noteq> cr_pid c \<and> (cr_ppid d = cr_pid c \<longrightarrow> cr_pid c = 1)" if "px_cr v b = Some d" for b d
      using freed_pid [OF inv assms(2,3) c] that unfolding cr by blast
    show ?thesis
      by (rule exI [of _ c], rule exI [of _ "v\<lparr>px_reaping := None\<rparr>"])
        (use c fin True ring p fr R uu uf in \<open>simp add: reported_def Let_def\<close>)
  qed
qed

section \<open>Waiting\<close>

lemma steps_mono: "(proc_step sysman)\<^sup>*\<^sup>* st st' \<Longrightarrow> proc_inv st \<Longrightarrow> proc_inv st' \<and> pids_mono st st'"
proof (induction rule: rtranclp_induct)
  case base
  then show ?case by (simp add: pids_mono_def)
next
  case (step u v)
  then show ?case using step_inv [OF step.hyps(2)] pids_mono_trans by blast
qed

lemma wait_turn_Reaped:
  assumes "wait_turn cur pid flags st = (Reaped p v, st')"
  shows "\<exists>me pre post. pid_of st cur = Some me \<and> px_notifs st = pre @ ProcessDead me p v # post \<and> st' = st\<lparr>px_notifs := pre @ post\<rparr> \<and>
    (pid = -1 \<or> p = pid)"
proof -
  obtain me where me: "pid_of st cur = Some me" using assms by (auto simp: wait_turn_def split: option.splits if_splits)
  obtain n ns where n: "take_notif (dead_child me pid) (px_notifs st) = Some (n, ns)" "p = sn_source n" "v = sn_status n" "st' = st\<lparr>px_notifs := ns\<rparr>"
    using assms me by (auto simp: wait_turn_def split: option.splits if_splits)
  obtain pre post where s: "px_notifs st = pre @ n # post" "ns = pre @ post" "dead_child me pid n" using take_notif_split [OF n(1)] by blast
  then have "n = ProcessDead me p v" "pid = -1 \<or> p = pid" using n(2,3) by (auto simp: dead_child_def split: SchedNotif.splits)
  then show ?thesis using me s n(4) by blast
qed

lemma processWait_Reaped: "processWait cur pid flags st = (Reaped p v, st') \<Longrightarrow> wait_turn cur pid flags st = (Reaped p v, st')"
  by (simp add: processWait_def split: if_splits)

text \<open>
  C33: When \<open>processWait\<close> returns a process, it had ended with this status and was a child of the caller that it asked for;
  its notification is gone, and from then on no process has its identity and no \<open>processWait\<close> of any thread returns it again.
\<close>

theorem wait_once:
  assumes "proc_reach sysman st" "processWait cur pid flags st = (Reaped p v, st1)" "(proc_step sysman)\<^sup>*\<^sup>* st1 st2"
  shows "(\<exists>me pre post. pid_of st cur = Some me \<and> px_notifs st = pre @ ProcessDead me p v # post \<and> px_notifs st1 = pre @ post \<and>
       (pid = -1 \<or> p = pid)) \<and>
    (\<forall>a c. px_cr st2 a = Some c \<longrightarrow> cr_pid c \<noteq> p) \<and>
    (\<forall>cur2 pid2 flags2 w. fst (processWait cur2 pid2 flags2 st2) \<noteq> Reaped p w)"
proof -
  have inv: "proc_inv st" by (rule proc_reach_inv [OF assms(1)])
  obtain me pre post where w: "pid_of st cur = Some me" "px_notifs st = pre @ ProcessDead me p v # post" "st1 = st\<lparr>px_notifs := pre @ post\<rparr>"
    "pid = -1 \<or> p = pid" using wait_turn_Reaped [OF processWait_Reaped [OF assms(2)]] by blast
  have "snd (processWait cur pid flags st) = st1" using assms(2) by simp
  then have inv1: "proc_inv st1" using inv_wait [OF inv] inv unfolding processWait_def by (metis snd_conv)
  have "distinct (zombies st)" "\<forall>p\<in>set (zombies st). \<not> live_pid st p \<and> 1 \<le> p \<and> p < px_nextPid st" using inv by (simp_all add: proc_inv_def)
  then have p: "p \<notin> set (zombies st1)" "\<not> live_pid st1 p" "p < px_nextPid st1"
    by (auto simp: zombies_zmb w(2,3) live_pid_def)
  have inv2: "proc_inv st2" and m: "pids_mono st1 st2" using steps_mono [OF assms(3) inv1] by simp_all
  have l: "\<not> live_pid st2 p" "p \<notin> set (zombies st2)" using m p unfolding pids_mono_def by (meson not_le)+
  have "fst (processWait cur2 pid2 flags2 st2) \<noteq> Reaped p v'" for cur2 pid2 flags2 v'
  proof
    assume "fst (processWait cur2 pid2 flags2 st2) = Reaped p v'"
    then obtain st3 where "processWait cur2 pid2 flags2 st2 = (Reaped p v', st3)" by (metis prod.collapse)
    from wait_turn_Reaped [OF processWait_Reaped [OF this]] obtain q xs ys where "px_notifs st2 = xs @ ProcessDead q p v' # ys" by blast
    then show False using l(2) by (simp add: zombies_zmb)
  qed
  then show ?thesis using w l(1) unfolding live_pid_def by auto
qed


section \<open>A machine with init and one more process\<close>

text \<open>
  The startup thread starts init; init forks; the child starts a second thread, which ends, and then ends itself; the system
  manager cleans up both.
\<close>

abbreviation demo_thr :: "int \<Rightarrow> nat option \<Rightarrow> u64 \<Rightarrow> int \<Rightarrow> pthr" where
  "demo_thr thid a f w \<equiv> \<lparr>pt_thid = thid, pt_creds = a, pt_flags = f, pt_debugFlags = 0, pt_wakeCounter = w\<rparr>"

abbreviation demo_creds :: "int \<Rightarrow> int \<Rightarrow> int \<Rightarrow> pcreds" where
  "demo_creds p n v \<equiv> \<lparr>cr_pid = p, cr_ppid = 1, cr_pgid = 0, cr_euid = 0, cr_ruid = 0, pc_refcount = n, pc_status = v\<rparr>"

abbreviation demo_junk :: siginfo where "demo_junk \<equiv> exit_siginfo 0"

definition demo_px0 :: psys where
  "demo_px0 = \<lparr>px_thr = (\<lambda>t. demo_thr 0 None 0 0), px_ring = [0, 1], px_cr = (\<lambda>a. None), px_notifs = [], px_nextPid = 1, px_toClean = 0,
     px_closingPid = 0, px_reaping = None, px_woken = [], px_killed = [], px_sent = []\<rparr>"

definition demo_px1 :: psys where
  "demo_px1 = demo_px0\<lparr>px_thr := (\<lambda>t. demo_thr 0 None 0 0)(2 := demo_thr 1 (Some 10) 0 0),
     px_ring := [0, 2, 1],
     px_cr := [10 \<mapsto> demo_creds 1 1 0],
     px_nextPid := 2\<rparr>"

definition demo_px2 :: psys where
  "demo_px2 = demo_px1\<lparr>px_thr := (\<lambda>t. demo_thr 0 None 0 0)(2 := demo_thr 1 (Some 10) 0 0, 3 := demo_thr 3 (Some 11) 0 0),
     px_ring := [0, 2, 3, 1],
     px_cr := [10 \<mapsto> demo_creds 1 1 0, 11 \<mapsto> demo_creds 2 1 0],
     px_nextPid := 4\<rparr>"

definition demo_px3 :: psys where
  "demo_px3 = demo_px2\<lparr>px_thr := (\<lambda>t. demo_thr 0 None 0 0)(2 := demo_thr 1 (Some 10) 0 0, 3 := demo_thr 3 (Some 11) 0 0, 4 := demo_thr 4 (Some 11) 0 0),
     px_ring := [0, 2, 3, 4, 1],
     px_cr := [10 \<mapsto> demo_creds 1 1 0, 11 \<mapsto> demo_creds 2 2 0],
     px_nextPid := 5\<rparr>"

definition demo_px4 :: psys where
  "demo_px4 = demo_px3\<lparr>px_thr := (\<lambda>t. demo_thr 0 None 0 0)(2 := demo_thr 1 (Some 10) 0 0, 3 := demo_thr 3 (Some 11) 0 1, 4 := demo_thr 4 (Some 11) THREAD_TERMINATED 1, 1 := demo_thr 0 (None) 0 1),
     px_notifs := [ThreadDead 2 4 7],
     px_toClean := 1,
     px_woken := [4, 3, 1]\<rparr>"

definition demo_px5 :: psys where
  "demo_px5 = demo_px4\<lparr>px_thr := (\<lambda>t. demo_thr 0 None 0 0)(2 := demo_thr 1 (Some 10) 0 0, 4 := demo_thr 4 (Some 11) THREAD_TERMINATED 2, 3 := demo_thr 3 (Some 11) THREAD_TERMINATED 2, 1 := demo_thr 0 (None) 0 2),
     px_cr := [10 \<mapsto> demo_creds 1 1 0, 11 \<mapsto> demo_creds 2 2 1280],
     px_notifs := [ThreadDead 2 3 0],
     px_toClean := 2,
     px_killed := [4],
     px_woken := [4, 3, 1, 3, 4, 1]\<rparr>"

definition demo_px6 :: psys where
  "demo_px6 = demo_px5\<lparr>px_ring := [0, 2, 4, 1],
     px_toClean := 1,
     px_reaping := Some 3\<rparr>"

definition demo_px7 :: psys where
  "demo_px7 = demo_px6\<lparr>px_cr := [10 \<mapsto> demo_creds 1 1 0, 11 \<mapsto> demo_creds 2 1 1280],
     px_closingPid := 2,
     px_reaping := None\<rparr>"

definition demo_px8 :: psys where
  "demo_px8 = demo_px7\<lparr>px_ring := [0, 2, 1],
     px_toClean := 0,
     px_reaping := Some 4\<rparr>"

definition demo_px9 :: psys where "demo_px9 = kval (clean_finish demo_junk 1 demo_px8)"

lemmas px_ops = creds_add_def set_ppid_def creds_of_def pid_of_def px_upd_def Let_def c_int_id has_def px_signal_def wakeProcess_def threads_from_def

lemma demo_px1: "threadClone 0 2 10 0 demo_px0 = Ok (1, demo_px1)"
  by (simp add: px_ops threadClone_def ring_after_def credsNew_def demo_px0_def demo_px1_def)

lemma demo_px2: "threadClone 2 3 11 0 demo_px1 = Ok (2, demo_px2)"
  by (simp add: px_ops threadClone_def ring_after_def credsDup_def demo_px0_def demo_px1_def demo_px2_def)

lemma demo_px3: "threadClone 3 4 12 CLONE_THREAD demo_px2 = Ok (4, demo_px3)"
  by (simp add: px_ops threadClone_def ring_after_def credsUpref_def demo_px0_def demo_px1_def demo_px2_def demo_px3_def)

lemmas demo_px_defs = demo_px0_def demo_px1_def demo_px2_def demo_px3_def demo_px4_def demo_px5_def demo_px6_def demo_px7_def demo_px8_def

lemma demo_px4: "threadExitEx 1 4 7 demo_px3 = Ok demo_px4"
  by (simp add: px_ops threadExitEx_def demo_px_defs)

lemma demo_px5: "processExit 1 3 1280 demo_px4 = Ok demo_px5"
  by (simp add: px_ops threadExitEx_def processExit_def killOtherThreads_def set_status_def demo_px_defs)

lemma demo_px6: "clean_unlink 1 demo_px5 = demo_px6"
  by (simp add: px_ops clean_unlink_def px_reapable_def demo_px_defs)

lemma demo_px7: "clean_finish demo_junk 1 demo_px6 = Ok demo_px7"
  by (simp add: px_ops clean_finish_def credsDownref_def demo_px_defs)

lemma demo_px8: "clean_unlink 1 demo_px7 = demo_px8"
  by (simp add: px_ops clean_unlink_def px_reapable_def demo_px_defs)

lemma demo_reach0: "proc_reach 1 demo_px0"
  by (rule proc_reach.boot) (simp add: proc_boot_def demo_px0_def)

lemma demo_reach3: "proc_reach 1 demo_px3"
proof -
  have 1: "proc_reach 1 demo_px1"
    by (rule proc_reach.step [OF demo_reach0], rule proc_step.clone [OF _ _ _ _ _ _ _ demo_px1]) (simp_all add: px_live_def has_def creds_of_def demo_px_defs)
  have 2: "proc_reach 1 demo_px2"
    by (rule proc_reach.step [OF 1], rule proc_step.clone [OF _ _ _ _ _ _ _ demo_px2]) (simp_all add: px_live_def has_def creds_of_def demo_px_defs)
  show ?thesis
    by (rule proc_reach.step [OF 2], rule proc_step.clone [OF _ _ _ _ _ _ _ demo_px3]) (simp_all add: px_live_def has_def creds_of_def demo_px_defs)
qed

lemma demo_reach4: "proc_reach 1 demo_px4"
  by (rule proc_reach.step [OF demo_reach3], rule proc_step.exit [OF _ demo_px4]) (simp add: px_live_def has_def demo_px_defs)

lemma demo_reach8: "proc_reach 1 demo_px8"
proof -
  have 5: "proc_reach 1 demo_px5"
    by (rule proc_reach.step [OF demo_reach4], rule proc_step.pexit [OF _ demo_px5]) (simp add: px_live_def has_def demo_px_defs)
  have 6: "proc_reach 1 demo_px6" unfolding demo_px6 [symmetric]
    by (rule proc_reach.step [OF 5], rule proc_step.unlink) (simp add: demo_px_defs)
  have 7: "proc_reach 1 demo_px7" by (rule proc_reach.step [OF 6], rule proc_step.finish [OF demo_px7])
  show ?thesis unfolding demo_px8 [symmetric]
    by (rule proc_reach.step [OF 7], rule proc_step.unlink) (simp add: demo_px_defs)
qed

lemma demo_px9: "clean_finish demo_junk 1 demo_px8 = Ok demo_px9" "px_notifs demo_px9 = [ProcessDead 1 2 1280]" "pid_of demo_px9 2 = Some 1"
  "fst (processWait 2 (-1) 0 demo_px9) = Reaped 2 1280"
proof -
  let ?st = "\<lambda>x. clean_finish demo_junk 1 demo_px8 = Ok x \<and> px_notifs x = [ProcessDead 1 2 1280] \<and> pid_of x 2 = Some 1"
  have "\<exists>x. ?st x"
    by (simp add: px_ops clean_finish_def credsDownref_def orphan_def demo_px_defs)
  then show f: "clean_finish demo_junk 1 demo_px8 = Ok demo_px9" "px_notifs demo_px9 = [ProcessDead 1 2 1280]" "pid_of demo_px9 2 = Some 1"
    unfolding demo_px9_def by auto
  show "fst (processWait 2 (-1) 0 demo_px9) = Reaped 2 1280"
    by (simp add: processWait_def wait_turn_def dead_child_def f)
qed

lemma demo_reach9: "proc_reach 1 demo_px9"
  by (rule proc_reach.step [OF demo_reach8], rule proc_step.finish [OF demo_px9(1)])

theorem processes_consistent_witness:
  "card {t. (t \<in> set (px_ring demo_px8) \<or> px_reaping demo_px8 = Some t) \<and> pt_creds (px_thr demo_px8 t) = Some 11} = 1"
proof -
  have "px_cr demo_px8 11 = Some (demo_creds 2 1 1280)" by (simp add: demo_px_defs)
  from processes_consistent [OF demo_reach8, THEN conjunct2, THEN conjunct1, rule_format, OF this] show ?thesis by simp
qed

theorem process_end_witness: "\<exists>st'. clean_finish demo_junk 1 demo_px8 = Ok st' \<and> px_notifs st' = [ProcessDead 1 2 1280]"
proof -
  have d: "px_reaping demo_px8 = Some 4" "pt_creds (px_thr demo_px8 4) = Some 11" "px_cr demo_px8 11 = Some (demo_creds 2 1 1280)"
    "\<not> (\<exists>s\<in>set (px_ring demo_px8). pt_creds (px_thr demo_px8 s) = Some 11)" "px_notifs demo_px8 = [ThreadDead 2 3 0]"
    by (simp_all add: demo_px_defs)
  from process_end [OF demo_reach8 d(1,2), of demo_junk] d(4)
  obtain c st' where "px_cr demo_px8 11 = Some c" "clean_finish demo_junk 1 demo_px8 = Ok st'"
    "px_notifs st' = ProcessDead (if \<exists>s\<in>set (px_ring demo_px8). pid_of demo_px8 s = Some (cr_ppid c) then cr_ppid c else 1) (cr_pid c) (pc_status c) #
       filter (\<lambda>n. sn_dest n \<noteq> cr_pid c) (px_notifs demo_px8)"
    by (auto simp: Let_def)
  then show ?thesis using d(3,5) by auto
qed

theorem wait_once_witness: "\<forall>cur pid flags w. fst (processWait cur pid flags (snd (processWait 2 (-1) 0 demo_px9))) \<noteq> Reaped 2 w"
proof -
  have "processWait 2 (-1) 0 demo_px9 = (Reaped 2 1280, snd (processWait 2 (-1) 0 demo_px9))" using demo_px9(4) by (metis prod.collapse)
  from wait_once [OF demo_reach9 this rtranclp.rtrancl_refl] show ?thesis by blast
qed

section \<open>Where waiting, joining and detaching fail\<close>

text \<open>
  C34: \<open>detachThread\<close> succeeds exactly for a thread of the calling process that is on the list and not detached yet, and marks
  it; it fails with the state unchanged otherwise. But when the thread has already ended, it returns with the scheduler lock
  held and interrupts off.
\<close>

theorem detach_outcome:
  assumes "pid_of st cur = Some me" "detachThread cur thid st = (r, held, st')"
  shows "(r = 0 \<longleftrightarrow> (\<exists>t. getThreadByTHID cur thid st = Some t \<and> pid_of st t = Some me \<and> \<not> has (pt_flags (px_thr st t)) THREAD_DETACHED \<and>
       has (pt_flags (px_thr st' t)) THREAD_DETACHED)) \<and>
    (r \<noteq> 0 \<longrightarrow> (r = ESRCH \<or> r = EINVAL) \<and> st' = st) \<and>
    (held \<longleftrightarrow> r = 0 \<and> (\<exists>v. ThreadDead me thid v \<in> set (px_notifs st)))"
proof -
  let ?det = "\<lambda>t. px_upd t (\<lambda>r. r\<lparr>pt_flags := pt_flags r OR THREAD_DETACHED\<rparr>) st"
  have dt: "has (pt_flags (px_thr ((?det t)\<lparr>px_notifs := ns\<rparr>) t)) THREAD_DETACHED" "has (pt_flags (px_thr (?det t) t)) THREAD_DETACHED"
    "px_notifs (?det t) = px_notifs st" for t ns by (simp_all add: px_upd_def has_def bit.conj_disj_distrib2)
  have ex: "(\<exists>n\<in>set ns. dead_thread me thid n) \<longleftrightarrow> (\<exists>v. ThreadDead me thid v \<in> set ns)" for ns
  proof -
    have "dead_thread me thid n \<longleftrightarrow> (\<exists>v. n = ThreadDead me thid v)" for n by (cases n) (auto simp: dead_thread_def)
    then show ?thesis by auto
  qed
  show ?thesis
  proof (cases "\<exists>t. getThreadByTHID cur thid st = Some t \<and> pid_of st t = Some me \<and> \<not> has (pt_flags (px_thr st t)) THREAD_DETACHED")
    case True
    then obtain t where t: "getThreadByTHID cur thid st = Some t" "pid_of st t = Some me" "\<not> has (pt_flags (px_thr st t)) THREAD_DETACHED" by blast
    show ?thesis
    proof (cases "take_notif (dead_thread me thid) (px_notifs st)")
      case None
      then have "(r, held, st') = (0, False, ?det t)" using assms t by (simp add: detachThread_def Let_def dt(3))
      moreover have "\<not> (\<exists>v. ThreadDead me thid v \<in> set (px_notifs st))" using None unfolding take_notif_None ex [symmetric] by blast
      ultimately show ?thesis using t dt(2) by auto
    next
      case (Some p)
      then obtain n ns where n: "take_notif (dead_thread me thid) (px_notifs st) = Some (n, ns)" by (cases p) auto
      then have "(r, held, st') = (0, True, (?det t)\<lparr>px_notifs := ns\<rparr>)" using assms t by (simp add: detachThread_def Let_def dt(3))
      moreover have "\<exists>n\<in>set (px_notifs st). dead_thread me thid n" using take_notif_split [OF n] by auto
      ultimately show ?thesis using t dt ex by auto
    qed
  next
    case False
    then have "(r, held, st') = (ESRCH, False, st) \<or> (r, held, st') = (EINVAL, False, st)"
      using assms by (auto simp: detachThread_def split: option.splits if_splits)
    then show ?thesis using False by auto
  qed
qed

theorem detach_outcome_witness: "proc_reach 1 demo_px4 \<and> fst (detachThread 3 4 demo_px4) = 0 \<and> fst (snd (detachThread 3 4 demo_px4))"
proof -
  obtain r held st' where d: "detachThread 3 4 demo_px4 = (r, held, st')" by (cases "detachThread 3 4 demo_px4")
  have r: "fst (detachThread 3 4 demo_px4) = 0"
    by (simp add: detachThread_def getThreadByTHID_def px_ops dead_thread_def demo_px_defs)
  have "pid_of demo_px4 3 = Some 2" "ThreadDead 2 4 7 \<in> set (px_notifs demo_px4)" by (simp_all add: px_ops demo_px_defs)
  from detach_outcome [OF this(1) d, THEN conjunct2, THEN conjunct2] this(2) r d have "held" by auto
  then show ?thesis using r d demo_reach4 by simp
qed

text \<open>A process without children that waits sleeps, and one that waits for a thread that does not exist.\<close>

lemma wait_without_children: "(\<forall>a c. px_cr demo_px1 a = Some c \<longrightarrow> cr_pid c = 1) \<and> fst (processWait 2 (-1) 0 demo_px1) = Sleeps"
  by (simp add: processWait_def wait_turn_def px_ops demo_px_defs)

lemma join_nobody: "getThreadByTHID 2 99 demo_px1 = None \<and> fst (joinThread 2 99 demo_px1) = JoinSleeps"
  by (simp add: joinThread_def join_turn_def getThreadByTHID_def px_ops demo_px_defs)

text \<open>\<open>exec\<close> ends the other threads, and with them the statuses of children that have ended are forgotten.\<close>

lemma exec_forgets_children:
  "fst (processWait 2 (-1) 0 demo_px9) = Reaped 2 1280 \<and> fst (processWait 2 (-1) 0 (killOtherThreads 2 demo_px9)) = Sleeps"
proof -
  define k where "k = killOtherThreads 2 demo_px9"
  have "px_notifs k = []" "px_thr k = px_thr demo_px9" "px_cr k = px_cr demo_px9" using demo_px9(2,3) by (simp_all add: k_def killOtherThreads_def)
  moreover from this have "pid_of k 2 = pid_of demo_px9 2" by (simp add: pid_of_def creds_of_def split: option.split)
  ultimately have "px_notifs k = []" "pid_of k 2 = Some 1" using demo_px9(3) by simp_all
  then have "fst (processWait 2 (-1) 0 k) = Sleeps" by (simp add: processWait_def wait_turn_def has_def)
  then show ?thesis by (simp add: demo_px9(4) k_def)
qed

end
