(* ===== verification/Gx_BlockCache.thy ===== *)
theory Gx_BlockCache
  imports Gx_Prelude
begin

text \<open>
  The block cache (\<open>kernel/src/storage/storage.c\<close>): a tree of seven levels of 128 entries over the 2 ^ 49 tracks of 32 KB
  of a storage device, with reads and writes through it, the flush of dirty tracks, and the eviction of the least used.

  A node is the list of its entries; an entry is \<open>None\<close> for 0, else the usage count in its high 8 bits, the flag
  \<open>SD_BLOCK_DIRTY\<close>, and what its low 48 bits point to, a node or a track, which nothing else points to. The driver's
  \<open>readBlocks\<close> and \<open>writeBlocks\<close> are functions on the state of the drive. Whether the eight frames of a track can be
  allocated (\<open>got\<close>) and whether the thread may allocate (\<open>mk\<close>, the \<open>make\<close> of \<open>sdGetCache\<close>, that is \<open>!allocFromCacheNow\<close>) are arguments. One turn of the
  loops of \<open>sdRead\<close> and \<open>sdWrite\<close>, a flush and an eviction are each done under \<open>cacheLock\<close>.

  One thing is not modelled: the allocations that \<open>sdGetCache\<close> makes while it walks the tree may themselves, when memory is short, call
  \<open>sdFreeMemory\<close>, which takes the recursive \<open>cacheLock\<close> again and can evict from the tree that is being walked (\<open>sdMissNow\<close> stops
  only \<open>ftGetFreePage\<close>). The model of a call is that of one whose allocations evict nothing from the device of the call;
  \<open>walk_evicted\<close> in \<open>Gx_BlockRun\<close> shows what the eviction does otherwise: it frees the nodes under the walk.
\<close>

section \<open>Data\<close>

abbreviation SD_HANGUP :: u32 where "SD_HANGUP \<equiv> 2"
abbreviation SD_MASTER_OPEN :: u64 where "SD_MASTER_OPEN \<equiv> - 1"
abbreviation SD_TRACK_SIZE :: u64 where "SD_TRACK_SIZE \<equiv> 0x8000"
abbreviation SD_ENOMEM :: int where "SD_ENOMEM \<equiv> 50"

datatype blocks = Track "u8 list" | Node "(u8 \<times> bool \<times> blocks) option list"

type_synonym bentry = "(u8 \<times> bool \<times> blocks) option"

record 'd SDOps =
  readBlocks :: "'d \<Rightarrow> u64 \<Rightarrow> u64 \<Rightarrow> int \<times> u8 list"
  writeBlocks :: "'d \<Rightarrow> u64 \<Rightarrow> u64 \<Rightarrow> u8 list \<Rightarrow> int \<times> 'd"

record 'd StorageDevice =
  sd_flags :: u32
  sd_blockSize :: u64
  sd_cacheTop :: "bentry list"
  sd_drv :: 'd
  sd_cachedFrames :: int \<comment> \<open>the device's share of \<open>phmCachedFrames\<close>\<close>

section \<open>Looking a track up\<close>

definition track_path :: "u64 \<Rightarrow> nat list" where
  "track_path pos = map (\<lambda>i. unat (drop_bit (15 + 7 * (6 - i)) pos AND 0x7F)) [0..<7]"

text \<open>
  The rest of the path from one entry on: the result, whether a track was added, and the entry. \<open>load\<close> is what \<open>sdGetCache\<close>
  gets when it must load the track.
\<close>

fun get_entry :: "bool \<Rightarrow> bool \<Rightarrow> int + u8 list \<Rightarrow> nat list \<Rightarrow> bentry \<Rightarrow> (int + u8 list) \<times> bool \<times> bentry" where
  "get_entry mk dirty load [] e =
     (case e of
        None \<Rightarrow> if \<not> mk then (Inl EAGAIN, False, None)
                else (case load of Inl err \<Rightarrow> (Inl err, False, None) | Inr track \<Rightarrow> (Inr track, True, Some (1, dirty, Track track)))
      | Some (ucnt, d, Track track) \<Rightarrow> (Inr track, False, Some (ucnt, d \<or> dirty, Track track))
      | Some (ucnt, d, Node es) \<Rightarrow> (Inl EAGAIN, False, e))"
| "get_entry mk dirty load (i # path) e =
     (case e of
        None \<Rightarrow> if \<not> mk then (Inl EAGAIN, False, None)
                else (case get_entry mk dirty load path None of
                        (r, added, e) \<Rightarrow> (r, added, Some (1, dirty, Node ((replicate 128 None)[i := e]))))
      | Some (ucnt, d, Node es) \<Rightarrow>
          (case get_entry mk dirty load path (es ! i) of
             (r, added, e) \<Rightarrow> (r, added, Some (if ucnt \<noteq> 255 then ucnt + 1 else ucnt, d \<or> dirty, Node (es[i := e]))))
      | Some (ucnt, d, Track track) \<Rightarrow> (Inl EAGAIN, False, e))"

definition read_track :: "'d SDOps \<Rightarrow> u64 \<Rightarrow> 'd StorageDevice \<Rightarrow> int \<times> u8 list" where
  "read_track ops pos sd =
     readBlocks ops (sd_drv sd) ((pos AND NOT 0x7FFF) div sd_blockSize sd) (SD_TRACK_SIZE div sd_blockSize sd)"

definition load_track :: "'d SDOps \<Rightarrow> bool \<Rightarrow> u64 \<Rightarrow> 'd StorageDevice \<Rightarrow> int + u8 list" where
  "load_track ops got pos sd =
     (if \<not> got then Inl SD_ENOMEM
      else case read_track ops pos sd of (status, track) \<Rightarrow> if status \<noteq> 0 then Inl status else Inr track)"

definition sdGetCache :: "'d SDOps \<Rightarrow> bool \<Rightarrow> 'd StorageDevice \<Rightarrow> u64 \<Rightarrow> bool \<Rightarrow> bool \<Rightarrow> (int + u8 list) \<times> 'd StorageDevice" where
  "sdGetCache ops got sd pos mk dirty =
     (case track_path pos of
        i # path \<Rightarrow>
          (case get_entry mk dirty (load_track ops got pos sd) path (sd_cacheTop sd ! i) of
             (r, added, e) \<Rightarrow> (r, sd\<lparr>sd_cacheTop := (sd_cacheTop sd)[i := e],
                                      sd_cachedFrames := sd_cachedFrames sd + (if added then 8 else 0)\<rparr>))
      | [] \<Rightarrow> (Inl EAGAIN, sd))"

text \<open>A store through the address that \<open>sdGetCache\<close> returned.\<close>

fun put_entry :: "u8 list \<Rightarrow> nat list \<Rightarrow> bentry \<Rightarrow> bentry" where
  "put_entry bs [] e = (case e of Some (ucnt, d, Track _) \<Rightarrow> Some (ucnt, d, Track bs) | _ \<Rightarrow> e)"
| "put_entry bs (i # path) e =
     (case e of Some (ucnt, d, Node es) \<Rightarrow> Some (ucnt, d, Node (es[i := put_entry bs path (es ! i)])) | _ \<Rightarrow> e)"

definition put_track :: "u64 \<Rightarrow> u8 list \<Rightarrow> 'd StorageDevice \<Rightarrow> 'd StorageDevice" where
  "put_track pos bs sd =
     (case track_path pos of
        i # path \<Rightarrow> sd\<lparr>sd_cacheTop := (sd_cacheTop sd)[i := put_entry bs path (sd_cacheTop sd ! i)]\<rparr>
      | [] \<Rightarrow> sd)"

section \<open>Reading and writing\<close>

definition chunk_size :: "u64 \<Rightarrow> u64 \<Rightarrow> u64" where
  "chunk_size pos n = min (SD_TRACK_SIZE - (pos AND (SD_TRACK_SIZE - 1))) n"

text \<open>One turn of the loop: the bytes, or the error.\<close>

definition read_turn :: "'d SDOps \<Rightarrow> bool \<Rightarrow> bool \<Rightarrow> u64 \<Rightarrow> u64 \<Rightarrow> 'd StorageDevice \<Rightarrow> (int + u8 list) \<times> 'd StorageDevice" where
  "read_turn ops mk got pos n sd =
     (let off = unat (pos AND (SD_TRACK_SIZE - 1)); k = unat (chunk_size pos n)
      in case sdGetCache ops got sd pos mk False of
           (Inr track, sd) \<Rightarrow> (Inr (take k (drop off track)), sd)
         | (Inl err, sd) \<Rightarrow>
             if err = EAGAIN \<or> err = SD_ENOMEM
             then (case read_track ops pos sd of (status, tmp) \<Rightarrow> (if status = 0 then Inr (take k (drop off tmp)) else Inl status, sd))
             else (Inl err, sd))"

lemma unat_low_15: "unat (pos AND (0x7FFF :: u64)) = unat pos mod 2 ^ 15"
proof -
  have "pos AND 0x7FFF = take_bit 15 pos" by (simp add: take_bit_eq_mask mask_eq_exp_minus_1)
  moreover have "unat (take_bit 15 pos) = unat pos mod 2 ^ 15" by (metis unsigned_take_bit_eq take_bit_eq_mod)
  ultimately show ?thesis by simp
qed

lemma unat_chunk: "unat (chunk_size pos n) = min (2 ^ 15 - unat pos mod 2 ^ 15) (unat n)"
proof -
  have "unat (0x8000 - (pos AND 0x7FFF)) = 2 ^ 15 - unat pos mod 2 ^ 15"
    using mod_less_divisor [of "2 ^ 15" "unat pos"] unat_low_15 [of pos]
    by (subst unat_sub) (simp_all add: word_le_nat_alt)
  then show ?thesis unfolding chunk_size_def by (simp add: min_def word_le_nat_alt)
qed

lemma chunk_size_less: "n \<noteq> 0 \<Longrightarrow> unat (n - chunk_size pos n) < unat n"
proof -
  assume "n \<noteq> 0"
  then have "0 < unat n" by (simp add: unat_gt_0)
  moreover have "unat (chunk_size pos n) \<le> unat n" "0 < unat n \<longrightarrow> 0 < unat (chunk_size pos n)"
    using mod_less_divisor [of "2 ^ 15" "unat pos"] by (simp_all add: unat_chunk)
  ultimately show ?thesis by (subst unat_sub) (simp_all add: word_le_nat_alt)
qed

function sdRead_loop :: "'d SDOps \<Rightarrow> bool \<Rightarrow> (u64 \<Rightarrow> bool) \<Rightarrow> u64 \<Rightarrow> u64 \<Rightarrow> u8 list \<Rightarrow> 'd StorageDevice \<Rightarrow> (int + u8 list) \<times> 'd StorageDevice" where
  "sdRead_loop ops mk got pos n buf sd =
     (if n = 0 then (Inr buf, sd)
      else let k = chunk_size pos n
           in case read_turn ops mk (got pos) pos n sd of
                (Inl err, sd) \<Rightarrow> (if buf = [] then Inl err else Inr buf, sd)
              | (Inr bs, sd) \<Rightarrow> sdRead_loop ops mk got (pos + k) (n - k) (buf @ bs) sd)"
  by pat_completeness auto
termination
  by (relation "measure (\<lambda>(ops, mk, got, pos, n, buf, sd). unat n)") (simp_all add: chunk_size_less)

declare sdRead_loop.simps [simp del]

definition sdRead :: "'d SDOps \<Rightarrow> bool \<Rightarrow> (u64 \<Rightarrow> bool) \<Rightarrow> u64 \<Rightarrow> u64 \<Rightarrow> 'd StorageDevice \<Rightarrow> (int + u8 list) \<times> 'd StorageDevice" where
  "sdRead ops mk got pos n sd = (if has (sd_flags sd) SD_HANGUP then (Inl ENXIO, sd) else sdRead_loop ops mk got pos n [] sd)"

text \<open>One turn of \<open>sdWrite\<close> with the bytes \<open>bs\<close> that go into the track of \<open>pos\<close>. What happens to a track that is not cached when
  the thread may not allocate is what the code does: it reads the track again.\<close>

definition overwrite :: "nat \<Rightarrow> u8 list \<Rightarrow> u8 list \<Rightarrow> u8 list" where
  "overwrite off bs track = take off track @ bs @ drop (off + length bs) track"

definition write_turn :: "'d SDOps \<Rightarrow> bool \<Rightarrow> bool \<Rightarrow> u64 \<Rightarrow> u8 list \<Rightarrow> 'd StorageDevice \<Rightarrow> int option \<times> 'd StorageDevice" where
  "write_turn ops mk got pos bs sd =
     (let off = unat (pos AND (SD_TRACK_SIZE - 1))
      in case sdGetCache ops got sd pos mk True of
           (Inr track, sd) \<Rightarrow> (None, put_track pos (overwrite off bs track) sd)
         | (Inl err, sd) \<Rightarrow>
             if err = EAGAIN \<or> err = SD_ENOMEM
             then (case read_track ops pos sd of
                     (status, tmp) \<Rightarrow>
                       if status \<noteq> 0 then (Some status, sd)
                       else let tmp = overwrite off bs tmp;
                                (status, tmp) = read_track ops pos sd
                            in (None, sd))
             else (Some err, sd))"

text \<open>The result is the error, or how much was written.\<close>

function sdWrite_loop :: "'d SDOps \<Rightarrow> bool \<Rightarrow> (u64 \<Rightarrow> bool) \<Rightarrow> u64 \<Rightarrow> u64 \<Rightarrow> u8 list \<Rightarrow> u64 \<Rightarrow> 'd StorageDevice \<Rightarrow> (int + u64) \<times> 'd StorageDevice" where
  "sdWrite_loop ops mk got pos n buf written sd =
     (if n = 0 then (Inr written, sd)
      else let k = chunk_size pos n
           in case write_turn ops mk (got pos) pos (take (unat k) buf) sd of
                (Some err, sd) \<Rightarrow> (if written = 0 then Inl err else Inr written, sd)
              | (None, sd) \<Rightarrow> sdWrite_loop ops mk got (pos + k) (n - k) (drop (unat k) buf) (written + k) sd)"
  by pat_completeness auto
termination
  by (relation "measure (\<lambda>(ops, mk, got, pos, n, buf, w, sd). unat n)") (simp_all add: chunk_size_less)

declare sdWrite_loop.simps [simp del]

definition sdWrite :: "'d SDOps \<Rightarrow> bool \<Rightarrow> (u64 \<Rightarrow> bool) \<Rightarrow> u64 \<Rightarrow> u8 list \<Rightarrow> 'd StorageDevice \<Rightarrow> (int + u64) \<times> 'd StorageDevice" where
  "sdWrite ops mk got pos buf sd =
     (if has (sd_flags sd) SD_HANGUP then (Inl ENXIO, sd) else sdWrite_loop ops mk got pos (of_nat (length buf)) buf 0 sd)"

section \<open>Flushing\<close>

text \<open>The track goes to the driver; the status that it returns is thrown away, by \<open>sdFlushTree\<close> and by \<open>sdTryFree\<close>.\<close>

definition write_track :: "'d SDOps \<Rightarrow> u64 \<Rightarrow> u64 \<Rightarrow> u8 list \<Rightarrow> 'd \<Rightarrow> 'd" where
  "write_track ops blockSize pos track drv =
     snd (writeBlocks ops drv (push_bit 15 pos div blockSize) (SD_TRACK_SIZE div blockSize) track)"

text \<open>The body of the loop of \<open>sdFlushTree\<close>, for an entry \<open>n\<close> levels above the tracks whose subscripts so far are \<open>pos\<close>.\<close>

primrec flush_entry :: "nat \<Rightarrow> 'd SDOps \<Rightarrow> u64 \<Rightarrow> u64 \<Rightarrow> bentry \<times> 'd \<Rightarrow> bentry \<times> 'd" where
  "flush_entry 0 ops blk pos = (\<lambda>(e, drv).
     (case e of
        Some (ucnt, True, Track track) \<Rightarrow> (Some (ucnt, False, Track track), write_track ops blk pos track drv)
      | _ \<Rightarrow> (e, drv)))"
| "flush_entry (Suc n) ops blk pos = (\<lambda>(e, drv).
     (case e of
        Some (ucnt, True, Node es) \<Rightarrow>
          (case fold (\<lambda>i (es, drv). case flush_entry n ops blk (push_bit 7 pos OR of_nat i) (es ! i, drv) of (e, drv) \<Rightarrow> (es[i := e], drv))
                  [0..<128] (es, drv) of
             (es, drv) \<Rightarrow> (Some (ucnt, False, Node es), drv))
      | _ \<Rightarrow> (e, drv)))"

definition sdFlushTree :: "nat \<Rightarrow> 'd SDOps \<Rightarrow> u64 \<Rightarrow> u64 \<Rightarrow> bentry list \<times> 'd \<Rightarrow> bentry list \<times> 'd" where
  "sdFlushTree n ops blk pos =
     fold (\<lambda>i (es, drv). case flush_entry n ops blk (push_bit 7 pos OR of_nat i) (es ! i, drv) of (e, drv) \<Rightarrow> (es[i := e], drv)) [0..<128]"

definition sdFlush :: "'d SDOps \<Rightarrow> 'd StorageDevice \<Rightarrow> 'd StorageDevice" where
  "sdFlush ops sd =
     (case sdFlushTree 6 ops (sd_blockSize sd) 0 (sd_cacheTop sd, sd_drv sd) of
        (es, drv) \<Rightarrow> sd\<lparr>sd_cacheTop := es, sd_drv := drv\<rparr>)"

section \<open>Eviction\<close>

text \<open>The entry with the lowest usage, the first of them.\<close>

definition lowest :: "bentry list \<Rightarrow> (u8 \<times> nat) option" where
  "lowest es =
     fold (\<lambda>i best. case es ! i of
                      None \<Rightarrow> best
                    | Some (ucnt, _) \<Rightarrow> (case best of None \<Rightarrow> Some (ucnt, i) | Some (l, j) \<Rightarrow> if ucnt < l then Some (ucnt, i) else best))
       [0..<128] None"

text \<open>The \<open>while\<close> of \<open>sdTryFree\<close> above the last level, with the call for the next level as \<open>down\<close>; \<open>None\<close> is out of fuel.\<close>

fun try_loop :: "(u64 \<Rightarrow> bentry list \<times> 'd \<Rightarrow> (bool \<times> bentry list \<times> 'd) option) \<Rightarrow> nat \<Rightarrow> u64 \<Rightarrow> bentry list \<times> 'd \<Rightarrow> (bool \<times> bentry list \<times> 'd) option" where
  "try_loop down 0 addr s = None"
| "try_loop down (Suc fuel) addr (es, drv) =
     (case lowest es of
        None \<Rightarrow> Some (False, es, drv)
      | Some (_, i) \<Rightarrow>
          (case es ! i of
             Some (ucnt, d, Node sub) \<Rightarrow>
               (case down (push_bit 7 addr OR of_nat i) (sub, drv) of
                  None \<Rightarrow> None
                | Some (True, sub, drv) \<Rightarrow> Some (True, es[i := Some (ucnt, d, Node sub)], drv)
                | Some (False, sub, drv) \<Rightarrow> try_loop down fuel addr (es[i := None], drv))
           | _ \<Rightarrow> None))"

text \<open>Whether a frame was found, for a node \<open>n\<close> levels above the last; the frames go to the allocator.\<close>

primrec sdTryFree :: "nat \<Rightarrow> 'd SDOps \<Rightarrow> u64 \<Rightarrow> u64 \<Rightarrow> bentry list \<times> 'd \<Rightarrow> (bool \<times> bentry list \<times> 'd) option" where
  "sdTryFree 0 ops blk addr = (\<lambda>(es, drv).
     (case lowest es of
        None \<Rightarrow> Some (False, es, drv)
      | Some (_, i) \<Rightarrow>
          (case es ! i of
             Some (ucnt, d, Track track) \<Rightarrow>
               Some (True, es[i := None], if d then write_track ops blk (push_bit 7 addr OR of_nat i) track drv else drv)
           | _ \<Rightarrow> None)))"
| "sdTryFree (Suc n) ops blk addr = try_loop (sdTryFree n ops blk) 129 addr"

definition free_track :: "'d SDOps \<Rightarrow> 'd StorageDevice \<Rightarrow> (bool \<times> 'd StorageDevice) option" where
  "free_track ops sd =
     (case sdTryFree 6 ops (sd_blockSize sd) 0 (sd_cacheTop sd, sd_drv sd) of
        None \<Rightarrow> None
      | Some (found, es, drv) \<Rightarrow>
          Some (found, sd\<lparr>sd_cacheTop := es, sd_drv := drv, sd_cachedFrames := sd_cachedFrames sd - (if found then 8 else 0)\<rparr>))"

section \<open>Files of a device\<close>

text \<open>\<open>openParts\<close> when the file of a partition, or of the whole device (-1), is opened and closed.\<close>

definition sdfile_open :: "int \<Rightarrow> u64 \<Rightarrow> int + u64" where
  "sdfile_open partIndex openParts =
     (if partIndex = -1 then (if openParts \<noteq> 0 then Inl EBUSY else Inr SD_MASTER_OPEN)
      else let m = push_bit (nat partIndex) 1 in if has openParts m then Inl EBUSY else Inr (openParts OR m))"

definition sdfile_close :: "int \<Rightarrow> u64 \<Rightarrow> u64" where
  "sdfile_close partIndex openParts = (if partIndex = -1 then 0 else openParts AND NOT (push_bit (nat partIndex) 1))"

text \<open>How much of a read or write at \<open>offset\<close> there is when the file has a size.\<close>

definition part_size :: "u64 \<Rightarrow> u64 \<Rightarrow> u64 \<Rightarrow> u64" where
  "part_size hsize offset n =
     (if hsize \<noteq> 0 then (if offset \<ge> hsize then 0 else if offset + n > hsize then hsize - offset else n) else n)"

definition sdfile_pread :: "'d SDOps \<Rightarrow> bool \<Rightarrow> (u64 \<Rightarrow> bool) \<Rightarrow> u64 \<Rightarrow> u64 \<Rightarrow> u64 \<Rightarrow> u64 \<Rightarrow> 'd StorageDevice \<Rightarrow> (int + u8 list) \<times> 'd StorageDevice" where
  "sdfile_pread ops mk got hoffset hsize n offset sd =
     (if hsize \<noteq> 0 \<and> offset \<ge> hsize then (Inr [], sd) else sdRead ops mk got (hoffset + offset) (part_size hsize offset n) sd)"

definition sdfile_pwrite :: "'d SDOps \<Rightarrow> bool \<Rightarrow> (u64 \<Rightarrow> bool) \<Rightarrow> u64 \<Rightarrow> u64 \<Rightarrow> u8 list \<Rightarrow> u64 \<Rightarrow> 'd StorageDevice \<Rightarrow> (int + u64) \<times> 'd StorageDevice" where
  "sdfile_pwrite ops mk got hoffset hsize buf offset sd =
     (if hsize \<noteq> 0 \<and> offset \<ge> hsize then (Inr 0, sd)
      else sdWrite ops mk got (hoffset + offset) (take (unat (part_size hsize offset (of_nat (length buf)))) buf) sd)"

section \<open>The list of devices\<close>

text \<open>
  The letters in use, the list of devices by the index that the code computes, and of each device its letter, the number of
  its partition files, its references and whether it has hung up. A letter is a character code.
\<close>

record sdreg =
  sdLetters :: u32
  sdList :: "int \<Rightarrow> nat option"
  sg_letter :: "nat \<Rightarrow> int"
  sg_numSubs :: "nat \<Rightarrow> nat"
  sg_refcount :: "nat \<Rightarrow> int"
  sg_hangup :: "nat \<Rightarrow> bool"

definition sdAllocLetter :: "sdreg \<Rightarrow> int \<times> sdreg" where
  "sdAllocLetter g =
     (case List.find (\<lambda>i. \<not> bit (sdLetters g) i) [0..<26] of
        None \<Rightarrow> (0, g)
      | Some i \<Rightarrow> (97 + int i, g\<lparr>sdLetters := sdLetters g OR push_bit i 1\<rparr>))"

definition sdFreeLetter :: "int \<Rightarrow> sdreg \<Rightarrow> sdreg" where
  "sdFreeLetter c g = g\<lparr>sdLetters := sdLetters g AND NOT (push_bit (nat (c - 97)) 1)\<rparr>"

text \<open>The part of \<open>sdCreate\<close> that registers the device at \<open>a\<close>, with a reference for its file and one for its flush thread.\<close>

definition sdCreate :: "nat \<Rightarrow> sdreg \<Rightarrow> nat option \<times> sdreg" where
  "sdCreate a g =
     (case sdAllocLetter g of
        (c, g) \<Rightarrow>
          if c = 0 then (None, g)
          else (Some a, g\<lparr>sg_letter := (sg_letter g)(a := c), sg_numSubs := (sg_numSubs g)(a := 0), sg_refcount := (sg_refcount g)(a := 2),
                         sg_hangup := (sg_hangup g)(a := False), sdList := (sdList g)(c - 97 \<mapsto> a)\<rparr>))"

definition sdHangup :: "nat \<Rightarrow> sdreg \<Rightarrow> sdreg" where
  "sdHangup a g =
     (let numRefs = 1 + sg_numSubs g a;
          g = g\<lparr>sg_numSubs := (sg_numSubs g)(a := 0)\<rparr>;
          g = sdFreeLetter (sg_letter g a) g;
          g = g\<lparr>sg_letter := (sg_letter g)(a := 0)\<rparr>;
          g = g\<lparr>sg_hangup := (sg_hangup g)(a := True)\<rparr>;
          g = g\<lparr>sdList := (sdList g)(sg_letter g a - 97 := None)\<rparr>
      in g\<lparr>sg_refcount := (sg_refcount g)(a := sg_refcount g a - int numRefs)\<rparr>)"

text \<open>The devices that \<open>sdSync\<close> flushes.\<close>

definition sync_devices :: "sdreg \<Rightarrow> nat list" where
  "sync_devices g = List.map_filter (\<lambda>i. sdList g (int i)) [0..<26]"

end
