(* ===== verification/Gx_BlockProps.thy ===== *)
theory Gx_BlockProps
  imports Gx_BlockCache
begin

text \<open>
  The block cache as a map from tracks to their contents: what looking up, storing, flushing and evicting do to it.
\<close>

section \<open>Subscripts\<close>

primrec dig :: "nat \<Rightarrow> nat \<Rightarrow> nat list" where
  "dig 0 T = []"
| "dig (Suc n) T = (T div 128 ^ n) mod 128 # dig n T"

lemma length_dig [simp]: "length (dig n T) = n"
  by (induction n) simp_all

lemma dig_less: "i \<in> set (dig n T) \<Longrightarrow> i < 128"
  by (induction n) auto

lemma mod_128_Suc: "T mod 128 ^ Suc n = (T div 128 ^ n) mod 128 * 128 ^ n + T mod (128 ^ n :: nat)"
  using mod_mult2_eq [of T "128 ^ n" 128] by (simp add: mult.commute)

lemma dig_eq: "dig n T = dig n U \<longleftrightarrow> T mod 128 ^ n = U mod 128 ^ n"
proof (induction n)
  case (Suc n)
  have "T mod 128 ^ Suc n = U mod 128 ^ Suc n \<longleftrightarrow> (T div 128 ^ n) mod 128 = (U div 128 ^ n) mod 128 \<and> T mod 128 ^ n = U mod 128 ^ n"
  proof
    assume a: "T mod 128 ^ Suc n = U mod 128 ^ Suc n"
    have "T mod 128 ^ n = U mod 128 ^ n" using arg_cong [OF a, of "\<lambda>x. x mod 128 ^ n"] by (simp add: mod_mod_cancel)
    then show "(T div 128 ^ n) mod 128 = (U div 128 ^ n) mod 128 \<and> T mod 128 ^ n = U mod 128 ^ n" using a unfolding mod_128_Suc by simp
  qed (simp only: mod_128_Suc)
  then show ?case using Suc by simp
qed simp

lemma dig_map: "dig n T = map (\<lambda>i. T div 128 ^ (n - 1 - i) mod 128) [0..<n]"
proof (induction n)
  case (Suc n)
  have "[0..<Suc n] = 0 # map Suc [0..<n]" by (simp only: upt_conv_Cons map_Suc_upt zero_less_Suc)
  then show ?case using Suc by simp
qed simp

lemma dig_inj: "T < 2 ^ 49 \<Longrightarrow> U < 2 ^ 49 \<Longrightarrow> dig 7 T = dig 7 U \<Longrightarrow> T = U"
  using dig_eq [of 7 T U] by simp

lemma track_path_dig: "track_path pos = dig 7 (unat pos div 2 ^ 15)"
proof -
  have "unat (drop_bit k pos AND 0x7F) = unat pos div 2 ^ k mod 128" for k
  proof -
    have "drop_bit k pos AND 0x7F = take_bit 7 (drop_bit k pos)" by (simp add: take_bit_eq_mask mask_eq_exp_minus_1)
    moreover have "unat (take_bit 7 (drop_bit k pos)) = unat pos div 2 ^ k mod 2 ^ 7"
      by (simp only: unsigned_take_bit_eq unat_drop_bit_eq) (simp only: take_bit_eq_mod drop_bit_eq_div)
    ultimately show ?thesis by simp
  qed
  moreover have "unat pos div 2 ^ (15 + 7 * k) = unat pos div 2 ^ 15 div 128 ^ k" for k
  proof -
    have "(2 :: nat) ^ (15 + 7 * k) = 2 ^ 15 * (2 ^ 7) ^ k" by (simp only: power_add power_mult)
    then show ?thesis by (simp add: div_mult2_eq)
  qed
  ultimately show ?thesis unfolding track_path_def dig_map by (intro map_cong) simp_all
qed

section \<open>What the tree holds\<close>

fun ent_look :: "nat list \<Rightarrow> bentry \<Rightarrow> (bool \<times> u8 list) option" where
  "ent_look [] (Some (ucnt, d, Track track)) = Some (d, track)"
| "ent_look (i # path) (Some (ucnt, d, Node es)) = ent_look path (es ! i)"
| "ent_look path e = None"

fun es_look :: "nat list \<Rightarrow> bentry list \<Rightarrow> (bool \<times> u8 list) option" where
  "es_look [] es = None"
| "es_look (i # path) es = ent_look path (es ! i)"

definition ent_dirty :: "bentry \<Rightarrow> bool" where
  "ent_dirty e \<longleftrightarrow> (case e of None \<Rightarrow> False | Some (ucnt, d, b) \<Rightarrow> d)"

text \<open>The shape of the tree, and that the flag of a node is set when that of an entry in it is.\<close>

primrec ent_wf :: "nat \<Rightarrow> bentry \<Rightarrow> bool" where
  "ent_wf 0 e = (case e of None \<Rightarrow> True | Some (ucnt, d, Track track) \<Rightarrow> length track = 2 ^ 15 | Some (ucnt, d, Node es) \<Rightarrow> False)"
| "ent_wf (Suc n) e =
     (case e of None \<Rightarrow> True
      | Some (ucnt, d, Track track) \<Rightarrow> False
      | Some (ucnt, d, Node es) \<Rightarrow> length es = 128 \<and> (\<forall>e\<in>set es. ent_wf n e \<and> (ent_dirty e \<longrightarrow> d)))"

definition es_wf :: "nat \<Rightarrow> bentry list \<Rightarrow> bool" where
  "es_wf n es \<longleftrightarrow> length es = 128 \<and> (\<forall>e\<in>set es. ent_wf n e)"

lemma ent_wf_None [simp]: "ent_wf n None" and ent_dirty_None [simp]: "\<not> ent_dirty None" and ent_look_None [simp]: "ent_look p None = None"
  and ent_dirty_Some [simp]: "ent_dirty (Some (u, d, b)) = d"
  by (cases n, simp_all add: ent_dirty_def)

lemma ent_look_Cons: "ent_look (i # p) e = (case e of Some (u, d, Node es) \<Rightarrow> ent_look p (es ! i) | _ \<Rightarrow> None)"
  by (auto split: option.splits blocks.splits)

lemma ent_look_Nil: "ent_look [] e = (case e of Some (u, d, Track t) \<Rightarrow> Some (d, t) | _ \<Rightarrow> None)"
  by (auto split: option.splits blocks.splits)

lemma look_dirty: "ent_wf n e \<Longrightarrow> length p = n \<Longrightarrow> (\<forall>i\<in>set p. i < 128) \<Longrightarrow> ent_look p e = Some (True, t) \<Longrightarrow> ent_dirty e"
proof (induction n arbitrary: e p)
  case 0
  then show ?case by (auto simp: ent_look_Nil split: option.splits blocks.splits)
next
  case (Suc n)
  then obtain i q where p: "p = i # q" "length q = n" by (cases p) auto
  obtain u d es where e: "e = Some (u, d, Node es)" "ent_look q (es ! i) = Some (True, t)"
    using Suc.prems(4) unfolding p(1) ent_look_Cons by (auto split: option.splits blocks.splits)
  have i: "es ! i \<in> set es" using Suc.prems(1,3) e(1) p(1) by simp
  then have "ent_wf n (es ! i)" "ent_dirty (es ! i) \<longrightarrow> d" using Suc.prems(1) e(1) by auto
  then show ?case using Suc.IH [OF _ p(2) _ e(2)] Suc.prems(3) p(1) e(1) by simp
qed

section \<open>Looking up\<close>

lemma get_entry_spec:
  assumes "get_entry mk dirty load p e = (r, added, e')" "ent_wf (length p) e" "\<forall>i\<in>set p. i < 128" "\<And>t. load = Inr t \<Longrightarrow> length t = 2 ^ 15"
  shows "ent_wf (length p) e' \<and> (ent_dirty e' \<longrightarrow> ent_dirty e \<or> dirty) \<and> (ent_dirty e \<longrightarrow> ent_dirty e') \<and>
    (case r of Inr t \<Rightarrow> (case ent_look p e of None \<Rightarrow> added \<and> load = Inr t \<and> ent_look p e' = Some (dirty, t)
                                      | Some (d, t') \<Rightarrow> \<not> added \<and> t = t' \<and> ent_look p e' = Some (d \<or> dirty, t))
             | Inl err \<Rightarrow> \<not> added \<and> ent_look p e = None \<and> ent_look p e' = None \<and> (if mk then load = Inl err else err = EAGAIN)) \<and>
    (\<forall>q. length q = length p \<longrightarrow> q \<noteq> p \<longrightarrow> (\<forall>i\<in>set q. i < 128) \<longrightarrow> ent_look q e' = ent_look q e)"
  using assms
proof (induction p arbitrary: e r added e')
  case Nil
  then show ?case by (auto split: option.splits blocks.splits sum.splits if_splits)
next
  case (Cons i p)
  have i: "i < 128" "\<forall>i\<in>set p. i < 128" using Cons.prems(3) by simp_all
  show ?case
  proof (cases e)
    case None
    show ?thesis
    proof (cases mk)
      case False
      then show ?thesis using Cons.prems(1) None by auto
    next
      case True
      obtain r2 a2 f where g: "get_entry mk dirty load p None = (r2, a2, f)" by (cases "get_entry mk dirty load p None")
      have r: "r = r2" "added = a2" "e' = Some (1, dirty, Node ((replicate 128 None)[i := f]))" using Cons.prems(1) None True g by auto
      note h = Cons.IH [OF g ent_wf_None i(2) Cons.prems(4), simplified]
      have n: "(replicate 128 None)[i := f] ! j = (if j = i then f else None)" if "j < 128" for j using that by simp
      have s: "set ((replicate 128 None)[i := f]) \<subseteq> {f, None}" by (intro set_update_subsetI) auto
      have w: "ent_wf (length (i # p)) e'" unfolding r(3) using h s by auto
      have l: "ent_look (j # q) e' = (if j = i then ent_look q f else None)" if "j < 128" for j q unfolding r(3) using n [OF that] by simp
      have "ent_look q e' = ent_look q e" if "length q = length (i # p)" "q \<noteq> i # p" "\<forall>i\<in>set q. i < 128" for q
        using that h None by (cases q) (auto simp: l)
      then show ?thesis using w h None r i(1) True by (auto simp: l split: sum.splits)
    qed
  next
    case (Some t)
    then obtain u d b where e: "e = Some (u, d, b)" by (cases t) auto
    then obtain es where b: "b = Node es" "length es = 128" "\<forall>e\<in>set es. ent_wf (length p) e \<and> (ent_dirty e \<longrightarrow> d)"
      using Cons.prems(2) by (cases b) auto
    obtain r2 a2 f where g: "get_entry mk dirty load p (es ! i) = (r2, a2, f)" by (cases "get_entry mk dirty load p (es ! i)")
    have r: "r = r2" "added = a2" "e' = Some (if u \<noteq> 255 then u + 1 else u, d \<or> dirty, Node (es[i := f]))"
      using Cons.prems(1) e b g by auto
    have wi: "ent_wf (length p) (es ! i)" using b i(1) by simp
    note h = Cons.IH [OF g wi i(2) Cons.prems(4)]
    have fd: "ent_dirty f \<longrightarrow> d \<or> dirty" using h b i(1) by (metis nth_mem)
    have n: "es[i := f] ! j = (if j = i then f else es ! j)" for j using b(2) i(1) by simp
    have "\<forall>e\<in>set (es[i := f]). ent_wf (length p) e \<and> (ent_dirty e \<longrightarrow> d \<or> dirty)"
      using b h fd set_update_subset_insert [of es i f] by auto
    then have w: "ent_wf (length (i # p)) e'" unfolding r(3) using b(2) by simp
    have l: "ent_look (j # q) e' = (if j = i then ent_look q f else ent_look q (es ! j))" for j q unfolding r(3) using n by simp
    have "ent_look q e' = ent_look q e" if "length q = length (i # p)" "q \<noteq> i # p" "\<forall>i\<in>set q. i < 128" for q
      using that h e b(1) by (cases q) (auto simp: l)
    moreover have "ent_look (i # p) e = ent_look p (es ! i)" "ent_look (i # p) e' = ent_look p f" "ent_dirty e = d" "ent_dirty e' = (d \<or> dirty)"
      using e b(1) l by (simp_all add: r(3))
    ultimately show ?thesis using w h unfolding r(1,2) by (simp split: sum.splits option.splits prod.splits)
  qed
qed

lemma put_entry_spec:
  assumes "ent_wf (length p) e" "\<forall>i\<in>set p. i < 128" "ent_look p e = Some (d, t)" "length bs = 2 ^ 15"
  shows "ent_wf (length p) (put_entry bs p e) \<and> ent_dirty (put_entry bs p e) = ent_dirty e \<and> ent_look p (put_entry bs p e) = Some (d, bs) \<and>
    (\<forall>q. length q = length p \<longrightarrow> q \<noteq> p \<longrightarrow> ent_look q (put_entry bs p e) = ent_look q e)"
  using assms
proof (induction p arbitrary: e)
  case Nil
  then show ?case by (auto split: option.splits blocks.splits)
next
  case (Cons i p)
  have i: "i < 128" "\<forall>i\<in>set p. i < 128" using Cons.prems(2) by simp_all
  obtain u c es where e: "e = Some (u, c, Node es)" "ent_look p (es ! i) = Some (d, t)"
    using Cons.prems(3) unfolding ent_look_Cons by (auto split: option.splits blocks.splits)
  have es: "length es = 128" "\<forall>e\<in>set es. ent_wf (length p) e \<and> (ent_dirty e \<longrightarrow> c)" using Cons.prems(1) e(1) by simp_all
  then have wi: "ent_wf (length p) (es ! i)" "es ! i \<in> set es" using i(1) by simp_all
  note h = Cons.IH [OF wi(1) i(2) e(2) Cons.prems(4)]
  have n: "es[i := put_entry bs p (es ! i)] ! j = (if j = i then put_entry bs p (es ! i) else es ! j)" for j using es(1) i(1) by simp
  have "\<forall>x\<in>set (es[i := put_entry bs p (es ! i)]). ent_wf (length p) x \<and> (ent_dirty x \<longrightarrow> c)"
    using es h wi(2) set_update_subset_insert [of es i "put_entry bs p (es ! i)"] by auto
  moreover have "ent_look q (put_entry bs (i # p) e) = ent_look q e" if "length q = length (i # p)" "q \<noteq> i # p" for q
    using that h e(1) n by (cases q) auto
  ultimately show ?case using e h n es(1) by simp
qed

section \<open>The device\<close>

text \<open>
  What the driver's functions are documented to do, with \<open>data\<close> the bytes on the medium: they return zero on success and an error
  number otherwise (\<open>storage.h\<close>). A read that succeeds returns the bytes of the blocks, a write that succeeds stores them, and of those
  that fail nothing is said. Tracks are made of whole blocks.
\<close>

definition drive_doc :: "'d SDOps \<Rightarrow> u64 \<Rightarrow> ('d \<Rightarrow> nat \<Rightarrow> u8) \<Rightarrow> bool" where
  "drive_doc ops blk data \<longleftrightarrow> blk \<noteq> 0 \<and> unat blk dvd 2 ^ 15 \<and>
     (\<forall>d s n t. readBlocks ops d s n = (0, t) \<longrightarrow> length t = unat n * unat blk \<and> (\<forall>j<length t. t ! j = data d (unat s * unat blk + j))) \<and>
     (\<forall>d s n t d' x. writeBlocks ops d s n t = (0, d') \<longrightarrow> length t = unat n * unat blk \<longrightarrow>
        data d' x = (if unat s * unat blk \<le> x \<and> x < unat s * unat blk + length t then t ! (x - unat s * unat blk) else data d x))"

text \<open>The further condition that no write fails. The code does not look at the status of a write, so that its cache is right only then.\<close>

definition drive_writes :: "'d SDOps \<Rightarrow> bool" where
  "drive_writes ops \<longleftrightarrow> (\<forall>d s n t. fst (writeBlocks ops d s n t) = 0)"

definition drive_ok :: "'d SDOps \<Rightarrow> u64 \<Rightarrow> ('d \<Rightarrow> nat \<Rightarrow> u8) \<Rightarrow> bool" where
  "drive_ok ops blk data \<longleftrightarrow> drive_doc ops blk data \<and> drive_writes ops"

lemma drive_okD:
  assumes "drive_ok ops blk data"
  shows "blk \<noteq> 0" "unat blk dvd 2 ^ 15"
    "readBlocks ops d s n = (0, t) \<Longrightarrow> length t = unat n * unat blk \<and> (\<forall>j<length t. t ! j = data d (unat s * unat blk + j))"
    "length t = unat n * unat blk \<Longrightarrow> data (snd (writeBlocks ops d s n t)) x =
       (if unat s * unat blk \<le> x \<and> x < unat s * unat blk + length t then t ! (x - unat s * unat blk) else data d x)"
proof -
  have doc: "drive_doc ops blk data" "drive_writes ops" using assms by (simp_all add: drive_ok_def)
  show "blk \<noteq> 0" "unat blk dvd 2 ^ 15" using doc(1) by (simp_all add: drive_doc_def)
  show "readBlocks ops d s n = (0, t) \<Longrightarrow> length t = unat n * unat blk \<and> (\<forall>j<length t. t ! j = data d (unat s * unat blk + j))"
    using doc(1) unfolding drive_doc_def by blast
  assume l: "length t = unat n * unat blk"
  have "writeBlocks ops d s n t = (0, snd (writeBlocks ops d s n t))" using doc(2) by (simp add: drive_writes_def prod_eq_iff)
  then show "data (snd (writeBlocks ops d s n t)) x =
      (if unat s * unat blk \<le> x \<and> x < unat s * unat blk + length t then t ! (x - unat s * unat blk) else data d x)"
    using doc(1) l unfolding drive_doc_def by blast
qed

text \<open>What becomes of a dirty track whose write fails: it counts as clean after a flush, and an eviction drops it.\<close>

lemma flush_write_fails:
  assumes "writeBlocks ops drv (push_bit 15 pos div blk) (SD_TRACK_SIZE div blk) track = (err, drv)" "err \<noteq> 0"
  shows "flush_entry 0 ops blk pos (Some (ucnt, True, Track track), drv) = (Some (ucnt, False, Track track), drv)"
  using assms(1) by (simp add: write_track_def)

lemma evict_write_fails:
  assumes "writeBlocks ops drv (push_bit 15 (push_bit 7 addr OR of_nat i) div blk) (SD_TRACK_SIZE div blk) track = (err, drv)" "err \<noteq> 0"
    and "lowest es = Some (ucnt, i)" "es ! i = Some (ucnt, True, Track track)"
  shows "sdTryFree 0 ops blk addr (es, drv) = Some (True, es[i := None], drv)"
  using assms by (simp add: write_track_def)

definition cache_look :: "'d StorageDevice \<Rightarrow> nat \<Rightarrow> (bool \<times> u8 list) option" where
  "cache_look sd T = es_look (dig 7 T) (sd_cacheTop sd)"

text \<open>The bytes of the device: those of the cached track, or else of the medium.\<close>

definition dev_byte :: "('d \<Rightarrow> nat \<Rightarrow> u8) \<Rightarrow> 'd StorageDevice \<Rightarrow> nat \<Rightarrow> u8" where
  "dev_byte data sd x = (case cache_look sd (x div 2 ^ 15) of Some (d, t) \<Rightarrow> t ! (x mod 2 ^ 15) | None \<Rightarrow> data (sd_drv sd) x)"

definition bc_inv :: "('d \<Rightarrow> nat \<Rightarrow> u8) \<Rightarrow> 'd StorageDevice \<Rightarrow> bool" where
  "bc_inv data sd \<longleftrightarrow> es_wf 6 (sd_cacheTop sd) \<and>
     (\<forall>T<2 ^ 49. \<forall>t. cache_look sd T = Some (False, t) \<longrightarrow> (\<forall>j<2 ^ 15. t ! j = data (sd_drv sd) (T * 2 ^ 15 + j))) \<and>
     sd_cachedFrames sd = 8 * int (card {T. T < 2 ^ 49 \<and> cache_look sd T \<noteq> None})"

lemma unat_and_not_15: "unat (pos AND NOT (0x7FFF :: u64)) = unat pos div 2 ^ 15 * 2 ^ 15"
proof -
  have "pos AND NOT 0x7FFF = pos - (pos AND 0x7FFF)"
  proof -
    have "(pos AND 0x7FFF) + (pos AND NOT 0x7FFF) = (pos AND 0x7FFF) OR (pos AND NOT 0x7FFF)"
      by (rule disjunctive_add_eq_or) (simp add: bit_eq_iff bit_simps)
    moreover have "(pos AND 0x7FFF) OR (pos AND NOT 0x7FFF) = pos" by (simp only: bit.conj_disj_distrib [symmetric] bit.disj_cancel_right bit.conj_one_right)
    ultimately show ?thesis by (metis add_diff_cancel_left')
  qed
  moreover have "pos AND 0x7FFF \<le> pos" by (rule word_and_le2)
  ultimately have "unat (pos AND NOT 0x7FFF) = unat pos - unat pos mod 2 ^ 15"
    by (metis unat_sub unat_low_15)
  then show ?thesis by (metis minus_mod_eq_div_mult)
qed

lemma blocks_of_track:
  assumes "blk \<noteq> 0" "unat blk dvd 2 ^ 15"
  shows "unat (SD_TRACK_SIZE div blk) * unat blk = 2 ^ 15" "unat w = T * 2 ^ 15 \<Longrightarrow> unat (w div blk) * unat blk = T * 2 ^ 15"
  using assms by (simp_all add: unat_div_distrib)

lemma read_track_spec:
  assumes "drive_ok ops (sd_blockSize sd) data" "read_track ops pos sd = (0, t)"
  shows "length t = 2 ^ 15 \<and> (\<forall>j<2 ^ 15. t ! j = data (sd_drv sd) (unat pos div 2 ^ 15 * 2 ^ 15 + j))"
proof -
  have b: "sd_blockSize sd \<noteq> 0" "unat (sd_blockSize sd) dvd 2 ^ 15" using drive_okD [OF assms(1)] by simp_all
  note bt = blocks_of_track [OF b]
  have "length t = unat (SD_TRACK_SIZE div sd_blockSize sd) * unat (sd_blockSize sd) \<and>
     (\<forall>j<length t. t ! j = data (sd_drv sd) (unat ((pos AND NOT 0x7FFF) div sd_blockSize sd) * unat (sd_blockSize sd) + j))"
    using drive_okD(3) [OF assms(1)] assms(2) unfolding read_track_def by blast
  then show ?thesis unfolding bt(1) bt(2) [OF unat_and_not_15] by simp
qed

lemma write_track_spec:
  assumes "drive_ok ops blk data" "T < 2 ^ 49" "length t = 2 ^ 15"
  shows "data (write_track ops blk (of_nat T) t drv) x = (if x div 2 ^ 15 = T then t ! (x mod 2 ^ 15) else data drv x)"
proof -
  have b: "blk \<noteq> 0" "unat blk dvd 2 ^ 15" using drive_okD [OF assms(1)] by simp_all
  note bt = blocks_of_track [OF b]
  have u: "unat (push_bit 15 (of_nat T :: u64)) = T * 2 ^ 15"
  proof -
    have "push_bit 15 (of_nat T :: u64) = of_nat (T * 2 ^ 15)" unfolding push_bit_eq_mult by simp
    then show ?thesis using assms(2) by (simp only: unat_of_nat) simp
  qed
  have l: "length t = unat (SD_TRACK_SIZE div blk) * unat blk" using assms(3) bt(1) by simp
  have "data (write_track ops blk (of_nat T) t drv) x =
     (if unat (push_bit 15 (of_nat T :: u64) div blk) * unat blk \<le> x \<and> x < unat (push_bit 15 (of_nat T :: u64) div blk) * unat blk + length t
      then t ! (x - unat (push_bit 15 (of_nat T :: u64) div blk) * unat blk) else data drv x)"
    unfolding write_track_def by (rule drive_okD(4) [OF assms(1) l])
  also have "\<dots> = (if T * 2 ^ 15 \<le> x \<and> x < T * 2 ^ 15 + 2 ^ 15 then t ! (x - T * 2 ^ 15) else data drv x)"
    unfolding bt(2) [OF u] assms(3) ..
  also have "\<dots> = (if x div 2 ^ 15 = T then t ! (x mod 2 ^ 15) else data drv x)"
  proof -
    have "(T * 2 ^ 15 \<le> x \<and> x < T * 2 ^ 15 + 2 ^ 15) \<longleftrightarrow> x div 2 ^ 15 = T" by auto
    moreover have "x - T * 2 ^ 15 = x mod 2 ^ 15" if "x div 2 ^ 15 = T" using that by (metis minus_div_mult_eq_mod)
    ultimately show ?thesis by simp
  qed
  finally show ?thesis .
qed

lemma dig_7_Cons: "dig 7 T = T div 128 ^ 6 mod 128 # dig 6 T"
  using dig.simps(2) [of 6 T] by simp

lemma cache_look_entry: "cache_look sd T = ent_look (dig 6 T) (sd_cacheTop sd ! (T div 128 ^ 6 mod 128))"
  by (simp add: cache_look_def dig_7_Cons)

lemma es_wf_upd: "es_wf n es \<Longrightarrow> ent_wf n e \<Longrightarrow> es_wf n (es[i := e])"
  using set_update_subset_insert [of es i e] by (auto simp: es_wf_def)

lemma es_wf_nth: "es_wf n es \<Longrightarrow> i < 128 \<Longrightarrow> ent_wf n (es ! i)"
  by (simp add: es_wf_def)

text \<open>An entry of the top node that is replaced for the track \<open>T\<close>.\<close>

lemma cache_look_upd:
  assumes "es_wf 6 (sd_cacheTop sd)" "T < 2 ^ 49" "U < 2 ^ 49" "sd_cacheTop sd' = (sd_cacheTop sd)[T div 128 ^ 6 mod 128 := e]"
    "\<forall>q. length q = 6 \<longrightarrow> q \<noteq> dig 6 T \<longrightarrow> (\<forall>i\<in>set q. i < 128) \<longrightarrow> ent_look q e = ent_look q (sd_cacheTop sd ! (T div 128 ^ 6 mod 128))"
  shows "cache_look sd' U = (if U = T then ent_look (dig 6 T) e else cache_look sd U)"
proof -
  have l: "length (sd_cacheTop sd) = 128" using assms(1) by (simp add: es_wf_def)
  show ?thesis
  proof (cases "U = T")
    case True
    then show ?thesis using l by (simp add: cache_look_entry assms(4))
  next
    case False
    then have "dig 7 U \<noteq> dig 7 T" using dig_inj assms(2,3) by blast
    then have "U div 128 ^ 6 mod 128 \<noteq> T div 128 ^ 6 mod 128 \<or> dig 6 U \<noteq> dig 6 T" unfolding dig_7_Cons by simp
    moreover have "\<forall>i\<in>set (dig 6 U). i < 128" using dig_less by blast
    ultimately show ?thesis using False l assms(5) by (auto simp: cache_look_entry assms(4) nth_list_update)
  qed
qed

lemma unat_track: "unat (pos :: u64) div 2 ^ 15 < 2 ^ 49"
proof -
  have "unat pos < 2 ^ 64" using unsigned_less [of pos] by simp
  then show ?thesis by (simp add: div_less_iff_less_mult)
qed

lemma sdGetCache_spec:
  assumes wf: "es_wf 6 (sd_cacheTop sd)" and T: "T = unat pos div 2 ^ 15" and g: "sdGetCache ops got sd pos mk dirty = (r, sd')"
    and l: "\<And>t. load_track ops got pos sd = Inr t \<Longrightarrow> length t = 2 ^ 15"
  shows "es_wf 6 (sd_cacheTop sd') \<and> sd_drv sd' = sd_drv sd \<and> sd_blockSize sd' = sd_blockSize sd \<and> sd_flags sd' = sd_flags sd \<and>
    (\<forall>U<2 ^ 49. U \<noteq> T \<longrightarrow> cache_look sd' U = cache_look sd U) \<and>
    (case r of
       Inr t \<Rightarrow> (case cache_look sd T of
                   None \<Rightarrow> load_track ops got pos sd = Inr t \<and> cache_look sd' T = Some (dirty, t) \<and> sd_cachedFrames sd' = sd_cachedFrames sd + 8
                 | Some (d, t') \<Rightarrow> t = t' \<and> cache_look sd' T = Some (d \<or> dirty, t) \<and> sd_cachedFrames sd' = sd_cachedFrames sd)
     | Inl err \<Rightarrow> cache_look sd T = None \<and> cache_look sd' T = None \<and> sd_cachedFrames sd' = sd_cachedFrames sd \<and>
                  (if mk then load_track ops got pos sd = Inl err else err = EAGAIN))"
proof -
  let ?i = "T div 128 ^ 6 mod 128"
  obtain added e where ge: "get_entry mk dirty (load_track ops got pos sd) (dig 6 T) (sd_cacheTop sd ! ?i) = (r, added, e)"
    and sd': "sd' = sd\<lparr>sd_cacheTop := (sd_cacheTop sd)[?i := e], sd_cachedFrames := sd_cachedFrames sd + (if added then 8 else 0)\<rparr>"
    using g unfolding sdGetCache_def track_path_dig T [symmetric] dig_7_Cons by (auto split: prod.splits)
  have w: "ent_wf (length (dig 6 T)) (sd_cacheTop sd ! ?i)" using es_wf_nth [OF wf, of ?i] by simp
  have d: "\<forall>i\<in>set (dig 6 T). i < 128" using dig_less by blast
  note s = get_entry_spec [OF ge w d l]
  have T49: "T < 2 ^ 49" unfolding T by (rule unat_track)
  have top: "sd_cacheTop sd' = (sd_cacheTop sd)[?i := e]" by (simp add: sd')
  have look: "cache_look sd' U = (if U = T then ent_look (dig 6 T) e else cache_look sd U)" if "U < 2 ^ 49" for U
    by (rule cache_look_upd [OF wf T49 that top]) (use s in simp)
  have "es_wf 6 (sd_cacheTop sd')" unfolding top using es_wf_upd [OF wf] s by simp
  then show ?thesis using s look T49 cache_look_entry [of sd T] by (simp add: sd' split: sum.splits option.splits prod.splits)
qed

end
