(* ===== verification/Gx_BlockIO.thy ===== *)
theory Gx_BlockIO
  imports Gx_BlockProps
begin

text \<open>
  Reads and writes through the block cache: one turn of \<open>sdRead\<close> returns the bytes of the device and changes none, one turn of
  \<open>sdWrite\<close> changes those it was given, when it stores them.
\<close>

section \<open>Reads and writes\<close>

lemma look_length: "ent_wf n e \<Longrightarrow> length p = n \<Longrightarrow> (\<forall>i\<in>set p. i < 128) \<Longrightarrow> ent_look p e = Some (d, t) \<Longrightarrow> length t = 2 ^ 15"
proof (induction n arbitrary: e p)
  case 0
  then show ?case by (auto simp: ent_look_Nil split: option.splits blocks.splits)
next
  case (Suc n)
  then obtain i q where p: "p = i # q" "length q = n" by (cases p) auto
  obtain u c es where e: "e = Some (u, c, Node es)" "ent_look q (es ! i) = Some (d, t)"
    using Suc.prems(4) unfolding p(1) ent_look_Cons by (auto split: option.splits blocks.splits)
  then have "ent_wf n (es ! i)" using Suc.prems(1,3) p(1) by simp
  then show ?case using Suc.IH [OF _ p(2) _ e(2)] Suc.prems(3) p(1) by simp
qed

lemma cache_look_length: "es_wf 6 (sd_cacheTop sd) \<Longrightarrow> cache_look sd T = Some (d, t) \<Longrightarrow> length t = 2 ^ 15"
  unfolding cache_look_entry using look_length [OF es_wf_nth, of 6 "sd_cacheTop sd" "T div 128 ^ 6 mod 128" "dig 6 T"] dig_less by fastforce

lemma finite_tracks [simp]: "finite {T :: nat. T < 2 ^ 49 \<and> P T}"
  by (rule finite_subset [of _ "{..<2 ^ 49}"]) auto

lemma load_track_length:
  assumes "drive_ok ops (sd_blockSize sd) data" "load_track ops got pos sd = Inr t"
  shows "length t = 2 ^ 15 \<and> (\<forall>j<2 ^ 15. t ! j = data (sd_drv sd) (unat pos div 2 ^ 15 * 2 ^ 15 + j))"
proof -
  have "read_track ops pos sd = (0, t)" using assms(2) by (auto simp: load_track_def split: if_splits prod.splits)
  then show ?thesis using read_track_spec [OF assms(1)] by blast
qed

lemma get_keeps:
  assumes ok: "drive_ok ops (sd_blockSize sd) data" and inv: "bc_inv data sd" and T: "T = unat pos div 2 ^ 15"
    and g: "sdGetCache ops got sd pos mk dirty = (r, sd')"
  shows "bc_inv data sd' \<and> sd_blockSize sd' = sd_blockSize sd \<and> sd_drv sd' = sd_drv sd \<and> (\<forall>x<2 ^ 64. dev_byte data sd' x = dev_byte data sd x) \<and>
    (case r of Inr t \<Rightarrow> length t = 2 ^ 15 \<and> (\<forall>j<2 ^ 15. t ! j = dev_byte data sd (T * 2 ^ 15 + j)) \<and>
                        (\<exists>d. cache_look sd' T = Some (d, t) \<and> (dirty \<longrightarrow> d))
             | Inl err \<Rightarrow> cache_look sd T = None \<and> (if mk then load_track ops got pos sd = Inl err else err = EAGAIN))"
proof -
  have wf: "es_wf 6 (sd_cacheTop sd)"
    and cl: "\<forall>T<2 ^ 49. \<forall>t. cache_look sd T = Some (False, t) \<longrightarrow> (\<forall>j<2 ^ 15. t ! j = data (sd_drv sd) (T * 2 ^ 15 + j))"
    and cnt: "sd_cachedFrames sd = 8 * int (card {T. T < 2 ^ 49 \<and> cache_look sd T \<noteq> None})"
    using inv by (simp_all add: bc_inv_def)
  note load = load_track_length [OF ok]
  note s = sdGetCache_spec [OF wf T g conjunct1 [OF load]]
  have T49: "T < 2 ^ 49" unfolding T by (rule unat_track)
  have drv: "sd_drv sd' = sd_drv sd" "sd_blockSize sd' = sd_blockSize sd" and oth: "\<And>U. U < 2 ^ 49 \<Longrightarrow> U \<noteq> T \<Longrightarrow> cache_look sd' U = cache_look sd U"
    using s by simp_all
  have bytes: "data (sd_drv sd) (T * 2 ^ 15 + j) = t ! j" if "load_track ops got pos sd = Inr t" "j < 2 ^ 15" for t j
    using load [OF that(1)] that(2) unfolding T by simp
  have TD: "(T * 2 ^ 15 + j) div 2 ^ 15 = T" "(T * 2 ^ 15 + j) mod 2 ^ 15 = j" if "j < 2 ^ 15" for j using that by simp_all
  show ?thesis
  proof (cases r)
    case (Inl err)
    then have n: "cache_look sd T = None" "cache_look sd' T = None" "sd_cachedFrames sd' = sd_cachedFrames sd"
      "if mk then load_track ops got pos sd = Inl err else err = EAGAIN" using s by simp_all
    then have look: "cache_look sd' U = cache_look sd U" if "U < 2 ^ 49" for U using oth [OF that] by (cases "U = T") simp_all
    have "{T. T < 2 ^ 49 \<and> cache_look sd' T \<noteq> None} = {T. T < 2 ^ 49 \<and> cache_look sd T \<noteq> None}" using look by auto
    then have "bc_inv data sd'" using s cl cnt n(3) look drv unfolding bc_inv_def by simp
    moreover have "dev_byte data sd' x = dev_byte data sd x" if "x < 2 ^ 64" for x
      using look [of "x div 2 ^ 15"] that by (simp add: dev_byte_def drv split: option.split)
    ultimately show ?thesis using n drv Inl by simp
  next
    case (Inr t)
    obtain d where d: "cache_look sd' T = Some (d, t)" "dirty \<longrightarrow> d" "d = False \<longrightarrow> (\<forall>j<2 ^ 15. t ! j = data (sd_drv sd) (T * 2 ^ 15 + j))"
      "\<forall>j<2 ^ 15. t ! j = dev_byte data sd (T * 2 ^ 15 + j)" "length t = 2 ^ 15"
      "sd_cachedFrames sd' = sd_cachedFrames sd + (if cache_look sd T = None then 8 else 0)"
    proof (cases "cache_look sd T")
      case None
      have l: "load_track ops got pos sd = Inr t" "cache_look sd' T = Some (dirty, t)" "sd_cachedFrames sd' = sd_cachedFrames sd + 8"
        using s Inr None by simp_all
      show thesis by (rule that [of dirty]) (use l None load [OF l(1)] bytes [OF l(1)] TD in \<open>simp_all add: dev_byte_def\<close>)
    next
      case (Some p)
      obtain c t' where p: "cache_look sd T = Some (c, t')" using Some by (cases p) auto
      have l: "t = t'" "cache_look sd' T = Some (c \<or> dirty, t)" "sd_cachedFrames sd' = sd_cachedFrames sd" using s Inr p by simp_all
      have "c = False \<longrightarrow> (\<forall>j<2 ^ 15. t ! j = data (sd_drv sd) (T * 2 ^ 15 + j))" using cl T49 p l(1) by simp
      then show thesis
        by (intro that [of "c \<or> dirty"]) (use l p TD cache_look_length [OF wf p] in \<open>simp_all add: dev_byte_def\<close>)
    qed
    have "{T. T < 2 ^ 49 \<and> cache_look sd' T \<noteq> None} = insert T {T. T < 2 ^ 49 \<and> cache_look sd T \<noteq> None}"
    proof (rule set_eqI)
      show "U \<in> {T. T < 2 ^ 49 \<and> cache_look sd' T \<noteq> None} \<longleftrightarrow> U \<in> insert T {T. T < 2 ^ 49 \<and> cache_look sd T \<noteq> None}" for U
        using oth [of U] d(1) T49 by (cases "U = T"; cases "U < 2 ^ 49") simp_all
    qed
    then have cnt': "sd_cachedFrames sd' = 8 * int (card {T. T < 2 ^ 49 \<and> cache_look sd' T \<noteq> None})"
      using cnt d(6) T49 by (simp add: card_insert_if)
    have cl': "\<forall>U<2 ^ 49. \<forall>t. cache_look sd' U = Some (False, t) \<longrightarrow> (\<forall>j<2 ^ 15. t ! j = data (sd_drv sd') (U * 2 ^ 15 + j))"
    proof (intro allI impI)
      fix U u j assume a: "U < 2 ^ 49" "cache_look sd' U = Some (False, u)" "j < (2 ^ 15 :: nat)"
      show "u ! j = data (sd_drv sd') (U * 2 ^ 15 + j)"
        using a d(1,3) cl oth [OF a(1)] unfolding drv by (cases "U = T") auto
    qed
    have "dev_byte data sd' x = dev_byte data sd x" if "x < 2 ^ 64" for x
    proof (cases "x div 2 ^ 15 = T")
      case True
      have "dev_byte data sd (T * 2 ^ 15 + x mod 2 ^ 15) = t ! (x mod 2 ^ 15)" using d(4) by simp
      moreover have "T * 2 ^ 15 + x mod 2 ^ 15 = x" using True by (metis div_mult_mod_eq)
      ultimately have "dev_byte data sd x = t ! (x mod 2 ^ 15)" by metis
      moreover have "dev_byte data sd' x = t ! (x mod 2 ^ 15)" using True d(1) by (simp add: dev_byte_def)
      ultimately show ?thesis by simp
    next
      case False
      have "x div 2 ^ 15 < 2 ^ 49" using that by simp
      then show ?thesis using oth [OF _ False] by (simp add: dev_byte_def drv split: option.split)
    qed
    then show ?thesis using s cl' cnt' d drv Inr unfolding bc_inv_def by auto
  qed
qed

lemma track_div: "T * 2 ^ 15 \<le> x \<and> x < T * 2 ^ 15 + 2 ^ 15 \<longleftrightarrow> x div 2 ^ 15 = (T :: nat)"
  by auto

text \<open>Where a piece of a track ends.\<close>

lemma piece:
  assumes "n \<noteq> 0"
  shows "unat (chunk_size pos n) + unat (pos AND (SD_TRACK_SIZE - 1)) \<le> 2 ^ 15" "0 < unat (chunk_size pos n)" "unat (chunk_size pos n) \<le> unat n"
    "j < unat (chunk_size pos n) \<Longrightarrow> (unat pos + j) div 2 ^ 15 = unat pos div 2 ^ 15 \<and> (unat pos + j) mod 2 ^ 15 = unat pos mod 2 ^ 15 + j"
proof -
  have c: "unat (chunk_size pos n) = min (2 ^ 15 - unat pos mod 2 ^ 15) (unat n)" "unat (pos AND 0x7FFF) = unat pos mod 2 ^ 15"
    by (rule unat_chunk, rule unat_low_15)
  have m: "unat pos mod 2 ^ 15 < 2 ^ 15" by simp
  show "unat (chunk_size pos n) + unat (pos AND (SD_TRACK_SIZE - 1)) \<le> 2 ^ 15" using c m by simp
  show "0 < unat (chunk_size pos n)" "unat (chunk_size pos n) \<le> unat n" using c m assms by (simp_all add: unat_gt_0)
  show "(unat pos + j) div 2 ^ 15 = unat pos div 2 ^ 15 \<and> (unat pos + j) mod 2 ^ 15 = unat pos mod 2 ^ 15 + j" if "j < unat (chunk_size pos n)"
  proof -
    have "j < 2 ^ 15 - unat pos mod 2 ^ 15" using that c(1) by simp
    then have j: "unat pos mod 2 ^ 15 + j < 2 ^ 15" by (simp only: less_diff_conv add.commute)
    have e: "unat pos + j = unat pos div 2 ^ 15 * 2 ^ 15 + (unat pos mod 2 ^ 15 + j)" by (metis add.assoc div_mult_mod_eq)
    have "(q * 2 ^ 15 + i) div 2 ^ 15 = q \<and> (q * 2 ^ 15 + i) mod 2 ^ 15 = i" if "i < 2 ^ 15" for q i :: nat using that by simp
    then show ?thesis using j unfolding e by blast
  qed
qed

lemma read_turn_spec:
  assumes ok: "drive_ok ops (sd_blockSize sd) data" and inv: "bc_inv data sd" and n: "n \<noteq> 0"
    and r: "read_turn ops mk got pos n sd = (r, sd')"
  shows "bc_inv data sd' \<and> sd_blockSize sd' = sd_blockSize sd \<and> (\<forall>x<2 ^ 64. dev_byte data sd' x = dev_byte data sd x) \<and>
    (case r of Inr bs \<Rightarrow> bs = map (\<lambda>j. dev_byte data sd (unat pos + j)) [0..<unat (chunk_size pos n)]
             | Inl err \<Rightarrow> fst (read_track ops pos sd) \<noteq> 0)"
proof -
  let ?T = "unat pos div 2 ^ 15"
  obtain g sd1 where g: "sdGetCache ops got sd pos mk False = (g, sd1)" by (cases "sdGetCache ops got sd pos mk False")
  note s = get_keeps [OF ok inv refl g]
  have sd': "sd' = sd1" using r g by (auto simp: read_turn_def Let_def split: sum.splits if_splits prod.splits)
  have rt: "read_track ops pos sd1 = read_track ops pos sd" using s by (simp add: read_track_def)
  have off: "unat (pos AND 0x7FFF) = unat pos mod 2 ^ 15" by (rule unat_low_15)
  note p = piece [OF n, where pos = pos]
  have slice: "take (unat (chunk_size pos n)) (drop (unat pos mod 2 ^ 15) t) = map (\<lambda>j. dev_byte data sd (unat pos + j)) [0..<unat (chunk_size pos n)]"
    if "length t = 2 ^ 15" "\<forall>j<2 ^ 15. t ! j = dev_byte data sd (?T * 2 ^ 15 + j)" for t
  proof (rule nth_equalityI)
    show "length (take (unat (chunk_size pos n)) (drop (unat pos mod 2 ^ 15) t)) = length (map (\<lambda>j. dev_byte data sd (unat pos + j)) [0..<unat (chunk_size pos n)])"
      using that(1) p(1) off by simp
    fix j assume "j < length (take (unat (chunk_size pos n)) (drop (unat pos mod 2 ^ 15) t))"
    then have j: "j < unat (chunk_size pos n)" by simp
    have "unat pos mod 2 ^ 15 + j < 2 ^ 15" using j p(1) off by simp
    then have "t ! (unat pos mod 2 ^ 15 + j) = dev_byte data sd (?T * 2 ^ 15 + (unat pos mod 2 ^ 15 + j))" using that(2) by blast
    also have "?T * 2 ^ 15 + (unat pos mod 2 ^ 15 + j) = unat pos + j" by (metis add.assoc div_mult_mod_eq)
    finally show "take (unat (chunk_size pos n)) (drop (unat pos mod 2 ^ 15) t) ! j = map (\<lambda>j. dev_byte data sd (unat pos + j)) [0..<unat (chunk_size pos n)] ! j"
      using j that(1) by simp
  qed
  have "case r of Inr bs \<Rightarrow> bs = map (\<lambda>j. dev_byte data sd (unat pos + j)) [0..<unat (chunk_size pos n)] | Inl err \<Rightarrow> fst (read_track ops pos sd) \<noteq> 0"
  proof (cases g)
    case (Inr t)
    then have "r = Inr (take (unat (chunk_size pos n)) (drop (unat pos mod 2 ^ 15) t))" using r g off by (simp add: read_turn_def Let_def)
    then show ?thesis using slice [of t] s Inr by simp
  next
    case (Inl err)
    have e: "cache_look sd ?T = None" "if mk then load_track ops got pos sd = Inl err else err = EAGAIN" using s Inl by simp_all
    show ?thesis
    proof (cases "err = EAGAIN \<or> err = SD_ENOMEM")
      case True
      obtain status tmp where t: "read_track ops pos sd = (status, tmp)" by (cases "read_track ops pos sd")
      have r': "r = (if status = 0 then Inr (take (unat (chunk_size pos n)) (drop (unat pos mod 2 ^ 15) tmp)) else Inl status)"
        using r g Inl True t rt off by (auto simp: read_turn_def Let_def)
      show ?thesis
      proof (cases "status = 0")
        case True
        have tt: "length tmp = 2 ^ 15" "\<forall>j<2 ^ 15. tmp ! j = data (sd_drv sd) (?T * 2 ^ 15 + j)" using read_track_spec [OF ok] t True by simp_all
        have "\<forall>j<2 ^ 15. tmp ! j = dev_byte data sd (?T * 2 ^ 15 + j)"
        proof (intro allI impI)
          fix j :: nat assume j: "j < 2 ^ 15"
          then have "(?T * 2 ^ 15 + j) div 2 ^ 15 = ?T" by simp
          then show "tmp ! j = dev_byte data sd (?T * 2 ^ 15 + j)" using tt(2) j e(1) by (simp only: dev_byte_def option.case)
        qed
        then show ?thesis using slice [OF tt(1)] r' True by simp
      qed (use r' t in simp)
    next
      case False
      then have "mk" "load_track ops got pos sd = Inl err" using e(2) by (auto split: if_splits)
      then have "fst (read_track ops pos sd) \<noteq> 0" using False by (auto simp: load_track_def split: if_splits prod.splits)
      moreover have "r = Inl err" using r g Inl False by (simp add: read_turn_def Let_def)
      ultimately show ?thesis by simp
    qed
  qed
  then show ?thesis using s sd' by simp
qed

text \<open>A store into the track that was just looked up.\<close>

lemma put_track_look:
  assumes wf: "es_wf 6 (sd_cacheTop sd)" and T: "T = unat pos div 2 ^ 15" and c: "cache_look sd T = Some (d, t)" and l: "length bs = 2 ^ 15"
  shows "es_wf 6 (sd_cacheTop (put_track pos bs sd)) \<and> sd_drv (put_track pos bs sd) = sd_drv sd \<and>
    sd_blockSize (put_track pos bs sd) = sd_blockSize sd \<and> sd_cachedFrames (put_track pos bs sd) = sd_cachedFrames sd \<and>
    (\<forall>U<2 ^ 49. cache_look (put_track pos bs sd) U = (if U = T then Some (d, bs) else cache_look sd U))"
proof -
  let ?i = "T div 128 ^ 6 mod 128" and ?u = "put_track pos bs sd"
  have u: "?u = sd\<lparr>sd_cacheTop := (sd_cacheTop sd)[?i := put_entry bs (dig 6 T) (sd_cacheTop sd ! ?i)]\<rparr>"
    unfolding put_track_def track_path_dig T [symmetric] dig_7_Cons by simp
  have w: "ent_wf (length (dig 6 T)) (sd_cacheTop sd ! ?i)" using es_wf_nth [OF wf, of ?i] by simp
  have d: "\<forall>i\<in>set (dig 6 T). i < 128" using dig_less by blast
  note s = put_entry_spec [OF w d c [unfolded cache_look_entry] l]
  have T49: "T < 2 ^ 49" unfolding T by (rule unat_track)
  have top: "sd_cacheTop ?u = (sd_cacheTop sd)[?i := put_entry bs (dig 6 T) (sd_cacheTop sd ! ?i)]" by (simp add: u)
  have "cache_look ?u U = (if U = T then Some (d, bs) else cache_look sd U)" if "U < 2 ^ 49" for U
    using cache_look_upd [OF wf T49 that top] s by simp
  moreover have "es_wf 6 (sd_cacheTop ?u)" unfolding top using es_wf_upd [OF wf] s by simp
  ultimately show ?thesis by (simp add: u)
qed

lemma put_track_keeps:
  assumes inv: "bc_inv data sd" and T: "T = unat pos div 2 ^ 15" and c: "cache_look sd T = Some (True, t)" and l: "length bs = 2 ^ 15"
  shows "bc_inv data (put_track pos bs sd) \<and> sd_blockSize (put_track pos bs sd) = sd_blockSize sd \<and>
    (\<forall>x<2 ^ 64. dev_byte data (put_track pos bs sd) x = (if x div 2 ^ 15 = T then bs ! (x mod 2 ^ 15) else dev_byte data sd x))"
proof -
  let ?u = "put_track pos bs sd"
  have wf: "es_wf 6 (sd_cacheTop sd)"
    and cl: "\<forall>T<2 ^ 49. \<forall>t. cache_look sd T = Some (False, t) \<longrightarrow> (\<forall>j<2 ^ 15. t ! j = data (sd_drv sd) (T * 2 ^ 15 + j))"
    and cnt: "sd_cachedFrames sd = 8 * int (card {T. T < 2 ^ 49 \<and> cache_look sd T \<noteq> None})"
    using inv by (simp_all add: bc_inv_def)
  note p = put_track_look [OF wf T c l]
  have look: "cache_look ?u U = (if U = T then Some (True, bs) else cache_look sd U)" if "U < 2 ^ 49" for U using p that by simp
  have f: "sd_drv ?u = sd_drv sd" "sd_blockSize ?u = sd_blockSize sd" "sd_cachedFrames ?u = sd_cachedFrames sd" using p by simp_all
  have "{T. T < 2 ^ 49 \<and> cache_look ?u T \<noteq> None} = {T. T < 2 ^ 49 \<and> cache_look sd T \<noteq> None}" using look c by (auto split: if_splits)
  moreover have "\<forall>U<2 ^ 49. \<forall>t. cache_look ?u U = Some (False, t) \<longrightarrow> (\<forall>j<2 ^ 15. t ! j = data (sd_drv sd) (U * 2 ^ 15 + j))"
    using cl look by simp
  ultimately have "bc_inv data ?u" using cnt p unfolding bc_inv_def f by simp
  moreover have "dev_byte data ?u x = (if x div 2 ^ 15 = T then bs ! (x mod 2 ^ 15) else dev_byte data sd x)" if "x < 2 ^ 64" for x
    using look [of "x div 2 ^ 15"] that by (simp add: dev_byte_def f split: option.split)
  ultimately show ?thesis by (simp add: f)
qed

lemma get_entry_nomake: "\<not> mk \<Longrightarrow> ent_look p e = None \<Longrightarrow> \<exists>err. fst (get_entry mk dirty load p e) = Inl err"
proof (induction p arbitrary: e)
  case Nil
  then show ?case by (auto simp: ent_look_Nil split: option.splits blocks.splits)
next
  case (Cons i p)
  then show ?case by (auto simp: ent_look_Cons split: option.splits blocks.splits prod.splits) (metis fst_conv)+
qed

lemma sdGetCache_nomake: "\<not> mk \<Longrightarrow> cache_look sd (unat pos div 2 ^ 15) = None \<Longrightarrow> \<exists>err. fst (sdGetCache ops got sd pos mk dirty) = Inl err"
  using get_entry_nomake unfolding sdGetCache_def track_path_dig dig_7_Cons cache_look_entry
  by (auto split: prod.splits) (metis fst_conv)

text \<open>Whether a turn of \<open>sdWrite\<close> stores its bytes.\<close>

definition stores :: "'d SDOps \<Rightarrow> bool \<Rightarrow> bool \<Rightarrow> u64 \<Rightarrow> 'd StorageDevice \<Rightarrow> bool" where
  "stores ops mk got pos sd \<longleftrightarrow> cache_look sd (unat pos div 2 ^ 15) \<noteq> None \<or> (mk \<and> got \<and> fst (read_track ops pos sd) = 0)"

lemma overwrite_nth:
  "off + length bs \<le> length t \<Longrightarrow> j < length t \<Longrightarrow>
     overwrite off bs t ! j = (if off \<le> j \<and> j < off + length bs then bs ! (j - off) else t ! j)"
  "off + length bs \<le> length t \<Longrightarrow> length (overwrite off bs t) = length t"
  by (auto simp: overwrite_def nth_append min_def)

lemma write_turn_spec:
  assumes ok: "drive_ok ops (sd_blockSize sd) data" and inv: "bc_inv data sd" and fit: "unat pos mod 2 ^ 15 + length bs \<le> 2 ^ 15"
    and w: "write_turn ops mk got pos bs sd = (r, sd')"
  shows "bc_inv data sd' \<and> sd_blockSize sd' = sd_blockSize sd \<and>
    (\<forall>x<2 ^ 64. dev_byte data sd' x =
       (if stores ops mk got pos sd \<and> unat pos \<le> x \<and> x < unat pos + length bs then bs ! (x - unat pos) else dev_byte data sd x)) \<and>
    (r = None \<longleftrightarrow> stores ops mk got pos sd \<or> fst (read_track ops pos sd) = 0)"
proof -
  let ?T = "unat pos div 2 ^ 15" and ?o = "unat pos mod 2 ^ 15"
  obtain g sd1 where g: "sdGetCache ops got sd pos mk True = (g, sd1)" by (cases "sdGetCache ops got sd pos mk True")
  note s = get_keeps [OF ok inv refl g]
  have off: "unat (pos AND 0x7FFF) = ?o" by (rule unat_low_15)
  show ?thesis
  proof (cases g)
    case (Inl err)
    have e: "cache_look sd ?T = None" "if mk then load_track ops got pos sd = Inl err else err = EAGAIN" using s Inl by simp_all
    have rt: "read_track ops pos sd1 = read_track ops pos sd" using s by (simp add: read_track_def)
    have ns: "\<not> stores ops mk got pos sd" using e by (auto simp: stores_def load_track_def split: if_splits prod.splits)
    have "sd' = sd1 \<and> (r = None \<longleftrightarrow> fst (read_track ops pos sd) = 0)"
    proof (cases "err = EAGAIN \<or> err = SD_ENOMEM")
      case True
      then show ?thesis using w g Inl rt by (auto simp: write_turn_def Let_def split: prod.splits if_splits)
    next
      case False
      then have "fst (read_track ops pos sd) \<noteq> 0" using e(2) by (auto simp: load_track_def split: if_splits prod.splits)
      then show ?thesis using w g Inl False by (auto simp: write_turn_def Let_def)
    qed
    then show ?thesis using s ns by simp
  next
    case (Inr t)
    have t: "length t = 2 ^ 15" "\<forall>j<2 ^ 15. t ! j = dev_byte data sd (?T * 2 ^ 15 + j)" "cache_look sd1 ?T = Some (True, t)" using s Inr by auto
    have b: "r = None" "sd' = put_track pos (overwrite ?o bs t) sd1" using w g Inr off by (simp_all add: write_turn_def Let_def)
    have ol: "length (overwrite ?o bs t) = 2 ^ 15" using overwrite_nth(2) [of ?o bs t] fit t(1) by simp
    have inv1: "bc_inv data sd1" using s by simp
    note p = put_track_keeps [OF inv1 refl t(3) ol]
    have st: "stores ops mk got pos sd"
    proof (cases "cache_look sd ?T = None")
      case True
      have "es_wf 6 (sd_cacheTop sd)" using inv by (simp add: bc_inv_def)
      from sdGetCache_spec [OF this refl g conjunct1 [OF load_track_length [OF ok]]] True Inr
      have l: "load_track ops got pos sd = Inr t" by simp
      have "mk"
      proof (rule ccontr)
        assume "\<not> mk"
        then obtain err where "fst (sdGetCache ops got sd pos mk True) = Inl err" using sdGetCache_nomake [OF _ True] by blast
        then show False using g Inr by simp
      qed
      then show ?thesis using l by (auto simp: stores_def load_track_def split: if_splits prod.splits)
    qed (simp add: stores_def)
    have "dev_byte data sd' x = (if unat pos \<le> x \<and> x < unat pos + length bs then bs ! (x - unat pos) else dev_byte data sd x)" if "x < 2 ^ 64" for x
    proof (cases "x div 2 ^ 15 = ?T")
      case True
      define j where "j = x mod 2 ^ 15"
      have j: "j < 2 ^ 15" "x = ?T * 2 ^ 15 + j" using True by (simp_all add: j_def) (metis div_mult_mod_eq)
      have P: "unat pos = ?T * 2 ^ 15 + ?o" by simp
      have c: "unat pos \<le> x \<longleftrightarrow> ?o \<le> j" "x < unat pos + length bs \<longleftrightarrow> j < ?o + length bs" "x - unat pos = j - ?o"
        using j(2) P by linarith+
      have "dev_byte data sd' x = overwrite ?o bs t ! j" using p True that by (simp add: b(2) j_def)
      also have "\<dots> = (if ?o \<le> j \<and> j < ?o + length bs then bs ! (j - ?o) else t ! j)" using overwrite_nth(1) [of ?o bs t j] fit t(1) j(1) by simp
      also have "t ! j = dev_byte data sd x" using t(2) j by simp
      finally show ?thesis unfolding c .
    next
      case False
      have "\<not> (unat pos \<le> x \<and> x < unat pos + length bs)"
      proof
        assume a: "unat pos \<le> x \<and> x < unat pos + length bs"
        have "unat pos = ?T * 2 ^ 15 + ?o" by simp
        then have "?T * 2 ^ 15 \<le> x \<and> x < ?T * 2 ^ 15 + 2 ^ 15" using a fit by linarith
        then show False using False unfolding track_div by simp
      qed
      moreover have "dev_byte data sd' x = dev_byte data sd x" using p s False that by (simp add: b(2))
      ultimately show ?thesis by auto
    qed
    then show ?thesis using p s st b by simp
  qed
qed

end
