(* ===== verification/Gx_BlockFlush.thy ===== *)
theory Gx_BlockFlush
  imports Gx_BlockIO
begin

text \<open>
  Flushing and evicting: every dirty track reaches the medium, at its place; the search for a track to drop ends, and what it
  drops is on the medium.
\<close>

section \<open>The loops over a node\<close>

lemma child_pos:
  assumes "i < 128"
  shows "push_bit 7 (of_nat a) OR of_nat i = (of_nat (a * 128 + i) :: u64)"
proof -
  have i: "of_nat i = take_bit 7 (of_nat i :: u64)" using assms by (simp add: take_bit_of_nat take_bit_nat_eq_self)
  have "push_bit 7 (of_nat a) AND take_bit 7 (of_nat i) = (0 :: u64)" by (rule bit_eqI) (auto simp: bit_simps)
  then have "push_bit 7 (of_nat a) OR take_bit 7 (of_nat i) = push_bit 7 (of_nat a) + (take_bit 7 (of_nat i) :: u64)"
    by (rule disjunctive_add_eq_or [symmetric])
  then show ?thesis unfolding i [symmetric] by (simp add: push_bit_eq_mult)
qed

lemma es_look_dig: "es_look (dig (Suc n) V) es = ent_look (dig n V) (es ! (V div 128 ^ n mod 128))"
  by simp

text \<open>What becomes of an entry, and of the medium.\<close>

definition flushed :: "nat \<Rightarrow> bentry \<Rightarrow> bentry \<Rightarrow> bool" where
  "flushed n e e' \<longleftrightarrow> ent_wf n e' \<and> \<not> ent_dirty e' \<and>
     (\<forall>p. length p = n \<longrightarrow> (\<forall>i\<in>set p. i < 128) \<longrightarrow> ent_look p e' = map_option (\<lambda>(d, t). (False, t)) (ent_look p e))"

definition stored :: "('d \<Rightarrow> nat \<Rightarrow> u8) \<Rightarrow> (bool \<times> u8 list) option \<Rightarrow> 'd \<Rightarrow> nat \<Rightarrow> u8" where
  "stored data l d x = (case l of Some (True, t) \<Rightarrow> t ! (x mod 2 ^ 15) | _ \<Rightarrow> data d x)"

lemma look_clean:
  assumes "ent_wf n e" "\<not> ent_dirty e" "length p = n" "\<forall>i\<in>set p. i < 128" "ent_look p e = Some (d, t)"
  shows "\<not> d"
  using look_dirty [OF assms(1,3,4), of t] assms(2,5) by (cases d) auto

lemma flushed_clean: "ent_wf n e \<Longrightarrow> \<not> ent_dirty e \<Longrightarrow> flushed n e e"
  unfolding flushed_def
proof (intro conjI allI impI)
  fix p :: "nat list" assume a: "ent_wf n e" "\<not> ent_dirty e" "length p = n" "\<forall>i\<in>set p. i < 128"
  show "ent_look p e = map_option (\<lambda>(d, t). (False, t)) (ent_look p e)"
  proof (cases "ent_look p e")
    case (Some q)
    then show ?thesis using look_clean [OF a, of "fst q" "snd q"] by (cases q) simp
  qed simp
qed simp_all

lemma stored_clean:
  assumes "ent_wf n e" "\<not> ent_dirty e"
  shows "stored data (ent_look (dig n T) e) d x = data d x"
proof (cases "ent_look (dig n T) e")
  case (Some q)
  moreover have "\<forall>i\<in>set (dig n T). i < 128" using dig_less by blast
  ultimately have "\<not> fst q" using look_clean [OF assms length_dig, of T "fst q" "snd q"] by simp
  then show ?thesis using Some by (cases q) (simp add: stored_def)
qed (simp add: stored_def)

lemma flush_loop:
  fixes es :: "bentry list"
  assumes len: "length es = 128" and m: "m \<le> 128" and up: "(a + 1) * 128 ^ Suc n \<le> 2 ^ 49"
    and wf: "\<forall>e\<in>set es. ent_wf n e"
    and step: "\<And>b e d e' d'. (b + 1) * 128 ^ n \<le> 2 ^ 49 \<Longrightarrow> ent_wf n e \<Longrightarrow> flush_entry n ops blk (of_nat b) (e, d) = (e', d') \<Longrightarrow>
        flushed n e e' \<and> (\<forall>x. data d' x = (if x div 2 ^ 15 div 128 ^ n = b then stored data (ent_look (dig n (x div 2 ^ 15)) e) d x else data d x))"
    and f: "fold (\<lambda>i (es, drv). case flush_entry n ops blk (push_bit 7 (of_nat a) OR of_nat i) (es ! i, drv) of (e, drv) \<Rightarrow> (es[i := e], drv)) [0..<m] (es, d) = (es', d')"
  shows "length es' = 128 \<and> (\<forall>j<m. flushed n (es ! j) (es' ! j)) \<and> (\<forall>j<128. m \<le> j \<longrightarrow> es' ! j = es ! j) \<and>
    (\<forall>x. data d' x = (if x div 2 ^ 15 div 128 ^ Suc n = a \<and> x div 2 ^ 15 div 128 ^ n mod 128 < m
                      then stored data (es_look (dig (Suc n) (x div 2 ^ 15)) es) d x else data d x))"
  using m f
proof (induction m arbitrary: es' d')
  case 0
  then show ?case using len by simp
next
  case (Suc m)
  let ?f = "\<lambda>i (es, drv). case flush_entry n ops blk (push_bit 7 (of_nat a) OR of_nat i) (es ! i, drv) of (e, drv) \<Rightarrow> (es[i := e], drv)"
  obtain es1 d1 where 1: "fold ?f [0..<m] (es, d) = (es1, d1)" by (cases "fold ?f [0..<m] (es, d)")
  have m: "m < 128" using Suc.prems(1) by simp
  note h = Suc.IH [OF _ 1]
  obtain e2 d2 where 2: "flush_entry n ops blk (of_nat (a * 128 + m)) (es1 ! m, d1) = (e2, d2)"
    by (cases "flush_entry n ops blk (of_nat (a * 128 + m)) (es1 ! m, d1)")
  have r: "es' = es1[m := e2]" "d' = d2" using Suc.prems(2) 1 2 child_pos [OF m] by simp_all
  have em: "es1 ! m = es ! m" using h m by simp
  have b: "(a * 128 + m + 1) * 128 ^ n \<le> 2 ^ 49"
  proof -
    have "(a * 128 + m + 1) * 128 ^ n \<le> (a * 128 + 128) * 128 ^ n" using m by (intro mult_right_mono) simp_all
    also have "(a * 128 + 128) * 128 ^ n = (a + 1) * 128 ^ Suc n" by (simp add: algebra_simps)
    finally show ?thesis using up by simp
  qed
  have w: "ent_wf n (es ! m)" using wf len m by simp
  note s = step [OF b _ 2, unfolded em, OF w]
  have dv: "x div 2 ^ 15 div 128 ^ n = a * 128 + m \<longleftrightarrow> x div 2 ^ 15 div 128 ^ Suc n = a \<and> x div 2 ^ 15 div 128 ^ n mod 128 = m" for x :: nat
  proof -
    have "x div 2 ^ 15 div 128 ^ Suc n = x div 2 ^ 15 div 128 ^ n div 128" by (simp only: power_Suc2 div_mult2_eq)
    then show ?thesis using m by auto
  qed
  have "data d' x = (if x div 2 ^ 15 div 128 ^ Suc n = a \<and> x div 2 ^ 15 div 128 ^ n mod 128 < Suc m
                      then stored data (es_look (dig (Suc n) (x div 2 ^ 15)) es) d x else data d x)" for x
  proof (cases "x div 2 ^ 15 div 128 ^ n = a * 128 + m")
    case True
    then have t: "x div 2 ^ 15 div 128 ^ Suc n = a" "x div 2 ^ 15 div 128 ^ n mod 128 = m" unfolding dv by simp_all
    have d1: "data d1 x = data d x" using h m t(2) by simp
    have "data d' x = stored data (ent_look (dig n (x div 2 ^ 15)) (es ! m)) d1 x" using s True r(2) by simp
    also have "\<dots> = stored data (ent_look (dig n (x div 2 ^ 15)) (es ! m)) d x" by (simp add: stored_def d1 split: option.split bool.split)
    finally show ?thesis unfolding es_look_dig t by simp
  next
    case False
    have "data d' x = data d1 x" using s False r(2) by simp
    moreover have "x div 2 ^ 15 div 128 ^ Suc n = a \<and> x div 2 ^ 15 div 128 ^ n mod 128 < Suc m \<longleftrightarrow>
        x div 2 ^ 15 div 128 ^ Suc n = a \<and> x div 2 ^ 15 div 128 ^ n mod 128 < m" using False unfolding dv by auto
    ultimately show ?thesis using h m by simp
  qed
  moreover have "\<forall>j<Suc m. flushed n (es ! j) (es' ! j)" using h s m r(1) by (auto simp: less_Suc_eq nth_list_update)
  moreover have "\<forall>j<128. Suc m \<le> j \<longrightarrow> es' ! j = es ! j" using h m r(1) by simp
  ultimately show ?case using h m r(1) by simp
qed

lemma flush_entry_spec:
  assumes ok: "drive_ok ops blk data"
  shows "(b + 1) * 128 ^ n \<le> 2 ^ 49 \<Longrightarrow> ent_wf n e \<Longrightarrow> flush_entry n ops blk (of_nat b) (e, d) = (e', d') \<Longrightarrow>
    flushed n e e' \<and> (\<forall>x. data d' x = (if x div 2 ^ 15 div 128 ^ n = b then stored data (ent_look (dig n (x div 2 ^ 15)) e) d x else data d x))"
proof (induction n arbitrary: b e d e' d')
  case 0
  show ?case
  proof (cases "ent_dirty e")
    case False
    then have "e' = e" "d' = d" using 0 by (auto simp: ent_dirty_def split: option.splits bool.splits blocks.splits)
    then show ?thesis using flushed_clean [OF 0(2) False] stored_clean [OF 0(2) False, of data] by simp
  next
    case True
    then obtain u t where e: "e = Some (u, True, Track t)" "length t = 2 ^ 15"
      using 0(2) by (auto simp: ent_dirty_def split: option.splits blocks.splits)
    then have r: "e' = Some (u, False, Track t)" "d' = write_track ops blk (of_nat b) t d" using 0(3) by simp_all
    have "b < 2 ^ 49" using 0(1) by simp
    from write_track_spec [OF ok this e(2)] show ?thesis using e by (simp add: flushed_def r stored_def)
  qed
next
  case (Suc n)
  show ?case
  proof (cases "ent_dirty e")
    case False
    then have "e' = e" "d' = d" using Suc.prems(2,3) by (auto simp: ent_dirty_def split: option.splits bool.splits blocks.splits)
    then show ?thesis using flushed_clean [OF Suc.prems(2) False] stored_clean [OF Suc.prems(2) False, of data] by (simp only: if_cancel) simp
  next
    case True
    then obtain u w where ub: "e = Some (u, True, w)" by (auto simp: ent_dirty_def split: option.splits)
    then obtain es where e: "e = Some (u, True, Node es)" "length es = 128" "\<forall>e\<in>set es. ent_wf n e" using Suc.prems(2) by (cases w) simp_all
    let ?f = "\<lambda>i (es, drv). case flush_entry n ops blk (push_bit 7 (of_nat b) OR of_nat i) (es ! i, drv) of (e, drv) \<Rightarrow> (es[i := e], drv)"
    obtain es1 where f: "fold ?f [0..<128] (es, d) = (es1, d')" and e': "e' = Some (u, False, Node es1)"
      using Suc.prems(3) e(1) by (auto split: prod.splits)
    have l: "length es1 = 128 \<and> (\<forall>j<128. flushed n (es ! j) (es1 ! j)) \<and> (\<forall>j<128. 128 \<le> j \<longrightarrow> es1 ! j = es ! j) \<and>
        (\<forall>x. data d' x = (if x div 2 ^ 15 div 128 ^ Suc n = b \<and> x div 2 ^ 15 div 128 ^ n mod 128 < 128
                          then stored data (es_look (dig (Suc n) (x div 2 ^ 15)) es) d x else data d x))"
      by (rule flush_loop [OF e(2) order_refl Suc.prems(1) e(3) Suc.IH f])
    have l1: "length es1 = 128" "\<forall>j<128. flushed n (es ! j) (es1 ! j)" using l by simp_all
    have "\<forall>c\<in>set es1. ent_wf n c \<and> \<not> ent_dirty c" using l1 by (auto simp: in_set_conv_nth flushed_def)
    then have w: "ent_wf (Suc n) e'" "\<not> ent_dirty e'" using e' l1(1) by simp_all
    have "ent_look p e' = map_option (\<lambda>(d, t). (False, t)) (ent_look p e)" if "length p = Suc n" "\<forall>i\<in>set p. i < 128" for p
      using that l1(2) e(1) e' by (cases p) (auto simp: flushed_def)
    then have "flushed (Suc n) e e'" using w by (simp add: flushed_def)
    moreover have "data d' x = (if x div 2 ^ 15 div 128 ^ Suc n = b then stored data (ent_look (dig (Suc n) (x div 2 ^ 15)) e) d x else data d x)" for x
      using l e(1) by simp
    ultimately show ?thesis by blast
  qed
qed

lemma map_look_pair: "map_option (\<lambda>(d, t). (False, t)) l = Some (d, t) \<longleftrightarrow> \<not> d \<and> (\<exists>c. l = Some (c, t))"
  by (cases l) auto

text \<open>A flush changes no byte of the device, and leaves them all on the medium.\<close>

lemma sdFlush_spec:
  assumes ok: "drive_ok ops (sd_blockSize sd) data" and inv: "bc_inv data sd"
  shows "bc_inv data (sdFlush ops sd) \<and> sd_blockSize (sdFlush ops sd) = sd_blockSize sd \<and>
    (\<forall>x<2 ^ 64. dev_byte data (sdFlush ops sd) x = dev_byte data sd x \<and> data (sd_drv (sdFlush ops sd)) x = dev_byte data sd x)"
proof -
  have wf: "es_wf 6 (sd_cacheTop sd)"
    and cl: "\<forall>T<2 ^ 49. \<forall>t. cache_look sd T = Some (False, t) \<longrightarrow> (\<forall>j<2 ^ 15. t ! j = data (sd_drv sd) (T * 2 ^ 15 + j))"
    and cnt: "sd_cachedFrames sd = 8 * int (card {T. T < 2 ^ 49 \<and> cache_look sd T \<noteq> None})"
    using inv by (simp_all add: bc_inv_def)
  obtain es d where f: "sdFlushTree 6 ops (sd_blockSize sd) 0 (sd_cacheTop sd, sd_drv sd) = (es, d)"
    by (cases "sdFlushTree 6 ops (sd_blockSize sd) 0 (sd_cacheTop sd, sd_drv sd)")
  have sd': "sdFlush ops sd = sd\<lparr>sd_cacheTop := es, sd_drv := d\<rparr>" by (simp add: sdFlush_def f)
  have len: "length (sd_cacheTop sd) = 128" "\<forall>e\<in>set (sd_cacheTop sd). ent_wf 6 e" using wf by (simp_all add: es_wf_def)
  have f0: "fold (\<lambda>i (es, drv). case flush_entry 6 ops (sd_blockSize sd) (push_bit 7 (of_nat 0) OR of_nat i) (es ! i, drv) of (e, drv) \<Rightarrow> (es[i := e], drv))
      [0..<128] (sd_cacheTop sd, sd_drv sd) = (es, d)" using f by (simp add: sdFlushTree_def)
  have l: "length es = 128 \<and> (\<forall>j<128. flushed 6 (sd_cacheTop sd ! j) (es ! j)) \<and> (\<forall>j<128. 128 \<le> j \<longrightarrow> es ! j = sd_cacheTop sd ! j) \<and>
    (\<forall>x. data d x = (if x div 2 ^ 15 div 128 ^ Suc 6 = 0 \<and> x div 2 ^ 15 div 128 ^ 6 mod 128 < 128
                      then stored data (es_look (dig (Suc 6) (x div 2 ^ 15)) (sd_cacheTop sd)) (sd_drv sd) x else data (sd_drv sd) x))"
    by (rule flush_loop [OF len(1) _ _ len(2) flush_entry_spec [OF ok] f0]) simp_all
  have look: "cache_look (sdFlush ops sd) T = map_option (\<lambda>(d, t). (False, t)) (cache_look sd T)" for T
  proof -
    have "\<forall>i\<in>set (dig 6 T). i < 128" using dig_less by blast
    then show ?thesis using l unfolding cache_look_entry by (simp add: sd' flushed_def)
  qed
  have S: "dig (Suc 6) T = dig 7 T" for T by (simp only: dig_7_Cons dig.simps)
  have med: "data d x = dev_byte data sd x" if "x < 2 ^ 64" for x
  proof -
    have T: "x div 2 ^ 15 < 2 ^ 49" using that by simp
    then have "x div 2 ^ 15 div 128 ^ Suc 6 = 0" by simp
    then have "data d x = stored data (cache_look sd (x div 2 ^ 15)) (sd_drv sd) x" using l unfolding S cache_look_def [symmetric] by simp
    also have "\<dots> = dev_byte data sd x"
    proof (cases "cache_look sd (x div 2 ^ 15)")
      case (Some q)
      obtain c t where q: "q = (c, t)" by (cases q)
      show ?thesis
      proof (cases c)
        case False
        then have "t ! (x mod 2 ^ 15) = data (sd_drv sd) (x div 2 ^ 15 * 2 ^ 15 + x mod 2 ^ 15)" using cl T Some q by simp
        also have "x div 2 ^ 15 * 2 ^ 15 + x mod 2 ^ 15 = x" by simp
        finally show ?thesis using Some q False by (simp add: stored_def dev_byte_def)
      qed (use Some q in \<open>simp add: stored_def dev_byte_def\<close>)
    qed (simp add: stored_def dev_byte_def)
    finally show ?thesis .
  qed
  have dev: "dev_byte data (sdFlush ops sd) x = dev_byte data sd x" if "x < 2 ^ 64" for x
  proof (cases "cache_look sd (x div 2 ^ 15)")
    case None
    then show ?thesis using med [OF that] look [of "x div 2 ^ 15"] by (simp add: dev_byte_def sd')
  next
    case (Some q)
    then show ?thesis using look [of "x div 2 ^ 15"] by (cases q) (simp add: dev_byte_def)
  qed
  have "es_wf 6 es" using l by (auto simp: es_wf_def in_set_conv_nth flushed_def)
  moreover have "\<forall>T<2 ^ 49. \<forall>t. cache_look (sdFlush ops sd) T = Some (False, t) \<longrightarrow> (\<forall>j<2 ^ 15. t ! j = data d (T * 2 ^ 15 + j))"
  proof (intro allI impI)
    fix T t and j :: nat assume a: "T < 2 ^ 49" "cache_look (sdFlush ops sd) T = Some (False, t)" "j < 2 ^ 15"
    have x: "(T * 2 ^ 15 + j) div 2 ^ 15 = T" "(T * 2 ^ 15 + j) mod 2 ^ 15 = j" "T * 2 ^ 15 + j < 2 ^ 64" using a by simp_all
    have "dev_byte data (sdFlush ops sd) (T * 2 ^ 15 + j) = t ! j" using a(2) by (simp only: dev_byte_def x option.case prod.case)
    then show "t ! j = data d (T * 2 ^ 15 + j)" using med [OF x(3)] dev [OF x(3)] by simp
  qed
  moreover have "{T. T < 2 ^ 49 \<and> cache_look (sdFlush ops sd) T \<noteq> None} = {T. T < 2 ^ 49 \<and> cache_look sd T \<noteq> None}" using look by simp
  ultimately have "bc_inv data (sdFlush ops sd)" using cnt unfolding bc_inv_def by (simp add: sd')
  then show ?thesis using med dev by (simp add: sd')
qed

section \<open>Eviction\<close>

lemma lowest_spec:
  "(lowest es = None \<longleftrightarrow> (\<forall>i<128. es ! i = None)) \<and>
   (\<forall>l i. lowest es = Some (l, i) \<longrightarrow> i < 128 \<and> (\<exists>b. es ! i = Some (l, b)) \<and> (\<forall>j<128. \<forall>u b. es ! j = Some (u, b) \<longrightarrow> l \<le> u))"
proof -
  let ?f = "\<lambda>i best. case es ! i of None \<Rightarrow> best
      | Some (ucnt, _) \<Rightarrow> (case best of None \<Rightarrow> Some (ucnt, i) | Some (l, j) \<Rightarrow> if ucnt < l then Some (ucnt, i) else best)"
  have "(fold ?f [0..<m] None = None \<longleftrightarrow> (\<forall>i<m. es ! i = None)) \<and>
     (\<forall>l i. fold ?f [0..<m] None = Some (l, i) \<longrightarrow> i < m \<and> (\<exists>b. es ! i = Some (l, b)) \<and> (\<forall>j<m. \<forall>u b. es ! j = Some (u, b) \<longrightarrow> l \<le> u))" for m
  proof (induction m)
    case (Suc m)
    have e: "fold ?f [0..<Suc m] None = ?f m (fold ?f [0..<m] None)" by simp
    show ?case
    proof (cases "es ! m")
      case None
      then show ?thesis using Suc unfolding e by (auto simp: less_Suc_eq)
    next
      case (Some q)
      obtain u b where q: "es ! m = Some (u, b)" using Some by (cases q) auto
      show ?thesis
      proof (cases "fold ?f [0..<m] None")
        case None
        then show ?thesis using Suc q unfolding e by (auto simp: less_Suc_eq)
      next
        case (Some p)
        obtain l i where p: "fold ?f [0..<m] None = Some (l, i)" using Some by (cases p) auto
        have h: "i < m" "\<exists>b. es ! i = Some (l, b)" "\<forall>j<m. \<forall>u b. es ! j = Some (u, b) \<longrightarrow> l \<le> u" using Suc p by auto
        show ?thesis
        proof (cases "u < l")
          case True
          then show ?thesis using h q p unfolding e by (auto simp: less_Suc_eq dest: order.strict_implies_order order.trans)
        next
          case False
          then show ?thesis using h q p unfolding e by (auto simp: less_Suc_eq)
        qed
      qed
    qed
  qed simp
  then show ?thesis unfolding lowest_def by blast
qed

text \<open>What a search leaves in a node whose subscripts so far are those of \<open>a\<close>: nothing, or one track less.\<close>

definition dropped :: "('d \<Rightarrow> nat \<Rightarrow> u8) \<Rightarrow> nat \<Rightarrow> nat \<Rightarrow> bentry list \<Rightarrow> 'd \<Rightarrow> bool \<Rightarrow> bentry list \<Rightarrow> 'd \<Rightarrow> bool" where
  "dropped data n a es d found es' d' \<longleftrightarrow>
     es_wf n es' \<and> (\<forall>i<128. ent_dirty (es' ! i) \<longrightarrow> ent_dirty (es ! i)) \<and>
     (if found
      then \<exists>U c t. U div 128 ^ Suc n = a \<and> es_look (dig (Suc n) U) es = Some (c, t) \<and>
             (\<forall>V. V div 128 ^ Suc n = a \<longrightarrow> es_look (dig (Suc n) V) es' = (if V = U then None else es_look (dig (Suc n) V) es)) \<and>
             (\<forall>x. data d' x = (if c \<and> x div 2 ^ 15 = U then t ! (x mod 2 ^ 15) else data d x))
      else (\<forall>V. es_look (dig (Suc n) V) es = None) \<and> (\<forall>i<128. es' ! i = None) \<and> d' = d)"

lemma child_div: "V div 128 ^ Suc n = a \<and> V div 128 ^ n mod 128 = i \<longleftrightarrow> i < 128 \<and> V div 128 ^ n = a * 128 + (i :: nat)"
proof -
  have "V div 128 ^ Suc n = V div 128 ^ n div 128" by (simp only: power_Suc2 div_mult2_eq)
  then show ?thesis by auto
qed

lemma es_wf_None: "es_wf n es \<Longrightarrow> es_wf n (es[i := None])"
  by (rule es_wf_upd) simp_all

lemma try_loop_spec:
  assumes up: "(a + 1) * 128 ^ Suc (Suc n) \<le> 2 ^ 49"
    and down: "\<And>b es d. (b + 1) * 128 ^ Suc n \<le> 2 ^ 49 \<Longrightarrow> es_wf n es \<Longrightarrow>
        \<exists>found es' d'. down (of_nat b) (es, d) = Some (found, es', d') \<and> dropped data n b es d found es' d'"
  shows "es_wf (Suc n) es \<Longrightarrow> card {i. i < 128 \<and> es ! i \<noteq> None} < fuel \<Longrightarrow>
    \<exists>found es' d'. try_loop down fuel (of_nat a) (es, d) = Some (found, es', d') \<and> dropped data (Suc n) a es d found es' d'"
proof (induction fuel arbitrary: es d)
  case (Suc fuel)
  have len: "length es = 128" using Suc.prems(1) by (simp add: es_wf_def)
  show ?case
  proof (cases "lowest es")
    case None
    then have "\<forall>i<128. es ! i = None" using lowest_spec by blast
    moreover from this have "\<forall>V. es_look (dig (Suc (Suc n)) V) es = None" unfolding es_look_dig by simp
    ultimately have "dropped data (Suc n) a es d False es d" using Suc.prems(1) by (simp add: dropped_def)
    then show ?thesis using None by auto
  next
    case (Some p)
    then obtain l i where li: "lowest es = Some (l, i)" by (cases p) auto
    then obtain b0 where i: "i < 128" "es ! i = Some (l, b0)" using lowest_spec [of es] by blast
    have wi: "ent_wf (Suc n) (es ! i)" using Suc.prems(1) i(1) by (rule es_wf_nth)
    obtain c w where b0: "b0 = (c, w)" by (cases b0)
    then obtain sub where e: "es ! i = Some (l, c, Node sub)" "length sub = 128" "\<forall>x\<in>set sub. ent_wf n x \<and> (ent_dirty x \<longrightarrow> c)"
      using wi i(2) by (cases w) simp_all
    have ws: "es_wf n sub" using e by (simp add: es_wf_def)
    have bound: "(a * 128 + i + 1) * 128 ^ Suc n \<le> 2 ^ 49"
    proof -
      have "(a * 128 + i + 1) * 128 ^ Suc n \<le> (a * 128 + 128) * 128 ^ Suc n" using i(1) by (intro mult_right_mono) simp_all
      also have "(a * 128 + 128) * 128 ^ Suc n = (a + 1) * 128 ^ Suc (Suc n)" by (simp add: algebra_simps)
      finally show ?thesis using up by simp
    qed
    obtain found sub' d1 where dn: "down (of_nat (a * 128 + i)) (sub, d) = Some (found, sub', d1)"
      "dropped data n (a * 128 + i) sub d found sub' d1" using down [OF bound ws] by blast
    show ?thesis
    proof (cases found)
      case True
      let ?e = "Some (l, c, Node sub')"
      have r: "try_loop down (Suc fuel) (of_nat a) (es, d) = Some (True, es[i := ?e], d1)"
        using li e(1) dn(1) True child_pos [OF i(1), of a] by simp
      have s': "es_wf n sub'" "\<forall>j<128. ent_dirty (sub' ! j) \<longrightarrow> ent_dirty (sub ! j)" using dn(2) by (simp_all add: dropped_def)
      have "\<forall>x\<in>set sub'. ent_wf n x \<and> (ent_dirty x \<longrightarrow> c)"
      proof
        fix x assume "x \<in> set sub'"
        then obtain j where j: "j < 128" "x = sub' ! j" using s'(1) by (auto simp: in_set_conv_nth es_wf_def)
        have "sub ! j \<in> set sub" using j(1) e(2) by simp
        then show "ent_wf n x \<and> (ent_dirty x \<longrightarrow> c)" using j s' e(3) es_wf_nth [OF s'(1) j(1)] by auto
      qed
      then have "ent_wf (Suc n) ?e" using s'(1) by (simp add: es_wf_def)
      then have w: "es_wf (Suc n) (es[i := ?e])" by (rule es_wf_upd [OF Suc.prems(1)])
      obtain U cc t where U: "U div 128 ^ Suc n = a * 128 + i" "es_look (dig (Suc n) U) sub = Some (cc, t)"
        "\<forall>V. V div 128 ^ Suc n = a * 128 + i \<longrightarrow> es_look (dig (Suc n) V) sub' = (if V = U then None else es_look (dig (Suc n) V) sub)"
        "\<forall>x. data d1 x = (if cc \<and> x div 2 ^ 15 = U then t ! (x mod 2 ^ 15) else data d x)"
        using dn(2) True unfolding dropped_def by auto
      have nl: "ent_look (dig (Suc n) V) (Some (l, c, Node s)) = es_look (dig (Suc n) V) s" for V s by simp
      have Ui: "U div 128 ^ Suc (Suc n) = a" "U div 128 ^ Suc n mod 128 = i" using child_div [of U "Suc n" a i] U(1) i(1) by simp_all
      have lu: "es_look (dig (Suc (Suc n)) U) es = Some (cc, t)"
      proof -
        have "es_look (dig (Suc (Suc n)) U) es = ent_look (dig (Suc n) U) (es ! i)" by (simp only: es_look_dig Ui(2))
        then show ?thesis unfolding e(1) nl U(2) .
      qed
      have lv: "es_look (dig (Suc (Suc n)) V) (es[i := ?e]) = (if V = U then None else es_look (dig (Suc (Suc n)) V) es)"
        if "V div 128 ^ Suc (Suc n) = a" for V
      proof (cases "V div 128 ^ Suc n mod 128 = i")
        case True
        then have "V div 128 ^ Suc n = a * 128 + i" using that child_div [of V "Suc n" a i] by simp
        then show ?thesis unfolding es_look_dig True using U(3) len i(1) e(1) nl by simp
      next
        case False
        then show ?thesis unfolding es_look_dig using Ui(2) by auto
      qed
      have dd: "\<forall>j<128. ent_dirty (es[i := ?e] ! j) \<longrightarrow> ent_dirty (es ! j)" using len e(1) i(1) by (auto simp: nth_list_update)
      have "dropped data (Suc n) a es d True (es[i := ?e]) d1"
        unfolding dropped_def if_P [OF TrueI] using w dd Ui(1) lu lv U(4) by blast
      then show ?thesis using r by blast
    next
      case False
      have N: "\<forall>V. es_look (dig (Suc n) V) sub = None" "d1 = d" using dn(2) False by (simp_all add: dropped_def)
      have r: "try_loop down (Suc fuel) (of_nat a) (es, d) = try_loop down fuel (of_nat a) (es[i := None], d)"
        using li e(1) dn(1) False N(2) child_pos [OF i(1), of a] by simp
      have same: "es_look (dig (Suc (Suc n)) V) (es[i := None]) = es_look (dig (Suc (Suc n)) V) es" for V
        unfolding es_look_dig using N(1) e(1) len i(1) by (cases "V div 128 ^ Suc n mod 128 = i") (simp_all add: es_look_dig)
      have "{j. j < 128 \<and> es[i := None] ! j \<noteq> None} = {j. j < 128 \<and> es ! j \<noteq> None} - {i}" using len i(1) by (auto simp: nth_list_update)
      moreover have "i \<in> {j. j < 128 \<and> es ! j \<noteq> None}" using i by simp
      moreover from this have "0 < card {j. j < 128 \<and> es ! j \<noteq> None}" by (auto simp: card_gt_0_iff)
      ultimately have "card {j. j < 128 \<and> es[i := None] ! j \<noteq> None} < fuel"
        using Suc.prems(2) by (simp only: card_Diff_singleton)
      from Suc.IH [OF es_wf_None [OF Suc.prems(1)] this] obtain found es' d' where
        R: "try_loop down fuel (of_nat a) (es[i := None], d) = Some (found, es', d')" "dropped data (Suc n) a (es[i := None]) d found es' d'" by blast
      note D = R(2) [unfolded dropped_def same]
      have "ent_dirty (es[i := None] ! j) \<longrightarrow> ent_dirty (es ! j)" if "j < 128" for j using that len i(1) by (auto simp: nth_list_update)
      then have "\<forall>j<128. ent_dirty (es' ! j) \<longrightarrow> ent_dirty (es ! j)" using D by blast
      then have "dropped data (Suc n) a es d found es' d'"
        unfolding dropped_def using D [THEN conjunct1] D [THEN conjunct2, THEN conjunct2] by (intro conjI)
      then show ?thesis using r R(1) by auto
    qed
  qed
qed simp

lemma sdTryFree_spec:
  assumes ok: "drive_ok ops blk data"
  shows "(a + 1) * 128 ^ Suc n \<le> 2 ^ 49 \<Longrightarrow> es_wf n es \<Longrightarrow>
    \<exists>found es' d'. sdTryFree n ops blk (of_nat a) (es, d) = Some (found, es', d') \<and> dropped data n a es d found es' d'"
proof (induction n arbitrary: a es d)
  case 0
  have len: "length es = 128" using 0(2) by (simp add: es_wf_def)
  show ?case
  proof (cases "lowest es")
    case None
    then have "\<forall>i<128. es ! i = None" using lowest_spec by blast
    moreover from this have "\<forall>V. es_look (dig (Suc 0) V) es = None" unfolding es_look_dig by simp
    ultimately have "dropped data 0 a es d False es d" using 0(2) by (simp add: dropped_def)
    then show ?thesis using None by auto
  next
    case (Some p)
    then obtain l i where li: "lowest es = Some (l, i)" by (cases p) auto
    then obtain b0 where i: "i < 128" "es ! i = Some (l, b0)" using lowest_spec [of es] by blast
    obtain c w where b0: "b0 = (c, w)" by (cases b0)
    have wi: "ent_wf 0 (es ! i)" using 0(2) i(1) by (rule es_wf_nth)
    then obtain t where e: "es ! i = Some (l, c, Track t)" "length t = 2 ^ 15" using i(2) b0 by (cases w) simp_all
    let ?d = "if c then write_track ops blk (of_nat (a * 128 + i)) t d else d"
    have r: "sdTryFree 0 ops blk (of_nat a) (es, d) = Some (True, es[i := None], ?d)"
      using li e(1) child_pos [OF i(1), of a] by simp
    have U: "(a * 128 + i) div 128 ^ Suc 0 = a" "(a * 128 + i) div 128 ^ 0 mod 128 = i" using i(1) by simp_all
    have "a * 128 + i < 2 ^ 49" using 0(1) i(1) by simp
    then have dx: "data ?d x = (if c \<and> x div 2 ^ 15 = a * 128 + i then t ! (x mod 2 ^ 15) else data d x)" for x
      by (cases c) (simp_all only: if_True if_False simp_thms write_track_spec [OF ok _ e(2)])
    have lu: "es_look (dig (Suc 0) (a * 128 + i)) es = Some (c, t)" unfolding es_look_dig U(2) e(1) by simp
    have lv: "es_look (dig (Suc 0) V) (es[i := None]) = (if V = a * 128 + i then None else es_look (dig (Suc 0) V) es)" if "V div 128 ^ Suc 0 = a" for V
    proof (cases "V mod 128 = i")
      case True
      then have "V = a * 128 + i" using that by (metis div_mult_mod_eq power_one_right One_nat_def)
      then show ?thesis using len i(1) by simp
    next
      case False
      then show ?thesis using i(1) by auto
    qed
    have "\<forall>j<128. ent_dirty (es[i := None] ! j) \<longrightarrow> ent_dirty (es ! j)" using len i(1) by (auto simp: nth_list_update)
    then have "dropped data 0 a es d True (es[i := None]) ?d"
      unfolding dropped_def if_P [OF TrueI] using es_wf_None [OF 0(2)] U(1) lu lv dx by blast
    then show ?thesis using r by blast
  qed
next
  case (Suc n)
  have "card {i. i < 128 \<and> es ! i \<noteq> None} \<le> card {..<128 :: nat}" by (rule card_mono) auto
  then have "card {i. i < 128 \<and> es ! i \<noteq> None} < 129" by simp
  from try_loop_spec [OF Suc.prems(1) Suc.IH Suc.prems(2) this] show ?case by simp
qed

text \<open>An eviction finds a track exactly when there is one, and changes no byte of the device.\<close>

lemma free_track_spec:
  assumes ok: "drive_ok ops (sd_blockSize sd) data" and inv: "bc_inv data sd"
  shows "\<exists>found sd'. free_track ops sd = Some (found, sd') \<and> bc_inv data sd' \<and> sd_blockSize sd' = sd_blockSize sd \<and>
    (\<forall>x<2 ^ 64. dev_byte data sd' x = dev_byte data sd x) \<and> (found \<longleftrightarrow> sd_cachedFrames sd \<noteq> 0) \<and>
    sd_cachedFrames sd' = (if found then sd_cachedFrames sd - 8 else sd_cachedFrames sd)"
proof -
  have wf: "es_wf 6 (sd_cacheTop sd)"
    and cl: "\<forall>T<2 ^ 49. \<forall>t. cache_look sd T = Some (False, t) \<longrightarrow> (\<forall>j<2 ^ 15. t ! j = data (sd_drv sd) (T * 2 ^ 15 + j))"
    and cnt: "sd_cachedFrames sd = 8 * int (card {T. T < 2 ^ 49 \<and> cache_look sd T \<noteq> None})"
    using inv by (simp_all add: bc_inv_def)
  have "(0 + 1) * 128 ^ Suc 6 \<le> (2 ^ 49 :: nat)" by simp
  from sdTryFree_spec [OF ok this wf, of "sd_drv sd"] obtain found es d where
    f0: "sdTryFree 6 ops (sd_blockSize sd) (of_nat 0) (sd_cacheTop sd, sd_drv sd) = Some (found, es, d)"
       "dropped data 6 0 (sd_cacheTop sd) (sd_drv sd) found es d" by blast
  have f: "sdTryFree 6 ops (sd_blockSize sd) 0 (sd_cacheTop sd, sd_drv sd) = Some (found, es, d)"
       "dropped data 6 0 (sd_cacheTop sd) (sd_drv sd) found es d" using f0 by simp_all
  define sd' where "sd' = sd\<lparr>sd_cacheTop := es, sd_drv := d, sd_cachedFrames := sd_cachedFrames sd - (if found then 8 else 0)\<rparr>"
  have r: "free_track ops sd = Some (found, sd')" using f(1) by (simp add: free_track_def sd'_def)
  have S: "dig (Suc 6) T = dig 7 T" for T by (simp only: dig_7_Cons dig.simps)
  have Z: "V div 128 ^ Suc 6 = 0 \<longleftrightarrow> V < 2 ^ 49" for V :: nat by (simp add: div_eq_0_iff)
  have L: "es_look (dig 7 V) es = cache_look sd' V" "es_look (dig 7 V) (sd_cacheTop sd) = cache_look sd V" for V
    by (simp_all add: cache_look_def sd'_def)
  show ?thesis
  proof (cases found)
    case False
    then have n: "\<forall>V. cache_look sd V = None" "\<forall>i<128. es ! i = None" "d = sd_drv sd" using f(2) unfolding dropped_def S L by simp_all
    have n': "cache_look sd' V = None" for V using n(2) by (simp add: cache_look_entry sd'_def)
    have "es_wf 6 es" using f(2) by (simp add: dropped_def)
    then have "bc_inv data sd'" using n' cnt n(1) False unfolding bc_inv_def by (simp add: sd'_def)
    moreover have "dev_byte data sd' x = dev_byte data sd x" for x using n n' by (simp add: dev_byte_def sd'_def)
    moreover have "sd_cachedFrames sd = 0" using cnt n(1) by simp
    ultimately show ?thesis using r False by (auto simp: sd'_def)
  next
    case True
    obtain U c t where U: "U < 2 ^ 49" "cache_look sd U = Some (c, t)"
      "\<forall>V<2 ^ 49. cache_look sd' V = (if V = U then None else cache_look sd V)"
      "\<forall>x. data d x = (if c \<and> x div 2 ^ 15 = U then t ! (x mod 2 ^ 15) else data (sd_drv sd) x)"
      using f(2) True unfolding dropped_def S Z L if_P [OF True] by blast
    have drv: "sd_drv sd' = d" by (simp add: sd'_def)
    have "es_wf 6 (sd_cacheTop sd')" using f(2) by (simp add: dropped_def sd'_def)
    moreover have "\<forall>T<2 ^ 49. \<forall>u. cache_look sd' T = Some (False, u) \<longrightarrow> (\<forall>j<2 ^ 15. u ! j = data d (T * 2 ^ 15 + j))"
    proof (intro allI impI)
      fix T u and j :: nat assume a: "T < 2 ^ 49" "cache_look sd' T = Some (False, u)" "j < 2 ^ 15"
      then have T: "T \<noteq> U" "cache_look sd T = Some (False, u)" using U(3) by (auto split: if_splits)
      have "(T * 2 ^ 15 + j) div 2 ^ 15 = T" using a(3) by simp
      then show "u ! j = data d (T * 2 ^ 15 + j)" using cl a T U(4) by simp
    qed
    moreover have "sd_cachedFrames sd' = 8 * int (card {T. T < 2 ^ 49 \<and> cache_look sd' T \<noteq> None})"
    proof -
      have "{T. T < 2 ^ 49 \<and> cache_look sd' T \<noteq> None} = {T. T < 2 ^ 49 \<and> cache_look sd T \<noteq> None} - {U}" using U(3) by (auto split: if_splits)
      moreover have m: "U \<in> {T. T < 2 ^ 49 \<and> cache_look sd T \<noteq> None}" using U(1,2) by simp
      ultimately have "card {T. T < 2 ^ 49 \<and> cache_look sd' T \<noteq> None} = card {T. T < 2 ^ 49 \<and> cache_look sd T \<noteq> None} - 1" by simp
      moreover have "0 < card {T. T < 2 ^ 49 \<and> cache_look sd T \<noteq> None}" using m by (auto simp: card_gt_0_iff)
      ultimately show ?thesis using cnt True by (simp add: sd'_def)
    qed
    ultimately have inv': "bc_inv data sd'" unfolding bc_inv_def drv by blast
    have "dev_byte data sd' x = dev_byte data sd x" if "x < 2 ^ 64" for x
    proof (cases "x div 2 ^ 15 = U")
      case True
      have "data d x = t ! (x mod 2 ^ 15)"
      proof (cases c)
        case False
        have "t ! (x mod 2 ^ 15) = data (sd_drv sd) (U * 2 ^ 15 + x mod 2 ^ 15)" using cl U(1,2) False by simp
        also have "U * 2 ^ 15 + x mod 2 ^ 15 = x" using True by (metis div_mult_mod_eq)
        finally show ?thesis using U(4) False by simp
      qed (use U(4) True in simp)
      moreover have "cache_look sd' U = None" using U(1,3) by simp
      ultimately show ?thesis using True U(2) by (simp add: dev_byte_def drv)
    next
      case False
      have "x div 2 ^ 15 < 2 ^ 49" using that by simp
      then have "cache_look sd' (x div 2 ^ 15) = cache_look sd (x div 2 ^ 15)" using U(3) False by simp
      then show ?thesis using U(4) False by (simp add: dev_byte_def drv split: option.split)
    qed
    moreover have "sd_cachedFrames sd \<noteq> 0"
    proof -
      have "U \<in> {T. T < 2 ^ 49 \<and> cache_look sd T \<noteq> None}" using U(1,2) by simp
      then have "card {T. T < 2 ^ 49 \<and> cache_look sd T \<noteq> None} \<noteq> 0" by (metis card_0_eq empty_iff finite_tracks)
      then show ?thesis using cnt by simp
    qed
    ultimately show ?thesis using r inv' True by (auto simp: sd'_def)
  qed
qed

end
