(* ===== verification/Gx_BlockRun.thy ===== *)
theory Gx_BlockRun
  imports Gx_BlockFlush
begin

text \<open>
  The block cache over every history of reads, writes, flushes and evictions, the loops of \<open>sdRead\<close> and \<open>sdWrite\<close>, and
  the device files and the list of devices.
\<close>

section \<open>Histories\<close>

definition overlay :: "(nat \<Rightarrow> u8) \<Rightarrow> nat \<Rightarrow> u8 list \<Rightarrow> nat \<Rightarrow> u8" where
  "overlay v p bs x = (if p \<le> x \<and> x < p + length bs then bs ! (x - p) else v x)"

text \<open>
  The second component is what the device holds: a turn of \<open>sdWrite\<close>, which fits into its track, changes it when the turn stores its
  bytes. A history starts with an empty cache and a drive that does what is documented and whose writes do not fail; each call is one
  step, whose allocations evict no track of the device.
\<close>

inductive bc_step :: "'d SDOps \<Rightarrow> 'd StorageDevice \<times> (nat \<Rightarrow> u8) \<Rightarrow> 'd StorageDevice \<times> (nat \<Rightarrow> u8) \<Rightarrow> bool" for ops where
  read: "n \<noteq> 0 \<Longrightarrow> bc_step ops (sd, v) (snd (read_turn ops mk got pos n sd), v)"
| write_to: "unat pos mod 2 ^ 15 + length bs \<le> 2 ^ 15 \<Longrightarrow>
    bc_step ops (sd, v) (snd (write_turn ops mk got pos bs sd), if stores ops mk got pos sd then overlay v (unat pos) bs else v)"
| flush: "bc_step ops (sd, v) (sdFlush ops sd, v)"
| free: "free_track ops sd = Some (found, sd') \<Longrightarrow> bc_step ops (sd, v) (sd', v)"

definition bc_boot :: "('d \<Rightarrow> nat \<Rightarrow> u8) \<Rightarrow> 'd StorageDevice \<times> (nat \<Rightarrow> u8) \<Rightarrow> bool" where
  "bc_boot data s \<longleftrightarrow> sd_cacheTop (fst s) = replicate 128 None \<and> sd_cachedFrames (fst s) = 0 \<and> snd s = data (sd_drv (fst s))"

inductive bc_reach :: "'d SDOps \<Rightarrow> ('d \<Rightarrow> nat \<Rightarrow> u8) \<Rightarrow> 'd StorageDevice \<times> (nat \<Rightarrow> u8) \<Rightarrow> bool" for ops data where
  boot: "bc_boot data s \<Longrightarrow> drive_doc ops (sd_blockSize (fst s)) data \<Longrightarrow> drive_writes ops \<Longrightarrow> bc_reach ops data s"
| step: "bc_reach ops data s \<Longrightarrow> bc_step ops s s' \<Longrightarrow> bc_reach ops data s'"

definition bc_ok :: "'d SDOps \<Rightarrow> ('d \<Rightarrow> nat \<Rightarrow> u8) \<Rightarrow> 'd StorageDevice \<times> (nat \<Rightarrow> u8) \<Rightarrow> bool" where
  "bc_ok ops data s \<longleftrightarrow> drive_ok ops (sd_blockSize (fst s)) data \<and> bc_inv data (fst s) \<and> (\<forall>x<2 ^ 64. dev_byte data (fst s) x = snd s x)"

lemma bc_boot_ok: "bc_boot data s \<Longrightarrow> drive_ok ops (sd_blockSize (fst s)) data \<Longrightarrow> bc_ok ops data s"
proof -
  assume b: "bc_boot data s" "drive_ok ops (sd_blockSize (fst s)) data"
  have n: "cache_look (fst s) T = None" for T using b(1) by (simp add: bc_boot_def cache_look_entry)
  then show ?thesis using b by (auto simp: bc_ok_def bc_inv_def bc_boot_def es_wf_def dev_byte_def)
qed

lemma bc_step_ok:
  assumes "bc_step ops s s'" and "bc_ok ops data s"
  shows "bc_ok ops data s'"
  using assms(1)
proof cases
  case (read n sd v mk got pos)
  obtain r sd' where t: "read_turn ops mk got pos n sd = (r, sd')" by (cases "read_turn ops mk got pos n sd")
  show ?thesis using assms(2) read_turn_spec [OF _ _ read(3) t, of data] by (simp add: bc_ok_def read t)
next
  case (write_to pos bs sd v mk got)
  obtain r sd' where t: "write_turn ops mk got pos bs sd = (r, sd')" by (cases "write_turn ops mk got pos bs sd")
  show ?thesis using assms(2) write_turn_spec [OF _ _ write_to(3) t, of data] by (simp add: bc_ok_def write_to t overlay_def)
next
  case (flush sd v)
  then show ?thesis using assms(2) sdFlush_spec [of ops sd data] by (simp add: bc_ok_def)
next
  case (free sd found sd' v)
  then show ?thesis using assms(2) free_track_spec [of ops sd data] by (auto simp: bc_ok_def)
qed

lemma bc_reach_ok: "bc_reach ops data s \<Longrightarrow> bc_ok ops data s"
proof (induction rule: bc_reach.induct)
  case (boot s)
  then show ?case using bc_boot_ok [of data s ops] by (simp add: drive_ok_def)
next
  case (step s s')
  then show ?case using bc_step_ok by blast
qed

section \<open>Histories against a device without a cache\<close>

text \<open>
  The second component is now what a device without a cache would hold: every turn of \<open>sdWrite\<close> that is reported done changes it. The
  third is the set of the positions whose last such write was lost. A write is lost when the track is not cached and the thread may not
  allocate, or does not get its frames (\<open>stores\<close> is false; see \<open>write_lost\<close> below); the later write of a position that is stored takes it
  out of the set again.
\<close>

definition span :: "u64 \<Rightarrow> u8 list \<Rightarrow> nat set" where
  "span pos bs = {unat pos..<unat pos + length bs}"

inductive hist_step :: "'d SDOps \<Rightarrow> 'd StorageDevice \<times> (nat \<Rightarrow> u8) \<times> nat set \<Rightarrow> 'd StorageDevice \<times> (nat \<Rightarrow> u8) \<times> nat set \<Rightarrow> bool" for ops where
  read: "n \<noteq> 0 \<Longrightarrow> hist_step ops (sd, v, L) (snd (read_turn ops mk got pos n sd), v, L)"
| failed: "unat pos mod 2 ^ 15 + length bs \<le> 2 ^ 15 \<Longrightarrow> write_turn ops mk got pos bs sd = (Some err, sd') \<Longrightarrow> hist_step ops (sd, v, L) (sd', v, L)"
| done_write: "unat pos mod 2 ^ 15 + length bs \<le> 2 ^ 15 \<Longrightarrow> write_turn ops mk got pos bs sd = (None, sd') \<Longrightarrow>
    hist_step ops (sd, v, L) (sd', overlay v (unat pos) bs, if stores ops mk got pos sd then L - span pos bs else L \<union> span pos bs)"
| flush: "hist_step ops (sd, v, L) (sdFlush ops sd, v, L)"
| free: "free_track ops sd = Some (found, sd') \<Longrightarrow> hist_step ops (sd, v, L) (sd', v, L)"

inductive bc_hist :: "'d SDOps \<Rightarrow> ('d \<Rightarrow> nat \<Rightarrow> u8) \<Rightarrow> 'd StorageDevice \<times> (nat \<Rightarrow> u8) \<times> nat set \<Rightarrow> bool" for ops data where
  boot: "bc_boot data (sd, v) \<Longrightarrow> drive_doc ops (sd_blockSize sd) data \<Longrightarrow> bc_hist ops data (sd, v, {})"
| step: "bc_hist ops data s \<Longrightarrow> hist_step ops s s' \<Longrightarrow> bc_hist ops data s'"

definition hist_ok :: "'d SDOps \<Rightarrow> ('d \<Rightarrow> nat \<Rightarrow> u8) \<Rightarrow> 'd StorageDevice \<times> (nat \<Rightarrow> u8) \<times> nat set \<Rightarrow> bool" where
  "hist_ok ops data s \<longleftrightarrow> (case s of (sd, v, L) \<Rightarrow>
     drive_ok ops (sd_blockSize sd) data \<and> bc_inv data sd \<and> (\<forall>x<2 ^ 64. x \<notin> L \<longrightarrow> dev_byte data sd x = v x))"

lemma hist_step_ok:
  assumes "hist_step ops s s'" and "hist_ok ops data s"
  shows "hist_ok ops data s'"
  using assms(1)
proof cases
  case (read n sd v L mk got pos)
  obtain r sd' where t: "read_turn ops mk got pos n sd = (r, sd')" by (cases "read_turn ops mk got pos n sd")
  show ?thesis using assms(2) read_turn_spec [OF _ _ read(3) t, of data] by (simp add: hist_ok_def read t)
next
  case (failed pos bs mk got sd err sd' v L)
  show ?thesis using assms(2) write_turn_spec [OF _ _ failed(3,4), of data] by (simp add: hist_ok_def failed(1,2))
next
  case (done_write pos bs mk got sd sd' v L)
  have w: "\<forall>x<2 ^ 64. dev_byte data sd' x =
      (if stores ops mk got pos sd \<and> x \<in> span pos bs then bs ! (x - unat pos) else dev_byte data sd x)"
    "bc_inv data sd'" "sd_blockSize sd' = sd_blockSize sd"
    using assms(2) write_turn_spec [OF _ _ done_write(3,4), of data] by (simp_all add: hist_ok_def done_write(1) span_def)
  have o: "overlay v (unat pos) bs x = (if x \<in> span pos bs then bs ! (x - unat pos) else v x)" for x by (simp add: overlay_def span_def)
  show ?thesis using assms(2) w by (simp add: hist_ok_def done_write(1,2) o)
next
  case (flush sd v L)
  then show ?thesis using assms(2) sdFlush_spec [of ops sd data] by (simp add: hist_ok_def)
next
  case (free sd found sd' v L)
  then show ?thesis using assms(2) free_track_spec [of ops sd data] by (auto simp: hist_ok_def)
qed

lemma bc_hist_ok: "bc_hist ops data s \<Longrightarrow> drive_writes ops \<Longrightarrow> hist_ok ops data s"
proof (induction rule: bc_hist.induct)
  case (boot sd v)
  then show ?case using bc_boot_ok [of data "(sd, v)" ops] by (simp add: drive_ok_def hist_ok_def bc_ok_def)
next
  case (step s s')
  then show ?case using hist_step_ok by blast
qed

text \<open>No write of a thread that may allocate and gets its frames is lost.\<close>

lemma stores_sure:
  assumes "drive_ok ops (sd_blockSize sd) data" "bc_inv data sd" "unat pos mod 2 ^ 15 + length bs \<le> 2 ^ 15"
    "write_turn ops True True pos bs sd = (None, sd')"
  shows "stores ops True True pos sd"
  using write_turn_spec [OF assms] by (auto simp: stores_def)

section \<open>Coherence\<close>

text \<open>
  C35: After every history on a drive that does what is documented and whose writes do not fail, a read gets, at every position whose last
  write was not lost, the byte that a device without a cache would hold, or the read fails because the drive does; and the device
  accounts for eight frames for each track it caches. A write is lost when it is reported done although the track is not cached and the
  thread may not allocate or does not get its frames; the allocations that a call makes evict no track of the device.
\<close>

theorem cache_coherent:
  assumes "bc_hist ops data (sd, v, L)" "drive_writes ops" "n \<noteq> 0"
  shows "(case fst (read_turn ops mk got pos n sd) of
            Inr bs \<Rightarrow> length bs = unat (chunk_size pos n) \<and> (\<forall>j<length bs. unat pos + j \<notin> L \<longrightarrow> bs ! j = v (unat pos + j))
          | Inl err \<Rightarrow> fst (read_track ops pos sd) \<noteq> 0) \<and>
    sd_cachedFrames sd = 8 * int (card {T. T < 2 ^ 49 \<and> cache_look sd T \<noteq> None})"
proof -
  have ok: "drive_ok ops (sd_blockSize sd) data" "bc_inv data sd" "\<forall>x<2 ^ 64. x \<notin> L \<longrightarrow> dev_byte data sd x = v x"
    using bc_hist_ok [OF assms(1,2)] by (simp_all add: hist_ok_def)
  obtain r sd' where t: "read_turn ops mk got pos n sd = (r, sd')" by (cases "read_turn ops mk got pos n sd")
  have "unat pos + j < 2 ^ 64" if "j < unat (chunk_size pos n)" for j
  proof -
    have "(unat pos + j) div 2 ^ 15 < 2 ^ 49" using piece(4) [OF assms(3) that] unat_track [of pos] by simp
    then show ?thesis by simp
  qed
  then show ?thesis using read_turn_spec [OF ok(1,2) assms(3) t] ok(2,3) by (simp add: t bc_inv_def split: sum.splits)
qed

text \<open>
  C36: After every history on a drive that does what is documented and whose writes do not fail, a flush leaves on the medium every byte
  that the device holds, and changes none of them; they are those of a device without a cache wherever the last write was not lost, in
  the sense of \<open>bc_hist\<close>. (After a write that fails the track still counts as clean: \<open>flush_write_fails\<close>.)
\<close>

theorem flush_durable:
  assumes "bc_hist ops data (sd, v, L)" "drive_writes ops" "x < 2 ^ 64"
  shows "data (sd_drv (sdFlush ops sd)) x = dev_byte data sd x \<and> dev_byte data (sdFlush ops sd) x = dev_byte data sd x \<and>
    (x \<notin> L \<longrightarrow> data (sd_drv (sdFlush ops sd)) x = v x)"
  using bc_hist_ok [OF assms(1,2)] sdFlush_spec [of ops sd data] assms(3) by (simp add: hist_ok_def)

text \<open>
  C37: After every history on a drive that does what is documented and whose writes do not fail, the search for a track to drop ends; it
  finds one exactly when something is cached, and then gives back eight frames. No byte of the device changes: what is not cached any
  more is on the medium. (After a write that fails the byte is lost: \<open>evict_write_fails\<close>.)
\<close>

theorem eviction_total:
  assumes "bc_hist ops data (sd, v, L)" "drive_writes ops"
  shows "\<exists>found sd'. free_track ops sd = Some (found, sd') \<and> (found \<longleftrightarrow> sd_cachedFrames sd \<noteq> 0) \<and>
    sd_cachedFrames sd' = (if found then sd_cachedFrames sd - 8 else sd_cachedFrames sd) \<and>
    (\<forall>x<2 ^ 64. dev_byte data sd' x = dev_byte data sd x \<and> (x \<notin> L \<longrightarrow> dev_byte data sd' x = v x)) \<and>
    (\<forall>T<2 ^ 49. cache_look sd' T = None \<longrightarrow> (\<forall>j<2 ^ 15. data (sd_drv sd') (T * 2 ^ 15 + j) = dev_byte data sd (T * 2 ^ 15 + j)))"
proof -
  have ok: "drive_ok ops (sd_blockSize sd) data" "bc_inv data sd" "\<forall>x<2 ^ 64. x \<notin> L \<longrightarrow> dev_byte data sd x = v x"
    using bc_hist_ok [OF assms] by (simp_all add: hist_ok_def)
  obtain found sd' where f: "free_track ops sd = Some (found, sd')" "\<forall>x<2 ^ 64. dev_byte data sd' x = dev_byte data sd x"
    "found \<longleftrightarrow> sd_cachedFrames sd \<noteq> 0" "sd_cachedFrames sd' = (if found then sd_cachedFrames sd - 8 else sd_cachedFrames sd)"
    using free_track_spec [OF ok(1,2)] by blast
  have "data (sd_drv sd') (T * 2 ^ 15 + j) = dev_byte data sd (T * 2 ^ 15 + j)" if "T < 2 ^ 49" "cache_look sd' T = None" "j < 2 ^ 15" for T j
  proof -
    have x: "(T * 2 ^ 15 + j) div 2 ^ 15 = T" "T * 2 ^ 15 + j < 2 ^ 64" using that by simp_all
    have "dev_byte data sd' (T * 2 ^ 15 + j) = data (sd_drv sd') (T * 2 ^ 15 + j)" unfolding dev_byte_def x(1) that(2) by simp
    then show ?thesis using f(2) x(2) by simp
  qed
  then show ?thesis using f ok(3) by auto
qed

text \<open>
  What an eviction does in the middle of \<open>sdGetCache\<close>: when \<open>phmAllocFrame\<close> is called the nodes of the path are in the tree and the
  track is not, which is the tree that a call without frames leaves. If no track is cached, an eviction then empties the whole tree: the
  nodes are freed, and the call goes on to store the track in one of them.
\<close>

lemma walk_evicted:
  assumes "bc_hist ops data (sd, v, L)" "drive_writes ops" "sd_cachedFrames sd = 0" "sdGetCache ops False sd pos True dirty = (r, sd1)"
  shows "r = Inl SD_ENOMEM \<and> (\<exists>sd2. free_track ops sd1 = Some (False, sd2) \<and> (\<forall>i<128. sd_cacheTop sd2 ! i = None))"
proof -
  have ok: "drive_ok ops (sd_blockSize sd) data" "bc_inv data sd" using bc_hist_ok [OF assms(1,2)] by (simp_all add: hist_ok_def)
  have c0: "{T. T < 2 ^ 49 \<and> cache_look sd T \<noteq> None} = {}" using ok(2) assms(3) by (simp add: bc_inv_def)
  then have n: "cache_look sd (unat pos div 2 ^ 15) = None" using unat_track [of pos] by blast
  note g = get_keeps [OF ok refl assms(4)]
  have wf: "es_wf 6 (sd_cacheTop sd)" using ok(2) by (simp add: bc_inv_def)
  note s = sdGetCache_spec [OF wf refl assms(4) conjunct1 [OF load_track_length [OF ok(1)]]]
  have r: "r = Inl SD_ENOMEM" "sd_cachedFrames sd1 = 0" using s n assms(3) by (auto simp: load_track_def split: sum.splits)
  have ok1: "drive_ok ops (sd_blockSize sd1) data" "bc_inv data sd1" using g ok(1) by simp_all
  have wf1: "es_wf 6 (sd_cacheTop sd1)" using ok1(2) by (simp add: bc_inv_def)
  obtain sd2 where f: "free_track ops sd1 = Some (False, sd2)" using free_track_spec [OF ok1] r(2) by auto
  obtain es d where t: "sdTryFree 6 ops (sd_blockSize sd1) 0 (sd_cacheTop sd1, sd_drv sd1) = Some (False, es, d)" "sd_cacheTop sd2 = es"
    using f by (auto simp: free_track_def split: option.splits prod.splits)
  have "(0 + 1) * 128 ^ Suc 6 \<le> (2 ^ 49 :: nat)" by simp
  from sdTryFree_spec [OF ok1(1) this wf1, of "sd_drv sd1"] t(1) have "dropped data 6 0 (sd_cacheTop sd1) (sd_drv sd1) False es d" by auto
  then have "\<forall>i<128. es ! i = None" by (simp add: dropped_def)
  then show ?thesis using r f t(2) by blast
qed

section \<open>The loops\<close>

text \<open>The drive never fails.\<close>

definition drive_reads :: "'d SDOps \<Rightarrow> bool" where
  "drive_reads ops \<longleftrightarrow> (\<forall>d s n. fst (readBlocks ops d s n) = 0)"

lemma read_track_0: "drive_reads ops \<Longrightarrow> fst (read_track ops pos sd) = 0"
  by (simp add: drive_reads_def read_track_def)

lemma next_piece:
  assumes "unat pos + unat n \<le> 2 ^ 64" "n \<noteq> 0"
  shows "unat (n - chunk_size pos n) = unat n - unat (chunk_size pos n)" "unat pos + unat (chunk_size pos n) < 2 ^ 64 \<or> n - chunk_size pos n = 0"
    "unat pos + unat (chunk_size pos n) < 2 ^ 64 \<Longrightarrow> unat (pos + chunk_size pos n) = unat pos + unat (chunk_size pos n)"
proof -
  have c: "unat (chunk_size pos n) \<le> unat n" by (rule piece(3) [OF assms(2)])
  show u: "unat (n - chunk_size pos n) = unat n - unat (chunk_size pos n)" using c by (simp add: unat_sub word_le_nat_alt)
  show "unat pos + unat (chunk_size pos n) < 2 ^ 64 \<or> n - chunk_size pos n = 0"
  proof (cases "unat pos + unat (chunk_size pos n) < 2 ^ 64")
    case False
    then have "unat n - unat (chunk_size pos n) = 0" using assms(1) by linarith
    then show ?thesis using u by (metis unat_eq_zero)
  qed simp
  show "unat pos + unat (chunk_size pos n) < 2 ^ 64 \<Longrightarrow> unat (pos + chunk_size pos n) = unat pos + unat (chunk_size pos n)"
    by (simp add: unat_word_ariths)
qed

lemma map_upt_split: "k \<le> n \<Longrightarrow> map f [0..<k] @ map (\<lambda>j. f (k + j)) [0..<n - k] = map f [0..<n]"
  by (rule nth_equalityI) (auto simp: nth_append)

lemma sdRead_loop_spec:
  "drive_reads ops \<Longrightarrow> drive_ok ops (sd_blockSize sd) data \<Longrightarrow> bc_inv data sd \<Longrightarrow> unat pos + unat n \<le> 2 ^ 64 \<Longrightarrow>
    fst (sdRead_loop ops mk got pos n buf sd) = Inr (buf @ map (\<lambda>j. dev_byte data sd (unat pos + j)) [0..<unat n])"
proof (induction ops mk got pos n buf sd rule: sdRead_loop.induct)
  case (1 ops mk got pos n buf sd)
  show ?case
  proof (cases "n = 0")
    case True
    then show ?thesis by (simp add: sdRead_loop.simps)
  next
    case False
    let ?k = "chunk_size pos n" and ?f = "\<lambda>j. dev_byte data sd (unat pos + j)"
    obtain r sd' where t: "read_turn ops mk (got pos) pos n sd = (r, sd')" by (cases "read_turn ops mk (got pos) pos n sd")
    note s = read_turn_spec [OF "1.prems"(2,3) False t]
    have "fst (read_track ops pos sd) = 0" by (rule read_track_0 [OF "1.prems"(1)])
    then obtain bs where bs: "r = Inr bs" "bs = map ?f [0..<unat ?k]" using s by (cases r) auto
    have step: "sdRead_loop ops mk got pos n buf sd = sdRead_loop ops mk got (pos + ?k) (n - ?k) (buf @ bs) sd'"
      using False t bs(1) by (simp add: sdRead_loop.simps [of ops mk got pos n buf sd] Let_def)
    have k: "unat ?k \<le> unat n" by (rule piece(3) [OF False])
    note np = next_piece [OF "1.prems"(4) False]
    show ?thesis
    proof (cases "unat pos + unat ?k < 2 ^ 64")
      case True
      have ok': "drive_ok ops (sd_blockSize sd') data" "bc_inv data sd'" using s "1.prems"(2) by simp_all
      have "unat (pos + ?k) + unat (n - ?k) \<le> 2 ^ 64" using np(1) np(3) [OF True] k "1.prems"(4) by simp
      from "1.IH" [OF False refl t [symmetric] bs(1) "1.prems"(1) ok' this]
      have "fst (sdRead_loop ops mk got (pos + ?k) (n - ?k) (buf @ bs) sd') =
          Inr ((buf @ bs) @ map (\<lambda>j. dev_byte data sd' (unat pos + unat ?k + j)) [0..<unat n - unat ?k])"
        unfolding np(1) np(3) [OF True] .
      moreover have "map (\<lambda>j. dev_byte data sd' (unat pos + unat ?k + j)) [0..<unat n - unat ?k] = map (\<lambda>j. ?f (unat ?k + j)) [0..<unat n - unat ?k]"
        using s "1.prems"(4) by (simp add: add.assoc)
      ultimately show ?thesis unfolding step bs(2) using map_upt_split [OF k, of ?f] by simp
    next
      case False
      then have z: "n - ?k = 0" using np(2) by blast
      then have "unat n = unat ?k" by simp
      then show ?thesis unfolding step z bs(2) by (simp add: sdRead_loop.simps)
    qed
  qed
qed

lemma get_flags: "sd_flags (snd (sdGetCache ops got sd pos mk dirty)) = sd_flags sd"
  by (simp add: sdGetCache_def split: list.splits prod.splits)

lemma write_turn_flags: "sd_flags (snd (write_turn ops mk got pos bs sd)) = sd_flags sd"
proof -
  obtain g sd1 where g: "sdGetCache ops got sd pos mk True = (g, sd1)" by (cases "sdGetCache ops got sd pos mk True")
  have "sd_flags sd1 = sd_flags sd" using get_flags [of ops got sd pos mk True] g by simp
  then show ?thesis using g by (simp add: write_turn_def put_track_def Let_def split: sum.splits prod.splits list.splits)
qed

lemma overlay_split:
  "k \<le> length buf \<Longrightarrow> overlay (overlay f p (take k buf)) (p + k) (drop k buf) x = overlay f p buf x"
  by (auto simp: overlay_def min_def nth_append)

lemma overlay_cong: "f x = g x \<Longrightarrow> overlay f p bs x = overlay g p bs x"
  by (simp add: overlay_def)

lemma sdWrite_loop_spec:
  "drive_reads ops \<Longrightarrow> mk \<and> (\<forall>p. got p) \<Longrightarrow> drive_ok ops (sd_blockSize sd) data \<Longrightarrow> bc_inv data sd \<Longrightarrow> unat pos + unat n \<le> 2 ^ 64 \<Longrightarrow>
    length buf = unat n \<Longrightarrow>
    \<exists>sd'. sdWrite_loop ops mk got pos n buf written sd = (Inr (written + n), sd') \<and> drive_ok ops (sd_blockSize sd') data \<and> bc_inv data sd' \<and>
      sd_flags sd' = sd_flags sd \<and> (\<forall>x<2 ^ 64. dev_byte data sd' x = overlay (dev_byte data sd) (unat pos) buf x)"
proof (induction ops mk got pos n buf written sd rule: sdWrite_loop.induct)
  case (1 ops mk got pos n buf written sd)
  show ?case
  proof (cases "n = 0")
    case True
    then show ?thesis using "1.prems" by (auto simp: sdWrite_loop.simps overlay_def)
  next
    case False
    let ?k = "chunk_size pos n"
    let ?bs = "take (unat ?k) buf"
    obtain r sd1 where t: "write_turn ops mk (got pos) pos ?bs sd = (r, sd1)" by (cases "write_turn ops mk (got pos) pos ?bs sd")
    have k: "unat ?k \<le> unat n" by (rule piece(3) [OF False])
    have len: "length ?bs = unat ?k" using k "1.prems"(6) by simp
    have off: "unat (pos AND 0x7FFF) = unat pos mod 2 ^ 15" by (rule unat_low_15)
    have fit: "unat pos mod 2 ^ 15 + length ?bs \<le> 2 ^ 15" using piece(1) [OF False, of pos] off unfolding len by simp
    have st: "stores ops mk (got pos) pos sd" using "1.prems"(1,2) by (simp add: stores_def read_track_0)
    note s = write_turn_spec [OF "1.prems"(3,4) fit t]
    have r: "r = None" using s st by simp
    have fl: "sd_flags sd1 = sd_flags sd" using write_turn_flags [of ops mk "got pos" pos ?bs sd] t by simp
    have step: "sdWrite_loop ops mk got pos n buf written sd = sdWrite_loop ops mk got (pos + ?k) (n - ?k) (drop (unat ?k) buf) (written + ?k) sd1"
      using False t r by (simp add: sdWrite_loop.simps [of ops mk got pos n buf written sd] Let_def)
    have d1: "dev_byte data sd1 x = overlay (dev_byte data sd) (unat pos) ?bs x" if "x < 2 ^ 64" for x using s st that by (simp add: overlay_def)
    note np = next_piece [OF "1.prems"(5) False]
    show ?thesis
    proof (cases "unat pos + unat ?k < 2 ^ 64")
      case True
      have ok1: "drive_ok ops (sd_blockSize sd1) data" "bc_inv data sd1" using s "1.prems"(3) by simp_all
      have p1: "unat (pos + ?k) + unat (n - ?k) \<le> 2 ^ 64" using np(1) np(3) [OF True] k "1.prems"(5) by simp
      have l1: "length (drop (unat ?k) buf) = unat (n - ?k)" using np(1) "1.prems"(6) by simp
      from "1.IH" [OF False refl t [symmetric] r "1.prems"(1,2) ok1 p1 l1] obtain sd' where
        w: "sdWrite_loop ops mk got (pos + ?k) (n - ?k) (drop (unat ?k) buf) (written + ?k) sd1 = (Inr (written + ?k + (n - ?k)), sd')"
           "drive_ok ops (sd_blockSize sd') data" "bc_inv data sd'" "sd_flags sd' = sd_flags sd1"
           "\<forall>x<2 ^ 64. dev_byte data sd' x = overlay (dev_byte data sd1) (unat (pos + ?k)) (drop (unat ?k) buf) x" by blast
      have "dev_byte data sd' x = overlay (dev_byte data sd) (unat pos) buf x" if "x < 2 ^ 64" for x
      proof -
        have "dev_byte data sd' x = overlay (dev_byte data sd1) (unat pos + unat ?k) (drop (unat ?k) buf) x" using w(5) that np(3) [OF True] by simp
        also have "\<dots> = overlay (overlay (dev_byte data sd) (unat pos) ?bs) (unat pos + unat ?k) (drop (unat ?k) buf) x"
          by (rule overlay_cong) (rule d1 [OF that])
        also have "\<dots> = overlay (dev_byte data sd) (unat pos) buf x" using overlay_split k "1.prems"(6) by simp
        finally show ?thesis .
      qed
      then show ?thesis using w fl unfolding step by simp
    next
      case False
      then have z: "n - ?k = 0" using np(2) by blast
      then have e: "n = ?k" by simp
      then have b: "?bs = buf" using "1.prems"(6) by simp
      have "sdWrite_loop ops mk got (pos + ?k) 0 (drop (unat ?k) buf) (written + ?k) sd1 = (Inr (written + ?k), sd1)" by (simp add: sdWrite_loop.simps)
      then show ?thesis using d1 [unfolded b] fl s "1.prems"(3) e unfolding step z by simp
    qed
  qed
qed

text \<open>
  C38: On a drive that does not fail, \<open>sdWrite\<close> by a thread that may allocate stores all its bytes over any number of
  tracks, and changes no others; \<open>sdRead\<close> of the range, by any thread, returns them.
\<close>

theorem sd_roundtrip:
  assumes "bc_reach ops data (sd, v)" "drive_reads ops" "\<not> has (sd_flags sd) SD_HANGUP" "unat pos + length buf \<le> 2 ^ 64" "length buf < 2 ^ 64"
  shows "\<exists>sd'. sdWrite ops True (\<lambda>p. True) pos buf sd = (Inr (of_nat (length buf)), sd') \<and>
    fst (sdRead ops mk got pos (of_nat (length buf)) sd') = Inr buf \<and> (\<forall>x<2 ^ 64. dev_byte data sd' x = overlay v (unat pos) buf x)"
proof -
  have ok: "drive_ok ops (sd_blockSize sd) data" "bc_inv data sd" "\<forall>x<2 ^ 64. dev_byte data sd x = v x"
    using bc_reach_ok [OF assms(1)] by (simp_all add: bc_ok_def)
  have n: "unat (of_nat (length buf) :: u64) = length buf" using assms(5) by (simp add: unat_of_nat)
  have p: "unat pos + unat (of_nat (length buf) :: u64) \<le> 2 ^ 64" using assms(4) n by simp
  from sdWrite_loop_spec [OF assms(2) _ ok(1,2) p n [symmetric], of True "\<lambda>p. True" 0] obtain sd' where
    w: "sdWrite_loop ops True (\<lambda>p. True) pos (of_nat (length buf)) buf 0 sd = (Inr (of_nat (length buf)), sd')"
       "drive_ok ops (sd_blockSize sd') data" "bc_inv data sd'" "sd_flags sd' = sd_flags sd"
       "\<forall>x<2 ^ 64. dev_byte data sd' x = overlay (dev_byte data sd) (unat pos) buf x" by auto
  have b: "dev_byte data sd' x = overlay v (unat pos) buf x" if "x < 2 ^ 64" for x using w(5) ok(3) that by (simp add: overlay_def)
  have "map (\<lambda>j. dev_byte data sd' (unat pos + j)) [0..<length buf] = buf"
    by (rule nth_equalityI) (use b assms(4) in \<open>simp_all add: overlay_def\<close>)
  then have "fst (sdRead_loop ops mk got pos (of_nat (length buf)) [] sd') = Inr buf" using sdRead_loop_spec [OF assms(2) w(2,3) p] n by simp
  then show ?thesis using w b assms(3) by (simp add: sdWrite_def sdRead_def)
qed

text \<open>
  C40: A thread that may not allocate and writes to a track that is not cached is told that all was written, but nothing is:
  not in the cache, and not on the medium.
\<close>

theorem write_lost:
  assumes "bc_reach ops data (sd, v)" "drive_reads ops" "\<not> has (sd_flags sd) SD_HANGUP" "unat pos mod 2 ^ 15 + length buf \<le> 2 ^ 15" "buf \<noteq> []"
    "cache_look sd (unat pos div 2 ^ 15) = None"
  shows "fst (sdWrite ops False got pos buf sd) = Inr (of_nat (length buf)) \<and>
    (\<forall>x<2 ^ 64. dev_byte data (snd (sdWrite ops False got pos buf sd)) x = v x)"
proof -
  have ok: "drive_ok ops (sd_blockSize sd) data" "bc_inv data sd" "\<forall>x<2 ^ 64. dev_byte data sd x = v x"
    using bc_reach_ok [OF assms(1)] by (simp_all add: bc_ok_def)
  let ?n = "of_nat (length buf) :: u64"
  have l: "length buf \<le> 2 ^ 15" using assms(4) by simp
  then have n: "unat ?n = length buf" by (simp add: unat_of_nat)
  then have n0: "?n \<noteq> 0" using assms(5) by (metis length_0_conv unat_0)
  have "unat (chunk_size pos ?n) = length buf" using assms(4) n by (simp add: unat_chunk)
  then have k: "chunk_size pos ?n = ?n" using n by (metis word_unat_eq_iff)
  obtain r sd' where t: "write_turn ops False (got pos) pos buf sd = (r, sd')" by (cases "write_turn ops False (got pos) pos buf sd")
  note s = write_turn_spec [OF ok(1,2) assms(4) t]
  have ns: "\<not> stores ops False (got pos) pos sd" using assms(6) by (simp add: stores_def)
  have r: "r = None" using s read_track_0 [OF assms(2), of pos sd] by blast
  have "sdWrite_loop ops False got pos ?n buf 0 sd = (Inr ?n, sd')"
    using n0 t r by (simp add: sdWrite_loop.simps [of ops False got pos] sdWrite_loop.simps [of ops False got _ 0] k n Let_def)
  then show ?thesis using s ns ok(3) assms(3) by (simp add: sdWrite_def)
qed

section \<open>Device files\<close>

text \<open>The files that are open, with the field \<open>openParts\<close>; up to 64 partitions have a bit.\<close>

inductive open_reach :: "int list \<Rightarrow> u64 \<Rightarrow> bool" where
  none: "open_reach [] 0"
| open_file: "open_reach hs w \<Longrightarrow> -1 \<le> p \<Longrightarrow> p < 64 \<Longrightarrow> sdfile_open p w = Inr w' \<Longrightarrow> open_reach (p # hs) w'"
| close_file: "open_reach hs w \<Longrightarrow> p \<in> set hs \<Longrightarrow> open_reach (remove1 p hs) (sdfile_close p w)"

lemma has_push_bit: "has (w :: u64) (push_bit n 1) \<longleftrightarrow> bit w n"
proof -
  have "w AND push_bit n 1 = (if bit w n then push_bit n 1 else 0)" by (rule bit_eqI) (auto simp: bit_simps)
  moreover have "bit w n \<Longrightarrow> push_bit n 1 \<noteq> (0 :: u64)" using bit_imp_le_length [of w n] by (simp add: push_bit_eq_mult)
  ultimately show ?thesis by (simp add: has_def)
qed

text \<open>
  C39: Over every history of opening and closing the files of a device and of its partitions, no partition is open twice, and none while
  the file of the device is; \<open>openParts\<close> has the bits of the partitions that are open, and those alone. Partitions are
  numbered below 64.
\<close>

theorem open_exclusive: "open_reach hs w \<Longrightarrow>
  distinct hs \<and> (-1 \<in> set hs \<longrightarrow> hs = [-1] \<and> w = SD_MASTER_OPEN) \<and> (-1 \<notin> set hs \<longrightarrow> (\<forall>i<64. bit w i \<longleftrightarrow> int i \<in> set hs)) \<and> (\<forall>p\<in>set hs. -1 \<le> p \<and> p < 64)"
proof (induction rule: open_reach.induct)
  case none
  then show ?case by simp
next
  case (open_file hs w p w')
  show ?case
  proof (cases "p = -1")
    case True
    then have w: "w = 0" "w' = SD_MASTER_OPEN" using open_file.hyps(4) by (simp_all add: sdfile_open_def split: if_splits)
    have "hs = []"
    proof (cases "-1 \<in> set hs")
      case True
      then show ?thesis using open_file.IH w(1) by simp
    next
      case False
      then have "int i \<notin> set hs" if "i < 64" for i using open_file.IH w(1) that by auto
      moreover have "\<exists>i<64. p = int i" if "p \<in> set hs" for p using open_file.IH that False
        by (intro exI [of _ "nat p"]) (metis int_nat_eq linorder_not_le nat_less_iff neg_0_le_iff_le not_one_le_zero of_nat_numeral
          zle_add1_eq_le add_neg_numeral_special(8) antisym_conv2 order_less_le_trans verit_la_disequality zless_imp_add1_zle)
      ultimately show ?thesis by (metis ex_in_conv set_empty)
    qed
    then show ?thesis using True w by simp
  next
    case False
    then have p: "nat p < 64" "int (nat p) = p" using open_file.hyps(2,3) by simp_all
    have w: "\<not> bit w (nat p)" "w' = w OR push_bit (nat p) 1" using open_file.hyps(4) False unfolding sdfile_open_def Let_def has_push_bit by (simp_all split: if_splits)
    have n: "-1 \<notin> set hs"
    proof
      assume "-1 \<in> set hs"
      then show False using open_file.IH w(1) p(1) by simp
    qed
    have b: "bit w' i \<longleftrightarrow> bit w i \<or> i = nat p" if "i < 64" for i using that unfolding w(2) by (auto simp: bit_simps)
    have "p \<notin> set hs" using open_file.IH n w(1) p by auto
    moreover have "0 \<le> p" using open_file.hyps(2) False by linarith
    moreover have "int i = p \<longleftrightarrow> i = nat p" for i using p(2) by auto
    ultimately show ?thesis using open_file.IH open_file.hyps(3) n b False by auto
  qed
next
  case (close_file hs w p)
  show ?case
  proof (cases "p = -1")
    case True
    then show ?thesis using close_file by (auto simp: sdfile_close_def)
  next
    case False
    then have n: "-1 \<notin> set hs" using close_file by auto
    have p: "int (nat p) = p" "nat p < 64" using close_file False by auto
    have b: "bit (sdfile_close p w) i \<longleftrightarrow> bit w i \<and> i \<noteq> nat p" if "i < 64" for i
      using that False by (auto simp: sdfile_close_def bit_simps)
    have "int i \<in> set (remove1 p hs) \<longleftrightarrow> int i \<in> set hs \<and> i \<noteq> nat p" for i using close_file.IH p by auto
    then show ?thesis using close_file.IH n b notin_set_remove1 [of "-1" hs p] by (auto dest: set_remove1_subset [THEN subsetD])
  qed
qed

theorem open_exclusive_witness: "\<exists>w. open_reach [5, 2] w \<and> bit w 2 \<and> bit w 5 \<and> \<not> bit w 3 \<and> sdfile_open 2 w = Inl EBUSY \<and> sdfile_open (-1) w = Inl EBUSY"
proof -
  have o: "open_reach [5, 2] 0x24"
    by (rule open_reach.open_file [of "[2]" 4], rule open_reach.open_file [OF open_reach.none]) (simp_all add: sdfile_open_def Let_def has_def)
  from open_exclusive [OF o] have b: "\<forall>i<64. bit (0x24 :: u64) i \<longleftrightarrow> int i \<in> set [5, 2]" by simp
  have "bit (0x24 :: u64) 2" using b [rule_format, of 2] by simp
  moreover have "bit (0x24 :: u64) 5" using b [rule_format, of 5] by simp
  moreover have "\<not> bit (0x24 :: u64) 3" using b [rule_format, of 3] by simp
  moreover have "sdfile_open 2 0x24 = Inl EBUSY" "sdfile_open (-1) 0x24 = Inl EBUSY" by (simp_all add: sdfile_open_def Let_def has_def)
  ultimately show ?thesis using o by blast
qed

text \<open>A request stays inside its partition, unless the end of the request overflows.\<close>

lemma part_size_bounds:
  assumes "hsize \<noteq> 0" "offset < hsize" "unat offset + unat n < 2 ^ 64"
  shows "unat offset + unat (part_size hsize offset n) \<le> unat hsize"
proof -
  have u: "unat (offset + n) = unat offset + unat n" using assms(3) by (simp add: unat_word_ariths)
  show ?thesis
  proof (cases "offset + n > hsize")
    case True
    then have "part_size hsize offset n = hsize - offset" using assms by (auto simp: part_size_def)
    moreover have "offset \<le> hsize" using assms(2) by simp
    moreover from this have "unat (hsize - offset) = unat hsize - unat offset" "unat offset \<le> unat hsize"
      by (simp_all add: unat_sub word_le_nat_alt)
    ultimately show ?thesis by simp
  next
    case False
    then have "part_size hsize offset n = n" using assms by (auto simp: part_size_def)
    then show ?thesis using False u by (simp add: word_less_nat_alt)
  qed
qed

lemma part_size_overflow: "part_size 0x1000 0x10 (- 8) = - 8"
  by (simp add: part_size_def)

text \<open>
  \<open>sdHangup\<close> clears the letter of the device before it computes from it the slot of the list to clear: it writes
  before the list, the device stays on the list, and \<open>sdSync\<close> goes on to flush it, while its letter can be given out again.
\<close>

theorem hangup_keeps_slot:
  assumes "97 \<le> sg_letter g a" "sg_letter g a \<le> 122" "sdList g (sg_letter g a - 97) = Some a"
  shows "a \<in> set (sync_devices (sdHangup a g)) \<and> sg_hangup (sdHangup a g) a \<and> \<not> bit (sdLetters (sdHangup a g)) (nat (sg_letter g a - 97)) \<and>
    sdList (sdHangup a g) = (sdList g)(-97 := None)"
proof -
  have l: "sdList (sdHangup a g) = (sdList g)(-97 := None)" "sg_hangup (sdHangup a g) a"
    "sdLetters (sdHangup a g) = sdLetters g AND NOT (push_bit (nat (sg_letter g a - 97)) 1)"
    by (simp_all add: sdHangup_def sdFreeLetter_def Let_def)
  define i where "i = nat (sg_letter g a - 97)"
  have i: "i < 26" "int i = sg_letter g a - 97" using assms(1,2) by (simp_all add: i_def)
  have "sdList (sdHangup a g) (int i) = Some a" using assms(3) l(1) i by simp
  then have "a \<in> set (sync_devices (sdHangup a g))" using i(1) by (force simp: sync_devices_def map_filter_def)
  moreover have "\<not> bit (sdLetters (sdHangup a g)) i" using i(1) unfolding l(3) i_def [symmetric] by (simp add: bit_simps)
  ultimately show ?thesis using l by (simp add: i_def)
qed

theorem hangup_keeps_slot_witness:
  "5 \<in> set (sync_devices (sdHangup 5 (snd (sdCreate 5 \<lparr>sdLetters = 0, sdList = (\<lambda>i. None), sg_letter = (\<lambda>a. 0), sg_numSubs = (\<lambda>a. 0),
     sg_refcount = (\<lambda>a. 0), sg_hangup = (\<lambda>a. False)\<rparr>))))"
proof -
  define g where "g = snd (sdCreate 5 \<lparr>sdLetters = 0, sdList = (\<lambda>i. None), sg_letter = (\<lambda>a. 0), sg_numSubs = (\<lambda>a. 0),
     sg_refcount = (\<lambda>a. 0), sg_hangup = (\<lambda>a. False)\<rparr>)"
  have "sg_letter g 5 = 97" "sdList g 0 = Some 5" by (simp_all add: g_def sdCreate_def sdAllocLetter_def upt_conv_Cons)
  then show ?thesis using hangup_keeps_slot [of g 5] unfolding g_def [symmetric] by simp
qed

section \<open>A drive in memory\<close>

definition ram_ops :: "(nat \<Rightarrow> u8) SDOps" where
  "ram_ops = \<lparr>readBlocks = (\<lambda>d s n. (0, map (\<lambda>j. d (unat s * 512 + j)) [0..<unat n * 512])),
     writeBlocks = (\<lambda>d s n t. (0, \<lambda>x. if unat s * 512 \<le> x \<and> x < unat s * 512 + length t then t ! (x - unat s * 512) else d x))\<rparr>"

definition demo_sd :: "(nat \<Rightarrow> u8) StorageDevice" where
  "demo_sd = \<lparr>sd_flags = 0, sd_blockSize = 512, sd_cacheTop = replicate 128 None, sd_drv = (\<lambda>x. 7), sd_cachedFrames = 0\<rparr>"

lemma ram_doc: "drive_doc ram_ops 512 (\<lambda>d. d)"
  by (auto simp: drive_doc_def ram_ops_def)

lemma ram_writes: "drive_writes ram_ops"
  by (simp add: drive_writes_def ram_ops_def)

lemma ram_reads: "drive_reads ram_ops"
  by (simp add: drive_reads_def ram_ops_def)

lemma demo_sd_reach: "bc_reach ram_ops (\<lambda>d. d) (demo_sd, \<lambda>x. 7)"
  by (rule bc_reach.boot) (simp_all add: bc_boot_def demo_sd_def ram_doc ram_writes)

lemma demo_sd_empty: "cache_look demo_sd T = None"
  by (simp add: cache_look_entry demo_sd_def)

definition demo_sd1 :: "(nat \<Rightarrow> u8) StorageDevice" where
  "demo_sd1 = snd (write_turn ram_ops True True 5 [9] demo_sd)"

text \<open>A byte is written through the cache, then one to a track that is not cached, by a thread that may not allocate: it is lost.\<close>

lemma demo_sd_hist: "bc_hist ram_ops (\<lambda>d. d) (demo_sd, \<lambda>x. 7, {})"
  by (rule bc_hist.boot) (simp_all add: bc_boot_def demo_sd_def ram_doc)

lemma demo_sd_ok: "drive_ok ram_ops (sd_blockSize demo_sd) (\<lambda>d. d)" "bc_inv (\<lambda>d. d) demo_sd"
  using bc_hist_ok [OF demo_sd_hist ram_writes] by (simp_all add: hist_ok_def)

lemma demo_sd1_turn: "write_turn ram_ops True True 5 [9] demo_sd = (None, demo_sd1)"
proof -
  obtain r where w: "write_turn ram_ops True True 5 [9] demo_sd = (r, demo_sd1)"
    by (cases "write_turn ram_ops True True 5 [9] demo_sd") (simp add: demo_sd1_def)
  then show ?thesis using write_turn_spec [OF demo_sd_ok _ w] read_track_0 [OF ram_reads, of 5 demo_sd] by simp
qed

lemma demo_sd1_hist: "bc_hist ram_ops (\<lambda>d. d) (demo_sd1, overlay (\<lambda>x. 7) 5 [9], {})"
proof -
  have s: "stores ram_ops True True 5 demo_sd" by (rule stores_sure [OF demo_sd_ok _ demo_sd1_turn]) simp
  show ?thesis using bc_hist.step [OF demo_sd_hist hist_step.done_write [OF _ demo_sd1_turn, of "\<lambda>x. 7" "{}"]] s by simp
qed

lemma demo_sd1_look: "sd_cachedFrames demo_sd1 = 8 \<and> (\<forall>T<2 ^ 49. T \<noteq> 0 \<longrightarrow> cache_look demo_sd1 T = None)"
proof -
  obtain g sd1 where g: "sdGetCache ram_ops True demo_sd 5 True True = (g, sd1)" by (cases "sdGetCache ram_ops True demo_sd 5 True True")
  have wf: "es_wf 6 (sd_cacheTop demo_sd)" using demo_sd_ok(2) by (simp add: bc_inv_def)
  note ll = conjunct1 [OF load_track_length [OF demo_sd_ok(1), where got = True and pos = 5]]
  note s = sdGetCache_spec [OF wf refl g ll]
  have "fst (read_track ram_ops 5 demo_sd) = 0" by (rule read_track_0 [OF ram_reads])
  then have "load_track ram_ops True 5 demo_sd \<noteq> Inl err" for err by (auto simp: load_track_def split: prod.splits)
  then obtain t where t: "g = Inr t" using s by (cases g) auto
  have c: "es_wf 6 (sd_cacheTop sd1)" "cache_look sd1 0 = Some (True, t)" "sd_cachedFrames sd1 = 8" "\<forall>U<2 ^ 49. U \<noteq> 0 \<longrightarrow> cache_look sd1 U = None"
    "length t = 2 ^ 15"
    using s t demo_sd_empty load_track_length [OF demo_sd_ok(1), of True 5 t] by (auto simp: demo_sd_def)
  have d: "demo_sd1 = put_track 5 (overwrite 5 [9] t) sd1" using demo_sd1_turn g t unat_low_15 [of 5] by (simp add: write_turn_def Let_def)
  have l: "length (overwrite 5 [9] t) = 2 ^ 15" using c(5) by (simp add: overwrite_nth)
  from put_track_look [OF c(1) _ c(2) l, of 5] show ?thesis unfolding d using c by simp
qed

definition demo_sd2 :: "(nat \<Rightarrow> u8) StorageDevice" where
  "demo_sd2 = snd (write_turn ram_ops False True 0x8000 [4] demo_sd1)"

lemma demo_sd2_hist: "bc_hist ram_ops (\<lambda>d. d) (demo_sd2, overlay (overlay (\<lambda>x. 7) 5 [9]) 0x8000 [4], {0x8000})"
proof -
  have ok: "drive_ok ram_ops (sd_blockSize demo_sd1) (\<lambda>d. d)" "bc_inv (\<lambda>d. d) demo_sd1"
    using bc_hist_ok [OF demo_sd1_hist ram_writes] by (simp_all add: hist_ok_def)
  have s: "\<not> stores ram_ops False True 0x8000 demo_sd1" using demo_sd1_look by (simp add: stores_def)
  obtain r where w: "write_turn ram_ops False True 0x8000 [4] demo_sd1 = (r, demo_sd2)"
    by (cases "write_turn ram_ops False True 0x8000 [4] demo_sd1") (simp add: demo_sd2_def)
  have "r = None" using write_turn_spec [OF ok _ w] read_track_0 [OF ram_reads, of "0x8000" demo_sd1] by simp
  moreover have "span 0x8000 [4] = {0x8000}" by (auto simp: span_def)
  ultimately show ?thesis using bc_hist.step [OF demo_sd1_hist hist_step.done_write [OF _ w [unfolded \<open>r = None\<close>]]] s by simp
qed

theorem cache_coherent_witness: "\<exists>bs. fst (read_turn ram_ops True True 5 1 demo_sd2) = Inr bs \<and> bs = [9]"
proof -
  have c: "unat (chunk_size 5 1) = 1" by (simp add: unat_chunk)
  have r: "fst (read_track ram_ops 5 demo_sd2) = 0" by (rule read_track_0 [OF ram_reads])
  from cache_coherent [OF demo_sd2_hist ram_writes, where n = 1 and mk = True and got = True and pos = 5] c r show ?thesis
    by (auto simp: overlay_def length_Suc_conv split: sum.splits)
qed

theorem flush_durable_witness: "sd_drv (sdFlush ram_ops demo_sd2) 5 = 9"
proof -
  have "(5 :: nat) < 2 ^ 64" by simp
  from flush_durable [OF demo_sd2_hist ram_writes this] have "sd_drv (sdFlush ram_ops demo_sd2) 5 = 9" by (elim conjE) (simp only: overlay_def, simp)
  then show ?thesis by simp
qed

text \<open>The device caches a track that is dirty; the eviction finds it, and the byte is on the medium.\<close>

theorem eviction_total_witness:
  "sd_cachedFrames demo_sd1 = 8 \<and> (\<exists>sd'. free_track ram_ops demo_sd1 = Some (True, sd') \<and> sd_cachedFrames sd' = 0 \<and> dev_byte (\<lambda>d. d) sd' 5 = 9)"
proof -
  obtain found sd' where e: "free_track ram_ops demo_sd1 = Some (found, sd')" "found \<longleftrightarrow> sd_cachedFrames demo_sd1 \<noteq> 0"
    "sd_cachedFrames sd' = (if found then sd_cachedFrames demo_sd1 - 8 else sd_cachedFrames demo_sd1)"
    "\<forall>x<2 ^ 64. dev_byte (\<lambda>d. d) sd' x = overlay (\<lambda>x. 7) 5 [9] x"
    using eviction_total [OF demo_sd1_hist ram_writes] by auto
  have "dev_byte (\<lambda>d. d) sd' 5 = 9" using e(4) by (simp add: overlay_def)
  then show ?thesis using e(1,2,3) demo_sd1_look by simp
qed

theorem sd_roundtrip_witness: "\<exists>sd'. sdWrite ram_ops True (\<lambda>p. True) 0x7FFE [1, 2, 3, 4] demo_sd = (Inr 4, sd') \<and>
    fst (sdRead ram_ops False (\<lambda>p. False) 0x7FFE 4 sd') = Inr [1, 2, 3, 4]"
proof -
  have "\<not> has (sd_flags demo_sd) SD_HANGUP" by (simp add: demo_sd_def has_def)
  from sd_roundtrip [OF demo_sd_reach ram_reads this, where pos = "0x7FFE" and buf = "[1, 2, 3, 4]" and mk = False and got = "\<lambda>p. False"] show ?thesis by auto
qed

theorem write_lost_witness:
  "fst (sdWrite ram_ops False (\<lambda>p. True) 5 [9] demo_sd) = Inr 1 \<and> dev_byte (\<lambda>d. d) (snd (sdWrite ram_ops False (\<lambda>p. True) 5 [9] demo_sd)) 5 = 7"
proof -
  have "\<not> has (sd_flags demo_sd) SD_HANGUP" by (simp add: demo_sd_def has_def)
  from write_lost [OF demo_sd_reach ram_reads this, where pos = 5 and buf = "[9]" and got = "\<lambda>p. True"] demo_sd_empty show ?thesis by simp
qed

end
