(* ===== verification/Spec2Isabelle.thy ===== *)
theory Spec2Isabelle
  imports Gx_Timer Gx_Semaphore Gx_Mutex Gx_FileTable Gx_Events Gx_Pipe Gx_Ptty Gx_RangeLock Gx_CapSock Gx_IpReasm Gx_SlabHeap Gx_PageInfo Gx_FileTree
    Gx_VmShare Gx_SigProps Gx_SchedRun Gx_ProcRun Gx_BlockRun
begin

text \<open>
  A verification development of the kernel of Glidix (\<open>src/kernel\<close>).

  The program. Glidix is an x86-64 operating system: a kernel in C with its boot loader and device
  drivers, a C library, a shell and utilities, a window system, and vendored copies of ACPICA,
  FreeType, libpng and zlib. The development models the core of the kernel: the primitives threads
  synchronise with, the objects behind file descriptors, the memory below and above them, and parts
  of the network stack. One theory models one component, in the order of its source; every
  definition bears the name of the function or struct it translates where it is one.

  Conventions. A C \<open>struct\<close> is a \<open>record\<close>. A pointer is a \<open>nat\<close> or a \<open>nat option\<close> (\<open>None\<close> is
  \<open>NULL\<close>); where the code links objects in place (wait queues, timed events, locked ranges, fragments)
  the store of these objects is a function from addresses to records, \<open>Gx_Links\<close> holds the
  representation predicate of a doubly linked list, and the operations follow and change the links as
  the code does. Elsewhere a list the code only walks is a HOL list. \<open>uint64_t\<close> is \<open>64 word\<close>
  where it may wrap and \<open>nat\<close> where an invariant bounds it; an \<open>int\<close> is an \<open>int\<close> with \<open>c_int\<close>, the
  reduction to 32 bits, where it may overflow. A call that may reach \<open>panic()\<close> returns a \<open>kres\<close>; error
  numbers are returned as the code returns them. A loop that may not end is a \<open>partial_function (option)\<close>
  or carries fuel, and the theorems then say when it returns. Code outside the component (callbacks of
  drivers, the caches that give up frames, the random choices of a scheduler) is a parameter or a field.

  Concurrency. A spinlock, mutex or semaphore that is held from the start to the end of an operation
  makes it one step. An operation that sleeps is cut there: its first part returns a state that says
  the thread waits, and a second definition (\<open>_resume\<close>, \<open>_turn\<close>) is what it does when it runs again.
  Each component that is shared by threads has an \<open>inductive\<close> step relation with a step for each of
  these parts and a \<open>_reach\<close> predicate; the invariants are proved over all reachable states, that is,
  over every interleaving.

  The parts.

  \<^item> \<open>Gx_Prelude\<close>: C integers, \<open>kres\<close>, error numbers, lemmas on words, lists and stores.
    \<open>Gx_Links\<close>: doubly linked lists in a store. \<open>Gx_Ring\<close>: ring buffers and the bytes they hold.
  \<^item> \<open>Gx_Semaphore\<close> (\<open>thread/semaphore.c\<close>): \<open>semWaitGen\<close>, \<open>semSignal2\<close>, \<open>semTerminate\<close>, \<open>semPoll\<close> and what
    calls them, over a kernel state with one store of semaphores and one of waiters. Shown: signals serve the
    longest waiter and hand over what they can; over the histories of one semaphore (\<open>sem_step\<close>: waits, polls of it, signals,
    terminations, ticks) no resource is created or lost and no wake-up is lost; and what \<open>semPoll\<close> returns. A poll of several
    semaphores is modelled but is no step: it may skip a signal (\<open>semPoll_skips_signal\<close>). \<open>Gx_SemSpec\<close> is the interface its clients rely on, the locale \<open>counting_sem\<close>, interpreted
    on the model; pipes, terminals and wait counters use its facts.
  \<^item> \<open>Gx_Mutex\<close> (\<open>thread/mutex.c\<close>): mutual exclusion and hand-over. \<open>Gx_Events\<close> (\<open>thread/condvar.c\<close>,
    \<open>thread/waitcnt.c\<close>): whom a signal wakes and that no count is lost. \<open>Gx_Timer\<close> (\<open>util/time.c\<close>): the list of
    timed events with the tick handler, and \<open>makeUnixTime\<close> against the Gregorian calendar.
  \<^item> \<open>Gx_RangeLock\<close> (\<open>thread/rlock.c\<close>): read and write locks on ranges; which requests are granted, what is
    released, and a partial unlock that widens another range.
  \<^item> \<open>Gx_FileTable\<close> (\<open>thread/ftab.c\<close>, \<open>vfsDup\<close> and \<open>vfsClose\<close>): the count of every open file is the number of slots and calls
    that refer to it. The locale \<open>file_refs\<close> is the contract of the count, interpreted on \<open>vfsDup\<close> and \<open>vfsClose\<close>.
  \<^item> \<open>Gx_Pipe\<close> (\<open>int/pipe.c\<close>) and \<open>Gx_Ptty\<close> (\<open>term/ptty.c\<close>): what is read is what was written, in order; the
    line discipline refines a line editor; buffers stay in bounds; who may change the foreground group.
  \<^item> \<open>Gx_CapSock\<close> (\<open>net/capsock.c\<close>) and \<open>Gx_IpReasm\<close> (\<open>net/ipreasm.c\<close>): queued packets in order; datagrams
    reassembled from fragments in any order, and nothing else delivered.
  \<^item> \<open>Gx_PhysMem\<close> (\<open>hw/physmem.c\<close>), \<open>Gx_SlabHeap\<close> (\<open>util/heap-slab.c\<close>), \<open>Gx_PageInfo\<close>
    (\<open>thread/pageinfo.c\<close>): frames, heap blocks and the reference counts of frames. The locale \<open>frame_pool\<close> is what
    the allocator promises (a frame handed out belonged to nobody), interpreted on \<open>phmAllocSingle\<close> and \<open>phmFreeFrame\<close>.
    The histories of the heap leave out the calls during which the allocator drops a cached track: the recursive \<open>heapLock\<close> would
    then let \<open>kfree\<close> in, which the model of a call as one step does not show.
  \<^item> \<open>Gx_FileTree\<close> (\<open>fs/ftree.c\<close>): the pages of a file. \<open>ft_sys\<close> is every history of reads, writes, truncations,
    evictions and flushes of anonymous and disk-backed trees; a read in it gets the bytes of the abstract file. After a
    truncation of a disk-backed tree the bytes beyond the page of the new end are those that the driver has (\<open>truncated\<close>). The
    callbacks return a status as documented; that no flush fails is a condition of its own (\<open>flush_sure\<close>), since the code
    ignores the status. Truncation returns except at the end of the 64-bit offsets.
  \<^item> \<open>Gx_ProcMem\<close> (\<open>thread/procmem.c\<close>): address spaces, a list of segments and page tables of three levels, with
    \<open>mmap\<close>, page faults, \<open>mprotect\<close>, \<open>fork\<close> and the end of a thread. \<open>Gx_VmSpec\<close>: the segments implement a map from
    pages to mappings (\<open>vm_view\<close>), which \<open>vmMap\<close> updates in exactly the range it is asked for. \<open>Gx_VmInv\<close>: over every history
    (\<open>vm_reach\<close>) the segments partition the 512 GB and the entries of the page tables are consistent. \<open>Gx_VmProps\<close>: how a
    fault ends, and where page tables and segments come apart (permissions that outlive a mapping, pages unmapped at
    wrong addresses, a lock that is kept). \<open>Gx_VmShare\<close>: every frame that \<open>fork\<close> shares is counted, and a write to one
    gives the writer a frame of its own.
  \<^item> \<open>Gx_Signal\<close> (\<open>thread/signal.c\<close>, with the calls of \<open>sched.c\<close> and \<open>syscall.c\<close> that send, mask and return from signals):
    the 64 pending slots of a thread, permissions and the loop of \<open>kill\<close>, the frame a handler runs on. \<open>Gx_SigFrame\<close>: a
    handler is entered with the ABI of the C library, and when it returns the thread continues with the registers, the
    signal mask and the FPU state it had, byte for byte, through the memory of the user stack. \<open>Gx_SigProps\<close>: the
    pending signals are a multiset to which sending adds and from which dispatching takes one that is not blocked;
    nothing a thread does keeps \<open>SIGKILL\<close> from ending it; and what the return path lets a thread do
    that it should not (the I/O privilege level comes from the user's frame).

  \<^item> \<open>Gx_Sched\<close> (\<open>thread/sched.c\<close>, \<open>hw/cpu.c\<close>): the run queues of the sixteen priorities, switching, waiting, waking, \<open>nice\<close>, the
    circular list of threads and the processors, with the step relation \<open>sched_step\<close> of any number of processors.
    \<open>Gx_SchedInv\<close>: the linked queues are lists, and a switch refines an abstract scheduler. \<open>Gx_SchedProps\<close>: on any number of
    processors no thread that may run is lost. \<open>Gx_SchedUni\<close>: on one processor each thread runs, is queued once, or may not run,
    and the list of threads is a ring. \<open>Gx_SchedRun\<close>: threads of one priority take turns; what \<open>nice\<close> can reach; the
    history in which two processors run the same thread.
  \<^item> \<open>Gx_Process\<close> (\<open>thread/sched.c\<close>): credentials with their reference counts, \<open>fork\<close> and thread creation, the ends of threads
    and processes, and the notifications that \<open>wait\<close>, \<open>pthread_join\<close> and \<open>pthread_detach\<close> look for. \<open>Gx_ProcProps\<close>: the invariant of
    \<open>proc_step\<close>, step by step. \<open>Gx_ProcRun\<close>: over every history counts and identities are consistent, the last thread of a
    process reports its end once to a parent that lives, which learns of it once; and the calls that forget a lock, an exit
    status or that there is nothing to wait for.

  \<^item> \<open>Gx_BlockCache\<close> (\<open>storage/storage.c\<close>): the tree of cached tracks of a storage device with \<open>sdRead\<close>, \<open>sdWrite\<close>, the flush
    and the eviction, over any driver, the device files and the list of devices. \<open>Gx_BlockProps\<close>: the tree is a map from
    tracks to contents. \<open>Gx_BlockIO\<close> and \<open>Gx_BlockFlush\<close>: what each operation does to it. \<open>Gx_BlockRun\<close>: over every history
    (\<open>bc_hist\<close>) the device reads like one without a cache, but where a write was reported and lost; a flush brings everything to
    the medium, an eviction ends and loses nothing; and no device file is open twice. The driver returns a status as
    documented (\<open>drive_doc\<close>); that no write fails is a condition of its own (\<open>drive_writes\<close>), since the code ignores the status.
    The allocations inside \<open>sdGetCache\<close> are taken to evict nothing from the same device; \<open>walk_evicted\<close> shows what happens otherwise. The search of \<open>sdTryFree\<close> has fuel for 129 turns in each node, one more than
    a node has entries, and is shown never to run out.

  Not modelled. The hardware (page table walks beyond their three levels, APIC, DMA, PCI, USB, the console), the
  tables of ACPICA, the vendored libraries, user space and the device modules: they are calls into hardware or code
  that is not the kernel's own. Of the kernel, path walking and permissions (\<open>fs/vfs.c\<close>) and the file systems over them, the protocol
  sockets and interfaces (\<open>net/\<close>), the partition tables of disks, the table of system calls with the loader of
  executables (\<open>int/\<close>) and the module linker (\<open>module/\<close>) are left out: each rests on drivers or on threads of its own.

  Bounds. The file tree has the thirteen levels of sixteen entries of the source. Pipes hold 1024 and
  terminals 4096 bytes as in the source. Counts that the code keeps in an \<open>int\<close> are followed below
  \<open>2 ^ 31\<close> where a property says so; the hypothesis is stated there.
\<close>

end
